(* ===== verification/Carthage_Prelude.thy ===== *)
theory Carthage_Prelude
  imports Main "HOL-Library.Word" "HOL-Library.Monad_Syntax"
begin

section \<open>Prelude: words, faults, byte buffers, shared list lemmas\<close>

text \<open>
  Everything the component theories share. The C integer types are \<open>n word\<close> types (the
  model fixes the LP64 layout: \<open>size_t\<close> and \<open>unsigned long\<close> are 64 bits, pointers are 8
  bytes). An operation that can run into undefined behaviour of C (a read or write outside an
  object, a null dereference, a use after free) returns an \<open>option\<close>: \<open>None\<close> is the
  fault, \<open>Some\<close> the outcome; \<open>do\<close> notation threads it. A byte buffer is a list of bytes
  whose length is the size of the C object; \<open>buf_get\<close>, \<open>buf_set\<close>, \<open>buf_read\<close> and
  \<open>buf_write\<close> are the checked accesses.
\<close>

unbundle bit_operations_syntax

type_synonym u8 = "8 word"
type_synonym u16 = "16 word"
type_synonym u32 = "32 word"
type_synonym u64 = "64 word"

named_theorems buf_simps
named_theorems wf_intros

subsection \<open>Checked access to byte buffers\<close>

definition buf_get :: "'a list \<Rightarrow> nat \<Rightarrow> 'a option" where
  "buf_get m i = (if i < length m then Some (m ! i) else None)"

definition buf_set :: "'a list \<Rightarrow> nat \<Rightarrow> 'a \<Rightarrow> 'a list option" where
  "buf_set m i x = (if i < length m then Some (m[i := x]) else None)"

definition buf_read :: "'a list \<Rightarrow> nat \<Rightarrow> nat \<Rightarrow> 'a list option" where
  "buf_read m i n = (if i + n \<le> length m then Some (take n (drop i m)) else None)"

text \<open>\<open>splice m i xs\<close> is the buffer \<open>m\<close> with the bytes \<open>xs\<close> stored from offset \<open>i\<close> on.\<close>

definition splice :: "'a list \<Rightarrow> nat \<Rightarrow> 'a list \<Rightarrow> 'a list" where
  "splice m i xs = take i m @ xs @ drop (i + length xs) m"

definition buf_write :: "'a list \<Rightarrow> nat \<Rightarrow> 'a list \<Rightarrow> 'a list option" where
  "buf_write m i xs = (if i + length xs \<le> length m then Some (splice m i xs) else None)"

lemma buf_get_Some [buf_simps]: "i < length m \<Longrightarrow> buf_get m i = Some (m ! i)"
  by (simp add: buf_get_def)

lemma buf_set_Some [buf_simps]: "i < length m \<Longrightarrow> buf_set m i x = Some (m[i := x])"
  by (simp add: buf_set_def)

lemma buf_read_Some [buf_simps]: "i + n \<le> length m \<Longrightarrow> buf_read m i n = Some (take n (drop i m))"
  by (simp add: buf_read_def)

lemma buf_write_Some [buf_simps]:
  "i + length xs \<le> length m \<Longrightarrow> buf_write m i xs = Some (splice m i xs)"
  by (simp add: buf_write_def)

text \<open>The C library's \<open>memcpy\<close> between two objects.\<close>

definition obj_copy :: "'a list \<Rightarrow> nat \<Rightarrow> 'a list \<Rightarrow> nat \<Rightarrow> nat \<Rightarrow> 'a list option" where
  "obj_copy md d ms s n = do { xs \<leftarrow> buf_read ms s n; buf_write md d xs }"

lemma obj_copy_Some [buf_simps]:
  "s + n \<le> length ms \<Longrightarrow> d + n \<le> length md \<Longrightarrow> obj_copy md d ms s n = Some (splice md d (take n (drop s ms)))"
  by (simp add: obj_copy_def buf_read_Some buf_write_Some)

lemma length_splice [simp]: "i + length xs \<le> length m \<Longrightarrow> length (splice m i xs) = length m"
  by (simp add: splice_def)

lemma splice_Nil [simp]: "splice m i [] = m"
  by (simp add: splice_def)

lemma nth_splice:
  assumes "i + length xs \<le> length m" "j < length m"
  shows "splice m i xs ! j = (if i \<le> j \<and> j < i + length xs then xs ! (j - i) else m ! j)"
proof -
  consider "j < i" | "i \<le> j" "j < i + length xs" | "i + length xs \<le> j" by linarith
  then show ?thesis
  proof cases
    case 1
    with assms show ?thesis by (simp add: splice_def nth_append)
  next
    case 2
    then have "j - i < length xs" by linarith
    with 2 assms show ?thesis by (simp add: splice_def nth_append min_def)
  next
    case 3
    then have "\<not> j - i < length xs" "\<not> j < i" by linarith+
    with assms have "splice m i xs ! j = drop (i + length xs) m ! (j - i - length xs)"
      by (simp add: splice_def nth_append min_def)
    with 3 assms show ?thesis by simp
  qed
qed

lemma take_splice [simp]: "i + length xs \<le> length m \<Longrightarrow> take i (splice m i xs) = take i m"
  by (simp add: splice_def)

lemma drop_splice [simp]:
  "i + length xs \<le> length m \<Longrightarrow> drop (i + length xs) (splice m i xs) = drop (i + length xs) m"
  by (simp add: splice_def)

lemma read_splice [simp]:
  "i + length xs \<le> length m \<Longrightarrow> take (length xs) (drop i (splice m i xs)) = xs"
  by (simp add: splice_def)

lemma splice_all [simp]: "length xs = length m \<Longrightarrow> splice m 0 xs = xs"
  by (simp add: splice_def)

lemma splice_splice_adjacent:
  assumes "i + length xs + length ys \<le> length m"
  shows "splice (splice m i xs) (i + length xs) ys = splice m i (xs @ ys)"
proof -
  have "take (i + length xs) (take i m @ xs @ drop (i + length xs) m) = take i m @ xs"
    using assms by (cases xs) (simp_all add: min_def)
  moreover have "drop (i + length xs + length ys) (take i m @ xs @ drop (i + length xs) m)
      = drop (i + length (xs @ ys)) m"
    using assms by (cases xs) (simp_all add: min_def add.commute add.left_commute)
  ultimately show ?thesis by (simp add: splice_def)
qed

lemma list_update_splice: "i < length m \<Longrightarrow> m[i := x] = splice m i [x]"
  by (simp add: splice_def upd_conv_take_nth_drop)

lemma take_drop_nth:
  "i + n < length m \<Longrightarrow> take (Suc n) (drop i m) = take n (drop i m) @ [m ! (i + n)]"
  by (simp add: take_Suc_conv_app_nth)

lemma take_add_drop: "take (k + j) (drop s m) = take k (drop s m) @ take j (drop (s + k) m)"
  by (simp only: take_add drop_drop add.commute [of s k])

lemma take_drop_Cons:
  "i < length m \<Longrightarrow> take (Suc n) (drop i m) = m ! i # take n (drop (Suc i) m)"
  by (simp add: Cons_nth_drop_Suc [symmetric])

subsection \<open>Lists\<close>

lemma length_concat_update:
  assumes "i < length xss"
  shows "length (concat (xss[i := ys])) + length (xss ! i) = length (concat xss) + length ys"
  using assms
proof (induction xss arbitrary: i)
  case (Cons xs xss)
  then show ?case by (cases i) (auto simp: add.commute add.left_commute)
qed simp

lemma set_concat_nth: "set (concat xss) = (\<Union>i<length xss. set (xss ! i))"
  by (fastforce simp: in_set_conv_nth)

lemma find_None_iff2': "List.find P xs = None \<longleftrightarrow> (\<forall>x \<in> set xs. \<not> P x)"
  by (induction xs) auto

lemma find_SomeD: "List.find P xs = Some x \<Longrightarrow> x \<in> set xs \<and> P x"
  by (induction xs) (auto split: if_splits)

lemma find_Some_unique:
  assumes "x \<in> set xs" "P x" "\<And>y. y \<in> set xs \<Longrightarrow> P y \<Longrightarrow> y = x"
  shows "List.find P xs = Some x"
proof -
  from assms(1,2) obtain z where z: "List.find P xs = Some z"
    using find_None_iff2' [of P xs] by (cases "List.find P xs") auto
  then have "z \<in> set xs" "P z" by (auto dest: find_SomeD)
  then have "z = x" by (rule assms(3))
  with z show ?thesis by simp
qed

lemma takeWhile_len_lt:
  "(\<exists>x \<in> set xs. \<not> P x) \<longleftrightarrow> length (takeWhile P xs) < length xs"
  by (induction xs) auto

lemma nth_takeWhile_stop:
  "length (takeWhile P xs) < length xs \<Longrightarrow> \<not> P (xs ! length (takeWhile P xs))"
  by (induction xs) auto

subsection \<open>Words\<close>

lemma unat_of_nat_u64 [simp]: "n < 2 ^ 64 \<Longrightarrow> unat (of_nat n :: u64) = n"
  by (simp add: unat_of_nat take_bit_nat_eq_self)

lemma unat_align_word:
  fixes y :: u64
  shows "unat (y AND - (2 ^ k)) = unat y - unat y mod 2 ^ k"
proof -
  have "y AND NOT (mask k) = push_bit k (drop_bit k y)" by (rule bit_eqI) (auto simp: bit_simps)
  moreover have "push_bit k (drop_bit k y) = y - take_bit k y" using bits_ident [of k y] by (simp add: algebra_simps)
  moreover have t: "unat (take_bit k y) = unat y mod 2 ^ k"
    by (simp only: unsigned_take_bit_eq) (simp only: take_bit_eq_mod)
  moreover from t have "take_bit k y \<le> y" by (simp add: word_le_nat_alt)
  ultimately show ?thesis by (simp add: minus_exp_eq_not_mask unat_sub)
qed

subsection \<open>The option monad of faults\<close>

lemma bind_Some_iff: "(m \<bind> f) = Some y \<longleftrightarrow> (\<exists>x. m = Some x \<and> f x = Some y)"
  by (cases m) auto

subsection \<open>Evaluation\<close>

text \<open>
  Congruences under which the simplifier evaluates a program in the order it runs: it looks
  into the continuation of a step only when the outcome of the step is known.
\<close>

lemma bind_weak_cong: "m = m' \<Longrightarrow> (m \<bind> f) = (m' \<bind> (f :: 'a \<Rightarrow> 'b option))"
  by simp

lemma replicate_numeral_eval: "replicate (numeral k) x = x # replicate (pred_numeral k) x"
  by (simp add: numeral_eq_Suc)

lemma list_update_numeral_eval: "(x # xs)[numeral k := y] = x # xs[pred_numeral k := y]"
  by (simp add: numeral_eq_Suc)

lemmas list_eval = replicate_numeral_eval list_update_numeral_eval

lemmas eval_cong = bind_weak_cong option.case_cong_weak prod.case_cong_weak sum.case_cong_weak
  list.case_cong_weak let_weak_cong if_weak_cong

end
