(* ===== verification/Allocator.thy ===== *)
theory Allocator
  imports Carthage_Prelude
begin

section \<open>Memory allocators\<close>

text \<open>
  Every container takes an \<open>mmallocator_t\<close> (a pair of callbacks) or falls back on
  \<open>malloc\<close>/\<open>free\<close>. Both are outside the program, so the model makes them a parameter:
  \<open>alk_grant i n\<close> says whether the \<open>i\<close>-th request, for \<open>n\<close> bytes, is granted.
  \<open>alk_live\<close> counts the blocks handed out and not yet released, which is what the leak
  properties of the components speak about.
\<close>

record alk =
  alk_grant :: "nat \<Rightarrow> nat \<Rightarrow> bool"
  alk_calls :: nat
  alk_live :: int

definition mmalloc :: "nat \<Rightarrow> alk \<Rightarrow> bool \<times> alk" where
  "mmalloc n a =
     (let ok = alk_grant a (alk_calls a) n
      in (ok, a\<lparr>alk_calls := Suc (alk_calls a), alk_live := alk_live a + (if ok then 1 else 0)\<rparr>))"

definition mmfree :: "alk \<Rightarrow> alk" where
  "mmfree a = a\<lparr>alk_live := alk_live a - 1\<rparr>"

text \<open>An allocator that never refuses, and one that always does.\<close>

definition alk_generous :: alk where
  "alk_generous = \<lparr>alk_grant = (\<lambda>_ _. True), alk_calls = 0, alk_live = 0\<rparr>"

definition alk_refusing :: alk where
  "alk_refusing = \<lparr>alk_grant = (\<lambda>_ _. False), alk_calls = 0, alk_live = 0\<rparr>"

definition never_refuses :: "alk \<Rightarrow> bool" where
  "never_refuses a \<longleftrightarrow> (\<forall>i n. alk_grant a i n)"

lemma mmalloc_live:
  "mmalloc n a = (ok, a') \<Longrightarrow> alk_live a' = alk_live a + (if ok then 1 else 0)"
  by (auto simp: mmalloc_def Let_def)

lemma mmalloc_grant [simp]: "mmalloc n a = (ok, a') \<Longrightarrow> alk_grant a' = alk_grant a"
  by (auto simp: mmalloc_def Let_def)

lemma mmfree_live [simp]: "alk_live (mmfree a) = alk_live a - 1"
  by (simp add: mmfree_def)

lemma mmfree_grant [simp]: "alk_grant (mmfree a) = alk_grant a"
  by (simp add: mmfree_def)

lemma mmfree_pow_live [simp]: "alk_live ((mmfree ^^ n) a) = alk_live a - int n"
  by (induction n) auto

lemma mmalloc_never_refuses:
  assumes "never_refuses a" "mmalloc n a = (ok, a')"
  shows "ok" and "never_refuses a'"
  using assms unfolding mmalloc_def never_refuses_def Let_def by auto

lemma never_refuses_mmfree [simp]: "never_refuses (mmfree a) = never_refuses a"
  by (simp add: never_refuses_def)

lemma never_refuses_generous [simp]: "never_refuses alk_generous"
  by (simp add: never_refuses_def alk_generous_def)

end
