(* ===== verification/Bucket_Size.thy ===== *)
theory Bucket_Size
  imports Carthage_Prelude
begin

section \<open>Rounding a bucket count up to a power of two\<close>

text \<open>
  \<open>__nbucket_roundup\<close>, the same function in hashtable.c, set.c, bag.c and cache.c: the
  smearing trick on a 64-bit \<open>size_t\<close>. The lemmas show that it returns the least power of two
  that is at least \<open>max 8 n\<close>, for every \<open>n\<close> up to \<open>2 ^ 63\<close>, and that \<open>size++\<close> wraps to 0 above.
\<close>

definition smear :: "nat \<Rightarrow> u64 \<Rightarrow> u64" where
  "smear s x = x OR drop_bit s x"

definition nbucket_roundup :: "u64 \<Rightarrow> u64" where
  "nbucket_roundup n =
     (if n < 8 then 8
      else
        let n = n - 1;
            n = smear 1 n;
            n = smear 2 n;
            n = smear 4 n;
            n = smear 8 n;
            n = smear 16 n;
            n = smear 32 n
        in n + 1)"

lemma bit_smear [simp]: "bit (smear s x) i \<longleftrightarrow> bit x i \<or> bit x (i + s)"
  by (auto simp: smear_def bit_or_iff bit_drop_bit_eq add.commute)

text \<open>One smearing step doubles the reach of the set bits.\<close>

lemma smear_reach:
  assumes "\<And>i. bit y i \<longleftrightarrow> (\<exists>d<w. bit x (i + d))"
  shows "bit (smear w y) i \<longleftrightarrow> (\<exists>d<2 * w. bit x (i + d))"
proof
  assume "bit (smear w y) i"
  then consider "bit y i" | "bit y (i + w)" by auto
  then show "\<exists>d<2 * w. bit x (i + d)"
  proof cases
    case 1
    then obtain d where "d < w" "bit x (i + d)" using assms by auto
    then show ?thesis by (intro exI [of _ d]) auto
  next
    case 2
    then obtain d where "d < w" "bit x (i + w + d)" using assms by auto
    then show ?thesis by (intro exI [of _ "w + d"]) (auto simp: add.assoc)
  qed
next
  assume "\<exists>d<2 * w. bit x (i + d)"
  then obtain d where d: "d < 2 * w" "bit x (i + d)" by auto
  show "bit (smear w y) i"
  proof (cases "d < w")
    case True
    with d assms show ?thesis by auto
  next
    case False
    with d have "bit x (i + w + (d - w))" "d - w < w" by auto
    then have "bit y (i + w)" using assms by blast
    then show ?thesis by simp
  qed
qed

definition smeared :: "u64 \<Rightarrow> u64" where
  "smeared x = smear 32 (smear 16 (smear 8 (smear 4 (smear 2 (smear 1 x)))))"

lemma bit_smeared: "bit (smeared x) i \<longleftrightarrow> (\<exists>d. bit x (i + d))"
proof -
  have 0: "\<And>i. bit x i \<longleftrightarrow> (\<exists>d<1. bit x (i + d))" by auto
  have 1: "\<And>i. bit (smear 1 x) i \<longleftrightarrow> (\<exists>d<2. bit x (i + d))"
    using smear_reach [OF 0] by simp
  have 2: "\<And>i. bit (smear 2 (smear 1 x)) i \<longleftrightarrow> (\<exists>d<4. bit x (i + d))"
    using smear_reach [OF 1] by simp
  have 3: "\<And>i. bit (smear 4 (smear 2 (smear 1 x))) i \<longleftrightarrow> (\<exists>d<8. bit x (i + d))"
    using smear_reach [OF 2] by simp
  have 4: "\<And>i. bit (smear 8 (smear 4 (smear 2 (smear 1 x)))) i \<longleftrightarrow> (\<exists>d<16. bit x (i + d))"
    using smear_reach [OF 3] by simp
  have 5: "\<And>i. bit (smear 16 (smear 8 (smear 4 (smear 2 (smear 1 x))))) i
      \<longleftrightarrow> (\<exists>d<32. bit x (i + d))"
    using smear_reach [OF 4] by simp
  have 6: "\<And>i. bit (smeared x) i \<longleftrightarrow> (\<exists>d<64. bit x (i + d))"
    using smear_reach [OF 5] by (simp add: smeared_def)
  have "d < 64" if "bit x (i + d)" for d
    using that bit_imp_le_length by fastforce
  with 6 show ?thesis by blast
qed

text \<open>A word between two neighbouring powers of two has its top bit at the lower exponent.\<close>

lemma top_bit:
  fixes x :: u64
  assumes "2 ^ k \<le> unat x" "unat x < 2 ^ Suc k"
  shows "bit x k" and "\<And>j. k < j \<Longrightarrow> \<not> bit x j"
proof -
  have "unat x div 2 ^ k = 1"
    using assms by (intro div_nat_eqI) auto
  then have "bit (unat x) k" by (simp add: bit_iff_odd)
  then show "bit x k" by (simp add: bit_unsigned_iff)
  show "\<not> bit x j" if "k < j" for j
  proof -
    have "(2::nat) ^ Suc k \<le> 2 ^ j"
      using that by (intro power_increasing) auto
    with assms(2) have "unat x div 2 ^ j = 0" by simp
    then have "\<not> bit (unat x) j" by (simp add: bit_iff_odd)
    then show ?thesis by (simp add: bit_unsigned_iff)
  qed
qed

lemma smeared_mask:
  assumes "2 ^ k \<le> unat x" "unat x < 2 ^ Suc k"
  shows "smeared x = mask (Suc k)"
proof (rule bit_word_eqI)
  fix n :: nat
  assume "n < LENGTH(64)"
  have "(\<exists>d. bit x (n + d)) \<longleftrightarrow> n \<le> k"
  proof
    assume "\<exists>d. bit x (n + d)"
    then obtain d where "bit x (n + d)" ..
    with top_bit(2) [OF assms, of "n + d"] show "n \<le> k" by linarith
  next
    assume "n \<le> k"
    with top_bit(1) [OF assms] show "\<exists>d. bit x (n + d)" by (intro exI [of _ "k - n"]) simp
  qed
  with \<open>n < LENGTH(64)\<close> show "bit (smeared x) n \<longleftrightarrow> bit (mask (Suc k) :: u64) n"
    by (auto simp: bit_smeared bit_mask_iff)
qed

lemma nbucket_roundup_smeared:
  "nbucket_roundup n = (if n < 8 then 8 else smeared (n - 1) + 1)"
  by (simp add: nbucket_roundup_def smeared_def Let_def)

lemma nbucket_roundup_exact:
  assumes "2 ^ k < unat n" "unat n \<le> 2 ^ Suc k" "3 \<le> Suc k" "8 \<le> n"
  shows "nbucket_roundup n = 2 ^ Suc k"
proof -
  have "unat n \<noteq> 0" using assms(1) by simp
  then have pred: "unat (n - 1) = unat n - 1"
    by (metis unat_eq_zero unat_minus_one)
  have "smeared (n - 1) = mask (Suc k)"
    using assms(1,2) by (intro smeared_mask) (auto simp: pred)
  then show ?thesis
    using assms(4) by (simp add: nbucket_roundup_smeared mask_eq_exp_minus_1 not_less [symmetric])
qed

lemma between_powers:
  fixes n :: nat
  assumes "2 \<le> n"
  obtains k where "2 ^ k < n" "n \<le> 2 ^ Suc k"
proof -
  define k where "k = (LEAST k. n \<le> 2 ^ Suc k)"
  have ex: "\<exists>k. n \<le> 2 ^ Suc k"
    by (rule exI [of _ n]) (metis less_exp less_imp_le_nat lessI order.trans)
  then have le: "n \<le> 2 ^ Suc k" unfolding k_def by (rule LeastI_ex)
  have "2 ^ k < n"
  proof (cases k)
    case 0
    with assms show ?thesis by simp
  next
    case (Suc j)
    then have "\<not> n \<le> 2 ^ Suc j" using not_less_Least [of j "\<lambda>k. n \<le> 2 ^ Suc k"] by (simp add: k_def)
    with Suc show ?thesis by simp
  qed
  with le that show ?thesis by blast
qed

text \<open>The view the tables use: on \<open>nat\<close>, through the 64-bit computation.\<close>

definition roundup :: "nat \<Rightarrow> nat" where
  "roundup n = unat (nbucket_roundup (of_nat n))"

lemma roundup_small: "n < 8 \<Longrightarrow> roundup n = 8"
  by (simp add: roundup_def nbucket_roundup_def word_less_nat_alt)

lemma roundup_between:
  assumes "2 ^ k < n" "n \<le> 2 ^ Suc k" "8 \<le> n" "k < 63"
  shows "roundup n = 2 ^ Suc k"
proof -
  have "(2::nat) ^ Suc k \<le> 2 ^ 63" using assms(4) by (intro power_increasing) auto
  with assms(2) have n: "n < 2 ^ 64" by (simp add: order.strict_trans1)
  have "\<not> k < 2"
  proof
    assume "k < 2"
    then have "(2::nat) ^ Suc k \<le> 2 ^ 2" by (intro power_increasing) auto
    with assms(2,3) show False by simp
  qed
  then have "nbucket_roundup (of_nat n) = 2 ^ Suc k"
    using assms n by (intro nbucket_roundup_exact) (simp_all add: word_le_nat_alt)
  moreover have "unat (2 ^ Suc k :: u64) = 2 ^ Suc k"
  proof -
    have "(2 :: u64) ^ Suc k = of_nat (2 ^ Suc k)" by simp
    moreover have "(2::nat) ^ Suc k < 2 ^ 64" using assms(4) by (intro power_strict_increasing) auto
    ultimately show ?thesis by (metis unat_of_nat_u64)
  qed
  ultimately show ?thesis by (simp add: roundup_def)
qed

lemma roundup_pow2: "3 \<le> k \<Longrightarrow> k \<le> 63 \<Longrightarrow> roundup (2 ^ k) = 2 ^ k"
proof -
  assume k: "3 \<le> k" "k \<le> 63"
  then obtain j where j: "k = Suc j" by (cases k) auto
  have "(2::nat) ^ 3 \<le> 2 ^ k" using k(1) by (intro power_increasing) auto
  then have "8 \<le> (2::nat) ^ Suc j" unfolding j by simp
  moreover have "(2::nat) ^ j < 2 ^ Suc j" by simp
  moreover have "j < 63" using k(2) j by simp
  ultimately show ?thesis unfolding j by (intro roundup_between [of j]) simp_all
qed

lemma roundup_props:
  assumes "n \<le> 2 ^ 63"
  shows "\<exists>k. 3 \<le> k \<and> k \<le> 63 \<and> roundup n = 2 ^ k" and "n \<le> roundup n"
    and "8 \<le> roundup n" and "8 \<le> n \<Longrightarrow> roundup n < 2 * n"
proof -
  have *: "(\<exists>k. 3 \<le> k \<and> k \<le> 63 \<and> roundup n = 2 ^ k) \<and> n \<le> roundup n \<and> 8 \<le> roundup n
    \<and> (8 \<le> n \<longrightarrow> roundup n < 2 * n)"
  proof (cases "n < 8")
    case True
    then have "roundup n = 2 ^ 3" by (simp add: roundup_small)
    moreover have "(3::nat) \<le> 3 \<and> (3::nat) \<le> 63" by simp
    ultimately have "\<exists>k. 3 \<le> k \<and> k \<le> 63 \<and> roundup n = 2 ^ k" by blast
    with True show ?thesis by (simp add: roundup_small)
  next
    case False
    then have "2 \<le> n" by simp
    then obtain k where k: "2 ^ k < n" "n \<le> 2 ^ Suc k"
      by (rule between_powers)
    have "k < 63"
    proof (rule ccontr)
      assume "\<not> k < 63"
      then have "(2::nat) ^ 63 \<le> 2 ^ k" by (intro power_increasing) auto
      with k(1) assms show False by linarith
    qed
    with k False have r: "roundup n = 2 ^ Suc k" by (intro roundup_between) auto
    have "2 \<le> k"
    proof (rule ccontr)
      assume "\<not> 2 \<le> k"
      then have "(2::nat) ^ Suc k \<le> 2 ^ 2" by (intro power_increasing) auto
      with k False show False by simp
    qed
    moreover have "8 \<le> roundup n"
      using r k False by simp
    moreover have "\<exists>k. 3 \<le> k \<and> k \<le> 63 \<and> roundup n = 2 ^ k"
      using r \<open>2 \<le> k\<close> \<open>k < 63\<close> by (intro exI [of _ "Suc k"]) simp
    ultimately show ?thesis using r k by simp
  qed
  from * show "\<exists>k. 3 \<le> k \<and> k \<le> 63 \<and> roundup n = 2 ^ k" by blast
  from * show "n \<le> roundup n" by blast
  from * show "8 \<le> roundup n" by blast
  from * show "8 \<le> n \<Longrightarrow> roundup n < 2 * n" by blast
qed

lemma nbucket_roundup_wraps: "2 ^ 63 < unat n \<Longrightarrow> nbucket_roundup n = 0"
proof -
  assume n: "2 ^ 63 < unat n"
  have "unat n < 2 ^ 64" using unsigned_less [of n] by simp
  then have "smeared (n - 1) = mask (Suc 63)"
    using n by (intro smeared_mask) (auto simp: unat_minus_one unat_eq_zero [symmetric])
  with n show ?thesis
    by (simp add: nbucket_roundup_smeared mask_eq_exp_minus_1 word_less_nat_alt)
qed

lemma roundup_bound:
  assumes "n \<le> 2 ^ 28" shows "roundup n < 2 ^ 29"
proof (cases "8 \<le> n")
  case True
  then have "roundup n < 2 * n" using assms by (intro roundup_props(4)) simp_all
  with assms show ?thesis by simp
qed (simp add: roundup_small)

end
