(* ===== verification/Chained_Table.thy ===== *)
theory Chained_Table
  imports Allocator Bucket_Size "HOL-Library.Multiset"
begin

section \<open>The chained hash table shared by hashtable.c, set.c and bag.c\<close>

text \<open>
  The three containers are the same C code over nodes that differ in their payload: a value
  pointer (hashtable.c), nothing (set.c), a count (bag.c). This theory holds that code once,
  over nodes with a payload of type \<open>'v\<close>; the theories of the three containers specialise it.

  A bucket chain (nodes linked through \<open>next\<close>) is a list; the \<open>hashnode_t **\<close> that
  \<open>__hashnode_lookup\<close> returns is the pair of a bucket index and a position in its chain, and
  the slot it denotes is NULL when the position is the length of the chain. The free pool is
  the list of the pooled nodes. The calls of \<open>key_free_func\<close> and \<open>value_free_func\<close> are
  recorded in order. Sizes count objects in memory and are \<open>nat\<close>; the hash, the mask and the
  rounding of the size are computed on 64-bit words.
\<close>

subsection \<open>Key operations\<close>

text \<open>
  What the tables rely on of the client's \<open>keycmp_t\<close> and hash callbacks: comparing equal is an
  equivalence, and equal keys hash alike.
\<close>

locale key_ops =
  fixes hash :: "'k \<Rightarrow> u64" and cmp :: "'k \<Rightarrow> 'k \<Rightarrow> int"
  assumes cmp_refl: "cmp k k = 0"
    and cmp_sym: "cmp a b = 0 \<Longrightarrow> cmp b a = 0"
    and cmp_trans: "cmp a b = 0 \<Longrightarrow> cmp b c = 0 \<Longrightarrow> cmp a c = 0"
    and hash_compat: "cmp a b = 0 \<Longrightarrow> hash a = hash b"

subsection \<open>State\<close>

datatype ('k, 'v) hashnode = HashNode (hn_key: 'k) (hn_value: 'v)

record ('k, 'v) table =
  tb_bucket :: "('k, 'v) hashnode list list"
  tb_alk :: alk
  tb_hash :: "'k \<Rightarrow> u64"
  tb_keycmp :: "'k \<Rightarrow> 'k \<Rightarrow> int"
  tb_frees_keys :: bool
  tb_frees_values :: bool
  tb_freed_keys :: "'k list"
  tb_freed_values :: "'v list"
  tb_pool :: "('k, 'v) hashnode list"
  tb_pool_size :: nat
  tb_size :: nat
  tb_used :: nat

abbreviation tb_nodes :: "('k, 'v) table \<Rightarrow> ('k, 'v) hashnode list" where
  "tb_nodes t \<equiv> concat (tb_bucket t)"

subsection \<open>Node allocation and release\<close>

definition pool_limit :: nat where "pool_limit = 32"

definition node_alloc ::
    "nat \<Rightarrow> 'k \<Rightarrow> 'v \<Rightarrow> ('k, 'v) table \<Rightarrow> ('k, 'v) hashnode option \<times> ('k, 'v) table" where
  "node_alloc bytes k v t =
     (case tb_pool t of
        _ # ps \<Rightarrow> (Some (HashNode k v), t\<lparr>tb_pool := ps, tb_pool_size := tb_pool_size t - 1\<rparr>)
      | [] \<Rightarrow>
          (case mmalloc bytes (tb_alk t) of
             (ok, a) \<Rightarrow> (if ok then Some (HashNode k v) else None, t\<lparr>tb_alk := a\<rparr>)))"

definition key_free :: "'k \<Rightarrow> ('k, 'v) table \<Rightarrow> ('k, 'v) table" where
  "key_free k t = (if tb_frees_keys t then t\<lparr>tb_freed_keys := tb_freed_keys t @ [k]\<rparr> else t)"

definition value_free :: "'v \<Rightarrow> ('k, 'v) table \<Rightarrow> ('k, 'v) table" where
  "value_free v t =
     (if tb_frees_values t then t\<lparr>tb_freed_values := tb_freed_values t @ [v]\<rparr> else t)"

definition node_free :: "('k, 'v) hashnode \<Rightarrow> ('k, 'v) table \<Rightarrow> ('k, 'v) table" where
  "node_free p t =
     (let t = value_free (hn_value p) (key_free (hn_key p) t)
      in if tb_pool_size t < pool_limit
         then t\<lparr>tb_pool := p # tb_pool t, tb_pool_size := Suc (tb_pool_size t)\<rparr>
         else t\<lparr>tb_alk := mmfree (tb_alk t)\<rparr>)"

subsection \<open>Lookup: the slot of a key\<close>

definition tb_index :: "('k, 'v) table \<Rightarrow> 'k \<Rightarrow> nat" where
  "tb_index t k = unat (tb_hash t k AND (of_nat (tb_size t) - 1))"

definition chain_pos :: "('k \<Rightarrow> 'k \<Rightarrow> int) \<Rightarrow> 'k \<Rightarrow> ('k, 'v) hashnode list \<Rightarrow> nat" where
  "chain_pos cmp k ns = length (takeWhile (\<lambda>n. cmp (hn_key n) k \<noteq> 0) ns)"

definition node_lookup :: "('k, 'v) table \<Rightarrow> 'k \<Rightarrow> nat \<times> nat" where
  "node_lookup t k = (let i = tb_index t k in (i, chain_pos (tb_keycmp t) k (tb_bucket t ! i)))"

text \<open>
  Reading through a slot, writing a pointer to \<open>ns\<close> (a chain) into it, and writing the
  payload of the node it points to.
\<close>

definition slot_node :: "('k, 'v) table \<Rightarrow> nat \<times> nat \<Rightarrow> ('k, 'v) hashnode option" where
  "slot_node t s = buf_get (tb_bucket t ! fst s) (snd s)"

definition slot_set ::
    "nat \<times> nat \<Rightarrow> ('k, 'v) hashnode list \<Rightarrow> ('k, 'v) table \<Rightarrow> ('k, 'v) table" where
  "slot_set s ns t =
     t\<lparr>tb_bucket := (tb_bucket t)[fst s := take (snd s) (tb_bucket t ! fst s) @ ns]\<rparr>"

definition slot_value :: "nat \<times> nat \<Rightarrow> 'v \<Rightarrow> ('k, 'v) table \<Rightarrow> ('k, 'v) table" where
  "slot_value s v t =
     (let c = tb_bucket t ! fst s
      in t\<lparr>tb_bucket := (tb_bucket t)
           [fst s := c[snd s := HashNode (hn_key (c ! snd s)) v]]\<rparr>)"

definition slot_rest :: "('k, 'v) table \<Rightarrow> nat \<times> nat \<Rightarrow> ('k, 'v) hashnode list" where
  "slot_rest t s = drop (Suc (snd s)) (tb_bucket t ! fst s)"

subsection \<open>Resizing\<close>

text \<open>
  The callback takes a \<open>uint32_t\<close>, so the byte count of the bucket array is cut to 32 bits;
  the \<open>memset\<close> that follows clears all of it. Where the two differ the granted block is too
  small and the \<open>memset\<close> runs past it: a fault. From 2^61 buckets on the count of the \<open>memset\<close>
  wraps in \<open>size_t\<close> too and it may stay in the block; the table would then have more buckets than
  its block has, and the model has the fault at the allocation instead of at the first use of one of them.
\<close>

definition bucket_alloc :: "nat \<Rightarrow> alk \<Rightarrow> (bool \<times> alk) option" where
  "bucket_alloc n a =
     (case mmalloc (8 * n mod 2 ^ 32) a of
        (ok, a) \<Rightarrow> if ok \<and> 8 * n mod 2 ^ 32 < 8 * n then None else Some (ok, a))"

definition relink :: "('k, 'v) hashnode \<Rightarrow> ('k, 'v) table \<Rightarrow> ('k, 'v) table" where
  "relink p t = slot_set (node_lookup t (hn_key p)) [p] t"

definition table_resize :: "nat \<Rightarrow> ('k, 'v) table \<Rightarrow> (int \<times> ('k, 'v) table) option" where
  "table_resize new_size t =
     do {
       let n = roundup new_size;
       (ok, a) \<leftarrow> bucket_alloc n (tb_alk t);
       if \<not> ok then Some (- 1, t\<lparr>tb_alk := a\<rparr>)
       else do {
         let nodes = concat (rev (tb_bucket t));
         let t1 = t\<lparr>tb_alk := a, tb_size := n, tb_bucket := replicate n []\<rparr>;
         let t2 = fold relink nodes t1;
         Some (0, t2\<lparr>tb_alk := mmfree (tb_alk t2)\<rparr>)
       }
     }"

subsection \<open>Public operations, up to the payload\<close>

definition table_alloc ::
    "nat \<Rightarrow> ('k \<Rightarrow> 'k \<Rightarrow> int) \<Rightarrow> ('k \<Rightarrow> u64) \<Rightarrow> alk \<Rightarrow> bool \<Rightarrow> bool
      \<Rightarrow> (alk + ('k, 'v) table) option" where
  "table_alloc n cmp hash alk frees_keys frees_values =
     do {
       let n = roundup n;
       (ok, a) \<leftarrow> bucket_alloc n alk;
       if \<not> ok then Some (Inl a)
       else Some (Inr \<lparr>tb_bucket = replicate n [], tb_alk = a, tb_hash = hash, tb_keycmp = cmp,
              tb_frees_keys = frees_keys, tb_frees_values = frees_values,
              tb_freed_keys = [], tb_freed_values = [],
              tb_pool = [], tb_pool_size = 0, tb_size = n, tb_used = 0\<rparr>)
     }"

text \<open>The part of an insertion after the lookup found no node: grow, then link a new node.\<close>

definition table_grow :: "('k, 'v) table \<Rightarrow> (int \<times> ('k, 'v) table) option" where
  "table_grow t =
     (if tb_used t > tb_size t + tb_size t div 8
      then table_resize (tb_size t + (if tb_size t < 64 then tb_size t div 2 else tb_size t)) t
      else Some (0, t))"

definition table_add ::
    "nat \<Rightarrow> 'k \<Rightarrow> 'v \<Rightarrow> ('k, 'v) table \<Rightarrow> (int \<times> ('k, 'v) table) option" where
  "table_add bytes k v t =
     do {
       (r, t1) \<leftarrow> table_grow t;
       if r \<noteq> 0 then Some (- 1, t1)
       else do {
         let s = node_lookup t1 k;
         (case node_alloc bytes k v t1 of
            (None, t2) \<Rightarrow> Some (- 2, slot_set s [] t2)
          | (Some p, t2) \<Rightarrow>
              Some (0, (slot_set s [p] t2)\<lparr>tb_used := Suc (tb_used t2)\<rparr>))
       }
     }"

text \<open>Unlink the node in a slot, release it, and shrink.\<close>

definition table_unlink ::
    "nat \<times> nat \<Rightarrow> ('k, 'v) hashnode \<Rightarrow> ('k, 'v) table \<Rightarrow> (int \<times> ('k, 'v) table) option" where
  "table_unlink s p t =
     do {
       let t1 = node_free p (slot_set s (slot_rest t s) t);
       let t2 = t1\<lparr>tb_used := tb_used t1 - 1\<rparr>;
       if tb_used t2 < tb_size t2 div 2 - tb_size t2 div 4
       then do { (_, t3) \<leftarrow> table_resize (tb_size t2 div 2) t2; Some (0, t3) }
       else Some (0, t2)
     }"

definition table_remove :: "'k \<Rightarrow> ('k, 'v) table \<Rightarrow> (int \<times> ('k, 'v) table) option" where
  "table_remove k t =
     (let s = node_lookup t k
      in case slot_node t s of None \<Rightarrow> Some (- 1, t) | Some p \<Rightarrow> table_unlink s p t)"

definition clear_bucket :: "nat \<Rightarrow> ('k, 'v) table \<Rightarrow> ('k, 'v) table" where
  "clear_bucket i t =
     (let t = fold node_free (tb_bucket t ! i) t in t\<lparr>tb_bucket := (tb_bucket t)[i := []]\<rparr>)"

definition table_clear :: "('k, 'v) table \<Rightarrow> (int \<times> ('k, 'v) table) option" where
  "table_clear t =
     do {
       let t1 = fold clear_bucket (rev [0..<tb_size t]) t;
       let t2 = t1\<lparr>tb_used := 0\<rparr>;
       if tb_size t2 > 1024
       then do { (_, t3) \<leftarrow> table_resize (tb_size t2 div 8) t2; Some (0, t3) }
       else Some (0, t2)
     }"

definition table_free :: "('k, 'v) table \<Rightarrow> ('k, 'v) table option" where
  "table_free t =
     do {
       (_, t1) \<leftarrow> table_clear t;
       let t2 = t1\<lparr>tb_alk := (mmfree ^^ length (tb_pool t1)) (tb_alk t1)\<rparr>;
       Some (t2\<lparr>tb_alk := mmfree (tb_alk t2)\<rparr>)
     }"

text \<open>The callbacks of a traversal, in their order: the last bucket first.\<close>

definition table_foreach :: "('k, 'v) table \<Rightarrow> ('k \<times> 'v) list" where
  "table_foreach t = map (\<lambda>n. (hn_key n, hn_value n)) (concat (rev (tb_bucket t)))"

definition table_get :: "('k, 'v) table \<Rightarrow> 'k \<Rightarrow> ('k, 'v) hashnode option" where
  "table_get t k = slot_node t (node_lookup t k)"

text \<open>Evaluating the table operations on a concrete table.\<close>

lemmas table_eval = pool_limit_def node_alloc_def key_free_def value_free_def node_free_def
  tb_index_def chain_pos_def node_lookup_def slot_node_def slot_set_def slot_value_def
  slot_rest_def bucket_alloc_def relink_def table_resize_def table_alloc_def table_grow_def
  table_add_def table_unlink_def table_remove_def clear_bucket_def table_clear_def
  table_free_def table_foreach_def table_get_def buf_get_def mmalloc_def mmfree_def
  alk_generous_def alk_refusing_def roundup_small list_eval

end
