(* ===== verification/Table_Correct.thy ===== *)
theory Table_Correct
  imports Chained_Table
begin

section \<open>Correctness of the chained table\<close>

text \<open>
  The well-formedness invariant \<open>tb_wf\<close> of a table and the effect of every operation on it,
  proved once for the three containers. The abstract view of a table is \<open>table_get\<close>, the
  node found for a key.
\<close>

subsection \<open>Key classes\<close>

definition keyclass :: "('k \<Rightarrow> 'k \<Rightarrow> int) \<Rightarrow> 'k \<Rightarrow> 'k set" where
  "keyclass cmp k = {k'. cmp k k' = 0}"

definition node_find :: "('k \<Rightarrow> 'k \<Rightarrow> int) \<Rightarrow> 'k \<Rightarrow> ('k, 'v) hashnode list \<Rightarrow> ('k, 'v) hashnode option"
  where "node_find cmp k ns = List.find (\<lambda>n. cmp (hn_key n) k = 0) ns"

abbreviation node_class :: "('k \<Rightarrow> 'k \<Rightarrow> int) \<Rightarrow> ('k, 'v) hashnode \<Rightarrow> 'k set" where
  "node_class cmp n \<equiv> keyclass cmp (hn_key n)"

context key_ops begin

lemma keyclass_eq_iff: "keyclass cmp a = keyclass cmp b \<longleftrightarrow> cmp a b = 0"
proof
  assume "keyclass cmp a = keyclass cmp b"
  then have "b \<in> keyclass cmp a" by (simp add: keyclass_def cmp_refl)
  then show "cmp a b = 0" by (simp add: keyclass_def)
next
  assume "cmp a b = 0"
  then show "keyclass cmp a = keyclass cmp b"
    by (auto simp: keyclass_def dest: cmp_sym intro: cmp_trans)
qed

lemma node_find_Some:
  assumes "distinct (map (node_class cmp) ns)" "n \<in> set ns" "cmp (hn_key n) k = 0"
  shows "node_find cmp k ns = Some n"
  unfolding node_find_def
proof (rule find_Some_unique [OF assms(2)])
  show "cmp (hn_key n) k = 0" by (rule assms(3))
next
  fix m assume "m \<in> set ns" "cmp (hn_key m) k = 0"
  with assms(3) have "node_class cmp m = node_class cmp n"
    by (metis cmp_sym cmp_trans keyclass_eq_iff)
  with \<open>m \<in> set ns\<close> assms(1,2) show "m = n" by (simp add: distinct_map inj_on_def)
qed

lemma node_find_None: "node_find cmp k ns = None \<longleftrightarrow> (\<forall>n \<in> set ns. cmp (hn_key n) k \<noteq> 0)"
  by (auto simp: node_find_def find_None_iff2')

lemma node_find_mset:
  assumes "mset ns = mset ms" "distinct (map (node_class cmp) ns)"
  shows "node_find cmp k ns = node_find cmp k ms"
proof -
  have set: "set ns = set ms" using assms(1) by (metis set_mset_mset)
  have dist: "distinct (map (node_class cmp) ms)"
    using assms by (metis mset_eq_imp_distinct_iff mset_map)
  show ?thesis
  proof (cases "\<exists>n \<in> set ns. cmp (hn_key n) k = 0")
    case True
    then obtain n where "n \<in> set ns" "cmp (hn_key n) k = 0" by blast
    with assms dist set show ?thesis by (simp add: node_find_Some)
  next
    case False
    with set show ?thesis by (metis node_find_None)
  qed
qed

lemma node_find_Cons:
  "node_find cmp k (n # ns) = (if cmp (hn_key n) k = 0 then Some n else node_find cmp k ns)"
  by (simp add: node_find_def)

end

subsection \<open>The invariant\<close>

definition idx :: "('k \<Rightarrow> u64) \<Rightarrow> nat \<Rightarrow> ('k, 'v) hashnode \<Rightarrow> nat" where
  "idx hash sz n = unat (hash (hn_key n) AND (of_nat sz - 1))"

definition placed :: "('k \<Rightarrow> u64) \<Rightarrow> nat \<Rightarrow> ('k, 'v) hashnode list list \<Rightarrow> bool" where
  "placed hash sz b \<longleftrightarrow> (\<forall>i < length b. \<forall>n \<in> set (b ! i). idx hash sz n = i)"

definition tb_wf :: "('k, 'v) table \<Rightarrow> bool" where
  "tb_wf t \<longleftrightarrow>
     key_ops (tb_hash t) (tb_keycmp t)
     \<and> length (tb_bucket t) = tb_size t
     \<and> (\<exists>k. 3 \<le> k \<and> k \<le> 28 \<and> tb_size t = 2 ^ k)
     \<and> placed (tb_hash t) (tb_size t) (tb_bucket t)
     \<and> distinct (map (node_class (tb_keycmp t)) (tb_nodes t))
     \<and> tb_used t = length (tb_nodes t)
     \<and> tb_pool_size t = length (tb_pool t)
     \<and> tb_pool_size t \<le> pool_limit"

text \<open>The blocks a table owns: its nodes, its pooled nodes and its bucket array.\<close>

definition tb_blocks :: "('k, 'v) table \<Rightarrow> int" where
  "tb_blocks t = int (length (tb_nodes t)) + int (length (tb_pool t)) + 1"

text \<open>What no operation changes.\<close>

definition same_client :: "('k, 'v) table \<Rightarrow> ('k, 'v) table \<Rightarrow> bool" where
  "same_client t t' \<longleftrightarrow> tb_hash t' = tb_hash t \<and> tb_keycmp t' = tb_keycmp t
     \<and> tb_frees_keys t' = tb_frees_keys t \<and> tb_frees_values t' = tb_frees_values t
     \<and> alk_grant (tb_alk t') = alk_grant (tb_alk t)"

lemma same_client_refl [simp]: "same_client t t"
  by (simp add: same_client_def)

lemma same_client_trans: "same_client t u \<Longrightarrow> same_client u v \<Longrightarrow> same_client t v"
  by (simp add: same_client_def)

lemma tb_wfD:
  assumes "tb_wf t"
  shows "key_ops (tb_hash t) (tb_keycmp t)" and "length (tb_bucket t) = tb_size t"
    and "8 \<le> tb_size t" and "tb_size t \<le> 2 ^ 28"
    and "placed (tb_hash t) (tb_size t) (tb_bucket t)"
    and "distinct (map (node_class (tb_keycmp t)) (tb_nodes t))"
    and "tb_used t = length (tb_nodes t)"
    and "tb_pool_size t = length (tb_pool t)" and "length (tb_pool t) \<le> pool_limit"
proof -
  from assms obtain k where k: "3 \<le> k" "k \<le> 28" "tb_size t = 2 ^ k"
    by (auto simp: tb_wf_def)
  have "(2::nat) ^ 3 \<le> 2 ^ k" "(2::nat) ^ k \<le> 2 ^ 28"
    using power_increasing [OF k(1), of "2::nat"] power_increasing [OF k(2), of "2::nat"] by simp_all
  then show "8 \<le> tb_size t" "tb_size t \<le> 2 ^ 28" by (simp_all add: k(3))
qed (use assms in \<open>auto simp: tb_wf_def\<close>)

lemma tb_wfI:
  assumes "tb_wf t" "same_client t t'" "tb_size t' = tb_size t"
    "length (tb_bucket t') = tb_size t" "placed (tb_hash t) (tb_size t) (tb_bucket t')"
    "distinct (map (node_class (tb_keycmp t)) (tb_nodes t'))"
    "tb_used t' = length (tb_nodes t')"
    "tb_pool_size t' = length (tb_pool t')" "length (tb_pool t') \<le> pool_limit"
  shows "tb_wf t'"
  using assms unfolding tb_wf_def same_client_def by (simp del: length_concat distinct_map)

lemma unat_and_pow2_less:
  fixes h :: u64
  assumes "k \<le> 63"
  shows "unat (h AND (of_nat (2 ^ k) - 1)) < 2 ^ k"
proof -
  have "(of_nat (2 ^ k) - 1 :: u64) = mask k" by (simp add: mask_eq_exp_minus_1)
  then have "unat (h AND (of_nat (2 ^ k) - 1)) = take_bit k (unat h)"
    using assms by (simp flip: take_bit_eq_mask add: unsigned_take_bit_eq)
  then show ?thesis by simp
qed

lemma idx_less: "tb_wf t \<Longrightarrow> idx (tb_hash t) (tb_size t) n < tb_size t"
  unfolding tb_wf_def idx_def using unat_and_pow2_less by fastforce

lemma tb_index_less: "tb_wf t \<Longrightarrow> tb_index t k < tb_size t"
  unfolding tb_wf_def tb_index_def using unat_and_pow2_less by fastforce

lemma tb_index_idx: "tb_index t (hn_key n) = idx (tb_hash t) (tb_size t) n"
  by (simp add: tb_index_def idx_def)

subsection \<open>Lookup\<close>

lemma chain_find: "buf_get ns (chain_pos cmp k ns) = node_find cmp k ns"
proof (induction ns)
  case (Cons n ns)
  then show ?case
    by (auto simp: chain_pos_def node_find_def buf_get_def)
qed (simp add: chain_pos_def node_find_def buf_get_def)

lemma distinct_map_chain:
  assumes "distinct (map f (concat b))" "i < length b"
  shows "distinct (map f (b ! i))"
proof -
  have "concat b = concat (take i b) @ b ! i @ concat (drop (Suc i) b)"
    using assms(2) by (subst id_take_nth_drop [of i b]) simp_all
  with assms(1) show ?thesis by simp
qed

lemma placed_find:
  assumes "key_ops hash cmp" "placed hash sz b" "i < length b" "i = unat (hash k AND (of_nat sz - 1))"
    "distinct (map (node_class cmp) (concat b))"
  shows "node_find cmp k (b ! i) = node_find cmp k (concat b)"
proof (cases "\<exists>n \<in> set (concat b). cmp (hn_key n) k = 0")
  case True
  then obtain n where n: "n \<in> set (concat b)" "cmp (hn_key n) k = 0" by blast
  then obtain j where j: "j < length b" "n \<in> set (b ! j)"
    unfolding set_concat_nth by blast
  have "hash (hn_key n) = hash k" using assms(1) n(2) by (rule key_ops.hash_compat)
  moreover have "idx hash sz n = j" using assms(2) j by (auto simp: placed_def)
  ultimately have "i = j" using assms(4) by (simp add: idx_def)
  have "distinct (map (node_class cmp) (b ! i))"
    using assms(3,5) by (intro distinct_map_chain)
  then have "node_find cmp k (b ! i) = Some n"
    using key_ops.node_find_Some [OF assms(1)] j n \<open>i = j\<close> by blast
  moreover have "node_find cmp k (concat b) = Some n"
    using key_ops.node_find_Some [OF assms(1,5) n] .
  ultimately show ?thesis by simp
next
  case False
  moreover have "set (b ! i) \<subseteq> set (concat b)" using assms(3) by (auto intro!: bexI [OF _ nth_mem])
  ultimately have "node_find cmp k (b ! i) = None" "node_find cmp k (concat b) = None"
    using key_ops.node_find_None [OF assms(1)] by blast+
  then show ?thesis by simp
qed

lemma table_get_find:
  assumes "tb_wf t"
  shows "table_get t k = node_find (tb_keycmp t) k (tb_nodes t)"
proof -
  have "table_get t k = node_find (tb_keycmp t) k (tb_bucket t ! tb_index t k)"
    by (simp add: table_get_def slot_node_def node_lookup_def chain_find Let_def)
  also have "\<dots> = node_find (tb_keycmp t) k (tb_nodes t)"
    using tb_wfD [OF assms] tb_index_less [OF assms]
    by (intro placed_find) (auto simp: tb_index_def)
  finally show ?thesis .
qed

lemma table_get_Some:
  "tb_wf t \<Longrightarrow> table_get t k = Some n \<Longrightarrow> n \<in> set (tb_nodes t) \<and> tb_keycmp t (hn_key n) k = 0"
  unfolding table_get_find node_find_def by (drule find_SomeD) simp

text \<open>Tables whose nodes agree up to order are the same map.\<close>

lemma table_get_mset:
  assumes "tb_wf t" "tb_wf u" "tb_keycmp u = tb_keycmp t" "mset (tb_nodes u) = mset (tb_nodes t)"
  shows "table_get u k = table_get t k"
proof -
  have "node_find (tb_keycmp t) k (tb_nodes u) = node_find (tb_keycmp t) k (tb_nodes t)"
    using assms(3) tb_wfD(6) [OF assms(2)]
    by (intro key_ops.node_find_mset [OF tb_wfD(1) [OF assms(1)] assms(4)]) simp
  then show ?thesis using assms(1-3) by (simp add: table_get_find)
qed

lemma table_get_add_mset:
  assumes "tb_wf t" "tb_wf u" "tb_keycmp u = tb_keycmp t"
    "mset (tb_nodes u) = add_mset n (mset (tb_nodes t))"
  shows "table_get u k = (if tb_keycmp t (hn_key n) k = 0 then Some n else table_get t k)"
proof -
  have "mset (tb_nodes u) = mset (n # tb_nodes t)" using assms(4) by simp
  then have "node_find (tb_keycmp t) k (tb_nodes u) = node_find (tb_keycmp t) k (n # tb_nodes t)"
    using tb_wfD(6) [OF assms(2)] assms(3)
    by (intro key_ops.node_find_mset [OF tb_wfD(1) [OF assms(1)]]) simp_all
  then show ?thesis using assms by (simp add: table_get_find key_ops.node_find_Cons [OF tb_wfD(1) [OF assms(1)]])
qed

subsection \<open>Chains and buckets under updates\<close>

lemma mset_concat_update:
  assumes "i < length b"
  shows "mset (concat (b[i := c])) + mset (b ! i) = mset (concat b) + mset c"
proof -
  have "concat b = concat (take i b) @ b ! i @ concat (drop (Suc i) b)"
    using assms by (subst id_take_nth_drop [of i b]) simp_all
  moreover have "concat (b[i := c]) = concat (take i b) @ c @ concat (drop (Suc i) b)"
    using assms by (simp add: upd_conv_take_nth_drop)
  ultimately show ?thesis by simp
qed

lemma placed_update:
  assumes "placed h sz b" "i < length b" "\<And>n. n \<in> set c \<Longrightarrow> n \<in> set (b ! i) \<or> idx h sz n = i"
  shows "placed h sz (b[i := c])"
  unfolding placed_def
proof (intro allI impI ballI)
  fix j n assume "j < length (b[i := c])" "n \<in> set (b[i := c] ! j)"
  with assms show "idx h sz n = j" by (cases "j = i") (auto simp: placed_def)
qed

lemma distinct_map_mset: "mset xs = mset ys \<Longrightarrow> distinct (map f xs) = distinct (map f ys)"
  by (metis mset_eq_imp_distinct_iff mset_map)

lemma tb_index_update [simp]:
  "tb_index (t\<lparr>tb_bucket := b\<rparr>) = tb_index t" "tb_index (t\<lparr>tb_alk := a\<rparr>) = tb_index t"
  by (simp_all add: tb_index_def fun_eq_iff)

lemma chain_pos_absent:
  "(\<And>n. n \<in> set ns \<Longrightarrow> cmp (hn_key n) k \<noteq> 0) \<Longrightarrow> chain_pos cmp k ns = length ns"
  by (simp add: chain_pos_def takeWhile_eq_all_conv [THEN iffD2])

subsection \<open>Resizing keeps the map\<close>

lemma relink_fresh:
  assumes "\<And>n. n \<in> set (tb_bucket t ! tb_index t (hn_key p)) \<Longrightarrow> tb_keycmp t (hn_key n) (hn_key p) \<noteq> 0"
  shows "relink p t = t\<lparr>tb_bucket := (tb_bucket t)
    [tb_index t (hn_key p) := tb_bucket t ! tb_index t (hn_key p) @ [p]]\<rparr>"
  using chain_pos_absent [of "tb_bucket t ! tb_index t (hn_key p)" "tb_keycmp t" "hn_key p", OF assms]
  by (simp add: relink_def node_lookup_def slot_set_def Let_def)

lemma fold_relink:
  assumes "key_ops (tb_hash u) (tb_keycmp u)" "tb_size u = 2 ^ k" "k \<le> 63"
    "length (tb_bucket u) = tb_size u" "placed (tb_hash u) (tb_size u) (tb_bucket u)"
    "distinct (map (node_class (tb_keycmp u)) (tb_nodes u @ ns))"
  shows "\<exists>b. fold relink ns u = u\<lparr>tb_bucket := b\<rparr> \<and> length b = tb_size u
    \<and> placed (tb_hash u) (tb_size u) b \<and> mset (concat b) = mset (tb_nodes u @ ns)"
  using assms
proof (induction ns arbitrary: u)
  case Nil
  then show ?case by (intro exI [of _ "tb_bucket u"]) simp
next
  case (Cons p ns)
  let ?i = "tb_index u (hn_key p)"
  let ?b = "(tb_bucket u)[?i := tb_bucket u ! ?i @ [p]]"
  let ?u = "u\<lparr>tb_bucket := ?b\<rparr>"
  have i: "?i < length (tb_bucket u)"
    using Cons.prems(2-4) unat_and_pow2_less by (simp add: tb_index_def)
  have fresh: "tb_keycmp u (hn_key n) (hn_key p) \<noteq> 0" if "n \<in> set (tb_bucket u ! ?i)" for n
  proof
    assume "tb_keycmp u (hn_key n) (hn_key p) = 0"
    then have "node_class (tb_keycmp u) n = node_class (tb_keycmp u) p"
      by (simp add: key_ops.keyclass_eq_iff [OF Cons.prems(1)])
    moreover have "n \<in> set (tb_nodes u)" using that i by auto
    ultimately show False using Cons.prems(6) by auto
  qed
  have m: "mset (concat ?b) = mset (tb_nodes u @ [p])"
    using mset_concat_update [OF i, of "tb_bucket u ! ?i @ [p]"] by simp
  have "distinct (map (node_class (tb_keycmp u)) (concat ?b @ ns))"
    using Cons.prems(6) m
    by (subst distinct_map_mset [of _ "tb_nodes u @ p # ns"]) (simp_all del: mset_concat)
  moreover have "placed (tb_hash u) (tb_size u) ?b"
    using Cons.prems(5) i by (intro placed_update) (auto simp: tb_index_idx)
  ultimately have "\<exists>b. fold relink ns ?u = ?u\<lparr>tb_bucket := b\<rparr> \<and> length b = tb_size ?u
      \<and> placed (tb_hash ?u) (tb_size ?u) b \<and> mset (concat b) = mset (tb_nodes ?u @ ns)"
    using Cons.prems(1-4) by (intro Cons.IH [of ?u]) (simp_all del: concat_append)
  then show ?case using m by (simp add: relink_fresh [OF fresh] del: mset_concat)
qed

definition resized :: "('k, 'v) table \<Rightarrow> ('k, 'v) table \<Rightarrow> bool" where
  "resized t t' \<longleftrightarrow> tb_wf t' \<and> same_client t t' \<and> mset (tb_nodes t') = mset (tb_nodes t)
     \<and> tb_pool t' = tb_pool t \<and> tb_freed_keys t' = tb_freed_keys t
     \<and> tb_freed_values t' = tb_freed_values t
     \<and> alk_live (tb_alk t') = alk_live (tb_alk t)"

lemma bucket_alloc_Some:
  assumes "bucket_alloc n a = Some (ok, a')"
  shows "alk_grant a' = alk_grant a" and "alk_live a' = alk_live a + (if ok then 1 else 0)"
    and "ok \<Longrightarrow> n < 2 ^ 29" and "never_refuses a \<Longrightarrow> ok"
proof -
  obtain ok' b where m: "mmalloc (8 * n mod 2 ^ 32) a = (ok', b)" by fastforce
  with assms have eq: "ok' = ok" "b = a'" "ok \<Longrightarrow> \<not> 8 * n mod 2 ^ 32 < 8 * n"
    by (auto simp: bucket_alloc_def split: if_splits)
  show "alk_grant a' = alk_grant a" using m eq by simp
  show "alk_live a' = alk_live a + (if ok then 1 else 0)" using mmalloc_live [OF m] eq by simp
  show "ok" if "never_refuses a" using mmalloc_never_refuses [OF that m] eq by simp
  show "n < 2 ^ 29" if "ok"
  proof (rule ccontr)
    assume "\<not> n < 2 ^ 29"
    then have "2 ^ 32 \<le> 8 * n" by simp
    then have "8 * n mod 2 ^ 32 < 8 * n" by (metis mod_less_divisor order_less_le_trans zero_less_numeral zero_less_power)
    with eq(3) that show False by blast
  qed
qed

lemma bucket_alloc_total: "n < 2 ^ 29 \<Longrightarrow> bucket_alloc n a \<noteq> None"
  by (auto simp: bucket_alloc_def split: prod.splits)

lemma table_resize_spec:
  assumes wf: "tb_wf t" and le: "new \<le> 2 ^ 63" and res: "table_resize new t = Some (r, t')"
  shows "resized t t'" and "r = 0 \<and> tb_size t' = roundup new \<or> r = - 1 \<and> tb_size t' = tb_size t"
    and "never_refuses (tb_alk t) \<Longrightarrow> r = 0"
proof -
  let ?n = "roundup new"
  note W = tb_wfD [OF wf]
  from res obtain ok a where al: "bucket_alloc ?n (tb_alk t) = Some (ok, a)"
    by (auto simp: table_resize_def Let_def bind_Some_iff)
  note A = bucket_alloc_Some [OF al]
  have all: "resized t t' \<and> (r = 0 \<and> tb_size t' = ?n \<or> r = - 1 \<and> tb_size t' = tb_size t)
    \<and> (never_refuses (tb_alk t) \<longrightarrow> r = 0)"
  proof (cases ok)
    case False
    with res al have "r = - 1" "t' = t\<lparr>tb_alk := a\<rparr>" by (simp_all add: table_resize_def Let_def)
    moreover have "tb_wf (t\<lparr>tb_alk := a\<rparr>)" using wf by (simp add: tb_wf_def)
    ultimately show ?thesis using A False by (auto simp: resized_def same_client_def)
  next
    case True
    let ?u = "t\<lparr>tb_alk := a, tb_size := ?n, tb_bucket := replicate ?n []\<rparr>"
    let ?ns = "concat (rev (tb_bucket t))"
    have ms: "mset ?ns = mset (tb_nodes t)" by (simp add: mset_concat rev_map [symmetric] sum_list_rev)
    obtain k where k: "3 \<le> k" "k \<le> 63" "?n = 2 ^ k" using roundup_props(1) [OF le] by blast
    have "k < 29"
    proof (rule ccontr)
      assume "\<not> k < 29"
      then have "(2::nat) ^ 29 \<le> 2 ^ k" by (intro power_increasing) auto
      with A(3) [OF True] k(3) show False by simp
    qed
    have d: "distinct (map (node_class (tb_keycmp t)) ?ns)"
      using W(6) distinct_map_mset [OF ms, of "node_class (tb_keycmp t)"] by simp
    have "\<exists>b. fold relink ?ns ?u = ?u\<lparr>tb_bucket := b\<rparr> \<and> length b = tb_size ?u
        \<and> placed (tb_hash ?u) (tb_size ?u) b \<and> mset (concat b) = mset (tb_nodes ?u @ ?ns)"
      using W(1) k d by (intro fold_relink [of _ k]) (simp_all add: placed_def)
    then obtain b where b: "fold relink ?ns ?u = ?u\<lparr>tb_bucket := b\<rparr>" "length b = ?n"
      "placed (tb_hash t) ?n b" "mset (concat b) = mset (tb_nodes t)"
      using ms by auto
    have t': "r = 0" "t' = ?u\<lparr>tb_bucket := b, tb_alk := mmfree a\<rparr>"
      using res al True b(1) by (simp_all add: table_resize_def Let_def)
    have "length (concat b) = length (tb_nodes t)" using b(4) by (metis size_mset)
    moreover have "distinct (map (node_class (tb_keycmp t)) (concat b))"
      using W(6) distinct_map_mset [OF b(4), of "node_class (tb_keycmp t)"] by simp
    ultimately have "tb_wf t'"
      using W k b(2,3) \<open>k < 29\<close> unfolding tb_wf_def t'(2)
      by (auto intro!: exI [of _ k] simp del: length_concat distinct_map)
    then show ?thesis using t' b(4) A True by (auto simp: resized_def same_client_def)
  qed
  from all show "resized t t'" by blast
  from all show "r = 0 \<and> tb_size t' = roundup new \<or> r = - 1 \<and> tb_size t' = tb_size t" by blast
  from all show "never_refuses (tb_alk t) \<Longrightarrow> r = 0" by blast
qed

lemma table_resize_total:
  "roundup new < 2 ^ 29 \<Longrightarrow> table_resize new t \<noteq> None"
  using bucket_alloc_total [of "roundup new" "tb_alk t"]
  by (auto simp: table_resize_def Let_def split: prod.splits)

text \<open>
  The blocks the allocator has handed out beyond those the table owns. No operation changes
  it: nothing leaks and nothing is released twice.
\<close>

definition tb_slack :: "('k, 'v) table \<Rightarrow> int" where
  "tb_slack t = alk_live (tb_alk t) - tb_blocks t"

lemma resized_slack: "resized t t' \<Longrightarrow> tb_slack t' = tb_slack t"
  unfolding resized_def tb_slack_def tb_blocks_def by (metis size_mset)

lemma resized_get: "tb_wf t \<Longrightarrow> resized t t' \<Longrightarrow> table_get t' k = table_get t k"
  by (intro table_get_mset) (auto simp: resized_def same_client_def)

lemma resized_used: "tb_wf t \<Longrightarrow> resized t t' \<Longrightarrow> tb_used t' = tb_used t"
  using tb_wfD(7) unfolding resized_def by (metis size_mset)

lemma resized_refl: "tb_wf t \<Longrightarrow> resized t t"
  by (simp add: resized_def)

subsection \<open>Adding a node\<close>

lemma lookup_absent:
  assumes "table_get t k = None"
  shows "node_lookup t k = (tb_index t k, length (tb_bucket t ! tb_index t k))"
proof -
  let ?c = "tb_bucket t ! tb_index t k"
  have "\<not> chain_pos (tb_keycmp t) k ?c < length ?c"
    using assms by (simp add: table_get_def slot_node_def node_lookup_def Let_def buf_get_def
        split: if_splits)
  moreover have "chain_pos (tb_keycmp t) k ?c \<le> length ?c"
    by (simp add: chain_pos_def length_takeWhile_le)
  ultimately show ?thesis by (simp add: node_lookup_def Let_def)
qed

lemma get_None_class:
  assumes "tb_wf t" "table_get t k = None"
  shows "keyclass (tb_keycmp t) k \<notin> set (map (node_class (tb_keycmp t)) (tb_nodes t))"
proof
  note K = tb_wfD(1) [OF assms(1)]
  assume "keyclass (tb_keycmp t) k \<in> set (map (node_class (tb_keycmp t)) (tb_nodes t))"
  then obtain n where n: "n \<in> set (tb_nodes t)"
    "keyclass (tb_keycmp t) k = node_class (tb_keycmp t) n"
    unfolding set_map by blast
  from n(2) have "tb_keycmp t (hn_key n) k = 0" by (metis key_ops.keyclass_eq_iff [OF K])
  with n(1) assms key_ops.node_find_None [OF K] show False by (metis table_get_find)
qed

text \<open>Linking a node for an absent key at the end of its chain.\<close>

definition tb_link :: "('k, 'v) hashnode \<Rightarrow> ('k, 'v) table \<Rightarrow> ('k, 'v) table" where
  "tb_link n t =
     (let i = tb_index t (hn_key n)
      in t\<lparr>tb_bucket := (tb_bucket t)[i := tb_bucket t ! i @ [n]], tb_used := Suc (tb_used t)\<rparr>)"

lemma tb_link:
  assumes "tb_wf t" "table_get t (hn_key n) = None"
  shows "tb_wf (tb_link n t)" and "mset (tb_nodes (tb_link n t)) = add_mset n (mset (tb_nodes t))"
proof -
  note W = tb_wfD [OF assms(1)]
  let ?i = "tb_index t (hn_key n)" and ?b = "tb_bucket (tb_link n t)"
  have i: "?i < length (tb_bucket t)" using tb_index_less [OF assms(1)] W(2) by simp
  have b: "?b = (tb_bucket t)[?i := tb_bucket t ! ?i @ [n]]" by (simp add: tb_link_def Let_def)
  show m: "mset (concat ?b) = add_mset n (mset (tb_nodes t))"
    using mset_concat_update [OF i, of "tb_bucket t ! ?i @ [n]"] by (simp add: b)
  have pl: "placed (tb_hash t) (tb_size t) ?b"
    unfolding b using W(5) i by (intro placed_update) (auto simp: tb_index_idx)
  have "mset (concat ?b) = mset (n # tb_nodes t)" using m by simp
  then have d: "distinct (map (node_class (tb_keycmp t)) (concat ?b))"
    using get_None_class [OF assms] W(6)
      distinct_map_mset [of "concat ?b" "n # tb_nodes t" "node_class (tb_keycmp t)"] by simp
  have l: "length (concat ?b) = Suc (length (tb_nodes t))"
    using m by (metis size_add_mset size_mset)
  have f: "tb_hash (tb_link n t) = tb_hash t" "tb_keycmp (tb_link n t) = tb_keycmp t"
    "tb_size (tb_link n t) = tb_size t" "tb_pool (tb_link n t) = tb_pool t"
    "tb_pool_size (tb_link n t) = tb_pool_size t" "tb_used (tb_link n t) = Suc (tb_used t)"
    by (simp_all add: tb_link_def Let_def)
  have "length ?b = tb_size t" using W(2) by (simp add: b)
  with assms(1) pl d l W(7) show "tb_wf (tb_link n t)"
    unfolding tb_wf_def f by (auto simp del: length_concat)
qed

text \<open>\<open>node_alloc\<close> touches the pool and the allocator only.\<close>

lemma node_alloc_fields:
  assumes "node_alloc bytes k v t = (r, t')"
  shows "tb_bucket t' = tb_bucket t" "tb_size t' = tb_size t" "tb_used t' = tb_used t"
    and "same_client t t'" "tb_freed_keys t' = tb_freed_keys t"
    "tb_freed_values t' = tb_freed_values t"
    and "r = Some (HashNode k v) \<or> r = None"
    and "never_refuses (tb_alk t) \<Longrightarrow> r \<noteq> None"
proof -
  have "tb_bucket t' = tb_bucket t \<and> tb_size t' = tb_size t \<and> tb_used t' = tb_used t
    \<and> same_client t t' \<and> tb_freed_keys t' = tb_freed_keys t
    \<and> tb_freed_values t' = tb_freed_values t
    \<and> (r = Some (HashNode k v) \<or> r = None) \<and> (never_refuses (tb_alk t) \<longrightarrow> r \<noteq> None)"
  proof (cases "tb_pool t")
    case Nil
    obtain ok a where m: "mmalloc bytes (tb_alk t) = (ok, a)" by fastforce
    then have "r = (if ok then Some (HashNode k v) else None)" "t' = t\<lparr>tb_alk := a\<rparr>"
      using assms Nil by (simp_all add: node_alloc_def)
    moreover have "never_refuses (tb_alk t) \<Longrightarrow> ok" using mmalloc_never_refuses(1) m by blast
    ultimately show ?thesis using m by (auto simp: same_client_def)
  next
    case (Cons p ps)
    then show ?thesis using assms by (auto simp: node_alloc_def same_client_def)
  qed
  then show "tb_bucket t' = tb_bucket t" "tb_size t' = tb_size t" "tb_used t' = tb_used t"
    "same_client t t'" "tb_freed_keys t' = tb_freed_keys t"
    "tb_freed_values t' = tb_freed_values t" "r = Some (HashNode k v) \<or> r = None"
    "never_refuses (tb_alk t) \<Longrightarrow> r \<noteq> None"
    by simp_all
qed

lemma node_alloc_wf:
  assumes "node_alloc bytes k v t = (r, t')" "tb_wf t"
  shows "tb_wf t'"
proof -
  have "tb_pool_size t' = length (tb_pool t')" "length (tb_pool t') \<le> pool_limit"
    using assms(1) tb_wfD(8,9) [OF assms(2)]
    by (auto simp: node_alloc_def split: list.splits prod.splits if_splits)
  then show ?thesis
    using assms(2) node_alloc_fields(1-4) [OF assms(1)] by (simp add: tb_wf_def same_client_def)
qed

lemma node_alloc_slack:
  assumes "node_alloc bytes k v t = (r, t')"
  shows "tb_slack t' = tb_slack t + (if r = None then 0 else 1)"
  using assms unfolding tb_slack_def tb_blocks_def
  by (auto simp: node_alloc_def dest: mmalloc_live split: list.splits prod.splits if_splits)

lemma slot_set_nothing:
  assumes "table_get t k = None" "tb_bucket u = tb_bucket t"
  shows "slot_set (node_lookup t k) [] u = u"
  using assms by (simp add: slot_set_def lookup_absent)

text \<open>The load of a table stays bounded, so chains stay short on average.\<close>

definition tb_loaded :: "('k, 'v) table \<Rightarrow> bool" where
  "tb_loaded t \<longleftrightarrow> tb_used t \<le> tb_size t + tb_size t div 8 + 1"

lemma table_grow_spec:
  assumes wf: "tb_wf t" and res: "table_grow t = Some (r, t')"
  shows "resized t t'" and "r = 0 \<or> r = - 1" and "never_refuses (tb_alk t) \<Longrightarrow> r = 0"
    and "tb_loaded t \<Longrightarrow> tb_loaded t' \<and> (r = 0 \<longrightarrow> tb_used t' \<le> tb_size t' + tb_size t' div 8)"
proof -
  note W = tb_wfD [OF wf]
  let ?new = "tb_size t + (if tb_size t < 64 then tb_size t div 2 else tb_size t)"
  have "?new \<le> 2 * tb_size t" by simp
  then have le: "?new \<le> 2 ^ 63" by (rule order_trans) (use W(4) in simp)
  have all: "resized t t' \<and> (r = 0 \<or> r = - 1) \<and> (never_refuses (tb_alk t) \<longrightarrow> r = 0)
    \<and> (tb_loaded t \<longrightarrow> tb_loaded t' \<and> (r = 0 \<longrightarrow> tb_used t' \<le> tb_size t' + tb_size t' div 8))"
  proof (cases "tb_used t > tb_size t + tb_size t div 8")
    case False
    then show ?thesis using res wf by (auto simp: table_grow_def resized_refl)
  next
    case True
    then have res': "table_resize ?new t = Some (r, t')" using res by (simp add: table_grow_def)
    note R = table_resize_spec [OF wf le res']
    have "?new \<le> roundup ?new" using roundup_props(2) [OF le] by blast
    moreover have "tb_size t + tb_size t div 2 \<le> ?new" by simp
    ultimately have big: "tb_size t + tb_size t div 2 \<le> roundup ?new" by linarith
    have "4 * (tb_size t div 2 div 4) \<le> tb_size t div 2" by (rule times_div_less_eq_dividend)
    then have "4 * (tb_size t div 8) \<le> tb_size t div 2" by (simp add: div_mult2_eq [symmetric])
    moreover have "1 \<le> tb_size t div 8" using W(3) by (simp add: Suc_le_eq div_greater_zero_iff)
    ultimately have "tb_size t + tb_size t div 8 + 1 \<le> tb_size t + tb_size t div 2" by linarith
    with big have "tb_loaded t \<Longrightarrow> tb_used t \<le> roundup ?new" by (simp add: tb_loaded_def)
    with R resized_used [OF wf R(1)] show ?thesis by (auto simp: tb_loaded_def)
  qed
  from all show "resized t t'" by blast
  from all show "r = 0 \<or> r = - 1" by blast
  from all show "never_refuses (tb_alk t) \<Longrightarrow> r = 0" by blast
  from all show "tb_loaded t \<Longrightarrow> tb_loaded t' \<and> (r = 0 \<longrightarrow> tb_used t' \<le> tb_size t' + tb_size t' div 8)"
    by blast
qed

lemma table_grow_total:
  assumes wf: "tb_wf t" and small: "tb_size t \<le> 2 ^ 27"
  shows "table_grow t \<noteq> None"
proof -
  note W = tb_wfD [OF wf]
  let ?new = "tb_size t + (if tb_size t < 64 then tb_size t div 2 else tb_size t)"
  have "?new \<le> 2 * tb_size t" by simp
  then have "?new \<le> 2 ^ 28" by (rule order_trans) (use small in simp)
  then have "roundup ?new < 2 ^ 29" by (rule roundup_bound)
  then show ?thesis using table_resize_total [of ?new t] by (simp add: table_grow_def)
qed

text \<open>What an insertion of a new node did, by its return code.\<close>

definition added ::
    "('k, 'v) hashnode \<Rightarrow> ('k, 'v) table \<Rightarrow> int \<Rightarrow> ('k, 'v) table \<Rightarrow> bool" where
  "added n t r t' \<longleftrightarrow> tb_wf t' \<and> same_client t t' \<and> tb_slack t' = tb_slack t
     \<and> tb_freed_keys t' = tb_freed_keys t \<and> tb_freed_values t' = tb_freed_values t
     \<and> (r = 0 \<and> mset (tb_nodes t') = add_mset n (mset (tb_nodes t))
        \<or> (r = - 1 \<or> r = - 2) \<and> mset (tb_nodes t') = mset (tb_nodes t))"

lemma table_add_spec:
  assumes wf: "tb_wf t" and new: "table_get t k = None"
    and res: "table_add bytes k v t = Some (r, t')"
  shows "added (HashNode k v) t r t'" and "never_refuses (tb_alk t) \<Longrightarrow> r = 0"
    and "tb_loaded t \<Longrightarrow> tb_loaded t'"
proof -
  from res obtain r1 t1 where g: "table_grow t = Some (r1, t1)"
    by (auto simp: table_add_def bind_Some_iff)
  note G = table_grow_spec [OF wf g]
  note R = G(1) [unfolded resized_def]
  have wf1: "tb_wf t1" using R by blast
  have new1: "table_get t1 k = None" using resized_get [OF wf G(1)] new by simp
  have all: "added (HashNode k v) t r t' \<and> (never_refuses (tb_alk t) \<longrightarrow> r = 0)
    \<and> (tb_loaded t \<longrightarrow> tb_loaded t')"
  proof (cases "r1 = 0")
    case False
    then have "r = - 1" "t' = t1" using res g by (simp_all add: table_add_def)
    then show ?thesis using G R resized_slack [OF G(1)] False by (auto simp: added_def)
  next
    case True
    obtain no t2 where a: "node_alloc bytes k v t1 = (no, t2)" by fastforce
    note A = node_alloc_fields [OF a] and wf2 = node_alloc_wf [OF a wf1]
    have idx: "tb_index t1 k = tb_index t2 k"
      using A by (simp add: tb_index_def same_client_def)
    have new2: "table_get t2 k = None"
      using table_get_mset [OF wf1 wf2] A new1 by (simp add: same_client_def)
    have cl: "same_client t t2" using R A(4) same_client_trans by blast
    show ?thesis
    proof (cases no)
      case None
      then have "r = - 2" "t' = t2"
        using res g True a slot_set_nothing [OF new1 A(1)] by (simp_all add: table_add_def Let_def)
      moreover have "tb_slack t2 = tb_slack t"
        using node_alloc_slack [OF a] None resized_slack [OF G(1)] by simp
      moreover have "\<not> never_refuses (tb_alk t)"
        using A(8) None R by (auto simp: same_client_def never_refuses_def)
      ultimately show ?thesis
        using A R wf2 cl G(4) by (auto simp: added_def tb_loaded_def)
    next
      case (Some p)
      then have p: "p = HashNode k v" using A(7) by simp
      have t': "r = 0" "t' = tb_link p t2"
        using res g True a Some A(1) p idx lookup_absent [OF new1]
        by (simp_all add: table_add_def Let_def tb_link_def slot_set_def)
      have L: "tb_wf t'" "mset (tb_nodes t') = add_mset p (mset (tb_nodes t2))"
        using tb_link [OF wf2, of p] new2 by (simp_all add: t' p)
      have f: "tb_pool t' = tb_pool t2" "tb_alk t' = tb_alk t2" "same_client t2 t'"
        "tb_freed_keys t' = tb_freed_keys t2" "tb_freed_values t' = tb_freed_values t2"
        "tb_size t' = tb_size t2" "tb_used t' = Suc (tb_used t2)"
        by (simp_all add: t' tb_link_def Let_def same_client_def)
      have "length (tb_nodes t') = Suc (length (tb_nodes t2))"
        using L(2) by (metis size_add_mset size_mset)
      then have "tb_slack t' = tb_slack t2 - 1" by (simp add: tb_slack_def tb_blocks_def f)
      moreover have "tb_slack t2 = tb_slack t + 1"
        using node_alloc_slack [OF a] Some resized_slack [OF G(1)] by simp
      moreover have "same_client t t'" using cl f(3) same_client_trans by blast
      ultimately show ?thesis
        using L R A f t' p G(4) True by (auto simp: added_def tb_loaded_def)
    qed
  qed
  from all show "added (HashNode k v) t r t'" by blast
  from all show "never_refuses (tb_alk t) \<Longrightarrow> r = 0" by blast
  from all show "tb_loaded t \<Longrightarrow> tb_loaded t'" by blast
qed

lemma table_add_total:
  "tb_wf t \<Longrightarrow> tb_size t \<le> 2 ^ 27 \<Longrightarrow> table_add bytes k v t \<noteq> None"
  using table_grow_total [of t]
  by (auto simp: table_add_def Let_def split: option.splits prod.splits)

subsection \<open>Releasing nodes\<close>

lemma node_free_simps [simp]:
  "tb_bucket (node_free p t) = tb_bucket t" "tb_size (node_free p t) = tb_size t"
  "tb_used (node_free p t) = tb_used t" "tb_hash (node_free p t) = tb_hash t"
  "tb_keycmp (node_free p t) = tb_keycmp t" "tb_frees_keys (node_free p t) = tb_frees_keys t"
  "tb_frees_values (node_free p t) = tb_frees_values t"
  "alk_grant (tb_alk (node_free p t)) = alk_grant (tb_alk t)"
  "tb_freed_keys (node_free p t)
     = tb_freed_keys t @ (if tb_frees_keys t then [hn_key p] else [])"
  "tb_freed_values (node_free p t)
     = tb_freed_values t @ (if tb_frees_values t then [hn_value p] else [])"
  by (simp_all add: node_free_def value_free_def key_free_def Let_def)

lemma node_free_pool:
  assumes "tb_pool_size t = length (tb_pool t)" "length (tb_pool t) \<le> pool_limit"
  shows "tb_pool_size (node_free p t) = length (tb_pool (node_free p t))"
    "length (tb_pool (node_free p t)) \<le> pool_limit"
  using assms by (simp_all add: node_free_def value_free_def key_free_def Let_def)

lemma node_free_balance:
  "alk_live (tb_alk (node_free p t)) - int (length (tb_pool (node_free p t)))
     = alk_live (tb_alk t) - int (length (tb_pool t)) - 1"
  by (simp add: node_free_def value_free_def key_free_def Let_def)

text \<open>The same for a list of nodes, in order.\<close>

lemma fold_node_free_simps [simp]:
  "tb_bucket (fold node_free ns t) = tb_bucket t" "tb_size (fold node_free ns t) = tb_size t"
  "tb_used (fold node_free ns t) = tb_used t" "tb_hash (fold node_free ns t) = tb_hash t"
  "tb_keycmp (fold node_free ns t) = tb_keycmp t"
  "tb_frees_keys (fold node_free ns t) = tb_frees_keys t"
  "tb_frees_values (fold node_free ns t) = tb_frees_values t"
  "alk_grant (tb_alk (fold node_free ns t)) = alk_grant (tb_alk t)"
  "tb_freed_keys (fold node_free ns t)
     = tb_freed_keys t @ (if tb_frees_keys t then map hn_key ns else [])"
  "tb_freed_values (fold node_free ns t)
     = tb_freed_values t @ (if tb_frees_values t then map hn_value ns else [])"
  by (induction ns arbitrary: t) simp_all

lemma fold_node_free_pool:
  assumes "tb_pool_size t = length (tb_pool t)" "length (tb_pool t) \<le> pool_limit"
  shows "tb_pool_size (fold node_free ns t) = length (tb_pool (fold node_free ns t))"
    "length (tb_pool (fold node_free ns t)) \<le> pool_limit"
  using assms by (induction ns arbitrary: t) (simp_all add: node_free_pool)

lemma fold_node_free_balance:
  "alk_live (tb_alk (fold node_free ns t)) - int (length (tb_pool (fold node_free ns t)))
     = alk_live (tb_alk t) - int (length (tb_pool t)) - int (length ns)"
  by (induction ns arbitrary: t) (simp_all add: node_free_balance)

subsection \<open>Removing a node\<close>

lemma slot_set_simps [simp]:
  "tb_size (slot_set s ns t) = tb_size t" "tb_used (slot_set s ns t) = tb_used t"
  by (simp_all add: slot_set_def)

text \<open>What a removal of the node \<open>n\<close> did.\<close>

definition removed :: "('k, 'v) hashnode \<Rightarrow> ('k, 'v) table \<Rightarrow> ('k, 'v) table \<Rightarrow> bool" where
  "removed n t t' \<longleftrightarrow> tb_wf t' \<and> same_client t t' \<and> tb_slack t' = tb_slack t
     \<and> mset (tb_nodes t) = add_mset n (mset (tb_nodes t'))
     \<and> tb_freed_keys t' = tb_freed_keys t @ (if tb_frees_keys t then [hn_key n] else [])
     \<and> tb_freed_values t' = tb_freed_values t @ (if tb_frees_values t then [hn_value n] else [])"

lemma removed_get:
  assumes "tb_wf t" "removed n t t'"
  shows "table_get t' k = (if tb_keycmp t (hn_key n) k = 0 then None else table_get t k)"
proof -
  note K = tb_wfD(1) [OF assms(1)]
  have R: "tb_wf t'" "tb_keycmp t' = tb_keycmp t" "mset (tb_nodes t) = add_mset n (mset (tb_nodes t'))"
    using assms(2) by (auto simp: removed_def same_client_def)
  have "mset (tb_nodes t) = mset (n # tb_nodes t')" using R(3) by simp
  then have d: "distinct (map (node_class (tb_keycmp t)) (n # tb_nodes t'))"
    using tb_wfD(6) [OF assms(1)] by (metis distinct_map_mset)
  show ?thesis
  proof (cases "tb_keycmp t (hn_key n) k = 0")
    case True
    have "tb_keycmp t (hn_key m) k \<noteq> 0" if "m \<in> set (tb_nodes t')" for m
    proof
      assume "tb_keycmp t (hn_key m) k = 0"
      with True have "node_class (tb_keycmp t) m = node_class (tb_keycmp t) n"
        by (metis key_ops.keyclass_eq_iff [OF K])
      with d that show False by auto
    qed
    then have "node_find (tb_keycmp t) k (tb_nodes t') = None"
      by (simp add: key_ops.node_find_None [OF K])
    with True R show ?thesis by (simp add: table_get_find)
  next
    case False
    with table_get_add_mset [OF R(1) assms(1) R(2) [symmetric] R(3)] R(2) show ?thesis by simp
  qed
qed

lemma table_unlink_step:
  assumes wf: "tb_wf t" and get: "table_get t k = Some p"
  shows "removed p t ((node_free p (slot_set (node_lookup t k) (slot_rest t (node_lookup t k)) t))
    \<lparr>tb_used := tb_used t - 1\<rparr>)" (is "removed p t ?t")
proof -
  note W = tb_wfD [OF wf]
  obtain i j where s: "node_lookup t k = (i, j)" by fastforce
  have i: "i < length (tb_bucket t)"
    using s tb_index_less [OF wf] W(2) by (auto simp: node_lookup_def Let_def)
  have j: "j < length (tb_bucket t ! i)" "tb_bucket t ! i ! j = p"
    using get s by (auto simp: table_get_def slot_node_def buf_get_def split: if_splits)
  let ?c = "take j (tb_bucket t ! i) @ drop (Suc j) (tb_bucket t ! i)"
  let ?b = "(tb_bucket t)[i := ?c]"
  let ?u = "t\<lparr>tb_bucket := ?b\<rparr>"
  have u: "slot_set (node_lookup t k) (slot_rest t (node_lookup t k)) t = ?u"
    by (simp add: slot_set_def slot_rest_def s)
  have "tb_bucket t ! i = take j (tb_bucket t ! i) @ p # drop (Suc j) (tb_bucket t ! i)"
    using j by (metis id_take_nth_drop)
  then have c: "mset (tb_bucket t ! i) = add_mset p (mset ?c)"
    by (metis mset.simps(2) mset_append union_mset_add_mset_right)
  have m: "mset (tb_nodes t) = add_mset p (mset (concat ?b))"
    using mset_concat_update [OF i, of ?c] unfolding c by simp
  have pl: "placed (tb_hash t) (tb_size t) ?b"
    using W(5) i by (intro placed_update) (auto dest: in_set_takeD in_set_dropD)
  have "mset (tb_nodes t) = mset (p # concat ?b)" using m by simp
  then have d: "distinct (map (node_class (tb_keycmp t)) (concat ?b))"
    using W(6) distinct_map_mset [of "tb_nodes t" "p # concat ?b" "node_class (tb_keycmp t)"]
    by (simp del: distinct_map)
  have l: "length (tb_nodes t) = Suc (length (concat ?b))"
    using m by (metis size_add_mset size_mset)
  have P: "tb_pool_size ?t = length (tb_pool ?t)" "length (tb_pool ?t) \<le> pool_limit"
    using node_free_pool [of ?u p] W(8,9) by (simp_all add: u)
  have "tb_wf ?t"
  proof (rule tb_wfI [OF wf])
    show "same_client t ?t" by (simp add: same_client_def u)
    show "tb_used ?t = length (tb_nodes ?t)" using l W(7) by (simp add: u del: length_concat)
  qed (use pl d W(2) P in \<open>simp_all add: u del: distinct_map\<close>)
  moreover have "tb_slack ?t = tb_slack t"
    using node_free_balance [of p ?u] l by (simp add: tb_slack_def tb_blocks_def u del: length_concat)
  ultimately show ?thesis
    using m by (simp add: removed_def same_client_def u del: mset_concat)
qed

lemma removed_resized:
  assumes "removed n t u" "resized u v" shows "removed n t v"
  using assms resized_slack [OF assms(2)]
  unfolding removed_def resized_def same_client_def by simp

lemma removed_used:
  assumes "tb_wf t" "removed n t t'" shows "tb_used t = Suc (tb_used t')"
  using assms tb_wfD(7) unfolding removed_def by (metis size_add_mset size_mset)

text \<open>A removal always returns, and tells whether the key was there.\<close>

lemma table_remove_spec:
  assumes wf: "tb_wf t"
  shows "\<exists>r t'. table_remove k t = Some (r, t')
    \<and> (case table_get t k of None \<Rightarrow> r = - 1 \<and> t' = t | Some n \<Rightarrow> r = 0 \<and> removed n t t')
    \<and> (tb_loaded t \<longrightarrow> tb_loaded t')"
proof (cases "table_get t k")
  case None
  then show ?thesis by (simp add: table_remove_def table_get_def Let_def)
next
  case (Some p)
  let ?s = "node_lookup t k"
  let ?u = "(node_free p (slot_set ?s (slot_rest t ?s) t))\<lparr>tb_used := tb_used t - 1\<rparr>"
  have R: "removed p t ?u" by (rule table_unlink_step [OF wf Some])
  then have wfu: "tb_wf ?u" by (simp add: removed_def)
  have slot: "slot_node t ?s = Some p" using Some by (simp add: table_get_def)
  have size: "tb_size ?u = tb_size t" by simp
  note W = tb_wfD [OF wfu]
  show ?thesis
  proof (cases "tb_used ?u < tb_size ?u div 2 - tb_size ?u div 4")
    case False
    then have "table_remove k t = Some (0, ?u)"
      by (simp add: table_remove_def table_unlink_def slot Let_def)
    moreover have "tb_loaded t \<longrightarrow> tb_loaded ?u"
      using removed_used [OF wf R] size by (simp add: tb_loaded_def)
    ultimately show ?thesis using R Some by auto
  next
    case True
    let ?new = "tb_size ?u div 2"
    have "?new \<le> 2 ^ 63" using W(4) by simp
    note B = roundup_props(2) [OF this]
    have "roundup ?new < 2 ^ 29" by (rule roundup_bound) (use W(4) in simp)
    then obtain r v where v: "table_resize ?new ?u = Some (r, v)"
      using table_resize_total [of ?new ?u] by auto
    then have rm: "table_remove k t = Some (0, v)"
      using True by (simp add: table_remove_def table_unlink_def slot Let_def)
    note Z = table_resize_spec [OF wfu \<open>?new \<le> 2 ^ 63\<close> v]
    have "tb_used v = tb_used ?u" by (rule resized_used [OF wfu Z(1)])
    with True have "tb_used v \<le> ?new" by linarith
    then have "tb_loaded v" using Z(2) B by (auto simp: tb_loaded_def)
    then show ?thesis using rm removed_resized [OF R Z(1)] Some by auto
  qed
qed

subsection \<open>Writing the payload of a node\<close>

definition revalued ::
    "('k, 'v) hashnode \<Rightarrow> 'v \<Rightarrow> ('k, 'v) table \<Rightarrow> ('k, 'v) table \<Rightarrow> bool" where
  "revalued n v t u \<longleftrightarrow> tb_wf u \<and> tb_slack u = tb_slack t
     \<and> u = t\<lparr>tb_bucket := tb_bucket u\<rparr>
     \<and> (\<exists>ms. mset (tb_nodes t) = mset (n # ms) \<and> mset (tb_nodes u) = mset (HashNode (hn_key n) v # ms))"

lemma slot_value_spec:
  assumes wf: "tb_wf t" and get: "table_get t k = Some n"
  shows "revalued n v t (slot_value (node_lookup t k) v t)"
proof -
  note W = tb_wfD [OF wf]
  obtain i j where s: "node_lookup t k = (i, j)" by fastforce
  have i: "i < length (tb_bucket t)"
    using s tb_index_less [OF wf] W(2) by (auto simp: node_lookup_def Let_def)
  have j: "j < length (tb_bucket t ! i)" "tb_bucket t ! i ! j = n"
    using get s by (auto simp: table_get_def slot_node_def buf_get_def split: if_splits)
  let ?m = "HashNode (hn_key n) v"
  let ?c = "(tb_bucket t ! i)[j := ?m]"
  let ?b = "(tb_bucket t)[i := ?c]"
  let ?u = "t\<lparr>tb_bucket := ?b\<rparr>"
  have u: "slot_value (node_lookup t k) v t = ?u"
    by (simp add: slot_value_def s j(2) Let_def)
  obtain cs where cs: "tb_bucket t ! i = take j (tb_bucket t ! i) @ n # cs"
    "?c = take j (tb_bucket t ! i) @ ?m # cs"
    using j by (metis id_take_nth_drop upd_conv_take_nth_drop)
  have split: "tb_nodes t = concat (take i (tb_bucket t)) @ tb_bucket t ! i
      @ concat (drop (Suc i) (tb_bucket t))"
    "concat ?b = concat (take i (tb_bucket t)) @ ?c @ concat (drop (Suc i) (tb_bucket t))"
    using i by (subst id_take_nth_drop [of i "tb_bucket t"], simp_all add: upd_conv_take_nth_drop)
  let ?ms = "concat (take i (tb_bucket t)) @ (take j (tb_bucket t ! i) @ cs)
      @ concat (drop (Suc i) (tb_bucket t))"
  have m: "mset (tb_nodes t) = mset (n # ?ms)"
    unfolding split(1) by (subst cs(1)) simp
  have m': "mset (concat ?b) = mset (?m # ?ms)" unfolding split(2) unfolding cs(2) by simp
  have cl: "map (node_class (tb_keycmp t)) (concat ?b) = map (node_class (tb_keycmp t)) (tb_nodes t)"
    unfolding split(2) unfolding cs(2) unfolding split(1) by (subst (2) cs(1)) simp
  then have l: "length (concat ?b) = length (tb_nodes t)" by (metis length_map)
  have "n \<in> set (tb_bucket t ! i)" using j by (metis nth_mem)
  moreover have "set ?c \<subseteq> insert ?m (set (tb_bucket t ! i))" by (rule set_update_subset_insert)
  ultimately have pl: "placed (tb_hash t) (tb_size t) ?b"
    using W(5) i by (intro placed_update) (auto simp: placed_def idx_def)
  have "tb_wf ?u"
  proof (rule tb_wfI [OF wf])
    show "same_client t ?u" by (simp add: same_client_def)
    show "tb_used ?u = length (tb_nodes ?u)" using l W(7) by simp
    show "distinct (map (node_class (tb_keycmp t)) (tb_nodes ?u))"
      using W(6) cl by (simp del: distinct_map map_concat)
  qed (use pl W in simp_all)
  moreover have "tb_slack ?u = tb_slack t"
    using l by (simp add: tb_slack_def tb_blocks_def del: length_concat)
  moreover have "\<exists>ms. mset (tb_nodes t) = mset (n # ms) \<and> mset (tb_nodes ?u) = mset (?m # ms)"
    using m m' by (intro exI [of _ ?ms]) simp
  ultimately show ?thesis unfolding u revalued_def by simp
qed

lemma node_lookup_slot_value:
  assumes "table_get t k = Some n"
  shows "node_lookup (slot_value (node_lookup t k) v t) k = node_lookup t k"
proof -
  obtain i j where s: "node_lookup t k = (i, j)" by fastforce
  have pos: "chain_pos cmp k ns = length (takeWhile (\<lambda>x. cmp x k \<noteq> 0) (map hn_key ns))" for cmp ns
    by (simp add: chain_pos_def takeWhile_map comp_def)
  let ?c = "tb_bucket t ! i"
  have "map hn_key (?c[j := HashNode (hn_key (?c ! j)) v]) = map hn_key ?c"
    by (simp add: map_update) (metis list_update_id map_update)
  then have c: "chain_pos (tb_keycmp t) k (?c[j := HashNode (hn_key (?c ! j)) v])
      = chain_pos (tb_keycmp t) k ?c"
    unfolding pos by simp
  have ij: "tb_index t k = i" "chain_pos (tb_keycmp t) k ?c = j"
    using s by (auto simp: node_lookup_def Let_def)
  show ?thesis
  proof (cases "i < length (tb_bucket t)")
    case True
    then show ?thesis
      using ij c by (simp add: s node_lookup_def slot_value_def Let_def)
  next
    case False
    then have "slot_value (i, j) v t = t" by (simp add: slot_value_def Let_def list_update_beyond)
    then show ?thesis by (simp add: s)
  qed
qed

lemma revalued_same:
  assumes "revalued n v t u"
  shows "same_client t u" "tb_used u = tb_used t" "tb_size u = tb_size t"
    "tb_freed_keys u = tb_freed_keys t" "tb_freed_values u = tb_freed_values t"
proof -
  have "u = t\<lparr>tb_bucket := tb_bucket u\<rparr>" using assms by (simp add: revalued_def)
  then obtain b where "u = t\<lparr>tb_bucket := b\<rparr>" by blast
  then show "same_client t u" "tb_used u = tb_used t" "tb_size u = tb_size t"
    "tb_freed_keys u = tb_freed_keys t" "tb_freed_values u = tb_freed_values t"
    by (simp_all add: same_client_def)
qed

lemma revalued_get:
  assumes "tb_wf t" "revalued n v t u"
  shows "table_get u k = (if tb_keycmp t (hn_key n) k = 0 then Some (HashNode (hn_key n) v)
    else table_get t k)"
proof -
  note K = tb_wfD(1) [OF assms(1)]
  from assms(2) obtain ms where ms: "mset (tb_nodes t) = mset (n # ms)"
    "mset (tb_nodes u) = mset (HashNode (hn_key n) v # ms)" and wf: "tb_wf u"
    and "u = t\<lparr>tb_bucket := tb_bucket u\<rparr>"
    by (auto simp: revalued_def)
  from this(4) have c: "tb_keycmp u = tb_keycmp t" by (metis table.select_convs(4) table.update_convs(1) table.surjective)
  have "node_find (tb_keycmp t) k (tb_nodes t) = node_find (tb_keycmp t) k (n # ms)"
    using tb_wfD(6) [OF assms(1)] by (intro key_ops.node_find_mset [OF K ms(1)])
  moreover have "node_find (tb_keycmp t) k (tb_nodes u)
      = node_find (tb_keycmp t) k (HashNode (hn_key n) v # ms)"
    using tb_wfD(6) [OF wf] c by (intro key_ops.node_find_mset [OF K ms(2)]) simp
  ultimately show ?thesis
    using assms(1) wf c by (simp add: table_get_find key_ops.node_find_Cons [OF K])
qed

subsection \<open>Clearing and freeing\<close>

lemma node_free_bucket [simp]:
  "node_free p (t\<lparr>tb_bucket := b\<rparr>) = (node_free p t)\<lparr>tb_bucket := b\<rparr>"
  by (simp add: node_free_def value_free_def key_free_def Let_def)

lemma fold_node_free_bucket [simp]:
  "fold node_free ns (t\<lparr>tb_bucket := b\<rparr>) = (fold node_free ns t)\<lparr>tb_bucket := b\<rparr>"
  by (induction ns arbitrary: t) simp_all

lemma fold_clear_bucket:
  assumes "n \<le> length (tb_bucket t)"
  shows "fold clear_bucket (rev [0..<n]) t =
    (fold node_free (concat (rev (take n (tb_bucket t)))) t)
      \<lparr>tb_bucket := replicate n [] @ drop n (tb_bucket t)\<rparr>"
  using assms
proof (induction n arbitrary: t)
  case 0
  then show ?case by simp
next
  case (Suc n)
  let ?b = "(tb_bucket t)[n := []]"
  have d: "drop n ?b = [] # drop (Suc n) (tb_bucket t)"
    using Suc.prems by (simp add: drop_update_swap Cons_nth_drop_Suc [symmetric])
  have tk: "take (Suc n) (tb_bucket t) = take n (tb_bucket t) @ [tb_bucket t ! n]"
    using Suc.prems by (simp add: take_Suc_conv_app_nth)
  have c: "clear_bucket n t = (fold node_free (tb_bucket t ! n) t)\<lparr>tb_bucket := ?b\<rparr>"
    by (simp add: clear_bucket_def Let_def)
  show ?case
    using Suc.prems
    by (simp add: Suc.IH c d tk del: drop_update_cancel)
      (simp add: replicate_app_Cons_same)
qed

text \<open>What clearing did: every node released, in the order of the traversal.\<close>

definition cleared :: "('k, 'v) table \<Rightarrow> ('k, 'v) table \<Rightarrow> bool" where
  "cleared t t' \<longleftrightarrow> tb_wf t' \<and> same_client t t' \<and> tb_slack t' = tb_slack t \<and> tb_nodes t' = []
     \<and> tb_freed_keys t'
         = tb_freed_keys t @ (if tb_frees_keys t then map fst (table_foreach t) else [])
     \<and> tb_freed_values t'
         = tb_freed_values t @ (if tb_frees_values t then map snd (table_foreach t) else [])"

lemma cleared_resized:
  assumes "cleared t u" "resized u v" shows "cleared t v"
proof -
  have "mset (tb_nodes v) = {#}" using assms by (simp add: cleared_def resized_def)
  then have "tb_nodes v = []" by (metis mset_zero_iff)
  with assms resized_slack [OF assms(2)] show ?thesis
    unfolding cleared_def resized_def same_client_def by simp
qed

lemma table_clear_spec:
  assumes wf: "tb_wf t"
  shows "\<exists>t'. table_clear t = Some (0, t') \<and> cleared t t' \<and> tb_used t' = 0"
proof -
  note W = tb_wfD [OF wf]
  let ?ns = "concat (rev (tb_bucket t))"
  let ?f = "fold node_free ?ns t"
  let ?u = "?f\<lparr>tb_bucket := replicate (tb_size t) [], tb_used := 0\<rparr>"
  have f: "(fold clear_bucket (rev [0..<tb_size t]) t)\<lparr>tb_used := 0\<rparr> = ?u"
    using W(2) by (simp add: fold_clear_bucket)
  have l: "length ?ns = length (tb_nodes t)"
    by (simp add: length_concat rev_map [symmetric] sum_list_rev)
  have wfu: "tb_wf ?u"
  proof (rule tb_wfI [OF wf])
    show "same_client t ?u" by (simp add: same_client_def)
  qed (use fold_node_free_pool [OF W(8,9)] in \<open>auto simp: placed_def\<close>)
  have sl: "tb_slack ?u = tb_slack t"
    using fold_node_free_balance [of ?ns t] unfolding l
    by (simp add: tb_slack_def tb_blocks_def del: length_concat)
  have C: "cleared t ?u"
    using wfu sl by (simp add: cleared_def same_client_def table_foreach_def comp_def)
  show ?thesis
  proof (cases "tb_size t > 1024")
    case False
    have "table_clear t = Some (0, ?u)"
      using False unfolding table_clear_def Let_def f by simp
    with C show ?thesis by auto
  next
    case True
    let ?new = "tb_size t div 8"
    have "?new \<le> 2 ^ 28" "?new \<le> 2 ^ 63" using W(4) by simp_all
    moreover from this(1) have "roundup ?new < 2 ^ 29" by (rule roundup_bound)
    ultimately obtain r v where v: "table_resize ?new ?u = Some (r, v)" "resized ?u v"
      using table_resize_total [of ?new ?u] table_resize_spec(1) [OF wfu, of ?new] by fastforce
    have "table_clear t = Some (0, v)"
      using True v(1) unfolding table_clear_def Let_def f by simp
    moreover have "tb_used v = 0" using resized_used [OF wfu v(2)] by simp
    ultimately show ?thesis using cleared_resized [OF C v(2)] by blast
  qed
qed

lemma cleared_get: "cleared t t' \<Longrightarrow> table_get t' k = None"
  by (simp add: cleared_def table_get_find node_find_def del: concat_eq_Nil_conv)

text \<open>Freeing a table gives back every block it owned.\<close>

lemma table_free_spec:
  assumes "tb_wf t"
  shows "\<exists>t'. table_free t = Some t' \<and> alk_live (tb_alk t') = tb_slack t
    \<and> tb_freed_keys t'
         = tb_freed_keys t @ (if tb_frees_keys t then map fst (table_foreach t) else [])
    \<and> tb_freed_values t'
         = tb_freed_values t @ (if tb_frees_values t then map snd (table_foreach t) else [])"
proof -
  obtain u where u: "table_clear t = Some (0, u)" "cleared t u" using table_clear_spec [OF assms] by blast
  then have "tb_nodes u = []" "tb_slack u = tb_slack t" by (simp_all only: cleared_def)
  then have "alk_live (tb_alk u) - int (length (tb_pool u)) - 1 = tb_slack t"
    by (simp add: tb_slack_def [of u] tb_blocks_def [of u] del: concat_eq_Nil_conv)
  with u show ?thesis by (simp add: table_free_def cleared_def)
qed

text \<open>Equivalent keys.\<close>

lemma found_eqv:
  assumes "tb_wf t" "table_get t k = Some n"
  shows "(tb_keycmp t (hn_key n) k' = 0) = (tb_keycmp t k k' = 0)"
proof -
  note K = tb_wfD(1) [OF assms(1)]
  have "tb_keycmp t (hn_key n) k = 0" using table_get_Some [OF assms] by simp
  then show ?thesis using key_ops.cmp_sym [OF K] key_ops.cmp_trans [OF K] by blast
qed

lemma added_get:
  assumes "tb_wf t" "added n t r t'"
  shows "table_get t' k =
    (if r = 0 \<and> tb_keycmp t (hn_key n) k = 0 then Some n else table_get t k)"
proof (cases "r = 0")
  case True
  with assms have "mset (tb_nodes t') = add_mset n (mset (tb_nodes t))" "tb_wf t'"
    "tb_keycmp t' = tb_keycmp t"
    by (auto simp: added_def same_client_def)
  with table_get_add_mset [OF assms(1)] True show ?thesis by simp
next
  case False
  with assms have "mset (tb_nodes t') = mset (tb_nodes t)" "tb_wf t'" "tb_keycmp t' = tb_keycmp t"
    by (auto simp: added_def same_client_def)
  with table_get_mset [OF assms(1)] False show ?thesis by simp
qed

subsection \<open>Traversal\<close>

lemma foreach_mset:
  "mset (table_foreach t) = mset (map (\<lambda>n. (hn_key n, hn_value n)) (tb_nodes t))"
proof -
  have "mset (concat (rev (tb_bucket t))) = mset (tb_nodes t)"
    by (simp add: mset_concat rev_map [symmetric] sum_list_rev)
  then show ?thesis unfolding table_foreach_def mset_map by simp
qed

lemma find_pairs:
  "List.find (\<lambda>e. cmp (fst e) k = 0) (map (\<lambda>n. (hn_key n, hn_value n)) ns)
     = map_option (\<lambda>n. (hn_key n, hn_value n)) (node_find cmp k ns)"
  by (induction ns) (auto simp: node_find_def)

lemma foreach_find:
  assumes "tb_wf t"
  shows "map_option snd (List.find (\<lambda>e. tb_keycmp t (fst e) k = 0) (table_foreach t))
    = map_option hn_value (table_get t k)"
proof -
  let ?ns = "concat (rev (tb_bucket t))"
  have m: "mset ?ns = mset (tb_nodes t)"
    by (simp add: mset_concat rev_map [symmetric] sum_list_rev)
  have "map_option snd (List.find (\<lambda>e. tb_keycmp t (fst e) k = 0) (table_foreach t))
      = map_option hn_value (node_find (tb_keycmp t) k ?ns)"
    by (simp add: table_foreach_def find_pairs option.map_comp comp_def)
  also have "node_find (tb_keycmp t) k ?ns = node_find (tb_keycmp t) k (tb_nodes t)"
    using tb_wfD(6) [OF assms] distinct_map_mset [OF m, of "node_class (tb_keycmp t)"]
    by (intro key_ops.node_find_mset [OF tb_wfD(1) [OF assms] m]) simp
  finally show ?thesis by (simp add: table_get_find [OF assms])
qed

lemma foreach_once:
  assumes "tb_wf t" "i < length (table_foreach t)" "j < length (table_foreach t)" "i \<noteq> j"
  shows "tb_keycmp t (fst (table_foreach t ! i)) (fst (table_foreach t ! j)) \<noteq> 0"
proof
  let ?c = "\<lambda>e. keyclass (tb_keycmp t) (fst e)"
  assume "tb_keycmp t (fst (table_foreach t ! i)) (fst (table_foreach t ! j)) = 0"
  then have "?c (table_foreach t ! i) = ?c (table_foreach t ! j)"
    by (simp add: key_ops.keyclass_eq_iff [OF tb_wfD(1) [OF assms(1)]])
  moreover have "distinct (map ?c (table_foreach t))"
    using tb_wfD(6) [OF assms(1)] distinct_map_mset [OF foreach_mset, of ?c t]
    by (simp add: comp_def del: distinct_map)
  ultimately show False using assms(2-4) by (simp add: distinct_conv_nth)
qed

lemma foreach_length: "tb_wf t \<Longrightarrow> length (table_foreach t) = tb_used t"
  using tb_wfD(7) foreach_mset [of t] by (metis length_map size_mset)

lemma table_get_eqv:
  assumes "tb_wf t" "tb_keycmp t a b = 0"
  shows "table_get t a = table_get t b"
proof -
  note K = tb_wfD(1) [OF assms(1)]
  have "(tb_keycmp t x a = 0) = (tb_keycmp t x b = 0)" for x
    using assms(2) key_ops.cmp_sym [OF K] key_ops.cmp_trans [OF K] by blast
  then show ?thesis by (simp add: table_get_find [OF assms(1)] node_find_def)
qed

subsection \<open>A new table\<close>

lemma table_alloc_spec:
  assumes "key_ops hash cmp" "n \<le> 2 ^ 63"
    and res: "table_alloc n cmp hash a fk fv = Some (Inr t)"
  shows "tb_wf t" "tb_nodes t = []" "tb_slack t = alk_live a" "n \<le> tb_size t" "tb_loaded t"
    and "tb_hash t = hash" "tb_keycmp t = cmp" "tb_frees_keys t = fk" "tb_frees_values t = fv"
    and "tb_freed_keys t = []" "tb_freed_values t = []"
    and "alk_grant (tb_alk t) = alk_grant a" "tb_used t = 0"
proof -
  let ?n = "roundup n"
  from res obtain b where al: "bucket_alloc ?n a = Some (True, b)"
    and t: "t = \<lparr>tb_bucket = replicate ?n [], tb_alk = b, tb_hash = hash, tb_keycmp = cmp,
      tb_frees_keys = fk, tb_frees_values = fv, tb_freed_keys = [], tb_freed_values = [],
      tb_pool = [], tb_pool_size = 0, tb_size = ?n, tb_used = 0\<rparr>"
    by (auto simp: table_alloc_def Let_def bind_Some_iff split: if_splits)
  note A = bucket_alloc_Some [OF al]
  note B = roundup_props [OF assms(2)]
  obtain k where k: "3 \<le> k" "k \<le> 63" "?n = 2 ^ k" using B(1) by blast
  have "k < 29"
  proof (rule ccontr)
    assume "\<not> k < 29"
    then have "(2::nat) ^ 29 \<le> 2 ^ k" by (intro power_increasing) auto
    with A(3) k(3) show False by simp
  qed
  with k assms(1) show "tb_wf t" by (auto simp: tb_wf_def t placed_def)
  show "tb_slack t = alk_live a" "alk_grant (tb_alk t) = alk_grant a" "n \<le> tb_size t"
    using A B(2) by (simp_all add: t tb_slack_def tb_blocks_def)
qed (use res in \<open>auto simp: table_alloc_def Let_def bind_Some_iff tb_loaded_def split: if_splits\<close>)

lemma table_alloc_never_refuses:
  assumes "never_refuses a" "n \<le> 2 ^ 28"
  shows "\<exists>t. table_alloc n cmp hash a fk fv = Some (Inr t)"
proof -
  obtain ok b where al: "bucket_alloc (roundup n) a = Some (ok, b)"
    using bucket_alloc_total [OF roundup_bound [OF assms(2)], of a] by fastforce
  with bucket_alloc_Some(4) [OF al assms(1)] show ?thesis by (simp add: table_alloc_def Let_def)
qed

end
