(* ===== verification/Dictionary.thy ===== *)
theory Dictionary
  imports Carthage_Prelude
begin

section \<open>The interface of a keyed container\<close>

text \<open>
  What the clients of hashtable.c, set.c and bag.c use: a container maps each class of
  equivalent keys to at most one entry; an insertion that succeeds combines its argument with
  the entry that is there (\<open>ins\<close>), a removal takes away all or part of it (\<open>out\<close>), and an
  operation that reports a failure changes nothing. The laws are those a client relies on; the
  three containers interpret the locale with their own operations.
\<close>

datatype ('k, 'a) dict_op = Put 'k 'a | Del 'k

text \<open>Running a sequence of operations against a container, collecting the return codes.\<close>

fun run_ops ::
    "('k \<Rightarrow> 'a \<Rightarrow> 's \<Rightarrow> (int \<times> 's) option) \<Rightarrow> ('k \<Rightarrow> 's \<Rightarrow> (int \<times> 's) option)
      \<Rightarrow> ('k, 'a) dict_op list \<Rightarrow> 's \<Rightarrow> (int list \<times> 's) option" where
  "run_ops put del [] s = Some ([], s)"
| "run_ops put del (x # xs) s =
     do {
       (r, s') \<leftarrow> (case x of Put k a \<Rightarrow> put k a s | Del k \<Rightarrow> del k s);
       (rs, s'') \<leftarrow> run_ops put del xs s';
       Some (r # rs, s'')
     }"

text \<open>The same sequence on an abstract map, with the return codes of its operations.\<close>

definition abs_step ::
    "('k \<Rightarrow> 'k \<Rightarrow> bool) \<Rightarrow> ('a \<Rightarrow> 'v option \<Rightarrow> 'v) \<Rightarrow> ('v \<Rightarrow> 'v option)
      \<Rightarrow> ('k, 'a) dict_op \<times> int \<Rightarrow> ('k \<Rightarrow> 'v option) \<Rightarrow> ('k \<Rightarrow> 'v option)" where
  "abs_step eqv ins out xr m =
     (if snd xr \<noteq> 0 then m
      else case fst xr of
        Put k a \<Rightarrow> (\<lambda>k'. if eqv k k' then Some (ins a (m k)) else m k')
      | Del k \<Rightarrow> (\<lambda>k'. if eqv k k' then m k \<bind> out else m k'))"

locale dict =
  fixes wf :: "'s \<Rightarrow> bool"
    and eqv :: "'k \<Rightarrow> 'k \<Rightarrow> bool"
    and get :: "'s \<Rightarrow> 'k \<Rightarrow> 'v option"
    and put :: "'k \<Rightarrow> 'a \<Rightarrow> 's \<Rightarrow> (int \<times> 's) option"
    and del :: "'k \<Rightarrow> 's \<Rightarrow> (int \<times> 's) option"
    and ins :: "'a \<Rightarrow> 'v option \<Rightarrow> 'v"
    and out :: "'v \<Rightarrow> 'v option"
  assumes eqv_refl: "eqv k k"
    and eqv_sym: "eqv k k' \<Longrightarrow> eqv k' k"
    and eqv_trans: "eqv k k' \<Longrightarrow> eqv k' k'' \<Longrightarrow> eqv k k''"
    and get_eqv: "wf s \<Longrightarrow> eqv k k' \<Longrightarrow> get s k = get s k'"
    and put_wf: "wf s \<Longrightarrow> put k a s = Some (r, s') \<Longrightarrow> wf s'"
    and put_code: "wf s \<Longrightarrow> put k a s = Some (r, s') \<Longrightarrow> r \<in> {0, - 1, - 2}"
    and get_put: "wf s \<Longrightarrow> put k a s = Some (0, s')
      \<Longrightarrow> get s' k' = (if eqv k k' then Some (ins a (get s k)) else get s k')"
    and put_failed: "wf s \<Longrightarrow> put k a s = Some (r, s') \<Longrightarrow> r \<noteq> 0 \<Longrightarrow> get s' k' = get s k'"
    and del_total: "wf s \<Longrightarrow> \<exists>s'. del k s = Some (if get s k = None then - 1 else 0, s')"
    and del_wf: "wf s \<Longrightarrow> del k s = Some (r, s') \<Longrightarrow> wf s'"
    and get_del: "wf s \<Longrightarrow> del k s = Some (r, s')
      \<Longrightarrow> get s' k' = (if eqv k k' then get s k \<bind> out else get s k')"
begin

lemma del_code: "wf s \<Longrightarrow> del k s = Some (r, s') \<Longrightarrow> r = (if get s k = None then - 1 else 0)"
  using del_total [of s k] by auto

lemma put_step:
  "wf s \<Longrightarrow> put k a s = Some (r, s') \<Longrightarrow> get s' = abs_step eqv ins out (Put k a, r) (get s)"
  by (auto simp: abs_step_def fun_eq_iff get_put put_failed)

lemma del_step:
  assumes "wf s" "del k s = Some (r, s')"
  shows "get s' = abs_step eqv ins out (Del k, r) (get s)"
proof (cases "get s k")
  case None
  moreover have "get s k' = None" if "eqv k k'" for k'
    using get_eqv [OF assms(1) that] None by simp
  ultimately have "get s' k' = get s k'" for k'
    using get_del [OF assms, of k'] None by (cases "eqv k k'") simp_all
  moreover have "r = - 1" using del_code [OF assms] None by simp
  ultimately show ?thesis by (simp add: abs_step_def fun_eq_iff)
next
  case (Some v)
  then show ?thesis
    using get_del [OF assms] del_code [OF assms] by (simp add: abs_step_def fun_eq_iff)
qed

text \<open>A run of the container is the run of the abstract map.\<close>

lemma run_refines:
  assumes "wf s" "run_ops put del xs s = Some (rs, s')"
  shows "wf s' \<and> length rs = length xs
    \<and> get s' = fold (abs_step eqv ins out) (zip xs rs) (get s)"
  using assms
proof (induction xs arbitrary: s rs)
  case Nil
  then show ?case by simp
next
  case (Cons x xs)
  from Cons.prems(2) obtain r s1 rs' where
    st: "(case x of Put k a \<Rightarrow> put k a s | Del k \<Rightarrow> del k s) = Some (r, s1)" and
    rest: "run_ops put del xs s1 = Some (rs', s')" and rs: "rs = r # rs'"
    by (auto simp: bind_Some_iff)
  have "wf s1 \<and> get s1 = abs_step eqv ins out (x, r) (get s)"
  proof (cases x)
    case (Put k a)
    then have "put k a s = Some (r, s1)" using st by simp
    from put_wf [OF Cons.prems(1) this] put_step [OF Cons.prems(1) this]
    show ?thesis unfolding Put by (rule conjI)
  next
    case (Del k)
    then have "del k s = Some (r, s1)" using st by simp
    from del_wf [OF Cons.prems(1) this] del_step [OF Cons.prems(1) this]
    show ?thesis unfolding Del by (rule conjI)
  qed
  with Cons.IH [OF _ rest] show ?case by (simp add: rs)
qed

text \<open>Removing what was just inserted, and inserting twice.\<close>

lemma put_del_absent:
  assumes "wf s" "get s k = None" "put k a s = Some (0, s1)" "del k s1 = Some (r, s2)"
    "out (ins a None) = None"
  shows "r = 0 \<and> get s2 = get s"
proof -
  note wf1 = put_wf [OF assms(1,3)]
  have g1: "get s1 k' = (if eqv k k' then Some (ins a None) else get s k')" for k'
    using get_put [OF assms(1,3)] assms(2) by simp
  then have "r = 0" using del_code [OF wf1 assms(4)] eqv_refl by simp
  moreover have "get s2 k' = get s k'" for k'
  proof (cases "eqv k k'")
    case True
    then have "get s k' = None" using get_eqv [OF assms(1), of k k'] assms(2) by simp
    with True show ?thesis using get_del [OF wf1 assms(4)] g1 eqv_refl assms(5) by simp
  next
    case False
    then show ?thesis using get_del [OF wf1 assms(4)] g1 by simp
  qed
  ultimately show ?thesis by (simp add: fun_eq_iff)
qed

end

subsection \<open>Containers that can be traversed\<close>

locale iter_dict = dict wf eqv get put del ins out
  for wf :: "'s \<Rightarrow> bool" and eqv :: "'k \<Rightarrow> 'k \<Rightarrow> bool" and get :: "'s \<Rightarrow> 'k \<Rightarrow> 'v option"
    and put :: "'k \<Rightarrow> 'a \<Rightarrow> 's \<Rightarrow> (int \<times> 's) option" and del :: "'k \<Rightarrow> 's \<Rightarrow> (int \<times> 's) option"
    and ins :: "'a \<Rightarrow> 'v option \<Rightarrow> 'v" and out :: "'v \<Rightarrow> 'v option" +
  fixes each :: "'s \<Rightarrow> ('k \<times> 'v) list" and count :: "'s \<Rightarrow> nat"
  assumes each_get: "wf s \<Longrightarrow> get s k = map_option snd (List.find (\<lambda>e. eqv (fst e) k) (each s))"
    and each_once: "wf s \<Longrightarrow> i < length (each s) \<Longrightarrow> j < length (each s) \<Longrightarrow> i \<noteq> j
      \<Longrightarrow> \<not> eqv (fst (each s ! i)) (fst (each s ! j))"
    and count_each: "wf s \<Longrightarrow> count s = length (each s)"
begin

lemma each_entry:
  assumes "wf s" "e \<in> set (each s)"
  shows "get s (fst e) = Some (snd e)"
proof -
  from assms(2) obtain i where i: "i < length (each s)" "each s ! i = e"
    by (auto simp: in_set_conv_nth)
  have "List.find (\<lambda>x. eqv (fst x) (fst e)) (each s) = Some e"
  proof (rule find_Some_unique [OF assms(2)])
    show "eqv (fst e) (fst e)" by (rule eqv_refl)
  next
    fix y assume y: "y \<in> set (each s)" "eqv (fst y) (fst e)"
    then obtain j where j: "j < length (each s)" "each s ! j = y" by (auto simp: in_set_conv_nth)
    with y(2) i each_once [OF assms(1) j(1) i(1)] show "y = e" by auto
  qed
  then show ?thesis using each_get [OF assms(1), of "fst e"] by simp
qed

lemma count_zero_iff: "wf s \<Longrightarrow> count s = 0 \<longleftrightarrow> (\<forall>k. get s k = None)"
proof
  assume "wf s" "count s = 0"
  then show "\<forall>k. get s k = None" by (simp add: each_get count_each)
next
  assume "wf s" "\<forall>k. get s k = None"
  then show "count s = 0"
    using each_entry [of s "hd (each s)"] by (cases "each s") (auto simp: count_each)
qed

end

text \<open>Inserting into an empty container everything a traversal of another yields copies it.\<close>

locale copy_dict = iter_dict wf eqv get put del ins out each count
  for wf :: "'s \<Rightarrow> bool" and eqv :: "'k \<Rightarrow> 'k \<Rightarrow> bool" and get :: "'s \<Rightarrow> 'k \<Rightarrow> 'v option"
    and put :: "'k \<Rightarrow> 'v \<Rightarrow> 's \<Rightarrow> (int \<times> 's) option" and del :: "'k \<Rightarrow> 's \<Rightarrow> (int \<times> 's) option"
    and ins :: "'v \<Rightarrow> 'v option \<Rightarrow> 'v" and out :: "'v \<Rightarrow> 'v option"
    and each :: "'s \<Rightarrow> ('k \<times> 'v) list" and count :: "'s \<Rightarrow> nat" +
  assumes ins_new: "ins v None = v"
begin

lemma fold_puts:
  assumes "set rs \<subseteq> {0}" "length rs = length es"
    and "\<And>i j. i < length es \<Longrightarrow> j < length es \<Longrightarrow> i \<noteq> j \<Longrightarrow> \<not> eqv (fst (es ! i)) (fst (es ! j))"
    and "\<And>e. e \<in> set es \<Longrightarrow> m (fst e) = None"
  shows "fold (abs_step eqv ins out) (zip (map (\<lambda>e. Put (fst e) (snd e)) es) rs) m k
    = (case List.find (\<lambda>e. eqv (fst e) k) es of None \<Rightarrow> m k | Some e \<Rightarrow> Some (snd e))"
  using assms
proof (induction es arbitrary: rs m)
  case Nil
  then show ?case by simp
next
  case (Cons e es)
  then obtain rs' where rs: "rs = 0 # rs'" by (cases rs) auto
  have ne: "\<not> eqv (fst e) (fst e')" if "e' \<in> set es" for e'
  proof -
    from that obtain j where "j < length es" "es ! j = e'" by (auto simp: in_set_conv_nth)
    then show ?thesis using Cons.prems(3) [of 0 "Suc j"] by simp
  qed
  let ?m = "abs_step eqv ins out (Put (fst e) (snd e), 0) m"
  have m: "?m k' = (if eqv (fst e) k' then Some (snd e) else m k')" for k'
    using Cons.prems(4) [of e] by (simp add: abs_step_def ins_new)
  have IH: "fold (abs_step eqv ins out) (zip (map (\<lambda>e. Put (fst e) (snd e)) es) rs') ?m k
    = (case List.find (\<lambda>e. eqv (fst e) k) es of None \<Rightarrow> ?m k | Some e \<Rightarrow> Some (snd e))"
  proof (rule Cons.IH)
    fix i j assume "i < length es" "j < length es" "i \<noteq> j"
    then show "\<not> eqv (fst (es ! i)) (fst (es ! j))" using Cons.prems(3) [of "Suc i" "Suc j"] by simp
  qed (use Cons.prems rs ne m in auto)
  show ?case
  proof (cases "eqv (fst e) k")
    case True
    have "\<not> eqv (fst e') k" if "e' \<in> set es" for e'
      using ne [OF that] True eqv_sym eqv_trans by blast
    then have "List.find (\<lambda>e. eqv (fst e) k) es = None" by (simp add: find_None_iff2')
    with IH True m show ?thesis by (simp add: rs)
  next
    case False
    with IH m show ?thesis by (simp add: rs split: option.split)
  qed
qed

lemma copy:
  assumes "wf s" "wf e" "count e = 0"
    and run: "run_ops put del (map (\<lambda>x. Put (fst x) (snd x)) (each s)) e = Some (rs, e')"
    and ok: "set rs \<subseteq> {0}"
  shows "wf e' \<and> get e' = get s"
proof -
  have none: "get e k = None" for k using count_zero_iff [OF assms(2)] assms(3) by simp
  note R = run_refines [OF assms(2) run]
  have "get e' k = get s k" for k
  proof -
    have "get e' k = (case List.find (\<lambda>x. eqv (fst x) k) (each s) of None \<Rightarrow> get e k
        | Some x \<Rightarrow> Some (snd x))"
      using R ok none each_once [OF assms(1)] by (simp add: fold_puts)
    also have "\<dots> = get s k" by (simp add: each_get [OF assms(1)] none split: option.split)
    finally show ?thesis .
  qed
  with R show ?thesis by (simp add: fun_eq_iff)
qed

end

end
