(* ===== verification/Hash_Table.thy ===== *)
theory Hash_Table
  imports Table_Correct Dictionary
begin

section \<open>hashtable.c\<close>

text \<open>
  The public operations of src/hashtable/hashtable.c over the chained table, and what they
  promise: a hashtable is a map from key classes to values, whatever the bucket array does
  underneath. A lookup that finds no node returns NULL in C and \<open>None\<close> here.
\<close>

subsection \<open>Operations\<close>

definition hashnode_bytes :: nat where "hashnode_bytes = 24"

definition hashtable_alloc ::
    "nat \<Rightarrow> ('k \<Rightarrow> 'k \<Rightarrow> int) \<Rightarrow> ('k \<Rightarrow> u64) \<Rightarrow> alk \<Rightarrow> bool \<Rightarrow> bool
      \<Rightarrow> (alk + ('k, 'v) table) option" where
  "hashtable_alloc n cmp hash alk frees_keys frees_values =
     table_alloc n cmp hash alk frees_keys frees_values"

definition hashtable_free :: "('k, 'v) table \<Rightarrow> ('k, 'v) table option" where
  "hashtable_free t = table_free t"

definition hashtable_insert ::
    "'k \<Rightarrow> 'v \<Rightarrow> ('k, 'v) table \<Rightarrow> (int \<times> ('k, 'v) table) option" where
  "hashtable_insert k v t =
     (let s = node_lookup t k
      in case slot_node t s of
           Some n \<Rightarrow>
             (let t1 = (if hn_value n \<noteq> v then value_free (hn_value n) t else t)
              in Some (0, slot_value s v t1))
         | None \<Rightarrow> table_add hashnode_bytes k v t)"

definition hashtable_remove :: "'k \<Rightarrow> ('k, 'v) table \<Rightarrow> (int \<times> ('k, 'v) table) option" where
  "hashtable_remove k t = table_remove k t"

definition hashtable_clear :: "('k, 'v) table \<Rightarrow> (int \<times> ('k, 'v) table) option" where
  "hashtable_clear t = table_clear t"

definition hashtable_contains :: "('k, 'v) table \<Rightarrow> 'k \<Rightarrow> bool" where
  "hashtable_contains t k = (slot_node t (node_lookup t k) \<noteq> None)"

definition hashtable_lookup :: "('k, 'v) table \<Rightarrow> 'k \<Rightarrow> 'v option" where
  "hashtable_lookup t k = map_option hn_value (slot_node t (node_lookup t k))"

definition hashtable_size :: "('k, 'v) table \<Rightarrow> nat" where
  "hashtable_size t = tb_used t"

definition hashtable_foreach :: "('k, 'v) table \<Rightarrow> ('k \<times> 'v) list" where
  "hashtable_foreach t = table_foreach t"

lemma hashtable_lookup_get: "hashtable_lookup t k = map_option hn_value (table_get t k)"
  by (simp add: hashtable_lookup_def table_get_def)

lemma hashtable_contains_get: "hashtable_contains t k \<longleftrightarrow> table_get t k \<noteq> None"
  by (simp add: hashtable_contains_def table_get_def)

subsection \<open>Insertion\<close>

text \<open>What an insertion that returns \<open>r\<close> did to the table as a map, and to its blocks.\<close>

definition hashtable_inserted ::
    "'k \<Rightarrow> 'v \<Rightarrow> ('k, 'v) table \<Rightarrow> int \<Rightarrow> ('k, 'v) table \<Rightarrow> bool" where
  "hashtable_inserted k v t r t' \<longleftrightarrow>
     tb_wf t' \<and> same_client t t' \<and> tb_slack t' = tb_slack t \<and> r \<in> {0, - 1, - 2}
     \<and> (r = 0 \<longrightarrow> (\<forall>k'. hashtable_lookup t' k'
          = (if tb_keycmp t k k' = 0 then Some v else hashtable_lookup t k')))
     \<and> (r \<noteq> 0 \<longrightarrow> (\<forall>k'. hashtable_lookup t' k' = hashtable_lookup t k'))"

lemma wf_value_free [simp]: "tb_wf (value_free v t) = tb_wf t"
  by (simp add: value_free_def tb_wf_def)

lemma get_value_free [simp]:
  "table_get (value_free v t) = table_get t" "node_lookup (value_free v t) = node_lookup t"
  by (auto simp: fun_eq_iff value_free_def table_get_def node_lookup_def slot_node_def
      tb_index_def Let_def)

lemma value_free_simps [simp]:
  "same_client t (value_free v t)" "tb_slack (value_free v t) = tb_slack t"
  "tb_keycmp (value_free v t) = tb_keycmp t" "tb_used (value_free v t) = tb_used t"
  "tb_size (value_free v t) = tb_size t"
  by (simp_all add: value_free_def same_client_def tb_slack_def tb_blocks_def)

text \<open>An insertion for a key that is there.\<close>

lemma hashtable_insert_present:
  assumes "tb_wf t" "table_get t k = Some n"
  shows "\<exists>t'. hashtable_insert k v t = Some (0, t')
    \<and> revalued n v (if hn_value n \<noteq> v then value_free (hn_value n) t else t) t'"
proof -
  let ?t1 = "if hn_value n \<noteq> v then value_free (hn_value n) t else t"
  have "revalued n v ?t1 (slot_value (node_lookup ?t1 k) v ?t1)"
    using assms by (intro slot_value_spec) auto
  moreover have "node_lookup ?t1 k = node_lookup t k" by simp
  moreover have "hashtable_insert k v t = Some (0, slot_value (node_lookup t k) v ?t1)"
    using assms(2) by (simp add: hashtable_insert_def table_get_def Let_def)
  ultimately show ?thesis by simp
qed

lemma hashtable_insert_absent:
  "table_get t k = None \<Longrightarrow> hashtable_insert k v t = table_add hashnode_bytes k v t"
  by (simp add: hashtable_insert_def table_get_def Let_def)

lemma hashtable_insert_effect:
  assumes wf: "tb_wf t" and res: "hashtable_insert k v t = Some (r, t')"
  shows "hashtable_inserted k v t r t'" and "tb_loaded t \<Longrightarrow> tb_loaded t'"
    and "never_refuses (tb_alk t) \<Longrightarrow> r = 0"
proof -
  have "hashtable_inserted k v t r t' \<and> (tb_loaded t \<longrightarrow> tb_loaded t')
    \<and> (never_refuses (tb_alk t) \<longrightarrow> r = 0)"
  proof (cases "table_get t k")
    case None
    then have add: "table_add hashnode_bytes k v t = Some (r, t')"
      using res by (simp add: hashtable_insert_absent)
    note S = table_add_spec [OF wf None add]
    have "hashtable_lookup t' k' = (if r = 0 \<and> tb_keycmp t k k' = 0 then Some v
      else hashtable_lookup t k')" for k'
      using added_get [OF wf S(1), of k'] by (simp add: hashtable_lookup_get)
    with S show ?thesis by (auto simp: hashtable_inserted_def added_def)
  next
    case (Some n)
    let ?t1 = "if hn_value n \<noteq> v then value_free (hn_value n) t else t"
    have R: "revalued n v ?t1 t'" "r = 0"
      using hashtable_insert_present [OF wf Some, of v] res by auto
    have wf1: "tb_wf ?t1" using wf by simp
    note eq = found_eqv [OF wf Some]
    have "hashtable_lookup t' k' = (if tb_keycmp t k k' = 0 then Some v else hashtable_lookup t k')"
      for k'
      using revalued_get [OF wf1 R(1), of k'] eq [of k']
      by (simp add: hashtable_lookup_get split: if_splits)
    moreover have "same_client t t'"
      by (rule same_client_trans [OF _ revalued_same(1) [OF R(1)]]) simp
    moreover have "tb_slack t' = tb_slack t" "tb_wf t'" using R(1) by (auto simp: revalued_def)
    moreover have "tb_used t' = tb_used t" "tb_size t' = tb_size t"
      using revalued_same(2,3) [OF R(1)] by (simp_all split: if_splits)
    ultimately show ?thesis using R(2) by (simp add: hashtable_inserted_def tb_loaded_def)
  qed
  then show "hashtable_inserted k v t r t'" "tb_loaded t \<Longrightarrow> tb_loaded t'"
    "never_refuses (tb_alk t) \<Longrightarrow> r = 0"
    by blast+
qed

lemma hashtable_insert_total:
  assumes "tb_wf t" "tb_size t \<le> 2 ^ 27"
  shows "\<exists>r t'. hashtable_insert k v t = Some (r, t')"
proof (cases "table_get t k")
  case None
  with table_add_total [OF assms, of hashnode_bytes k v] show ?thesis
    by (auto simp: hashtable_insert_absent)
next
  case (Some n)
  with hashtable_insert_present [OF assms(1), of k n v] show ?thesis by blast
qed

subsection \<open>Removal\<close>

lemma hashtable_remove_effect:
  assumes wf: "tb_wf t"
  shows "\<exists>t'. hashtable_remove k t = Some (if hashtable_contains t k then 0 else - 1, t')
    \<and> tb_wf t' \<and> same_client t t' \<and> tb_slack t' = tb_slack t \<and> (tb_loaded t \<longrightarrow> tb_loaded t')
    \<and> (\<forall>k'. hashtable_lookup t' k'
         = (if tb_keycmp t k k' = 0 then None else hashtable_lookup t k'))"
proof -
  from table_remove_spec [OF wf, of k] obtain r t' where
    rm: "table_remove k t = Some (r, t')" and ld: "tb_loaded t \<longrightarrow> tb_loaded t'" and
    cs: "case table_get t k of None \<Rightarrow> r = - 1 \<and> t' = t | Some n \<Rightarrow> r = 0 \<and> removed n t t'"
    by blast
  show ?thesis
  proof (cases "table_get t k")
    case None
    then have "hashtable_lookup t k' = None" if "tb_keycmp t k k' = 0" for k'
      using table_get_eqv [OF wf that] by (simp add: hashtable_lookup_get)
    then show ?thesis
      using rm cs wf None by (auto simp: hashtable_remove_def hashtable_contains_get)
  next
    case (Some n)
    then have R: "removed n t t'" "r = 0" using cs by simp_all
    note eq = found_eqv [OF wf Some]
    show ?thesis
      using rm R Some ld removed_get [OF wf R(1)] eq
      by (auto simp: hashtable_remove_def hashtable_contains_get hashtable_lookup_get removed_def)
  qed
qed

subsection \<open>A hashtable is a dictionary\<close>

sublocale key_ops \<subseteq> ht: copy_dict "\<lambda>t. tb_wf t \<and> tb_keycmp t = cmp" "\<lambda>a b. cmp a b = 0"
    hashtable_lookup hashtable_insert hashtable_remove "\<lambda>v _. v" "\<lambda>_. None"
    hashtable_foreach hashtable_size
proof
  fix k k' k'' :: 'k
  show "cmp k k = 0" by (rule cmp_refl)
  show "cmp k' k = 0" if "cmp k k' = 0" using that by (rule cmp_sym)
  show "cmp k k'' = 0" if "cmp k k' = 0" "cmp k' k'' = 0" using that by (rule cmp_trans)
next
  fix s :: "('k, 'a) table" and k k' :: 'k
  assume "tb_wf s \<and> tb_keycmp s = cmp" "cmp k k' = 0"
  then show "hashtable_lookup s k = hashtable_lookup s k'"
    using table_get_eqv [of s k k'] by (simp add: hashtable_lookup_get)
next
  fix s s' :: "('k, 'a) table" and k k' x r
  assume wf: "tb_wf s \<and> tb_keycmp s = cmp"
  then have wf': "tb_wf s" by simp
  { assume res: "hashtable_insert k x s = Some (r, s')"
    note E = hashtable_insert_effect(1) [OF wf' res, unfolded hashtable_inserted_def]
    then show "tb_wf s' \<and> tb_keycmp s' = cmp" using wf by (auto simp: same_client_def)
    show "r \<in> {0, - 1, - 2}" using E by blast
    show "hashtable_lookup s' k' = hashtable_lookup s k'" if "r \<noteq> 0" using E that by blast }
  { assume res: "hashtable_insert k x s = Some (0, s')"
    note E = hashtable_insert_effect(1) [OF wf' res, unfolded hashtable_inserted_def]
    then show "hashtable_lookup s' k' = (if cmp k k' = 0 then Some x else hashtable_lookup s k')"
      using wf by simp }
  have c: "(hashtable_lookup s k = None) = (\<not> hashtable_contains s k)"
    by (simp add: hashtable_lookup_get hashtable_contains_get)
  from hashtable_remove_effect [OF wf', of k] obtain u where
    u: "hashtable_remove k s = Some (if hashtable_contains s k then 0 else - 1, u)" "tb_wf u"
    "same_client s u" "\<And>k'. hashtable_lookup u k'
         = (if tb_keycmp s k k' = 0 then None else hashtable_lookup s k')"
    by blast
  then show "\<exists>s'. hashtable_remove k s = Some (if hashtable_lookup s k = None then - 1 else 0, s')"
    unfolding c by auto
  { assume "hashtable_remove k s = Some (r, s')"
    then have "s' = u" using u(1) by simp
    then show "tb_wf s' \<and> tb_keycmp s' = cmp" using u(2,3) wf by (simp add: same_client_def)
    show "hashtable_lookup s' k'
        = (if cmp k k' = 0 then hashtable_lookup s k \<bind> (\<lambda>_. None) else hashtable_lookup s k')"
      using \<open>s' = u\<close> u(4) wf by simp }
next
  fix s :: "('k, 'a) table" and k and i j
  assume wf: "tb_wf s \<and> tb_keycmp s = cmp"
  then show "hashtable_lookup s k
      = map_option snd (List.find (\<lambda>e. cmp (fst e) k = 0) (hashtable_foreach s))"
    using foreach_find [of s k] by (simp add: hashtable_lookup_get hashtable_foreach_def)
  show "hashtable_size s = length (hashtable_foreach s)"
    using wf foreach_length [of s] by (simp add: hashtable_size_def hashtable_foreach_def)
  show "cmp (fst (hashtable_foreach s ! i)) (fst (hashtable_foreach s ! j)) \<noteq> 0"
    if "i < length (hashtable_foreach s)" "j < length (hashtable_foreach s)" "i \<noteq> j"
    using foreach_once [of s i j] wf that by (simp add: hashtable_foreach_def)
qed simp

context key_ops begin

lemmas ht_run = ht.run_refines
lemmas ht_copy = ht.copy
lemmas ht_put_del = ht.put_del_absent
lemmas ht_entry = ht.each_entry

end

end
