(* ===== verification/Hash_Set.thy ===== *)
theory Hash_Set
  imports Table_Correct Dictionary
begin

section \<open>set.c\<close>

text \<open>
  src/set/set.c: the chained table with nodes that hold a key only. The model's payload is
  \<open>unit\<close>. A set is a dictionary whose entries carry nothing.
\<close>

subsection \<open>Operations\<close>

definition setnode_bytes :: nat where "setnode_bytes = 16"

definition setnode_alloc ::
    "'k \<Rightarrow> ('k, unit) table \<Rightarrow> ('k, unit) hashnode option \<times> ('k, unit) table" where
  "setnode_alloc k t = node_alloc setnode_bytes k () t"

definition setnode_free :: "('k, unit) hashnode \<Rightarrow> ('k, unit) table \<Rightarrow> ('k, unit) table" where
  "setnode_free p t = node_free p t"

definition setnode_lookup :: "('k, unit) table \<Rightarrow> 'k \<Rightarrow> nat \<times> nat" where
  "setnode_lookup t k = node_lookup t k"

definition set_resize :: "nat \<Rightarrow> ('k, unit) table \<Rightarrow> (int \<times> ('k, unit) table) option" where
  "set_resize n t = table_resize n t"

definition set_alloc ::
    "nat \<Rightarrow> ('k \<Rightarrow> 'k \<Rightarrow> int) \<Rightarrow> ('k \<Rightarrow> u64) \<Rightarrow> alk \<Rightarrow> bool \<Rightarrow> (alk + ('k, unit) table) option" where
  "set_alloc n cmp hash alk frees_keys = table_alloc n cmp hash alk frees_keys False"

definition set_free :: "('k, unit) table \<Rightarrow> ('k, unit) table option" where
  "set_free t = table_free t"

definition set_insert :: "'k \<Rightarrow> ('k, unit) table \<Rightarrow> (int \<times> ('k, unit) table) option" where
  "set_insert k t =
     (case slot_node t (setnode_lookup t k) of
        Some _ \<Rightarrow> Some (0, t)
      | None \<Rightarrow> table_add setnode_bytes k () t)"

definition set_remove :: "'k \<Rightarrow> ('k, unit) table \<Rightarrow> (int \<times> ('k, unit) table) option" where
  "set_remove k t =
     (let s = setnode_lookup t k
      in case slot_node t s of None \<Rightarrow> Some (- 1, t) | Some p \<Rightarrow> table_unlink s p t)"

definition set_clear :: "('k, unit) table \<Rightarrow> (int \<times> ('k, unit) table) option" where
  "set_clear t = table_clear t"

definition set_contains :: "('k, unit) table \<Rightarrow> 'k \<Rightarrow> bool" where
  "set_contains t k = (slot_node t (setnode_lookup t k) \<noteq> None)"

definition set_lookup :: "('k, unit) table \<Rightarrow> 'k \<Rightarrow> 'k option" where
  "set_lookup t k = map_option hn_key (slot_node t (setnode_lookup t k))"

definition set_size :: "('k, unit) table \<Rightarrow> nat" where
  "set_size t = tb_used t"

definition set_foreach :: "('k, unit) table \<Rightarrow> 'k list" where
  "set_foreach t = map fst (table_foreach t)"

lemmas set_eval = table_eval setnode_bytes_def setnode_alloc_def setnode_free_def
  setnode_lookup_def set_resize_def set_alloc_def set_free_def set_insert_def set_remove_def
  set_clear_def set_contains_def set_lookup_def set_size_def set_foreach_def

lemma set_contains_get: "set_contains t k \<longleftrightarrow> table_get t k \<noteq> None"
  by (simp add: set_contains_def setnode_lookup_def table_get_def)

lemma set_remove_table: "set_remove k t = table_remove k t"
  by (simp add: set_remove_def table_remove_def setnode_lookup_def)

subsection \<open>Effects\<close>

lemma set_insert_effect:
  assumes wf: "tb_wf t" and res: "set_insert k t = Some (r, t')"
  shows "tb_wf t'" "same_client t t'" "tb_slack t' = tb_slack t" "r \<in> {0, - 1, - 2}"
    and "set_contains t' k' \<longleftrightarrow> set_contains t k' \<or> r = 0 \<and> tb_keycmp t k k' = 0"
    and "tb_loaded t \<Longrightarrow> tb_loaded t'" and "never_refuses (tb_alk t) \<Longrightarrow> r = 0"
proof -
  have "tb_wf t' \<and> same_client t t' \<and> tb_slack t' = tb_slack t \<and> r \<in> {0, - 1, - 2}
    \<and> (set_contains t' k' \<longleftrightarrow> set_contains t k' \<or> r = 0 \<and> tb_keycmp t k k' = 0)
    \<and> (tb_loaded t \<longrightarrow> tb_loaded t') \<and> (never_refuses (tb_alk t) \<longrightarrow> r = 0)"
  proof (cases "table_get t k")
    case None
    then have add: "table_add setnode_bytes k () t = Some (r, t')"
      using res by (simp add: set_insert_def setnode_lookup_def table_get_def)
    note S = table_add_spec [OF wf None add]
    show ?thesis
      using S added_get [OF wf S(1), of k'] by (auto simp: added_def set_contains_get)
  next
    case (Some n)
    then have "r = 0" "t' = t"
      using res by (simp_all add: set_insert_def setnode_lookup_def table_get_def)
    moreover have "table_get t k' \<noteq> None" if "tb_keycmp t k k' = 0"
      unfolding table_get_eqv [OF wf that, symmetric] using Some by simp
    ultimately show ?thesis using wf Some by (auto simp: set_contains_get)
  qed
  then show "tb_wf t'" "same_client t t'" "tb_slack t' = tb_slack t" "r \<in> {0, - 1, - 2}"
    "set_contains t' k' \<longleftrightarrow> set_contains t k' \<or> r = 0 \<and> tb_keycmp t k k' = 0"
    "tb_loaded t \<Longrightarrow> tb_loaded t'" "never_refuses (tb_alk t) \<Longrightarrow> r = 0"
    by blast+
qed

lemma set_remove_effect:
  assumes wf: "tb_wf t"
  shows "\<exists>t'. set_remove k t = Some (if set_contains t k then 0 else - 1, t')
    \<and> tb_wf t' \<and> same_client t t' \<and> tb_slack t' = tb_slack t \<and> (tb_loaded t \<longrightarrow> tb_loaded t')
    \<and> (\<forall>k'. set_contains t' k' \<longleftrightarrow> set_contains t k' \<and> tb_keycmp t k k' \<noteq> 0)"
proof -
  from table_remove_spec [OF wf, of k] obtain r t' where
    rm: "table_remove k t = Some (r, t')" and ld: "tb_loaded t \<longrightarrow> tb_loaded t'" and
    cs: "case table_get t k of None \<Rightarrow> r = - 1 \<and> t' = t | Some n \<Rightarrow> r = 0 \<and> removed n t t'"
    by blast
  show ?thesis
  proof (cases "table_get t k")
    case None
    then have "\<not> set_contains t k'" if "tb_keycmp t k k' = 0" for k'
      using table_get_eqv [OF wf that] by (simp add: set_contains_get)
    then show ?thesis using rm cs wf None by (auto simp: set_remove_table set_contains_get)
  next
    case (Some n)
    then have R: "removed n t t'" "r = 0" using cs by simp_all
    show ?thesis
      using rm R Some ld removed_get [OF wf R(1)] found_eqv [OF wf Some]
      by (auto simp: set_remove_table set_contains_get removed_def)
  qed
qed

subsection \<open>A set is a dictionary without values\<close>

definition set_entry :: "('k, unit) table \<Rightarrow> 'k \<Rightarrow> unit option" where
  "set_entry t k = (if set_contains t k then Some () else None)"

sublocale key_ops \<subseteq> st: iter_dict "\<lambda>t. tb_wf t \<and> tb_keycmp t = cmp" "\<lambda>a b. cmp a b = 0"
    set_entry "\<lambda>k (_ :: unit). set_insert k" set_remove "\<lambda>_ _. ()" "\<lambda>_. None"
    "\<lambda>t. map (\<lambda>k. (k, ())) (set_foreach t)" set_size
proof
  fix k k' k'' :: 'k
  show "cmp k k = 0" by (rule cmp_refl)
  show "cmp k' k = 0" if "cmp k k' = 0" using that by (rule cmp_sym)
  show "cmp k k'' = 0" if "cmp k k' = 0" "cmp k' k'' = 0" using that by (rule cmp_trans)
next
  fix s :: "('k, unit) table" and k k' :: 'k
  assume "tb_wf s \<and> tb_keycmp s = cmp" "cmp k k' = 0"
  then show "set_entry s k = set_entry s k'"
    using table_get_eqv [of s k k'] by (simp add: set_entry_def set_contains_get)
next
  fix s s' :: "('k, unit) table" and k k' r
  assume wf: "tb_wf s \<and> tb_keycmp s = cmp"
  then have wf': "tb_wf s" by simp
  { assume res: "set_insert k s = Some (r, s')"
    note E = set_insert_effect(1-5) [OF wf' res]
    then show "tb_wf s' \<and> tb_keycmp s' = cmp" using wf by (auto simp: same_client_def)
    show "r \<in> {0, - 1, - 2}" using E by blast
    show "set_entry s' k' = set_entry s k'" if "r \<noteq> 0" using E that by (simp add: set_entry_def) }
  { assume res: "set_insert k s = Some (0, s')"
    note E = set_insert_effect(5) [OF wf' res]
    then show "set_entry s' k' = (if cmp k k' = 0 then Some () else set_entry s k')"
      using wf by (simp add: set_entry_def) }
  from set_remove_effect [OF wf', of k] obtain u where
    u: "set_remove k s = Some (if set_contains s k then 0 else - 1, u)" "tb_wf u"
    "same_client s u" "\<And>k'. set_contains u k' \<longleftrightarrow> set_contains s k' \<and> tb_keycmp s k k' \<noteq> 0"
    by blast
  then show "\<exists>s'. set_remove k s = Some (if set_entry s k = None then - 1 else 0, s')"
    by (simp add: set_entry_def)
  { assume "set_remove k s = Some (r, s')"
    then have "s' = u" using u(1) by simp
    then show "tb_wf s' \<and> tb_keycmp s' = cmp" using u(2,3) wf by (simp add: same_client_def)
    show "set_entry s' k'
        = (if cmp k k' = 0 then set_entry s k \<bind> (\<lambda>_. None) else set_entry s k')"
      using \<open>s' = u\<close> u(4) wf by (simp add: set_entry_def) }
next
  fix s :: "('k, unit) table" and k :: 'k and i j
  let ?e = "map (\<lambda>k. (k, ())) (set_foreach s)"
  assume wf: "tb_wf s \<and> tb_keycmp s = cmp"
  have e: "?e = table_foreach s" by (auto simp: set_foreach_def intro: map_idI)
  from wf show "set_entry s k = map_option snd (List.find (\<lambda>e. cmp (fst e) k = 0) ?e)"
    unfolding e using foreach_find [of s k]
    by (auto simp: set_entry_def set_contains_get split: option.splits)
  show "set_size s = length ?e"
    unfolding e using wf foreach_length [of s] by (simp add: set_size_def)
  show "cmp (fst (?e ! i)) (fst (?e ! j)) \<noteq> 0"
    if "i < length ?e" "j < length ?e" "i \<noteq> j"
    using foreach_once [of s i j] wf that unfolding e by simp
qed

context key_ops begin

lemmas st_run = st.run_refines
lemmas st_put_del = st.put_del_absent
lemmas st_entry = st.each_entry
lemmas st_empty = st.count_zero_iff

end

end
