(* ===== verification/Bag.thy ===== *)
theory Bag
  imports Table_Correct Dictionary
begin

section \<open>bag.c\<close>

text \<open>
  src/bag/bag.c: the chained table with a \<open>size_t\<close> count per key. Inserting a key that is
  there increments the count on 64 bits, removing one occurrence decrements it and unlinks the
  node when it reaches zero.
\<close>

subsection \<open>Operations\<close>

definition bagnode_bytes :: nat where "bagnode_bytes = 24"

definition bagnode_alloc ::
    "'k \<Rightarrow> ('k, u64) table \<Rightarrow> ('k, u64) hashnode option \<times> ('k, u64) table" where
  "bagnode_alloc k t = node_alloc bagnode_bytes k 1 t"

definition bagnode_free :: "('k, u64) hashnode \<Rightarrow> ('k, u64) table \<Rightarrow> ('k, u64) table" where
  "bagnode_free p t = node_free p t"

definition bagnode_lookup :: "('k, u64) table \<Rightarrow> 'k \<Rightarrow> nat \<times> nat" where
  "bagnode_lookup t k = node_lookup t k"

definition bag_resize :: "nat \<Rightarrow> ('k, u64) table \<Rightarrow> (int \<times> ('k, u64) table) option" where
  "bag_resize n t = table_resize n t"

definition bag_alloc ::
    "nat \<Rightarrow> ('k \<Rightarrow> 'k \<Rightarrow> int) \<Rightarrow> ('k \<Rightarrow> u64) \<Rightarrow> alk \<Rightarrow> bool \<Rightarrow> (alk + ('k, u64) table) option" where
  "bag_alloc n cmp hash alk frees_keys = table_alloc n cmp hash alk frees_keys False"

definition bag_free :: "('k, u64) table \<Rightarrow> ('k, u64) table option" where
  "bag_free t = table_free t"

definition bag_insert :: "'k \<Rightarrow> ('k, u64) table \<Rightarrow> (int \<times> ('k, u64) table) option" where
  "bag_insert k t =
     (let s = bagnode_lookup t k
      in case slot_node t s of
           Some n \<Rightarrow> Some (0, slot_value s (hn_value n + 1) t)
         | None \<Rightarrow> table_add bagnode_bytes k 1 t)"

definition bag_remove :: "'k \<Rightarrow> ('k, u64) table \<Rightarrow> (int \<times> ('k, u64) table) option" where
  "bag_remove k t =
     (let s = bagnode_lookup t k
      in case slot_node t s of
           None \<Rightarrow> Some (- 1, t)
         | Some p \<Rightarrow>
             (let c = hn_value p - 1;
                  t1 = slot_value s c t
              in if c = 0 then table_unlink s (HashNode (hn_key p) c) t1 else Some (0, t1)))"

definition bag_clear :: "('k, u64) table \<Rightarrow> (int \<times> ('k, u64) table) option" where
  "bag_clear t = table_clear t"

definition bag_contains :: "('k, u64) table \<Rightarrow> 'k \<Rightarrow> u64" where
  "bag_contains t k =
     (case slot_node t (bagnode_lookup t k) of None \<Rightarrow> 0 | Some n \<Rightarrow> hn_value n)"

definition bag_lookup :: "('k, u64) table \<Rightarrow> 'k \<Rightarrow> 'k option" where
  "bag_lookup t k = map_option hn_key (slot_node t (bagnode_lookup t k))"

definition bag_size :: "('k, u64) table \<Rightarrow> nat" where
  "bag_size t = tb_used t"

definition bag_foreach :: "('k, u64) table \<Rightarrow> ('k \<times> u64) list" where
  "bag_foreach t = table_foreach t"

lemmas bag_eval = table_eval bagnode_bytes_def bagnode_alloc_def bagnode_free_def
  bagnode_lookup_def bag_resize_def bag_alloc_def bag_free_def bag_insert_def bag_remove_def
  bag_clear_def bag_contains_def bag_lookup_def bag_size_def bag_foreach_def

text \<open>The entry of a key: its count while it is in the bag.\<close>

definition bag_entry :: "('k, u64) table \<Rightarrow> 'k \<Rightarrow> u64 option" where
  "bag_entry t k = map_option hn_value (table_get t k)"

definition count_in :: "unit \<Rightarrow> u64 option \<Rightarrow> u64" where
  "count_in _ c = (case c of None \<Rightarrow> 1 | Some c \<Rightarrow> c + 1)"

definition count_out :: "u64 \<Rightarrow> u64 option" where
  "count_out c = (if c - 1 = 0 then None else Some (c - 1))"

lemma bag_contains_entry: "bag_contains t k = (case bag_entry t k of None \<Rightarrow> 0 | Some c \<Rightarrow> c)"
  by (simp add: bag_contains_def bag_entry_def table_get_def bagnode_lookup_def
      split: option.split)

subsection \<open>Effects\<close>

lemma bag_insert_effect:
  assumes wf: "tb_wf t" and res: "bag_insert k t = Some (r, t')"
  shows "tb_wf t'" "same_client t t'" "tb_slack t' = tb_slack t" "r \<in> {0, - 1, - 2}"
    and "bag_entry t' k' = (if r = 0 \<and> tb_keycmp t k k' = 0
      then Some (count_in () (bag_entry t k)) else bag_entry t k')"
    and "tb_loaded t \<Longrightarrow> tb_loaded t'" and "never_refuses (tb_alk t) \<Longrightarrow> r = 0"
proof -
  have "tb_wf t' \<and> same_client t t' \<and> tb_slack t' = tb_slack t \<and> r \<in> {0, - 1, - 2}
    \<and> bag_entry t' k' = (if r = 0 \<and> tb_keycmp t k k' = 0
        then Some (count_in () (bag_entry t k)) else bag_entry t k')
    \<and> (tb_loaded t \<longrightarrow> tb_loaded t') \<and> (never_refuses (tb_alk t) \<longrightarrow> r = 0)"
  proof (cases "table_get t k")
    case None
    then have add: "table_add bagnode_bytes k 1 t = Some (r, t')"
      using res by (simp add: bag_insert_def bagnode_lookup_def table_get_def)
    note S = table_add_spec [OF wf None add]
    show ?thesis
      using S added_get [OF wf S(1), of k'] None
      by (auto simp: added_def bag_entry_def count_in_def)
  next
    case (Some n)
    then have "r = 0" and t': "t' = slot_value (node_lookup t k) (hn_value n + 1) t"
      using res by (simp_all add: bag_insert_def bagnode_lookup_def table_get_def)
    have R: "revalued n (hn_value n + 1) t t'"
      unfolding t' by (rule slot_value_spec [OF wf Some])
    note S = revalued_same [OF R]
    have "tb_loaded t \<Longrightarrow> tb_loaded t'" using S by (simp add: tb_loaded_def)
    then show ?thesis
      using R \<open>r = 0\<close> S(1) Some revalued_get [OF wf R] found_eqv [OF wf Some]
      by (auto simp: revalued_def bag_entry_def count_in_def)
  qed
  then show "tb_wf t'" "same_client t t'" "tb_slack t' = tb_slack t" "r \<in> {0, - 1, - 2}"
    "bag_entry t' k' = (if r = 0 \<and> tb_keycmp t k k' = 0
       then Some (count_in () (bag_entry t k)) else bag_entry t k')"
    "tb_loaded t \<Longrightarrow> tb_loaded t'" "never_refuses (tb_alk t) \<Longrightarrow> r = 0"
    by blast+
qed

lemma bag_remove_last:
  assumes "table_get t k = Some n" "hn_value n - 1 = 0" "tb_wf t"
  shows "bag_remove k t = table_remove k (slot_value (node_lookup t k) 0 t)"
proof -
  let ?t1 = "slot_value (node_lookup t k) 0 t"
  have R: "revalued n 0 t ?t1" by (rule slot_value_spec [OF assms(3,1)])
  have "tb_keycmp t (hn_key n) k = 0" using table_get_Some [OF assms(3,1)] by simp
  then have "table_get ?t1 k = Some (HashNode (hn_key n) 0)"
    using revalued_get [OF assms(3) R, of k] by simp
  then show ?thesis
    using assms(1,2) node_lookup_slot_value [OF assms(1), of 0]
    by (simp add: bag_remove_def bagnode_lookup_def table_remove_def table_get_def)
qed

lemma bag_remove_effect:
  assumes wf: "tb_wf t"
  shows "\<exists>t'. bag_remove k t = Some (if bag_entry t k = None then - 1 else 0, t')
    \<and> tb_wf t' \<and> same_client t t' \<and> tb_slack t' = tb_slack t \<and> (tb_loaded t \<longrightarrow> tb_loaded t')
    \<and> (\<forall>k'. bag_entry t' k' = (if tb_keycmp t k k' = 0 then bag_entry t k \<bind> count_out
         else bag_entry t k'))"
proof (cases "table_get t k")
  case None
  have "bag_entry t k' = None" if "tb_keycmp t k k' = 0" for k'
    using table_get_eqv [OF wf that] None by (simp add: bag_entry_def)
  then show ?thesis
    using None wf by (auto simp: bag_remove_def bagnode_lookup_def table_get_def bag_entry_def)
next
  case (Some n)
  let ?c = "hn_value n - 1"
  let ?t1 = "slot_value (node_lookup t k) ?c t"
  have R: "revalued n ?c t ?t1" by (rule slot_value_spec [OF wf Some])
  then have wf1: "tb_wf ?t1" and sl: "tb_slack ?t1 = tb_slack t" by (auto simp: revalued_def)
  note S = revalued_same [OF R] and eq = found_eqv [OF wf Some]
  have get1: "table_get ?t1 k' = (if tb_keycmp t k k' = 0 then Some (HashNode (hn_key n) ?c)
      else table_get t k')" for k'
    using revalued_get [OF wf R, of k'] eq by simp
  have ld1: "tb_loaded t \<Longrightarrow> tb_loaded ?t1" using S by (simp add: tb_loaded_def)
  show ?thesis
  proof (cases "?c = 0")
    case False
    then have "bag_remove k t = Some (0, ?t1)"
      using Some by (simp add: bag_remove_def bagnode_lookup_def table_get_def Let_def)
    then show ?thesis
      using False wf1 sl S(1) ld1 get1 Some by (auto simp: bag_entry_def count_out_def)
  next
    case True
    note c0 = True [symmetric]
    have refl: "tb_keycmp t k k = 0" using tb_wfD(1) [OF wf] by (rule key_ops.cmp_refl)
    then have g: "table_get ?t1 k = Some (HashNode (hn_key n) ?c)" using get1 by simp
    have rm: "bag_remove k t = table_remove k ?t1"
      using bag_remove_last [OF Some True wf] unfolding True .
    from table_remove_spec [OF wf1, of k] g obtain u where
      u: "table_remove k ?t1 = Some (0, u)" "removed (HashNode (hn_key n) ?c) ?t1 u"
      "tb_loaded ?t1 \<longrightarrow> tb_loaded u"
      by auto
    have "bag_entry u k' = (if tb_keycmp t k k' = 0 then None else bag_entry t k')" for k'
      using removed_get [OF wf1 u(2), of k'] get1 [of k'] eq [of k'] S(1)
      by (simp add: bag_entry_def same_client_def)
    moreover have "same_client t u" "tb_wf u" "tb_slack u = tb_slack t"
      using u(2) same_client_trans [OF S(1)] sl by (auto simp: removed_def)
    ultimately show ?thesis
      using rm u(1,3) ld1 True Some by (auto simp: bag_entry_def count_out_def)
  qed
qed

subsection \<open>A bag is a dictionary of counts\<close>

sublocale key_ops \<subseteq> bg: iter_dict "\<lambda>t. tb_wf t \<and> tb_keycmp t = cmp" "\<lambda>a b. cmp a b = 0"
    bag_entry "\<lambda>k (_ :: unit). bag_insert k" bag_remove count_in count_out bag_foreach bag_size
proof
  fix k k' k'' :: 'k
  show "cmp k k = 0" by (rule cmp_refl)
  show "cmp k' k = 0" if "cmp k k' = 0" using that by (rule cmp_sym)
  show "cmp k k'' = 0" if "cmp k k' = 0" "cmp k' k'' = 0" using that by (rule cmp_trans)
next
  fix s :: "('k, u64) table" and k k' :: 'k
  assume "tb_wf s \<and> tb_keycmp s = cmp" "cmp k k' = 0"
  then show "bag_entry s k = bag_entry s k'"
    using table_get_eqv [of s k k'] by (simp add: bag_entry_def)
next
  fix s s' :: "('k, u64) table" and k k' r and x :: unit
  assume wf: "tb_wf s \<and> tb_keycmp s = cmp"
  then have wf': "tb_wf s" by simp
  { assume res: "bag_insert k s = Some (r, s')"
    note E = bag_insert_effect(1-5) [OF wf' res]
    then show "tb_wf s' \<and> tb_keycmp s' = cmp" using wf by (auto simp: same_client_def)
    show "r \<in> {0, - 1, - 2}" using E by blast
    show "bag_entry s' k' = bag_entry s k'" if "r \<noteq> 0" using E that by simp }
  { assume res: "bag_insert k s = Some (0, s')"
    show "bag_entry s' k' = (if cmp k k' = 0 then Some (count_in x (bag_entry s k)) else bag_entry s k')"
      using bag_insert_effect(5) [OF wf' res] wf by simp }
  from bag_remove_effect [OF wf', of k] obtain u where
    u: "bag_remove k s = Some (if bag_entry s k = None then - 1 else 0, u)" "tb_wf u"
    "same_client s u" "\<And>k'. bag_entry u k'
       = (if tb_keycmp s k k' = 0 then bag_entry s k \<bind> count_out else bag_entry s k')"
    by blast
  then show "\<exists>s'. bag_remove k s = Some (if bag_entry s k = None then - 1 else 0, s')" by blast
  { assume "bag_remove k s = Some (r, s')"
    then have "s' = u" using u(1) by simp
    then show "tb_wf s' \<and> tb_keycmp s' = cmp" using u(2,3) wf by (simp add: same_client_def)
    show "bag_entry s' k'
        = (if cmp k k' = 0 then bag_entry s k \<bind> count_out else bag_entry s k')"
      using \<open>s' = u\<close> u(4) wf by simp }
next
  fix s :: "('k, u64) table" and k :: 'k and i j
  assume wf: "tb_wf s \<and> tb_keycmp s = cmp"
  then show "bag_entry s k = map_option snd (List.find (\<lambda>e. cmp (fst e) k = 0) (bag_foreach s))"
    using foreach_find [of s k] by (simp add: bag_entry_def bag_foreach_def)
  show "bag_size s = length (bag_foreach s)"
    using wf foreach_length [of s] by (simp add: bag_size_def bag_foreach_def)
  show "cmp (fst (bag_foreach s ! i)) (fst (bag_foreach s ! j)) \<noteq> 0"
    if "i < length (bag_foreach s)" "j < length (bag_foreach s)" "i \<noteq> j"
    using foreach_once [of s i j] wf that by (simp add: bag_foreach_def)
qed

context key_ops begin

lemmas bg_run = bg.run_refines
lemmas bg_put_del = bg.put_del_absent
lemmas bg_entry = bg.each_entry

end

end
