(* ===== verification/String_Keys.thy ===== *)
theory String_Keys
  imports Chained_Table
begin

section \<open>The clients' key callbacks: NUL-terminated strings\<close>

text \<open>
  The key operations the repository instantiates its tables with (\<open>__hash\<close> and \<open>__keycmp\<close> of
  test-hashtable.c, repeated in test-set.c and test-bag.c). A \<open>char *\<close> is the list of the
  bytes it points to, the end of the list standing for the terminating NUL if none comes
  before; \<open>char\<close> is signed. \<open>c_strcmp\<close> is the \<open>strcmp\<close> of the C library, which \<open>__keycmp\<close>
  calls: the difference of the first bytes that differ, compared as \<open>unsigned char\<close>.
\<close>

fun c_strcmp :: "u8 list \<Rightarrow> u8 list \<Rightarrow> int" where
  "c_strcmp [] [] = 0"
| "c_strcmp [] (y # ys) = - uint y"
| "c_strcmp (x # xs) [] = uint x"
| "c_strcmp (x # xs) (y # ys) =
     (if x \<noteq> y then uint x - uint y else if x = 0 then 0 else c_strcmp xs ys)"

definition keycmp_str :: "u8 list \<Rightarrow> u8 list \<Rightarrow> int" where
  "keycmp_str k1 k2 = c_strcmp k1 k2"

fun hash_str_from :: "u64 \<Rightarrow> u8 list \<Rightarrow> u64" where
  "hash_str_from h [] = h"
| "hash_str_from h (c # cs) =
     (if c = 0 then h else hash_str_from (push_bit 5 h - h + scast c) cs)"

definition hash_str :: "u8 list \<Rightarrow> u64" where
  "hash_str key = hash_str_from 0 key"

definition c_str :: "u8 list \<Rightarrow> u8 list" where
  "c_str s = takeWhile (\<lambda>c. c \<noteq> 0) s"

lemma c_str_simps [simp]:
  "c_str [] = []" "c_str (c # cs) = (if c = 0 then [] else c # c_str cs)"
  by (simp_all add: c_str_def)

lemma c_strcmp_zero_iff: "c_strcmp a b = 0 \<longleftrightarrow> c_str a = c_str b"
  by (induction a b rule: c_strcmp.induct) (auto simp: uint_0_iff dest: unsigned_word_eqI)

lemma hash_str_from_c_str: "hash_str_from h (c_str s) = hash_str_from h s"
  by (induction s arbitrary: h) simp_all

interpretation str_keys: key_ops hash_str keycmp_str
proof
  fix a b :: "u8 list"
  assume "keycmp_str a b = 0"
  then show "hash_str a = hash_str b"
    unfolding keycmp_str_def hash_str_def c_strcmp_zero_iff by (metis hash_str_from_c_str)
qed (simp_all add: keycmp_str_def c_strcmp_zero_iff)

end
