(* ===== verification/Keyed_Containers.thy ===== *)
theory Keyed_Containers
  imports Hash_Table Hash_Set Bag String_Keys
begin

section \<open>The keyed containers: what their clients rely on\<close>

text \<open>
  The properties of hashtable.c, set.c and bag.c, each over the container's own operations and
  for any key operations, with a run on NUL-terminated string keys as the example.
\<close>

lemmas hashtable_eval = table_eval hashnode_bytes_def hashtable_alloc_def hashtable_free_def
  hashtable_insert_def hashtable_remove_def hashtable_clear_def hashtable_contains_def
  hashtable_lookup_def hashtable_size_def hashtable_foreach_def keycmp_str_def hash_str_def

text \<open>A table of string keys as \<open>hashtable_alloc\<close> leaves it.\<close>

definition str_table :: "(u8 list, 'v) table" where
  "str_table = \<lparr>tb_bucket = replicate 8 [], tb_alk = alk_generous\<lparr>alk_calls := 1, alk_live := 1\<rparr>,
     tb_hash = hash_str, tb_keycmp = keycmp_str, tb_frees_keys = True, tb_frees_values = False,
     tb_freed_keys = [], tb_freed_values = [], tb_pool = [], tb_pool_size = 0, tb_size = 8,
     tb_used = 0\<rparr>"

lemma str_table_alloc:
  "hashtable_alloc 6 keycmp_str hash_str alk_generous True False = Some (Inr str_table)"
  by (simp add: hashtable_eval str_table_def)

lemma str_table_wf: "tb_wf str_table"
  using table_alloc_spec(1) [OF str_keys.key_ops_axioms _ str_table_alloc [unfolded hashtable_alloc_def]]
  by simp

lemma str_table_fields:
  "tb_size str_table = 8" "tb_keycmp str_table = keycmp_str" "tb_hash str_table = hash_str"
  by (simp_all add: str_table_def)

lemma str_table_empty: "bag_entry str_table k = None"
proof -
  have "tb_nodes (str_table :: (u8 list, u64) table) = []"
    using table_alloc_spec(2) [OF str_keys.key_ops_axioms _ str_table_alloc [unfolded hashtable_alloc_def]]
    by simp
  then show ?thesis
    by (simp add: bag_entry_def table_get_find [OF str_table_wf] node_find_def
        del: concat_eq_Nil_conv)
qed

subsection \<open>hashtable.c\<close>

text \<open>C1. A sequence of insertions and removals on a hashtable, resizing as it may, is the same
  sequence on a map from key classes to values; operations that report a failure (an allocation
  that was refused, a removal of an absent key) change nothing.\<close>

theorem hashtable_refines_map:
  assumes "tb_wf t" "run_ops hashtable_insert hashtable_remove xs t = Some (rs, t')"
  shows "tb_wf t' \<and> length rs = length xs
    \<and> hashtable_lookup t' = fold (abs_step (\<lambda>a b. tb_keycmp t a b = 0) (\<lambda>v _. v) (\<lambda>_. None))
        (zip xs rs) (hashtable_lookup t)"
  using key_ops.ht_run [OF tb_wfD(1) [OF assms(1)] _ assms(2)] assms(1) by simp

theorem hashtable_refines_map_witness:
  "\<exists>rs t'. run_ops hashtable_insert hashtable_remove
       [Put [75, 48] (1 :: nat), Put [75, 49] 2, Put [75, 48] 3, Del [75, 49], Del [75, 50]] str_table
     = Some (rs, t') \<and> rs = [0, 0, 0, 0, - 1] \<and> tb_wf t'
     \<and> hashtable_lookup t' [75, 48] = Some 3 \<and> hashtable_lookup t' [75, 49] = None"
proof -
  let ?xs = "[Put [75, 48] (1 :: nat), Put [75, 49] 2, Put [75, 48] 3, Del [75, 49], Del [75, 50]]"
  have "\<exists>t'. run_ops hashtable_insert hashtable_remove ?xs str_table
      = Some ([0, 0, 0, 0, - 1], t')"
    by (simp add: hashtable_eval str_table_def cong: eval_cong)
  then obtain t' where
    "run_ops hashtable_insert hashtable_remove ?xs str_table = Some ([0, 0, 0, 0, - 1], t')" ..
  with hashtable_refines_map [OF str_table_wf this] show ?thesis
    by (simp add: abs_step_def str_table_fields keycmp_str_def)
qed

text \<open>An insertion into a table of at most 2^27 buckets never faults; when it returns 0 the
  key maps to the value and nothing else changed, when it returns -1 or -2 the map is as before;
  the invariant, the load bound and the balance of allocated blocks are kept, and it can fail
  only if the allocator refuses.\<close>

theorem hashtable_insert_correct:
  assumes "tb_wf t" "tb_size t \<le> 2 ^ 27"
  shows "\<exists>r t'. hashtable_insert k v t = Some (r, t') \<and> hashtable_inserted k v t r t'
    \<and> (tb_loaded t \<longrightarrow> tb_loaded t') \<and> (never_refuses (tb_alk t) \<longrightarrow> r = 0)"
  using hashtable_insert_total [OF assms, of k v] hashtable_insert_effect [OF assms(1), of k v]
  by blast

theorem hashtable_insert_correct_witness:
  "\<exists>t'. hashtable_insert [75] (7 :: nat) str_table = Some (0, t') \<and> tb_wf t'
     \<and> hashtable_lookup t' [75, 0, 1] = Some 7"
proof -
  have nr: "never_refuses (tb_alk str_table)" by (simp add: str_table_def never_refuses_def alk_generous_def)
  obtain r t' where t': "hashtable_insert [75] (7 :: nat) str_table = Some (r, t')"
    "hashtable_inserted [75] 7 str_table r t'" "r = 0"
    using hashtable_insert_correct [OF str_table_wf [where 'a = nat], of "[75]" 7] nr
    by (auto simp: str_table_fields)
  from t'(2) have "hashtable_lookup t' [75, 0, 1] = Some 7"
    using t'(3) unfolding hashtable_inserted_def by (simp add: str_table_fields keycmp_str_def)
  with t' show ?thesis by (auto simp: hashtable_inserted_def)
qed

text \<open>A removal never faults and never fails for want of memory: it returns 0 and unmaps the
  key exactly when the key was there, -1 and no change otherwise.\<close>

theorem hashtable_remove_correct:
  assumes "tb_wf t"
  shows "\<exists>t'. hashtable_remove k t = Some (if hashtable_contains t k then 0 else - 1, t')
    \<and> tb_wf t' \<and> same_client t t' \<and> tb_slack t' = tb_slack t \<and> (tb_loaded t \<longrightarrow> tb_loaded t')
    \<and> (\<forall>k'. hashtable_lookup t' k'
         = (if tb_keycmp t k k' = 0 then None else hashtable_lookup t k'))"
  by (rule hashtable_remove_effect [OF assms])

theorem hashtable_remove_correct_witness:
  "\<exists>t'. hashtable_remove [75] (str_table :: (u8 list, nat) table) = Some (- 1, t') \<and> tb_wf t'"
  using hashtable_remove_correct [OF str_table_wf, of "[75]"]
  by (auto simp: hashtable_eval str_table_def)

lemma run_slack:
  assumes "tb_wf t" "run_ops hashtable_insert hashtable_remove xs t = Some (rs, t')"
  shows "tb_wf t' \<and> tb_slack t' = tb_slack t"
  using assms
proof (induction xs arbitrary: t rs)
  case Nil
  then show ?case by simp
next
  case (Cons x xs)
  from Cons.prems(2) obtain r t1 rs' where
    st: "(case x of Put k a \<Rightarrow> hashtable_insert k a t | Del k \<Rightarrow> hashtable_remove k t) = Some (r, t1)"
    and rest: "run_ops hashtable_insert hashtable_remove xs t1 = Some (rs', t')"
    by (auto simp: bind_Some_iff)
  have "tb_wf t1 \<and> tb_slack t1 = tb_slack t"
  proof (cases x)
    case (Put k a)
    then show ?thesis
      using hashtable_insert_effect(1) [OF Cons.prems(1), of k a r t1] st
      by (simp add: hashtable_inserted_def)
  next
    case (Del k)
    then show ?thesis using hashtable_remove_effect [OF Cons.prems(1), of k] st by auto
  qed
  with Cons.IH [OF _ rest] show ?case by simp
qed

text \<open>C2. No memory is lost or released twice: after any run of operations on a new hashtable,
  \<open>hashtable_free\<close> returns with every block the table ever obtained given back, the key and the
  value destructors having been called on each entry that was left.\<close>

theorem hashtable_no_leak:
  assumes "key_ops hash cmp" "n \<le> 2 ^ 63"
    and "hashtable_alloc n cmp hash a fk fv = Some (Inr t)"
    and "run_ops hashtable_insert hashtable_remove xs t = Some (rs, t')"
  shows "\<exists>u. hashtable_free t' = Some u \<and> alk_live (tb_alk u) = alk_live a
    \<and> tb_freed_keys u = tb_freed_keys t'
        @ (if tb_frees_keys t' then map fst (hashtable_foreach t') else [])"
proof -
  note A = table_alloc_spec [OF assms(1,2) assms(3) [unfolded hashtable_alloc_def]]
  have R: "tb_wf t'" "tb_slack t' = alk_live a"
    using run_slack [OF A(1) assms(4)] A(3) by simp_all
  with table_free_spec [OF R(1)] show ?thesis
    by (auto simp: hashtable_free_def hashtable_foreach_def)
qed

theorem hashtable_no_leak_witness:
  "\<exists>rs t' u. run_ops hashtable_insert hashtable_remove
       [Put [75, 48] (1 :: nat), Put [75, 49] 2, Del [75, 49]] str_table = Some (rs, t')
     \<and> hashtable_free t' = Some u \<and> alk_live (tb_alk u) = 0"
proof -
  let ?xs = "[Put [75, 48] (1 :: nat), Put [75, 49] 2, Del [75, 49]]"
  have "\<exists>t'. run_ops hashtable_insert hashtable_remove ?xs str_table = Some ([0, 0, 0], t')"
    by (simp add: hashtable_eval str_table_def cong: eval_cong)
  then obtain t' where
    r: "run_ops hashtable_insert hashtable_remove ?xs str_table = Some ([0, 0, 0], t')" ..
  have "alk_live alk_generous = 0" by (simp add: alk_generous_def)
  with hashtable_no_leak [OF str_keys.key_ops_axioms _ str_table_alloc r] r show ?thesis by auto
qed

text \<open>Traversing a table and inserting what it yields into an empty table of the same keys
  copies it: both answer every lookup alike.\<close>

theorem hashtable_copy:
  assumes "tb_wf t" "tb_wf e" "tb_keycmp e = tb_keycmp t" "hashtable_size e = 0"
    and "run_ops hashtable_insert hashtable_remove
           (map (\<lambda>x. Put (fst x) (snd x)) (hashtable_foreach t)) e = Some (rs, e')"
    and "set rs \<subseteq> {0}"
  shows "tb_wf e' \<and> hashtable_lookup e' = hashtable_lookup t"
  using key_ops.ht_copy [OF tb_wfD(1) [OF assms(1)] _ _ assms(4,5,6)] assms(1-3) by simp

theorem hashtable_copy_witness:
  "\<exists>t e' rs. hashtable_insert [75] (7 :: nat) str_table = Some (0, t)
     \<and> run_ops hashtable_insert hashtable_remove
         (map (\<lambda>x. Put (fst x) (snd x)) (hashtable_foreach t)) str_table = Some (rs, e')
     \<and> hashtable_lookup e' = hashtable_lookup t"
proof -
  have "\<exists>t. hashtable_insert [75] (7 :: nat) str_table = Some (0, t)
      \<and> hashtable_foreach t = [([75], 7)] \<and> tb_keycmp t = keycmp_str"
    by (simp add: hashtable_eval str_table_def cong: eval_cong)
  then obtain t where t: "hashtable_insert [75] (7 :: nat) str_table = Some (0, t)"
    "hashtable_foreach t = [([75], 7)]" "tb_keycmp t = keycmp_str" by blast
  have wf: "tb_wf t"
    using hashtable_insert_effect(1) [OF str_table_wf t(1)] by (simp add: hashtable_inserted_def)
  have run: "run_ops hashtable_insert hashtable_remove
      (map (\<lambda>x. Put (fst x) (snd x)) (hashtable_foreach t)) str_table = Some ([0], t)"
    by (simp add: t)
  have "hashtable_size (str_table :: (u8 list, nat) table) = 0"
    by (simp add: hashtable_size_def str_table_def)
  with hashtable_copy [OF wf str_table_wf _ _ run] t run show ?thesis
    by (auto simp: str_table_fields)
qed

text \<open>The callback of an allocator takes a 32-bit size: for more than 2^28 requested buckets
  the byte count wraps, and clearing the new bucket array runs past the block that was granted.\<close>

theorem hashtable_alloc_overruns:
  assumes "2 ^ 28 < n" "n \<le> 2 ^ 63" "never_refuses a"
  shows "hashtable_alloc n cmp hash a fk fv = None"
proof -
  obtain k where k: "roundup n = 2 ^ k" using roundup_props(1) [OF assms(2)] by blast
  have "(2::nat) ^ 28 < 2 ^ k" using roundup_props(2) [OF assms(2)] assms(1) k by simp
  then have "29 \<le> k" using power_less_imp_less_exp [of "2 :: nat" 28 k] by simp
  then have "2 ^ 29 \<le> roundup n" unfolding k by (intro power_increasing) simp_all
  moreover have "bucket_alloc (roundup n) a = Some (ok, b) \<Longrightarrow> roundup n < 2 ^ 29" for ok b
    using bucket_alloc_Some(3,4) [of "roundup n" a ok b] assms(3) by blast
  ultimately have "bucket_alloc (roundup n) a = None" by (cases "bucket_alloc (roundup n) a") auto
  then show ?thesis by (simp add: hashtable_alloc_def table_alloc_def Let_def)
qed

theorem hashtable_alloc_overruns_witness:
  "(hashtable_alloc (2 ^ 30) keycmp_str hash_str alk_generous True False
     :: (alk + (u8 list, nat) table) option) = None"
  by (rule hashtable_alloc_overruns) simp_all

subsection \<open>set.c and bag.c\<close>

text \<open>C3. A sequence of insertions and removals on a set is the same sequence on a set of key
  classes.\<close>

theorem set_refines:
  assumes "tb_wf t" "run_ops (\<lambda>k (_ :: unit). set_insert k) set_remove xs t = Some (rs, t')"
  shows "tb_wf t' \<and> length rs = length xs
    \<and> set_entry t' = fold (abs_step (\<lambda>a b. tb_keycmp t a b = 0) (\<lambda>_ _. ()) (\<lambda>_. None))
        (zip xs rs) (set_entry t)"
  using key_ops.st_run [OF tb_wfD(1) [OF assms(1)] _ assms(2)] assms(1) by simp

theorem set_refines_witness:
  "\<exists>t'. run_ops (\<lambda>k (_ :: unit). set_insert k) set_remove [Put [1] (), Put [2] (), Del [1]] str_table
     = Some ([0, 0, 0], t') \<and> set_contains t' [2] \<and> \<not> set_contains t' [1]"
proof -
  have "\<exists>t'. run_ops (\<lambda>k (_ :: unit). set_insert k) set_remove [Put [1] (), Put [2] (), Del [1]]
      str_table = Some ([0, 0, 0], t')"
    by (simp add: set_eval str_table_def keycmp_str_def hash_str_def cong: eval_cong)
  then obtain t' where r: "run_ops (\<lambda>k (_ :: unit). set_insert k) set_remove
      [Put [1] (), Put [2] (), Del [1]] str_table = Some ([0, 0, 0], t')" ..
  have "set_entry t' [1] = None" "set_entry t' [2] = Some ()"
    using set_refines [OF str_table_wf r] by (simp_all add: abs_step_def str_table_fields keycmp_str_def)
  with r show ?thesis by (auto simp: set_entry_def split: if_splits)
qed

text \<open>C4. A bag counts: a run of insertions and removals leaves in each key class the 64-bit count
  of its insertions less its removals, and the class leaves the bag when the count returns to
  zero.\<close>

theorem bag_refines:
  assumes "tb_wf t" "run_ops (\<lambda>k (_ :: unit). bag_insert k) bag_remove xs t = Some (rs, t')"
  shows "tb_wf t' \<and> length rs = length xs
    \<and> bag_entry t' = fold (abs_step (\<lambda>a b. tb_keycmp t a b = 0) count_in count_out)
        (zip xs rs) (bag_entry t)"
  using key_ops.bg_run [OF tb_wfD(1) [OF assms(1)] _ assms(2)] assms(1) by simp

theorem bag_refines_witness:
  "\<exists>t'. run_ops (\<lambda>k (_ :: unit). bag_insert k) bag_remove
       [Put [1] (), Put [1] (), Put [2] (), Del [1], Del [2]] str_table
     = Some ([0, 0, 0, 0, 0], t') \<and> bag_contains t' [1] = 1 \<and> bag_contains t' [2] = 0"
proof -
  let ?xs = "[Put [1] (), Put [1] (), Put [2] (), Del [1], Del [2]]"
  have "\<exists>t'. run_ops (\<lambda>k (_ :: unit). bag_insert k) bag_remove ?xs str_table
      = Some ([0, 0, 0, 0, 0], t')"
    by (simp add: bag_eval str_table_def keycmp_str_def hash_str_def cong: eval_cong)
  then obtain t' where r: "run_ops (\<lambda>k (_ :: unit). bag_insert k) bag_remove ?xs str_table
      = Some ([0, 0, 0, 0, 0], t')" ..
  have "bag_entry t' [1] = Some 1" "bag_entry t' [2] = None"
    using bag_refines [OF str_table_wf r]
    by (simp_all add: abs_step_def str_table_fields keycmp_str_def str_table_empty
        count_in_def count_out_def)
  with r show ?thesis by (simp add: bag_contains_entry)
qed

text \<open>\<open>__nbucket_roundup\<close> yields the least power of two that is at least 8 and at least the
  requested size, so the mask of the bucket index selects every bucket.\<close>

theorem roundup_least:
  assumes "n \<le> 2 ^ 63"
  shows "\<exists>k. roundup n = 2 ^ k \<and> 3 \<le> k \<and> n \<le> roundup n
    \<and> (\<forall>j. 3 \<le> j \<and> n \<le> 2 ^ j \<longrightarrow> roundup n \<le> 2 ^ j)"
proof -
  note R = roundup_props [OF assms]
  obtain k where k: "3 \<le> k" "roundup n = 2 ^ k" using R(1) by blast
  have "roundup n \<le> 2 ^ j" if j: "3 \<le> j" "n \<le> 2 ^ j" for j
  proof (cases "n < 8")
    case True
    have "(2::nat) ^ 3 \<le> 2 ^ j" using j(1) by (intro power_increasing) simp_all
    with True show ?thesis by (simp add: roundup_small)
  next
    case False
    then have "(2::nat) ^ k < 2 ^ Suc j" using R(4) j(2) k(2) by simp
    then have "k < Suc j" using power_less_imp_less_exp [of "2 :: nat" k "Suc j"] by simp
    then show ?thesis unfolding k(2) by (intro power_increasing) simp_all
  qed
  with k R(2) show ?thesis by blast
qed

theorem roundup_least_witness: "roundup 9 = 16"
proof -
  have "(9::nat) \<le> 2 ^ 63" by simp
  then obtain k where k: "roundup 9 = 2 ^ k" "9 \<le> roundup 9"
    and least: "\<And>j. 3 \<le> j \<Longrightarrow> 9 \<le> (2::nat) ^ j \<Longrightarrow> roundup 9 \<le> 2 ^ j"
    using roundup_least [of 9] by blast
  have "roundup 9 \<le> 2 ^ 4" using least [of 4] by simp
  with k have "(2::nat) ^ 3 < 2 ^ k" "(2::nat) ^ k < 2 ^ 5" by simp_all
  then have "3 < k" "k < 5"
    using power_less_imp_less_exp [of "2 :: nat" 3 k] power_less_imp_less_exp [of "2 :: nat" k 5]
    by simp_all
  then have "k = 4" by simp
  with k(1) show ?thesis by simp
qed

end
