(* ===== verification/Byte_Memory.thy ===== *)
theory Byte_Memory
  imports Carthage_Prelude
begin

section \<open>Byte memory and multi-byte accesses\<close>

text \<open>
  The routines of src/mm-utils read and write memory through pointers of several widths. A
  memory is a list of bytes, a pointer an offset into it; \<open>load\<close> and \<open>store\<close> are the accesses
  through a pointer to an unsigned integer type, little-endian as on the targets of the
  repository, and fault (\<open>None\<close>) outside the memory. \<open>sizeof\<close> is the size of the type in bytes.
\<close>

definition sizeof :: "'a::len itself \<Rightarrow> nat" where
  "sizeof t = (LENGTH('a) + 7) div 8"

lemma sizeof_simps [simp]:
  "sizeof TYPE(8) = 1" "sizeof TYPE(16) = 2" "sizeof TYPE(32) = 4" "sizeof TYPE(64) = 8"
  by (simp_all add: sizeof_def)

lemma sizeof_pos [simp]: "0 < sizeof TYPE('a::len)"
  by (simp add: sizeof_def div_greater_zero_iff Suc_le_eq)

text \<open>The value of a byte list, least significant byte first, and back.\<close>

fun le_val :: "u8 list \<Rightarrow> int" where
  "le_val [] = 0"
| "le_val (b # bs) = uint b + 256 * le_val bs"

fun le_bytes :: "nat \<Rightarrow> int \<Rightarrow> u8 list" where
  "le_bytes 0 v = []"
| "le_bytes (Suc n) v = word_of_int v # le_bytes n (v div 256)"

lemma uint_u8_bounds: "0 \<le> uint (b :: u8)" "uint (b :: u8) < 256"
  using unsigned_greater_eq [of b] unsigned_less [of b] by simp_all

lemma le_val_nonneg [simp]: "0 \<le> le_val bs"
  by (induction bs) (simp_all add: uint_u8_bounds)

lemma le_val_less: "le_val bs < 256 ^ length bs"
proof (induction bs)
  case (Cons b bs)
  have "uint b < 256" by (rule uint_u8_bounds)
  with Cons show ?case by simp
qed simp

lemma length_le_bytes [simp]: "length (le_bytes n v) = n"
  by (induction n arbitrary: v) simp_all

lemma le_bytes_val: "le_bytes (length bs) (le_val bs) = bs"
proof (induction bs)
  case (Cons b bs)
  have "(uint b + 256 * le_val bs) div 256 = le_val bs"
    using uint_u8_bounds [of b] by simp
  moreover have "word_of_int (uint b + 256 * le_val bs) = b"
  proof -
    have "(256 :: u8) = 0" by simp
    then have "256 * word_of_int (le_val bs) = (0 :: u8)" by (simp only: mult_zero_left)
    then show ?thesis by simp
  qed
  ultimately show ?case using Cons by simp
qed simp

lemma le_val_bytes: "le_val (le_bytes n v) = v mod 256 ^ n"
proof (induction n arbitrary: v)
  case (Suc n)
  have "v mod 256 ^ Suc n = v mod 256 + 256 * (v div 256 mod 256 ^ n)"
    by (simp add: zmod_zmult2_eq)
  with Suc show ?case by (simp add: uint_word_of_int)
qed simp

lemma le_val_inj: "length as = length bs \<Longrightarrow> le_val as = le_val bs \<Longrightarrow> as = bs"
  by (metis le_bytes_val)

text \<open>Accesses.\<close>

definition of_bytes :: "u8 list \<Rightarrow> 'a::len word" where
  "of_bytes bs = word_of_int (le_val bs)"

definition to_bytes :: "'a::len word \<Rightarrow> u8 list" where
  "to_bytes w = le_bytes (sizeof TYPE('a)) (uint w)"

definition load :: "u8 list \<Rightarrow> nat \<Rightarrow> 'a::len word option" where
  "load m p = map_option of_bytes (buf_read m p (sizeof TYPE('a)))"

definition store :: "u8 list \<Rightarrow> nat \<Rightarrow> 'a::len word \<Rightarrow> u8 list option" where
  "store m p w = buf_write m p (to_bytes w)"

lemma length_to_bytes [simp]: "length (to_bytes (w :: 'a::len word)) = sizeof TYPE('a)"
  by (simp add: to_bytes_def)

text \<open>The types the program uses: a whole number of bytes.\<close>

definition byte_sized :: "'a::len itself \<Rightarrow> bool" where
  "byte_sized t \<longleftrightarrow> LENGTH('a) = 8 * sizeof TYPE('a)"

lemma byte_sized_simps [simp]:
  "byte_sized TYPE(8)" "byte_sized TYPE(16)" "byte_sized TYPE(32)" "byte_sized TYPE(64)"
  by (simp_all add: byte_sized_def)

lemma uint_of_bytes:
  assumes "byte_sized TYPE('a::len)" "length bs = sizeof TYPE('a)"
  shows "uint (of_bytes bs :: 'a word) = le_val bs"
proof -
  have "(256 :: int) ^ length bs = 2 ^ LENGTH('a)"
    using assms by (simp add: byte_sized_def power_mult)
  then have "le_val bs < 2 ^ LENGTH('a)" using le_val_less [of bs] by simp
  then show ?thesis by (simp add: of_bytes_def uint_word_of_int)
qed

lemma to_bytes_of_bytes:
  assumes "byte_sized TYPE('a::len)" "length bs = sizeof TYPE('a)"
  shows "to_bytes (of_bytes bs :: 'a word) = bs"
  unfolding to_bytes_def uint_of_bytes [OF assms] by (simp flip: assms(2) add: le_bytes_val)

lemma of_bytes_to_bytes:
  assumes "byte_sized TYPE('a::len)"
  shows "of_bytes (to_bytes (w :: 'a word)) = w"
proof -
  have "(256 :: int) ^ sizeof TYPE('a) = 2 ^ LENGTH('a)"
    using assms by (simp add: byte_sized_def power_mult)
  then show ?thesis
    by (simp add: of_bytes_def to_bytes_def le_val_bytes word_uint_eqI uint_word_of_int)
qed

lemma load_Some [buf_simps]:
  "p + sizeof TYPE('a) \<le> length m
    \<Longrightarrow> (load m p :: 'a::len word option) = Some (of_bytes (take (sizeof TYPE('a)) (drop p m)))"
  by (simp add: load_def buf_read_def)

lemma store_Some [buf_simps]:
  "p + sizeof TYPE('a) \<le> length m
    \<Longrightarrow> store m p (w :: 'a::len word) = Some (splice m p (to_bytes w))"
  by (simp add: store_def buf_write_def)

text \<open>A load after a store at the same place reads the value back.\<close>

lemma load_store:
  assumes "byte_sized TYPE('a::len)" "store m p (w :: 'a word) = Some m'"
  shows "load m' p = Some w"
proof -
  have b: "p + sizeof TYPE('a) \<le> length m" "m' = splice m p (to_bytes w)"
    using assms(2) by (auto simp: store_def buf_write_def split: if_splits)
  moreover have "take (length (to_bytes w)) (drop p (splice m p (to_bytes w))) = to_bytes w"
    using b(1) by (intro read_splice) simp
  ultimately show ?thesis by (simp add: load_Some of_bytes_to_bytes [OF assms(1)])
qed

subsection \<open>Finding a zero byte in a word\<close>

text \<open>
  \<open>(x - 0x01..01) & ~x & 0x80..80\<close> is not zero exactly when a byte of \<open>x\<close> is: the test by
  which memchr and strlen take several bytes at a time. \<open>ones n\<close> is \<open>0x01..01\<close> of \<open>n\<close> bytes.
\<close>

definition has_zero :: "'a::len word \<Rightarrow> 'a word \<Rightarrow> 'a word \<Rightarrow> bool" where
  "has_zero lo hi x \<longleftrightarrow> (x - lo) AND NOT x AND hi \<noteq> 0"

fun ones :: "nat \<Rightarrow> int" where
  "ones 0 = 0"
| "ones (Suc n) = 1 + 256 * ones n"

lemma ones_nonneg [simp]: "0 \<le> ones n"
  by (induction n) simp_all

lemma split_byte: "(x::int) = take_bit 8 x + 256 * drop_bit 8 x"
  by (simp add: take_bit_eq_mod drop_bit_eq_div)

lemma byte_join:
  fixes a A :: int
  assumes "0 \<le> a" "a < 256"
  shows "take_bit 8 (a + 256 * A) = a" "drop_bit 8 (a + 256 * A) = A"
  using assms by (simp_all add: take_bit_eq_mod drop_bit_eq_div)

lemma and_bytes:
  fixes a b A B :: int
  assumes "0 \<le> a" "a < 256" "0 \<le> b" "b < 256"
  shows "(a + 256 * A) AND (b + 256 * B) = (a AND b) + 256 * (A AND B)"
proof -
  let ?x = "(a + 256 * A) AND (b + 256 * B)"
  have "take_bit 8 ?x = a AND b" "drop_bit 8 ?x = A AND B"
    using byte_join [OF assms(1,2)] byte_join [OF assms(3,4)] by (simp_all add: take_bit_and drop_bit_and)
  then show ?thesis using split_byte [of ?x] by simp
qed

lemma xor_bytes:
  fixes a b A B :: int
  assumes "0 \<le> a" "a < 256" "0 \<le> b" "b < 256"
  shows "(a + 256 * A) XOR (b + 256 * B) = (a XOR b) + 256 * (A XOR B)"
proof -
  let ?x = "(a + 256 * A) XOR (b + 256 * B)"
  have "take_bit 8 ?x = a XOR b" "drop_bit 8 ?x = A XOR B"
    using byte_join [OF assms(1,2)] byte_join [OF assms(3,4)] by (simp_all add: take_bit_xor drop_bit_xor)
  then show ?thesis using split_byte [of ?x] by simp
qed

lemma not_bytes: "NOT (a + 256 * A) = (255 - a) + 256 * NOT (A::int)"
  by (simp add: not_int_def)

lemma byte_test:
  fixes b :: u8
  assumes "b \<noteq> 0"
  shows "(uint b - 1) AND (255 - uint b) AND 128 = 0"
proof -
  have "1 \<le> uint b" using assms uint_u8_bounds(1) [of b] by (metis int_one_le_iff_zero_less order_le_less uint_0_iff)
  have "((uint b - 1) AND (255 - uint b)) AND 128 = 0"
  proof (cases "uint b \<le> 128")
    case True
    then have "take_bit 7 (uint b - 1) = uint b - 1"
      using \<open>1 \<le> uint b\<close> by (simp add: take_bit_int_eq_self_iff)
    then have "\<not> bit (uint b - 1) 7" by (metis bit_take_bit_iff less_irrefl)
    then show ?thesis by (intro bit_eqI) (auto simp: bit_and_iff bit_exp_iff [where 'a = int, of 7, simplified])
  next
    case False
    then have "take_bit 7 (255 - uint b) = 255 - uint b"
      using uint_u8_bounds(2) [of b] by (simp add: take_bit_int_eq_self_iff)
    then have "\<not> bit (255 - uint b) 7" by (metis bit_take_bit_iff less_irrefl)
    then show ?thesis by (intro bit_eqI) (auto simp: bit_and_iff bit_exp_iff [where 'a = int, of 7, simplified])
  qed
  then show ?thesis by (simp add: and.assoc)
qed

lemma zero_byte_int:
  "(le_val bs - ones (length bs)) AND (NOT (le_val bs) AND (128 * ones (length bs))) = 0
    \<longleftrightarrow> 0 \<notin> set bs"
proof (induction bs)
  case (Cons b bs)
  let ?y = "le_val bs" and ?l = "ones (length bs)"
  have h: "128 * ones (Suc (length bs)) = 128 + 256 * (128 * ?l)" by simp
  have n: "NOT (le_val (b # bs)) = (255 - uint b) + 256 * NOT ?y" by (simp add: not_bytes)
  note ub = uint_u8_bounds [of b]
  have a1: "NOT (le_val (b # bs)) AND (128 * ones (Suc (length bs)))
      = ((255 - uint b) AND 128) + 256 * (NOT ?y AND (128 * ?l))"
    unfolding n h using ub by (intro and_bytes) linarith+
  have r: "0 \<le> (255 - uint b) AND (128::int)" by simp
  have "(255 - uint b) AND (128::int) \<le> 128" by (rule AND_upper2) simp
  then have r': "(255 - uint b) AND (128::int) < 256" by simp
  show ?case
  proof (cases "b = 0")
    case True
    have "le_val (b # bs) - ones (Suc (length bs)) = 255 + 256 * (?y - ?l - 1)"
      using True by simp
    then have "(le_val (b # bs) - ones (Suc (length bs)))
        AND (NOT (le_val (b # bs)) AND (128 * ones (Suc (length bs))))
      = (255 AND ((255 - uint b) AND 128)) + 256 * ((?y - ?l - 1) AND (NOT ?y AND (128 * ?l)))"
      unfolding a1 using r r' by (simp only:) (intro and_bytes, simp_all)
    also have "\<dots> = 128 + 256 * ((?y - ?l - 1) AND (NOT ?y AND (128 * ?l)))"
      using True by simp
    finally have "take_bit 8 ((le_val (b # bs) - ones (Suc (length bs)))
        AND (NOT (le_val (b # bs)) AND (128 * ones (Suc (length bs))))) = 128"
      using byte_join(1) [of 128] by simp
    moreover have "take_bit 8 (0::int) \<noteq> 128" by simp
    ultimately show ?thesis using True by (metis length_Cons list.set_intros(1))
  next
    case False
    have ge: "1 \<le> uint b" using False ub(1) by (metis int_one_le_iff_zero_less order_le_less uint_0_iff)
    have "le_val (b # bs) - ones (Suc (length bs)) = (uint b - 1) + 256 * (?y - ?l)" by simp
    then have "(le_val (b # bs) - ones (Suc (length bs)))
        AND (NOT (le_val (b # bs)) AND (128 * ones (Suc (length bs))))
      = ((uint b - 1) AND ((255 - uint b) AND 128))
        + 256 * ((?y - ?l) AND (NOT ?y AND (128 * ?l)))"
      unfolding a1 using r r' ub ge by (simp only:) (intro and_bytes; linarith)
    then show ?thesis using Cons False byte_test [OF False] by simp
  qed
qed simp

lemma ones_eq: "255 * ones n = 256 ^ n - 1"
  by (induction n) simp_all

lemma has_zero_iff:
  assumes "byte_sized TYPE('a::len)" "length bs = sizeof TYPE('a)"
    and "lo = (word_of_int (ones (sizeof TYPE('a))) :: 'a word)"
    and "hi = (word_of_int (128 * ones (sizeof TYPE('a))) :: 'a word)"
  shows "has_zero lo hi (of_bytes bs) \<longleftrightarrow> 0 \<in> set bs"
proof -
  let ?k = "sizeof TYPE('a)"
  let ?E = "(le_val bs - ones ?k) AND (NOT (le_val bs) AND (128 * ones ?k))"
  have pow: "(256 :: int) ^ ?k = 2 ^ LENGTH('a)"
    using assms(1) by (simp add: byte_sized_def power_mult)
  have "?E \<le> 128 * ones ?k" by (intro order_trans [OF AND_upper2 AND_upper2]) simp_all
  then have "?E < 2 ^ LENGTH('a)" using ones_eq [of ?k] ones_nonneg [of ?k] unfolding pow [symmetric]
    by linarith
  moreover have "0 \<le> ?E" by simp
  moreover have "(of_bytes bs - lo) AND (NOT (of_bytes bs) AND hi) = (word_of_int ?E :: 'a word)"
    unfolding assms(3,4) of_bytes_def of_int_and_eq of_int_not_eq of_int_diff ..
  ultimately have "(of_bytes bs - lo) AND (NOT (of_bytes bs) AND hi) = 0 \<longleftrightarrow> ?E = 0"
    by (metis of_int_0 of_int_eq_iff take_bit_int_eq_self word_of_int_eq_iff uint_word_of_int_eq
        unsigned_0)
  then show ?thesis using zero_byte_int [of bs] assms(2) by (simp add: has_zero_def)
qed

lemma of_bytes_xor:
  "length as = length bs \<Longrightarrow> le_val as XOR le_val bs = le_val (map2 (XOR) as bs)"
proof (induction as bs rule: list_induct2)
  case (Cons a as b bs)
  have "le_val (a # as) XOR le_val (b # bs) = (uint a XOR uint b) + 256 * (le_val as XOR le_val bs)"
    using uint_u8_bounds [of a] uint_u8_bounds [of b] by (simp add: xor_bytes)
  then show ?case using Cons by (simp add: uint_xor)
qed simp

lemma of_bytes_xor_same:
  "of_bytes bs XOR of_bytes (replicate (length bs) c) = of_bytes (map (\<lambda>b. b XOR c) bs)"
proof -
  have "map2 (XOR) bs (replicate (length bs) c) = map (\<lambda>b. b XOR c) bs"
    by (induction bs) simp_all
  then show ?thesis
    using of_bytes_xor [of bs "replicate (length bs) c"] unfolding of_bytes_def
    by (metis length_replicate of_int_xor_eq)
qed

end
