(* ===== verification/Mem_Chr.thy ===== *)
theory Mem_Chr
  imports Byte_Memory
begin

section \<open>memchr.c\<close>

text \<open>
  src/mm-utils/memchr.c: searching a byte forward and backward, one byte at a time or a word at
  a time. A result \<open>Some (Some p)\<close> is a pointer, \<open>Some None\<close> is NULL, \<open>None\<close> a fault. The
  16-bit variant computes on promoted integers in C; the bits its test looks at are those of
  the 16-bit computation.
\<close>

subsection \<open>Forward\<close>

definition mask16 :: "'a::len word \<Rightarrow> 'a word" where
  "mask16 x = push_bit 8 x + x"

definition mask32 :: "'a::len word \<Rightarrow> 'a word" where
  "mask32 x = push_bit 24 x + push_bit 16 x + mask16 x"

definition mask48 :: "'a::len word \<Rightarrow> 'a word" where
  "mask48 x = push_bit 40 x + push_bit 32 x + mask32 x"

definition mask64 :: "'a::len word \<Rightarrow> 'a word" where
  "mask64 x = push_bit 56 x + push_bit 48 x + mask48 x"

fun memchr8 :: "u8 list \<Rightarrow> nat \<Rightarrow> u8 \<Rightarrow> nat \<Rightarrow> nat option option" where
  "memchr8 m p c 0 = Some None"
| "memchr8 m p c (Suc n) =
     (case buf_get m p of
        None \<Rightarrow> None
      | Some x \<Rightarrow> if x = c then Some (Some p) else memchr8 m (Suc p) c n)"

text \<open>The loop over whole words: where it stops, and how many bytes are left.\<close>

function skip_words ::
    "'a::len word \<Rightarrow> 'a word \<Rightarrow> 'a word \<Rightarrow> u8 list \<Rightarrow> nat \<Rightarrow> nat \<Rightarrow> (nat \<times> nat) option" where
  "skip_words lo hi msk m p n =
     (if sizeof TYPE('a) \<le> n
      then (case load m p of
              None \<Rightarrow> None
            | Some w \<Rightarrow>
                if has_zero lo hi (w XOR msk) then Some (p, n)
                else skip_words lo hi msk m (p + sizeof TYPE('a)) (n - sizeof TYPE('a)))
      else Some (p, n))"
  by pat_completeness auto
termination
  by (relation "measure (\<lambda>(_, _, _, _, _, n). n)") (auto intro: diff_less order_less_le_trans [OF sizeof_pos])

declare skip_words.simps [simp del]

definition memchr16 :: "u8 list \<Rightarrow> nat \<Rightarrow> u8 \<Rightarrow> nat \<Rightarrow> nat option option" where
  "memchr16 m s c n =
     do {
       (p, n) \<leftarrow> skip_words (0x0101 :: u16) 0x8080 (mask16 (ucast c)) m s n;
       memchr8 m p c n
     }"

definition memchr32 :: "u8 list \<Rightarrow> nat \<Rightarrow> u8 \<Rightarrow> nat \<Rightarrow> nat option option" where
  "memchr32 m s c n =
     do {
       (p, n) \<leftarrow> skip_words (0x01010101 :: u32) 0x80808080 (mask32 (ucast c)) m s n;
       memchr8 m p c n
     }"

definition memchr64 :: "u8 list \<Rightarrow> nat \<Rightarrow> u8 \<Rightarrow> nat \<Rightarrow> nat option option" where
  "memchr64 m s c n =
     do {
       (p, n) \<leftarrow> skip_words (0x0101010101010101 :: u64) 0x8080808080808080 (mask64 (ucast c)) m s n;
       memchr8 m p c n
     }"

definition memchr :: "u8 list \<Rightarrow> nat \<Rightarrow> u8 \<Rightarrow> nat \<Rightarrow> nat option option" where
  "memchr m s c n =
     (let k = (if n < 8 then n else 8)
      in if k = 8 then memchr64 m s c n
         else if k = 4 then memchr32 m s c n
         else if k = 2 then memchr16 m s c n
         else memchr8 m s c n)"

subsection \<open>Backward\<close>

text \<open>
  Pointers before the start of the memory are integers below zero; \<open>load_at\<close> and \<open>get_at\<close>
  fault on them.
\<close>

definition load_at :: "u8 list \<Rightarrow> int \<Rightarrow> 'a::len word option" where
  "load_at m p = (if p < 0 then None else load m (nat p))"

definition get_at :: "u8 list \<Rightarrow> int \<Rightarrow> u8 option" where
  "get_at m p = (if p < 0 then None else buf_get m (nat p))"

fun memrchr_tail :: "u8 list \<Rightarrow> int \<Rightarrow> u8 \<Rightarrow> nat \<Rightarrow> int option option" where
  "memrchr_tail m p c 0 = Some None"
| "memrchr_tail m p c (Suc n) =
     (case get_at m (p + int n) of
        None \<Rightarrow> None
      | Some x \<Rightarrow> if x = c then Some (Some (p + int n)) else memrchr_tail m p c n)"

function skip_words_back ::
    "'a::len word \<Rightarrow> 'a word \<Rightarrow> 'a word \<Rightarrow> u8 list \<Rightarrow> int \<Rightarrow> nat \<Rightarrow> (int \<times> nat) option" where
  "skip_words_back lo hi msk m p n =
     (if sizeof TYPE('a) \<le> n
      then (case load_at m p of
              None \<Rightarrow> None
            | Some w \<Rightarrow>
                if has_zero lo hi (w XOR msk) then Some (p, n)
                else skip_words_back lo hi msk m (p - int (sizeof TYPE('a))) (n - sizeof TYPE('a)))
      else Some (p, n))"
  by pat_completeness auto
termination
  by (relation "measure (\<lambda>(_, _, _, _, _, n). n)") (auto intro: diff_less order_less_le_trans [OF sizeof_pos])

declare skip_words_back.simps [simp del]

definition memrchr8 :: "u8 list \<Rightarrow> nat \<Rightarrow> u8 \<Rightarrow> nat \<Rightarrow> int option option" where
  "memrchr8 m s c n = memrchr_tail m (int s) c n"

definition memrchr16 :: "u8 list \<Rightarrow> nat \<Rightarrow> u8 \<Rightarrow> nat \<Rightarrow> int option option" where
  "memrchr16 m s c n =
     do {
       (p, n) \<leftarrow> skip_words_back (0x0101 :: u16) 0x8080 (mask16 (ucast c)) m (int s + int n - 1 - 2) n;
       memrchr_tail m p c n
     }"

definition memrchr32 :: "u8 list \<Rightarrow> nat \<Rightarrow> u8 \<Rightarrow> nat \<Rightarrow> int option option" where
  "memrchr32 m s c n =
     do {
       (p, n) \<leftarrow> skip_words_back (0x01010101 :: u32) 0x80808080 (mask32 (ucast c)) m
         (int s + int n - 1 - 4) n;
       memrchr_tail m p c n
     }"

definition memrchr64 :: "u8 list \<Rightarrow> nat \<Rightarrow> u8 \<Rightarrow> nat \<Rightarrow> int option option" where
  "memrchr64 m s c n =
     do {
       (p, n) \<leftarrow> skip_words_back (0x0101010101010101 :: u64) 0x8080808080808080
         (mask64 (ucast c)) m (int s + int n - 1 - 8) n;
       memrchr_tail m p c n
     }"

definition memrchr :: "u8 list \<Rightarrow> nat \<Rightarrow> u8 \<Rightarrow> nat \<Rightarrow> int option option" where
  "memrchr m s c n =
     (let k = (if n < 8 then n else 8)
      in if k = 8 then memrchr64 m s c n
         else if k = 4 then memrchr32 m s c n
         else if k = 2 then memrchr16 m s c n
         else memrchr8 m s c n)"

subsection \<open>The reference: the first and the last position of a byte\<close>

definition first_pos :: "'a \<Rightarrow> 'a list \<Rightarrow> nat option" where
  "first_pos c xs = (if c \<in> set xs then Some (length (takeWhile (\<lambda>x. x \<noteq> c) xs)) else None)"

lemma first_pos_Some:
  "first_pos c xs = Some i \<Longrightarrow> i < length xs \<and> xs ! i = c \<and> (\<forall>j < i. xs ! j \<noteq> c)"
proof -
  assume "first_pos c xs = Some i"
  then have c: "c \<in> set xs" and i: "i = length (takeWhile (\<lambda>x. x \<noteq> c) xs)"
    by (auto simp: first_pos_def split: if_splits)
  from c have lt: "i < length xs" unfolding i takeWhile_len_lt [symmetric] by blast
  then have "xs ! i = c" using nth_takeWhile_stop [of "\<lambda>x. x \<noteq> c" xs] unfolding i by simp
  moreover have "xs ! j \<noteq> c" if "j < i" for j
  proof -
    have "xs ! j \<in> set (takeWhile (\<lambda>x. x \<noteq> c) xs)"
      using that unfolding i by (metis nth_mem takeWhile_nth)
    then show ?thesis by (blast dest: set_takeWhileD)
  qed
  ultimately show ?thesis using lt by blast
qed

lemma first_pos_None: "first_pos c xs = None \<longleftrightarrow> c \<notin> set xs"
  by (simp add: first_pos_def)

lemma memchr8_first:
  "p + n \<le> length m \<Longrightarrow>
    memchr8 m p c n = Some (map_option (\<lambda>i. p + i) (first_pos c (take n (drop p m))))"
proof (induction n arbitrary: p)
  case (Suc n)
  then have p: "p < length m" by simp
  have "take (Suc n) (drop p m) = m ! p # take n (drop (Suc p) m)" using p by (rule take_drop_Cons)
  with Suc p show ?case by (simp add: buf_get_def first_pos_def)
qed (simp add: first_pos_def)

lemma memchr8_skip:
  assumes "k \<le> n" "p + n \<le> length m" "c \<notin> set (take k (drop p m))"
  shows "memchr8 m p c n = memchr8 m (p + k) c (n - k)"
  using assms
proof (induction k arbitrary: p n)
  case (Suc k)
  then obtain n' where n: "n = Suc n'" by (cases n) auto
  have p: "p < length m" using Suc.prems n by simp
  have "c \<noteq> m ! p" "c \<notin> set (take k (drop (Suc p) m))"
    using Suc.prems(3) take_drop_Cons [OF p, of k] by auto
  with Suc p show ?case by (simp add: n buf_get_def)
qed simp

lemma xor_zero_iff: "b XOR c = 0 \<longleftrightarrow> b = c" for b c :: "'a::len word"
  by (metis xor.assoc xor.left_neutral xor.right_neutral xor_self_eq)

lemma skip_words_memchr8:
  assumes "byte_sized TYPE('a::len)" "p + n \<le> length m"
    and "lo = (word_of_int (ones (sizeof TYPE('a))) :: 'a word)"
    and "hi = (word_of_int (128 * ones (sizeof TYPE('a))) :: 'a word)"
    and "msk = (of_bytes (replicate (sizeof TYPE('a)) c) :: 'a word)"
  shows "\<exists>q k. skip_words lo hi msk m p n = Some (q, k) \<and> memchr8 m q c k = memchr8 m p c n"
  using assms(2)
proof (induction n arbitrary: p rule: less_induct)
  case (less n)
  let ?k = "sizeof TYPE('a)"
  show ?case
  proof (cases "?k \<le> n")
    case False
    then show ?thesis by (simp add: skip_words.simps [of lo])
  next
    case True
    let ?bs = "take ?k (drop p m)"
    have len: "length ?bs = ?k" using True less.prems by simp
    have ld: "(load m p :: 'a word option) = Some (of_bytes ?bs)"
      using True less.prems by (intro load_Some) simp
    have x: "(of_bytes ?bs :: 'a word) XOR msk = of_bytes (map (\<lambda>b. b XOR c) ?bs)"
      unfolding assms(5) using of_bytes_xor_same [of ?bs c, where 'a = 'a] len by simp
    have hz: "has_zero lo hi (of_bytes ?bs XOR msk) \<longleftrightarrow> c \<in> set ?bs"
      unfolding x using has_zero_iff [OF assms(1) _ assms(3,4), of "map (\<lambda>b. b XOR c) ?bs"] len
      by (simp add: image_iff eq_commute [of 0] xor_zero_iff)
    show ?thesis
    proof (cases "c \<in> set ?bs")
      case True
      then show ?thesis using hz ld \<open>?k \<le> n\<close> by (simp add: skip_words.simps [of lo])
    next
      case False
      have "n - ?k < n" using True sizeof_pos [where 'a = 'a] by linarith
      from less.IH [OF this, of "p + ?k"] less.prems True obtain q k where
        "skip_words lo hi msk m (p + ?k) (n - ?k) = Some (q, k)"
        "memchr8 m q c k = memchr8 m (p + ?k) c (n - ?k)"
        by auto
      moreover have "memchr8 m p c n = memchr8 m (p + ?k) c (n - ?k)"
        by (rule memchr8_skip [OF True less.prems False])
      ultimately show ?thesis
        using hz ld True False by (simp add: skip_words.simps [of lo _ _ _ p])
    qed
  qed
qed

lemma ones_eval: "ones (numeral k) = 1 + 256 * ones (pred_numeral k)"
  by (simp add: numeral_eq_Suc)

lemma ones_simps:
  "word_of_int (ones (sizeof TYPE(16))) = (0x0101 :: u16)"
  "word_of_int (128 * ones (sizeof TYPE(16))) = (0x8080 :: u16)"
  "word_of_int (ones (sizeof TYPE(32))) = (0x01010101 :: u32)"
  "word_of_int (128 * ones (sizeof TYPE(32))) = (0x80808080 :: u32)"
  "word_of_int (ones (sizeof TYPE(64))) = (0x0101010101010101 :: u64)"
  "word_of_int (128 * ones (sizeof TYPE(64))) = (0x8080808080808080 :: u64)"
  by (simp_all add: ones_eval)

lemma push_sum:
  fixes x :: "'a::len word"
  shows "mask16 x = x * 0x0101" "mask32 x = x * 0x01010101" "mask64 x = x * 0x0101010101010101"
proof -
  have x: "x = x * 1" by simp
  show "mask16 x = x * 0x0101"
    unfolding mask16_def push_bit_eq_mult by (subst (2) x) (simp only: distrib_left [symmetric], simp)
  then show "mask32 x = x * 0x01010101"
    unfolding mask32_def push_bit_eq_mult by (simp only: distrib_left [symmetric]) simp
  then show "mask64 x = x * 0x0101010101010101"
    unfolding mask64_def mask48_def push_bit_eq_mult by (simp only: distrib_left [symmetric]) simp
qed

lemma le_val_replicate: "le_val (replicate n c) = uint c * ones n"
  by (induction n) (simp_all add: algebra_simps)

lemma of_bytes_replicate:
  "of_bytes (replicate n c) = (ucast c * word_of_int (ones n) :: 'a::len word)"
  by (simp only: of_bytes_def le_val_replicate of_int_mult ucast_eq)

lemma masks:
  "mask16 (ucast c) = (of_bytes (replicate (sizeof TYPE(16)) c) :: u16)"
  "mask32 (ucast c) = (of_bytes (replicate (sizeof TYPE(32)) c) :: u32)"
  "mask64 (ucast c) = (of_bytes (replicate (sizeof TYPE(64)) c) :: u64)"
  for c :: u8
  unfolding push_sum of_bytes_replicate ones_simps by (rule refl)+

subsection \<open>The word-wise searches agree with the byte-wise one\<close>

lemma memchr_words:
  assumes "s + n \<le> length m"
  shows "memchr16 m s c n = memchr8 m s c n" "memchr32 m s c n = memchr8 m s c n"
    "memchr64 m s c n = memchr8 m s c n"
proof -
  have "\<exists>q k. skip_words (0x0101 :: u16) 0x8080 (mask16 (ucast c)) m s n = Some (q, k)
      \<and> memchr8 m q c k = memchr8 m s c n"
    by (rule skip_words_memchr8 [OF byte_sized_simps(2) assms ones_simps(1) [symmetric]
        ones_simps(2) [symmetric] masks(1)])
  then show "memchr16 m s c n = memchr8 m s c n" by (auto simp: memchr16_def)
  have "\<exists>q k. skip_words (0x01010101 :: u32) 0x80808080 (mask32 (ucast c)) m s n = Some (q, k)
      \<and> memchr8 m q c k = memchr8 m s c n"
    by (rule skip_words_memchr8 [OF byte_sized_simps(3) assms ones_simps(3) [symmetric]
        ones_simps(4) [symmetric] masks(2)])
  then show "memchr32 m s c n = memchr8 m s c n" by (auto simp: memchr32_def)
  have "\<exists>q k. skip_words (0x0101010101010101 :: u64) 0x8080808080808080 (mask64 (ucast c)) m s n
        = Some (q, k) \<and> memchr8 m q c k = memchr8 m s c n"
    by (rule skip_words_memchr8 [OF byte_sized_simps(4) assms ones_simps(5) [symmetric]
        ones_simps(6) [symmetric] masks(3)])
  then show "memchr64 m s c n = memchr8 m s c n" by (auto simp: memchr64_def)
qed

lemma memchr_memchr8: "s + n \<le> length m \<Longrightarrow> memchr m s c n = memchr8 m s c n"
  by (simp add: memchr_def memchr_words)

lemma memchr_first:
  "s + n \<le> length m \<Longrightarrow>
    memchr m s c n = Some (map_option (\<lambda>i. s + i) (first_pos c (take n (drop s m))))"
  by (simp add: memchr_memchr8 memchr8_first)

subsection \<open>Backward: the byte-wise search, and where the word-wise ones start\<close>

lemma memrchr_tail_last:
  "s + n \<le> length m \<Longrightarrow> memrchr_tail m (int s) c n
    = Some (map_option (\<lambda>i. int s + int n - 1 - int i) (first_pos c (rev (take n (drop s m)))))"
proof (induction n)
  case (Suc n)
  then have "take (Suc n) (drop s m) = take n (drop s m) @ [m ! (s + n)]"
    by (intro take_drop_nth) simp
  moreover have "get_at m (int s + int n) = Some (m ! (s + n))"
    using Suc.prems by (simp add: get_at_def buf_get_def nat_add_distrib)
  ultimately show ?case using Suc by (auto simp: first_pos_def)
qed (simp add: first_pos_def)

lemma memrchr_word_start: "memrchr64 m 0 c 8 = None"
  by (simp add: memrchr64_def skip_words_back.simps load_at_def)

end
