(* ===== verification/Mem_Copy.thy ===== *)
theory Mem_Copy
  imports Mem_Chr
begin

section \<open>memcpy.c, memset.c and memswap.c\<close>

text \<open>
  The routines of src/mm-utils that write memory. Source and destination are offsets into the
  one memory, so that overlapping areas are modelled as they are; every routine returns the
  memory after it, or faults. Each loop over words is defined once for any unsigned type.
\<close>

subsection \<open>memcpy.c\<close>

function copy_words ::
    "'a::len itself \<Rightarrow> u8 list \<Rightarrow> nat \<Rightarrow> nat \<Rightarrow> nat \<Rightarrow> (u8 list \<times> nat \<times> nat \<times> nat) option" where
  "copy_words t m d s n =
     (if sizeof TYPE('a) \<le> n
      then (case (load m s :: 'a word option) of
              None \<Rightarrow> None
            | Some w \<Rightarrow>
                (case store m d w of
                   None \<Rightarrow> None
                 | Some m' \<Rightarrow> copy_words t m' (d + sizeof TYPE('a)) (s + sizeof TYPE('a))
                     (n - sizeof TYPE('a))))
      else Some (m, d, s, n))"
  by pat_completeness auto
termination
  by (relation "measure (\<lambda>(_, _, _, _, n). n)") (auto intro: diff_less order_less_le_trans [OF sizeof_pos])

declare copy_words.simps [simp del]

fun copy_bytes :: "u8 list \<Rightarrow> nat \<Rightarrow> nat \<Rightarrow> nat \<Rightarrow> u8 list option" where
  "copy_bytes m d s 0 = Some m"
| "copy_bytes m d s (Suc n) =
     do {
       x \<leftarrow> buf_get m s;
       m' \<leftarrow> buf_set m d x;
       copy_bytes m' (Suc d) (Suc s) n
     }"

definition memcpy_forward :: "u8 list \<Rightarrow> nat \<Rightarrow> nat \<Rightarrow> nat \<Rightarrow> u8 list option" where
  "memcpy_forward m d s n =
     do {
       (m, d, s, n) \<leftarrow> copy_words TYPE(64) m d s n;
       copy_bytes m d s n
     }"

definition memcpy_forward_sized :: "'a::len itself \<Rightarrow> u8 list \<Rightarrow> nat \<Rightarrow> nat \<Rightarrow> nat \<Rightarrow> u8 list option"
  where "memcpy_forward_sized t m d s n = do { (m, _, _, _) \<leftarrow> copy_words t m d s n; Some m }"

text \<open>The backward copies start at \<open>src + n\<close> and \<open>dst + n\<close>.\<close>

definition store_at :: "u8 list \<Rightarrow> int \<Rightarrow> 'a::len word \<Rightarrow> u8 list option" where
  "store_at m p w = (if p < 0 then None else store m (nat p) w)"

function copy_words_back ::
    "'a::len itself \<Rightarrow> bool \<Rightarrow> u8 list \<Rightarrow> int \<Rightarrow> int \<Rightarrow> nat \<Rightarrow> (u8 list \<times> int \<times> int \<times> nat) option" where
  "copy_words_back t strict m d s n =
     (if (if strict then sizeof TYPE('a) < n else sizeof TYPE('a) \<le> n)
      then (case (load_at m s :: 'a word option) of
              None \<Rightarrow> None
            | Some w \<Rightarrow>
                (case store_at m d w of
                   None \<Rightarrow> None
                 | Some m' \<Rightarrow> copy_words_back t strict m' (d - int (sizeof TYPE('a)))
                     (s - int (sizeof TYPE('a))) (n - sizeof TYPE('a))))
      else Some (m, d, s, n))"
  by pat_completeness auto
termination
  by (relation "measure (\<lambda>(_, _, _, _, _, n). n)")
    (auto intro: diff_less order_less_le_trans [OF sizeof_pos] split: if_splits)

declare copy_words_back.simps [simp del]

fun copy_bytes_back :: "u8 list \<Rightarrow> int \<Rightarrow> int \<Rightarrow> nat \<Rightarrow> u8 list option" where
  "copy_bytes_back m d s 0 = Some m"
| "copy_bytes_back m d s (Suc n) =
     do {
       (x :: u8) \<leftarrow> load_at m s;
       m' \<leftarrow> store_at m d x;
       copy_bytes_back m' (d - 1) (s - 1) n
     }"

definition memcpy_backward :: "u8 list \<Rightarrow> nat \<Rightarrow> nat \<Rightarrow> nat \<Rightarrow> u8 list option" where
  "memcpy_backward m d s n =
     do {
       (m, d, s, n) \<leftarrow> copy_words_back TYPE(64) False m (int d + int n) (int s + int n) n;
       copy_bytes_back m d s n
     }"

definition memcpy_backward_sized :: "'a::len itself \<Rightarrow> u8 list \<Rightarrow> nat \<Rightarrow> nat \<Rightarrow> nat \<Rightarrow> u8 list option"
  where
  "memcpy_backward_sized t m d s n =
     do {
       (m, _, _, _) \<leftarrow> copy_words_back t True m (int d + int n) (int s + int n) n;
       Some m
     }"

definition memcpy :: "u8 list \<Rightarrow> nat \<Rightarrow> nat \<Rightarrow> nat \<Rightarrow> u8 list option" where
  "memcpy m dest src n = memcpy_forward m dest src n"

definition memcpy8 :: "u8 list \<Rightarrow> nat \<Rightarrow> nat \<Rightarrow> nat \<Rightarrow> u8 list option" where
  "memcpy8 m dest src n = memcpy_forward_sized TYPE(8) m dest src n"

definition memcpy16 :: "u8 list \<Rightarrow> nat \<Rightarrow> nat \<Rightarrow> nat \<Rightarrow> u8 list option" where
  "memcpy16 m dest src n = memcpy_forward_sized TYPE(16) m dest src n"

definition memcpy32 :: "u8 list \<Rightarrow> nat \<Rightarrow> nat \<Rightarrow> nat \<Rightarrow> u8 list option" where
  "memcpy32 m dest src n = memcpy_forward_sized TYPE(32) m dest src n"

definition memcpy64 :: "u8 list \<Rightarrow> nat \<Rightarrow> nat \<Rightarrow> nat \<Rightarrow> u8 list option" where
  "memcpy64 m dest src n = memcpy_forward_sized TYPE(64) m dest src n"

definition membcpy :: "u8 list \<Rightarrow> nat \<Rightarrow> nat \<Rightarrow> nat \<Rightarrow> u8 list option" where
  "membcpy m dest src n = memcpy_backward m dest src n"

definition membcpy8 :: "u8 list \<Rightarrow> nat \<Rightarrow> nat \<Rightarrow> nat \<Rightarrow> u8 list option" where
  "membcpy8 m dest src n = memcpy_backward_sized TYPE(8) m dest src n"

definition membcpy16 :: "u8 list \<Rightarrow> nat \<Rightarrow> nat \<Rightarrow> nat \<Rightarrow> u8 list option" where
  "membcpy16 m dest src n = memcpy_backward_sized TYPE(16) m dest src n"

definition membcpy32 :: "u8 list \<Rightarrow> nat \<Rightarrow> nat \<Rightarrow> nat \<Rightarrow> u8 list option" where
  "membcpy32 m dest src n = memcpy_backward_sized TYPE(32) m dest src n"

definition membcpy64 :: "u8 list \<Rightarrow> nat \<Rightarrow> nat \<Rightarrow> nat \<Rightarrow> u8 list option" where
  "membcpy64 m dest src n = memcpy_backward_sized TYPE(64) m dest src n"

definition memmove :: "u8 list \<Rightarrow> nat \<Rightarrow> nat \<Rightarrow> nat \<Rightarrow> u8 list option" where
  "memmove m dest src n =
     (if dest < src then memcpy_forward m dest src n else memcpy_backward m dest src n)"

definition memmove8 :: "u8 list \<Rightarrow> nat \<Rightarrow> nat \<Rightarrow> nat \<Rightarrow> u8 list option" where
  "memmove8 m dest src n =
     (if dest < src then memcpy_forward_sized TYPE(8) m dest src n
      else memcpy_backward_sized TYPE(8) m dest src n)"

definition memmove16 :: "u8 list \<Rightarrow> nat \<Rightarrow> nat \<Rightarrow> nat \<Rightarrow> u8 list option" where
  "memmove16 m dest src n =
     (if dest < src then memcpy_forward_sized TYPE(16) m dest src n
      else memcpy_backward_sized TYPE(16) m dest src n)"

definition memmove32 :: "u8 list \<Rightarrow> nat \<Rightarrow> nat \<Rightarrow> nat \<Rightarrow> u8 list option" where
  "memmove32 m dest src n =
     (if dest < src then memcpy_forward_sized TYPE(32) m dest src n
      else memcpy_backward_sized TYPE(32) m dest src n)"

definition memmove64 :: "u8 list \<Rightarrow> nat \<Rightarrow> nat \<Rightarrow> nat \<Rightarrow> u8 list option" where
  "memmove64 m dest src n =
     (if dest < src then memcpy_forward_sized TYPE(64) m dest src n
      else memcpy_forward_sized TYPE(64) m dest src n)"

subsection \<open>What forward copying does\<close>

text \<open>A forward copy reads what it has not yet written: the areas are apart, or the destination
  comes first.\<close>

definition fwd_ok :: "u8 list \<Rightarrow> nat \<Rightarrow> nat \<Rightarrow> nat \<Rightarrow> bool" where
  "fwd_ok m d s n \<longleftrightarrow> d + n \<le> length m \<and> s + n \<le> length m \<and> (d \<le> s \<or> s + n \<le> d)"

lemma read_after_splice:
  assumes "d + length xs \<le> length m" "d + length xs \<le> s \<or> s + n \<le> d"
  shows "take n (drop s (splice m d xs)) = take n (drop s m)"
proof (rule nth_equalityI)
  show "length (take n (drop s (splice m d xs))) = length (take n (drop s m))"
    using assms(1) by simp
next
  fix i assume "i < length (take n (drop s (splice m d xs)))"
  then have i: "i < n" "s + i < length m" using assms(1) by auto
  then show "take n (drop s (splice m d xs)) ! i = take n (drop s m) ! i"
    using assms by (auto simp: nth_splice)
qed

lemma copy_step:
  assumes "fwd_ok m d s n" "k + j \<le> n"
  shows "splice (splice m d (take k (drop s m))) (d + k) (take j (drop (s + k) m))
      = splice m d (take (k + j) (drop s m))"
proof -
  have len: "length (take k (drop s m)) = k" "length (take j (drop (s + k) m)) = j"
    using assms by (auto simp: fwd_ok_def min_def)
  have "splice (splice m d (take k (drop s m))) (d + length (take k (drop s m)))
      (take j (drop (s + k) m)) = splice m d (take k (drop s m) @ take j (drop (s + k) m))"
    by (rule splice_splice_adjacent) (use assms len in \<open>simp add: fwd_ok_def\<close>)
  moreover have "take (k + j) (drop s m) = take k (drop s m) @ take j (drop (s + k) m)"
    by (rule take_add_drop)
  ultimately show ?thesis using len by simp
qed

lemma fwd_ok_step:
  assumes "fwd_ok m d s n" "k \<le> n"
  shows "fwd_ok (splice m d (take k (drop s m))) (d + k) (s + k) (n - k)"
proof -
  have "length (take k (drop s m)) = k" using assms by (auto simp: fwd_ok_def min_def)
  then show ?thesis using assms by (auto simp: fwd_ok_def)
qed

lemma fwd_ok_read:
  assumes "fwd_ok m d s n" "k + j \<le> n"
  shows "take j (drop (s + k) (splice m d (take k (drop s m)))) = take j (drop (s + k) m)"
proof -
  have "length (take k (drop s m)) = k" using assms by (auto simp: fwd_ok_def min_def)
  then show ?thesis using assms by (intro read_after_splice) (auto simp: fwd_ok_def)
qed

lemma copy_words_effect:
  assumes "byte_sized TYPE('a::len)" "fwd_ok m d s n"
  shows "copy_words TYPE('a) m d s n =
    (let k = n - n mod sizeof TYPE('a)
     in Some (splice m d (take k (drop s m)), d + k, s + k, n mod sizeof TYPE('a)))"
  using assms(2)
proof (induction n arbitrary: m d s rule: less_induct)
  case (less n)
  let ?k = "sizeof TYPE('a)"
  show ?case
  proof (cases "?k \<le> n")
    case False
    then show ?thesis by (simp add: copy_words.simps [of "TYPE('a)"])
  next
    case True
    let ?bs = "take ?k (drop s m)"
    let ?m = "splice m d ?bs"
    have b: "s + ?k \<le> length m" "d + ?k \<le> length m" using less.prems True by (auto simp: fwd_ok_def)
    then have len: "length ?bs = ?k" by simp
    have "(load m s :: 'a word option) = Some (of_bytes ?bs)" using b(1) by (rule load_Some)
    moreover have "store m d (of_bytes ?bs :: 'a word) = Some ?m"
      using b(2) to_bytes_of_bytes [OF assms(1) len] by (simp add: store_Some)
    ultimately have "copy_words TYPE('a) m d s n = copy_words TYPE('a) ?m (d + ?k) (s + ?k) (n - ?k)"
      using True by (simp add: copy_words.simps [of "TYPE('a)" m d s n])
    also have "\<dots> = (let j = (n - ?k) - (n - ?k) mod ?k
      in Some (splice ?m (d + ?k) (take j (drop (s + ?k) ?m)), d + ?k + j, s + ?k + j, (n - ?k) mod ?k))"
      using True sizeof_pos [where 'a = 'a] fwd_ok_step [OF less.prems True]
      by (intro less.IH) linarith+
    also have "\<dots> = (let j = n - n mod ?k
      in Some (splice m d (take j (drop s m)), d + j, s + j, n mod ?k))"
    proof -
      define j where "j = (n - ?k) - n mod ?k"
      have m: "(n - ?k) mod ?k = n mod ?k" using True by (simp add: le_mod_geq)
      have "n mod ?k + ?k \<le> n"
        using True sizeof_pos [where 'a = 'a] by (metis add.commute le_mod_geq mod_less_eq_dividend
            ordered_cancel_comm_monoid_diff_class.le_diff_conv2)
      then have kj: "?k + j = n - n mod ?k" "?k + j \<le> n" by (simp_all add: j_def)
      have "d + ?k + j = d + (n - n mod ?k)" "s + ?k + j = s + (n - n mod ?k)"
        unfolding kj(1) [symmetric] by simp_all
      then show ?thesis
        unfolding m j_def [symmetric] Let_def fwd_ok_read [OF less.prems kj(2)]
          copy_step [OF less.prems kj(2)] kj(1) by simp
    qed
    finally show ?thesis .
  qed
qed

lemma copy_bytes_effect:
  "fwd_ok m d s n \<Longrightarrow> copy_bytes m d s n = Some (splice m d (take n (drop s m)))"
proof (induction n arbitrary: m d s)
  case 0
  then show ?case by simp
next
  case (Suc n)
  have b: "s < length m" "d < length m" using Suc.prems by (auto simp: fwd_ok_def)
  have one: "take 1 (drop s m) = [m ! s]" using b(1) by (simp add: take_Suc_conv_app_nth)
  have k: "1 \<le> Suc n" by simp
  have "copy_bytes m d s (Suc n) = copy_bytes (m[d := m ! s]) (Suc d) (Suc s) n"
    using b by (simp add: buf_get_def buf_set_def)
  also have "m[d := m ! s] = splice m d (take 1 (drop s m))"
    unfolding one using b(2) by (rule list_update_splice)
  also have "copy_bytes \<dots> (Suc d) (Suc s) n
      = Some (splice (splice m d (take 1 (drop s m))) (Suc d)
          (take n (drop (Suc s) (splice m d (take 1 (drop s m))))))"
    using Suc.IH fwd_ok_step [OF Suc.prems k] by simp
  also have "\<dots> = Some (splice m d (take (Suc n) (drop s m)))"
    using copy_step [OF Suc.prems, of 1 n] fwd_ok_read [OF Suc.prems, of 1 n] by simp
  finally show ?case .
qed

lemma memcpy_forward_effect:
  assumes "fwd_ok m d s n"
  shows "memcpy_forward m d s n = Some (splice m d (take n (drop s m)))"
proof -
  let ?k = "n - n mod 8"
  have k: "?k \<le> n" "n - ?k = n mod 8" by simp_all
  have "copy_bytes (splice m d (take ?k (drop s m))) (d + ?k) (s + ?k) (n mod 8)
    = Some (splice (splice m d (take ?k (drop s m))) (d + ?k)
        (take (n mod 8) (drop (s + ?k) (splice m d (take ?k (drop s m))))))"
    using fwd_ok_step [OF assms k(1)] unfolding k(2) by (rule copy_bytes_effect)
  also have "\<dots> = Some (splice m d (take n (drop s m)))"
    using copy_step [OF assms, of ?k "n mod 8"] fwd_ok_read [OF assms, of ?k "n mod 8"] by simp
  finally show ?thesis
    using copy_words_effect [OF _ assms, where 'a = 64] by (simp add: memcpy_forward_def Let_def)
qed

lemma memcpy_forward_sized_effect:
  assumes "byte_sized TYPE('a::len)" "fwd_ok m d s n"
  shows "memcpy_forward_sized TYPE('a) m d s n
    = Some (splice m d (take (n - n mod sizeof TYPE('a)) (drop s m)))"
  using copy_words_effect [OF assms] by (simp add: memcpy_forward_sized_def Let_def)

subsection \<open>What backward copying does\<close>

lemma at_end_faults:
  assumes "0 < n" "length m \<le> p + n"
  shows "load_at m (int p + int n) = (None :: 'a::len word option)"
    and "store_at m (int p + int n) (w :: 'a::len word) = None"
proof -
  have "nat (int p + int n) = p + n" by simp
  moreover have "\<not> p + n + sizeof TYPE('a) \<le> length m"
    using assms(2) sizeof_pos [where 'a = 'a] by linarith
  ultimately show "load_at m (int p + int n) = (None :: 'a word option)"
    "store_at m (int p + int n) w = None"
    by (simp_all add: load_at_def load_def buf_read_def store_at_def store_def buf_write_def)
qed

lemma memcpy_backward_overruns:
  assumes "0 < n" "length m \<le> s + n \<or> length m \<le> d + n"
  shows "memcpy_backward m d s n = None"
proof (cases "8 \<le> n")
  case True
  then have "copy_words_back TYPE(64) False m (int d + int n) (int s + int n) n = None"
    using assms at_end_faults [of n m s, where 'a = 64] at_end_faults [of n m d, where 'a = 64]
    by (subst copy_words_back.simps) (auto split: option.split)
  then show ?thesis by (simp add: memcpy_backward_def)
next
  case False
  then have "copy_words_back TYPE(64) False m (int d + int n) (int s + int n) n
      = Some (m, int d + int n, int s + int n, n)"
    by (subst copy_words_back.simps) simp
  moreover have "copy_bytes_back m (int d + int n) (int s + int n) n = None"
  proof -
    obtain k where k: "n = Suc k" using assms(1) by (cases n) auto
    show ?thesis
      using assms at_end_faults [of n m s, where 'a = 8] at_end_faults [of n m d, where 'a = 8]
      unfolding k copy_bytes_back.simps by (auto split: bind_split)
  qed
  ultimately show ?thesis by (simp add: memcpy_backward_def)
qed

subsection \<open>memset.c\<close>

function set_words :: "'a::len word \<Rightarrow> u8 list \<Rightarrow> nat \<Rightarrow> nat \<Rightarrow> (u8 list \<times> nat \<times> nat) option" where
  "set_words pattern m d n =
     (if sizeof TYPE('a) \<le> n
      then (case store m d pattern of
              None \<Rightarrow> None
            | Some m' \<Rightarrow> set_words pattern m' (d + sizeof TYPE('a)) (n - sizeof TYPE('a)))
      else Some (m, d, n))"
  by pat_completeness auto
termination
  by (relation "measure (\<lambda>(_, _, _, n). n)") (auto intro: diff_less order_less_le_trans [OF sizeof_pos])

declare set_words.simps [simp del]

fun set_bytes :: "u8 \<Rightarrow> u8 list \<Rightarrow> nat \<Rightarrow> nat \<Rightarrow> u8 list option" where
  "set_bytes c m d 0 = Some m"
| "set_bytes c m d (Suc n) = do { m' \<leftarrow> buf_set m d c; set_bytes c m' (Suc d) n }"

definition memset_sized :: "'a::len word \<Rightarrow> u8 list \<Rightarrow> nat \<Rightarrow> nat \<Rightarrow> u8 list option" where
  "memset_sized pattern m d n = do { (m, _, _) \<leftarrow> set_words pattern m d n; Some m }"

text \<open>\<open>c\<close> is an \<open>int\<close>: it is sign-extended to the word and truncated to a byte.\<close>

definition memset_pattern :: "u32 \<Rightarrow> u64" where
  "memset_pattern c =
     (let w = (scast c :: u64)
      in w OR push_bit 8 w OR push_bit 16 w OR push_bit 24 w OR push_bit 32 w
         OR push_bit 40 w OR push_bit 48 w OR push_bit 56 w)"

definition memset :: "u8 list \<Rightarrow> nat \<Rightarrow> u32 \<Rightarrow> nat \<Rightarrow> u8 list option" where
  "memset m dest c n =
     do {
       (m, d, n) \<leftarrow> set_words (memset_pattern c) m dest n;
       set_bytes (ucast c) m d n
     }"

definition memset8 :: "u8 list \<Rightarrow> nat \<Rightarrow> u8 \<Rightarrow> nat \<Rightarrow> u8 list option" where
  "memset8 m dest c n = memset_sized c m dest n"

text \<open>\<open>memset16\<close> computes a pattern and then stores \<open>c\<close>.\<close>

definition memset16 :: "u8 list \<Rightarrow> nat \<Rightarrow> u8 \<Rightarrow> nat \<Rightarrow> u8 list option" where
  "memset16 m dest c n = memset_sized (ucast c :: u16) m dest n"

definition memset32 :: "u8 list \<Rightarrow> nat \<Rightarrow> u8 \<Rightarrow> nat \<Rightarrow> u8 list option" where
  "memset32 m dest c n =
     (let w = (ucast c :: u32);
          pattern = w OR push_bit 8 w OR push_bit 16 w OR push_bit 24 w
      in memset_sized pattern m dest n)"

definition memset64 :: "u8 list \<Rightarrow> nat \<Rightarrow> u8 \<Rightarrow> nat \<Rightarrow> u8 list option" where
  "memset64 m dest c n =
     (let w = (ucast c :: u64);
          pattern = w OR push_bit 8 w OR push_bit 16 w OR push_bit 24 w OR push_bit 32 w
            OR push_bit 40 w OR push_bit 48 w OR push_bit 56 w
      in memset_sized pattern m dest n)"

definition memzero :: "u8 list \<Rightarrow> nat \<Rightarrow> nat \<Rightarrow> u8 list option" where
  "memzero m dest n = memset_sized (0 :: u64) m dest n"

definition memzero8 :: "u8 list \<Rightarrow> nat \<Rightarrow> nat \<Rightarrow> u8 list option" where
  "memzero8 m dest n = memset_sized (0 :: u8) m dest n"

definition memzero16 :: "u8 list \<Rightarrow> nat \<Rightarrow> nat \<Rightarrow> u8 list option" where
  "memzero16 m dest n = memset_sized (0 :: u16) m dest n"

definition memzero32 :: "u8 list \<Rightarrow> nat \<Rightarrow> nat \<Rightarrow> u8 list option" where
  "memzero32 m dest n = memset_sized (0 :: u32) m dest n"

definition memzero64 :: "u8 list \<Rightarrow> nat \<Rightarrow> nat \<Rightarrow> u8 list option" where
  "memzero64 m dest n = memset_sized (0 :: u64) m dest n"

lemma set_words_effect:
  assumes "d + n \<le> length m"
  shows "set_words (w :: 'a::len word) m d n =
    (let q = n div sizeof TYPE('a)
     in Some (splice m d (concat (replicate q (to_bytes w))), d + q * sizeof TYPE('a),
          n mod sizeof TYPE('a)))"
  using assms
proof (induction n arbitrary: m d rule: less_induct)
  case (less n)
  let ?k = "sizeof TYPE('a)"
  show ?case
  proof (cases "?k \<le> n")
    case False
    then show ?thesis by (simp add: set_words.simps [of w])
  next
    case True
    let ?m = "splice m d (to_bytes w)"
    define q where "q = (n - ?k) div ?k"
    have q: "n div ?k = Suc q" "(n - ?k) mod ?k = n mod ?k"
      using True sizeof_pos [where 'a = 'a] by (simp_all add: q_def le_div_geq le_mod_geq)
    have len: "length (concat (replicate q (to_bytes w))) = q * ?k"
      by (simp add: length_concat sum_list_replicate)
    have qk: "q * ?k \<le> n - ?k" by (simp add: q_def)
    have "set_words w m d n = set_words w ?m (d + ?k) (n - ?k)"
      using True less.prems by (simp add: set_words.simps [of w m d n] store_Some)
    also have "\<dots> = Some (splice ?m (d + ?k) (concat (replicate q (to_bytes w))),
        d + ?k + q * ?k, n mod ?k)"
      using less.IH [of "n - ?k" "d + ?k" ?m] True less.prems sizeof_pos [where 'a = 'a]
      by (simp add: q_def [symmetric] q(2) Let_def)
    also have "splice ?m (d + ?k) (concat (replicate q (to_bytes w)))
        = splice m d (concat (replicate (Suc q) (to_bytes w)))"
      using splice_splice_adjacent [of d "to_bytes w" "concat (replicate q (to_bytes w))" m]
        less.prems True len qk by simp
    finally show ?thesis by (simp add: q(1) add.assoc)
  qed
qed

lemma set_bytes_effect:
  "d + n \<le> length m \<Longrightarrow> set_bytes c m d n = Some (splice m d (replicate n c))"
proof (induction n arbitrary: m d)
  case (Suc n)
  then have "set_bytes c m d (Suc n) = Some (splice (splice m d [c]) (d + length [c]) (replicate n c))"
    by (simp add: buf_set_def list_update_splice)
  also have "splice (splice m d [c]) (d + length [c]) (replicate n c) = splice m d ([c] @ replicate n c)"
    using Suc.prems by (intro splice_splice_adjacent) simp
  finally show ?case by simp
qed simp

lemma memset_sized_effect:
  "d + n \<le> length m \<Longrightarrow> memset_sized (w :: 'a::len word) m d n
    = Some (splice m d (concat (replicate (n div sizeof TYPE('a)) (to_bytes w))))"
  by (simp add: memset_sized_def set_words_effect Let_def)

lemma concat_replicate_replicate: "concat (replicate q (replicate k c)) = replicate (q * k) c"
  by (induction q) (simp_all add: replicate_add)

text \<open>The pattern: or-ing shifted copies of a byte is adding them.\<close>

definition bits_below :: "nat \<Rightarrow> 'a::len word \<Rightarrow> bool" where
  "bits_below k x \<longleftrightarrow> (\<forall>i. bit x i \<longrightarrow> i < k)"

lemma or_push:
  assumes "bits_below k y" "bits_below 8 x"
  shows "y OR push_bit k x = y + push_bit k x" and "bits_below (k + 8) (y + push_bit k x)"
proof -
  have "y AND push_bit k x = 0"
    using assms(1) by (intro bit_word_eqI) (auto simp: bits_below_def bit_and_iff bit_push_bit_iff)
  then show *: "y OR push_bit k x = y + push_bit k x" by (simp add: disjunctive_add_eq_or)
  show "bits_below (k + 8) (y + push_bit k x)"
    using assms unfolding * [symmetric] bits_below_def
    by (fastforce simp: bit_or_iff bit_push_bit_iff)
qed

lemma or_shifted:
  fixes x :: "'a::len word"
  assumes "bits_below 8 x"
  shows "x OR push_bit 8 x OR push_bit 16 x OR push_bit 24 x = mask32 x"
    and "x OR push_bit 8 x OR push_bit 16 x OR push_bit 24 x OR push_bit 32 x
      OR push_bit 40 x OR push_bit 48 x OR push_bit 56 x = mask64 x"
proof -
  note s1 = or_push [OF assms assms]
  note s2 = or_push [OF s1(2) assms, simplified]
  note s3 = or_push [OF s2(2) assms, simplified]
  note s4 = or_push [OF s3(2) assms, simplified]
  note s5 = or_push [OF s4(2) assms, simplified]
  note s6 = or_push [OF s5(2) assms, simplified]
  note s7 = or_push [OF s6(2) assms, simplified]
  show "x OR push_bit 8 x OR push_bit 16 x OR push_bit 24 x = mask32 x"
    unfolding or.assoc [symmetric] s1(1) s2(1) s3(1) mask32_def mask16_def by (simp add: ac_simps)
  show "x OR push_bit 8 x OR push_bit 16 x OR push_bit 24 x OR push_bit 32 x
      OR push_bit 40 x OR push_bit 48 x OR push_bit 56 x = mask64 x"
    unfolding or.assoc [symmetric] s1(1) s2(1) s3(1) s4(1) s5(1) s6(1) s7(1)
      mask64_def mask48_def mask32_def mask16_def by (simp add: ac_simps)
qed

lemma bits_below_byte: "bits_below 8 (ucast (c :: u8) :: 'a::len word)"
  by (auto simp: bits_below_def bit_ucast_iff dest: bit_imp_le_length)

lemma to_bytes_mask:
  "to_bytes (mask32 (ucast c) :: u32) = replicate 4 c"
  "to_bytes (mask64 (ucast c) :: u64) = replicate 8 c"
  for c :: u8
  unfolding masks by (simp_all add: to_bytes_of_bytes)

lemma memset_pattern_bytes:
  fixes c :: u8
  shows "to_bytes (memset_pattern (ucast c)) = replicate 8 c"
proof -
  have "(scast (ucast c :: u32) :: u64) = ucast c"
    by (rule bit_word_eqI) (auto simp: bit_simps min_def dest: bit_imp_le_length split: if_splits)
  then show ?thesis
    by (simp add: memset_pattern_def Let_def or_shifted(2) [OF bits_below_byte] to_bytes_mask)
qed

lemma memset_effect:
  fixes c :: u8
  assumes "d + n \<le> length m"
  shows "memset m d (ucast c) n = Some (splice m d (replicate n c))"
proof -
  let ?q = "n div 8"
  have b: "to_bytes (memset_pattern (ucast c)) = replicate 8 c" by (rule memset_pattern_bytes)
  have q: "?q * 8 + n mod 8 = n" by simp
  have len: "d + ?q * 8 + n mod 8 \<le> length m" using assms by simp
  have "set_words (memset_pattern (ucast c)) m d n
      = Some (splice m d (replicate (?q * 8) c), d + ?q * 8, n mod 8)"
    using set_words_effect [OF assms, of "memset_pattern (ucast c)"]
    by (simp add: b concat_replicate_replicate Let_def)
  moreover have "set_bytes c (splice m d (replicate (?q * 8) c)) (d + ?q * 8) (n mod 8)
      = Some (splice (splice m d (replicate (?q * 8) c)) (d + ?q * 8) (replicate (n mod 8) c))"
    using len by (intro set_bytes_effect) simp
  moreover have "splice (splice m d (replicate (?q * 8) c)) (d + length (replicate (?q * 8) c))
      (replicate (n mod 8) c) = splice m d (replicate (?q * 8) c @ replicate (n mod 8) c)"
    using len by (intro splice_splice_adjacent) simp
  moreover have "replicate (?q * 8) c @ replicate (n mod 8) c = replicate n c"
    by (simp add: replicate_add [symmetric])
  moreover have "(ucast (ucast c :: u32) :: u8) = c"
    by (rule bit_word_eqI) (auto simp: bit_simps dest: bit_imp_le_length)
  ultimately show ?thesis by (simp add: memset_def)
qed

text \<open>The variants of one width set whole units only.\<close>

lemma memset_units:
  assumes "d + n \<le> length m"
  shows "memset8 m d c n = Some (splice m d (replicate n c))"
    and "memset32 m d c n = Some (splice m d (replicate (n div 4 * 4) c))"
    and "memset64 m d c n = Some (splice m d (replicate (n div 8 * 8) c))"
    and "memzero m d n = Some (splice m d (replicate (n div 8 * 8) 0))"
proof -
  have "le_bytes k 0 = replicate k 0" for k by (induction k) simp_all
  then have 8: "to_bytes c = [c]" "to_bytes (0 :: u64) = replicate 8 0"
    by (simp_all add: to_bytes_def)
  show "memset8 m d c n = Some (splice m d (replicate n c))"
    using assms concat_replicate_replicate [of n 1 c] by (simp add: memset8_def memset_sized_effect 8(1))
  show "memset32 m d c n = Some (splice m d (replicate (n div 4 * 4) c))"
    using assms by (simp add: memset32_def Let_def or_shifted(1) [OF bits_below_byte]
        memset_sized_effect to_bytes_mask concat_replicate_replicate)
  show "memset64 m d c n = Some (splice m d (replicate (n div 8 * 8) c))"
    using assms by (simp add: memset64_def Let_def or_shifted(2) [OF bits_below_byte]
        memset_sized_effect to_bytes_mask concat_replicate_replicate)
  show "memzero m d n = Some (splice m d (replicate (n div 8 * 8) 0))"
    using assms by (simp add: memzero_def memset_sized_effect 8(2) concat_replicate_replicate)
qed

lemma memset16_units:
  fixes c :: u8
  assumes "d + n \<le> length m"
  shows "memset16 m d c n = Some (splice m d (concat (replicate (n div 2) [c, 0])))"
proof -
  have u: "uint (ucast c :: u16) = uint c"
    using uint_u8_bounds [of c] by (simp add: unsigned_ucast_eq take_bit_int_eq_self_iff)
  have "le_bytes 2 v = [word_of_int v, word_of_int (v div 256)]" for v
    by (simp add: numeral_2_eq_2)
  moreover have "uint c div 256 = 0" using uint_u8_bounds [of c] by simp
  ultimately have "to_bytes (ucast c :: u16) = [c, 0]" by (simp add: to_bytes_def u)
  then show ?thesis using assms by (simp add: memset16_def memset_sized_effect)
qed

subsection \<open>memswap.c\<close>

function swap_words ::
    "'a::len itself \<Rightarrow> u8 list \<Rightarrow> nat \<Rightarrow> nat \<Rightarrow> nat \<Rightarrow> (u8 list \<times> nat \<times> nat \<times> nat) option" where
  "swap_words t m a b n =
     (if sizeof TYPE('a) \<le> n
      then do {
        (it :: 'a word) \<leftarrow> load m a;
        (jt :: 'a word) \<leftarrow> load m b;
        m1 \<leftarrow> store m a jt;
        m2 \<leftarrow> store m1 b it;
        swap_words t m2 (a + sizeof TYPE('a)) (b + sizeof TYPE('a)) (n - sizeof TYPE('a))
      }
      else Some (m, a, b, n))"
  by pat_completeness auto
termination
  by (relation "measure (\<lambda>(_, _, _, _, n). n)") (auto intro: diff_less order_less_le_trans [OF sizeof_pos])

declare swap_words.simps [simp del]

fun swap_bytes :: "u8 list \<Rightarrow> nat \<Rightarrow> nat \<Rightarrow> nat \<Rightarrow> u8 list option" where
  "swap_bytes m a b 0 = Some m"
| "swap_bytes m a b (Suc n) =
     do {
       ct \<leftarrow> buf_get m a;
       dt \<leftarrow> buf_get m b;
       m1 \<leftarrow> buf_set m a dt;
       m2 \<leftarrow> buf_set m1 b ct;
       swap_bytes m2 (Suc a) (Suc b) n
     }"

definition memswap :: "u8 list \<Rightarrow> nat \<Rightarrow> nat \<Rightarrow> nat \<Rightarrow> u8 list option" where
  "memswap m a b n =
     do {
       (m, a, b, n) \<leftarrow> swap_words TYPE(64) m a b n;
       swap_bytes m a b n
     }"

definition memswap_sized :: "'a::len itself \<Rightarrow> u8 list \<Rightarrow> nat \<Rightarrow> nat \<Rightarrow> nat \<Rightarrow> u8 list option" where
  "memswap_sized t m a b n = do { (m, _, _, _) \<leftarrow> swap_words t m a b n; Some m }"

definition memswap8 :: "u8 list \<Rightarrow> nat \<Rightarrow> nat \<Rightarrow> nat \<Rightarrow> u8 list option" where
  "memswap8 m a b n = memswap_sized TYPE(8) m a b n"

definition memswap16 :: "u8 list \<Rightarrow> nat \<Rightarrow> nat \<Rightarrow> nat \<Rightarrow> u8 list option" where
  "memswap16 m a b n = memswap_sized TYPE(16) m a b n"

definition memswap32 :: "u8 list \<Rightarrow> nat \<Rightarrow> nat \<Rightarrow> nat \<Rightarrow> u8 list option" where
  "memswap32 m a b n = memswap_sized TYPE(32) m a b n"

definition memswap64 :: "u8 list \<Rightarrow> nat \<Rightarrow> nat \<Rightarrow> nat \<Rightarrow> u8 list option" where
  "memswap64 m a b n = memswap_sized TYPE(64) m a b n"

text \<open>The memory with the areas of \<open>n\<close> bytes at \<open>a\<close> and \<open>b\<close> exchanged.\<close>

definition exchanged :: "'a list \<Rightarrow> nat \<Rightarrow> nat \<Rightarrow> nat \<Rightarrow> 'a list" where
  "exchanged m a b n = splice (splice m a (take n (drop b m))) b (take n (drop a m))"

definition apart :: "'a list \<Rightarrow> nat \<Rightarrow> nat \<Rightarrow> nat \<Rightarrow> bool" where
  "apart m a b n \<longleftrightarrow> a + n \<le> length m \<and> b + n \<le> length m \<and> (a + n \<le> b \<or> b + n \<le> a)"

lemma length_exchanged [simp]: "apart m a b n \<Longrightarrow> length (exchanged m a b n) = length m"
  by (auto simp: exchanged_def apart_def)

lemma nth_exchanged:
  assumes "apart m a b n" "i < length m"
  shows "exchanged m a b n ! i =
    (if a \<le> i \<and> i < a + n then m ! (b + (i - a))
     else if b \<le> i \<and> i < b + n then m ! (a + (i - b)) else m ! i)"
proof -
  have l: "length (take n (drop b m)) = n" "length (take n (drop a m)) = n"
    using assms(1) by (auto simp: apart_def)
  have r: "take n (drop b m) ! j = m ! (b + j)" "take n (drop a m) ! j = m ! (a + j)" if "j < n" for j
    using that assms(1) by (auto simp: apart_def)
  have "splice m a (take n (drop b m)) ! i
      = (if a \<le> i \<and> i < a + n then m ! (b + (i - a)) else m ! i)"
    using assms l r by (subst nth_splice) (auto simp: apart_def)
  moreover have "exchanged m a b n ! i = (if b \<le> i \<and> i < b + n then m ! (a + (i - b))
      else splice m a (take n (drop b m)) ! i)"
    unfolding exchanged_def using assms l r by (subst nth_splice) (auto simp: apart_def)
  ultimately show ?thesis using assms(1) by (auto simp: apart_def)
qed

lemma apart_step: "apart m a b n \<Longrightarrow> k \<le> n \<Longrightarrow> apart m a b k"
  by (auto simp: apart_def)

lemma apart_rest:
  "apart m a b n \<Longrightarrow> k \<le> n \<Longrightarrow> apart (exchanged m a b k) (a + k) (b + k) (n - k)"
  using length_exchanged [OF apart_step [of m a b n k]] by (auto simp: apart_def)

lemma exchanged_step:
  assumes "apart m a b n" "k \<le> n"
  shows "exchanged (exchanged m a b k) (a + k) (b + k) (n - k) = exchanged m a b n"
proof -
  note ak = apart_step [OF assms] and ar = apart_rest [OF assms]
  show ?thesis
  proof (rule nth_equalityI)
    show "length (exchanged (exchanged m a b k) (a + k) (b + k) (n - k)) = length (exchanged m a b n)"
      using ak ar assms(1) by simp
  next
    fix i assume "i < length (exchanged (exchanged m a b k) (a + k) (b + k) (n - k))"
    then have i: "i < length m" using ak ar by simp
    have *: "exchanged m a b k ! j = (if a \<le> j \<and> j < a + k then m ! (b + (j - a))
        else if b \<le> j \<and> j < b + k then m ! (a + (j - b)) else m ! j)" if "j < length m" for j
      using that by (rule nth_exchanged [OF ak])
    have "i < length (exchanged m a b k)" using i ak by simp
    note out = nth_exchanged [OF ar this]
    consider "a \<le> i" "i < a + k" | "a + k \<le> i" "i < a + n" | "b \<le> i" "i < b + k"
      | "b + k \<le> i" "i < b + n" | "\<not> (a \<le> i \<and> i < a + n)" "\<not> (b \<le> i \<and> i < b + n)"
      by linarith
    then show "exchanged (exchanged m a b k) (a + k) (b + k) (n - k) ! i = exchanged m a b n ! i"
      using assms i by cases
        (auto simp: out * nth_exchanged [OF assms(1)] apart_def)
  qed
qed

lemma swap_words_effect:
  assumes "byte_sized TYPE('a::len)" "apart m a b n"
  shows "swap_words TYPE('a) m a b n =
    (let k = n - n mod sizeof TYPE('a)
     in Some (exchanged m a b k, a + k, b + k, n mod sizeof TYPE('a)))"
  using assms(2)
proof (induction n arbitrary: m a b rule: less_induct)
  case (less n)
  let ?k = "sizeof TYPE('a)"
  show ?case
  proof (cases "?k \<le> n")
    case False
    then show ?thesis by (simp add: swap_words.simps [of "TYPE('a)"] exchanged_def)
  next
    case True
    let ?xs = "take ?k (drop a m)" and ?ys = "take ?k (drop b m)"
    let ?m = "exchanged m a b ?k"
    have bd: "a + ?k \<le> length m" "b + ?k \<le> length m" using less.prems True by (auto simp: apart_def)
    then have len: "length ?xs = ?k" "length ?ys = ?k" by simp_all
    have l: "(load m a :: 'a word option) = Some (of_bytes ?xs)"
      "(load m b :: 'a word option) = Some (of_bytes ?ys)"
      using bd by (simp_all add: load_Some)
    have s1: "store m a (of_bytes ?ys :: 'a word) = Some (splice m a ?ys)"
      using bd to_bytes_of_bytes [OF assms(1) len(2)] by (simp add: store_Some)
    have s2: "store (splice m a ?ys) b (of_bytes ?xs :: 'a word) = Some ?m"
      using bd len to_bytes_of_bytes [OF assms(1) len(1)] by (simp add: store_Some exchanged_def)
    have "swap_words TYPE('a) m a b n = swap_words TYPE('a) ?m (a + ?k) (b + ?k) (n - ?k)"
      using True l s1 s2 by (simp add: swap_words.simps [of "TYPE('a)" m a b n])
    also have "\<dots> = (let j = (n - ?k) - (n - ?k) mod ?k
      in Some (exchanged ?m (a + ?k) (b + ?k) j, a + ?k + j, b + ?k + j, (n - ?k) mod ?k))"
      using True sizeof_pos [where 'a = 'a] apart_rest [OF less.prems True]
      by (intro less.IH) linarith+
    also have "\<dots> = (let j = n - n mod ?k in Some (exchanged m a b j, a + j, b + j, n mod ?k))"
    proof -
      define j where "j = (n - ?k) - n mod ?k"
      have m: "(n - ?k) mod ?k = n mod ?k" using True by (simp add: le_mod_geq)
      have "n mod ?k + ?k \<le> n"
        using True sizeof_pos [where 'a = 'a] by (metis add.commute le_mod_geq mod_less_eq_dividend
            ordered_cancel_comm_monoid_diff_class.le_diff_conv2)
      then have kj: "?k + j = n - n mod ?k" by (simp add: j_def)
      have "a + ?k + j = a + (n - n mod ?k)" "b + ?k + j = b + (n - n mod ?k)"
        unfolding kj [symmetric] by simp_all
      moreover have "exchanged ?m (a + ?k) (b + ?k) j = exchanged m a b (?k + j)"
      proof -
        have "?k + j \<le> n" using kj by simp
        from exchanged_step [OF apart_step [OF less.prems this] le_add1] show ?thesis
          unfolding diff_add_inverse .
      qed
      ultimately show ?thesis unfolding m j_def [symmetric] Let_def kj by simp
    qed
    finally show ?thesis .
  qed
qed

lemma swap_bytes_effect:
  "apart m a b n \<Longrightarrow> swap_bytes m a b n = Some (exchanged m a b n)"
proof (induction n arbitrary: m a b)
  case 0
  then show ?case by (simp add: exchanged_def)
next
  case (Suc n)
  have bd: "a < length m" "b < length m" using Suc.prems by (auto simp: apart_def)
  have "take 1 (drop a m) = [m ! a]" "take 1 (drop b m) = [m ! b]"
    using bd by (simp_all add: take_Suc_conv_app_nth)
  then have "exchanged m a b 1 = (m[a := m ! b])[b := m ! a]"
    using bd by (simp add: exchanged_def list_update_splice)
  then have "swap_bytes m a b (Suc n) = swap_bytes (exchanged m a b 1) (Suc a) (Suc b) n"
    using bd by (simp add: buf_get_def buf_set_def)
  also have "\<dots> = Some (exchanged (exchanged m a b 1) (a + 1) (b + 1) (Suc n - 1))"
    using Suc.IH apart_rest [OF Suc.prems, of 1] by simp
  also have "\<dots> = Some (exchanged m a b (Suc n))"
    using exchanged_step [OF Suc.prems, of 1] by simp
  finally show ?case .
qed

lemma memswap_effect:
  assumes "apart m a b n"
  shows "memswap m a b n = Some (exchanged m a b n)"
proof -
  let ?k = "n - n mod 8"
  have k: "?k \<le> n" "n - ?k = n mod 8" by simp_all
  have "swap_bytes (exchanged m a b ?k) (a + ?k) (b + ?k) (n mod 8)
      = Some (exchanged (exchanged m a b ?k) (a + ?k) (b + ?k) (n mod 8))"
    using apart_rest [OF assms k(1)] unfolding k(2) by (rule swap_bytes_effect)
  also have "\<dots> = Some (exchanged m a b n)" using exchanged_step [OF assms k(1)] unfolding k(2) by simp
  finally show ?thesis
    using swap_words_effect [OF _ assms, where 'a = 64] by (simp add: memswap_def Let_def)
qed

end
