(* ===== verification/Mem_Cmp.thy ===== *)
theory Mem_Cmp
  imports Mem_Chr
begin

section \<open>memcmp.c and memmem.c\<close>

text \<open>
  src/mm-utils/memcmp.c and src/mm-utils/memmem.c. The areas compared may lie in different
  memories, \<open>m1\<close> and \<open>m2\<close>. The steps of a comparison yield \<open>Some (Some r)\<close> when they return
  \<open>r\<close>, \<open>Some None\<close> when they fall through.
\<close>

subsection \<open>memcmp.c\<close>

fun cmp_step :: "u8 list \<Rightarrow> nat \<Rightarrow> u8 list \<Rightarrow> nat \<Rightarrow> nat \<Rightarrow> int option option" where
  "cmp_step m1 p1 m2 p2 0 = Some None"
| "cmp_step m1 p1 m2 p2 (Suc n) =
     do {
       x \<leftarrow> buf_get m1 p1;
       y \<leftarrow> buf_get m2 p2;
       if x \<noteq> y then Some (Some (uint x - uint y)) else cmp_step m1 (Suc p1) m2 (Suc p2) n
     }"

text \<open>The loop over words: a result, or where the words ended and the bytes left.\<close>

function cmp_words ::
    "'a::len itself \<Rightarrow> u8 list \<Rightarrow> nat \<Rightarrow> u8 list \<Rightarrow> nat \<Rightarrow> nat \<Rightarrow> (int + nat \<times> nat \<times> nat) option" where
  "cmp_words t m1 p1 m2 p2 n =
     (if sizeof TYPE('a) \<le> n
      then do {
        (x :: 'a word) \<leftarrow> load m1 p1;
        (y :: 'a word) \<leftarrow> load m2 p2;
        r \<leftarrow> (if x \<noteq> y then cmp_step m1 p1 m2 p2 (sizeof TYPE('a)) else Some None);
        (case r of
           Some d \<Rightarrow> Some (Inl d)
         | None \<Rightarrow> cmp_words t m1 (p1 + sizeof TYPE('a)) m2 (p2 + sizeof TYPE('a)) (n - sizeof TYPE('a)))
      }
      else Some (Inr (p1, p2, n)))"
  by pat_completeness auto
termination
  by (relation "measure (\<lambda>(_, _, _, _, _, n). n)") (auto intro: diff_less order_less_le_trans [OF sizeof_pos])

declare cmp_words.simps [simp del]

definition memcmp8 :: "u8 list \<Rightarrow> nat \<Rightarrow> u8 list \<Rightarrow> nat \<Rightarrow> nat \<Rightarrow> int option" where
  "memcmp8 m1 p1 m2 p2 n =
     do { r \<leftarrow> cmp_step m1 p1 m2 p2 n; Some (case r of Some d \<Rightarrow> d | None \<Rightarrow> 0) }"

definition memcmp :: "u8 list \<Rightarrow> nat \<Rightarrow> u8 list \<Rightarrow> nat \<Rightarrow> nat \<Rightarrow> int option" where
  "memcmp m1 p1 m2 p2 n =
     do {
       r \<leftarrow> cmp_words TYPE(64) m1 p1 m2 p2 n;
       (case r of
          Inl d \<Rightarrow> Some d
        | Inr (p1, p2, n) \<Rightarrow> memcmp8 m1 p1 m2 p2 n)
     }"

text \<open>The variants of one width compare whole units only.\<close>

definition cmp_units :: "'a::len itself \<Rightarrow> u8 list \<Rightarrow> nat \<Rightarrow> u8 list \<Rightarrow> nat \<Rightarrow> nat \<Rightarrow> int option" where
  "cmp_units t m1 p1 m2 p2 n =
     do { r \<leftarrow> cmp_words t m1 p1 m2 p2 n; Some (case r of Inl d \<Rightarrow> d | Inr _ \<Rightarrow> 0) }"

definition memcmp16 :: "u8 list \<Rightarrow> nat \<Rightarrow> u8 list \<Rightarrow> nat \<Rightarrow> nat \<Rightarrow> int option" where
  "memcmp16 m1 p1 m2 p2 n = cmp_units TYPE(16) m1 p1 m2 p2 n"

definition memcmp32 :: "u8 list \<Rightarrow> nat \<Rightarrow> u8 list \<Rightarrow> nat \<Rightarrow> nat \<Rightarrow> int option" where
  "memcmp32 m1 p1 m2 p2 n = cmp_units TYPE(32) m1 p1 m2 p2 n"

definition memcmp64 :: "u8 list \<Rightarrow> nat \<Rightarrow> u8 list \<Rightarrow> nat \<Rightarrow> nat \<Rightarrow> int option" where
  "memcmp64 m1 p1 m2 p2 n = cmp_units TYPE(64) m1 p1 m2 p2 n"

subsection \<open>The reference: the difference of the first bytes that differ\<close>

fun byte_cmp :: "u8 list \<Rightarrow> u8 list \<Rightarrow> int" where
  "byte_cmp (x # xs) (y # ys) = (if x \<noteq> y then uint x - uint y else byte_cmp xs ys)"
| "byte_cmp _ _ = 0"

lemma byte_cmp_zero_iff: "length xs = length ys \<Longrightarrow> byte_cmp xs ys = 0 \<longleftrightarrow> xs = ys"
  by (induction xs ys rule: list_induct2) (auto dest: unsigned_word_eqI)

lemma byte_cmp_self [simp]: "byte_cmp xs xs = 0"
  by (simp add: byte_cmp_zero_iff)

lemma byte_cmp_flip: "length xs = length ys \<Longrightarrow> byte_cmp xs ys = - byte_cmp ys xs"
  by (induction xs ys rule: list_induct2) auto

lemma byte_cmp_append:
  "length xs = length ys \<Longrightarrow> byte_cmp (xs @ us) (ys @ vs)
    = (if xs \<noteq> ys then byte_cmp xs ys else byte_cmp us vs)"
  by (induction xs ys rule: list_induct2) auto

lemma byte_cmp_trans:
  assumes "length xs = length ys" "length ys = length zs" "byte_cmp xs ys \<le> 0" "byte_cmp ys zs \<le> 0"
  shows "byte_cmp xs zs \<le> 0"
  using assms
proof (induction xs ys zs rule: list_induct3)
  case (Cons x xs y ys z zs)
  have ne: "uint a \<noteq> uint b" if "a \<noteq> b" for a b :: u8
    using that by (auto dest: unsigned_word_eqI)
  show ?case
  proof (cases "x = y \<and> y = z")
    case True
    with Cons show ?thesis by simp
  next
    case False
    have "uint x \<le> uint y" "uint y \<le> uint z"
      using Cons.prems by (auto split: if_splits)
    moreover have "uint x < uint y \<or> uint y < uint z"
      using False calculation ne [of x y] ne [of y z] by linarith
    ultimately show ?thesis by auto
  qed
qed simp

lemma cmp_step_effect:
  assumes "p1 + n \<le> length m1" "p2 + n \<le> length m2"
  shows "cmp_step m1 p1 m2 p2 n =
    (let xs = take n (drop p1 m1); ys = take n (drop p2 m2)
     in Some (if xs = ys then None else Some (byte_cmp xs ys)))"
  using assms
proof (induction n arbitrary: p1 p2)
  case (Suc n)
  then have p: "p1 < length m1" "p2 < length m2" by simp_all
  then have "take (Suc n) (drop p1 m1) = m1 ! p1 # take n (drop (Suc p1) m1)"
    "take (Suc n) (drop p2 m2) = m2 ! p2 # take n (drop (Suc p2) m2)"
    by (simp_all add: take_drop_Cons)
  with Suc p show ?case by (simp add: buf_get_def Let_def)
qed simp

lemma memcmp8_effect:
  assumes "p1 + n \<le> length m1" "p2 + n \<le> length m2"
  shows "memcmp8 m1 p1 m2 p2 n = Some (byte_cmp (take n (drop p1 m1)) (take n (drop p2 m2)))"
  using cmp_step_effect [OF assms] by (simp add: memcmp8_def Let_def)

lemma of_bytes_inj:
  assumes "byte_sized TYPE('a::len)" "length xs = sizeof TYPE('a)" "length ys = sizeof TYPE('a)"
  shows "(of_bytes xs :: 'a word) = of_bytes ys \<longleftrightarrow> xs = ys"
  by (metis assms to_bytes_of_bytes)

lemma cmp_words_effect:
  assumes "byte_sized TYPE('a::len)" "p1 + n \<le> length m1" "p2 + n \<le> length m2"
  shows "cmp_words TYPE('a) m1 p1 m2 p2 n =
    (let k = n - n mod sizeof TYPE('a); xs = take k (drop p1 m1); ys = take k (drop p2 m2)
     in Some (if xs = ys then Inr (p1 + k, p2 + k, n - k) else Inl (byte_cmp xs ys)))"
  using assms(2,3)
proof (induction n arbitrary: p1 p2 rule: less_induct)
  case (less n)
  let ?k = "sizeof TYPE('a)"
  show ?case
  proof (cases "?k \<le> n")
    case False
    then show ?thesis by (simp add: cmp_words.simps [of "TYPE('a)"])
  next
    case True
    let ?xs = "take ?k (drop p1 m1)" and ?ys = "take ?k (drop p2 m2)"
    define j where "j = (n - ?k) - n mod ?k"
    have len: "length ?xs = ?k" "length ?ys = ?k" using True less.prems by simp_all
    have l: "(load m1 p1 :: 'a word option) = Some (of_bytes ?xs)"
      "(load m2 p2 :: 'a word option) = Some (of_bytes ?ys)"
      using True less.prems by (simp_all add: load_Some)
    have m: "(n - ?k) mod ?k = n mod ?k" using True by (simp add: le_mod_geq)
    have "n mod ?k + ?k \<le> n"
      using True sizeof_pos [where 'a = 'a] by (metis add.commute le_mod_geq mod_less_eq_dividend
          ordered_cancel_comm_monoid_diff_class.le_diff_conv2)
    then have kj: "n - n mod ?k = ?k + j" by (simp add: j_def)
    have sp: "take (?k + j) (drop p1 m1) = ?xs @ take j (drop (p1 + ?k) m1)"
      "take (?k + j) (drop p2 m2) = ?ys @ take j (drop (p2 + ?k) m2)"
      by (rule take_add_drop)+
    show ?thesis
    proof (cases "?xs = ?ys")
      case False
      then have "cmp_words TYPE('a) m1 p1 m2 p2 n = Some (Inl (byte_cmp ?xs ?ys))"
        using True l of_bytes_inj [OF assms(1) len] cmp_step_effect [of p1 ?k m1 p2 m2] less.prems
        by (simp add: cmp_words.simps [of "TYPE('a)" m1 p1] Let_def)
      then show ?thesis
        using False len byte_cmp_append [of ?xs ?ys] unfolding Let_def kj sp by simp
    next
      case eq: True
      have "cmp_words TYPE('a) m1 p1 m2 p2 n
          = cmp_words TYPE('a) m1 (p1 + ?k) m2 (p2 + ?k) (n - ?k)"
        using True l eq by (simp add: cmp_words.simps [of "TYPE('a)" m1 p1])
      moreover have "n - ?k < n" using True sizeof_pos [where 'a = 'a] by linarith
      note IH = less.IH [OF this, of "p1 + ?k" "p2 + ?k"]
      ultimately show ?thesis
        using less.prems True len eq byte_cmp_append [of ?xs ?ys]
        unfolding Let_def kj sp m j_def [symmetric] by (simp add: m j_def [symmetric] add.assoc Let_def IH)
    qed
  qed
qed

lemma memcmp_effect:
  assumes "p1 + n \<le> length m1" "p2 + n \<le> length m2"
  shows "memcmp m1 p1 m2 p2 n = Some (byte_cmp (take n (drop p1 m1)) (take n (drop p2 m2)))"
proof -
  define k j where "k = n - n mod 8" and "j = n mod 8"
  then have n: "n = k + j" "n - k = j" by simp_all
  let ?xs = "take k (drop p1 m1)" and ?ys = "take k (drop p2 m2)"
  let ?us = "take j (drop (p1 + k) m1)" and ?vs = "take j (drop (p2 + k) m2)"
  have sp: "take n (drop p1 m1) = ?xs @ ?us" "take n (drop p2 m2) = ?ys @ ?vs"
    unfolding n(1) by (rule take_add_drop)+
  have len: "length ?xs = length ?ys" using assms n by simp
  have t: "memcmp8 m1 (p1 + k) m2 (p2 + k) j = Some (byte_cmp ?us ?vs)"
    by (rule memcmp8_effect) (use assms n in simp_all)
  have "cmp_words TYPE(64) m1 p1 m2 p2 n
      = Some (if ?xs = ?ys then Inr (p1 + k, p2 + k, j) else Inl (byte_cmp ?xs ?ys))"
    using cmp_words_effect [OF _ assms, where 'a = 64] n(2) by (simp add: k_def [symmetric] Let_def)
  then show ?thesis
    using t byte_cmp_append [OF len, of ?us ?vs] unfolding sp by (simp add: memcmp_def)
qed

lemma cmp_units_effect:
  assumes "byte_sized TYPE('a::len)" "p1 + n \<le> length m1" "p2 + n \<le> length m2"
  shows "cmp_units TYPE('a) m1 p1 m2 p2 n =
    (let k = n - n mod sizeof TYPE('a)
     in Some (byte_cmp (take k (drop p1 m1)) (take k (drop p2 m2))))"
  using cmp_words_effect [OF assms] by (simp add: cmp_units_def Let_def)

subsection \<open>memmem.c\<close>

text \<open>The scan over \<open>k\<close> candidate positions from \<open>ph\<close> on; \<open>pn\<close> and \<open>nl\<close> are the needle
  without its first byte \<open>c\<close>.\<close>

fun memmem_scan ::
    "u8 list \<Rightarrow> nat \<Rightarrow> u8 list \<Rightarrow> nat \<Rightarrow> nat \<Rightarrow> u8 \<Rightarrow> nat \<Rightarrow> nat option option" where
  "memmem_scan m1 ph m2 pn nl c 0 = Some None"
| "memmem_scan m1 ph m2 pn nl c (Suc k) =
     do {
       x \<leftarrow> buf_get m1 ph;
       hit \<leftarrow> (if x = c then do { r \<leftarrow> memcmp m1 (ph + 1) m2 pn nl; Some (r = 0) } else Some False);
       if hit then Some (Some ph) else memmem_scan m1 (Suc ph) m2 pn nl c k
     }"

text \<open>\<open>pend\<close> is computed after \<open>needle_len\<close> was decremented, and the loop includes it.\<close>

definition memmem :: "u8 list \<Rightarrow> nat \<Rightarrow> nat \<Rightarrow> u8 list \<Rightarrow> nat \<Rightarrow> nat \<Rightarrow> nat option option" where
  "memmem m1 haystack haystack_len m2 needle needle_len =
     (if haystack_len < needle_len \<or> needle_len = 0 then Some None
      else do {
        let nl = needle_len - 1;
        c \<leftarrow> buf_get m2 needle;
        let pend = haystack + haystack_len - nl;
        memmem_scan m1 haystack m2 (needle + 1) nl c (Suc pend - haystack)
      })"

fun memrmem_scan ::
    "u8 list \<Rightarrow> nat \<Rightarrow> u8 list \<Rightarrow> nat \<Rightarrow> nat \<Rightarrow> u8 \<Rightarrow> nat \<Rightarrow> nat option option" where
  "memrmem_scan m1 pend m2 pn nl c 0 = Some None"
| "memrmem_scan m1 pend m2 pn nl c (Suc k) =
     do {
       x \<leftarrow> buf_get m1 (pend + k);
       hit \<leftarrow> (if x = c then do { r \<leftarrow> memcmp m1 (pend + k + 1) m2 pn nl; Some (r = 0) } else Some False);
       if hit then Some (Some (pend + k)) else memrmem_scan m1 pend m2 pn nl c k
     }"

definition memrmem :: "u8 list \<Rightarrow> nat \<Rightarrow> nat \<Rightarrow> u8 list \<Rightarrow> nat \<Rightarrow> nat \<Rightarrow> nat option option" where
  "memrmem m1 haystack haystack_len m2 needle needle_len =
     (if haystack_len < needle_len \<or> needle_len = 0 then Some None
      else do {
        let nl = needle_len - 1;
        c \<leftarrow> buf_get m2 needle;
        memrmem_scan m1 haystack m2 (needle + 1) nl c (haystack_len - nl)
      })"

text \<open>The needle stands at \<open>p\<close>.\<close>

definition occurs :: "u8 list \<Rightarrow> nat \<Rightarrow> u8 list \<Rightarrow> bool" where
  "occurs m1 p ns \<longleftrightarrow> take (length ns) (drop p m1) = ns"

lemma occurs_Cons:
  assumes "p + length (c # ns) \<le> length m1"
  shows "occurs m1 p (c # ns) \<longleftrightarrow> m1 ! p = c \<and> take (length ns) (drop (p + 1) m1) = ns"
proof -
  have "p < length m1" using assms by simp
  then show ?thesis by (simp add: occurs_def take_drop_Cons)
qed

lemma candidate:
  assumes "ph + Suc nl \<le> length m1" "pn + nl \<le> length m2"
  shows "do { x \<leftarrow> buf_get m1 ph;
      if x = c then do { r \<leftarrow> memcmp m1 (ph + 1) m2 pn nl; Some (r = 0) } else Some False }
    = Some (occurs m1 ph (c # take nl (drop pn m2)))"
proof -
  have "memcmp m1 (ph + 1) m2 pn nl
      = Some (byte_cmp (take nl (drop (ph + 1) m1)) (take nl (drop pn m2)))"
    by (rule memcmp_effect) (use assms in simp_all)
  moreover have "ph + length (c # take nl (drop pn m2)) \<le> length m1" using assms by simp
  ultimately show ?thesis
    using assms by (simp add: buf_get_def occurs_Cons byte_cmp_zero_iff)
qed

lemma memmem_scan_step:
  "memmem_scan m1 ph m2 pn nl c (Suc k) =
     do {
       hit \<leftarrow> do { x \<leftarrow> buf_get m1 ph;
         if x = c then do { r \<leftarrow> memcmp m1 (ph + 1) m2 pn nl; Some (r = 0) } else Some False };
       if hit then Some (Some ph) else memmem_scan m1 (Suc ph) m2 pn nl c k
     }"
  by (cases "buf_get m1 ph") simp_all

lemma memrmem_scan_step:
  "memrmem_scan m1 pend m2 pn nl c (Suc k) =
     do {
       hit \<leftarrow> do { x \<leftarrow> buf_get m1 (pend + k);
         if x = c then do { r \<leftarrow> memcmp m1 (pend + k + 1) m2 pn nl; Some (r = 0) } else Some False };
       if hit then Some (Some (pend + k)) else memrmem_scan m1 pend m2 pn nl c k
     }"
  by (cases "buf_get m1 (pend + k)") simp_all

declare memmem_scan.simps(2) [simp del] memrmem_scan.simps(2) [simp del]

text \<open>The scan up to its first hit reads only the candidates before it.\<close>

lemma memmem_scan_hit:
  assumes "pn + nl \<le> length m2" "j < k" "ph + j + Suc nl \<le> length m1"
    and "occurs m1 (ph + j) (c # take nl (drop pn m2))"
    and "\<And>i. i < j \<Longrightarrow> \<not> occurs m1 (ph + i) (c # take nl (drop pn m2))"
  shows "memmem_scan m1 ph m2 pn nl c k = Some (Some (ph + j))"
  using assms(2-)
proof (induction j arbitrary: ph k)
  case 0
  then obtain k' where k: "k = Suc k'" by (cases k) auto
  show ?case unfolding k memmem_scan_step
    using candidate [OF _ assms(1), of ph m1 c] 0 by simp
next
  case (Suc j)
  then obtain k' where k: "k = Suc k'" by (cases k) auto
  have "memmem_scan m1 ph m2 pn nl c k = memmem_scan m1 (Suc ph) m2 pn nl c k'"
    unfolding k memmem_scan_step
    using candidate [OF _ assms(1), of ph m1 c] Suc.prems(2) Suc.prems(4) [of 0] by simp
  also have "\<dots> = Some (Some (Suc ph + j))"
  proof (rule Suc.IH)
    show "\<not> occurs m1 (Suc ph + i) (c # take nl (drop pn m2))" if "i < j" for i
      using Suc.prems(4) [of "Suc i"] that by simp
  qed (use Suc.prems k in simp_all)
  finally show ?case by simp
qed

lemma memmem_scan_miss:
  assumes "pn + nl \<le> length m2" "ph + k + nl \<le> length m1"
    and "\<And>i. i < k \<Longrightarrow> \<not> occurs m1 (ph + i) (c # take nl (drop pn m2))"
  shows "memmem_scan m1 ph m2 pn nl c k = Some None"
  using assms(2-)
proof (induction k arbitrary: ph)
  case (Suc k)
  have "memmem_scan m1 ph m2 pn nl c (Suc k) = memmem_scan m1 (Suc ph) m2 pn nl c k"
    unfolding memmem_scan_step
    using candidate [OF _ assms(1), of ph m1 c] Suc.prems(1) Suc.prems(2) [of 0] by simp
  also have "\<dots> = Some None"
  proof (rule Suc.IH)
    show "\<not> occurs m1 (Suc ph + i) (c # take nl (drop pn m2))" if "i < k" for i
      using Suc.prems(2) [of "Suc i"] that by simp
  qed (use Suc.prems in simp)
  finally show ?case .
qed simp

lemma memrmem_scan_effect:
  assumes "pn + nl \<le> length m2" "pend + k + nl \<le> length m1"
  shows "memrmem_scan m1 pend m2 pn nl c k
    = Some (map_option (\<lambda>i. pend + i)
        (List.find (\<lambda>i. occurs m1 (pend + i) (c # take nl (drop pn m2))) (rev [0..<k])))"
  using assms(2)
proof (induction k)
  case (Suc k)
  show ?case
    unfolding memrmem_scan_step
    using candidate [OF _ assms(1), of "pend + k" m1 c] Suc by simp
qed simp

lemma needle_split:
  assumes "needle + needle_len \<le> length m2" "0 < needle_len"
  shows "take needle_len (drop needle m2)
    = m2 ! needle # take (needle_len - 1) (drop (needle + 1) m2)"
proof -
  obtain n where n: "needle_len = Suc n" using assms(2) by (cases needle_len) auto
  have "needle < length m2" using assms by simp
  then show ?thesis unfolding n by (simp add: take_drop_Cons)
qed

lemma memmem_hit:
  assumes "h + hl \<le> length m1" "q + nl \<le> length m2" "0 < nl" "j + nl \<le> hl"
    and "occurs m1 (h + j) (take nl (drop q m2))"
    and "\<forall>i < j. \<not> occurs m1 (h + i) (take nl (drop q m2))"
  shows "memmem m1 h hl m2 q nl = Some (Some (h + j))"
proof -
  note ns = needle_split [OF assms(2,3)]
  have "memmem_scan m1 h m2 (q + 1) (nl - 1) (m2 ! q) (Suc (h + hl - (nl - 1)) - h)
      = Some (Some (h + j))"
    by (rule memmem_scan_hit) (use assms in \<open>auto simp: ns\<close>)
  then show ?thesis using assms by (simp add: memmem_def buf_get_def Let_def)
qed

lemma memmem_miss:
  assumes "h + hl + 1 \<le> length m1" "q + nl \<le> length m2" "0 < nl" "nl \<le> hl"
    and "\<forall>i < hl - nl + 2. \<not> occurs m1 (h + i) (take nl (drop q m2))"
  shows "memmem m1 h hl m2 q nl = Some None"
proof -
  note ns = needle_split [OF assms(2,3)]
  have "Suc (h + hl - (nl - 1)) - h = hl - nl + 2" using assms(3,4) by simp
  moreover have "memmem_scan m1 h m2 (q + 1) (nl - 1) (m2 ! q) (hl - nl + 2) = Some None"
    by (rule memmem_scan_miss) (use assms in \<open>auto simp: ns\<close>)
  ultimately show ?thesis using assms by (simp add: memmem_def buf_get_def Let_def)
qed

end
