(* ===== verification/Mem_Str.thy ===== *)
theory Mem_Str
  imports Mem_Copy Mem_Cmp Allocator
begin

section \<open>The string routines of src/mm-utils\<close>

text \<open>
  strlen.c, strcmp.c, strdup.c, strlower.c, strupper.c, strstr.c and strtrim.c over the byte
  memory. \<open>cstring m p s\<close>: at \<open>p\<close> stand the bytes \<open>s\<close>, none of them zero, and a zero byte.
  The character classes are those of the C locale.
\<close>

definition cstring :: "u8 list \<Rightarrow> nat \<Rightarrow> u8 list \<Rightarrow> bool" where
  "cstring m p s \<longleftrightarrow> p + length s < length m \<and> take (length s) (drop p m) = s
     \<and> m ! (p + length s) = 0 \<and> 0 \<notin> set s"

lemma cstring_nth: "cstring m p s \<Longrightarrow> i < length s \<Longrightarrow> m ! (p + i) = s ! i \<and> s ! i \<noteq> 0"
proof -
  assume cs: "cstring m p s" and i: "i < length s"
  then have s: "s = take (length s) (drop p m)" and z: "0 \<notin> set s" by (simp_all add: cstring_def)
  have "take (length s) (drop p m) ! i = m ! (p + i)"
    by (rule trans [OF nth_take [OF i]]) (use cs in \<open>simp add: cstring_def\<close>)
  then have "s ! i = m ! (p + i)" unfolding s [symmetric] .
  moreover have "s ! i \<in> set s" using i by simp
  ultimately show ?thesis using z by auto
qed

lemma cstring_Cons: "cstring m p (c # s) \<Longrightarrow> p < length m \<and> m ! p = c \<and> c \<noteq> 0 \<and> cstring m (Suc p) s"
  by (auto simp: cstring_def take_drop_Cons)

lemma cstring_Nil: "cstring m p [] \<Longrightarrow> p < length m \<and> m ! p = 0"
  by (simp add: cstring_def)

subsection \<open>strlen.c\<close>

function strlen_from :: "u8 list \<Rightarrow> nat \<Rightarrow> nat \<Rightarrow> nat option" where
  "strlen_from m p len =
     (if p < length m
      then (if m ! p \<noteq> 0 then strlen_from m (Suc p) (len + 1) else Some len)
      else None)"
  by pat_completeness auto
termination by (relation "measure (\<lambda>(m, p, _). length m - p)") auto

declare strlen_from.simps [simp del]

definition strlen8 :: "u8 list \<Rightarrow> nat \<Rightarrow> nat option" where
  "strlen8 m str = strlen_from m str 0"

text \<open>
  The word-wise variants step byte by byte to a multiple of the word size; \<open>base\<close> is the address
  of the memory. The result is \<open>Inl\<close> of the length when the zero byte comes first.
\<close>

function strlen_align :: "nat \<Rightarrow> nat \<Rightarrow> u8 list \<Rightarrow> nat \<Rightarrow> nat \<Rightarrow> (nat + nat \<times> nat) option" where
  "strlen_align k base m p len =
     (if (base + p) mod k \<noteq> 0
      then (if p < length m
            then (if m ! p = 0 then Some (Inl len) else strlen_align k base m (Suc p) (len + 1))
            else None)
      else Some (Inr (p, len)))"
  by pat_completeness auto
termination by (relation "measure (\<lambda>(_, _, m, p, _). length m - p)") auto

declare strlen_align.simps [simp del]

text \<open>The tests that find the zero byte in a word: all bytes but the last are tried.\<close>

fun zero_pos :: "'a::len word \<Rightarrow> nat \<Rightarrow> nat \<Rightarrow> nat" where
  "zero_pos w i 0 = i"
| "zero_pos w i (Suc n) = (if w AND push_bit (8 * i) 0xff = 0 then i else zero_pos w (Suc i) n)"

function strlen_words :: "'a::len word \<Rightarrow> 'a word \<Rightarrow> u8 list \<Rightarrow> nat \<Rightarrow> nat \<Rightarrow> nat option" where
  "strlen_words lo hi m p len =
     (case load m p of
        None \<Rightarrow> None
      | Some w \<Rightarrow>
          if has_zero lo hi w then Some (len + zero_pos w 0 (sizeof TYPE('a) - 1))
          else strlen_words lo hi m (p + sizeof TYPE('a)) (len + sizeof TYPE('a)))"
  by pat_completeness auto
termination
proof (relation "measure (\<lambda>(_, _, m, p, _). length m - p)", simp, clarsimp)
  fix m p and w :: "'b::len word"
  assume "load m p = Some w"
  then have "p + sizeof TYPE('b) \<le> length m" by (auto simp: load_def buf_read_def split: if_splits)
  then show "length m - (p + sizeof TYPE('b)) < length m - p"
    using sizeof_pos [where 'a = 'b] by linarith
qed

declare strlen_words.simps [simp del]

definition strlen16 :: "nat \<Rightarrow> u8 list \<Rightarrow> nat \<Rightarrow> nat option" where
  "strlen16 base m str =
     do {
       r \<leftarrow> strlen_align 2 base m str 0;
       (case r of
          Inl len \<Rightarrow> Some len
        | Inr (p, len) \<Rightarrow> strlen_words (0x0101 :: u16) 0x8080 m p len)
     }"

definition strlen32 :: "nat \<Rightarrow> u8 list \<Rightarrow> nat \<Rightarrow> nat option" where
  "strlen32 base m str =
     do {
       r \<leftarrow> strlen_align 4 base m str 0;
       (case r of
          Inl len \<Rightarrow> Some len
        | Inr (p, len) \<Rightarrow> strlen_words (0x01010101 :: u32) 0x80808080 m p len)
     }"

definition strlen64 :: "nat \<Rightarrow> u8 list \<Rightarrow> nat \<Rightarrow> nat option" where
  "strlen64 base m str =
     do {
       r \<leftarrow> strlen_align 8 base m str 0;
       (case r of
          Inl len \<Rightarrow> Some len
        | Inr (p, len) \<Rightarrow> strlen_words (0x0101010101010101 :: u64) 0x8080808080808080 m p len)
     }"

definition strlen :: "u8 list \<Rightarrow> nat \<Rightarrow> nat option" where
  "strlen m str = strlen8 m str"

lemma strlen_from_cstring: "cstring m p s \<Longrightarrow> strlen_from m p len = Some (len + length s)"
proof (induction s arbitrary: p len)
  case Nil
  then show ?case by (auto simp: strlen_from.simps [of m p] dest: cstring_Nil)
next
  case (Cons c s)
  then show ?case using cstring_Cons [OF Cons.prems] by (simp add: strlen_from.simps [of m p])
qed

lemma strlen_cstring: "cstring m p s \<Longrightarrow> strlen m p = Some (length s)"
  by (simp add: strlen_def strlen8_def strlen_from_cstring)

lemma bit_le_val: "bit (le_val bs) n \<longleftrightarrow> n div 8 < length bs \<and> bit (bs ! (n div 8)) (n mod 8)"
proof (induction bs arbitrary: n)
  case (Cons b bs)
  note ub = uint_u8_bounds [of b]
  show ?case
  proof (cases "n < 8")
    case True
    then have "bit (le_val (b # bs)) n = bit (take_bit 8 (uint b + 256 * le_val bs)) n"
      by (simp add: bit_take_bit_iff)
    also have "\<dots> = bit b n" using ub True by (simp add: byte_join bit_uint_iff)
    finally show ?thesis using True by simp
  next
    case False
    then have "bit (le_val (b # bs)) n = bit (drop_bit 8 (uint b + 256 * le_val bs)) (n - 8)"
      by (simp add: bit_drop_bit_eq)
    also have "\<dots> = bit (le_val bs) (n - 8)" using ub by (simp add: byte_join)
    finally show ?thesis using False Cons.IH [of "n - 8"] by (simp add: le_div_geq le_mod_geq)
  qed
qed simp

lemma byte_of_word:
  assumes "byte_sized TYPE('a::len)" "length bs = sizeof TYPE('a)" "i < length bs"
  shows "(of_bytes bs :: 'a word) AND push_bit (8 * i) 0xff = 0 \<longleftrightarrow> bs ! i = 0"
proof -
  have b: "bit (of_bytes bs :: 'a word) n \<longleftrightarrow> n div 8 < length bs \<and> bit (bs ! (n div 8)) (n mod 8)" for n
    using uint_of_bytes [OF assms(1,2)] by (metis bit_le_val bit_uint_iff assms(1,2) bit_imp_le_length
        byte_sized_def div_less_iff_less_mult less_mult_imp_div_less mult.commute zero_less_numeral)
  have m: "bit (push_bit (8 * i) 0xff :: 'a word) n \<longleftrightarrow> n < LENGTH('a) \<and> 8 * i \<le> n \<and> n < 8 * i + 8" for n
  proof -
    have ff: "(0xff :: 'a word) = Bit_Operations.mask 8" by (simp add: mask_eq_exp_minus_1)
    show ?thesis unfolding ff by (auto simp: bit_push_bit_iff bit_mask_iff)
  qed
  have L: "LENGTH('a) = 8 * length bs" using assms by (simp add: byte_sized_def)
  show ?thesis
  proof
    assume "bs ! i = 0"
    moreover have "n div 8 = i" if "8 * i \<le> n" "n < 8 * i + 8" for n
      using that by (intro div_nat_eqI) simp_all
    ultimately show "(of_bytes bs :: 'a word) AND push_bit (8 * i) 0xff = 0"
      by (intro bit_word_eqI) (auto simp: bit_and_iff b m)
  next
    assume z: "(of_bytes bs :: 'a word) AND push_bit (8 * i) 0xff = 0"
    show "bs ! i = 0"
    proof (rule bit_word_eqI)
      fix r assume r: "r < LENGTH(8)"
      have "\<not> bit ((of_bytes bs :: 'a word) AND push_bit (8 * i) 0xff) (8 * i + r)" using z by simp
      then show "bit (bs ! i) r = bit (0 :: u8) r"
        using r assms(3) L by (simp add: bit_and_iff b m)
    qed
  qed
qed

lemma zero_pos_takeWhile:
  assumes "byte_sized TYPE('a::len)" "length bs = sizeof TYPE('a)" "0 \<in> set (drop i bs)"
    and "i + n + 1 = length bs"
  shows "zero_pos (of_bytes bs :: 'a word) i n = i + length (takeWhile (\<lambda>b. b \<noteq> 0) (drop i bs))"
  using assms(3,4)
proof (induction n arbitrary: i)
  case 0
  then have "drop i bs = [bs ! i]"
    by (metis Suc_eq_plus1 add.right_neutral cancel_comm_monoid_add_class.diff_cancel drop_all
        Cons_nth_drop_Suc le_refl lessI)
  with 0 show ?case by simp
next
  case (Suc n)
  then have i: "i < length bs" by simp
  then have d: "drop i bs = bs ! i # drop (Suc i) bs" by (simp add: Cons_nth_drop_Suc)
  show ?case
  proof (cases "bs ! i = 0")
    case True
    then show ?thesis using byte_of_word [OF assms(1,2) i] d by simp
  next
    case False
    then have "0 \<in> set (drop (Suc i) bs)" using Suc.prems(1) d by simp
    then show ?thesis using Suc False byte_of_word [OF assms(1,2) i] d by simp
  qed
qed

lemma strlen_words_cstring:
  assumes "byte_sized TYPE('a::len)"
    and "lo = (word_of_int (ones (sizeof TYPE('a))) :: 'a word)"
    and "hi = (word_of_int (128 * ones (sizeof TYPE('a))) :: 'a word)"
    and "cstring m p s" "(length m - p) mod sizeof TYPE('a) = 0"
  shows "strlen_words lo hi m p len = Some (len + length s)"
  using assms(4,5)
proof (induction "length s" arbitrary: p s len rule: less_induct)
  case less
  let ?k = "sizeof TYPE('a)"
  have k: "0 < ?k" by simp
  have p: "p + length s < length m" using less.prems(1) by (simp add: cstring_def)
  obtain q where q: "length m - p = q * ?k" using less.prems(2) by (metis mod_0_imp_dvd dvd_div_mult_self)
  have "q \<noteq> 0" using q p by (intro notI) simp
  then have "?k \<le> q * ?k" by simp
  then have fit: "p + ?k \<le> length m" using q p by linarith
  let ?bs = "take ?k (drop p m)"
  have len: "length ?bs = ?k" using fit by simp
  have ld: "(load m p :: 'a word option) = Some (of_bytes ?bs)" using fit by (rule load_Some)
  have hz: "has_zero lo hi (of_bytes ?bs) \<longleftrightarrow> 0 \<in> set ?bs"
    by (rule has_zero_iff [OF assms(1) len assms(2,3)])
  show ?case
  proof (cases "length s < ?k")
    case True
    have "?bs = s @ 0 # take (?k - length s - 1) (drop (p + length s + 1) m)"
    proof -
      have "?bs = take (length s) (drop p m) @ take (Suc (?k - length s - 1)) (drop (p + length s) m)"
        using take_add_drop [of "length s" "Suc (?k - length s - 1)" p m] True by simp
      then show ?thesis
        using less.prems(1) p unfolding cstring_def by (simp add: take_drop_Cons)
    qed
    moreover have "takeWhile (\<lambda>b. b \<noteq> 0) (s @ 0 # us) = s" for us
      using less.prems(1) unfolding cstring_def by (metis (mono_tags, lifting) takeWhile_append2 takeWhile.simps(2)
          append_Nil2)
    ultimately have z: "0 \<in> set ?bs" "takeWhile (\<lambda>b. b \<noteq> 0) ?bs = s" by auto
    have "zero_pos (of_bytes ?bs :: 'a word) 0 (?k - 1) = length s"
      using zero_pos_takeWhile [OF assms(1) len, of 0 "?k - 1"] z len k by simp
    then show ?thesis using ld hz z(1) by (simp add: strlen_words.simps [of lo hi m p])
  next
    case False
    then have kb: "?k \<le> length s" by simp
    have "?bs = take ?k s"
      using less.prems(1) kb unfolding cstring_def by (metis min.absorb1 take_take)
    then have "0 \<notin> set ?bs" using less.prems(1) unfolding cstring_def by (metis in_set_takeD)
    then have "strlen_words lo hi m p len = strlen_words lo hi m (p + ?k) (len + ?k)"
      using ld hz by (simp add: strlen_words.simps [of lo hi m p])
    also have "\<dots> = Some (len + ?k + length (drop ?k s))"
    proof (rule less.hyps)
      show "length (drop ?k s) < length s" using kb k unfolding length_drop by linarith
      have "take (length s - ?k) (drop (p + ?k) m) = drop ?k (take (length s) (drop p m))"
        by (simp add: drop_take add.commute)
      then show "cstring m (p + ?k) (drop ?k s)"
        using less.prems(1) kb unfolding cstring_def by (auto dest: in_set_dropD)
      have "length m - (p + ?k) = q * ?k - ?k" unfolding q [symmetric] by simp
      also have "\<dots> = (q - 1) * ?k" by (simp add: diff_mult_distrib)
      finally show "(length m - (p + ?k)) mod ?k = 0" by simp
    qed
    finally show ?thesis using kb by simp
  qed
qed

lemma strlen_align_cstring:
  assumes "cstring m p s" "0 < k"
  shows "(\<exists>j \<le> length s. strlen_align k base m p len = Some (Inr (p + j, len + j))
      \<and> (base + p + j) mod k = 0 \<and> cstring m (p + j) (drop j s))
    \<or> strlen_align k base m p len = Some (Inl (len + length s))"
  using assms(1)
proof (induction s arbitrary: p len)
  case Nil
  then show ?case using cstring_Nil [OF Nil] by (auto simp: strlen_align.simps [of k base m p])
next
  case (Cons c s)
  note c = cstring_Cons [OF Cons.prems]
  show ?case
  proof (cases "(base + p) mod k = 0")
    case True
    then show ?thesis using Cons.prems
      by (intro disjI1 exI [of _ 0]) (simp add: strlen_align.simps [of k base m p])
  next
    case False
    then have step: "strlen_align k base m p len = strlen_align k base m (Suc p) (len + 1)"
      using c by (simp add: strlen_align.simps [of k base m p])
    have "cstring m (Suc p) s" using c by blast
    from Cons.IH [OF this, of "len + 1"] show ?thesis
    proof (elim disjE exE conjE)
      fix j
      assume "j \<le> length s"
        "strlen_align k base m (Suc p) (len + 1) = Some (Inr (Suc p + j, len + 1 + j))"
        "(base + Suc p + j) mod k = 0" "cstring m (Suc p + j) (drop j s)"
      then show ?thesis unfolding step by (intro disjI1 exI [of _ "Suc j"]) simp
    next
      assume "strlen_align k base m (Suc p) (len + 1) = Some (Inl (len + 1 + length s))"
      then show ?thesis unfolding step by simp
    qed
  qed
qed

text \<open>With the memory ending at a multiple of the word size, the word-wise lengths are right.\<close>

lemma strlen64_cstring:
  assumes "cstring m p s" "(base + length m) mod 8 = 0"
  shows "strlen64 base m p = Some (length s)"
proof -
  have aligned: "(length m - (p + j)) mod 8 = 0" if "(base + p + j) mod 8 = 0" "p + j \<le> length m" for j
  proof -
    have "length m - (p + j) = (base + length m) - (base + p + j)" using that(2) by simp
    moreover have "8 dvd (base + length m) - (base + p + j)"
      using assms(2) that(1) by (intro dvd_diff_nat) (simp_all add: mod_eq_0_iff_dvd)
    ultimately show ?thesis by (simp only: mod_eq_0_iff_dvd)
  qed
  from strlen_align_cstring [OF assms(1), of 8 base 0] show ?thesis
  proof
    assume "\<exists>j \<le> length s. strlen_align 8 base m p 0 = Some (Inr (p + j, 0 + j))
      \<and> (base + p + j) mod 8 = 0 \<and> cstring m (p + j) (drop j s)"
    then obtain j where j: "j \<le> length s" "strlen_align 8 base m p 0 = Some (Inr (p + j, j))"
      "(base + p + j) mod 8 = 0" "cstring m (p + j) (drop j s)" by auto
    have "p + j \<le> length m" using assms(1) j(1) by (simp add: cstring_def)
    then have "strlen_words (0x0101010101010101 :: u64) 0x8080808080808080 m (p + j) j
        = Some (j + length (drop j s))"
      using aligned [OF j(3)]
      by (intro strlen_words_cstring [OF _ ones_simps(5) [symmetric] ones_simps(6) [symmetric] j(4)]) simp_all
    then show ?thesis using j by (simp add: strlen64_def)
  qed (simp_all add: strlen64_def)
qed

end
