(* ===== verification/Mem_Text.thy ===== *)
theory Mem_Text
  imports Mem_Str
begin

section \<open>Comparing, copying, folding, searching and trimming strings\<close>

text \<open>
  strcmp.c, strdup.c, strlower.c, strupper.c, strstr.c and strtrim.c of src/mm-utils.
\<close>

subsection \<open>Character classes of the C locale\<close>

definition isupper_c :: "u8 \<Rightarrow> bool" where "isupper_c c \<longleftrightarrow> 65 \<le> c \<and> c \<le> 90"
definition islower_c :: "u8 \<Rightarrow> bool" where "islower_c c \<longleftrightarrow> 97 \<le> c \<and> c \<le> 122"
definition isalpha_c :: "u8 \<Rightarrow> bool" where "isalpha_c c \<longleftrightarrow> isupper_c c \<or> islower_c c"
definition isspace_c :: "u8 \<Rightarrow> bool" where "isspace_c c \<longleftrightarrow> c = 32 \<or> 9 \<le> c \<and> c \<le> 13"

definition tolower_c :: "u8 \<Rightarrow> u8" where
  "tolower_c c = (if \<not> isalpha_c c \<or> islower_c c then c else c - 65 + 97)"

definition toupper_c :: "u8 \<Rightarrow> u8" where
  "toupper_c c = (if \<not> isalpha_c c \<or> isupper_c c then c else c - 97 + 65)"

lemma case_zero_iff [simp]: "tolower_c c = 0 \<longleftrightarrow> c = 0" "toupper_c c = 0 \<longleftrightarrow> c = 0"
  by (auto simp: tolower_c_def toupper_c_def isalpha_c_def isupper_c_def islower_c_def
      word_le_nat_alt unat_sub_if_size; unat_arith)+

lemma case_zero [simp]: "tolower_c 0 = 0" "toupper_c 0 = 0" "0 = tolower_c c \<longleftrightarrow> c = 0"
  using case_zero_iff [of 0] case_zero_iff(1) [of c] by auto

lemma isspace_zero [simp]: "\<not> isspace_c 0"
  by (simp add: isspace_c_def)

subsection \<open>strcmp.c\<close>

definition strncmp :: "u8 list \<Rightarrow> nat \<Rightarrow> u8 list \<Rightarrow> nat \<Rightarrow> nat \<Rightarrow> int option" where
  "strncmp m1 s1 m2 s2 n =
     do {
       l1 \<leftarrow> strlen m1 s1;
       let n = (if l1 < n then l1 else n);
       l2 \<leftarrow> strlen m2 s2;
       let n = (if l2 < n then l2 else n);
       memcmp m1 s1 m2 s2 n
     }"

definition strcmp :: "u8 list \<Rightarrow> nat \<Rightarrow> u8 list \<Rightarrow> nat \<Rightarrow> int option" where
  "strcmp m1 s1 m2 s2 =
     do {
       l1 \<leftarrow> strlen m1 s1;
       l2 \<leftarrow> strlen m2 s2;
       memcmp m1 s1 m2 s2 (if l1 < l2 then l1 else l2)
     }"

fun strncasecmp :: "u8 list \<Rightarrow> nat \<Rightarrow> u8 list \<Rightarrow> nat \<Rightarrow> nat \<Rightarrow> int option" where
  "strncasecmp m1 s1 m2 s2 0 = Some 0"
| "strncasecmp m1 s1 m2 s2 (Suc n) =
     do {
       x1 \<leftarrow> buf_get m1 s1;
       x2 \<leftarrow> buf_get m2 s2;
       let c1 = tolower_c x1;
       let c2 = tolower_c x2;
       if c1 \<noteq> c2 then Some (uint c1 - uint c2)
       else if c1 = 0 then Some 0
       else strncasecmp m1 (Suc s1) m2 (Suc s2) n
     }"

function strcasecmp :: "u8 list \<Rightarrow> nat \<Rightarrow> u8 list \<Rightarrow> nat \<Rightarrow> int option" where
  "strcasecmp m1 s1 m2 s2 =
     (if s1 < length m1 \<and> s2 < length m2
      then (let c1 = tolower_c (m1 ! s1); c2 = tolower_c (m2 ! s2)
            in if c1 \<noteq> c2 then Some (uint c1 - uint c2)
               else if c1 = 0 then Some 0
               else strcasecmp m1 (Suc s1) m2 (Suc s2))
      else None)"
  by pat_completeness auto
termination by (relation "measure (\<lambda>(m1, s1, _). length m1 - s1)") auto

declare strcasecmp.simps [simp del]

lemma strcmp_min:
  assumes "cstring m1 p1 s1" "cstring m2 p2 s2"
  shows "strcmp m1 p1 m2 p2 =
    (let n = min (length s1) (length s2) in Some (byte_cmp (take n s1) (take n s2)))"
proof -
  let ?n = "min (length s1) (length s2)"
  have r: "take ?n (drop p1 m1) = take ?n s1" "take ?n (drop p2 m2) = take ?n s2"
    using assms unfolding cstring_def by (metis min.cobounded1 min_absorb2 take_take min.commute)+
  have "p1 + ?n \<le> length m1" "p2 + ?n \<le> length m2" using assms by (auto simp: cstring_def)
  from memcmp_effect [OF this] have "memcmp m1 p1 m2 p2 ?n = Some (byte_cmp (take ?n s1) (take ?n s2))"
    unfolding r .
  moreover have "(if length s1 < length s2 then length s1 else length s2) = ?n" by simp
  ultimately show ?thesis
    unfolding strcmp_def strlen_cstring [OF assms(1)] strlen_cstring [OF assms(2)] bind.bind_lunit
    by (simp only: Let_def)
qed

lemma strcasecmp_eq:
  assumes "cstring m1 p1 s1" "cstring m2 p2 s2"
  shows "\<exists>r. strcasecmp m1 p1 m2 p2 = Some r \<and> (r = 0 \<longleftrightarrow> map tolower_c s1 = map tolower_c s2)"
  using assms
proof (induction s1 arbitrary: p1 p2 s2)
  case Nil
  note n = cstring_Nil [OF Nil.prems(1)]
  show ?case
  proof (cases s2)
    case Nil
    with n cstring_Nil [of m2 p2] \<open>cstring m2 p2 s2\<close> show ?thesis
      by (simp add: strcasecmp.simps [of m1 p1])
  next
    case (Cons c s)
    with n cstring_Cons [of m2 p2 c s] \<open>cstring m2 p2 s2\<close> show ?thesis
      by (auto simp: strcasecmp.simps [of m1 p1] Let_def uint_0_iff dest: unsigned_word_eqI)
  qed
next
  case (Cons c s)
  note c = cstring_Cons [OF Cons.prems(1)]
  show ?case
  proof (cases s2)
    case Nil
    with c cstring_Nil [of m2 p2] Cons.prems(2) show ?thesis
      by (auto simp: strcasecmp.simps [of m1 p1] Let_def uint_0_iff dest: unsigned_word_eqI)
  next
    case (Cons d t)
    then have d: "p2 < length m2" "m2 ! p2 = d" "d \<noteq> 0" "cstring m2 (Suc p2) t"
      using cstring_Cons [of m2 p2 d t] Cons.prems(2) by simp_all
    then show ?thesis
      using c Cons Cons.IH [of "Suc p1" "Suc p2" t]
      by (auto simp: strcasecmp.simps [of m1 p1] Let_def uint_0_iff dest: unsigned_word_eqI)
  qed
qed

subsection \<open>strdup.c\<close>

text \<open>
  The block that \<open>malloc\<close> or the given allocator returns is appended to the memory; its
  content does not matter. \<open>Some None\<close> is NULL.
\<close>

definition dup_block :: "u8 list \<Rightarrow> nat \<Rightarrow> nat \<Rightarrow> alk \<Rightarrow> ((nat \<times> u8 list) option \<times> alk) option" where
  "dup_block m str n a =
     (case mmalloc n a of
        (ok, a') \<Rightarrow>
          if \<not> ok then Some (None, a')
          else do {
            let p = length m;
            m1 \<leftarrow> memcpy (m @ replicate n 0) p str n;
            m2 \<leftarrow> buf_set m1 (p + n) 0;
            Some (Some (p, m2), a')
          })"

definition strdup :: "u8 list \<Rightarrow> nat \<Rightarrow> alk \<Rightarrow> ((nat \<times> u8 list) option \<times> alk) option" where
  "strdup m str a = do { n \<leftarrow> strlen m str; dup_block m str n a }"

definition strndup :: "u8 list \<Rightarrow> nat \<Rightarrow> nat \<Rightarrow> alk \<Rightarrow> ((nat \<times> u8 list) option \<times> alk) option" where
  "strndup m str n a = dup_block m str n a"

definition strcdup :: "u8 list \<Rightarrow> nat \<Rightarrow> alk \<Rightarrow> ((nat \<times> u8 list) option \<times> alk) option" where
  "strcdup m str a = do { n \<leftarrow> strlen m str; dup_block m str n a }"

definition strncdup :: "u8 list \<Rightarrow> nat \<Rightarrow> nat \<Rightarrow> alk \<Rightarrow> ((nat \<times> u8 list) option \<times> alk) option" where
  "strncdup m str n a = dup_block m str n a"

lemma dup_block_overflows:
  assumes "mmalloc n a = (True, a')" "str + n \<le> length m"
  shows "dup_block m str n a = None"
proof -
  have "fwd_ok (m @ replicate n 0) (length m) str n" using assms(2) by (simp add: fwd_ok_def)
  from memcpy_forward_effect [OF this] obtain m1 where
    m1: "memcpy (m @ replicate n 0) (length m) str n = Some m1"
    "m1 = splice (m @ replicate n 0) (length m) (take n (drop str (m @ replicate n 0)))"
    by (simp add: memcpy_def)
  have "length m1 = length m + n" unfolding m1(2) using assms(2) by simp
  then show ?thesis using assms(1) m1(1) by (simp add: dup_block_def Let_def buf_set_def)
qed

subsection \<open>strlower.c and strupper.c\<close>

function map_str :: "(u8 \<Rightarrow> u8) \<Rightarrow> u8 list \<Rightarrow> nat \<Rightarrow> u8 list option" where
  "map_str f m p =
     (if p < length m
      then (if m ! p \<noteq> 0 then map_str f (m[p := f (m ! p)]) (Suc p) else Some m)
      else None)"
  by pat_completeness auto
termination by (relation "measure (\<lambda>(_, m, p). length m - p)") auto

declare map_str.simps [simp del]

fun map_strn :: "(u8 \<Rightarrow> u8) \<Rightarrow> u8 list \<Rightarrow> nat \<Rightarrow> nat \<Rightarrow> u8 list option" where
  "map_strn f m p 0 = Some m"
| "map_strn f m p (Suc n) =
     do { c \<leftarrow> buf_get m p; m' \<leftarrow> buf_set m p (f c); map_strn f m' (Suc p) n }"

definition strlower :: "u8 list \<Rightarrow> nat \<Rightarrow> u8 list option" where
  "strlower m str = map_str tolower_c m str"

definition strnlower :: "u8 list \<Rightarrow> nat \<Rightarrow> nat \<Rightarrow> u8 list option" where
  "strnlower m str n = map_strn tolower_c m str n"

definition strupper :: "u8 list \<Rightarrow> nat \<Rightarrow> u8 list option" where
  "strupper m str = map_str toupper_c m str"

definition strnupper :: "u8 list \<Rightarrow> nat \<Rightarrow> nat \<Rightarrow> u8 list option" where
  "strnupper m str n = map_strn toupper_c m str n"

lemma cstring_update: "cstring m (Suc p) s \<Longrightarrow> cstring (m[p := x]) (Suc p) s"
  by (simp add: cstring_def)

lemma map_str_cstring:
  assumes "\<And>c. f c = 0 \<longleftrightarrow> c = 0" "cstring m p s"
  shows "map_str f m p = Some (splice m p (map f s))"
  using assms(2)
proof (induction s arbitrary: m p)
  case Nil
  then show ?case using cstring_Nil [OF Nil] by (simp add: map_str.simps [of f m p])
next
  case (Cons c s)
  note c = cstring_Cons [OF Cons.prems]
  have fit: "p + length [f c] + length (map f s) \<le> length m" using Cons.prems by (simp add: cstring_def)
  have "map_str f m p = map_str f (m[p := f c]) (Suc p)"
    using c by (simp add: map_str.simps [of f m p])
  also have "\<dots> = Some (splice (m[p := f c]) (Suc p) (map f s))"
    using Cons.IH [OF cstring_update] c by blast
  also have "m[p := f c] = splice m p [f c]" using c by (simp add: list_update_splice)
  also have "splice (splice m p [f c]) (Suc p) (map f s) = splice m p (map f (c # s))"
    using splice_splice_adjacent [OF fit] by simp
  finally show ?case .
qed

subsection \<open>strstr.c\<close>

definition strstr :: "u8 list \<Rightarrow> nat \<Rightarrow> u8 list \<Rightarrow> nat \<Rightarrow> nat option option" where
  "strstr m1 haystack m2 needle =
     do {
       hl \<leftarrow> strlen m1 haystack;
       nl \<leftarrow> strlen m2 needle;
       memmem m1 haystack hl m2 needle nl
     }"

definition strrstr :: "u8 list \<Rightarrow> nat \<Rightarrow> u8 list \<Rightarrow> nat \<Rightarrow> nat option option" where
  "strrstr m1 haystack m2 needle =
     do {
       hl \<leftarrow> strlen m1 haystack;
       nl \<leftarrow> strlen m2 needle;
       memrmem m1 haystack hl m2 needle nl
     }"

definition strpos :: "u8 list \<Rightarrow> nat \<Rightarrow> u8 list \<Rightarrow> nat \<Rightarrow> int option" where
  "strpos m1 haystack m2 needle =
     do {
       p \<leftarrow> strstr m1 haystack m2 needle;
       Some (case p of Some p \<Rightarrow> int p - int haystack | None \<Rightarrow> - 1)
     }"

definition strrpos :: "u8 list \<Rightarrow> nat \<Rightarrow> u8 list \<Rightarrow> nat \<Rightarrow> int option" where
  "strrpos m1 haystack m2 needle =
     do {
       p \<leftarrow> strrstr m1 haystack m2 needle;
       Some (case p of Some p \<Rightarrow> int p - int haystack | None \<Rightarrow> - 1)
     }"

subsection \<open>strtrim.c\<close>

fun ltrim_start :: "u8 list \<Rightarrow> nat \<Rightarrow> nat \<Rightarrow> nat \<Rightarrow> nat option" where
  "ltrim_start m str start 0 = do { _ \<leftarrow> buf_get m (str + start); Some start }"
| "ltrim_start m str start (Suc k) =
     do {
       c \<leftarrow> buf_get m (str + start);
       if isspace_c c then ltrim_start m str (Suc start) k else Some start
     }"

text \<open>The character is looked at before the bound, as in the loop condition.\<close>

definition strnltrim :: "u8 list \<Rightarrow> nat \<Rightarrow> nat \<Rightarrow> (nat \<times> u8 list) option" where
  "strnltrim m str n =
     do {
       start \<leftarrow> ltrim_start m str 0 n;
       if 0 < start
       then do {
         m1 \<leftarrow> memmove m str (str + start) (n - start);
         m2 \<leftarrow> buf_set m1 (str + (n - start)) 0;
         Some (n, m2)
       }
       else Some (n, m)
     }"

fun rtrim_end :: "u8 list \<Rightarrow> nat \<Rightarrow> nat \<Rightarrow> nat option" where
  "rtrim_end m str 0 = Some 0"
| "rtrim_end m str (Suc n) =
     do {
       c \<leftarrow> buf_get m (str + n);
       if isspace_c c then rtrim_end m str n else Some (Suc n)
     }"

definition strnrtrim :: "u8 list \<Rightarrow> nat \<Rightarrow> nat \<Rightarrow> (nat \<times> u8 list) option" where
  "strnrtrim m str n =
     do {
       n \<leftarrow> rtrim_end m str n;
       m1 \<leftarrow> buf_set m (str + n) 0;
       Some (n, m1)
     }"

definition strntrim :: "u8 list \<Rightarrow> nat \<Rightarrow> nat \<Rightarrow> (nat \<times> u8 list) option" where
  "strntrim m str n =
     do {
       (n, m) \<leftarrow> strnrtrim m str n;
       (n, m) \<leftarrow> strnltrim m str n;
       Some (n, m)
     }"

definition strltrim :: "u8 list \<Rightarrow> nat \<Rightarrow> u8 list option" where
  "strltrim m str = do { n \<leftarrow> strlen m str; (_, m) \<leftarrow> strnltrim m str n; Some m }"

definition strrtrim :: "u8 list \<Rightarrow> nat \<Rightarrow> u8 list option" where
  "strrtrim m str = do { n \<leftarrow> strlen m str; (_, m) \<leftarrow> strnrtrim m str n; Some m }"

definition strtrim :: "u8 list \<Rightarrow> nat \<Rightarrow> u8 list option" where
  "strtrim m str = do { n \<leftarrow> strlen m str; (_, m) \<leftarrow> strntrim m str n; Some m }"

lemma ltrim_start_cstring:
  "cstring m (p + start) s \<Longrightarrow>
    ltrim_start m p start (length s) = Some (start + length (takeWhile isspace_c s))"
proof (induction s arbitrary: start)
  case Nil
  then show ?case using cstring_Nil [OF Nil] by (simp add: buf_get_def)
next
  case (Cons c s)
  then show ?case using cstring_Cons [OF Cons.prems] by (simp add: buf_get_def)
qed

lemma strnltrim_cstring:
  assumes cs: "cstring m p s"
  shows "\<exists>m'. strnltrim m p (length s) = Some (length s, m') \<and> cstring m' p (dropWhile isspace_c s)
    \<and> length m' = length m"
proof -
  let ?k = "length (takeWhile isspace_c s)" and ?t = "dropWhile isspace_c s"
  have len: "?k + length ?t = length s" by (metis length_append takeWhile_dropWhile_id)
  have st: "ltrim_start m p 0 (length s) = Some ?k" using ltrim_start_cstring [of m p 0 s] cs by simp
  show ?thesis
  proof (cases "?k = 0")
    case True
    then have "?t = s" by (metis dropWhile_eq_drop drop0)
    with True st cs show ?thesis by (simp add: strnltrim_def)
  next
    case False
    have fit: "p + length s < length m" using cs by (simp add: cstring_def)
    have ok: "fwd_ok m p (p + ?k) (length ?t)" using fit len by (simp add: fwd_ok_def)
    have rd: "take (length ?t) (drop (p + ?k) m) = ?t"
    proof -
      have "take (length s) (drop p m) = s" using cs by (simp add: cstring_def)
      then have "drop ?k (take (?k + length ?t) (drop p m)) = drop ?k s" using len by simp
      then show ?thesis by (simp add: drop_take add.commute dropWhile_eq_drop [symmetric])
    qed
    let ?m1 = "splice m p ?t"
    have mv: "memmove m p (p + ?k) (length s - ?k) = Some ?m1"
    proof -
      have "length s - ?k = length ?t" using len by simp
      moreover have "p < p + ?k" using False by simp
      ultimately show ?thesis using memcpy_forward_effect [OF ok] rd by (simp only: memmove_def if_True)
    qed
    have l1: "length ?m1 = length m" using fit len by simp
    have at: "p + length s - ?k = p + length ?t" using len by linarith
    have "strnltrim m p (length s) = Some (length s, ?m1[p + length ?t := 0])"
      using False st mv fit len l1 by (simp add: strnltrim_def buf_set_def at)
    moreover have "cstring (?m1[p + length ?t := 0]) p ?t"
    proof -
      have "take (length ?t) (drop p ?m1) = ?t" using fit len by (intro read_splice) simp
      moreover have "0 \<notin> set ?t" using cs by (auto simp: cstring_def dest: set_dropWhileD)
      ultimately show ?thesis using fit len l1 by (simp add: cstring_def drop_update_swap)
    qed
    ultimately show ?thesis using l1 by simp
  qed
qed

lemma rtrim_end_spec:
  assumes "p + length s \<le> length m" "take (length s) (drop p m) = s"
  shows "rtrim_end m p (length s) = Some (length s - length (takeWhile isspace_c (rev s)))"
  using assms
proof (induction s rule: rev_induct)
  case Nil
  then show ?case by simp
next
  case (snoc c s)
  have p: "p + length s < length m" using snoc.prems(1) by simp
  have "take (length s) (drop p m) @ [m ! (p + length s)] = s @ [c]"
    using snoc.prems(2) take_drop_nth [OF p] by simp
  then have "take (length s) (drop p m) = s" "m ! (p + length s) = c" by simp_all
  with snoc.IH p show ?case by (simp add: buf_get_def)
qed

lemma strnrtrim_cstring:
  assumes cs: "cstring m p s"
  shows "\<exists>m'. strnrtrim m p (length s)
      = Some (length s - length (takeWhile isspace_c (rev s)), m')
    \<and> cstring m' p (rev (dropWhile isspace_c (rev s))) \<and> length m' = length m"
proof -
  let ?t = "rev (dropWhile isspace_c (rev s))"
  let ?n = "length s - length (takeWhile isspace_c (rev s))"
  have "length (takeWhile isspace_c (rev s)) + length ?t = length s"
    by (metis length_append length_rev takeWhile_dropWhile_id)
  then have n: "?n = length ?t" by simp
  have t: "?t = take ?n s" by (simp add: dropWhile_eq_drop rev_drop rev_take)
  have fit: "p + length s < length m" and s: "take (length s) (drop p m) = s" and z: "0 \<notin> set s"
    using cs by (simp_all add: cstring_def)
  have r: "rtrim_end m p (length s) = Some ?n" using rtrim_end_spec [OF _ s] fit by simp
  have "take ?n (drop p m) = ?t"
    unfolding t by (metis s diff_le_self min.absorb1 take_take)
  moreover have "0 \<notin> set ?t" using z unfolding t by (metis in_set_takeD)
  ultimately have "cstring (m[p + ?n := 0]) p ?t"
    using fit unfolding cstring_def n [symmetric] by (simp add: drop_update_swap)
  moreover have "strnrtrim m p (length s) = Some (?n, m[p + ?n := 0])"
    using r fit by (simp add: strnrtrim_def buf_set_def)
  ultimately show ?thesis by simp
qed

end
