(* ===== verification/Mem_Properties.thy ===== *)
theory Mem_Properties
  imports Mem_Text
begin

section \<open>What the mm-utils routines promise\<close>

text \<open>
  The properties of src/mm-utils: the word-wise routines do what the byte-wise references do,
  and where a routine leaves its buffers.
\<close>

lemmas mem_eval = buf_get_def buf_set_def buf_read_def buf_write_def splice_def
  load_def store_def load_at_def store_at_def of_bytes_def to_bytes_def

text \<open>C5. \<open>memchr\<close>, which takes eight bytes at a time, returns the first position of the byte
  within the \<open>n\<close> bytes, or NULL when there is none, and reads nothing outside them.\<close>

theorem memchr_correct:
  assumes "s + n \<le> length m"
  shows "memchr m s c n = Some (map_option (\<lambda>i. s + i) (first_pos c (take n (drop s m))))"
  by (rule memchr_first [OF assms])

theorem memchr_correct_witness:
  "memchr [1, 2, 3, 4, 5, 6, 7, 8, 9, 10] 1 7 9 = Some (Some 6)"
  by (subst memchr_correct) (simp_all add: first_pos_def take_Cons')

text \<open>The backward search starts a byte and a word before the end of the area, so on eight
  bytes at the start of an object \<open>memrchr\<close> reads before the object.\<close>

theorem memrchr_underruns: "memrchr m 0 c 8 = None"
  by (simp add: memrchr_def memrchr_word_start)

text \<open>C6. A forward copy moves exactly the \<open>n\<close> bytes of the source to the destination, also when
  the areas overlap with the destination first; \<open>memmove\<close> to a lower address is such a copy.\<close>

theorem memmove_down_correct:
  assumes "dest < src" "src + n \<le> length m"
  shows "memmove m dest src n = Some (splice m dest (take n (drop src m)))
    \<and> memcpy m dest src n = Some (splice m dest (take n (drop src m)))"
  using assms by (simp add: memmove_def memcpy_def memcpy_forward_effect fwd_ok_def)

theorem memmove_down_correct_witness:
  "memmove [1, 2, 3, 4, 5, 6, 7, 8, 9, 10, 11, 12] 0 2 10 =
     Some [3, 4, 5, 6, 7, 8, 9, 10, 11, 12, 11, 12]"
  using memmove_down_correct [of 0 2 10 "[1, 2, 3, 4, 5, 6, 7, 8, 9, 10, 11, 12]"]
  by (simp add: splice_def)

text \<open>The backward copy starts one past the last byte: when the source or the destination
  ends where its object ends, \<open>memmove\<close> to a higher or the same address accesses memory past
  the end.\<close>

theorem memmove_up_overruns:
  assumes "src \<le> dest" "0 < n" "dest + n = length m"
  shows "memmove m dest src n = None \<and> membcpy m dest src n = None"
  using assms by (simp add: memmove_def membcpy_def memcpy_backward_overruns)

theorem memmove_up_overruns_witness: "memmove [1, 2, 3, 4] 1 0 3 = None"
  using memmove_up_overruns [of 0 1 3 "[1, 2, 3, 4]"] by simp

text \<open>\<open>memset\<close> with a byte value sets exactly the \<open>n\<close> bytes to it, whatever the length.\<close>

theorem memset_correct:
  fixes c :: u8
  assumes "d + n \<le> length m"
  shows "memset m d (ucast c) n = Some (splice m d (replicate n c))"
  by (rule memset_effect [OF assms])

theorem memset_correct_witness:
  "memset [1, 2, 3, 4, 5, 6, 7, 8, 9, 10, 11] 1 (ucast (7 :: u8)) 9 =
     Some [1, 7, 7, 7, 7, 7, 7, 7, 7, 7, 11]"
  by (subst memset_correct) (simp_all add: splice_def list_eval)

text \<open>C7. \<open>memcmp\<close>, which takes eight bytes at a time, returns the difference of the first bytes
  that differ: it is zero exactly for equal areas, and swapping the areas negates it.\<close>

theorem memcmp_correct:
  assumes "p1 + n \<le> length m1" "p2 + n \<le> length m2"
  shows "\<exists>r. memcmp m1 p1 m2 p2 n = Some r \<and> memcmp m2 p2 m1 p1 n = Some (- r)
    \<and> r = byte_cmp (take n (drop p1 m1)) (take n (drop p2 m2))
    \<and> (r = 0 \<longleftrightarrow> take n (drop p1 m1) = take n (drop p2 m2))"
  using memcmp_effect [OF assms] memcmp_effect [OF assms(2,1)] assms
    byte_cmp_flip [of "take n (drop p2 m2)" "take n (drop p1 m1)"]
    byte_cmp_zero_iff [of "take n (drop p1 m1)" "take n (drop p2 m2)"]
  by simp

theorem memcmp_correct_witness:
  "memcmp [1, 2, 3, 4, 5, 6, 7, 8, 9] 0 [1, 2, 3, 4, 5, 6, 7, 8, 12] 0 9 = Some (- 3)"
  using memcmp_correct [of 0 9 "[1, 2, 3, 4, 5, 6, 7, 8, 9]" 0 "[1, 2, 3, 4, 5, 6, 7, 8, 12]"]
  by simp

text \<open>C8. When the needle stands somewhere in the haystack, \<open>memmem\<close> returns its first position and
  reads nothing outside the haystack.\<close>

theorem memmem_first:
  assumes "h + hl \<le> length m1" "q + nl \<le> length m2" "0 < nl" "j + nl \<le> hl"
    and "occurs m1 (h + j) (take nl (drop q m2))"
    and "\<forall>i < j. \<not> occurs m1 (h + i) (take nl (drop q m2))"
  shows "memmem m1 h hl m2 q nl = Some (Some (h + j))"
  by (rule memmem_hit [OF assms])

theorem memmem_first_witness:
  "memmem [9, 1, 2, 1, 2, 3, 9] 0 7 [1, 2, 3] 0 3 = Some (Some 3)"
proof -
  have "\<forall>i < 3. \<not> occurs [9, 1, 2, 1, 2, 3, 9] (0 + i) (take 3 (drop 0 [1, 2, 3]))"
    by (simp add: occurs_def numeral_3_eq_3 All_less_Suc)
  then show ?thesis
    using memmem_first [of 0 7 "[9, 1, 2, 1, 2, 3, 9]" 0 3 "[1, 2, 3]" 3] by (simp add: occurs_def)
qed

text \<open>\<open>strlen64\<close>, which looks at aligned words, returns the length of the string, provided the
  memory it may read ends at a multiple of the word size.\<close>

theorem strlen64_correct:
  assumes "cstring m p s" "(base + length m) mod 8 = 0"
  shows "strlen64 base m p = Some (length s) \<and> strlen8 m p = Some (length s)"
  using strlen64_cstring [OF assms] strlen_cstring [OF assms(1)] by (simp add: strlen_def)

theorem strlen64_correct_witness:
  "strlen64 5 [1, 2, 3, 4, 5, 6, 7, 8, 9, 0, 1] 0 = Some 9"
proof -
  have "cstring [1, 2, 3, 4, 5, 6, 7, 8, 9, 0, 1] 0 [1, 2, 3, 4, 5, 6, 7, 8, 9]"
    by (simp add: cstring_def)
  from strlen64_correct [OF this, of 5] show ?thesis by simp
qed

text \<open>\<open>strcmp\<close> compares as many bytes as the shorter string has: it calls a string equal to
  every extension of it, where the C library orders the shorter one first.\<close>

theorem strcmp_zero_iff_prefix:
  assumes "cstring m1 p1 s1" "cstring m2 p2 s2"
  shows "strcmp m1 p1 m2 p2 = Some 0 \<longleftrightarrow>
    (let n = min (length s1) (length s2) in take n s1 = take n s2)"
  using strcmp_min [OF assms]
    byte_cmp_zero_iff [of "take (min (length s1) (length s2)) s1" "take (min (length s1) (length s2)) s2"]
  by (simp add: Let_def)

theorem strcmp_zero_iff_prefix_witness: "strcmp [97, 98, 0] 0 [97, 98, 99, 0] 0 = Some 0"
proof -
  have "cstring [97, 98, 0] 0 [97, 98]" "cstring [97, 98, 99, 0] 0 [97, 98, 99]"
    by (simp_all add: cstring_def)
  from strcmp_zero_iff_prefix [OF this] show ?thesis by (simp add: Let_def)
qed

text \<open>\<open>strdup\<close> asks for a block of the length of the string and then writes the terminating zero
  behind it: whenever the allocation succeeds, it writes out of bounds.\<close>

theorem strdup_overflows:
  assumes "cstring m p s" "never_refuses a"
  shows "strdup m p a = None \<and> strcdup m p a = None"
proof -
  obtain ok a' where m: "mmalloc (length s) a = (ok, a')" by fastforce
  with mmalloc_never_refuses(1) [OF assms(2) m] have "mmalloc (length s) a = (True, a')" by simp
  moreover have "p + length s \<le> length m" using assms(1) by (simp add: cstring_def)
  ultimately show ?thesis
    using dup_block_overflows strlen_cstring [OF assms(1)] by (simp add: strdup_def strcdup_def)
qed

theorem strdup_overflows_witness: "strdup [97, 0] 0 alk_generous = None"
proof -
  have "cstring [97, 0] 0 [97]" by (simp add: cstring_def)
  from strdup_overflows [OF this, of alk_generous] show ?thesis by simp
qed

lemma occurs_in_cstring:
  assumes "cstring m h hs" "i + length ns \<le> length hs"
  shows "occurs m (h + i) ns \<longleftrightarrow> take (length ns) (drop i hs) = ns"
proof -
  have "take (length ns) (drop i hs) = take (length ns) (drop i (take (length hs) (drop h m)))"
    using assms(1) by (simp add: cstring_def)
  also have "\<dots> = take (length ns) (drop (h + i) m)" using assms(2) by (simp add: drop_take min_def add.commute)
  finally show ?thesis by (simp add: occurs_def)
qed

lemma find_upt:
  "List.find P [0..<n] = Some j \<longleftrightarrow> j < n \<and> P j \<and> (\<forall>i < j. \<not> P i)"
  by (auto simp: find_Some_iff)

text \<open>The scan looks one position too far, but finds nothing there: the terminator is not in the needle.\<close>

lemma no_occurs_at_end:
  assumes h: "cstring m1 h hs" and q: "cstring m2 q ns" and ns: "ns \<noteq> []"
    and i: "i + length ns = Suc (length hs)"
  shows "\<not> occurs m1 (h + i) ns"
proof
  assume "occurs m1 (h + i) ns"
  then have "take (length ns) (drop (h + i) m1) ! (length ns - 1) = ns ! (length ns - 1)"
    by (simp add: occurs_def)
  moreover have "take (length ns) (drop (h + i) m1) ! (length ns - 1) = m1 ! (h + length hs)"
  proof -
    have "h + i + (length ns - 1) = h + length hs" using i ns by (cases ns) auto
    moreover have "length ns - 1 < length ns" using ns by simp
    moreover have "h + i \<le> length m1" using i ns h by (cases ns) (auto simp: cstring_def)
    ultimately show ?thesis by simp
  qed
  moreover have "ns ! (length ns - 1) \<noteq> 0"
    using cstring_nth [OF q, of "length ns - 1"] ns by simp
  ultimately show False using h by (simp add: cstring_def)
qed

text \<open>\<open>strstr\<close> returns the first position at which the needle, not empty, stands in the
  haystack, and NULL when there is none: the byte past the haystack that \<open>memmem\<close> looks at is
  the terminating zero, which no needle byte equals.\<close>

theorem strstr_correct:
  assumes h: "cstring m1 h hs" and q: "cstring m2 q ns" and "ns \<noteq> []"
  shows "strstr m1 h m2 q =
    Some (map_option (\<lambda>i. h + i)
      (List.find (\<lambda>i. take (length ns) (drop i hs) = ns) [0..<Suc (length hs - length ns)]))"
    (is "_ = Some (map_option _ (List.find ?P ?is))")
proof (cases "List.find ?P ?is")
  case (Some j)
  then have j: "j \<le> length hs - length ns" "?P j" "\<forall>i < j. \<not> ?P i"
    unfolding find_upt by simp_all
  have "length ns \<le> length hs - j" using j(2) by (metis length_drop length_take min.cobounded2 min.commute)
  then have le: "j + length ns \<le> length hs" using assms(3) by (cases "length ns") auto
  have ns: "take (length ns) (drop q m2) = ns" using q by (simp add: cstring_def)
  have "memmem m1 h (length hs) m2 q (length ns) = Some (Some (h + j))"
  proof (rule memmem_hit)
    show "occurs m1 (h + j) (take (length ns) (drop q m2))"
      using j(2) le unfolding ns by (simp add: occurs_in_cstring [OF h])
    show "\<forall>i < j. \<not> occurs m1 (h + i) (take (length ns) (drop q m2))"
      using j(3) le unfolding ns by (simp add: occurs_in_cstring [OF h])
  qed (use h q le assms(3) in \<open>simp_all add: cstring_def\<close>)
  then show ?thesis using Some by (simp add: strstr_def strlen_cstring [OF h] strlen_cstring [OF q])
next
  case None
  then have none: "\<not> ?P i" if "i \<le> length hs - length ns" for i
    using None that by (auto simp: find_None_iff2')
  have ns: "take (length ns) (drop q m2) = ns" using q by (simp add: cstring_def)
  have "memmem m1 h (length hs) m2 q (length ns) = Some None"
  proof (cases "length ns \<le> length hs")
    case False
    then show ?thesis by (simp add: memmem_def)
  next
    case True
    have "\<not> occurs m1 (h + i) ns" if i: "i < length hs - length ns + 2" for i
    proof (cases "i + length ns \<le> length hs")
      case True
      then show ?thesis using none [of i] occurs_in_cstring [OF h True] by simp
    next
      case False
      then have i: "i + length ns = Suc (length hs)" using i True by simp
      show ?thesis by (rule no_occurs_at_end [OF h q assms(3) i])
    qed
    then show ?thesis
      using h q True assms(3) by (intro memmem_miss) (simp_all add: cstring_def ns)
  qed
  then show ?thesis using None by (simp add: strstr_def strlen_cstring [OF h] strlen_cstring [OF q])
qed

theorem strstr_correct_witness:
  "strstr [97, 98, 97, 98, 99, 0] 0 [97, 98, 99, 0] 0 = Some (Some 2)"
proof -
  have "cstring [97, 98, 97, 98, 99, 0] 0 [97, 98, 97, 98, 99]" "cstring [97, 98, 99, 0] 0 [97, 98, 99]"
    by (simp_all add: cstring_def)
  from strstr_correct [OF this] show ?thesis by (simp add: upt_rec)
qed

text \<open>\<open>strtrim\<close> leaves in place the string without its leading and trailing space.\<close>

theorem strtrim_correct:
  assumes "cstring m p s"
  shows "\<exists>m'. strtrim m p = Some m' \<and> length m' = length m
    \<and> cstring m' p (dropWhile isspace_c (rev (dropWhile isspace_c (rev s))))"
proof -
  let ?t = "rev (dropWhile isspace_c (rev s))"
  obtain m1 where m1: "strnrtrim m p (length s) = Some (length ?t, m1)" "cstring m1 p ?t"
    "length m1 = length m"
  proof -
    have "length s - length (takeWhile isspace_c (rev s)) = length ?t"
      by (simp add: dropWhile_eq_drop)
    with strnrtrim_cstring [OF assms] that show ?thesis by auto
  qed
  obtain m2 where "strnltrim m1 p (length ?t) = Some (length ?t, m2)"
    "cstring m2 p (dropWhile isspace_c ?t)" "length m2 = length m1"
    using strnltrim_cstring [OF m1(2)] by blast
  with m1 show ?thesis
    by (simp add: strtrim_def strntrim_def strlen_cstring [OF assms])
qed

theorem strtrim_correct_witness:
  "\<exists>m'. strtrim [32, 97, 32, 98, 32, 32, 0] 0 = Some m' \<and> cstring m' 0 [97, 32, 98]"
proof -
  have "cstring [32, 97, 32, 98, 32, 32, 0] 0 [32, 97, 32, 98, 32, 32]" by (simp add: cstring_def)
  from strtrim_correct [OF this] show ?thesis by (auto simp: isspace_c_def)
qed

end
