(* ===== verification/Sort_Utils.thy ===== *)
theory Sort_Utils
  imports Mem_Copy Mem_Cmp "HOL-Library.Multiset"
begin

section \<open>sort.c\<close>

text \<open>
  The heap sort of src/sort-utils/sort.c. The byte offset \<open>r\<close> of the code is the item index
  \<open>r div obj_size\<close> here (\<open>obj_size\<close> is not zero and \<open>nitems * obj_size\<close> does not wrap), so
  \<open>(r << 1) + obj_size\<close> is item \<open>2 * r + 1\<close>. \<open>sort\<close> and \<open>mmsort\<close> are the same loops over
  different accesses to the items: a comparison and an exchange, which may fault.
\<close>

subsection \<open>The loops\<close>

function sift_down ::
    "('s \<Rightarrow> nat \<Rightarrow> nat \<Rightarrow> int option) \<Rightarrow> (nat \<Rightarrow> nat \<Rightarrow> 's \<Rightarrow> 's option) \<Rightarrow> nat \<Rightarrow> nat \<Rightarrow> 's \<Rightarrow> 's option"
  where
  "sift_down cmp_at swp_at n r s =
     (if 2 * r + 1 < n
      then do {
        next_bigger \<leftarrow>
          (if 2 * r + 1 < n - 1 then do { d \<leftarrow> cmp_at s (2 * r + 1) (2 * r + 2); Some (d < 0) }
           else Some False);
        let c = (if next_bigger then 2 * r + 2 else 2 * r + 1);
        d \<leftarrow> cmp_at s r c;
        if 0 \<le> d then Some s
        else do { s' \<leftarrow> swp_at r c s; sift_down cmp_at swp_at n c s' }
      }
      else Some s)"
  by pat_completeness auto
termination by (relation "measure (\<lambda>(_, _, n, r, _). n - r)") (auto split: if_splits)

declare sift_down.simps [simp del]

fun heapify ::
    "('s \<Rightarrow> nat \<Rightarrow> nat \<Rightarrow> int option) \<Rightarrow> (nat \<Rightarrow> nat \<Rightarrow> 's \<Rightarrow> 's option) \<Rightarrow> nat \<Rightarrow> nat \<Rightarrow> 's \<Rightarrow> 's option"
  where
  "heapify cmp_at swp_at n 0 s = Some s"
| "heapify cmp_at swp_at n (Suc i) s =
     do { s' \<leftarrow> sift_down cmp_at swp_at n i s; heapify cmp_at swp_at n i s' }"

fun extract_all ::
    "('s \<Rightarrow> nat \<Rightarrow> nat \<Rightarrow> int option) \<Rightarrow> (nat \<Rightarrow> nat \<Rightarrow> 's \<Rightarrow> 's option) \<Rightarrow> nat \<Rightarrow> 's \<Rightarrow> 's option" where
  "extract_all cmp_at swp_at 0 s = Some s"
| "extract_all cmp_at swp_at (Suc i) s =
     do {
       s1 \<leftarrow> swp_at 0 (Suc i) s;
       s2 \<leftarrow> sift_down cmp_at swp_at (Suc i) 0 s1;
       extract_all cmp_at swp_at i s2
     }"

definition heap_sort ::
    "('s \<Rightarrow> nat \<Rightarrow> nat \<Rightarrow> int option) \<Rightarrow> (nat \<Rightarrow> nat \<Rightarrow> 's \<Rightarrow> 's option) \<Rightarrow> nat \<Rightarrow> 's \<Rightarrow> 's option" where
  "heap_sort cmp_at swp_at n s =
     do {
       s1 \<leftarrow> heapify cmp_at swp_at n (n div 2) s;
       extract_all cmp_at swp_at (n - 1) s1
     }"

text \<open>\<open>sort\<close>: an array of items, compared and exchanged by the client's callbacks.\<close>

definition item_cmp :: "('a \<Rightarrow> 'a \<Rightarrow> int) \<Rightarrow> 'a list \<Rightarrow> nat \<Rightarrow> nat \<Rightarrow> int option" where
  "item_cmp cmp_func xs i j =
     do { x \<leftarrow> buf_get xs i; y \<leftarrow> buf_get xs j; Some (cmp_func x y) }"

definition item_swp :: "nat \<Rightarrow> nat \<Rightarrow> 'a list \<Rightarrow> 'a list option" where
  "item_swp i j xs =
     do { x \<leftarrow> buf_get xs i; y \<leftarrow> buf_get xs j; ys \<leftarrow> buf_set xs i y; buf_set ys j x }"

definition sort_array :: "('a \<Rightarrow> 'a \<Rightarrow> int) \<Rightarrow> 'a list \<Rightarrow> nat \<Rightarrow> 'a list option" where
  "sort_array cmp_func base nitems = heap_sort (item_cmp cmp_func) item_swp nitems base"

text \<open>\<open>mmsort\<close>: items of \<open>obj_size\<close> bytes from \<open>base\<close> on, compared by \<open>memcmp\<close>, exchanged by
  \<open>__memswap\<close>, whose two loops are those of \<open>memswap\<close>.\<close>

definition sort_memswap :: "u8 list \<Rightarrow> nat \<Rightarrow> nat \<Rightarrow> nat \<Rightarrow> u8 list option" where
  "sort_memswap m a b n =
     do {
       (m, a, b, n) \<leftarrow> swap_words TYPE(64) m a b n;
       swap_bytes m a b n
     }"

lemma sort_memswap_eq: "sort_memswap = memswap"
  by (intro ext) (simp add: sort_memswap_def memswap_def)

definition mmsort :: "u8 list \<Rightarrow> nat \<Rightarrow> nat \<Rightarrow> nat \<Rightarrow> u8 list option" where
  "mmsort m base nitems obj_size =
     heap_sort
       (\<lambda>m i j. memcmp m (base + i * obj_size) m (base + j * obj_size) obj_size)
       (\<lambda>i j m. sort_memswap m (base + i * obj_size) (base + j * obj_size) obj_size)
       nitems m"

subsection \<open>Orders on items\<close>

text \<open>What a comparison callback promises on the items \<open>A\<close> it is called with.\<close>

locale item_order =
  fixes A :: "'a set" and cmp :: "'a \<Rightarrow> 'a \<Rightarrow> int"
  assumes cmp_flip: "x \<in> A \<Longrightarrow> y \<in> A \<Longrightarrow> cmp x y < 0 \<longleftrightarrow> 0 < cmp y x"
    and cmp_trans: "x \<in> A \<Longrightarrow> y \<in> A \<Longrightarrow> z \<in> A \<Longrightarrow> cmp x y \<le> 0 \<Longrightarrow> cmp y z \<le> 0 \<Longrightarrow> cmp x z \<le> 0"
begin

lemma cmp_self: "x \<in> A \<Longrightarrow> cmp x x \<le> 0"
  using cmp_flip [of x x] by linarith

lemma cmp_total: "x \<in> A \<Longrightarrow> y \<in> A \<Longrightarrow> \<not> cmp x y \<le> 0 \<Longrightarrow> cmp y x \<le> 0"
  using cmp_flip [of y x] by linarith

lemma cmp_ge: "x \<in> A \<Longrightarrow> y \<in> A \<Longrightarrow> 0 \<le> cmp x y \<longleftrightarrow> cmp y x \<le> 0"
  using cmp_flip [of x y] by linarith

end

text \<open>An array of items as the sorting loops see it.\<close>

locale item_array = item_order A cmp
  for A :: "'a set" and cmp :: "'a \<Rightarrow> 'a \<Rightarrow> int" +
  fixes ok :: "'s \<Rightarrow> bool" and items :: "'s \<Rightarrow> 'a list"
    and cmp_at :: "'s \<Rightarrow> nat \<Rightarrow> nat \<Rightarrow> int option" and swp_at :: "nat \<Rightarrow> nat \<Rightarrow> 's \<Rightarrow> 's option"
  assumes items_in: "ok s \<Longrightarrow> set (items s) \<subseteq> A"
    and cmp_at: "ok s \<Longrightarrow> i < length (items s) \<Longrightarrow> j < length (items s)
      \<Longrightarrow> cmp_at s i j = Some (cmp (items s ! i) (items s ! j))"
    and swp_at: "ok s \<Longrightarrow> i < length (items s) \<Longrightarrow> j < length (items s) \<Longrightarrow> i \<noteq> j
      \<Longrightarrow> \<exists>s'. swp_at i j s = Some s' \<and> ok s'
        \<and> items s' = (items s)[i := items s ! j, j := items s ! i]"

subsection \<open>Heaps\<close>

definition child :: "nat \<Rightarrow> nat \<Rightarrow> bool" where
  "child c i \<longleftrightarrow> c = 2 * i + 1 \<or> c = 2 * i + 2"

definition heap_from :: "('a \<Rightarrow> 'a \<Rightarrow> int) \<Rightarrow> nat \<Rightarrow> nat \<Rightarrow> 'a list \<Rightarrow> bool" where
  "heap_from cmp k n xs \<longleftrightarrow> (\<forall>i c. k \<le> i \<longrightarrow> child c i \<longrightarrow> c < n \<longrightarrow> cmp (xs ! c) (xs ! i) \<le> 0)"

text \<open>A heap but for the item at \<open>r\<close>, which may be too small for its place.\<close>

definition heap_but :: "('a \<Rightarrow> 'a \<Rightarrow> int) \<Rightarrow> nat \<Rightarrow> nat \<Rightarrow> nat \<Rightarrow> 'a list \<Rightarrow> bool" where
  "heap_but cmp r k n xs \<longleftrightarrow>
     (\<forall>i c. k \<le> i \<longrightarrow> i \<noteq> r \<longrightarrow> child c i \<longrightarrow> c < n \<longrightarrow> cmp (xs ! c) (xs ! i) \<le> 0)
     \<and> (\<forall>i c. k \<le> i \<longrightarrow> child r i \<longrightarrow> child c r \<longrightarrow> c < n \<longrightarrow> cmp (xs ! c) (xs ! i) \<le> 0)"

lemma child_parent: "child c i \<Longrightarrow> i = (c - 1) div 2 \<and> i < c"
  by (auto simp: child_def)

lemma child_inj: "child c i \<Longrightarrow> child c j \<Longrightarrow> i = j"
  using child_parent by blast

lemma mset_swap_take:
  assumes "i < n" "j < n" "n \<le> length xs"
  shows "mset (take n (xs[i := xs ! j, j := xs ! i])) = mset (take n xs)"
proof -
  let ?ys = "take n xs"
  have "take n (xs[i := xs ! j, j := xs ! i]) = ?ys[i := ?ys ! j, j := ?ys ! i]"
    using assms by (simp add: take_update_swap)
  moreover have "mset (?ys[i := ?ys ! j, j := ?ys ! i]) = mset ?ys"
    using mset_swap [of j ?ys i] assms by simp
  ultimately show ?thesis by simp
qed

context item_array begin

lemma heap_root:
  assumes "ok s" "heap_from cmp 0 n (items s)" "n \<le> length (items s)" "j < n"
  shows "cmp (items s ! j) (items s ! 0) \<le> 0"
  using assms(4)
proof (induction j rule: less_induct)
  case (less j)
  have A: "items s ! i \<in> A" if "i < n" for i
    using items_in [OF assms(1)] that assms(3) by (meson nth_mem order_less_le_trans subsetD)
  show ?case
  proof (cases "j = 0")
    case True
    then show ?thesis using cmp_self [OF A [of 0]] less.prems by simp
  next
    case False
    let ?i = "(j - 1) div 2"
    have i: "?i < j" "child j ?i" using False by (auto simp: child_def)
    then have "cmp (items s ! j) (items s ! ?i) \<le> 0"
      using assms(2) less.prems by (simp add: heap_from_def)
    moreover have "cmp (items s ! ?i) (items s ! 0) \<le> 0" using less.IH i less.prems by simp
    ultimately show ?thesis
      by (rule cmp_trans [rotated 3]) (use A i less.prems in auto)
  qed
qed

text \<open>One step of the sift: the item at \<open>r\<close> goes below its bigger child.\<close>

lemma heap_but_step:
  assumes A: "set xs \<subseteq> A" and n: "n \<le> length xs" and h: "heap_but cmp r k n xs" and kr: "k \<le> r"
    and c: "child c r" "c < n" and big: "\<And>d. child d r \<Longrightarrow> d < n \<Longrightarrow> cmp (xs ! d) (xs ! c) \<le> 0"
    and lt: "cmp (xs ! r) (xs ! c) < 0"
  shows "heap_but cmp c k n (xs[r := xs ! c, c := xs ! r])"
proof -
  let ?ys = "xs[r := xs ! c, c := xs ! r]"
  have rc: "r < c" using child_parent c(1) by blast
  have y: "?ys ! i = (if i = c then xs ! r else if i = r then xs ! c else xs ! i)" if "i < n" for i
    using that n c(2) rc by (simp add: nth_list_update)
  have inA: "xs ! i \<in> A" if "i < n" for i using A that n by (meson nth_mem order_less_le_trans subsetD)
  have r: "r < n" using rc c(2) by simp
  have up: "cmp (?ys ! d) (?ys ! i) \<le> 0" if d: "k \<le> i" "i \<noteq> c" "child d i" "d < n" for i d
  proof -
    have i: "i < n" using child_parent [OF d(3)] d(4) by simp
    consider "i = r" | "i \<noteq> r" "d = r" | "i \<noteq> r" "d \<noteq> r" by blast
    then show ?thesis
    proof cases
      case 1
      have "?ys ! i = xs ! c" using 1 rc y [OF i] by simp
      moreover have "?ys ! d = (if d = c then xs ! r else xs ! d)"
        using child_parent [OF d(3)] 1 y [OF d(4)] by simp
      ultimately show ?thesis using big [of d] d 1 lt by auto
    next
      case 2
      then have "?ys ! d = xs ! c" "?ys ! i = xs ! i" using rc d(2) y [OF d(4)] y [OF i] by simp_all
      moreover have "cmp (xs ! c) (xs ! i) \<le> 0" using h d 2 c by (simp add: heap_but_def)
      ultimately show ?thesis by simp
    next
      case 3
      moreover have "d \<noteq> c" using 3 child_inj c(1) d(3) by blast
      ultimately have "?ys ! d = xs ! d" "?ys ! i = xs ! i" using d(2) y [OF d(4)] y [OF i] by simp_all
      then show ?thesis using h d 3 by (simp add: heap_but_def)
    qed
  qed
  have low: "cmp (?ys ! d) (?ys ! i) \<le> 0" if d: "k \<le> i" "child c i" "child d c" "d < n" for i d
  proof -
    have "i = r" using child_inj d(2) c(1) by blast
    then have "?ys ! i = xs ! c" using rc y [OF r] by simp
    moreover have "?ys ! d = xs ! d" using child_parent [OF d(3)] rc y [OF d(4)] by simp
    moreover have "cmp (xs ! d) (xs ! c) \<le> 0" using h d rc kr by (simp add: heap_but_def)
    ultimately show ?thesis by simp
  qed
  from up low show ?thesis unfolding heap_but_def by blast
qed

lemma heap_but_done:
  assumes "heap_but cmp r k n xs" "\<And>d. child d r \<Longrightarrow> d < n \<Longrightarrow> cmp (xs ! d) (xs ! r) \<le> 0"
  shows "heap_from cmp k n xs"
  using assms unfolding heap_but_def heap_from_def by blast

text \<open>The sift returns, keeps the items beyond \<open>n\<close>, permutes those before and leaves a heap.\<close>

definition sifted :: "nat \<Rightarrow> nat \<Rightarrow> 's \<Rightarrow> 's \<Rightarrow> bool" where
  "sifted k n s s' \<longleftrightarrow> ok s' \<and> heap_from cmp k n (items s') \<and> length (items s') = length (items s)
     \<and> mset (take n (items s')) = mset (take n (items s)) \<and> drop n (items s') = drop n (items s)"

lemma sift_down_sifts:
  assumes "ok s" "n \<le> length (items s)" "heap_but cmp r k n (items s)" "k \<le> r" "r < n"
  shows "\<exists>s'. sift_down cmp_at swp_at n r s = Some s' \<and> sifted k n s s'"
  using assms
proof (induction "n - r" arbitrary: r s rule: less_induct)
  case less
  note prems = less.prems
  let ?xs = "items s"
  have A: "?xs ! i \<in> A" if "i < n" for i
    using items_in [OF prems(1)] that prems(2) by (meson nth_mem order_less_le_trans subsetD)
  show ?case
  proof (cases "2 * r + 1 < n")
    case False
    then have "heap_from cmp k n ?xs" using prems(3) by (auto intro!: heap_but_done simp: child_def)
    then show ?thesis using False prems(1) by (simp add: sift_down.simps [of _ _ n r s] sifted_def)
  next
    case True
    define nb where "nb = (2 * r + 1 < n - 1 \<and> cmp (?xs ! (2 * r + 1)) (?xs ! (2 * r + 2)) < 0)"
    define c where "c = (if nb then 2 * r + 2 else 2 * r + 1)"
    have c: "child c r" "c < n" "r < c" using True by (auto simp: c_def nb_def child_def)
    have nx: "(if 2 * r + 1 < n - 1 then do { d \<leftarrow> cmp_at s (2 * r + 1) (2 * r + 2); Some (d < 0) }
        else Some False) = Some nb"
      using cmp_at [OF prems(1), of "2 * r + 1" "2 * r + 2"] prems(2) True by (auto simp: nb_def)
    have cr: "cmp_at s r c = Some (cmp (?xs ! r) (?xs ! c))"
      using cmp_at [OF prems(1), of r c] prems(2,5) c by simp
    have big: "cmp (?xs ! d) (?xs ! c) \<le> 0" if d: "child d r" "d < n" for d
    proof (cases "d = c")
      case True
      then show ?thesis using cmp_self A d(2) by simp
    next
      case False
      then consider "d = 2 * r + 1" "nb" | "d = 2 * r + 2" "\<not> nb"
        using d(1) by (auto simp: c_def child_def split: if_splits)
      then show ?thesis
      proof cases
        case 1
        then show ?thesis by (simp add: c_def nb_def)
      next
        case 2
        then have "\<not> cmp (?xs ! c) (?xs ! d) < 0" using d(2) by (auto simp: c_def nb_def)
        then show ?thesis using cmp_ge [OF A [OF c(2)] A [OF d(2)]] by simp
      qed
    qed
    have step: "sift_down cmp_at swp_at n r s = (if 0 \<le> cmp (?xs ! r) (?xs ! c) then Some s
        else do { s' \<leftarrow> swp_at r c s; sift_down cmp_at swp_at n c s' })"
      using True nx cr by (simp add: sift_down.simps [of _ _ n r s] c_def Let_def)
    show ?thesis
    proof (cases "0 \<le> cmp (?xs ! r) (?xs ! c)")
      case ge: True
      have "heap_from cmp k n ?xs"
      proof (rule heap_but_done [OF prems(3)])
        fix d assume d: "child d r" "d < n"
        have "cmp (?xs ! c) (?xs ! r) \<le> 0" using ge cmp_ge [OF A [OF prems(5)] A [OF c(2)]] by simp
        with big [OF d] show "cmp (?xs ! d) (?xs ! r) \<le> 0"
          by (rule cmp_trans [rotated 3]) (use A d(2) c(2) prems(5) in auto)
      qed
      then show ?thesis using ge prems(1) step by (simp add: sifted_def)
    next
      case lt: False
      obtain s' where s': "swp_at r c s = Some s'" "ok s'" "items s' = ?xs[r := ?xs ! c, c := ?xs ! r]"
        using swp_at [OF prems(1), of r c] prems(2,5) c by auto
      have "heap_but cmp c k n (items s')"
        unfolding s'(3)
        by (rule heap_but_step [OF items_in [OF prems(1)] prems(2,3,4) c(1,2) big]) (use lt in auto)
      then obtain t where t: "sift_down cmp_at swp_at n c s' = Some t" "sifted k n s' t"
        using less.hyps [of c s'] s' c prems by (auto simp: diff_less_mono2)
      moreover have "mset (take n (items s')) = mset (take n ?xs)" "drop n (items s') = drop n ?xs"
        unfolding s'(3) using mset_swap_take [of r n c ?xs] prems(2,5) c(2) by simp_all
      ultimately have "sifted k n s t" using s'(3) by (simp add: sifted_def)
      then show ?thesis using step lt s'(1) t(1) by simp
    qed
  qed
qed

lemma heapify_heaps:
  assumes "ok s" "n \<le> length (items s)" "i \<le> n" "heap_from cmp i n (items s)"
  shows "\<exists>s'. heapify cmp_at swp_at n i s = Some s' \<and> sifted 0 n s s'"
  using assms
proof (induction i arbitrary: s)
  case 0
  then show ?case by (simp add: sifted_def)
next
  case (Suc i)
  have "heap_but cmp i i n (items s)"
    using Suc.prems(4) unfolding heap_but_def heap_from_def
    by (metis Suc_leI child_parent le_neq_implies_less not_less)
  then obtain t where t: "sift_down cmp_at swp_at n i s = Some t" "sifted i n s t"
    using sift_down_sifts [OF Suc.prems(1,2), of i i] Suc.prems(3) by auto
  then obtain u where "heapify cmp_at swp_at n i t = Some u" "sifted 0 n t u"
    using Suc.IH [of t] Suc.prems by (auto simp: sifted_def)
  then show ?case using t by (auto simp: sifted_def)
qed

text \<open>Extraction: the items beyond \<open>i\<close> are in order and not below those up to \<open>i\<close>.\<close>

definition tail_sorted :: "nat \<Rightarrow> 'a list \<Rightarrow> bool" where
  "tail_sorted n xs \<longleftrightarrow> sorted_wrt (\<lambda>x y. cmp x y \<le> 0) (drop n xs)
     \<and> (\<forall>x \<in> set (take n xs). \<forall>y \<in> set (drop n xs). cmp x y \<le> 0)"

lemma tail_sorted_step:
  assumes "tail_sorted (Suc n) xs" "n < length xs" "\<forall>x \<in> set (take n xs). cmp x (xs ! n) \<le> 0"
  shows "tail_sorted n xs"
proof -
  have "drop n xs = xs ! n # drop (Suc n) xs" using assms(2) by (simp add: Cons_nth_drop_Suc)
  moreover have "set (take (Suc n) xs) = insert (xs ! n) (set (take n xs))"
    using assms(2) by (simp add: take_Suc_conv_app_nth)
  ultimately show ?thesis using assms(1,3) by (auto simp: tail_sorted_def)
qed

lemma tail_sorted_same:
  assumes "tail_sorted n xs" "mset (take n ys) = mset (take n xs)" "drop n ys = drop n xs"
  shows "tail_sorted n ys"
  using assms mset_eq_setD [OF assms(2)] by (simp add: tail_sorted_def)

lemma extract_all_sorts:
  assumes "ok s" "i < length (items s)" "heap_from cmp 0 (Suc i) (items s)" "tail_sorted (Suc i) (items s)"
  shows "\<exists>s'. extract_all cmp_at swp_at i s = Some s' \<and> ok s' \<and> tail_sorted 0 (items s')
    \<and> mset (items s') = mset (items s)"
  using assms
proof (induction i arbitrary: s)
  case 0
  have "tail_sorted 0 (items s)"
    by (rule tail_sorted_step) (use 0 in auto)
  then show ?case using 0 by simp
next
  case (Suc i)
  let ?xs = "items s" and ?n = "Suc i"
  obtain t where t: "swp_at 0 ?n s = Some t" "ok t" "items t = ?xs[0 := ?xs ! ?n, ?n := ?xs ! 0]"
    using swp_at [OF Suc.prems(1), of 0 ?n] Suc.prems(2) by (cases ?xs) auto
  have len: "length (items t) = length ?xs" using t(3) by simp
  have below: "heap_but cmp 0 0 ?n (items t)"
    using Suc.prems(2,3) unfolding t(3) heap_but_def heap_from_def
    by (auto simp: child_def nth_list_update)
  then obtain u where u: "sift_down cmp_at swp_at ?n 0 t = Some u" "sifted 0 ?n t u"
    using sift_down_sifts [OF t(2), of ?n 0 0] len Suc.prems(2) by auto
  have tk: "mset (take (Suc ?n) (items t)) = mset (take (Suc ?n) ?xs)"
    using mset_swap_take [of 0 "Suc ?n" ?n ?xs] Suc.prems(2) unfolding t(3) by simp
  have "tail_sorted (Suc ?n) (items t)"
    by (rule tail_sorted_same [OF Suc.prems(4) tk]) (use t(3) in simp)
  moreover have "\<forall>x \<in> set (take ?n (items t)). cmp x (items t ! ?n) \<le> 0"
  proof
    fix x assume "x \<in> set (take ?n (items t))"
    then have "x \<in># mset (take (Suc ?n) ?xs)" using tk set_take_subset_set_take [of ?n "Suc ?n" "items t"]
      by (metis le_Suc_eq order_refl set_mset_mset subsetD)
    then obtain j where "j < Suc ?n" "x = ?xs ! j" using Suc.prems(2) by (auto simp: in_set_conv_nth)
    then show "cmp x (items t ! ?n) \<le> 0"
      using heap_root [OF Suc.prems(1,3)] Suc.prems(2) t(3) by simp
  qed
  ultimately have "tail_sorted ?n (items t)" using tail_sorted_step len Suc.prems(2) by metis
  then have ts: "tail_sorted ?n (items u)" using u(2) tail_sorted_same by (auto simp: sifted_def)
  have "mset (items u) = mset (items t)"
    using u(2) by (metis append_take_drop_id mset_append sifted_def)
  moreover have "mset (items t) = mset ?xs"
    using tk t(3) by (metis append_take_drop_id drop_update_cancel lessI mset_append zero_less_Suc)
  moreover have "heap_from cmp 0 ?n (items u)" "ok u" "i < length (items u)"
    using u(2) len Suc.prems(2) by (auto simp: sifted_def)
  ultimately show ?case using Suc.IH [of u] ts t(1) u(1) by auto
qed

theorem heap_sort_sorts:
  assumes "ok s" "length (items s) = n"
  shows "\<exists>s'. heap_sort cmp_at swp_at n s = Some s' \<and> ok s' \<and> mset (items s') = mset (items s)
    \<and> sorted_wrt (\<lambda>x y. cmp x y \<le> 0) (items s')"
proof -
  have "heap_from cmp (n div 2) n (items s)" by (auto simp: heap_from_def child_def)
  then obtain t where t: "heapify cmp_at swp_at n (n div 2) s = Some t" "sifted 0 n s t"
    using heapify_heaps [OF assms(1), of n "n div 2"] assms(2) by auto
  show ?thesis
  proof (cases n)
    case 0
    then show ?thesis using assms by (auto simp: heap_sort_def)
  next
    case (Suc i)
    have "tail_sorted n (items t)" using t(2) assms(2) by (simp add: tail_sorted_def sifted_def)
    then obtain u where "extract_all cmp_at swp_at i t = Some u" "ok u" "tail_sorted 0 (items u)"
        "mset (items u) = mset (items t)"
      using extract_all_sorts [of t i] t(2) Suc assms(2) by (auto simp: sifted_def)
    moreover have "mset (items t) = mset (items s)"
      using t(2) assms(2) by (metis order_refl sifted_def take_all)
    ultimately show ?thesis using t(1) Suc by (auto simp: heap_sort_def tail_sorted_def)
  qed
qed

end

subsection \<open>The two arrays\<close>

context item_order begin

lemma item_swp_swaps:
  assumes "i < length xs" "j < length xs"
  shows "item_swp i j xs = Some (xs[i := xs ! j, j := xs ! i])"
  using assms by (simp add: item_swp_def buf_simps)

end

sublocale item_order \<subseteq> arr: item_array A cmp "\<lambda>xs. set xs \<subseteq> A" "\<lambda>xs. xs" "item_cmp cmp" item_swp
proof unfold_locales
  fix s :: "'a list" and i j
  assume s: "set s \<subseteq> A" "i < length s" "j < length s"
  then show "item_cmp cmp s i j = Some (cmp (s ! i) (s ! j))" by (simp add: item_cmp_def buf_simps)
  assume "i \<noteq> j"
  have "set (s[i := s ! j, j := s ! i]) = set s" using mset_swap [of j s i] s mset_eq_setD by metis
  then show "\<exists>s'. item_swp i j s = Some s' \<and> set s' \<subseteq> A \<and> s' = s[i := s ! j, j := s ! i]"
    using item_swp_swaps s by simp
qed

context item_order begin

lemma sort_array_sorts:
  assumes "set base \<subseteq> A"
  shows "\<exists>ys. sort_array cmp base (length base) = Some ys \<and> mset ys = mset base
    \<and> sorted_wrt (\<lambda>x y. cmp x y \<le> 0) ys"
  using arr.heap_sort_sorts [OF assms refl] by (auto simp: sort_array_def)

end

text \<open>\<open>memcmp\<close> orders the byte strings of one length.\<close>

interpretation bytes: item_order "{bs. length bs = sz}" byte_cmp for sz
proof unfold_locales
  fix x y z :: "u8 list"
  assume x: "x \<in> {bs. length bs = sz}" and y: "y \<in> {bs. length bs = sz}"
  then have "byte_cmp x y = - byte_cmp y x" by (intro byte_cmp_flip) simp
  then show "byte_cmp x y < 0 \<longleftrightarrow> 0 < byte_cmp y x" by linarith
  assume "z \<in> {bs. length bs = sz}" "byte_cmp x y \<le> 0" "byte_cmp y z \<le> 0"
  with x y show "byte_cmp x z \<le> 0" by (intro byte_cmp_trans [of x y z]) auto
qed

text \<open>The items of a memory, and the memories a sort of them may leave behind.\<close>

definition chunks :: "nat \<Rightarrow> nat \<Rightarrow> nat \<Rightarrow> 'a list \<Rightarrow> 'a list list" where
  "chunks base n sz m = map (\<lambda>i. take sz (drop (base + i * sz) m)) [0..<n]"

definition in_place :: "'a list \<Rightarrow> nat \<Rightarrow> nat \<Rightarrow> nat \<Rightarrow> 'a list \<Rightarrow> bool" where
  "in_place m0 base n sz m \<longleftrightarrow> base + n * sz \<le> length m0 \<and> length m = length m0
     \<and> (\<forall>k < length m0. k < base \<or> base + n * sz \<le> k \<longrightarrow> m ! k = m0 ! k)"

lemma length_chunks [simp]: "length (chunks base n sz m) = n"
  by (simp add: chunks_def)

lemma nth_chunks: "i < n \<Longrightarrow> chunks base n sz m ! i = take sz (drop (base + i * sz) m)"
  by (simp add: chunks_def)

lemma item_end: "i < n \<Longrightarrow> i * sz + sz \<le> n * (sz :: nat)"
  using mult_le_mono1 [of "Suc i" n sz] by simp

lemma items_apart:
  assumes "in_place m0 base n sz m" "i < n" "j < n" "i \<noteq> j"
  shows "apart m (base + i * sz) (base + j * sz) sz"
  using assms(1) item_end [OF assms(2), of sz] item_end [OF assms(3), of sz]
    item_end [of i j sz] item_end [of j i sz] assms(4)
  by (auto simp: in_place_def apart_def neq_iff)

lemma chunk_exchanged:
  assumes "apart m p q sz" "r + sz \<le> length m" "r = p \<or> r + sz \<le> p \<or> p + sz \<le> r"
    and "r = q \<or> r + sz \<le> q \<or> q + sz \<le> r"
  shows "take sz (drop r (exchanged m p q sz)) =
    (if r = p then take sz (drop q m) else if r = q then take sz (drop p m) else take sz (drop r m))"
  using assms by (intro nth_equalityI) (auto simp: nth_exchanged apart_def)

lemma chunks_exchanged:
  assumes "in_place m0 base n sz m" "0 < sz" "i < n" "j < n" "i \<noteq> j"
  shows "chunks base n sz (exchanged m (base + i * sz) (base + j * sz) sz)
    = (chunks base n sz m)[i := chunks base n sz m ! j, j := chunks base n sz m ! i]"
proof (rule nth_equalityI)
  fix k assume "k < length (chunks base n sz (exchanged m (base + i * sz) (base + j * sz) sz))"
  then have k: "k < n" by simp
  have d: "base + k * sz = base + l * sz \<or> base + k * sz + sz \<le> base + l * sz \<or> base + l * sz + sz \<le> base + k * sz"
    for l using item_end [of k l sz] item_end [of l k sz] by (cases k l rule: linorder_cases) auto
  have "base + k * sz + sz \<le> length m" using item_end [OF k, of sz] assms(1) by (simp add: in_place_def)
  note chunk_exchanged [OF items_apart [OF assms(1,3,4,5)] this d d]
  then show "chunks base n sz (exchanged m (base + i * sz) (base + j * sz) sz) ! k
      = (chunks base n sz m)[i := chunks base n sz m ! j, j := chunks base n sz m ! i] ! k"
    using k assms by (simp add: nth_chunks nth_list_update)
qed simp

lemma exchanged_in_place:
  assumes "in_place m0 base n sz m" "i < n" "j < n" "i \<noteq> j"
  shows "in_place m0 base n sz (exchanged m (base + i * sz) (base + j * sz) sz)"
  using assms(1) items_apart [OF assms] item_end [OF assms(2), of sz] item_end [OF assms(3), of sz]
  by (auto simp: in_place_def nth_exchanged)

interpretation mm: item_array "{bs. length bs = sz}" byte_cmp
  "\<lambda>m. 0 < sz \<and> in_place m0 base n sz m" "chunks base n sz"
  "\<lambda>m i j. memcmp m (base + i * sz) m (base + j * sz) sz"
  "\<lambda>i j m. memswap m (base + i * sz) (base + j * sz) sz"
  for m0 base n sz
proof unfold_locales
  fix m :: "u8 list" and i j
  assume ok: "0 < sz \<and> in_place m0 base n sz m"
  have inside: "base + i * sz + sz \<le> length m" if "i < n" for i
    using item_end [OF that, of sz] ok by (simp add: in_place_def)
  show "set (chunks base n sz m) \<subseteq> {bs. length bs = sz}"
    using inside by (fastforce simp: chunks_def)
  assume ij: "i < length (chunks base n sz m)" "j < length (chunks base n sz m)"
  then show "memcmp m (base + i * sz) m (base + j * sz) sz
      = Some (byte_cmp (chunks base n sz m ! i) (chunks base n sz m ! j))"
    using memcmp_effect [of "base + i * sz" sz m "base + j * sz" m] inside by (simp add: nth_chunks)
  assume "i \<noteq> j"
  then show "\<exists>s'. memswap m (base + i * sz) (base + j * sz) sz = Some s'
      \<and> (0 < sz \<and> in_place m0 base n sz s')
      \<and> chunks base n sz s' = (chunks base n sz m)[i := chunks base n sz m ! j, j := chunks base n sz m ! i]"
    using memswap_effect [OF items_apart [of m0 base n sz m i j]]
      chunks_exchanged [of m0 base n sz m i j] exchanged_in_place [of m0 base n sz m i j] ok ij by simp
qed

lemma mmsort_sorts:
  assumes "0 < sz" "base + n * sz \<le> length m"
  shows "\<exists>m'. mmsort m base n sz = Some m' \<and> in_place m base n sz m'
    \<and> mset (chunks base n sz m') = mset (chunks base n sz m)
    \<and> sorted_wrt (\<lambda>x y. byte_cmp x y \<le> 0) (chunks base n sz m')"
  using mm.heap_sort_sorts [of sz m base n m] assms by (auto simp: mmsort_def in_place_def sort_memswap_eq)

end
