(* ===== verification/Merge_Utils.thy ===== *)
theory Merge_Utils
  imports Sort_Utils
begin

section \<open>merge.c\<close>

text \<open>
  The merges of src/sort-utils/merge.c. The three arrays are separate objects; a pointer into
  one is an item index (\<open>merge\<close>) or a byte offset (\<open>mmmerge\<close>), and the bounds \<open>ae\<close>, \<open>be\<close>, \<open>re\<close>
  are kept as the numbers of items \<open>as\<close>, \<open>bs\<close>, \<open>rs\<close> still before them. An item of the
  second array goes first when the two compare equal.
\<close>

subsection \<open>Items and callbacks\<close>

text \<open>The result array from the item \<open>r\<close> on, and what is left of the three arrays.\<close>

fun merge_both :: "('a \<Rightarrow> 'a \<Rightarrow> int) \<Rightarrow> 'a list \<Rightarrow> nat \<Rightarrow> nat \<Rightarrow> 'a list \<Rightarrow> nat \<Rightarrow> nat \<Rightarrow> 'a list \<Rightarrow> nat \<Rightarrow> nat
    \<Rightarrow> ('a list \<times> nat \<times> nat \<times> nat \<times> nat \<times> nat \<times> nat) option" where
  "merge_both cmp_func mr r (Suc rs) ma a (Suc as) mb b (Suc bs) =
     do {
       x \<leftarrow> buf_get ma a;
       y \<leftarrow> buf_get mb b;
       if cmp_func x y < 0
       then do { mr' \<leftarrow> buf_set mr r x; merge_both cmp_func mr' (r + 1) rs ma (a + 1) as mb b (Suc bs) }
       else do { mr' \<leftarrow> buf_set mr r y; merge_both cmp_func mr' (r + 1) rs ma a (Suc as) mb (b + 1) bs }
     }"
| "merge_both cmp_func mr r rs ma a as mb b bs = Some (mr, r, rs, a, as, b, bs)"

fun merge_rest :: "'a list \<Rightarrow> nat \<Rightarrow> nat \<Rightarrow> 'a list \<Rightarrow> nat \<Rightarrow> nat \<Rightarrow> ('a list \<times> nat \<times> nat) option" where
  "merge_rest mr r (Suc rs) ma a (Suc as) =
     do { x \<leftarrow> buf_get ma a; mr' \<leftarrow> buf_set mr r x; merge_rest mr' (r + 1) rs ma (a + 1) as }"
| "merge_rest mr r rs ma a as = Some (mr, r, rs)"

definition merge :: "('a \<Rightarrow> 'a \<Rightarrow> int) \<Rightarrow> 'a list \<Rightarrow> nat \<Rightarrow> 'a list \<Rightarrow> nat \<Rightarrow> 'a list \<Rightarrow> nat \<Rightarrow> 'a list option" where
  "merge cmp_func mr rs ma as mb bs =
     do {
       (mr, r, rs, a, as, b, bs) \<leftarrow> merge_both cmp_func mr 0 rs ma 0 as mb 0 bs;
       (mr, r, rs) \<leftarrow> merge_rest mr r rs ma a as;
       (mr, r, rs) \<leftarrow> merge_rest mr r rs mb b bs;
       Some mr
     }"

subsection \<open>Bytes\<close>

fun mmmerge_both :: "u8 list \<Rightarrow> nat \<Rightarrow> nat \<Rightarrow> u8 list \<Rightarrow> nat \<Rightarrow> nat \<Rightarrow> u8 list \<Rightarrow> nat \<Rightarrow> nat \<Rightarrow> nat
    \<Rightarrow> (u8 list \<times> nat \<times> nat \<times> nat \<times> nat \<times> nat \<times> nat) option" where
  "mmmerge_both mr r (Suc rs) ma a (Suc as) mb b (Suc bs) obj_size =
     do {
       d \<leftarrow> memcmp ma a mb b obj_size;
       if d < 0
       then do {
         mr' \<leftarrow> obj_copy mr r ma a obj_size;
         mmmerge_both mr' (r + obj_size) rs ma (a + obj_size) as mb b (Suc bs) obj_size
       }
       else do {
         mr' \<leftarrow> obj_copy mr r mb b obj_size;
         mmmerge_both mr' (r + obj_size) rs ma a (Suc as) mb (b + obj_size) bs obj_size
       }
     }"
| "mmmerge_both mr r rs ma a as mb b bs obj_size = Some (mr, r, rs, a, as, b, bs)"

definition mmmerge :: "u8 list \<Rightarrow> nat \<Rightarrow> u8 list \<Rightarrow> nat \<Rightarrow> u8 list \<Rightarrow> nat \<Rightarrow> nat \<Rightarrow> u8 list option" where
  "mmmerge mr rs ma as mb bs obj_size =
     do {
       (mr, r, rs, a, as, b, bs) \<leftarrow> mmmerge_both mr 0 rs ma 0 as mb 0 bs obj_size;
       (mr, r, rs) \<leftarrow>
         (if 0 < as \<and> 0 < rs
          then do {
            let k = (if as < rs then as else rs);
            mr' \<leftarrow> obj_copy mr r ma a (k * obj_size);
            Some (mr', r + k * obj_size, rs - k)
          }
          else Some (mr, r, rs));
       if 0 < bs \<and> 0 < rs
       then obj_copy mr r mb b ((if bs < rs then bs else rs) * obj_size)
       else Some mr
     }"

subsection \<open>What a merge is\<close>

fun merge_lists :: "('a \<Rightarrow> 'a \<Rightarrow> int) \<Rightarrow> 'a list \<Rightarrow> 'a list \<Rightarrow> 'a list" where
  "merge_lists cmp (x # xs) (y # ys) =
     (if cmp x y < 0 then x # merge_lists cmp xs (y # ys) else y # merge_lists cmp (x # xs) ys)"
| "merge_lists cmp xs ys = xs @ ys"

lemma merge_lists_Nil2 [simp]: "merge_lists cmp xs [] = xs"
  by (cases xs) simp_all

lemma length_merge_lists [simp]: "length (merge_lists cmp xs ys) = length xs + length ys"
  by (induction cmp xs ys rule: merge_lists.induct) auto

lemma mset_merge_lists [simp]: "mset (merge_lists cmp xs ys) = mset xs + mset ys"
  by (induction cmp xs ys rule: merge_lists.induct) auto

lemma set_merge_lists [simp]: "set (merge_lists cmp xs ys) = set xs \<union> set ys"
  by (metis mset_merge_lists set_mset_mset set_mset_union)

context item_order begin

lemma merge_lists_sorted:
  assumes "set xs \<subseteq> A" "set ys \<subseteq> A"
    and "sorted_wrt (\<lambda>x y. cmp x y \<le> 0) xs" "sorted_wrt (\<lambda>x y. cmp x y \<le> 0) ys"
  shows "sorted_wrt (\<lambda>x y. cmp x y \<le> 0) (merge_lists cmp xs ys)"
  using assms
proof (induction cmp\<equiv>cmp xs ys rule: merge_lists.induct)
  case (1 x xs y ys)
  show ?case
  proof (cases "cmp x y < 0")
    case True
    have "cmp x z \<le> 0" if "z \<in> set ys" for z
      by (rule cmp_trans [of x y z]) (use 1(3-6) True that in auto)
    then show ?thesis using 1 True by auto
  next
    case False
    then have yx: "cmp y x \<le> 0" using cmp_ge [of x y] 1(3,4) by simp
    have "cmp y z \<le> 0" if "z \<in> set xs" for z
      by (rule cmp_trans [of y x z]) (use 1(3-6) yx that in auto)
    then show ?thesis using 1 False yx by auto
  qed
qed simp_all

end

subsection \<open>The code merges\<close>

lemma splice_step: "r + length zs < length m \<Longrightarrow> splice (m[r := x]) (Suc r) zs = splice m r (x # zs)"
  using splice_splice_adjacent [of r "[x]" zs m] by (simp add: list_update_splice)

lemma merge_rest_effect:
  assumes "r + rs \<le> length mr" "a + as \<le> length ma"
  shows "merge_rest mr r rs ma a as
    = Some (splice mr r (take rs (take as (drop a ma))), r + min rs as, rs - min rs as)"
  using assms
proof (induction mr r rs ma a as rule: merge_rest.induct)
  case (1 mr r rs ma a as)
  then show ?case by (simp add: buf_simps take_drop_Cons splice_step)
qed simp_all

lemma merge_from:
  assumes "r + rs \<le> length mr" "a + as \<le> length ma" "b + bs \<le> length mb"
  shows "do {
      (mr, r, rs, a, as, b, bs) \<leftarrow> merge_both cmp mr r rs ma a as mb b bs;
      (mr, r, rs) \<leftarrow> merge_rest mr r rs ma a as;
      (mr, r, rs) \<leftarrow> merge_rest mr r rs mb b bs;
      Some mr
    } = Some (splice mr r (take rs (merge_lists cmp (take as (drop a ma)) (take bs (drop b mb)))))"
  using assms
proof (induction cmp mr r rs ma a as mb b bs rule: merge_both.induct)
  case (1 cmp mr r rs ma a as mb b bs)
  let ?x = "ma ! a" and ?y = "mb ! b"
  have xs: "take (Suc as) (drop a ma) = ?x # take as (drop (Suc a) ma)"
    and ys: "take (Suc bs) (drop b mb) = ?y # take bs (drop (Suc b) mb)"
    using 1(3-5) by (simp_all add: take_drop_Cons)
  have l: "Suc r + rs \<le> length (mr[r := ?x])" "Suc r + rs \<le> length (mr[r := ?y])"
    "Suc a + as \<le> length ma" "Suc b + bs \<le> length mb" using 1(3-5) by simp_all
  have st: "splice (mr[r := z]) (Suc r) (take rs zs) = splice mr r (z # take rs zs)" for z zs
    using 1(3) by (intro splice_step) (simp add: min_def)
  show ?case
    using 1(1) [of ?x ?y "mr[r := ?x]"] 1(2) [of ?x ?y "mr[r := ?y]"] 1(3-5) l
    by (cases "cmp ?x ?y < 0") (simp_all add: buf_simps xs ys st)
qed (simp_all add: merge_rest_effect)

lemma merge_merges:
  assumes "rs \<le> length mr" "as \<le> length ma" "bs \<le> length mb"
  shows "merge cmp mr rs ma as mb bs = Some (splice mr 0 (take rs (merge_lists cmp (take as ma) (take bs mb))))"
  using merge_from [of 0 rs mr 0 as ma 0 bs mb cmp] assms by (simp add: merge_def)

text \<open>Bytes.\<close>

lemma chunks_Suc: "chunks a (Suc n) sz m = take sz (drop a m) # chunks (a + sz) n sz m"
proof -
  have "[0..<Suc n] = 0 # map Suc [0..<n]" using upt_conv_Cons [of 0 "Suc n"] map_Suc_upt [of 0 n] by simp
  then show ?thesis by (simp add: chunks_def add.assoc add.commute add.left_commute)
qed

lemma chunks_0 [simp]: "chunks a 0 sz m = []"
  by (simp add: chunks_def)

lemma concat_chunks: "a + n * sz \<le> length m \<Longrightarrow> concat (chunks a n sz m) = take (n * sz) (drop a m)"
  by (induction n arbitrary: a) (simp_all add: chunks_Suc take_add add.commute)

lemma take_chunks: "take k (chunks a n sz m) = chunks a (min k n) sz m"
  by (simp add: chunks_def take_map min_def)

lemma length_concat_take_chunks:
  assumes "a + as * sz \<le> length ma" "b + bs * sz \<le> length mb"
  shows "length (concat (take k (merge_lists cmp (chunks a as sz ma) (chunks b bs sz mb)))) \<le> k * sz"
proof -
  have "length c \<le> sz" if "c \<in> set (merge_lists cmp (chunks a as sz ma) (chunks b bs sz mb))" for c
    using that by (auto simp: chunks_def)
  then have "\<forall>c \<in> set (take k (merge_lists cmp (chunks a as sz ma) (chunks b bs sz mb))). length c \<le> sz"
    by (meson in_set_takeD)
  moreover have "length (concat cs) \<le> length cs * sz" if "\<forall>c \<in> set cs. length c \<le> sz" for cs :: "'a list list"
    using that by (induction cs) auto
  ultimately have "length (concat (take k (merge_lists cmp (chunks a as sz ma) (chunks b bs sz mb))))
      \<le> length (take k (merge_lists cmp (chunks a as sz ma) (chunks b bs sz mb))) * sz" by blast
  also have "\<dots> \<le> k * sz" by (intro mult_le_mono1) (simp add: min_def)
  finally show ?thesis .
qed

lemma bulk_copy:
  assumes "r + rs * sz \<le> length mr" "b + bs * sz \<le> length mb"
  shows "obj_copy mr r mb b (min rs bs * sz) = Some (splice mr r (concat (chunks b (min rs bs) sz mb)))"
    and "bs < rs \<Longrightarrow> obj_copy mr r mb b (bs * sz) = Some (splice mr r (concat (chunks b bs sz mb)))"
    and "rs \<le> bs \<Longrightarrow> obj_copy mr r mb b (rs * sz) = Some (splice mr r (concat (chunks b rs sz mb)))"
proof -
  have "min rs bs * sz \<le> rs * sz" "min rs bs * sz \<le> bs * sz" by (simp_all only: mult_le_mono1 min.cobounded1 min.cobounded2)
  then have "b + min rs bs * sz \<le> length mb" "r + min rs bs * sz \<le> length mr" using assms by linarith+
  then show c: "obj_copy mr r mb b (min rs bs * sz) = Some (splice mr r (concat (chunks b (min rs bs) sz mb)))"
    by (simp only: obj_copy_Some concat_chunks)
  from c show "bs < rs \<Longrightarrow> obj_copy mr r mb b (bs * sz) = Some (splice mr r (concat (chunks b bs sz mb)))"
    by (simp add: min_def)
  from c show "rs \<le> bs \<Longrightarrow> obj_copy mr r mb b (rs * sz) = Some (splice mr r (concat (chunks b rs sz mb)))"
    by (simp add: min_def)
qed

lemma mmmerge_from:
  assumes "r + rs * sz \<le> length mr" "a + as * sz \<le> length ma" "b + bs * sz \<le> length mb"
  shows "do {
      (mr, r, rs, a, as, b, bs) \<leftarrow> mmmerge_both mr r rs ma a as mb b bs sz;
      (mr, r, rs) \<leftarrow>
         (if 0 < as \<and> 0 < rs
          then do {
            let k = (if as < rs then as else rs);
            mr' \<leftarrow> obj_copy mr r ma a (k * sz);
            Some (mr', r + k * sz, rs - k)
          }
          else Some (mr, r, rs));
       if 0 < bs \<and> 0 < rs
       then obj_copy mr r mb b ((if bs < rs then bs else rs) * sz)
       else Some mr
    } = Some (splice mr r (concat (take rs (merge_lists byte_cmp (chunks a as sz ma) (chunks b bs sz mb)))))"
  using assms
proof (induction mr r rs ma a as mb b bs sz rule: mmmerge_both.induct)
  case (1 mr r rs ma a as mb b bs sz)
  let ?x = "take sz (drop a ma)" and ?y = "take sz (drop b mb)"
  have d: "memcmp ma a mb b sz = Some (byte_cmp ?x ?y)"
    using 1(4,5) by (intro memcmp_effect) simp_all
  have cx: "obj_copy mr r ma a sz = Some (splice mr r ?x)" and cy: "obj_copy mr r mb b sz = Some (splice mr r ?y)"
    using 1(3-5) by (simp_all add: buf_simps)
  have lx: "length ?x = sz" "length ?y = sz" using 1(4,5) by simp_all
  have b: "r + sz + rs * sz \<le> length (splice mr r ?x)" "r + sz + rs * sz \<le> length (splice mr r ?y)"
    "a + sz + as * sz \<le> length ma" "b + sz + bs * sz \<le> length mb"
    using 1(3-5) lx by simp_all
  have st: "splice (splice mr r z) (r + sz) zs = splice mr r (z @ zs)"
    if "length z = sz" "length zs \<le> rs * sz" for z zs
    using splice_splice_adjacent [of r z zs mr] that 1(3) by simp
  note lc = length_concat_take_chunks [of _ _ sz ma _ _ mb rs byte_cmp]
  show ?case
  proof (cases "byte_cmp ?x ?y < 0")
    case True
    then show ?thesis
      using 1(1) [OF d True cx b(1,3) 1(5)] lc [of "a + sz" as b "Suc bs"] b(3) 1(5) lx
      by (simp add: d cx st chunks_Suc)
  next
    case False
    then show ?thesis
      using 1(2) [OF d False cy b(2) 1(4) b(4)] lc [of a "Suc as" "b + sz" bs] b(4) 1(4) lx
      by (simp add: d cy st chunks_Suc)
  qed
qed (auto simp: bulk_copy take_chunks Let_def min_def)

lemma mmmerge_merges:
  assumes "rs * sz \<le> length mr" "as * sz \<le> length ma" "bs * sz \<le> length mb"
  shows "mmmerge mr rs ma as mb bs sz
    = Some (splice mr 0 (concat (take rs (merge_lists byte_cmp (chunks 0 as sz ma) (chunks 0 bs sz mb)))))"
  using mmmerge_from [of 0 rs sz mr 0 as ma 0 bs mb] assms by (simp add: mmmerge_def)

end
