(* ===== verification/Sort_Properties.thy ===== *)
theory Sort_Properties
  imports Merge_Utils
begin

section \<open>Properties of the sorting utilities\<close>

text \<open>
  What src/sort-utils promises: the two heap sorts order the items they are given, in place and
  without touching anything else, and the merges yield the ordered merge of two ordered arrays.
  A comparison callback is described by the locale \<open>item_order\<close>.
\<close>

text \<open>C9. \<open>sort\<close> with a callback that orders the items (and compares any item to any other in
  a consistent way) returns, never accesses an item outside the array, and leaves the same items
  in ascending order.\<close>

theorem sort_correct:
  assumes "item_order (set base) cmp"
  shows "\<exists>ys. sort_array cmp base (length base) = Some ys \<and> mset ys = mset base
    \<and> sorted_wrt (\<lambda>x y. cmp x y \<le> 0) ys"
  using item_order.sort_array_sorts [OF assms order_refl] .

theorem sort_correct_witness:
  "\<exists>ys. sort_array (\<lambda>x y. y mod 10 - x mod 10) [13, 42, 21, 57 :: int] 4 = Some ys
    \<and> mset ys = {#13, 42, 21, 57#} \<and> sorted_wrt (\<lambda>x y. y mod 10 - x mod 10 \<le> 0) ys"
proof -
  have "item_order (set [13, 42, 21, 57]) (\<lambda>x y. y mod 10 - x mod 10 :: int)"
    by unfold_locales auto
  from sort_correct [OF this] show ?thesis by (simp add: numeral_eq_Suc)
qed

text \<open>C10. \<open>mmsort\<close> of the \<open>n\<close> items of \<open>sz\<close> bytes at \<open>base\<close> returns, permutes whole items
  into ascending \<open>memcmp\<close> order and leaves every byte outside the array as it was.\<close>

theorem mmsort_correct:
  assumes "0 < sz" "base + n * sz \<le> length m"
  shows "\<exists>m'. mmsort m base n sz = Some m' \<and> length m' = length m
    \<and> (\<forall>k. k < length m \<longrightarrow> k < base \<or> base + n * sz \<le> k \<longrightarrow> m' ! k = m ! k)
    \<and> mset (chunks base n sz m') = mset (chunks base n sz m)
    \<and> sorted_wrt (\<lambda>x y. byte_cmp x y \<le> 0) (chunks base n sz m')"
  using mmsort_sorts [OF assms] by (auto simp: in_place_def)

theorem mmsort_correct_witness:
  "\<exists>m'. mmsort [9, 2, 1, 0, 7, 0, 5, 9] 1 3 2 = Some m' \<and> m' ! 0 = 9 \<and> m' ! 7 = 9
    \<and> mset (chunks 1 3 2 m') = {#[2, 1], [0, 7], [0, 5]#}
    \<and> sorted_wrt (\<lambda>x y. byte_cmp x y \<le> 0) (chunks 1 3 2 m')"
proof -
  have "chunks 1 3 2 [9, 2, 1, 0, 7, 0, 5, 9 :: u8] = [[2, 1], [0, 7], [0, 5]]"
    by (simp add: chunks_def numeral_eq_Suc)
  then show ?thesis using mmsort_correct [of 2 1 3 "[9, 2, 1, 0, 7, 0, 5, 9]"] by fastforce
qed

text \<open>\<open>mmmerge\<close> of two arrays in ascending \<open>memcmp\<close> order into a third that has room for
  both writes the items of the two in ascending order, and nothing behind them.\<close>

theorem mmmerge_correct:
  assumes "(as + bs) * sz \<le> length mr" "as * sz \<le> length ma" "bs * sz \<le> length mb" "as + bs \<le> rs"
    "rs * sz \<le> length mr"
    and "sorted_wrt (\<lambda>x y. byte_cmp x y \<le> 0) (chunks 0 as sz ma)"
    and "sorted_wrt (\<lambda>x y. byte_cmp x y \<le> 0) (chunks 0 bs sz mb)"
  shows "\<exists>ys. mmmerge mr rs ma as mb bs sz = Some (concat ys @ drop ((as + bs) * sz) mr)
    \<and> mset ys = mset (chunks 0 as sz ma) + mset (chunks 0 bs sz mb)
    \<and> sorted_wrt (\<lambda>x y. byte_cmp x y \<le> 0) ys"
proof -
  let ?xs = "chunks 0 as sz ma" and ?ys = "chunks 0 bs sz mb"
  let ?m = "merge_lists byte_cmp ?xs ?ys"
  have in_size: "set (chunks 0 k sz m) \<subseteq> {c. length c = sz}" if "k * sz \<le> length m" for k and m :: "u8 list"
    using that item_end [of _ k sz] by (fastforce simp: chunks_def)
  have len: "\<forall>c \<in> set ?m. length c = sz" using in_size assms(2,3) by auto
  have "length (concat zs) = length zs * sz" if "\<forall>c \<in> set zs. length c = sz" for zs :: "u8 list list"
    using that by (induction zs) auto
  from this [OF len] have "length (concat ?m) = (as + bs) * sz" by simp
  moreover have "mmmerge mr rs ma as mb bs sz = Some (splice mr 0 (concat ?m))"
    using mmmerge_merges [of rs sz mr as ma bs mb] assms by simp
  moreover have "sorted_wrt (\<lambda>x y. byte_cmp x y \<le> 0) ?m"
    by (rule bytes.merge_lists_sorted [where sz = sz]) (use in_size assms in auto)
  ultimately show ?thesis by (intro exI [of _ ?m]) (simp add: splice_def)
qed

theorem mmmerge_correct_witness:
  "\<exists>ys. mmmerge [0, 0, 0, 0, 0, 0, 8, 8] 4 [1, 0, 5, 0] 2 [3, 9] 1 2 = Some (concat ys @ [8, 8])
    \<and> mset ys = {#[3, 9], [1, 0], [5, 0]#} \<and> sorted_wrt (\<lambda>x y. byte_cmp x y \<le> 0) ys"
proof -
  have c: "chunks 0 2 2 [1, 0, 5, 0 :: u8] = [[1, 0], [5, 0]]" "chunks 0 (Suc 0) 2 [3, 9 :: u8] = [[3, 9]]"
    by (simp_all add: chunks_def numeral_eq_Suc)
  show ?thesis
    using mmmerge_correct [of 2 1 2 "[0, 0, 0, 0, 0, 0, 8, 8]" "[1, 0, 5, 0]" "[3, 9]" 4] by (simp add: c)
qed

end
