(* ===== verification/Bit_Array.thy ===== *)
theory Bit_Array
  imports Carthage_Prelude
begin

section \<open>bitarray.c\<close>

text \<open>
  src/bitarray: a map of bits in a byte array. Bit \<open>n\<close> is bit \<open>n mod 8\<close> of byte \<open>n div 8\<close>;
  an access to a byte outside the map faults. The abstract view of a map is \<open>bits\<close>.
\<close>

subsection \<open>The operations\<close>

record bitarray =
  map_bytes :: "u8 list"
  map_bits :: u64

definition bitmask :: "nat \<Rightarrow> u8" where
  "bitmask n = push_bit (n mod 8) 1"

definition bit_set :: "u8 list \<Rightarrow> nat \<Rightarrow> u8 list option" where
  "bit_set m n = do { b \<leftarrow> buf_get m (n div 8); buf_set m (n div 8) (b OR bitmask n) }"

definition bit_clear :: "u8 list \<Rightarrow> nat \<Rightarrow> u8 list option" where
  "bit_clear m n = do { b \<leftarrow> buf_get m (n div 8); buf_set m (n div 8) (b AND NOT (bitmask n)) }"

definition bit_test :: "u8 list \<Rightarrow> nat \<Rightarrow> u8 option" where
  "bit_test m n = do { b \<leftarrow> buf_get m (n div 8); Some (b AND bitmask n) }"

definition bitarray_set :: "bitarray \<Rightarrow> nat \<Rightarrow> (u8 \<times> bitarray) option" where
  "bitarray_set a n =
     do {
       old_state \<leftarrow> bit_test (map_bytes a) n;
       m \<leftarrow> bit_set (map_bytes a) n;
       Some (old_state, a\<lparr>map_bytes := m\<rparr>)
     }"

definition bitarray_clear :: "bitarray \<Rightarrow> nat \<Rightarrow> (u8 \<times> bitarray) option" where
  "bitarray_clear a n =
     do {
       old_state \<leftarrow> bit_test (map_bytes a) n;
       m \<leftarrow> bit_clear (map_bytes a) n;
       Some (old_state, a\<lparr>map_bytes := m\<rparr>)
     }"

definition bitarray_test :: "bitarray \<Rightarrow> nat \<Rightarrow> u8 option" where
  "bitarray_test a n = bit_test (map_bytes a) n"

text \<open>\<open>*p |= __BITMASK(start++)\<close>, \<open>k\<close> times on the byte \<open>p\<close>; and bit by bit.\<close>

fun or_masks :: "u8 list \<Rightarrow> nat \<Rightarrow> nat \<Rightarrow> nat \<Rightarrow> u8 list option" where
  "or_masks m p start 0 = Some m"
| "or_masks m p start (Suc k) =
     do { b \<leftarrow> buf_get m p; m' \<leftarrow> buf_set m p (b OR bitmask start); or_masks m' p (start + 1) k }"

fun and_masks :: "u8 list \<Rightarrow> nat \<Rightarrow> nat \<Rightarrow> nat \<Rightarrow> u8 list option" where
  "and_masks m p start 0 = Some m"
| "and_masks m p start (Suc k) =
     do { b \<leftarrow> buf_get m p; m' \<leftarrow> buf_set m p (b AND NOT (bitmask start)); and_masks m' p (start + 1) k }"

fun set_each :: "u8 list \<Rightarrow> nat \<Rightarrow> nat \<Rightarrow> u8 list option" where
  "set_each m start 0 = Some m"
| "set_each m start (Suc k) = do { m' \<leftarrow> bit_set m start; set_each m' (start + 1) k }"

fun clear_each :: "u8 list \<Rightarrow> nat \<Rightarrow> nat \<Rightarrow> u8 list option" where
  "clear_each m start 0 = Some m"
| "clear_each m start (Suc k) = do { m' \<leftarrow> bit_clear m start; clear_each m' (start + 1) k }"

function set_bits_loop :: "u8 list \<Rightarrow> nat \<Rightarrow> nat \<Rightarrow> nat \<Rightarrow> u8 list option" where
  "set_bits_loop m p start count =
     (if 8 \<le> count
      then do { m' \<leftarrow> or_masks m p start 8; set_bits_loop m' (p + 1) (start + 8) (count - 8) }
      else set_each m start count)"
  by pat_completeness auto
termination by (relation "measure (\<lambda>(_, _, _, count). count)") auto

function clear_bits_loop :: "u8 list \<Rightarrow> nat \<Rightarrow> nat \<Rightarrow> nat \<Rightarrow> u8 list option" where
  "clear_bits_loop m p start count =
     (if 8 \<le> count
      then do { m' \<leftarrow> and_masks m p start 8; clear_bits_loop m' (p + 1) (start + 8) (count - 8) }
      else clear_each m start count)"
  by pat_completeness auto
termination by (relation "measure (\<lambda>(_, _, _, count). count)") auto

declare set_bits_loop.simps [simp del] clear_bits_loop.simps [simp del]

definition bitarray_set_bits :: "bitarray \<Rightarrow> nat \<Rightarrow> nat \<Rightarrow> bitarray option" where
  "bitarray_set_bits a start count =
     do { m \<leftarrow> set_bits_loop (map_bytes a) (start div 8) start count; Some (a\<lparr>map_bytes := m\<rparr>) }"

definition bitarray_clear_bits :: "bitarray \<Rightarrow> nat \<Rightarrow> nat \<Rightarrow> bitarray option" where
  "bitarray_clear_bits a start count =
     do { m \<leftarrow> clear_bits_loop (map_bytes a) (start div 8) start count; Some (a\<lparr>map_bytes := m\<rparr>) }"

text \<open>
  \<open>__bit_find_first\<close>. \<open>find_in_byte\<close> looks at the bits \<open>off .. off + k - 1\<close> of the byte \<open>p\<close>;
  \<open>skip_bytes\<close> is the loop over the bytes equal to the pattern, an entry of a table of \<open>char\<close>,
  which is signed on the targets: the byte, an \<open>unsigned char\<close>, is compared as an \<open>int\<close> with -1
  when the value is 0. Its result is the byte it stopped at, or None when \<open>size\<close> ran out.
\<close>

fun find_in_byte :: "u8 list \<Rightarrow> nat \<Rightarrow> nat \<Rightarrow> nat \<Rightarrow> bool \<Rightarrow> nat option option" where
  "find_in_byte m p off 0 v = Some None"
| "find_in_byte m p off (Suc k) v =
     do {
       b \<leftarrow> buf_get m p;
       if (b AND bitmask off \<noteq> 0) = v then Some (Some (p * 8 + off))
       else find_in_byte m p (off + 1) k v
     }"

definition pattern :: "bool \<Rightarrow> int" where
  "pattern v = (if v then 0 else - 1)"

fun skip_bytes :: "u8 list \<Rightarrow> nat \<Rightarrow> nat \<Rightarrow> bool \<Rightarrow> nat option option" where
  "skip_bytes m p 0 v = Some None"
| "skip_bytes m p (Suc size_left) v =
     do {
       b \<leftarrow> buf_get m p;
       if uint b = pattern v then skip_bytes m (p + 1) size_left v
       else Some (Some p)
     }"

definition find_whole :: "u8 list \<Rightarrow> u64 \<Rightarrow> nat \<Rightarrow> bool \<Rightarrow> nat option option" where
  "find_whole m sz p v =
     (let left = sz - of_nat (p * 8);
          size_left = unat (drop_bit 3 left + (if left AND 7 > 0 then 1 else 0))
      in if size_left > 0
         then do {
           stop \<leftarrow> skip_bytes m p size_left v;
           case stop of None \<Rightarrow> Some None | Some q \<Rightarrow> find_in_byte m q 0 8 v
         }
         else Some None)"

definition bit_find_first :: "u8 list \<Rightarrow> u64 \<Rightarrow> nat \<Rightarrow> bool \<Rightarrow> nat option option" where
  "bit_find_first m sz offset v =
     (if offset mod 8 \<noteq> 0
      then do {
        hit \<leftarrow> find_in_byte m (offset div 8) (offset mod 8) (8 - offset mod 8) v;
        case hit of Some i \<Rightarrow> Some (Some i) | None \<Rightarrow> find_whole m sz (offset div 8 + 1) v
      }
      else find_whole m sz (offset div 8) v)"

definition bitarray_find_set :: "bitarray \<Rightarrow> nat \<Rightarrow> nat option option" where
  "bitarray_find_set a offset = bit_find_first (map_bytes a) (map_bits a) offset True"

definition bitarray_find_zero :: "bitarray \<Rightarrow> nat \<Rightarrow> nat option option" where
  "bitarray_find_zero a offset = bit_find_first (map_bytes a) (map_bits a) offset False"

subsection \<open>The bits of a map\<close>

definition bits :: "u8 list \<Rightarrow> nat \<Rightarrow> bool" where
  "bits m i \<longleftrightarrow> bit (m ! (i div 8)) (i mod 8)"

lemma bit_bitmask [simp]: "bit (bitmask n) j \<longleftrightarrow> j = n mod 8"
  by (auto simp: bitmask_def bit_simps)

lemma and_bitmask_zero_iff: "b AND bitmask n \<noteq> 0 \<longleftrightarrow> bit b (n mod 8)"
proof -
  have "bit (b AND bitmask n) j \<longleftrightarrow> bit b (n mod 8) \<and> j = n mod 8" for j
    by (auto simp: bit_and_iff)
  then show ?thesis by (metis bit_0_eq bot_apply bot_bool_def bit_eqI)
qed

lemma byte_in: "i < 8 * length m \<Longrightarrow> i div 8 < length m"
  by (simp add: less_mult_imp_div_less mult.commute)

lemma bits_update:
  assumes "p < length m"
  shows "bits (m[p := b]) i \<longleftrightarrow> (if i div 8 = p then bit b (i mod 8) else bits m i)"
  using assms by (simp add: bits_def nth_list_update)

lemma bit_set_effect:
  assumes "n < 8 * length m"
  shows "\<exists>m'. bit_set m n = Some m' \<and> length m' = length m \<and> (\<forall>i. bits m' i \<longleftrightarrow> i = n \<or> bits m i)"
proof -
  have "bits (m[n div 8 := m ! (n div 8) OR bitmask n]) i \<longleftrightarrow> i = n \<or> bits m i" for i
    unfolding bits_update [OF byte_in [OF assms]] by (auto simp: bit_or_iff bits_def) (metis div_mult_mod_eq)
  then show ?thesis using byte_in [OF assms] by (simp add: bit_set_def buf_simps)
qed

lemma bit_clear_effect:
  assumes "n < 8 * length m"
  shows "\<exists>m'. bit_clear m n = Some m' \<and> length m' = length m \<and> (\<forall>i. bits m' i \<longleftrightarrow> i \<noteq> n \<and> bits m i)"
proof -
  have "bits (m[n div 8 := m ! (n div 8) AND NOT (bitmask n)]) i \<longleftrightarrow> i \<noteq> n \<and> bits m i" for i
    unfolding bits_update [OF byte_in [OF assms]]
    by (auto simp: bit_and_iff bit_not_iff bits_def) (metis div_mult_mod_eq)
  then show ?thesis using byte_in [OF assms] by (simp add: bit_clear_def buf_simps)
qed

lemma bit_test_effect:
  "n < 8 * length m \<Longrightarrow> \<exists>b. bit_test m n = Some b \<and> (b \<noteq> 0 \<longleftrightarrow> bits m n)"
  using byte_in [of n m] by (simp add: bit_test_def buf_simps and_bitmask_zero_iff bits_def)

text \<open>Eight masks of one byte set all its bits, wherever they start.\<close>

lemma ex_masks:
  "(\<exists>j < Suc k. i mod 8 = (start + j) mod 8)
    \<longleftrightarrow> i mod 8 = start mod 8 \<or> (\<exists>j < k. i mod 8 = (start + 1 + j) mod (8 :: nat))"
  by (auto simp: less_Suc_eq_0_disj)

lemma or_masks_effect:
  assumes "p < length m"
  shows "\<exists>m'. or_masks m p start k = Some m' \<and> length m' = length m
    \<and> (\<forall>i. bits m' i \<longleftrightarrow> i div 8 = p \<and> (\<exists>j < k. i mod 8 = (start + j) mod 8) \<or> bits m i)"
  using assms
proof (induction k arbitrary: m start)
  case (Suc k)
  let ?m = "m[p := m ! p OR bitmask start]"
  obtain m' where m': "or_masks ?m p (start + 1) k = Some m'" "length m' = length m"
    "\<forall>i. bits m' i \<longleftrightarrow> i div 8 = p \<and> (\<exists>j < k. i mod 8 = (start + 1 + j) mod 8) \<or> bits ?m i"
    using Suc.IH [of ?m "start + 1"] Suc.prems by fastforce
  have "bits ?m i \<longleftrightarrow> i div 8 = p \<and> i mod 8 = start mod 8 \<or> bits m i" for i
    unfolding bits_update [OF Suc.prems] by (auto simp: bits_def bit_or_iff)
  then have "\<forall>i. bits m' i \<longleftrightarrow> i div 8 = p \<and> (\<exists>j < Suc k. i mod 8 = (start + j) mod 8) \<or> bits m i"
    unfolding ex_masks m'(3) [rule_format] by blast
  then show ?case using m'(1,2) Suc.prems by (simp add: buf_simps)
qed simp

lemma and_masks_effect:
  assumes "p < length m"
  shows "\<exists>m'. and_masks m p start k = Some m' \<and> length m' = length m
    \<and> (\<forall>i. bits m' i \<longleftrightarrow> \<not> (i div 8 = p \<and> (\<exists>j < k. i mod 8 = (start + j) mod 8)) \<and> bits m i)"
  using assms
proof (induction k arbitrary: m start)
  case (Suc k)
  let ?m = "m[p := m ! p AND NOT (bitmask start)]"
  obtain m' where m': "and_masks ?m p (start + 1) k = Some m'" "length m' = length m"
    "\<forall>i. bits m' i \<longleftrightarrow> \<not> (i div 8 = p \<and> (\<exists>j < k. i mod 8 = (start + 1 + j) mod 8)) \<and> bits ?m i"
    using Suc.IH [of ?m "start + 1"] Suc.prems by fastforce
  have "bits ?m i \<longleftrightarrow> \<not> (i div 8 = p \<and> i mod 8 = start mod 8) \<and> bits m i" for i
    unfolding bits_update [OF Suc.prems] by (auto simp: bits_def bit_and_iff bit_not_iff)
  then have "\<forall>i. bits m' i \<longleftrightarrow> \<not> (i div 8 = p \<and> (\<exists>j < Suc k. i mod 8 = (start + j) mod 8)) \<and> bits m i"
    unfolding ex_masks m'(3) [rule_format] by blast
  then show ?case using m'(1,2) Suc.prems by (simp add: buf_simps)
qed simp

lemma byte_split: "\<exists>q r. (n :: nat) = q * 8 + r \<and> r < 8 \<and> n div 8 = q \<and> n mod 8 = r"
  using div_mult_mod_eq [of n 8] by (metis mod_less_divisor zero_less_numeral)

lemma eight_masks: "\<exists>j < 8. (i::nat) mod 8 = (start + j) mod 8"
proof -
  obtain q r where q: "start = q * 8 + r" "r < 8" using byte_split [of start] by blast
  let ?j = "i mod 8 + (8 - r)"
  have "start + ?j = i mod 8 + (q + 1) * 8" using q by simp
  then have "(start + ?j) mod 8 = i mod 8" by (simp only: mod_mult_self1 mod_mod_trivial)
  then show ?thesis by (intro exI [of _ "?j mod 8"]) (simp add: mod_add_right_eq)
qed

lemma set_each_effect:
  assumes "start + k \<le> 8 * length m"
  shows "\<exists>m'. set_each m start k = Some m' \<and> length m' = length m
    \<and> (\<forall>i. bits m' i \<longleftrightarrow> start \<le> i \<and> i < start + k \<or> bits m i)"
  using assms
proof (induction k arbitrary: m start)
  case (Suc k)
  then obtain m' where m': "bit_set m start = Some m'" "length m' = length m"
    "\<forall>i. bits m' i \<longleftrightarrow> i = start \<or> bits m i" using bit_set_effect [of start m] by auto
  obtain m'' where "set_each m' (start + 1) k = Some m''" "length m'' = length m'"
    "\<forall>i. bits m'' i \<longleftrightarrow> start + 1 \<le> i \<and> i < start + 1 + k \<or> bits m' i"
    using Suc.IH [of "start + 1" m'] Suc.prems m'(2) by auto
  moreover from this(3) m'(3) have "\<forall>i. bits m'' i \<longleftrightarrow> start \<le> i \<and> i < start + Suc k \<or> bits m i"
    by (simp add: Suc_le_eq) (metis le_neq_implies_less less_add_Suc1 order.strict_implies_order order_refl)
  ultimately show ?case using m'(1,2) by simp
qed auto

lemma clear_each_effect:
  assumes "start + k \<le> 8 * length m"
  shows "\<exists>m'. clear_each m start k = Some m' \<and> length m' = length m
    \<and> (\<forall>i. bits m' i \<longleftrightarrow> \<not> (start \<le> i \<and> i < start + k) \<and> bits m i)"
  using assms
proof (induction k arbitrary: m start)
  case (Suc k)
  then obtain m' where m': "bit_clear m start = Some m'" "length m' = length m"
    "\<forall>i. bits m' i \<longleftrightarrow> i \<noteq> start \<and> bits m i" using bit_clear_effect [of start m] by auto
  obtain m'' where "clear_each m' (start + 1) k = Some m''" "length m'' = length m'"
    "\<forall>i. bits m'' i \<longleftrightarrow> \<not> (start + 1 \<le> i \<and> i < start + 1 + k) \<and> bits m' i"
    using Suc.IH [of "start + 1" m'] Suc.prems m'(2) by auto
  moreover from this(3) m'(3) have "\<forall>i. bits m'' i \<longleftrightarrow> \<not> (start \<le> i \<and> i < start + Suc k) \<and> bits m i"
    by (simp add: Suc_le_eq) (metis le_neq_implies_less less_add_Suc1 order.strict_implies_order order_refl)
  ultimately show ?case using m'(1,2) by simp
qed auto

text \<open>
  The whole bytes of a range are counted from the byte its first bit is in, the rest from the
  first bit: only for a range that starts at a byte are these the bits of the range.
\<close>

definition in_range :: "nat \<Rightarrow> nat \<Rightarrow> nat \<Rightarrow> bool" where
  "in_range start count i \<longleftrightarrow>
     start div 8 * 8 \<le> i \<and> i < start div 8 * 8 + count div 8 * 8
     \<or> start + count div 8 * 8 \<le> i \<and> i < start + count"

lemma in_range_aligned: "8 dvd start \<Longrightarrow> in_range start count i \<longleftrightarrow> start \<le> i \<and> i < start + count"
  by (auto simp: in_range_def)

lemma byte_of_iff: "i div 8 = q \<longleftrightarrow> q * 8 \<le> i \<and> i < q * 8 + (8 :: nat)"
  by linarith

lemma next_byte: "(start + 8) div 8 = Suc (start div (8 :: nat))"
  by simp

lemma in_range_rest: "\<not> 8 \<le> count \<Longrightarrow> in_range start count i \<longleftrightarrow> start \<le> i \<and> i < start + count"
  by (auto simp: in_range_def)

lemma in_range_step:
  assumes "8 \<le> count"
  shows "in_range start count i \<longleftrightarrow> i div 8 = start div 8 \<or> in_range (start + 8) (count - 8) i"
proof -
  have c: "count div 8 = Suc ((count - 8) div 8)" using assms by (simp add: le_div_geq)
  show ?thesis
    using assms unfolding in_range_def c next_byte byte_of_iff [of i "start div 8"] by auto
qed

lemma set_bits_loop_effect:
  assumes "start + count \<le> 8 * length m"
  shows "\<exists>m'. set_bits_loop m (start div 8) start count = Some m' \<and> length m' = length m
    \<and> (\<forall>i. bits m' i \<longleftrightarrow> in_range start count i \<or> bits m i)"
  using assms
proof (induction count arbitrary: m start rule: less_induct)
  case (less count)
  show ?case
  proof (cases "8 \<le> count")
    case True
    then have "start div 8 < length m" using less.prems by (intro byte_in) simp
    then obtain m' where m': "or_masks m (start div 8) start 8 = Some m'" "length m' = length m"
      "\<forall>i. bits m' i \<longleftrightarrow> i div 8 = start div 8 \<or> bits m i"
      using or_masks_effect [of "start div 8" m start 8] eight_masks by auto
    then show ?thesis
      using less.IH [of "count - 8" "start + 8" m'] True less.prems
      by (auto simp: next_byte disj_assoc disj_left_commute conj_assoc conj_left_commute set_bits_loop.simps [of m _ start count] in_range_step)
  next
    case False
    then show ?thesis using set_each_effect [OF less.prems]
      by (simp add: set_bits_loop.simps [of m _ start count] in_range_rest)
  qed
qed

lemma clear_bits_loop_effect:
  assumes "start + count \<le> 8 * length m"
  shows "\<exists>m'. clear_bits_loop m (start div 8) start count = Some m' \<and> length m' = length m
    \<and> (\<forall>i. bits m' i \<longleftrightarrow> \<not> in_range start count i \<and> bits m i)"
  using assms
proof (induction count arbitrary: m start rule: less_induct)
  case (less count)
  show ?case
  proof (cases "8 \<le> count")
    case True
    then have "start div 8 < length m" using less.prems by (intro byte_in) simp
    then obtain m' where m': "and_masks m (start div 8) start 8 = Some m'" "length m' = length m"
      "\<forall>i. bits m' i \<longleftrightarrow> i div 8 \<noteq> start div 8 \<and> bits m i"
      using and_masks_effect [of "start div 8" m start 8] eight_masks by auto
    then show ?thesis
      using less.IH [of "count - 8" "start + 8" m'] True less.prems
      by (auto simp: next_byte disj_assoc disj_left_commute conj_assoc conj_left_commute clear_bits_loop.simps [of m _ start count] in_range_step)
  next
    case False
    then show ?thesis using clear_each_effect [OF less.prems]
      by (simp add: clear_bits_loop.simps [of m _ start count] in_range_rest)
  qed
qed

subsection \<open>Searching\<close>

lemma find_append: "List.find P (xs @ ys) = (case List.find P xs of None \<Rightarrow> List.find P ys | Some x \<Rightarrow> Some x)"
  by (induction xs) auto

lemma bits_in_byte: "off < 8 \<Longrightarrow> bits m (p * 8 + off) \<longleftrightarrow> bit (m ! p) off"
  by (simp add: bits_def)

lemma find_in_byte_effect:
  assumes "p < length m" "off + k \<le> 8"
  shows "find_in_byte m p off k v = Some (List.find (\<lambda>i. bits m i = v) [p * 8 + off..<p * 8 + off + k])"
  using assms(2)
proof (induction k arbitrary: off)
  case (Suc k)
  have "[p * 8 + off..<p * 8 + off + Suc k] = (p * 8 + off) # [p * 8 + (off + 1)..<p * 8 + (off + 1) + k]"
    by (subst upt_conv_Cons) auto
  moreover have "m ! p AND bitmask off \<noteq> 0 \<longleftrightarrow> bits m (p * 8 + off)"
    using Suc.prems bits_in_byte [of off m p] by (simp add: and_bitmask_zero_iff)
  ultimately show ?case using Suc.IH [of "off + 1"] Suc.prems assms(1)
    by (simp add: buf_simps)
qed simp

lemma find_zero_byte: "m ! p = 0 \<Longrightarrow> List.find (bits m) [p * 8..<p * 8 + 8] = None"
  by (auto simp: find_None_iff2' bits_def) (metis bit_0_eq bot_apply bot_bool_def byte_of_iff mult.commute)

lemma find_in_nonzero:
  assumes "p < length m" "m ! p \<noteq> 0"
  shows "\<exists>i. List.find (bits m) [p * 8..<p * 8 + 8] = Some i"
proof -
  obtain j where j: "j < 8" "bit (m ! p) j"
    using assms(2) bit_imp_le_length [where 'a = 8] bit_eq_iff [of "m ! p" 0] by auto
  then have "bits m (p * 8 + j)" by (simp add: bits_in_byte)
  then show ?thesis using j(1) find_None_iff2' [of "bits m" "[p * 8..<p * 8 + 8]"]
    by (cases "List.find (bits m) [p * 8..<p * 8 + 8]") auto
qed

lemma skip_then_find:
  assumes "p + n \<le> length m"
  shows "do {
      stop \<leftarrow> skip_bytes m p n True;
      case stop of None \<Rightarrow> Some None | Some q \<Rightarrow> find_in_byte m q 0 8 True
    } = Some (List.find (bits m) [p * 8..<(p + n) * 8])"
  using assms
proof (induction n arbitrary: p)
  case (Suc n)
  have sp: "[p * 8..<(p + Suc n) * 8] = [p * 8..<p * 8 + 8] @ [Suc p * 8..<(Suc p + n) * 8]"
    using upt_add_eq_append [of "p * 8" "p * 8 + 8" "n * 8"] by (simp add: algebra_simps)
  show ?case
  proof (cases "m ! p = 0")
    case True
    then show ?thesis using Suc.IH [of "Suc p"] Suc.prems find_zero_byte [OF True]
      unfolding sp by (simp add: find_append buf_simps pattern_def)
  next
    case False
    moreover obtain i where "List.find (bits m) [p * 8..<p * 8 + 8] = Some i"
      using find_in_nonzero [of p m] False Suc.prems by auto
    ultimately show ?thesis using Suc.prems find_in_byte_effect [of p m 0 8 True]
      unfolding sp by (simp add: find_append buf_simps pattern_def unsigned_eq_0_iff)
  qed
qed simp

text \<open>Where more bytes are to be skipped than the map has, the loop leaves the map when they are all zero.\<close>

lemma skip_past_end:
  assumes "p \<le> length m" "length m < p + n"
  shows "do {
      stop \<leftarrow> skip_bytes m p n True;
      case stop of None \<Rightarrow> Some None | Some q \<Rightarrow> find_in_byte m q 0 8 True
    } = map_option Some (List.find (bits m) [p * 8..<length m * 8])"
  using assms
proof (induction n arbitrary: p)
  case (Suc n)
  show ?case
  proof (cases "p = length m")
    case True
    then show ?thesis by (simp add: buf_get_def)
  next
    case False
    then have p: "p < length m" using Suc.prems(1) by simp
    have sp: "[p * 8..<length m * 8] = [p * 8..<p * 8 + 8] @ [Suc p * 8..<length m * 8]"
      using upt_add_eq_append [of "p * 8" "p * 8 + 8" "length m * 8 - (p * 8 + 8)"] p by (simp add: add.commute)
    show ?thesis
    proof (cases "m ! p = 0")
      case True
      then show ?thesis using Suc.IH [of "Suc p"] Suc.prems p find_zero_byte [OF True]
        unfolding sp by (simp add: find_append buf_simps pattern_def)
    next
      case False
      moreover obtain i where "List.find (bits m) [p * 8..<p * 8 + 8] = Some i" using find_in_nonzero [OF p False] by blast
      ultimately show ?thesis using p find_in_byte_effect [of p m 0 8 True]
        unfolding sp by (simp add: find_append buf_simps pattern_def unsigned_eq_0_iff)
    qed
  qed
qed simp

text \<open>The number of bytes the loop is to look at: what is left of the size, rounded up.\<close>

lemma bytes_round_up: "unat (drop_bit 3 w + (if w AND 7 > 0 then 1 else 0 :: u64)) = (unat w + 7) div 8"
proof -
  have "x AND 7 = take_bit 3 x" for x :: u64
    unfolding take_bit_eq_mask by (simp add: mask_eq_exp_minus_1)
  then have "unat (w AND 7) = take_bit 3 (unat w)" by (simp only: unsigned_take_bit_eq)
  then have m: "unat (w AND 7) = unat w mod 8" by (simp add: take_bit_eq_mod)
  have d: "unat (drop_bit 3 w) = unat w div 8" by (simp add: unat_div_distrib drop_bit_eq_div)
  have "unat w < 2 ^ 64" using unsigned_less [of w, where 'a = nat] by simp
  then have "unat (drop_bit 3 w) + 1 < 2 ^ 64" unfolding d by simp
  then have "unat (drop_bit 3 w + 1) = unat w div 8 + 1" using d by (simp add: unat_word_ariths)
  moreover have "(unat w + 7) div 8 = unat w div 8 + (if unat w mod 8 = 0 then 0 else 1)" by presburger
  moreover have "w AND 7 > 0 \<longleftrightarrow> unat w mod 8 \<noteq> 0" unfolding m [symmetric] word_gt_0 by (simp add: unat_eq_zero)
  ultimately show ?thesis using d by simp
qed

lemma find_whole_set:
  assumes "p \<le> length m" "8 * length m < 2 ^ 64"
  shows "8 * p \<le> unat sz \<Longrightarrow> unat sz \<le> 8 * length m \<Longrightarrow> find_whole m sz p True = Some (List.find (bits m) [p * 8..<(unat sz + 7) div 8 * 8])"
    and "unat sz < 8 * p \<Longrightarrow> find_whole m sz p True = map_option Some (List.find (bits m) [p * 8..<length m * 8])"
proof -
  have "p * 8 < 2 ^ 64" using assms by linarith
  then have u: "unat (of_nat (p * 8) :: u64) = p * 8" by (rule unat_of_nat_u64)
  define left where "left = sz - of_nat (p * 8)"
  define n where "n = (unat left + 7) div 8"
  have fw: "find_whole m sz p True = (if n > 0 then do {
      stop \<leftarrow> skip_bytes m p n True;
      case stop of None \<Rightarrow> Some None | Some q \<Rightarrow> find_in_byte m q 0 8 True
    } else Some None)"
    unfolding find_whole_def Let_def left_def [symmetric] bytes_round_up n_def ..
  show "find_whole m sz p True = Some (List.find (bits m) [p * 8..<(unat sz + 7) div 8 * 8])"
    if a: "8 * p \<le> unat sz" "unat sz \<le> 8 * length m"
  proof -
    have "of_nat (p * 8) \<le> sz" unfolding word_le_nat_alt u using a by simp
    then have "unat left = unat sz - p * 8" unfolding left_def by (simp only: unat_sub u)
    then have n: "p + n = (unat sz + 7) div 8" unfolding n_def using a(1) by simp
    then have "p + n \<le> length m" using a(2) by linarith
    then show ?thesis using skip_then_find [of p n m] n unfolding fw by (cases "n = 0") auto
  qed
  show "find_whole m sz p True = map_option Some (List.find (bits m) [p * 8..<length m * 8])" if a: "unat sz < 8 * p"
  proof -
    have "\<not> of_nat (p * 8) \<le> sz" unfolding word_le_nat_alt u using a by simp
    then have "unat left = unat sz + 2 ^ 64 - p * 8" unfolding left_def unat_sub_if' u word_le_nat_alt by (simp add: u)
    then have "length m < p + n" "0 < n" unfolding n_def using assms by linarith+
    then show ?thesis using skip_past_end [OF assms(1), of n] unfolding fw by simp
  qed
qed

text \<open>The search from any bit on, whatever the size says: up to the end of the last byte of the size, or, where the size
  ends before the first whole byte the search comes to, up to the first bit set in the map.\<close>

lemma find_set_effect:
  assumes "offset \<le> 8 * length m" "8 * length m < 2 ^ 64"
  shows "(offset + 7) div 8 * 8 \<le> unat sz \<Longrightarrow> unat sz \<le> 8 * length m
      \<Longrightarrow> bit_find_first m sz offset True = Some (List.find (bits m) [offset..<(unat sz + 7) div 8 * 8])"
    and "unat sz < (offset + 7) div 8 * 8 \<Longrightarrow> bit_find_first m sz offset True = map_option Some (List.find (bits m) [offset..<length m * 8])"
proof -
  let ?p = "offset div 8" and ?r = "offset mod 8"
  obtain q r where q: "offset = q * 8 + r" "r < 8" "?p = q" "?r = r" using byte_split [of offset] by blast
  note whole = find_whole_set [OF _ assms(2), where sz = sz]
  have part: "bit_find_first m sz offset True = do {
      hit \<leftarrow> Some (List.find (bits m) [offset..<Suc ?p * 8]);
      case hit of Some i \<Rightarrow> Some (Some i) | None \<Rightarrow> find_whole m sz (Suc ?p) True
    }" "(offset + 7) div 8 = Suc ?p" "Suc ?p \<le> length m" if "?r \<noteq> 0"
  proof -
    show "(offset + 7) div 8 = Suc ?p" using that q by simp
    show "Suc ?p \<le> length m" using assms(1) that q by linarith
    then show "bit_find_first m sz offset True = do {
        hit \<leftarrow> Some (List.find (bits m) [offset..<Suc ?p * 8]);
        case hit of Some i \<Rightarrow> Some (Some i) | None \<Rightarrow> find_whole m sz (Suc ?p) True
      }"
      using that q(2) find_in_byte_effect [of q m r "8 - r" True] unfolding bit_find_first_def q(3,4) by (simp add: q(1) add.commute)
  qed
  have cut: "[offset..<n * 8] = [offset..<Suc ?p * 8] @ [Suc ?p * 8..<n * 8]" if "Suc ?p \<le> n" for n
    using upt_add_eq_append [of offset "Suc ?p * 8" "n * 8 - Suc ?p * 8"] that q by simp
  have whole_start: "bit_find_first m sz offset True = find_whole m sz ?p True" "?p * 8 = offset" "(offset + 7) div 8 = ?p" "?p \<le> length m" if "?r = 0"
    using that q assms(1) by (simp_all add: bit_find_first_def)
  show "bit_find_first m sz offset True = Some (List.find (bits m) [offset..<(unat sz + 7) div 8 * 8])"
    if a: "(offset + 7) div 8 * 8 \<le> unat sz" "unat sz \<le> 8 * length m"
  proof (cases "?r = 0")
    case True
    then show ?thesis using whole(1) [of ?p] whole_start a by (simp add: mult.commute)
  next
    case False
    note b = part [OF False]
    have "8 * Suc ?p \<le> unat sz" using a(1) b(2) by simp
    moreover from this have "Suc ?p \<le> (unat sz + 7) div 8" using div_le_mono [of "8 * Suc ?p" "unat sz + 7" 8] by simp
    ultimately show ?thesis using whole(1) [OF b(3) _ a(2)] cut [of "(unat sz + 7) div 8"] b(1)
      by (simp add: find_append split: option.split)
  qed
  show "bit_find_first m sz offset True = map_option Some (List.find (bits m) [offset..<length m * 8])"
    if a: "unat sz < (offset + 7) div 8 * 8"
  proof (cases "?r = 0")
    case True
    then show ?thesis using whole(2) [of ?p] whole_start a by (simp add: mult.commute)
  next
    case False
    note b = part [OF False]
    have "unat sz < 8 * Suc ?p" using a b(2) by simp
    then show ?thesis using whole(2) [OF b(3)] cut [OF b(3)] b(1) by (simp add: find_append split: option.split)
  qed
qed

text \<open>The search for a zero bit compares an unsigned byte with -1: it never skips a byte.\<close>

lemma find_zero_first_byte_only:
  assumes "unat sz = 8 * n" "p < n" "n \<le> length m"
  shows "bit_find_first m sz (p * 8) False = Some (List.find (\<lambda>i. \<not> bits m i) [p * 8..<p * 8 + 8])"
proof -
  have "uint b \<noteq> - 1" for b :: u8 using uint_nonnegative [of b] by linarith
  then have "skip_bytes m p (n - p) False = Some (Some p)"
    using assms(2,3) by (cases "n - p") (auto simp: buf_simps pattern_def)
  moreover have "(unat (sz - of_nat (p * 8)) + 7) div 8 = n - p"
  proof -
    have "p * 8 < 2 ^ 64" using assms unsigned_less [of sz, where 'a = nat] by simp
    then have u: "unat (of_nat (p * 8) :: u64) = p * 8" by (rule unat_of_nat_u64)
    then have "of_nat (p * 8) \<le> sz" unfolding word_le_nat_alt using assms by simp
    then have "unat (sz - of_nat (p * 8)) = 8 * n - p * 8" using assms by (simp only: unat_sub u)
    then show ?thesis using assms(2) by simp
  qed
  ultimately show ?thesis
    using find_in_byte_effect [of p m 0 8 False] assms(2,3)
    unfolding bit_find_first_def find_whole_def Let_def bytes_round_up by simp
qed

end
