(* ===== verification/Bloom_Filter.thy ===== *)
theory Bloom_Filter
  imports Bit_Array Allocator
begin

section \<open>bloom.c\<close>

text \<open>
  src/bloom-filter. The hash callback is a parameter: given the key, the number of hashes and the
  size of a slice it returns the values it stored in \<open>hashes\<close>, or None for a non-zero return.
  The counters are \<open>unsigned int\<close>; reading a hash the callback has not stored faults.
\<close>

type_synonym 'k bloom_hash = "'k \<Rightarrow> u32 \<Rightarrow> u32 \<Rightarrow> u32 list option"

record 'k bloom =
  hash_func :: "'k bloom_hash"
  bits_per_slice :: u32
  num_slices :: u32
  capacity :: u32
  count :: u32
  bloom_map :: "u8 list"

definition BLOOM_MAX_SLICES :: u32 where
  "BLOOM_MAX_SLICES = 8"

definition bloom_bits :: "u32 \<Rightarrow> u32 \<Rightarrow> u32" where
  "bloom_bits slices per_slice = slices * per_slice"

definition bloom_bytes :: "u32 \<Rightarrow> u32 \<Rightarrow> u32" where
  "bloom_bytes slices per_slice = drop_bit 3 (bloom_bits slices per_slice)"

definition bloom_alloc ::
    "u32 \<Rightarrow> u32 \<Rightarrow> u32 \<Rightarrow> 'k bloom_hash \<Rightarrow> alk \<Rightarrow> (int + 'k bloom) \<times> alk" where
  "bloom_alloc cap slices per_slice hash a =
     (if slices > BLOOM_MAX_SLICES then (Inl (- 1), a)
      else
        let nbytes = bloom_bytes slices per_slice;
            (ok, a) = mmalloc (unat nbytes) a
        in if \<not> ok then (Inl (- 2), a)
           else (Inr \<lparr>hash_func = hash, bits_per_slice = per_slice, num_slices = slices, capacity = cap,
                       count = 0, bloom_map = replicate (unat nbytes) 0\<rparr>, a))"

definition bloom_free :: "'k bloom \<Rightarrow> alk \<Rightarrow> alk" where
  "bloom_free b a = mmfree a"

fun add_slices :: "u8 list \<Rightarrow> u32 \<Rightarrow> u32 list \<Rightarrow> u32 \<Rightarrow> nat \<Rightarrow> u8 list option" where
  "add_slices m per_slice hashes offset 0 = Some m"
| "add_slices m per_slice hashes offset (Suc hi) =
     do {
       h \<leftarrow> buf_get hashes hi;
       m' \<leftarrow> bit_set m (unat (offset + h));
       add_slices m' per_slice hashes (offset + per_slice) hi
     }"

definition bloom_add :: "'k bloom \<Rightarrow> 'k \<Rightarrow> (int \<times> 'k bloom) option" where
  "bloom_add b key =
     (if count b \<ge> capacity b then Some (1, b)
      else
        case hash_func b key (num_slices b) (bits_per_slice b) of
          None \<Rightarrow> Some (- 1, b)
        | Some hashes \<Rightarrow>
            do {
              m \<leftarrow> add_slices (bloom_map b) (bits_per_slice b) hashes 0 (unat (num_slices b));
              Some (0, b\<lparr>bloom_map := m, count := count b + 1\<rparr>)
            })"

fun test_slices :: "u8 list \<Rightarrow> u32 \<Rightarrow> u32 list \<Rightarrow> u32 \<Rightarrow> nat \<Rightarrow> int option" where
  "test_slices m per_slice hashes offset 0 = Some 1"
| "test_slices m per_slice hashes offset (Suc hi) =
     do {
       h \<leftarrow> buf_get hashes hi;
       b \<leftarrow> bit_test m (unat (offset + h));
       if b = 0 then Some 0
       else test_slices m per_slice hashes (offset + per_slice) hi
     }"

definition bloom_contains :: "'k bloom \<Rightarrow> 'k \<Rightarrow> int option" where
  "bloom_contains b key =
     (case hash_func b key (num_slices b) (bits_per_slice b) of
        None \<Rightarrow> Some (- 1)
      | Some hashes \<Rightarrow> test_slices (bloom_map b) (bits_per_slice b) hashes 0 (unat (num_slices b)))"

text \<open>A run of insertions, with the value each call returned.\<close>

fun bloom_adds :: "'k bloom \<Rightarrow> 'k list \<Rightarrow> (int list \<times> 'k bloom) option" where
  "bloom_adds b [] = Some ([], b)"
| "bloom_adds b (k # ks) =
     do { (r, b') \<leftarrow> bloom_add b k; (rs, b'') \<leftarrow> bloom_adds b' ks; Some (r # rs, b'') }"

subsection \<open>No false negatives\<close>

text \<open>What the callback promises: one value below the size of a slice for each slice.\<close>

definition hash_in_range :: "'k bloom_hash \<Rightarrow> u32 \<Rightarrow> u32 \<Rightarrow> bool" where
  "hash_in_range hash slices per_slice \<longleftrightarrow>
     (\<forall>k hs. hash k slices per_slice = Some hs
        \<longrightarrow> length hs = unat slices \<and> (\<forall>h \<in> set hs. h < per_slice))"

text \<open>The map has all the bits of the slices, and their number does not wrap.\<close>

definition bloom_wf :: "'k bloom \<Rightarrow> bool" where
  "bloom_wf b \<longleftrightarrow> hash_in_range (hash_func b) (num_slices b) (bits_per_slice b)
     \<and> unat (num_slices b) * unat (bits_per_slice b) < 2 ^ 32
     \<and> unat (num_slices b) * unat (bits_per_slice b) \<le> 8 * length (bloom_map b)
     \<and> count b \<le> capacity b"

lemma slice_room:
  assumes "n \<le> N" "N * ps \<le> L" "hi < n" "h < ps"
  shows "(N - n) * ps + h < (L :: nat)"
proof -
  have "(N - n) * ps + ps \<le> N * ps"
  proof -
    have "Suc (N - n) \<le> N" using assms(1,3) by simp
    then have "Suc (N - n) * ps \<le> N * ps" by (rule mult_le_mono1)
    then show ?thesis by simp
  qed
  then show ?thesis using assms(2,4) by linarith
qed

text \<open>\<open>off\<close> is the number of slices already behind the loop.\<close>

lemma slice_offset:
  fixes ps h :: u32
  assumes "k * unat ps + unat h < 2 ^ 32"
  shows "unat (of_nat k * ps + h) = k * unat ps + unat h"
proof -
  have "of_nat k * ps + h = (of_nat (k * unat ps + unat h) :: u32)" by simp
  then show ?thesis using assms by (simp only: unat_of_nat) simp
qed

lemma add_slices_effect:
  assumes "n \<le> length hs" "\<forall>h \<in> set hs. h < ps" "k + n = N"
    and "N * unat ps < 2 ^ 32" "N * unat ps \<le> 8 * length m"
  shows "\<exists>m'. add_slices m ps hs (of_nat k * ps) n = Some m' \<and> length m' = length m
    \<and> (\<forall>i. bits m' i \<longleftrightarrow> (\<exists>j < n. i = (N - 1 - j) * unat ps + unat (hs ! j)) \<or> bits m i)"
  using assms
proof (induction n arbitrary: m k)
  case (Suc n)
  have h: "hs ! n < ps" "unat (hs ! n) < unat ps" using Suc.prems(1,2) by (simp_all add: word_less_nat_alt)
  have k: "k = N - 1 - n" using Suc.prems(3) by simp
  have "N - Suc n = k" using Suc.prems(3) by simp
  then have room: "k * unat ps + unat (hs ! n) < N * unat ps"
    using slice_room [of "Suc n" N "unat ps" "N * unat ps" n "unat (hs ! n)"] h Suc.prems(3) by simp
  then have o: "unat (of_nat k * ps + hs ! n) = k * unat ps + unat (hs ! n)"
    using Suc.prems(4) by (intro slice_offset) simp
  then obtain m1 where m1: "bit_set m (unat (of_nat k * ps + hs ! n)) = Some m1" "length m1 = length m"
    "\<forall>i. bits m1 i \<longleftrightarrow> i = k * unat ps + unat (hs ! n) \<or> bits m i"
    using bit_set_effect [of "k * unat ps + unat (hs ! n)" m] room Suc.prems(5) by auto
  have "of_nat k * ps + ps = of_nat (Suc k) * ps" by (simp add: algebra_simps)
  then obtain m2 where m2: "add_slices m1 ps hs (of_nat k * ps + ps) n = Some m2" "length m2 = length m"
    "\<forall>i. bits m2 i \<longleftrightarrow> (\<exists>j < n. i = (N - 1 - j) * unat ps + unat (hs ! j)) \<or> bits m1 i"
    using Suc.IH [of "Suc k" m1] Suc.prems m1(2) by auto
  have "bits m2 i \<longleftrightarrow> (\<exists>j < Suc n. i = (N - 1 - j) * unat ps + unat (hs ! j)) \<or> bits m i" for i
    using m2(3) m1(3) k by (auto simp: less_Suc_eq)
  then show ?case using m1(1) m2(1,2) Suc.prems(1) by (simp add: buf_simps)
qed simp

lemma test_slices_effect:
  assumes "n \<le> length hs" "\<forall>h \<in> set hs. h < ps" "k + n = N"
    and "N * unat ps < 2 ^ 32" "N * unat ps \<le> 8 * length m"
  shows "test_slices m ps hs (of_nat k * ps) n
    = Some (if \<forall>j < n. bits m ((N - 1 - j) * unat ps + unat (hs ! j)) then 1 else 0)"
  using assms
proof (induction n arbitrary: k)
  case (Suc n)
  have h: "hs ! n < ps" "unat (hs ! n) < unat ps" using Suc.prems(1,2) by (simp_all add: word_less_nat_alt)
  have k: "k = N - 1 - n" using Suc.prems(3) by simp
  have "N - Suc n = k" using Suc.prems(3) by simp
  then have room: "k * unat ps + unat (hs ! n) < N * unat ps"
    using slice_room [of "Suc n" N "unat ps" "N * unat ps" n "unat (hs ! n)"] h Suc.prems(3) by simp
  then have o: "unat (of_nat k * ps + hs ! n) = k * unat ps + unat (hs ! n)"
    using Suc.prems(4) by (intro slice_offset) simp
  obtain b where b: "bit_test m (k * unat ps + unat (hs ! n)) = Some b"
    "b \<noteq> 0 \<longleftrightarrow> bits m (k * unat ps + unat (hs ! n))"
    using bit_test_effect [of "k * unat ps + unat (hs ! n)" m] room Suc.prems(5) by auto
  have "of_nat k * ps + ps = of_nat (Suc k) * ps" by (simp add: algebra_simps)
  then have IH: "test_slices m ps hs (of_nat k * ps + ps) n
      = Some (if \<forall>j < n. bits m ((N - 1 - j) * unat ps + unat (hs ! j)) then 1 else 0)"
    using Suc.IH [of "Suc k"] Suc.prems by simp
  show ?case using b IH k Suc.prems(1) o by (auto simp: buf_simps less_Suc_eq)
qed simp

text \<open>A key all of whose bits are set. Hash \<open>j\<close> is looked up in the slice \<open>num_slices - 1 - j\<close>.\<close>

definition bloom_has :: "'k bloom \<Rightarrow> 'k \<Rightarrow> bool" where
  "bloom_has b k \<longleftrightarrow>
     (\<exists>hs. hash_func b k (num_slices b) (bits_per_slice b) = Some hs
       \<and> (\<forall>j < unat (num_slices b).
            bits (bloom_map b) ((unat (num_slices b) - 1 - j) * unat (bits_per_slice b) + unat (hs ! j))))"

lemma bloom_contains_has:
  assumes "bloom_wf b" "hash_func b k (num_slices b) (bits_per_slice b) \<noteq> None"
  shows "bloom_contains b k = Some (if bloom_has b k then 1 else 0)"
proof -
  obtain hs where hs: "hash_func b k (num_slices b) (bits_per_slice b) = Some hs" using assms(2) by auto
  then have "length hs = unat (num_slices b)" "\<forall>h \<in> set hs. h < bits_per_slice b"
    using assms(1) by (auto simp: bloom_wf_def hash_in_range_def)
  then have "test_slices (bloom_map b) (bits_per_slice b) hs (of_nat 0 * bits_per_slice b) (unat (num_slices b))
    = Some (if bloom_has b k then 1 else 0)"
    using assms(1) hs by (subst test_slices_effect) (auto simp: bloom_wf_def bloom_has_def)
  then show ?thesis by (simp add: bloom_contains_def hs)
qed

text \<open>An insertion returns, keeps the filter well-formed and loses no key.\<close>

definition bloom_grew :: "'k bloom \<Rightarrow> 'k bloom \<Rightarrow> bool" where
  "bloom_grew b b' \<longleftrightarrow> bloom_wf b' \<and> hash_func b' = hash_func b \<and> num_slices b' = num_slices b
     \<and> bits_per_slice b' = bits_per_slice b \<and> capacity b' = capacity b
     \<and> (\<forall>i. bits (bloom_map b) i \<longrightarrow> bits (bloom_map b') i)"

lemma bloom_grew_has: "bloom_grew b b' \<Longrightarrow> bloom_has b k \<Longrightarrow> bloom_has b' k"
  by (auto simp: bloom_grew_def bloom_has_def)

lemma bloom_add_effect:
  assumes "bloom_wf b"
  shows "\<exists>r b'. bloom_add b k = Some (r, b') \<and> bloom_grew b b' \<and> (r = 0 \<longrightarrow> bloom_has b' k)
    \<and> r = (if capacity b \<le> count b then 1 else if hash_func b k (num_slices b) (bits_per_slice b) = None then - 1 else 0)
    \<and> unat (count b') = (if r = 0 then Suc (unat (count b)) else unat (count b))"
proof (cases "count b < capacity b \<and> hash_func b k (num_slices b) (bits_per_slice b) \<noteq> None")
  case False
  have "bloom_grew b b" using assms by (simp add: bloom_grew_def)
  then show ?thesis using False by (auto simp: bloom_add_def not_less)
next
  case True
  let ?N = "unat (num_slices b)" and ?ps = "bits_per_slice b"
  obtain hs where hs: "hash_func b k (num_slices b) ?ps = Some hs" using True by auto
  have r: "length hs = ?N" "\<forall>h \<in> set hs. h < ?ps"
    using assms hs by (auto simp: bloom_wf_def hash_in_range_def)
  obtain m where m: "add_slices (bloom_map b) ?ps hs 0 ?N = Some m" "length m = length (bloom_map b)"
    "\<forall>i. bits m i \<longleftrightarrow> (\<exists>j < ?N. i = (?N - 1 - j) * unat ?ps + unat (hs ! j)) \<or> bits (bloom_map b) i"
    using add_slices_effect [of ?N hs ?ps 0 ?N "bloom_map b"] r assms by (auto simp: bloom_wf_def)
  have le: "count b + 1 \<le> capacity b" using True by (simp add: inc_le)
  have "unat (count b) + 1 \<le> unat (capacity b)" using True by (simp add: word_less_nat_alt)
  then have "unat (count b) + 1 < 2 ^ 32" using unsigned_less [of "capacity b", where 'a = nat] by simp
  then have "unat (count b + 1) = Suc (unat (count b))" by (simp add: unat_word_ariths)
  then show ?thesis
    using True hs m assms le by (auto simp: bloom_add_def bloom_grew_def bloom_wf_def bloom_has_def not_le)
qed

text \<open>What the calls return: 1 once as many insertions succeeded as the filter has room for, -1 when the callback fails.\<close>

definition successes :: "int list \<Rightarrow> nat" where
  "successes rs = length (filter (\<lambda>r. r = 0) rs)"

lemma successes_simps [simp]: "successes [] = 0" "successes (r # rs) = (if r = 0 then Suc (successes rs) else successes rs)"
  by (simp_all add: successes_def)

definition bloom_answer :: "'k bloom \<Rightarrow> nat \<Rightarrow> 'k \<Rightarrow> int" where
  "bloom_answer b n k = (if unat (capacity b) \<le> n then 1
     else if hash_func b k (num_slices b) (bits_per_slice b) = None then - 1 else 0)"

lemma bloom_adds_effect:
  assumes "bloom_wf b"
  shows "\<exists>rs b'. bloom_adds b ks = Some (rs, b') \<and> length rs = length ks \<and> bloom_grew b b'
    \<and> (\<forall>i < length ks. rs ! i = 0 \<longrightarrow> bloom_has b' (ks ! i))
    \<and> (\<forall>i < length ks. rs ! i = bloom_answer b (unat (count b) + successes (take i rs)) (ks ! i))
    \<and> unat (count b') = unat (count b) + successes rs"
  using assms
proof (induction ks arbitrary: b)
  case Nil
  then show ?case by (simp add: bloom_grew_def)
next
  case (Cons k ks)
  obtain r b1 where b1: "bloom_add b k = Some (r, b1)" "bloom_grew b b1" "r = 0 \<longrightarrow> bloom_has b1 k"
    "r = (if capacity b \<le> count b then 1 else if hash_func b k (num_slices b) (bits_per_slice b) = None then - 1 else 0)"
    "unat (count b1) = (if r = 0 then Suc (unat (count b)) else unat (count b))"
    using bloom_add_effect [OF Cons.prems] by blast
  then obtain rs b2 where b2: "bloom_adds b1 ks = Some (rs, b2)" "length rs = length ks" "bloom_grew b1 b2"
    "\<forall>i < length ks. rs ! i = 0 \<longrightarrow> bloom_has b2 (ks ! i)"
    "\<forall>i < length ks. rs ! i = bloom_answer b1 (unat (count b1) + successes (take i rs)) (ks ! i)"
    "unat (count b2) = unat (count b1) + successes rs"
    using Cons.IH [of b1] by (auto simp: bloom_grew_def)
  have "(r # rs) ! i = 0 \<longrightarrow> bloom_has b2 ((k # ks) ! i)" if "i < length (k # ks)" for i
    using that b1(3) b2(4) bloom_grew_has [OF b2(3), of k] by (cases i) auto
  moreover have "bloom_grew b b2" using b1(2) b2(3) by (simp add: bloom_grew_def)
  moreover have "bloom_answer b1 = bloom_answer b" using b1(2) by (intro ext) (simp add: bloom_answer_def bloom_grew_def)
  then have "(r # rs) ! i = bloom_answer b (unat (count b) + successes (take i (r # rs))) ((k # ks) ! i)" if "i < length (k # ks)" for i
    using that b1(4,5) b2(5) by (cases i) (simp_all add: bloom_answer_def word_le_nat_alt)
  moreover have "unat (count b2) = unat (count b) + successes (r # rs)" using b1(5) b2(6) by simp
  ultimately show ?case using b1(1) b2(1,2) by simp
qed

text \<open>The filter as it is made: well-formed when the slices fill whole bytes.\<close>

lemma bloom_alloc_wf:
  assumes "hash_in_range hash slices per_slice" "unat slices * unat per_slice < 2 ^ 32"
    and "8 dvd unat slices * unat per_slice" "bloom_alloc cap slices per_slice hash a = (Inr b, a')"
  shows "bloom_wf b" "hash_func b = hash" "num_slices b = slices" "bits_per_slice b = per_slice"
    "capacity b = cap" "count b = 0" "\<forall>i < 8 * length (bloom_map b). \<not> bits (bloom_map b) i"
proof -
  have m: "unat (slices * per_slice) = unat slices * unat per_slice"
    using assms(2) by (simp add: unat_word_ariths)
  then have n: "8 * unat (bloom_bytes slices per_slice) = unat slices * unat per_slice"
    using assms(3) by (simp add: bloom_bytes_def bloom_bits_def drop_bit_eq_div unat_div_distrib)
  have b: "b = \<lparr>hash_func = hash, bits_per_slice = per_slice, num_slices = slices, capacity = cap,
      count = 0, bloom_map = replicate (unat (bloom_bytes slices per_slice)) 0\<rparr>"
    using assms(4) by (auto simp: bloom_alloc_def Let_def split: if_splits prod.splits)
  then show "bloom_wf b" using assms(1,2) n by (simp add: bloom_wf_def)
  from b show "hash_func b = hash" "num_slices b = slices" "bits_per_slice b = per_slice"
    "capacity b = cap" "count b = 0" by simp_all
  from b show "\<forall>i < 8 * length (bloom_map b). \<not> bits (bloom_map b) i"
    using byte_in by (auto simp: bits_def)
qed

text \<open>Where the slices do not fill whole bytes the map is one byte short.\<close>

lemma bloom_add_overruns:
  assumes "hash () 1 12 = Some [9]"
  shows "\<exists>b a'. bloom_alloc 1 1 12 hash alk_generous = (Inr b, a') \<and> bloom_add b () = None"
proof -
  let ?b = "\<lparr>hash_func = hash, bits_per_slice = 12, num_slices = 1, capacity = 1, count = 0, bloom_map = [0]\<rparr>"
  have "unat (bloom_bytes 1 12) = 1" by (simp add: bloom_bytes_def bloom_bits_def drop_bit_eq_div)
  then have "fst (bloom_alloc 1 1 12 hash alk_generous) = Inr ?b"
    by (simp add: bloom_alloc_def BLOOM_MAX_SLICES_def mmalloc_def alk_generous_def Let_def)
  moreover have "add_slices [0] 12 [9] 0 1 = None"
    by (simp add: buf_get_def bit_set_def)
  then have "bloom_add ?b () = None" using assms by (simp add: bloom_add_def)
  ultimately show ?thesis by (metis prod.collapse)
qed

end
