(* ===== verification/Bit_Properties.thy ===== *)
theory Bit_Properties
  imports Bloom_Filter
begin

section \<open>Properties of the bit array and the Bloom filter\<close>

text \<open>
  Range updates and searches of src/bitarray against the abstract view \<open>bits\<close>, and the promise
  of src/bloom-filter: no false negatives.
\<close>

text \<open>C11. A range that starts at a byte is set, and cleared, by the byte-wise loops exactly: the
  bits of the range change, no other does, and no byte outside the map is accessed.\<close>

theorem bit_ranges_correct:
  assumes "8 dvd start" "start + n \<le> 8 * length (map_bytes a)"
  shows "(\<exists>a'. bitarray_set_bits a start n = Some a' \<and> length (map_bytes a') = length (map_bytes a)
      \<and> (\<forall>i. bits (map_bytes a') i \<longleftrightarrow> start \<le> i \<and> i < start + n \<or> bits (map_bytes a) i))
    \<and> (\<exists>a'. bitarray_clear_bits a start n = Some a' \<and> length (map_bytes a') = length (map_bytes a)
      \<and> (\<forall>i. bits (map_bytes a') i \<longleftrightarrow> \<not> (start \<le> i \<and> i < start + n) \<and> bits (map_bytes a) i))"
  using set_bits_loop_effect [OF assms(2)] clear_bits_loop_effect [OF assms(2)] in_range_aligned [OF assms(1)]
  by (auto simp: bitarray_set_bits_def bitarray_clear_bits_def)

theorem bit_ranges_correct_witness:
  "(\<exists>a'. bitarray_set_bits \<lparr>map_bytes = [0, 0, 0], map_bits = 24\<rparr> 8 11 = Some a'
      \<and> (\<forall>i. bits (map_bytes a') i \<longleftrightarrow> 8 \<le> i \<and> i < 19 \<or> bits [0, 0, 0] i))"
  using bit_ranges_correct [of 8 11 "\<lparr>map_bytes = [0, 0, 0], map_bits = 24\<rparr>"] by auto

text \<open>C12. \<open>bitarray_find_set\<close>, which skips zero bytes whole, from any bit of the map on, for a field \<open>size\<close> (a
  number of bits) that does not go beyond the map, or that ends before the first whole byte. When the size is within the map and not before the first whole byte the search comes to, it
  returns the first set bit up to the end of the last byte of the size, or -1 when there is none, and reads no byte
  outside the map. When the size is less than that (as the size in bytes is that test-bitarray.c gives), what is left of
  it wraps: the first set bit of the map is returned, and when there is none the search leaves the map (a fault).\<close>

theorem find_set_correct:
  assumes "offset \<le> 8 * length (map_bytes a)" "8 * length (map_bytes a) < 2 ^ 64"
  defines "first_whole \<equiv> (offset + 7) div 8 * 8" and "stop \<equiv> (unat (map_bits a) + 7) div 8 * 8"
  shows "(first_whole \<le> unat (map_bits a) \<and> unat (map_bits a) \<le> 8 * length (map_bytes a)
      \<longrightarrow> bitarray_find_set a offset = Some (List.find (bits (map_bytes a)) [offset..<stop]))
    \<and> (unat (map_bits a) < first_whole
      \<longrightarrow> bitarray_find_set a offset
        = (case List.find (bits (map_bytes a)) [offset..<8 * length (map_bytes a)] of None \<Rightarrow> None | Some i \<Rightarrow> Some (Some i)))"
  using find_set_effect [OF assms(1,2), of "map_bits a"] unfolding first_whole_def stop_def
  by (simp add: bitarray_find_set_def mult.commute split: option.split)

theorem find_set_correct_witness:
  "bitarray_find_set \<lparr>map_bytes = [1, 0, 4], map_bits = 24\<rparr> 3 = Some (Some 18)
    \<and> bitarray_find_set \<lparr>map_bytes = [1, 0, 0], map_bits = 3\<rparr> 3 = None"
proof -
  have r: "[3..<24] = [3, 4, 5, 6, 7, 8, 9, 10, 11, 12, 13, 14, 15, 16, 17, 18, 19, 20, 21, 22, 23]"
    by (simp add: upt_rec)
  have "bitarray_find_set \<lparr>map_bytes = [1, 0, 4], map_bits = 24\<rparr> 3 = Some (List.find (bits [1, 0, 4]) [3..<24])"
    using find_set_correct [of 3 "\<lparr>map_bytes = [1, 0, 4], map_bits = 24\<rparr>"] by simp
  moreover have "bitarray_find_set \<lparr>map_bytes = [1, 0, 0], map_bits = 3\<rparr> 3 = map_option Some (List.find (bits [1, 0, 0]) [3..<24])"
    using find_set_correct [of 3 "\<lparr>map_bytes = [1, 0, 0], map_bits = 3\<rparr>"] by (simp split: option.split)
  ultimately show ?thesis unfolding r by (simp add: bits_def bit_iff_odd)
qed

text \<open>C13. No false negatives: after any run of insertions into a filter just made (with slices that
  fill whole bytes and a callback whose hashes are within a slice), every key whose insertion returned 0 is reported as
  contained. Every insertion returns 1 when as many before it succeeded as the capacity, else -1 when the callback fails,
  and else 0; so at most the capacity succeed, and \<open>count\<close> is their number.\<close>

theorem bloom_no_false_negatives:
  assumes "hash_in_range hash slices per_slice" "unat slices * unat per_slice < 2 ^ 32"
    and "8 dvd unat slices * unat per_slice" "bloom_alloc cap slices per_slice hash a = (Inr b, a')"
  shows "\<exists>rs b'. bloom_adds b ks = Some (rs, b') \<and> length rs = length ks
    \<and> (\<forall>i < length ks. rs ! i = 0 \<longrightarrow> bloom_contains b' (ks ! i) = Some 1)
    \<and> (\<forall>i < length ks. rs ! i = (if unat cap \<le> successes (take i rs) then 1 else if hash (ks ! i) slices per_slice = None then - 1 else 0))
    \<and> successes rs \<le> unat cap \<and> unat (count b') = successes rs"
proof -
  note b = bloom_alloc_wf [OF assms]
  obtain rs b' where r: "bloom_adds b ks = Some (rs, b')" "length rs = length ks" "bloom_grew b b'"
    "\<forall>i < length ks. rs ! i = 0 \<longrightarrow> bloom_has b' (ks ! i)"
    "\<forall>i < length ks. rs ! i = bloom_answer b (unat (count b) + successes (take i rs)) (ks ! i)"
    "unat (count b') = unat (count b) + successes rs"
    using bloom_adds_effect [OF b(1), of ks] by blast
  then have wf: "bloom_wf b'" by (simp add: bloom_grew_def)
  have "bloom_contains b' (ks ! i) = Some 1" if "i < length ks" "rs ! i = 0" for i
    using that r(4) bloom_contains_has [OF wf, of "ks ! i"] by (auto simp: bloom_has_def)
  moreover have "unat (count b') \<le> unat cap" using wf r(3) b(5) by (simp add: bloom_wf_def bloom_grew_def word_le_nat_alt)
  moreover have "unat (count b') = successes rs" using r(6) b(6) by simp
  moreover have "rs ! i = (if unat cap \<le> successes (take i rs) then 1 else if hash (ks ! i) slices per_slice = None then - 1 else 0)"
    if "i < length ks" for i
    using r(5) that unfolding bloom_answer_def b(2-6) by simp
  ultimately show ?thesis using r(1,2) by metis
qed

theorem bloom_no_false_negatives_witness:
  "\<exists>b a' rs b'. bloom_alloc 5 2 8 (\<lambda>k _ _. Some [k mod 8, k div 8 mod 8]) alk_generous = (Inr b, a')
    \<and> bloom_adds b [17, 42] = Some (rs, b')
    \<and> (\<forall>i < length [17, 42 :: u32]. rs ! i = 0 \<longrightarrow> bloom_contains b' ([17, 42] ! i) = Some 1)"
proof -
  let ?h = "\<lambda>k _ _. Some [k mod 8, k div 8 mod 8] :: u32 list option"
  have "hash_in_range ?h 2 8" by (simp add: hash_in_range_def word_mod_less_divisor)
  note sound = bloom_no_false_negatives [OF this, of 5 alk_generous _ _ "[17, 42]"]
  have "\<exists>b. fst (bloom_alloc 5 2 8 ?h alk_generous) = Inr b"
    by (simp add: bloom_alloc_def BLOOM_MAX_SLICES_def mmalloc_def alk_generous_def Let_def)
  then obtain b where "fst (bloom_alloc 5 2 8 ?h alk_generous) = Inr b" by (elim exE)
  then have b: "bloom_alloc 5 2 8 ?h alk_generous = (Inr b, snd (bloom_alloc 5 2 8 ?h alk_generous))"
    by (simp only: prod_eq_iff fst_conv snd_conv simp_thms)
  have "unat (2 :: u32) * unat (8 :: u32) < 2 ^ 32" "8 dvd unat (2 :: u32) * unat (8 :: u32)" by simp_all
  from sound [OF this b] obtain rs b' where r: "bloom_adds b [17, 42] = Some (rs, b')"
    "\<forall>i < length [17, 42 :: u32]. rs ! i = 0 \<longrightarrow> bloom_contains b' ([17, 42] ! i) = Some 1"
    by (elim exE conjE)
  show ?thesis
    by (rule exI, rule exI, rule exI, rule exI, rule conjI [OF b conjI [OF r(1) r(2)]])
qed

end
