(* ===== verification/Item_Queue.thy ===== *)
theory Item_Queue
  imports Allocator
begin

section \<open>queue.c\<close>

text \<open>
  src/queue: a queue of pointers in a chain of nodes with an array of 64 pointers each. The chain
  is the list of nodes from \<open>head\<close> on; \<open>tail\<close> is its last node, and when the chain is empty a
  node that has been released (or NULL), so that a write through it faults (where the node is
  already in the pool the code itself only goes wrong at the next pop, which reads through the NULL
  head). A slot of a node that has not been written is None, and reading it faults. \<open>q_freed\<close> lists the arguments of the
  calls of \<open>item_free\<close>, in order (None: NULL).
\<close>

subsection \<open>The operations\<close>

record 'a qnode =
  items :: "'a option list"
  offset :: nat
  used :: nat

record 'a queue =
  q_chain :: "'a qnode list"
  q_pool :: nat
  q_circular :: nat
  q_nitems :: nat
  q_item_free :: bool
  q_freed :: "'a option list"
  q_alk :: alk

definition QUEUE_NITEMS :: nat where
  "QUEUE_NITEMS = 64"

definition QUEUE_POOL_SIZE :: nat where
  "QUEUE_POOL_SIZE = 8"

definition qnode_bytes :: nat where
  "qnode_bytes = 528"

definition qnode_fresh :: "'a qnode" where
  "qnode_fresh = \<lparr>items = replicate QUEUE_NITEMS None, offset = 0, used = 0\<rparr>"

definition qnode_alloc :: "'a queue \<Rightarrow> 'a qnode option \<times> 'a queue" where
  "qnode_alloc q =
     (if q_pool q > 0 then (Some qnode_fresh, q\<lparr>q_pool := q_pool q - 1\<rparr>)
      else
        let (ok, a) = mmalloc qnode_bytes (q_alk q)
        in (if ok then Some qnode_fresh else None, q\<lparr>q_alk := a\<rparr>))"

text \<open>The items freed are the first \<open>used\<close> of the array, from the last down.\<close>

fun qnode_free_items :: "'a option list \<Rightarrow> nat \<Rightarrow> 'a option list \<Rightarrow> 'a option list option" where
  "qnode_free_items xs 0 freed = Some freed"
| "qnode_free_items xs (Suc n) freed =
     do { x \<leftarrow> buf_get xs n; y \<leftarrow> x; qnode_free_items xs n (freed @ [Some y]) }"

definition qnode_free :: "'a queue \<Rightarrow> 'a qnode \<Rightarrow> 'a queue option" where
  "qnode_free q node =
     do {
       freed \<leftarrow> (if q_item_free q then qnode_free_items (items node) (used node) (q_freed q)
                 else Some (q_freed q));
       let q = q\<lparr>q_freed := freed\<rparr>;
       Some (if q_pool q < QUEUE_POOL_SIZE then q\<lparr>q_pool := q_pool q + 1\<rparr>
             else q\<lparr>q_alk := mmfree (q_alk q)\<rparr>)
     }"

definition queue_circular_alloc :: "nat \<Rightarrow> bool \<Rightarrow> alk \<Rightarrow> 'a queue" where
  "queue_circular_alloc circular item_free a =
     \<lparr>q_chain = [], q_pool = 0, q_circular = circular, q_nitems = 0, q_item_free = item_free,
      q_freed = [], q_alk = a\<rparr>"

definition queue_alloc :: "bool \<Rightarrow> alk \<Rightarrow> 'a queue" where
  "queue_alloc item_free a = queue_circular_alloc 0 item_free a"

text \<open>\<open>queue_free\<close> leaves the structure behind unusable; the model keeps what it released.\<close>

fun free_chain :: "'a queue \<Rightarrow> 'a qnode list \<Rightarrow> 'a queue option" where
  "free_chain q [] = Some q"
| "free_chain q (node # chain) = do { q' \<leftarrow> qnode_free q node; free_chain q' chain }"

definition queue_free :: "'a queue \<Rightarrow> 'a queue option" where
  "queue_free q =
     do {
       q \<leftarrow> free_chain q (q_chain q);
       Some (q\<lparr>q_alk := (mmfree ^^ q_pool q) (q_alk q)\<rparr>)
     }"

definition queue_size :: "'a queue \<Rightarrow> nat" where
  "queue_size q = q_nitems q"

definition queue_pop :: "'a queue \<Rightarrow> ('a option \<times> 'a queue) option" where
  "queue_pop q =
     (if q_nitems q = 0 then Some (None, q)
      else
        case q_chain q of
          [] \<Rightarrow> None
        | node # rest \<Rightarrow>
            do {
              slot \<leftarrow> buf_get (items node) (offset node);
              element \<leftarrow> slot;
              let node = node\<lparr>offset := offset node + 1, used := used node - 1\<rparr>;
              let q = q\<lparr>q_nitems := q_nitems q - 1\<rparr>;
              q \<leftarrow> (if used node = 0 then qnode_free (q\<lparr>q_chain := rest\<rparr>) node
                    else Some (q\<lparr>q_chain := node # rest\<rparr>));
              Some (Some element, q)
            })"

definition tail_put :: "'a queue \<Rightarrow> 'a qnode list \<Rightarrow> 'a qnode \<Rightarrow> 'a \<Rightarrow> (int \<times> 'a queue) option" where
  "tail_put q front node element =
     do {
       xs \<leftarrow> buf_set (items node) (offset node + used node) (Some element);
       Some (0, q\<lparr>q_chain := front @ [node\<lparr>items := xs, used := used node + 1\<rparr>],
                  q_nitems := q_nitems q + 1\<rparr>)
     }"

text \<open>
  The branch that moves the items back to the start of a node asks for 64 items behind a positive
  offset, so it reads past the node wherever it is taken, and faults (\<open>x + 1\<close> is one byte on in
  the code, \<open>x\<close> being a \<open>void *\<close>, and one slot on here; both end past the array). A well-formed
  queue never takes it.
\<close>

definition queue_append :: "'a queue \<Rightarrow> 'a \<Rightarrow> (int \<times> 'a queue) option" where
  "queue_append q element =
     (if q_chain q = [] then None
      else
        let node = last (q_chain q); front = butlast (q_chain q)
        in if used node = QUEUE_NITEMS
           then if offset node > 0
                then do {
                  xs \<leftarrow> buf_read (items node) (offset node + 1) (used node);
                  ys \<leftarrow> buf_write (items node) (offset node) xs;
                  tail_put q front (node\<lparr>items := ys, offset := 0\<rparr>) element
                }
                else case qnode_alloc q of
                       (None, q) \<Rightarrow> Some (- 2, q)
                     | (Some fresh, q) \<Rightarrow> tail_put q (q_chain q) fresh element
           else tail_put q front node element)"

definition queue_push :: "'a queue \<Rightarrow> 'a \<Rightarrow> (int \<times> 'a queue) option" where
  "queue_push q element =
     (if q_chain q = []
      then case qnode_alloc q of
             (None, q) \<Rightarrow> Some (- 1, q)
           | (Some fresh, q) \<Rightarrow> queue_append (q\<lparr>q_chain := [fresh]\<rparr>) element
      else if q_nitems q = q_circular q \<and> q_nitems q > 0
      then do {
        (x, q) \<leftarrow> queue_pop q;
        queue_append (if q_item_free q then q\<lparr>q_freed := q_freed q @ [x]\<rparr> else q) element
      }
      else queue_append q element)"

subsection \<open>Contents and invariant\<close>

definition node_view :: "'a qnode \<Rightarrow> 'a option list" where
  "node_view node = take (used node) (drop (offset node) (items node))"

definition queue_view :: "'a queue \<Rightarrow> 'a list" where
  "queue_view q = map the (concat (map node_view (q_chain q)))"

definition qnode_wf :: "'a qnode \<Rightarrow> bool" where
  "qnode_wf node \<longleftrightarrow> length (items node) = QUEUE_NITEMS \<and> offset node + used node \<le> QUEUE_NITEMS
     \<and> 0 < used node \<and> None \<notin> set (node_view node)"

definition queue_wf :: "'a queue \<Rightarrow> bool" where
  "queue_wf q \<longleftrightarrow> (\<forall>node \<in> set (q_chain q). qnode_wf node) \<and> q_nitems q = length (queue_view q)
     \<and> q_pool q \<le> QUEUE_POOL_SIZE"

text \<open>The nodes the queue holds, in the chain and in the pool, are the blocks it has allocated.\<close>

definition queue_blocks :: "'a queue \<Rightarrow> int" where
  "queue_blocks q = int (length (q_chain q)) + int (q_pool q)"

definition same_setup :: "'a queue \<Rightarrow> 'a queue \<Rightarrow> bool" where
  "same_setup q q' \<longleftrightarrow> q_circular q' = q_circular q \<and> q_item_free q' = q_item_free q
     \<and> alk_live (q_alk q') - queue_blocks q' = alk_live (q_alk q) - queue_blocks q
     \<and> (never_refuses (q_alk q) \<longrightarrow> never_refuses (q_alk q'))"

lemma same_setup_refl [simp]: "same_setup q q"
  by (simp add: same_setup_def)

lemma same_setup_trans: "same_setup p q \<Longrightarrow> same_setup q r \<Longrightarrow> same_setup p r"
  by (simp add: same_setup_def)

lemma queue_wf_empty_iff: "queue_wf q \<Longrightarrow> q_nitems q = 0 \<longleftrightarrow> q_chain q = []"
  by (cases "q_chain q") (auto simp: queue_wf_def queue_view_def qnode_wf_def node_view_def)

lemma queue_wf_circular_alloc: "queue_wf (queue_circular_alloc c f a)" "queue_view (queue_circular_alloc c f a) = []"
  by (simp_all add: queue_wf_def queue_view_def queue_circular_alloc_def)

lemma node_view_Cons:
  assumes "qnode_wf node"
  shows "\<exists>x. items node ! offset node = Some x
    \<and> node_view node = Some x # node_view (node\<lparr>offset := offset node + 1, used := used node - 1\<rparr>)"
proof -
  obtain k where k: "used node = Suc k" using assms by (cases "used node") (auto simp: qnode_wf_def)
  then have "offset node < length (items node)" using assms by (simp add: qnode_wf_def)
  then have "node_view node = items node ! offset node
      # node_view (node\<lparr>offset := offset node + 1, used := used node - 1\<rparr>)"
    using k by (simp add: node_view_def take_drop_Cons)
  moreover from this have "items node ! offset node \<noteq> None" using assms unfolding qnode_wf_def
    by (metis list.set_intros(1))
  then obtain x where "items node ! offset node = Some x" by blast
  ultimately show ?thesis by simp
qed

lemma qnode_free_empty:
  assumes "used node = 0" "q_pool q \<le> QUEUE_POOL_SIZE"
  shows "\<exists>q'. qnode_free q node = Some q' \<and> q_chain q' = q_chain q \<and> q_nitems q' = q_nitems q
    \<and> q_freed q' = q_freed q \<and> q_circular q' = q_circular q \<and> q_item_free q' = q_item_free q
    \<and> q_pool q' \<le> QUEUE_POOL_SIZE \<and> alk_live (q_alk q') - int (q_pool q') = alk_live (q_alk q) - int (q_pool q) - 1
    \<and> never_refuses (q_alk q') = never_refuses (q_alk q)"
  using assms by (simp add: qnode_free_def Let_def)

text \<open>\<open>queue_pop\<close> never faults on a well-formed queue.\<close>

lemma queue_pop_effect:
  assumes "queue_wf q"
  shows "case queue_view q of
      [] \<Rightarrow> queue_pop q = Some (None, q)
    | x # xs \<Rightarrow> \<exists>q'. queue_pop q = Some (Some x, q') \<and> queue_wf q' \<and> queue_view q' = xs
        \<and> q_freed q' = q_freed q \<and> same_setup q q'"
proof (cases "q_chain q")
  case Nil
  then show ?thesis using queue_wf_empty_iff [OF assms] by (simp add: queue_view_def queue_pop_def)
next
  case (Cons node rest)
  then have n: "qnode_wf node" "\<forall>nd \<in> set rest. qnode_wf nd" using assms by (auto simp: queue_wf_def)
  let ?node = "node\<lparr>offset := offset node + 1, used := used node - 1\<rparr>"
  obtain x where x: "items node ! offset node = Some x" "node_view node = Some x # node_view ?node"
    using node_view_Cons [OF n(1)] by blast
  define xs where "xs = map the (concat (map node_view (?node # rest)))"
  have v: "queue_view q = x # xs" by (simp add: queue_view_def Cons x(2) xs_def)
  have get: "buf_get (items node) (offset node) = Some (Some x)"
    using n(1) x(1) by (simp add: buf_get_def qnode_wf_def)
  have ni: "q_nitems q = Suc (length xs)" using assms v by (simp add: queue_wf_def)
  have "\<exists>q'. queue_pop q = Some (Some x, q') \<and> queue_wf q' \<and> queue_view q' = xs
      \<and> q_freed q' = q_freed q \<and> same_setup q q'"
  proof (cases "used node - 1 = 0")
    case True
    let ?q = "q\<lparr>q_nitems := q_nitems q - 1, q_chain := rest\<rparr>"
    obtain q' where q': "qnode_free ?q ?node = Some q'" "q_chain q' = rest" "q_nitems q' = length xs"
      "q_freed q' = q_freed q" "q_circular q' = q_circular q" "q_item_free q' = q_item_free q"
      "q_pool q' \<le> QUEUE_POOL_SIZE" "alk_live (q_alk q') - int (q_pool q') = alk_live (q_alk q) - int (q_pool q) - 1"
      "never_refuses (q_alk q') = never_refuses (q_alk q)"
      using qnode_free_empty [of ?node ?q] True assms ni by (auto simp: queue_wf_def)
    have "node_view ?node = []" using True by (simp add: node_view_def)
    then have "queue_view q' = xs" using q'(2) by (simp add: queue_view_def xs_def)
    then show ?thesis using q' True Cons get ni n(2)
      by (auto simp: queue_pop_def queue_wf_def same_setup_def queue_blocks_def Let_def)
  next
    case False
    then have "qnode_wf ?node" using n(1) x(2) by (auto simp: qnode_wf_def)
    then show ?thesis using False Cons get ni n(2) assms
      by (auto simp: queue_pop_def queue_wf_def queue_view_def same_setup_def queue_blocks_def xs_def Let_def)
  qed
  then show ?thesis by (simp add: v)
qed

text \<open>
  The slot behind the last item of the tail node: it is not in the node when items have been
  popped from the node and 64 have been pushed to it, a case the code takes for room.
\<close>

definition tail_full :: "'a queue \<Rightarrow> bool" where
  "tail_full q \<longleftrightarrow> q_chain q \<noteq> []
     \<and> 0 < offset (last (q_chain q)) \<and> offset (last (q_chain q)) + used (last (q_chain q)) = QUEUE_NITEMS"

lemma tail_put_effect:
  assumes "\<forall>nd \<in> set front. qnode_wf nd" "q_pool q \<le> QUEUE_POOL_SIZE"
    and "length (items node) = QUEUE_NITEMS" "offset node + used node < QUEUE_NITEMS" "None \<notin> set (node_view node)"
    and "q_nitems q = length (concat (map node_view front)) + used node"
  shows "\<exists>q'. tail_put q front node e = Some (0, q') \<and> queue_wf q'
    \<and> queue_view q' = map the (concat (map node_view front) @ node_view node) @ [e]
    \<and> length (q_chain q') = Suc (length front) \<and> q_freed q' = q_freed q \<and> q_pool q' = q_pool q
    \<and> q_circular q' = q_circular q \<and> q_item_free q' = q_item_free q \<and> q_alk q' = q_alk q"
proof -
  let ?i = "offset node + used node"
  let ?node = "node\<lparr>items := (items node)[?i := Some e], used := Suc (used node)\<rparr>"
  have "take (Suc (used node)) (drop (offset node) ((items node)[?i := Some e]))
      = take (used node) (drop (offset node) ((items node)[?i := Some e])) @ [Some e]"
    using assms(3,4) by (subst take_drop_nth) simp_all
  then have v: "node_view ?node = node_view node @ [Some e]"
    by (simp add: node_view_def drop_update_swap)
  then have "qnode_wf ?node" using assms(3-5) by (simp add: qnode_wf_def)
  then show ?thesis using assms v
    by (auto simp: tail_put_def buf_simps queue_wf_def queue_view_def node_view_def)
qed

lemma queue_append_overruns:
  assumes "queue_wf q" "tail_full q"
  shows "queue_append q e = None"
proof -
  have "qnode_wf (last (q_chain q))" using assms by (simp add: queue_wf_def tail_full_def)
  then show ?thesis using assms(2)
    by (simp add: tail_full_def queue_append_def tail_put_def buf_set_def qnode_wf_def Let_def)
qed

lemma qnode_alloc_cases:
  obtains (fresh) q' where "qnode_alloc q = (Some qnode_fresh, q')" "q_chain q' = q_chain q"
      "q_nitems q' = q_nitems q" "q_freed q' = q_freed q" "q_circular q' = q_circular q"
      "q_item_free q' = q_item_free q" "q_pool q' \<le> q_pool q"
      "alk_live (q_alk q') - int (q_pool q') = alk_live (q_alk q) - int (q_pool q) + 1"
      "never_refuses (q_alk q) \<longrightarrow> never_refuses (q_alk q')"
  | (refused) q' where "qnode_alloc q = (None, q')" "q_chain q' = q_chain q"
      "q_nitems q' = q_nitems q" "q_freed q' = q_freed q" "q_circular q' = q_circular q"
      "q_item_free q' = q_item_free q" "q_pool q' = q_pool q" "alk_live (q_alk q') = alk_live (q_alk q)"
      "\<not> never_refuses (q_alk q)"
proof (cases "q_pool q > 0")
  case True
  then show ?thesis by (intro fresh [of "q\<lparr>q_pool := q_pool q - 1\<rparr>"]) (auto simp: qnode_alloc_def)
next
  case False
  obtain ok a where m: "mmalloc qnode_bytes (q_alk q) = (ok, a)" by fastforce
  show ?thesis
  proof (cases ok)
    case True
    then show ?thesis using m False mmalloc_live [OF m] mmalloc_never_refuses(2) [OF _ m]
      by (intro fresh [of "q\<lparr>q_alk := a\<rparr>"]) (auto simp: qnode_alloc_def)
  next
    case nok: False
    then have "\<not> never_refuses (q_alk q)" using mmalloc_never_refuses(1) [OF _ m] by blast
    then show ?thesis using m False nok mmalloc_live [OF m]
      by (intro refused [of "q\<lparr>q_alk := a\<rparr>"]) (auto simp: qnode_alloc_def)
  qed
qed

definition pushed :: "'a queue \<Rightarrow> 'a \<Rightarrow> 'a list \<Rightarrow> (int \<times> 'a queue) option \<Rightarrow> bool" where
  "pushed q e xs out \<longleftrightarrow> (\<exists>r q'. out = Some (r, q') \<and> queue_wf q' \<and> q_freed q' = q_freed q \<and> same_setup q q'
     \<and> (r = 0 \<and> queue_view q' = xs @ [e] \<or> r < 0 \<and> queue_view q' = xs \<and> \<not> never_refuses (q_alk q)))"

lemma fresh_view [simp]: "node_view qnode_fresh = []" "used qnode_fresh = 0"
  "length (items qnode_fresh) = QUEUE_NITEMS" "offset qnode_fresh = 0"
  by (simp_all add: node_view_def qnode_fresh_def)

lemma queue_append_effect:
  assumes "queue_wf q" "q_chain q \<noteq> []" "\<not> tail_full q"
  shows "pushed q e (queue_view q) (queue_append q e)"
proof -
  define front nd where "front = butlast (q_chain q)" and "nd = last (q_chain q)"
  have c: "q_chain q = front @ [nd]" using assms(2) by (simp add: front_def nd_def)
  have wf: "\<forall>n \<in> set front. qnode_wf n" "qnode_wf nd" "q_pool q \<le> QUEUE_POOL_SIZE"
    using assms(1) by (simp_all add: queue_wf_def c)
  have v: "queue_view q = map the (concat (map node_view front) @ node_view nd)" by (simp add: queue_view_def c)
  have len: "length (node_view nd) = used nd" using wf(2) by (auto simp: node_view_def qnode_wf_def)
  have ni: "q_nitems q = length (concat (map node_view front)) + used nd"
    using assms(1) v len by (simp add: queue_wf_def)
  show ?thesis
  proof (cases "used nd = QUEUE_NITEMS")
    case False
    then have "offset nd + used nd < QUEUE_NITEMS" using assms(3) wf(2) c
      by (cases "offset nd") (auto simp: tail_full_def qnode_wf_def)
    then obtain q' where q': "tail_put q front nd e = Some (0, q')" "queue_wf q'" "queue_view q' = queue_view q @ [e]"
      "length (q_chain q') = Suc (length front)" "q_freed q' = q_freed q" "q_pool q' = q_pool q"
      "q_circular q' = q_circular q" "q_item_free q' = q_item_free q" "q_alk q' = q_alk q"
      using tail_put_effect [OF wf(1,3) _ _ _ ni] wf(2) v by (auto simp: qnode_wf_def)
    moreover have "queue_append q e = tail_put q front nd e" using False c by (simp add: queue_append_def)
    ultimately show ?thesis using c by (simp add: pushed_def same_setup_def queue_blocks_def)
  next
    case True
    then have "offset nd = 0" using wf(2) by (simp add: qnode_wf_def)
    then have ap: "queue_append q e = (case qnode_alloc q of (None, q) \<Rightarrow> Some (- 2, q)
        | (Some fresh, q) \<Rightarrow> tail_put q (q_chain q) fresh e)"
      using True c by (simp add: queue_append_def)
    show ?thesis
    proof (cases rule: qnode_alloc_cases [of q])
      case (fresh q1)
      have "\<exists>q'. tail_put q1 (q_chain q1) qnode_fresh e = Some (0, q') \<and> queue_wf q'
          \<and> queue_view q' = map the (concat (map node_view (q_chain q1)) @ node_view qnode_fresh) @ [e]
          \<and> length (q_chain q') = Suc (length (q_chain q1)) \<and> q_freed q' = q_freed q1 \<and> q_pool q' = q_pool q1
          \<and> q_circular q' = q_circular q1 \<and> q_item_free q' = q_item_free q1 \<and> q_alk q' = q_alk q1"
        using assms(1) fresh ni len wf(3) c
        by (intro tail_put_effect) (auto simp: queue_wf_def QUEUE_NITEMS_def)
      then show ?thesis using fresh ap
        by (auto simp: pushed_def same_setup_def queue_blocks_def queue_view_def)
    next
      case (refused q1)
      then show ?thesis using ap assms(1)
        by (auto simp: pushed_def same_setup_def queue_blocks_def queue_view_def queue_wf_def)
    qed
  qed
qed

lemma queue_append_first:
  assumes "queue_wf q" "q_chain q = []" "qnode_alloc q = (Some qnode_fresh, q1)"
  shows "pushed q e [] (queue_append (q1\<lparr>q_chain := [qnode_fresh]\<rparr>) e)"
  using assms(3)
proof (cases rule: qnode_alloc_cases [of q])
  case (fresh q2)
  then have q1: "q2 = q1" using assms(3) by simp
  have "\<exists>q'. tail_put (q1\<lparr>q_chain := [qnode_fresh]\<rparr>) [] qnode_fresh e = Some (0, q') \<and> queue_wf q'
      \<and> queue_view q' = map the (concat (map node_view []) @ node_view qnode_fresh) @ [e]
      \<and> length (q_chain q') = Suc (length ([] :: 'a qnode list)) \<and> q_freed q' = q_freed (q1\<lparr>q_chain := [qnode_fresh]\<rparr>)
      \<and> q_pool q' = q_pool (q1\<lparr>q_chain := [qnode_fresh]\<rparr>) \<and> q_circular q' = q_circular (q1\<lparr>q_chain := [qnode_fresh]\<rparr>)
      \<and> q_item_free q' = q_item_free (q1\<lparr>q_chain := [qnode_fresh]\<rparr>) \<and> q_alk q' = q_alk (q1\<lparr>q_chain := [qnode_fresh]\<rparr>)"
    using assms(1,2) fresh q1 queue_wf_empty_iff [OF assms(1)]
    by (intro tail_put_effect) (auto simp: queue_wf_def QUEUE_NITEMS_def)
  then show ?thesis using fresh q1 assms(2)
    by (auto simp: pushed_def queue_append_def same_setup_def queue_blocks_def QUEUE_NITEMS_def)
qed simp

text \<open>A push into a full circular queue first frees and drops the oldest item.\<close>

definition evicts :: "'a queue \<Rightarrow> bool" where
  "evicts q \<longleftrightarrow> q_nitems q = q_circular q \<and> q_nitems q > 0"

definition after_eviction :: "'a queue \<Rightarrow> 'a queue" where
  "after_eviction q =
     (if evicts q
      then case queue_pop q of
             Some (x, q') \<Rightarrow> (if q_item_free q then q'\<lparr>q_freed := q_freed q' @ [x]\<rparr> else q')
           | None \<Rightarrow> q
      else q)"

definition push_overruns :: "'a queue \<Rightarrow> bool" where
  "push_overruns q \<longleftrightarrow> tail_full (after_eviction q) \<or> evicts q \<and> q_nitems q = 1"

lemma after_eviction_effect:
  assumes "queue_wf q"
  shows "queue_wf (after_eviction q) \<and> same_setup q (after_eviction q)
    \<and> queue_view (after_eviction q) = (if evicts q then tl (queue_view q) else queue_view q)
    \<and> q_freed (after_eviction q)
      = q_freed q @ (if evicts q \<and> q_item_free q then [Some (hd (queue_view q))] else [])"
proof (cases "evicts q")
  case True
  then obtain x xs where v: "queue_view q = x # xs"
    using assms by (cases "queue_view q") (auto simp: evicts_def queue_wf_def)
  then obtain q' where q': "queue_pop q = Some (Some x, q')" "queue_wf q'" "queue_view q' = xs"
    "q_freed q' = q_freed q" "same_setup q q'"
    using queue_pop_effect [OF assms] by auto
  then show ?thesis using True v
    by (auto simp: after_eviction_def queue_wf_def queue_view_def same_setup_def queue_blocks_def)
next
  case False
  then show ?thesis using assms by (simp add: after_eviction_def)
qed

lemma queue_push_eq:
  assumes "queue_wf q" "q_chain q \<noteq> []"
  shows "queue_push q e = queue_append (after_eviction q) e"
proof (cases "evicts q")
  case True
  then obtain x xs where "queue_view q = x # xs"
    using assms(1) by (cases "queue_view q") (auto simp: evicts_def queue_wf_def)
  then obtain q' where q': "queue_pop q = Some (Some x, q')" "same_setup q q'"
    using queue_pop_effect [OF assms(1)] by auto
  then show ?thesis using True assms(2)
    by (auto simp: queue_push_def after_eviction_def evicts_def same_setup_def)
next
  case False
  then show ?thesis using assms(2) by (auto simp: queue_push_def after_eviction_def evicts_def)
qed

lemma queue_push_effect:
  assumes "queue_wf q" "\<not> push_overruns q"
  shows "pushed (after_eviction q) e (queue_view (after_eviction q)) (queue_push q e)"
proof (cases "q_chain q = []")
  case True
  then have ev: "\<not> evicts q" "queue_view q = []" "q_nitems q = 0"
    using queue_wf_empty_iff [OF assms(1)] by (auto simp: evicts_def queue_view_def)
  show ?thesis
  proof (cases rule: qnode_alloc_cases [of q])
    case (fresh q1)
    then show ?thesis using queue_append_first [OF assms(1) True fresh(1), of e] True ev
      by (simp add: queue_push_def after_eviction_def)
  next
    case (refused q1)
    then show ?thesis using True ev assms(1)
      by (auto simp: queue_push_def after_eviction_def pushed_def same_setup_def queue_blocks_def
          queue_view_def queue_wf_def)
  qed
next
  case False
  note ae = after_eviction_effect [OF assms(1)]
  have "q_chain (after_eviction q) \<noteq> []"
  proof (cases "evicts q")
    case True
    then have "q_nitems q \<noteq> 1" "q_nitems q > 0" using assms(2) by (auto simp: push_overruns_def evicts_def)
    then have "length (queue_view q) > 1" using assms(1) unfolding queue_wf_def by linarith
    then have "length (queue_view (after_eviction q)) > 0" using ae True by simp
    then show ?thesis by (auto simp: queue_view_def)
  qed (use False in \<open>simp add: after_eviction_def\<close>)
  then show ?thesis
    using queue_append_effect [of "after_eviction q" e] ae assms(2) queue_push_eq [OF assms(1) False]
    by (simp add: push_overruns_def)
qed

lemma queue_push_overruns:
  assumes "queue_wf q" "push_overruns q"
  shows "queue_push q e = None"
proof -
  note ae = after_eviction_effect [OF assms(1)]
  have c: "q_chain q \<noteq> []"
    using assms queue_wf_empty_iff [OF assms(1)]
    by (auto simp: push_overruns_def after_eviction_def tail_full_def evicts_def split: if_splits)
  show ?thesis
  proof (cases "evicts q \<and> q_nitems q = 1")
    case True
    then have "queue_view (after_eviction q) = []" using ae assms(1)
      by (cases "queue_view q") (auto simp: queue_wf_def)
    then have "q_chain (after_eviction q) = []"
      using ae queue_wf_empty_iff [of "after_eviction q"] by (simp add: queue_wf_def)
    then show ?thesis using queue_push_eq [OF assms(1) c] by (simp add: queue_append_def)
  next
    case False
    then have "tail_full (after_eviction q)" using assms(2) unfolding push_overruns_def by blast
    then show ?thesis using queue_append_overruns [of "after_eviction q" e] ae queue_push_eq [OF assms(1) c] by simp
  qed
qed

text \<open>A node that is freed with its items frees the first \<open>used\<close> slots of its array, whatever its
  \<open>offset\<close>: after pops these are popped items, and the last ones held are not freed.\<close>

lemma qnode_free_items_eq:
  "n \<le> length xs \<Longrightarrow> None \<notin> set (take n xs) \<Longrightarrow> qnode_free_items xs n freed = Some (freed @ rev (take n xs))"
proof (induction n arbitrary: freed)
  case (Suc n)
  then have "take (Suc n) xs = take n xs @ [xs ! n]" by (simp add: take_Suc_conv_app_nth)
  then show ?case using Suc by (cases "xs ! n") (auto simp: buf_simps)
qed simp

lemma queue_free_releases:
  assumes "\<not> q_item_free q"
  shows "\<exists>q'. queue_free q = Some q' \<and> alk_live (q_alk q') = alk_live (q_alk q) - queue_blocks q"
proof -
  have "\<exists>q'. free_chain q chain = Some q'
      \<and> alk_live (q_alk q') - int (q_pool q') = alk_live (q_alk q) - int (q_pool q) - int (length chain)"
    if "\<not> q_item_free q" for q :: "'a queue" and chain using that
  proof (induction chain arbitrary: q)
    case (Cons node chain)
    obtain q1 where q1: "qnode_free q node = Some q1" "\<not> q_item_free q1"
      "alk_live (q_alk q1) - int (q_pool q1) = alk_live (q_alk q) - int (q_pool q) - 1"
      using Cons.prems by (simp add: qnode_free_def Let_def)
    then show ?case using Cons.IH [OF q1(2)] by auto
  qed simp
  from this [OF assms, of "q_chain q"] show ?thesis by (auto simp: queue_free_def queue_blocks_def)
qed

subsection \<open>Sequences of operations\<close>

text \<open>What a client relies on in a queue: a push appends or runs out of room, a pop takes the first.\<close>

locale fifo =
  fixes wf :: "'q \<Rightarrow> bool" and view :: "'q \<Rightarrow> 'e list" and limit :: "'q \<Rightarrow> nat"
    and push :: "'q \<Rightarrow> 'e \<Rightarrow> (int \<times> 'q) option" and pop :: "'q \<Rightarrow> ('e option \<times> 'q) option"
  assumes push_law: "wf q \<Longrightarrow> push q e = Some (r, q') \<Longrightarrow> wf q' \<and> limit q' = limit q \<and> r = 0
      \<and> view q' = (if length (view q) = limit q \<and> view q \<noteq> [] then tl (view q) else view q) @ [e]"
    and pop_law: "wf q \<Longrightarrow> \<exists>q'. pop q = Some (if view q = [] then None else Some (hd (view q)), q')
      \<and> wf q' \<and> limit q' = limit q \<and> view q' = tl (view q)"

datatype 'e qop = Push 'e | Pop

fun run_queue :: "('q \<Rightarrow> 'e \<Rightarrow> (int \<times> 'q) option) \<Rightarrow> ('q \<Rightarrow> ('e option \<times> 'q) option)
    \<Rightarrow> 'q \<Rightarrow> 'e qop list \<Rightarrow> ('e option list \<times> 'q) option" where
  "run_queue push pop q [] = Some ([], q)"
| "run_queue push pop q (Push e # ops) =
     do { (r, q') \<leftarrow> push q e; run_queue push pop q' ops }"
| "run_queue push pop q (Pop # ops) =
     do { (x, q') \<leftarrow> pop q; (xs, q'') \<leftarrow> run_queue push pop q' ops; Some (x # xs, q'') }"

text \<open>The reference: a list, and a limit on its length (0: none).\<close>

fun run_list :: "nat \<Rightarrow> 'e list \<Rightarrow> 'e qop list \<Rightarrow> 'e option list \<times> 'e list" where
  "run_list c xs [] = ([], xs)"
| "run_list c xs (Push e # ops) = run_list c ((if length xs = c \<and> xs \<noteq> [] then tl xs else xs) @ [e]) ops"
| "run_list c [] (Pop # ops) = (let (ys, zs) = run_list c [] ops in (None # ys, zs))"
| "run_list c (x # xs) (Pop # ops) = (let (ys, zs) = run_list c xs ops in (Some x # ys, zs))"

context fifo begin

lemma run_queue_refines:
  assumes "wf q" "run_queue push pop q ops = Some (out, q')"
  shows "run_list (limit q) (view q) ops = (out, view q') \<and> wf q'"
  using assms
proof (induction ops arbitrary: q out)
  case (Cons op ops)
  show ?case
  proof (cases op)
    case (Push e)
    then obtain r q1 where q1: "push q e = Some (r, q1)" "run_queue push pop q1 ops = Some (out, q')"
      using Cons.prems(2) by (auto simp: bind_Some_iff)
    then show ?thesis using Cons.IH [OF _ q1(2)] push_law [OF Cons.prems(1) q1(1)] Push by auto
  next
    case Pop
    obtain q1 where q1: "pop q = Some (if view q = [] then None else Some (hd (view q)), q1)" "wf q1"
      "limit q1 = limit q" "view q1 = tl (view q)" using pop_law [OF Cons.prems(1)] by blast
    then obtain out1 where "run_queue push pop q1 ops = Some (out1, q')"
      "out = (if view q = [] then None else Some (hd (view q))) # out1"
      using Cons.prems(2) Pop by (auto simp: bind_Some_iff)
    then show ?thesis using Cons.IH [OF q1(2)] q1(3,4) Pop by (cases "view q") auto
  qed
qed simp

end

interpretation iq: fifo "\<lambda>q. queue_wf q \<and> never_refuses (q_alk q)" queue_view q_circular queue_push queue_pop
proof unfold_locales
  fix q q' :: "'a queue" and e r
  assume q: "queue_wf q \<and> never_refuses (q_alk q)"
  show "\<exists>q'. queue_pop q = Some (if queue_view q = [] then None else Some (hd (queue_view q)), q')
      \<and> (queue_wf q' \<and> never_refuses (q_alk q')) \<and> q_circular q' = q_circular q \<and> queue_view q' = tl (queue_view q)"
    using queue_pop_effect [of q] q by (cases "queue_view q") (auto simp: same_setup_def)
  assume p: "queue_push q e = Some (r, q')"
  then have "\<not> push_overruns q" using queue_push_overruns [of q e] q by auto
  note pu = queue_push_effect [of q e, OF _ this] and ae = after_eviction_effect [of q]
  have ev: "evicts q \<longleftrightarrow> length (queue_view q) = q_circular q \<and> queue_view q \<noteq> []"
    using q by (auto simp: evicts_def queue_wf_def)
  have "pushed (after_eviction q) e (queue_view (after_eviction q)) (Some (r, q'))" using pu q p by simp
  then show "(queue_wf q' \<and> never_refuses (q_alk q')) \<and> q_circular q' = q_circular q \<and> r = 0
      \<and> queue_view q' = (if length (queue_view q) = q_circular q \<and> queue_view q \<noteq> [] then tl (queue_view q)
          else queue_view q) @ [e]"
    using ae q unfolding pushed_def ev by (auto simp: same_setup_def)
qed

text \<open>A queue that only ever was pushed to has room for more.\<close>

definition unpopped :: "'a queue \<Rightarrow> bool" where
  "unpopped q \<longleftrightarrow> (\<forall>node \<in> set (q_chain q). offset node = 0) \<and> q_circular q = 0"

lemma unpopped_push:
  assumes "queue_wf q" "unpopped q" "never_refuses (q_alk q)"
  shows "\<exists>q'. queue_push q e = Some (0, q') \<and> queue_wf q' \<and> unpopped q' \<and> never_refuses (q_alk q')
    \<and> queue_view q' = queue_view q @ [e]"
proof -
  have ev: "\<not> evicts q" "after_eviction q = q" using assms(2) by (auto simp: evicts_def unpopped_def after_eviction_def)
  have "\<not> push_overruns q" using assms(2) ev by (auto simp: push_overruns_def tail_full_def unpopped_def)
  from queue_push_effect [OF assms(1) this, of e] obtain q' where q': "queue_push q e = Some (0, q')"
    "queue_wf q'" "queue_view q' = queue_view q @ [e]" "same_setup q q'"
    using assms(3) ev by (auto simp: pushed_def)
  have "offset node = 0" if "node \<in> set (q_chain q')" for node
    using q'(1) that assms(2) ev(1)
    by (auto simp: queue_push_def queue_append_def tail_put_def qnode_alloc_def Let_def unpopped_def evicts_def
        qnode_fresh_def bind_Some_iff split: if_splits prod.splits option.splits dest!: in_set_butlastD)
  then show ?thesis using q' assms(2,3) by (auto simp: unpopped_def same_setup_def)
qed

lemma fill_runs:
  assumes "queue_wf q" "unpopped q" "never_refuses (q_alk q)"
  shows "\<exists>q'. run_queue queue_push queue_pop q (map Push es) = Some ([], q') \<and> queue_wf q'
    \<and> never_refuses (q_alk q') \<and> queue_view q' = queue_view q @ es"
  using assms
proof (induction es arbitrary: q)
  case (Cons e es)
  obtain q1 where "queue_push q e = Some (0, q1)" "queue_wf q1" "unpopped q1" "never_refuses (q_alk q1)"
    "queue_view q1 = queue_view q @ [e]" using unpopped_push [OF Cons.prems] by blast
  then show ?case using Cons.IH [of q1] by auto
qed simp

lemma drain_runs:
  assumes "queue_wf q" "queue_view q = es"
  shows "\<exists>q'. run_queue queue_push queue_pop q (replicate (length es) Pop) = Some (map Some es, q')
    \<and> queue_wf q' \<and> queue_view q' = []"
  using assms
proof (induction es arbitrary: q)
  case (Cons e es)
  then obtain q1 where "queue_pop q = Some (Some e, q1)" "queue_wf q1" "queue_view q1 = es"
    using queue_pop_effect [OF Cons.prems(1)] by auto
  then show ?case using Cons.IH [of q1] by auto
qed simp

lemma run_queue_append:
  "run_queue push pop q (ops @ ops') =
    do { (xs, q') \<leftarrow> run_queue push pop q ops; (ys, q'') \<leftarrow> run_queue push pop q' ops'; Some (xs @ ys, q'') }"
proof (induction push pop q ops rule: run_queue.induct)
  case (1 push pop q)
  then show ?case by (cases "run_queue push pop q ops'") auto
next
  case (2 push pop q e ops)
  then show ?case by (cases "push q e") auto
next
  case (3 push pop q ops)
  then show ?case by (cases "pop q") (auto split: bind_splits)
qed

subsection \<open>Which sequences overrun\<close>

text \<open>
  Where the items of a queue lie is known from two numbers: how many have been popped from the
  first node, and how many items there are. The nodes but the last end full, and the nodes but
  the first start at 0.
\<close>

fun chained :: "nat \<Rightarrow> 'a qnode list \<Rightarrow> bool" where
  "chained off [] = (off = 0)"
| "chained off [node] = (offset node = off)"
| "chained off (node # next # rest) = (offset node = off \<and> off + used node = QUEUE_NITEMS \<and> chained 0 (next # rest))"

fun popped :: "nat \<times> nat \<Rightarrow> nat \<times> nat" where
  "popped (off, n) = (if n \<le> 1 then (0, 0) else if Suc off = QUEUE_NITEMS then (0, n - 1) else (Suc off, n - 1))"

text \<open>
  The sequences of pushes and pops in which some push goes wrong, on a queue of at most \<open>c\<close> items
  (0: any number): after the eviction a full queue makes room with, the queue is empty although it
  was not before, or its items are the last ones of a single node that has been popped from.
\<close>

fun runs_over :: "nat \<Rightarrow> nat \<times> nat \<Rightarrow> 'e qop list \<Rightarrow> bool" where
  "runs_over c p [] = False"
| "runs_over c p (Pop # ops) = runs_over c (popped p) ops"
| "runs_over c p (Push e # ops) =
     (let (off, n) = (if snd p = c \<and> 0 < snd p then popped p else p)
      in n = 0 \<and> 0 < snd p \<or> 0 < off \<and> off + n = QUEUE_NITEMS \<or> runs_over c (off, Suc n) ops)"

definition queue_placed :: "'a queue \<Rightarrow> nat \<times> nat \<Rightarrow> bool" where
  "queue_placed q p \<longleftrightarrow> chained (fst p) (q_chain q) \<and> snd p = q_nitems q"

lemma chained_snoc:
  "chained off (front @ [node]) \<Longrightarrow> offset node' = offset node \<Longrightarrow> chained off (front @ [node'])"
  by (induction off front rule: chained.induct) auto

lemma chained_extend:
  "chained off (front @ [node]) \<Longrightarrow> offset node + used node = QUEUE_NITEMS \<Longrightarrow> offset node' = 0
   \<Longrightarrow> chained off (front @ [node, node'])"
  by (induction off front rule: chained.induct) auto

lemma node_view_length: "qnode_wf node \<Longrightarrow> length (node_view node) = used node"
  by (auto simp: qnode_wf_def node_view_def)

lemma chained_total:
  assumes "chained off chain" "chain \<noteq> []" "\<forall>node \<in> set chain. qnode_wf node"
  shows "if length chain = 1 then offset (last chain) = off \<and> length (concat (map node_view chain)) = used (last chain)
    else offset (last chain) = 0 \<and> off + length (concat (map node_view chain)) > QUEUE_NITEMS"
  using assms
proof (induction off chain rule: chained.induct)
  case (3 off node "next" rest)
  then show ?case
    by (cases rest) (auto simp: node_view_length qnode_wf_def)
qed (auto simp: node_view_length)

lemma queue_placed_tail_full:
  assumes "queue_wf q" "queue_placed q p"
  shows "tail_full q \<longleftrightarrow> q_chain q \<noteq> [] \<and> 0 < fst p \<and> fst p + snd p = QUEUE_NITEMS"
proof (cases "q_chain q = []")
  case False
  have "length (concat (map node_view (q_chain q))) = snd p"
    using assms by (simp add: queue_wf_def queue_placed_def queue_view_def)
  then show ?thesis using chained_total [of "fst p" "q_chain q"] assms False
    by (auto simp: queue_wf_def queue_placed_def tail_full_def split: if_splits)
qed (simp add: tail_full_def)

lemma queue_placed_pop:
  assumes "queue_wf q" "queue_placed q p" "queue_pop q = Some (x, q')"
  shows "queue_placed q' (popped p)"
proof (cases "q_chain q")
  case Nil
  then show ?thesis using assms queue_wf_empty_iff [OF assms(1)]
    by (cases p) (auto simp: queue_pop_def queue_placed_def)
next
  case (Cons node rest)
  have ch: "q_chain q' = (if used node = 1 then rest
      else node\<lparr>offset := Suc (offset node), used := used node - 1\<rparr> # rest)" "q_nitems q' = q_nitems q - 1"
    using assms(3) Cons assms(1) queue_wf_empty_iff [OF assms(1)]
    by (auto simp: queue_pop_def Let_def qnode_free_def bind_Some_iff queue_wf_def qnode_wf_def split: if_splits)
  have wf: "\<forall>nd \<in> set (q_chain q). qnode_wf nd" and n: "length (concat (map node_view (q_chain q))) = snd p"
    using assms by (simp_all add: queue_wf_def queue_placed_def queue_view_def)
  then have u: "0 < used node" "offset node + used node \<le> QUEUE_NITEMS" "length (node_view node) = used node"
    using Cons node_view_length by (auto simp: qnode_wf_def)
  show ?thesis
  proof (cases rest)
    case Nil
    then show ?thesis using ch Cons assms(2) u n by (cases p) (auto simp: queue_placed_def)
  next
    case (Cons nd rest')
    then have "0 < length (node_view nd)" using wf \<open>q_chain q = node # rest\<close> by (auto simp: node_view_length qnode_wf_def)
    then show ?thesis using ch \<open>q_chain q = node # rest\<close> Cons assms(2) u n by (cases p) (auto simp: queue_placed_def)
  qed
qed

lemma queue_placed_append:
  assumes "queue_wf q" "queue_placed q p" "q_chain q \<noteq> []" "queue_append q e = Some (0, q')"
  shows "queue_placed q' (fst p, Suc (snd p))"
proof -
  define front nd where "front = butlast (q_chain q)" and "nd = last (q_chain q)"
  have c: "q_chain q = front @ [nd]" using assms(3) by (simp add: front_def nd_def)
  have wf: "qnode_wf nd" using assms(1) by (simp add: queue_wf_def c)
  have ch: "chained (fst p) (front @ [nd])" "snd p = q_nitems q" using assms(2) c by (simp_all add: queue_placed_def)
  show ?thesis
  proof (cases "used nd = QUEUE_NITEMS")
    case False
    then have "tail_put q front nd e = Some (0, q')" using assms(4) c by (simp add: queue_append_def)
    then show ?thesis using chained_snoc [OF ch(1)] ch(2)
      by (auto simp: tail_put_def bind_Some_iff queue_placed_def)
  next
    case True
    then have o: "offset nd = 0" using wf by (simp add: qnode_wf_def)
    then obtain q1 where q1: "qnode_alloc q = (Some qnode_fresh, q1)" "tail_put q1 (q_chain q1) qnode_fresh e = Some (0, q')"
      "q_chain q1 = q_chain q" "q_nitems q1 = q_nitems q"
      using True assms(3,4) c by (cases rule: qnode_alloc_cases [of q]) (auto simp: queue_append_def)
    then show ?thesis using chained_extend [OF ch(1), of "qnode_fresh\<lparr>items := _, used := _\<rparr>"] ch(2) c True o
      by (auto simp: tail_put_def bind_Some_iff queue_placed_def chained_extend)
  qed
qed

lemma queue_placed_push:
  assumes "queue_wf q" "queue_placed q p" "never_refuses (q_alk q)"
  defines "p1 \<equiv> if snd p = q_circular q \<and> 0 < snd p then popped p else p"
  defines "over \<equiv> snd p1 = 0 \<and> 0 < snd p \<or> 0 < fst p1 \<and> fst p1 + snd p1 = QUEUE_NITEMS"
  shows "if over then queue_push q e = None
    else \<exists>q'. queue_push q e = Some (0, q') \<and> queue_placed q' (fst p1, Suc (snd p1))"
proof -
  have ev: "evicts q \<longleftrightarrow> snd p = q_circular q \<and> 0 < snd p" using assms(2) by (simp add: evicts_def queue_placed_def)
  note ae = after_eviction_effect [OF assms(1)]
  have p1: "queue_placed (after_eviction q) p1"
  proof (cases "evicts q")
    case True
    then obtain x xs where "queue_view q = x # xs"
      using assms(1) by (cases "queue_view q") (auto simp: evicts_def queue_wf_def)
    then obtain q' where "queue_pop q = Some (Some x, q')" using queue_pop_effect [OF assms(1)] by auto
    then show ?thesis using queue_placed_pop [OF assms(1,2)] True ev
      by (simp add: after_eviction_def p1_def queue_placed_def)
  next
    case False
    then show ?thesis using assms(2) ev by (auto simp: after_eviction_def p1_def)
  qed
  have n: "q_chain (after_eviction q) = [] \<longleftrightarrow> snd p1 = 0"
    using queue_wf_empty_iff [of "after_eviction q"] ae p1 by (simp add: queue_placed_def)
  have one: "evicts q \<and> q_nitems q = 1 \<longleftrightarrow> snd p1 = 0 \<and> 0 < snd p"
    using ev assms(2) by (cases p) (auto simp: p1_def queue_placed_def)
  have z: "fst p1 = 0" if "snd p1 = 0" using p1 n that by (simp add: queue_placed_def)
  have over: "over \<longleftrightarrow> push_overruns q"
    using queue_placed_tail_full [OF _ p1] ae n one z unfolding over_def push_overruns_def by auto
  show ?thesis
  proof (cases over)
    case True
    then show ?thesis using queue_push_overruns [OF assms(1)] over by simp
  next
    case False
    then obtain q' where q': "queue_push q e = Some (0, q')"
      using queue_push_effect [OF assms(1), of e] over ae assms(3) unfolding pushed_def same_setup_def by force
    have "queue_placed q' (fst p1, Suc (snd p1))"
    proof (cases "q_chain q = []")
      case True
      then have e: "p1 = p" "fst p = 0" "snd p = 0"
        using assms(2) queue_wf_empty_iff [OF assms(1)] by (simp_all add: p1_def queue_placed_def)
      show ?thesis using q' True e queue_wf_empty_iff [OF assms(1)]
        by (cases rule: qnode_alloc_cases [of q])
          (auto simp: queue_push_def queue_append_def tail_put_def queue_placed_def bind_Some_iff QUEUE_NITEMS_def)
    next
      case ne: False
      then have "snd p1 \<noteq> 0" using False assms(1,2) queue_wf_empty_iff [OF assms(1)]
        by (auto simp: over_def queue_placed_def)
      then show ?thesis
        using queue_placed_append [of "after_eviction q" p1 e q'] ae p1 n q' queue_push_eq [OF assms(1) ne] by simp
    qed
    then show ?thesis using False q' by simp
  qed
qed

lemma runs_over_iff:
  assumes "queue_wf q" "queue_placed q p" "never_refuses (q_alk q)"
  shows "run_queue queue_push queue_pop q ops = None \<longleftrightarrow> runs_over (q_circular q) p ops"
  using assms
proof (induction ops arbitrary: q p)
  case (Cons op ops)
  show ?case
  proof (cases op)
    case (Push e)
    define p1 where "p1 = (if snd p = q_circular q \<and> 0 < snd p then popped p else p)"
    define over where "over \<longleftrightarrow> snd p1 = 0 \<and> 0 < snd p \<or> 0 < fst p1 \<and> fst p1 + snd p1 = QUEUE_NITEMS"
    have r: "runs_over (q_circular q) p (op # ops) \<longleftrightarrow> over \<or> runs_over (q_circular q) (fst p1, Suc (snd p1)) ops"
      by (simp add: Push p1_def over_def split_beta Let_def)
    note pl = queue_placed_push [OF Cons.prems, of e, folded p1_def, folded over_def]
    show ?thesis
    proof (cases over)
      case True
      then show ?thesis using r pl Push by simp
    next
      case False
      then obtain q' where q': "queue_push q e = Some (0, q')" "queue_placed q' (fst p1, Suc (snd p1))" using pl by auto
      then have "queue_wf q' \<and> never_refuses (q_alk q') \<and> q_circular q' = q_circular q"
        using iq.push_law [of q e 0 q'] Cons.prems by simp
      then show ?thesis using Cons.IH [OF _ q'(2)] r False q'(1) Push by simp
    qed
  next
    case Pop
    obtain x q' where q': "queue_pop q = Some (x, q')" "queue_wf q'" "never_refuses (q_alk q')" "q_circular q' = q_circular q"
      using iq.pop_law [of q] Cons.prems by auto
    then show ?thesis using Cons.IH [OF q'(2) queue_placed_pop [OF Cons.prems(1,2) q'(1)] q'(3)] Pop
      by (cases "run_queue queue_push queue_pop q' ops") auto
  qed
qed simp

end
