(* ===== verification/Queue_Properties.thy ===== *)
theory Queue_Properties
  imports Item_Queue
begin

section \<open>Properties of the queue\<close>

text \<open>The queue of src/queue as a first-in first-out list, with the exact condition of its overrun.\<close>

text \<open>\<open>queue_push\<close> on a well-formed queue. Unless the slot it writes lies behind the node it
  goes to (\<open>push_overruns\<close>, in which case it faults) it returns, evicting the oldest item when a
  circular queue is full, and either appends the element or reports an allocation that was
  refused and leaves the items alone; the queue stays well-formed.\<close>

theorem queue_push_correct:
  assumes "queue_wf q"
  shows "(push_overruns q \<longrightarrow> queue_push q e = None)
    \<and> (\<not> push_overruns q \<longrightarrow> (\<exists>r q'. queue_push q e = Some (r, q') \<and> queue_wf q'
        \<and> q_freed q' = q_freed q @ (if evicts q \<and> q_item_free q then [Some (hd (queue_view q))] else [])
        \<and> (let xs = (if evicts q then tl (queue_view q) else queue_view q)
           in r = 0 \<and> queue_view q' = xs @ [e]
              \<or> r < 0 \<and> queue_view q' = xs \<and> \<not> never_refuses (q_alk (after_eviction q)))))"
proof (cases "push_overruns q")
  case True
  then show ?thesis using queue_push_overruns [OF assms True] by simp
next
  case False
  note ae = after_eviction_effect [OF assms]
  obtain r q' where q': "queue_push q e = Some (r, q')" "queue_wf q'" "q_freed q' = q_freed (after_eviction q)"
    "r = 0 \<and> queue_view q' = queue_view (after_eviction q) @ [e]
     \<or> r < 0 \<and> queue_view q' = queue_view (after_eviction q) \<and> \<not> never_refuses (q_alk (after_eviction q))"
    using queue_push_effect [OF assms False, of e] unfolding pushed_def by blast
  then show ?thesis using False ae by (simp add: Let_def)
qed

theorem queue_push_correct_witness:
  "\<exists>r q'. queue_push (queue_alloc False alk_refusing) (7 :: nat) = Some (r, q') \<and> r < 0 \<and> queue_view q' = []"
proof -
  let ?q = "queue_alloc False alk_refusing :: nat queue"
  have "queue_wf ?q" "queue_view ?q = []" by (simp_all add: queue_alloc_def queue_wf_circular_alloc)
  moreover have "\<not> evicts ?q" "\<not> push_overruns ?q"
    by (simp_all add: queue_alloc_def queue_circular_alloc_def evicts_def push_overruns_def after_eviction_def tail_full_def)
  moreover have "fst (the (queue_push ?q 7)) = - 1"
    by (simp add: queue_push_def queue_alloc_def queue_circular_alloc_def qnode_alloc_def mmalloc_def alk_refusing_def
        Let_def)
  ultimately show ?thesis using queue_push_correct [of ?q 7] by fastforce
qed

text \<open>C14. Any sequence of pushes and pops on a new queue whose allocator does not refuse. It faults
  exactly when \<open>runs_over\<close> says so, which depends on the sequence and the limit alone: a push that
  finds the items at the end of a single node some have been popped from, or a push into a full
  queue of one item. Otherwise it returns what the same operations on a list of at most \<open>circular\<close>
  items (0: any number) return, and leaves its items.\<close>

theorem queue_run_fifo:
  assumes "never_refuses a"
  shows "if runs_over circular (0, 0) ops
    then run_queue queue_push queue_pop (queue_circular_alloc circular item_free a) ops = None
    else \<exists>out q'. run_queue queue_push queue_pop (queue_circular_alloc circular item_free a) ops = Some (out, q')
      \<and> run_list circular [] ops = (out, queue_view q') \<and> queue_wf q'"
proof -
  let ?q = "queue_circular_alloc circular item_free a :: 'a queue"
  have q: "queue_wf ?q" "queue_view ?q = []" "queue_placed ?q (0, 0)" "never_refuses (q_alk ?q)" "q_circular ?q = circular"
    using assms by (simp_all add: queue_wf_circular_alloc) (simp_all add: queue_circular_alloc_def queue_placed_def)
  note over = runs_over_iff [OF q(1,3,4), of ops, unfolded q(5)]
  show ?thesis
  proof (cases "run_queue queue_push queue_pop ?q ops")
    case None
    then show ?thesis using over by simp
  next
    case (Some r)
    then show ?thesis using iq.run_queue_refines [of ?q ops "fst r" "snd r"] over q by (cases r) auto
  qed
qed

text \<open>64 pushes, a pop and a push overrun the node; a full circular queue of two goes on.\<close>

theorem queue_run_fifo_witness:
  "run_queue queue_push queue_pop (queue_circular_alloc 0 True alk_generous)
      (map Push [1 ..< 65] @ [Pop, Push 65]) = None
   \<and> (\<exists>out q'. run_queue queue_push queue_pop (queue_circular_alloc 2 True alk_generous)
      [Push 1, Push 2, Push (3 :: nat), Pop, Pop, Pop] = Some (out, q') \<and> out = [Some 2, Some 3, None])"
proof -
  have "runs_over 0 (0, 0) (map Push [1 ..< 65 :: nat] @ [Pop, Push 65])"
    by code_simp
  moreover have "\<not> runs_over 2 (0, 0) [Push 1, Push 2, Push (3 :: nat), Pop, Pop, Pop]"
    by (simp add: QUEUE_NITEMS_def)
  ultimately show ?thesis
    using queue_run_fifo [of alk_generous 0 "map Push [1 ..< 65 :: nat] @ [Pop, Push 65]" True]
      queue_run_fifo [of alk_generous 2 "[Push 1, Push 2, Push (3 :: nat), Pop, Pop, Pop]" True]
    by auto
qed

text \<open>C15. Filling a new queue that has no limit with any number of items and emptying it never
  faults and returns the items in the order they were pushed.\<close>

theorem queue_fill_drain:
  assumes "never_refuses a"
  shows "\<exists>q'. run_queue queue_push queue_pop (queue_alloc item_free a)
      (map Push es @ replicate (length es) Pop) = Some (map Some es, q') \<and> queue_wf q' \<and> queue_view q' = []"
proof -
  let ?q = "queue_alloc item_free a :: 'a queue"
  have q: "queue_wf ?q" "queue_view ?q = []" "unpopped ?q" "never_refuses (q_alk ?q)"
    using assms by (simp_all add: queue_alloc_def queue_wf_circular_alloc unpopped_def)
      (simp_all add: queue_circular_alloc_def)
  obtain q1 where q1: "run_queue queue_push queue_pop ?q (map Push es) = Some ([], q1)" "queue_wf q1"
    "queue_view q1 = es" using fill_runs [OF q(1,3,4), of es] q(2) by auto
  obtain q2 where "run_queue queue_push queue_pop q1 (replicate (length es) Pop) = Some (map Some es, q2)"
    "queue_wf q2" "queue_view q2 = []" using drain_runs [OF q1(2,3)] by blast
  then show ?thesis using q1(1) by (simp add: run_queue_append)
qed

theorem queue_fill_drain_witness:
  "\<exists>q'. run_queue queue_push queue_pop (queue_alloc True alk_generous)
      (map Push [3, 1, 2 :: nat] @ replicate 3 Pop) = Some ([Some 3, Some 1, Some 2], q')"
  using queue_fill_drain [of alk_generous True "[3, 1, 2 :: nat]"] by (auto simp: numeral_eq_Suc)

end
