(* ===== verification/Chunk_Queue.thy ===== *)
theory Chunk_Queue
  imports Allocator
begin

section \<open>chunkq.c\<close>

text \<open>
  src/chunkq: a queue of bytes in a chain of chunks. The chain is the list of nodes from \<open>head\<close>
  on, \<open>tail\<close> its last one. The bytes of a new chunk are indeterminate; the model fills them with
  0 and the invariant says that only written bytes are read. A caller's buffer is the list of
  bytes copied out of it or into it. The offset and size of a node stay within the chunk, so that
  their 32-bit sums do not wrap; \<open>psize\<close> does wrap and is kept at its width.
\<close>

subsection \<open>The queue\<close>

record chunkn =
  c_data :: "u8 list"
  c_off :: nat
  c_size :: nat

record chunkq =
  ch_nodes :: "chunkn list"
  ch_pool :: nat
  ch_psize :: u32
  ch_chunk :: nat
  ch_size :: nat
  ch_alk :: alk

definition CHUNK_POOL :: u32 where
  "CHUNK_POOL = 8"

definition chunkn_bytes :: nat where
  "chunkn_bytes = 24"

definition chunkn_fresh :: "nat \<Rightarrow> chunkn" where
  "chunkn_fresh chunk = \<lparr>c_data = replicate chunk 0, c_off = 0, c_size = 0\<rparr>"

definition chunkn_alloc :: "chunkq \<Rightarrow> chunkn option \<times> chunkq" where
  "chunkn_alloc q =
     (if ch_pool q > 0
      then (Some (chunkn_fresh (ch_chunk q)), q\<lparr>ch_pool := ch_pool q - 1, ch_psize := ch_psize q - 1\<rparr>)
      else
        let (ok, a) = mmalloc (chunkn_bytes + ch_chunk q) (ch_alk q)
        in (if ok then Some (chunkn_fresh (ch_chunk q)) else None, q\<lparr>ch_alk := a\<rparr>))"

definition chunkn_free :: "chunkq \<Rightarrow> chunkq" where
  "chunkn_free q =
     (if ch_psize q > CHUNK_POOL then q\<lparr>ch_alk := mmfree (ch_alk q)\<rparr>
      else q\<lparr>ch_pool := ch_pool q + 1\<rparr>)"

definition chunks_free :: "chunkq \<Rightarrow> nat \<Rightarrow> chunkq" where
  "chunks_free q n = (chunkn_free ^^ n) q"

fun chunkn_at_offset :: "chunkn list \<Rightarrow> nat \<Rightarrow> nat \<Rightarrow> chunkn list \<times> nat" where
  "chunkn_at_offset [] offset n = ([], n)"
| "chunkn_at_offset (node # rest) offset n =
     (if n + c_size node > offset then (node # rest, n + c_size node)
      else chunkn_at_offset rest offset (n + c_size node))"

definition chunkq_alloc :: "nat \<Rightarrow> alk \<Rightarrow> chunkq" where
  "chunkq_alloc chunk_size a =
     \<lparr>ch_nodes = [], ch_pool = 0, ch_psize = 0, ch_chunk = chunk_size, ch_size = 0, ch_alk = a\<rparr>"

definition chunkq_clear :: "chunkq \<Rightarrow> chunkq" where
  "chunkq_clear q = (chunks_free q (length (ch_nodes q)))\<lparr>ch_nodes := [], ch_size := 0\<rparr>"

definition chunkq_free :: "chunkq \<Rightarrow> chunkq" where
  "chunkq_free q =
     (let q = chunkq_clear q;
          q = chunks_free q (ch_pool q)
      in q\<lparr>ch_pool := 0, ch_psize := 0\<rparr>)"

text \<open>\<open>chunkq_read\<close>: the value returned, the bytes copied to the buffer, and the queue.\<close>

function read_loop :: "chunkq \<Rightarrow> nat \<Rightarrow> u8 list \<Rightarrow> (u8 list \<times> chunkq) option" where
  "read_loop q n out =
     (if length out < n
      then case ch_nodes q of
             [] \<Rightarrow> None
           | node # rest \<Rightarrow>
               let bksize = (if c_size node < n - length out then c_size node else n - length out)
               in do {
                 xs \<leftarrow> buf_read (c_data node) (c_off node) bksize;
                 let node = node\<lparr>c_off := c_off node + bksize, c_size := c_size node - bksize\<rparr>;
                 let q = q\<lparr>ch_size := ch_size q - bksize, ch_nodes := node # rest\<rparr>;
                 if c_size node = 0
                 then let q = chunkn_free (q\<lparr>ch_nodes := rest\<rparr>)
                      in if rest = [] then Some (out @ xs, q) else read_loop q n (out @ xs)
                 else read_loop q n (out @ xs)
               }
      else Some (out, q))"
  by pat_completeness auto
termination
proof (relation "measure (\<lambda>(q, n, out). length (ch_nodes q) + (n - length out))", goal_cases)
  case 1
  then show ?case by simp
next
  case (2 q n out node rest bk xs nd q1 q2)
  then have "length (ch_nodes q2) = length rest" by (simp add: chunkn_free_def)
  then show ?case using 2 by simp
next
  case (3 q n out node rest bk xs nd q1)
  then have "bk = n - length out" "length xs = bk"
    by (auto simp: buf_read_def split: if_splits)
  then show ?case using 3 by simp
qed

declare read_loop.simps [simp del]

definition chunkq_read :: "chunkq \<Rightarrow> nat \<Rightarrow> (int \<times> u8 list \<times> chunkq) option" where
  "chunkq_read q n =
     (if ch_nodes q = [] then Some (- 1, [], q)
      else do { (out, q) \<leftarrow> read_loop q n []; Some (int (length out), out, q) })"

text \<open>\<open>chunkq_append\<close> of the bytes \<open>p\<close> of a buffer. With chunks of no bytes the loop allocates
  for ever, or until an allocation is refused.\<close>

definition chunk_put :: "chunkq \<Rightarrow> chunkn list \<Rightarrow> chunkn \<Rightarrow> u8 list \<Rightarrow> chunkq option" where
  "chunk_put q front node xs =
     do {
       d \<leftarrow> buf_write (c_data node) (c_off node + c_size node) xs;
       Some (q\<lparr>ch_nodes := front @ [node\<lparr>c_data := d, c_size := c_size node + length xs\<rparr>],
               ch_size := ch_size q + length xs\<rparr>)
     }"

definition append_step :: "chunkq \<Rightarrow> u8 list \<Rightarrow> (nat option \<times> chunkq) option" where
  "append_step q p =
     (if ch_nodes q = [] then None
      else
        let node = last (ch_nodes q);
            room = ch_chunk q - (c_off node + c_size node)
        in if room = 0
           then case chunkn_alloc q of
                  (None, q) \<Rightarrow> Some (None, q)
                | (Some fresh, q) \<Rightarrow>
                    let bksize = min (length p) (ch_chunk q)
                    in do { q \<leftarrow> chunk_put q (ch_nodes q) fresh (take bksize p); Some (Some bksize, q) }
           else
             let bksize = min (length p) room
             in do { q \<leftarrow> chunk_put q (butlast (ch_nodes q)) node (take bksize p); Some (Some bksize, q) })"

partial_function (option) append_loop :: "chunkq \<Rightarrow> u8 list \<Rightarrow> nat \<Rightarrow> (nat \<times> chunkq) option" where
  "append_loop q p wr =
     (if p = [] then Some (wr, q)
      else Option.bind (append_step q p)
        (\<lambda>r. case fst r of
           None \<Rightarrow> Some (wr, snd r)
         | Some bksize \<Rightarrow> append_loop (snd r) (drop bksize p) (wr + bksize)))"

definition chunkq_append :: "chunkq \<Rightarrow> u8 list \<Rightarrow> (int \<times> chunkq) option" where
  "chunkq_append q p =
     (if ch_nodes q = []
      then case chunkn_alloc q of
             (None, q) \<Rightarrow> Some (- 1, q)
           | (Some fresh, q) \<Rightarrow>
               do { (wr, q) \<leftarrow> append_loop (q\<lparr>ch_nodes := [fresh]\<rparr>) p 0; Some (int wr, q) }
      else do { (wr, q) \<leftarrow> append_loop q p 0; Some (int wr, q) })"

text \<open>\<open>chunkq_peek\<close>: behind the first node the bytes are read from the start of the chunk.\<close>

fun peek_rest :: "chunkn list \<Rightarrow> nat \<Rightarrow> u8 list \<Rightarrow> u8 list option" where
  "peek_rest [] n out = Some out"
| "peek_rest (node # rest) n out =
     (if length out < n
      then
        let bksize = (if c_size node < n - length out then c_size node else n - length out)
        in do { xs \<leftarrow> buf_read (c_data node) 0 bksize; peek_rest rest n (out @ xs) }
      else Some out)"

definition chunkq_peek :: "chunkq \<Rightarrow> nat \<Rightarrow> nat \<Rightarrow> (int \<times> u8 list) option" where
  "chunkq_peek q offset n =
     (case chunkn_at_offset (ch_nodes q) offset 0 of
        ([], x) \<Rightarrow> Some (- 1, [])
      | (node # rest, x) \<Rightarrow>
          let offset = offset - (x - c_size node);
              bksize = (if c_size node - offset > n then n else c_size node - offset)
          in do {
            xs \<leftarrow> buf_read (c_data node) (c_off node + offset) bksize;
            out \<leftarrow> peek_rest rest n xs;
            Some (int (length out), out)
          })"

subsection \<open>Searching\<close>

text \<open>
  \<open>chunkq_indexof\<close> keeps its state between chunks in \<open>search\<close>: the index of the candidate, the
  bytes counted, whether a match has begun, and where it is in the needle. \<open>index\<close> is the local
  of \<open>__chunkn_search_step\<close>, -1 until the first hit of \<open>memchr\<close>.
\<close>

record search =
  s_offset :: int
  s_rd :: int
  s_state :: bool
  s_np :: nat
  s_nl :: u32
  s_data :: "u8 list"

definition restart :: "u32 \<Rightarrow> search \<Rightarrow> search" where
  "restart nlen s = s\<lparr>s_nl := nlen, s_np := 0, s_state := False\<rparr>"

text \<open>The inner loop, on the bytes behind a hit: True when the needle is complete.\<close>

fun search_inner :: "u8 list \<Rightarrow> u32 \<Rightarrow> search \<Rightarrow> u8 list \<Rightarrow> (bool \<times> search) option" where
  "search_inner needle nlen s [] = Some (False, s\<lparr>s_data := []\<rparr>)"
| "search_inner needle nlen s (b # bs) =
     do {
       let s = s\<lparr>s_rd := s_rd s + 1\<rparr>;
       c \<leftarrow> buf_get needle (s_np s);
       if b \<noteq> c then Some (False, restart nlen (s\<lparr>s_data := b # bs\<rparr>))
       else
         let s = s\<lparr>s_nl := s_nl s - 1\<rparr>
         in if s_nl s = 0 then Some (True, s\<lparr>s_data := b # bs\<rparr>)
            else search_inner needle nlen (s\<lparr>s_np := s_np s + 1\<rparr>) bs
     }"

definition memchr_index :: "u8 list \<Rightarrow> u8 \<Rightarrow> nat option" where
  "memchr_index xs c = (let i = length (takeWhile (\<lambda>x. x \<noteq> c) xs) in if i < length xs then Some i else None)"

lemma search_inner_shrinks:
  "search_inner needle nlen s bs = Some (hit, s') \<Longrightarrow> length (s_data s') \<le> length bs"
proof (induction needle nlen s bs arbitrary: hit s' rule: search_inner.induct)
  case (2 needle nlen s b bs)
  then show ?case
    by (auto simp: Let_def restart_def bind_Some_iff split: if_splits) (fastforce dest: le_SucI)
qed auto

function search_step :: "u8 list \<Rightarrow> u32 \<Rightarrow> int \<Rightarrow> search \<Rightarrow> (bool \<times> search) option" where
  "search_step needle nlen index s =
     do {
       c \<leftarrow> buf_get needle (s_np s);
       case memchr_index (s_data s) c of
         None \<Rightarrow> Some (False, if index < 0 then s\<lparr>s_rd := s_rd s + int (length (s_data s))\<rparr> else s)
       | Some i \<Rightarrow>
           if i + 1 > 1 \<and> s_state s then search_step needle nlen (int (i + 1)) (restart nlen s)
           else
             let s = s\<lparr>s_rd := s_rd s + int (i + 1)\<rparr>;
                 s = (if s_state s then s else s\<lparr>s_offset := s_rd s - 1, s_state := True\<rparr>);
                 s = s\<lparr>s_nl := s_nl s - 1\<rparr>
             in if s_nl s = 0 then Some (True, s)
                else do {
                  (hit, s') \<leftarrow> search_inner needle nlen (s\<lparr>s_np := s_np s + 1\<rparr>) (drop (i + 1) (s_data s));
                  if hit then Some (True, s')
                  else if s_data s' = [] then Some (False, s')
                  else search_step needle nlen (int (i + 1)) s'
                }
     }"
  by pat_completeness auto
termination
proof (relation "measures [\<lambda>(_, _, _, s). length (s_data s), \<lambda>(_, _, _, s). if s_state s then 1 else 0]", goal_cases)
  case 1
  then show ?case by simp
next
  case (2 needle nlen index s c i)
  then show ?case by (simp add: restart_def)
next
  case (3 needle nlen index s c i s1 s2 s3 r hit s')
  then have "length (s_data s') \<le> length (s_data s3) - (i + 1)" using search_inner_shrinks by fastforce
  moreover have "s_data s3 = s_data s" using 3 by simp
  moreover have "i < length (s_data s)" using 3(2) by (simp add: memchr_index_def Let_def split: if_splits)
  ultimately have "length (s_data s') < length (s_data s)" by auto
  then show ?case by simp
qed

declare search_step.simps [simp del]

fun indexof_rest :: "u8 list \<Rightarrow> u32 \<Rightarrow> search \<Rightarrow> chunkn list \<Rightarrow> int option" where
  "indexof_rest needle nlen s [] = Some (- 1)"
| "indexof_rest needle nlen s (node # rest) =
     do {
       d \<leftarrow> buf_read (c_data node) 0 (c_size node);
       (hit, s') \<leftarrow> search_step needle nlen (- 1) (s\<lparr>s_data := d\<rparr>);
       if hit then Some (s_offset s') else indexof_rest needle nlen s' rest
     }"

definition chunkq_indexof :: "chunkq \<Rightarrow> nat \<Rightarrow> u8 list \<Rightarrow> int option" where
  "chunkq_indexof q offset needle =
     (case chunkn_at_offset (ch_nodes q) offset 0 of
        ([], x) \<Rightarrow> Some (- 1)
      | (node # rest, x) \<Rightarrow>
          let nlen = of_nat (length needle);
              off = offset - (x - c_size node)
          in do {
            d \<leftarrow> buf_read (c_data node) (c_off node + off) (c_size node - off);
            (hit, s) \<leftarrow> search_step needle nlen (- 1)
              \<lparr>s_offset = 0, s_rd = int offset, s_state = False, s_np = 0, s_nl = nlen, s_data = d\<rparr>;
            if hit then Some (s_offset s) else indexof_rest needle nlen s rest
          })"

subsection \<open>Contents and invariant\<close>

definition chunk_view :: "chunkn \<Rightarrow> u8 list" where
  "chunk_view node = take (c_size node) (drop (c_off node) (c_data node))"

definition chunks_view :: "chunkn list \<Rightarrow> u8 list" where
  "chunks_view nodes = concat (map chunk_view nodes)"

definition chunkq_view :: "chunkq \<Rightarrow> u8 list" where
  "chunkq_view q = chunks_view (ch_nodes q)"

definition chunkn_wf :: "nat \<Rightarrow> chunkn \<Rightarrow> bool" where
  "chunkn_wf chunk node \<longleftrightarrow> length (c_data node) = chunk \<and> c_off node + c_size node \<le> chunk"

text \<open>Only the first node has been read from.\<close>

definition chunkq_wf :: "chunkq \<Rightarrow> bool" where
  "chunkq_wf q \<longleftrightarrow> (\<forall>node \<in> set (ch_nodes q). chunkn_wf (ch_chunk q) node)
     \<and> (\<forall>node \<in> set (tl (ch_nodes q)). c_off node = 0) \<and> ch_size q = length (chunkq_view q)"

lemma chunks_view_simps [simp]: "chunks_view [] = []" "chunks_view (node # rest) = chunk_view node @ chunks_view rest"
  "chunks_view (front @ back) = chunks_view front @ chunks_view back"
  by (simp_all add: chunks_view_def)

lemma length_chunk_view [simp]: "chunkn_wf c node \<Longrightarrow> length (chunk_view node) = c_size node"
  by (auto simp: chunkn_wf_def chunk_view_def)

lemma chunkn_free_keeps [simp]: "ch_nodes (chunkn_free q) = ch_nodes q" "ch_size (chunkn_free q) = ch_size q"
  "ch_chunk (chunkn_free q) = ch_chunk q" "never_refuses (ch_alk (chunkn_free q)) = never_refuses (ch_alk q)"
  by (simp_all add: chunkn_free_def)

lemma chunkq_wf_alloc: "chunkq_wf (chunkq_alloc c a)" "chunkq_view (chunkq_alloc c a) = []"
  by (simp_all add: chunkq_wf_def chunkq_view_def chunkq_alloc_def)

text \<open>Reading.\<close>

lemma chunk_read_some:
  assumes "chunkn_wf c node" "k \<le> c_size node"
  shows "buf_read (c_data node) (c_off node) k = Some (take k (chunk_view node))"
    and "chunk_view (node\<lparr>c_off := c_off node + k, c_size := c_size node - k\<rparr>) = drop k (chunk_view node)"
    and "chunkn_wf c (node\<lparr>c_off := c_off node + k, c_size := c_size node - k\<rparr>)"
  using assms by (auto simp: chunkn_wf_def chunk_view_def buf_simps min_def drop_take add.commute)

lemma read_loop_effect:
  assumes "chunkq_wf q" "ch_nodes q \<noteq> [] \<or> n \<le> length out"
  shows "\<exists>q'. read_loop q n out = Some (out @ take (n - length out) (chunkq_view q), q') \<and> chunkq_wf q'
    \<and> chunkq_view q' = drop (n - length out) (chunkq_view q) \<and> ch_chunk q' = ch_chunk q
    \<and> never_refuses (ch_alk q') = never_refuses (ch_alk q)"
  using assms
proof (induction q n out rule: read_loop.induct)
  case (1 q n out)
  show ?case
  proof (cases "length out < n")
    case False
    then show ?thesis using "1.prems" by (simp add: read_loop.simps [of q n out])
  next
    case True
    then obtain node rest where q: "ch_nodes q = node # rest" using "1.prems"(2) by (cases "ch_nodes q") auto
    then have wf: "chunkn_wf (ch_chunk q) node" "\<forall>nd \<in> set rest. chunkn_wf (ch_chunk q) nd \<and> c_off nd = 0"
      "ch_size q = c_size node + length (chunks_view rest)"
      using "1.prems"(1) by (auto simp: chunkq_wf_def chunkq_view_def)
    define bk where "bk = (if c_size node < n - length out then c_size node else n - length out)"
    define nd where "nd = node\<lparr>c_off := c_off node + bk, c_size := c_size node - bk\<rparr>"
    define q1 where "q1 = q\<lparr>ch_size := ch_size q - bk, ch_nodes := nd # rest\<rparr>"
    define xs where "xs = take bk (chunk_view node)"
    have bk: "bk \<le> c_size node" "length xs = bk" using wf(1) by (simp_all add: bk_def xs_def)
    note rd = chunk_read_some [OF wf(1) bk(1), folded nd_def xs_def]
    have v: "chunkq_view q = chunk_view node @ chunks_view rest" by (simp add: chunkq_view_def q)
    have step: "read_loop q n out = (if c_size nd = 0
        then let q = chunkn_free (q1\<lparr>ch_nodes := rest\<rparr>)
             in if rest = [] then Some (out @ xs, q) else read_loop q n (out @ xs)
        else read_loop q1 n (out @ xs))"
      using True rd(1) by (simp add: read_loop.simps [of q n out] q bk_def nd_def q1_def Let_def)
    show ?thesis
    proof (cases "c_size nd = 0")
      case z: True
      then have "bk = c_size node" using bk(1) by (simp add: nd_def)
      then have xs: "xs = chunk_view node" using wf(1) by (simp add: xs_def)
      define q2 where "q2 = chunkn_free (q1\<lparr>ch_nodes := rest\<rparr>)"
      have q2: "chunkq_wf q2" "chunkq_view q2 = chunks_view rest" "ch_chunk q2 = ch_chunk q"
        "ch_nodes q2 = rest" "never_refuses (ch_alk q2) = never_refuses (ch_alk q)"
        using wf \<open>bk = c_size node\<close> by (cases rest) (auto simp: q2_def q1_def chunkq_wf_def chunkq_view_def)
      have le: "length xs \<le> n - length out" using bk(2) by (simp add: bk_def)
      show ?thesis
      proof (cases "rest = []")
        case True
        then have "read_loop q n out = Some (out @ xs, q2)" using step z by (simp add: q2_def Let_def)
        then show ?thesis using True xs q2 v le by simp
      next
        case False
        note IH = "1.IH"(1) [OF True q refl rd(1) [unfolded bk_def] refl refl]
        have "\<exists>q'. read_loop q2 n (out @ xs) = Some ((out @ xs) @ take (n - length (out @ xs)) (chunkq_view q2), q')
            \<and> chunkq_wf q' \<and> chunkq_view q' = drop (n - length (out @ xs)) (chunkq_view q2)
            \<and> ch_chunk q' = ch_chunk q2 \<and> never_refuses (ch_alk q') = never_refuses (ch_alk q2)"
          using IH [OF _ refl False] z q2(1,4) False unfolding q2_def q1_def nd_def bk_def by simp
        then show ?thesis using step z False xs q2 v le by (auto simp: q2_def [symmetric] Let_def)
      qed
    next
      case nz: False
      then have b: "bk = n - length out" using bk(1) by (auto simp: nd_def bk_def split: if_splits)
      have "chunkq_wf q1" using wf rd bk by (auto simp: q1_def chunkq_wf_def chunkq_view_def)
      moreover have "chunkq_view q1 = drop bk (chunkq_view q)"
        using rd(2) wf(1) bk(1) by (simp add: q1_def chunkq_view_def q)
      moreover have "xs = take bk (chunkq_view q)" using v wf(1) bk(1) by (simp add: xs_def)
      moreover have "read_loop q1 n (out @ xs) = Some (out @ xs, q1)"
        using b bk(2) True by (simp add: read_loop.simps [of q1])
      ultimately show ?thesis using step nz b by (simp add: q1_def)
    qed
  qed
qed

text \<open>Appending.\<close>

lemma chunk_put_effect:
  assumes "chunkq_wf q" "ch_nodes q = front @ [node]" "length xs \<le> ch_chunk q - (c_off node + c_size node)"
  shows "\<exists>q'. chunk_put q front node xs = Some q' \<and> chunkq_wf q' \<and> chunkq_view q' = chunkq_view q @ xs
    \<and> ch_nodes q' \<noteq> [] \<and> ch_chunk q' = ch_chunk q \<and> ch_alk q' = ch_alk q"
proof -
  let ?i = "c_off node + c_size node"
  let ?node = "node\<lparr>c_data := splice (c_data node) ?i xs, c_size := c_size node + length xs\<rparr>"
  have n: "chunkn_wf (ch_chunk q) node" using assms(1,2) by (simp add: chunkq_wf_def)
  then have room: "?i + length xs \<le> length (c_data node)" using assms(3) by (auto simp: chunkn_wf_def)
  have "take (c_size node + length xs) (drop (c_off node) (splice (c_data node) ?i xs))
      = take (c_size node) (drop (c_off node) (splice (c_data node) ?i xs))
        @ take (length xs) (drop ?i (splice (c_data node) ?i xs))"
    by (rule take_add_drop)
  also have "take (c_size node) (drop (c_off node) (splice (c_data node) ?i xs))
      = drop (c_off node) (take ?i (splice (c_data node) ?i xs))"
    by (simp add: drop_take add.commute)
  finally have v: "chunk_view ?node = chunk_view node @ xs"
    using room by (simp add: chunk_view_def drop_take)
  have "chunkn_wf (ch_chunk q) ?node" using n room by (auto simp: chunkn_wf_def)
  moreover have "\<forall>nd \<in> set (tl (front @ [?node])). c_off nd = 0"
    using assms(1) unfolding chunkq_wf_def assms(2) by (cases front) auto
  ultimately show ?thesis using assms(1,2) room v
    by (simp add: chunk_put_def buf_simps chunkq_wf_def chunkq_view_def)
qed

lemma chunkn_alloc_granted:
  assumes "never_refuses (ch_alk q)"
  shows "\<exists>q'. chunkn_alloc q = (Some (chunkn_fresh (ch_chunk q)), q') \<and> ch_nodes q' = ch_nodes q
    \<and> ch_size q' = ch_size q \<and> ch_chunk q' = ch_chunk q \<and> never_refuses (ch_alk q')"
proof (cases "ch_pool q > 0")
  case False
  obtain ok a where "mmalloc (chunkn_bytes + ch_chunk q) (ch_alk q) = (ok, a)" by fastforce
  then show ?thesis using False mmalloc_never_refuses [OF assms] by (simp add: chunkn_alloc_def)
qed (simp add: chunkn_alloc_def assms)

lemma chunkn_fresh_facts [simp]: "chunkn_wf c (chunkn_fresh c)" "chunk_view (chunkn_fresh c) = []"
  "c_off (chunkn_fresh c) = 0" "c_size (chunkn_fresh c) = 0"
  by (simp_all add: chunkn_fresh_def chunkn_wf_def chunk_view_def)

lemma append_step_effect:
  assumes "chunkq_wf q" "ch_nodes q \<noteq> []" "never_refuses (ch_alk q)" "0 < ch_chunk q" "p \<noteq> []"
  shows "\<exists>k q'. append_step q p = Some (Some k, q') \<and> 0 < k \<and> k \<le> length p \<and> chunkq_wf q'
    \<and> chunkq_view q' = chunkq_view q @ take k p \<and> ch_nodes q' \<noteq> [] \<and> ch_chunk q' = ch_chunk q
    \<and> never_refuses (ch_alk q')"
proof -
  define node where "node = last (ch_nodes q)"
  define room where "room = ch_chunk q - (c_off node + c_size node)"
  have fl: "ch_nodes q = butlast (ch_nodes q) @ [node]" using assms(2) by (simp add: node_def)
  show ?thesis
  proof (cases "room = 0")
    case False
    let ?k = "min (length p) room"
    obtain q' where "chunk_put q (butlast (ch_nodes q)) node (take ?k p) = Some q'" "chunkq_wf q'"
      "chunkq_view q' = chunkq_view q @ take ?k p" "ch_nodes q' \<noteq> []" "ch_chunk q' = ch_chunk q" "ch_alk q' = ch_alk q"
      using chunk_put_effect [OF assms(1) fl, of "take ?k p"] by (auto simp: room_def)
    moreover from this(1) have "append_step q p = Some (Some ?k, q')"
      using False assms(2) unfolding append_step_def Let_def node_def [symmetric] room_def [symmetric] by simp
    ultimately show ?thesis using False assms(3,5) by simp
  next
    case True
    let ?k = "min (length p) (ch_chunk q)" and ?fresh = "chunkn_fresh (ch_chunk q)"
    obtain q1 where q1: "chunkn_alloc q = (Some ?fresh, q1)" "ch_nodes q1 = ch_nodes q" "ch_size q1 = ch_size q"
      "ch_chunk q1 = ch_chunk q" "never_refuses (ch_alk q1)" using chunkn_alloc_granted [OF assms(3)] by blast
    define q2 where "q2 = q1\<lparr>ch_nodes := ch_nodes q @ [?fresh]\<rparr>"
    have "chunkq_wf q2" using assms(1,2) q1 by (auto simp: q2_def chunkq_wf_def chunkq_view_def)
    then obtain q' where q': "chunk_put q2 (ch_nodes q) ?fresh (take ?k p) = Some q'" "chunkq_wf q'"
      "chunkq_view q' = chunkq_view q2 @ take ?k p" "ch_nodes q' \<noteq> []" "ch_chunk q' = ch_chunk q2" "ch_alk q' = ch_alk q2"
      using chunk_put_effect [of q2 "ch_nodes q" ?fresh "take ?k p"] q1(4) by (auto simp: q2_def)
    have "chunk_put q1 (ch_nodes q1) ?fresh (take ?k p) = chunk_put q2 (ch_nodes q) ?fresh (take ?k p)"
      using q1(2) by (simp add: chunk_put_def q2_def)
    then have "append_step q p = Some (Some ?k, q')"
      using True q'(1) q1 assms(2) unfolding append_step_def Let_def node_def [symmetric] room_def [symmetric] by simp
    moreover have "chunkq_view q2 = chunkq_view q" by (simp add: q2_def chunkq_view_def)
    ultimately show ?thesis using q' q1 assms(4,5) by (simp add: q2_def)
  qed
qed

lemma append_loop_effect:
  assumes "chunkq_wf q" "ch_nodes q \<noteq> []" "never_refuses (ch_alk q)" "0 < ch_chunk q"
  shows "\<exists>q'. append_loop q p wr = Some (wr + length p, q') \<and> chunkq_wf q'
    \<and> chunkq_view q' = chunkq_view q @ p \<and> ch_chunk q' = ch_chunk q \<and> never_refuses (ch_alk q')"
  using assms
proof (induction "length p" arbitrary: q p wr rule: less_induct)
  case less
  show ?case
  proof (cases "p = []")
    case True
    then show ?thesis using less.prems by (simp add: append_loop.simps)
  next
    case False
    obtain k q1 where s: "append_step q p = Some (Some k, q1)" "0 < k" "k \<le> length p" "chunkq_wf q1"
      "chunkq_view q1 = chunkq_view q @ take k p" "ch_nodes q1 \<noteq> []" "ch_chunk q1 = ch_chunk q"
      "never_refuses (ch_alk q1)" using append_step_effect [OF less.prems False] by blast
    then obtain q' where "append_loop q1 (drop k p) (wr + k) = Some (wr + k + length (drop k p), q')" "chunkq_wf q'"
      "chunkq_view q' = chunkq_view q1 @ drop k p" "ch_chunk q' = ch_chunk q1" "never_refuses (ch_alk q')"
      using less.hyps [of "drop k p" q1 "wr + k"] less.prems(4) False by auto
    then show ?thesis using s False by (subst append_loop.simps) simp
  qed
qed

lemma chunkq_append_effect:
  assumes "chunkq_wf q" "never_refuses (ch_alk q)" "0 < ch_chunk q"
  shows "\<exists>q'. chunkq_append q p = Some (int (length p), q') \<and> chunkq_wf q'
    \<and> chunkq_view q' = chunkq_view q @ p \<and> ch_chunk q' = ch_chunk q \<and> never_refuses (ch_alk q')"
proof (cases "ch_nodes q = []")
  case False
  then show ?thesis using append_loop_effect [OF assms(1) False assms(2,3), of p 0] by (auto simp: chunkq_append_def)
next
  case True
  let ?fresh = "chunkn_fresh (ch_chunk q)"
  obtain q1 where q1: "chunkn_alloc q = (Some ?fresh, q1)" "ch_size q1 = ch_size q"
    "ch_chunk q1 = ch_chunk q" "never_refuses (ch_alk q1)" using chunkn_alloc_granted [OF assms(2)] by blast
  have "chunkq_wf (q1\<lparr>ch_nodes := [?fresh]\<rparr>)" "chunkq_view (q1\<lparr>ch_nodes := [?fresh]\<rparr>) = []" "chunkq_view q = []"
    using assms(1) True q1 by (auto simp: chunkq_wf_def chunkq_view_def)
  then show ?thesis using append_loop_effect [of "q1\<lparr>ch_nodes := [?fresh]\<rparr>" p 0] q1 assms(3) True
    by (auto simp: chunkq_append_def)
qed

text \<open>Peeking.\<close>

lemma chunkn_at_offset_effect:
  assumes "\<forall>node \<in> set nodes. chunkn_wf c node"
  shows "case chunkn_at_offset nodes offset n of
      ([], x) \<Rightarrow> n \<le> offset \<longrightarrow> n + length (chunks_view nodes) \<le> offset
    | (node # rest, x) \<Rightarrow> (\<exists>front. nodes = front @ node # rest \<and> x = n + length (chunks_view front) + c_size node
        \<and> offset < x \<and> (n \<le> offset \<longrightarrow> n + length (chunks_view front) \<le> offset))"
  using assms
proof (induction nodes offset n rule: chunkn_at_offset.induct)
  case (2 nd nodes offset n)
  show ?case
  proof (cases "n + c_size nd > offset")
    case True
    then show ?thesis by simp
  next
    case False
    show ?thesis
    proof (cases "chunkn_at_offset nodes offset (n + c_size nd)")
      case (Pair ys x)
      show ?thesis
      proof (cases ys)
        case Nil
        have "length (chunk_view nd) = c_size nd" using 2(2) by (simp add: length_chunk_view [of c])
        then show ?thesis using Nil 2 False Pair by simp
      next
        case (Cons node rest)
        then obtain front where "nodes = front @ node # rest"
          "x = n + c_size nd + length (chunks_view front) + c_size node" "offset < x"
          "n + c_size nd \<le> offset \<longrightarrow> n + c_size nd + length (chunks_view front) \<le> offset"
          using 2 False Pair by auto
        moreover have "length (chunk_view nd) = c_size nd" using 2(2) by (simp add: length_chunk_view [of c])
        ultimately show ?thesis using False Pair Cons by (auto intro!: exI [of _ "nd # front"])
      qed
    qed
  qed
qed simp

lemma peek_rest_effect:
  assumes "\<forall>node \<in> set nodes. chunkn_wf c node \<and> c_off node = 0"
  shows "peek_rest nodes n out = Some (out @ take (n - length out) (chunks_view nodes))"
  using assms
proof (induction nodes arbitrary: out)
  case (Cons node rest)
  let ?bk = "if c_size node < n - length out then c_size node else n - length out"
  have "buf_read (c_data node) 0 ?bk = Some (take ?bk (chunk_view node))"
    using chunk_read_some(1) [of c node ?bk] Cons.prems by simp
  moreover have l: "length (chunk_view node) = c_size node" using Cons.prems by (simp add: length_chunk_view [of c])
  then have "take ?bk (chunk_view node) = take (n - length out) (chunk_view node)" by simp
  moreover have "n - (length out + min (c_size node) (n - length out)) = n - (length out + c_size node)" by auto
  ultimately show ?case using Cons l by (auto simp: Let_def)
qed simp

lemma chunkq_peek_effect:
  assumes "chunkq_wf q"
  shows "chunkq_peek q offset n = Some (if offset < length (chunkq_view q)
    then (int (min n (length (chunkq_view q) - offset)), take n (drop offset (chunkq_view q))) else (- 1, []))"
proof -
  have wf: "\<forall>node \<in> set (ch_nodes q). chunkn_wf (ch_chunk q) node" using assms by (simp add: chunkq_wf_def)
  obtain ys x where at: "chunkn_at_offset (ch_nodes q) offset 0 = (ys, x)" by fastforce
  note eff = chunkn_at_offset_effect [OF wf, where offset = offset and n = 0, unfolded at]
  show ?thesis
  proof (cases ys)
    case Nil
    then show ?thesis using eff at by (simp add: chunkq_peek_def chunkq_view_def)
  next
    case (Cons node rest)
    then obtain front where f: "ch_nodes q = front @ node # rest" "x = length (chunks_view front) + c_size node"
      "offset < x" "length (chunks_view front) \<le> offset" using eff by auto
    define off where "off = offset - length (chunks_view front)"
    define bk where "bk = (if c_size node - off > n then n else c_size node - off)"
    have nd: "chunkn_wf (ch_chunk q) node" "off < c_size node" using wf f by (auto simp: off_def)
    have rest: "\<forall>nd \<in> set rest. chunkn_wf (ch_chunk q) nd \<and> c_off nd = 0"
      using assms f(1) by (cases front) (auto simp: chunkq_wf_def)
    have "buf_read (c_data node) (c_off node + off) bk = Some (take bk (drop off (chunk_view node)))"
      using nd by (auto simp: chunkn_wf_def chunk_view_def bk_def buf_simps min_def drop_take add.commute)
    moreover have "take bk (drop off (chunk_view node)) = take n (drop off (chunk_view node))"
      using nd by (simp add: bk_def)
    moreover have v: "drop offset (chunkq_view q) = drop off (chunk_view node) @ chunks_view rest"
      using f nd by (simp add: chunkq_view_def off_def)
    moreover have "x - c_size node = length (chunks_view front)" using f(2) by simp
    then have "chunkq_peek q offset n = do {
        xs \<leftarrow> buf_read (c_data node) (c_off node + off) bk;
        out \<leftarrow> peek_rest rest n xs;
        Some (int (length out), out)
      }"
      using at Cons by (simp add: chunkq_peek_def Let_def off_def bk_def)
    moreover have "take n (drop offset (chunkq_view q)) = take n (drop off (chunk_view node))
        @ take (n - length (take n (drop off (chunk_view node)))) (chunks_view rest)"
      unfolding v by (simp add: min_def)
    ultimately have "chunkq_peek q offset n = Some (int (length (take n (drop offset (chunkq_view q)))),
        take n (drop offset (chunkq_view q)))"
      using peek_rest_effect [OF rest, of n "take n (drop off (chunk_view node))"] by simp
    moreover have "offset < length (chunkq_view q)" using f nd by (simp add: chunkq_view_def)
    ultimately show ?thesis by (simp add: min.commute)
  qed
qed

lemma chunkq_read_effect:
  assumes "chunkq_wf q" "ch_nodes q \<noteq> []"
  shows "\<exists>q'. chunkq_read q n = Some (int (min n (length (chunkq_view q))), take n (chunkq_view q), q')
    \<and> chunkq_wf q' \<and> chunkq_view q' = drop n (chunkq_view q) \<and> ch_chunk q' = ch_chunk q
    \<and> never_refuses (ch_alk q') = never_refuses (ch_alk q)"
  using read_loop_effect [OF assms(1), of n "[]"] assms(2) by (auto simp: chunkq_read_def min.commute)

lemma chunkq_clear_view: "chunkq_wf (chunkq_clear q)" "chunkq_view (chunkq_clear q) = []"
  by (simp_all add: chunkq_clear_def chunkq_wf_def chunkq_view_def)

subsection \<open>What the search gets wrong\<close>

text \<open>After a partial match the byte that differed is counted twice: ab is at 2 in acab.\<close>

lemma memchr_index_Nil [simp]: "memchr_index [] c = None"
  by (simp add: memchr_index_def)

lemma memchr_index_Cons [simp]:
  "memchr_index (x # xs) c = (if x = c then Some 0 else map_option Suc (memchr_index xs c))"
  by (simp add: memchr_index_def Let_def)

lemma indexof_miscounts:
  "chunkq_indexof \<lparr>ch_nodes = [\<lparr>c_data = [97, 99, 97, 98], c_off = 0, c_size = 4\<rparr>], ch_pool = 0,
      ch_psize = 0, ch_chunk = 4, ch_size = 4, ch_alk = alk_generous\<rparr> 0 [97, 98] = Some 3"
  apply (simp add: chunkq_indexof_def buf_simps cong: eval_cong)
  apply (subst search_step.simps)
  apply (simp add: buf_simps restart_def cong: eval_cong)
  apply (subst search_step.simps)
  apply (simp add: buf_simps restart_def cong: eval_cong)
  done

text \<open>A match begun in one chunk goes on in a later one: ab is found in the chunks a, x, b.\<close>

lemma indexof_skips_chunks:
  "chunkq_indexof \<lparr>ch_nodes = [\<lparr>c_data = [97], c_off = 0, c_size = 1\<rparr>, \<lparr>c_data = [120], c_off = 0, c_size = 1\<rparr>,
        \<lparr>c_data = [98], c_off = 0, c_size = 1\<rparr>], ch_pool = 0,
      ch_psize = 0, ch_chunk = 1, ch_size = 3, ch_alk = alk_generous\<rparr> 0 [97, 98] = Some 0"
  apply (simp add: chunkq_indexof_def buf_simps cong: eval_cong)
  apply (subst search_step.simps)
  apply (simp add: buf_simps restart_def cong: eval_cong)
  apply (subst search_step.simps)
  apply (simp add: buf_simps restart_def cong: eval_cong)
  apply (subst search_step.simps)
  apply (simp add: buf_simps restart_def cong: eval_cong)
  done

text \<open>Freeing the queue puts the pooled chunks back into the pool and forgets them.\<close>

lemma chunks_free_pools:
  assumes "\<not> ch_psize q > CHUNK_POOL"
  shows "chunks_free q n = q\<lparr>ch_pool := ch_pool q + n\<rparr>"
proof (induction n)
  case (Suc n)
  have "chunks_free q (Suc n) = chunkn_free (chunks_free q n)" by (simp add: chunks_free_def)
  then show ?case using assms unfolding Suc by (simp add: chunkn_free_def)
qed (simp add: chunks_free_def)

lemma chunkq_free_leaks: "\<not> ch_psize q > CHUNK_POOL \<Longrightarrow> ch_alk (chunkq_free q) = ch_alk q"
  by (simp add: chunkq_free_def chunkq_clear_def Let_def chunks_free_pools)

end
