(* ===== verification/Chunk_Properties.thy ===== *)
theory Chunk_Properties
  imports Chunk_Queue
begin

section \<open>Properties of the chunk queue\<close>

text \<open>The queue of src/chunkq as a first-in first-out sequence of bytes.\<close>

text \<open>C16. Bytes appended to a well-formed queue (its chunks not empty, its allocator not refusing) are
  all taken, end up behind those already there, and are what peeks at any offset and reads of any
  length return; a read removes what it returns. Nothing is read or written outside a chunk.\<close>

theorem chunkq_roundtrip:
  assumes "chunkq_wf q" "never_refuses (ch_alk q)" "0 < ch_chunk q"
  shows "\<exists>q'. chunkq_append q p = Some (int (length p), q') \<and> chunkq_wf q' \<and> chunkq_view q' = chunkq_view q @ p
    \<and> (\<forall>offset n. chunkq_peek q' offset n =
        Some (if offset < length (chunkq_view q @ p)
              then (int (min n (length (chunkq_view q @ p) - offset)), take n (drop offset (chunkq_view q @ p)))
              else (- 1, [])))
    \<and> (p = [] \<or> (\<forall>n. \<exists>q''. chunkq_read q' n
          = Some (int (min n (length (chunkq_view q @ p))), take n (chunkq_view q @ p), q'')
        \<and> chunkq_wf q'' \<and> chunkq_view q'' = drop n (chunkq_view q @ p)))"
proof -
  obtain q' where q': "chunkq_append q p = Some (int (length p), q')" "chunkq_wf q'"
    "chunkq_view q' = chunkq_view q @ p" using chunkq_append_effect [OF assms, of p] by blast
  have "ch_nodes q' \<noteq> []" if "p \<noteq> []" using q'(3) that by (auto simp: chunkq_view_def)
  then have "p = [] \<or> (\<forall>n. \<exists>q''. chunkq_read q' n
      = Some (int (min n (length (chunkq_view q'))), take n (chunkq_view q'), q'')
    \<and> chunkq_wf q'' \<and> chunkq_view q'' = drop n (chunkq_view q'))"
    using chunkq_read_effect [OF q'(2)] by blast
  then show ?thesis using q' chunkq_peek_effect [OF q'(2)] by (intro exI [of _ q']) simp
qed

theorem chunkq_roundtrip_witness:
  "\<exists>q' q''. chunkq_append (chunkq_alloc 2 alk_generous) [5, 6, 7] = Some (3, q')
    \<and> chunkq_peek q' 1 9 = Some (2, [6, 7]) \<and> chunkq_read q' 2 = Some (2, [5, 6], q'') \<and> chunkq_view q'' = [7]"
proof -
  have "never_refuses (ch_alk (chunkq_alloc 2 alk_generous))" "0 < ch_chunk (chunkq_alloc 2 alk_generous)"
    by (simp_all add: chunkq_alloc_def)
  note rt = chunkq_roundtrip [OF chunkq_wf_alloc(1) this, of "[5, 6, 7]", unfolded chunkq_wf_alloc(2) append_Nil]
  have ne: "[5, 6, 7 :: u8] \<noteq> []" "length [5, 6, 7 :: u8] = 3" by simp_all
  obtain q' where q': "chunkq_append (chunkq_alloc 2 alk_generous) [5, 6, 7] = Some (int (length [5, 6, 7 :: u8]), q')"
    "\<forall>offset n. chunkq_peek q' offset n =
      Some (if offset < length [5, 6, 7 :: u8]
            then (int (min n (length [5, 6, 7 :: u8] - offset)), take n (drop offset [5, 6, 7])) else (- 1, []))"
    "\<forall>n. \<exists>q''. chunkq_read q' n = Some (int (min n (length [5, 6, 7 :: u8])), take n [5, 6, 7], q'')
      \<and> chunkq_wf q'' \<and> chunkq_view q'' = drop n [5, 6, 7]"
    using rt ne(1) by blast
  from q'(3) [rule_format, of 2] obtain q'' where "chunkq_read q' 2 = Some (2, [5, 6], q'')" "chunkq_view q'' = [7]"
    by (auto simp: numeral_eq_Suc)
  moreover have "chunkq_peek q' 1 9 = Some (2, [6, 7])" using q'(2) by (simp add: numeral_eq_Suc)
  ultimately show ?thesis using q'(1) unfolding ne(2) of_nat_numeral by blast
qed

end
