(* ===== verification/Str_Buf.thy ===== *)
theory Str_Buf
  imports Mem_Text Allocator
begin

section \<open>strbuf.c\<close>

text \<open>
  src/string: a growable string. The block \<open>blob\<close> is a byte list of \<open>blksz\<close> bytes, empty for
  NULL; the bytes that realloc adds are indeterminate (0 in the model, and not part of the
  string). The \<open>blob\<close> argument of an operation points into the string's own block (\<open>Own\<close>, an
  offset) or to another object (\<open>Ext\<close>, its bytes); an own pointer is lost when the block is
  reallocated, and using it afterwards faults. The sizes of the string and of the sources are those
  of objects in memory, and their sums do not wrap; an index or a number of bytes to remove is any
  \<open>size_t\<close>, and what is computed from it wraps at 2^64 (\<open>size_add\<close>, \<open>size_sub\<close>).
\<close>

subsection \<open>The operations\<close>

record strbuf =
  sb_blob :: "u8 list"
  sb_size :: nat
  sb_alk :: alk

abbreviation sb_blksz :: "strbuf \<Rightarrow> nat" where
  "sb_blksz s \<equiv> length (sb_blob s)"

definition size_add :: "nat \<Rightarrow> nat \<Rightarrow> nat" where
  "size_add x y = (x + y) mod 2 ^ 64"

definition size_sub :: "nat \<Rightarrow> nat \<Rightarrow> nat" where
  "size_sub x y = nat ((int x - int y) mod 2 ^ 64)"

lemma size_add_small: "x + y < 2 ^ 64 \<Longrightarrow> size_add x y = x + y"
  by (simp add: size_add_def)

lemma size_add_wraps: "2 ^ 64 \<le> x + y \<Longrightarrow> x < 2 ^ 64 \<Longrightarrow> y < 2 ^ 64 \<Longrightarrow> size_add x y = x + y - 2 ^ 64"
  by (simp add: size_add_def mod_if)

lemma size_sub_small: "y \<le> x \<Longrightarrow> x < 2 ^ 64 \<Longrightarrow> size_sub x y = x - y"
  by (simp add: size_sub_def nat_minus_as_int)

lemma size_sub_wraps: "x < y \<Longrightarrow> y < 2 ^ 64 \<Longrightarrow> size_sub x y = 2 ^ 64 - (y - x)"
proof -
  assume a: "x < y" "y < 2 ^ 64"
  then have "(int x - int y + 2 ^ 64) mod 2 ^ 64 = int x - int y + 2 ^ 64" by (intro mod_pos_pos_trivial) simp_all
  then have "(int x - int y) mod 2 ^ 64 = int x - int y + 2 ^ 64" by simp
  then show ?thesis using a by (simp add: size_sub_def)
qed

datatype sb_src = Own nat | Ext "u8 list"

definition align_up :: "nat \<Rightarrow> nat \<Rightarrow> nat" where
  "align_up x align = unat ((of_nat x + (of_nat align - 1)) AND - (of_nat align) :: u64)"

definition sb_adjust :: "nat \<Rightarrow> nat" where
  "sb_adjust n =
     (if n < 32 then align_up n 8
      else if n < 128 then align_up n 16
      else if n < 512 then align_up n 64
      else align_up n 1024)"

text \<open>\<open>realloc\<close> keeps the bytes the two blocks have in common. A block of no bytes is no block.\<close>

definition mm_realloc :: "strbuf \<Rightarrow> nat \<Rightarrow> (bool \<times> strbuf) option" where
  "mm_realloc s n =
     (if n = 0 then None
      else
        let (ok, a) = mmalloc n (sb_alk s);
            a' = (if ok \<and> sb_blob s \<noteq> [] then mmfree a else a);
            old = take n (sb_blob s)
        in Some (ok, if ok then s\<lparr>sb_blob := old @ replicate (n - length old) 0, sb_alk := a'\<rparr>
                     else s\<lparr>sb_alk := a'\<rparr>))"

definition strbuf_realloc :: "strbuf \<Rightarrow> nat \<Rightarrow> (bool \<times> strbuf) option" where
  "strbuf_realloc s n = mm_realloc s (sb_adjust n)"

definition strbuf_alloc :: "alk \<Rightarrow> strbuf" where
  "strbuf_alloc a = \<lparr>sb_blob = [], sb_size = 0, sb_alk = a\<rparr>"

definition strbuf_free :: "strbuf \<Rightarrow> strbuf" where
  "strbuf_free s =
     (if sb_blob s \<noteq> [] then s\<lparr>sb_blob := [], sb_size := 0, sb_alk := mmfree (sb_alk s)\<rparr>
      else s\<lparr>sb_size := 0\<rparr>)"

definition strbuf_mmsqueeze :: "strbuf \<Rightarrow> (int \<times> strbuf) option" where
  "strbuf_mmsqueeze s =
     do { (ok, s) \<leftarrow> mm_realloc s (sb_size s); Some (if ok then 0 else - 1, s) }"

definition strbuf_mmreserve :: "strbuf \<Rightarrow> nat \<Rightarrow> (int \<times> strbuf) option" where
  "strbuf_mmreserve s n =
     (if n > sb_blksz s
      then do { (ok, s) \<leftarrow> strbuf_realloc s n; Some (if ok then 0 else - 1, s) }
      else Some (0, s))"

definition strbuf_clear :: "strbuf \<Rightarrow> (int \<times> strbuf) option" where
  "strbuf_clear s = do { b \<leftarrow> buf_set (sb_blob s) 0 0; Some (0, s\<lparr>sb_blob := b, sb_size := 0\<rparr>) }"

text \<open>The test and the reallocation at the start of an operation; whether it may go on.\<close>

definition sb_grow :: "strbuf \<Rightarrow> sb_src \<Rightarrow> nat \<Rightarrow> (bool \<times> strbuf) option" where
  "sb_grow s src n =
     (if n > sb_blksz s
      then do {
        (ok, s') \<leftarrow> strbuf_realloc s n;
        case src of Own p \<Rightarrow> (if ok then None else Some (ok, s')) | Ext xs \<Rightarrow> Some (ok, s')
      }
      else Some (True, s))"

text \<open>memmove and memcpy within the block, and from a source into the block.\<close>

definition blob_move :: "u8 list \<Rightarrow> nat \<Rightarrow> nat \<Rightarrow> nat \<Rightarrow> u8 list option" where
  "blob_move m d s n = do { xs \<leftarrow> buf_read m s n; buf_write m d xs }"

definition src_move :: "u8 list \<Rightarrow> nat \<Rightarrow> sb_src \<Rightarrow> nat \<Rightarrow> u8 list option" where
  "src_move m d src n = (case src of Own p \<Rightarrow> blob_move m d p n | Ext xs \<Rightarrow> obj_copy m d xs 0 n)"

definition src_copy :: "u8 list \<Rightarrow> nat \<Rightarrow> sb_src \<Rightarrow> nat \<Rightarrow> u8 list option" where
  "src_copy m d src n =
     (case src of
        Own p \<Rightarrow> (if p + n \<le> d \<or> d + n \<le> p then blob_move m d p n else None)
      | Ext xs \<Rightarrow> obj_copy m d xs 0 n)"

text \<open>The end of an operation: the terminating zero and the size.\<close>

definition sb_finish :: "strbuf \<Rightarrow> u8 list \<Rightarrow> nat \<Rightarrow> (int \<times> strbuf) option" where
  "sb_finish s m n = do { b \<leftarrow> buf_set m n 0; Some (0, s\<lparr>sb_blob := b, sb_size := n\<rparr>) }"

definition strbuf_set :: "strbuf \<Rightarrow> sb_src \<Rightarrow> nat \<Rightarrow> (int \<times> strbuf) option" where
  "strbuf_set s src n =
     do {
       (ok, s) \<leftarrow> sb_grow s src n;
       if \<not> ok then Some (- 1, s)
       else do { m \<leftarrow> src_move (sb_blob s) 0 src n; sb_finish s m n }
     }"

definition strbuf_append :: "strbuf \<Rightarrow> sb_src \<Rightarrow> nat \<Rightarrow> (int \<times> strbuf) option" where
  "strbuf_append s src n =
     do {
       let len = sb_size s + n;
       (ok, s) \<leftarrow> sb_grow s src len;
       if \<not> ok then Some (- 1, s)
       else do { m \<leftarrow> src_copy (sb_blob s) (sb_size s) src n; sb_finish s m len }
     }"

text \<open>\<open>strndup\<close> stops at a zero byte; the copy made of it does not.\<close>

definition own_strndup :: "u8 list \<Rightarrow> nat \<Rightarrow> nat \<Rightarrow> u8 list option" where
  "own_strndup m p n =
     (let t = takeWhile (\<lambda>b. b \<noteq> 0) (take n (drop p m))
      in if length t < n \<and> length m \<le> p + length t then None else Some (t @ [0]))"

text \<open>Makes room at \<open>p\<close> for \<open>n\<close> bytes and copies them there, \<open>tail\<close> being the bytes to move;
  for an own pointer by way of a duplicate (None: it could not be allocated).\<close>

definition sb_make_room :: "strbuf \<Rightarrow> nat \<Rightarrow> nat \<Rightarrow> sb_src \<Rightarrow> nat \<Rightarrow> (u8 list option \<times> alk) option" where
  "sb_make_room s p tail src n =
     (case src of
        Own q \<Rightarrow>
          let (ok, a) = mmalloc (n + 1) (sb_alk s)
          in if \<not> ok then Some (None, a)
             else do {
               dblob \<leftarrow> own_strndup (sb_blob s) q n;
               m \<leftarrow> blob_move (sb_blob s) (p + n) p tail;
               m \<leftarrow> obj_copy m p dblob 0 n;
               Some (Some m, mmfree a)
             }
      | Ext xs \<Rightarrow>
          do {
            m \<leftarrow> blob_move (sb_blob s) (p + n) p tail;
            m \<leftarrow> obj_copy m p xs 0 n;
            Some (Some m, sb_alk s)
          })"

definition strbuf_prepend :: "strbuf \<Rightarrow> sb_src \<Rightarrow> nat \<Rightarrow> (int \<times> strbuf) option" where
  "strbuf_prepend s src n =
     do {
       let len = sb_size s + n;
       (ok, s) \<leftarrow> sb_grow s src len;
       if \<not> ok then Some (- 1, s)
       else do {
         (r, a) \<leftarrow> sb_make_room s 0 (sb_size s) src n;
         let s = s\<lparr>sb_alk := a\<rparr>;
         case r of None \<Rightarrow> Some (- 1, s) | Some m \<Rightarrow> sb_finish s m len
       }
     }"

definition strbuf_insert :: "strbuf \<Rightarrow> nat \<Rightarrow> sb_src \<Rightarrow> nat \<Rightarrow> (int \<times> strbuf) option" where
  "strbuf_insert s index src n =
     do {
       let len = sb_size s + n;
       let len = (if index > sb_size s then size_add len (size_sub index (sb_size s)) else len);
       (ok, s) \<leftarrow> sb_grow s src len;
       if \<not> ok then Some (- 1, s)
       else if index > sb_size s
       then do {
         m \<leftarrow> buf_write (sb_blob s) (sb_size s) (replicate (index - sb_size s) 32);
         m \<leftarrow> src_copy m index src n;
         sb_finish s m len
       }
       else do {
         (r, a) \<leftarrow> sb_make_room s index (sb_size s - index) src n;
         let s = s\<lparr>sb_alk := a\<rparr>;
         case r of None \<Rightarrow> Some (- 1, s) | Some m \<Rightarrow> sb_finish s m len
       }
     }"

definition strbuf_truncate :: "strbuf \<Rightarrow> nat \<Rightarrow> (int \<times> strbuf) option" where
  "strbuf_truncate s n = (if n \<ge> sb_size s then Some (- 1, s) else sb_finish s (sb_blob s) n)"

definition strbuf_remove :: "strbuf \<Rightarrow> nat \<Rightarrow> nat \<Rightarrow> (int \<times> strbuf) option" where
  "strbuf_remove s index n =
     (if index \<ge> sb_size s \<or> n = 0 then Some (- 1, s)
      else if size_add index n \<ge> sb_size s then sb_finish s (sb_blob s) index
      else do {
        m \<leftarrow> blob_move (sb_blob s) index (size_add index n) (size_sub (size_sub (sb_size s) index) n);
        sb_finish s m (size_sub (sb_size s) n)
      })"

definition strbuf_replace :: "strbuf \<Rightarrow> nat \<Rightarrow> nat \<Rightarrow> sb_src \<Rightarrow> nat \<Rightarrow> (int \<times> strbuf) option" where
  "strbuf_replace s index len src n =
     (if len = n \<and> size_add index n \<le> sb_size s
      then do { m \<leftarrow> src_move (sb_blob s) index src n; Some (0, s\<lparr>sb_blob := m\<rparr>) }
      else do {
        (_, s) \<leftarrow> strbuf_remove s index n;
        (r, s) \<leftarrow> strbuf_insert s index src n;
        Some (if r \<noteq> 0 then - 3 else 0, s)
      })"

text \<open>The byte after the string is read before its index is tested.\<close>

fun sb_ltrim_start :: "u8 list \<Rightarrow> nat \<Rightarrow> nat \<Rightarrow> nat option" where
  "sb_ltrim_start m start 0 = do { _ \<leftarrow> buf_get m start; Some start }"
| "sb_ltrim_start m start (Suc left) =
     do { b \<leftarrow> buf_get m start; if isspace_c b then sb_ltrim_start m (start + 1) left else Some start }"

definition strbuf_ltrim :: "strbuf \<Rightarrow> (int \<times> strbuf) option" where
  "strbuf_ltrim s =
     do {
       start \<leftarrow> sb_ltrim_start (sb_blob s) 0 (sb_size s);
       if start > 0
       then do {
         m \<leftarrow> blob_move (sb_blob s) 0 start (sb_size s - start);
         sb_finish s m (sb_size s - start)
       }
       else Some (0, s)
     }"

fun sb_rtrim_end :: "u8 list \<Rightarrow> nat \<Rightarrow> nat option" where
  "sb_rtrim_end m 0 = Some 0"
| "sb_rtrim_end m (Suc n) = do { b \<leftarrow> buf_get m n; if isspace_c b then sb_rtrim_end m n else Some (Suc n) }"

definition strbuf_rtrim :: "strbuf \<Rightarrow> (int \<times> strbuf) option" where
  "strbuf_rtrim s = do { stop \<leftarrow> sb_rtrim_end (sb_blob s) (sb_size s); sb_finish s (sb_blob s) stop }"

definition strbuf_trim :: "strbuf \<Rightarrow> (int \<times> strbuf) option" where
  "strbuf_trim s = do { (_, s) \<leftarrow> strbuf_rtrim s; (_, s) \<leftarrow> strbuf_ltrim s; Some (0, s) }"

definition strbuf_equal :: "strbuf \<Rightarrow> u8 list \<Rightarrow> nat \<Rightarrow> bool option" where
  "strbuf_equal s xs n =
     (if sb_size s \<noteq> n then Some False
      else do { d \<leftarrow> memcmp (sb_blob s) 0 xs 0 n; Some (d = 0) })"

definition strbuf_compare :: "strbuf \<Rightarrow> u8 list \<Rightarrow> nat \<Rightarrow> int option" where
  "strbuf_compare s xs n = memcmp (sb_blob s) 0 xs 0 (if sb_size s < n then sb_size s else n)"

subsection \<open>Text and invariant\<close>

definition sb_text :: "strbuf \<Rightarrow> u8 list" where
  "sb_text s = take (sb_size s) (sb_blob s)"

text \<open>Terminated, and nothing else to say of a string that has no block.\<close>

definition sb_wf :: "strbuf \<Rightarrow> bool" where
  "sb_wf s \<longleftrightarrow> (if sb_blob s = [] then sb_size s = 0 else sb_size s < sb_blksz s \<and> sb_blob s ! sb_size s = 0)"

lemma sb_wf_alloc: "sb_wf (strbuf_alloc a)" "sb_text (strbuf_alloc a) = []"
  by (simp_all add: sb_wf_def sb_text_def strbuf_alloc_def)

lemma sb_wf_le: "sb_wf s \<Longrightarrow> sb_size s \<le> sb_blksz s"
  by (auto simp: sb_wf_def split: if_splits)

lemma length_sb_text [simp]: "sb_wf s \<Longrightarrow> length (sb_text s) = sb_size s"
  using sb_wf_le by (simp add: sb_text_def)

lemma sb_finish_effect:
  assumes "n < length m"
  shows "\<exists>s'. sb_finish s m n = Some (0, s') \<and> sb_wf s' \<and> sb_text s' = take n m \<and> sb_alk s' = sb_alk s
    \<and> sb_blksz s' = length m"
  using assms by (auto simp: sb_finish_def buf_simps sb_wf_def sb_text_def)

lemma sb_finish_overruns: "length m \<le> n \<Longrightarrow> sb_finish s m n = None"
  by (simp add: sb_finish_def buf_set_def)

subsection \<open>Room\<close>

lemma align_up_bounds:
  assumes "x + 2 ^ k < 2 ^ 64" "k < 64"
  shows "x \<le> align_up x (2 ^ k)" "align_up x (2 ^ k) < x + 2 ^ k" "2 ^ k dvd align_up x (2 ^ k)"
proof -
  let ?y = "of_nat x + (of_nat (2 ^ k) - 1) :: u64"
  have "1 \<le> (2 :: nat) ^ k" by simp
  then have "?y = of_nat (x + (2 ^ k - 1))" by (simp only: of_nat_add of_nat_diff of_nat_1)
  then have y: "unat ?y = x + (2 ^ k - 1)" using assms by (simp only: unat_of_nat_u64)
  have "align_up x (2 ^ k) = unat (?y AND - (2 ^ k))" by (simp add: align_up_def)
  then have a: "align_up x (2 ^ k) = unat ?y - unat ?y mod 2 ^ k" by (simp only: unat_align_word)
  have "unat ?y mod 2 ^ k < 2 ^ k" by simp
  then show "x \<le> align_up x (2 ^ k)" "align_up x (2 ^ k) < x + 2 ^ k" unfolding a using y by linarith+
  show "2 ^ k dvd align_up x (2 ^ k)" unfolding a by (simp add: dvd_minus_mod)
qed

lemma sb_adjust_bounds:
  assumes "n < 2 ^ 63"
  shows "n \<le> sb_adjust n" "sb_adjust n < n + 1024"
  using align_up_bounds [of n 3] align_up_bounds [of n 4] align_up_bounds [of n 6] align_up_bounds [of n 10] assms
  by (auto simp: sb_adjust_def)

text \<open>The size of the block once it has room for \<open>n\<close> bytes, as the code counts them: without the
  terminator, which is outside the block when \<open>n\<close> fills it.\<close>

definition sb_room :: "strbuf \<Rightarrow> nat \<Rightarrow> nat" where
  "sb_room s n = (if n > sb_blksz s then sb_adjust n else sb_blksz s)"

lemma sb_room_ge: "n < 2 ^ 63 \<Longrightarrow> n \<le> sb_room s n"
  using sb_adjust_bounds(1) by (simp add: sb_room_def)

definition sb_grown :: "strbuf \<Rightarrow> nat \<Rightarrow> strbuf \<Rightarrow> bool" where
  "sb_grown s n s' \<longleftrightarrow> sb_size s' = sb_size s \<and> sb_blksz s' = sb_room s n
     \<and> take (sb_size s) (sb_blob s') = sb_text s \<and> (never_refuses (sb_alk s) \<longrightarrow> never_refuses (sb_alk s'))"

lemma sb_grow_effect:
  assumes "sb_wf s" "n < 2 ^ 63"
  shows "\<exists>ok s'. sb_grow s (Ext xs) n = Some (ok, s') \<and> (ok \<longrightarrow> sb_grown s n s')
    \<and> (\<not> ok \<longrightarrow> sb_wf s' \<and> sb_text s' = sb_text s \<and> \<not> never_refuses (sb_alk s))"
proof (cases "n > sb_blksz s")
  case False
  then show ?thesis by (intro exI [of _ True] exI [of _ s]) (simp add: sb_grow_def sb_grown_def sb_room_def sb_text_def)
next
  case True
  obtain ok a where m: "mmalloc (sb_adjust n) (sb_alk s) = (ok, a)" by fastforce
  have n: "n \<le> sb_adjust n" "sb_adjust n \<noteq> 0" using sb_adjust_bounds(1) [OF assms(2)] True by auto
  have le: "sb_size s \<le> sb_blksz s" "sb_blksz s \<le> sb_adjust n" using sb_wf_le [OF assms(1)] True n(1) by auto
  show ?thesis
  proof (cases ok)
    case ok: True
    define s' where "s' = s\<lparr>sb_blob := sb_blob s @ replicate (sb_adjust n - sb_blksz s) 0,
      sb_alk := (if sb_blob s \<noteq> [] then mmfree a else a)\<rparr>"
    have "sb_grow s (Ext xs) n = Some (True, s')"
      using True m ok n(2) le by (simp add: sb_grow_def strbuf_realloc_def mm_realloc_def s'_def Let_def)
    moreover have "sb_grown s n s'"
      using True le mmalloc_never_refuses(2) [OF _ m] by (simp add: sb_grown_def sb_room_def s'_def sb_text_def)
    ultimately show ?thesis by blast
  next
    case False
    then have "sb_grow s (Ext xs) n = Some (False, s\<lparr>sb_alk := a\<rparr>)"
      using True m n(2) by (simp add: sb_grow_def strbuf_realloc_def mm_realloc_def)
    moreover have "\<not> never_refuses (sb_alk s)" using mmalloc_never_refuses(1) [OF _ m] False by blast
    moreover have "sb_wf (s\<lparr>sb_alk := a\<rparr>)" "sb_text (s\<lparr>sb_alk := a\<rparr>) = sb_text s"
      using assms(1) by (simp_all add: sb_wf_def sb_text_def)
    ultimately show ?thesis by blast
  qed
qed

text \<open>What an operation that writes \<open>txt\<close> does: it runs past the block, or ends well, or reports a
  refused allocation.\<close>

definition sb_wrote :: "strbuf \<Rightarrow> u8 list \<Rightarrow> (int \<times> strbuf) option \<Rightarrow> bool" where
  "sb_wrote s txt out \<longleftrightarrow>
     (if sb_room s (length txt) = length txt \<and> never_refuses (sb_alk s) then out = None
      else out = None \<and> sb_room s (length txt) = length txt
        \<or> (\<exists>r s'. out = Some (r, s') \<and> sb_wf s'
            \<and> (r = 0 \<and> sb_text s' = txt \<or> r = - 1 \<and> sb_text s' = sb_text s \<and> \<not> never_refuses (sb_alk s))))"

lemma sb_wrote_intro:
  assumes "sb_wf s" "length txt < 2 ^ 63"
    and "\<And>s'. sb_grown s (length txt) s' \<Longrightarrow> \<exists>m. k s' = sb_finish s' m (length txt) \<and> length m = sb_blksz s'
      \<and> take (length txt) m = txt"
  shows "sb_wrote s txt (do { (ok, s') \<leftarrow> sb_grow s (Ext xs) (length txt); if \<not> ok then Some (- 1, s') else k s' })"
proof -
  obtain ok s' where g: "sb_grow s (Ext xs) (length txt) = Some (ok, s')" "ok \<longrightarrow> sb_grown s (length txt) s'"
    "\<not> ok \<longrightarrow> sb_wf s' \<and> sb_text s' = sb_text s \<and> \<not> never_refuses (sb_alk s)"
    using sb_grow_effect [OF assms(1,2), of xs] by blast
  show ?thesis
  proof (cases ok)
    case False
    then show ?thesis using g by (simp add: sb_wrote_def)
  next
    case True
    then obtain m where m: "k s' = sb_finish s' m (length txt)" "length m = sb_room s (length txt)"
      "take (length txt) m = txt" using assms(3) [of s'] g(2) by (auto simp: sb_grown_def)
    show ?thesis
    proof (cases "sb_room s (length txt) = length txt")
      case True
      then have "k s' = None" using m by (simp add: sb_finish_overruns)
      then show ?thesis using True \<open>ok\<close> g(1) by (simp add: sb_wrote_def)
    next
      case False
      then have "length txt < length m" using sb_room_ge [OF assms(2), of s] m(2) by simp
      then show ?thesis using sb_finish_effect [of "length txt" m s'] m \<open>ok\<close> g(1) False
        by (auto simp: sb_wrote_def)
    qed
  qed
qed

subsection \<open>Effects on the text\<close>

lemma obj_copy_text:
  "d + length xs \<le> length m \<Longrightarrow> obj_copy m d xs 0 (length xs) = Some (splice m d xs)"
  by (simp add: buf_simps)

lemma strbuf_set_effect:
  assumes "sb_wf s" "length xs < 2 ^ 63"
  shows "sb_wrote s xs (strbuf_set s (Ext xs) (length xs))"
proof -
  have "sb_wrote s xs (do { (ok, s') \<leftarrow> sb_grow s (Ext xs) (length xs); if \<not> ok then Some (- 1, s')
      else do { m \<leftarrow> src_move (sb_blob s') 0 (Ext xs) (length xs); sb_finish s' m (length xs) } })"
  proof (rule sb_wrote_intro [OF assms])
    fix s' assume "sb_grown s (length xs) s'"
    then have "length xs \<le> sb_blksz s'" using sb_room_ge [OF assms(2)] by (simp add: sb_grown_def)
    then show "\<exists>m. do { m \<leftarrow> src_move (sb_blob s') 0 (Ext xs) (length xs); sb_finish s' m (length xs) }
        = sb_finish s' m (length xs) \<and> length m = sb_blksz s' \<and> take (length xs) m = xs"
      by (intro exI [of _ "splice (sb_blob s') 0 xs"]) (simp add: src_move_def obj_copy_text splice_def)
  qed
  then show ?thesis by (simp add: strbuf_set_def)
qed

lemma strbuf_append_effect:
  assumes "sb_wf s" "sb_size s + length xs < 2 ^ 63"
  shows "sb_wrote s (sb_text s @ xs) (strbuf_append s (Ext xs) (length xs))"
proof -
  let ?t = "sb_text s @ xs"
  have l: "length ?t = sb_size s + length xs" using assms(1) by simp
  have "sb_wrote s ?t (do { (ok, s') \<leftarrow> sb_grow s (Ext xs) (length ?t); if \<not> ok then Some (- 1, s')
      else do { m \<leftarrow> src_copy (sb_blob s') (sb_size s') (Ext xs) (length xs); sb_finish s' m (length ?t) } })"
  proof (rule sb_wrote_intro [OF assms(1)])
    fix s' assume g: "sb_grown s (length ?t) s'"
    then have "sb_size s + length xs \<le> sb_blksz s'" "sb_size s' = sb_size s" "take (sb_size s) (sb_blob s') = sb_text s"
      using sb_room_ge [of "length ?t" s] assms(2) l by (simp_all add: sb_grown_def)
    then show "\<exists>m. do { m \<leftarrow> src_copy (sb_blob s') (sb_size s') (Ext xs) (length xs); sb_finish s' m (length ?t) }
        = sb_finish s' m (length ?t) \<and> length m = sb_blksz s' \<and> take (length ?t) m = ?t"
      using l by (intro exI [of _ "splice (sb_blob s') (sb_size s) xs"]) (simp add: src_copy_def obj_copy_text splice_def)
  qed (use assms(2) l in simp)
  then show ?thesis unfolding l by (simp add: strbuf_append_def Let_def)
qed

lemma take_length_append: "take (length xs) (xs @ ys) = xs"
  by simp

text \<open>A gap of \<open>n\<close> bytes at \<open>p\<close>, filled with \<open>xs\<close>.\<close>

lemma gap_filled:
  assumes "p \<le> k" "k + length xs \<le> length m"
  shows "blob_move m (p + length xs) p (k - p) = Some (splice m (p + length xs) (take (k - p) (drop p m)))"
    and "\<exists>m'. obj_copy (splice m (p + length xs) (take (k - p) (drop p m))) p xs 0 (length xs) = Some m'
      \<and> length m' = length m \<and> take (k + length xs) m' = take p m @ xs @ drop p (take k m)"
proof -
  let ?tail = "take (k - p) (drop p m)"
  have t: "length ?tail = k - p" "p + length xs + length ?tail \<le> length m" using assms by simp_all
  show "blob_move m (p + length xs) p (k - p) = Some (splice m (p + length xs) ?tail)"
    using assms t by (simp add: blob_move_def buf_simps)
  let ?m = "splice m (p + length xs) ?tail"
  have e: "splice ?m p xs = (take p m @ xs @ ?tail) @ drop (k + length xs) m"
    using assms t by (simp add: splice_def min_def add.commute)
  have f: "length (take p m @ xs @ ?tail) = k + length xs" using assms by simp
  have len: "length ?m = length m" using t by simp
  then have "obj_copy ?m p xs 0 (length xs) = Some (splice ?m p xs)" using assms by (simp add: obj_copy_text)
  moreover have "take (k + length xs) (splice ?m p xs) = take p m @ xs @ drop p (take k m)"
    using take_length_append [of "take p m @ xs @ ?tail" "drop (k + length xs) m"] unfolding e f by (simp add: drop_take)
  moreover have "length (splice ?m p xs) = length m" using length_splice [of p xs ?m] len assms by simp
  ultimately show "\<exists>m'. obj_copy ?m p xs 0 (length xs) = Some m'
      \<and> length m' = length m \<and> take (k + length xs) m' = take p m @ xs @ drop p (take k m)" by blast
qed

lemma sb_make_room_effect:
  assumes "p \<le> sb_size s" "sb_size s + length xs \<le> sb_blksz s"
  shows "\<exists>m. sb_make_room s p (sb_size s - p) (Ext xs) (length xs) = Some (Some m, sb_alk s) \<and> length m = sb_blksz s
    \<and> take (sb_size s + length xs) m = take p (sb_text s) @ xs @ drop p (sb_text s)"
  using gap_filled [OF assms] assms(1) by (auto simp: sb_make_room_def sb_text_def min_def)

lemma strbuf_prepend_effect:
  assumes "sb_wf s" "sb_size s + length xs < 2 ^ 63"
  shows "sb_wrote s (xs @ sb_text s) (strbuf_prepend s (Ext xs) (length xs))"
proof -
  let ?t = "xs @ sb_text s"
  have l: "length ?t = sb_size s + length xs" using assms(1) by simp
  have "sb_wrote s ?t (do { (ok, s') \<leftarrow> sb_grow s (Ext xs) (length ?t); if \<not> ok then Some (- 1, s')
      else do {
        (r, a) \<leftarrow> sb_make_room s' 0 (sb_size s') (Ext xs) (length xs);
        let s' = s'\<lparr>sb_alk := a\<rparr>;
        case r of None \<Rightarrow> Some (- 1, s') | Some m \<Rightarrow> sb_finish s' m (length ?t)
      } })"
  proof (rule sb_wrote_intro [OF assms(1)])
    fix s' assume "sb_grown s (length ?t) s'"
    then have g: "sb_size s + length xs \<le> sb_blksz s'" "sb_size s' = sb_size s" "sb_text s' = sb_text s"
      using sb_room_ge [of "length ?t" s] assms(2) l by (simp_all add: sb_grown_def sb_text_def)
    then obtain m where "sb_make_room s' 0 (sb_size s') (Ext xs) (length xs) = Some (Some m, sb_alk s')"
      "length m = sb_blksz s'" "take (sb_size s + length xs) m = xs @ sb_text s"
      using sb_make_room_effect [of 0 s' xs] by auto
    then show "\<exists>m. do {
        (r, a) \<leftarrow> sb_make_room s' 0 (sb_size s') (Ext xs) (length xs);
        let s' = s'\<lparr>sb_alk := a\<rparr>;
        case r of None \<Rightarrow> Some (- 1, s') | Some m \<Rightarrow> sb_finish s' m (length ?t)
      } = sb_finish s' m (length ?t) \<and> length m = sb_blksz s' \<and> take (length ?t) m = ?t"
      using l by (intro exI [of _ m]) (simp add: add.commute)
  qed (use assms(2) l in simp)
  then show ?thesis unfolding l by (simp add: strbuf_prepend_def Let_def)
qed

text \<open>An insertion behind the end pads the gap with blanks.\<close>

definition inserted :: "u8 list \<Rightarrow> nat \<Rightarrow> u8 list \<Rightarrow> u8 list" where
  "inserted t index xs = take index t @ replicate (index - length t) 32 @ xs @ drop index t"

lemma strbuf_insert_effect:
  assumes "sb_wf s" "max index (sb_size s) + length xs < 2 ^ 63"
  shows "sb_wrote s (inserted (sb_text s) index xs) (strbuf_insert s index (Ext xs) (length xs))"
proof -
  let ?t = "inserted (sb_text s) index xs"
  have l: "length ?t = sb_size s + length xs + (if index > sb_size s then index - sb_size s else 0)"
    using assms(1) by (simp add: inserted_def min_def)
  have small: "length ?t < 2 ^ 63" using assms(2) l by (auto simp: max_def split: if_splits)
  have len: "(if index > sb_size s then size_add (sb_size s + length xs) (size_sub index (sb_size s))
      else sb_size s + length xs) = length ?t"
    using small assms(2) unfolding l by (auto simp: size_add_small size_sub_small split: if_splits)
  let ?k = "\<lambda>s'. if index > sb_size s'
      then do {
        m \<leftarrow> buf_write (sb_blob s') (sb_size s') (replicate (index - sb_size s') 32);
        m \<leftarrow> src_copy m index (Ext xs) (length xs);
        sb_finish s' m (length ?t)
      }
      else do {
        (r, a) \<leftarrow> sb_make_room s' index (sb_size s' - index) (Ext xs) (length xs);
        let s' = s'\<lparr>sb_alk := a\<rparr>;
        case r of None \<Rightarrow> Some (- 1, s') | Some m \<Rightarrow> sb_finish s' m (length ?t)
      }"
  have "sb_wrote s ?t (do { (ok, s') \<leftarrow> sb_grow s (Ext xs) (length ?t); if \<not> ok then Some (- 1, s') else ?k s' })"
  proof (rule sb_wrote_intro [OF assms(1) small])
    fix s' assume "sb_grown s (length ?t) s'"
    then have g: "length ?t \<le> sb_blksz s'" "sb_size s' = sb_size s" "sb_text s' = sb_text s"
      "take (sb_size s) (sb_blob s') = sb_text s"
      using sb_room_ge [OF small] by (simp_all add: sb_grown_def sb_text_def)
    show "\<exists>m. ?k s' = sb_finish s' m (length ?t) \<and> length m = sb_blksz s' \<and> take (length ?t) m = ?t"
    proof (cases "index > sb_size s")
      case False
      then obtain m where "sb_make_room s' index (sb_size s' - index) (Ext xs) (length xs) = Some (Some m, sb_alk s')"
        "length m = sb_blksz s'" "take (length ?t) m = ?t"
        using sb_make_room_effect [of index s' xs] g l assms(1) by (auto simp: inserted_def add.commute)
      then show ?thesis using False g(2) by (intro exI [of _ m]) simp
    next
      case True
      let ?pad = "replicate (index - sb_size s) (32 :: u8)"
      let ?m = "splice (sb_blob s') (sb_size s) ?pad"
      have "length (splice ?m index xs) = sb_blksz s'" using g(1) l True by simp
      moreover have "splice ?m index xs = splice (sb_blob s') (sb_size s) (?pad @ xs)"
        using splice_splice_adjacent [of "sb_size s" ?pad xs "sb_blob s'"] g(1) l True by simp
      moreover have "take (length ?t) (splice (sb_blob s') (sb_size s) (?pad @ xs)) = ?t"
        using g(4) l True assms(1) by (simp add: splice_def inserted_def)
      ultimately show ?thesis using True g l
        by (intro exI [of _ "splice ?m index xs"]) (simp add: buf_simps src_copy_def obj_copy_text)
    qed
  qed
  then show ?thesis unfolding strbuf_insert_def Let_def len .
qed

subsection \<open>Operations that only shorten\<close>

text \<open>On a string that has a block these never fault.\<close>

lemma strbuf_truncate_effect:
  assumes "sb_wf s"
  shows "strbuf_truncate s n = Some (- 1, s) \<and> sb_size s \<le> n
    \<or> (\<exists>s'. strbuf_truncate s n = Some (0, s') \<and> n < sb_size s \<and> sb_wf s' \<and> sb_text s' = take n (sb_text s))"
proof (cases "n < sb_size s")
  case True
  then show ?thesis using sb_finish_effect [of n "sb_blob s" s] sb_wf_le [OF assms]
    by (auto simp: strbuf_truncate_def sb_text_def)
qed (simp add: strbuf_truncate_def)

lemma strbuf_remove_effect:
  assumes "sb_wf s" "sb_size s < 2 ^ 63" "index + n < 2 ^ 64"
  shows "strbuf_remove s index n = Some (- 1, s) \<and> (sb_size s \<le> index \<or> n = 0)
    \<or> (\<exists>s'. strbuf_remove s index n = Some (0, s') \<and> index < sb_size s \<and> 0 < n \<and> sb_wf s'
        \<and> sb_blksz s' = sb_blksz s \<and> sb_alk s' = sb_alk s
        \<and> sb_text s' = take index (sb_text s) @ drop (index + n) (sb_text s))"
proof (cases "sb_size s \<le> index \<or> n = 0")
  case True
  then show ?thesis by (simp add: strbuf_remove_def)
next
  case False
  have le: "sb_size s \<le> sb_blksz s" using sb_wf_le [OF assms(1)] .
  have add: "size_add index n = index + n" using assms(3) by (rule size_add_small)
  show ?thesis
  proof (cases "sb_size s \<le> index + n")
    case True
    then show ?thesis using False le sb_finish_effect [of index "sb_blob s" s] assms(1) add
      by (auto simp: strbuf_remove_def sb_text_def)
  next
    case nl: False
    then have sub: "size_sub (size_sub (sb_size s) index) n = sb_size s - index - n" "size_sub (sb_size s) n = sb_size s - n"
      using assms(2) by (simp_all add: size_sub_small)
    let ?rest = "take (sb_size s - index - n) (drop (index + n) (sb_blob s))"
    have "blob_move (sb_blob s) index (index + n) (sb_size s - index - n) = Some (splice (sb_blob s) index ?rest)"
      using le nl by (simp add: blob_move_def buf_simps)
    moreover have "take (sb_size s - n) (splice (sb_blob s) index ?rest)
        = take index (sb_text s) @ drop (index + n) (sb_text s)"
    proof -
      have "index < sb_size s - n" "sb_size s - n - index = sb_size s - (index + n)" using nl by auto
      then show ?thesis using le nl by (simp add: splice_def sb_text_def drop_take min_def)
    qed
    moreover have "length (splice (sb_blob s) index ?rest) = sb_blksz s" using le nl by simp
    moreover have "sb_size s - n < sb_blksz s" using False le by linarith
    ultimately show ?thesis using False nl sb_finish_effect [of "sb_size s - n" "splice (sb_blob s) index ?rest" s]
      by (auto simp: strbuf_remove_def add sub)
  qed
qed

text \<open>
  Where \<open>index + n\<close> wraps, that is, for \<open>n\<close> = 2^64 - \<open>k\<close> with \<open>k\<close> at most \<open>index\<close>, nothing is removed: the
  \<open>k\<close> bytes before \<open>index\<close> come twice, and the text grows by \<open>k\<close>, which is not tested against the
  block.
\<close>

lemma strbuf_remove_wraps:
  assumes "sb_wf s" "sb_size s < 2 ^ 63" "index < sb_size s" "0 < k" "k \<le> index"
  shows "if sb_size s + k < sb_blksz s
    then \<exists>s'. strbuf_remove s index (2 ^ 64 - k) = Some (0, s') \<and> sb_wf s'
        \<and> sb_text s' = take index (sb_text s) @ drop (index - k) (sb_text s)
    else strbuf_remove s index (2 ^ 64 - k) = None"
proof -
  have le: "sb_size s \<le> sb_blksz s" using sb_wf_le [OF assms(1)] .
  have n: "(2 :: nat) ^ 64 - k < 2 ^ 64" "0 < (2 :: nat) ^ 64 - k" using assms by simp_all
  have add: "size_add index (2 ^ 64 - k) = index - k"
    using assms by (subst size_add_wraps) simp_all
  have "size_sub (sb_size s - index) (2 ^ 64 - k) = 2 ^ 64 - (2 ^ 64 - k - (sb_size s - index))"
    using assms by (intro size_sub_wraps) simp_all
  then have sub1: "size_sub (size_sub (sb_size s) index) (2 ^ 64 - k) = sb_size s - index + k"
    using assms by (simp add: size_sub_small)
  have "size_sub (sb_size s) (2 ^ 64 - k) = 2 ^ 64 - (2 ^ 64 - k - sb_size s)"
    using assms by (intro size_sub_wraps) simp_all
  then have sub2: "size_sub (sb_size s) (2 ^ 64 - k) = sb_size s + k" using assms by simp
  have lt: "\<not> sb_size s \<le> index - k" using assms(3) by linarith
  let ?rest = "take (sb_size s - index + k) (drop (index - k) (sb_blob s))"
  have rm: "strbuf_remove s index (2 ^ 64 - k) = do {
      m \<leftarrow> blob_move (sb_blob s) index (index - k) (sb_size s - index + k);
      sb_finish s m (sb_size s + k) }"
    unfolding strbuf_remove_def add sub1 sub2 using lt assms n by simp
  show ?thesis
  proof (cases "sb_size s + k < sb_blksz s")
    case True
    then have "blob_move (sb_blob s) index (index - k) (sb_size s - index + k) = Some (splice (sb_blob s) index ?rest)"
      using assms le by (simp add: blob_move_def buf_simps)
    moreover have "length ?rest = sb_size s - index + k" using assms True by simp
    moreover from this have "take (sb_size s + k) (splice (sb_blob s) index ?rest)
        = take index (sb_text s) @ drop (index - k) (sb_text s)"
      using assms True by (simp add: splice_def sb_text_def drop_take min_def)
    moreover have "length (splice (sb_blob s) index ?rest) = sb_blksz s" using assms True by simp
    ultimately show ?thesis unfolding rm
      using True sb_finish_effect [of "sb_size s + k" "splice (sb_blob s) index ?rest" s] by auto
  next
    case False
    have "length m \<le> sb_size s + k" if "blob_move (sb_blob s) index (index - k) (sb_size s - index + k) = Some m" for m
      using that False by (auto simp: blob_move_def bind_Some_iff buf_write_def split: if_splits)
    then show ?thesis unfolding rm using False sb_finish_overruns
      by (cases "blob_move (sb_blob s) index (index - k) (sb_size s - index + k)") simp_all
  qed
qed

lemma sb_rtrim_end_effect:
  "n \<le> length m \<Longrightarrow> sb_rtrim_end m n = Some (length (dropWhile isspace_c (rev (take n m))))"
  by (induction n) (simp_all add: buf_simps take_Suc_conv_app_nth)

lemma strbuf_rtrim_effect:
  assumes "sb_wf s" "sb_blob s \<noteq> []"
  shows "\<exists>s'. strbuf_rtrim s = Some (0, s') \<and> sb_wf s' \<and> sb_blob s' \<noteq> []
    \<and> sb_text s' = rev (dropWhile isspace_c (rev (sb_text s)))"
proof -
  let ?n = "length (dropWhile isspace_c (rev (sb_text s)))"
  have le: "sb_size s < sb_blksz s" using assms by (simp add: sb_wf_def)
  have "?n \<le> length (sb_text s)" by (metis length_dropWhile_le length_rev)
  then have n: "?n \<le> sb_size s" using assms(1) by simp
  have "rev (dropWhile isspace_c (rev (sb_text s))) = take ?n (sb_text s)"
    by (simp add: dropWhile_eq_drop rev_drop)
  then have "take ?n (sb_blob s) = rev (dropWhile isspace_c (rev (sb_text s)))"
    using n by (simp add: sb_text_def min_def)
  moreover obtain s' where "sb_finish s (sb_blob s) ?n = Some (0, s')" "sb_wf s'" "sb_text s' = take ?n (sb_blob s)"
    "sb_blksz s' = sb_blksz s" using sb_finish_effect [of ?n "sb_blob s" s] n le by auto
  ultimately show ?thesis using sb_rtrim_end_effect [of "sb_size s" "sb_blob s"] le assms(2)
    by (auto simp: strbuf_rtrim_def sb_text_def)
qed

lemma sb_ltrim_start_effect:
  assumes "start + n < length m" "\<not> isspace_c (m ! (start + n))"
  shows "sb_ltrim_start m start n = Some (start + length (takeWhile isspace_c (take n (drop start m))))"
  using assms
proof (induction n arbitrary: start)
  case (Suc n)
  have "take (Suc n) (drop start m) = m ! start # take n (drop (Suc start) m)"
    using Suc.prems(1) by (intro take_drop_Cons) simp
  then show ?case using Suc.IH [of "Suc start"] Suc.prems by (simp add: buf_simps)
qed (simp add: buf_simps)

lemma strbuf_ltrim_effect:
  assumes "sb_wf s" "sb_blob s \<noteq> []"
  shows "\<exists>s'. strbuf_ltrim s = Some (0, s') \<and> sb_wf s' \<and> sb_blob s' \<noteq> []
    \<and> sb_text s' = dropWhile isspace_c (sb_text s)"
proof -
  let ?k = "length (takeWhile isspace_c (sb_text s))"
  have le: "sb_size s < sb_blksz s" "sb_blob s ! sb_size s = 0" using assms by (simp_all add: sb_wf_def)
  have k: "?k \<le> sb_size s" using length_takeWhile_le [of isspace_c "sb_text s"] assms(1) by simp
  have st: "sb_ltrim_start (sb_blob s) 0 (sb_size s) = Some ?k"
    using sb_ltrim_start_effect [of 0 "sb_size s" "sb_blob s"] le by (simp add: sb_text_def)
  have dw: "dropWhile isspace_c (sb_text s) = drop ?k (sb_text s)" by (rule dropWhile_eq_drop)
  show ?thesis
  proof (cases "?k = 0")
    case True
    then show ?thesis using st assms dw by (simp add: strbuf_ltrim_def)
  next
    case False
    let ?rest = "take (sb_size s - ?k) (drop ?k (sb_blob s))"
    have rest: "?rest = drop ?k (sb_text s)" by (simp add: sb_text_def drop_take)
    have "blob_move (sb_blob s) 0 ?k (sb_size s - ?k) = Some (splice (sb_blob s) 0 ?rest)"
      using le k by (simp add: blob_move_def buf_simps)
    moreover have "length (splice (sb_blob s) 0 ?rest) = sb_blksz s" using le k by simp
    moreover have "take (sb_size s - ?k) (splice (sb_blob s) 0 ?rest) = ?rest" using le k by (simp add: splice_def)
    moreover have "sb_size s - ?k < sb_blksz s" using le by linarith
    ultimately obtain s' where "sb_finish s (splice (sb_blob s) 0 ?rest) (sb_size s - ?k) = Some (0, s')" "sb_wf s'"
      "sb_text s' = ?rest" "sb_blksz s' = sb_blksz s" "blob_move (sb_blob s) 0 ?k (sb_size s - ?k) = Some (splice (sb_blob s) 0 ?rest)"
      using sb_finish_effect [of "sb_size s - ?k" "splice (sb_blob s) 0 ?rest" s] by auto
    moreover from this(4) have "sb_blob s' \<noteq> []" using assms(2) by auto
    ultimately show ?thesis using st False dw rest by (simp add: strbuf_ltrim_def)
  qed
qed

lemma strbuf_clear_effect:
  "sb_blob s \<noteq> [] \<Longrightarrow> \<exists>s'. strbuf_clear s = Some (0, s') \<and> sb_wf s' \<and> sb_text s' = []"
  by (cases "sb_blob s") (simp_all add: strbuf_clear_def buf_set_def sb_wf_def sb_text_def)

text \<open>Without a block they go through the NULL pointer.\<close>

lemma no_block_faults:
  assumes "sb_wf s" "sb_blob s = []"
  shows "strbuf_clear s = None" "strbuf_ltrim s = None" "strbuf_rtrim s = None" "strbuf_trim s = None"
  using assms by (simp_all add: strbuf_clear_def strbuf_ltrim_def strbuf_rtrim_def strbuf_trim_def sb_wf_def
      buf_set_def buf_get_def sb_finish_def)

lemma strbuf_trim_effect:
  assumes "sb_wf s" "sb_blob s \<noteq> []"
  shows "\<exists>s'. strbuf_trim s = Some (0, s') \<and> sb_wf s'
    \<and> sb_text s' = dropWhile isspace_c (rev (dropWhile isspace_c (rev (sb_text s))))"
  using strbuf_rtrim_effect [OF assms] strbuf_ltrim_effect by (fastforce simp: strbuf_trim_def)

text \<open>
  \<open>strbuf_replace\<close> writes over the text where the replacement is as long as what it replaces and
  ends inside the text. Otherwise it removes as many bytes as the replacement has, whatever the
  size it was given, and inserts the replacement.
\<close>

definition replaced_by :: "nat \<Rightarrow> nat \<Rightarrow> u8 list \<Rightarrow> u8 list \<Rightarrow> u8 list" where
  "replaced_by index len xs t =
     (if len = length xs \<and> index + length xs \<le> length t
      then take index t @ xs @ drop (index + length xs) t
      else inserted (take index t @ drop (index + length xs) t) index xs)"

lemma strbuf_replace_in_place:
  assumes "sb_wf s" "sb_size s < 2 ^ 63" "len = length xs" "index + length xs \<le> sb_size s"
  shows "\<exists>s'. strbuf_replace s index len (Ext xs) (length xs) = Some (0, s') \<and> sb_wf s'
    \<and> sb_text s' = replaced_by index len xs (sb_text s)"
proof -
  have le: "sb_size s \<le> sb_blksz s" using sb_wf_le [OF assms(1)] .
  let ?m = "splice (sb_blob s) index xs"
  have add: "size_add index (length xs) = index + length xs" using assms by (intro size_add_small) simp
  have len: "length ?m = sb_blksz s" using le assms(4) by simp
  have z: "?m ! sb_size s = sb_blob s ! sb_size s" if "sb_size s < sb_blksz s"
    using that assms(4) by (auto simp: splice_def nth_append min_def)
  have "?m = [] \<longleftrightarrow> sb_blob s = []" using len by (metis length_0_conv)
  then have "sb_wf (s\<lparr>sb_blob := ?m\<rparr>)" using assms(1) len z by (simp add: sb_wf_def split: if_splits)
  moreover have "take (sb_size s) ?m = take index (sb_text s) @ xs @ drop (index + length xs) (sb_text s)"
  proof -
    obtain d where d: "sb_size s = index + length xs + d" using assms(4) le_Suc_ex by blast
    have "index \<le> sb_blksz s" using le d by simp
    then show ?thesis by (simp add: splice_def sb_text_def d drop_take min_def)
  qed
  ultimately show ?thesis using assms le add
    by (simp add: strbuf_replace_def src_move_def obj_copy_text replaced_by_def) (simp add: sb_text_def)
qed

lemma strbuf_replace_effect:
  assumes "sb_wf s" "sb_size s < 2 ^ 63" "\<not> (len = length xs \<and> index + length xs \<le> sb_size s)"
    and "max index (length (take index (sb_text s) @ drop (index + length xs) (sb_text s))) + length xs < 2 ^ 63"
  shows "\<exists>s1. sb_text s1 = take index (sb_text s) @ drop (index + length xs) (sb_text s)
    \<and> sb_blksz s1 = sb_blksz s \<and> sb_alk s1 = sb_alk s
    \<and> sb_wrote s1 (replaced_by index len xs (sb_text s)) (strbuf_insert s1 index (Ext xs) (length xs))
    \<and> strbuf_replace s index len (Ext xs) (length xs)
      = do { (r, s2) \<leftarrow> strbuf_insert s1 index (Ext xs) (length xs); Some (if r \<noteq> 0 then - 3 else 0, s2) }"
proof -
  have small: "index + length xs < 2 ^ 63" using assms(4) by linarith
  then have add: "size_add index (length xs) = index + length xs" by (intro size_add_small) simp
  obtain r s1 where s1: "strbuf_remove s index (length xs) = Some (r, s1)" "sb_wf s1"
    "sb_text s1 = take index (sb_text s) @ drop (index + length xs) (sb_text s)"
    "sb_blksz s1 = sb_blksz s" "sb_alk s1 = sb_alk s"
  proof -
    have i: "index + length xs < 2 ^ 64" using small by simp
    from strbuf_remove_effect [OF assms(1,2) i] show ?thesis
    proof (elim disjE exE conjE)
      assume a: "strbuf_remove s index (length xs) = Some (- 1, s)" and c: "sb_size s \<le> index"
      then show ?thesis using that [OF a assms(1)] assms(1) by simp
    next
      assume a: "strbuf_remove s index (length xs) = Some (- 1, s)" and c: "length xs = 0"
      then show ?thesis using that [OF a assms(1)] assms(1) by simp
    next
      fix s' assume a: "strbuf_remove s index (length xs) = Some (0, s')" "sb_wf s'"
        "sb_text s' = take index (sb_text s) @ drop (index + length xs) (sb_text s)"
        "sb_blksz s' = sb_blksz s" "sb_alk s' = sb_alk s"
      then show ?thesis using that [OF a] by blast
    qed
  qed
  have "sb_wrote s1 (inserted (sb_text s1) index xs) (strbuf_insert s1 index (Ext xs) (length xs))"
    using assms(4) unfolding s1(3) [symmetric] length_sb_text [OF s1(2)] by (rule strbuf_insert_effect [OF s1(2)])
  moreover have "inserted (sb_text s1) index xs = replaced_by index len xs (sb_text s)"
    using assms(1,3) s1(3) by (auto simp: replaced_by_def)
  ultimately show ?thesis using s1 assms(3) add by (intro exI [of _ s1]) (auto simp: strbuf_replace_def)
qed

text \<open>Comparisons.\<close>

lemma strbuf_equal_effect:
  assumes "sb_wf s"
  shows "strbuf_equal s xs (length xs) = Some (sb_text s = xs)"
proof (cases "sb_size s = length xs")
  case True
  then have "memcmp (sb_blob s) 0 xs 0 (length xs) = Some (byte_cmp (sb_text s) xs)"
    using memcmp_effect [of 0 "length xs" "sb_blob s" 0 xs] sb_wf_le [OF assms] by (simp add: sb_text_def)
  then show ?thesis using True assms by (simp add: strbuf_equal_def byte_cmp_zero_iff)
next
  case False
  then have "length (sb_text s) \<noteq> length xs" using assms by simp
  then show ?thesis using False by (auto simp: strbuf_equal_def)
qed

lemma strbuf_compare_effect:
  assumes "sb_wf s"
  shows "strbuf_compare s xs (length xs)
    = Some (let k = min (sb_size s) (length xs) in byte_cmp (take k (sb_text s)) (take k xs))"
proof -
  let ?k = "min (sb_size s) (length xs)"
  have "(if sb_size s < length xs then sb_size s else length xs) = ?k" by auto
  then show ?thesis
    using memcmp_effect [of 0 ?k "sb_blob s" 0 xs] sb_wf_le [OF assms]
    by (simp add: strbuf_compare_def sb_text_def Let_def min_def)
qed

end
