(* ===== verification/Text_Properties.thy ===== *)
theory Text_Properties
  imports Str_Buf
begin

section \<open>Properties of the string buffer\<close>
















end
