(* ===== verification/Mm_Block.thy ===== *)
theory Mm_Block
  imports Allocator "HOL-Library.Multiset"
begin

section \<open>mmblock.c\<close>

text \<open>
  src/mmblock: reference-counted blocks of bytes, copied on write. The \<open>mmiblock\<close>s live in a
  store from addresses to blocks; a \<open>mmblock_t\<close> is the address its field \<open>d\<close> holds (0: NULL), all
  with the same allocator. Addresses are not used twice, so that an access to a released block
  faults. The bytes of a new block are indeterminate: \<open>mh_junk\<close> gives them. The sizes are 32-bit
  words; a request to the allocator, whose argument is 32 bits wide, may wrap. The count of
  references is an \<open>int\<close> in the code and unbounded here: fewer than 2^31 handles share a block.
\<close>

subsection \<open>The operations\<close>

record mmiblock =
  ib_data :: "u8 list"
  ib_size :: u32
  ib_ref :: int

record mmheap =
  mh_heap :: "nat \<Rightarrow> mmiblock option"
  mh_next :: nat
  mh_junk :: "nat \<Rightarrow> nat \<Rightarrow> u8"
  mh_alk :: alk

type_synonym mmblock = nat

definition EFAULT :: int where "EFAULT = 14"
definition ENOMEM :: int where "ENOMEM = 12"

definition mmiblock_bytes :: u32 where
  "mmiblock_bytes = 16"

definition mmiblock_alloc :: "mmheap \<Rightarrow> u32 \<Rightarrow> mmblock option \<times> mmheap" where
  "mmiblock_alloc h n =
     (let bytes = unat (mmiblock_bytes + n);
          (ok, a) = mmalloc bytes (mh_alk h);
          h = h\<lparr>mh_alk := a\<rparr>
      in if \<not> ok then (None, h)
         else
           let d = mh_next h;
               x = \<lparr>ib_data = map (mh_junk h d) [0..<bytes - unat mmiblock_bytes], ib_size = n, ib_ref = 1\<rparr>
           in (Some d, h\<lparr>mh_heap := (mh_heap h)(d := Some x), mh_next := d + 1\<rparr>))"

text \<open>\<open>--d->ref\<close>, and the release of the block when no reference is left.\<close>

definition mmiblock_unref :: "mmheap \<Rightarrow> nat \<Rightarrow> mmheap option" where
  "mmiblock_unref h d =
     do {
       x \<leftarrow> mh_heap h d;
       let x = x\<lparr>ib_ref := ib_ref x - 1\<rparr>;
       Some (if ib_ref x = 0
             then h\<lparr>mh_heap := (mh_heap h)(d := None), mh_alk := mmfree (mh_alk h)\<rparr>
             else h\<lparr>mh_heap := (mh_heap h)(d := Some x)\<rparr>)
     }"

text \<open>The value is the address the block refers to afterwards (None: out of memory).\<close>

definition mmiblock_detach :: "mmheap \<Rightarrow> mmblock \<Rightarrow> u32 \<Rightarrow> u32 \<Rightarrow> (mmblock option \<times> mmheap) option" where
  "mmiblock_detach h d offset n =
     do {
       old \<leftarrow> mh_heap h d;
       case mmiblock_alloc h (ib_size old) of
         (None, h) \<Rightarrow> Some (None, h)
       | (Some x, h) \<Rightarrow>
           do {
             new \<leftarrow> mh_heap h x;
             let ne = offset + n;
             m \<leftarrow> obj_copy (ib_data new) 0 (ib_data old) 0 (unat offset);
             m \<leftarrow> obj_copy m (unat ne) (ib_data old) (unat ne) (unat (ib_size new - ne));
             h \<leftarrow> mmiblock_unref (h\<lparr>mh_heap := (mh_heap h)(x := Some (new\<lparr>ib_data := m\<rparr>))\<rparr>) d;
             Some (Some x, h)
           }
     }"

definition mmblock_alloc :: "mmheap \<Rightarrow> u32 \<Rightarrow> mmblock option \<times> mmheap" where
  "mmblock_alloc h n = mmiblock_alloc h n"

text \<open>The block is returned whether or not it was allocated.\<close>

definition mmblock_zalloc :: "mmheap \<Rightarrow> u32 \<Rightarrow> (mmblock option \<times> mmheap) option" where
  "mmblock_zalloc h n =
     (case mmblock_alloc h n of
        (None, h) \<Rightarrow> Some (None, h)
      | (Some d, h) \<Rightarrow>
          do {
            x \<leftarrow> mh_heap h d;
            m \<leftarrow> buf_write (ib_data x) 0 (replicate (unat (ib_size x)) 0);
            Some (Some d, h\<lparr>mh_heap := (mh_heap h)(d := Some (x\<lparr>ib_data := m\<rparr>))\<rparr>)
          })"

definition mmblock_free :: "mmheap \<Rightarrow> mmblock \<Rightarrow> mmheap option" where
  "mmblock_free h d = mmiblock_unref h d"

definition mmblock_copy :: "mmheap \<Rightarrow> mmblock \<Rightarrow> (mmblock \<times> mmheap) option" where
  "mmblock_copy h src =
     do {
       x \<leftarrow> mh_heap h src;
       Some (src, h\<lparr>mh_heap := (mh_heap h)(src := Some (x\<lparr>ib_ref := ib_ref x + 1\<rparr>))\<rparr>)
     }"

text \<open>The number of bytes, an \<open>int32_t\<close> compared as unsigned; a negative one is a length that
  no object has.\<close>

definition io_len :: "mmiblock \<Rightarrow> u32 \<Rightarrow> u32 \<Rightarrow> u32" where
  "io_len x offset n = (let rn = ib_size x - offset in if rn < n then rn else n)"

definition copy_len :: "u32 \<Rightarrow> nat option" where
  "copy_len n = (if sint n < 0 then None else Some (unat n))"

definition mmblock_read :: "mmheap \<Rightarrow> mmblock \<Rightarrow> u32 \<Rightarrow> u32 \<Rightarrow> (int \<times> u8 list) option" where
  "mmblock_read h d offset n =
     do {
       x \<leftarrow> mh_heap h d;
       if offset > ib_size x then Some (- EFAULT, [])
       else
         let rn = io_len x offset n
         in if rn = 0 then Some (0, [])
            else do {
              k \<leftarrow> copy_len rn;
              bs \<leftarrow> buf_read (ib_data x) (unat offset) k;
              Some (sint rn, bs)
            }
     }"

definition mmblock_write :: "mmheap \<Rightarrow> mmblock \<Rightarrow> u8 list \<Rightarrow> u32 \<Rightarrow> u32 \<Rightarrow> (int \<times> mmblock \<times> mmheap) option" where
  "mmblock_write h d buf offset n =
     do {
       x \<leftarrow> mh_heap h d;
       if offset > ib_size x then Some (- EFAULT, d, h)
       else
         let wn = io_len x offset n
         in if wn = 0 then Some (0, d, h)
            else do {
              (r, h) \<leftarrow> (if ib_ref x \<noteq> 1 then mmiblock_detach h d offset n else Some (Some d, h));
              case r of
                None \<Rightarrow> Some (- ENOMEM, d, h)
              | Some d \<Rightarrow>
                  do {
                    x \<leftarrow> mh_heap h d;
                    k \<leftarrow> copy_len wn;
                    m \<leftarrow> obj_copy (ib_data x) (unat offset) buf 0 k;
                    Some (sint wn, d, h\<lparr>mh_heap := (mh_heap h)(d := Some (x\<lparr>ib_data := m\<rparr>))\<rparr>)
                  }
            }
     }"

subsection \<open>Blocks as values\<close>

text \<open>
  \<open>blocks_wf h ds\<close>: the handles \<open>ds\<close> are all there are, every block has as many references as
  handles, at least one, and all its bytes. \<open>blocks_view\<close> is the value of every handle.
\<close>

definition block_bytes :: "mmheap \<Rightarrow> mmblock \<Rightarrow> u8 list" where
  "block_bytes h d = (case mh_heap h d of None \<Rightarrow> [] | Some x \<Rightarrow> ib_data x)"

definition blocks_view :: "mmheap \<Rightarrow> mmblock list \<Rightarrow> u8 list list" where
  "blocks_view h ds = map (block_bytes h) ds"

definition iblock_wf :: "mmiblock \<Rightarrow> bool" where
  "iblock_wf x \<longleftrightarrow> length (ib_data x) = unat (ib_size x) \<and> unat (ib_size x) < 2 ^ 31"

definition blocks_wf :: "mmheap \<Rightarrow> mmblock list \<Rightarrow> bool" where
  "blocks_wf h ds \<longleftrightarrow>
     (\<forall>d x. mh_heap h d = Some x \<longrightarrow> iblock_wf x \<and> ib_ref x = int (count (mset ds) d) \<and> d \<in> set ds \<and> d < mh_next h)
     \<and> (\<forall>d \<in> set ds. mh_heap h d \<noteq> None) \<and> alk_live (mh_alk h) = int (card (set ds))"

lemma blocks_wfD:
  assumes "blocks_wf h ds" "i < length ds"
  obtains x where "mh_heap h (ds ! i) = Some x" "iblock_wf x" "ib_ref x = int (count (mset ds) (ds ! i))"
    "0 < ib_ref x" "block_bytes h (ds ! i) = ib_data x"
proof -
  have i: "ds ! i \<in> set ds" using assms(2) by simp
  then obtain x where x: "mh_heap h (ds ! i) = Some x" using assms(1) unfolding blocks_wf_def by blast
  moreover have "0 < count (mset ds) (ds ! i)" using i by simp
  moreover have "iblock_wf x \<and> ib_ref x = int (count (mset ds) (ds ! i))"
    using assms(1) x unfolding blocks_wf_def by blast
  moreover have "block_bytes h (ds ! i) = ib_data x" using x by (simp add: block_bytes_def)
  ultimately show ?thesis using that by simp
qed

lemma length_blocks_view [simp]: "length (blocks_view h ds) = length ds"
  by (simp add: blocks_view_def)

lemma nth_blocks_view [simp]: "i < length ds \<Longrightarrow> blocks_view h ds ! i = block_bytes h (ds ! i)"
  by (simp add: blocks_view_def)

lemma sint_small:
  assumes "unat (w :: u32) < 2 ^ 31"
  shows "sint w = int (unat w)"
proof -
  have u: "uint w = int (unat w)" by simp
  then have "uint w < 2 ^ 31" using assms by (simp only: of_nat_less_numeral_power_cancel_iff)
  moreover have "- (2 ^ 31) \<le> uint w" by (rule order_trans [of _ 0]) simp_all
  ultimately have "signed_take_bit 31 (uint w) = uint w" by (intro signed_take_bit_int_eq_self)
  moreover have "sint w = signed_take_bit 31 (uint w)" by (simp add: sint_uint)
  ultimately show ?thesis using u by argo
qed

lemma io_len_effect:
  assumes "iblock_wf x" "offset \<le> ib_size x"
  shows "unat (io_len x offset n) = min (unat n) (length (ib_data x) - unat offset)"
    and "copy_len (io_len x offset n) = Some (unat (io_len x offset n))"
    and "sint (io_len x offset n) = int (unat (io_len x offset n))"
    and "io_len x offset n = 0 \<longleftrightarrow> min (unat n) (length (ib_data x) - unat offset) = 0"
proof -
  have "unat (ib_size x - offset) = unat (ib_size x) - unat offset" using assms(2) by (simp add: unat_sub)
  then show k: "unat (io_len x offset n) = min (unat n) (length (ib_data x) - unat offset)"
    using assms(1) by (simp add: io_len_def Let_def word_less_nat_alt iblock_wf_def)
  then have "unat (io_len x offset n) < 2 ^ 31" using assms(1) by (auto simp: iblock_wf_def min_def)
  then show s: "sint (io_len x offset n) = int (unat (io_len x offset n))" by (rule sint_small)
  then show "copy_len (io_len x offset n) = Some (unat (io_len x offset n))" by (simp add: copy_len_def)
  show "io_len x offset n = 0 \<longleftrightarrow> min (unat n) (length (ib_data x) - unat offset) = 0"
    unfolding k [symmetric] by (rule unat_eq_zero [symmetric])
qed

text \<open>Reading.\<close>

lemma mmblock_read_effect:
  assumes "blocks_wf h ds" "i < length ds"
  shows "mmblock_read h (ds ! i) offset n = Some (let v = blocks_view h ds ! i in
    if length v < unat offset then (- EFAULT, [])
    else let bs = take (unat n) (drop (unat offset) v) in (int (length bs), bs))"
proof -
  obtain x where x: "mh_heap h (ds ! i) = Some x" "iblock_wf x" "block_bytes h (ds ! i) = ib_data x"
    using blocks_wfD [OF assms] by blast
  then have l: "length (ib_data x) = unat (ib_size x)" by (simp add: iblock_wf_def)
  show ?thesis
  proof (cases "offset > ib_size x")
    case True
    then show ?thesis using x l assms(2) by (simp add: mmblock_read_def word_less_nat_alt)
  next
    case False
    then have o: "offset \<le> ib_size x" "unat offset \<le> length (ib_data x)" using l by (simp_all add: not_less word_le_nat_alt)
    let ?bs = "take (unat n) (drop (unat offset) (ib_data x))"
    note io = io_len_effect [OF x(2) o(1), of n]
    have bs: "length ?bs = unat (io_len x offset n)" "take (unat (io_len x offset n)) (drop (unat offset) (ib_data x)) = ?bs"
      unfolding io(1) by (simp_all add: min.commute min_def)
    have "buf_read (ib_data x) (unat offset) (unat (io_len x offset n)) = Some ?bs"
      unfolding bs(2) [symmetric] using o(2) io(1) by (intro buf_read_Some) simp
    moreover have "io_len x offset n = 0 \<longleftrightarrow> ?bs = []" using bs(1) by (metis length_0_conv unat_eq_zero)
    ultimately have "mmblock_read h (ds ! i) offset n = Some (int (length ?bs), ?bs)"
      using x(1) False io(2,3) bs(1) by (cases "io_len x offset n = 0") (simp_all add: mmblock_read_def Let_def)
    then show ?thesis using x(3) assms(2) o(2) by (simp add: Let_def)
  qed
qed

text \<open>Writing to a block that nobody shares, in place.\<close>

lemma counted_once:
  assumes "count (mset ds) d \<le> 1" "i < length ds" "ds ! i = d" "j < length ds" "ds ! j = d"
  shows "j = i"
proof (rule ccontr)
  assume "j \<noteq> i"
  have "count (mset ds) d = card {k. k < length ds \<and> d = ds ! k}"
    by (simp add: count_mset count_list_eq_length_filter length_filter_conv_card)
  moreover have "card {i, j} \<le> card {k. k < length ds \<and> d = ds ! k}" by (rule card_mono) (use assms in auto)
  ultimately show False using \<open>j \<noteq> i\<close> assms(1) by simp
qed

lemma blocks_view_other:
  assumes "\<And>e. e \<in> set ds \<Longrightarrow> e \<noteq> d \<Longrightarrow> mh_heap h' e = mh_heap h e" "count (mset ds) d \<le> 1" "i < length ds" "ds ! i = d"
  shows "blocks_view h' ds = (blocks_view h ds)[i := block_bytes h' d]"
proof (rule nth_equalityI)
  fix j assume "j < length (blocks_view h' ds)"
  then have j: "j < length ds" by simp
  show "blocks_view h' ds ! j = (blocks_view h ds)[i := block_bytes h' d] ! j"
  proof (cases "j = i")
    case False
    then have "ds ! j \<noteq> d" using counted_once [OF assms(2,3,4) j] by blast
    then show ?thesis using j False assms(1) by (simp add: block_bytes_def)
  qed (use j assms(3,4) in simp)
qed simp

definition blocks_same :: "mmheap \<Rightarrow> mmheap \<Rightarrow> bool" where
  "blocks_same h h' \<longleftrightarrow> (never_refuses (mh_alk h) \<longrightarrow> never_refuses (mh_alk h'))"

lemma write_in_place:
  assumes "blocks_wf h ds" "i < length ds" "mh_heap h (ds ! i) = Some x" "ib_ref x = 1" "length m = length (ib_data x)"
  defines "h' \<equiv> h\<lparr>mh_heap := (mh_heap h)(ds ! i := Some (x\<lparr>ib_data := m\<rparr>))\<rparr>"
  shows "blocks_wf h' ds" "blocks_view h' ds = (blocks_view h ds)[i := m]"
proof -
  show "blocks_wf h' ds"
    using assms(1,3,5) by (auto simp: blocks_wf_def h'_def iblock_wf_def split: if_splits)
  have "int (count (mset ds) (ds ! i)) = 1" using assms(1,3,4) unfolding blocks_wf_def by metis
  then have "count (mset ds) (ds ! i) \<le> 1" by simp
  then have "blocks_view h' ds = (blocks_view h ds)[i := block_bytes h' (ds ! i)]"
    by (rule blocks_view_other [rotated]) (use assms(2) in \<open>simp_all add: h'_def\<close>)
  then show "blocks_view h' ds = (blocks_view h ds)[i := m]" by (simp add: h'_def block_bytes_def)
qed

text \<open>Detaching: the handle gets a block of its own with the old bytes, but for those about to be
  overwritten.\<close>

lemma mmiblock_alloc_cases [consumes 1, case_names fresh refused]:
  assumes "unat n < 2 ^ 31"
  obtains (fresh) a where "mmiblock_alloc h n = (Some (mh_next h), h\<lparr>mh_alk := a,
      mh_heap := (mh_heap h)(mh_next h := Some \<lparr>ib_data = map (mh_junk h (mh_next h)) [0..<unat n], ib_size = n, ib_ref = 1\<rparr>),
      mh_next := mh_next h + 1\<rparr>)" "alk_live a = alk_live (mh_alk h) + 1"
  | (refused) a where "mmiblock_alloc h n = (None, h\<lparr>mh_alk := a\<rparr>)" "alk_live a = alk_live (mh_alk h)"
      "\<not> never_refuses (mh_alk h)"
proof -
  have b: "unat (mmiblock_bytes + n) = 16 + unat n" using assms by (simp add: mmiblock_bytes_def unat_word_ariths)
  obtain ok a where m: "mmalloc (16 + unat n) (mh_alk h) = (ok, a)" by fastforce
  show ?thesis
  proof (cases ok)
    case True
    then show ?thesis using m b mmalloc_live [OF m]
      by (intro fresh [of a]) (simp_all add: mmiblock_alloc_def mmiblock_bytes_def Let_def)
  next
    case False
    then show ?thesis using m b mmalloc_live [OF m] mmalloc_never_refuses(1) [OF _ m]
      by (intro refused [of a]) (auto simp: mmiblock_alloc_def mmiblock_bytes_def Let_def)
  qed
qed

lemma detach_bytes:
  assumes "e \<le> o1 + k" "o1 + k \<le> length old" "length new = length old"
  shows "\<exists>m. obj_copy new 0 old 0 o1 = Some (splice new 0 (take o1 old))
    \<and> obj_copy (splice new 0 (take o1 old)) e old e (length old - e) = Some m
    \<and> length m = length old \<and> (\<forall>buf. length buf = k \<longrightarrow> splice m o1 buf = splice old o1 buf)"
proof -
  let ?m1 = "splice new 0 (take o1 old)"
  let ?m = "splice ?m1 e (drop e old)"
  have l: "length ?m1 = length old" "e \<le> length old" using assms by simp_all
  have m: "?m = take e ?m1 @ drop e old" using l by (simp add: splice_def)
  have m1: "take o1 ?m1 = take o1 old" using assms by (simp add: splice_def)
  have lo: "take o1 ?m = take o1 old"
  proof (cases "o1 \<le> e")
    case True
    then show ?thesis using m m1 l by (simp add: min_def)
  next
    case False
    then have "take e ?m1 = take e old" using arg_cong [OF m1, of "take e"] by (simp add: min_def)
    then show ?thesis using m by (simp add: take_drop)
  qed
  have "drop (o1 + k) ?m = drop (o1 + k) old" using m l assms(1) by simp
  then have "splice ?m o1 buf = splice old o1 buf" if "length buf = k" for buf
    using lo that by (simp add: splice_def)
  moreover have "length ?m = length old" using l by simp
  moreover have "obj_copy new 0 old 0 o1 = Some ?m1" using assms by (simp add: buf_simps)
  moreover have "obj_copy ?m1 e old e (length old - e) = Some ?m" using l by (simp add: buf_simps)
  ultimately show ?thesis by blast
qed

lemma share_split:
  assumes "blocks_wf h ds" "i < length ds" "mh_heap h (ds ! i) = Some x" "ib_ref x \<noteq> 1"
    and "iblock_wf y" "ib_ref y = 1" "alk_live a = alk_live (mh_alk h) + 1"
  defines "h' \<equiv> h\<lparr>mh_alk := a, mh_heap := (mh_heap h)(mh_next h := Some y, ds ! i := Some (x\<lparr>ib_ref := ib_ref x - 1\<rparr>)),
    mh_next := mh_next h + 1\<rparr>"
  shows "blocks_wf h' (ds[i := mh_next h])"
    and "blocks_view h' (ds[i := mh_next h]) = (blocks_view h ds)[i := ib_data y]"
proof -
  let ?d = "ds ! i" and ?e = "mh_next h" and ?ds = "ds[i := mh_next h]"
  have lt: "d < ?e" if "d \<in> set ds" for d using assms(1) that unfolding blocks_wf_def by force
  then have new: "?e \<notin> set ds" by blast
  then have de: "?d \<noteq> ?e" using assms(2) nth_mem by metis
  have ref: "ib_ref x = int (count (mset ds) ?d)" using assms(1,3) unfolding blocks_wf_def by blast
  moreover have "0 < count (mset ds) ?d" using assms(2) by simp
  ultimately have two: "2 \<le> count (mset ds) ?d" using assms(4) by linarith
  have c: "count (mset ?ds) z = (if z = ?e then 1 else count (mset ds) z - (if z = ?d then 1 else 0))" for z
    using assms(2) new de by (simp add: mset_update)
  have s: "set ?ds = insert ?e (set ds)"
  proof -
    have "z \<in> set ?ds \<longleftrightarrow> z = ?e \<or> z \<in> set ds" for z
      using c [of z] two count_greater_zero_iff [of "mset ?ds" z] count_greater_zero_iff [of "mset ds" z]
        nth_mem [OF assms(2)] by (auto split: if_splits)
    then show ?thesis by blast
  qed
  have old: "iblock_wf b \<and> ib_ref b = int (count (mset ds) d) \<and> d \<in> set ds" if "mh_heap h d = Some b" for d b
    using assms(1) that unfolding blocks_wf_def by blast
  have "iblock_wf b \<and> ib_ref b = int (count (mset ?ds) d) \<and> d \<in> set ?ds \<and> d < mh_next h'"
    if hb: "mh_heap h' d = Some b" for d b
  proof -
    consider "d = ?e" "b = y" | "d = ?d" "b = x\<lparr>ib_ref := ib_ref x - 1\<rparr>" | "d \<noteq> ?e" "d \<noteq> ?d" "mh_heap h d = Some b"
      using hb de by (auto simp: h'_def split: if_splits)
    then show ?thesis
    proof cases
      case 1
      then show ?thesis using assms(5,6) c s by (simp add: h'_def)
    next
      case 2
      then show ?thesis using old [OF assms(3)] de two lt [of ?d] ref unfolding c s
        by (simp add: h'_def iblock_wf_def of_nat_diff)
    next
      case 3
      then show ?thesis using old [OF 3(3)] lt [of d] unfolding c s by (auto simp: h'_def)
    qed
  qed
  moreover have "\<forall>d \<in> set ?ds. mh_heap h' d \<noteq> None" using assms(1) unfolding s by (auto simp: blocks_wf_def h'_def)
  moreover have "alk_live (mh_alk h') = int (card (set ?ds))"
    using assms(1,7) new unfolding s by (simp add: h'_def blocks_wf_def)
  ultimately show "blocks_wf h' ?ds" unfolding blocks_wf_def by blast
  show "blocks_view h' ?ds = (blocks_view h ds)[i := ib_data y]"
  proof (rule nth_equalityI)
    fix j assume "j < length (blocks_view h' ?ds)"
    then have j: "j < length ds" by simp
    then have "ds ! j \<noteq> ?e" using new nth_mem by metis
    then show "blocks_view h' ?ds ! j = (blocks_view h ds)[i := ib_data y] ! j"
      using j assms(2,3) de by (cases "j = i") (auto simp: block_bytes_def h'_def)
  qed simp
qed

text \<open>
  Writes. What is written is cut off at the end of the block; \<open>__mmiblock_detach\<close> is given the size
  the caller asked for, and reads behind a shared block when the write is cut off, unless offset
  and size wrap.
\<close>

lemma mmblock_write_outside:
  assumes "blocks_wf h ds" "i < length ds" "length (blocks_view h ds ! i) < unat offset"
  shows "mmblock_write h (ds ! i) buf offset n = Some (- EFAULT, ds ! i, h)"
proof -
  obtain x where "mh_heap h (ds ! i) = Some x" "iblock_wf x" "block_bytes h (ds ! i) = ib_data x"
    using blocks_wfD [OF assms(1,2)] by blast
  then show ?thesis using assms(2,3) by (simp add: mmblock_write_def iblock_wf_def word_less_nat_alt)
qed

text \<open>A write of some bytes, fewer than were asked for, to a block another handle shares.\<close>

definition write_past :: "mmblock list \<Rightarrow> nat \<Rightarrow> nat \<Rightarrow> nat \<Rightarrow> nat \<Rightarrow> bool" where
  "write_past ds i len offset n \<longleftrightarrow>
     offset < len \<and> len < offset + n \<and> offset + n < 2 ^ 32 \<and> 1 < count (mset ds) (ds ! i)"

lemma mmblock_write_past:
  assumes "blocks_wf h ds" "i < length ds" "unat n = length buf"
    and "write_past ds i (length (blocks_view h ds ! i)) (unat offset) (length buf)"
  shows "mmblock_write h (ds ! i) buf offset n = None
    \<or> (\<exists>h'. mmblock_write h (ds ! i) buf offset n = Some (- ENOMEM, ds ! i, h') \<and> blocks_wf h' ds
      \<and> blocks_view h' ds = blocks_view h ds \<and> \<not> never_refuses (mh_alk h))"
proof -
  let ?d = "ds ! i"
  obtain x where x: "mh_heap h ?d = Some x" "iblock_wf x" "block_bytes h ?d = ib_data x"
    "ib_ref x = int (count (mset ds) ?d)"
    using blocks_wfD [OF assms(1,2)] by blast
  have p: "unat offset < length (ib_data x)" "length (ib_data x) < unat offset + length buf"
    "unat offset + length buf < 2 ^ 32" "ib_ref x \<noteq> 1"
    using assms(2,4) x(3,4) by (auto simp: write_past_def)
  have l: "length (ib_data x) = unat (ib_size x)" "unat (ib_size x) < 2 ^ 31" using x(2) by (simp_all add: iblock_wf_def)
  then have o: "offset \<le> ib_size x" "\<not> ib_size x < offset" using p(1) by (simp_all add: word_le_nat_alt word_less_nat_alt)
  have nz: "io_len x offset n \<noteq> 0" using io_len_effect(4) [OF x(2) o(1), of n] p assms(3) by auto
  from l(2) show ?thesis
  proof (cases rule: mmiblock_alloc_cases [where h = h])
    case (refused a)
    then have "mmblock_write h ?d buf offset n = Some (- ENOMEM, ?d, h\<lparr>mh_alk := a\<rparr>)"
      using x(1) o(2) nz p(4) by (simp add: mmblock_write_def mmiblock_detach_def Let_def)
    moreover have "blocks_wf (h\<lparr>mh_alk := a\<rparr>) ds" using assms(1) refused(2) by (simp add: blocks_wf_def)
    moreover have "blocks_view (h\<lparr>mh_alk := a\<rparr>) ds = blocks_view h ds" by (simp add: blocks_view_def block_bytes_def)
    ultimately show ?thesis using refused(3) by (intro disjI2) blast
  next
    case (fresh a)
    have "unat (offset + n) = unat offset + length buf" using p(3) assms(3) by (simp add: unat_word_ariths)
    then have "buf_read (ib_data x) (unat (offset + n)) k = None" for k using p(2) by (simp add: buf_read_def)
    then have "obj_copy m e (ib_data x) (unat (offset + n)) k = None" for m e k by (simp add: obj_copy_def)
    then have "mmiblock_detach h ?d offset n = None"
      using x(1) fresh(1) by (auto simp: mmiblock_detach_def Let_def split: bind_splits)
    then show ?thesis using x(1) o(2) nz p(4) by (simp add: mmblock_write_def Let_def)
  qed
qed

lemma u32_less: "unat (w :: u32) < 2 ^ 32"
  using unsigned_less [of w] by simp

lemma mmblock_write_effect:
  assumes "blocks_wf h ds" "i < length ds" "unat offset \<le> length (blocks_view h ds ! i)" "unat n = length buf"
    and "\<not> write_past ds i (length (blocks_view h ds ! i)) (unat offset) (length buf)"
  defines "bs \<equiv> take (length (blocks_view h ds ! i) - unat offset) buf"
  shows "(\<exists>d' h'. mmblock_write h (ds ! i) buf offset n = Some (int (length bs), d', h')
      \<and> blocks_wf h' (ds[i := d']) \<and> blocks_view h' (ds[i := d']) = (blocks_view h ds)[i := splice (blocks_view h ds ! i) (unat offset) bs])
    \<or> (\<exists>h'. mmblock_write h (ds ! i) buf offset n = Some (- ENOMEM, ds ! i, h') \<and> blocks_wf h' ds
      \<and> blocks_view h' ds = blocks_view h ds \<and> \<not> never_refuses (mh_alk h))"
proof -
  let ?d = "ds ! i" and ?o = "unat offset"
  obtain x where x: "mh_heap h ?d = Some x" "iblock_wf x" "block_bytes h ?d = ib_data x"
    "ib_ref x = int (count (mset ds) ?d)"
    using blocks_wfD [OF assms(1,2)] by blast
  then have l: "length (ib_data x) = unat (ib_size x)" "unat (ib_size x) < 2 ^ 31" by (simp_all add: iblock_wf_def)
  have bs: "bs = take (length (ib_data x) - ?o) buf" using assms(2) x(3) by (simp add: bs_def)
  have ol: "?o \<le> length (ib_data x)" using assms(2,3) x(3) by simp
  then have room: "?o + length bs \<le> length (ib_data x)" by (simp add: bs)
  have o: "offset \<le> ib_size x" using l ol by (simp add: word_le_nat_alt)
  then have no: "\<not> ib_size x < offset" by (simp add: not_less)
  note io = io_len_effect [OF x(2) o, of n]
  have k: "unat (io_len x offset n) = length bs" using io(1) assms(4) by (simp add: bs)
  have copy: "obj_copy m ?o buf 0 (length bs) = Some (splice m ?o bs)" if "length m = length (ib_data x)" for m
  proof -
    have "take (length bs) buf = bs" "length bs \<le> length buf" by (simp_all add: bs min_def)
    then show ?thesis using room that by (simp add: buf_simps)
  qed
  show ?thesis
  proof (cases "bs = []")
    case True
    then have "mmblock_write h ?d buf offset n = Some (0, ?d, h)"
      using x(1) no k by (simp add: mmblock_write_def Let_def unat_eq_zero)
    then show ?thesis using True assms(1) by (intro disjI1 exI [of _ ?d] exI [of _ h]) simp
  next
    case False
    then have nz: "io_len x offset n \<noteq> 0" using k by auto
    have head: "mmblock_write h ?d buf offset n = do {
        (r, h) \<leftarrow> (if ib_ref x \<noteq> 1 then mmiblock_detach h ?d offset n else Some (Some ?d, h));
        case r of
          None \<Rightarrow> Some (- ENOMEM, ?d, h)
        | Some d \<Rightarrow>
            do {
              x \<leftarrow> mh_heap h d;
              m \<leftarrow> obj_copy (ib_data x) ?o buf 0 (length bs);
              Some (int (length bs), d, h\<lparr>mh_heap := (mh_heap h)(d := Some (x\<lparr>ib_data := m\<rparr>))\<rparr>)
            }
      }"
      using x(1) no nz io(2,3) k by (simp add: mmblock_write_def Let_def cong: option.case_cong)
    show ?thesis
    proof (cases "ib_ref x = 1")
      case True
      let ?m = "splice (ib_data x) ?o bs"
      have "mmblock_write h ?d buf offset n
          = Some (int (length bs), ?d, h\<lparr>mh_heap := (mh_heap h)(?d := Some (x\<lparr>ib_data := ?m\<rparr>))\<rparr>)"
        using head True x(1) copy by simp
      then show ?thesis using write_in_place [OF assms(1,2) x(1) True, of ?m] room assms(2) x(3)
        by (intro disjI1) simp
    next
      case shared: False
      have sz: "unat (ib_size x) < 2 ^ 31" using l(2) .
      from sz show ?thesis
      proof (cases rule: mmiblock_alloc_cases [where h = h])
        case (refused a)
        then have "mmblock_write h ?d buf offset n = Some (- ENOMEM, ?d, h\<lparr>mh_alk := a\<rparr>)"
          using head shared x(1) by (simp add: mmiblock_detach_def)
        moreover have "blocks_wf (h\<lparr>mh_alk := a\<rparr>) ds" using assms(1) refused(2) by (simp add: blocks_wf_def)
        moreover have "blocks_view (h\<lparr>mh_alk := a\<rparr>) ds = blocks_view h ds" by (simp add: blocks_view_def block_bytes_def)
        ultimately show ?thesis using refused(3) by (intro disjI2) blast
      next
        case (fresh a)
        let ?e = "mh_next h" and ?old = "ib_data x"
        define new where "new = map (mh_junk h ?e) [0..<unat (ib_size x)]"
        have de: "?d \<noteq> ?e" using assms(1) x(1) unfolding blocks_wf_def by force
        have ref: "ib_ref x - 1 \<noteq> 0" using shared by simp
        have ne: "unat (offset + n) \<le> ?o + length bs"
        proof (cases "?o + length buf < 2 ^ 32")
          case True
          have "0 < count (mset ds) ?d" using assms(2) by simp
          then have "1 < count (mset ds) ?d" using shared x(4) by linarith
          then have "length buf \<le> length ?old - ?o"
            using True assms(5) shared x(3,4) assms(2) \<open>bs \<noteq> []\<close> by (auto simp: write_past_def bs)
          then show ?thesis using True assms(4) by (simp add: unat_word_ariths bs)
        next
          case False
          have b: "unat n < 2 ^ 32" "?o < 2 ^ 32" by (rule u32_less)+
          have "unat (offset + n) = (?o + unat n) mod 2 ^ 32" by (simp add: unat_word_ariths)
          also have "\<dots> = (?o + unat n - 2 ^ 32) mod 2 ^ 32" using False assms(4) by (intro le_mod_geq) simp
          also have "\<dots> \<le> ?o + unat n - 2 ^ 32" by (rule mod_less_eq_dividend)
          also have "\<dots> \<le> ?o + length bs" using b by linarith
          finally show ?thesis .
        qed
        obtain m where m: "obj_copy new 0 ?old 0 ?o = Some (splice new 0 (take ?o ?old))"
          "obj_copy (splice new 0 (take ?o ?old)) (unat (offset + n)) ?old (unat (offset + n)) (length ?old - unat (offset + n)) = Some m"
          "length m = length ?old" "splice m ?o bs = splice ?old ?o bs"
          using detach_bytes [OF ne room, of new] l(1) by (auto simp: new_def)
        have "offset + n \<le> ib_size x" unfolding word_le_nat_alt using ne room l(1) by simp
        then have rest: "unat (ib_size x - (offset + n)) = length ?old - unat (offset + n)"
          using l(1) by (simp add: unat_sub)
        let ?h1 = "h\<lparr>mh_alk := a, mh_heap := (mh_heap h)(?e := Some \<lparr>ib_data = m, ib_size = ib_size x, ib_ref = 1\<rparr>,
            ?d := Some (x\<lparr>ib_ref := ib_ref x - 1\<rparr>)), mh_next := ?e + 1\<rparr>"
        have det: "mmiblock_detach h ?d offset n = Some (Some ?e, ?h1)"
          using fresh(1) x(1) de ref m(1,2) rest
          by (simp add: mmiblock_detach_def mmiblock_unref_def new_def [symmetric])
        let ?y = "\<lparr>ib_data = splice ?old ?o bs, ib_size = ib_size x, ib_ref = 1\<rparr>"
        let ?h2 = "h\<lparr>mh_alk := a, mh_heap := (mh_heap h)(?e := Some ?y, ?d := Some (x\<lparr>ib_ref := ib_ref x - 1\<rparr>)),
            mh_next := ?e + 1\<rparr>"
        have "mmblock_write h ?d buf offset n = Some (int (length bs), ?e, ?h2)"
          using head shared det de m(4) copy [OF m(3)] by (simp add: fun_upd_twist)
        moreover have "iblock_wf ?y" using l room by (simp add: iblock_wf_def)
        ultimately show ?thesis
          using share_split [OF assms(1,2) x(1) shared, of ?y a] fresh(2) assms(2) x(3)
          by (intro disjI1) simp
      qed
    qed
  qed
qed

text \<open>Making, sharing and releasing blocks.\<close>

lemma new_block:
  assumes "blocks_wf h ds" "iblock_wf y" "ib_ref y = 1" "alk_live a = alk_live (mh_alk h) + 1"
  defines "h' \<equiv> h\<lparr>mh_alk := a, mh_heap := (mh_heap h)(mh_next h := Some y), mh_next := mh_next h + 1\<rparr>"
  shows "blocks_wf h' (ds @ [mh_next h])" "blocks_view h' (ds @ [mh_next h]) = blocks_view h ds @ [ib_data y]"
proof -
  have lt: "d < mh_next h" if "d \<in> set ds" for d using assms(1) that unfolding blocks_wf_def by force
  then have new: "mh_next h \<notin> set ds" by blast
  then have c: "count (mset ds) (mh_next h) = 0" by (simp add: count_eq_zero_iff)
  have old: "iblock_wf b \<and> ib_ref b = int (count (mset ds) d) \<and> d \<in> set ds \<and> d < Suc (mh_next h)"
    if "mh_heap h d = Some b" for d b using assms(1) that unfolding blocks_wf_def by (blast intro: less_SucI)
  have "mh_heap h d \<noteq> None" if "d \<in> set ds" for d using assms(1) that unfolding blocks_wf_def by blast
  moreover have "alk_live (mh_alk h) = int (card (set ds))" using assms(1) unfolding blocks_wf_def by blast
  ultimately show "blocks_wf h' (ds @ [mh_next h])"
    using old assms(2-4) new c by (auto simp: blocks_wf_def h'_def split: if_splits)
  show "blocks_view h' (ds @ [mh_next h]) = blocks_view h ds @ [ib_data y]"
    using new by (auto simp: blocks_view_def block_bytes_def h'_def)
qed

lemma mmblock_zalloc_effect:
  assumes "blocks_wf h ds" "unat n < 2 ^ 31"
  shows "(\<exists>d h'. mmblock_zalloc h n = Some (Some d, h') \<and> blocks_wf h' (ds @ [d])
      \<and> blocks_view h' (ds @ [d]) = blocks_view h ds @ [replicate (unat n) 0])
    \<or> (\<exists>h'. mmblock_zalloc h n = Some (None, h') \<and> blocks_wf h' ds \<and> blocks_view h' ds = blocks_view h ds
      \<and> \<not> never_refuses (mh_alk h))"
  using assms(2)
proof (cases rule: mmiblock_alloc_cases [where h = h])
  case (fresh a)
  let ?y = "\<lparr>ib_data = replicate (unat n) 0, ib_size = n, ib_ref = 1\<rparr>"
  have "mmblock_zalloc h n = Some (Some (mh_next h), h\<lparr>mh_alk := a, mh_heap := (mh_heap h)(mh_next h := Some ?y),
      mh_next := mh_next h + 1\<rparr>)"
    using fresh(1) by (simp add: mmblock_zalloc_def mmblock_alloc_def buf_simps)
  moreover have "iblock_wf ?y" using assms(2) by (simp add: iblock_wf_def)
  ultimately show ?thesis using new_block [OF assms(1), of ?y a] fresh(2) by (intro disjI1) simp
next
  case (refused a)
  have "blocks_wf (h\<lparr>mh_alk := a\<rparr>) ds" using assms(1) refused(2) by (simp add: blocks_wf_def)
  moreover have "blocks_view (h\<lparr>mh_alk := a\<rparr>) ds = blocks_view h ds" by (simp add: blocks_view_def block_bytes_def)
  ultimately show ?thesis using refused by (intro disjI2) (simp add: mmblock_zalloc_def mmblock_alloc_def)
qed

lemma mmblock_alloc_effect:
  assumes "blocks_wf h ds" "unat n < 2 ^ 31"
  shows "(\<exists>d h'. mmblock_alloc h n = (Some d, h') \<and> blocks_wf h' (ds @ [d])
      \<and> blocks_view h' (ds @ [d]) = blocks_view h ds @ [map (mh_junk h (mh_next h)) [0..<unat n]])
    \<or> (\<exists>h'. mmblock_alloc h n = (None, h') \<and> blocks_wf h' ds \<and> blocks_view h' ds = blocks_view h ds
      \<and> \<not> never_refuses (mh_alk h))"
  using assms(2)
proof (cases rule: mmiblock_alloc_cases [where h = h])
  case (fresh a)
  let ?y = "\<lparr>ib_data = map (mh_junk h (mh_next h)) [0..<unat n], ib_size = n, ib_ref = 1\<rparr>"
  have "iblock_wf ?y" using assms(2) by (simp add: iblock_wf_def)
  then show ?thesis using new_block [OF assms(1), of ?y a] fresh by (intro disjI1) (simp add: mmblock_alloc_def)
next
  case (refused a)
  have "blocks_wf (h\<lparr>mh_alk := a\<rparr>) ds" using assms(1) refused(2) by (simp add: blocks_wf_def)
  moreover have "blocks_view (h\<lparr>mh_alk := a\<rparr>) ds = blocks_view h ds" by (simp add: blocks_view_def block_bytes_def)
  ultimately show ?thesis using refused by (intro disjI2) (simp add: mmblock_alloc_def)
qed

lemma mmblock_copy_effect:
  assumes "blocks_wf h ds" "i < length ds"
  shows "\<exists>h'. mmblock_copy h (ds ! i) = Some (ds ! i, h') \<and> blocks_wf h' (ds @ [ds ! i])
    \<and> blocks_view h' (ds @ [ds ! i]) = blocks_view h ds @ [blocks_view h ds ! i]"
proof -
  obtain x where x: "mh_heap h (ds ! i) = Some x" using blocks_wfD [OF assms] by blast
  let ?h = "h\<lparr>mh_heap := (mh_heap h)(ds ! i := Some (x\<lparr>ib_ref := ib_ref x + 1\<rparr>))\<rparr>"
  have old: "iblock_wf b \<and> ib_ref b = int (count (mset ds) d) \<and> d \<in> set ds \<and> d < mh_next h"
    if "mh_heap h d = Some b" for d b using assms(1) that unfolding blocks_wf_def by blast
  have ex: "\<forall>d \<in> set ds. mh_heap h d \<noteq> None" "alk_live (mh_alk h) = int (card (set ds))"
    using assms(1) unfolding blocks_wf_def by blast+
  have "set (ds @ [ds ! i]) = set ds" using assms(2) by (simp add: insert_absorb)
  then have "blocks_wf ?h (ds @ [ds ! i])"
    using old [OF x] old ex assms(2) by (auto simp: blocks_wf_def iblock_wf_def split: if_splits)
  moreover have "block_bytes ?h = block_bytes h" using x by (intro ext) (simp add: block_bytes_def)
  then have "blocks_view ?h (ds @ [ds ! i]) = blocks_view h ds @ [blocks_view h ds ! i]"
    using assms(2) by (simp add: blocks_view_def)
  ultimately show ?thesis using x by (simp add: mmblock_copy_def)
qed

definition without :: "nat \<Rightarrow> 'a list \<Rightarrow> 'a list" where
  "without i xs = take i xs @ drop (Suc i) xs"

lemma mset_without: "i < length xs \<Longrightarrow> mset (without i xs) = mset xs - {#xs ! i#}"
proof -
  assume "i < length xs"
  then have "xs = take i xs @ xs ! i # drop (Suc i) xs" by (rule id_take_nth_drop)
  then have "mset xs = add_mset (xs ! i) (mset (without i xs))"
    unfolding without_def by (metis mset.simps(2) mset_append union_mset_add_mset_right)
  then show ?thesis by simp
qed

lemma map_without: "map f (without i xs) = without i (map f xs)"
  by (simp add: without_def take_map drop_map)

lemma mmblock_free_effect:
  assumes "blocks_wf h ds" "i < length ds"
  shows "\<exists>h'. mmblock_free h (ds ! i) = Some h' \<and> blocks_wf h' (without i ds)
    \<and> blocks_view h' (without i ds) = without i (blocks_view h ds)"
proof -
  let ?d = "ds ! i" and ?ds = "without i ds"
  obtain x where x: "mh_heap h ?d = Some x" using blocks_wfD [OF assms] by blast
  have old: "iblock_wf b \<and> ib_ref b = int (count (mset ds) d) \<and> d \<in> set ds \<and> d < mh_next h"
    if "mh_heap h d = Some b" for d b using assms(1) that unfolding blocks_wf_def by blast
  have ex: "\<forall>d \<in> set ds. mh_heap h d \<noteq> None" "alk_live (mh_alk h) = int (card (set ds))"
    using assms(1) unfolding blocks_wf_def by blast+
  have c: "count (mset ?ds) z = count (mset ds) z - (if z = ?d then 1 else 0)" for z
    using mset_without [OF assms(2)] by simp
  have pos: "0 < count (mset ds) ?d" using assms(2) by simp
  have v: "blocks_view h' ?ds = without i (blocks_view h ds)"
    if "\<And>z. z \<in> set ?ds \<Longrightarrow> block_bytes h' z = block_bytes h z" for h'
    using that by (simp add: blocks_view_def flip: map_without)
  show ?thesis
  proof (cases "ib_ref x = 1")
    case True
    let ?h = "h\<lparr>mh_heap := (mh_heap h)(?d := None), mh_alk := mmfree (mh_alk h)\<rparr>"
    have one: "count (mset ds) ?d = 1" using True old [OF x] by simp
    have s: "set ?ds = set ds - {?d}"
    proof -
      have "z \<in> set ?ds \<longleftrightarrow> z \<in> set ds \<and> z \<noteq> ?d" for z
        using c [of z] one count_greater_zero_iff [of "mset ?ds" z] count_greater_zero_iff [of "mset ds" z]
        by (auto split: if_splits)
      then show ?thesis by blast
    qed
    then have "card (set ds) = Suc (card (set ?ds))"
      using card_Suc_Diff1 [OF finite_set nth_mem [OF assms(2)]] by simp
    then have "blocks_wf ?h ?ds"
      using old ex c s unfolding blocks_wf_def by (auto split: if_splits)
    moreover have "blocks_view ?h ?ds = without i (blocks_view h ds)" by (rule v) (simp add: s block_bytes_def)
    ultimately show ?thesis using x True by (simp add: mmblock_free_def mmiblock_unref_def)
  next
    case False
    let ?h = "h\<lparr>mh_heap := (mh_heap h)(?d := Some (x\<lparr>ib_ref := ib_ref x - 1\<rparr>))\<rparr>"
    have two: "2 \<le> count (mset ds) ?d" using False old [OF x] pos by linarith
    have s: "set ?ds = set ds"
    proof -
      have "z \<in> set ?ds \<longleftrightarrow> z \<in> set ds" for z
        using c [of z] two count_greater_zero_iff [of "mset ?ds" z] count_greater_zero_iff [of "mset ds" z]
          nth_mem [OF assms(2)] by (auto split: if_splits)
      then show ?thesis by blast
    qed
    have "blocks_wf ?h ?ds"
      using old [OF x] old ex c two unfolding blocks_wf_def s
      by (auto simp: iblock_wf_def of_nat_diff split: if_splits)
    moreover have "blocks_view ?h ?ds = without i (blocks_view h ds)" by (rule v) (use x in \<open>auto simp: block_bytes_def\<close>)
    ultimately show ?thesis using x False by (simp add: mmblock_free_def mmiblock_unref_def)
  qed
qed

end
