(* ===== verification/Block_Properties.thy ===== *)
theory Block_Properties
  imports Mm_Block
begin

section \<open>Properties of the copy-on-write blocks\<close>

text \<open>
  Blocks that share their bytes behave as independent arrays: \<open>mm_do\<close> performs an operation on the
  handles of a program, \<open>val_do\<close> the same operation on a list of arrays.
\<close>

datatype mm_op = MmAlloc u32 | MmZalloc u32 | MmCopy nat | MmFree nat | MmRead nat u32 u32 | MmWrite nat u32 "u8 list"

fun mm_do :: "mm_op \<Rightarrow> mmheap \<Rightarrow> mmblock list \<Rightarrow> (int \<times> u8 list \<times> mmheap \<times> mmblock list) option" where
  "mm_do (MmAlloc n) h ds =
     (let (r, h) = mmblock_alloc h n
      in Some (case r of None \<Rightarrow> (- ENOMEM, [], h, ds) | Some d \<Rightarrow> (0, [], h, ds @ [d])))"
| "mm_do (MmZalloc n) h ds =
     do { (r, h) \<leftarrow> mmblock_zalloc h n;
          Some (case r of None \<Rightarrow> (- ENOMEM, [], h, ds) | Some d \<Rightarrow> (0, [], h, ds @ [d])) }"
| "mm_do (MmCopy i) h ds =
     do { src \<leftarrow> buf_get ds i; (d, h) \<leftarrow> mmblock_copy h src; Some (0, [], h, ds @ [d]) }"
| "mm_do (MmFree i) h ds = do { d \<leftarrow> buf_get ds i; h \<leftarrow> mmblock_free h d; Some (0, [], h, without i ds) }"
| "mm_do (MmRead i offset n) h ds =
     do { d \<leftarrow> buf_get ds i; (r, bs) \<leftarrow> mmblock_read h d offset n; Some (r, bs, h, ds) }"
| "mm_do (MmWrite i offset buf) h ds =
     do { d \<leftarrow> buf_get ds i; (r, d, h) \<leftarrow> mmblock_write h d buf offset (of_nat (length buf)); Some (r, [], h, ds[i := d]) }"

text \<open>The bytes of a block from \<open>mmblock_alloc\<close> are indeterminate: \<open>js\<close>. What a write is given is cut
  off at the end of the array.\<close>

fun val_do :: "(nat \<Rightarrow> u8) \<Rightarrow> mm_op \<Rightarrow> u8 list list \<Rightarrow> int \<times> u8 list \<times> u8 list list" where
  "val_do js (MmAlloc n) vs = (0, [], vs @ [map js [0..<unat n]])"
| "val_do js (MmZalloc n) vs = (0, [], vs @ [replicate (unat n) 0])"
| "val_do js (MmCopy i) vs = (0, [], vs @ [vs ! i])"
| "val_do js (MmFree i) vs = (0, [], without i vs)"
| "val_do js (MmRead i offset n) vs =
     (if length (vs ! i) < unat offset then (- EFAULT, [], vs)
      else let bs = take (unat n) (drop (unat offset) (vs ! i)) in (int (length bs), bs, vs))"
| "val_do js (MmWrite i offset buf) vs =
     (if length (vs ! i) < unat offset then (- EFAULT, [], vs)
      else let bs = take (length (vs ! i) - unat offset) buf
           in (int (length bs), [], vs[i := splice (vs ! i) (unat offset) bs]))"

text \<open>A handle that exists, a size that an \<open>int32_t\<close> holds, and a source whose size a \<open>uint32_t\<close> holds.\<close>

fun mm_valid :: "mm_op \<Rightarrow> u8 list list \<Rightarrow> bool" where
  "mm_valid (MmAlloc n) vs \<longleftrightarrow> unat n < 2 ^ 31"
| "mm_valid (MmZalloc n) vs \<longleftrightarrow> unat n < 2 ^ 31"
| "mm_valid (MmCopy i) vs \<longleftrightarrow> i < length vs"
| "mm_valid (MmFree i) vs \<longleftrightarrow> i < length vs"
| "mm_valid (MmRead i offset n) vs \<longleftrightarrow> i < length vs"
| "mm_valid (MmWrite i offset buf) vs \<longleftrightarrow> i < length vs \<and> length buf < 2 ^ 32"

fun mm_past :: "mm_op \<Rightarrow> mmblock list \<Rightarrow> u8 list list \<Rightarrow> bool" where
  "mm_past (MmWrite i offset buf) ds vs = write_past ds i (length (vs ! i)) (unat offset) (length buf)"
| "mm_past op ds vs = False"

text \<open>C18. The operations of mmblock.c (alloc, zalloc, copy, free, read, write) with any offset and size,
  on well-formed blocks of less than 2^31 bytes. Each does on the handles what it does on
  independent arrays (a write through one handle is not seen through another), and leaves the
  blocks well-formed: every block has as many references as handles and is released with the last.
  Only an allocation that was refused makes it fail, with the values as they were. The exception
  is \<open>write_past\<close>, a write to a shared block that is cut off at its end (and whose offset and size
  do not wrap): it reads behind the block and faults, unless the allocation is refused.\<close>

theorem blocks_are_values:
  assumes "blocks_wf h ds" "mm_valid op (blocks_view h ds)"
  shows "mm_do op h ds = None \<and> mm_past op ds (blocks_view h ds)
    \<or> (\<exists>r bs h' ds'. mm_do op h ds = Some (r, bs, h', ds') \<and> blocks_wf h' ds'
      \<and> ((r, bs, blocks_view h' ds') = val_do (mh_junk h (mh_next h)) op (blocks_view h ds)
            \<and> \<not> mm_past op ds (blocks_view h ds)
         \<or> r = - ENOMEM \<and> blocks_view h' ds' = blocks_view h ds \<and> \<not> never_refuses (mh_alk h)))"
proof (cases op)
  case (MmAlloc n)
  then show ?thesis using mmblock_alloc_effect [OF assms(1), of n] assms(2) by auto
next
  case (MmZalloc n)
  then show ?thesis using mmblock_zalloc_effect [OF assms(1), of n] assms(2) by auto
next
  case (MmCopy i)
  then show ?thesis using mmblock_copy_effect [OF assms(1), of i] assms(2) by (auto simp: buf_simps)
next
  case (MmFree i)
  then show ?thesis using mmblock_free_effect [OF assms(1), of i] assms(2) by (auto simp: buf_simps)
next
  case (MmRead i offset n)
  then show ?thesis using mmblock_read_effect [OF assms(1), of i offset n] assms by (auto simp: buf_simps Let_def)
next
  case (MmWrite i offset buf)
  then have i: "i < length ds" "unat (of_nat (length buf) :: u32) = length buf"
    using assms(2) by (simp_all add: unat_of_nat)
  let ?v = "blocks_view h ds ! i"
  show ?thesis
  proof (cases "length ?v < unat offset")
    case True
    then show ?thesis using MmWrite i(1) mmblock_write_outside [OF assms(1) i(1) True] assms(1)
      by (simp add: buf_simps write_past_def)
  next
    case inside: False
    show ?thesis
    proof (cases "mm_past op ds (blocks_view h ds)")
      case True
      then have "write_past ds i (length ?v) (unat offset) (length buf)" using MmWrite by simp
      from mmblock_write_past [OF assms(1) i this] show ?thesis
        using MmWrite i(1) True by (elim disjE exE conjE) (simp_all add: buf_simps)
    next
      case False
      then have w: "\<not> write_past ds i (length ?v) (unat offset) (length buf)" using MmWrite by simp
      have "unat offset \<le> length ?v" using inside by simp
      from mmblock_write_effect [OF assms(1) i(1) this i(2) w] show ?thesis
        using MmWrite i(1) False inside by (elim disjE exE conjE) (simp_all add: buf_simps)
    qed
  qed
qed

theorem blocks_are_values_witness:
  "\<exists>h' ds'. mm_do (MmZalloc 3) \<lparr>mh_heap = (\<lambda>_. None), mh_next = 1, mh_junk = (\<lambda>_ _. 0), mh_alk = alk_generous\<rparr> []
      = Some (0, [], h', ds') \<and> blocks_view h' ds' = [[0, 0, 0]]"
proof -
  let ?h = "\<lparr>mh_heap = (\<lambda>_. None), mh_next = 1, mh_junk = (\<lambda>_ _. 0), mh_alk = alk_generous\<rparr>"
  have "blocks_wf ?h []" "never_refuses (mh_alk ?h)" by (simp_all add: blocks_wf_def alk_generous_def never_refuses_def)
  moreover have "mm_valid (MmZalloc 3) (blocks_view ?h [])" "blocks_view ?h [] = []" by (simp_all add: blocks_view_def)
  moreover have "val_do js (MmZalloc 3) [] = (0, [], [[0, 0, 0]])" for js by (simp add: list_eval)
  moreover have "\<not> mm_past (MmZalloc 3) [] []" by simp
  ultimately show ?thesis using blocks_are_values [of ?h "[]" "MmZalloc 3"] by (metis Pair_inject)
qed

text \<open>Such a write on two handles of one block, and the write of a handle alone that is cut off.\<close>

lemma shared_write_overruns:
  "mmblock_write \<lparr>mh_heap = [1 \<mapsto> \<lparr>ib_data = [7, 7], ib_size = 2, ib_ref = 2\<rparr>], mh_next = 2,
      mh_junk = (\<lambda>_ _. 0), mh_alk = alk_generous\<rparr> 1 [1, 2, 3] 0 3 = None"
  by (simp add: mmblock_write_def mmiblock_detach_def mmiblock_alloc_def io_len_def mmalloc_def alk_generous_def
      obj_copy_def buf_read_def buf_write_def mmiblock_bytes_def cong: eval_cong)

end
