(* ===== verification/Mm_Stream.thy ===== *)
theory Mm_Stream
  imports Allocator
begin

section \<open>mmstream.c\<close>

text \<open>
  src/mmstream: a sparse file in memory. A stream is a doubly linked list of extents, an extent
  64 pointers to blocks of 512 bytes, of which those never written are NULL. The model keeps the
  extents in a list from \<open>head\<close> on; a pointer to an extent is its index, NULL is None, and \<open>tail\<close>
  is the last one. The code compiled without \<open>USE_MMSTREAM_BITMAP\<close>, its default, is what is modelled.
\<close>

subsection \<open>The operations\<close>

type_synonym mmblk = "u8 list"
type_synonym mmextent = "mmblk option list"

record mmstream =
  ms_list :: "mmextent list"
  ms_extent :: nat
  ms_alk :: alk

record mmlocation =
  lc_extent :: "nat option"
  lc_ext_nr :: nat
  lc_ext_off :: nat
  lc_blk_off :: nat
  lc_blk_avail :: nat

definition flow_blk_size :: nat where "flow_blk_size = 512"
definition flow_extent_size :: nat where "flow_extent_size = 64"
definition mmextent_bytes :: nat where "mmextent_bytes = 528"

definition flow_align_down :: "u64 \<Rightarrow> nat \<Rightarrow> u64" where
  "flow_align_down x k = x AND - (2 ^ k)"

definition flow_align_up :: "u64 \<Rightarrow> nat \<Rightarrow> u64" where
  "flow_align_up x k = (x + (2 ^ k - 1)) AND - (2 ^ k)"

definition mmblk_alloc :: "mmstream \<Rightarrow> mmblk option \<times> mmstream" where
  "mmblk_alloc st =
     (let (ok, a) = mmalloc flow_blk_size (ms_alk st)
      in (if ok then Some (replicate flow_blk_size 0) else None, st\<lparr>ms_alk := a\<rparr>))"

definition mmextent_alloc :: "mmstream \<Rightarrow> mmextent option \<times> mmstream" where
  "mmextent_alloc st =
     (let (ok, a) = mmalloc mmextent_bytes (ms_alk st)
      in (if ok then Some (replicate flow_extent_size None) else None, st\<lparr>ms_alk := a\<rparr>))"

text \<open>The blocks of an extent and the extent itself, given back.\<close>

definition mmextent_free :: "mmextent \<Rightarrow> alk \<Rightarrow> alk" where
  "mmextent_free e a = mmfree (fold (\<lambda>b a. if b \<noteq> None then mmfree a else a) (rev e) a)"

fun mmextent_add :: "nat \<Rightarrow> mmstream \<Rightarrow> bool \<times> mmstream" where
  "mmextent_add 0 st = (True, st)"
| "mmextent_add (Suc n) st =
     (case mmextent_alloc st of
        (None, st) \<Rightarrow> (False, st)
      | (Some e, st) \<Rightarrow> mmextent_add n (st\<lparr>ms_list := ms_list st @ [e], ms_extent := ms_extent st + 1\<rparr>))"

text \<open>False: out of memory.\<close>

definition mmextent_resize :: "mmstream \<Rightarrow> u64 \<Rightarrow> bool \<times> mmstream" where
  "mmextent_resize st sz =
     (let ext_nr = 1 + unat (drop_bit 6 (drop_bit 9 (flow_align_up sz 9)))
      in if ms_extent st < ext_nr then mmextent_add (ext_nr - ms_extent st) st else (True, st))"

text \<open>\<open>walk_prev\<close> and \<open>walk_next\<close> follow the links \<open>n\<close> times; a step from NULL is a fault.\<close>

fun walk_prev :: "nat \<Rightarrow> nat option \<Rightarrow> nat option option" where
  "walk_prev 0 p = Some p"
| "walk_prev (Suc n) p = (case p of None \<Rightarrow> None | Some i \<Rightarrow> walk_prev n (if i = 0 then None else Some (i - 1)))"

fun walk_next :: "nat \<Rightarrow> nat \<Rightarrow> nat option \<Rightarrow> nat option option" where
  "walk_next len 0 p = Some p"
| "walk_next len (Suc n) p =
     (case p of None \<Rightarrow> None | Some i \<Rightarrow> walk_next len n (if i + 1 < len then Some (i + 1) else None))"

definition ms_head :: "mmstream \<Rightarrow> nat option" where
  "ms_head st = (if ms_list st = [] then None else Some 0)"

definition ms_tail :: "mmstream \<Rightarrow> nat option" where
  "ms_tail st = (if ms_list st = [] then None else Some (length (ms_list st) - 1))"

text \<open>The counter is unsigned: when the index is beyond it, the difference is huge.\<close>

definition mmextent_at :: "mmstream \<Rightarrow> nat \<Rightarrow> nat option option" where
  "mmextent_at st index =
     (if index = 0 then Some (ms_head st)
      else if index + 1 = ms_extent st then Some (ms_tail st)
      else if index \<le> ms_extent st \<and> ms_extent st - index < ms_extent st div 2
      then walk_prev (ms_extent st - index) (ms_tail st)
      else walk_next (length (ms_list st)) index (ms_head st))"

definition mmlocation_compute :: "mmstream \<Rightarrow> u64 \<Rightarrow> mmlocation option" where
  "mmlocation_compute st offset =
     (let blk_nr = drop_bit 9 offset;
          ext_nr = unat (drop_bit 6 blk_nr);
          blk_off = unat (offset - flow_align_down offset 9);
          avail = unat (flow_align_up offset 9 - offset)
      in do {
        p \<leftarrow> mmextent_at st ext_nr;
        Some \<lparr>lc_extent = p, lc_ext_nr = ext_nr,
              lc_ext_off = unat (blk_nr - flow_align_down blk_nr 6),
              lc_blk_off = blk_off, lc_blk_avail = (if avail = 0 then flow_blk_size else avail)\<rparr>
      })"

definition mmlocation_next :: "mmstream \<Rightarrow> mmlocation \<Rightarrow> mmlocation option" where
  "mmlocation_next st l =
     do {
       l \<leftarrow> (if lc_ext_off l + 1 = flow_extent_size
             then do {
               i \<leftarrow> lc_extent l;
               Some (l\<lparr>lc_ext_off := 0, lc_ext_nr := lc_ext_nr l + 1,
                       lc_extent := (if i + 1 < length (ms_list st) then Some (i + 1) else None)\<rparr>)
             }
             else Some (l\<lparr>lc_ext_off := lc_ext_off l + 1\<rparr>));
       Some (l\<lparr>lc_blk_off := 0, lc_blk_avail := flow_blk_size\<rparr>)
     }"

definition mmstream_alloc :: "alk \<Rightarrow> mmstream" where
  "mmstream_alloc a = \<lparr>ms_list = [], ms_extent = 0, ms_alk = a\<rparr>"

definition mmstream_clear :: "mmstream \<Rightarrow> mmstream" where
  "mmstream_clear st = \<lparr>ms_list = [], ms_extent = 0, ms_alk = fold mmextent_free (ms_list st) (ms_alk st)\<rparr>"

definition mmstream_free :: "mmstream \<Rightarrow> mmstream" where
  "mmstream_free st = mmstream_clear st"

text \<open>\<open>extent->blocks[ext_off]\<close>: a fault when the extent is NULL.\<close>

definition ms_block :: "mmstream \<Rightarrow> mmlocation \<Rightarrow> mmblk option option" where
  "ms_block st l = do { i \<leftarrow> lc_extent l; e \<leftarrow> buf_get (ms_list st) i; buf_get e (lc_ext_off l) }"

definition ms_put :: "mmstream \<Rightarrow> mmlocation \<Rightarrow> mmblk \<Rightarrow> mmstream option" where
  "ms_put st l b =
     do {
       i \<leftarrow> lc_extent l;
       e \<leftarrow> buf_get (ms_list st) i;
       e \<leftarrow> buf_set e (lc_ext_off l) (Some b);
       Some (st\<lparr>ms_list := (ms_list st)[i := e]\<rparr>)
     }"

text \<open>The blocks of the extent \<open>root\<close> from the location on, zeroed; \<open>fuel\<close> bounds the number of
  blocks looked at, of which an extent has 64.\<close>

fun zero_rest :: "nat \<Rightarrow> nat option \<Rightarrow> mmstream \<Rightarrow> mmlocation \<Rightarrow> (mmlocation \<times> mmstream) option" where
  "zero_rest 0 root st l = None"
| "zero_rest (Suc fuel) root st l =
     do {
       b \<leftarrow> ms_block st l;
       st \<leftarrow> (case b of
                None \<Rightarrow> Some st
              | Some b \<Rightarrow> do { b \<leftarrow> buf_write b (lc_blk_off l) (replicate (lc_blk_avail l) 0); ms_put st l b });
       l \<leftarrow> mmlocation_next st l;
       if lc_extent l = root then zero_rest fuel root st l else Some (l, st)
     }"

text \<open>The extents from \<open>i\<close> on are given back; the first of them, \<open>root\<close>, is read afterwards for its
  link \<open>prev\<close>, which is a fault.\<close>

definition mmstream_truncate :: "mmstream \<Rightarrow> u64 \<Rightarrow> mmstream option" where
  "mmstream_truncate st sz =
     do {
       l \<leftarrow> mmlocation_compute st sz;
       (l, st) \<leftarrow> (if lc_blk_off l > 0 \<or> lc_ext_off l > 0
                   then zero_rest flow_extent_size (lc_extent l) st l
                   else Some (l, st));
       case lc_extent l of
         None \<Rightarrow> Some st
       | Some root \<Rightarrow>
           do {
             let freed = drop root (ms_list st);
             let st = st\<lparr>ms_list := take root (ms_list st), ms_extent := ms_extent st - length freed,
                         ms_alk := fold mmextent_free freed (ms_alk st)\<rparr>;
             _ \<leftarrow> buf_get (ms_list st) root;
             Some st
           }
     }"

function read_blocks :: "mmstream \<Rightarrow> mmlocation \<Rightarrow> nat \<Rightarrow> nat \<Rightarrow> u8 list \<Rightarrow> u8 list option" where
  "read_blocks st l sz n acc =
     (if n < sz
      then do {
        b \<leftarrow> ms_block st l;
        case b of
          None \<Rightarrow> Some acc
        | Some b \<Rightarrow>
            let fetchz = min (sz - n) (lc_blk_avail l)
            in if fetchz = 0 then Some acc
               else do {
                 bs \<leftarrow> buf_read b (lc_blk_off l) fetchz;
                 l \<leftarrow> mmlocation_next st l;
                 if lc_extent l = None then Some (acc @ bs) else read_blocks st l sz (n + fetchz) (acc @ bs)
               }
      }
      else Some acc)"
  by pat_completeness auto
termination by (relation "measure (\<lambda>(st, l, sz, n, acc). sz - n)") auto

declare read_blocks.simps [simp del]

text \<open>The bytes put into the caller's buffer; their number is the value returned.\<close>

definition mmstream_read :: "mmstream \<Rightarrow> u64 \<Rightarrow> u32 \<Rightarrow> u8 list option" where
  "mmstream_read st offset sz =
     do {
       l \<leftarrow> mmlocation_compute st offset;
       read_blocks st l (unat (sz AND 0x7fffffff)) 0 []
     }"

function write_blocks :: "mmstream \<Rightarrow> u8 list \<Rightarrow> u64 \<Rightarrow> mmlocation \<Rightarrow> nat \<Rightarrow> nat \<Rightarrow> (nat \<times> mmstream) option" where
  "write_blocks st buf offset l sz n =
     (if n < sz
      then
        let fetchz = min (sz - n) (lc_blk_avail l)
        in if fetchz = 0 then Some (n, st)
           else do {
             b \<leftarrow> ms_block st l;
             case (case b of Some b \<Rightarrow> (Some b, st) | None \<Rightarrow> mmblk_alloc st) of
               (None, st) \<Rightarrow> Some (n, st)
             | (Some b, st) \<Rightarrow>
                 do {
                   b \<leftarrow> obj_copy b (lc_blk_off l) buf n fetchz;
                   st \<leftarrow> ms_put st l b;
                   let n = n + fetchz;
                   case mmextent_resize st (offset + of_nat n) of
                     (False, st) \<Rightarrow> Some (n, st)
                   | (True, st) \<Rightarrow>
                       do {
                         l \<leftarrow> mmlocation_next st l;
                         if lc_extent l = None then Some (n, st) else write_blocks st buf offset l sz n
                       }
                 }
           }
      else Some (n, st))"
  by pat_completeness auto
termination
  by (relation "measure (\<lambda>(st, buf, offset, l, sz, n). sz - n)") auto

declare write_blocks.simps [simp del]

text \<open>The value is the number of bytes written, or -1.\<close>

definition mmstream_write :: "mmstream \<Rightarrow> u8 list \<Rightarrow> u64 \<Rightarrow> u32 \<Rightarrow> (int \<times> mmstream) option" where
  "mmstream_write st buf offset sz =
     (let sz = unat (sz AND 0x7fffffff)
      in if sz = 0 then Some (0, st)
         else case mmextent_resize st offset of
           (False, st) \<Rightarrow> Some (- 1, st)
         | (True, st) \<Rightarrow>
             do {
               l \<leftarrow> mmlocation_compute st offset;
               (n, st) \<leftarrow> write_blocks st buf offset l sz 0;
               Some (int n, st)
             })"

subsection \<open>Streams as sparse files\<close>

text \<open>The byte at an offset: None where nothing was written.\<close>

definition ms_slot :: "mmstream \<Rightarrow> nat \<Rightarrow> mmblk option" where
  "ms_slot st k =
     (if k div flow_extent_size < length (ms_list st)
      then ms_list st ! (k div flow_extent_size) ! (k mod flow_extent_size) else None)"

definition ms_byte :: "mmstream \<Rightarrow> nat \<Rightarrow> u8 option" where
  "ms_byte st x = map_option (\<lambda>b. b ! (x mod flow_blk_size)) (ms_slot st (x div flow_blk_size))"

definition extent_blocks :: "mmextent \<Rightarrow> nat" where
  "extent_blocks e = Suc (length (filter (\<lambda>b. b \<noteq> None) e))"

definition ms_live :: "mmstream \<Rightarrow> nat" where
  "ms_live st = sum_list (map extent_blocks (ms_list st))"

definition ms_wf :: "mmstream \<Rightarrow> bool" where
  "ms_wf st \<longleftrightarrow>
     ms_extent st = length (ms_list st)
     \<and> (\<forall>e \<in> set (ms_list st). length e = flow_extent_size \<and> (\<forall>b. Some b \<in> set e \<longrightarrow> length b = flow_blk_size))
     \<and> alk_live (ms_alk st) = int (ms_live st)"

text \<open>The extents that are found from their index: the search from the tail stops one too early.\<close>

definition located :: "nat \<Rightarrow> nat \<Rightarrow> bool" where
  "located n i \<longleftrightarrow> i < n \<and> (i = 0 \<or> i + 1 = n \<or> n div 2 \<le> n - i)"

lemma walk_next_spec: "i < len \<Longrightarrow> i + n < len \<Longrightarrow> walk_next len n (Some i) = Some (Some (i + n))"
  by (induction n arbitrary: i) auto

lemma walk_prev_spec: "n \<le> i \<Longrightarrow> walk_prev n (Some i) = Some (Some (i - n))"
  by (induction n arbitrary: i) auto

lemma mmextent_at_located:
  "ms_extent st = length (ms_list st) \<Longrightarrow> located (ms_extent st) i \<Longrightarrow> mmextent_at st i = Some (Some i)"
  by (auto simp: mmextent_at_def located_def ms_head_def ms_tail_def walk_next_spec)

lemma mmextent_at_early:
  assumes "ms_extent st = length (ms_list st)" "i < ms_extent st" "\<not> located (ms_extent st) i"
  shows "mmextent_at st i = Some (Some (i - 1))"
  using assms by (auto simp: mmextent_at_def located_def ms_tail_def walk_prev_spec)

subsection \<open>Locations\<close>

definition loc_at :: "mmstream \<Rightarrow> nat \<Rightarrow> mmlocation" where
  "loc_at st x =
     \<lparr>lc_extent = (if x div 32768 < length (ms_list st) then Some (x div 32768) else None), lc_ext_nr = x div 32768,
      lc_ext_off = x div 512 mod 64, lc_blk_off = x mod 512, lc_blk_avail = 512 - x mod 512\<rparr>"

lemma loc_at_simps:
  "lc_blk_off (loc_at st x) = x mod 512" "lc_blk_avail (loc_at st x) = 512 - x mod 512"
  by (simp_all add: loc_at_def)

lemma unat_drop_bit: "unat (drop_bit k (w :: u64)) = unat w div 2 ^ k"
proof -
  have "take_bit 64 (unat w) = unat w" using unsigned_less [of w, where ?'a = nat] by (simp add: take_bit_nat_eq_self)
  then show ?thesis by (simp only: unsigned_drop_bit_eq) (simp add: drop_bit_eq_div)
qed

lemma unat_below_align: "unat (w - flow_align_down w k) = unat w mod 2 ^ k"
proof -
  have "flow_align_down w k \<le> w"
    by (simp add: flow_align_down_def word_le_nat_alt unat_align_word)
  then show ?thesis by (simp add: unat_sub flow_align_down_def unat_align_word)
qed

lemma unat_align_up:
  assumes "unat w + 512 \<le> 2 ^ 64"
  shows "unat (flow_align_up w 9) = (unat w + 511) div 512 * 512"
proof -
  have "unat (w + 511) = unat w + 511"
    using assms by (subst unat_plus_if') simp
  then have "unat (flow_align_up w 9) = unat w + 511 - (unat w + 511) mod 512"
    using unat_align_word [of "w + 511" 9] by (simp add: flow_align_up_def)
  then show ?thesis by (simp add: minus_mod_eq_div_mult)
qed

lemma round_up_512: "(x + 511) div 512 * 512 = x + (512 - x mod 512) mod (512 :: nat)"
proof -
  obtain q r where x: "x = 512 * q + r" "r < 512" by (metis div_mult_mod_eq mod_less_divisor mult.commute zero_less_numeral)
  show ?thesis by (cases "r = 0") (use x in \<open>auto simp: div_add1_eq [of "512 * q"] add.assoc\<close>)
qed

lemma next_block:
  assumes "y = x + (512 - x mod 512)"
  shows "y mod 512 = 0" "y div 512 = x div 512 + (1 :: nat)"
proof -
  obtain q r where x: "x = 512 * q + r" "r < 512" by (metis div_mult_mod_eq mod_less_divisor mult.commute zero_less_numeral)
  then have "y = 512 * (q + 1)" "x div 512 = q" using assms by simp_all
  then show "y mod 512 = 0" "y div 512 = x div 512 + 1" by simp_all
qed

lemma unat_avail:
  assumes "unat w + 512 \<le> 2 ^ 64"
  shows "unat (flow_align_up w 9 - w) = (512 - unat w mod 512) mod 512"
proof -
  have u: "unat (flow_align_up w 9) = (unat w + 511) div 512 * 512" using assms by (rule unat_align_up)
  have "unat w \<le> (unat w + 511) div 512 * 512" by (simp only: round_up_512)
  then have "w \<le> flow_align_up w 9" unfolding word_le_nat_alt u .
  then have "unat (flow_align_up w 9 - w) = (unat w + 511) div 512 * 512 - unat w" by (simp add: unat_sub u)
  also have "\<dots> = (512 - unat w mod 512) mod 512" by (simp only: round_up_512)
  finally show ?thesis .
qed

lemma mmlocation_compute_located:
  assumes "ms_extent st = length (ms_list st)" "located (ms_extent st) (unat w div 32768)" "unat w + 512 \<le> 2 ^ 64"
  shows "mmlocation_compute st w = Some (loc_at st (unat w))"
proof -
  have n: "unat (drop_bit 6 (drop_bit 9 w)) = unat w div 32768"
    by (simp add: unat_drop_bit div_mult2_eq [symmetric])
  have o6: "unat (drop_bit 9 w - flow_align_down (drop_bit 9 w) 6) = unat w div 512 mod 64"
    unfolding unat_below_align by (simp add: unat_drop_bit)
  have o9: "unat (w - flow_align_down w 9) = unat w mod 512" using unat_below_align [of w 9] by simp
  have a: "(if (512 - unat w mod 512) mod 512 = 0 then 512 else (512 - unat w mod 512) mod 512) = 512 - unat w mod 512"
    by (cases "unat w mod 512 = 0") auto
  note a = a [folded flow_blk_size_def]
  have "unat w div 32768 < length (ms_list st)" using assms by (simp add: located_def)
  then show ?thesis
    unfolding mmlocation_compute_def Let_def n o6 o9 unat_avail [OF assms(3)] mmextent_at_located [OF assms(1,2)]
    by (simp only: loc_at_def flow_blk_size_def a [unfolded flow_blk_size_def] Option.bind.bind_lunit simp_thms if_True)
qed

lemma next_of_64:
  "(k + 1) div 64 = (if k mod 64 + 1 = 64 then k div 64 + 1 else k div (64 :: nat))"
  "(k + 1) mod 64 = (if k mod 64 + 1 = 64 then 0 else k mod (64 :: nat) + 1)"
  by (simp_all add: div_Suc mod_Suc)

lemma div_extent: "x div 32768 = x div 512 div (64 :: nat)"
  by (simp add: div_mult2_eq [symmetric])

lemma loc_next:
  assumes "lc_extent (loc_at st x) \<noteq> None" "y = x + (512 - x mod 512)"
  shows "mmlocation_next st (loc_at st x) = Some (loc_at st y)"
proof -
  have y: "y mod 512 = 0" "y div 512 = x div 512 + 1" using next_block [OF assms(2)] by simp_all
  have b: "x div 512 div 64 < length (ms_list st)" using assms(1) by (simp add: loc_at_def div_extent split: if_splits)
  show ?thesis
    unfolding mmlocation_next_def loc_at_def flow_extent_size_def flow_blk_size_def div_extent y next_of_64
    using b by simp
qed

lemma ms_block_at:
  assumes "ms_wf st" "lc_extent (loc_at st x) \<noteq> None"
  shows "ms_block st (loc_at st x) = Some (ms_slot st (x div 512))"
proof -
  have "x div 32768 = x div 512 div 64" by (rule div_extent)
  moreover have "x div 32768 < length (ms_list st)" using assms(2) by (simp add: loc_at_def split: if_splits)
  moreover from this have "length (ms_list st ! (x div 32768)) = 64"
    using assms(1) by (simp add: ms_wf_def flow_extent_size_def)
  ultimately show ?thesis
    by (simp add: ms_block_def loc_at_def ms_slot_def buf_get_Some flow_extent_size_def)
qed


lemma ms_wf_lists:
  assumes "ms_wf st" "ms_slot st k = Some b"
  shows "length b = 512" "k div 64 < length (ms_list st)"
proof -
  show i: "k div 64 < length (ms_list st)" using assms(2) by (simp add: ms_slot_def flow_extent_size_def split: if_splits)
  then have e: "ms_list st ! (k div 64) \<in> set (ms_list st)" by simp
  then have "length (ms_list st ! (k div 64)) = 64" using assms(1) unfolding ms_wf_def flow_extent_size_def by blast
  moreover have "ms_list st ! (k div 64) ! (k mod 64) = Some b" using assms(2) i by (simp add: ms_slot_def flow_extent_size_def)
  ultimately have "Some b \<in> set (ms_list st ! (k div 64))" by (metis mod_less_divisor nth_mem zero_less_numeral)
  then show "length b = 512" using assms(1) e unfolding ms_wf_def flow_blk_size_def by blast
qed

subsection \<open>Reading\<close>

definition ms_bytes :: "mmstream \<Rightarrow> nat \<Rightarrow> nat \<Rightarrow> u8 list" where
  "ms_bytes st x n = map the (takeWhile (\<lambda>b. b \<noteq> None) (map (ms_byte st) [x..<x + n]))"

lemma ms_bytes_none: "ms_byte st x = None \<Longrightarrow> ms_bytes st x n = []"
  by (cases n) (simp_all add: ms_bytes_def upt_conv_Cons del: upt_Suc)

lemma ms_bytes_split:
  assumes "\<And>y. x \<le> y \<Longrightarrow> y < x + k \<Longrightarrow> ms_byte st y \<noteq> None" "k \<le> n"
  shows "ms_bytes st x n = map (\<lambda>y. the (ms_byte st y)) [x..<x + k] @ ms_bytes st (x + k) (n - k)"
proof -
  let ?f = "ms_byte st" and ?P = "\<lambda>b :: u8 option. b \<noteq> None"
  have "[x..<x + n] = [x..<x + k] @ [x + k..<x + k + (n - k)]" using upt_add_eq_append [of x "x + k" "n - k"] assms(2) by simp
  then have "map ?f [x..<x + n] = map ?f [x..<x + k] @ map ?f [x + k..<x + k + (n - k)]" by (simp only: map_append)
  moreover have "takeWhile ?P (map ?f [x..<x + k] @ ys) = map ?f [x..<x + k] @ takeWhile ?P ys" for ys
    using assms(1) by (intro takeWhile_append2) auto
  ultimately show ?thesis by (simp add: ms_bytes_def)
qed

lemma ms_byte_block:
  assumes "ms_slot st (x div 512) = Some b" "x mod 512 + j < 512"
  shows "ms_byte st (x + j) = Some (b ! (x mod 512 + j))"
proof -
  obtain q r where x: "x = 512 * q + r" "r < 512" by (metis div_mult_mod_eq mod_less_divisor mult.commute zero_less_numeral)
  then have "x mod 512 = r" "x div 512 = q" by simp_all
  moreover have "(x + j) div 512 = q" "(x + j) mod 512 = r + j" using x calculation(1) assms(2) by (simp_all add: add.assoc)
  ultimately show ?thesis using assms by (simp add: ms_byte_def flow_blk_size_def)
qed

lemma ms_bytes_chunk:
  assumes "ms_wf st" "ms_slot st (x div 512) = Some b" "k \<le> 512 - x mod 512" "k \<le> n"
  shows "ms_bytes st x n = take k (drop (x mod 512) b) @ ms_bytes st (x + k) (n - k)"
proof -
  have m: "x mod 512 < 512" by simp
  have v: "ms_byte st (x + j) = Some (b ! (x mod 512 + j))" if "j < k" for j
    using that assms(3) m by (intro ms_byte_block [OF assms(2)]) linarith
  have "ms_byte st y \<noteq> None" if "x \<le> y" "y < x + k" for y using v [of "y - x"] that by simp
  then have "ms_bytes st x n = map (\<lambda>y. the (ms_byte st y)) [x..<x + k] @ ms_bytes st (x + k) (n - k)"
    using assms(4) by (rule ms_bytes_split)
  moreover have "map (\<lambda>y. the (ms_byte st y)) [x..<x + k] = take k (drop (x mod 512) b)"
    using ms_wf_lists(1) [OF assms(1,2)] assms(3) m by (intro nth_equalityI) (simp_all add: v)
  ultimately show ?thesis by simp
qed

lemma ms_byte_no_extent:
  assumes "\<not> x div 32768 < length (ms_list st)"
  shows "ms_byte st x = None"
  using assms by (simp add: ms_byte_def ms_slot_def div_extent flow_blk_size_def flow_extent_size_def)

lemma read_blocks_effect:
  assumes "ms_wf st" "lc_extent (loc_at st x) \<noteq> None" "n \<le> sz"
  shows "read_blocks st (loc_at st x) sz n acc = Some (acc @ ms_bytes st x (sz - n))"
  using assms
proof (induction "sz - n" arbitrary: n x acc rule: less_induct)
  case less
  note blk = ms_block_at [OF less.prems(1,2)]
  show ?case
  proof (cases "n < sz")
    case False
    then show ?thesis using less.prems by (subst read_blocks.simps) (simp add: ms_bytes_def)
  next
    case True
    show ?thesis
    proof (cases "ms_slot st (x div 512)")
      case None
      then have "ms_byte st x = None" by (simp add: ms_byte_def flow_blk_size_def)
      then show ?thesis using True None blk by (subst read_blocks.simps) (simp add: ms_bytes_none)
    next
      case (Some b)
      let ?y = "x + (512 - x mod 512)"
      have m: "x mod 512 < 512" by simp
      define k where "k = min (sz - n) (512 - x mod 512)"
      have k: "0 < k" "k \<le> sz - n" "k \<le> 512 - x mod 512" using True m by (auto simp: k_def)
      have rd: "buf_read b (x mod 512) k = Some (take k (drop (x mod 512) b))"
        using ms_wf_lists(1) [OF less.prems(1) Some] k m by (simp add: buf_read_Some)
      have step: "read_blocks st (loc_at st x) sz n acc =
          (if lc_extent (loc_at st ?y) = None then Some (acc @ take k (drop (x mod 512) b))
           else read_blocks st (loc_at st ?y) sz (n + k) (acc @ take k (drop (x mod 512) b)))"
        using True blk Some k(1) rd loc_next [OF less.prems(2) refl]
        by (subst read_blocks.simps) (simp add: loc_at_def [of st x] k_def [symmetric] Let_def)
      have chunk: "ms_bytes st x (sz - n) = take k (drop (x mod 512) b) @ ms_bytes st (x + k) (sz - n - k)"
        using less.prems(1) Some k(3,2) by (rule ms_bytes_chunk)
      show ?thesis
      proof (cases "k = sz - n")
        case True
        then have "n + k = sz" using k less.prems(3) by linarith
        then have "read_blocks st (loc_at st ?y) sz (n + k) acc' = Some acc'" for acc'
          by (subst read_blocks.simps) simp
        moreover have "ms_bytes st (x + k) (sz - n - k) = []" using True by (simp add: ms_bytes_def)
        ultimately show ?thesis using step chunk by simp
      next
        case False
        then have y: "x + k = ?y" by (simp add: k_def min_def split: if_splits)
        show ?thesis
        proof (cases "lc_extent (loc_at st ?y) = None")
          case True
          then have "ms_byte st ?y = None" by (intro ms_byte_no_extent) (simp add: loc_at_def split: if_splits)
          then show ?thesis using step chunk True y by (simp add: ms_bytes_none)
        next
          case e: False
          have "read_blocks st (loc_at st ?y) sz (n + k) (acc @ take k (drop (x mod 512) b))
              = Some ((acc @ take k (drop (x mod 512) b)) @ ms_bytes st ?y (sz - (n + k)))"
            using k less.prems e by (intro less.hyps) simp_all
          then show ?thesis by (simp only: step chunk y e if_False diff_diff_left append_assoc)
        qed
      qed
    qed
  qed
qed

lemma mmstream_read_effect:
  assumes "ms_wf st" "located (ms_extent st) (unat w div 32768)" "unat w + 512 \<le> 2 ^ 64"
  shows "mmstream_read st w n = Some (ms_bytes st (unat w) (unat (n AND 0x7fffffff)))"
proof -
  have "lc_extent (loc_at st (unat w)) \<noteq> None" using assms by (simp add: located_def loc_at_def ms_wf_def)
  then show ?thesis
    using assms mmlocation_compute_located [of st w] read_blocks_effect [of st "unat w" 0 "unat (n AND 0x7fffffff)" "[]"]
    by (simp add: mmstream_read_def ms_wf_def)
qed


subsection \<open>Writing\<close>

text \<open>\<open>ms_wrote st st' x xs\<close>: the bytes \<open>xs\<close> are at \<open>x\<close>; the blocks they are in exist, and a byte of
  these that was not written before is 0. Nothing else has changed.\<close>

definition ms_wrote :: "mmstream \<Rightarrow> mmstream \<Rightarrow> nat \<Rightarrow> u8 list \<Rightarrow> bool" where
  "ms_wrote st st' x xs \<longleftrightarrow>
     (\<forall>y. ms_byte st' y =
        (if x \<le> y \<and> y < x + length xs then Some (xs ! (y - x))
         else if xs \<noteq> [] \<and> x div 512 \<le> y div 512 \<and> y div 512 \<le> (x + length xs - 1) div 512
         then Some (case ms_byte st y of None \<Rightarrow> 0 | Some b \<Rightarrow> b)
         else ms_byte st y))"

lemma ms_wrote_Nil [simp]: "ms_wrote st st' x [] \<longleftrightarrow> ms_byte st' = ms_byte st"
  by (auto simp: ms_wrote_def)

lemma mmextent_add_effect:
  assumes "ms_wf st" "never_refuses (ms_alk st)"
  obtains st' where "mmextent_add n st = (True, st')" "ms_wf st'" "never_refuses (ms_alk st')"
    "ms_extent st' = ms_extent st + n" "ms_slot st' = ms_slot st"
  using assms
proof (induction n arbitrary: st thesis)
  case 0
  then show ?case by simp
next
  case (Suc n)
  obtain a where a: "mmalloc mmextent_bytes (ms_alk st) = (True, a)"
    using mmalloc_never_refuses(1) [OF Suc.prems(3)] by (metis (full_types) surj_pair)
  let ?e = "replicate flow_extent_size None :: mmextent"
  let ?s = "st\<lparr>ms_alk := a, ms_list := ms_list st @ [?e], ms_extent := ms_extent st + 1\<rparr>"
  have "ms_slot ?s = ms_slot st"
    by (rule ext) (auto simp: ms_slot_def nth_append flow_extent_size_def less_Suc_eq not_less)
  moreover have "ms_wf ?s"
    using Suc.prems(2) mmalloc_live [OF a] by (auto simp: ms_wf_def ms_live_def extent_blocks_def)
  moreover have "never_refuses (ms_alk ?s)" using mmalloc_never_refuses(2) [OF Suc.prems(3) a] by simp
  ultimately obtain st' where "mmextent_add n ?s = (True, st')" "ms_wf st'" "never_refuses (ms_alk st')"
    "ms_extent st' = ms_extent ?s + n" "ms_slot st' = ms_slot st"
    using Suc.IH [of ?s] by metis
  then show ?case using a by (intro Suc.prems(1) [of st']) (simp_all add: mmextent_alloc_def)
qed

lemma ms_byte_slot: "ms_slot st' = ms_slot st \<Longrightarrow> ms_byte st' = ms_byte st"
  by (rule ext) (simp add: ms_byte_def)

text \<open>The extents the code asks for to reach an offset: one more when the offset is in the last block
  of its extent, and not at the start of it.\<close>

definition extents_for :: "nat \<Rightarrow> nat" where
  "extents_for x = Suc ((x + 511) div 512 div 64)"

lemma mmextent_resize_effect:
  assumes "ms_wf st" "never_refuses (ms_alk st)" "unat w + 512 \<le> 2 ^ 64"
  obtains st' where "mmextent_resize st w = (True, st')" "ms_wf st'" "never_refuses (ms_alk st')"
    "ms_extent st' = max (ms_extent st) (extents_for (unat w))" "ms_slot st' = ms_slot st"
proof -
  have "unat (drop_bit 6 (drop_bit 9 (flow_align_up w 9))) = (unat w + 511) div 512 div 64"
    using unat_align_up [OF assms(3)] by (simp add: unat_drop_bit)
  then have n: "1 + unat (drop_bit 6 (drop_bit 9 (flow_align_up w 9))) = extents_for (unat w)"
    by (simp add: extents_for_def)
  have r: "mmextent_resize st w = (if ms_extent st < extents_for (unat w)
      then mmextent_add (extents_for (unat w) - ms_extent st) st else (True, st))"
    by (simp only: mmextent_resize_def Let_def n)
  show ?thesis
  proof (cases "ms_extent st < extents_for (unat w)")
    case True
    obtain st' where "mmextent_add (extents_for (unat w) - ms_extent st) st = (True, st')" "ms_wf st'"
      "never_refuses (ms_alk st')" "ms_extent st' = ms_extent st + (extents_for (unat w) - ms_extent st)" "ms_slot st' = ms_slot st"
      using assms(1,2) by (rule mmextent_add_effect)
    with True show ?thesis by (intro that [of st']) (simp_all add: r)
  next
    case False
    then show ?thesis using assms that by (simp add: r)
  qed
qed


lemma filter_update_length:
  assumes "i < length xs"
  shows "length (filter P (xs[i := x])) + (if P (xs ! i) then 1 else 0) = length (filter P xs) + (if P x then 1 else 0)"
  using assms
proof (induction xs arbitrary: i)
  case (Cons y xs)
  then show ?case by (cases i) auto
qed simp

lemma sum_list_map_update:
  assumes "i < length xs"
  shows "sum_list (map f (xs[i := x])) + f (xs ! i) = sum_list (map f xs) + (f x :: nat)"
  using assms
proof (induction xs arbitrary: i)
  case (Cons y xs)
  then show ?case by (cases i) auto
qed simp

text \<open>A block put in its place: the store of one block.\<close>

lemma ms_put_effect:
  assumes "ms_wf st" "lc_extent (loc_at st x) \<noteq> None" "length b = 512"
    and "alk_live a = alk_live (ms_alk st) + (if ms_slot st (x div 512) = None then 1 else 0)"
  obtains st' where "ms_put (st\<lparr>ms_alk := a\<rparr>) (loc_at st x) b = Some st'" "ms_wf st'" "ms_alk st' = a"
    "ms_extent st' = ms_extent st" "ms_slot st' = (ms_slot st)(x div 512 := Some b)"
proof -
  let ?i = "x div 512 div 64" and ?j = "x div 512 mod 64"
  let ?e = "ms_list st ! ?i"
  let ?s = "st\<lparr>ms_list := (ms_list st)[?i := ?e[?j := Some b]], ms_alk := a\<rparr>"
  have i: "?i < length (ms_list st)" using assms(2) by (simp add: loc_at_def div_extent split: if_splits)
  then have e: "length ?e = 64" "\<And>b. Some b \<in> set ?e \<Longrightarrow> length b = 512"
    using assms(1) by (auto simp: ms_wf_def flow_extent_size_def flow_blk_size_def)
  have j: "?j < 64" by simp
  have "ms_put (st\<lparr>ms_alk := a\<rparr>) (loc_at st x) b = Some ?s"
    using i e(1) by (simp add: ms_put_def loc_at_def div_extent buf_get_Some buf_set_Some)
  moreover have "ms_slot ?s = (ms_slot st)(x div 512 := Some b)"
  proof (rule ext)
    fix k :: nat
    have "k = x div 512" if "k div 64 = ?i" "k mod 64 = ?j" using that by (metis div_mult_mod_eq)
    then show "ms_slot ?s k = ((ms_slot st)(x div 512 := Some b)) k"
      using i e(1) j by (auto simp: ms_slot_def flow_extent_size_def nth_list_update)
  qed
  moreover have "ms_wf ?s"
  proof -
    have old: "ms_slot st (x div 512) = ?e ! ?j" using i by (simp add: ms_slot_def flow_extent_size_def)
    have "extent_blocks (?e[?j := Some b]) = extent_blocks ?e + (if ?e ! ?j = None then 1 else 0)"
      using filter_update_length [of ?j ?e "\<lambda>b. b \<noteq> None" "Some b"] e(1) by (auto simp: extent_blocks_def split: if_splits)
    then have "ms_live ?s = ms_live st + (if ?e ! ?j = None then 1 else 0)"
      using sum_list_map_update [OF i, of extent_blocks "?e[?j := Some b]"] by (simp add: ms_live_def)
    then have l: "alk_live (ms_alk ?s) = int (ms_live ?s)" using assms(1,4) by (simp add: ms_wf_def old)
    have "length e = flow_extent_size \<and> (\<forall>b. Some b \<in> set e \<longrightarrow> length b = flow_blk_size)" if "e \<in> set (ms_list ?s)" for e
    proof -
      have "e \<in> set (ms_list st) \<or> e = ?e[?j := Some b]" using that set_update_subset_insert [of "ms_list st" ?i] by auto
      then show ?thesis
      proof
        assume "e \<in> set (ms_list st)"
        then show ?thesis using assms(1) by (simp add: ms_wf_def)
      next
        assume e': "e = ?e[?j := Some b]"
        have "length c = 512" if "Some c \<in> set (?e[?j := Some b])" for c
          using that set_update_subset_insert [of ?e ?j "Some b"] e(2) assms(3) by auto
        with e' e(1) show ?thesis by (simp add: flow_extent_size_def flow_blk_size_def)
      qed
    qed
    with l show ?thesis using assms(1) by (simp add: ms_wf_def)
  qed
  ultimately show ?thesis using that [of ?s] by simp
qed


lemma ms_wrote_block:
  assumes "ms_slot st' = (ms_slot st)(x div 512 := Some (splice b (x mod 512) xs))" "length b = 512"
    and "xs \<noteq> []" "x mod 512 + length xs \<le> 512"
    and "b = (case ms_slot st (x div 512) of None \<Rightarrow> replicate 512 0 | Some b \<Rightarrow> b)"
  shows "ms_wrote st st' x xs"
proof -
  obtain q r where x: "x = 512 * q + r" "r < 512" by (metis div_mult_mod_eq mod_less_divisor mult.commute zero_less_numeral)
  have qr: "x div 512 = q" "x mod 512 = r" using x by simp_all
  have "0 < length xs" using assms(3) by simp
  then obtain m where m: "length xs = Suc m" by (cases xs) auto
  then have "x + length xs - 1 = 512 * q + (r + m)" "r + m < 512" using x assms(4) qr by simp_all
  then have last: "(x + length xs - 1) div 512 = q" by simp
  show ?thesis unfolding ms_wrote_def last qr
  proof (rule allI)
    fix y :: nat
    obtain c d where y: "y = 512 * c + d" "d < 512" by (metis div_mult_mod_eq mod_less_divisor mult.commute zero_less_numeral)
    have cd: "y div 512 = c" "y mod 512 = d" using y by simp_all
    show "ms_byte st' y = (if x \<le> y \<and> y < x + length xs then Some (xs ! (y - x))
        else if xs \<noteq> [] \<and> q \<le> y div 512 \<and> y div 512 \<le> q then Some (case ms_byte st y of None \<Rightarrow> 0 | Some b \<Rightarrow> b)
        else ms_byte st y)"
    proof (cases "c = q")
      case True
      then have r: "x \<le> y \<and> y < x + length xs \<longleftrightarrow> r \<le> d \<and> d < r + length xs" "y - x = d - r" using x y by simp_all
      have "ms_byte st' y = Some (splice b r xs ! d)" using assms(1) qr cd True by (simp add: ms_byte_def flow_blk_size_def)
      also have "\<dots> = Some (if r \<le> d \<and> d < r + length xs then xs ! (d - r) else b ! d)"
        using assms(2,4) qr y(2) by (subst nth_splice) simp_all
      finally show ?thesis unfolding r using cd True assms(3,5) qr y(2)
        by (auto simp: ms_byte_def flow_blk_size_def split: option.splits)
    next
      case False
      then have "\<not> (x \<le> y \<and> y < x + length xs)" "\<not> (q \<le> c \<and> c \<le> q)" using x y assms(4) qr by linarith+
      moreover have "ms_byte st' y = ms_byte st y" using assms(1) qr cd False by (simp add: ms_byte_def flow_blk_size_def)
      ultimately show ?thesis unfolding cd by auto
    qed
  qed
qed

lemma ms_wrote_append:
  assumes "ms_wrote st st1 x xs" "ms_wrote st1 st2 (x + length xs) ys" "xs \<noteq> []" "x + length xs = 512 * (x div 512 + 1)"
  shows "ms_wrote st st2 x (xs @ ys)"
proof (cases "ys = []")
  case True
  then show ?thesis using assms by (simp add: ms_wrote_def)
next
  case False
  let ?q = "x div 512" and ?B = "x + length xs"
  have e: "(?B - 1) div 512 = ?q" "?B div 512 = ?q + 1" using assms(4) by simp_all
  have o: "x + length (xs @ ys) = ?B + length ys" by simp
  have qe: "?q + 1 \<le> (?B + length ys - 1) div 512"
    using e(2) False by (metis Suc_diff_1 add_diff_assoc div_le_mono le_add1 length_greater_0_conv Suc_leI One_nat_def)
  show ?thesis unfolding ms_wrote_def o
  proof (rule allI)
    fix y :: nat
    have yB: "y div 512 \<le> ?q \<longleftrightarrow> y < ?B" "?q + 1 \<le> y div 512 \<longleftrightarrow> ?B \<le> y"
      using div_less_iff_less_mult [of 512 y "?q + 1"] unfolding assms(4) mult.commute [of 512] by linarith+
    have 1: "ms_byte st1 y = (if x \<le> y \<and> y < ?B then Some (xs ! (y - x))
        else if ?q \<le> y div 512 \<and> y < ?B then Some (case ms_byte st y of None \<Rightarrow> 0 | Some b \<Rightarrow> b) else ms_byte st y)"
      using assms(1) [unfolded ms_wrote_def e(1)] assms(3) div_le_mono [of x y 512]
      by (auto simp: yB(1))
    have 2: "ms_byte st2 y = (if ?B \<le> y \<and> y < ?B + length ys then Some (ys ! (y - ?B))
        else if ?B \<le> y \<and> y div 512 \<le> (?B + length ys - 1) div 512
          then Some (case ms_byte st1 y of None \<Rightarrow> 0 | Some b \<Rightarrow> b) else ms_byte st1 y)"
      using spec [OF assms(2) [unfolded ms_wrote_def e(2)], of y] False unfolding yB(2) by simp
    show "ms_byte st2 y = (if x \<le> y \<and> y < ?B + length ys then Some ((xs @ ys) ! (y - x))
        else if xs @ ys \<noteq> [] \<and> ?q \<le> y div 512 \<and> y div 512 \<le> (?B + length ys - 1) div 512
          then Some (case ms_byte st y of None \<Rightarrow> 0 | Some b \<Rightarrow> b) else ms_byte st y)"
    proof (cases "y < ?B")
      case True
      then show ?thesis using 1 2 qe yB(1) assms(3) by (auto simp: nth_append)
    next
      case B: False
      then have "?q \<le> y div 512" "x \<le> y" using yB by simp_all
      moreover have "(xs @ ys) ! (y - x) = ys ! (y - ?B)" 
      proof -
        have "\<not> y - x < length xs" "y - x - length xs = y - ?B" using B by linarith+
        then show ?thesis by (simp only: nth_append if_False)
      qed
      moreover have "ms_byte st1 y = ms_byte st y" using 1 B by simp
      ultimately show ?thesis unfolding 2 using B assms(3) by (simp only: append_is_Nil_conv not_less simp_thms if_True)
    qed
  qed
qed


lemma loc_at_grown:
  assumes "length (ms_list st) \<le> length (ms_list st')" "lc_extent (loc_at st x) \<noteq> None"
  shows "loc_at st' x = loc_at st x"
  using assms by (simp add: loc_at_def split: if_splits)

lemma write_blocks_effect:
  assumes "ms_wf st" "never_refuses (ms_alk st)" "lc_extent (loc_at st x) \<noteq> None"
    and "n \<le> sz" "sz \<le> length buf" "unat off + sz + 512 \<le> 2 ^ 64" "x = unat off + n"
  obtains st' where "write_blocks st buf off (loc_at st x) sz n = Some (sz, st')" "ms_wf st'" "never_refuses (ms_alk st')"
    "ms_wrote st st' x (take (sz - n) (drop n buf))"
    "ms_extent st' = (if n < sz then max (ms_extent st) (extents_for (unat off + sz)) else ms_extent st)"
  using assms
proof (induction "sz - n" arbitrary: n x st thesis rule: less_induct)
  case less
  note wf = less.prems(2) and nr = less.prems(3) and ext = less.prems(4)
  show ?case
  proof (cases "n < sz")
    case False
    then show ?thesis using less.prems by (intro less.prems(1) [of st]) (simp_all add: write_blocks.simps)
  next
    case True
    let ?y = "x + (512 - x mod 512)"
    have m: "x mod 512 < 512" by simp
    define k where "k = min (sz - n) (512 - x mod 512)"
    have k: "0 < k" "k \<le> sz - n" "k \<le> 512 - x mod 512" using True m by (auto simp: k_def)
    define bs where "bs = take k (drop n buf)"
    have lbs: "length bs = k" using k less.prems(6) by (simp add: bs_def)
    define b where "b = (case ms_slot st (x div 512) of None \<Rightarrow> replicate 512 0 | Some b \<Rightarrow> b)"
    have lb: "length b = 512" using ms_wf_lists(1) [OF wf] by (simp add: b_def split: option.splits)
    obtain a where get: "(case ms_slot st (x div 512) of Some b \<Rightarrow> (Some b, st) | None \<Rightarrow> mmblk_alloc st) = (Some b, st\<lparr>ms_alk := a\<rparr>)"
      and live: "alk_live a = alk_live (ms_alk st) + (if ms_slot st (x div 512) = None then 1 else 0)"
      and nr_a: "never_refuses a"
    proof (cases "ms_slot st (x div 512)")
      case None
      obtain a where a: "mmalloc flow_blk_size (ms_alk st) = (True, a)"
        using mmalloc_never_refuses(1) [OF nr] by (metis (full_types) surj_pair)
      then show ?thesis using that [of a] None mmalloc_live [OF a] mmalloc_never_refuses(2) [OF nr a]
        by (simp add: mmblk_alloc_def b_def flow_blk_size_def)
    next
      case (Some c)
      then show ?thesis using that [of "ms_alk st"] nr by (simp add: b_def)
    qed
    have copied: "obj_copy b (x mod 512) buf n k = Some (splice b (x mod 512) bs)"
      using k less.prems(6) lb m by (simp add: obj_copy_Some bs_def)
    have "length (splice b (x mod 512) bs) = 512" using lb lbs k m by simp
    from ms_put_effect [OF wf ext this live]
    obtain st1 where put: "ms_put (st\<lparr>ms_alk := a\<rparr>) (loc_at st x) (splice b (x mod 512) bs) = Some st1"
      and st1: "ms_wf st1" "ms_alk st1 = a" "ms_extent st1 = ms_extent st"
        "ms_slot st1 = (ms_slot st)(x div 512 := Some (splice b (x mod 512) bs))" .
    have w1: "ms_wrote st st1 x bs" using st1(4) lb _ _ b_def
      by (rule ms_wrote_block) (use k lbs in auto)
    have "unat off + (n + k) < 2 ^ 64" using less.prems(5,7) k by linarith
    then have u: "unat (off + of_nat (n + k)) = x + k" using less.prems(8)
      by (simp add: unat_word_ariths unat_of_nat del: of_nat_add)
    have "unat (off + of_nat (n + k)) + 512 \<le> 2 ^ 64" unfolding u using less.prems(5,7,8) k by linarith
    from mmextent_resize_effect [OF st1(1) _ this]
    obtain st2 where rs: "mmextent_resize st1 (off + of_nat (n + k)) = (True, st2)"
      and st2: "ms_wf st2" "never_refuses (ms_alk st2)" "ms_extent st2 = max (ms_extent st) (extents_for (x + k))"
        "ms_slot st2 = ms_slot st1" using st1 nr_a u by metis
    have w2: "ms_wrote st st2 x bs" using w1 ms_byte_slot [OF st2(4)] by (simp add: ms_wrote_def)
    have len2: "length (ms_list st2) = ms_extent st2" "length (ms_list st) = ms_extent st"
      using wf st2(1) by (simp_all only: ms_wf_def)
    then have len: "length (ms_list st) \<le> length (ms_list st2)" "length (ms_list st2) = ms_extent st2"
      using st2(3) by simp_all
    then have loc: "loc_at st x = loc_at st2 x" using loc_at_grown [OF len(1) ext] by simp
    have next': "mmlocation_next st2 (loc_at st x) = Some (loc_at st2 ?y)" unfolding loc
      by (rule loc_next) (use ext loc in simp_all)
    have step: "write_blocks st buf off (loc_at st x) sz n =
        (if lc_extent (loc_at st2 ?y) = None then Some (n + k, st2) else write_blocks st2 buf off (loc_at st2 ?y) sz (n + k))"
      using True k(1) ms_block_at [OF wf ext] get copied put rs next'
      by (subst write_blocks.simps) (simp add: k_def [symmetric] loc_at_def [of st x] Let_def)
    show ?thesis
    proof (cases "k = sz - n")
      case True
      then have "n + k = sz" "unat off + sz = x + k" using less.prems(5,8) k by linarith+
      then have "write_blocks st buf off (loc_at st x) sz n = Some (sz, st2)"
        unfolding step by (simp add: write_blocks.simps)
      then show ?thesis using st2 w2 True \<open>n < sz\<close> \<open>unat off + sz = x + k\<close>
        by (intro less.prems(1) [of st2]) (simp_all add: bs_def)
    next
      case False
      then have y: "?y = x + k" by (simp add: k_def min_def split: if_splits)
      have "?y div 512 div 64 < length (ms_list st2)" unfolding len(2) st2(3) y
        by (simp add: extents_for_def less_max_iff_disj less_Suc_eq_le div_le_mono)
      then have e: "lc_extent (loc_at st2 ?y) \<noteq> None" by (simp add: loc_at_def div_extent)
      have nk: "n + k < sz" using False k by linarith
      obtain st' where st': "write_blocks st2 buf off (loc_at st2 ?y) sz (n + k) = Some (sz, st')" "ms_wf st'"
        "never_refuses (ms_alk st')" "ms_wrote st2 st' ?y (take (sz - (n + k)) (drop (n + k) buf))"
        "ms_extent st' = (if n + k < sz then max (ms_extent st2) (extents_for (unat off + sz)) else ms_extent st2)"
      proof (rule less.hyps [OF _ _ st2(1,2) e])
        show "sz - (n + k) < sz - n" "n + k \<le> sz" "?y = unat off + (n + k)"
          using nk k(1) y less.prems(8) by linarith+
      qed (use less.prems(6,7) in simp_all)
      have "ms_wrote st st' x (bs @ take (sz - (n + k)) (drop (n + k) buf))"
      proof (rule ms_wrote_append [OF w2])
        show "bs \<noteq> []" using lbs k(1) by auto
        show "x + length bs = 512 * (x div 512 + 1)" using next_block [OF y [symmetric]] lbs by auto
      qed (use st'(4) y lbs in simp)
      moreover have "take (sz - n) (drop n buf) = bs @ take (sz - (n + k)) (drop (n + k) buf)"
        unfolding bs_def using take_add_drop [of k "sz - n - k" n buf] k by (simp add: diff_diff_left)
      moreover have "max (ms_extent st2) (extents_for (unat off + sz)) = max (ms_extent st) (extents_for (unat off + sz))"
      proof -
        have "extents_for (x + k) \<le> extents_for (unat off + sz)"
          unfolding extents_for_def using less.prems(8) nk by (intro Suc_le_mono [THEN iffD2] div_le_mono) simp
        then show ?thesis using st2(3) by simp
      qed
      ultimately show ?thesis using st' step e nk True by (intro less.prems(1) [of st']) simp_all
    qed
  qed
qed


lemma trim_len:
  assumes "unat (n :: u32) < 2 ^ 31"
  shows "unat (n AND 0x7fffffff) = unat n"
proof -
  have "n AND mask 31 = take_bit 31 n" by (rule take_bit_eq_mask [symmetric, THEN trans]) simp
  moreover have "mask 31 = (0x7fffffff :: u32)" by (simp add: mask_eq_exp_minus_1)
  moreover have "unat (take_bit 31 n) = unat n"
    using assms by (simp only: unsigned_take_bit_eq take_bit_nat_eq_self)
  ultimately show ?thesis by simp
qed

lemma mmstream_write_effect:
  assumes "ms_wf st" "never_refuses (ms_alk st)" "unat n < 2 ^ 31" "unat n \<le> length buf" "unat w + unat n + 512 \<le> 2 ^ 64"
    and "located (max (ms_extent st) (extents_for (unat w))) (unat w div 32768)"
  obtains st' where "mmstream_write st buf w n = Some (int (unat n), st')" "ms_wf st'" "never_refuses (ms_alk st')"
    "ms_wrote st st' (unat w) (take (unat n) buf)"
    "ms_extent st' = (if n = 0 then ms_extent st else max (ms_extent st) (extents_for (unat w + unat n)))"
proof (cases "unat n = 0")
  case True
  then have "n = 0" by (simp add: unat_eq_zero)
  with True show ?thesis using assms trim_len [OF assms(3)] by (intro that [of st]) (simp_all add: mmstream_write_def)
next
  case False
  have "unat w + 512 \<le> 2 ^ 64" using assms(5) by linarith
  from mmextent_resize_effect [OF assms(1,2) this]
  obtain s1 where s1: "mmextent_resize st w = (True, s1)" "ms_wf s1" "never_refuses (ms_alk s1)"
    "ms_extent s1 = max (ms_extent st) (extents_for (unat w))" "ms_slot s1 = ms_slot st" .
  have l: "mmlocation_compute s1 w = Some (loc_at s1 (unat w))"
    using s1 assms(6) \<open>unat w + 512 \<le> 2 ^ 64\<close> by (intro mmlocation_compute_located) (simp_all add: ms_wf_def)
  have e: "lc_extent (loc_at s1 (unat w)) \<noteq> None"
    using assms(6) s1(2) unfolding s1(4) [symmetric] by (simp add: located_def loc_at_def ms_wf_def)
  obtain s2 where s2: "write_blocks s1 buf w (loc_at s1 (unat w)) (unat n) 0 = Some (unat n, s2)" "ms_wf s2"
    "never_refuses (ms_alk s2)" "ms_wrote s1 s2 (unat w) (take (unat n) buf)"
    "ms_extent s2 = max (ms_extent s1) (extents_for (unat w + unat n))"
    by (rule write_blocks_effect [OF s1(2,3) e _ assms(4,5)]) (use False in auto)
  have "extents_for (unat w) \<le> extents_for (unat w + unat n)"
    unfolding extents_for_def by (intro Suc_le_mono [THEN iffD2] div_le_mono) simp
  then have "ms_extent s2 = max (ms_extent st) (extents_for (unat w + unat n))" using s1(4) s2(5) by simp
  moreover have "ms_wrote st s2 (unat w) (take (unat n) buf)"
    using s2(4) ms_byte_slot [OF s1(5)] by (simp add: ms_wrote_def)
  moreover have "mmstream_write st buf w n = Some (int (unat n), s2)"
    using False s1(1) l s2(1) trim_len [OF assms(3)] by (simp add: mmstream_write_def)
  moreover have "n \<noteq> 0" using False by auto
  ultimately show ?thesis using s2(2,3) by (intro that [of s2]) simp_all
qed

lemma ms_bytes_wrote:
  assumes "ms_wrote st st' x xs"
  shows "ms_bytes st' x (length xs) = xs"
proof -
  have v: "ms_byte st' (x + j) = Some (xs ! j)" if "j < length xs" for j
    using assms that by (simp add: ms_wrote_def)
  have "ms_byte st' y \<noteq> None" if "x \<le> y" "y < x + length xs" for y using v [of "y - x"] that by simp
  then have "ms_bytes st' x (length xs) = map (\<lambda>y. the (ms_byte st' y)) [x..<x + length xs] @ ms_bytes st' (x + length xs) 0"
    using ms_bytes_split [of x "length xs" st' "length xs"] by simp
  also have "\<dots> = xs" by (rule nth_equalityI) (simp_all add: v ms_bytes_def)
  finally show ?thesis .
qed

subsection \<open>Clearing\<close>

lemma mmextent_free_live: "alk_live (mmextent_free e a) = alk_live a - int (extent_blocks e)"
proof -
  have "alk_live (fold (\<lambda>b a. if b \<noteq> None then mmfree a else a) e a) = alk_live a - int (length (filter (\<lambda>b. b \<noteq> None) e))"
    for e :: mmextent and a
    by (induction e arbitrary: a) auto
  note this [of "rev e" a]
  moreover have "length (filter (\<lambda>b. b \<noteq> None) (rev e)) = length (filter (\<lambda>b. b \<noteq> None) e)" by (simp add: rev_filter [symmetric])
  ultimately show ?thesis by (simp add: mmextent_free_def extent_blocks_def)
qed

lemma mmstream_free_balance: "alk_live (ms_alk (mmstream_free st)) = alk_live (ms_alk st) - int (ms_live st)"
proof -
  have "alk_live (fold mmextent_free es a) = alk_live a - int (sum_list (map extent_blocks es))" for es a
    by (induction es arbitrary: a) (simp_all add: mmextent_free_live)
  then show ?thesis by (simp add: mmstream_free_def mmstream_clear_def ms_live_def)
qed

lemma ms_wf_alloc: "alk_live a = 0 \<Longrightarrow> ms_wf (mmstream_alloc a)"
  by (simp add: ms_wf_def mmstream_alloc_def ms_live_def)

text \<open>A stream of five extents is searched correctly, one of six is not.\<close>

lemma located_five: "i < n \<Longrightarrow> n \<le> 5 \<Longrightarrow> located n i"
  unfolding located_def by presburger

lemma sixth_extent_misplaced:
  assumes "ms_wf st" "ms_extent st = 6"
  shows "mmextent_at st 4 = Some (Some 3)"
  using mmextent_at_early [of st 4] assms by (simp add: ms_wf_def located_def)

text \<open>The start of an extent as the new end of the stream: the extent is released and then read.\<close>

lemma truncate_at_extent_faults:
  assumes "ms_wf st" "0 < ms_extent st"
  shows "mmstream_truncate st 0 = None"
proof -
  have "mmlocation_compute st 0 = Some (loc_at st 0)"
    using mmlocation_compute_located [of st 0] assms by (simp add: ms_wf_def located_def)
  then show ?thesis using assms
    by (simp add: mmstream_truncate_def loc_at_def ms_wf_def buf_get_def)
qed


subsection \<open>Truncating\<close>

definition ms_zeroed :: "mmstream \<Rightarrow> mmstream \<Rightarrow> nat \<Rightarrow> bool" where
  "ms_zeroed st st' x \<longleftrightarrow>
     (\<forall>y. ms_byte st' y = (if x \<le> y then map_option (\<lambda>_. 0) (ms_byte st y) else ms_byte st y))"

lemma zero_block_effect:
  assumes "ms_wf st" "lc_extent (loc_at st x) \<noteq> None" "y = x + (512 - x mod 512)"
  obtains st' where
    "(case ms_slot st (x div 512) of
        None \<Rightarrow> Some st
      | Some b \<Rightarrow> do { b \<leftarrow> buf_write b (x mod 512) (replicate (512 - x mod 512) 0); ms_put st (loc_at st x) b }) = Some st'"
    "ms_wf st'" "ms_extent st' = ms_extent st"
    "\<And>z. ms_byte st' z = (if x \<le> z \<and> z < y then map_option (\<lambda>_. 0) (ms_byte st z) else ms_byte st z)"
proof (cases "ms_slot st (x div 512)")
  case None
  have blk: "z div 512 = x div 512" if "x \<le> z" "z < y" for z
  proof -
    obtain q r where x: "x = 512 * q + r" "r < 512" by (metis div_mult_mod_eq mod_less_divisor mult.commute zero_less_numeral)
    obtain c d where z: "z = 512 * c + d" "d < 512" by (metis div_mult_mod_eq mod_less_divisor mult.commute zero_less_numeral)
    have "x mod 512 = r" using x by simp
    then have "c = q" using that x z assms(3) by (intro order_antisym; linarith)
    then show ?thesis using x z by simp
  qed
  have "ms_byte st z = None" if "x \<le> z" "z < y" for z
    unfolding ms_byte_def flow_blk_size_def blk [OF that] None by simp
  then have "ms_byte st z = (if x \<le> z \<and> z < y then map_option (\<lambda>_. 0) (ms_byte st z) else ms_byte st z)" for z by simp
  then show ?thesis using None assms(1) by (intro that [of st]) simp_all
next
  case (Some b)
  have lb: "length b = 512" using ms_wf_lists(1) [OF assms(1) Some] .
  let ?b = "splice b (x mod 512) (replicate (512 - x mod 512) 0)"
  have m: "x mod 512 < 512" by simp
  have "length ?b = 512" using lb m by simp
  from ms_put_effect [OF assms(1,2) this, of "ms_alk st"] Some
  obtain st' where p: "ms_put st (loc_at st x) ?b = Some st'" and st': "ms_wf st'" "ms_extent st' = ms_extent st"
    "ms_slot st' = (ms_slot st)(x div 512 := Some ?b)" by auto
  have w: "buf_write b (x mod 512) (replicate (512 - x mod 512) 0) = Some ?b" using lb m by (simp add: buf_write_Some)
  obtain q r where x: "x = 512 * q + r" "r < 512" by (metis div_mult_mod_eq mod_less_divisor mult.commute zero_less_numeral)
  have qr: "x div 512 = q" "x mod 512 = r" using x by simp_all
  have "ms_byte st' z = (if x \<le> z \<and> z < y then map_option (\<lambda>_. 0) (ms_byte st z) else ms_byte st z)" for z
  proof -
    obtain c d where z: "z = 512 * c + d" "d < 512" by (metis div_mult_mod_eq mod_less_divisor mult.commute zero_less_numeral)
    have cd: "z div 512 = c" "z mod 512 = d" using z by simp_all
    show ?thesis
    proof (cases "c = q")
      case True
      have "x \<le> z \<and> z < y \<longleftrightarrow> r \<le> d" using x z True assms(3) qr by auto
      moreover have "splice b r (replicate (512 - r) 0) ! d = (if r \<le> d then 0 else b ! d)"
        using lb x(2) z(2) by (subst nth_splice) auto
      ultimately show ?thesis using st'(3) Some qr cd True by (simp add: ms_byte_def flow_blk_size_def)
    next
      case False
      then have "\<not> (x \<le> z \<and> z < y)" using x z assms(3) qr by linarith
      moreover have "ms_byte st' z = ms_byte st z" using st'(3) qr cd False by (simp add: ms_byte_def flow_blk_size_def)
      ultimately show ?thesis by (simp only: if_False)
    qed
  qed
  then show ?thesis using Some p w st'(1,2) by (intro that [of st']) simp_all
qed

lemma zero_rest_effect:
  assumes "ms_wf st" "lc_extent (loc_at st x) = Some i" "i + 1 = length (ms_list st)" "64 - x div 512 mod 64 \<le> fuel"
  shows "\<exists>l st'. zero_rest fuel (Some i) st (loc_at st x) = Some (l, st') \<and> lc_extent l = None \<and> ms_wf st'
      \<and> ms_extent st' = ms_extent st \<and> ms_zeroed st st' x"
  using assms
proof (induction fuel arbitrary: st x)
  case 0
  have "x div 512 mod 64 < 64" by simp
  with 0 show ?case by linarith
next
  case (Suc fuel)
  let ?y = "x + (512 - x mod 512)"
  have ext: "lc_extent (loc_at st x) \<noteq> None" using Suc.prems(2) by simp
  obtain st1 where st1: "(case ms_slot st (x div 512) of
        None \<Rightarrow> Some st
      | Some b \<Rightarrow> do { b \<leftarrow> buf_write b (x mod 512) (replicate (512 - x mod 512) 0); ms_put st (loc_at st x) b }) = Some st1"
    "ms_wf st1" "ms_extent st1 = ms_extent st"
    "\<And>z. ms_byte st1 z = (if x \<le> z \<and> z < ?y then map_option (\<lambda>_. 0) (ms_byte st z) else ms_byte st z)"
    using zero_block_effect [OF Suc.prems(1) ext refl] by metis
  have len: "length (ms_list st1) = length (ms_list st)" using Suc.prems(1) st1(2,3) by (simp add: ms_wf_def)
  then have loc: "loc_at st1 x = loc_at st x" using ext by (intro loc_at_grown) simp_all
  have nx: "mmlocation_next st1 (loc_at st x) = Some (loc_at st1 ?y)"
    using loc_next [of st1 x ?y] ext unfolding loc by simp
  have step: "zero_rest (Suc fuel) (Some i) st (loc_at st x) =
      (if lc_extent (loc_at st1 ?y) = Some i then zero_rest fuel (Some i) st1 (loc_at st1 ?y) else Some (loc_at st1 ?y, st1))"
    by (simp only: zero_rest.simps ms_block_at [OF Suc.prems(1) ext] loc_at_simps st1(1) nx Option.bind.bind_lunit)
  have i: "i = x div 512 div 64" using Suc.prems(2) by (simp add: loc_at_def div_extent split: if_splits)
  have yd: "?y div 512 = x div 512 + 1" using next_block [OF refl, of x] by simp
  show ?case
  proof (cases "lc_extent (loc_at st1 ?y) = Some i")
    case True
    then have same: "?y div 512 div 64 = x div 512 div 64" using i by (simp add: loc_at_def div_extent split: if_splits)
    then have "?y div 512 mod 64 = x div 512 mod 64 + 1"
      using next_of_64 [of "x div 512"] unfolding yd by (simp split: if_splits)
    then have "64 - ?y div 512 mod 64 \<le> fuel" using Suc.prems(4) by linarith
    then obtain l st' where r: "zero_rest fuel (Some i) st1 (loc_at st1 ?y) = Some (l, st')" "lc_extent l = None" "ms_wf st'"
      "ms_extent st' = ms_extent st1" "ms_zeroed st1 st' ?y"
      using Suc.IH [OF st1(2) True] Suc.prems(3) len by metis
    moreover have xy: "x \<le> ?y" by simp
    moreover have "ms_zeroed st st' x" unfolding ms_zeroed_def
    proof (rule allI)
      fix z
      show "ms_byte st' z = (if x \<le> z then map_option (\<lambda>_. 0) (ms_byte st z) else ms_byte st z)"
        using spec [OF r(5) [unfolded ms_zeroed_def st1(4)], of z]
        by (cases "?y \<le> z"; cases "x \<le> z") (use xy in \<open>auto simp: option.map_comp comp_def\<close>)
    qed
    ultimately show ?thesis unfolding step using True st1(3) by auto
  next
    case False
    have "x div 512 div 64 \<le> ?y div 512 div 64" by (simp add: div_le_mono)
    with False have last: "\<not> ?y div 512 div 64 < length (ms_list st1)"
      using i Suc.prems(3) len by (auto simp: loc_at_def div_extent)
    then have e: "lc_extent (loc_at st1 ?y) = None" by (simp only: loc_at_def div_extent if_False mmlocation.simps)
    have none: "ms_byte st z = None" if "?y \<le> z" for z
    proof (rule ms_byte_no_extent)
      have "?y div 512 div 64 \<le> z div 512 div 64" using that by (intro div_le_mono)
      then show "\<not> z div 32768 < length (ms_list st)" using last len unfolding div_extent by linarith
    qed
    have "ms_zeroed st st1 x" unfolding ms_zeroed_def st1(4)
    proof (rule allI)
      fix z
      show "(if x \<le> z \<and> z < ?y then map_option (\<lambda>_. 0) (ms_byte st z) else ms_byte st z)
          = (if x \<le> z then map_option (\<lambda>_. 0) (ms_byte st z) else ms_byte st z)"
        using none [of z] by (cases "z < ?y") simp_all
    qed
    then show ?thesis unfolding step using e st1(2,3) by auto
  qed
qed

lemma truncate_effect:
  assumes "ms_wf st" "unat w + 512 \<le> 2 ^ 64" "unat w div 32768 + 1 = ms_extent st" "unat w mod 32768 \<noteq> 0"
  obtains st' where "mmstream_truncate st w = Some st'" "ms_wf st'" "ms_zeroed st st' (unat w)"
proof -
  have n: "ms_extent st = length (ms_list st)" using assms(1) by (simp add: ms_wf_def)
  have l: "mmlocation_compute st w = Some (loc_at st (unat w))"
    using assms(2,3) n by (intro mmlocation_compute_located) (simp_all add: located_def)
  have i: "lc_extent (loc_at st (unat w)) = Some (unat w div 32768)" using assms(3) n by (simp add: loc_at_def)
  obtain l' st' where r: "zero_rest 64 (Some (unat w div 32768)) st (loc_at st (unat w)) = Some (l', st')" "lc_extent l' = None"
    "ms_wf st'" "ms_zeroed st st' (unat w)"
    using zero_rest_effect [OF assms(1) i, of 64] assms(3) n by auto
  have "unat w mod 512 \<noteq> 0 \<or> unat w div 512 mod 64 \<noteq> 0"
    using assms(4) mod_mult2_eq [of "unat w" 512 64] by auto
  then have "mmstream_truncate st w = Some st'"
    using l i r(1,2) by (simp add: mmstream_truncate_def flow_extent_size_def) (auto simp: loc_at_def)
  then show ?thesis using r(3,4) that by blast
qed

end
