(* ===== verification/Sparse_Properties.thy ===== *)
theory Sparse_Properties
  imports Mm_Stream
begin

section \<open>Properties of mmstream.c\<close>

text \<open>
  What the operations of a sparse stream do to the file it stands for (\<open>ms_byte\<close>), as far as the
  extents are found from their number (\<open>located\<close>), and the round trip on the streams where they
  always are.
\<close>

text \<open>C19. A write puts the bytes at their offset, creates the blocks they are in, filled with zeros
  elsewhere, and changes no other byte; it says how many extents there are afterwards. From an
  extent that is found, a read returns the bytes up to the first one in a block never written.\<close>

theorem mmstream_write_correct:
  assumes "ms_wf st" "never_refuses (ms_alk st)" "unat n < 2 ^ 31" "unat n \<le> length buf" "unat w + unat n + 512 \<le> 2 ^ 64"
    and "located (max (ms_extent st) (extents_for (unat w))) (unat w div 32768)"
  shows "\<exists>st'. mmstream_write st buf w n = Some (int (unat n), st') \<and> ms_wf st' \<and> never_refuses (ms_alk st')
    \<and> ms_wrote st st' (unat w) (take (unat n) buf)
    \<and> ms_extent st' = (if n = 0 then ms_extent st else max (ms_extent st) (extents_for (unat w + unat n)))
    \<and> (\<forall>v m. located (ms_extent st') (unat v div 32768) \<longrightarrow> unat v + 512 \<le> 2 ^ 64 \<longrightarrow>
         mmstream_read st' v m = Some (ms_bytes st' (unat v) (unat (m AND 0x7fffffff))))"
proof -
  obtain st' where "mmstream_write st buf w n = Some (int (unat n), st')" "ms_wf st'" "never_refuses (ms_alk st')"
    "ms_wrote st st' (unat w) (take (unat n) buf)"
    "ms_extent st' = (if n = 0 then ms_extent st else max (ms_extent st) (extents_for (unat w + unat n)))"
    using assms by (rule mmstream_write_effect)
  then show ?thesis using mmstream_read_effect [of st'] by (intro exI [of _ st']) simp
qed

definition one_extent :: mmstream where
  "one_extent = \<lparr>ms_list = [replicate 64 None], ms_extent = 1, ms_alk = alk_generous\<lparr>alk_live := 1\<rparr>\<rparr>"

lemma one_extent_wf: "ms_wf one_extent" "never_refuses (ms_alk one_extent)"
  by (simp_all add: ms_wf_def one_extent_def ms_live_def extent_blocks_def flow_extent_size_def never_refuses_def alk_generous_def)

lemma mmstream_write_correct_witness:
  "\<exists>st'. mmstream_write one_extent [1, 2, 3] 511 3 = Some (3, st') \<and> ms_byte st' 511 = Some 1 \<and> ms_byte st' 512 = Some 2
     \<and> ms_byte st' 510 = Some 0 \<and> ms_byte st' 1024 = None"
proof -
  obtain st' where "mmstream_write one_extent [1, 2, 3] 511 3 = Some (3, st')" "ms_wrote one_extent st' 511 [1, 2, 3]"
    using mmstream_write_correct [of one_extent 3 "[1, 2, 3]" 511] one_extent_wf
    by (auto simp: located_def one_extent_def extents_for_def)
  moreover have "ms_byte one_extent k = None" for k
    by (simp add: ms_byte_def ms_slot_def one_extent_def flow_extent_size_def)
  ultimately show ?thesis by (intro exI [of _ st']) (simp add: ms_wrote_def)
qed

text \<open>C20. In a stream of at most five extents (160 KB), the range written included, what a write has
  put in is what a read gives back, the blocks outside the range are as they were, and freeing the
  stream releases everything.\<close>

theorem mmstream_roundtrip:
  assumes "ms_wf st" "never_refuses (ms_alk st)" "0 < unat n" "unat n < 2 ^ 31" "unat n \<le> length buf"
    and "ms_extent st \<le> 5" "extents_for (unat w + unat n) \<le> 5"
  shows "\<exists>st'. mmstream_write st buf w n = Some (int (unat n), st') \<and> ms_wf st' \<and> ms_extent st' \<le> 5
    \<and> mmstream_read st' w n = Some (take (unat n) buf)
    \<and> (\<forall>y. y div 512 < unat w div 512 \<or> (unat w + unat n - 1) div 512 < y div 512 \<longrightarrow> ms_byte st' y = ms_byte st y)
    \<and> alk_live (ms_alk (mmstream_free st')) = 0"
proof -
  have lim: "unat w + unat n + 511 < 5 * 32768"
    using assms(7) by (simp add: extents_for_def less_Suc_eq_le [symmetric] div_less_iff_less_mult)
  have i: "unat w div 32768 < extents_for (unat w)" "extents_for (unat w) \<le> extents_for (unat w + unat n)"
    unfolding extents_for_def div_extent by (simp_all add: less_Suc_eq_le div_le_mono)
  then have l: "located (max (ms_extent st) (extents_for (unat w))) (unat w div 32768)"
    using assms(6,7) by (intro located_five) auto
  have "unat w + unat n + 512 \<le> 2 ^ 64" using lim by simp
  from mmstream_write_effect [OF assms(1,2,4,5) this l]
  obtain st' where st': "mmstream_write st buf w n = Some (int (unat n), st')" "ms_wf st'"
    "ms_wrote st st' (unat w) (take (unat n) buf)"
    and "ms_extent st' = (if n = 0 then ms_extent st else max (ms_extent st) (extents_for (unat w + unat n)))"
    by metis
  then have e: "ms_extent st' = max (ms_extent st) (extents_for (unat w + unat n))" using assms(3) by auto
  have "located (ms_extent st') (unat w div 32768)" using e i assms(6,7) by (intro located_five) auto
  then have "mmstream_read st' w n = Some (ms_bytes st' (unat w) (unat n))"
    using mmstream_read_effect [OF st'(2)] lim trim_len [OF assms(4)] by simp
  moreover have "ms_bytes st' (unat w) (unat n) = take (unat n) buf"
    using ms_bytes_wrote [OF st'(3)] assms(5) by simp
  moreover have "ms_byte st' y = ms_byte st y" if "y div 512 < unat w div 512 \<or> (unat w + unat n - 1) div 512 < y div 512" for y
  proof -
    have "\<not> (unat w \<le> y \<and> y < unat w + unat n)"
      using that div_le_mono [of "unat w" y 512] div_le_mono [of y "unat w + unat n - 1" 512] by linarith
    then show ?thesis using st'(3) that assms(5) by (auto simp: ms_wrote_def)
  qed
  moreover have "alk_live (ms_alk (mmstream_free st')) = 0" using st'(2) by (simp add: mmstream_free_balance ms_wf_def)
  ultimately show ?thesis using st' e assms(6,7) by (intro exI [of _ st']) simp
qed

lemma mmstream_roundtrip_witness:
  "\<exists>st'. mmstream_write (mmstream_alloc alk_generous) [1, 2, 3] 511 3 = Some (3, st') \<and> mmstream_read st' 511 3 = Some [1, 2, 3]"
  using mmstream_roundtrip [of "mmstream_alloc alk_generous" 3 "[1, 2, 3]" 511] ms_wf_alloc [of alk_generous]
  by (auto simp: mmstream_alloc_def extents_for_def alk_generous_def never_refuses_def)

text \<open>Truncating inside the last extent zeroes the bytes from the new end on and keeps the others; truncating
  to the start of the stream releases it and then reads it, a fault.\<close>

theorem mmstream_truncate_correct:
  assumes "ms_wf st" "unat w + 512 \<le> 2 ^ 64" "unat w div 32768 + 1 = ms_extent st" "unat w mod 32768 \<noteq> 0"
  shows "\<exists>st'. mmstream_truncate st w = Some st' \<and> ms_wf st' \<and> ms_zeroed st st' (unat w)"
    and "mmstream_truncate st 0 = None"
  using truncate_effect [OF assms] truncate_at_extent_faults [OF assms(1)] assms(3) by auto

lemma mmstream_truncate_correct_witness:
  "(\<exists>st'. mmstream_truncate one_extent 100 = Some st' \<and> ms_wf st') \<and> mmstream_truncate one_extent 0 = None"
  using mmstream_truncate_correct [of one_extent 100] one_extent_wf by (auto simp: one_extent_def)

end
