(* ===== verification/Mem_Pool.thy ===== *)
theory Mem_Pool
  imports Byte_Memory
begin

section \<open>mpool.c\<close>

text \<open>
  src/mpool: blocks cut out of one memory area. Every block has a header of 32 bits in front, its
  size and, in the highest bit, whether it is in use. The area is a byte memory, a pointer into it
  an offset; \<open>end\<close> is the number of its bytes the pool was given.
\<close>

subsection \<open>The operations\<close>

record mpool =
  mp_mem :: "u8 list"
  mp_size :: u32
  mp_free :: u32

definition chunk_size_of :: "u32 \<Rightarrow> u32" where
  "chunk_size_of h = h AND 0x7fffffff"

definition chunk_used :: "u32 \<Rightarrow> bool" where
  "chunk_used h \<longleftrightarrow> drop_bit 31 h \<noteq> 0"

definition hdr_get :: "mpool \<Rightarrow> nat \<Rightarrow> u32 option" where
  "hdr_get s p = load (mp_mem s) p"

definition hdr_put :: "mpool \<Rightarrow> nat \<Rightarrow> u32 \<Rightarrow> mpool option" where
  "hdr_put s p h = map_option (\<lambda>m. s\<lparr>mp_mem := m\<rparr>) (store (mp_mem s) p h)"

definition mpool_init :: "u8 list \<Rightarrow> u32 \<Rightarrow> mpool option" where
  "mpool_init mem sz =
     (let s = \<lparr>mp_mem = mem, mp_size = sz, mp_free = sz - 4\<rparr>
      in hdr_put s 0 (mp_free s AND 0x7fffffff))"

text \<open>
  The loop that joins a free block with the free ones behind it until it is large enough:
  \<open>Enough\<close>, \<open>Blocked\<close> by a block in use, whose place and size it says, or \<open>AtEnd\<close>. On a damaged
  area it need not end; \<open>fuel\<close> bounds the number of blocks joined.
\<close>

datatype merged = Enough u32 | Blocked nat u32 | AtEnd

fun merge_free :: "nat \<Rightarrow> mpool \<Rightarrow> nat \<Rightarrow> u32 \<Rightarrow> u32 \<Rightarrow> (merged \<times> mpool) option" where
  "merge_free 0 s p sz chunk_size = None"
| "merge_free (Suc fuel) s p sz chunk_size =
     (if chunk_size < sz
      then
        let np = p + unat chunk_size + 4
        in if np < unat (mp_size s)
           then do {
             nh \<leftarrow> hdr_get s np;
             if chunk_used nh then Some (Blocked np (chunk_size_of nh), s)
             else do {
               h \<leftarrow> hdr_get s p;
               let h = h + nh + 4;
               s \<leftarrow> hdr_put (s\<lparr>mp_free := mp_free s + 4\<rparr>) p h;
               merge_free fuel s p sz (chunk_size_of h)
             }
           }
           else Some (AtEnd, s)
      else Some (Enough chunk_size, s))"

definition take_chunk :: "mpool \<Rightarrow> nat \<Rightarrow> u32 \<Rightarrow> u32 \<Rightarrow> mpool option" where
  "take_chunk s p sz chunk_size =
     do {
       s \<leftarrow> hdr_put s p (sz OR 0x80000000);
       s \<leftarrow> (if chunk_size > sz
             then do {
               s \<leftarrow> hdr_put s (p + 4 + unat sz) ((chunk_size - sz - 4) AND 0x7fffffff);
               Some (s\<lparr>mp_free := mp_free s - 4\<rparr>)
             }
             else Some s);
       Some (s\<lparr>mp_free := mp_free s - sz\<rparr>)
     }"

fun alloc_scan :: "nat \<Rightarrow> mpool \<Rightarrow> nat \<Rightarrow> u32 \<Rightarrow> (nat option \<times> mpool) option" where
  "alloc_scan 0 s p sz = None"
| "alloc_scan (Suc fuel) s p sz =
     (if p < unat (mp_size s)
      then do {
        h \<leftarrow> hdr_get s p;
        if chunk_used h then alloc_scan fuel s (p + unat (chunk_size_of h) + 4) sz
        else do {
          (r, s) \<leftarrow> merge_free (Suc (unat (mp_size s))) s p sz (chunk_size_of h);
          case r of
            Blocked np n \<Rightarrow> alloc_scan fuel s (np + unat n + 4) sz
          | AtEnd \<Rightarrow> Some (None, s)
          | Enough n \<Rightarrow> do { s \<leftarrow> take_chunk s p sz n; Some (Some (p + 4), s) }
        }
      }
      else Some (None, s))"

text \<open>The value is the address of the block, None for NULL.\<close>

definition mpool_alloc :: "mpool \<Rightarrow> u32 \<Rightarrow> (nat option \<times> mpool) option" where
  "mpool_alloc s sz = alloc_scan (Suc (unat (mp_size s))) s 0 sz"

definition mpool_free :: "mpool \<Rightarrow> nat option \<Rightarrow> mpool option" where
  "mpool_free s block =
     (case block of
        None \<Rightarrow> Some s
      | Some b \<Rightarrow>
          if b < 4 then None
          else do {
            h \<leftarrow> hdr_get s (b - 4);
            let h = h AND 0x7fffffff;
            s \<leftarrow> hdr_put s (b - 4) h;
            let s = s\<lparr>mp_free := mp_free s + h\<rparr>;
            oh \<leftarrow> hdr_get s (b + unat h);
            if \<not> chunk_used oh
            then do {
              s \<leftarrow> hdr_put s (b - 4) (h + (oh + 4));
              Some (s\<lparr>mp_free := mp_free s + 4\<rparr>)
            }
            else Some s
          })"

text \<open>The number of bytes copied to the new block is the whole header, the mark included.\<close>

definition realloc_move :: "mpool \<Rightarrow> nat \<Rightarrow> u32 \<Rightarrow> (nat option \<times> mpool) option" where
  "realloc_move s b sz =
     do {
       (r, s) \<leftarrow> mpool_alloc s sz;
       case r of
         None \<Rightarrow> Some (None, s)
       | Some nb \<Rightarrow>
           do {
             h \<leftarrow> hdr_get s (b - 4);
             m \<leftarrow> obj_copy (mp_mem s) nb (mp_mem s) b (unat h);
             s \<leftarrow> mpool_free (s\<lparr>mp_mem := m\<rparr>) (Some b);
             Some (Some nb, s)
           }
     }"

definition realloc_shrink :: "mpool \<Rightarrow> nat \<Rightarrow> u32 \<Rightarrow> u32 \<Rightarrow> mpool option" where
  "realloc_shrink s b h sz =
     (let diff_size = chunk_size_of h - sz
      in if diff_size \<le> 8 then Some s
         else do {
           s \<leftarrow> hdr_put s (b + unat sz) ((h - sz - 4) AND 0x7fffffff);
           s \<leftarrow> hdr_put s (b - 4) (sz OR 0x80000000);
           Some (s\<lparr>mp_free := mp_free s + (diff_size - 4)\<rparr>)
         })"

definition mpool_realloc :: "mpool \<Rightarrow> nat option \<Rightarrow> u32 \<Rightarrow> (nat option \<times> mpool) option" where
  "mpool_realloc s block sz =
     (case block of
        None \<Rightarrow> mpool_alloc s sz
      | Some b \<Rightarrow>
          if sz = 0 then do { s \<leftarrow> mpool_free s block; Some (None, s) }
          else if b < 4 then None
          else do {
            h \<leftarrow> hdr_get s (b - 4);
            let chunk_size = chunk_size_of h;
            if sz < chunk_size then do { s \<leftarrow> realloc_shrink s b h sz; Some (block, s) }
            else do {
              let diff_size = sz - chunk_size;
              oh \<leftarrow> hdr_get s (b + unat chunk_size);
              if chunk_used oh \<or> diff_size \<ge> oh + 4 then realloc_move s b sz
              else do {
                let h = h + (chunk_size_of oh + 4);
                let rest = chunk_size_of h - sz;
                s \<leftarrow> hdr_put s (b - 4) h;
                let s = s\<lparr>mp_free := mp_free s - diff_size\<rparr>;
                if rest \<le> 8 then Some (block, s\<lparr>mp_free := mp_free s - 4\<rparr>)
                else do {
                  s \<leftarrow> hdr_put s (b + unat sz) ((rest - 4) AND 0x7fffffff);
                  s \<leftarrow> hdr_put s (b - 4) (sz OR 0x80000000);
                  Some (block, s)
                }
              }
            }
          })"

subsection \<open>Headers\<close>

definition chunk_hdr :: "bool \<Rightarrow> nat \<Rightarrow> u32" where
  "chunk_hdr u n = of_nat n OR (if u then 0x80000000 else 0)"

lemma low31: "chunk_size_of h = take_bit 31 h"
proof -
  have "mask 31 = (0x7fffffff :: u32)" by (simp add: mask_eq_exp_minus_1)
  then show ?thesis by (simp add: chunk_size_of_def take_bit_eq_mask)
qed

lemma bit_top: "bit (0x80000000 :: u32) i \<longleftrightarrow> i = 31"
proof -
  have "(0x80000000 :: u32) = 2 ^ 31" by simp
  then show ?thesis by (simp only: bit_exp_iff possible_bit_word) auto
qed

lemma bit_small:
  assumes "n < 2 ^ 31" "bit (n :: nat) i"
  shows "i < 31"
proof -
  have "take_bit 31 n = n" using assms(1) by (simp add: take_bit_nat_eq_self)
  with assms(2) show ?thesis by (metis bit_take_bit_iff)
qed

lemma chunk_hdr_simps:
  assumes "n < 2 ^ 31"
  shows "chunk_size_of (chunk_hdr u n) = of_nat n" "chunk_used (chunk_hdr u n) = u"
    "chunk_hdr u n AND 0x7fffffff = of_nat n" "unat (of_nat n :: u32) = n"
proof -
  show s: "chunk_size_of (chunk_hdr u n) = of_nat n"
    unfolding low31 chunk_hdr_def by (rule bit_word_eqI) (auto simp: bit_simps bit_top simp del: bit_numeral_word_iff dest: bit_small [OF assms])
  show "chunk_hdr u n AND 0x7fffffff = of_nat n" using s by (simp add: chunk_size_of_def)
  show "unat (of_nat n :: u32) = n" using assms by (simp add: unat_of_nat take_bit_nat_eq_self)
  have "\<not> bit (of_nat n :: u32) 31" using bit_small [OF assms, of 31] by (auto simp: bit_simps)
  then have b: "bit (chunk_hdr u n) 31 = u" by (simp only: chunk_hdr_def bit_or_iff) (simp only: bit_top bit_0_eq bot_fun_def bot_bool_def simp_thms split: if_splits)
  have "drop_bit 31 (chunk_hdr u n) \<noteq> 0 \<longleftrightarrow> bit (chunk_hdr u n) 31"
  proof
    assume "drop_bit 31 (chunk_hdr u n) \<noteq> 0"
    then obtain i where i: "bit (drop_bit 31 (chunk_hdr u n)) i" by (metis bit_0_eq bit_eqI zero_neq_one bot_apply bot_bool_def)
    then have "bit (chunk_hdr u n) (31 + i)" by (simp add: bit_drop_bit_eq)
    moreover from this have "31 + i < LENGTH(32)" by (rule bit_imp_le_length)
    ultimately show "bit (chunk_hdr u n) 31" by simp
  next
    assume "bit (chunk_hdr u n) 31"
    then have "bit (drop_bit 31 (chunk_hdr u n)) 0" by (simp add: bit_drop_bit_eq)
    then show "drop_bit 31 (chunk_hdr u n) \<noteq> 0" by auto
  qed
  with b show "chunk_used (chunk_hdr u n) = u" by (simp add: chunk_used_def)
qed

lemma chunk_hdr_used: "sz OR 0x80000000 = chunk_hdr True (unat sz)"
  by (simp add: chunk_hdr_def)

lemma chunk_hdr_free: "chunk_hdr False n = of_nat n"
  by (simp add: chunk_hdr_def)

subsection \<open>The blocks of a pool\<close>

text \<open>\<open>laid m p cs e\<close>: between \<open>p\<close> and \<open>e\<close> are the blocks \<open>cs\<close>, each given by whether it is used
  and its size. \<open>in_use\<close> lists the used ones with their bytes.\<close>

type_synonym chunk = "bool \<times> nat"

fun laid :: "u8 list \<Rightarrow> nat \<Rightarrow> chunk list \<Rightarrow> nat \<Rightarrow> bool" where
  "laid m p [] e \<longleftrightarrow> p = e"
| "laid m p ((u, n) # cs) e \<longleftrightarrow> load m p = Some (chunk_hdr u n) \<and> laid m (p + (4 + n)) cs e"

fun in_use :: "u8 list \<Rightarrow> nat \<Rightarrow> chunk list \<Rightarrow> (nat \<times> u8 list) list" where
  "in_use m p [] = []"
| "in_use m p ((u, n) # cs) = (if u then [(p + 4, take n (drop (p + 4) m))] else []) @ in_use m (p + (4 + n)) cs"

definition chunks_len :: "chunk list \<Rightarrow> nat" where
  "chunks_len cs = sum_list (map (\<lambda>c. 4 + snd c) cs)"

definition free_bytes :: "chunk list \<Rightarrow> nat" where
  "free_bytes cs = sum_list (map snd (filter (\<lambda>c. \<not> fst c) cs))"

lemma chunks_simps [simp]:
  "chunks_len [] = 0" "chunks_len (c # cs) = 4 + snd c + chunks_len cs"
  "free_bytes [] = 0" "free_bytes (c # cs) = (if fst c then 0 else snd c) + free_bytes cs"
  by (simp_all add: chunks_len_def free_bytes_def)

definition mp_wf :: "mpool \<Rightarrow> chunk list \<Rightarrow> bool" where
  "mp_wf s cs \<longleftrightarrow>
     length (mp_mem s) = unat (mp_size s) \<and> unat (mp_size s) < 2 ^ 31
     \<and> laid (mp_mem s) 0 cs (unat (mp_size s)) \<and> (\<forall>c \<in> set cs. 4 dvd snd c) \<and> mp_free s = of_nat (free_bytes cs)"

lemma laid_len: "laid m p cs e \<Longrightarrow> e = p + chunks_len cs"
proof (induction cs arbitrary: p)
  case (Cons c cs)
  then have "laid m (p + (4 + snd c)) cs e" by (cases c) simp
  then have "e = p + (4 + snd c) + chunks_len cs" by (rule Cons.IH)
  then show ?case by simp
qed simp

text \<open>The blocks depend only on the bytes from their start on.\<close>

lemma load_drop: "drop q m' = drop q m \<Longrightarrow> length m' = length m \<Longrightarrow> q \<le> p \<Longrightarrow> (load m' p :: u32 option) = load m p"
proof -
  assume a: "drop q m' = drop q m" "length m' = length m" "q \<le> p"
  then have "drop p m' = drop p m" by (metis drop_drop le_add_diff_inverse2)
  then show ?thesis using a(2) by (simp add: load_def buf_read_def)
qed

lemma laid_drop:
  assumes "drop q m' = drop q m" "length m' = length m" "q \<le> p"
  shows "laid m' p cs e = laid m p cs e" "in_use m' p cs = in_use m p cs"
  using assms(3)
proof (induction cs arbitrary: p)
  case (Cons c cs)
  {
    case 1
    then show ?case using Cons.IH(1) [of "p + (4 + snd c)"] load_drop [OF assms(1,2) 1] by (cases c) simp
  next
    case 2
    have "drop (p + 4) m' = drop (p + 4) m" using assms(1) 2 by (metis drop_drop le_add_diff_inverse2 trans_le_add1)
    then show ?case using Cons.IH(2) [of "p + (4 + snd c)"] 2 by (cases c) simp
  }
qed simp_all

subsection \<open>Stores\<close>

text \<open>\<open>kept m m' p q\<close>: outside of \<open>p..q\<close> the memory is the same.\<close>

definition kept :: "u8 list \<Rightarrow> u8 list \<Rightarrow> nat \<Rightarrow> nat \<Rightarrow> bool" where
  "kept m m' p q \<longleftrightarrow> length m' = length m \<and> take p m' = take p m \<and> drop q m' = drop q m"

lemma kept_trans: "kept m m1 p q \<Longrightarrow> kept m1 m2 p q \<Longrightarrow> kept m m2 p q"
  by (simp add: kept_def)

lemma kept_refl [simp]: "kept m m p q"
  by (simp add: kept_def)

lemma kept_weaken:
  assumes "kept m m' p q" "p' \<le> p" "q \<le> q'"
  shows "kept m m' p' q'"
proof -
  have t: "take p' xs = take p' (take p xs)" for xs :: "u8 list" using assms(2) by (simp add: min_def)
  have d: "drop q' xs = drop (q' - q) (drop q xs)" for xs :: "u8 list" using assms(3) by simp
  show ?thesis using assms(1) unfolding kept_def t [of m'] t [of m] d [of m'] d [of m] by simp
qed

lemma hdr_put_effect:
  assumes "p + 4 \<le> length (mp_mem s)"
  obtains m where "hdr_put s p h = Some (s\<lparr>mp_mem := m\<rparr>)" "kept (mp_mem s) m p (p + 4)" "load m p = Some h"
proof -
  let ?m = "splice (mp_mem s) p (to_bytes h)"
  have st: "store (mp_mem s) p h = Some ?m" using assms by (simp add: store_Some)
  have "kept (mp_mem s) ?m p (p + 4)"
    using assms take_splice [of p "to_bytes h" "mp_mem s"] drop_splice [of p "to_bytes h" "mp_mem s"] by (simp add: kept_def)
  then show ?thesis using that [of ?m] st load_store [OF _ st] by (simp add: hdr_put_def)
qed

lemma load_kept:
  assumes "kept m m' q r" "p + 4 \<le> q \<or> r \<le> p"
  shows "(load m' p :: u32 option) = load m p"
proof (cases "r \<le> p")
  case True
  then show ?thesis using assms(1) by (intro load_drop [of r]) (simp_all add: kept_def)
next
  case False
  then have "p + 4 \<le> q" using assms(2) by simp
  then have "kept m m' (p + 4) r" using kept_weaken [of m m' q r "p + 4" r] assms(1) by simp
  then have "length m' = length m" "take 4 (drop p m') = take 4 (drop p m)"
    unfolding kept_def by (metis drop_take add_diff_cancel_left')+
  then show ?thesis by (simp add: load_def buf_read_def)
qed


subsection \<open>Allocation on the list of blocks\<close>

text \<open>\<open>join n k cs\<close>: the free block of size \<open>k\<close> in front of \<open>cs\<close>, joined with the free blocks there
  until it has \<open>n\<close> bytes.\<close>

fun join :: "nat \<Rightarrow> nat \<Rightarrow> chunk list \<Rightarrow> nat \<times> chunk list" where
  "join n k [] = (k, [])"
| "join n k ((u, j) # cs) = (if n \<le> k \<or> u then (k, (u, j) # cs) else join n (k + j + 4) cs)"

lemma join_length [termination_simp]: "join n k cs = (k', cs') \<Longrightarrow> length cs' \<le> length cs"
  by (induction n k cs rule: join.induct) (auto split: if_splits dest: le_SucI)

definition cut :: "nat \<Rightarrow> nat \<Rightarrow> chunk list" where
  "cut n k = (True, n) # (if n < k then [(False, k - n - 4)] else [])"

function alloc_ref :: "nat \<Rightarrow> chunk list \<Rightarrow> chunk list \<times> nat option" where
  "alloc_ref n [] = ([], None)"
| "alloc_ref n ((True, k) # cs) =
     (let (ds, r) = alloc_ref n cs in ((True, k) # ds, map_option (\<lambda>x. 4 + k + x) r))"
| "alloc_ref n ((False, k) # cs) =
     (case join n k cs of
        (k', cs') \<Rightarrow>
          if n \<le> k' then (cut n k' @ cs', Some 4)
          else case cs' of
            [] \<Rightarrow> ([(False, k')], None)
          | c # cs'' \<Rightarrow>
              let (ds, r) = alloc_ref n cs''
              in ((False, k') # c # ds, map_option (\<lambda>x. 4 + k' + (4 + snd c) + x) r))"
  by pat_completeness auto
termination
  by (relation "measure (\<lambda>(n, cs). length cs)") (auto dest!: join_length [OF sym])

lemma join_len: "join n k cs = (k', cs') \<Longrightarrow> k' + chunks_len cs' = k + chunks_len cs"
  by (induction n k cs rule: join.induct) (auto split: if_splits)

lemma join_free:
  "join n k cs = (k', cs') \<Longrightarrow> k' + free_bytes cs' = k + free_bytes cs + 4 * (length cs - length cs')"
proof (induction n k cs rule: join.induct)
  case (2 n k u j cs)
  then show ?case
  proof (cases "n \<le> k \<or> u")
    case False
    then have "join n (k + j + 4) cs = (k', cs')" using 2(2) by simp
    then show ?thesis using 2(1) [OF False] join_length [of n "k + j + 4" cs k' cs'] False by (simp add: Suc_diff_le)
  qed auto
qed simp

lemma join_stops: "join n k cs = (k', c # cs') \<Longrightarrow> \<not> n \<le> k' \<Longrightarrow> fst c"
  by (induction n k cs rule: join.induct) (auto split: if_splits)

lemma join_dvd:
  "join n k cs = (k', cs') \<Longrightarrow> 4 dvd k \<Longrightarrow> \<forall>c \<in> set cs. 4 dvd snd c \<Longrightarrow> 4 dvd k' \<and> (\<forall>c \<in> set cs'. 4 dvd snd c)"
  by (induction n k cs rule: join.induct) (auto split: if_splits)

lemma join_in_use: "join n k cs = (k', cs') \<Longrightarrow> in_use m (q + k') cs' = in_use m (q + k) cs"
proof (induction n k cs rule: join.induct)
  case (2 n k u j cs)
  have a: "q + (k + j + 4) = q + k + (4 + j)" by simp
  from 2 show ?case unfolding a by (auto split: if_splits simp del: add.assoc)
qed auto

lemma join_suffix: "join n k cs = (k', cs') \<Longrightarrow> \<exists>pre. cs = pre @ cs'"
proof (induction n k cs rule: join.induct)
  case (2 n k u j cs)
  then show ?case by (cases "n \<le> k \<or> u") (auto intro: exI [of _ "(u, j) # _"])
qed simp

lemma cut_facts:
  assumes "n \<le> k" "4 dvd k" "4 dvd n"
  shows "chunks_len (cut n k) = 4 + k" "in_use m p (cut n k) = [(p + 4, take n (drop (p + 4) m))]"
    "\<forall>c \<in> set (cut n k). 4 dvd snd c"
proof -
  have "n < k \<Longrightarrow> n + 4 \<le> k" using assms(2,3) by presburger
  then show "chunks_len (cut n k) = 4 + k" "in_use m p (cut n k) = [(p + 4, take n (drop (p + 4) m))]"
    "\<forall>c \<in> set (cut n k). 4 dvd snd c"
    using assms by (auto simp: cut_def dvd_diff_nat)
qed

lemma length_le_chunks: "length cs \<le> chunks_len cs"
  by (induction cs) simp_all

lemma laid_pos: "laid m p cs e \<Longrightarrow> cs \<noteq> [] \<longleftrightarrow> p < e"
  using laid_len [of m p cs e] by (cases cs) auto

lemma merge_free_effect:
  assumes "laid (mp_mem s) p ((False, k) # cs) (unat (mp_size s))" "length (mp_mem s) = unat (mp_size s)"
    and "unat (mp_size s) < 2 ^ 31" "length cs < fuel" "join (unat sz) k cs = (k', cs')"
  shows "\<exists>m. merge_free fuel s p sz (of_nat k) =
      Some (if unat sz \<le> k' then Enough (of_nat k')
            else case cs' of [] \<Rightarrow> AtEnd | c # _ \<Rightarrow> Blocked (p + k' + 4) (of_nat (snd c)),
          s\<lparr>mp_mem := m, mp_free := mp_free s + of_nat (4 * (length cs - length cs'))\<rparr>)
    \<and> kept (mp_mem s) m p (p + 4) \<and> laid m p ((False, k') # cs') (unat (mp_size s))"
  using assms
proof (induction fuel arbitrary: s k cs)
  case (Suc fuel)
  note l = Suc.prems(1)
  let ?e = "unat (mp_size s)" and ?np = "p + k + 4"
  have e: "?e = p + (4 + k + chunks_len cs)" using laid_len [OF l] by simp
  have k: "unat (of_nat k :: u32) = k" using e Suc.prems(3) chunk_hdr_simps(4) by simp
  have lt: "(of_nat k :: u32) < sz \<longleftrightarrow> k < unat sz" by (simp only: word_less_nat_alt k)
  have rest: "laid (mp_mem s) ?np cs ?e" using l by (simp add: add.assoc add.commute [of 4])
  show ?case
  proof (cases "k < unat sz")
    case False
    then have "join (unat sz) k cs = (k, cs)" by (cases cs) auto
    then show ?thesis using False Suc.prems lt by (intro exI [of _ "mp_mem s"]) auto
  next
    case short: True
    show ?thesis
    proof (cases cs)
      case Nil
      then have "\<not> ?np < ?e" using e by simp
      then show ?thesis using short Suc.prems lt k Nil by (intro exI [of _ "mp_mem s"]) auto
    next
      case (Cons c cs1)
      obtain u j where c: "c = (u, j)" by fastforce
      have j: "j < 2 ^ 31" "?np < ?e" using e Suc.prems(3) Cons c by simp_all
      have get: "hdr_get s ?np = Some (chunk_hdr u j)" using rest Cons c by (simp add: hdr_get_def)
      show ?thesis
      proof (cases u)
        case True
        then have "join (unat sz) k cs = (k, cs)" using Cons c by simp
        then show ?thesis using short Suc.prems lt k Cons c True j get chunk_hdr_simps [OF j(1)]
          by (intro exI [of _ "mp_mem s"]) (auto simp: Let_def)
      next
        case False
        let ?k = "k + j + 4"
        have kj: "?k < 2 ^ 31" using e Suc.prems(3) Cons c by simp
        have getp: "hdr_get s p = Some (chunk_hdr False k)" using l by (simp add: hdr_get_def)
        have sum: "chunk_hdr False k + chunk_hdr False j + 4 = chunk_hdr False ?k" by (simp add: chunk_hdr_free)
        have size: "chunk_size_of (chunk_hdr False ?k) = of_nat ?k" by (rule chunk_hdr_simps(1) [OF kj])
        have "p + 4 \<le> length (mp_mem (s\<lparr>mp_free := mp_free s + 4\<rparr>))" using e Suc.prems(2) by simp
        then obtain m where put: "hdr_put (s\<lparr>mp_free := mp_free s + 4\<rparr>) p (chunk_hdr False ?k) = Some (s\<lparr>mp_free := mp_free s + 4, mp_mem := m\<rparr>)"
          and m: "kept (mp_mem s) m p (p + 4)" "load m p = Some (chunk_hdr False ?k)"
          by (rule hdr_put_effect [of p _ "chunk_hdr False ?k"]) auto
        let ?s = "s\<lparr>mp_free := mp_free s + 4, mp_mem := m\<rparr>"
        have "laid m (p + (4 + ?k)) cs1 ?e"
          using rest m(1) Cons c laid_drop(1) [of "p + 4" m "mp_mem s" "p + (4 + ?k)" cs1 ?e]
          by (simp add: kept_def add.assoc add.commute add.left_commute)
        then have l1: "laid (mp_mem ?s) p ((False, ?k) # cs1) (unat (mp_size ?s))" using m(2) by simp
        have len1: "length (mp_mem ?s) = unat (mp_size ?s)" using m(1) Suc.prems(2) by (simp add: kept_def)
        have join1: "join (unat sz) ?k cs1 = (k', cs')" using Suc.prems(5) short Cons c False by simp
        then have le: "length cs' \<le> length cs1" by (rule join_length)
        obtain m2 where m2: "merge_free fuel ?s p sz (of_nat ?k) =
            Some (if unat sz \<le> k' then Enough (of_nat k')
                  else case cs' of [] \<Rightarrow> AtEnd | c # _ \<Rightarrow> Blocked (p + k' + 4) (of_nat (snd c)),
              ?s\<lparr>mp_mem := m2, mp_free := mp_free ?s + of_nat (4 * (length cs1 - length cs'))\<rparr>)"
          "kept (mp_mem ?s) m2 p (p + 4)" "laid m2 p ((False, k') # cs') (unat (mp_size ?s))"
          using Suc.IH [OF l1 len1 _ _ join1] Suc.prems(3,4) Cons by auto
        have free: "mp_free s + 4 + of_nat (4 * (length cs1 - length cs')) = mp_free s + of_nat (4 * (length cs - length cs'))"
          using le Cons by (simp add: Suc_diff_le)
        have "merge_free (Suc fuel) s p sz (of_nat k) = merge_free fuel ?s p sz (of_nat ?k)"
          using short lt k j(2) get getp chunk_hdr_simps(2) [OF j(1), of u] False put size
          by (simp add: sum Let_def)
        then show ?thesis using m2 kept_trans [OF m(1)] free by (intro exI [of _ m2]) simp
      qed
    qed
  qed
qed simp


lemma take_chunk_effect:
  assumes "laid (mp_mem s) p ((False, k) # cs) (unat (mp_size s))" "length (mp_mem s) = unat (mp_size s)"
    and "unat (mp_size s) < 2 ^ 31" "unat sz \<le> k" "4 dvd k" "4 dvd unat sz"
  shows "\<exists>m. take_chunk s p sz (of_nat k) =
      Some (s\<lparr>mp_mem := m, mp_free := mp_free s + of_nat (free_bytes (cut (unat sz) k)) - of_nat k\<rparr>)
    \<and> kept (mp_mem s) m p (p + 4 + k) \<and> laid m p (cut (unat sz) k @ cs) (unat (mp_size s))"
proof -
  let ?n = "unat sz" and ?e = "unat (mp_size s)"
  have e: "?e = p + (4 + k + chunks_len cs)" using laid_len [OF assms(1)] by simp
  then have k: "unat (of_nat k :: u32) = k" using assms(3) chunk_hdr_simps(4) by simp
  have rest: "laid (mp_mem s) (p + 4 + k) cs ?e" using assms(1) by (simp add: add.assoc)
  have gt: "(of_nat k :: u32) > sz \<longleftrightarrow> ?n < k" by (simp only: word_less_nat_alt k)
  have "p + 4 \<le> length (mp_mem s)" using e assms(2) by simp
  then obtain m where m: "hdr_put s p (chunk_hdr True ?n) = Some (s\<lparr>mp_mem := m\<rparr>)" "kept (mp_mem s) m p (p + 4)"
    "load m p = Some (chunk_hdr True ?n)" by (rule hdr_put_effect)
  have sz: "sz = of_nat ?n" by simp
  show ?thesis
  proof (cases "?n < k")
    case False
    then have nk: "?n = k" using assms(4) by simp
    have "laid m (p + 4 + k) cs ?e"
      using rest m(2) laid_drop(1) [of "p + 4" m "mp_mem s" "p + 4 + k" cs ?e] by (simp add: kept_def)
    then have "laid m p (cut ?n k @ cs) ?e" using m(3) nk by (simp add: cut_def add.assoc)
    moreover have "kept (mp_mem s) m p (p + 4 + k)" using m(2) by (rule kept_weaken) simp_all
    moreover have "of_nat k = sz" by (simp flip: nk)
    moreover have "take_chunk s p sz (of_nat k) = Some (s\<lparr>mp_mem := m, mp_free := mp_free s - sz\<rparr>)"
      using m(1) gt nk by (simp add: take_chunk_def chunk_hdr_used)
    ultimately show ?thesis using nk by (intro exI [of _ m]) (simp add: cut_def)
  next
    case True
    then have n4: "?n + 4 \<le> k" using assms(5,6) by presburger
    let ?r = "k - ?n - 4" and ?q = "p + 4 + ?n"
    have r: "?r < 2 ^ 31" using e assms(3) by simp
    have "(of_nat k :: u32) - sz - 4 = of_nat ?r" using n4 by (simp add: of_nat_diff)
    then have hdr: "((of_nat k :: u32) - sz - 4) AND 0x7fffffff = chunk_hdr False ?r"
      using chunk_hdr_simps(3) [OF r, of False] by (simp add: chunk_hdr_free)
    have "?q + 4 \<le> length (mp_mem (s\<lparr>mp_mem := m\<rparr>))" using e assms(2) m(2) n4 by (simp add: kept_def)
    then obtain m2 where m2: "hdr_put (s\<lparr>mp_mem := m\<rparr>) ?q (chunk_hdr False ?r) = Some (s\<lparr>mp_mem := m2\<rparr>)"
      "kept m m2 ?q (?q + 4)" "load m2 ?q = Some (chunk_hdr False ?r)"
      by (rule hdr_put_effect [of ?q _ "chunk_hdr False ?r"]) simp
    have kp: "kept (mp_mem s) m2 p (p + 4 + k)"
      using kept_weaken [OF m(2), of p "p + 4 + k"] kept_weaken [OF m2(2), of p "p + 4 + k"] n4 by (auto intro: kept_trans)
    have "laid m2 (p + 4 + k) cs ?e"
      using rest kp laid_drop(1) [of "p + 4 + k" m2 "mp_mem s" "p + 4 + k" cs ?e] by (simp add: kept_def)
    moreover have "load m2 p = Some (chunk_hdr True ?n)" using m(3) load_kept [OF m2(2), of p] by simp
    moreover have "p + (4 + ?n) + (4 + ?r) = p + 4 + k" using n4 by simp
    ultimately have "laid m2 p (cut ?n k @ cs) ?e"
      using m2(3) True by (simp add: cut_def add.assoc)
    moreover have "take_chunk s p sz (of_nat k) = Some (s\<lparr>mp_mem := m2, mp_free := mp_free s - 4 - sz\<rparr>)"
      using m(1) m2(1) gt True hdr by (simp add: take_chunk_def chunk_hdr_used)
    moreover have "mp_free s - 4 - sz = mp_free s + of_nat (free_bytes (cut ?n k)) - of_nat k"
      using n4 True by (simp add: cut_def of_nat_diff)
    ultimately show ?thesis using kp by (intro exI [of _ m2]) simp
  qed
qed


lemma in_use_append: "in_use m p (cs @ ds) = in_use m p cs @ in_use m (p + chunks_len cs) ds"
proof (induction cs arbitrary: p)
  case (Cons c cs)
  then show ?case by (cases c) (simp add: add.assoc add.left_commute)
qed simp

lemma laid_append: "laid m p (cs @ ds) e \<longleftrightarrow> laid m p cs (p + chunks_len cs) \<and> laid m (p + chunks_len cs) ds e"
proof (induction cs arbitrary: p)
  case (Cons c cs)
  obtain u n where c: "c = (u, n)" by fastforce
  have "p + (4 + n) + chunks_len cs = p + (4 + n + chunks_len cs)" by simp
  then show ?case using Cons.IH [of "p + (4 + n)"]
    by (simp only: c append_Cons laid.simps chunks_simps snd_conv conj_assoc)
qed simp

text \<open>What a used block holds, when nothing of it was stored to.\<close>

lemma used_kept:
  assumes "kept m m' q r" "q \<le> length m" "p + n \<le> q \<or> r \<le> p"
  shows "take n (drop p m') = take n (drop p m)"
proof (cases "r \<le> p")
  case True
  then have "drop p m' = drop p m" using assms(1) unfolding kept_def by (metis drop_drop le_add_diff_inverse2)
  then show ?thesis by simp
next
  case False
  then have "p + n \<le> q" using assms(3) by simp
  then have "kept m m' (p + n) r" using kept_weaken [OF assms(1), of "p + n" r] by simp
  then have "take (p + n) m' = take (p + n) m" by (simp add: kept_def)
  then show ?thesis by (metis drop_take add_diff_cancel_left')
qed

text \<open>The result of an allocation: the list of blocks is the one \<open>alloc_ref\<close> says, the blocks in use
  have kept their bytes, and the new one is added to them.\<close>

definition alloc_done :: "mpool \<Rightarrow> nat \<Rightarrow> chunk list \<Rightarrow> nat \<Rightarrow> chunk list \<Rightarrow> nat option \<Rightarrow> u8 list \<Rightarrow> bool" where
  "alloc_done s p cs n ds r m \<longleftrightarrow>
     kept (mp_mem s) m p (unat (mp_size s)) \<and> laid m p ds (unat (mp_size s))
     \<and> set (in_use m p ds) = set (in_use (mp_mem s) p cs) \<union> (\<lambda>x. (p + x, take n (drop (p + x) m))) ` set_option r
     \<and> (\<forall>c \<in> set ds. 4 dvd snd c)"

lemma alloc_skip:
  assumes "alloc_done (s\<lparr>mp_mem := m1, mp_free := f\<rparr>) (p + chunks_len bs) cs n ds r m" "kept (mp_mem s) m1 p (p + 4)"
    and "laid m1 p bs (p + chunks_len bs)" "laid (mp_mem s) p (as @ cs) (unat (mp_size s))" "chunks_len bs = chunks_len as"
    and "set (in_use m1 p bs) = set (in_use (mp_mem s) p as)" "\<forall>c \<in> set bs. 4 dvd snd c" "bs \<noteq> []"
    and "length (mp_mem s) = unat (mp_size s)"
  shows "alloc_done s p (as @ cs) n (bs @ ds) (map_option (\<lambda>x. chunks_len bs + x) r) m"
proof -
  let ?q = "p + chunks_len bs" and ?e = "unat (mp_size s)"
  have q: "p + 4 \<le> ?q" using assms(8) by (cases bs) simp_all
  have e: "?q + chunks_len cs = ?e"
    using laid_len [OF assms(4)] assms(5) by (simp add: chunks_len_def)
  have k1: "kept m1 m ?q ?e" using assms(1) by (simp add: alloc_done_def)
  have k: "kept (mp_mem s) m p ?e"
    using kept_weaken [OF assms(2), of p ?e] kept_weaken [OF k1, of p ?e] q e by (auto intro: kept_trans)
  have len: "length m1 = ?e" using assms(2,9) by (simp add: kept_def)
  have pre: "laid m p' bs' ?q = laid m1 p' bs' ?q \<and> in_use m p' bs' = in_use m1 p' bs'" if "p' + chunks_len bs' = ?q" for p' bs'
    using that
  proof (induction bs' arbitrary: p')
    case (Cons c bs')
    obtain u n where c: "c = (u, n)" by fastforce
    have "p' + (4 + n) + chunks_len bs' = ?q" using Cons.prems c by simp
    note ih = Cons.IH [OF this]
    have "load m p' = (load m1 p' :: u32 option)" using load_kept [OF k1, of p'] Cons.prems c by simp
    moreover have "take n (drop (p' + 4) m) = take n (drop (p' + 4) m1)"
      using used_kept [OF k1, of "p' + 4" n] Cons.prems c len e by simp
    ultimately show ?case using ih c by simp
  qed simp
  have rest: "in_use m1 ?q cs = in_use (mp_mem s) ?q cs"
    using laid_drop(2) [of "p + 4" m1 "mp_mem s" ?q cs] assms(2) q by (simp add: kept_def)
  have "laid m p (bs @ ds) ?e" using pre [of p bs] assms(1,3) by (simp add: laid_append alloc_done_def)
  moreover have "set (in_use m p (bs @ ds)) = set (in_use (mp_mem s) p (as @ cs))
      \<union> (\<lambda>x. (p + x, take n (drop (p + x) m))) ` set_option (map_option (\<lambda>x. chunks_len bs + x) r)"
    using pre [of p bs] assms(1,5,6) rest by (auto simp: in_use_append alloc_done_def image_image add.assoc)
  moreover have "\<forall>c \<in> set (bs @ ds). 4 dvd snd c" using assms(1,7) by (auto simp: alloc_done_def)
  ultimately show ?thesis using k unfolding alloc_done_def by (intro conjI)
qed


lemma alloc_scan_effect:
  assumes "laid (mp_mem s) p cs (unat (mp_size s))" "length (mp_mem s) = unat (mp_size s)" "unat (mp_size s) < 2 ^ 31"
    and "length cs < fuel" "\<forall>c \<in> set cs. 4 dvd snd c" "4 dvd unat sz" "alloc_ref (unat sz) cs = (ds, r)"
  shows "\<exists>m. alloc_scan fuel s p sz = Some (map_option (\<lambda>x. p + x) r,
        s\<lparr>mp_mem := m, mp_free := mp_free s + of_nat (free_bytes ds) - of_nat (free_bytes cs)\<rparr>)
    \<and> alloc_done s p cs (unat sz) ds r m"
  using assms
proof (induction fuel arbitrary: s p cs ds r)
  case (Suc fuel)
  let ?n = "unat sz" and ?e = "unat (mp_size s)"
  note l = Suc.prems(1) and len = Suc.prems(2) and small = Suc.prems(3) and dvd = Suc.prems(5) and sz4 = Suc.prems(6)
  show ?case
  proof (cases cs)
    case Nil
    then have "\<not> p < ?e" using laid_len [OF l] by simp
    then show ?thesis using Nil Suc.prems by (intro exI [of _ "mp_mem s"]) (simp add: alloc_done_def)
  next
    case (Cons c cs1)
    obtain u k where c: "c = (u, k)" by fastforce
    have e: "?e = p + (4 + k + chunks_len cs1)" using laid_len [OF l] Cons c by simp
    then have k: "k < 2 ^ 31" "p < ?e" using small by simp_all
    have get: "hdr_get s p = Some (chunk_hdr u k)" using l Cons c by (simp add: hdr_get_def)
    note hdr = chunk_hdr_simps [OF k(1)]
    show ?thesis
    proof (cases u)
      case True
      obtain ds1 r1 where ref1: "alloc_ref ?n cs1 = (ds1, r1)" by fastforce
      then have ref: "ds = (True, k) # ds1" "r = map_option (\<lambda>x. 4 + k + x) r1"
        using Suc.prems(7) Cons c True by simp_all
      have l1: "laid (mp_mem s) (p + (4 + k)) cs1 ?e" using l Cons c by simp
      obtain m where m: "alloc_scan fuel s (p + (4 + k)) sz = Some (map_option (\<lambda>x. p + (4 + k) + x) r1,
          s\<lparr>mp_mem := m, mp_free := mp_free s + of_nat (free_bytes ds1) - of_nat (free_bytes cs1)\<rparr>)"
        "alloc_done s (p + (4 + k)) cs1 ?n ds1 r1 m"
        using Suc.IH [OF l1 len small _ _ sz4 ref1] Suc.prems(4) dvd Cons by auto
      have "alloc_done s p ([(True, k)] @ cs1) ?n ([(True, k)] @ ds1) (map_option (\<lambda>x. chunks_len [(True, k)] + x) r1) m"
        by (rule alloc_skip [where ?m1.0 = "mp_mem s" and f = "mp_free s"]) (use m(2) l Cons c True dvd len in simp_all)
      moreover have "alloc_scan (Suc fuel) s p sz = alloc_scan fuel s (p + (4 + k)) sz"
        using k(2) get hdr True by (simp add: add.commute add.left_commute add.assoc)
      ultimately show ?thesis using m(1) ref Cons c True
        by (intro exI [of _ m]) (simp add: option.map_comp comp_def add.assoc)
    next
      case False
      obtain k' cs' where j: "join ?n k cs1 = (k', cs')" by fastforce
      note jl = join_len [OF j] and jf = join_free [OF j] and jd = join_dvd [OF j] and ju = join_in_use [OF j]
      have lF: "laid (mp_mem s) p ((False, k) # cs1) ?e" using l Cons c False by simp
      have "length cs1 < Suc ?e" using length_le_chunks [of cs1] e by linarith
      from merge_free_effect [OF lF len small this j]
      obtain m1 where m1: "merge_free (Suc ?e) s p sz (of_nat k) =
          Some (if ?n \<le> k' then Enough (of_nat k')
                else case cs' of [] \<Rightarrow> AtEnd | c # _ \<Rightarrow> Blocked (p + k' + 4) (of_nat (snd c)),
              s\<lparr>mp_mem := m1, mp_free := mp_free s + of_nat (4 * (length cs1 - length cs'))\<rparr>)"
        "kept (mp_mem s) m1 p (p + 4)" "laid m1 p ((False, k') # cs') ?e" by blast
      let ?s1 = "s\<lparr>mp_mem := m1, mp_free := mp_free s + of_nat (4 * (length cs1 - length cs'))\<rparr>"
      have len1: "length m1 = ?e" using m1(2) len by (simp add: kept_def)
      have dvd': "4 dvd k'" "\<forall>c \<in> set cs'. 4 dvd snd c" using jd dvd Cons c by simp_all
      have free1: "of_nat (k' + free_bytes cs') = (of_nat (free_bytes cs) + of_nat (4 * (length cs1 - length cs')) :: u32)"
      proof -
        have "k' + free_bytes cs' = free_bytes cs + 4 * (length cs1 - length cs')" using jf Cons c False by simp
        then show ?thesis by (simp only: of_nat_add)
      qed
      have step: "alloc_scan (Suc fuel) s p sz = (if ?n \<le> k' then (do { s \<leftarrow> take_chunk ?s1 p sz (of_nat k'); Some (Some (p + 4), s) })
          else case cs' of [] \<Rightarrow> Some (None, ?s1) | c # _ \<Rightarrow> alloc_scan fuel ?s1 (p + k' + 4 + unat (of_nat (snd c) :: u32) + 4) sz)"
        using k(2) get hdr False m1(1) by (simp split: list.split)
      show ?thesis
      proof (cases "?n \<le> k'")
        case True
        have ref: "ds = cut ?n k' @ cs'" "r = Some 4" using Suc.prems(7) Cons c False j True by simp_all
        obtain m where m: "take_chunk ?s1 p sz (of_nat k') =
            Some (?s1\<lparr>mp_mem := m, mp_free := mp_free ?s1 + of_nat (free_bytes (cut ?n k')) - of_nat k'\<rparr>)"
          "kept m1 m p (p + 4 + k')" "laid m p (cut ?n k' @ cs') ?e"
          using take_chunk_effect [of ?s1 p k' cs' sz] m1(3) len1 small True dvd'(1) sz4 by auto
        note cf = cut_facts [OF True dvd'(1) sz4]
        have km: "kept (mp_mem s) m p (p + 4 + k')"
          using kept_weaken [OF m1(2), of p "p + 4 + k'"] m(2) by (auto intro: kept_trans)
        have "in_use m (p + 4 + k') cs' = in_use (mp_mem s) (p + 4 + k') cs'"
          using km by (intro laid_drop(2) [of "p + 4 + k'"]) (simp_all add: kept_def)
        also have "\<dots> = in_use (mp_mem s) p cs" using ju [of _ "p + 4"] Cons c False by (simp add: add.assoc)
        finally have "in_use m p ds = (p + 4, take ?n (drop (p + 4) m)) # in_use (mp_mem s) p cs"
          using ref(1) cf(1,2) by (simp add: in_use_append add.assoc)
        moreover have "kept (mp_mem s) m p ?e" using e jl by (intro kept_weaken [OF km]) simp_all
        moreover have "\<forall>c \<in> set ds. 4 dvd snd c" using ref(1) cf(3) dvd'(2) by auto
        ultimately have "alloc_done s p cs ?n ds r m" using ref m(3) by (simp add: alloc_done_def)
        moreover have "free_bytes ds = free_bytes (cut ?n k') + free_bytes cs'" using ref(1) by (simp add: free_bytes_def)
        ultimately show ?thesis using step m(1) True ref(2) free1
          by (intro exI [of _ m]) (simp add: algebra_simps)
      next
        case short: False
        show ?thesis
        proof (cases cs')
          case Nil
          then have ref: "ds = [(False, k')]" "r = None" using Suc.prems(7) Cons c False j short by simp_all
          have "in_use (mp_mem s) (p + 4 + k) cs1 = []" using ju [of "mp_mem s" "p + 4"] Nil by simp
          then have "alloc_done s p (cs @ []) ?n ([(False, k')] @ []) (map_option (\<lambda>x. chunks_len [(False, k')] + x) None) m1"
            using m1(2,3) l dvd' len e jl Nil Cons c False
            by (intro alloc_skip [where ?m1.0 = m1 and f = "mp_free ?s1"]) (simp_all add: alloc_done_def add.assoc)
          then show ?thesis using step short Nil ref free1 by (intro exI [of _ m1]) (simp add: algebra_simps)
        next
          case Cons2: (Cons c2 cs2)
          obtain j2 where c2: "c2 = (True, j2)" using join_stops [of ?n k cs1 k' c2 cs2] j Cons2 short by (cases c2) auto
          obtain pre where pre: "cs1 = pre @ cs'" using join_suffix [OF j] by blast
          obtain ds2 r2 where ref2: "alloc_ref ?n cs2 = (ds2, r2)" by fastforce
          then have ref: "ds = (False, k') # c2 # ds2" "r = map_option (\<lambda>x. 4 + k' + (4 + j2) + x) r2"
            using Suc.prems(7) Cons c False j short Cons2 c2 by simp_all
          let ?as = "(False, k) # pre @ [c2]" and ?bs = "[(False, k'), c2]"
          have kp: "k + chunks_len pre = k'" using jl pre by (simp add: chunks_len_def)
          then have cl: "chunks_len ?bs = chunks_len ?as" by (simp add: chunks_len_def)
          have q: "p + chunks_len ?bs = p + k' + 4 + j2 + 4" using c2 by simp
          have l2: "laid m1 (p + chunks_len ?bs) cs2 ?e" using m1(3) Cons2 c2 by (simp add: add.assoc)
          have "length cs2 < fuel" using Suc.prems(4) Cons pre Cons2 by simp
          then obtain m where m: "alloc_scan fuel ?s1 (p + chunks_len ?bs) sz = Some (map_option (\<lambda>x. p + chunks_len ?bs + x) r2,
              ?s1\<lparr>mp_mem := m, mp_free := mp_free ?s1 + of_nat (free_bytes ds2) - of_nat (free_bytes cs2)\<rparr>)"
            "alloc_done ?s1 (p + chunks_len ?bs) cs2 ?n ds2 r2 m"
            using Suc.IH [of ?s1 "p + chunks_len ?bs" cs2 ds2 r2] l2 len1 small sz4 ref2 dvd'(2) Cons2 by auto
          have j2: "unat (of_nat j2 :: u32) = j2" using laid_len [OF m1(3)] small Cons2 c2 chunk_hdr_simps(4) by simp
          have "in_use (mp_mem s) (p + 4 + k) pre @ in_use (mp_mem s) (p + 4 + k') cs' = in_use (mp_mem s) (p + 4 + k') cs'"
            using ju [of "mp_mem s" "p + 4"] pre kp by (simp add: in_use_append add.assoc)
          then have "in_use (mp_mem s) (p + 4 + k) pre = []" by simp
          moreover have "in_use m1 (p + 4 + k') [c2] = in_use (mp_mem s) (p + 4 + k') [c2]"
            using m1(2) by (intro laid_drop(2) [of "p + 4"]) (simp_all add: kept_def)
          ultimately have iu: "in_use m1 p ?bs = in_use (mp_mem s) p ?as"
            using kp by (simp add: in_use_append add.assoc)
          have lb: "laid m1 p ?bs (p + chunks_len ?bs)" using m1(3) Cons2 c2 by (simp add: add.assoc)
          have "alloc_done s p (?as @ cs2) ?n (?bs @ ds2) (map_option (\<lambda>x. chunks_len ?bs + x) r2) m"
            by (rule alloc_skip [OF m(2) m1(2) lb _ cl])
              (use l Cons c False pre Cons2 c2 dvd' len iu in auto)
          moreover have "alloc_scan (Suc fuel) s p sz = alloc_scan fuel ?s1 (p + chunks_len ?bs) sz"
            using step short Cons2 c2 j2 q by (simp only: if_False list.case snd_conv)
          ultimately show ?thesis using m(1) ref Cons c False pre Cons2 c2 free1
            by (intro exI [of _ m]) (simp add: option.map_comp comp_def algebra_simps)
        qed
      qed
    qed
  qed
qed simp


lemma mpool_alloc_effect:
  assumes "mp_wf s cs" "4 dvd unat sz" "alloc_ref (unat sz) cs = (ds, r)"
  obtains s' where "mpool_alloc s sz = Some (r, s')" "mp_wf s' ds" "mp_size s' = mp_size s"
    "set (in_use (mp_mem s') 0 ds) = set (in_use (mp_mem s) 0 cs)
      \<union> (\<lambda>x. (x, take (unat sz) (drop x (mp_mem s')))) ` set_option r"
proof -
  have wf: "laid (mp_mem s) 0 cs (unat (mp_size s))" "length (mp_mem s) = unat (mp_size s)" "unat (mp_size s) < 2 ^ 31"
    "\<forall>c \<in> set cs. 4 dvd snd c" "mp_free s = of_nat (free_bytes cs)" using assms(1) by (simp_all add: mp_wf_def)
  have "length cs < Suc (unat (mp_size s))" using laid_len [OF wf(1)] length_le_chunks [of cs] by linarith
  from alloc_scan_effect [OF wf(1-3) this wf(4) assms(2,3)]
  obtain m where m: "alloc_scan (Suc (unat (mp_size s))) s 0 sz = Some (map_option (\<lambda>x. 0 + x) r,
        s\<lparr>mp_mem := m, mp_free := mp_free s + of_nat (free_bytes ds) - of_nat (free_bytes cs)\<rparr>)"
    "alloc_done s 0 cs (unat sz) ds r m" by blast
  let ?s = "s\<lparr>mp_mem := m, mp_free := mp_free s + of_nat (free_bytes ds) - of_nat (free_bytes cs)\<rparr>"
  have "mp_wf ?s ds" using m(2) wf by (simp add: mp_wf_def alloc_done_def kept_def)
  then show ?thesis using m by (intro that [of ?s]) (simp_all add: mpool_alloc_def alloc_done_def option.map_ident)
qed

text \<open>When no block is found, the free blocks have all been joined, and each is too small.\<close>

fun joined :: "nat \<Rightarrow> chunk list \<Rightarrow> bool" where
  "joined n [] = True"
| "joined n ((u, k) # cs) \<longleftrightarrow> (\<not> u \<longrightarrow> k < n \<and> (cs \<noteq> [] \<longrightarrow> fst (hd cs))) \<and> joined n cs"

lemma alloc_ref_None: "alloc_ref n cs = (ds, None) \<Longrightarrow> joined n ds"
proof (induction n cs arbitrary: ds rule: alloc_ref.induct)
  case (3 n k cs)
  obtain k' cs' where j: "join n k cs = (k', cs')" by fastforce
  show ?case
  proof (cases "n \<le> k'")
    case False
    show ?thesis
    proof (cases cs')
      case Nil
      then show ?thesis using 3 j False by auto
    next
      case (Cons c cs2)
      obtain ds2 r2 where r2: "alloc_ref n cs2 = (ds2, r2)" by fastforce
      then have "ds = (False, k') # c # ds2" "r2 = None" using "3.prems" j False Cons by simp_all
      moreover have "joined n ds2" using "3.IH" [OF j [symmetric] False Cons] r2 \<open>r2 = None\<close> by simp
      moreover have "fst c" using join_stops [of n k cs k' c cs2] j Cons False by simp
      ultimately show ?thesis using False by (cases c) auto
    qed
  qed (use 3 j in auto)
qed (auto split: prod.splits)

subsection \<open>Release\<close>

lemma laid_used:
  assumes "laid m p (as @ (u, k) # bs) e"
  shows "load m (p + chunks_len as) = Some (chunk_hdr u k)" "laid m (p + chunks_len as + 4 + k) bs e"
    "in_use m p (as @ (u, k) # bs) = in_use m p as
      @ (if u then [(p + chunks_len as + 4, take k (drop (p + chunks_len as + 4) m))] else [])
      @ in_use m (p + chunks_len as + 4 + k) bs"
  using assms by (simp_all add: laid_append in_use_append add.assoc)

lemma in_use_ex:
  assumes "(b, xs) \<in> set (in_use m p cs)"
  shows "\<exists>as k bs. cs = as @ (True, k) # bs \<and> b = p + chunks_len as + 4 \<and> xs = take k (drop b m)"
  using assms
proof (induction cs arbitrary: p)
  case (Cons c cs)
  obtain u k where c: "c = (u, k)" by fastforce
  show ?case
  proof (cases "u \<and> (b, xs) = (p + 4, take k (drop (p + 4) m))")
    case True
    then show ?thesis using c by (intro exI [of _ "[]"] exI [of _ k] exI [of _ cs]) simp
  next
    case False
    then have "(b, xs) \<in> set (in_use m (p + (4 + k)) cs)" using Cons.prems c by (auto split: if_splits)
    then obtain as j bs where "cs = as @ (True, j) # bs" "b = p + (4 + k) + chunks_len as + 4" "xs = take j (drop b m)"
      using Cons.IH by blast
    then show ?thesis using c by (intro exI [of _ "c # as"] exI [of _ j] exI [of _ bs]) simp
  qed
qed simp

text \<open>The replacement of the blocks between two places, when the memory is kept elsewhere.\<close>

lemma replace_blocks:
  assumes "laid m 0 (as @ bs @ cs) e" "kept m m' (chunks_len as) q" "q \<le> chunks_len as + chunks_len bs'"
    and "laid m' (chunks_len as) bs' (chunks_len as + chunks_len bs')" "chunks_len bs' = chunks_len bs" "length m = e"
  shows "laid m' 0 (as @ bs' @ cs) e"
    and "in_use m' 0 (as @ bs' @ cs) = in_use m 0 as @ in_use m' (chunks_len as) bs' @ in_use m (chunks_len as + chunks_len bs) cs"
proof -
  have e: "e = chunks_len as + chunks_len bs + chunks_len cs" using laid_len [OF assms(1)] by (simp add: chunks_len_def)
  have pre: "laid m' p as' (chunks_len as) = laid m p as' (chunks_len as) \<and> in_use m' p as' = in_use m p as'"
    if "p + chunks_len as' = chunks_len as" for p as'
    using that
  proof (induction as' arbitrary: p)
    case (Cons c as')
    obtain u n where c: "c = (u, n)" by fastforce
    have "p + (4 + n) + chunks_len as' = chunks_len as" using Cons.prems c by simp
    note ih = Cons.IH [OF this]
    have "load m' p = (load m p :: u32 option)" using load_kept [OF assms(2), of p] Cons.prems c by simp
    moreover have "take n (drop (p + 4) m') = take n (drop (p + 4) m)"
      using used_kept [OF assms(2), of "p + 4" n] Cons.prems c e assms(6) by simp
    ultimately show ?case using ih c by simp
  qed simp
  have post: "laid m' (chunks_len as + chunks_len bs) cs e = laid m (chunks_len as + chunks_len bs) cs e"
    "in_use m' (chunks_len as + chunks_len bs) cs = in_use m (chunks_len as + chunks_len bs) cs"
    using laid_drop(1) [of q m' m "chunks_len as + chunks_len bs" cs e]
      laid_drop(2) [of q m' m "chunks_len as + chunks_len bs" cs] assms(2,3,5) by (simp_all add: kept_def)
  show "laid m' 0 (as @ bs' @ cs) e"
    using assms(1,4,5) pre [of 0 as] post(1) by (simp add: laid_append)
  show "in_use m' 0 (as @ bs' @ cs) = in_use m 0 as @ in_use m' (chunks_len as) bs' @ in_use m (chunks_len as + chunks_len bs) cs"
    using assms(5) pre [of 0 as] post(2) by (simp add: in_use_append)
qed

lemma free_bytes_append [simp]: "free_bytes (cs @ ds) = free_bytes cs + free_bytes ds"
  by (simp add: free_bytes_def)

lemma chunks_len_append [simp]: "chunks_len (cs @ ds) = chunks_len cs + chunks_len ds"
  by (simp add: chunks_len_def)


text \<open>A block in use is given back: it is joined with the block behind it when that one is free. The
  last block of the area cannot be given back: the header behind it is outside.\<close>

definition free_ref :: "nat \<Rightarrow> chunk list \<Rightarrow> chunk list" where
  "free_ref k cs =
     (case cs of
        (False, j) # cs' \<Rightarrow> (False, k + j + 4) # cs'
      | _ \<Rightarrow> (False, k) # cs)"

lemma mpool_free_effect:
  assumes "mp_wf s (as @ (True, k) # bs)" "bs \<noteq> []"
  obtains s' where "mpool_free s (Some (chunks_len as + 4)) = Some s'" "mp_wf s' (as @ free_ref k bs)" "mp_size s' = mp_size s"
    "in_use (mp_mem s') 0 (as @ free_ref k bs) = in_use (mp_mem s) 0 as @ in_use (mp_mem s) (chunks_len as + 4 + k) bs"
proof -
  let ?e = "unat (mp_size s)" and ?p = "chunks_len as"
  obtain u j cs where bs: "bs = (u, j) # cs" using assms(2) by (cases bs) auto
  have wf: "laid (mp_mem s) 0 (as @ (True, k) # (u, j) # cs) ?e" "length (mp_mem s) = ?e" "?e < 2 ^ 31"
    "\<forall>c \<in> set (as @ (True, k) # (u, j) # cs). 4 dvd snd c" "mp_free s = of_nat (free_bytes (as @ (True, k) # (u, j) # cs))"
    using assms(1) bs by (simp_all add: mp_wf_def)
  have e: "?e = ?p + (4 + k) + (4 + j) + chunks_len cs" using laid_len [OF wf(1)] by simp
  have k: "k < 2 ^ 31" "j < 2 ^ 31" "k + j + 4 < 2 ^ 31" using e wf(3) by simp_all
  have get: "hdr_get s ?p = Some (chunk_hdr True k)" using laid_used(1) [OF wf(1)] by (simp add: hdr_get_def)
  have "?p + 4 \<le> length (mp_mem s)" using e wf(2) by simp
  then obtain m where m: "hdr_put s ?p (of_nat k) = Some (s\<lparr>mp_mem := m\<rparr>)" "kept (mp_mem s) m ?p (?p + 4)" "load m ?p = Some (of_nat k :: u32)"
    by (rule hdr_put_effect [of ?p _ "of_nat k"])
  let ?s = "s\<lparr>mp_mem := m, mp_free := mp_free s + of_nat k\<rparr>"
  have "laid (mp_mem s) (?p + 4 + k) ((u, j) # cs) ?e" using laid_used(2) [OF wf(1)] by simp
  then have "load (mp_mem s) (?p + 4 + k) = Some (chunk_hdr u j)" by simp
  then have get2: "hdr_get ?s (?p + 4 + k) = Some (chunk_hdr u j)" using load_kept [OF m(2)] by (simp add: hdr_get_def)
  have step: "mpool_free s (Some (?p + 4)) =
      (if \<not> u then do { s \<leftarrow> hdr_put ?s ?p (of_nat k + (chunk_hdr u j + 4)); Some (s\<lparr>mp_free := mp_free s + 4\<rparr>) } else Some ?s)"
    using get get2 m(1) chunk_hdr_simps [OF k(1)] chunk_hdr_simps [OF k(2)] by (simp add: mpool_free_def Let_def)
  show ?thesis
  proof (cases u)
    case True
    have r: "free_ref k bs = [(False, k)] @ bs" using bs True by (simp add: free_ref_def)
    have l: "laid m 0 (as @ [(False, k)] @ bs) ?e"
      "in_use m 0 (as @ [(False, k)] @ bs) = in_use (mp_mem s) 0 as @ in_use m ?p [(False, k)]
        @ in_use (mp_mem s) (?p + chunks_len [(True, k)]) bs"
      using replace_blocks [of "mp_mem s" as "[(True, k)]" bs ?e m "?p + 4" "[(False, k)]"] wf(1,2) m(2,3) bs
      by (simp_all add: chunk_hdr_free)
    have "mp_wf ?s (as @ free_ref k bs)" using l(1) wf m(2) bs r True by (simp add: mp_wf_def kept_def)
    then show ?thesis using step True r l(2) by (intro that [of ?s]) (simp_all add: add.assoc)
  next
    case False
    let ?k = "k + j + 4"
    have hdr: "of_nat k + (chunk_hdr u j + 4) = chunk_hdr False ?k" using False by (simp add: chunk_hdr_free)
    have "?p + 4 \<le> length (mp_mem ?s)" using e wf(2) m(2) by (simp add: kept_def)
    then obtain m2 where m2: "hdr_put ?s ?p (chunk_hdr False ?k) = Some (?s\<lparr>mp_mem := m2\<rparr>)" "kept m m2 ?p (?p + 4)"
      "load m2 ?p = Some (chunk_hdr False ?k)"
      by (rule hdr_put_effect [of ?p _ "chunk_hdr False ?k"]) simp
    let ?t = "?s\<lparr>mp_mem := m2, mp_free := mp_free ?s + 4\<rparr>"
    have km: "kept (mp_mem s) m2 ?p (?p + 4)" using kept_trans [OF m(2) m2(2)] .
    have r: "free_ref k bs = [(False, ?k)] @ cs" using bs False by (simp add: free_ref_def)
    have l: "laid m2 0 (as @ [(False, ?k)] @ cs) ?e"
      "in_use m2 0 (as @ [(False, ?k)] @ cs) = in_use (mp_mem s) 0 as @ in_use m2 ?p [(False, ?k)]
        @ in_use (mp_mem s) (?p + chunks_len [(True, k), (u, j)]) cs"
      using replace_blocks [of "mp_mem s" as "[(True, k), (u, j)]" cs ?e m2 "?p + 4" "[(False, ?k)]"] wf(1,2) km m2(3)
      by (simp_all add: add.commute add.left_commute)
    have "mp_wf ?t (as @ free_ref k bs)"
      using l(1) wf km r False by (simp add: mp_wf_def kept_def)
    moreover have "in_use (mp_mem s) (?p + 4 + k) bs = in_use (mp_mem s) (?p + chunks_len [(True, k), (u, j)]) cs"
      using bs False by (simp add: add.assoc)
    ultimately show ?thesis using step False r l(2) hdr m2(1) by (intro that [of ?t]) simp_all
  qed
qed

lemma mpool_free_last:
  assumes "mp_wf s (as @ [(True, k)])"
  shows "mpool_free s (Some (chunks_len as + 4)) = None"
proof -
  let ?e = "unat (mp_size s)" and ?p = "chunks_len as"
  have wf: "laid (mp_mem s) 0 (as @ [(True, k)]) ?e" "length (mp_mem s) = ?e" "?e < 2 ^ 31"
    using assms by (simp_all add: mp_wf_def)
  have e: "?e = ?p + 4 + k" using laid_len [OF wf(1)] by simp
  then have k: "k < 2 ^ 31" using wf(3) by simp
  have get: "hdr_get s ?p = Some (chunk_hdr True k)" using laid_used(1) [OF wf(1)] by (simp add: hdr_get_def)
  have "?p + 4 \<le> length (mp_mem s)" using e wf(2) by simp
  then obtain m where m: "hdr_put s ?p (of_nat k) = Some (s\<lparr>mp_mem := m\<rparr>)" "kept (mp_mem s) m ?p (?p + 4)" "load m ?p = Some (of_nat k :: u32)"
    by (rule hdr_put_effect [of ?p _ "of_nat k"])
  have "load m (?p + 4 + k) = (None :: u32 option)" using m(2) wf(2) e by (simp add: load_def buf_read_def kept_def)
  then show ?thesis using get m(1) chunk_hdr_simps [OF k] by (simp add: mpool_free_def hdr_get_def)
qed

lemma mpool_init_effect:
  assumes "length mem = unat sz" "4 \<le> unat sz" "unat sz < 2 ^ 31" "4 dvd unat sz"
  obtains s where "mpool_init mem sz = Some s" "mp_wf s [(False, unat sz - 4)]" "mp_size s = sz"
proof -
  let ?n = "unat sz - 4"
  have "(4 :: u32) \<le> sz" using assms(2) by (simp add: word_le_nat_alt)
  then have n: "sz - 4 = of_nat ?n" using assms(2) by (simp add: of_nat_diff)
  have "?n < 2 ^ 31" using assms(3) by simp
  then have h: "(sz - 4) AND 0x7fffffff = chunk_hdr False ?n"
    using chunk_hdr_simps(3) [of ?n False] by (simp only: n chunk_hdr_free)
  let ?s = "\<lparr>mp_mem = mem, mp_size = sz, mp_free = sz - 4\<rparr>"
  have "0 + 4 \<le> length (mp_mem ?s)" using assms(1,2) by simp
  then obtain m where m: "hdr_put ?s 0 (chunk_hdr False ?n) = Some (?s\<lparr>mp_mem := m\<rparr>)" "kept (mp_mem ?s) m 0 (0 + 4)"
    "load m 0 = Some (chunk_hdr False ?n)" by (rule hdr_put_effect)
  have "4 dvd ?n" using assms(4) by (rule dvd_diff_nat) simp
  moreover have "laid m 0 [(False, ?n)] (unat sz)" using m(3) assms(2) by simp
  moreover have "length m = unat sz" using m(2) assms(1) by (simp add: kept_def)
  moreover have "sz - 4 = of_nat (free_bytes [(False, ?n)])" unfolding n by simp
  ultimately have "mp_wf (?s\<lparr>mp_mem := m\<rparr>) [(False, ?n)]" using assms(3) by (simp only: mp_wf_def) simp
  then show ?thesis using m(1) h by (intro that [of "?s\<lparr>mp_mem := m\<rparr>"]) (simp_all add: mpool_init_def)
qed


subsection \<open>Resizing\<close>

lemma chunk_hdr_used_big:
  assumes "k < 2 ^ 31"
  shows "2 ^ 31 \<le> unat (chunk_hdr True k)"
proof (rule ccontr)
  assume "\<not> 2 ^ 31 \<le> unat (chunk_hdr True k)"
  then have "drop_bit 31 (unat (chunk_hdr True k)) = 0" by (simp add: drop_bit_eq_div)
  moreover have "take_bit 32 (unat (chunk_hdr True k)) = unat (chunk_hdr True k)"
    using unsigned_less [of "chunk_hdr True k", where ?'a = nat] by (simp add: take_bit_nat_eq_self)
  ultimately have "unat (drop_bit 31 (chunk_hdr True k)) = 0" by (simp only: unsigned_drop_bit_eq) simp
  then show False using chunk_hdr_simps(2) [OF assms, of True] by (simp add: chunk_used_def unat_eq_zero)
qed

text \<open>A block that has to move, because the one behind it is in use, is copied with the mark of its header
  as part of the length: whenever there is room for it, the copy runs out of the pool.\<close>

lemma realloc_move_overruns:
  assumes "mp_wf s (as @ (True, k) # (True, j) # bs)" "4 dvd unat sz" "k \<le> unat sz" "sz \<noteq> 0"
    and "alloc_ref (unat sz) (as @ (True, k) # (True, j) # bs) = (ds, Some r)"
  shows "mpool_realloc s (Some (chunks_len as + 4)) sz = None"
proof -
  let ?e = "unat (mp_size s)" and ?p = "chunks_len as"
  let ?cs = "as @ (True, k) # (True, j) # bs"
  have wf: "laid (mp_mem s) 0 ?cs ?e" "length (mp_mem s) = ?e" "?e < 2 ^ 31" using assms(1) by (simp_all add: mp_wf_def)
  have e: "?e = ?p + (4 + k) + (4 + j) + chunks_len bs" using laid_len [OF wf(1)] by simp
  have k: "k < 2 ^ 31" "j < 2 ^ 31" using e wf(3) by simp_all
  have get: "hdr_get s ?p = Some (chunk_hdr True k)" using laid_used(1) [OF wf(1)] by (simp add: hdr_get_def)
  have "laid (mp_mem s) (?p + 4 + k) ((True, j) # bs) ?e" using laid_used(2) [OF wf(1)] by simp
  then have get2: "hdr_get s (?p + 4 + k) = Some (chunk_hdr True j)" by (simp add: hdr_get_def)
  have "\<not> sz < of_nat k" using assms(3) chunk_hdr_simps(4) [OF k(1)] by (simp add: word_less_nat_alt)
  then have move: "mpool_realloc s (Some (?p + 4)) sz = realloc_move s (?p + 4) sz"
    using get get2 assms(4) chunk_hdr_simps [OF k(1)] chunk_hdr_simps(2) [OF k(2)] by (simp add: mpool_realloc_def Let_def)
  obtain s' where s': "mpool_alloc s sz = Some (Some r, s')" "mp_wf s' ds" "mp_size s' = mp_size s"
    "set (in_use (mp_mem s') 0 ds) = set (in_use (mp_mem s) 0 ?cs)
      \<union> (\<lambda>x. (x, take (unat sz) (drop x (mp_mem s')))) ` set_option (Some r)"
    using mpool_alloc_effect [OF assms(1,2,5)] .
  have "(?p + 4, take k (drop (?p + 4) (mp_mem s))) \<in> set (in_use (mp_mem s') 0 ds)"
    unfolding s'(4) using laid_used(3) [OF wf(1)] by simp
  then obtain as' k' bs' where ds: "ds = as' @ (True, k') # bs'" "?p + 4 = 0 + chunks_len as' + 4" using in_use_ex by blast
  have wf': "laid (mp_mem s') 0 (as' @ (True, k') # bs') ?e" "length (mp_mem s') = ?e" using s'(2,3) ds(1) by (simp_all add: mp_wf_def)
  have "k' < 2 ^ 31" using laid_len [OF wf'(1)] wf(3) by simp
  then have "2 ^ 31 \<le> unat (chunk_hdr True k')" by (rule chunk_hdr_used_big)
  then have "buf_read (mp_mem s') (?p + 4) (unat (chunk_hdr True k')) = None" using wf'(2) wf(3) by (simp add: buf_read_def)
  moreover have "hdr_get s' ?p = Some (chunk_hdr True k')" using laid_used(1) [OF wf'(1)] ds(2) by (simp add: hdr_get_def)
  ultimately show ?thesis using move s'(1) by (simp add: realloc_move_def obj_copy_def)
qed

end
