(* ===== verification/Pool_Properties.thy ===== *)
theory Pool_Properties
  imports Mem_Pool
begin

section \<open>Properties of mpool.c\<close>

text \<open>
  A pool as the list of its blocks: allocation and release refine functions on that list
  (\<open>alloc_ref\<close>, \<open>free_ref\<close>), and the bytes of the blocks in use are not touched. Sizes are multiples of
  four, as the code needs them to be: with others the rest of a block may be too small for a header.
\<close>

text \<open>C21. An allocation takes the first block that is large enough once the free blocks behind it are joined
  to it, and cuts off what is left. The blocks in use keep their places and bytes, the new one is beside them
  and has the size asked for; the count of free bytes is right. If there is no such block NULL is
  returned, and then the free blocks, all joined, are each too small.\<close>

theorem mpool_alloc_correct:
  assumes "mp_wf s cs" "4 dvd unat sz" "alloc_ref (unat sz) cs = (ds, r)"
  shows "\<exists>s'. mpool_alloc s sz = Some (r, s') \<and> mp_wf s' ds
    \<and> set (in_use (mp_mem s') 0 ds) = set (in_use (mp_mem s) 0 cs)
        \<union> (\<lambda>x. (x, take (unat sz) (drop x (mp_mem s')))) ` set_option r
    \<and> (r = None \<longrightarrow> joined (unat sz) ds)"
proof -
  obtain s' where "mpool_alloc s sz = Some (r, s')" "mp_wf s' ds" "mp_size s' = mp_size s"
    "set (in_use (mp_mem s') 0 ds) = set (in_use (mp_mem s) 0 cs)
      \<union> (\<lambda>x. (x, take (unat sz) (drop x (mp_mem s')))) ` set_option r"
    using mpool_alloc_effect [OF assms] .
  then show ?thesis using alloc_ref_None assms(3) by blast
qed

definition pool_64 :: mpool where
  "pool_64 = the (mpool_init (replicate 64 0) 64)"

lemma pool_64_wf: "mp_wf pool_64 [(False, 60)]"
proof -
  obtain s where "mpool_init (replicate 64 0) 64 = Some s" "mp_wf s [(False, unat (64 :: u32) - 4)]"
    by (rule mpool_init_effect [of "replicate 64 0" 64]) simp_all
  then show ?thesis by (simp only: pool_64_def option.sel) simp
qed

lemma mpool_alloc_correct_witness:
  "\<exists>s'. mpool_alloc pool_64 8 = Some (Some 4, s') \<and> mp_wf s' [(True, 8), (False, 48)]"
  using mpool_alloc_correct [OF pool_64_wf, of 8 "[(True, 8), (False, 48)]" "Some 4"] by (auto simp: cut_def)

text \<open>C22. Giving back a block that is not the last one makes it free, joined with the one behind it if that is
  free, and leaves the other blocks in use as they are, bytes included. Giving back the last one reads
  a header behind the area.\<close>

theorem mpool_free_correct:
  assumes "mp_wf s (as @ (True, k) # bs)"
  shows "if bs = [] then mpool_free s (Some (chunks_len as + 4)) = None
    else \<exists>s'. mpool_free s (Some (chunks_len as + 4)) = Some s' \<and> mp_wf s' (as @ free_ref k bs)
      \<and> in_use (mp_mem s') 0 (as @ free_ref k bs) = in_use (mp_mem s) 0 as @ in_use (mp_mem s) (chunks_len as + 4 + k) bs"
  using mpool_free_last [of s as k] assms by (cases "bs = []") (auto intro: mpool_free_effect [OF assms])

lemma mpool_free_correct_witness:
  "\<exists>s t. mpool_alloc pool_64 8 = Some (Some 4, s) \<and> mpool_free s (Some 4) = Some t \<and> mp_wf t [(False, 60)]"
proof -
  obtain s where s: "mpool_alloc pool_64 8 = Some (Some 4, s)" "mp_wf s ([] @ (True, 8) # [(False, 48)])"
    by (rule mpool_alloc_effect [OF pool_64_wf, of 8 "[(True, 8), (False, 48)]" "Some 4"]) (auto simp: cut_def)
  then show ?thesis using mpool_free_correct [OF s(2)] by (auto simp: free_ref_def)
qed

text \<open>C23. Resizing a block, to the same size or a larger one, when the block behind it is in use and there is room
  elsewhere, faults: the mark of the header is part of the number of bytes copied.\<close>

theorem mpool_realloc_overruns:
  assumes "mp_wf s (as @ (True, k) # (True, j) # bs)" "4 dvd unat sz" "k \<le> unat sz" "sz \<noteq> 0"
    and "alloc_ref (unat sz) (as @ (True, k) # (True, j) # bs) = (ds, Some r)"
  shows "mpool_realloc s (Some (chunks_len as + 4)) sz = None"
  using assms by (rule realloc_move_overruns)

lemma mpool_realloc_overruns_witness:
  "\<exists>s t. mpool_alloc pool_64 8 = Some (Some 4, s) \<and> mpool_alloc s 8 = Some (Some 16, t) \<and> mpool_realloc t (Some 4) 8 = None"
proof -
  obtain s where s: "mpool_alloc pool_64 8 = Some (Some 4, s)" "mp_wf s [(True, 8), (False, 48)]"
    by (rule mpool_alloc_effect [OF pool_64_wf, of 8 "[(True, 8), (False, 48)]" "Some 4"]) (auto simp: cut_def)
  obtain t where t: "mpool_alloc s 8 = Some (Some 16, t)" "mp_wf t ([] @ (True, 8) # (True, 8) # [(False, 36)])"
    by (rule mpool_alloc_effect [OF s(2), of 8 "[(True, 8), (True, 8), (False, 36)]" "Some 16"]) (auto simp: cut_def)
  then show ?thesis using s mpool_realloc_overruns [OF t(2), of 8 "[(True, 8), (True, 8), (True, 8), (False, 24)]" 28]
    by (auto simp: cut_def)
qed

end
