(* ===== verification/Uintx.thy ===== *)
theory Uintx
  imports Bit_Array Byte_Memory
begin

section \<open>uintx.c\<close>

text \<open>
  src/uintx: unsigned integers of any number of bits in an array of bytes, the least significant
  byte first. The functions work on the array and the number of bits \<open>n\<close>, a \<open>size_t\<close> that no object
  makes wrap. The two operands of a function are different arrays.
\<close>

subsection \<open>The operations\<close>

definition uintx_nbytes :: "nat \<Rightarrow> nat" where
  "uintx_nbytes n = (n + 7) div 8"

definition ux_test :: "u8 list \<Rightarrow> nat \<Rightarrow> nat option" where
  "ux_test x n = do { b \<leftarrow> buf_get x (n div 8); Some (if b AND bitmask n \<noteq> 0 then 1 else 0) }"

definition bitvmask :: "nat \<Rightarrow> bool \<Rightarrow> u8" where
  "bitvmask n v = push_bit (n mod 8) (if v then 1 else 0)"

definition ux_vset :: "u8 list \<Rightarrow> nat \<Rightarrow> bool \<Rightarrow> u8 list option" where
  "ux_vset x n v =
     do {
       x \<leftarrow> bit_clear x n;
       b \<leftarrow> buf_get x (n div 8);
       buf_set x (n div 8) (b OR bitvmask n v)
     }"

definition uintx_init :: "u8 list \<Rightarrow> nat \<Rightarrow> u8 list option" where
  "uintx_init x n = buf_write x 0 (replicate (uintx_nbytes n) 0)"

lemma drop_bit_less: "v \<noteq> 0 \<Longrightarrow> unat (drop_bit (Suc 0) (v :: u64)) < unat v"
  using unat_gt_0 [of v] by (simp add: drop_bit_eq_div unat_div)

text \<open>The bits of the value, as long as it is not zero.\<close>

function set_value :: "u8 list \<Rightarrow> nat \<Rightarrow> u64 \<Rightarrow> u8 list option" where
  "set_value x i v =
     (if v \<noteq> 0
      then do { x \<leftarrow> ux_vset x i (v AND 1 \<noteq> 0); set_value x (i + 1) (drop_bit 1 v) }
      else Some x)"
  by pat_completeness auto
termination by (relation "measure (\<lambda>(x, i, v). unat v)") (auto simp: drop_bit_less)

definition uintx_from_u64 :: "u8 list \<Rightarrow> nat \<Rightarrow> u64 \<Rightarrow> u8 list option" where
  "uintx_from_u64 x n v = do { x \<leftarrow> uintx_init x n; set_value x 0 v }"

text \<open>The loops over bytes: \<open>p\<close> is the byte looked at, \<open>pe\<close> the last one (-1 when there is none).\<close>

definition last_byte :: "nat \<Rightarrow> int" where
  "last_byte n = int (uintx_nbytes n) - 1"

function all_zero :: "u8 list \<Rightarrow> nat \<Rightarrow> int \<Rightarrow> bool option" where
  "all_zero x p pe =
     (if int p < pe
      then do { b \<leftarrow> buf_get x p; if b \<noteq> 0 then Some False else all_zero x (p + 1) pe }
      else Some True)"
  by pat_completeness auto
termination by (relation "measure (\<lambda>(x, p, pe). nat (pe - int p))") auto

definition uintx_is_zero :: "u8 list \<Rightarrow> nat \<Rightarrow> bool option" where
  "uintx_is_zero x n = all_zero x 0 (last_byte n)"

function inc_bytes :: "u8 list \<Rightarrow> nat \<Rightarrow> int \<Rightarrow> (bool \<times> u8 list) option" where
  "inc_bytes x p pe =
     do {
       b \<leftarrow> buf_get x p;
       x \<leftarrow> buf_set x p (b + 1);
       if b + 1 = 0 \<and> int p < pe then inc_bytes x (p + 1) pe else Some (int p = pe \<and> b + 1 = 0, x)
     }"
  by pat_completeness auto
termination by (relation "measure (\<lambda>(x, p, pe). nat (pe - int p))") auto

definition uintx_inc :: "u8 list \<Rightarrow> nat \<Rightarrow> (bool \<times> u8 list) option" where
  "uintx_inc x n = inc_bytes x 0 (last_byte n)"

function dec_bytes :: "u8 list \<Rightarrow> nat \<Rightarrow> int \<Rightarrow> (bool \<times> u8 list) option" where
  "dec_bytes x p pe =
     do {
       b \<leftarrow> buf_get x p;
       x \<leftarrow> buf_set x p (b - 1);
       if b = 0 \<and> int p < pe then dec_bytes x (p + 1) pe else Some (int p = pe \<and> b - 1 = 0, x)
     }"
  by pat_completeness auto
termination by (relation "measure (\<lambda>(x, p, pe). nat (pe - int p))") auto

definition uintx_dec :: "u8 list \<Rightarrow> nat \<Rightarrow> (bool \<times> u8 list) option" where
  "uintx_dec x n = dec_bytes x 0 (last_byte n)"

text \<open>The three loops of the addition: both operands, the rest of \<open>a\<close>, the rest of \<open>b\<close>.\<close>

function add_both :: "u8 list \<Rightarrow> nat \<Rightarrow> u8 list \<Rightarrow> nat \<Rightarrow> nat \<Rightarrow> nat \<Rightarrow> (u8 list \<times> nat \<times> nat) option" where
  "add_both a an b bn i carry =
     (if i < an \<and> i < bn
      then do {
        x \<leftarrow> ux_test a i;
        y \<leftarrow> ux_test b i;
        let d = x + y + carry;
        a \<leftarrow> ux_vset a i (d mod 2 = 1);
        add_both a an b bn (i + 1) (d div 2)
      }
      else Some (a, i, carry))"
  by pat_completeness auto
termination by (relation "measure (\<lambda>(a, an, b, bn, i, carry). an - i)") auto

function add_a :: "u8 list \<Rightarrow> nat \<Rightarrow> nat \<Rightarrow> nat \<Rightarrow> (u8 list \<times> nat \<times> nat) option" where
  "add_a a an i carry =
     (if i < an
      then do {
        x \<leftarrow> ux_test a i;
        let d = x + carry;
        a \<leftarrow> ux_vset a i (d mod 2 = 1);
        add_a a an (i + 1) (d div 2)
      }
      else Some (a, i, carry))"
  by pat_completeness auto
termination by (relation "measure (\<lambda>(a, an, i, carry). an - i)") auto

function add_b :: "u8 list \<Rightarrow> u8 list \<Rightarrow> nat \<Rightarrow> nat \<Rightarrow> nat \<Rightarrow> (u8 list \<times> nat \<times> nat) option" where
  "add_b a b bn i carry =
     (if i < bn
      then do {
        y \<leftarrow> ux_test b i;
        let d = y + carry;
        a \<leftarrow> ux_vset a i (d mod 2 = 1);
        add_b a b bn (i + 1) (d div 2)
      }
      else Some (a, i, carry))"
  by pat_completeness auto
termination by (relation "measure (\<lambda>(a, b, bn, i, carry). bn - i)") auto

declare set_value.simps [simp del] add_both.simps [simp del] add_a.simps [simp del] add_b.simps [simp del]
  all_zero.simps [simp del] inc_bytes.simps [simp del] dec_bytes.simps [simp del]

definition uintx_add :: "u8 list \<Rightarrow> nat \<Rightarrow> u8 list \<Rightarrow> nat \<Rightarrow> u8 list option" where
  "uintx_add a an b bn =
     do {
       (a, i, carry) \<leftarrow> add_both a an b bn 0 0;
       (a, i, carry) \<leftarrow> add_a a an i carry;
       (a, i, carry) \<leftarrow> add_b a b bn i carry;
       if carry \<noteq> 0 then bit_set a i else Some a
     }"

text \<open>The operand of the variants with a \<open>uint64_t\<close>: a local array of 8 bytes, whatever it holds.\<close>

definition ux64 :: "u64 \<Rightarrow> u8 list option" where
  "ux64 v = uintx_from_u64 (replicate 8 0) 64 v"

definition uintx_add64 :: "u8 list \<Rightarrow> nat \<Rightarrow> u64 \<Rightarrow> u8 list option" where
  "uintx_add64 x n v = do { x64 \<leftarrow> ux64 v; uintx_add x n x64 64 }"

text \<open>\<open>and\<close>, \<open>xor\<close> and \<open>or\<close> differ in the operation on two bits only.\<close>

fun bits_op :: "(bool \<Rightarrow> bool \<Rightarrow> bool) \<Rightarrow> u8 list \<Rightarrow> u8 list \<Rightarrow> nat \<Rightarrow> nat \<Rightarrow> u8 list option" where
  "bits_op f a b i 0 = Some a"
| "bits_op f a b i (Suc k) =
     do {
       x \<leftarrow> ux_test a i;
       y \<leftarrow> ux_test b i;
       a \<leftarrow> ux_vset a i (f (x \<noteq> 0) (y \<noteq> 0));
       bits_op f a b (i + 1) k
     }"

definition uintx_and :: "u8 list \<Rightarrow> nat \<Rightarrow> u8 list \<Rightarrow> nat \<Rightarrow> u8 list option" where
  "uintx_and a an b bn = bits_op (\<and>) a b 0 (min an bn)"

definition uintx_xor :: "u8 list \<Rightarrow> nat \<Rightarrow> u8 list \<Rightarrow> nat \<Rightarrow> u8 list option" where
  "uintx_xor a an b bn = bits_op (\<noteq>) a b 0 (min an bn)"

definition uintx_or :: "u8 list \<Rightarrow> nat \<Rightarrow> u8 list \<Rightarrow> nat \<Rightarrow> u8 list option" where
  "uintx_or a an b bn = bits_op (\<or>) a b 0 (min an bn)"

definition uintx_and64 :: "u8 list \<Rightarrow> nat \<Rightarrow> u64 \<Rightarrow> u8 list option" where
  "uintx_and64 x n v = do { x64 \<leftarrow> ux64 v; uintx_and x n x64 64 }"

definition uintx_xor64 :: "u8 list \<Rightarrow> nat \<Rightarrow> u64 \<Rightarrow> u8 list option" where
  "uintx_xor64 x n v = do { x64 \<leftarrow> ux64 v; uintx_xor x n x64 64 }"

definition uintx_or64 :: "u8 list \<Rightarrow> nat \<Rightarrow> u64 \<Rightarrow> u8 list option" where
  "uintx_or64 x n v = do { x64 \<leftarrow> ux64 v; uintx_or x n x64 64 }"

text \<open>
  The comparison. \<open>high_bytes\<close> goes down over the bytes of the longer operand from \<open>p\<close> on, while it
  has at least 8 bits more than \<open>lim\<close>, and \<open>high_bits\<close> over the bits left; None is the value when all
  of them are 0, else the number of bits left is returned. A pointer below the array faults when it
  is used.
\<close>

definition byte_at :: "u8 list \<Rightarrow> int \<Rightarrow> u8 option" where
  "byte_at x p = (if p < 0 then None else buf_get x (nat p))"

function high_bytes :: "u8 list \<Rightarrow> int \<Rightarrow> nat \<Rightarrow> nat \<Rightarrow> nat option option" where
  "high_bytes x p n lim =
     (if n - lim \<ge> 8
      then do { b \<leftarrow> byte_at x p; if b \<noteq> 0 then Some None else high_bytes x (p - 1) (n - 8) lim }
      else Some (Some n))"
  by pat_completeness auto
termination by (relation "measure (\<lambda>(x, p, n, lim). n)") auto

function high_bits :: "u8 list \<Rightarrow> nat \<Rightarrow> nat \<Rightarrow> bool option" where
  "high_bits x n lim =
     (if lim < n then do { b \<leftarrow> ux_test x (n - 1); if b \<noteq> 0 then Some True else high_bits x (n - 1) lim }
      else Some False)"
  by pat_completeness auto
termination by (relation "measure (\<lambda>(x, n, lim). n)") auto

definition exceeds :: "u8 list \<Rightarrow> nat \<Rightarrow> nat \<Rightarrow> bool option" where
  "exceeds x n lim =
     do {
       r \<leftarrow> high_bytes x (last_byte n) n lim;
       case r of None \<Rightarrow> Some True | Some n \<Rightarrow> high_bits x n lim
     }"

text \<open>The bytes both have: down to the first that differs; \<open>n\<close> is the number of bits left.\<close>

function same_bytes :: "u8 list \<Rightarrow> u8 list \<Rightarrow> int \<Rightarrow> nat \<Rightarrow> nat option" where
  "same_bytes a b p n =
     (if 8 \<le> n
      then do {
        x \<leftarrow> byte_at a p;
        y \<leftarrow> byte_at b p;
        if x \<noteq> y then Some n else same_bytes a b (p - 1) (n - 8)
      }
      else Some n)"
  by pat_completeness auto
termination by (relation "measure (\<lambda>(a, b, p, n). n)") auto

fun compare_bits :: "u8 list \<Rightarrow> u8 list \<Rightarrow> nat \<Rightarrow> int option" where
  "compare_bits a b 0 = Some 0"
| "compare_bits a b (Suc n) =
     do {
       v \<leftarrow> ux_test a n;
       w \<leftarrow> ux_test b n;
       if v \<noteq> w then Some (if v \<noteq> 0 then 1 else - 1) else compare_bits a b n
     }"

declare high_bytes.simps [simp del] high_bits.simps [simp del] same_bytes.simps [simp del]

definition uintx_compare :: "u8 list \<Rightarrow> nat \<Rightarrow> u8 list \<Rightarrow> nat \<Rightarrow> int option" where
  "uintx_compare a an b bn =
     do {
       more \<leftarrow> (if an > bn then exceeds a an bn else Some False);
       if more then Some 1
       else do {
         less \<leftarrow> (if bn > an then exceeds b bn an else Some False);
         if less then Some (- 1)
         else do {
           let n = min an bn;
           n \<leftarrow> same_bytes a b (last_byte n) n;
           compare_bits a b n
         }
       }
     }"

definition uintx_compare64 :: "u8 list \<Rightarrow> nat \<Rightarrow> u64 \<Rightarrow> int option" where
  "uintx_compare64 x n v = do { x64 \<leftarrow> ux64 v; uintx_compare x n x64 64 }"

subsection \<open>Counting\<close>

lemma word_of_int_byte: "word_of_int (uint b + 256 * k) = (b :: u8)"
proof -
  have "(256 :: u8) = 0" by simp
  then have "256 * word_of_int k = (0 :: u8)" by (simp only: mult_zero_left)
  then show ?thesis by simp
qed

lemma uint_last: "(b :: u8) + 1 = 0 \<Longrightarrow> uint b = 255"
  using eq_neg_iff_add_eq_0 [of b 1] by (simp add: unsigned_minus_1_eq_mask mask_eq_exp_minus_1)

lemma uint_succ: "(b :: u8) + 1 \<noteq> 0 \<Longrightarrow> uint (b + 1) = uint b + 1"
  using uint_plus_if' [of b 1] uint_u8_bounds [of b] uint_0_iff [of "b + 1"] by (auto split: if_splits)

lemma uint_last_iff: "uint (b :: u8) = 255 \<longleftrightarrow> b + 1 = 0"
  using uint_last [of b] uint_succ [of b] uint_u8_bounds [of "b + 1"] by linarith

lemma byte_div: "(uint (b :: u8) + 256 * k) div 256 = k"
  using uint_u8_bounds [of b] by simp

lemma le_bytes_succ:
  "le_bytes (Suc (length ys)) (le_val (b # ys) + 1) =
    (b + 1) # (if b + 1 = 0 then le_bytes (length ys) (le_val ys + 1) else ys)"
proof (cases "b + 1 = 0")
  case True
  then have "uint b = 255" by (rule uint_last)
  then show ?thesis using True word_of_int_byte [of 0 "le_val ys + 1"] by (simp add: algebra_simps)
next
  case False
  then have u: "uint b + 256 * le_val ys + 1 = uint (b + 1) + 256 * le_val ys" using uint_succ by simp
  then have "(uint (b + 1) + 256 * le_val ys) div 256 = le_val ys" using uint_u8_bounds [of "b + 1"] by simp
  then show ?thesis using False
    by (simp only: le_bytes.simps le_val.simps u word_of_int_byte le_bytes_val if_False)
qed

lemma inc_bytes_effect:
  assumes "ys \<noteq> []"
  shows "inc_bytes (pre @ ys @ post) (length pre) (int (length pre + length ys) - 1) =
    Some (le_val ys + 1 = 256 ^ length ys, pre @ le_bytes (length ys) (le_val ys + 1) @ post)"
  using assms
proof (induction ys arbitrary: pre)
  case (Cons b ys)
  note le = le_bytes_succ [of ys b]
  show ?case
  proof (cases "b + 1 = 0 \<and> ys \<noteq> []")
    case True
    then have "uint b = 255" using uint_last by simp
    then have val: "le_val (b # ys) + 1 = 256 ^ length (b # ys) \<longleftrightarrow> le_val ys + 1 = 256 ^ length ys" by (simp; linarith)
    have "inc_bytes (pre @ (b # ys) @ post) (length pre) (int (length pre + length (b # ys)) - 1)
      = inc_bytes ((pre @ [b + 1]) @ ys @ post) (length (pre @ [b + 1])) (int (length (pre @ [b + 1]) + length ys) - 1)"
      using True by (subst inc_bytes.simps) (simp add: buf_simps list_update_append)
    also have "\<dots> = Some (le_val ys + 1 = 256 ^ length ys, (pre @ [b + 1]) @ le_bytes (length ys) (le_val ys + 1) @ post)"
      using True by (intro Cons.IH) simp
    finally show ?thesis unfolding val unfolding length_Cons le using True by simp
  next
    case False
    have "le_val (b # ys) + 1 = 256 ^ length (b # ys) \<longleftrightarrow> ys = [] \<and> b + 1 = 0"
    proof (cases "ys = []")
      case True
      then show ?thesis using uint_last_iff [of b] by simp
    next
      case ne: False
      then have "b + 1 \<noteq> 0" using False by simp
      then have "le_val (b # ys) + 1 = le_val ((b + 1) # ys)" using uint_succ by simp
      then show ?thesis using le_val_less [of "(b + 1) # ys"] ne by simp
    qed
    then show ?thesis using False le
      by (subst inc_bytes.simps) (auto simp: buf_simps list_update_append)
  qed
qed simp


lemma le_bytes_pred:
  "le_bytes (Suc (length ys)) (le_val (b # ys) - 1) =
    (b - 1) # (if b = 0 then le_bytes (length ys) (le_val ys - 1) else ys)"
proof (cases "b = 0")
  case True
  then have u: "uint b + 256 * le_val ys - 1 = uint (b - 1) + 256 * (le_val ys - 1)"
    by (simp add: unsigned_minus_1_eq_mask mask_eq_exp_minus_1)
  have "(uint (b - 1) + 256 * (le_val ys - 1)) div 256 = le_val ys - 1" by (rule byte_div)
  then show ?thesis using True
    unfolding le_bytes.simps le_val.simps u word_of_int_byte byte_div by simp
next
  case False
  then have u: "uint b + 256 * le_val ys - 1 = uint (b - 1) + 256 * le_val ys"
    using uint_succ [of "b - 1"] by simp
  then have "(uint (b - 1) + 256 * le_val ys) div 256 = le_val ys" using uint_u8_bounds [of "b - 1"] by simp
  then show ?thesis using False
    by (simp only: le_bytes.simps le_val.simps u word_of_int_byte le_bytes_val if_False)
qed

text \<open>The value returned says that the number was 256 to the power of one less than its bytes, not that it was 0.\<close>

lemma dec_bytes_effect:
  assumes "ys \<noteq> []"
  shows "dec_bytes (pre @ ys @ post) (length pre) (int (length pre + length ys) - 1) =
    Some (le_val ys = 256 ^ (length ys - 1), pre @ le_bytes (length ys) (le_val ys - 1) @ post)"
  using assms
proof (induction ys arbitrary: pre)
  case (Cons b ys)
  note le = le_bytes_pred [of ys b]
  show ?case
  proof (cases "b = 0 \<and> ys \<noteq> []")
    case True
    then obtain m where m: "length ys = Suc m" by (cases ys) auto
    then have val: "le_val (b # ys) = 256 ^ (length (b # ys) - 1) \<longleftrightarrow> le_val ys = 256 ^ (length ys - 1)"
      using True by simp
    have "dec_bytes (pre @ (b # ys) @ post) (length pre) (int (length pre + length (b # ys)) - 1)
      = dec_bytes ((pre @ [b - 1]) @ ys @ post) (length (pre @ [b - 1])) (int (length (pre @ [b - 1]) + length ys) - 1)"
      using True by (subst dec_bytes.simps) (simp add: buf_simps list_update_append)
    also have "\<dots> = Some (le_val ys = 256 ^ (length ys - 1), (pre @ [b - 1]) @ le_bytes (length ys) (le_val ys - 1) @ post)"
      using True by (intro Cons.IH) simp
    finally show ?thesis unfolding val unfolding length_Cons le using True by simp
  next
    case False
    have val: "le_val (b # ys) = 256 ^ (length (b # ys) - 1) \<longleftrightarrow> ys = [] \<and> b - 1 = 0"
    proof (cases "ys = []")
      case True
      moreover have "uint b = 1 \<longleftrightarrow> b - 1 = 0" using uint_1 [where ?'a = 8] word_uint_eq_iff [of b 1] by simp
      ultimately show ?thesis by simp
    next
      case ne: False
      then have b: "uint b \<noteq> 0" "uint b < 256" using False uint_u8_bounds [of b] by (simp_all add: unsigned_eq_0_iff)
      have "\<not> (256 dvd uint b + 256 * le_val ys)" using b uint_u8_bounds(1) [of b]
        by (simp add: dvd_eq_mod_eq_0)
      moreover have "256 dvd (256 :: int) ^ length ys" using ne by (cases ys) simp_all
      ultimately have "uint b + 256 * le_val ys \<noteq> 256 ^ length ys" by metis
      then show ?thesis using ne by simp
    qed
    have "dec_bytes (pre @ (b # ys) @ post) (length pre) (int (length pre + length (b # ys)) - 1)
      = Some (ys = [] \<and> b - 1 = 0, pre @ (b - 1) # ys @ post)"
      using False by (subst dec_bytes.simps) (auto simp: buf_simps list_update_append)
    then show ?thesis unfolding val unfolding length_Cons le using False by (cases "ys = []") simp_all
  qed
qed simp

lemma nbytes_split:
  assumes "0 < n" "uintx_nbytes n \<le> length x"
  shows "take (uintx_nbytes n) x \<noteq> []" "last_byte n = int (length ([] :: u8 list) + length (take (uintx_nbytes n) x)) - 1"
  using assms by (auto simp: last_byte_def uintx_nbytes_def)

lemma uintx_inc_effect:
  assumes "0 < n" "uintx_nbytes n \<le> length x"
  shows "uintx_inc x n = Some (le_val (take (uintx_nbytes n) x) + 1 = 256 ^ uintx_nbytes n,
    le_bytes (uintx_nbytes n) (le_val (take (uintx_nbytes n) x) + 1) @ drop (uintx_nbytes n) x)"
  using inc_bytes_effect [OF nbytes_split(1) [OF assms], of "[]" "drop (uintx_nbytes n) x"] nbytes_split(2) [OF assms] assms(2)
  by (simp add: uintx_inc_def)

lemma uintx_dec_effect:
  assumes "0 < n" "uintx_nbytes n \<le> length x"
  shows "uintx_dec x n = Some (le_val (take (uintx_nbytes n) x) = 256 ^ (uintx_nbytes n - 1),
    le_bytes (uintx_nbytes n) (le_val (take (uintx_nbytes n) x) - 1) @ drop (uintx_nbytes n) x)"
  using dec_bytes_effect [OF nbytes_split(1) [OF assms], of "[]" "drop (uintx_nbytes n) x"] nbytes_split(2) [OF assms] assms(2)
  by (simp add: uintx_dec_def)


subsection \<open>Numbers as bits\<close>

text \<open>\<open>useg x i n\<close>: what the bits from \<open>i\<close> up to \<open>n\<close> contribute to the number; \<open>uval x n\<close>: its value.\<close>

definition useg :: "u8 list \<Rightarrow> nat \<Rightarrow> nat \<Rightarrow> nat" where
  "useg x i n = (\<Sum>j = i..<n. of_bool (bits x j) * 2 ^ j)"

definition uval :: "u8 list \<Rightarrow> nat \<Rightarrow> nat" where
  "uval x n = useg x 0 n"

lemma useg_cong: "(\<And>j. i \<le> j \<Longrightarrow> j < n \<Longrightarrow> bits x j = bits y j) \<Longrightarrow> useg x i n = useg y i n"
  by (simp add: useg_def)

lemma useg_step: "i < n \<Longrightarrow> useg x i n = of_bool (bits x i) * 2 ^ i + useg x (Suc i) n"
  unfolding useg_def by (rule sum.atLeast_Suc_lessThan)

lemma useg_empty [simp]: "n \<le> i \<Longrightarrow> useg x i n = 0"
  by (simp add: useg_def)

lemma useg_split: "i \<le> k \<Longrightarrow> k \<le> n \<Longrightarrow> useg x i n = useg x i k + useg x k n"
  unfolding useg_def by (simp only: sum.atLeastLessThan_concat)

lemma useg_top: "useg x 0 (Suc n) = useg x 0 n + of_bool (bits x n) * 2 ^ n"
  by (simp add: useg_def)

lemma uval_less: "uval x n < 2 ^ n"
proof (induction n)
  case (Suc n)
  then show ?case by (simp add: uval_def useg_top)
qed (simp add: uval_def)

lemma ux_test_effect: "n < 8 * length x \<Longrightarrow> ux_test x n = Some (of_bool (bits x n))"
  using byte_in [of n x] by (simp add: ux_test_def buf_simps and_bitmask_zero_iff bits_def)

lemma ux_vset_effect:
  assumes "n < 8 * length x"
  obtains x' where "ux_vset x n v = Some x'" "length x' = length x" "\<And>i. bits x' i = (if i = n then v else bits x i)"
proof -
  obtain y where y: "bit_clear x n = Some y" "length y = length x" "\<forall>i. bits y i \<longleftrightarrow> i \<noteq> n \<and> bits x i"
    using bit_clear_effect [OF assms] by blast
  have p: "n div 8 < length y" using byte_in [OF assms] y(2) by simp
  let ?x = "y[n div 8 := y ! (n div 8) OR bitvmask n v]"
  have b: "bit (bitvmask n v) j \<longleftrightarrow> v \<and> j = n mod 8" for j
    by (auto simp: bitvmask_def bit_simps)
  have "bits ?x i \<longleftrightarrow> (if i = n then v else bits x i)" for i
  proof -
    have "i = n \<longleftrightarrow> i div 8 = n div 8 \<and> i mod 8 = n mod 8" by (metis div_mult_mod_eq)
    moreover have "bits ?x i \<longleftrightarrow> (if i div 8 = n div 8 then bits y i \<or> v \<and> i mod 8 = n mod 8 else bits y i)"
      unfolding bits_update [OF p] by (auto simp: bit_or_iff b bits_def)
    ultimately show ?thesis using y(3) by auto
  qed
  then show ?thesis using that [of ?x] y(1,2) p by (simp add: ux_vset_def buf_simps)
qed

subsection \<open>Addition\<close>

lemma carry_arith:
  fixes x y c :: nat
  shows "of_bool ((x + y + c) mod 2 = 1) + (x + y + c) div 2 * 2 = x + y + c"
proof -
  have "of_bool (d mod 2 = 1) + d div 2 * 2 = d" for d :: nat
    using div_mult_mod_eq [of d 2] by (cases "d mod 2 = 1") (auto simp: mod2_eq_if split: if_splits)
  then show ?thesis .
qed

lemma add_both_effect:
  assumes "i \<le> m" "m = min an bn" "m \<le> 8 * length a" "m \<le> 8 * length b" "c \<le> 1"
  shows "\<exists>a' c'. add_both a an b bn i c = Some (a', m, c') \<and> length a' = length a \<and> c' \<le> 1
    \<and> (\<forall>j. \<not> (i \<le> j \<and> j < m) \<longrightarrow> bits a' j = bits a j)
    \<and> useg a' i m + c' * 2 ^ m = useg a i m + useg b i m + c * 2 ^ i"
  using assms
proof (induction "m - i" arbitrary: i a c)
  case 0
  then show ?case by (subst add_both.simps) auto
next
  case (Suc k)
  then have i: "i < an" "i < bn" "i < m" "i < 8 * length a" "i < 8 * length b" by auto
  let ?d = "of_bool (bits a i) + of_bool (bits b i) + c"
  obtain a1 where a1: "ux_vset a i (?d mod 2 = 1) = Some a1" "length a1 = length a"
    "\<And>j. bits a1 j = (if j = i then ?d mod 2 = 1 else bits a j)"
    using ux_vset_effect [OF i(4)] by blast
  have "?d \<le> 3" using Suc.prems(5) by (auto simp: of_bool_def)
  then have "?d div 2 \<le> 1" by linarith
  have "k = m - Suc i" "Suc i \<le> m" "m \<le> 8 * length a1" using Suc.hyps(2) i(3) Suc.prems(3) a1(2) by simp_all
  from Suc.hyps(1) [OF this(1,2) Suc.prems(2) this(3) Suc.prems(4) \<open>?d div 2 \<le> 1\<close>]
  obtain a' c' where r: "add_both a1 an b bn (Suc i) (?d div 2) = Some (a', m, c')" "length a' = length a" "c' \<le> 1"
    "\<forall>j. \<not> (Suc i \<le> j \<and> j < m) \<longrightarrow> bits a' j = bits a1 j"
    "useg a' (Suc i) m + c' * 2 ^ m = useg a1 (Suc i) m + useg b (Suc i) m + ?d div 2 * 2 ^ Suc i"
    using a1(2) by auto
  have step: "add_both a an b bn i c = add_both a1 an b bn (Suc i) (?d div 2)"
    using i ux_test_effect [OF i(4)] ux_test_effect [OF i(5)] a1(1) by (subst add_both.simps) (simp add: Let_def)
  have "useg a1 (Suc i) m = useg a (Suc i) m" using a1(3) by (intro useg_cong) simp
  moreover have "bits a' i \<longleftrightarrow> ?d mod 2 = 1" using r(4) a1(3) by simp
  moreover have "(of_bool (?d mod 2 = 1) + ?d div 2 * 2) * 2 ^ i = ?d * 2 ^ i" by (simp only: carry_arith)
  ultimately have "useg a' i m + c' * 2 ^ m = useg a i m + useg b i m + c * 2 ^ i"
    using r(5) useg_step [OF i(3), of a'] useg_step [OF i(3), of a] useg_step [OF i(3), of b]
    by (simp add: algebra_simps)
  moreover have "\<forall>j. \<not> (i \<le> j \<and> j < m) \<longrightarrow> bits a' j = bits a j" using r(4) a1(3) i(3) by auto
  ultimately show ?case using step r(1-3) by simp
qed


lemma add_a_effect:
  assumes "i \<le> an" "an \<le> 8 * length a" "c \<le> 1"
  shows "\<exists>a' c'. add_a a an i c = Some (a', an, c') \<and> length a' = length a \<and> c' \<le> 1
    \<and> (\<forall>j. \<not> (i \<le> j \<and> j < an) \<longrightarrow> bits a' j = bits a j)
    \<and> useg a' i an + c' * 2 ^ an = useg a i an + c * 2 ^ i"
  using assms
proof (induction "an - i" arbitrary: i a c)
  case 0
  then show ?case by (subst add_a.simps) auto
next
  case (Suc k)
  then have i: "i < an" "i < 8 * length a" by auto
  let ?d = "of_bool (bits a i) + c"
  obtain a1 where a1: "ux_vset a i (?d mod 2 = 1) = Some a1" "length a1 = length a"
    "\<And>j. bits a1 j = (if j = i then ?d mod 2 = 1 else bits a j)"
    using ux_vset_effect [OF i(2)] by blast
  have "?d \<le> 3" using Suc.prems(3) by (auto simp: of_bool_def)
  then have "?d div 2 \<le> 1" by linarith
  have "k = an - Suc i" "Suc i \<le> an" "an \<le> 8 * length a1" using Suc.hyps(2) i(1) Suc.prems(2) a1(2) by simp_all
  from Suc.hyps(1) [OF this \<open>?d div 2 \<le> 1\<close>]
  obtain a' c' where r: "add_a a1 an (Suc i) (?d div 2) = Some (a', an, c')" "length a' = length a" "c' \<le> 1"
    "\<forall>j. \<not> (Suc i \<le> j \<and> j < an) \<longrightarrow> bits a' j = bits a1 j"
    "useg a' (Suc i) an + c' * 2 ^ an = useg a1 (Suc i) an + ?d div 2 * 2 ^ Suc i"
    using a1(2) by auto
  have step: "add_a a an i c = add_a a1 an (Suc i) (?d div 2)"
    using i ux_test_effect [OF i(2)] a1(1) by (subst add_a.simps) (simp add: Let_def)
  have "useg a1 (Suc i) an = useg a (Suc i) an" using a1(3) by (intro useg_cong) simp
  moreover have "bits a' i \<longleftrightarrow> ?d mod 2 = 1" using r(4) a1(3) by simp
  moreover have "(of_bool (?d mod 2 = 1) + ?d div 2 * 2) * 2 ^ i = ?d * 2 ^ i" using carry_arith [of _ 0 c] by simp
  ultimately have "useg a' i an + c' * 2 ^ an = useg a i an + c * 2 ^ i"
    using r(5) useg_step [OF i(1), of a'] useg_step [OF i(1), of a] by (simp add: algebra_simps)
  moreover have "\<forall>j. \<not> (i \<le> j \<and> j < an) \<longrightarrow> bits a' j = bits a j" using r(4) a1(3) i(1) by auto
  ultimately show ?case using step r(1-3) by simp
qed

lemma uintx_add_effect:
  assumes "bn \<le> an" "an \<le> 8 * length a" "bn \<le> 8 * length b" "uval a an + uval b bn < 2 ^ an"
  obtains a' where "uintx_add a an b bn = Some a'" "length a' = length a" "uval a' an = uval a an + uval b bn"
    "\<And>j. an \<le> j \<Longrightarrow> bits a' j = bits a j"
proof -
  obtain a1 c1 where r1: "add_both a an b bn 0 0 = Some (a1, bn, c1)" "length a1 = length a" "c1 \<le> 1"
    "\<forall>j. \<not> (0 \<le> j \<and> j < bn) \<longrightarrow> bits a1 j = bits a j"
    "useg a1 0 bn + c1 * 2 ^ bn = useg a 0 bn + useg b 0 bn + 0 * 2 ^ 0"
    using add_both_effect [of 0 bn an bn a b 0] assms(2,3) min.absorb2 [OF assms(1)] assms(1) by auto
  obtain a2 c2 where r2: "add_a a1 an bn c1 = Some (a2, an, c2)" "length a2 = length a1" "c2 \<le> 1"
    "\<forall>j. \<not> (bn \<le> j \<and> j < an) \<longrightarrow> bits a2 j = bits a1 j"
    "useg a2 bn an + c2 * 2 ^ an = useg a1 bn an + c1 * 2 ^ bn"
    using add_a_effect [of bn an a1 c1] assms r1(2,3) by auto
  have "useg a2 0 bn = useg a1 0 bn" "useg a1 bn an = useg a bn an"
    using r1(4) r2(4) by (auto intro: useg_cong)
  then have v: "uval a2 an + c2 * 2 ^ an = uval a an + uval b bn"
    using r1(5) r2(5) useg_split [of 0 bn an a2] useg_split [of 0 bn an a] assms(1) by (simp add: uval_def)
  then have "c2 = 0" using assms(4) r2(3) by (cases c2) auto
  moreover have "add_b a2 b bn an c2 = Some (a2, an, c2)" using assms(1) by (subst add_b.simps) simp
  ultimately have "uintx_add a an b bn = Some a2" using r1(1) r2(1) by (simp add: uintx_add_def)
  then show ?thesis using that [of a2] r1(2,4) r2(2,4) v \<open>c2 = 0\<close> assms(1) by simp
qed

subsection \<open>Comparison\<close>

lemma compare_bits_effect:
  "n \<le> 8 * length a \<Longrightarrow> n \<le> 8 * length b \<Longrightarrow> compare_bits a b n = Some (sgn (int (uval a n) - int (uval b n)))"
proof (induction n)
  case (Suc n)
  have t: "uval x (Suc n) = uval x n + of_bool (bits x n) * 2 ^ n" for x by (simp add: uval_def useg_top)
  show ?case
  proof (cases "bits a n = bits b n")
    case True
    then show ?thesis using Suc ux_test_effect [of n a] ux_test_effect [of n b] by (simp add: t)
  next
    case False
    have "int (uval a n) < 2 ^ n" "int (uval b n) < 2 ^ n" using uval_less [of a n] uval_less [of b n] 
      by (simp_all only: of_nat_less_iff [where ?'a = int, symmetric] of_nat_power of_nat_numeral)
    then have "0 < int (uval a n) + 2 ^ n - int (uval b n)" "int (uval a n) - (int (uval b n) + 2 ^ n) < 0"
      by linarith+
    then have "sgn (int (uval a n) + 2 ^ n - int (uval b n)) = 1" "sgn (int (uval a n) - (int (uval b n) + 2 ^ n)) = - 1"
      by (simp_all only: sgn_1_pos sgn_1_neg)
    then show ?thesis using False Suc.prems ux_test_effect [of n a] ux_test_effect [of n b] by (cases "bits a n") (auto simp: t)
  qed
qed (simp add: uval_def)

lemma byte_eq_iff: "p < length x \<Longrightarrow> x ! p = 0 \<longleftrightarrow> (\<forall>j. 8 * p \<le> j \<longrightarrow> j < 8 * Suc p \<longrightarrow> \<not> bits x j)"
proof -
  have "x ! p = 0 \<longleftrightarrow> (\<forall>k < 8. \<not> bit (x ! p) k)" by (auto intro!: bit_word_eqI simp: bit_simps)
  also have "\<dots> \<longleftrightarrow> (\<forall>j. 8 * p \<le> j \<longrightarrow> j < 8 * Suc p \<longrightarrow> \<not> bits x j)"
  proof (intro iffI allI impI)
    fix j assume a: "\<forall>k < 8. \<not> bit (x ! p) k" "8 * p \<le> j" "j < 8 * Suc p"
    then have "j div 8 = p" by (metis div_nat_eqI mult.commute mult_Suc_right add.commute)
    then show "\<not> bits x j" using a(1) by (simp add: bits_def)
  next
    fix k :: nat assume a: "\<forall>j. 8 * p \<le> j \<longrightarrow> j < 8 * Suc p \<longrightarrow> \<not> bits x j" "k < 8"
    then have "\<not> bits x (8 * p + k)" by simp
    then show "\<not> bit (x ! p) k" using a(2) by (simp add: bits_def)
  qed
  finally show "x ! p = 0 \<longleftrightarrow> (\<forall>j. 8 * p \<le> j \<longrightarrow> j < 8 * Suc p \<longrightarrow> \<not> bits x j)" .
qed


lemma exceeds_effect:
  assumes "8 dvd n" "8 dvd lim" "lim < n" "n \<le> 8 * length x"
  shows "exceeds x n lim = Some (\<exists>j. lim \<le> j \<and> j < n \<and> bits x j)"
proof -
  obtain l where l: "lim = 8 * l" using assms(2) by blast
  have hb: "high_bytes x (int k - 1) (8 * k) lim = Some (if \<exists>j. lim \<le> j \<and> j < 8 * k \<and> bits x j then None else Some lim)"
    if "l \<le> k" "k \<le> length x" for k
    using that
  proof (induction k)
    case 0
    then show ?case using l by (subst high_bytes.simps) simp
  next
    case (Suc k)
    show ?case
    proof (cases "l = Suc k")
      case True
      then show ?thesis using l by (subst high_bytes.simps) simp
    next
      case False
      then have k: "l \<le> k" "k < length x" using Suc.prems by simp_all
      have b: "byte_at x (int k) = Some (x ! k)" using k by (simp add: byte_at_def buf_simps)
      have "high_bytes x (int (Suc k) - 1) (8 * Suc k) lim =
          (if x ! k \<noteq> 0 then Some None else high_bytes x (int k - 1) (8 * k) lim)"
      proof -
        have "8 * Suc k - lim = 8 * (Suc k - l)" by (simp only: l diff_mult_distrib2)
        then have "8 \<le> 8 * Suc k - lim" using k(1) by (simp add: Suc_diff_le)
        then show ?thesis using b by (subst high_bytes.simps) simp
      qed
      moreover have "x ! k = 0 \<longleftrightarrow> (\<forall>j. 8 * k \<le> j \<longrightarrow> j < 8 * Suc k \<longrightarrow> \<not> bits x j)" using k(2) by (rule byte_eq_iff)
      moreover have "j < 8 * Suc k \<longleftrightarrow> j < 8 * k \<or> 8 * k \<le> j \<and> j < 8 * Suc k" for j by auto
      ultimately show ?thesis using Suc.IH k l by (smt (verit) le_trans mult_le_mono2 less_imp_le_nat)
    qed
  qed
  obtain k where k: "n = 8 * k" using assms(1) by blast
  have "last_byte n = int k - 1" by (simp add: last_byte_def uintx_nbytes_def k)
  moreover have "high_bits x lim lim = Some False" by (subst high_bits.simps) simp
  ultimately show ?thesis using hb [of k] assms(3,4) k l by (simp add: exceeds_def)
qed

lemma same_bytes_effect:
  assumes "8 * k \<le> 8 * length a" "8 * k \<le> 8 * length b"
  shows "\<exists>n. same_bytes a b (int k - 1) (8 * k) = Some n \<and> n \<le> 8 * k \<and> (\<forall>j. n \<le> j \<and> j < 8 * k \<longrightarrow> bits a j = bits b j)"
  using assms
proof (induction k)
  case 0
  then show ?case by (subst same_bytes.simps) simp
next
  case (Suc k)
  then have k: "k < length a" "k < length b" by simp_all
  have b: "byte_at a (int k) = Some (a ! k)" "byte_at b (int k) = Some (b ! k)" using k by (simp_all add: byte_at_def buf_simps)
  have step: "same_bytes a b (int (Suc k) - 1) (8 * Suc k) =
      (if a ! k \<noteq> b ! k then Some (8 * Suc k) else same_bytes a b (int k - 1) (8 * k))"
    using b by (subst same_bytes.simps) simp
  show ?case
  proof (cases "a ! k = b ! k")
    case False
    then show ?thesis unfolding step by auto
  next
    case True
    obtain n where n: "same_bytes a b (int k - 1) (8 * k) = Some n" "n \<le> 8 * k" "\<forall>j. n \<le> j \<and> j < 8 * k \<longrightarrow> bits a j = bits b j"
      using Suc by auto
    have "bits a j = bits b j" if "8 * k \<le> j" "j < 8 * Suc k" for j
    proof -
      have "j div 8 = k" using that by (metis div_nat_eqI mult.commute mult_Suc_right add.commute)
      then show ?thesis using True by (simp add: bits_def)
    qed
    then have "\<forall>j. n \<le> j \<and> j < 8 * Suc k \<longrightarrow> bits a j = bits b j" using n(3) not_less by blast
    then show ?thesis unfolding step using True n(1,2) by simp
  qed
qed

text \<open>The sign of the difference, when the numbers of bits are multiples of eight.\<close>

lemma useg_zero_iff: "useg x i n = 0 \<longleftrightarrow> \<not> (\<exists>j. i \<le> j \<and> j < n \<and> bits x j)"
  by (auto simp: useg_def)

lemma useg_large: "useg x i n \<noteq> 0 \<Longrightarrow> 2 ^ i \<le> useg x i n"
proof -
  assume "useg x i n \<noteq> 0"
  then obtain j where j: "i \<le> j" "j < n" "bits x j" by (auto simp: useg_zero_iff)
  have "(2 :: nat) ^ i \<le> of_bool (bits x j) * 2 ^ j" using j by simp
  also have "\<dots> \<le> useg x i n" unfolding useg_def using j by (intro member_le_sum) simp_all
  finally show ?thesis .
qed

lemma uintx_compare_effect:
  assumes "8 dvd an" "8 dvd bn" "an \<le> 8 * length a" "bn \<le> 8 * length b"
  shows "uintx_compare a an b bn = Some (sgn (int (uval a an) - int (uval b bn)))"
proof -
  define n where "n = min an bn"
  have n: "n \<le> an" "n \<le> bn" "8 dvd n" using assms by (simp_all add: n_def min_def)
  have va: "uval a an = uval a n + useg a n an" and vb: "uval b bn = uval b n + useg b n bn"
    using useg_split [of 0 n an a] useg_split [of 0 n bn b] n by (simp_all add: uval_def)
  have la: "uval a n < 2 ^ n" "uval b n < 2 ^ n" by (simp_all add: uval_less)
  have low: "(do { m \<leftarrow> same_bytes a b (last_byte n) n; compare_bits a b m }) = Some (sgn (int (uval a n) - int (uval b n)))"
  proof -
    obtain k where k: "n = 8 * k" using n(3) by blast
    have "last_byte n = int k - 1" by (simp add: last_byte_def uintx_nbytes_def k)
    then obtain m where m: "same_bytes a b (last_byte n) n = Some m" "m \<le> n" "\<forall>j. m \<le> j \<and> j < n \<longrightarrow> bits a j = bits b j"
      using same_bytes_effect [of k a b] n assms(3,4) k by auto
    have "useg a m n = useg b m n" using m(3) by (intro useg_cong) simp
    then have "int (uval a n) - int (uval b n) = int (uval a m) - int (uval b m)"
      using useg_split [of 0 m n a] useg_split [of 0 m n b] m(2) by (simp add: uval_def)
    then show ?thesis using m(1,2) compare_bits_effect [of m a b] n assms(3,4) by simp
  qed
  have more: "(if an > bn then exceeds a an bn else Some False) = Some (useg a n an \<noteq> 0)"
    using exceeds_effect [of an bn a] assms useg_zero_iff [of a bn an] by (auto simp: n_def min_def)
  have less: "(if bn > an then exceeds b bn an else Some False) = Some (useg b n bn \<noteq> 0)"
    using exceeds_effect [of bn an b] assms useg_zero_iff [of b an bn] by (auto simp: n_def min_def)
  have eq: "uintx_compare a an b bn = (if useg a n an \<noteq> 0 then Some 1 else if useg b n bn \<noteq> 0 then Some (- 1)
      else Some (sgn (int (uval a n) - int (uval b n))))"
    unfolding uintx_compare_def more less n_def [symmetric] using low by simp
  have zero: "useg b n bn = 0" if "useg a n an \<noteq> 0" using that useg_empty by (cases "an \<le> bn") (auto simp: n_def min_def)
  consider "useg a n an \<noteq> 0" | "useg a n an = 0" "useg b n bn \<noteq> 0" | "useg a n an = 0" "useg b n bn = 0" by blast
  then show ?thesis
  proof cases
    case 1
    then have "uval b bn < uval a an" using va vb zero useg_large [of a n an] la by simp
    then show ?thesis using eq 1 by simp
  next
    case 2
    then have "uval a an < uval b bn" using va vb useg_large [of b n bn] la by simp
    then show ?thesis using eq 2 by simp
  next
    case 3
    then show ?thesis using eq va vb by simp
  qed
qed


subsection \<open>Numbers of 64 bits\<close>

lemma set_value_effect:
  assumes "L \<le> 8 * length x" "\<forall>j. i \<le> j \<longrightarrow> j < L \<longrightarrow> \<not> bits x j" "i \<le> L" "unat v < 2 ^ (L - i)"
  shows "\<exists>x'. set_value x i v = Some x' \<and> length x' = length x
    \<and> (\<forall>j. bits x' j = (if i \<le> j \<and> j < L then bit v (j - i) else bits x j))"
  using assms
proof (induction x i v rule: set_value.induct)
  case (1 x i v)
  show ?case
  proof (cases "v = 0")
    case True
    then show ?thesis using "1.prems"(2) by (subst set_value.simps) auto
  next
    case False
    then have i: "i < L" using "1.prems"(3,4) by (cases "i = L") (auto simp: unat_eq_zero)
    obtain x1 where x1: "ux_vset x i (v AND 1 \<noteq> 0) = Some x1" "length x1 = length x"
      "\<And>j. bits x1 j = (if j = i then v AND 1 \<noteq> 0 else bits x j)"
      using ux_vset_effect [OF less_le_trans [OF i "1.prems"(1)]] by blast
    have odd: "v AND 1 \<noteq> 0 \<longleftrightarrow> bit v 0" by (simp add: and_one_eq bit_0 mod2_eq_if)
    have "unat v < 2 * 2 ^ (L - Suc i)" using "1.prems"(4) i by (simp flip: power_Suc add: Suc_diff_Suc)
    then have "unat (drop_bit 1 v) < 2 ^ (L - Suc i)" by (simp add: drop_bit_eq_div unat_div)
    then obtain x' where x': "set_value x1 (i + 1) (drop_bit 1 v) = Some x'" "length x' = length x1"
      "\<forall>j. bits x' j = (if i + 1 \<le> j \<and> j < L then bit (drop_bit 1 v) (j - (i + 1)) else bits x1 j)"
      using "1.IH" [OF False x1(1)] x1(2,3) "1.prems"(1,2) i by auto
    have "bits x' j = (if i \<le> j \<and> j < L then bit v (j - i) else bits x j)" for j
    proof (cases "j = i")
      case True
      then show ?thesis using x'(3) x1(3) odd i by simp
    next
      case False
      then have "i \<le> j \<Longrightarrow> Suc (j - Suc i) = j - i" by simp
      then show ?thesis using x'(3) x1(3) False by (auto simp: bit_drop_bit_eq)
    qed
    then show ?thesis using x'(1,2) x1(1,2) False by (subst set_value.simps) simp
  qed
qed

lemma uval_word:
  assumes "unat v < 2 ^ n" "\<And>j. j < n \<Longrightarrow> bits x j = bit (v :: u64) j"
  shows "uval x n = unat v"
proof -
  have "uval x n = (\<Sum>j = 0..<n. push_bit j (of_bool (bit (unat v) j)))"
    unfolding uval_def useg_def using assms(2)
    by (intro sum.cong) (simp_all add: push_bit_eq_mult bit_unsigned_iff possible_bit_def)
  also have "\<dots> = take_bit n (unat v)" by (rule take_bit_sum [symmetric])
  finally show ?thesis using assms(1) by (simp add: take_bit_nat_eq_self)
qed

lemma uintx_from_u64_effect:
  assumes "uintx_nbytes n \<le> length x" "unat v < 2 ^ n"
  obtains x' where "uintx_from_u64 x n v = Some x'" "length x' = length x" "uval x' n = unat v"
    "drop (uintx_nbytes n) x' = drop (uintx_nbytes n) x"
proof -
  let ?m = "uintx_nbytes n"
  let ?x = "replicate ?m 0 @ drop ?m x"
  have nm: "n \<le> 8 * ?m" by (simp add: uintx_nbytes_def)
  have init: "uintx_init x n = Some ?x" using assms(1) by (simp add: uintx_init_def buf_write_Some splice_def)
  have z: "\<not> bits ?x j" if "j < 8 * ?m" for j
  proof -
    have "j div 8 < ?m" using that by (simp add: less_mult_imp_div_less mult.commute)
    then show ?thesis by (simp add: bits_def nth_append)
  qed
  have "unat v < 2 ^ (8 * ?m - 0)" using assms(2) nm by (metis minus_nat.diff_0 order_less_le_trans one_le_numeral power_increasing)
  then obtain x' where x': "set_value ?x 0 v = Some x'" "length x' = length ?x"
    "\<forall>j. bits x' j = (if 0 \<le> j \<and> j < 8 * ?m then bit v (j - 0) else bits ?x j)"
    using set_value_effect [of "8 * ?m" ?x 0 v] z by auto
  have "drop ?m x' = drop ?m x"
  proof (rule nth_equalityI)
    show "length (drop ?m x') = length (drop ?m x)" using x'(2) assms(1) by simp
    fix i assume i: "i < length (drop ?m x')"
    have "bit (x' ! (?m + i)) k = bit (?x ! (?m + i)) k" if "k < 8" for k
    proof -
      have "(8 * (?m + i) + k) div 8 = ?m + i" "(8 * (?m + i) + k) mod 8 = k"
        using that by (simp_all only: mod_mult_self4 mod_less) simp
      then show ?thesis using x'(3) [rule_format, of "8 * (?m + i) + k"] by (simp add: bits_def)
    qed
    then have "x' ! (?m + i) = ?x ! (?m + i)" by (intro bit_word_eqI) simp
    then show "drop ?m x' ! i = drop ?m x ! i" using i x'(2) assms(1) by (simp add: nth_append)
  qed
  moreover have "uval x' n = unat v" using assms(2) x'(3) nm by (intro uval_word) simp_all
  ultimately show ?thesis using that [of x'] x'(1,2) init assms(1) by (simp add: uintx_from_u64_def)
qed

lemma ux64_effect:
  obtains x where "ux64 v = Some x" "length x = 8" "uval x 64 = unat v"
proof -
  have "unat v < 2 ^ 64" using unsigned_less [of v, where ?'a = nat] by simp
  then show ?thesis using uintx_from_u64_effect [of 64 "replicate 8 0" v] that
    by (auto simp: ux64_def uintx_nbytes_def)
qed

lemma uintx_add64_effect:
  assumes "64 \<le> n" "n \<le> 8 * length x" "uval x n + unat v < 2 ^ n"
  obtains x' where "uintx_add64 x n v = Some x'" "length x' = length x" "uval x' n = uval x n + unat v"
proof -
  obtain y where y: "ux64 v = Some y" "length y = 8" "uval y 64 = unat v" by (rule ux64_effect)
  then show ?thesis using uintx_add_effect [of 64 n x y] assms that by (auto simp: uintx_add64_def)
qed

lemma uintx_compare64_effect:
  assumes "8 dvd n" "n \<le> 8 * length x"
  shows "uintx_compare64 x n v = Some (sgn (int (uval x n) - int (unat v)))"
proof -
  obtain y where y: "ux64 v = Some y" "length y = 8" "uval y 64 = unat v" by (rule ux64_effect)
  then show ?thesis using uintx_compare_effect [of n 64 x y] assms by (simp add: uintx_compare64_def)
qed

text \<open>A shorter number is written behind its end, whatever the value added.\<close>

lemma add_b_faults:
  assumes "8 * length a < bn" "bn \<le> 8 * length b" "i \<le> bn - 1"
  shows "add_b a b bn i c = None"
  using assms
proof (induction "bn - i" arbitrary: i a c)
  case 0
  then show ?case by simp
next
  case (Suc k)
  then have i: "i < bn" "i < 8 * length b" by auto
  show ?case
  proof (cases "i < 8 * length a")
    case False
    then have "\<not> i div 8 < length a" by (simp add: not_less div_le_mono [of "8 * length a" i 8, simplified])
    then show ?thesis using i ux_test_effect [OF i(2)]
      by (subst add_b.simps) (simp add: ux_vset_def bit_clear_def buf_get_def Let_def)
  next
    case True
    let ?d = "of_bool (bits b i) + c"
    obtain a1 where a1: "ux_vset a i (?d mod 2 = 1) = Some a1" "length a1 = length a"
      using ux_vset_effect [OF True] by metis
    have "k = bn - Suc i" "8 * length a1 < bn" "Suc i \<le> bn - 1" using Suc.hyps(2) Suc.prems True a1(2) by auto
    from Suc.hyps(1) [OF this(1,2) Suc.prems(2) this(3)]
    have "add_b a1 b bn (i + 1) (?d div 2) = None" by simp
    then show ?thesis using i ux_test_effect [OF i(2)] a1(1) by (subst add_b.simps) (simp add: Let_def)
  qed
qed

lemma uintx_add64_short:
  assumes "n \<le> 8 * length x" "8 * length x < 64"
  shows "uintx_add64 x n v = None"
proof -
  obtain y where y: "ux64 v = Some y" "length y = 8" by (rule ux64_effect)
  obtain a1 c1 where r: "add_both x n y 64 0 0 = Some (a1, n, c1)" "length a1 = length x"
    using add_both_effect [of 0 n n 64 x y 0] assms y(2) by auto
  have "add_a a1 n n c1 = Some (a1, n, c1)" by (subst add_a.simps) simp
  moreover have "add_b a1 y 64 n c1 = None" using assms y(2) r(2) by (intro add_b_faults) auto
  ultimately show ?thesis using y(1) r(1) by (simp add: uintx_add64_def uintx_add_def)
qed

subsection \<open>Logic\<close>

lemma bits_op_effect:
  assumes "i + k \<le> 8 * length a" "i + k \<le> 8 * length b"
  shows "\<exists>a'. bits_op f a b i k = Some a' \<and> length a' = length a
    \<and> (\<forall>j. bits a' j = (if i \<le> j \<and> j < i + k then f (bits a j) (bits b j) else bits a j))"
  using assms
proof (induction k arbitrary: i a)
  case (Suc k)
  have i: "i < 8 * length a" "i < 8 * length b" using Suc.prems by simp_all
  obtain a1 where a1: "ux_vset a i (f (bits a i) (bits b i)) = Some a1" "length a1 = length a"
    "\<And>j. bits a1 j = (if j = i then f (bits a i) (bits b i) else bits a j)"
    using ux_vset_effect [OF i(1)] by blast
  then obtain a' where a': "bits_op f a1 b (i + 1) k = Some a'" "length a' = length a1"
    "\<forall>j. bits a' j = (if i + 1 \<le> j \<and> j < i + 1 + k then f (bits a1 j) (bits b j) else bits a1 j)"
    using Suc.IH [of "i + 1" a1] Suc.prems by auto
  have "bits a' j = (if i \<le> j \<and> j < i + Suc k then f (bits a j) (bits b j) else bits a j)" for j
    using a'(3) a1(3) by (cases "j = i") auto
  then show ?case using a'(1,2) a1(1,2) ux_test_effect [OF i(1)] ux_test_effect [OF i(2)] by simp
qed auto

text \<open>A number of one byte passes for zero.\<close>

lemma uintx_is_zero_one_byte: "0 < n \<Longrightarrow> n \<le> 8 \<Longrightarrow> uintx_is_zero x n = Some True"
proof -
  assume "0 < n" "n \<le> 8"
  then have "uintx_nbytes n = 1" unfolding uintx_nbytes_def by presburger
  then show ?thesis by (simp add: uintx_is_zero_def last_byte_def all_zero.simps)
qed

text \<open>The number of all the bits of an array is the value of its bytes.\<close>

lemma uval_Cons: "uval (b # xs) (8 * Suc k) = unat b + 256 * uval xs (8 * k)"
proof -
  have low: "useg (b # xs) 0 8 = unat b"
  proof -
    have "useg (b # xs) 0 8 = (\<Sum>j = 0..<8. push_bit j (of_bool (bit (unat b) j)))"
      unfolding useg_def by (intro sum.cong) (simp_all add: push_bit_eq_mult bit_unsigned_iff possible_bit_def bits_def)
    also have "\<dots> = take_bit 8 (unat b)" by (rule take_bit_sum [symmetric])
    also have "\<dots> = unat b" using unsigned_less [of b, where ?'a = nat] by (simp add: take_bit_nat_eq_self)
    finally show ?thesis .
  qed
  have "useg (b # xs) 8 (8 * Suc k) = (\<Sum>j = 0 + 8..<8 * k + 8. of_bool (bits (b # xs) j) * 2 ^ j)"
    by (simp add: useg_def add.commute)
  also have "\<dots> = (\<Sum>j = 0..<8 * k. of_bool (bits (b # xs) (j + 8)) * 2 ^ (j + 8))"
    by (rule sum.shift_bounds_nat_ivl)
  also have "\<dots> = (\<Sum>j = 0..<8 * k. 256 * (of_bool (bits xs j) * 2 ^ j))"
  proof (intro sum.cong refl)
    fix j :: nat
    have "(j + 8) div 8 = Suc (j div 8)" by (simp add: div_add_self2)
    then have "bits (b # xs) (j + 8) = bits xs j" by (simp add: bits_def)
    then show "of_bool (bits (b # xs) (j + 8)) * 2 ^ (j + 8) = 256 * (of_bool (bits xs j) * (2 :: nat) ^ j)"
      by (simp add: power_add)
  qed
  also have "\<dots> = 256 * uval xs (8 * k)" by (simp only: uval_def useg_def sum_distrib_left)
  finally show ?thesis using low useg_split [of 0 8 "8 * Suc k" "b # xs"] by (simp add: uval_def)
qed

lemma le_val_uval: "int (uval x (8 * length x)) = le_val x"
proof (induction x)
  case (Cons b xs)
  then show ?case using uval_Cons [of b xs "length xs"] by simp
qed (simp add: uval_def)

lemma compare_bits_eval:
  "compare_bits a b (numeral k) =
     do {
       v \<leftarrow> ux_test a (pred_numeral k);
       w \<leftarrow> ux_test b (pred_numeral k);
       if v \<noteq> w then Some (if v \<noteq> 0 then 1 else - 1) else compare_bits a b (pred_numeral k)
     }"
  by (simp add: numeral_eq_Suc)

lemma le_bytes_2: "le_bytes 2 v = [word_of_int v, word_of_int (v div 256)]"
  by (simp add: numeral_2_eq_2)

end
