(* ===== verification/Uintx_Properties.thy ===== *)
theory Uintx_Properties
  imports Uintx
begin

section \<open>Properties of uintx.c\<close>

text \<open>
  The operations as arithmetic: \<open>uval x n\<close> is the number the first \<open>n\<close> bits stand for, \<open>le_val\<close>
  that of a list of bytes.
\<close>

text \<open>C24. Increment and decrement count modulo the number of values the bytes have and leave the bytes
  behind them alone. The increment returns whether it wrapped; what the decrement returns is whether the
  number was a one in the last byte and zeros below, not whether it wrapped.\<close>

theorem uintx_counts:
  assumes "0 < n" "uintx_nbytes n \<le> length x" "m = uintx_nbytes n" "v = le_val (take m x)"
  shows "uintx_inc x n = Some (v + 1 = 256 ^ m, le_bytes m ((v + 1) mod 256 ^ m) @ drop m x)
    \<and> uintx_dec x n = Some (v = 256 ^ (m - 1), le_bytes m ((v - 1) mod 256 ^ m) @ drop m x)"
proof -
  have "le_bytes k (w mod 256 ^ k) = le_bytes k w" for k w
    by (metis le_bytes_val le_val_bytes length_le_bytes)
  then show ?thesis
    using uintx_inc_effect [OF assms(1,2)] uintx_dec_effect [OF assms(1,2)] assms(3,4) by simp_all
qed

lemma uintx_counts_witness:
  "uintx_inc [255, 255] 16 = Some (True, [0, 0]) \<and> uintx_dec [0, 0] 16 = Some (False, [255, 255])
     \<and> uintx_dec [0, 1] 16 = Some (True, [255, 0])"
proof -
  have n: "uintx_nbytes 16 = 2" by (simp add: uintx_nbytes_def)
  have l: "uintx_nbytes 16 \<le> length [255, 255 :: u8]" "uintx_nbytes 16 \<le> length [0, 0 :: u8]"
    "uintx_nbytes 16 \<le> length [0, 1 :: u8]" by (simp_all add: n)
  have v: "65535 = le_val (take 2 [255, 255])" "0 = le_val (take 2 [0, 0])" "256 = le_val (take 2 [0, 1])" by simp_all
  have z: "(0 :: nat) < 16" by simp
  have "uintx_inc [255, 255] 16 = Some (True, [0, 0])"
    using uintx_counts [OF z l(1) n [symmetric] v(1)] by (simp add: le_bytes_2)
  moreover have "uintx_dec [0, 0] 16 = Some (False, [255, 255])"
    using uintx_counts [OF z l(2) n [symmetric] v(2)] by (simp add: le_bytes_2)
  moreover have "uintx_dec [0, 1] 16 = Some (True, [255, 0])"
    using uintx_counts [OF z l(3) n [symmetric] v(3)] by (simp add: le_bytes_2)
  ultimately show ?thesis by blast
qed

text \<open>C25. Adding a number of no more bits is exact when the sum fits, and bits behind the first operand are
  kept; a \<open>uint64_t\<close> can be added to a number of 64 bits or more, and to no shorter one: the rest of it
  is stored behind the array, even when it is 0.\<close>

theorem uintx_add_correct:
  assumes "an \<le> 8 * length a"
  shows "(bn \<le> an \<longrightarrow> bn \<le> 8 * length b \<longrightarrow> uval a an + uval b bn < 2 ^ an \<longrightarrow>
      (\<exists>a'. uintx_add a an b bn = Some a' \<and> length a' = length a \<and> uval a' an = uval a an + uval b bn
        \<and> (\<forall>j. an \<le> j \<longrightarrow> bits a' j = bits a j)))
    \<and> (64 \<le> an \<longrightarrow> uval a an + unat v < 2 ^ an \<longrightarrow>
      (\<exists>a'. uintx_add64 a an v = Some a' \<and> length a' = length a \<and> uval a' an = uval a an + unat v))
    \<and> (8 * length a < 64 \<longrightarrow> uintx_add64 a an v = None)"
proof (intro conjI impI)
  show "\<exists>a'. uintx_add a an b bn = Some a' \<and> length a' = length a \<and> uval a' an = uval a an + uval b bn
      \<and> (\<forall>j. an \<le> j \<longrightarrow> bits a' j = bits a j)"
    if "bn \<le> an" "bn \<le> 8 * length b" "uval a an + uval b bn < 2 ^ an"
    using uintx_add_effect [OF that(1) assms that(2,3)] by metis
  show "\<exists>a'. uintx_add64 a an v = Some a' \<and> length a' = length a \<and> uval a' an = uval a an + unat v"
    if "64 \<le> an" "uval a an + unat v < 2 ^ an"
    using uintx_add64_effect [OF that(1) assms that(2)] by metis
  show "uintx_add64 a an v = None" if "8 * length a < 64"
    using assms that by (rule uintx_add64_short)
qed

lemma uintx_add_correct_witness:
  "(\<exists>a'. uintx_add [200, 0] 16 [100] 8 = Some a' \<and> uval a' 16 = 300) \<and> uintx_add64 [1, 0, 0, 0] 32 0 = None"
proof -
  have v: "uval [200, 0] 16 = 200" "uval [100] 8 = 100"
    using le_val_uval [of "[200, 0]"] le_val_uval [of "[100]"] by simp_all
  then have "\<exists>a'. uintx_add [200, 0] 16 [100] 8 = Some a' \<and> uval a' 16 = 300"
    using uintx_add_correct [of 16 "[200, 0]" 8 "[100]" 0] by auto
  moreover have "uintx_add64 [1, 0, 0, 0] 32 0 = None" using uintx_add_correct [of 32 "[1, 0, 0, 0]" 0 "[]" 0] by simp
  ultimately show ?thesis by blast
qed

text \<open>The comparison of two numbers whose numbers of bits are multiples of eight, equal or not, is the sign of
  their difference; and so is that with a \<open>uint64_t\<close>.\<close>

theorem uintx_compare_correct:
  assumes "8 dvd an" "an \<le> 8 * length a" "8 dvd bn" "bn \<le> 8 * length b"
  shows "uintx_compare a an b bn = Some (sgn (int (uval a an) - int (uval b bn)))
    \<and> uintx_compare64 a an v = Some (sgn (int (uval a an) - int (unat v)))"
  using uintx_compare_effect [OF assms(1,3,2,4)] uintx_compare64_effect [OF assms(1,2)] by blast

lemma uintx_compare_correct_witness:
  "uintx_compare [0, 1] 16 [255] 8 = Some 1 \<and> uintx_compare64 [0, 1] 16 256 = Some 0"
proof -
  have v: "uval [0, 1] 16 = 256" "uval [255] 8 = 255"
    using le_val_uval [of "[0, 1]"] le_val_uval [of "[255]"] by simp_all
  then show ?thesis
    using uintx_compare_correct [of 16 "[0, 1]" 8 "[255]" 256] by simp
qed

text \<open>With other numbers of bits, some are never looked at: 2048 and 2064, of 12 bits, are equal.\<close>

lemma uintx_compare_skips_bits: "uintx_compare [0, 8] 12 [16, 8] 12 = Some 0"
  by (simp add: uintx_compare_def same_bytes.simps last_byte_def uintx_nbytes_def byte_at_def buf_get_def
      compare_bits_eval ux_test_def bitmask_def)

end
