(* ===== verification/Uintx_Test.thy ===== *)
theory Uintx_Test
  imports Uintx
begin

unbundle bit_operations_syntax

section \<open>The test program of uintx.c\<close>

text \<open>
  src/uintx/test-uintx.c counts up, adds and counts down in 128 bits, compares after each step, and tries the bitwise
  operations. A failure is reported with its counters; the numbers printed with it, in hexadecimal, are left out. An
  array starts as zeros: each is set before it is read.
\<close>

datatype report =
    Fail_equal "u64 list"
  | Fail_less "u64 list"
  | Fail_greater "u64 list"
  | Fail_and
  | Fail_or
  | Fail_xor

type_synonym reports = "report list"

definition ux_zero :: "u8 list" where "ux_zero = replicate 16 0"

text \<open>The comparisons after a step: \<open>info\<close> is what the message has besides the kind.\<close>

definition compare_step :: "u8 list \<Rightarrow> u64 \<Rightarrow> u64 list \<Rightarrow> reports option" where
  "compare_step xa i info =
     do {
       r \<leftarrow> uintx_compare64 xa 128 i;
       if r \<noteq> 0 then do { _ \<leftarrow> uintx_from_u64 ux_zero 128 i; Some [Fail_equal info] }
       else do {
         r \<leftarrow> uintx_compare64 xa 128 (i + 1);
         if r \<noteq> - 1 then do { _ \<leftarrow> uintx_from_u64 ux_zero 128 (i + 1); Some [Fail_less info] }
         else do {
           r \<leftarrow> uintx_compare64 xa 128 (i - 1);
           if r \<noteq> 1 then do { _ \<leftarrow> uintx_from_u64 ux_zero 128 (i - 1); Some [Fail_greater info] }
           else Some []
         }
       }
     }"

function inc_loop :: "u64 \<Rightarrow> u8 list \<Rightarrow> reports option" where
  "inc_loop i xa =
     (if i < 524288
      then do {
        (_, xa) \<leftarrow> uintx_inc xa 128;
        r \<leftarrow> compare_step xa i [i];
        rs \<leftarrow> inc_loop (i + 1) xa;
        Some (r @ rs)
      }
      else Some [])"
  by pat_completeness auto

definition test_inc :: "reports option" where
  "test_inc = do { xa \<leftarrow> uintx_init ux_zero 128; inc_loop 1 xa }"

text \<open>The inner loop, with \<open>y\<close> from 1 on.\<close>

function add_loop :: "u64 \<Rightarrow> u64 \<Rightarrow> u8 list \<Rightarrow> reports option" where
  "add_loop y i xa =
     (if i < 524288 \<and> 0 < y \<and> y < 300
      then do {
        xa \<leftarrow> uintx_add64 xa 128 y;
        r \<leftarrow> compare_step xa i [i, y];
        rs \<leftarrow> add_loop y (i + y) xa;
        Some (r @ rs)
      }
      else Some [])"
  by pat_completeness auto

function add_tests :: "u64 \<Rightarrow> reports option" where
  "add_tests y =
     (if y < 300
      then do {
        xa \<leftarrow> uintx_init ux_zero 128;
        r \<leftarrow> add_loop y y xa;
        rs \<leftarrow> add_tests (y + 3);
        Some (r @ rs)
      }
      else Some [])"
  by pat_completeness auto

definition test_add :: "reports option" where "test_add = add_tests 1"

function dec_loop :: "u64 \<Rightarrow> u8 list \<Rightarrow> reports option" where
  "dec_loop i xa =
     (if 0 < i
      then do {
        (_, xa) \<leftarrow> uintx_dec xa 128;
        r \<leftarrow> compare_step xa i [i];
        rs \<leftarrow> dec_loop (i - 1) xa;
        Some (r @ rs)
      }
      else Some [])"
  by pat_completeness auto

definition test_dec :: "reports option" where
  "test_dec = do { xa \<leftarrow> uintx_from_u64 ux_zero 128 524288; dec_loop 524287 xa }"

text \<open>What follows a failed comparison prints the numbers; the calls in it are kept.\<close>

definition logic_step :: "(u8 list \<Rightarrow> nat \<Rightarrow> u64 \<Rightarrow> u8 list option) \<Rightarrow> u64 \<Rightarrow> report \<Rightarrow> reports option" where
  "logic_step op v fail =
     do {
       x \<leftarrow> uintx_from_u64 ux_zero 128 2796221;
       x \<leftarrow> op x 128 1428245;
       r \<leftarrow> uintx_compare64 x 128 v;
       if r \<noteq> 0
       then do { x \<leftarrow> uintx_from_u64 x 128 2796221; _ \<leftarrow> uintx_xor64 x 128 1428245; Some [fail] }
       else Some []
     }"

definition test_logic :: "reports option" where
  "test_logic =
     do {
       _ \<leftarrow> uintx_from_u64 ux_zero 128 1428245;
       a \<leftarrow> logic_step uintx_and64 35349 Fail_and;
       b \<leftarrow> logic_step uintx_or64 4189117 Fail_or;
       c \<leftarrow> logic_step uintx_xor64 4153768 Fail_xor;
       Some (a @ b @ c)
     }"

definition uintx_test :: "reports option" where
  "uintx_test = do { a \<leftarrow> test_inc; b \<leftarrow> test_add; c \<leftarrow> test_dec; d \<leftarrow> test_logic; Some (a @ b @ c @ d) }"

subsection \<open>The loops end\<close>

termination inc_loop
proof (relation "measure (\<lambda>(i, xa). 524288 - unat i)")
  fix i :: u64 and xa p q r
  assume "i < 524288"
  then have "unat i < 524288" by (simp add: word_less_nat_alt)
  then have "unat (i + 1) = unat i + 1" by (simp add: unat_word_ariths)
  then show "((i + 1, q), i, xa) \<in> measure (\<lambda>(i, xa). 524288 - unat i)" using \<open>unat i < 524288\<close> by simp
qed simp

lemma add_step: "i < 524288 \<Longrightarrow> y < 300 \<Longrightarrow> unat (i + y :: u64) = unat i + unat y"
  by (simp add: word_less_nat_alt unat_word_ariths)

termination add_loop
proof (relation "measure (\<lambda>(y, i, xa). 524288 - unat i)")
  fix i y :: u64 and xa q r
  assume "i < 524288 \<and> 0 < y \<and> y < 300"
  then show "((y, i + y, q), y, i, xa) \<in> measure (\<lambda>(y, i, xa). 524288 - unat i)"
    using add_step [of i y] by (simp add: word_less_nat_alt) linarith
qed simp

termination add_tests
proof (relation "measure (\<lambda>y. 300 - unat y)")
  fix y :: u64
  assume "y < 300"
  then have "unat (y + 3) = unat y + 3" "unat y < 300" by (simp_all add: word_less_nat_alt unat_word_ariths)
  then show "(y + 3, y) \<in> measure (\<lambda>y. 300 - unat y)" by simp
qed simp

termination dec_loop
proof (relation "measure (\<lambda>(i, xa). unat i)")
  fix i :: u64 and xa p q r
  assume "0 < i"
  then have "unat (i - 1) < unat i" by (simp add: measure_unat)
  then show "((i - 1, q), i, xa) \<in> measure (\<lambda>(i, xa). unat i)" by simp
qed simp

subsection \<open>Nothing is reported\<close>

text \<open>An array of 16 bytes that holds \<open>n\<close>.\<close>

definition ux_holds :: "u8 list \<Rightarrow> nat \<Rightarrow> bool" where "ux_holds x n \<longleftrightarrow> length x = 16 \<and> uval x 128 = n"

lemma ux_holds_le: "ux_holds x n \<longleftrightarrow> length x = 16 \<and> le_val x = int n"
  using le_val_uval [of x] by (auto simp: ux_holds_def)

lemma ux_compare: "ux_holds x n \<Longrightarrow> uintx_compare64 x 128 v = Some (sgn (int n - int (unat v)))"
  using uintx_compare64_effect [of 128 x v] by (simp add: ux_holds_def)

lemma compare_step_passes:
  assumes "ux_holds x (unat i)" "0 < i" "i < 2 ^ 63"
  shows "compare_step x i info = Some []"
proof -
  have "unat i < 2 ^ 63" using assms(3) by (simp add: word_less_nat_alt)
  then have "unat (i + 1) = unat i + 1" by (simp add: unat_word_ariths)
  moreover have p: "0 < unat i" using assms(2) by (simp add: word_less_nat_alt)
  then have "unat (i - 1) = unat i - 1" by (simp add: unat_sub_if')
  ultimately show ?thesis using p by (simp add: compare_step_def ux_compare [OF assms(1)] of_nat_diff)
qed

lemma ux_init: "\<exists>x. uintx_init ux_zero 128 = Some x \<and> ux_holds x 0"
proof -
  have "le_val (replicate n 0) = 0" for n by (induction n) simp_all
  then show ?thesis
    by (simp add: uintx_init_def ux_zero_def uintx_nbytes_def buf_simps ux_holds_le splice_def)
qed

lemma ux_from: "\<exists>x. uintx_from_u64 ux_zero 128 v = Some x \<and> ux_holds x (unat v)"
proof -
  have "unat v < 2 ^ 128" using unsigned_less [of v, where ?'a = nat] by simp
  then show ?thesis
    using uintx_from_u64_effect [of 128 ux_zero v] by (fastforce simp: ux_zero_def uintx_nbytes_def ux_holds_def)
qed

lemma ux_inc:
  assumes "ux_holds x n" "n < 2 ^ 64"
  shows "\<exists>b x'. uintx_inc x 128 = Some (b, x') \<and> ux_holds x' (n + 1)"
proof -
  have "uintx_nbytes 128 = 16" by (simp add: uintx_nbytes_def)
  then have "uintx_inc x 128 = Some (le_val x + 1 = 256 ^ 16, le_bytes 16 (le_val x + 1))" "ux_holds (le_bytes 16 (le_val x + 1)) (n + 1)"
    using assms uintx_inc_effect [of 128 x] by (simp_all add: ux_holds_le le_val_bytes)
  then show ?thesis by blast
qed

lemma ux_dec:
  assumes "ux_holds x (n + 1)" "n < 2 ^ 64"
  shows "\<exists>b x'. uintx_dec x 128 = Some (b, x') \<and> ux_holds x' n"
proof -
  have "uintx_nbytes 128 = 16" by (simp add: uintx_nbytes_def)
  then have "uintx_dec x 128 = Some (le_val x = 256 ^ 15, le_bytes 16 (le_val x - 1))" "ux_holds (le_bytes 16 (le_val x - 1)) n"
    using assms uintx_dec_effect [of 128 x] by (simp_all add: ux_holds_le le_val_bytes)
  then show ?thesis by blast
qed

lemma inc_loop_passes: "ux_holds x (unat i - 1) \<Longrightarrow> 0 < i \<Longrightarrow> inc_loop i x = Some []"
proof (induction i x rule: inc_loop.induct)
  case (1 i x)
  show ?case
  proof (cases "i < 524288")
    case True
    then have i: "unat i < 524288" "0 < unat i" using 1(3) by (simp_all add: word_less_nat_alt)
    then obtain b x' where x': "uintx_inc x 128 = Some (b, x')" "ux_holds x' (unat i)"
      using ux_inc [OF 1(2)] by fastforce
    have "compare_step x' i [i] = Some []"
      by (rule compare_step_passes [OF x'(2) 1(3)]) (use True in \<open>simp add: word_less_nat_alt\<close>)
    moreover have "unat (i + 1) = unat i + 1" using i by (simp add: unat_word_ariths)
    then have "ux_holds x' (unat (i + 1) - 1)" "0 < i + 1" using x'(2) by (simp_all add: word_less_nat_alt)
    ultimately show ?thesis using 1(1) [OF True x'(1) refl] x'(1) True by (subst inc_loop.simps) simp
  qed (subst inc_loop.simps, simp)
qed

lemma dec_loop_passes: "ux_holds x (unat i + 1) \<Longrightarrow> i < 2 ^ 63 \<Longrightarrow> dec_loop i x = Some []"
proof (induction i x rule: dec_loop.induct)
  case (1 i x)
  show ?case
  proof (cases "0 < i")
    case True
    have i: "unat i < 2 ^ 63" using 1(3) by (simp add: word_less_nat_alt)
    then obtain b x' where x': "uintx_dec x 128 = Some (b, x')" "ux_holds x' (unat i)"
      using ux_dec [OF 1(2)] by fastforce
    have "compare_step x' i [i] = Some []" by (rule compare_step_passes [OF x'(2) True 1(3)])
    moreover have "unat (i - 1) + 1 = unat i" using True by (simp add: unat_sub_if' word_less_nat_alt)
    then have "ux_holds x' (unat (i - 1) + 1)" "i - 1 < 2 ^ 63" using x'(2) i by (simp_all add: word_less_nat_alt)
    ultimately show ?thesis using 1(1) [OF True x'(1) refl] x'(1) True by (subst dec_loop.simps) simp
  qed (subst dec_loop.simps, simp)
qed

lemma add_loop_passes:
  "ux_holds x (unat i - unat y) \<Longrightarrow> y \<le> i \<Longrightarrow> 0 < y \<Longrightarrow> y < 300 \<Longrightarrow> add_loop y i x = Some []"
proof (induction y i x rule: add_loop.induct)
  case (1 y i x)
  note prems = 1(2-5)
  show ?case
  proof (cases "i < 524288")
    case True
    have i: "unat i < 524288" "unat y \<le> unat i" "0 < unat y" "unat y < 300"
      using True prems by (simp_all add: word_less_nat_alt word_le_nat_alt)
    have x: "length x = 16" "uval x 128 = unat i - unat y" using prems(1) by (simp_all add: ux_holds_def)
    have "64 \<le> (128 :: nat)" "128 \<le> 8 * length x" "uval x 128 + unat y < 2 ^ 128" using x i by simp_all
    then obtain x' where "uintx_add64 x 128 y = Some x'" "length x' = length x" "uval x' 128 = uval x 128 + unat y"
      by (rule uintx_add64_effect)
    then have x': "uintx_add64 x 128 y = Some x'" "ux_holds x' (unat i)" using x i(2) by (simp_all add: ux_holds_def)
    have "compare_step x' i [i, y] = Some []"
      by (rule compare_step_passes [OF x'(2)]) (use i in \<open>simp_all add: word_less_nat_alt\<close>)
    moreover have "unat (i + y) = unat i + unat y" using add_step [OF True prems(4)] .
    then have "ux_holds x' (unat (i + y) - unat y)" "y \<le> i + y" using x'(2) by (simp_all add: word_le_nat_alt)
    ultimately show ?thesis
      using 1(1) [OF _ x'(1)] x'(1) True prems by (subst add_loop.simps) simp
  qed (subst add_loop.simps, simp)
qed

lemma add_tests_passes: "0 < y \<Longrightarrow> add_tests y = Some []"
proof (induction y rule: add_tests.induct)
  case (1 y)
  obtain x where x: "uintx_init ux_zero 128 = Some x" "ux_holds x 0" using ux_init by blast
  show ?case
  proof (cases "y < 300")
    case True
    have "add_loop y y x = Some []" by (rule add_loop_passes) (use x(2) 1(2) True in simp_all)
    moreover have "unat (y + 3) = unat y + 3" using True by (simp add: word_less_nat_alt unat_word_ariths)
    then have "0 < y + 3" by (simp add: word_less_nat_alt)
    ultimately show ?thesis using 1(1) [OF True x(1)] x(1) True by (subst add_tests.simps) simp
  qed (subst add_tests.simps, simp)
qed

text \<open>The bitwise operations on two words.\<close>

lemma uval_bit: "bit (uval x n) j \<longleftrightarrow> j < n \<and> bits x j"
proof -
  have "uval x n = horner_sum of_bool 2 (map (bits x) [0..<n])"
    by (induction n) (simp_all add: uval_def useg_top horner_sum_append)
  then show ?thesis by (auto simp: bit_horner_sum_bit_iff)
qed

lemma ux_logic:
  fixes u v w :: u64 and op :: "u8 list \<Rightarrow> nat \<Rightarrow> u64 \<Rightarrow> u8 list option"
  assumes "\<And>x. op x 128 v = do { y \<leftarrow> ux64 v; bits_op f x y 0 64 }" "ux_holds x (unat u)"
    and "\<And>j. j < 64 \<Longrightarrow> bit w j = f (bit u j) (bit v j)"
  shows "\<exists>x'. op x 128 v = Some x' \<and> ux_holds x' (unat w)"
proof -
  obtain y where y: "ux64 v = Some y" "length y = 8" "uval y 64 = unat v" by (rule ux64_effect)
  have x: "length x = 16" "uval x 128 = unat u" using assms(2) by (simp_all add: ux_holds_def)
  have bv: "j < 64 \<Longrightarrow> bits y j = bit v j" for j using uval_bit [of y 64 j] y(3) by (simp add: bit_unsigned_iff)
  have bx: "j < 128 \<Longrightarrow> bits x j = bit u j" for j using uval_bit [of x 128 j] x(2) by (simp add: bit_unsigned_iff)
  obtain a where a: "bits_op f x y 0 64 = Some a" "length a = 16"
    "\<And>j. bits a j = (if j < 64 then f (bits x j) (bits y j) else bits x j)"
    using bits_op_effect [of 0 64 x y f] x(1) y(2) by auto
  have "unat w < 2 ^ 128" using unsigned_less [of w, where ?'a = nat] by simp
  moreover have "bits a j = bit w j" if "j < 128" for j
  proof (cases "j < 64")
    case False
    then have "\<not> bit u j" "\<not> bit w j" using bit_imp_le_length [of u j] bit_imp_le_length [of w j] by auto
    then show ?thesis using a(3) bx that False by simp
  qed (simp add: a(3) bx bv assms(3))
  ultimately have "uval a 128 = unat w" by (rule uval_word)
  then show ?thesis using assms(1) y(1) a(1,2) by (simp add: ux_holds_def)
qed

lemma logic_step_passes:
  assumes "\<And>x. op x 128 1428245 = do { y \<leftarrow> ux64 1428245; bits_op f x y 0 64 }"
    and "\<And>j. j < 64 \<Longrightarrow> bit w j = f (bit (2796221 :: u64) j) (bit (1428245 :: u64) j)"
  shows "logic_step op w r = Some []"
proof -
  obtain x where x: "uintx_from_u64 ux_zero 128 2796221 = Some x" "ux_holds x (unat (2796221 :: u64))" using ux_from by blast
  obtain x' where "op x 128 1428245 = Some x'" "ux_holds x' (unat w)" using ux_logic [where op = op and f = f and w = w, OF assms(1) x(2) assms(2)] by blast
  then show ?thesis using x(1) ux_compare by (simp add: logic_step_def)
qed

lemma test_logic_passes: "test_logic = Some []"
proof -
  have w: "(35349 :: u64) = 2796221 AND 1428245" "(4189117 :: u64) = 2796221 OR 1428245" "(4153768 :: u64) = 2796221 XOR 1428245"
    by simp_all
  have b: "bit (35349 :: u64) j \<longleftrightarrow> bit (2796221 :: u64) j \<and> bit (1428245 :: u64) j"
    "bit (4189117 :: u64) j \<longleftrightarrow> bit (2796221 :: u64) j \<or> bit (1428245 :: u64) j"
    "bit (4153768 :: u64) j \<longleftrightarrow> bit (2796221 :: u64) j \<noteq> bit (1428245 :: u64) j" for j
    unfolding w bit_and_iff bit_or_iff bit_xor_iff by (rule refl)+
  have "logic_step uintx_and64 35349 Fail_and = Some []"
    by (rule logic_step_passes [where f = "(\<and>)"]) (simp add: uintx_and64_def uintx_and_def, rule b(1))
  moreover have "logic_step uintx_or64 4189117 Fail_or = Some []"
    by (rule logic_step_passes [where f = "(\<or>)"]) (simp add: uintx_or64_def uintx_or_def, rule b(2))
  moreover have "logic_step uintx_xor64 4153768 Fail_xor = Some []"
    by (rule logic_step_passes [where f = "(\<noteq>)"]) (simp add: uintx_xor64_def uintx_xor_def, rule b(3))
  ultimately show ?thesis using ux_from [of 1428245] by (auto simp: test_logic_def)
qed

text \<open>C26. The test program of uintx.c, which counts up to and down from 524288, adds the steps 1, 4, ..., 298 up to it
  and tries the bitwise operations, all in 128 bits, ends without a fault and reports no failure: after each step the
  number compares equal to its counter, below the next one and above the one before.\<close>

theorem uintx_test_passes: "uintx_test = Some []"
proof -
  have inc: "test_inc = Some []"
  proof -
    obtain x where "uintx_init ux_zero 128 = Some x" "ux_holds x (unat (1 :: u64) - 1)" using ux_init by auto
    then show ?thesis using inc_loop_passes [of x 1] by (simp add: test_inc_def del: inc_loop.simps)
  qed
  have add: "test_add = Some []" unfolding test_add_def by (rule add_tests_passes) simp
  have dec: "test_dec = Some []"
  proof -
    obtain x where "uintx_from_u64 ux_zero 128 524288 = Some x" "ux_holds x (unat (524287 :: u64) + 1)"
      using ux_from [of 524288] by auto
    then show ?thesis using dec_loop_passes [of x 524287] by (simp add: test_dec_def del: dec_loop.simps)
  qed
  show ?thesis unfolding uintx_test_def inc add dec test_logic_passes by simp
qed

end
