(* ===== verification/Work_Queue.thy ===== *)
theory Work_Queue
  imports Allocator "HOL-Library.Multiset"
begin

section \<open>workqueue.c\<close>

text \<open>
  src/workqueue: a queue of work units, and threads that take them out and run them. The functions
  on the queue are those executed under its lock; the threads are a transition system, in which a thread does
  one thing at a time: it tests the state, takes the lock, does what it does under the lock, gives
  the lock back, runs a unit, sleeps. A work unit is a job of any type (the function and its argument);
  the list of units is followed from \<open>first\<close> on, and \<open>last\<close> is its end. Of the pool of free units
  only their number matters.
\<close>

subsection \<open>The queue\<close>

record 'j workqueue =
  wq_units :: "'j list"
  wq_pool :: nat
  wq_free :: nat
  wq_closed :: bool
  wq_alk :: alk

definition WORKUNIT_POOL_SIZE :: nat where "WORKUNIT_POOL_SIZE = 128"
definition workunit_bytes :: nat where "workunit_bytes = 24"

definition workunit_pool_alloc :: "'j workqueue \<Rightarrow> bool \<times> 'j workqueue" where
  "workunit_pool_alloc q =
     (if wq_pool q \<noteq> 0 then (True, q\<lparr>wq_pool := wq_pool q - 1\<rparr>)
      else let (ok, a) = mmalloc workunit_bytes (wq_alk q) in (ok, q\<lparr>wq_alk := a\<rparr>))"

definition workunit_pool_free :: "'j workqueue \<Rightarrow> 'j workqueue" where
  "workunit_pool_free q =
     (if wq_free q = WORKUNIT_POOL_SIZE then q\<lparr>wq_alk := mmfree (wq_alk q)\<rparr>
      else q\<lparr>wq_pool := wq_pool q + 1\<rparr>)"

definition workqueue_fetch :: "'j workqueue \<Rightarrow> 'j option \<times> 'j workqueue" where
  "workqueue_fetch q =
     (case wq_units q of
        [] \<Rightarrow> (None, q)
      | j # js \<Rightarrow> (Some j, workunit_pool_free (q\<lparr>wq_units := js\<rparr>)))"

definition additem_locked :: "'j workqueue \<Rightarrow> 'j \<Rightarrow> bool \<times> 'j workqueue" where
  "additem_locked q j =
     (let (ok, q) = workunit_pool_alloc q
      in (ok, if ok then q\<lparr>wq_units := wq_units q @ [j]\<rparr> else q))"

text \<open>The blocks given back at the end: the units left, the pool and the queue itself.\<close>

definition release_blocks :: "'j workqueue \<Rightarrow> 'j workqueue" where
  "release_blocks q =
     (let a = (mmfree ^^ length (wq_units q)) (wq_alk q);
          a = (mmfree ^^ wq_pool q) a
      in q\<lparr>wq_units := [], wq_pool := 0, wq_alk := mmfree a\<rparr>)"

text \<open>
  \<open>threads_start\<close>: the threads from the last to the first; the value says whether all were started. If one
  is not, it and the ones behind it are joined: \<open>pthread_join\<close> of a thread that was never created, a fault.
\<close>

fun threads_start :: "(nat \<Rightarrow> bool) \<Rightarrow> nat \<Rightarrow> bool list \<Rightarrow> bool list option" where
  "threads_start create 0 core = Some core"
| "threads_start create (Suc n) core =
     (if create n then threads_start create n (core[n := True])
      else if list_all (\<lambda>started. started) (drop n core) then Some core else None)"

definition workqueue_bytes :: nat where "workqueue_bytes = 96"

text \<open>The value is the queue and the number of its threads, or None for NULL. \<open>nproc\<close> and \<open>create\<close> are what
  the system answers.\<close>

definition workqueue_alloc :: "nat \<Rightarrow> (nat \<Rightarrow> bool) \<Rightarrow> alk \<Rightarrow> (('j workqueue \<times> nat) option \<times> alk) option" where
  "workqueue_alloc nproc create a =
     (let ncore = 2 * nproc;
          (ok, a) = mmalloc (workqueue_bytes + ncore * 8) a
      in if \<not> ok then Some (None, a)
         else do {
           core \<leftarrow> threads_start create ncore (replicate ncore False);
           Some (Some (\<lparr>wq_units = [], wq_pool = 0, wq_free = 0, wq_closed = False, wq_alk = a\<rparr>, ncore), a)
         })"

subsection \<open>The threads\<close>

text \<open>Where a worker is, in \<open>__workqueue_loop\<close> and \<open>__workqueue_fetch\<close>, and where the thread that owns the
  queue is: in none of the functions, or in \<open>workqueue_additem\<close>, \<open>workqueue_wait\<close>, \<open>workqueue_release\<close>.\<close>

datatype 'j worker =
    Test_State | Want_Fetch | In_Fetch | End_Fetch "'j option" | Run_Unit 'j | Sleeping | Exited

datatype 'j client =
    Idle | Want_Add 'j | In_Add 'j | End_Add bool
  | Wait_Sleep | In_Wait | End_Wait bool | Joining nat | Released

datatype holder = Held_By_Worker nat | Held_By_Client

datatype 'j call = Call_Add 'j | Call_Wait | Call_Release

text \<open>\<open>sy_added\<close>, \<open>sy_fetched\<close> and \<open>sy_done\<close> record the jobs that were put into the queue, taken out of it
  and run, and \<open>sy_results\<close> the values \<open>workqueue_additem\<close> returned.\<close>

record 'j system =
  sy_queue :: "'j workqueue"
  sy_lock :: "holder option"
  sy_workers :: "'j worker list"
  sy_client :: "'j client"
  sy_added :: "'j list"
  sy_fetched :: "'j list"
  sy_done :: "'j list"
  sy_results :: "nat list"

definition goes :: "'j system \<Rightarrow> nat \<Rightarrow> 'j worker \<Rightarrow> 'j system" where
  "goes s i w = s\<lparr>sy_workers := (sy_workers s)[i := w]\<rparr>"

text \<open>One step of the worker \<open>i\<close>; None: it has to wait, or has ended.\<close>

definition worker_step :: "nat \<Rightarrow> 'j system \<Rightarrow> 'j system option" where
  "worker_step i s =
     (if length (sy_workers s) \<le> i then None
      else case sy_workers s ! i of
        Test_State \<Rightarrow> Some (goes s i (if wq_closed (sy_queue s) then Exited else Want_Fetch))
      | Want_Fetch \<Rightarrow>
          if sy_lock s = None then Some (goes (s\<lparr>sy_lock := Some (Held_By_Worker i)\<rparr>) i In_Fetch) else None
      | In_Fetch \<Rightarrow>
          let (r, q) = workqueue_fetch (sy_queue s)
          in Some (goes (s\<lparr>sy_queue := q, sy_fetched := sy_fetched s @ (case r of None \<Rightarrow> [] | Some j \<Rightarrow> [j])\<rparr>) i (End_Fetch r))
      | End_Fetch r \<Rightarrow> Some (goes (s\<lparr>sy_lock := None\<rparr>) i (case r of None \<Rightarrow> Sleeping | Some j \<Rightarrow> Run_Unit j))
      | Run_Unit j \<Rightarrow> Some (goes (s\<lparr>sy_done := sy_done s @ [j]\<rparr>) i Test_State)
      | Sleeping \<Rightarrow> Some (goes s i Test_State)
      | Exited \<Rightarrow> None)"

text \<open>One step of the owner; \<open>c\<close> is what it calls when it is in none of the functions.\<close>

definition client_step :: "'j call \<Rightarrow> 'j system \<Rightarrow> 'j system option" where
  "client_step c s =
     (case sy_client s of
        Idle \<Rightarrow>
          (case c of
             Call_Add j \<Rightarrow>
               Some (if wq_closed (sy_queue s) then s\<lparr>sy_results := sy_results s @ [2]\<rparr> else s\<lparr>sy_client := Want_Add j\<rparr>)
           | Call_Wait \<Rightarrow> Some (s\<lparr>sy_client := Wait_Sleep\<rparr>)
           | Call_Release \<Rightarrow>
               Some (s\<lparr>sy_queue := (sy_queue s)\<lparr>wq_closed := True\<rparr>, sy_client := Joining (length (sy_workers s))\<rparr>))
      | Want_Add j \<Rightarrow>
          if sy_lock s = None then Some (s\<lparr>sy_lock := Some Held_By_Client, sy_client := In_Add j\<rparr>) else None
      | In_Add j \<Rightarrow>
          let (ok, q) = additem_locked (sy_queue s) j
          in Some (s\<lparr>sy_queue := q, sy_added := sy_added s @ (if ok then [j] else []), sy_client := End_Add ok\<rparr>)
      | End_Add ok \<Rightarrow>
          Some (s\<lparr>sy_lock := None, sy_client := Idle, sy_results := sy_results s @ [if ok then 0 else 1]\<rparr>)
      | Wait_Sleep \<Rightarrow>
          if sy_lock s = None then Some (s\<lparr>sy_lock := Some Held_By_Client, sy_client := In_Wait\<rparr>) else None
      | In_Wait \<Rightarrow> Some (s\<lparr>sy_client := End_Wait (wq_units (sy_queue s) \<noteq> [])\<rparr>)
      | End_Wait w \<Rightarrow> Some (s\<lparr>sy_lock := None, sy_client := if w then Wait_Sleep else Idle\<rparr>)
      | Joining 0 \<Rightarrow> Some (s\<lparr>sy_queue := release_blocks (sy_queue s), sy_client := Released\<rparr>)
      | Joining (Suc n) \<Rightarrow> if sy_workers s ! n = Exited then Some (s\<lparr>sy_client := Joining n\<rparr>) else None
      | Released \<Rightarrow> None)"

inductive wq_step :: "'j system \<Rightarrow> 'j system \<Rightarrow> bool" where
  by_worker: "worker_step i s = Some t \<Longrightarrow> wq_step s t"
| by_client: "client_step c s = Some t \<Longrightarrow> wq_step s t"

definition wq_start :: "'j workqueue \<Rightarrow> nat \<Rightarrow> 'j system" where
  "wq_start q ncore =
     \<lparr>sy_queue = q, sy_lock = None, sy_workers = replicate ncore Test_State, sy_client = Idle,
      sy_added = [], sy_fetched = [], sy_done = [], sy_results = []\<rparr>"

inductive wq_reach :: "'j system \<Rightarrow> 'j system \<Rightarrow> bool" for s :: "'j system" where
  here: "wq_reach s s"
| further: "wq_reach s t \<Longrightarrow> wq_step t u \<Longrightarrow> wq_reach s u"

inductive_cases wq_stepE: "wq_step s t"

subsection \<open>Invariants\<close>

text \<open>The thread that holds the lock is the one that is between taking it and giving it back.\<close>

fun locked_worker :: "'j worker \<Rightarrow> bool" where
  "locked_worker In_Fetch = True"
| "locked_worker (End_Fetch r) = True"
| "locked_worker _ = False"

fun locked_client :: "'j client \<Rightarrow> bool" where
  "locked_client (In_Add j) = True"
| "locked_client (End_Add ok) = True"
| "locked_client In_Wait = True"
| "locked_client (End_Wait w) = True"
| "locked_client _ = False"

definition lock_inv :: "'j system \<Rightarrow> bool" where
  "lock_inv s \<longleftrightarrow>
     (\<forall>i < length (sy_workers s). locked_worker (sy_workers s ! i) = (sy_lock s = Some (Held_By_Worker i)))
     \<and> locked_client (sy_client s) = (sy_lock s = Some Held_By_Client)
     \<and> (\<forall>i. sy_lock s = Some (Held_By_Worker i) \<longrightarrow> i < length (sy_workers s))"

text \<open>The jobs a worker has taken out and not run yet.\<close>

fun in_hand :: "'j worker \<Rightarrow> 'j list" where
  "in_hand (End_Fetch (Some j)) = [j]"
| "in_hand (Run_Unit j) = [j]"
| "in_hand _ = []"

definition jobs_inv :: "'j system \<Rightarrow> bool" where
  "jobs_inv s \<longleftrightarrow>
     (\<exists>left. sy_added s = sy_fetched s @ left \<and> (sy_client s \<noteq> Released \<longrightarrow> left = wq_units (sy_queue s)))
     \<and> mset (sy_fetched s) = mset (sy_done s) + mset (concat (map in_hand (sy_workers s)))"

definition memory_inv :: "int \<Rightarrow> 'j system \<Rightarrow> bool" where
  "memory_inv n s \<longleftrightarrow>
     wq_free (sy_queue s) = 0
     \<and> alk_live (wq_alk (sy_queue s)) =
         (if sy_client s = Released then n else n + 1 + int (length (wq_units (sy_queue s))) + int (wq_pool (sy_queue s)))"

definition close_inv :: "'j system \<Rightarrow> bool" where
  "close_inv s \<longleftrightarrow>
     (case sy_client s of
        Joining n \<Rightarrow> wq_closed (sy_queue s) \<and> n \<le> length (sy_workers s)
          \<and> (\<forall>i. n \<le> i \<longrightarrow> i < length (sy_workers s) \<longrightarrow> sy_workers s ! i = Exited)
      | Released \<Rightarrow> wq_closed (sy_queue s) \<and> (\<forall>w \<in> set (sy_workers s). w = Exited)
      | _ \<Rightarrow> \<not> wq_closed (sy_queue s))"

lemma goes_simps [simp]:
  "sy_queue (goes s i w) = sy_queue s" "sy_lock (goes s i w) = sy_lock s" "sy_client (goes s i w) = sy_client s"
  "sy_added (goes s i w) = sy_added s" "sy_fetched (goes s i w) = sy_fetched s" "sy_done (goes s i w) = sy_done s"
  "sy_results (goes s i w) = sy_results s" "sy_workers (goes s i w) = (sy_workers s)[i := w]"
  by (simp_all add: goes_def)

lemma fetch_simps [simp]:
  "workqueue_fetch q = (r, q') \<Longrightarrow> wq_closed q' = wq_closed q"
  by (auto simp: workqueue_fetch_def workunit_pool_free_def split: list.splits if_splits)

lemma additem_simps [simp]:
  "additem_locked q j = (ok, q') \<Longrightarrow> wq_closed q' = wq_closed q"
  by (auto simp: additem_locked_def workunit_pool_alloc_def Let_def split: prod.splits if_splits)

text \<open>The steps of a worker, one by one.\<close>

lemma worker_step_cases [consumes 1, case_names tests takes fetches ends runs wakes]:
  assumes "worker_step i s = Some t"
  obtains "i < length (sy_workers s)" "sy_workers s ! i = Test_State"
      "t = goes s i (if wq_closed (sy_queue s) then Exited else Want_Fetch)"
    | "i < length (sy_workers s)" "sy_workers s ! i = Want_Fetch" "sy_lock s = None"
      "t = goes (s\<lparr>sy_lock := Some (Held_By_Worker i)\<rparr>) i In_Fetch"
    | r q where "i < length (sy_workers s)" "sy_workers s ! i = In_Fetch" "workqueue_fetch (sy_queue s) = (r, q)"
      "t = goes (s\<lparr>sy_queue := q, sy_fetched := sy_fetched s @ (case r of None \<Rightarrow> [] | Some j \<Rightarrow> [j])\<rparr>) i (End_Fetch r)"
    | r where "i < length (sy_workers s)" "sy_workers s ! i = End_Fetch r"
      "t = goes (s\<lparr>sy_lock := None\<rparr>) i (case r of None \<Rightarrow> Sleeping | Some j \<Rightarrow> Run_Unit j)"
    | j where "i < length (sy_workers s)" "sy_workers s ! i = Run_Unit j"
      "t = goes (s\<lparr>sy_done := sy_done s @ [j]\<rparr>) i Test_State"
    | "i < length (sy_workers s)" "sy_workers s ! i = Sleeping" "t = goes s i Test_State"
proof -
  have i: "i < length (sy_workers s)" using assms by (simp add: worker_step_def split: if_splits)
  show ?thesis
  proof (cases "sy_workers s ! i")
    case In_Fetch
    then show ?thesis using assms i that(3) by (auto simp: worker_step_def split: prod.splits)
  qed (use assms i that(1,2,4,5,6) in \<open>simp_all add: worker_step_def split: if_splits\<close>)
qed

lemma lock_inv_worker: "worker_step i s = Some t \<Longrightarrow> lock_inv s \<Longrightarrow> lock_inv t"
proof (erule worker_step_cases)
  fix r
  assume a: "lock_inv s" "sy_workers s ! i = End_Fetch r" "i < length (sy_workers s)"
    "t = goes (s\<lparr>sy_lock := None\<rparr>) i (case r of None \<Rightarrow> Sleeping | Some j \<Rightarrow> Run_Unit j)"
  then have "sy_lock s = Some (Held_By_Worker i)" by (auto simp: lock_inv_def)
  then have "\<not> locked_worker (sy_workers s ! k)" if "k < length (sy_workers s)" "k \<noteq> i" for k
    using a(1) that by (auto simp: lock_inv_def)
  then show "lock_inv t" using a \<open>sy_lock s = _\<close>
    by (cases r) (auto simp: lock_inv_def nth_list_update)
qed (auto simp: lock_inv_def nth_list_update)

lemma lock_inv_client: "client_step c s = Some t \<Longrightarrow> lock_inv s \<Longrightarrow> lock_inv t"
  by (auto simp: client_step_def lock_inv_def Let_def split: client.splits call.splits if_splits prod.splits nat.splits)

lemma mset_concat_map_update:
  assumes "i < length xs"
  shows "mset (concat (map f (xs[i := x]))) + mset (f (xs ! i)) = mset (concat (map f xs)) + mset (f x)"
  using assms
proof (induction xs arbitrary: i)
  case (Cons y ys)
  show ?case
  proof (cases i)
    case (Suc k)
    then show ?thesis using Cons.IH [of k] Cons.prems by (simp add: ac_simps)
  qed simp
qed simp

lemma fetch_jobs:
  "workqueue_fetch q = (r, q') \<Longrightarrow> wq_units q = (case r of None \<Rightarrow> [] | Some j \<Rightarrow> [j]) @ wq_units q'
    \<and> (r = None \<longrightarrow> q' = q)"
  by (auto simp: workqueue_fetch_def workunit_pool_free_def split: list.splits if_splits)

lemma in_hand_moved:
  assumes "i < length ws" "mset (in_hand w) = mset (in_hand (ws ! i)) + A"
  shows "mset (concat (map in_hand (ws[i := w]))) = mset (concat (map in_hand ws)) + A"
  using mset_concat_map_update [OF assms(1), of in_hand w] assms(2) by (simp add: ac_simps)

lemma in_hand_done:
  assumes "i < length ws" "mset (in_hand (ws ! i)) = mset (in_hand w) + A"
  shows "mset (concat (map in_hand ws)) = mset (concat (map in_hand (ws[i := w]))) + A"
  using mset_concat_map_update [OF assms(1), of in_hand w] assms(2) by (simp add: ac_simps)

lemma jobs_inv_worker:
  assumes "worker_step i s = Some t" "jobs_inv s" "close_inv s"
  shows "jobs_inv t"
  using assms(1)
proof (cases rule: worker_step_cases)
  case tests
  let ?w = "if wq_closed (sy_queue s) then Exited else Want_Fetch"
  have "mset (concat (map in_hand ((sy_workers s)[i := ?w]))) = mset (concat (map in_hand (sy_workers s))) + {#}"
    using tests by (intro in_hand_moved) auto
  then show ?thesis using assms(2) tests(3) by (simp add: jobs_inv_def)
next
  case takes
  have "mset (concat (map in_hand ((sy_workers s)[i := In_Fetch]))) = mset (concat (map in_hand (sy_workers s))) + {#}"
    using takes by (intro in_hand_moved) auto
  then show ?thesis using assms(2) takes(4) by (simp add: jobs_inv_def)
next
  case (fetches r q)
  let ?js = "case r of None \<Rightarrow> [] | Some j \<Rightarrow> [j]"
  have nr: "sy_client s \<noteq> Released" using assms(3) fetches(2) nth_mem [OF fetches(1)] by (auto simp: close_inv_def)
  have "mset (concat (map in_hand ((sy_workers s)[i := End_Fetch r]))) = mset (concat (map in_hand (sy_workers s))) + mset ?js"
    using fetches by (intro in_hand_moved) (auto split: option.splits)
  then show ?thesis using assms(2) fetch_jobs [OF fetches(3)] nr fetches(4) by (auto simp: jobs_inv_def)
next
  case (ends r)
  let ?w = "case r of None \<Rightarrow> Sleeping | Some j \<Rightarrow> Run_Unit j"
  have "mset (concat (map in_hand ((sy_workers s)[i := ?w]))) = mset (concat (map in_hand (sy_workers s))) + {#}"
    using ends by (intro in_hand_moved) (auto split: option.splits)
  then show ?thesis using assms(2) ends(3) by (simp add: jobs_inv_def)
next
  case (runs j)
  have "mset (concat (map in_hand (sy_workers s))) = mset (concat (map in_hand ((sy_workers s)[i := Test_State]))) + {#j#}"
    using runs by (intro in_hand_done) auto
  then show ?thesis using assms(2) runs(3) by (simp add: jobs_inv_def)
next
  case wakes
  have "mset (concat (map in_hand ((sy_workers s)[i := Test_State]))) = mset (concat (map in_hand (sy_workers s))) + {#}"
    using wakes by (intro in_hand_moved) auto
  then show ?thesis using assms(2) wakes(3) by (simp add: jobs_inv_def)
qed

lemma additem_jobs: "additem_locked q j = (ok, q') \<Longrightarrow> wq_units q' = wq_units q @ (if ok then [j] else [])"
  by (auto simp: additem_locked_def workunit_pool_alloc_def Let_def split: prod.splits if_splits)

lemma jobs_inv_client: "client_step c s = Some t \<Longrightarrow> jobs_inv s \<Longrightarrow> jobs_inv t"
  by (auto simp: client_step_def jobs_inv_def release_blocks_def Let_def dest!: additem_jobs
      split: client.splits call.splits if_splits prod.splits nat.splits)

lemma close_inv_worker:
  assumes "worker_step i s = Some t" "close_inv s"
  shows "close_inv t"
proof -
  have i: "i < length (sy_workers s)" "sy_workers s ! i \<noteq> Exited" and c: "sy_client t = sy_client s"
    "wq_closed (sy_queue t) = wq_closed (sy_queue s)" "length (sy_workers t) = length (sy_workers s)"
    and o: "\<And>k. k \<noteq> i \<Longrightarrow> sy_workers t ! k = sy_workers s ! k"
    using assms(1) by (cases rule: worker_step_cases; auto)+
  show ?thesis
  proof (cases "sy_client s")
    case (Joining n)
    then have "\<forall>k. n \<le> k \<longrightarrow> k < length (sy_workers s) \<longrightarrow> k \<noteq> i" using assms(2) i by (auto simp: close_inv_def)
    then show ?thesis using assms(2) Joining c o by (auto simp: close_inv_def)
  next
    case Released
    then have False using assms(2) i nth_mem [OF i(1)] by (auto simp: close_inv_def)
    then show ?thesis ..
  qed (use assms(2) c in \<open>auto simp: close_inv_def\<close>)
qed

lemma close_inv_client: "client_step c s = Some t \<Longrightarrow> close_inv s \<Longrightarrow> close_inv t"
proof (cases "sy_client s")
  case (Joining n)
  assume a: "client_step c s = Some t" "close_inv s"
  show ?thesis
  proof (cases n)
    case 0
    then show ?thesis using a Joining by (auto simp: client_step_def close_inv_def release_blocks_def in_set_conv_nth Let_def)
  next
    case (Suc m)
    then have "sy_workers s ! m = Exited" "t = s\<lparr>sy_client := Joining m\<rparr>"
      using a Joining by (auto simp: client_step_def split: if_splits)
    moreover have "m \<le> k \<longleftrightarrow> m = k \<or> Suc m \<le> k" for k by auto
    ultimately show ?thesis using a(2) Joining Suc by (auto simp: close_inv_def)
  qed
qed (auto simp: client_step_def close_inv_def Let_def split: call.splits if_splits prod.splits)


lemma fetch_memory:
  "workqueue_fetch q = (r, q') \<Longrightarrow> wq_free q = 0 \<Longrightarrow> wq_free q' = 0 \<and> wq_alk q' = wq_alk q
    \<and> length (wq_units q') + wq_pool q' = length (wq_units q) + wq_pool q"
  by (auto simp: workqueue_fetch_def workunit_pool_free_def WORKUNIT_POOL_SIZE_def split: list.splits if_splits)

lemma additem_memory:
  assumes "additem_locked q j = (ok, q')"
  shows "wq_free q' = wq_free q"
    and "alk_live (wq_alk q') - int (length (wq_units q') + wq_pool q') = alk_live (wq_alk q) - int (length (wq_units q) + wq_pool q)"
  using assms
  by (auto simp: additem_locked_def workunit_pool_alloc_def Let_def dest!: mmalloc_live split: prod.splits if_splits)

lemma memory_inv_worker: "worker_step i s = Some t \<Longrightarrow> close_inv s \<Longrightarrow> memory_inv n s \<Longrightarrow> memory_inv n t"
proof (erule worker_step_cases)
  fix r q
  assume a: "close_inv s" "memory_inv n s" "i < length (sy_workers s)" "sy_workers s ! i = In_Fetch"
    and f: "workqueue_fetch (sy_queue s) = (r, q)"
    and t: "t = goes (s\<lparr>sy_queue := q, sy_fetched := sy_fetched s @ (case r of None \<Rightarrow> [] | Some j \<Rightarrow> [j])\<rparr>) i (End_Fetch r)"
  have "sy_client s \<noteq> Released" using a(1,4) nth_mem [OF a(3)] by (auto simp: close_inv_def)
  then show "memory_inv n t" using a(2) fetch_memory [OF f] t by (simp add: memory_inv_def)
qed (auto simp: memory_inv_def)

lemma memory_inv_client: "client_step c s = Some t \<Longrightarrow> memory_inv n s \<Longrightarrow> memory_inv n t"
proof (cases "sy_client s")
  case (In_Add j)
  assume a: "client_step c s = Some t" "memory_inv n s"
  obtain ok q where f: "additem_locked (sy_queue s) j = (ok, q)" by fastforce
  then have "t = s\<lparr>sy_queue := q, sy_added := sy_added s @ (if ok then [j] else []), sy_client := End_Add ok\<rparr>"
    using a(1) In_Add by (simp add: client_step_def)
  then show ?thesis using a(2) In_Add additem_memory [OF f] by (simp add: memory_inv_def)
next
  case (Joining k)
  assume a: "client_step c s = Some t" "memory_inv n s"
  then show ?thesis using Joining
    by (cases k) (auto simp: client_step_def memory_inv_def release_blocks_def Let_def split: if_splits)
qed (auto simp: client_step_def memory_inv_def Let_def split: call.splits if_splits prod.splits)

text \<open>What \<open>workqueue_wait\<close> has seen is still so when it gives the lock back.\<close>

definition wait_inv :: "'j system \<Rightarrow> bool" where
  "wait_inv s \<longleftrightarrow> (\<forall>w. sy_client s = End_Wait w \<longrightarrow> w = (wq_units (sy_queue s) \<noteq> []))"

lemma wait_inv_worker: "worker_step i s = Some t \<Longrightarrow> lock_inv s \<Longrightarrow> wait_inv s \<Longrightarrow> wait_inv t"
proof (erule worker_step_cases)
  fix r q
  assume a: "lock_inv s" "i < length (sy_workers s)" "sy_workers s ! i = In_Fetch"
    and t: "t = goes (s\<lparr>sy_queue := q, sy_fetched := sy_fetched s @ (case r of None \<Rightarrow> [] | Some j \<Rightarrow> [j])\<rparr>) i (End_Fetch r)"
  have "sy_lock s = Some (Held_By_Worker i)" using a by (auto simp: lock_inv_def)
  then have "\<not> locked_client (sy_client s)" using a(1) by (simp add: lock_inv_def)
  then show "wait_inv t" using t by (auto simp: wait_inv_def)
qed (auto simp: wait_inv_def)

lemma wait_inv_client: "client_step c s = Some t \<Longrightarrow> wait_inv t"
  by (cases "sy_client s")
    (auto simp: client_step_def wait_inv_def Let_def split: call.splits if_splits prod.splits nat.splits)

definition wq_inv :: "int \<Rightarrow> 'j system \<Rightarrow> bool" where
  "wq_inv n s \<longleftrightarrow> lock_inv s \<and> jobs_inv s \<and> close_inv s \<and> memory_inv n s \<and> wait_inv s"

lemma wq_inv_step: "wq_step s t \<Longrightarrow> wq_inv n s \<Longrightarrow> wq_inv n t"
proof (induction rule: wq_step.induct)
  case (by_worker i s t)
  then show ?case using lock_inv_worker jobs_inv_worker close_inv_worker memory_inv_worker wait_inv_worker
    unfolding wq_inv_def by blast
next
  case (by_client c s t)
  then show ?case using lock_inv_client jobs_inv_client close_inv_client memory_inv_client wait_inv_client
    unfolding wq_inv_def by blast
qed

lemma wq_inv_reach: "wq_reach s t \<Longrightarrow> wq_inv n s \<Longrightarrow> wq_inv n t"
  by (induction rule: wq_reach.induct) (auto intro: wq_inv_step)

definition wq_fresh :: "int \<Rightarrow> 'j workqueue \<Rightarrow> bool" where
  "wq_fresh n q \<longleftrightarrow> wq_units q = [] \<and> wq_pool q = 0 \<and> wq_free q = 0 \<and> \<not> wq_closed q \<and> alk_live (wq_alk q) = n + 1"

lemma wq_inv_start: "wq_fresh n q \<Longrightarrow> wq_inv n (wq_start q ncore)"
  by (simp add: wq_inv_def wq_fresh_def wq_start_def lock_inv_def jobs_inv_def close_inv_def memory_inv_def wait_inv_def)

lemma workqueue_alloc_fresh:
  assumes "workqueue_alloc nproc create a = Some (Some (q, n), a')"
  shows "wq_fresh (alk_live a) q \<and> n = 2 * nproc"
  using assms
  by (auto simp: workqueue_alloc_def Let_def wq_fresh_def dest!: mmalloc_live split: prod.splits if_splits bind_splits)

lemma step_workers: "wq_step s t \<Longrightarrow> length (sy_workers t) = length (sy_workers s)"
proof (induction rule: wq_step.induct)
  case (by_worker i s t)
  then show ?case by (cases rule: worker_step_cases) auto
next
  case (by_client c s t)
  then show ?case
    by (cases "sy_client s") (auto simp: client_step_def Let_def split: call.splits if_splits prod.splits nat.splits)
qed

lemma reach_workers: "wq_reach s t \<Longrightarrow> length (sy_workers t) = length (sy_workers s)"
  by (induction rule: wq_reach.induct) (auto dest: step_workers)

subsection \<open>Closing\<close>

fun worker_rank :: "'j worker \<Rightarrow> nat" where
  "worker_rank Want_Fetch = 5"
| "worker_rank In_Fetch = 4"
| "worker_rank (End_Fetch r) = 3"
| "worker_rank (Run_Unit j) = 2"
| "worker_rank Sleeping = 2"
| "worker_rank Test_State = 1"
| "worker_rank Exited = 0"

fun client_rank :: "'j client \<Rightarrow> nat" where
  "client_rank (Joining n) = n + 1"
| "client_rank _ = 0"

definition wq_rank :: "'j system \<Rightarrow> nat" where
  "wq_rank s = sum_list (map worker_rank (sy_workers s)) + client_rank (sy_client s)"

fun closing :: "'j client \<Rightarrow> bool" where
  "closing (Joining n) = True"
| "closing Released = True"
| "closing _ = False"

lemma rank_update:
  assumes "i < length ws" "worker_rank w < worker_rank (ws ! i)"
  shows "sum_list (map worker_rank (ws[i := w])) < sum_list (map worker_rank ws)"
  using assms
proof (induction ws arbitrary: i)
  case (Cons v ws)
  then show ?case by (cases i) auto
qed simp

lemma closing_step:
  assumes "wq_step s t" "closing (sy_client s)" "close_inv s"
  shows "closing (sy_client t)" "wq_rank t < wq_rank s"
proof -
  have c: "wq_closed (sy_queue s)" using assms(2,3) by (cases "sy_client s") (auto simp: close_inv_def)
  from assms(1) have "closing (sy_client t) \<and> wq_rank t < wq_rank s"
  proof (cases rule: wq_step.cases)
    case (by_worker i)
    have cl: "sy_client t = sy_client s" using by_worker by (cases rule: worker_step_cases) auto
    have "sum_list (map worker_rank (sy_workers t)) < sum_list (map worker_rank (sy_workers s))"
      using by_worker
    proof (cases rule: worker_step_cases)
      case (ends r)
      then show ?thesis by (cases r) (simp_all add: rank_update)
    qed (simp_all add: rank_update c)
    then show ?thesis using cl assms(2) by (simp add: wq_rank_def)
  next
    case (by_client c)
    then obtain n where n: "sy_client s = Joining n" using assms(2) by (cases "sy_client s") (auto simp: client_step_def)
    then show ?thesis using by_client by (cases n) (auto simp: client_step_def wq_rank_def split: if_splits)
  qed
  then show "closing (sy_client t)" "wq_rank t < wq_rank s" by simp_all
qed

lemma closing_run:
  assumes "(wq_step ^^ k) s t" "closing (sy_client s)" "wq_inv n s"
  shows "closing (sy_client t) \<and> wq_inv n t \<and> wq_rank t + k \<le> wq_rank s"
  using assms(1)
proof (induction k arbitrary: t)
  case (Suc k)
  from Suc.prems obtain u where u: "(wq_step ^^ k) s u" "wq_step u t" by (elim relpowp_Suc_E)
  then have "closing (sy_client u)" "wq_inv n u" "wq_rank u + k \<le> wq_rank s" using Suc.IH by simp_all
  then show ?case using closing_step [OF u(2)] wq_inv_step [OF u(2)] by (auto simp: wq_inv_def)
qed (use assms in simp)

lemma worker_rank_le: "sum_list (map worker_rank ws) \<le> 5 * length ws"
proof (induction ws)
  case (Cons w ws)
  then show ?case by (cases w) auto
qed simp

lemma wq_rank_le: "close_inv s \<Longrightarrow> wq_rank s \<le> 6 * length (sy_workers s) + 1"
  using worker_rank_le [of "sy_workers s"] by (cases "sy_client s") (auto simp: wq_rank_def close_inv_def)

text \<open>Some thread can always go on.\<close>

lemma worker_can_step:
  assumes "i < length (sy_workers s)" "sy_workers s ! i \<noteq> Exited" "sy_workers s ! i = Want_Fetch \<Longrightarrow> sy_lock s = None"
  shows "\<exists>t. wq_step s t"
proof -
  have "\<exists>t. worker_step i s = Some t"
    using assms by (cases "sy_workers s ! i") (auto simp: worker_step_def Let_def split: prod.splits)
  then show ?thesis by (blast intro: by_worker)
qed

lemma never_stuck:
  assumes "lock_inv s" "sy_client s \<noteq> Released" "close_inv s"
  shows "\<exists>t. wq_step s t"
proof (cases "sy_lock s")
  case None
  show ?thesis
  proof (cases "\<exists>n. sy_client s = Joining (Suc n) \<and> sy_workers s ! n \<noteq> Exited")
    case True
    then obtain n where n: "sy_client s = Joining (Suc n)" "sy_workers s ! n \<noteq> Exited" by blast
    then have "n < length (sy_workers s)" using assms(3) by (simp add: close_inv_def)
    then show ?thesis using n(2) None by (intro worker_can_step) auto
  next
    case False
    then have "\<exists>t. client_step Call_Wait s = Some t" using None assms(2)
      by (cases "sy_client s") (auto simp: client_step_def Let_def split: prod.splits nat.splits)
    then show ?thesis by (blast intro: by_client)
  qed
next
  case (Some h)
  show ?thesis
  proof (cases h)
    case (Held_By_Worker i)
    then have "i < length (sy_workers s)" "locked_worker (sy_workers s ! i)" using assms(1) Some by (auto simp: lock_inv_def)
    then show ?thesis by (intro worker_can_step) auto
  next
    case Held_By_Client
    then have "locked_client (sy_client s)" using assms(1) Some by (simp add: lock_inv_def)
    then have "\<exists>t. client_step Call_Wait s = Some t"
      by (cases "sy_client s") (auto simp: client_step_def Let_def split: prod.splits)
    then show ?thesis by (blast intro: by_client)
  qed
qed

subsection \<open>Schedules\<close>

text \<open>A schedule says which thread makes the next step.\<close>

datatype 'j turn = Worker_Turn nat | Owner_Turn "'j call"

fun wq_run :: "'j turn list \<Rightarrow> 'j system \<Rightarrow> 'j system option" where
  "wq_run [] s = Some s"
| "wq_run (Worker_Turn i # ts) s = do { s \<leftarrow> worker_step i s; wq_run ts s }"
| "wq_run (Owner_Turn c # ts) s = do { s \<leftarrow> client_step c s; wq_run ts s }"

lemma reach_trans: "wq_reach t u \<Longrightarrow> wq_reach s t \<Longrightarrow> wq_reach s u"
  by (induction rule: wq_reach.induct) (auto intro: wq_reach.further)

lemma wq_run_reach: "wq_run ts s = Some t \<Longrightarrow> wq_reach s t"
proof (induction ts s rule: wq_run.induct)
  case (2 i ts s)
  then obtain u where u: "worker_step i s = Some u" "wq_run ts u = Some t" by (auto simp: bind_Some_iff)
  have "wq_reach s u" using by_worker [OF u(1)] by (blast intro: wq_reach.intros)
  then show ?case using "2.IH" [OF u] reach_trans by blast
next
  case (3 c ts s)
  then obtain u where u: "client_step c s = Some u" "wq_run ts u = Some t" by (auto simp: bind_Some_iff)
  have "wq_reach s u" using by_client [OF u(1)] by (blast intro: wq_reach.intros)
  then show ?case using "3.IH" [OF u] reach_trans by blast
qed (simp add: wq_reach.here)

end
