(* ===== verification/Work_Properties.thy ===== *)
theory Work_Properties
  imports Work_Queue
begin

section \<open>Properties of workqueue.c\<close>

text \<open>
  What holds in every state that the worker threads and the owner of a queue can reach, whatever the
  order of their steps, and that a release comes to an end.
\<close>

text \<open>C27. In every reachable state: at most one thread is between taking the lock and giving it back; the
  jobs have been taken out in the order in which they were added, those not taken out are the ones in the queue
  until it is released, and each one taken out has been run once or is in the hand of one worker; when
  \<open>workqueue_wait\<close> returns every job added has been taken out; and the blocks of memory in use are the queue, its
  units and its pool, none after the release.\<close>

theorem workqueue_safe:
  assumes "workqueue_alloc nproc create a = Some (Some (q, n), a')" "wq_reach (wq_start q n) s"
  shows "(\<forall>i j. i < n \<and> j < n \<and> locked_worker (sy_workers s ! i) \<and> locked_worker (sy_workers s ! j) \<longrightarrow> i = j)
      \<and> (\<forall>i. i < n \<and> locked_worker (sy_workers s ! i) \<longrightarrow> \<not> locked_client (sy_client s))
    \<and> (\<exists>left. sy_added s = sy_fetched s @ left \<and> (sy_client s \<noteq> Released \<longrightarrow> left = wq_units (sy_queue s)))
    \<and> mset (sy_fetched s) = mset (sy_done s) + mset (concat (map in_hand (sy_workers s)))
    \<and> (sy_client s = End_Wait False \<longrightarrow> sy_added s = sy_fetched s)
    \<and> alk_live (wq_alk (sy_queue s)) - alk_live a
        = (if sy_client s = Released then 0 else 1 + int (length (wq_units (sy_queue s))) + int (wq_pool (sy_queue s)))"
proof -
  have "wq_inv (alk_live a) s"
    using wq_inv_reach [OF assms(2)] wq_inv_start workqueue_alloc_fresh [OF assms(1)] by blast
  moreover have "length (sy_workers s) = n" using reach_workers [OF assms(2)] by (simp add: wq_start_def)
  ultimately show ?thesis by (auto simp: wq_inv_def lock_inv_def jobs_inv_def memory_inv_def wait_inv_def)
qed

definition small_queue :: "nat workqueue" where
  "small_queue = \<lparr>wq_units = [], wq_pool = 0, wq_free = 0, wq_closed = False, wq_alk = snd (mmalloc 112 alk_generous)\<rparr>"

lemma small_queue_alloc: "workqueue_alloc 1 (\<lambda>_. True) alk_generous = Some (Some (small_queue, 2), wq_alk small_queue)"
  by (simp add: workqueue_alloc_def small_queue_def workqueue_bytes_def mmalloc_def alk_generous_def numeral_2_eq_2)

text \<open>One job is added, taken out by the second worker and run.\<close>

definition small_schedule :: "nat turn list" where
  "small_schedule = replicate 4 (Owner_Turn (Call_Add 7)) @ replicate 5 (Worker_Turn 1)"

lemma workqueue_safe_witness:
  "\<exists>s. wq_run small_schedule (wq_start small_queue 2) = Some s \<and> sy_done s = [7] \<and> sy_added s = sy_fetched s
     \<and> alk_live (wq_alk (sy_queue s)) = 2"
proof -
  obtain s where s: "wq_run small_schedule (wq_start small_queue 2) = Some s" "sy_done s = [7]" "sy_added s = [7]"
    "sy_fetched s = [7]" "sy_client s = Idle" "wq_units (sy_queue s) = []" "wq_pool (sy_queue s) = 1"
    by (simp add: small_schedule_def wq_start_def small_queue_def client_step_def worker_step_def goes_def
        additem_locked_def workunit_pool_alloc_def workqueue_fetch_def workunit_pool_free_def mmalloc_def alk_generous_def
        WORKUNIT_POOL_SIZE_def list_eval)
  have "alk_live alk_generous = 0" by (simp add: alk_generous_def)
  then show ?thesis using workqueue_safe [OF small_queue_alloc wq_run_reach [OF s(1)]] s by simp
qed

text \<open>C28. Once a release has begun every run ends, after at most six steps for each worker and one more; it can
  only end when the queue has been released, and then all its memory has been given back.\<close>

theorem workqueue_release_ends:
  assumes "workqueue_alloc nproc create a = Some (Some (q, n), a')" "wq_reach (wq_start q n) s" "closing (sy_client s)"
    and "(wq_step ^^ k) s t"
  shows "k \<le> 6 * n + 1 \<and> ((\<nexists>u. wq_step t u) \<longrightarrow> sy_client t = Released \<and> alk_live (wq_alk (sy_queue t)) = alk_live a)"
proof -
  have inv: "wq_inv (alk_live a) s"
    using wq_inv_reach [OF assms(2)] wq_inv_start workqueue_alloc_fresh [OF assms(1)] by blast
  have "length (sy_workers s) = n" using reach_workers [OF assms(2)] by (simp add: wq_start_def)
  then have "wq_rank s \<le> 6 * n + 1" using wq_rank_le [of s] inv by (simp add: wq_inv_def)
  moreover have r: "closing (sy_client t)" "wq_inv (alk_live a) t" "wq_rank t + k \<le> wq_rank s"
    using closing_run [OF assms(4,3) inv] by simp_all
  moreover have "sy_client t = Released" if "\<nexists>u. wq_step t u"
    using never_stuck [of t] that r(2) by (auto simp: wq_inv_def)
  ultimately show ?thesis by (auto simp: wq_inv_def memory_inv_def)
qed

lemma workqueue_release_ends_witness:
  "\<exists>s. wq_run [Owner_Turn Call_Release] (wq_start small_queue 2) = Some s \<and> (\<forall>k t. (wq_step ^^ k) s t \<longrightarrow> k \<le> 13)"
proof -
  obtain s where s: "wq_run [Owner_Turn Call_Release] (wq_start small_queue 2) = Some s" "closing (sy_client s)"
    by (simp add: wq_start_def small_queue_def client_step_def)
  then show ?thesis using workqueue_release_ends [OF small_queue_alloc wq_run_reach [OF s(1)] s(2)] by auto
qed

text \<open>The count of free units is never changed: the pool takes every unit, and gives none back before the release.\<close>

lemma pool_keeps_all: "wq_free q = 0 \<Longrightarrow> wq_pool (workunit_pool_free q) = wq_pool q + 1 \<and> wq_free (workunit_pool_free q) = 0"
  by (simp add: workunit_pool_free_def WORKUNIT_POOL_SIZE_def)

text \<open>When a thread cannot be created, that thread is joined.\<close>

lemma workqueue_alloc_joins_uncreated:
  assumes "never_refuses a" "m < 2 * nproc" "\<not> create m" "\<forall>k. m < k \<longrightarrow> k < 2 * nproc \<longrightarrow> create k"
  shows "workqueue_alloc nproc create a = None"
proof -
  have "threads_start create k core = None" if "m < k" "k \<le> 2 * nproc" "length core = 2 * nproc" "\<not> core ! m" for k core
    using that
  proof (induction k arbitrary: core)
    case (Suc k)
    show ?case
    proof (cases "k = m")
      case True
      then have "\<not> list_all (\<lambda>started. started) (drop m core)" using Suc.prems assms(2)
        by (auto simp: list_all_iff in_set_conv_nth intro!: bexI [of _ "core ! m"] exI [of _ 0])
      then show ?thesis using True assms(3) by simp
    next
      case False
      then have "m < k" "create k" using Suc.prems assms(4) by auto
      moreover have "threads_start create k (core[k := True]) = None" using Suc.prems \<open>m < k\<close> by (intro Suc.IH) auto
      ultimately show ?thesis by simp
    qed
  qed simp
  then show ?thesis using assms(1,2) mmalloc_never_refuses(1) [OF assms(1)]
    by (auto simp: workqueue_alloc_def Let_def split: prod.split)
qed

end
