(* ===== verification/Stream_IO.thy ===== *)
theory Stream_IO
  imports Carthage_Prelude
begin

section \<open>stream.c\<close>

text \<open>
  src/stream: reading and writing integers, most significant byte first, through a table of functions
  (\<open>stream_plug_t\<close>), and the table for files. A plug is a record of functions on a state, which stands for
  \<open>stream_t\<close> and what is behind it; None is a fault. A read returns the bytes it got, their number
  being the value returned.
\<close>

subsection \<open>Streams over a plug\<close>

record 's plug =
  pl_read :: "'s \<Rightarrow> nat \<Rightarrow> (u8 list \<times> 's) option"
  pl_write :: "'s \<Rightarrow> u8 list \<Rightarrow> (int \<times> 's) option"
  pl_seek :: "'s \<Rightarrow> nat \<Rightarrow> (int \<times> 's) option"
  pl_flush :: "'s \<Rightarrow> (int \<times> 's) option"
  pl_close :: "'s \<Rightarrow> (int \<times> 's) option"

definition stream_seek :: "'s plug \<Rightarrow> 's \<Rightarrow> nat \<Rightarrow> (int \<times> 's) option" where
  "stream_seek P s offset = pl_seek P s offset"

definition stream_close :: "'s plug \<Rightarrow> 's \<Rightarrow> (int \<times> 's) option" where
  "stream_close P s = pl_close P s"

definition stream_write :: "'s plug \<Rightarrow> 's \<Rightarrow> u8 list \<Rightarrow> (int \<times> 's) option" where
  "stream_write P s buf = pl_write P s buf"

definition stream_read :: "'s plug \<Rightarrow> 's \<Rightarrow> nat \<Rightarrow> (u8 list \<times> 's) option" where
  "stream_read P s n = pl_read P s n"

text \<open>A fixed number of bytes: None as the value is the return value -1, the caller's variable unchanged.\<close>

definition read_exactly :: "'s plug \<Rightarrow> 's \<Rightarrow> nat \<Rightarrow> (u8 list option \<times> 's) option" where
  "read_exactly P s n =
     do { (bs, s) \<leftarrow> pl_read P s n; Some (if length bs \<noteq> n then None else Some bs, s) }"

text \<open>A byte shifted to its place; the sums are in the type of the variable read.\<close>

definition at_place :: "u8 list \<Rightarrow> nat \<Rightarrow> nat \<Rightarrow> 'a::len word" where
  "at_place buffer i k = push_bit k (ucast (buffer ! i))"

definition stream_write_int8 :: "'s plug \<Rightarrow> 's \<Rightarrow> u8 \<Rightarrow> (int \<times> 's) option" where
  "stream_write_int8 P s v = pl_write P s [v]"

definition stream_read_int8 :: "'s plug \<Rightarrow> 's \<Rightarrow> (u8 option \<times> 's) option" where
  "stream_read_int8 P s = do { (r, s) \<leftarrow> read_exactly P s 1; Some (map_option (\<lambda>b. b ! 0) r, s) }"

definition stream_write_uint8 :: "'s plug \<Rightarrow> 's \<Rightarrow> u8 \<Rightarrow> (int \<times> 's) option" where
  "stream_write_uint8 P s v = pl_write P s [v]"

definition stream_read_uint8 :: "'s plug \<Rightarrow> 's \<Rightarrow> (u8 option \<times> 's) option" where
  "stream_read_uint8 P s = do { (r, s) \<leftarrow> read_exactly P s 1; Some (map_option (\<lambda>b. b ! 0) r, s) }"

text \<open>The shifts of the signed types are arithmetic.\<close>

definition stream_write_int16 :: "'s plug \<Rightarrow> 's \<Rightarrow> u16 \<Rightarrow> (int \<times> 's) option" where
  "stream_write_int16 P s v = pl_write P s [ucast (signed_drop_bit 8 v), ucast (signed_drop_bit 0 v)]"

definition read_16 :: "u8 list \<Rightarrow> u16" where
  "read_16 b = at_place b 0 8 + at_place b 1 0"

definition stream_read_int16 :: "'s plug \<Rightarrow> 's \<Rightarrow> (u16 option \<times> 's) option" where
  "stream_read_int16 P s = do { (r, s) \<leftarrow> read_exactly P s 2; Some (map_option read_16 r, s) }"

definition stream_write_uint16 :: "'s plug \<Rightarrow> 's \<Rightarrow> u16 \<Rightarrow> (int \<times> 's) option" where
  "stream_write_uint16 P s v = pl_write P s [ucast (drop_bit 8 v), ucast (drop_bit 0 v)]"

definition stream_read_uint16 :: "'s plug \<Rightarrow> 's \<Rightarrow> (u16 option \<times> 's) option" where
  "stream_read_uint16 P s = do { (r, s) \<leftarrow> read_exactly P s 2; Some (map_option read_16 r, s) }"

definition stream_write_int32 :: "'s plug \<Rightarrow> 's \<Rightarrow> u32 \<Rightarrow> (int \<times> 's) option" where
  "stream_write_int32 P s v =
     pl_write P s [ucast (signed_drop_bit 24 v), ucast (signed_drop_bit 16 v), ucast (signed_drop_bit 8 v), ucast (signed_drop_bit 0 v)]"

definition read_32 :: "u8 list \<Rightarrow> u32" where
  "read_32 b = at_place b 0 24 + at_place b 1 16 + at_place b 2 8 + at_place b 3 0"

definition stream_read_int32 :: "'s plug \<Rightarrow> 's \<Rightarrow> (u32 option \<times> 's) option" where
  "stream_read_int32 P s = do { (r, s) \<leftarrow> read_exactly P s 4; Some (map_option read_32 r, s) }"

definition stream_write_uint32 :: "'s plug \<Rightarrow> 's \<Rightarrow> u32 \<Rightarrow> (int \<times> 's) option" where
  "stream_write_uint32 P s v =
     pl_write P s [ucast (drop_bit 24 v), ucast (drop_bit 16 v), ucast (drop_bit 8 v), ucast (drop_bit 0 v)]"

definition stream_read_uint32 :: "'s plug \<Rightarrow> 's \<Rightarrow> (u32 option \<times> 's) option" where
  "stream_read_uint32 P s = do { (r, s) \<leftarrow> read_exactly P s 4; Some (map_option read_32 r, s) }"

definition stream_write_int64 :: "'s plug \<Rightarrow> 's \<Rightarrow> u64 \<Rightarrow> (int \<times> 's) option" where
  "stream_write_int64 P s v =
     pl_write P s [ucast (signed_drop_bit 56 v), ucast (signed_drop_bit 48 v), ucast (signed_drop_bit 40 v), ucast (signed_drop_bit 32 v),
       ucast (signed_drop_bit 24 v), ucast (signed_drop_bit 16 v), ucast (signed_drop_bit 8 v), ucast (signed_drop_bit 0 v)]"

definition read_64 :: "u8 list \<Rightarrow> u64" where
  "read_64 b =
     at_place b 0 56 + at_place b 1 48 + at_place b 2 40 + at_place b 3 32
     + at_place b 4 24 + at_place b 5 16 + at_place b 6 8 + at_place b 7 0"

definition stream_read_int64 :: "'s plug \<Rightarrow> 's \<Rightarrow> (u64 option \<times> 's) option" where
  "stream_read_int64 P s = do { (r, s) \<leftarrow> read_exactly P s 8; Some (map_option read_64 r, s) }"

definition stream_write_uint64 :: "'s plug \<Rightarrow> 's \<Rightarrow> u64 \<Rightarrow> (int \<times> 's) option" where
  "stream_write_uint64 P s v =
     pl_write P s [ucast (drop_bit 56 v), ucast (drop_bit 48 v), ucast (drop_bit 40 v), ucast (drop_bit 32 v),
       ucast (drop_bit 24 v), ucast (drop_bit 16 v), ucast (drop_bit 8 v), ucast (drop_bit 0 v)]"

definition stream_read_uint64 :: "'s plug \<Rightarrow> 's \<Rightarrow> (u64 option \<times> 's) option" where
  "stream_read_uint64 P s = do { (r, s) \<leftarrow> read_exactly P s 8; Some (map_option read_64 r, s) }"

subsection \<open>Files\<close>

text \<open>
  An open file of the system: its bytes, the offset, and how many bytes of those a call asks for it
  transfers (\<open>fd_moves\<close>, by the number of the call): POSIX lets \<open>read\<close> and \<open>write\<close> transfer fewer
  than asked for, or fail. \<open>fd_seeks\<close> and \<open>fd_syncs\<close>: whether \<open>lseek\<close> and \<open>fsync\<close> succeed.
\<close>

record os_file =
  fd_data :: "u8 list"
  fd_off :: nat
  fd_calls :: nat
  fd_moves :: "nat \<Rightarrow> nat \<Rightarrow> nat"
  fd_seeks :: bool
  fd_syncs :: bool

definition moved :: "os_file \<Rightarrow> nat \<Rightarrow> nat" where
  "moved f n = min n (fd_moves f (fd_calls f) n)"

definition sys_read :: "os_file \<Rightarrow> nat \<Rightarrow> u8 list \<times> os_file" where
  "sys_read f n =
     (let bs = take (moved f n) (drop (fd_off f) (fd_data f))
      in (bs, f\<lparr>fd_off := fd_off f + length bs, fd_calls := Suc (fd_calls f)\<rparr>))"

text \<open>Bytes stored at an offset; a gap in front of it is filled with zeros.\<close>

definition overwrite :: "u8 list \<Rightarrow> nat \<Rightarrow> u8 list \<Rightarrow> u8 list" where
  "overwrite m x bs = (if bs = [] then m else take x (m @ replicate (x - length m) 0) @ bs @ drop (x + length bs) m)"

definition sys_write :: "os_file \<Rightarrow> u8 list \<Rightarrow> os_file" where
  "sys_write f bs =
     f\<lparr>fd_data := overwrite (fd_data f) (fd_off f) bs, fd_off := fd_off f + length bs, fd_calls := Suc (fd_calls f)\<rparr>"

text \<open>\<open>n\<close> bytes are asked for in every round; those that do not fit the caller's buffer of \<open>n\<close> bytes are
  a fault. Every round but the last gets a byte, so that there are at most \<open>n\<close> more.\<close>

function file_read_loop :: "os_file \<Rightarrow> nat \<Rightarrow> u8 list \<Rightarrow> (u8 list \<times> os_file) option" where
  "file_read_loop f n acc =
     (if length acc < n
      then
        let (bs, f) = sys_read f n
        in if bs = [] then Some (acc, f)
           else if n < length acc + length bs then None
           else file_read_loop f n (acc @ bs)
      else Some (acc, f))"
  by pat_completeness auto
termination by (relation "measure (\<lambda>(f, n, acc). n - length acc)") (auto simp: length_greater_0_conv [symmetric] simp del: length_greater_0_conv)

definition stream_file_read :: "os_file \<Rightarrow> nat \<Rightarrow> (u8 list \<times> os_file) option" where
  "stream_file_read f n = file_read_loop f n []"

function file_write_loop :: "os_file \<Rightarrow> u8 list \<Rightarrow> nat \<Rightarrow> (int \<times> os_file) option" where
  "file_write_loop f buf wrsize =
     (if wrsize < length buf
      then
        let wr = moved f (length buf)
        in if wr = 0 then Some (int wrsize, f\<lparr>fd_calls := Suc (fd_calls f)\<rparr>)
           else do {
             bs \<leftarrow> buf_read buf wrsize wr;
             file_write_loop (sys_write f bs) buf (wrsize + wr)
           }
      else Some (int wrsize, f))"
  by pat_completeness auto
termination by (relation "measure (\<lambda>(f, buf, wrsize). length buf - wrsize)") auto

declare file_read_loop.simps [simp del] file_write_loop.simps [simp del]

definition stream_file_write :: "os_file \<Rightarrow> u8 list \<Rightarrow> (int \<times> os_file) option" where
  "stream_file_write f buf = file_write_loop f buf 0"

definition stream_file_seek :: "os_file \<Rightarrow> nat \<Rightarrow> (int \<times> os_file) option" where
  "stream_file_seek f offset = Some (if fd_seeks f then (0, f\<lparr>fd_off := offset\<rparr>) else (- 1, f))"

definition stream_file_flush :: "os_file \<Rightarrow> (int \<times> os_file) option" where
  "stream_file_flush f = Some (if fd_syncs f then 0 else - 1, f)"

definition stream_file_close :: "os_file \<Rightarrow> (int \<times> os_file) option" where
  "stream_file_close f = Some (0, f)"

definition stream_file_plug :: "os_file plug" where
  "stream_file_plug =
     \<lparr>pl_read = stream_file_read, pl_write = stream_file_write, pl_seek = stream_file_seek,
      pl_flush = stream_file_flush, pl_close = stream_file_close\<rparr>"

text \<open>The value and the stream; \<open>opened\<close> is the file the system opened, if it did.\<close>

definition stream_with_fd :: "os_file \<Rightarrow> int \<times> os_file plug \<times> os_file" where
  "stream_with_fd f = (0, stream_file_plug, f)"

definition stream_file_open :: "os_file option \<Rightarrow> int \<times> os_file plug \<times> os_file option" where
  "stream_file_open opened = (if opened = None then - 1 else 0, stream_file_plug, opened)"

definition stream_file_create :: "os_file option \<Rightarrow> int \<times> os_file plug \<times> os_file option" where
  "stream_file_create created = (if created = None then - 1 else 0, stream_file_plug, created)"

subsection \<open>Encoding\<close>

lemma signed_byte:
  assumes "k + 8 \<le> LENGTH('a)"
  shows "(ucast (signed_drop_bit k (v :: 'a::len word)) :: u8) = ucast (drop_bit k v)"
  using assms by (intro bit_word_eqI) (auto simp: bit_simps bit_ucast_iff bit_signed_drop_bit_iff)

lemma byte_step:
  fixes v :: "'a::len word"
  assumes "8 \<le> LENGTH('a)"
  shows "drop_bit k v = push_bit 8 (drop_bit (k + 8) v) + ucast (ucast (drop_bit k v) :: u8)"
proof -
  have "drop_bit k v = push_bit 8 (drop_bit 8 (drop_bit k v)) + take_bit 8 (drop_bit k v)"
    by (metis bits_ident add.commute)
  moreover have "take_bit 8 (drop_bit k v) = (ucast (ucast (drop_bit k v) :: u8) :: 'a word)"
    using assms by (intro bit_word_eqI) (auto simp: bit_simps bit_ucast_iff)
  ultimately show ?thesis by (simp add: add.commute)
qed

lemma place_step:
  fixes v :: "'a::len word"
  assumes "8 \<le> LENGTH('a)"
  shows "push_bit k (drop_bit k v) = push_bit (k + 8) (drop_bit (k + 8) v) + push_bit k (ucast (ucast (drop_bit k v) :: u8))"
  by (subst byte_step [OF assms, of k v]) (simp only: push_bit_add push_bit_push_bit)

lemma read_16_bytes: "read_16 [ucast (drop_bit 8 v), ucast (drop_bit 0 v)] = v"
proof -
  have "drop_bit 16 v = 0" by (intro bit_word_eqI) (simp add: bit_simps)
  then show ?thesis using place_step [of 0 v] place_step [of 8 v]
    by (simp add: read_16_def at_place_def)
qed

lemma read_32_bytes: "read_32 [ucast (drop_bit 24 v), ucast (drop_bit 16 v), ucast (drop_bit 8 v), ucast (drop_bit 0 v)] = v"
proof -
  have "drop_bit 32 v = 0" by (intro bit_word_eqI) (simp add: bit_simps)
  then show ?thesis using place_step [of 0 v] place_step [of 8 v] place_step [of 16 v] place_step [of 24 v]
    by (simp add: read_32_def at_place_def)
qed

lemma read_64_bytes:
  "read_64 [ucast (drop_bit 56 v), ucast (drop_bit 48 v), ucast (drop_bit 40 v), ucast (drop_bit 32 v),
     ucast (drop_bit 24 v), ucast (drop_bit 16 v), ucast (drop_bit 8 v), ucast (drop_bit 0 v)] = v"
proof -
  have "drop_bit 64 v = 0" by (intro bit_word_eqI) (simp add: bit_simps)
  then show ?thesis using place_step [of 0 v] place_step [of 8 v] place_step [of 16 v] place_step [of 24 v]
      place_step [of 32 v] place_step [of 40 v] place_step [of 48 v] place_step [of 56 v]
    by (simp add: read_64_def at_place_def)
qed

lemma signed_bytes:
  fixes v16 :: u16 and v32 :: u32 and v64 :: u64
  shows "k \<le> 8 \<Longrightarrow> (ucast (signed_drop_bit k v16) :: u8) = ucast (drop_bit k v16)"
    "k \<le> 24 \<Longrightarrow> (ucast (signed_drop_bit k v32) :: u8) = ucast (drop_bit k v32)"
    "k \<le> 56 \<Longrightarrow> (ucast (signed_drop_bit k v64) :: u8) = ucast (drop_bit k v64)"
  by (simp_all add: signed_byte)

lemma overwrite_append: "overwrite (overwrite m x as) (x + length as) bs = overwrite m x (as @ bs)"
proof (cases "as = []")
  case False
  let ?m = "take x (m @ replicate (x - length m) 0) @ as @ drop (x + length as) m"
  have l: "length (take x (m @ replicate (x - length m) 0)) = x" by simp
  have "take (x + length as) (?m @ ys) = take x (m @ replicate (x - length m) 0) @ as" for ys using l by simp
  moreover have "drop (x + length as + length bs) ?m = drop (x + length as + length bs) m" using l by (simp add: add.commute)
  ultimately show ?thesis using False by (simp add: overwrite_def add.assoc)
qed (simp add: overwrite_def)

lemma overwrite_read: "take (length bs) (drop x (overwrite m x bs)) = bs"
  by (simp add: overwrite_def)

subsection \<open>Items\<close>

text \<open>A value with its type, and the functions for it.\<close>

datatype item = I8 u8 | U8 u8 | I16 u16 | U16 u16 | I32 u32 | U32 u32 | I64 u64 | U64 u64

fun write_item :: "'s plug \<Rightarrow> 's \<Rightarrow> item \<Rightarrow> (int \<times> 's) option" where
  "write_item P s (I8 v) = stream_write_int8 P s v"
| "write_item P s (U8 v) = stream_write_uint8 P s v"
| "write_item P s (I16 v) = stream_write_int16 P s v"
| "write_item P s (U16 v) = stream_write_uint16 P s v"
| "write_item P s (I32 v) = stream_write_int32 P s v"
| "write_item P s (U32 v) = stream_write_uint32 P s v"
| "write_item P s (I64 v) = stream_write_int64 P s v"
| "write_item P s (U64 v) = stream_write_uint64 P s v"

text \<open>Reading an item of the type of the one given.\<close>

fun read_item :: "'s plug \<Rightarrow> 's \<Rightarrow> item \<Rightarrow> (item option \<times> 's) option" where
  "read_item P s (I8 v) = map_option (map_prod (map_option I8) id) (stream_read_int8 P s)"
| "read_item P s (U8 v) = map_option (map_prod (map_option U8) id) (stream_read_uint8 P s)"
| "read_item P s (I16 v) = map_option (map_prod (map_option I16) id) (stream_read_int16 P s)"
| "read_item P s (U16 v) = map_option (map_prod (map_option U16) id) (stream_read_uint16 P s)"
| "read_item P s (I32 v) = map_option (map_prod (map_option I32) id) (stream_read_int32 P s)"
| "read_item P s (U32 v) = map_option (map_prod (map_option U32) id) (stream_read_uint32 P s)"
| "read_item P s (I64 v) = map_option (map_prod (map_option I64) id) (stream_read_int64 P s)"
| "read_item P s (U64 v) = map_option (map_prod (map_option U64) id) (stream_read_uint64 P s)"

fun write_items :: "'s plug \<Rightarrow> 's \<Rightarrow> item list \<Rightarrow> 's option" where
  "write_items P s [] = Some s"
| "write_items P s (x # xs) = do { (r, s) \<leftarrow> write_item P s x; write_items P s xs }"

fun read_items :: "'s plug \<Rightarrow> 's \<Rightarrow> item list \<Rightarrow> (item option list \<times> 's) option" where
  "read_items P s [] = Some ([], s)"
| "read_items P s (x # xs) = do { (r, s) \<leftarrow> read_item P s x; (rs, s) \<leftarrow> read_items P s xs; Some (r # rs, s) }"

text \<open>The bytes of an item.\<close>

fun item_bytes :: "item \<Rightarrow> u8 list" where
  "item_bytes (I8 v) = [v]"
| "item_bytes (U8 v) = [v]"
| "item_bytes (I16 v) = [ucast (drop_bit 8 v), ucast (drop_bit 0 v)]"
| "item_bytes (U16 v) = [ucast (drop_bit 8 v), ucast (drop_bit 0 v)]"
| "item_bytes (I32 v) = [ucast (drop_bit 24 v), ucast (drop_bit 16 v), ucast (drop_bit 8 v), ucast (drop_bit 0 v)]"
| "item_bytes (U32 v) = [ucast (drop_bit 24 v), ucast (drop_bit 16 v), ucast (drop_bit 8 v), ucast (drop_bit 0 v)]"
| "item_bytes (I64 v) = [ucast (drop_bit 56 v), ucast (drop_bit 48 v), ucast (drop_bit 40 v), ucast (drop_bit 32 v),
     ucast (drop_bit 24 v), ucast (drop_bit 16 v), ucast (drop_bit 8 v), ucast (drop_bit 0 v)]"
| "item_bytes (U64 v) = [ucast (drop_bit 56 v), ucast (drop_bit 48 v), ucast (drop_bit 40 v), ucast (drop_bit 32 v),
     ucast (drop_bit 24 v), ucast (drop_bit 16 v), ucast (drop_bit 8 v), ucast (drop_bit 0 v)]"

lemma write_item_bytes: "write_item P s x = pl_write P s (item_bytes x)"
  by (cases x) (simp_all add: stream_write_int8_def stream_write_uint8_def stream_write_int16_def stream_write_uint16_def
      stream_write_int32_def stream_write_uint32_def stream_write_int64_def stream_write_uint64_def signed_bytes
      del: signed_drop_bit_0 drop_bit_0)

lemma list_lengths:
  "length [a, b] = 2" "length [a, b, c, d] = 4" "length [a, b, c, d, e, f, g, h] = 8"
  by simp_all

lemma read_item_bytes:
  assumes "pl_read P s (length (item_bytes x)) = Some (item_bytes x, s')"
  shows "read_item P s x = Some (Some x, s')"
proof (cases x)
  case (I8 v)
  then show ?thesis using assms by (simp add: stream_read_int8_def read_exactly_def)
next
  case (U8 v)
  then show ?thesis using assms by (simp add: stream_read_uint8_def read_exactly_def)
qed (use assms in \<open>simp_all add: stream_read_int16_def stream_read_uint16_def stream_read_int32_def
    stream_read_uint32_def stream_read_int64_def stream_read_uint64_def read_exactly_def
    read_16_bytes read_32_bytes read_64_bytes numeral_2_eq_2 [symmetric] list_lengths del: drop_bit_0\<close>)

subsection \<open>The contract of a plug\<close>

text \<open>\<open>data\<close> is what the stream holds and \<open>pos\<close> where it stands; in a state that is \<open>ok\<close> all bytes are
  transferred.\<close>

locale plug_contract =
  fixes P :: "'s plug" and ok :: "'s \<Rightarrow> bool" and data :: "'s \<Rightarrow> u8 list" and pos :: "'s \<Rightarrow> nat"
  assumes write_law: "ok s \<Longrightarrow> \<exists>s'. pl_write P s bs = Some (int (length bs), s') \<and> ok s'
      \<and> data s' = overwrite (data s) (pos s) bs \<and> pos s' = pos s + length bs"
    and read_law: "ok s \<Longrightarrow> \<exists>s'. pl_read P s n = Some (take n (drop (pos s) (data s)), s') \<and> ok s'
      \<and> data s' = data s \<and> pos s' = pos s + length (take n (drop (pos s) (data s)))"
    and seek_law: "ok s \<Longrightarrow> \<exists>s'. pl_seek P s x = Some (0, s') \<and> ok s' \<and> data s' = data s \<and> pos s' = x"
begin

lemma write_items_data:
  "ok s \<Longrightarrow> \<exists>s'. write_items P s xs = Some s' \<and> ok s' \<and> pos s' = pos s + length (concat (map item_bytes xs))
    \<and> data s' = overwrite (data s) (pos s) (concat (map item_bytes xs))"
proof (induction xs arbitrary: s)
  case (Cons x xs)
  obtain s1 where s1: "pl_write P s (item_bytes x) = Some (int (length (item_bytes x)), s1)" "ok s1"
    "data s1 = overwrite (data s) (pos s) (item_bytes x)" "pos s1 = pos s + length (item_bytes x)"
    using write_law [OF Cons.prems] by blast
  obtain s2 where s2: "write_items P s1 xs = Some s2" "ok s2" "pos s2 = pos s1 + length (concat (map item_bytes xs))"
    "data s2 = overwrite (data s1) (pos s1) (concat (map item_bytes xs))"
    using Cons.IH [OF s1(2)] by blast
  then show ?case using s1 by (simp add: write_item_bytes overwrite_append)
qed (simp add: overwrite_def)

lemma read_items_data:
  "ok s \<Longrightarrow> take (length (concat (map item_bytes xs))) (drop (pos s) (data s)) = concat (map item_bytes xs) \<Longrightarrow>
    \<exists>s'. read_items P s xs = Some (map Some xs, s') \<and> ok s' \<and> data s' = data s"
proof (induction xs arbitrary: s)
  case (Cons x xs)
  let ?n = "length (item_bytes x)"
  have t: "take ?n (drop (pos s) (data s)) = item_bytes x"
    "take (length (concat (map item_bytes xs))) (drop (pos s + ?n) (data s)) = concat (map item_bytes xs)"
  proof -
    let ?D = "drop (pos s) (data s)" and ?ys = "concat (map item_bytes xs)"
    have d: "take (?n + length ?ys) ?D = item_bytes x @ ?ys" using Cons.prems(2) by simp
    have "take ?n ?D = take ?n (take (?n + length ?ys) ?D)" by simp
    then show "take ?n ?D = item_bytes x" unfolding d by simp
    have "take (length ?ys) (drop ?n ?D) = drop ?n (take (?n + length ?ys) ?D)" by (simp add: drop_take)
    then show "take (length ?ys) (drop (pos s + ?n) (data s)) = ?ys" unfolding d by (simp add: add.commute)
  qed
  obtain s1 where s1: "pl_read P s ?n = Some (item_bytes x, s1)" "ok s1" "data s1 = data s" "pos s1 = pos s + ?n"
    using read_law [OF Cons.prems(1), of ?n] t(1) by auto
  obtain s2 where "read_items P s1 xs = Some (map Some xs, s2)" "ok s2" "data s2 = data s1"
    using Cons.IH [OF s1(2)] s1(3,4) t(2) by auto
  then show ?case using s1 read_item_bytes [OF s1(1)] by simp
qed simp

end

subsection \<open>Files that transfer all they are asked for\<close>

definition file_ok :: "os_file \<Rightarrow> bool" where
  "file_ok f \<longleftrightarrow> fd_seeks f \<and> (\<forall>i n. n \<le> fd_moves f i n)"

lemma moved_ok [simp]: "file_ok f \<Longrightarrow> moved f n = n"
  by (simp add: file_ok_def moved_def)

lemma file_read_ok:
  assumes "file_ok f"
  shows "\<exists>f'. stream_file_read f n = Some (take n (drop (fd_off f) (fd_data f)), f') \<and> file_ok f'
    \<and> fd_data f' = fd_data f \<and> fd_off f' = fd_off f + length (take n (drop (fd_off f) (fd_data f)))"
proof (cases "n = 0")
  case True
  then show ?thesis using assms by (simp add: stream_file_read_def file_read_loop.simps)
next
  case False
  let ?bs = "take n (drop (fd_off f) (fd_data f))"
  let ?f = "f\<lparr>fd_off := fd_off f + length ?bs, fd_calls := Suc (fd_calls f)\<rparr>"
  have ok: "file_ok ?f" using assms by (simp add: file_ok_def)
  have 1: "sys_read f n = (?bs, ?f)" using assms by (simp add: sys_read_def Let_def)
  show ?thesis
  proof (cases "?bs = []")
    case True
    then show ?thesis using False 1 ok by (subst (1) stream_file_read_def, subst file_read_loop.simps) simp
  next
    case ne: False
    let ?g = "?f\<lparr>fd_calls := Suc (fd_calls ?f)\<rparr>"
    have "file_read_loop ?f n ?bs = Some (?bs, if length ?bs < n then ?g else ?f)"
    proof (cases "length ?bs < n")
      case True
      then have "drop (fd_off f + length ?bs) (fd_data f) = []" by (auto simp: min_def split: if_splits)
      then have "sys_read ?f n = ([], ?g)" using ok by (simp add: sys_read_def Let_def)
      then show ?thesis using True by (subst file_read_loop.simps) simp
    next
      case False
      then show ?thesis by (subst file_read_loop.simps) simp
    qed
    then have "stream_file_read f n = Some (?bs, if length ?bs < n then ?g else ?f)"
      using \<open>n \<noteq> 0\<close> 1 ne unfolding stream_file_read_def by (subst file_read_loop.simps) simp
    then show ?thesis using ok by (auto simp: file_ok_def)
  qed
qed

lemma file_write_ok:
  assumes "file_ok f"
  shows "\<exists>f'. stream_file_write f bs = Some (int (length bs), f') \<and> file_ok f'
    \<and> fd_data f' = overwrite (fd_data f) (fd_off f) bs \<and> fd_off f' = fd_off f + length bs"
proof (cases "bs = []")
  case True
  then show ?thesis using assms by (simp add: stream_file_write_def file_write_loop.simps overwrite_def)
next
  case False
  have "file_write_loop (sys_write f bs) bs (length bs) = Some (int (length bs), sys_write f bs)"
    by (subst file_write_loop.simps) simp
  then have "stream_file_write f bs = Some (int (length bs), sys_write f bs)"
    using False assms unfolding stream_file_write_def by (subst file_write_loop.simps) (simp add: buf_read_Some)
  then show ?thesis using assms by (simp add: sys_write_def file_ok_def)
qed

interpretation file_plug: plug_contract stream_file_plug file_ok fd_data fd_off
proof
  fix s :: os_file and bs :: "u8 list" and n x :: nat
  assume "file_ok s"
  then show "\<exists>s'. pl_write stream_file_plug s bs = Some (int (length bs), s') \<and> file_ok s'
      \<and> fd_data s' = overwrite (fd_data s) (fd_off s) bs \<and> fd_off s' = fd_off s + length bs"
    and "\<exists>s'. pl_read stream_file_plug s n = Some (take n (drop (fd_off s) (fd_data s)), s') \<and> file_ok s'
      \<and> fd_data s' = fd_data s \<and> fd_off s' = fd_off s + length (take n (drop (fd_off s) (fd_data s)))"
    and "\<exists>s'. pl_seek stream_file_plug s x = Some (0, s') \<and> file_ok s' \<and> fd_data s' = fd_data s \<and> fd_off s' = x"
    using file_write_ok file_read_ok by (simp_all add: stream_file_plug_def stream_file_seek_def file_ok_def)
qed

text \<open>A first call that transfers a part of what was asked for, and a second one that transfers all: the caller's
  buffer is overrun.\<close>

lemma partial_read_overruns:
  assumes "fd_moves f (fd_calls f) n = k" "0 < k" "k < n" "n \<le> fd_moves f (Suc (fd_calls f)) n"
    and "fd_off f + k + n \<le> length (fd_data f)"
  shows "stream_file_read f n = None"
proof -
  let ?bs = "take k (drop (fd_off f) (fd_data f))"
  let ?f = "f\<lparr>fd_off := fd_off f + k, fd_calls := Suc (fd_calls f)\<rparr>"
  have "length ?bs = k" using assms by simp
  then have 1: "sys_read f n = (?bs, ?f)" using assms(1,3) by (simp add: sys_read_def moved_def Let_def)
  have 2: "sys_read ?f n = (take n (drop (fd_off f + k) (fd_data f)), ?f\<lparr>fd_off := fd_off f + k + n, fd_calls := Suc (Suc (fd_calls f))\<rparr>)"
    using assms(4,5) by (simp add: sys_read_def moved_def Let_def)
  have "take n (drop (fd_off f + k) (fd_data f)) \<noteq> []" using assms by simp
  then have "file_read_loop ?f n ?bs = None"
    using 2 assms(2,3,5) \<open>length ?bs = k\<close> by (subst file_read_loop.simps) simp
  then show ?thesis using 1 assms(2,3) \<open>length ?bs = k\<close> unfolding stream_file_read_def
    by (subst file_read_loop.simps) (auto simp: Let_def)
qed

end
