(* ===== verification/Stream_Properties.thy ===== *)
theory Stream_Properties
  imports Stream_IO
begin

section \<open>Properties of stream.c\<close>

text \<open>C29. Integers of any of the eight types, written one after the other to a file that transfers all it is
  asked for, are the values read when the stream is put back to where it stood and the same types are
  read in the same order; the file holds their bytes, the most significant one first, and nothing else has
  changed.\<close>

theorem stream_roundtrip:
  assumes "file_ok f"
  shows "\<exists>f1 f2 f3. write_items stream_file_plug f xs = Some f1
    \<and> fd_data f1 = overwrite (fd_data f) (fd_off f) (concat (map item_bytes xs))
    \<and> stream_seek stream_file_plug f1 (fd_off f) = Some (0, f2)
    \<and> read_items stream_file_plug f2 xs = Some (map Some xs, f3) \<and> fd_data f3 = fd_data f1"
proof -
  obtain f1 where f1: "write_items stream_file_plug f xs = Some f1" "file_ok f1"
    "fd_data f1 = overwrite (fd_data f) (fd_off f) (concat (map item_bytes xs))"
    using file_plug.write_items_data [OF assms] by blast
  obtain f2 where f2: "pl_seek stream_file_plug f1 (fd_off f) = Some (0, f2)" "file_ok f2" "fd_data f2 = fd_data f1" "fd_off f2 = fd_off f"
    using file_plug.seek_law [OF f1(2)] by blast
  have "take (length (concat (map item_bytes xs))) (drop (fd_off f2) (fd_data f2)) = concat (map item_bytes xs)"
    unfolding f2(3,4) f1(3) by (rule overwrite_read)
  then obtain f3 where "read_items stream_file_plug f2 xs = Some (map Some xs, f3)" "fd_data f3 = fd_data f2"
    using file_plug.read_items_data [OF f2(2)] by blast
  then show ?thesis using f1 f2 by (auto simp: stream_seek_def)
qed

definition empty_file :: os_file where
  "empty_file = \<lparr>fd_data = [], fd_off = 0, fd_calls = 0, fd_moves = (\<lambda>i n. n), fd_seeks = True, fd_syncs = True\<rparr>"

lemma stream_roundtrip_witness:
  "\<exists>f1 f2 f3. write_items stream_file_plug empty_file [I16 0xFFFE, U32 258] = Some f1
     \<and> stream_seek stream_file_plug f1 0 = Some (0, f2)
     \<and> read_items stream_file_plug f2 [I16 0xFFFE, U32 258] = Some ([Some (I16 0xFFFE), Some (U32 258)], f3)
     \<and> fd_data f1 = [0xFF, 0xFE, 0, 0, 1, 2]"
proof -
  have ok: "file_ok empty_file" by (simp add: file_ok_def empty_file_def)
  obtain f1 f2 f3 where f: "write_items stream_file_plug empty_file [I16 0xFFFE, U32 258] = Some f1"
    "fd_data f1 = overwrite (fd_data empty_file) (fd_off empty_file) (concat (map item_bytes [I16 0xFFFE, U32 258]))"
    "stream_seek stream_file_plug f1 (fd_off empty_file) = Some (0, f2)"
    "read_items stream_file_plug f2 [I16 0xFFFE, U32 258] = Some (map Some [I16 0xFFFE, U32 258], f3)"
    using stream_roundtrip [OF ok, of "[I16 0xFFFE, U32 258]"] by blast
  have "fd_data f1 = [0xFF, 0xFE, 0, 0, 1, 2]"
    unfolding f(2) by (simp add: empty_file_def overwrite_def ucast_eq drop_bit_eq_div)
  then show ?thesis using f by (intro exI [of _ f1] exI [of _ f2] exI [of _ f3]) (simp add: empty_file_def)
qed

text \<open>A file of which a call may transfer only a part: four bytes asked for, one and then four transferred.\<close>

lemma stream_read_overruns_witness:
  "stream_file_read (empty_file\<lparr>fd_data := [1, 2, 3, 4, 5], fd_moves := (\<lambda>i n. if i = 0 then 1 else n)\<rparr>) 4 = None"
  by (rule partial_read_overruns [of _ _ 1]) (simp_all add: empty_file_def)

end
