(* ===== verification/Cache.thy ===== *)
theory Cache
  imports Allocator Bucket_Size
begin

section \<open>cache.c\<close>

text \<open>
  src/cache: a cache of bounded size, a hash table whose nodes are also in a doubly linked list, the most
  recently inserted first. The nodes are in a store from addresses to nodes; 0 is NULL, and addresses are
  not used twice, so that an access to a released node faults. The table is a list of pointers whose
  contents, when it is allocated, are whatever the memory held. \<open>CACHE_OTHER\<close> stands for a value of
  the type that is neither constant. \<open>ch_free_func\<close> says whether there is a
  \<open>free_func\<close>, and \<open>ch_freed\<close> records the data it was given.
\<close>

subsection \<open>The operations\<close>

record ('k, 'v) cnode =
  cn_next :: nat
  cn_prev :: nat
  cn_hash :: nat
  cn_key :: 'k
  cn_data :: 'v
  cn_retain :: nat

datatype cache_type = CACHE_LRU | CACHE_MRU | CACHE_OTHER

record ('k, 'v) cache =
  ch_alk :: alk
  ch_keycmp :: "'k \<Rightarrow> 'k \<Rightarrow> bool"
  ch_hash_func :: "'k \<Rightarrow> u64"
  ch_free_func :: bool
  ch_freed :: "'v list"
  ch_nodes :: "nat \<Rightarrow> ('k, 'v) cnode option"
  ch_fresh :: nat
  ch_head :: nat
  ch_tail :: nat
  ch_retained :: nat
  ch_table :: "nat list"
  ch_used :: u64
  ch_size :: u64
  ch_mask :: u64
  ch_type :: cache_type

definition cache_nbucket_roundup :: "u64 \<Rightarrow> u64" where
  "cache_nbucket_roundup n = nbucket_roundup n"

definition cnode_bytes :: nat where "cnode_bytes = 48"

text \<open>A field of the node at an address, stored.\<close>

definition node_put :: "('k, 'v) cache \<Rightarrow> nat \<Rightarrow> (('k, 'v) cnode \<Rightarrow> ('k, 'v) cnode) \<Rightarrow> ('k, 'v) cache option" where
  "node_put c p f =
     do { n \<leftarrow> ch_nodes c p; Some (c\<lparr>ch_nodes := (ch_nodes c)(p \<mapsto> f n)\<rparr>) }"

text \<open>The links of a new node are not set: whatever the memory held, here NULL; \<open>cache_insert\<close> sets
  them before anything reads them.\<close>

definition cache_node_alloc :: "('k, 'v) cache \<Rightarrow> 'k \<Rightarrow> 'v \<Rightarrow> nat \<times> ('k, 'v) cache" where
  "cache_node_alloc c key data =
     (let (ok, a) = mmalloc cnode_bytes (ch_alk c);
          p = ch_fresh c
      in if ok
         then (p, c\<lparr>ch_alk := a, ch_fresh := p + 1,
                   ch_nodes := (ch_nodes c)(p \<mapsto> \<lparr>cn_next = 0, cn_prev = 0, cn_hash = 0, cn_key = key, cn_data = data, cn_retain = 0\<rparr>)\<rparr>)
         else (0, c\<lparr>ch_alk := a\<rparr>))"

text \<open>\<open>free\<close> of NULL does nothing; of a node that was released already it is a fault.\<close>

definition cache_node_free :: "('k, 'v) cache \<Rightarrow> nat \<Rightarrow> ('k, 'v) cache option" where
  "cache_node_free c p =
     do {
       c \<leftarrow> (if ch_free_func c then do { n \<leftarrow> ch_nodes c p; Some (c\<lparr>ch_freed := ch_freed c @ [cn_data n]\<rparr>) } else Some c);
       if p = 0 then Some c
       else do { n \<leftarrow> ch_nodes c p; Some (c\<lparr>ch_nodes := (ch_nodes c)(p := None), ch_alk := mmfree (ch_alk c)\<rparr>) }
     }"

text \<open>What a \<open>cnode_t **\<close> points to: an entry of the table, or the field \<open>hash\<close> of a node.\<close>

datatype slot = Bucket nat | Link nat

definition slot_get :: "('k, 'v) cache \<Rightarrow> slot \<Rightarrow> nat option" where
  "slot_get c s =
     (case s of Bucket i \<Rightarrow> buf_get (ch_table c) i | Link p \<Rightarrow> map_option cn_hash (ch_nodes c p))"

definition slot_put :: "('k, 'v) cache \<Rightarrow> slot \<Rightarrow> nat \<Rightarrow> ('k, 'v) cache option" where
  "slot_put c s q =
     (case s of
        Bucket i \<Rightarrow> map_option (\<lambda>t. c\<lparr>ch_table := t\<rparr>) (buf_set (ch_table c) i q)
      | Link p \<Rightarrow> node_put c p (cn_hash_update (\<lambda>_. q)))"

text \<open>The walk along a chain: no more steps than there are addresses, so that a chain that is not
  circular is walked to its end.\<close>

fun ht_walk :: "nat \<Rightarrow> ('k, 'v) cache \<Rightarrow> 'k \<Rightarrow> slot \<Rightarrow> slot option" where
  "ht_walk 0 c key s = None"
| "ht_walk (Suc fuel) c key s =
     do {
       p \<leftarrow> slot_get c s;
       if p = 0 then Some s
       else do {
         n \<leftarrow> ch_nodes c p;
         if ch_keycmp c (cn_key n) key then ht_walk fuel c key (Link p) else Some s
       }
     }"

definition cache_ht_lookup :: "('k, 'v) cache \<Rightarrow> 'k \<Rightarrow> slot option" where
  "cache_ht_lookup c key = ht_walk (Suc (ch_fresh c)) c key (Bucket (unat (ch_hash_func c key AND ch_mask c)))"

text \<open>The node inserted; 0: the key is there, or out of memory.\<close>

definition cache_ht_insert :: "('k, 'v) cache \<Rightarrow> 'k \<Rightarrow> 'v \<Rightarrow> (nat \<times> ('k, 'v) cache) option" where
  "cache_ht_insert c key data =
     do {
       s \<leftarrow> cache_ht_lookup c key;
       p \<leftarrow> slot_get c s;
       if p \<noteq> 0 then Some (0, c)
       else do {
         let (q, c) = cache_node_alloc c key data;
         c \<leftarrow> slot_put c s q;
         if q = 0 then Some (0, c) else Some (q, c\<lparr>ch_used := ch_used c + 1\<rparr>)
       }
     }"

text \<open>The removal of the node a variable points to. When the variable is a local one, the second result is what
  it holds afterwards; else it is stored by \<open>ht_remove_slot\<close>.\<close>

definition cache_ht_remove :: "('k, 'v) cache \<Rightarrow> nat \<Rightarrow> (nat \<times> ('k, 'v) cache) option" where
  "cache_ht_remove c p =
     do {
       n \<leftarrow> ch_nodes c p;
       c \<leftarrow> cache_node_free c p;
       Some (cn_hash n, c\<lparr>ch_used := ch_used c - 1\<rparr>)
     }"

definition ht_remove_slot :: "('k, 'v) cache \<Rightarrow> slot \<Rightarrow> ('k, 'v) cache option" where
  "ht_remove_slot c s =
     do {
       p \<leftarrow> slot_get c s;
       n \<leftarrow> ch_nodes c p;
       c \<leftarrow> slot_put c s (cn_hash n);
       (_, c) \<leftarrow> cache_ht_remove c p;
       Some c
     }"

definition cache_node_purge :: "('k, 'v) cache \<Rightarrow> (int \<times> ('k, 'v) cache) option" where
  "cache_node_purge c =
     (let finish = (\<lambda>node c. do {
            (node, c) \<leftarrow> cache_ht_remove c node;
            c \<leftarrow> cache_node_free c node;
            Some (0, c)
          })
      in case ch_type c of
        CACHE_MRU \<Rightarrow>
          do {
            n \<leftarrow> ch_nodes c (ch_head c);
            c' \<leftarrow> node_put (c\<lparr>ch_head := cn_next n\<rparr>) (cn_next n) (cn_prev_update (\<lambda>_. 0));
            finish (ch_head c) c'
          }
      | CACHE_LRU \<Rightarrow>
          do {
            n \<leftarrow> ch_nodes c (ch_tail c);
            c' \<leftarrow> node_put (c\<lparr>ch_tail := cn_prev n\<rparr>) (cn_prev n) (cn_next_update (\<lambda>_. 0));
            finish (ch_tail c) c'
          }
      | CACHE_OTHER \<Rightarrow> Some (- 1, c))"

text \<open>\<open>junk\<close> is what the memory of the table held.\<close>

definition cache_alloc ::
  "cache_type \<Rightarrow> u64 \<Rightarrow> ('k \<Rightarrow> 'k \<Rightarrow> bool) \<Rightarrow> ('k \<Rightarrow> u64) \<Rightarrow> alk \<Rightarrow> bool \<Rightarrow> (nat \<Rightarrow> nat) \<Rightarrow> ('k, 'v) cache option" where
  "cache_alloc ty sz cmp hash a free_func junk =
     (let nbucket = cache_nbucket_roundup sz;
          (ok, a) = mmalloc (unat (nbucket * 8)) a
      in if \<not> ok then None
         else Some \<lparr>ch_alk = a, ch_keycmp = cmp, ch_hash_func = hash, ch_free_func = free_func, ch_freed = [],
                    ch_nodes = Map.empty, ch_fresh = 1, ch_head = 0, ch_tail = 0, ch_retained = 0,
                    ch_table = map junk [0..<unat (nbucket * 8) div 8], ch_used = 0, ch_size = sz,
                    ch_mask = nbucket - 1, ch_type = ty\<rparr>)"

definition cache_insert :: "('k, 'v) cache \<Rightarrow> 'k \<Rightarrow> 'v \<Rightarrow> (int \<times> ('k, 'v) cache) option" where
  "cache_insert c key data =
     do {
       (r, c) \<leftarrow> (if ch_used c = ch_size c then cache_node_purge c else Some (0, c));
       if r \<noteq> 0 then Some (- 1, c)
       else do {
         (q, c) \<leftarrow> cache_ht_insert c key data;
         if q = 0 then Some (- 2, c)
         else do {
           c \<leftarrow> (if ch_head c \<noteq> 0 then node_put c (ch_head c) (cn_prev_update (\<lambda>_. q)) else Some c);
           c \<leftarrow> node_put c q (\<lambda>n. n\<lparr>cn_next := ch_head c, cn_prev := 0\<rparr>);
           Some (0, c\<lparr>ch_head := q, ch_tail := (if ch_tail c = 0 then q else ch_tail c)\<rparr>)
         }
       }
     }"

text \<open>The node taken out of the list it is in.\<close>

definition node_unlink :: "('k, 'v) cache \<Rightarrow> ('k, 'v) cnode \<Rightarrow> ('k, 'v) cache option" where
  "node_unlink c n =
     do {
       c \<leftarrow> (if cn_prev n \<noteq> 0 then node_put c (cn_prev n) (cn_next_update (\<lambda>_. cn_next n)) else Some c);
       if cn_next n \<noteq> 0 then node_put c (cn_next n) (cn_prev_update (\<lambda>_. cn_prev n)) else Some c
     }"

definition cache_remove :: "('k, 'v) cache \<Rightarrow> 'k \<Rightarrow> (int \<times> ('k, 'v) cache) option" where
  "cache_remove c key =
     do {
       s \<leftarrow> cache_ht_lookup c key;
       p \<leftarrow> slot_get c s;
       if p = 0 then Some (- 1, c)
       else do {
         n \<leftarrow> ch_nodes c p;
         if cn_retain n > 0 then Some (- 2, c)
         else do {
           c \<leftarrow> node_unlink c n;
           c \<leftarrow> ht_remove_slot c s;
           c \<leftarrow> cache_node_free c p;
           Some (0, c)
         }
       }
     }"

text \<open>The loop of \<open>cache_clear\<close>; a list that is not circular has fewer nodes than there are addresses.\<close>

fun clear_list :: "nat \<Rightarrow> ('k, 'v) cache \<Rightarrow> ('k, 'v) cache option" where
  "clear_list 0 c = None"
| "clear_list (Suc fuel) c =
     (if ch_head c = 0 then Some c
      else do {
        n \<leftarrow> ch_nodes c (ch_head c);
        (_, c') \<leftarrow> cache_ht_remove (c\<lparr>ch_head := cn_next n\<rparr>) (ch_head c);
        clear_list fuel c'
      })"

definition cache_clear :: "('k, 'v) cache \<Rightarrow> (int \<times> ('k, 'v) cache) option" where
  "cache_clear c =
     (if ch_retained c \<noteq> 0 then Some (- 1, c)
      else do { c \<leftarrow> clear_list (Suc (ch_fresh c)) c; Some (0, c\<lparr>ch_tail := 0\<rparr>) })"

definition cache_free :: "('k, 'v) cache \<Rightarrow> (int \<times> ('k, 'v) cache) option" where
  "cache_free c =
     do {
       (r, c) \<leftarrow> cache_clear c;
       if r \<noteq> 0 then Some (- 1, c) else Some (0, c\<lparr>ch_alk := mmfree (ch_alk c)\<rparr>)
     }"

definition cache_contains :: "('k, 'v) cache \<Rightarrow> 'k \<Rightarrow> bool option" where
  "cache_contains c key = do { s \<leftarrow> cache_ht_lookup c key; p \<leftarrow> slot_get c s; Some (p \<noteq> 0) }"

text \<open>The value is the data, None for NULL. The counter is a \<open>size_t\<close> and wraps.\<close>

definition cache_retain :: "('k, 'v) cache \<Rightarrow> 'k \<Rightarrow> ('v option \<times> ('k, 'v) cache) option" where
  "cache_retain c key =
     do {
       s \<leftarrow> cache_ht_lookup c key;
       p \<leftarrow> slot_get c s;
       if p = 0 then Some (None, c)
       else do {
         n \<leftarrow> ch_nodes c p;
         c \<leftarrow> node_put c p (\<lambda>n. n\<lparr>cn_retain := (cn_retain n + 1) mod 2 ^ 64\<rparr>);
         c \<leftarrow> (if cn_retain n = 0
               then do {
                 c \<leftarrow> node_unlink c n;
                 c \<leftarrow> node_put c p (\<lambda>n. n\<lparr>cn_prev := 0, cn_next := ch_retained c\<rparr>);
                 Some (c\<lparr>ch_retained := p\<rparr>)
               }
               else Some c);
         Some (Some (cn_data n), c)
       }
     }"

text \<open>The counter is unsigned: releasing a node that is not retained makes it huge.\<close>

definition cache_release :: "('k, 'v) cache \<Rightarrow> 'k \<Rightarrow> (int \<times> ('k, 'v) cache) option" where
  "cache_release c key =
     do {
       s \<leftarrow> cache_ht_lookup c key;
       p \<leftarrow> slot_get c s;
       if p = 0 then Some (- 1, c)
       else do {
         n \<leftarrow> ch_nodes c p;
         let retain = (if cn_retain n = 0 then 2 ^ 64 - 1 else cn_retain n - 1);
         c \<leftarrow> node_put c p (\<lambda>n. n\<lparr>cn_retain := retain\<rparr>);
         if retain = 0
         then do {
           n \<leftarrow> ch_nodes c p;
           c \<leftarrow> node_unlink c n;
           c \<leftarrow> node_put c p (\<lambda>n. n\<lparr>cn_next := ch_head c, cn_prev := 0\<rparr>);
           Some (0, c\<lparr>ch_head := p, ch_tail := (if ch_tail c = 0 then p else ch_tail c)\<rparr>)
         }
         else Some (0, c)
       }
     }"

end
