(* ===== verification/Cache_Correct.thy ===== *)
theory Cache_Correct
  imports Cache
begin

section \<open>The structure of a cache\<close>

text \<open>
  The store of cache.c as chains and a list, what the operations do to them, and what is left when nodes are
  released.
\<close>

subsection \<open>The structure\<close>

text \<open>The store by the fields of its nodes: the chains of the table, the list, the contents, the counters.\<close>

definition hash_link :: "('k, 'v) cache \<Rightarrow> nat \<Rightarrow> nat option" where
  "hash_link c p = map_option cn_hash (ch_nodes c p)"

definition list_link :: "('k, 'v) cache \<Rightarrow> nat \<Rightarrow> (nat \<times> nat) option" where
  "list_link c p = map_option (\<lambda>n. (cn_prev n, cn_next n)) (ch_nodes c p)"

definition entry :: "('k, 'v) cache \<Rightarrow> nat \<Rightarrow> ('k \<times> 'v) option" where
  "entry c p = map_option (\<lambda>n. (cn_key n, cn_data n)) (ch_nodes c p)"

definition retains :: "('k, 'v) cache \<Rightarrow> nat \<Rightarrow> nat option" where
  "retains c p = map_option cn_retain (ch_nodes c p)"

fun chain :: "(nat \<Rightarrow> nat option) \<Rightarrow> nat \<Rightarrow> nat list \<Rightarrow> bool" where
  "chain h p [] \<longleftrightarrow> p = 0"
| "chain h p (q # qs) \<longleftrightarrow> p = q \<and> q \<noteq> 0 \<and> (\<exists>r. h q = Some r \<and> chain h r qs)"

fun dlist :: "(nat \<Rightarrow> (nat \<times> nat) option) \<Rightarrow> nat \<Rightarrow> nat \<Rightarrow> nat list \<Rightarrow> bool" where
  "dlist h prev p [] \<longleftrightarrow> p = 0"
| "dlist h prev p (q # qs) \<longleftrightarrow> p = q \<and> q \<noteq> 0 \<and> (\<exists>r. h q = Some (prev, r) \<and> dlist h q r qs)"

definition cache_index :: "('k, 'v) cache \<Rightarrow> 'k \<Rightarrow> nat" where
  "cache_index c key = unat (ch_hash_func c key AND ch_mask c)"

text \<open>The table: the bucket of an index is a chain of the nodes whose keys have it.\<close>

definition table_shape :: "('k, 'v) cache \<Rightarrow> (nat \<Rightarrow> nat list) \<Rightarrow> bool" where
  "table_shape c bkt \<longleftrightarrow>
     (\<forall>k. cache_index c k < length (ch_table c))
     \<and> (\<forall>i < length (ch_table c). chain (hash_link c) (ch_table c ! i) (bkt i) \<and> distinct (bkt i)
          \<and> set (bkt i) = {p. \<exists>k v. entry c p = Some (k, v) \<and> cache_index c k = i})"

text \<open>A cache of which nothing has been purged, removed or retained: \<open>ps\<close> are the nodes in the order of the list,
  \<open>bkt\<close> those of every bucket, \<open>kvs\<close> the contents.\<close>

definition cache_shape :: "('k, 'v) cache \<Rightarrow> nat list \<Rightarrow> (nat \<Rightarrow> nat list) \<Rightarrow> ('k \<times> 'v) list \<Rightarrow> bool" where
  "cache_shape c ps bkt kvs \<longleftrightarrow>
     dlist (list_link c) 0 (ch_head c) ps \<and> ch_tail c = (if ps = [] then 0 else last ps) \<and> distinct ps
     \<and> map (entry c) ps = map Some kvs \<and> distinct (map fst kvs) \<and> dom (entry c) = set ps
     \<and> table_shape c bkt
     \<and> (\<forall>p \<in> set ps. 0 < p \<and> p < ch_fresh c \<and> retains c p = Some 0)
     \<and> ch_retained c = 0 \<and> 0 < ch_fresh c \<and> ch_used c = of_nat (length kvs) \<and> ch_keycmp c = (\<lambda>a b. a \<noteq> b)"

definition cache_wf :: "('k, 'v) cache \<Rightarrow> ('k \<times> 'v) list \<Rightarrow> bool" where
  "cache_wf c kvs \<longleftrightarrow> (\<exists>ps bkt. cache_shape c ps bkt kvs)"

lemma chain_cong: "(\<And>q. q \<in> set qs \<Longrightarrow> h' q = h q) \<Longrightarrow> chain h' p qs = chain h p qs"
  by (induction qs arbitrary: p) auto

lemma dlist_cong: "(\<And>q. q \<in> set qs \<Longrightarrow> h' q = h q) \<Longrightarrow> dlist h' prev p qs = dlist h prev p qs"
  by (induction qs arbitrary: prev p) auto

lemma chain_append_node:
  assumes "chain h p qs" "new \<notin> set qs" "new \<noteq> 0" "distinct qs" "qs \<noteq> []"
  shows "chain (h(new := Some 0, last qs := Some new)) p (qs @ [new])"
  using assms
proof (induction qs arbitrary: p)
  case (Cons q qs)
  show ?case
  proof (cases "qs = []")
    case True
    then show ?thesis using Cons.prems by auto
  next
    case False
    obtain r where r: "h q = Some r" "chain h r qs" using Cons.prems(1) by auto
    have "q \<noteq> last qs" "q \<noteq> new" using False Cons.prems(2,4) by auto
    then show ?thesis using Cons.IH [OF r(2)] r(1) Cons.prems False by auto
  qed
qed simp

text \<open>A node list_pushed on the list.\<close>

definition list_pushed :: "(nat \<Rightarrow> (nat \<times> nat) option) \<Rightarrow> nat \<Rightarrow> nat \<Rightarrow> nat \<Rightarrow> (nat \<times> nat) option" where
  "list_pushed h new p = (if p = 0 then h else h(p := Some (new, snd (the (h p)))))(new := Some (0, p))"

lemma dlist_push:
  assumes "dlist h 0 p qs" "new \<notin> set qs" "new \<noteq> 0" "distinct qs"
  shows "dlist (list_pushed h new p) 0 new (new # qs)"
proof (cases qs)
  case Nil
  then show ?thesis using assms by (simp add: list_pushed_def)
next
  case (Cons q qs')
  obtain r where r: "p = q" "q \<noteq> 0" "h q = Some (0, r)" "dlist h q r qs'" using assms(1) Cons by auto
  then have "dlist (list_pushed h new p) q r qs'"
    using assms(2,4) Cons by (subst dlist_cong [of _ _ h]) (auto simp: list_pushed_def)
  then show ?thesis using r Cons assms(2,3) by (simp add: list_pushed_def)
qed


subsection \<open>Looking up\<close>

lemma node_put_Some: "ch_nodes c p = Some n \<Longrightarrow> node_put c p f = Some (c\<lparr>ch_nodes := (ch_nodes c)(p \<mapsto> f n)\<rparr>)"
  by (simp add: node_put_def)

lemma hash_link_Some: "hash_link c p = Some r \<longleftrightarrow> (\<exists>n. ch_nodes c p = Some n \<and> r = cn_hash n)"
  by (auto simp: hash_link_def)

lemma walk_hit:
  assumes "slot_get c s = Some p" "chain (hash_link c) p qs" "length qs < fuel" "ch_keycmp c = (\<lambda>a b. a \<noteq> b)"
    and "q \<in> set qs" "entry c q = Some (key, v)" "\<forall>r \<in> set qs. \<forall>w. entry c r = Some (key, w) \<longrightarrow> r = q"
  shows "\<exists>s'. ht_walk fuel c key s = Some s' \<and> slot_get c s' = Some q"
  using assms
proof (induction qs arbitrary: fuel s p)
  case (Cons r qs)
  obtain f where f: "fuel = Suc f" using Cons.prems(3) by (cases fuel) auto
  obtain n where n: "ch_nodes c r = Some n" "p = r" "r \<noteq> 0" "chain (hash_link c) (cn_hash n) qs"
    using Cons.prems(2) by (auto simp: hash_link_Some)
  show ?case
  proof (cases "cn_key n = key")
    case True
    then have "r = q" using Cons.prems(7) n(1) by (auto simp: entry_def)
    then show ?thesis using True n Cons.prems(1,4) f by simp
  next
    case False
    then have "r \<noteq> q" using n(1) Cons.prems(6) by (auto simp: entry_def)
    have "\<exists>s'. ht_walk f c key (Link r) = Some s' \<and> slot_get c s' = Some q"
    proof (rule Cons.IH [OF _ n(4) _ Cons.prems(4) _ Cons.prems(6)])
      show "slot_get c (Link r) = Some (cn_hash n)" using n(1) by (simp add: slot_get_def)
      show "length qs < f" using Cons.prems(3) f by simp
      show "q \<in> set qs" using Cons.prems(5) \<open>r \<noteq> q\<close> by simp
      show "\<forall>r \<in> set qs. \<forall>w. entry c r = Some (key, w) \<longrightarrow> r = q" using Cons.prems(7) by simp
    qed
    then show ?thesis using False n Cons.prems(1,4) f by simp
  qed
qed simp

lemma walk_miss:
  assumes "slot_get c s = Some p" "chain (hash_link c) p qs" "length qs < fuel" "ch_keycmp c = (\<lambda>a b. a \<noteq> b)"
    and "\<forall>q \<in> set qs. \<forall>v. entry c q \<noteq> Some (key, v)"
  shows "ht_walk fuel c key s = Some (if qs = [] then s else Link (last qs))"
    and "slot_get c (if qs = [] then s else Link (last qs)) = Some 0"
proof -
  have "ht_walk fuel c key s = Some (if qs = [] then s else Link (last qs))
    \<and> slot_get c (if qs = [] then s else Link (last qs)) = Some 0"
    using assms
  proof (induction qs arbitrary: fuel s p)
    case Nil
    then show ?case by (cases fuel) auto
  next
    case (Cons r qs)
    obtain f where f: "fuel = Suc f" using Cons.prems(3) by (cases fuel) auto
    obtain n where n: "ch_nodes c r = Some n" "p = r" "r \<noteq> 0" "chain (hash_link c) (cn_hash n) qs"
      using Cons.prems(2) by (auto simp: hash_link_Some)
    have "cn_key n \<noteq> key" using n(1) Cons.prems(5) by (auto simp: entry_def)
    moreover have "ht_walk f c key (Link r) = Some (if qs = [] then Link r else Link (last qs))
        \<and> slot_get c (if qs = [] then Link r else Link (last qs)) = Some 0"
      using Cons.prems(3,4,5) n(1,4) f by (intro Cons.IH [of "Link r" "cn_hash n" f]) (auto simp: slot_get_def)
    ultimately show ?case using n Cons.prems(1,4) f by (simp split: if_splits)
  qed
  then show "ht_walk fuel c key s = Some (if qs = [] then s else Link (last qs))"
    "slot_get c (if qs = [] then s else Link (last qs)) = Some 0" by blast+
qed

text \<open>What the shape says of single nodes.\<close>

lemma shape_entry:
  assumes "cache_shape c ps bkt kvs"
  shows "(key, v) \<in> set kvs \<longleftrightarrow> (\<exists>p. entry c p = Some (key, v))"
proof -
  have sh: "map (entry c) ps = map Some kvs" "dom (entry c) = set ps" using assms by (simp_all add: cache_shape_def)
  have "entry c ` set ps = Some ` set kvs" using arg_cong [OF sh(1), of set] by simp
  then have "(key, v) \<in> set kvs \<longleftrightarrow> (\<exists>p \<in> set ps. entry c p = Some (key, v))" by force
  then show ?thesis using sh(2) by blast
qed

lemma shape_unique:
  assumes "cache_shape c ps bkt kvs" "entry c p = Some (key, v)" "entry c q = Some (key, w)"
  shows "p = q"
proof -
  have sh: "map (entry c) ps = map Some kvs" "dom (entry c) = set ps" "distinct (map fst kvs)"
    using assms(1) by (simp_all add: cache_shape_def)
  have len: "length ps = length kvs" using sh(1) by (metis length_map)
  have nth: "entry c (ps ! i) = Some (kvs ! i)" if "i < length ps" for i
    using sh(1) that len by (metis nth_map)
  have "p \<in> set ps" "q \<in> set ps" using assms(2,3) sh(2) by auto
  then obtain i j where ij: "i < length ps" "p = ps ! i" "j < length ps" "q = ps ! j" by (auto simp: in_set_conv_nth)
  then have "kvs ! i = (key, v)" "kvs ! j = (key, w)" using nth [OF ij(1)] nth [OF ij(3)] assms(2,3) by simp_all
  then have "map fst kvs ! i = map fst kvs ! j" using ij len by simp
  then have "i = j" using nth_eq_iff_index_eq [OF sh(3), of i j] ij len by simp
  then show ?thesis using ij by simp
qed

lemma shape_bucket:
  assumes "cache_shape c ps bkt kvs" "i = cache_index c key"
  shows "i < length (ch_table c)" "chain (hash_link c) (ch_table c ! i) (bkt i)" "distinct (bkt i)"
    "length (bkt i) < Suc (ch_fresh c)" "ch_keycmp c = (\<lambda>a b. a \<noteq> b)"
    "slot_get c (Bucket i) = Some (ch_table c ! i)"
    "set (bkt i) = {p. \<exists>k v. entry c p = Some (k, v) \<and> cache_index c k = i}"
proof -
  have t: "table_shape c bkt" "ch_keycmp c = (\<lambda>a b. a \<noteq> b)" "dom (entry c) = set ps" "\<forall>p \<in> set ps. p < ch_fresh c"
    using assms(1) by (simp_all add: cache_shape_def)
  show i: "i < length (ch_table c)" using t(1) assms(2) by (simp add: table_shape_def)
  note tb = t(1) [unfolded table_shape_def, THEN conjunct2, rule_format, OF i]
  show b: "chain (hash_link c) (ch_table c ! i) (bkt i)" "distinct (bkt i)"
    "set (bkt i) = {p. \<exists>k v. entry c p = Some (k, v) \<and> cache_index c k = i}"
    by (fact tb [THEN conjunct1], fact tb [THEN conjunct2, THEN conjunct1], fact tb [THEN conjunct2, THEN conjunct2])
  have "set (bkt i) \<subseteq> dom (entry c)" by (simp add: b(3) subset_iff domIff) blast
  then have "set (bkt i) \<subseteq> {..<ch_fresh c}" using t(3,4) by auto
  then have "card (set (bkt i)) \<le> ch_fresh c" using card_mono [of "{..<ch_fresh c}"] by simp
  then show "length (bkt i) < Suc (ch_fresh c)" using distinct_card [OF b(2)] by simp
  show "ch_keycmp c = (\<lambda>a b. a \<noteq> b)" by fact
  show "slot_get c (Bucket i) = Some (ch_table c ! i)" using i by (simp add: slot_get_def buf_get_def)
qed

lemma lookup_hit:
  assumes "cache_shape c ps bkt kvs" "(key, v) \<in> set kvs"
  shows "\<exists>s p. cache_ht_lookup c key = Some s \<and> slot_get c s = Some p \<and> entry c p = Some (key, v) \<and> 0 < p \<and> retains c p = Some 0"
proof -
  let ?i = "cache_index c key"
  note b = shape_bucket [OF assms(1) refl [of ?i]]
  obtain p where p: "entry c p = Some (key, v)" using shape_entry [OF assms(1)] assms(2) by blast
  have "\<exists>s'. ht_walk (Suc (ch_fresh c)) c key (Bucket ?i) = Some s' \<and> slot_get c s' = Some p"
    using b(7) p shape_unique [OF assms(1)] by (intro walk_hit [OF b(6) b(2) b(4) b(5) _ p]) auto
  moreover have "p \<in> set ps" using p assms(1) by (auto simp: cache_shape_def)
  ultimately show ?thesis using p assms(1) by (auto simp: cache_ht_lookup_def cache_index_def cache_shape_def)
qed

lemma lookup_miss:
  assumes "cache_shape c ps bkt kvs" "key \<notin> fst ` set kvs" "i = cache_index c key"
    and "s = (if bkt i = [] then Bucket i else Link (last (bkt i)))"
  shows "cache_ht_lookup c key = Some s" "slot_get c s = Some 0"
proof -
  note b = shape_bucket [OF assms(1,3)]
  have "\<forall>q \<in> set (bkt i). \<forall>v. entry c q \<noteq> Some (key, v)" using shape_entry [OF assms(1)] assms(2) by force
  from walk_miss [OF b(6) b(2) b(4) b(5) this] show "cache_ht_lookup c key = Some s" "slot_get c s = Some 0"
    using assms(3,4) by (simp_all add: cache_ht_lookup_def cache_index_def)
qed

subsection \<open>Inserting\<close>

lemma ht_insert_effect:
  assumes "cache_shape c ps bkt kvs" "key \<notin> fst ` set kvs" "never_refuses (ch_alk c)"
    and "i = cache_index c key" "p = ch_fresh c"
  obtains c' where "cache_ht_insert c key data = Some (p, c')"
    "hash_link c' = (if bkt i = [] then (hash_link c)(p := Some 0) else (hash_link c)(p := Some 0, last (bkt i) := Some p))"
    "list_link c' = (list_link c)(p := Some (0, 0))" "entry c' = (entry c)(p := Some (key, data))"
    "retains c' = (retains c)(p := Some 0)" "ch_table c' = (if bkt i = [] then (ch_table c)[i := p] else ch_table c)"
    "c' = c\<lparr>ch_alk := snd (mmalloc cnode_bytes (ch_alk c)), ch_fresh := p + 1, ch_nodes := ch_nodes c', ch_table := ch_table c',
           ch_used := ch_used c + 1\<rparr>"
proof -
  let ?n = "\<lparr>cn_next = 0, cn_prev = 0, cn_hash = 0, cn_key = key, cn_data = data, cn_retain = 0\<rparr>"
  let ?l = "last (bkt i)"
  note b = shape_bucket [OF assms(1,4)]
  note l = lookup_miss [OF assms(1,2,4) refl]
  have dom: "\<forall>q. q \<in> dom (entry c) \<longrightarrow> q < p" and p: "0 < p"
    using assms(1,5) by (auto simp: cache_shape_def)
  obtain ok a where ok: "mmalloc cnode_bytes (ch_alk c) = (ok, a)" by fastforce
  then have m: "mmalloc cnode_bytes (ch_alk c) = (True, a)" using mmalloc_never_refuses(1) [OF assms(3) ok] by simp
  show ?thesis
  proof (cases "bkt i = []")
    case True
    let ?c = "c\<lparr>ch_alk := a, ch_fresh := p + 1, ch_nodes := (ch_nodes c)(p \<mapsto> ?n), ch_table := (ch_table c)[i := p], ch_used := ch_used c + 1\<rparr>"
    have "cache_ht_insert c key data = Some (p, ?c)"
      using l True m b(1) p assms(5)
      by (simp add: cache_ht_insert_def cache_node_alloc_def slot_put_def buf_set_def Let_def)
    then show ?thesis
      using True m by (intro that [of ?c]) (auto simp: hash_link_def list_link_def entry_def retains_def fun_eq_iff)
  next
    case False
    then have "?l \<in> set (bkt i)" by simp
    then obtain n where n: "ch_nodes c ?l = Some n" "?l < p"
      using b(7) dom by (fastforce simp: entry_def)
    let ?N = "(ch_nodes c)(p \<mapsto> ?n, ?l \<mapsto> n\<lparr>cn_hash := p\<rparr>)"
    let ?c = "c\<lparr>ch_alk := a, ch_fresh := p + 1, ch_nodes := ?N, ch_used := ch_used c + 1\<rparr>"
    have "cache_ht_insert c key data = Some (p, ?c)"
      using l False m p assms(5) n
      by (simp add: cache_ht_insert_def cache_node_alloc_def slot_put_def node_put_def Let_def)
    then show ?thesis
      using False n m by (intro that [of ?c]) (auto simp: hash_link_def list_link_def entry_def retains_def fun_eq_iff)
  qed
qed

text \<open>The node put at the front of the list.\<close>

lemma push_effect:
  assumes "ch_nodes c p = Some m" "ch_head c = 0 \<or> ch_head c \<noteq> p \<and> ch_nodes c (ch_head c) \<noteq> None"
  obtains c' c'' where "(if ch_head c \<noteq> 0 then node_put c (ch_head c) (cn_prev_update (\<lambda>_. p)) else Some c) = Some c'"
    "node_put c' p (\<lambda>n. n\<lparr>cn_next := ch_head c', cn_prev := 0\<rparr>) = Some c''"
    "c'' = c\<lparr>ch_nodes := ch_nodes c''\<rparr>"
    "list_link c'' = list_pushed (list_link c) p (ch_head c)"
    "hash_link c'' = hash_link c" "entry c'' = entry c" "retains c'' = retains c"
proof (cases "ch_head c = 0")
  case True
  let ?c = "c\<lparr>ch_nodes := (ch_nodes c)(p \<mapsto> m\<lparr>cn_next := ch_head c, cn_prev := 0\<rparr>)\<rparr>"
  show ?thesis
    using True assms(1)
    by (intro that [of c ?c])
      (auto simp: node_put_def hash_link_def list_link_def entry_def retains_def list_pushed_def fun_eq_iff)
next
  case False
  then obtain h where h: "ch_nodes c (ch_head c) = Some h" "ch_head c \<noteq> p" using assms(2) by auto
  let ?c = "c\<lparr>ch_nodes := (ch_nodes c)(ch_head c \<mapsto> h\<lparr>cn_prev := p\<rparr>)\<rparr>"
  let ?d = "c\<lparr>ch_nodes := (ch_nodes c)(ch_head c \<mapsto> h\<lparr>cn_prev := p\<rparr>, p \<mapsto> m\<lparr>cn_next := ch_head c, cn_prev := 0\<rparr>)\<rparr>"
  show ?thesis
    using False assms(1) h
    by (intro that [of ?c ?d])
      (auto simp: node_put_def hash_link_def list_link_def entry_def retains_def list_pushed_def fun_eq_iff)
qed

lemma table_insert:
  assumes "table_shape c bkt" "i = cache_index c key" "p \<notin> dom (entry c)" "0 < p" "cache_index d = cache_index c"
    and "hash_link d = (if bkt i = [] then (hash_link c)(p := Some 0) else (hash_link c)(p := Some 0, last (bkt i) := Some p))"
    and "entry d = (entry c)(p := Some (key, data))" "ch_table d = (if bkt i = [] then (ch_table c)[i := p] else ch_table c)"
  shows "table_shape d (bkt(i := bkt i @ [p]))"
proof -
  let ?P = "\<lambda>c bkt j. chain (hash_link c) (ch_table c ! j) (bkt j) \<and> distinct (bkt j)
      \<and> set (bkt j) = {p. \<exists>k v. entry c p = Some (k, v) \<and> cache_index c k = j}"
  have len: "length (ch_table d) = length (ch_table c)" using assms(8) by simp
  have il: "i < length (ch_table c)" and idx: "cache_index c k < length (ch_table c)" for k
    using assms(1,2) by (simp_all add: table_shape_def)
  have P: "?P c bkt j" if "j < length (ch_table c)" for j using assms(1) that unfolding table_shape_def by blast
  have mem: "q \<in> set (bkt j) \<longleftrightarrow> (\<exists>k v. entry c q = Some (k, v) \<and> cache_index c k = j)" if "j < length (ch_table c)" for j q
    using P [OF that, THEN conjunct2, THEN conjunct2] by (simp add: set_eq_iff)
  have new: "entry c p = None" using assms(3) by blast
  then have pn: "p \<notin> set (bkt j)" if "j < length (ch_table c)" for j using mem [OF that] by simp
  have set_eq: "set ((bkt(i := bkt i @ [p])) j) = {q. \<exists>k v. entry d q = Some (k, v) \<and> cache_index d k = j}"
    if j: "j < length (ch_table c)" for j
    using mem [OF j] mem [OF il] new by (auto simp: set_eq_iff assms(2,5,7))
  have "?P d (bkt(i := bkt i @ [p])) j" if j: "j < length (ch_table c)" for j
  proof (cases "j = i")
    case False
    have "last (bkt i) \<notin> set (bkt j)" if "bkt i \<noteq> []"
    proof
      assume "last (bkt i) \<in> set (bkt j)"
      moreover have "last (bkt i) \<in> set (bkt i)" using that by simp
      ultimately obtain k v k' v' where "entry c (last (bkt i)) = Some (k, v)" "cache_index c k = j"
          "entry c (last (bkt i)) = Some (k', v')" "cache_index c k' = i"
        unfolding mem [OF j] mem [OF il] by blast
      then show False using False by simp
    qed
    then have "hash_link d q = hash_link c q" if "q \<in> set (bkt j)" for q
      using that pn [OF j] by (cases "bkt i = []") (auto simp: assms(6))
    then have "chain (hash_link d) (ch_table c ! j) (bkt j) = chain (hash_link c) (ch_table c ! j) (bkt j)"
      by (rule chain_cong)
    then show ?thesis using P [OF j] set_eq [OF j] False assms(8) by simp
  next
    case True
    have "chain (hash_link d) (ch_table d ! i) (bkt i @ [p])"
    proof (cases "bkt i = []")
      case True
      then show ?thesis using assms(4,6,8) il by simp
    next
      case False
      then show ?thesis using chain_append_node [of "hash_link c" "ch_table c ! i" "bkt i" p] P [OF il] pn [OF il] assms(4,6,8) by simp
    qed
    then show ?thesis using True P [OF il] pn [OF il] set_eq [OF il] by simp
  qed
  then show ?thesis using len idx assms(5) by (simp add: table_shape_def)
qed

lemma cache_insert_effect:
  assumes "cache_shape c ps bkt kvs" "key \<notin> fst ` set kvs" "never_refuses (ch_alk c)" "ch_used c \<noteq> ch_size c"
    and "i = cache_index c key" "p = ch_fresh c"
  obtains c' where "cache_insert c key data = Some (0, c')"
    "cache_shape c' (p # ps) (bkt(i := bkt i @ [p])) ((key, data) # kvs)"
    "ch_alk c' = snd (mmalloc cnode_bytes (ch_alk c))" "ch_size c' = ch_size c" "ch_used c' = ch_used c + 1"
    "ch_free_func c' = ch_free_func c" "ch_freed c' = ch_freed c"
proof -
  from assms(1,2,3,5,6) obtain d where d: "cache_ht_insert c key data = Some (p, d)"
    "hash_link d = (if bkt i = [] then (hash_link c)(p := Some 0) else (hash_link c)(p := Some 0, last (bkt i) := Some p))"
    "list_link d = (list_link c)(p := Some (0, 0))" "entry d = (entry c)(p := Some (key, data))"
    "retains d = (retains c)(p := Some 0)" "ch_table d = (if bkt i = [] then (ch_table c)[i := p] else ch_table c)"
    "d = c\<lparr>ch_alk := snd (mmalloc cnode_bytes (ch_alk c)), ch_fresh := p + 1, ch_nodes := ch_nodes d, ch_table := ch_table d,
           ch_used := ch_used c + 1\<rparr>"
    by (rule ht_insert_effect)
  have f: "ch_head d = ch_head c" "ch_tail d = ch_tail c" "ch_fresh d = Suc p" "ch_used d = ch_used c + 1"
    "ch_retained d = ch_retained c" "ch_keycmp d = ch_keycmp c" "ch_mask d = ch_mask c" "ch_hash_func d = ch_hash_func c"
    "ch_size d = ch_size c" "ch_free_func d = ch_free_func c" "ch_freed d = ch_freed c"
    "ch_alk d = snd (mmalloc cnode_bytes (ch_alk c))"
    by (subst d(7), simp)+
  have sh: "dlist (list_link c) 0 (ch_head c) ps" "ch_tail c = (if ps = [] then 0 else last ps)" "distinct ps"
    "map (entry c) ps = map Some kvs" "distinct (map fst kvs)" "dom (entry c) = set ps" "table_shape c bkt"
    "\<forall>p \<in> set ps. 0 < p \<and> p < ch_fresh c \<and> retains c p = Some 0"
    "ch_retained c = 0" "0 < ch_fresh c" "ch_used c = of_nat (length kvs)" "ch_keycmp c = (\<lambda>a b. a \<noteq> b)"
    using assms(1) by (simp_all add: cache_shape_def)
  have new: "p \<notin> set ps" "0 < p" using sh(8,10) assms(6) by auto
  obtain m where m: "ch_nodes d p = Some m" using d(4) by (auto simp: entry_def fun_eq_iff split: if_splits)
  have "ch_head d = 0 \<or> ch_head d \<in> set ps" using sh(1) f(1) by (cases ps) auto
  then have h: "ch_head d = 0 \<or> ch_head d \<noteq> p \<and> ch_nodes d (ch_head d) \<noteq> None"
  proof
    assume "ch_head d \<in> set ps"
    then have "ch_head d \<in> dom (entry d)" using sh(6) d(4) by simp
    then have "ch_nodes d (ch_head d) \<noteq> None" by (auto simp: entry_def)
    then show ?thesis using \<open>ch_head d \<in> set ps\<close> new(1) by auto
  qed simp
  obtain e g where e: "(if ch_head d \<noteq> 0 then node_put d (ch_head d) (cn_prev_update (\<lambda>_. p)) else Some d) = Some e"
    "node_put e p (\<lambda>n. n\<lparr>cn_next := ch_head e, cn_prev := 0\<rparr>) = Some g" "g = d\<lparr>ch_nodes := ch_nodes g\<rparr>"
    "list_link g = list_pushed (list_link d) p (ch_head d)" "hash_link g = hash_link d" "entry g = entry d" "retains g = retains d"
    by (rule push_effect [OF m h])
  let ?c = "g\<lparr>ch_head := p, ch_tail := (if ch_tail g = 0 then p else ch_tail g)\<rparr>"
  have g: "ch_head g = ch_head d" "ch_tail g = ch_tail d" "ch_fresh g = ch_fresh d" "ch_used g = ch_used d" "ch_table g = ch_table d"
    "ch_retained g = ch_retained d" "ch_keycmp g = ch_keycmp d" "ch_mask g = ch_mask d" "ch_hash_func g = ch_hash_func d"
    "ch_size g = ch_size d" "ch_free_func g = ch_free_func d" "ch_freed g = ch_freed d" "ch_alk g = ch_alk d"
    by (subst e(3), simp)+
  have run: "cache_insert c key data = Some (0, ?c)"
    using assms(4) d(1) e(1,2) new(2) by (simp add: cache_insert_def)
  have idx: "cache_index ?c = cache_index c" by (simp add: cache_index_def fun_eq_iff g f)
  have links: "list_link ?c = list_pushed ((list_link c)(p := Some (0, 0))) p (ch_head c)" "hash_link ?c = hash_link d" "entry ?c = entry d"
    "retains ?c = retains d"
    using e(4-7) d(3) f(1) by (simp_all add: list_link_def hash_link_def entry_def retains_def fun_eq_iff)
  have "dlist ((list_link c)(p := Some (0, 0))) 0 (ch_head c) ps"
    using sh(1) new(1) by (subst dlist_cong [of _ _ "list_link c"]) auto
  then have "dlist (list_link ?c) 0 (ch_head ?c) (p # ps)" using dlist_push [OF _ new(1) _ sh(3)] new(2) links(1) by simp
  moreover have "ps \<noteq> [] \<longrightarrow> 0 < last ps" using sh(8) by simp
  then have "ch_tail ?c = (if p # ps = [] then 0 else last (p # ps))" using sh(2) g(2) f(2) by auto
  moreover have "map (entry ?c) (p # ps) = map Some ((key, data) # kvs)"
    using sh(4) links(3) d(4) new(1) by (auto simp: map_fun_upd)
  moreover have "table_shape ?c (bkt(i := bkt i @ [p]))"
    using new sh(6) links(2,3) d(2,4,6) g(5) by (intro table_insert [OF sh(7) assms(5) _ new(2) idx]) simp_all
  moreover have "dom (entry ?c) = set (p # ps)" using links(3) d(4) sh(6) by simp
  moreover have "\<forall>q \<in> set (p # ps). 0 < q \<and> q < ch_fresh ?c \<and> retains ?c q = Some 0"
    using sh(8) links(4) d(5) new(2) g(3) f(3) assms(6) by auto
  ultimately have "cache_shape ?c (p # ps) (bkt(i := bkt i @ [p])) ((key, data) # kvs)"
    using sh(3,5,9,11,12) new assms(2) g f by (simp add: cache_shape_def)
  then show ?thesis using run g f by (intro that [of ?c]) simp_all
qed

text \<open>Unlinking a node of the list, which is found again.\<close>

lemma dlist_links:
  "dlist h prev p ps \<Longrightarrow> q \<in> set ps \<Longrightarrow> h q = Some (a, b) \<Longrightarrow> (a = prev \<or> a \<in> set ps) \<and> (b = 0 \<or> b \<in> set ps)"
proof (induction ps arbitrary: prev p)
  case (Cons r ps)
  then show ?case by (cases ps; cases "q = r") auto
qed simp

lemma shape_node:
  assumes "cache_shape c ps bkt kvs" "ch_nodes c p = Some n"
  shows "cn_prev n = 0 \<or> ch_nodes c (cn_prev n) \<noteq> None" "cn_next n = 0 \<or> ch_nodes c (cn_next n) \<noteq> None" "p \<in> set ps"
proof -
  have sh: "dlist (list_link c) 0 (ch_head c) ps" "dom (entry c) = set ps" using assms(1) by (simp_all add: cache_shape_def)
  have d: "q \<in> set ps \<longleftrightarrow> ch_nodes c q \<noteq> None" for q using sh(2) by (force simp: entry_def dom_def set_eq_iff)
  show p: "p \<in> set ps" using d assms(2) by simp
  have "list_link c p = Some (cn_prev n, cn_next n)" using assms(2) by (simp add: list_link_def)
  from dlist_links [OF sh(1) p this]
  show "cn_prev n = 0 \<or> ch_nodes c (cn_prev n) \<noteq> None" "cn_next n = 0 \<or> ch_nodes c (cn_next n) \<noteq> None"
    using d by blast+
qed

lemma node_unlink_some:
  assumes "cn_prev n = 0 \<or> ch_nodes c (cn_prev n) \<noteq> None" "cn_next n = 0 \<or> ch_nodes c (cn_next n) \<noteq> None"
    and "ch_nodes c p \<noteq> None"
  shows "\<exists>d. node_unlink c n = Some d \<and> ch_nodes d p \<noteq> None"
  using assms by (auto simp: node_unlink_def node_put_def)


subsection \<open>Filling and clearing\<close>

lemma cache_nbucket_pow2:
  assumes "unat sz \<le> 2 ^ 60"
  obtains k where "3 \<le> k" "k \<le> 60" "cache_nbucket_roundup sz = 2 ^ k"
proof -
  obtain k where k: "3 \<le> k" "k \<le> 63" "unat (nbucket_roundup sz) = 2 ^ k"
    using roundup_props(1) [of "unat sz"] assms by (auto simp: roundup_def)
  have "unat (nbucket_roundup sz) \<le> 2 ^ 61"
    using roundup_props(4) [of "unat sz"] roundup_small [of "unat sz"] assms by (cases "8 \<le> unat sz") (simp_all add: roundup_def)
  moreover have "k \<noteq> 61"
    using roundup_props(4) [of "unat sz"] roundup_small [of "unat sz"] assms k(3) by (cases "8 \<le> unat sz") (auto simp: roundup_def)
  ultimately have "k \<le> 60" using k(3) power_le_imp_le_exp [of "2 :: nat" k 61] by simp
  moreover have "nbucket_roundup sz = 2 ^ k" using arg_cong [OF k(3), of "of_nat :: nat \<Rightarrow> u64"] by simp
  ultimately show ?thesis using that k(1) by (simp add: cache_nbucket_roundup_def)
qed

lemma cache_alloc_effect:
  assumes "never_refuses a" "unat sz \<le> 2 ^ 60"
  obtains c where "cache_alloc ty sz (\<lambda>a b. a \<noteq> b) hash a fr (\<lambda>_. 0) = Some c" "cache_shape c [] (\<lambda>_. []) []"
    "never_refuses (ch_alk c)" "alk_live (ch_alk c) = alk_live a + 1" "ch_size c = sz" "ch_free_func c = fr" "ch_freed c = []"
    "ch_used c = 0"
proof -
  obtain k where k: "3 \<le> k" "k \<le> 60" "cache_nbucket_roundup sz = 2 ^ k" by (rule cache_nbucket_pow2 [OF assms(2)])
  have "(2 :: nat) ^ (k + 3) < 2 ^ 64" using k(2) by (intro power_strict_increasing) simp_all
  then have "unat (2 ^ k * 8 :: u64) = 2 ^ (k + 3)"
    using unat_of_nat_u64 [of "2 ^ (k + 3)"] by (simp add: power_add mult.commute)
  then have len: "unat (2 ^ k * 8 :: u64) div 8 = 2 ^ k" by (simp add: power_add)
  have idx: "unat (x AND (2 ^ k - 1)) < 2 ^ k" for x :: u64
  proof -
    have "x AND (2 ^ k - 1) = take_bit k x" by (simp add: take_bit_eq_mask mask_eq_exp_minus_1)
    then show ?thesis by (simp add: unsigned_take_bit_eq)
  qed
  obtain ok b where m: "mmalloc (unat (2 ^ k * 8 :: u64)) a = (ok, b)" by fastforce
  let ?c = "\<lparr>ch_alk = b, ch_keycmp = (\<lambda>a b. a \<noteq> b), ch_hash_func = hash, ch_free_func = fr, ch_freed = [],
    ch_nodes = Map.empty, ch_fresh = 1, ch_head = 0, ch_tail = 0, ch_retained = 0, ch_table = map (\<lambda>_. 0) [0..<2 ^ k],
    ch_used = 0, ch_size = sz, ch_mask = 2 ^ k - 1, ch_type = ty\<rparr>"
  have "table_shape ?c (\<lambda>_. [])" using idx by (simp add: table_shape_def cache_index_def entry_def)
  then have "cache_shape ?c [] (\<lambda>_. []) []" by (simp add: cache_shape_def entry_def dom_def)
  moreover have "ok" "never_refuses b" using mmalloc_never_refuses [OF assms(1) m] by simp_all
  ultimately show ?thesis
    using m k(3) len mmalloc_live [OF m] by (intro that [of ?c]) (simp_all add: cache_alloc_def Let_def)
qed

text \<open>Insertions one after the other, which all succeed.\<close>

fun cache_fill :: "('k, 'v) cache \<Rightarrow> ('k \<times> 'v) list \<Rightarrow> ('k, 'v) cache option" where
  "cache_fill c [] = Some c"
| "cache_fill c ((k, v) # kvs) = do { (r, c) \<leftarrow> cache_insert c k v; if r = 0 then cache_fill c kvs else None }"

lemma cache_fill_effect:
  assumes "cache_shape c ps bkt done" "distinct (map fst (done @ kvs))" "never_refuses (ch_alk c)"
    and "length done + length kvs \<le> unat (ch_size c)"
  shows "\<exists>c' ps' bkt'. cache_fill c kvs = Some c' \<and> cache_shape c' ps' bkt' (rev kvs @ done)
    \<and> alk_live (ch_alk c') = alk_live (ch_alk c) + int (length kvs) \<and> ch_free_func c' = ch_free_func c \<and> ch_freed c' = ch_freed c"
  using assms
proof (induction kvs arbitrary: c ps bkt "done")
  case (Cons kv kvs)
  obtain k v where kv: "kv = (k, v)" by fastforce
  have "ch_used c = of_nat (length done)" using Cons.prems(1) by (simp add: cache_shape_def)
  moreover have "length done < unat (ch_size c)" using Cons.prems(4) by simp
  ultimately have full: "ch_used c \<noteq> ch_size c"
    using unsigned_less [where 'a = nat, of "ch_size c"] unat_of_nat_u64 [of "length done"] by fastforce
  have new: "k \<notin> fst ` set done" using Cons.prems(2) kv by auto
  obtain d where d: "cache_insert c k v = Some (0, d)"
    "cache_shape d (ch_fresh c # ps) (bkt(cache_index c k := bkt (cache_index c k) @ [ch_fresh c])) ((k, v) # done)"
    "ch_alk d = snd (mmalloc cnode_bytes (ch_alk c))" "ch_size d = ch_size c"
    "ch_free_func d = ch_free_func c" "ch_freed d = ch_freed c"
    by (rule cache_insert_effect [OF Cons.prems(1) new Cons.prems(3) full refl refl])
  obtain ok a where m: "mmalloc cnode_bytes (ch_alk c) = (ok, a)" by fastforce
  have a: "ok" "never_refuses a" "alk_live a = alk_live (ch_alk c) + 1" "ch_alk d = a"
    using mmalloc_never_refuses [OF Cons.prems(3) m] mmalloc_live [OF m] d(3) m by simp_all
  have "\<exists>c' ps' bkt'. cache_fill d kvs = Some c' \<and> cache_shape c' ps' bkt' (rev kvs @ (k, v) # done)
    \<and> alk_live (ch_alk c') = alk_live (ch_alk d) + int (length kvs) \<and> ch_free_func c' = ch_free_func d \<and> ch_freed c' = ch_freed d"
    using Cons.prems(2,4) kv d(4) a by (intro Cons.IH [OF d(2)]) auto
  then show ?case using d(1,5,6) a kv by (simp add: add.assoc)
qed auto

lemma clear_list_effect:
  assumes "dlist (list_link c) prev (ch_head c) ps" "map (entry c) ps = map Some kvs" "distinct ps" "length ps < fuel"
  shows "\<exists>c'. clear_list fuel c = Some c' \<and> alk_live (ch_alk c') = alk_live (ch_alk c) - int (length ps) \<and> ch_head c' = 0
    \<and> ch_freed c' = ch_freed c @ (if ch_free_func c then map snd kvs else []) \<and> ch_table c' = ch_table c
    \<and> ch_nodes c' = (ch_nodes c) |` (- set ps)"
  using assms
proof (induction ps arbitrary: c prev kvs fuel)
  case Nil
  then show ?case by (cases fuel) auto
next
  case (Cons p ps)
  obtain f where f: "fuel = Suc f" using Cons.prems(4) by (cases fuel) auto
  obtain kv kvs' where kvs: "kvs = kv # kvs'" "entry c p = Some kv" using Cons.prems(2) by (cases kvs) auto
  obtain n where n: "ch_nodes c p = Some n" "kv = (cn_key n, cn_data n)" using kvs(2) by (auto simp: entry_def)
  have "list_link c p = Some (cn_prev n, cn_next n)" using n(1) by (simp add: list_link_def)
  then have l: "ch_head c = p" "p \<noteq> 0" "dlist (list_link c) p (cn_next n) ps" using Cons.prems(1) by auto
  let ?d = "c\<lparr>ch_head := cn_next n, ch_freed := ch_freed c @ (if ch_free_func c then [cn_data n] else []),
    ch_nodes := (ch_nodes c)(p := None), ch_alk := mmfree (ch_alk c), ch_used := ch_used c - 1\<rparr>"
  have run: "clear_list fuel c = clear_list f ?d"
    using f n l by (simp add: cache_ht_remove_def cache_node_free_def)
  have p: "p \<notin> set ps" using Cons.prems(3) by simp
  then have "dlist (list_link ?d) p (ch_head ?d) ps"
    using l(3) by (subst dlist_cong [of _ _ "list_link c"]) (auto simp: list_link_def)
  moreover have "entry ?d q = entry c q" if "q \<in> set ps" for q using that p by (auto simp: entry_def)
  then have "map (entry ?d) ps = map (entry c) ps" by (rule map_cong [OF refl])
  then have "map (entry ?d) ps = map Some kvs'" using Cons.prems(2) kvs(1) by (simp only: list.map list.inject)
  moreover have "length ps < f" using Cons.prems(4) f by simp
  ultimately have "\<exists>c'. clear_list f ?d = Some c' \<and> alk_live (ch_alk c') = alk_live (ch_alk ?d) - int (length ps) \<and> ch_head c' = 0
    \<and> ch_freed c' = ch_freed ?d @ (if ch_free_func ?d then map snd kvs' else []) \<and> ch_table c' = ch_table ?d
    \<and> ch_nodes c' = (ch_nodes ?d) |` (- set ps)"
    using Cons.prems(3) by (intro Cons.IH) simp_all
  then show ?case unfolding run using kvs(1) n(2) by (auto simp: restrict_map_def fun_eq_iff)
qed

lemma cache_clear_effect:
  assumes "cache_shape c ps bkt kvs"
  shows "\<exists>c'. cache_clear c = Some (0, c') \<and> alk_live (ch_alk c') = alk_live (ch_alk c) - int (length kvs)
    \<and> ch_freed c' = ch_freed c @ (if ch_free_func c then map snd kvs else [])
    \<and> ch_table c' = ch_table c \<and> ch_nodes c' = Map.empty"
proof -
  have sh: "dlist (list_link c) 0 (ch_head c) ps" "distinct ps" "map (entry c) ps = map Some kvs" "dom (entry c) = set ps"
    "\<forall>p \<in> set ps. p < ch_fresh c" "ch_retained c = 0" "length ps = length kvs"
    using assms map_eq_imp_length_eq by (auto simp: cache_shape_def)
  have "card (set ps) \<le> card {..<ch_fresh c}" using sh(5) by (intro card_mono) auto
  then have "length ps < Suc (ch_fresh c)" using distinct_card [OF sh(2)] by simp
  moreover have "(ch_nodes c) |` (- set ps) = Map.empty"
    using sh(4) by (auto simp: restrict_map_def fun_eq_iff entry_def dom_def)
  moreover obtain d where "clear_list (Suc (ch_fresh c)) c = Some d" "alk_live (ch_alk d) = alk_live (ch_alk c) - int (length ps)"
    "ch_freed d = ch_freed c @ (if ch_free_func c then map snd kvs else [])" "ch_table d = ch_table c"
    "ch_nodes d = (ch_nodes c) |` (- set ps)"
    using clear_list_effect [OF sh(1,3,2) calculation(1)] by blast
  ultimately show ?thesis using sh(6,7) by (simp add: cache_clear_def)
qed


subsection \<open>Released nodes\<close>

lemma list_put_keeps:
  assumes "node_put c p f = Some c'" "\<And>n. cn_hash (f n) = cn_hash n" "\<And>n. cn_key (f n) = cn_key n" "\<And>n. cn_data (f n) = cn_data n"
  shows "hash_link c' = hash_link c" "entry c' = entry c" "ch_table c' = ch_table c" "slot_get c' s = slot_get c s"
    "ch_keycmp c' = ch_keycmp c" "ch_hash_func c' = ch_hash_func c" "ch_mask c' = ch_mask c" "ch_fresh c' = ch_fresh c"
    "ch_free_func c' = ch_free_func c"
  using assms by (auto simp: node_put_def hash_link_def entry_def slot_get_def fun_eq_iff split: bind_splits slot.splits)

lemma node_unlink_slot:
  assumes "node_unlink c n = Some c'"
  shows "slot_get c' s = slot_get c s"
  using assms by (auto simp: node_unlink_def list_put_keeps(4) split: bind_splits if_splits)

lemma node_free_gone: "cache_node_free c p = Some c' \<Longrightarrow> p \<noteq> 0 \<Longrightarrow> ch_nodes c' p = None"
  by (auto simp: cache_node_free_def split: bind_splits if_splits)

lemma node_free_twice: "ch_nodes c p = None \<Longrightarrow> p \<noteq> 0 \<Longrightarrow> cache_node_free c p = None"
  by (simp add: cache_node_free_def)

lemma ht_remove_slot_gone:
  assumes "ht_remove_slot c s = Some c'" "slot_get c s = Some p" "p \<noteq> 0"
  shows "ch_nodes c' p = None"
  using assms node_free_gone by (fastforce simp: ht_remove_slot_def cache_ht_remove_def split: bind_splits)

text \<open>The node is freed by the removal from the table, and freed again.\<close>

lemma cache_remove_twice:
  assumes "cache_ht_lookup c key = Some s" "slot_get c s = Some p" "p \<noteq> 0" "retains c p = Some 0"
  shows "cache_remove c key = None"
proof -
  obtain n where n: "ch_nodes c p = Some n" "cn_retain n = 0" using assms(4) by (auto simp: retains_def)
  have "ht_remove_slot d s \<bind> (\<lambda>c. cache_node_free c p \<bind> (\<lambda>c. Some (0, c))) = None" if "node_unlink c n = Some d" for d
  proof (cases "ht_remove_slot d s")
    case (Some e)
    have "slot_get d s = Some p" using node_unlink_slot [OF that] assms(2) by simp
    then show ?thesis using ht_remove_slot_gone [OF Some] assms(3) node_free_twice [of e p] Some by simp
  qed simp
  then show ?thesis using assms n by (cases "node_unlink c n") (simp_all add: cache_remove_def)
qed

text \<open>A node that was freed and is still in the chain of its key: the walk reads it.\<close>

lemma walk_freed:
  assumes "slot_get d s = Some q" "chain h q qs" "p \<in> set qs" "ch_nodes d p = None"
    and "\<And>r. r \<in> set qs \<Longrightarrow> ch_nodes d r \<noteq> None \<Longrightarrow> hash_link d r = h r"
    and "\<And>r n. r \<in> set qs \<Longrightarrow> ch_nodes d r = Some n \<Longrightarrow> ch_keycmp d (cn_key n) key"
  shows "ht_walk fuel d key s = None"
  using assms
proof (induction qs arbitrary: fuel s q)
  case (Cons r qs)
  show ?case
  proof (cases fuel)
    case (Suc f)
    have r: "q = r" "r \<noteq> 0" using Cons.prems(2) by auto
    show ?thesis
    proof (cases "ch_nodes d r")
      case None
      then show ?thesis using Suc Cons.prems(1) r by simp
    next
      case (Some n)
      have "chain h (cn_hash n) qs" using Cons.prems(2) Cons.prems(5) [of r] Some by (auto simp: hash_link_def)
      moreover have "p \<in> set qs" using Cons.prems(3,4) Some by auto
      moreover have "slot_get d (Link r) = Some (cn_hash n)" using Some by (simp add: slot_get_def)
      ultimately have "ht_walk f d key (Link r) = None"
        using Cons.prems(4,5) Cons.prems(6) [OF list.set_intros(2)]
        by (intro Cons.IH [where s = "Link r" and q = "cn_hash n"]) simp_all
      then show ?thesis using Suc Cons.prems(1) Cons.prems(6) [of r n] r Some by simp
    qed
  qed simp
qed simp

text \<open>What a purge leaves: the node is gone, the table still has it.\<close>

definition stale :: "('k, 'v) cache \<Rightarrow> ('k, 'v) cache \<Rightarrow> nat \<Rightarrow> bool" where
  "stale c d p \<longleftrightarrow> ch_nodes d p = None \<and> ch_table d = ch_table c \<and> ch_keycmp d = ch_keycmp c \<and> ch_hash_func d = ch_hash_func c
     \<and> ch_mask d = ch_mask c
     \<and> (\<forall>r. ch_nodes d r = None \<or> hash_link d r = hash_link c r \<and> entry d r = entry c r)"

lemma contains_stale:
  assumes "cache_shape c ps bkt kvs" "stale c d p" "entry c p = Some (key, v)"
  shows "cache_contains d key = None"
proof -
  let ?i = "cache_index c key"
  note b = shape_bucket [OF assms(1) refl [of ?i]]
  have d: "ch_nodes d p = None" "ch_table d = ch_table c" "ch_keycmp d = ch_keycmp c" "cache_index d = cache_index c"
    using assms(2) by (simp_all add: stale_def cache_index_def fun_eq_iff)
  have same: "hash_link d r = hash_link c r \<and> entry d r = entry c r" if "ch_nodes d r \<noteq> None" for r
    using assms(2) that by (auto simp: stale_def dest: spec [of _ r])
  have "slot_get d (Bucket ?i) = Some (ch_table c ! ?i)" using b(6) d(2) by (simp add: slot_get_def)
  moreover have "p \<in> set (bkt ?i)" using b(7) assms(3) by blast
  moreover have "ch_keycmp d (cn_key n) key" if "ch_nodes d r = Some n" for r n
  proof -
    have "entry c r = Some (cn_key n, cn_data n)" using same [of r] that by (simp add: entry_def)
    then have "cn_key n \<noteq> key" using shape_unique [OF assms(1) _ assms(3)] that d(1) by fastforce
    then show ?thesis using b(5) d(3) by simp
  qed
  ultimately have "ht_walk (Suc (ch_fresh d)) d key (Bucket ?i) = None"
    using same by (intro walk_freed [OF _ b(2) _ d(1)]) simp_all
  then show ?thesis using d(4) by (simp add: cache_contains_def cache_ht_lookup_def cache_index_def fun_eq_iff)
qed

lemma node_free_stale:
  assumes "cache_node_free c p = Some d"
  shows "ch_table d = ch_table c" "ch_keycmp d = ch_keycmp c" "ch_hash_func d = ch_hash_func c" "ch_mask d = ch_mask c"
    "ch_nodes d = (if p = 0 then ch_nodes c else (ch_nodes c)(p := None))"
  using assms by (auto simp: cache_node_free_def split: bind_splits if_splits)

lemma finish_stale:
  assumes "node_put c q f = Some d" "\<And>n. cn_hash (f n) = cn_hash n" "\<And>n. cn_key (f n) = cn_key n" "\<And>n. cn_data (f n) = cn_data n"
    and "ch_nodes c = ch_nodes b \<and> ch_table c = ch_table b \<and> ch_keycmp c = ch_keycmp b \<and> ch_hash_func c = ch_hash_func b
      \<and> ch_mask c = ch_mask b" "cache_ht_remove d p = Some (m, e)" "cache_node_free e m = Some g" "p \<noteq> 0"
  shows "stale b g p"
proof -
  note k = list_put_keeps [OF assms(1-4)]
  have b: "hash_link c = hash_link b" "entry c = entry b" "ch_table c = ch_table b" "ch_keycmp c = ch_keycmp b"
    "ch_hash_func c = ch_hash_func b" "ch_mask c = ch_mask b"
    using assms(5) by (simp_all add: hash_link_def entry_def fun_eq_iff)
  obtain e' where e': "cache_node_free d p = Some e'" "e = e'\<lparr>ch_used := ch_used e' - 1\<rparr>"
    using assms(6) by (auto simp: cache_ht_remove_def split: bind_splits)
  note f = node_free_stale [OF e'(1)] node_free_stale [OF assms(7)]
  have "ch_nodes g r = None \<or> ch_nodes g r = ch_nodes d r" for r using f(5,10) e'(2) by simp
  then have "ch_nodes g r = None \<or> hash_link g r = hash_link d r \<and> entry g r = entry d r" for r
    by (metis hash_link_def entry_def)
  moreover have "ch_nodes g p = None" using f(5,10) e'(2) assms(8) by simp
  ultimately show ?thesis using f k b e'(2) by (simp add: stale_def)
qed

lemma purge_stale:
  assumes "cache_shape c ps bkt kvs" "cache_node_purge c = Some (0, d)"
  shows "kvs \<noteq> [] \<and> (\<exists>p. entry c p = Some (if ch_type c = CACHE_MRU then hd kvs else last kvs) \<and> stale c d p)"
proof -
  have sh: "dlist (list_link c) 0 (ch_head c) ps" "ch_tail c = (if ps = [] then 0 else last ps)" "map (entry c) ps = map Some kvs"
    "dom (entry c) = set ps" "\<forall>p \<in> set ps. 0 < p"
    using assms(1) by (simp_all add: cache_shape_def)
  have ne: "ps \<noteq> []" if "ch_nodes c q = Some n" for q n using sh(4) that by (auto simp: entry_def dom_def)
  have kvs: "kvs \<noteq> []" "entry c (hd ps) = Some (hd kvs)" "entry c (last ps) = Some (last kvs)" if "ps \<noteq> []"
    using that sh(3) by (metis Nil_is_map_conv, metis hd_map Nil_is_map_conv, metis last_map Nil_is_map_conv)
  show ?thesis
  proof (cases "ch_type c")
    case CACHE_MRU
    then obtain n d' m e where r: "ch_nodes c (ch_head c) = Some n"
      "node_put (c\<lparr>ch_head := cn_next n\<rparr>) (cn_next n) (cn_prev_update (\<lambda>_. 0)) = Some d'"
      "cache_ht_remove d' (ch_head c) = Some (m, e)" "cache_node_free e m = Some d"
      using assms(2) by (auto simp: cache_node_purge_def split: bind_splits)
    have h: "ch_head c = hd ps" using sh(1) ne [OF r(1)] by (cases ps) auto
    have "stale c d (ch_head c)"
      using sh(5) ne [OF r(1)] h by (intro finish_stale [OF r(2) _ _ _ _ r(3,4)]) (auto simp: hd_in_set)
    then show ?thesis using kvs [OF ne [OF r(1)]] h CACHE_MRU by auto
  next
    case CACHE_LRU
    then obtain n d' m e where r: "ch_nodes c (ch_tail c) = Some n"
      "node_put (c\<lparr>ch_tail := cn_prev n\<rparr>) (cn_prev n) (cn_next_update (\<lambda>_. 0)) = Some d'"
      "cache_ht_remove d' (ch_tail c) = Some (m, e)" "cache_node_free e m = Some d"
      using assms(2) by (auto simp: cache_node_purge_def split: bind_splits)
    have h: "ch_tail c = last ps" using sh(2) ne [OF r(1)] by simp
    have "stale c d (ch_tail c)"
      using sh(5) ne [OF r(1)] h by (intro finish_stale [OF r(2) _ _ _ _ r(3,4)]) auto
    then show ?thesis using kvs [OF ne [OF r(1)]] h CACHE_LRU by auto
  next
    case CACHE_OTHER
    then show ?thesis using assms(2) by (simp add: cache_node_purge_def)
  qed
qed

text \<open>After \<open>cache_clear\<close>, every node is.\<close>

lemma clear_list_keeps:
  "clear_list fuel c = Some d \<Longrightarrow> ch_keycmp d = ch_keycmp c \<and> ch_hash_func d = ch_hash_func c \<and> ch_mask d = ch_mask c"
  by (induction fuel arbitrary: c) (auto simp: cache_ht_remove_def node_free_stale split: bind_splits if_splits)

lemma clear_stale:
  assumes "cache_shape c ps bkt kvs"
  shows "\<exists>d. cache_clear c = Some (0, d) \<and> (\<forall>p. stale c d p)"
proof -
  obtain d where d: "cache_clear c = Some (0, d)" "ch_table d = ch_table c" "ch_nodes d = Map.empty"
    using cache_clear_effect [OF assms] by blast
  then obtain e where e: "clear_list (Suc (ch_fresh c)) c = Some e" "d = e\<lparr>ch_tail := 0\<rparr>"
    by (auto simp: cache_clear_def split: bind_splits if_splits)
  show ?thesis using d clear_list_keeps [OF e(1)] e(2) by (simp add: stale_def)
qed

end
