(* ===== verification/Cache_Properties.thy ===== *)
theory Cache_Properties
  imports Cache_Correct
begin

section \<open>Properties of cache.c\<close>

text \<open>A cache that is filled to its size, with a table that happens to be zero.\<close>

definition filled :: "cache_type \<Rightarrow> u64 \<Rightarrow> ('k \<Rightarrow> u64) \<Rightarrow> alk \<Rightarrow> bool \<Rightarrow> ('k \<times> 'v) list \<Rightarrow> ('k, 'v) cache option" where
  "filled ty sz hash a fr kvs = do { c \<leftarrow> cache_alloc ty sz (\<lambda>a b. a \<noteq> b) hash a fr (\<lambda>_. 0); cache_fill c kvs }"

lemma filled_effect:
  fixes kvs :: "('k \<times> 'v) list"
  assumes "never_refuses a" "unat sz \<le> 2 ^ 60" "distinct (map fst kvs)" "length kvs \<le> unat sz"
  shows "\<exists>c. filled ty sz hash a fr kvs = Some c \<and> cache_wf c (rev kvs) \<and> alk_live (ch_alk c) = alk_live a + 1 + int (length kvs)
    \<and> ch_free_func c = fr \<and> ch_freed c = []"
proof -
  obtain c :: "('k, 'v) cache" where c: "cache_alloc ty sz (\<lambda>a b. a \<noteq> b) hash a fr (\<lambda>_. 0) = Some c" "cache_shape c [] (\<lambda>_. []) []"
    "never_refuses (ch_alk c)" "alk_live (ch_alk c) = alk_live a + 1" "ch_size c = sz" "ch_free_func c = fr" "ch_freed c = []"
    "ch_used c = 0"
    by (rule cache_alloc_effect [OF assms(1,2)])
  have "\<exists>c' ps' bkt'. cache_fill c kvs = Some c' \<and> cache_shape c' ps' bkt' (rev kvs @ [])
    \<and> alk_live (ch_alk c') = alk_live (ch_alk c) + int (length kvs) \<and> ch_free_func c' = ch_free_func c \<and> ch_freed c' = ch_freed c"
    using assms(3,4) c(5) by (intro cache_fill_effect [OF c(2) _ c(3)]) simp_all
  then show ?thesis using c by (auto simp: filled_def cache_wf_def)
qed

lemma contains_wf:
  assumes "cache_wf c kvs"
  shows "cache_contains c key = Some (key \<in> fst ` set kvs)"
proof -
  obtain ps bkt where sh: "cache_shape c ps bkt kvs" using assms by (auto simp: cache_wf_def)
  show ?thesis
  proof (cases "key \<in> fst ` set kvs")
    case True
    then obtain v where "(key, v) \<in> set kvs" by auto
    from lookup_hit [OF sh this] show ?thesis using True by (auto simp: cache_contains_def)
  next
    case False
    then show ?thesis using lookup_miss [OF sh False refl refl] by (simp add: cache_contains_def)
  qed
qed

lemma retain_wf:
  assumes "cache_wf c kvs"
  shows "map_option fst (cache_retain c key) = Some (map_of kvs key)"
proof -
  obtain ps bkt where sh: "cache_shape c ps bkt kvs" using assms by (auto simp: cache_wf_def)
  show ?thesis
  proof (cases "map_of kvs key")
    case None
    then have "key \<notin> fst ` set kvs" by (simp add: map_of_eq_None_iff)
    then show ?thesis using None lookup_miss [OF sh _ refl refl, of key] by (simp add: cache_retain_def)
  next
    case (Some v)
    then obtain s p where l: "cache_ht_lookup c key = Some s" "slot_get c s = Some p" "entry c p = Some (key, v)" "0 < p"
      "retains c p = Some 0"
      using lookup_hit [OF sh map_of_SomeD] by blast
    then obtain n where n: "ch_nodes c p = Some n" "cn_data n = v" "cn_retain n = 0" by (auto simp: entry_def retains_def)
    let ?d = "c\<lparr>ch_nodes := (ch_nodes c)(p \<mapsto> n\<lparr>cn_retain := 1\<rparr>)\<rparr>"
    have "cn_prev n = 0 \<or> ch_nodes ?d (cn_prev n) \<noteq> None" "cn_next n = 0 \<or> ch_nodes ?d (cn_next n) \<noteq> None"
      using shape_node(1,2) [OF sh n(1)] by auto
    then obtain e where "node_unlink ?d n = Some e" "ch_nodes e p \<noteq> None"
      using node_unlink_some [of n ?d p] by auto
    then show ?thesis using l n Some by (auto simp: cache_retain_def node_put_def)
  qed
qed

text \<open>C35. A cache whose table happens to be zero takes as many distinct keys as its size, in any allocator that does not
  refuse; it then contains those keys and no others, retaining one returns its data, and releasing the cache releases all
  the memory it took and gives every item to \<open>free_func\<close> once.\<close>

theorem cache_fill_correct:
  assumes "never_refuses a" "unat sz \<le> 2 ^ 60" "distinct (map fst kvs)" "length kvs \<le> unat sz"
  shows "\<exists>c d. filled ty sz hash a fr kvs = Some c \<and> (\<forall>key. cache_contains c key = Some (key \<in> fst ` set kvs))
    \<and> (\<forall>key. map_option fst (cache_retain c key) = Some (map_of kvs key))
    \<and> cache_free c = Some (0, d) \<and> alk_live (ch_alk d) = alk_live a \<and> ch_freed d = (if fr then rev (map snd kvs) else [])"
proof -
  obtain c where c: "filled ty sz hash a fr kvs = Some c" "cache_wf c (rev kvs)"
    "alk_live (ch_alk c) = alk_live a + 1 + int (length kvs)" "ch_free_func c = fr" "ch_freed c = []"
    using filled_effect [OF assms, of ty hash fr] by blast
  obtain ps bkt where "cache_shape c ps bkt (rev kvs)" using c(2) by (auto simp: cache_wf_def)
  then obtain d where d: "cache_clear c = Some (0, d)" "alk_live (ch_alk d) = alk_live (ch_alk c) - int (length kvs)"
    "ch_freed d = (if fr then rev (map snd kvs) else [])"
    using cache_clear_effect [of c ps bkt "rev kvs"] c(4,5) by (auto simp: rev_map)
  have "map_of (rev kvs) = map_of kvs" using assms(3) by (intro map_of_inject_set [THEN iffD2]) (simp_all flip: rev_map)
  then show ?thesis
    using c contains_wf [OF c(2)] retain_wf [OF c(2)] d
    by (intro exI [of _ c] exI [of _ "d\<lparr>ch_alk := mmfree (ch_alk d)\<rparr>"]) (simp add: cache_free_def)
qed

lemma cache_fill_correct_witness:
  "\<exists>c d. filled CACHE_LRU 2 (\<lambda>_. 5) alk_generous True [(1 :: nat, ''a''), (9, ''b'')] = Some c \<and> cache_contains c 9 = Some True
    \<and> cache_contains c 5 = Some False \<and> cache_free c = Some (0, d) \<and> ch_freed d = [''b'', ''a'']"
  using cache_fill_correct [of alk_generous 2 "[(1 :: nat, ''a''), (9, ''b'')]" CACHE_LRU "\<lambda>_. 5" True] by auto

text \<open>C36. Nothing can be taken out of such a cache safely. Removing a key that is there frees its node twice; after a
  \<open>cache_clear\<close>, and after a purge that succeeds, the table still has the released nodes, and looking up
  a key that was taken out reads one.\<close>

theorem cache_removal_faults:
  assumes "cache_wf c kvs" "key \<in> fst ` set kvs"
  shows "cache_remove c key = None
    \<and> (\<exists>d. cache_clear c = Some (0, d) \<and> cache_contains d key = None)
    \<and> (\<forall>d. cache_node_purge c = Some (0, d) \<longrightarrow> key = fst (if ch_type c = CACHE_MRU then hd kvs else last kvs) \<longrightarrow>
         cache_contains d key = None)"
proof -
  obtain ps bkt where sh: "cache_shape c ps bkt kvs" using assms(1) by (auto simp: cache_wf_def)
  obtain v where kv: "(key, v) \<in> set kvs" using assms(2) by auto
  obtain s p where l: "cache_ht_lookup c key = Some s" "slot_get c s = Some p" "entry c p = Some (key, v)" "0 < p"
    "retains c p = Some 0"
    using lookup_hit [OF sh kv] by blast
  have remove: "cache_remove c key = None" using cache_remove_twice [OF l(1,2) _ l(5)] l(4) by simp
  obtain d where d: "cache_clear c = Some (0, d)" "stale c d p"
    using clear_stale [OF sh] by blast
  have purge: "cache_contains e key = None"
    if "cache_node_purge c = Some (0, e)" "key = fst (if ch_type c = CACHE_MRU then hd kvs else last kvs)" for e
  proof -
    let ?kv = "if ch_type c = CACHE_MRU then hd kvs else last kvs"
    from purge_stale [OF sh that(1)] obtain q where "entry c q = Some ?kv" "stale c e q" by blast
    then show ?thesis using contains_stale [OF sh, of e q key "snd ?kv"] that(2) by simp
  qed
  show ?thesis using remove d contains_stale [OF sh d(2) l(3)] purge by blast
qed

lemma cache_removal_faults_witness:
  "\<exists>c d. filled CACHE_LRU 2 (\<lambda>_. 5) alk_generous True [(1 :: nat, ''a''), (9, ''b'')] = Some c \<and> cache_remove c 9 = None
    \<and> cache_clear c = Some (0, d) \<and> cache_contains d 9 = None"
proof -
  obtain c where c: "filled CACHE_LRU 2 (\<lambda>_. 5) alk_generous True [(1 :: nat, ''a''), (9, ''b'')] = Some c"
    "cache_wf c [(9, ''b''), (1, ''a'')]"
    using filled_effect [of alk_generous 2 "[(1 :: nat, ''a''), (9, ''b'')]" CACHE_LRU "\<lambda>_. 5" True] by auto
  then show ?thesis using cache_removal_faults [OF c(2), of 9] by auto
qed

text \<open>A purge that succeeds: in a cache without \<open>free_func\<close> whose keys are in different buckets.\<close>

lemma cache_purge_succeeds:
  "map_option (\<lambda>(r, c). (r, ch_used c)) (filled CACHE_LRU 2 id alk_generous False [(1 :: u64, ''a''), (2, ''b'')] \<bind> cache_node_purge)
     = Some (0, 1)"
  by code_simp

end
