(* ===== verification/Btree_Cache.thy ===== *)
theory Btree_Cache
  imports Byte_Memory Allocator
begin

section \<open>The block cache of btree.c\<close>

text \<open>
  The blocks of clean nodes that are not in use: a circular list of cache nodes, the most recently used first,
  those without a block at the end, and a hash table by block number. Nodes are in a store from addresses, 0 is
  NULL, and addresses are not used twice, so that an access to a released node faults. A block has one owner:
  \<open>btcache_add\<close> takes it over and \<open>btcache_lookup\<close> hands it out.
\<close>

record bcnode =
  bc_next :: nat
  bc_prev :: nat
  bc_hash :: nat
  bc_blocknr :: u64
  bc_block :: "u8 list option"

record btcache =
  bc_table :: "nat list"
  bc_head :: nat
  bc_used :: u32
  bc_size :: u32
  bc_nodes :: "nat \<Rightarrow> bcnode option"
  bc_fresh :: nat

definition btcache_can_add :: "btcache \<Rightarrow> bool" where "btcache_can_add c \<longleftrightarrow> bc_size c \<noteq> 0"

text \<open>A division by zero faults.\<close>

definition btcache_hash :: "btcache \<Rightarrow> u64 \<Rightarrow> nat option" where
  "btcache_hash c blocknr = (if bc_size c = 0 then None else Some (unat blocknr mod unat (bc_size c)))"

definition bc_put :: "btcache \<Rightarrow> nat \<Rightarrow> (bcnode \<Rightarrow> bcnode) \<Rightarrow> btcache option" where
  "bc_put c p f = do { n \<leftarrow> bc_nodes c p; Some (c\<lparr>bc_nodes := (bc_nodes c)(p \<mapsto> f n)\<rparr>) }"

definition bcnode_bytes :: nat where "bcnode_bytes = 40"

text \<open>The address of the new node, 0 when there is no memory. Its number, which is not set, and its links,
  which are set at once, are 0 here.\<close>

definition btcache_add_node :: "alk \<Rightarrow> btcache \<Rightarrow> (nat \<times> alk \<times> btcache) option" where
  "btcache_add_node a c =
     (let (ok, a) = mmalloc bcnode_bytes a;
          p = bc_fresh c
      in if \<not> ok then Some (0, a, c)
         else do {
           let c = c\<lparr>bc_fresh := p + 1,
                     bc_nodes := (bc_nodes c)(p \<mapsto> \<lparr>bc_next = 0, bc_prev = 0, bc_hash = 0, bc_blocknr = 0, bc_block = None\<rparr>)\<rparr>;
           c \<leftarrow> (if bc_head c \<noteq> 0
                 then do {
                   h \<leftarrow> bc_nodes c (bc_head c);
                   c \<leftarrow> bc_put c p (\<lambda>n. n\<lparr>bc_next := bc_head c, bc_prev := bc_prev h\<rparr>);
                   c \<leftarrow> bc_put c (bc_head c) (bc_prev_update (\<lambda>_. p));
                   bc_put c (bc_prev h) (bc_next_update (\<lambda>_. p))
                 }
                 else bc_put c p (\<lambda>n. n\<lparr>bc_next := p, bc_prev := p\<rparr>));
           Some (p, a, c\<lparr>bc_head := p, bc_used := bc_used c + 1\<rparr>)
         })"

text \<open>The walk along a chain for the node whose \<open>hash\<close> is the given one. A chain that is not circular has
  fewer nodes than there are addresses.\<close>

fun unhash_walk :: "nat \<Rightarrow> btcache \<Rightarrow> nat \<Rightarrow> nat \<Rightarrow> btcache option" where
  "unhash_walk 0 c node p = None"
| "unhash_walk (Suc fuel) c node p =
     (if p = 0 then Some c
      else do {
        n \<leftarrow> bc_nodes c p;
        if bc_hash n = node
        then do { m \<leftarrow> bc_nodes c node; bc_put c p (bc_hash_update (\<lambda>_. bc_hash m)) }
        else unhash_walk fuel c node (bc_hash n)
      })"

definition btcache_unhash :: "btcache \<Rightarrow> nat \<Rightarrow> btcache option" where
  "btcache_unhash c node =
     do {
       n \<leftarrow> bc_nodes c node;
       i \<leftarrow> btcache_hash c (bc_blocknr n);
       p \<leftarrow> buf_get (bc_table c) i;
       if p = node then do { t \<leftarrow> buf_set (bc_table c) i 0; Some (c\<lparr>bc_table := t\<rparr>) }
       else unhash_walk (Suc (bc_fresh c)) c node p
     }"

definition btcache_eject :: "btcache \<Rightarrow> nat \<Rightarrow> btcache option" where
  "btcache_eject c node =
     do {
       c \<leftarrow> btcache_unhash c node;
       h \<leftarrow> bc_nodes c (bc_head c);
       c \<leftarrow> (if bc_prev h \<noteq> node
             then do {
               n \<leftarrow> bc_nodes c node;
               c \<leftarrow> bc_put c (bc_prev n) (bc_next_update (\<lambda>_. bc_next n));
               c \<leftarrow> bc_put c (bc_next n) (bc_prev_update (\<lambda>_. bc_prev n));
               let c = (if bc_head c = node then c\<lparr>bc_head := bc_next n\<rparr> else c);
               h \<leftarrow> bc_nodes c (bc_head c);
               let tail = bc_prev h;
               c \<leftarrow> bc_put c tail (bc_next_update (\<lambda>_. node));
               c \<leftarrow> bc_put c node (\<lambda>n. n\<lparr>bc_next := bc_head c, bc_prev := tail\<rparr>);
               bc_put c (bc_head c) (bc_prev_update (\<lambda>_. node))
             }
             else Some c);
       bc_put c node (bc_block_update (\<lambda>_. None))
     }"

text \<open>The cache before is whatever the structure held; its nodes are none.\<close>

definition btcache_open :: "alk \<Rightarrow> btcache \<Rightarrow> u32 \<Rightarrow> (int \<times> alk \<times> btcache) option" where
  "btcache_open a c sz =
     (if sz = 0 then Some (1, a, c\<lparr>bc_size := 0\<rparr>)
      else let (ok, a) = mmalloc (unat sz * 8) a
           in if \<not> ok then Some (2, a, c)
              else do {
                let c = c\<lparr>bc_table := replicate (unat sz) 0, bc_head := 0, bc_size := sz, bc_used := 0\<rparr>;
                (_, a, c) \<leftarrow> btcache_add_node a c;
                Some (0, a, c)
              })"

fun close_walk :: "nat \<Rightarrow> alk \<Rightarrow> btcache \<Rightarrow> nat \<Rightarrow> (alk \<times> btcache) option" where
  "close_walk 0 a c p = None"
| "close_walk (Suc fuel) a c p =
     do {
       n \<leftarrow> bc_nodes c p;
       let a = (if bc_block n \<noteq> None then mmfree a else a);
       let a = mmfree a;
       let c = c\<lparr>bc_nodes := (bc_nodes c)(p := None)\<rparr>;
       if bc_next n = bc_head c then Some (a, c) else close_walk fuel a c (bc_next n)
     }"

definition btcache_close :: "alk \<Rightarrow> btcache \<Rightarrow> (alk \<times> btcache) option" where
  "btcache_close a c =
     (if bc_size c = 0 then Some (a, c)
      else do {
        (a, c) \<leftarrow> (if bc_head c \<noteq> 0 then close_walk (Suc (bc_fresh c)) a c (bc_head c) else Some (a, c));
        Some (mmfree a, c)
      })"

definition btcache_add :: "alk \<Rightarrow> btcache \<Rightarrow> u64 \<Rightarrow> u8 list option \<Rightarrow> (int \<times> alk \<times> btcache) option" where
  "btcache_add a c blocknr block =
     do {
       h \<leftarrow> bc_nodes c (bc_head c);
       let node = bc_prev h;
       (node, a, c) \<leftarrow>
         (if bc_block h = None \<or> bc_size c \<le> bc_used c
          then do {
            let c = c\<lparr>bc_head := node\<rparr>;
            n \<leftarrow> bc_nodes c node;
            if bc_block n \<noteq> None then do { c \<leftarrow> btcache_unhash c node; Some (node, mmfree a, c) } else Some (node, a, c)
          }
          else btcache_add_node a c);
       if node = 0 then Some (1, a, c)
       else do {
         c \<leftarrow> bc_put c node (\<lambda>n. n\<lparr>bc_blocknr := blocknr, bc_block := block\<rparr>);
         i \<leftarrow> btcache_hash c blocknr;
         p \<leftarrow> buf_get (bc_table c) i;
         c \<leftarrow> bc_put c node (bc_hash_update (\<lambda>_. p));
         t \<leftarrow> buf_set (bc_table c) i node;
         Some (0, a, c\<lparr>bc_table := t\<rparr>)
       }
     }"

fun lookup_walk :: "nat \<Rightarrow> btcache \<Rightarrow> u64 \<Rightarrow> nat \<Rightarrow> (u8 list option \<times> btcache) option" where
  "lookup_walk 0 c blocknr p = None"
| "lookup_walk (Suc fuel) c blocknr p =
     (if p = 0 then Some (None, c)
      else do {
        n \<leftarrow> bc_nodes c p;
        if bc_blocknr n = blocknr then do { c \<leftarrow> btcache_eject c p; Some (bc_block n, c) }
        else lookup_walk fuel c blocknr (bc_hash n)
      })"

definition btcache_lookup :: "btcache \<Rightarrow> u64 \<Rightarrow> (u8 list option \<times> btcache) option" where
  "btcache_lookup c blocknr =
     (if bc_size c = 0 then Some (None, c)
      else do {
        i \<leftarrow> btcache_hash c blocknr;
        p \<leftarrow> buf_get (bc_table c) i;
        lookup_walk (Suc (bc_fresh c)) c blocknr p
      })"

end
