(* ===== verification/Btree_Cache_Ring.thy ===== *)
theory Btree_Cache_Ring
  imports Btree_Cache Cache_Correct
begin

section \<open>The circular list of the block cache\<close>

text \<open>
  The list of the cache nodes as a list of addresses that the two links go around: a node put in before the head, one
  taken out, and the head moved along, on the links alone; then the fields of the store as functions of the address and
  what the stores of btree.c's block cache change of them.
\<close>

fun arc :: "(nat \<Rightarrow> nat option) \<Rightarrow> (nat \<Rightarrow> nat option) \<Rightarrow> nat list \<Rightarrow> bool" where
  "arc nx pv [] \<longleftrightarrow> True"
| "arc nx pv [x] \<longleftrightarrow> True"
| "arc nx pv (x # y # zs) \<longleftrightarrow> nx x = Some y \<and> pv y = Some x \<and> arc nx pv (y # zs)"

definition ring :: "(nat \<Rightarrow> nat option) \<Rightarrow> (nat \<Rightarrow> nat option) \<Rightarrow> nat list \<Rightarrow> bool" where
  "ring nx pv L \<longleftrightarrow> L \<noteq> [] \<and> distinct L \<and> arc nx pv L \<and> nx (last L) = Some (hd L) \<and> pv (hd L) = Some (last L)"

lemma arc_Cons: "arc nx pv (x # zs) \<longleftrightarrow> (zs = [] \<or> nx x = Some (hd zs) \<and> pv (hd zs) = Some x) \<and> arc nx pv zs"
  by (cases zs) auto

lemma arc_append:
  "arc nx pv (xs @ ys) \<longleftrightarrow> arc nx pv xs \<and> arc nx pv ys
     \<and> (xs = [] \<or> ys = [] \<or> nx (last xs) = Some (hd ys) \<and> pv (hd ys) = Some (last xs))"
proof (induction xs)
  case (Cons x xs)
  then show ?case by (cases xs) (auto simp: arc_Cons [of _ _ x])
qed simp

lemma arc_cong:
  "(\<And>x. x \<in> set (butlast L) \<Longrightarrow> nx' x = nx x) \<Longrightarrow> (\<And>x. x \<in> set (tl L) \<Longrightarrow> pv' x = pv x) \<Longrightarrow> arc nx' pv' L = arc nx pv L"
proof (induction nx pv L rule: arc.induct)
  case (3 nx pv x y zs)
  have "arc nx' pv' (y # zs) = arc nx pv (y # zs)" by (rule "3.IH") (use "3.prems" in auto)
  then show ?case using "3.prems" by simp
qed simp_all

lemma butlast_neq_last: "distinct L \<Longrightarrow> x \<in> set (butlast L) \<Longrightarrow> x \<noteq> last L"
  by (induction L) (auto split: if_splits)

lemma tl_neq_hd: "distinct L \<Longrightarrow> x \<in> set (tl L) \<Longrightarrow> x \<noteq> hd L"
  by (cases L) auto

lemma ring_rotate:
  assumes "ring nx pv (xs @ ys)"
  shows "ring nx pv (ys @ xs)"
proof (cases "xs = [] \<or> ys = []")
  case False
  then show ?thesis using assms by (auto simp: ring_def arc_append)
qed (use assms in auto)

text \<open>A node before the head, which becomes the head.\<close>

lemma ring_Cons:
  assumes "ring nx pv L" "p \<notin> set L"
  shows "ring (nx(p := Some (hd L), last L := Some p)) (pv(p := Some (last L), hd L := Some p)) (p # L)"
proof -
  let ?nx = "nx(p := Some (hd L), last L := Some p)" and ?pv = "pv(p := Some (last L), hd L := Some p)"
  have L: "L \<noteq> []" "distinct L" using assms(1) by (auto simp: ring_def)
  have p: "p \<noteq> last L" "p \<noteq> hd L" using assms(2) L(1) by auto
  have "arc ?nx ?pv L = arc nx pv L"
  proof (rule arc_cong)
    fix x assume "x \<in> set (butlast L)"
    then have "x \<noteq> last L" "x \<noteq> p"
      using L assms(2) butlast_neq_last in_set_butlastD by fast+
    then show "?nx x = nx x" by simp
  next
    fix x assume "x \<in> set (tl L)"
    then have "x \<noteq> hd L" "x \<noteq> p" using L assms(2) tl_neq_hd list.set_sel(2) by fast+
    then show "?pv x = pv x" by simp
  qed
  then show ?thesis using assms L p by (simp add: ring_def arc_Cons)
qed

text \<open>The head taken out.\<close>

lemma ring_uncons:
  assumes "ring nx pv (p # L)" "L \<noteq> []"
  shows "ring (nx(last L := Some (hd L))) (pv(hd L := Some (last L))) L"
proof -
  have "arc (nx(last L := Some (hd L))) (pv(hd L := Some (last L))) L = arc nx pv L"
  proof (rule arc_cong)
    fix x assume "x \<in> set (butlast L)"
    then have "x \<noteq> last L" using assms(1) butlast_neq_last [of L x] by (simp add: ring_def)
    then show "(nx(last L := Some (hd L))) x = nx x" by simp
  next
    fix x assume "x \<in> set (tl L)"
    then have "x \<noteq> hd L" using assms(1) tl_neq_hd [of L x] by (simp add: ring_def)
    then show "(pv(hd L := Some (last L))) x = pv x" by simp
  qed
  then show ?thesis using assms by (simp add: ring_def arc_Cons)
qed

lemma ring_unique: "ring nx pv L \<Longrightarrow> L \<noteq> [] \<and> distinct L"
  by (simp add: ring_def)

text \<open>The neighbours of a node.\<close>

lemma ring_links:
  assumes "ring nx pv (xs @ p # ys)"
  shows "nx p = Some (hd (ys @ xs @ [p]))" "pv p = Some (last (p # ys @ xs))"
proof -
  have "ring nx pv (p # ys @ xs)" using ring_rotate [OF assms] by simp
  then show "nx p = Some (hd (ys @ xs @ [p]))" "pv p = Some (last (p # ys @ xs))"
    by (auto simp: ring_def arc_Cons [of _ _ p] hd_append split: if_splits)
qed

subsection \<open>The fields of the store\<close>

definition bnx :: "btcache \<Rightarrow> nat \<Rightarrow> nat option" where "bnx c p = map_option bc_next (bc_nodes c p)"

definition bpv :: "btcache \<Rightarrow> nat \<Rightarrow> nat option" where "bpv c p = map_option bc_prev (bc_nodes c p)"

definition bhl :: "btcache \<Rightarrow> nat \<Rightarrow> nat option" where "bhl c p = map_option bc_hash (bc_nodes c p)"

definition bdata :: "btcache \<Rightarrow> nat \<Rightarrow> (u64 \<times> u8 list option) option" where
  "bdata c p = map_option (\<lambda>n. (bc_blocknr n, bc_block n)) (bc_nodes c p)"

text \<open>Everything but the links of the list, and everything but the head and the links.\<close>

definition side :: "btcache \<Rightarrow> nat list \<times> u32 \<times> u32 \<times> nat \<times> (nat \<Rightarrow> nat option) \<times> (nat \<Rightarrow> (u64 \<times> u8 list option) option)" where
  "side c = (bc_table c, bc_used c, bc_size c, bc_fresh c, bhl c, bdata c)"

lemma field_frames [simp]:
  "bnx (c\<lparr>bc_head := h\<rparr>) = bnx c" "bpv (c\<lparr>bc_head := h\<rparr>) = bpv c" "bhl (c\<lparr>bc_head := h\<rparr>) = bhl c"
  "bdata (c\<lparr>bc_head := h\<rparr>) = bdata c" "bnx (c\<lparr>bc_used := u\<rparr>) = bnx c" "bpv (c\<lparr>bc_used := u\<rparr>) = bpv c"
  "bhl (c\<lparr>bc_used := u\<rparr>) = bhl c" "bdata (c\<lparr>bc_used := u\<rparr>) = bdata c" "bnx (c\<lparr>bc_table := t\<rparr>) = bnx c"
  "bpv (c\<lparr>bc_table := t\<rparr>) = bpv c" "bhl (c\<lparr>bc_table := t\<rparr>) = bhl c" "bdata (c\<lparr>bc_table := t\<rparr>) = bdata c"
  by (simp_all add: bnx_def bpv_def bhl_def bdata_def fun_eq_iff)

lemma bdata_dom: "bdata c p \<noteq> None \<longleftrightarrow> bc_nodes c p \<noteq> None" "bnx c p \<noteq> None \<longleftrightarrow> bc_nodes c p \<noteq> None"
  by (simp_all add: bdata_def bnx_def)

lemma bc_put_Some: "bc_nodes c p = Some n \<Longrightarrow> bc_put c p f = Some (c\<lparr>bc_nodes := (bc_nodes c)(p \<mapsto> f n)\<rparr>)"
  by (simp add: bc_put_def)

lemma put_next:
  assumes "bc_nodes c p \<noteq> None"
  shows "\<exists>c'. bc_put c p (bc_next_update (\<lambda>_. v)) = Some c' \<and> bnx c' = (bnx c)(p := Some v) \<and> bpv c' = bpv c
    \<and> bc_head c' = bc_head c \<and> side c' = side c"
  using assms by (auto simp: bc_put_Some bnx_def bpv_def bhl_def bdata_def side_def fun_eq_iff)

lemma put_prev:
  assumes "bc_nodes c p \<noteq> None"
  shows "\<exists>c'. bc_put c p (bc_prev_update (\<lambda>_. v)) = Some c' \<and> bnx c' = bnx c \<and> bpv c' = (bpv c)(p := Some v)
    \<and> bc_head c' = bc_head c \<and> side c' = side c"
  using assms by (auto simp: bc_put_Some bnx_def bpv_def bhl_def bdata_def side_def fun_eq_iff)

lemma put_both:
  assumes "bc_nodes c p \<noteq> None"
  shows "\<exists>c'. bc_put c p (\<lambda>n. n\<lparr>bc_next := v, bc_prev := w\<rparr>) = Some c' \<and> bnx c' = (bnx c)(p := Some v)
    \<and> bpv c' = (bpv c)(p := Some w) \<and> bc_head c' = bc_head c \<and> side c' = side c"
  using assms by (auto simp: bc_put_Some bnx_def bpv_def bhl_def bdata_def side_def fun_eq_iff)

lemma side_node: "side c' = side c \<Longrightarrow> bc_nodes c' p \<noteq> None \<longleftrightarrow> bc_nodes c p \<noteq> None"
  using bdata_dom(1) [of c p] bdata_dom(1) [of c' p] by (simp add: side_def)

text \<open>The nodes are those of a list, which starts at the head.\<close>

definition listed :: "btcache \<Rightarrow> nat list \<Rightarrow> bool" where
  "listed c L \<longleftrightarrow> ring (bnx c) (bpv c) L \<and> bc_head c = hd L \<and> (\<forall>p. bc_nodes c p \<noteq> None \<longleftrightarrow> p \<in> set L)
     \<and> (\<forall>p \<in> set L. 0 < p \<and> p < bc_fresh c)"

lemma listed_ends:
  assumes "listed c L"
  shows "L \<noteq> []" "distinct L" "hd L \<in> set L" "last L \<in> set L" "bpv c (hd L) = Some (last L)" "bnx c (last L) = Some (hd L)"
    "bc_nodes c (hd L) \<noteq> None" "bc_nodes c (last L) \<noteq> None" "bc_head c \<noteq> 0"
  using assms by (auto simp: listed_def ring_def)

lemma listed_length: "listed c L \<Longrightarrow> length L < Suc (bc_fresh c)"
proof -
  assume l: "listed c L"
  have "set L \<subseteq> {..< bc_fresh c}" using l by (auto simp: listed_def)
  then have "card (set L) \<le> bc_fresh c" by (metis card_lessThan card_mono finite_lessThan)
  then show "length L < Suc (bc_fresh c)" using listed_ends(2) [OF l] distinct_card [of L] by simp
qed

text \<open>The head moved back to the last node.\<close>

lemma listed_back:
  assumes "listed c L"
  shows "listed (c\<lparr>bc_head := last L\<rparr>) (last L # butlast L)"
proof -
  have L: "L = butlast L @ [last L]" using listed_ends(1) [OF assms] by simp
  then have "ring (bnx c) (bpv c) ([last L] @ butlast L)" using assms ring_rotate unfolding listed_def by metis
  moreover have "set (last L # butlast L) = set L" by (subst (3) L) auto
  ultimately show ?thesis
    using assms by (simp add: listed_def)
qed

text \<open>A node taken from its place to the end.\<close>

lemma moved_to_end:
  assumes "listed c (xs @ p # ys)" "ys \<noteq> []" "bc_nodes c p = Some n"
  shows "\<exists>c' h. do {
           c \<leftarrow> bc_put c (bc_prev n) (bc_next_update (\<lambda>_. bc_next n));
           c \<leftarrow> bc_put c (bc_next n) (bc_prev_update (\<lambda>_. bc_prev n));
           let c = (if bc_head c = p then c\<lparr>bc_head := bc_next n\<rparr> else c);
           h \<leftarrow> bc_nodes c (bc_head c);
           let tail = bc_prev h;
           c \<leftarrow> bc_put c tail (bc_next_update (\<lambda>_. p));
           c \<leftarrow> bc_put c p (\<lambda>n. n\<lparr>bc_next := bc_head c, bc_prev := tail\<rparr>);
           bc_put c (bc_head c) (bc_prev_update (\<lambda>_. p))
         } = Some c' \<and> listed c' (xs @ ys @ [p]) \<and> side c' = side c"
proof -
  let ?R = "ys @ xs" and ?M = "xs @ ys"
  have r: "ring (bnx c) (bpv c) (p # ?R)" using assms(1) ring_rotate [of _ _ xs "p # ys"] by (simp add: listed_def)
  then have n: "bc_next n = hd ys" "bc_prev n = last ?R" and d: "distinct (p # ?R)"
    using assms(2,3) by (auto simp: ring_def arc_Cons [of _ _ p] bnx_def bpv_def hd_append)
  have dom: "bc_nodes c q \<noteq> None \<longleftrightarrow> q \<in> set (p # ?R)" for q using assms(1) by (auto simp: listed_def)
  have "bc_prev n \<in> set (p # ?R)" using n(2) assms(2) last_in_set [of ?R] by auto
  then have "bc_nodes c (bc_prev n) \<noteq> None" using dom by blast
  from put_next [OF this, of "bc_next n"] obtain c1 where c1: "bc_put c (bc_prev n) (bc_next_update (\<lambda>_. bc_next n)) = Some c1"
    "bnx c1 = (bnx c)(last ?R := Some (hd ?R))" "bpv c1 = bpv c" "bc_head c1 = bc_head c" "side c1 = side c"
    using n assms(2) by auto
  have "hd ys \<in> set (p # ?R)" using assms(2) by simp
  then have "bc_nodes c1 (bc_next n) \<noteq> None" using dom side_node [OF c1(5)] n(1) by simp
  from put_prev [OF this, of "bc_prev n"] obtain c2 where c2: "bc_put c1 (bc_next n) (bc_prev_update (\<lambda>_. bc_prev n)) = Some c2"
    "bnx c2 = (bnx c)(last ?R := Some (hd ?R))" "bpv c2 = (bpv c)(hd ?R := Some (last ?R))" "bc_head c2 = bc_head c" "side c2 = side c"
    using n assms(2) c1 by auto
  have m: "ring (bnx c2) (bpv c2) ?M" using ring_rotate ring_uncons [OF r] assms(2) c2(2,3) by simp
  let ?c3 = "if bc_head c2 = p then c2\<lparr>bc_head := bc_next n\<rparr> else c2"
  have c3: "bnx ?c3 = bnx c2" "bpv ?c3 = bpv c2" "side ?c3 = side c"
    using c2(5) by (simp_all add: side_def)
  have h3: "bc_head ?c3 = hd ?M"
    using assms(1) n(1) c2(4) d by (cases xs) (auto simp: listed_def)
  have e: "hd ?M \<in> set (p # ?R)" "last ?M = last ?R \<or> True" "last ?M \<in> set (p # ?R)" using assms(2) by (cases xs; auto)+
  then have i3: "bc_nodes ?c3 (hd ?M) \<noteq> None" "bc_nodes ?c3 (last ?M) \<noteq> None" using dom side_node [OF c3(3)] by blast+
  then obtain h where h: "bc_nodes ?c3 (bc_head ?c3) = Some h" using h3 by auto
  have "bpv ?c3 (bc_head ?c3) = Some (bc_prev h)" by (simp only: bpv_def h option.map)
  then have "bpv c2 (hd ?M) = Some (bc_prev h)" using c3(2) h3 by simp
  then have t: "bc_prev h = last ?M" using m by (simp add: ring_def)
  from put_next [OF i3(2), of p] obtain c4 where c4: "bc_put ?c3 (bc_prev h) (bc_next_update (\<lambda>_. p)) = Some c4"
    "bnx c4 = (bnx c2)(last ?M := Some p)" "bpv c4 = bpv c2" "bc_head c4 = hd ?M" "side c4 = side c"
    using t c3 h3 by auto
  have "bc_nodes c4 p \<noteq> None" using dom side_node [OF c4(5)] by simp
  from put_both [OF this, where v = "bc_head c4" and w = "bc_prev h"] obtain c5 where c5:
    "bc_put c4 p (\<lambda>n. n\<lparr>bc_next := bc_head c4, bc_prev := bc_prev h\<rparr>) = Some c5"
    "bnx c5 = (bnx c2)(last ?M := Some p, p := Some (hd ?M))" "bpv c5 = (bpv c2)(p := Some (last ?M))"
    "bc_head c5 = hd ?M" "side c5 = side c"
    using t c4 by auto
  have "last ?M \<noteq> p" using d assms(2) last_in_set [of ys] by auto
  then have tw: "(bnx c2)(last ?M := Some p, p := Some (hd ?M)) = (bnx c2)(p := Some (hd ?M), last ?M := Some p)"
    by (rule fun_upd_twist)
  have "bc_nodes c5 (bc_head c5) \<noteq> None" using dom side_node [OF c5(5)] c5(4) e(1) by simp
  from put_prev [OF this, of p] obtain c6 where c6: "bc_put c5 (bc_head c5) (bc_prev_update (\<lambda>_. p)) = Some c6"
    "bnx c6 = (bnx c2)(p := Some (hd ?M), last ?M := Some p)" "bpv c6 = (bpv c2)(p := Some (last ?M), hd ?M := Some p)"
    "bc_head c6 = hd ?M" "side c6 = side c"
    using c5 tw by auto
  have "ring (bnx c6) (bpv c6) (p # ?M)" unfolding c6(2,3) by (rule ring_Cons [OF m]) (use d in auto)
  then have "ring (bnx c6) (bpv c6) (xs @ ys @ [p])" using ring_rotate [of _ _ "[p]" ?M] by simp
  then have "listed c6 (xs @ ys @ [p])"
    using assms(1,2) c6(4,5) side_node [OF c6(5)] by (auto simp: listed_def side_def hd_append)
  then show ?thesis using c1(1) c2(1) h c4(1) c5(1) c6(1,5) by (simp add: Let_def)
qed

text \<open>A new node in front.\<close>

lemma put_links:
  assumes "bc_nodes c p \<noteq> None"
  shows "\<exists>c'. bc_put c p (\<lambda>n. n\<lparr>bc_next := v, bc_prev := w\<rparr>) = Some c' \<and> bnx c' = (bnx c)(p := Some v)
    \<and> bpv c' = (bpv c)(p := Some w) \<and> bc_head c' = bc_head c \<and> side c' = side c"
  by (rule put_both [OF assms])

lemma add_node_effect:
  assumes "never_refuses a" "listed c L \<or> L = [] \<and> bc_head c = 0 \<and> (\<forall>p. bc_nodes c p = None)" "0 < bc_fresh c"
    and "p = bc_fresh c"
  shows "\<exists>a' c'. btcache_add_node a c = Some (p, a', c') \<and> listed c' (p # L) \<and> never_refuses a' \<and> alk_live a' = alk_live a + 1
    \<and> side c' = (bc_table c, bc_used c + 1, bc_size c, p + 1, (bhl c)(p := Some 0), (bdata c)(p := Some (0, None)))"
proof -
  obtain ok a1 where a1: "mmalloc bcnode_bytes a = (ok, a1)" by fastforce
  note ok = mmalloc_never_refuses [OF assms(1) a1]
  have live: "alk_live a1 = alk_live a + 1" using mmalloc_live [OF a1] ok(1) by simp
  have p: "p \<notin> set L" "\<forall>q. bc_nodes c q \<noteq> None \<longleftrightarrow> q \<in> set L" "\<forall>q \<in> set L. 0 < q \<and> q < p"
    using assms(2,4) by (auto simp: listed_def)
  let ?n = "\<lparr>bc_next = 0, bc_prev = 0, bc_hash = 0, bc_blocknr = 0, bc_block = None\<rparr>"
  let ?c = "c\<lparr>bc_fresh := p + 1, bc_nodes := (bc_nodes c)(p \<mapsto> ?n)\<rparr>"
  have f0: "bnx ?c = (bnx c)(p := Some 0)" "bpv ?c = (bpv c)(p := Some 0)" "bhl ?c = (bhl c)(p := Some 0)"
    "bdata ?c = (bdata c)(p := Some (0, None))"
    by (auto simp: bnx_def bpv_def bhl_def bdata_def fun_eq_iff)
  have s0: "side ?c = (bc_table c, bc_used c, bc_size c, p + 1, (bhl c)(p := Some 0), (bdata c)(p := Some (0, None)))"
    using f0 by (simp add: side_def)
  have dom: "bc_nodes ?c q \<noteq> None \<longleftrightarrow> q \<in> set (p # L)" for q using p(2) by simp
  let ?tail = "\<lambda>c. Some (p, a1, c\<lparr>bc_head := p, bc_used := bc_used c + 1\<rparr>)"
  have finish: ?thesis if "ring (bnx d) (bpv d) (p # L)" "side d = side ?c"
    "btcache_add_node a c = Some (p, a1, d\<lparr>bc_head := p, bc_used := bc_used d + 1\<rparr>)" for d
  proof -
    have "\<forall>q. bc_nodes d q \<noteq> None \<longleftrightarrow> q \<in> set (p # L)" using dom side_node [OF that(2)] by blast
    moreover have "bc_fresh d = p + 1" using that(2) by (simp add: side_def)
    ultimately have "listed (d\<lparr>bc_head := p, bc_used := bc_used d + 1\<rparr>) (p # L)"
      using that(1) p(3) assms(3,4) by (auto simp: listed_def)
    then show ?thesis using that(2,3) s0 ok(2) live by (auto simp: side_def)
  qed
  show ?thesis
  proof (cases "L = []")
    case True
    then have h: "bc_head c = 0" using assms(2) listed_ends(1) by blast
    have "bc_nodes ?c p \<noteq> None" by simp
    from put_links [OF this, of p p] obtain d where d: "bc_put ?c p (\<lambda>n. n\<lparr>bc_next := p, bc_prev := p\<rparr>) = Some d"
      "bnx d = (bnx ?c)(p := Some p)" "bpv d = (bpv ?c)(p := Some p)" "side d = side ?c"
      by blast
    show ?thesis
      by (rule finish [of d]) (use d a1 ok(1) h True assms(4) in \<open>simp_all add: ring_def btcache_add_node_def Let_def\<close>)
  next
    case False
    then have l: "listed c L" using assms(2) by blast
    note e = listed_ends [OF l]
    have pn: "hd L \<noteq> p" "last L \<noteq> p" using p(1) e(3,4) by metis+
    have hh: "bc_head c = hd L" "hd L \<noteq> 0" using l e(9) by (auto simp: listed_def)
    obtain h where h: "bc_nodes c (hd L) = Some h" using e(7) by auto
    have t: "bc_prev h = last L" using h e(5) by (simp add: bpv_def)
    have "bc_nodes ?c p \<noteq> None" by simp
    from put_links [OF this, where v = "hd L" and w = "last L"] obtain d1 where d1:
      "bc_put ?c p (\<lambda>n. n\<lparr>bc_next := hd L, bc_prev := last L\<rparr>) = Some d1"
      "bnx d1 = (bnx ?c)(p := Some (hd L))" "bpv d1 = (bpv ?c)(p := Some (last L))" "bc_head d1 = hd L" "side d1 = side ?c"
      using hh(1) by auto
    have "bc_nodes d1 (hd L) \<noteq> None" using dom side_node [OF d1(5)] e(3) by simp
    from put_prev [OF this, of p] obtain d2 where d2: "bc_put d1 (hd L) (bc_prev_update (\<lambda>_. p)) = Some d2"
      "bnx d2 = bnx d1" "bpv d2 = (bpv d1)(hd L := Some p)" "bc_head d2 = hd L" "side d2 = side ?c"
      using d1(4,5) by auto
    have "bc_nodes d2 (last L) \<noteq> None" using dom side_node [OF d2(5)] e(4) by simp
    from put_next [OF this, of p] obtain d3 where d3: "bc_put d2 (last L) (bc_next_update (\<lambda>_. p)) = Some d3"
      "bnx d3 = (bnx d2)(last L := Some p)" "bpv d3 = bpv d2" "side d3 = side ?c"
      using d2(5) by auto
    have nx: "bnx d3 = (bnx c)(p := Some (hd L), last L := Some p)" "bpv d3 = (bpv c)(p := Some (last L), hd L := Some p)"
      using d1(2,3) d2(2,3) d3(2,3) f0(1,2) by auto
    have r: "ring (bnx d3) (bpv d3) (p # L)" unfolding nx by (rule ring_Cons) (use l p(1) in \<open>auto simp: listed_def\<close>)
    have "btcache_add_node a c = Some (p, a1, d3\<lparr>bc_head := p, bc_used := bc_used d3 + 1\<rparr>)"
      using a1 ok(1) hh h t pn(1) d1(1,4) d2(1) d3(1) assms(4) by (simp add: btcache_add_node_def Let_def)
    then show ?thesis by (rule finish [OF r d3(4)])
  qed
qed

text \<open>The walk of \<open>__btcache_close\<close>: every node is released, and every block that is left.\<close>

definition blocks_held :: "btcache \<Rightarrow> nat list \<Rightarrow> nat" where
  "blocks_held c L = length (filter (\<lambda>p. map_option snd (bdata c p) \<noteq> Some None) L)"

lemma close_walk_effect:
  assumes "arc (bnx c) (bpv c) (p # L)" "distinct (p # L)" "bnx c (last (p # L)) = Some (bc_head c)" "bc_head c \<notin> set L"
    and "length L < fuel" "\<forall>q \<in> set (p # L). bc_nodes c q \<noteq> None"
  shows "\<exists>a' c'. close_walk fuel a c p = Some (a', c') \<and> alk_live a' = alk_live a - int (length (p # L)) - int (blocks_held c (p # L))"
  using assms
proof (induction L arbitrary: fuel a c p)
  case Nil
  then obtain f n where "fuel = Suc f" "bc_nodes c p = Some n" by (cases fuel) auto
  then show ?case using Nil.prems(3) by (auto simp: blocks_held_def bdata_def bnx_def Let_def)
next
  case (Cons q L)
  obtain f n where f: "fuel = Suc f" and n: "bc_nodes c p = Some n" using Cons.prems(5,6) by (cases fuel) auto
  have nx: "bc_next n = q" using Cons.prems(1) n by (simp add: bnx_def)
  let ?c = "c\<lparr>bc_nodes := (bc_nodes c)(p := None)\<rparr>"
  let ?a = "mmfree (if bc_block n \<noteq> None then mmfree a else a)"
  have eq: "bnx ?c x = bnx c x" "bpv ?c x = bpv c x" "bdata ?c x = bdata c x" if "x \<noteq> p" for x
    using that by (simp_all add: bnx_def bpv_def bdata_def)
  have pL: "p \<noteq> q" "p \<notin> set L" using Cons.prems(2) by auto
  have "arc (bnx ?c) (bpv ?c) (q # L) = arc (bnx c) (bpv c) (q # L)"
  proof (rule arc_cong)
    show "bnx ?c x = bnx c x" if "x \<in> set (butlast (q # L))" for x
      by (rule eq(1)) (use in_set_butlastD [OF that] pL in auto)
    show "bpv ?c x = bpv c x" if "x \<in> set (tl (q # L))" for x by (rule eq(2)) (use that pL in auto)
  qed
  then have arc: "arc (bnx ?c) (bpv ?c) (q # L)" using Cons.prems(1) by simp
  have last: "bnx ?c (last (q # L)) = Some (bc_head ?c)"
  proof -
    have "last (q # L) \<noteq> p" using pL last_in_set [of "q # L"] by (metis list.distinct(1) set_ConsD)
    then show ?thesis using Cons.prems(3) eq(1) by simp
  qed
  have "distinct (q # L)" "bc_head ?c \<notin> set L" "length L < f" "\<forall>x \<in> set (q # L). bc_nodes ?c x \<noteq> None"
    using Cons.prems(2,4,5,6) pL f by auto
  from Cons.IH [OF arc this(1) last this(2-4), of ?a]
  obtain a' c' where r: "close_walk f ?a ?c q = Some (a', c')"
    "alk_live a' = alk_live ?a - int (length (q # L)) - int (blocks_held ?c (q # L))"
    by blast
  have "bdata ?c x = bdata c x" if "x \<in> set (q # L)" for x by (rule eq(3)) (use that pL in auto)
  then have "filter (\<lambda>p. map_option snd (bdata ?c p) \<noteq> Some None) (q # L)
      = filter (\<lambda>p. map_option snd (bdata c p) \<noteq> Some None) (q # L)"
    by (intro filter_cong) simp_all
  then have "blocks_held ?c (q # L) = blocks_held c (q # L)" unfolding blocks_held_def by (rule arg_cong)
  moreover have "close_walk fuel a c p = Some (a', c')"
    using f n nx r(1) Cons.prems(4) by (simp add: Let_def)
  ultimately show ?case using r(2) n by (auto simp: blocks_held_def bdata_def)
qed

end
