(* ===== verification/Btree_Cache_Correct.thy ===== *)
theory Btree_Cache_Correct
  imports Btree_Cache_Ring "HOL-Library.Sublist"
begin

section \<open>The block cache keeps the blocks it is given\<close>

text \<open>
  The chains of the table over the list of the nodes. A node that leaves its chain may take others of the bucket with
  it, \<open>hashed\<close> only says that what is left is chains. The nodes that hold a block are the first of the list, those
  of a lookup or of the start the last.
\<close>

subsection \<open>Chains\<close>

definition hashed :: "btcache \<Rightarrow> (nat \<Rightarrow> nat list) \<Rightarrow> bool" where
  "hashed c bkt \<longleftrightarrow> bc_size c \<noteq> 0 \<and> length (bc_table c) = unat (bc_size c)
     \<and> (\<forall>i < unat (bc_size c). chain (bhl c) (bc_table c ! i) (bkt i) \<and> distinct (bkt i)
          \<and> (\<forall>q \<in> set (bkt i). \<exists>nr b. bdata c q = Some (nr, Some b) \<and> unat nr mod unat (bc_size c) = i))"

text \<open>All but the links of the chains and the table.\<close>

definition outside :: "btcache \<Rightarrow> (nat \<Rightarrow> nat option) \<times> (nat \<Rightarrow> nat option) \<times> nat \<times> u32 \<times> u32 \<times> nat
    \<times> (nat \<Rightarrow> (u64 \<times> u8 list option) option)" where
  "outside c = (bnx c, bpv c, bc_head c, bc_used c, bc_size c, bc_fresh c, bdata c)"

lemma put_hash:
  assumes "bc_nodes c p \<noteq> None"
  shows "\<exists>c'. bc_put c p (bc_hash_update (\<lambda>_. v)) = Some c' \<and> bhl c' = (bhl c)(p := Some v) \<and> bc_table c' = bc_table c
    \<and> outside c' = outside c"
  using assms by (auto simp: bc_put_Some bnx_def bpv_def bhl_def bdata_def outside_def fun_eq_iff)

lemma put_data:
  assumes "bc_nodes c p \<noteq> None"
  shows "\<exists>c'. bc_put c p (\<lambda>n. n\<lparr>bc_blocknr := nr, bc_block := b\<rparr>) = Some c' \<and> bnx c' = bnx c \<and> bpv c' = bpv c
    \<and> bc_head c' = bc_head c \<and> side c' = (bc_table c, bc_used c, bc_size c, bc_fresh c, bhl c, (bdata c)(p := Some (nr, b)))"
  using assms by (auto simp: bc_put_Some bnx_def bpv_def bhl_def bdata_def side_def fun_eq_iff)

lemma put_block:
  assumes "bdata c p = Some (nr, ob)"
  shows "\<exists>c'. bc_put c p (bc_block_update (\<lambda>_. b)) = Some c' \<and> bnx c' = bnx c \<and> bpv c' = bpv c
    \<and> bc_head c' = bc_head c \<and> side c' = (bc_table c, bc_used c, bc_size c, bc_fresh c, bhl c, (bdata c)(p := Some (nr, b)))"
  using assms by (auto simp: bc_put_Some bnx_def bpv_def bhl_def bdata_def side_def fun_eq_iff)

lemma outside_node: "outside c' = outside c \<Longrightarrow> bc_nodes c' p \<noteq> None \<longleftrightarrow> bc_nodes c p \<noteq> None"
  using bdata_dom(1) [of c p] bdata_dom(1) [of c' p] by (simp add: outside_def)

lemma outside_listed: "outside c' = outside c \<Longrightarrow> listed c' L \<longleftrightarrow> listed c L"
  using outside_node [of c' c] by (simp add: listed_def outside_def)

lemma bhl_Some: "bhl c p = Some r \<longleftrightarrow> (\<exists>n. bc_nodes c p = Some n \<and> bc_hash n = r)"
  by (auto simp: bhl_def)

lemma unhash_walk_effect:
  assumes "chain (bhl c) q qs" "distinct qs" "length qs < fuel" "q \<noteq> p" "bc_nodes c p \<noteq> None" "p \<noteq> 0"
  shows "\<exists>c'. unhash_walk fuel c p q = Some c' \<and> chain (bhl c') q (remove1 p qs) \<and> (\<forall>r. r \<notin> set qs \<longrightarrow> bhl c' r = bhl c r)
    \<and> bc_table c' = bc_table c \<and> outside c' = outside c"
  using assms
proof (induction qs arbitrary: q fuel)
  case Nil
  then show ?case by (cases fuel) auto
next
  case (Cons q' qs)
  obtain f r n where f: "fuel = Suc f" and q: "q' = q" "q \<noteq> 0" "bc_nodes c q = Some n" "bc_hash n = r" "chain (bhl c) r qs"
    using Cons.prems(1,3) by (cases fuel) (auto simp: bhl_Some)
  show ?case
  proof (cases "r = p")
    case True
    obtain m where m: "bc_nodes c p = Some m" using Cons.prems(5) by auto
    obtain c' where c': "bc_put c q (bc_hash_update (\<lambda>_. bc_hash m)) = Some c'" "bhl c' = (bhl c)(q := Some (bc_hash m))"
      "bc_table c' = bc_table c" "outside c' = outside c"
      using put_hash [of c q "bc_hash m"] q(3) by auto
    obtain qs' where qs: "qs = p # qs'" using q(5) True Cons.prems(6) by (cases qs) auto
    then have "chain (bhl c) (bc_hash m) qs'" using q(5) m by (auto simp: bhl_Some)
    moreover have "bhl c' r = bhl c r" if "r \<in> set qs'" for r using that c'(2) qs q(1) Cons.prems(2) by auto
    ultimately have "chain (bhl c') (bc_hash m) qs'" by (subst chain_cong [where h = "bhl c"])
    then show ?thesis using f q True m c' qs Cons.prems(2,4) by auto
  next
    case False
    have "distinct qs" "length qs < f" using Cons.prems(2,3) f by auto
    from Cons.IH [OF q(5) this False Cons.prems(5,6)]
    obtain c' where c': "unhash_walk f c p r = Some c'" "chain (bhl c') r (remove1 p qs)" "\<forall>s. s \<notin> set qs \<longrightarrow> bhl c' s = bhl c s"
      "bc_table c' = bc_table c" "outside c' = outside c" by blast
    have "bhl c q = Some r" using q by (simp add: bhl_def)
    then have "bhl c' q = Some r" using c'(3) Cons.prems(2) q(1) by auto
    then show ?thesis using f q c' False Cons.prems(2,4) by auto
  qed
qed

lemma hashed_bucket:
  assumes "hashed c bkt" "bdata c p = Some (nr, ob)" "j < unat (bc_size c)" "p \<in> set (bkt j)"
  shows "j = unat nr mod unat (bc_size c)" "ob \<noteq> None"
  using assms by (fastforce simp: hashed_def)+

lemma hashed_chain:
  assumes "hashed c bkt" "i < unat (bc_size c)"
  shows "chain (bhl c) (bc_table c ! i) (bkt i)" "distinct (bkt i)" "i < length (bc_table c)"
  using assms by (auto simp: hashed_def)

lemma hashed_length:
  assumes "hashed c bkt" "listed c L" "i < unat (bc_size c)"
  shows "length (bkt i) < Suc (bc_fresh c)" "set (bkt i) \<subseteq> set L"
proof -
  show s: "set (bkt i) \<subseteq> set L"
  proof
    fix q assume "q \<in> set (bkt i)"
    then have "bdata c q \<noteq> None" using assms(1,3) by (fastforce simp: hashed_def)
    then show "q \<in> set L" using assms(2) bdata_dom(1) by (auto simp: listed_def)
  qed
  have "length (bkt i) \<le> length L"
    using s listed_ends(2) [OF assms(2)] hashed_chain(2) [OF assms(1,3)] by (metis card_mono distinct_card finite_set)
  then show "length (bkt i) < Suc (bc_fresh c)" using listed_length [OF assms(2)] by simp
qed

lemma hash_index:
  assumes "hashed c bkt"
  shows "btcache_hash c nr = Some (unat nr mod unat (bc_size c))" "unat nr mod unat (bc_size c) < unat (bc_size c)"
proof -
  have "unat (bc_size c) \<noteq> 0" using assms unsigned_eq_0_iff by (auto simp: hashed_def)
  then show "btcache_hash c nr = Some (unat nr mod unat (bc_size c))" "unat nr mod unat (bc_size c) < unat (bc_size c)"
    using assms by (auto simp: btcache_hash_def hashed_def)
qed

lemma subseq_parts:
  assumes "subseq xs ys"
  shows "set xs \<subseteq> set ys" "distinct ys \<Longrightarrow> distinct xs"
  using assms by (auto simp: subseq_conv_nths dest: in_set_nthsD)

text \<open>A node taken out of its chain: it is in no chain afterwards, and the chains are what they were
  without it, or less.\<close>

lemma unhash_effect:
  assumes "hashed c bkt" "listed c L" "bdata c p = Some (nr, ob)"
  shows "\<exists>c' bkt'. btcache_unhash c p = Some c' \<and> hashed c' bkt' \<and> outside c' = outside c
    \<and> (\<forall>j < unat (bc_size c). subseq (bkt' j) (remove1 p (bkt j)))"
proof -
  let ?i = "unat nr mod unat (bc_size c)"
  note i = hash_index [OF assms(1), of nr]
  note ch = hashed_chain [OF assms(1) i(2)]
  obtain n where n: "bc_nodes c p = Some n" "bc_blocknr n = nr" using assms(3) by (auto simp: bdata_def)
  have p0: "p \<noteq> 0" using assms(2) n(1) by (auto simp: listed_def)
  have only: "p \<notin> set (bkt j)" if "j < unat (bc_size c)" "j \<noteq> ?i" for j
    using hashed_bucket(1) [OF assms(1,3) that(1)] that(2) by blast
  have keep: "hashed c' (bkt(?i := qs)) \<and> (\<forall>j < unat (bc_size c). subseq ((bkt(?i := qs)) j) (remove1 p (bkt j)))"
    if "outside c' = outside c" "length (bc_table c') = length (bc_table c)" "chain (bhl c') (bc_table c' ! ?i) qs"
      "subseq qs (remove1 p (bkt ?i))" "\<And>j. j \<noteq> ?i \<Longrightarrow> bc_table c' ! j = bc_table c ! j"
      "\<And>r. r \<notin> set (bkt ?i) \<Longrightarrow> bhl c' r = bhl c r" for c' qs
  proof -
    have o': "bc_size c' = bc_size c" "bdata c' = bdata c" using that(1) by (simp_all add: outside_def)
    have "chain (bhl c') (bc_table c' ! j) (bkt j)" if j: "j < unat (bc_size c)" "j \<noteq> ?i" for j
    proof -
      have "bhl c' q = bhl c q" if q: "q \<in> set (bkt j)" for q
      proof (rule \<open>\<And>r. r \<notin> set (bkt ?i) \<Longrightarrow> bhl c' r = bhl c r\<close>)
        obtain nr' b where "bdata c q = Some (nr', Some b)" "unat nr' mod unat (bc_size c) = j"
          using assms(1) j(1) q unfolding hashed_def by blast
        then show "q \<notin> set (bkt ?i)" using hashed_bucket(1) [OF assms(1) _ i(2)] j(2) by metis
      qed
      then show ?thesis
        using chain_cong [of "bkt j" "bhl c'" "bhl c"] hashed_chain(1) [OF assms(1) j(1)] \<open>\<And>j. j \<noteq> ?i \<Longrightarrow> bc_table c' ! j = bc_table c ! j\<close> j(2)
        by simp
    qed
    moreover have "distinct qs" "set qs \<subseteq> set (bkt ?i)"
      using subseq_parts [OF that(4)] ch(2) set_remove1_subset [of p "bkt ?i"] by auto
    ultimately show ?thesis using assms(1) o' that(2-4) only by (auto simp: hashed_def remove1_idem)
  qed
  show ?thesis
  proof (cases "bc_table c ! ?i = p")
    case True
    let ?c = "c\<lparr>bc_table := (bc_table c)[?i := 0]\<rparr>"
    have "btcache_unhash c p = Some ?c" using n i ch(3) True by (simp add: btcache_unhash_def buf_simps)
    moreover have "hashed ?c (bkt(?i := [])) \<and> (\<forall>j < unat (bc_size c). subseq ((bkt(?i := [])) j) (remove1 p (bkt j)))"
      by (rule keep) (use ch(3) in \<open>simp_all add: outside_def\<close>)
    moreover have "outside ?c = outside c" by (simp add: outside_def)
    ultimately show ?thesis by blast
  next
    case False
    obtain c' where c': "unhash_walk (Suc (bc_fresh c)) c p (bc_table c ! ?i) = Some c'"
      "chain (bhl c') (bc_table c ! ?i) (remove1 p (bkt ?i))" "\<forall>r. r \<notin> set (bkt ?i) \<longrightarrow> bhl c' r = bhl c r"
      "bc_table c' = bc_table c" "outside c' = outside c"
      using unhash_walk_effect [OF ch(1,2) hashed_length(1) [OF assms(1,2) i(2)] False _ p0] n(1) by auto
    have "btcache_unhash c p = Some c'" using n i ch(3) False c'(1) by (simp add: btcache_unhash_def buf_simps)
    moreover have "hashed c' (bkt(?i := remove1 p (bkt ?i))) \<and>
        (\<forall>j < unat (bc_size c). subseq ((bkt(?i := remove1 p (bkt ?i))) j) (remove1 p (bkt j)))"
      by (rule keep) (use c' ch(2) in simp_all)
    ultimately show ?thesis using c'(5) by blast
  qed
qed

subsection \<open>The invariant\<close>

definition holding :: "btcache \<Rightarrow> nat \<Rightarrow> bool" where
  "holding c p \<longleftrightarrow> (\<exists>nr b. bdata c p = Some (nr, Some b))"

definition vacant :: "btcache \<Rightarrow> nat \<Rightarrow> bool" where
  "vacant c p \<longleftrightarrow> (\<exists>nr. bdata c p = Some (nr, None))"

text \<open>The blocks that a chain reaches under a number, in its order: they are among those of \<open>M\<close>, the newest first.\<close>

definition under :: "btcache \<Rightarrow> u64 \<Rightarrow> nat \<Rightarrow> bool" where
  "under c nr q \<longleftrightarrow> (\<exists>b. bdata c q = Some (nr, b))"

definition block_of :: "btcache \<Rightarrow> nat \<Rightarrow> u8 list" where
  "block_of c q = (case bdata c q of Some (_, Some b) \<Rightarrow> b | _ \<Rightarrow> [])"

definition blocks_of :: "btcache \<Rightarrow> u64 \<Rightarrow> nat list \<Rightarrow> u8 list list" where
  "blocks_of c nr qs = map (block_of c) (filter (under c nr) qs)"

definition known :: "btcache \<Rightarrow> (nat \<Rightarrow> nat list) \<Rightarrow> (u64 \<Rightarrow> u8 list list) \<Rightarrow> bool" where
  "known c bkt M \<longleftrightarrow> (\<forall>i < unat (bc_size c). \<forall>nr. subseq (blocks_of c nr (bkt i)) (M nr))"

definition bc_keeps :: "btcache \<Rightarrow> nat list \<Rightarrow> nat list \<Rightarrow> (nat \<Rightarrow> nat list) \<Rightarrow> (u64 \<Rightarrow> u8 list list) \<Rightarrow> bool" where
  "bc_keeps c A B bkt M \<longleftrightarrow> listed c (A @ B) \<and> hashed c bkt \<and> known c bkt M
     \<and> unat (bc_used c) = length (A @ B) \<and> length (A @ B) \<le> unat (bc_size c)
     \<and> (\<forall>p \<in> set A. holding c p) \<and> (\<forall>p \<in> set B. vacant c p)"

text \<open>With at most one block under each number.\<close>

definition stacks :: "(u64 \<rightharpoonup> u8 list) \<Rightarrow> u64 \<Rightarrow> u8 list list" where
  "stacks m nr = (case m nr of None \<Rightarrow> [] | Some b \<Rightarrow> [b])"

definition bc_inv :: "btcache \<Rightarrow> nat list \<Rightarrow> nat list \<Rightarrow> (nat \<Rightarrow> nat list) \<Rightarrow> (u64 \<rightharpoonup> u8 list) \<Rightarrow> bool" where
  "bc_inv c A B bkt m \<longleftrightarrow> bc_keeps c A B bkt (stacks m)"

lemma stacks_simps [simp]:
  "stacks Map.empty = (\<lambda>_. [])" "stacks (m(nr \<mapsto> b)) = (stacks m)(nr := [b])" "stacks (m(nr := None)) = (stacks m)(nr := [])"
  "m nr = None \<Longrightarrow> stacks m nr = []"
  by (auto simp: stacks_def fun_eq_iff)

text \<open>A node in no chain that is given a block and made the first of its chain.\<close>

lemma hash_node:
  assumes "hashed c bkt" "bc_nodes c p \<noteq> None" "p \<noteq> 0" "\<forall>j < unat (bc_size c). p \<notin> set (bkt j)"
    and "i = unat nr mod unat (bc_size c)"
  shows "\<exists>c'. do {
           c \<leftarrow> bc_put c p (\<lambda>n. n\<lparr>bc_blocknr := nr, bc_block := Some b\<rparr>);
           i \<leftarrow> btcache_hash c nr;
           q \<leftarrow> buf_get (bc_table c) i;
           c \<leftarrow> bc_put c p (bc_hash_update (\<lambda>_. q));
           t \<leftarrow> buf_set (bc_table c) i p;
           Some (0, a, c\<lparr>bc_table := t\<rparr>)
         } = Some (0 :: int, a, c') \<and> hashed c' (bkt(i := p # bkt i))
    \<and> outside c' = (bnx c, bpv c, bc_head c, bc_used c, bc_size c, bc_fresh c, (bdata c)(p := Some (nr, Some b)))"
proof -
  obtain c1 where c1: "bc_put c p (\<lambda>n. n\<lparr>bc_blocknr := nr, bc_block := Some b\<rparr>) = Some c1" "bnx c1 = bnx c" "bpv c1 = bpv c"
    "bc_head c1 = bc_head c" "side c1 = (bc_table c, bc_used c, bc_size c, bc_fresh c, bhl c, (bdata c)(p := Some (nr, Some b)))"
    using put_data [OF assms(2)] by blast
  have s1: "bc_table c1 = bc_table c" "bc_size c1 = bc_size c" "bhl c1 = bhl c" "bdata c1 = (bdata c)(p := Some (nr, Some b))"
    "bc_used c1 = bc_used c" "bc_fresh c1 = bc_fresh c"
    using c1(5) by (simp_all add: side_def)
  note i = hash_index [OF assms(1), of nr, folded assms(5)]
  note ch = hashed_chain [OF assms(1) i(2)]
  have h: "btcache_hash c1 nr = Some i" using i(1) s1(2) by (auto simp: btcache_hash_def split: if_splits)
  have "bdata c1 p \<noteq> None" using s1(4) by simp
  then have "bc_nodes c1 p \<noteq> None" using bdata_dom(1) by blast
  from put_hash [OF this, of "bc_table c ! i"] obtain c2 where c2: "bc_put c1 p (bc_hash_update (\<lambda>_. bc_table c ! i)) = Some c2"
    "bhl c2 = (bhl c)(p := Some (bc_table c ! i))" "bc_table c2 = bc_table c" "outside c2 = outside c1"
    using s1 by auto
  let ?c = "c2\<lparr>bc_table := (bc_table c)[i := p]\<rparr>"
  have o3: "outside ?c = (bnx c, bpv c, bc_head c, bc_used c, bc_size c, bc_fresh c, (bdata c)(p := Some (nr, Some b)))"
    using c2(4) c1(2-4) s1 by (simp add: outside_def)
  have d3: "bc_size ?c = bc_size c" "bdata ?c = (bdata c)(p := Some (nr, Some b))" "bhl ?c = (bhl c)(p := Some (bc_table c ! i))"
    using o3 c2(2) by (simp_all add: outside_def)
  have "chain (bhl ?c) (bc_table ?c ! j) ((bkt(i := p # bkt i)) j) \<and> distinct ((bkt(i := p # bkt i)) j)
      \<and> (\<forall>q \<in> set ((bkt(i := p # bkt i)) j). \<exists>nr b. bdata ?c q = Some (nr, Some b) \<and> unat nr mod unat (bc_size c) = j)"
    if j: "j < unat (bc_size c)" for j
  proof -
    have old: "chain (bhl c) (bc_table c ! j) (bkt j)" "distinct (bkt j)" "p \<notin> set (bkt j)"
      "\<forall>q \<in> set (bkt j). \<exists>nr b. bdata c q = Some (nr, Some b) \<and> unat nr mod unat (bc_size c) = j"
      using assms(1,4) j unfolding hashed_def by blast+
    have "bhl ?c q = bhl c q" if "q \<in> set (bkt j)" for q using that old(3) d3(3) by auto
    then have "chain (bhl ?c) (bc_table c ! j) (bkt j)" using old(1) by (subst chain_cong [where h = "bhl c"])
    moreover have "bdata ?c q = bdata c q" if "q \<in> set (bkt j)" for q using that old(3) d3(2) by auto
    ultimately show ?thesis using old d3 assms(3,5) ch(3) by (cases "j = i") simp_all
  qed
  then have "hashed ?c (bkt(i := p # bkt i))" using assms(1) d3(1) by (simp add: hashed_def)
  then show ?thesis using c1(1) h s1(1) ch(3) c2(1,3) o3 by (auto simp: buf_simps)
qed

lemma blocks_of_simps:
  "blocks_of c nr [] = []"
  "blocks_of c nr (q # qs) = (if under c nr q then block_of c q # blocks_of c nr qs else blocks_of c nr qs)"
  "blocks_of c nr (qs @ rs) = blocks_of c nr qs @ blocks_of c nr rs"
  by (simp_all add: blocks_of_def)

lemma blocks_of_cong:
  assumes "\<And>q. q \<in> set qs \<Longrightarrow> bdata c' q = bdata c q"
  shows "blocks_of c' nr qs = blocks_of c nr qs"
  using assms by (induction qs) (auto simp: blocks_of_simps under_def block_of_def)

lemma blocks_of_none: "\<forall>q \<in> set qs. \<not> under c nr q \<Longrightarrow> blocks_of c nr qs = []"
  by (simp add: blocks_of_def)

lemma blocks_of_subseq: "subseq qs rs \<Longrightarrow> subseq (blocks_of c nr qs) (blocks_of c nr rs)"
  by (simp add: blocks_of_def subseq_map)

text \<open>In chains that are what they were, or less.\<close>

lemma known_keeps:
  assumes "known c bkt M" "bc_size c' = bc_size c" "\<And>j. j < unat (bc_size c) \<Longrightarrow> subseq (bkt' j) (bkt j)"
    and "\<And>j q. \<lbrakk>j < unat (bc_size c); q \<in> set (bkt' j)\<rbrakk> \<Longrightarrow> bdata c' q = bdata c q"
  shows "known c' bkt' M"
  unfolding known_def assms(2)
proof (intro allI impI)
  fix j nr assume j: "j < unat (bc_size c)"
  have "blocks_of c' nr (bkt' j) = blocks_of c nr (bkt' j)" using assms(4) [OF j] by (rule blocks_of_cong)
  moreover have "subseq (blocks_of c nr (bkt j)) (M nr)" using assms(1) j by (simp add: known_def)
  ultimately show "subseq (blocks_of c' nr (bkt' j)) (M nr)"
    using blocks_of_subseq [OF assms(3) [OF j]] by (metis subseq_order.trans)
qed

lemma other_bucket:
  assumes "hashed c bkt" "j < unat (bc_size c)" "j \<noteq> unat nr mod unat (bc_size c)"
  shows "\<forall>q \<in> set (bkt j). \<not> under c nr q"
  using hashed_bucket(1) [OF assms(1) _ assms(2)] assms(3) unfolding under_def by blast

text \<open>What is known of a number is what its bucket knows.\<close>

lemma known_change:
  assumes "known c bkt M" "hashed c bkt" "subseq (blocks_of c nr (bkt (unat nr mod unat (bc_size c)))) bs"
  shows "known c bkt (M(nr := bs))"
  unfolding known_def
proof (intro allI impI)
  fix j nr' assume j: "j < unat (bc_size c)"
  show "subseq (blocks_of c nr' (bkt j)) ((M(nr := bs)) nr')"
  proof (cases "nr' = nr \<and> j \<noteq> unat nr mod unat (bc_size c)")
    case True
    then show ?thesis using other_bucket [OF assms(2) j, of nr] by (simp add: blocks_of_none)
  next
    case False
    then show ?thesis using assms(1,3) j by (auto simp: known_def)
  qed
qed

lemma vacant_unchained:
  assumes "hashed c bkt" "vacant c p" "j < unat (bc_size c)"
  shows "p \<notin> set (bkt j)"
  using hashed_bucket(2) [OF assms(1) _ assms(3)] assms(2) unfolding vacant_def by blast

lemma inv_parts:
  assumes "bc_keeps c A B bkt M"
  shows "listed c (A @ B)" "hashed c bkt" "known c bkt M" "unat (bc_used c) = length (A @ B)"
    "length (A @ B) \<le> unat (bc_size c)" "\<forall>p \<in> set A. holding c p" "\<forall>p \<in> set B. vacant c p"
  using assms by (simp_all add: bc_keeps_def)

text \<open>The node that \<open>__btcache_add\<close> will use: the last one, without its block, or a new one.\<close>

definition ready :: "btcache \<Rightarrow> nat \<Rightarrow> nat list \<Rightarrow> nat list \<Rightarrow> (nat \<Rightarrow> nat list) \<Rightarrow> (u64 \<Rightarrow> u8 list list) \<Rightarrow> bool" where
  "ready c p A B bkt M \<longleftrightarrow> listed c (p # A @ B) \<and> hashed c bkt \<and> known c bkt M
     \<and> (\<forall>j < unat (bc_size c). p \<notin> set (bkt j)) \<and> unat (bc_used c) = length (p # A @ B)
     \<and> length (p # A @ B) \<le> unat (bc_size c) \<and> (\<forall>q \<in> set A. holding c q) \<and> (\<forall>q \<in> set B. vacant c q)"

definition worth :: "alk \<Rightarrow> nat list \<Rightarrow> nat list \<Rightarrow> int" where
  "worth a A B = alk_live a - int (length A) - int (length (A @ B))"

lemma reuse_vacant:
  assumes "bc_keeps c A (B @ [t]) bkt M"
  shows "ready (c\<lparr>bc_head := t\<rparr>) t A B bkt M" "vacant c t"
proof -
  note i = inv_parts [OF assms]
  show v: "vacant c t" using i(7) by simp
  have "listed (c\<lparr>bc_head := t\<rparr>) (t # A @ B)" using listed_back [OF i(1)] by (simp add: butlast_append)
  moreover have "hashed (c\<lparr>bc_head := t\<rparr>) bkt" using i(2) by (simp add: hashed_def)
  moreover have "known (c\<lparr>bc_head := t\<rparr>) bkt M" using known_keeps [OF i(3), of _ bkt] by (simp add: bdata_def)
  moreover have "\<forall>j < unat (bc_size c). t \<notin> set (bkt j)" using vacant_unchained [OF i(2) v] by blast
  ultimately show "ready (c\<lparr>bc_head := t\<rparr>) t A B bkt M"
    using i(4-7) by (simp add: ready_def holding_def vacant_def)
qed

lemma subseq_remove1: "subseq (remove1 x xs) xs"
  by (induction xs) auto

lemma subseq_of_remove1: "subseq ys (remove1 x xs) \<Longrightarrow> subseq ys xs"
  using subseq_remove1 [of x xs] by (rule subseq_order.trans [rotated])

lemma reuse_held:
  assumes "bc_keeps c (A @ [t]) [] bkt M"
  shows "\<exists>c' bkt'. btcache_unhash (c\<lparr>bc_head := t\<rparr>) t = Some c' \<and> ready c' t A [] bkt' M \<and> bc_size c' = bc_size c" "holding c t"
proof -
  note i = inv_parts [OF assms]
  show h: "holding c t" using i(6) by simp
  then obtain nr b where t: "bdata (c\<lparr>bc_head := t\<rparr>) t = Some (nr, Some b)" by (auto simp: holding_def)
  have l: "listed (c\<lparr>bc_head := t\<rparr>) (t # A)" using listed_back [OF i(1)] by simp
  have hs: "hashed (c\<lparr>bc_head := t\<rparr>) bkt" using i(2) by (simp add: hashed_def)
  obtain c' bkt' where c': "btcache_unhash (c\<lparr>bc_head := t\<rparr>) t = Some c'" "hashed c' bkt'"
    "outside c' = outside (c\<lparr>bc_head := t\<rparr>)" "\<forall>j < unat (bc_size c). subseq (bkt' j) (remove1 t (bkt j))"
    using unhash_effect [OF hs l t] by auto
  have o': "bc_size c' = bc_size c" "bdata c' = bdata c" "bc_used c' = bc_used c" using c'(3) by (simp_all add: outside_def)
  have "known c' bkt' M"
    by (rule known_keeps [OF i(3) o'(1)]) (use c'(4) o'(2) in \<open>auto intro: subseq_of_remove1\<close>)
  moreover have "t \<notin> set (bkt' j)" if "j < unat (bc_size c)" for j
    using subseq_parts(1) [of "bkt' j" "remove1 t (bkt j)"] c'(4) that hashed_chain(2) [OF i(2) that] by auto
  moreover have "listed c' (t # A)" using l outside_listed [OF c'(3)] by simp
  ultimately have "ready c' t A [] bkt' M" using c'(2) i(4-6) o' by (auto simp: ready_def holding_def)
  then show "\<exists>c' bkt'. btcache_unhash (c\<lparr>bc_head := t\<rparr>) t = Some c' \<and> ready c' t A [] bkt' M \<and> bc_size c' = bc_size c"
    using c'(1) o'(1) by blast
qed

lemma room_new:
  assumes "bc_keeps c A B bkt M" "never_refuses a" "bc_used c < bc_size c"
  shows "\<exists>a' c' p. btcache_add_node a c = Some (p, a', c') \<and> ready c' p A B bkt M \<and> never_refuses a' \<and> alk_live a' = alk_live a + 1
    \<and> bc_size c' = bc_size c"
proof -
  note i = inv_parts [OF assms(1)]
  let ?p = "bc_fresh c"
  have f: "0 < ?p" "?p \<notin> set (A @ B)" using i(1) listed_ends(3) [OF i(1)] by (auto simp: listed_def)
  obtain a' c' where c': "btcache_add_node a c = Some (?p, a', c')" "listed c' (?p # A @ B)" "never_refuses a'"
    "alk_live a' = alk_live a + 1"
    "side c' = (bc_table c, bc_used c + 1, bc_size c, ?p + 1, (bhl c)(?p := Some 0), (bdata c)(?p := Some (0, None)))"
    using add_node_effect [OF assms(2) _ f(1) refl] i(1) by blast
  have s: "bc_table c' = bc_table c" "bc_used c' = bc_used c + 1" "bc_size c' = bc_size c" "bhl c' = (bhl c)(?p := Some 0)"
    "bdata c' = (bdata c)(?p := Some (0, None))"
    using c'(5) by (simp_all add: side_def)
  have out: "?p \<notin> set (bkt j)" if "j < unat (bc_size c)" for j using hashed_length(2) [OF i(2,1) that] f(2) by blast
  have "hashed c' bkt"
    unfolding hashed_def s(1,3)
  proof (intro conjI allI impI ballI)
    fix j assume j: "j < unat (bc_size c)"
    have "bhl c' q = bhl c q" if "q \<in> set (bkt j)" for q using that out [OF j] s(4) by auto
    then show "chain (bhl c') (bc_table c ! j) (bkt j)"
      using hashed_chain(1) [OF i(2) j] by (subst chain_cong [where h = "bhl c"])
    show "distinct (bkt j)" by (rule hashed_chain(2) [OF i(2) j])
    fix q assume q: "q \<in> set (bkt j)"
    then have "bdata c' q = bdata c q" using out [OF j] s(5) by auto
    then show "\<exists>nr b. bdata c' q = Some (nr, Some b) \<and> unat nr mod unat (bc_size c) = j"
      using i(2) j q unfolding hashed_def by auto
  qed (use i(2) in \<open>auto simp: hashed_def\<close>)
  moreover have "known c' bkt M" by (rule known_keeps [OF i(3) s(3)]) (use out s(5) in auto)
  moreover have "unat (bc_used c') = Suc (length (A @ B))"
  proof -
    have "unat (bc_used c) < unat (bc_size c)" using assms(3) by (simp add: word_less_nat_alt)
    moreover have "unat (bc_size c) < 2 ^ 32" by (rule order_less_le_trans [OF unsigned_less]) simp
    ultimately have "unat (bc_used c) + 1 < 2 ^ 32" by simp
    then have "unat (bc_used c + 1) = unat (bc_used c) + 1" by (simp add: unat_word_ariths)
    then show ?thesis using i(4) s(2) by simp
  qed
  moreover have "Suc (length (A @ B)) \<le> unat (bc_size c)" using i(4) assms(3) by (simp add: word_less_nat_alt)
  moreover have "\<forall>q \<in> set A. holding c' q" "\<forall>q \<in> set B. vacant c' q" using i(6,7) f(2) s(5) by (auto simp: holding_def vacant_def)
  ultimately have "ready c' ?p A B bkt M" using c'(2) out s(3) by (simp add: ready_def)
  then show ?thesis using c' s(3) by blast
qed

subsection \<open>The operations\<close>

text \<open>The node \<open>__btcache_add\<close> takes, whichever way.\<close>

lemma add_room:
  assumes "bc_keeps c A B bkt M" "never_refuses a"
  shows "\<exists>p a' c' A' B' bkt'. do {
       h \<leftarrow> bc_nodes c (bc_head c);
       let node = bc_prev h;
       (if bc_block h = None \<or> bc_size c \<le> bc_used c
          then do {
            let c = c\<lparr>bc_head := node\<rparr>;
            n \<leftarrow> bc_nodes c node;
            if bc_block n \<noteq> None then do { c \<leftarrow> btcache_unhash c node; Some (node, mmfree a, c) } else Some (node, a, c)
          }
          else btcache_add_node a c)
     } = Some (p, a', c') \<and> ready c' p A' B' bkt' M \<and> never_refuses a' \<and> bc_size c' = bc_size c
      \<and> alk_live a' - int (length A') - int (length (p # A' @ B')) = worth a A B"
  (is "\<exists>p a' c' A' B' bkt'. ?S = Some (p, a', c') \<and> _")
proof -
  note i = inv_parts [OF assms(1)]
  note e = listed_ends [OF i(1)]
  obtain h where h: "bc_nodes c (bc_head c) = Some h" using e(7) i(1) by (auto simp: listed_def)
  have t: "bc_prev h = last (A @ B)" using h e(5) i(1) by (simp add: bpv_def listed_def)
  obtain n where n: "bc_nodes c (last (A @ B)) = Some n" using e(8) by auto
  show ?thesis
  proof (cases "bc_block h = None \<or> bc_size c \<le> bc_used c")
    case False
    then obtain a' c' p where "btcache_add_node a c = Some (p, a', c')" "ready c' p A B bkt M" "never_refuses a'"
      "alk_live a' = alk_live a + 1" "bc_size c' = bc_size c"
      using room_new [OF assms] by (metis linorder_not_le)
    moreover from this have "?S = Some (p, a', c')" using h False by (auto simp: Let_def)
    moreover have "alk_live a' - int (length A) - int (length (p # A @ B)) = worth a A B"
      using \<open>alk_live a' = alk_live a + 1\<close> by (simp add: worth_def)
    ultimately show ?thesis by blast
  next
    case reuse: True
    show ?thesis
    proof (cases B rule: rev_cases)
      case Nil
      then obtain A1 t1 where A: "A = A1 @ [t1]" using e(1) by (cases A rule: rev_cases) auto
      have inv: "bc_keeps c (A1 @ [t1]) [] bkt M" using assms(1) Nil A by simp
      obtain c' bkt' where c': "btcache_unhash (c\<lparr>bc_head := t1\<rparr>) t1 = Some c'" "ready c' t1 A1 [] bkt' M" "bc_size c' = bc_size c"
        using reuse_held(1) [OF inv] by blast
      have "bc_block n \<noteq> None" using reuse_held(2) [OF inv] n Nil A by (auto simp: holding_def bdata_def)
      then have "?S = Some (t1, mmfree a, c')" using h t n reuse c'(1) Nil A by (simp add: Let_def)
      moreover have "alk_live (mmfree a) - int (length A1) - int (length (t1 # A1 @ [])) = worth a A B"
        using Nil A by (simp add: worth_def)
      moreover have "never_refuses (mmfree a)" using assms(2) by simp
      ultimately show ?thesis using c'(2,3) by blast
    next
      case (snoc B1 t1)
      have inv: "bc_keeps c A (B1 @ [t1]) bkt M" using assms(1) snoc by simp
      have "bc_block n = None" using reuse_vacant(2) [OF inv] n snoc by (auto simp: vacant_def bdata_def)
      then have "?S = Some (t1, a, c\<lparr>bc_head := t1\<rparr>)" using h t n reuse snoc by (simp add: Let_def)
      moreover have "alk_live a - int (length A) - int (length (t1 # A @ B1)) = worth a A B"
        using snoc by (simp add: worth_def)
      moreover have "bc_size (c\<lparr>bc_head := t1\<rparr>) = bc_size c" by simp
      ultimately show ?thesis using reuse_vacant(1) [OF inv] assms(2) by blast
    qed
  qed
qed

lemma add_keeps:
  assumes "bc_keeps c A B bkt M" "never_refuses a"
  shows "\<exists>a' c' A' B' bkt'. btcache_add a c nr (Some b) = Some (0, a', c') \<and> bc_keeps c' A' B' bkt' (M(nr := b # M nr))
     \<and> never_refuses a' \<and> worth a' A' B' = worth a A B - 1"
proof -
  from add_room [OF assms] obtain p a' c1 A1 B1 bkt1 where r: "do {
       h \<leftarrow> bc_nodes c (bc_head c);
       let node = bc_prev h;
       (if bc_block h = None \<or> bc_size c \<le> bc_used c
          then do {
            let c = c\<lparr>bc_head := node\<rparr>;
            n \<leftarrow> bc_nodes c node;
            if bc_block n \<noteq> None then do { c \<leftarrow> btcache_unhash c node; Some (node, mmfree a, c) } else Some (node, a, c)
          }
          else btcache_add_node a c)
     } = Some (p, a', c1)" and rd: "ready c1 p A1 B1 bkt1 M" and a': "never_refuses a'" and sz: "bc_size c1 = bc_size c"
    and w: "alk_live a' - int (length A1) - int (length (p # A1 @ B1)) = worth a A B"
    by blast
  have R: "listed c1 (p # A1 @ B1)" "hashed c1 bkt1" "known c1 bkt1 M" "\<forall>j < unat (bc_size c1). p \<notin> set (bkt1 j)"
    "unat (bc_used c1) = length (p # A1 @ B1)" "length (p # A1 @ B1) \<le> unat (bc_size c1)"
    "\<forall>q \<in> set A1. holding c1 q" "\<forall>q \<in> set B1. vacant c1 q"
    using rd by (simp_all add: ready_def)
  have p: "bc_nodes c1 p \<noteq> None" "p \<noteq> 0" "p \<notin> set (A1 @ B1)" using R(1) listed_ends(2) [OF R(1)] by (auto simp: listed_def)
  let ?i = "unat nr mod unat (bc_size c1)"
  from hash_node [OF R(2) p(1,2) R(4) refl, where nr = nr and b = b and a = a'] obtain c' where c': "do {
           c \<leftarrow> bc_put c1 p (\<lambda>n. n\<lparr>bc_blocknr := nr, bc_block := Some b\<rparr>);
           i \<leftarrow> btcache_hash c nr;
           q \<leftarrow> buf_get (bc_table c) i;
           c \<leftarrow> bc_put c p (bc_hash_update (\<lambda>_. q));
           t \<leftarrow> buf_set (bc_table c) i p;
           Some (0, a', c\<lparr>bc_table := t\<rparr>)
         } = Some (0 :: int, a', c')" and h': "hashed c' (bkt1(?i := p # bkt1 ?i))"
    and o': "outside c' = (bnx c1, bpv c1, bc_head c1, bc_used c1, bc_size c1, bc_fresh c1, (bdata c1)(p := Some (nr, Some b)))"
    by blast
  have s': "bc_size c' = bc_size c1" "bc_used c' = bc_used c1" "bdata c' = (bdata c1)(p := Some (nr, Some b))"
    using o' by (simp_all add: outside_def)
  have "listed c' (p # A1 @ B1)"
  proof -
    have "bc_nodes c' q \<noteq> None \<longleftrightarrow> bc_nodes c1 q \<noteq> None" for q
      using bdata_dom(1) [of c' q] bdata_dom(1) [of c1 q] p(1) s'(3) by (cases "q = p") auto
    then show ?thesis using R(1) o' by (simp add: listed_def outside_def)
  qed
  moreover have "known c' (bkt1(?i := p # bkt1 ?i)) (M(nr := b # M nr))"
    unfolding known_def s'(1)
  proof (intro allI impI)
    fix j nr' assume j: "j < unat (bc_size c1)"
    have "bdata c' q = bdata c1 q" if "q \<in> set (bkt1 j)" for q using that R(4) j s'(3) by auto
    then have "subseq (blocks_of c' nr' (bkt1 j)) (M nr')" using R(3) j by (subst blocks_of_cong [where c = c1]) (auto simp: known_def)
    moreover have "under c' nr' p \<longleftrightarrow> nr' = nr" "block_of c' p = b" using s'(3) by (auto simp: under_def block_of_def)
    ultimately show "subseq (blocks_of c' nr' ((bkt1(?i := p # bkt1 ?i)) j)) ((M(nr := b # M nr)) nr')"
      by (auto simp: blocks_of_simps)
  qed
  moreover have "\<forall>q \<in> set (p # A1). holding c' q" "\<forall>q \<in> set B1. vacant c' q"
    using R(7,8) p(3) s'(3) by (auto simp: holding_def vacant_def)
  ultimately have "bc_keeps c' (p # A1) B1 (bkt1(?i := p # bkt1 ?i)) (M(nr := b # M nr))"
    using R(5,6) h' s' by (simp add: bc_keeps_def)
  moreover have "btcache_add a c nr (Some b) = Some (0, a', c')"
  proof (cases "bc_nodes c (bc_head c)")
    case None
    then show ?thesis using r by simp
  next
    case (Some h)
    note x = r [unfolded Some Let_def Option.bind.bind_lunit]
    show ?thesis
      unfolding btcache_add_def Some Let_def Option.bind.bind_lunit x prod.case if_not_P [OF p(2)] by (rule c')
  qed
  moreover have "worth a' (p # A1) B1 = worth a A B - 1" using w by (simp add: worth_def)
  ultimately show ?thesis using a' by blast
qed

lemma add_correct:
  assumes "bc_inv c A B bkt m" "never_refuses a" "m nr = None"
  shows "\<exists>a' c' A' B' bkt'. btcache_add a c nr (Some b) = Some (0, a', c') \<and> bc_inv c' A' B' bkt' (m(nr \<mapsto> b))
     \<and> never_refuses a' \<and> worth a' A' B' = worth a A B - 1"
  using add_keeps [OF assms(1) [unfolded bc_inv_def] assms(2), of nr b] assms(3) by (simp add: bc_inv_def)

text \<open>A node that is the first of its number in its chain gives up its block and goes to the end.\<close>

lemma eject_effect:
  assumes "bc_keeps c (xs @ p # ys) B bkt M" "bdata c p = Some (nr, Some b)"
    and "bkt (unat nr mod unat (bc_size c)) = pre @ p # post" "\<forall>q \<in> set pre. \<not> under c nr q"
  shows "\<exists>c' bkt' us vs. btcache_eject c p = Some c' \<and> M nr = us @ b # vs \<and> bc_keeps c' (xs @ ys) (B @ [p]) bkt' (M(nr := vs))"
proof -
  let ?i = "unat nr mod unat (bc_size c)"
  note i = inv_parts [OF assms(1)]
  note hx = hash_index [OF i(2), of nr]
  have not_in_pre: "p \<notin> set pre" using assms(2,4) by (auto simp: under_def)
  have "under c nr p" "block_of c p = b" using assms(2) by (auto simp: under_def block_of_def)
  then have "blocks_of c nr (bkt ?i) = b # blocks_of c nr post" using assms(3,4) by (simp add: blocks_of_simps blocks_of_none)
  then have "subseq (b # blocks_of c nr post) (M nr)" using i(3) hx(2) unfolding known_def by metis
  from list_emb_ConsD [OF this] obtain us vs where M: "M nr = us @ b # vs" "subseq (blocks_of c nr post) vs" by blast
  obtain c1 bkt1 where c1: "btcache_unhash c p = Some c1" "hashed c1 bkt1" "outside c1 = outside c"
    "\<forall>j < unat (bc_size c). subseq (bkt1 j) (remove1 p (bkt j))"
    using unhash_effect [OF i(2,1) assms(2)] by blast
  have s1: "bc_size c1 = bc_size c" "bdata c1 = bdata c" "bc_used c1 = bc_used c" "bc_head c1 = bc_head c"
    using c1(3) by (simp_all add: outside_def)
  have l1: "listed c1 (xs @ p # ys @ B)" using i(1) outside_listed [OF c1(3)] by simp
  note e = listed_ends [OF l1]
  obtain h where h: "bc_nodes c1 (bc_head c1) = Some h" using e(7) l1 by (auto simp: listed_def)
  have t: "bc_prev h = last (xs @ p # ys @ B)" using h e(5) l1 by (simp add: bpv_def listed_def)
  obtain n where n: "bc_nodes c1 p = Some n" using s1(2) assms(2) bdata_dom(1) [of c1 p] by auto
  let ?mv = "if bc_prev h \<noteq> p
             then do {
               n \<leftarrow> bc_nodes c1 p;
               c \<leftarrow> bc_put c1 (bc_prev n) (bc_next_update (\<lambda>_. bc_next n));
               c \<leftarrow> bc_put c (bc_next n) (bc_prev_update (\<lambda>_. bc_prev n));
               let c = (if bc_head c = p then c\<lparr>bc_head := bc_next n\<rparr> else c);
               h \<leftarrow> bc_nodes c (bc_head c);
               let tail = bc_prev h;
               c \<leftarrow> bc_put c tail (bc_next_update (\<lambda>_. p));
               c \<leftarrow> bc_put c p (\<lambda>n. n\<lparr>bc_next := bc_head c, bc_prev := tail\<rparr>);
               bc_put c (bc_head c) (bc_prev_update (\<lambda>_. p))
             }
             else Some c1"
  have "\<exists>c2. ?mv = Some c2 \<and> listed c2 (xs @ ys @ B @ [p]) \<and> side c2 = side c1"
  proof (cases "ys @ B = []")
    case True
    then show ?thesis using l1 t by simp
  next
    case False
    have "last (ys @ B) \<in> set (ys @ B)" using last_in_set [OF False] .
    then have "bc_prev h \<noteq> p" using t e(2) False by (metis distinct.simps(2) distinct_append last_ConsR last_appendR list.distinct(1))
    then show ?thesis using moved_to_end [OF l1 False n] n by simp
  qed
  then obtain c2 where c2: "?mv = Some c2" "listed c2 (xs @ ys @ B @ [p])" "side c2 = side c1" by blast
  have s2: "bc_size c2 = bc_size c" "bdata c2 = bdata c" "bc_used c2 = bc_used c" "bhl c2 = bhl c1" "bc_table c2 = bc_table c1"
    using c2(3) s1 by (simp_all add: side_def)
  have h2: "hashed c2 bkt1" using c1(2) s1 s2 by (simp add: hashed_def)
  have "bdata c2 p = Some (nr, Some b)" using s2(2) assms(2) by simp
  from put_block [OF this, of None] obtain c3 where c3: "bc_put c2 p (bc_block_update (\<lambda>_. None)) = Some c3" "bnx c3 = bnx c2"
    "bpv c3 = bpv c2" "bc_head c3 = bc_head c2"
    "side c3 = (bc_table c2, bc_used c2, bc_size c2, bc_fresh c2, bhl c2, (bdata c2)(p := Some (nr, None)))"
    by blast
  have s3: "bc_size c3 = bc_size c" "bc_used c3 = bc_used c" "bhl c3 = bhl c2" "bc_table c3 = bc_table c2" "bc_fresh c3 = bc_fresh c2"
    "bdata c3 = (bdata c)(p := Some (nr, None))"
    using c3(5) s2 by (simp_all add: side_def)
  have out: "p \<notin> set (bkt1 j)" if "j < unat (bc_size c)" for j
    using subseq_parts(1) [of "bkt1 j" "remove1 p (bkt j)"] c1(4) that hashed_chain(2) [OF i(2) that] by auto
  have keep: "bdata c3 q = bdata c q" if "j < unat (bc_size c)" "q \<in> set (bkt1 j)" for j q using out that s3(6) by auto
  have "listed c3 (xs @ ys @ B @ [p])"
  proof -
    have "bc_nodes c3 q \<noteq> None \<longleftrightarrow> bc_nodes c2 q \<noteq> None" for q
      using bdata_dom(1) [of c3 q] bdata_dom(1) [of c2 q] s2(2) s3(6) assms(2) by (cases "q = p") auto
    then show ?thesis using c2(2) c3(2-4) s3(5) by (simp add: listed_def)
  qed
  moreover have "hashed c3 bkt1"
    using h2 keep s2 s3(1,3,4) unfolding hashed_def by simp
  moreover have "known c3 bkt1 (M(nr := vs))"
  proof -
    have k: "known c3 bkt1 M"
      by (rule known_keeps [OF i(3) s3(1)]) (use c1(4) keep in \<open>auto intro: subseq_of_remove1\<close>)
    have "subseq (bkt1 ?i) (pre @ post)"
      using c1(4) hx(2) assms(3) hashed_chain(2) [OF i(2) hx(2)] by (metis distinct_append not_in_pre remove1_append remove1.simps(2))
    then have "subseq (blocks_of c nr (bkt1 ?i)) (blocks_of c nr post)"
      using blocks_of_subseq [of "bkt1 ?i" "pre @ post" c nr] assms(4) by (simp add: blocks_of_simps blocks_of_none)
    moreover have "blocks_of c3 nr (bkt1 ?i) = blocks_of c nr (bkt1 ?i)" using keep [OF hx(2)] by (rule blocks_of_cong)
    ultimately have "subseq (blocks_of c3 nr (bkt1 ?i)) vs" using M(2) by (metis subseq_order.trans)
    moreover have "hashed c3 bkt1" by (rule \<open>hashed c3 bkt1\<close>)
    ultimately show ?thesis using known_change [OF k] s3(1) by simp
  qed
  moreover have "\<forall>q \<in> set (xs @ ys). holding c3 q" "\<forall>q \<in> set (B @ [p]). vacant c3 q"
    using i(6,7) s3(6) listed_ends(2) [OF i(1)] by (auto simp: holding_def vacant_def)
  ultimately have "bc_keeps c3 (xs @ ys) (B @ [p]) bkt1 (M(nr := vs))"
    using i(4,5) s3(1,2) by (simp add: bc_keeps_def)
  moreover have "btcache_eject c p = Some c3"
    unfolding btcache_eject_def c1(1) Option.bind.bind_lunit h c2(1) by (rule c3(1))
  ultimately show ?thesis using M(1) by blast
qed

lemma lookup_walk_effect:
  assumes "chain (bhl c) p qs" "length qs < fuel"
  shows "lookup_walk fuel c nr p = Some (None, c) \<and> (\<forall>q \<in> set qs. \<not> under c nr q)
    \<or> (\<exists>pre q post ob. qs = pre @ q # post \<and> (\<forall>x \<in> set pre. \<not> under c nr x) \<and> bdata c q = Some (nr, ob)
         \<and> lookup_walk fuel c nr p = do { c \<leftarrow> btcache_eject c q; Some (ob, c) })"
  using assms
proof (induction qs arbitrary: p fuel)
  case Nil
  then show ?case by (cases fuel) auto
next
  case (Cons q qs)
  obtain f n where f: "fuel = Suc f" and n: "p = q" "q \<noteq> 0" "bc_nodes c q = Some n" "chain (bhl c) (bc_hash n) qs"
    using Cons.prems by (cases fuel) (auto simp: bhl_Some)
  have d: "bdata c q = Some (bc_blocknr n, bc_block n)" using n(3) by (simp add: bdata_def)
  show ?case
  proof (cases "bc_blocknr n = nr")
    case True
    then have "\<exists>pre q' post ob. q # qs = pre @ q' # post \<and> (\<forall>x \<in> set pre. \<not> under c nr x) \<and> bdata c q' = Some (nr, ob)
         \<and> lookup_walk fuel c nr p = do { c \<leftarrow> btcache_eject c q'; Some (ob, c) }"
      using f n d by (intro exI [of _ "[]"] exI [of _ q] exI [of _ qs] exI [of _ "bc_block n"]) simp
    then show ?thesis by blast
  next
    case False
    have "length qs < f" "\<not> under c nr q" using Cons.prems(2) f False d by (auto simp: under_def)
    have w: "lookup_walk fuel c nr p = lookup_walk f c nr (bc_hash n)" using f n False by simp
    from Cons.IH [OF n(4) \<open>length qs < f\<close>] show ?thesis
    proof (elim disjE exE conjE)
      fix pre q' post ob assume "qs = pre @ q' # post" "\<forall>x \<in> set pre. \<not> under c nr x" "bdata c q' = Some (nr, ob)"
        "lookup_walk f c nr (bc_hash n) = do { c \<leftarrow> btcache_eject c q'; Some (ob, c) }"
      then show ?thesis
        using w \<open>\<not> under c nr q\<close>
        by (intro disjI2 exI [of _ "q # pre"] exI [of _ q'] exI [of _ post] exI [of _ ob]) simp
    qed (use w \<open>\<not> under c nr q\<close> in simp)
  qed
qed

text \<open>A lookup: nothing, and nothing is in the cache under the number; or one of the blocks under it, and those in the
  cache after it are older.\<close>

lemma lookup_keeps:
  assumes "bc_keeps c A B bkt M"
  shows "\<exists>r c' A' B' bkt' vs. btcache_lookup c nr = Some (r, c') \<and> bc_keeps c' A' B' bkt' (M(nr := vs))
    \<and> (case r of None \<Rightarrow> vs = [] | Some b \<Rightarrow> \<exists>us. M nr = us @ b # vs)
    \<and> worth a A' B' = worth a A B + (if r = None then 0 else 1)"
proof -
  note i = inv_parts [OF assms]
  let ?i = "unat nr mod unat (bc_size c)"
  note ix = hash_index [OF i(2), of nr]
  note ch = hashed_chain [OF i(2) ix(2)]
  have sz: "bc_size c \<noteq> 0" using i(2) by (simp add: hashed_def)
  have l: "btcache_lookup c nr = lookup_walk (Suc (bc_fresh c)) c nr (bc_table c ! ?i)"
    using sz ix(1) ch(3) by (simp add: btcache_lookup_def buf_simps)
  from lookup_walk_effect [OF ch(1) hashed_length(1) [OF i(2,1) ix(2)], of nr] show ?thesis
  proof (elim disjE exE conjE)
    assume w: "lookup_walk (Suc (bc_fresh c)) c nr (bc_table c ! ?i) = Some (None, c)" "\<forall>q \<in> set (bkt ?i). \<not> under c nr q"
    have "known c bkt (M(nr := []))" by (rule known_change [OF i(3,2)]) (simp add: blocks_of_none [OF w(2)])
    then have "bc_keeps c A B bkt (M(nr := []))" using assms by (simp add: bc_keeps_def)
    then show ?thesis using l w(1) by fastforce
  next
    fix pre q post ob
    assume q: "bkt ?i = pre @ q # post" "\<forall>x \<in> set pre. \<not> under c nr x" "bdata c q = Some (nr, ob)"
      "lookup_walk (Suc (bc_fresh c)) c nr (bc_table c ! ?i) = do { c \<leftarrow> btcache_eject c q; Some (ob, c) }"
    have s: "q \<in> set (bkt ?i)" using q(1) by simp
    obtain b where ob: "ob = Some b" using hashed_bucket(2) [OF i(2) q(3) ix(2) s] by auto
    have "q \<in> set (A @ B)" "\<not> vacant c q"
      using hashed_length(2) [OF i(2,1) ix(2)] s q(3) ob by (auto simp: vacant_def)
    then obtain xs ys where A: "A = xs @ q # ys" using i(7) by (metis Un_iff set_append split_list)
    obtain c' bkt' us vs where c': "btcache_eject c q = Some c'" "M nr = us @ b # vs" "bc_keeps c' (xs @ ys) (B @ [q]) bkt' (M(nr := vs))"
      using eject_effect [of c xs q ys B bkt M nr b pre post] assms A q(1-3) ob by auto
    have "btcache_lookup c nr = Some (Some b, c')" using l q(4) ob c'(1) by simp
    moreover have "worth a (xs @ ys) (B @ [q]) = worth a A B + (if Some b = None then 0 else 1)" using A by (simp add: worth_def)
    moreover have "case Some b of None \<Rightarrow> vs = [] | Some b \<Rightarrow> \<exists>us. M nr = us @ b # vs" using c'(2) by auto
    ultimately show ?thesis using c'(3) by blast
  qed
qed

lemma lookup_correct:
  assumes "bc_inv c A B bkt m"
  shows "\<exists>r c' A' B' bkt'. btcache_lookup c nr = Some (r, c') \<and> bc_inv c' A' B' bkt' (m(nr := None)) \<and> (r = None \<or> r = m nr)
    \<and> worth a A' B' = worth a A B + (if r = None then 0 else 1)"
proof -
  obtain r c' A' B' bkt' vs where r: "btcache_lookup c nr = Some (r, c')" "bc_keeps c' A' B' bkt' ((stacks m)(nr := vs))"
    "case r of None \<Rightarrow> vs = [] | Some b \<Rightarrow> \<exists>us. stacks m nr = us @ b # vs"
    "worth a A' B' = worth a A B + (if r = None then 0 else 1)"
    using lookup_keeps [OF assms [unfolded bc_inv_def]] by blast
  then have "vs = [] \<and> (r = None \<or> r = m nr)" by (auto simp: stacks_def Cons_eq_append_conv split: option.splits)
  then have "bc_inv c' A' B' bkt' (m(nr := None))" "r = None \<or> r = m nr" using r(2) by (simp_all add: bc_inv_def)
  then show ?thesis using r(1,4) by blast
qed

lemma open_correct:
  assumes "never_refuses a" "sz \<noteq> 0" "bc_nodes c = Map.empty" "0 < bc_fresh c"
  shows "\<exists>a' c' A B bkt. btcache_open a c sz = Some (0, a', c') \<and> bc_inv c' A B bkt Map.empty \<and> never_refuses a'
    \<and> worth a' A B = alk_live a + 1"
proof -
  obtain ok a1 where a1: "mmalloc (unat sz * 8) a = (ok, a1)" by fastforce
  note ok = mmalloc_never_refuses [OF assms(1) a1]
  let ?c = "c\<lparr>bc_table := replicate (unat sz) 0, bc_head := 0, bc_size := sz, bc_used := 0\<rparr>"
  let ?p = "bc_fresh c"
  have n: "\<forall>p. bc_nodes ?c p = None" "bc_head ?c = 0" "bc_fresh ?c = ?p" using assms(3) by simp_all
  obtain a' c' where c': "btcache_add_node a1 ?c = Some (?p, a', c')" "listed c' [?p]" "never_refuses a'" "alk_live a' = alk_live a1 + 1"
    "side c' = (bc_table ?c, bc_used ?c + 1, bc_size ?c, ?p + 1, (bhl ?c)(?p := Some 0), (bdata ?c)(?p := Some (0, None)))"
    using add_node_effect [OF ok(2) disjI2, of "[]" ?c, OF _ _ n(3) [symmetric]] n assms(4) by auto
  have s: "bc_table c' = replicate (unat sz) 0" "bc_used c' = 1" "bc_size c' = sz" "bdata c' = (bdata ?c)(?p := Some (0, None))"
    using c'(5) by (simp_all add: side_def)
  have "hashed c' (\<lambda>_. [])" using s assms(2) by (simp add: hashed_def)
  moreover have "known c' (\<lambda>_. []) (\<lambda>_. [])" by (simp add: known_def blocks_of_simps)
  moreover have "vacant c' ?p" using s(4) by (simp add: vacant_def)
  moreover have "1 \<le> unat sz" using assms(2) by (simp add: Suc_le_eq unat_gt_0)
  ultimately have "bc_inv c' [] [?p] (\<lambda>_. []) Map.empty" using c'(2) s by (simp add: bc_inv_def bc_keeps_def)
  moreover have "btcache_open a c sz = Some (0, a', c')" using a1 ok(1) assms(2) c'(1) by (simp add: btcache_open_def Let_def)
  moreover have "worth a' [] [?p] = alk_live a + 1" using c'(4) mmalloc_live [OF a1] ok(1) by (simp add: worth_def)
  ultimately show ?thesis using c'(3) by blast
qed

lemma close_keeps:
  assumes "bc_keeps c A B bkt M"
  shows "\<exists>a' c'. btcache_close a c = Some (a', c') \<and> alk_live a' = worth a A B - 1"
proof -
  note i = inv_parts [OF assms]
  note e = listed_ends [OF i(1)]
  obtain q L where L: "A @ B = q # L" using e(1) by (meson neq_Nil_conv)
  have r: "arc (bnx c) (bpv c) (q # L)" "distinct (q # L)" "bnx c (last (q # L)) = Some (bc_head c)" "bc_head c = q"
    "\<forall>x \<in> set (q # L). bc_nodes c x \<noteq> None"
    using i(1) L by (auto simp: listed_def ring_def)
  have "length L < Suc (bc_fresh c)" using listed_length [OF i(1)] L by simp
  then obtain a' c' where w: "close_walk (Suc (bc_fresh c)) a c q = Some (a', c')"
    "alk_live a' = alk_live a - int (length (q # L)) - int (blocks_held c (q # L))"
    using close_walk_effect [OF r(1,2,3) _ _ r(5)] r(2,4) by fastforce
  have "blocks_held c (A @ B) = length A"
  proof -
    have "filter (\<lambda>p. map_option snd (bdata c p) \<noteq> Some None) A = A"
      by (rule filter_True) (use i(6) in \<open>auto simp: holding_def\<close>)
    moreover have "filter (\<lambda>p. map_option snd (bdata c p) \<noteq> Some None) B = []" using i(7) by (auto simp: vacant_def filter_empty_conv)
    ultimately show ?thesis by (simp add: blocks_held_def)
  qed
  moreover have "bc_size c \<noteq> 0" using i(2) by (simp add: hashed_def)
  ultimately show ?thesis using w r(4) e(9) L by (simp add: btcache_close_def worth_def)
qed

lemma close_correct:
  assumes "bc_inv c A B bkt m"
  shows "\<exists>a' c'. btcache_close a c = Some (a', c') \<and> alk_live a' = worth a A B - 1"
  using close_keeps [OF assms [unfolded bc_inv_def]] .

end
