(* ===== verification/Btree_Cache_Properties.thy ===== *)
theory Btree_Cache_Properties
  imports Btree_Cache_Correct
begin

section \<open>Properties of the block cache\<close>

text \<open>
  A client gives the cache blocks and takes them back, in any order. The reference is the blocks given under each number
  and not taken since, the newest first: the cache may have forgotten some, but has no others, and none twice. A client
  that gives a number again only after a lookup of it gets the block last given or none. One that does not can get a
  block that another has taken the place of, and the tree is such a client: the node of a block from the cache keeps
  the number it was allocated with, 0, and goes into the cache again under it (line 1285 of btree.c).
\<close>

datatype block_op = Give u64 "u8 list" | Take u64

fun block_run :: "alk \<Rightarrow> btcache \<Rightarrow> block_op list \<Rightarrow> (u8 list option list \<times> alk \<times> btcache) option" where
  "block_run a c [] = Some ([], a, c)"
| "block_run a c (Give nr b # ops) =
     do { (r, a, c) \<leftarrow> btcache_add a c nr (Some b); if r = 0 then block_run a c ops else None }"
| "block_run a c (Take nr # ops) =
     do { (r, c) \<leftarrow> btcache_lookup c nr; (rs, a, c) \<leftarrow> block_run a c ops; Some (r # rs, a, c) }"

text \<open>What is left of a stack of blocks below a block of it.\<close>

fun below_block :: "u8 list \<Rightarrow> u8 list list \<Rightarrow> u8 list list list" where
  "below_block b [] = []"
| "below_block b (x # xs) = (if x = b then xs # below_block b xs else below_block b xs)"

text \<open>The results that the blocks \<open>M\<close> allow: a lookup that finds nothing forgets the blocks under its number, one that
  finds a block takes it and forgets those above it.\<close>

fun fits :: "(u64 \<Rightarrow> u8 list list) \<Rightarrow> block_op list \<Rightarrow> u8 list option list \<Rightarrow> bool" where
  "fits M [] rs \<longleftrightarrow> rs = []"
| "fits M (Give nr b # ops) rs \<longleftrightarrow> fits (M(nr := b # M nr)) ops rs"
| "fits M (Take nr # ops) [] \<longleftrightarrow> False"
| "fits M (Take nr # ops) (None # rs) \<longleftrightarrow> fits (M(nr := [])) ops rs"
| "fits M (Take nr # ops) (Some b # rs) \<longleftrightarrow> (\<exists>bs \<in> set (below_block b (M nr)). fits (M(nr := bs)) ops rs)"

fun given :: "(u64 \<rightharpoonup> u8 list) \<Rightarrow> block_op list \<Rightarrow> u8 list option list" where
  "given m [] = []"
| "given m (Give nr b # ops) = given (m(nr \<mapsto> b)) ops"
| "given m (Take nr # ops) = m nr # given (m(nr := None)) ops"

fun in_turn :: "(u64 \<rightharpoonup> u8 list) \<Rightarrow> block_op list \<Rightarrow> bool" where
  "in_turn m [] \<longleftrightarrow> True"
| "in_turn m (Give nr b # ops) \<longleftrightarrow> m nr = None \<and> in_turn (m(nr \<mapsto> b)) ops"
| "in_turn m (Take nr # ops) \<longleftrightarrow> in_turn (m(nr := None)) ops"

fun gives :: "block_op list \<Rightarrow> nat" where
  "gives [] = 0"
| "gives (Give nr b # ops) = Suc (gives ops)"
| "gives (Take nr # ops) = gives ops"

definition agrees :: "u8 list option \<Rightarrow> u8 list option \<Rightarrow> bool" where "agrees r e \<longleftrightarrow> r = None \<or> r = e"

lemma below_block_iff: "vs \<in> set (below_block b bs) \<longleftrightarrow> (\<exists>us. bs = us @ b # vs)"
proof (induction bs)
  case (Cons x bs)
  have "(\<exists>us. x # bs = us @ b # vs) \<longleftrightarrow> (x = b \<and> bs = vs) \<or> (\<exists>us. bs = us @ b # vs)" by (auto simp: Cons_eq_append_conv)
  then show ?case using Cons.IH by auto
qed simp

lemma fits_in_turn:
  "\<lbrakk>fits (stacks m) ops rs; in_turn m ops\<rbrakk> \<Longrightarrow> list_all2 agrees rs (given m ops)"
proof (induction m ops arbitrary: rs rule: given.induct)
  case (3 m nr ops)
  obtain r rs' where rs: "rs = r # rs'" using 3(2) by (cases rs) auto
  have "fits (stacks (m(nr := None))) ops rs' \<and> agrees r (m nr)"
    using 3(2) rs stacks_def [of m nr] by (cases r; cases "m nr") (auto simp: agrees_def split: if_splits)
  then show ?case using 3(1) [of rs'] 3(3) rs by (simp add: fun_upd_def)
qed (auto split: option.splits)

lemma block_run_keeps:
  assumes "bc_keeps c A B bkt M" "never_refuses a"
  shows "\<exists>rs a' c' A' B' bkt' M'. block_run a c ops = Some (rs, a', c') \<and> fits M ops rs \<and> bc_keeps c' A' B' bkt' M'
    \<and> worth a' A' B' = worth a A B - int (gives ops) + int (length (filter (\<lambda>r. r \<noteq> None) rs))"
  using assms
proof (induction ops arbitrary: a c A B bkt M)
  case Nil
  then show ?case by auto
next
  case (Cons op ops)
  show ?case
  proof (cases op)
    case (Give nr b)
    obtain a1 c1 A1 B1 bkt1 where s: "btcache_add a c nr (Some b) = Some (0, a1, c1)" "bc_keeps c1 A1 B1 bkt1 (M(nr := b # M nr))"
      "never_refuses a1" "worth a1 A1 B1 = worth a A B - 1"
      using add_keeps [OF Cons.prems] by blast
    from Cons.IH [OF s(2,3)] obtain rs a' c' A' B' bkt' M' where r: "block_run a1 c1 ops = Some (rs, a', c')"
      "fits (M(nr := b # M nr)) ops rs" "bc_keeps c' A' B' bkt' M'"
      "worth a' A' B' = worth a1 A1 B1 - int (gives ops) + int (length (filter (\<lambda>r. r \<noteq> None) rs))"
      by blast
    have "block_run a c (op # ops) = Some (rs, a', c')" "fits M (op # ops) rs" using s(1) r(1,2) Give by simp_all
    moreover have "worth a' A' B' = worth a A B - int (gives (op # ops)) + int (length (filter (\<lambda>r. r \<noteq> None) rs))"
      using r(4) s(4) Give by simp
    ultimately show ?thesis using r(3) by blast
  next
    case (Take nr)
    obtain x c1 A1 B1 bkt1 vs where s: "btcache_lookup c nr = Some (x, c1)" "bc_keeps c1 A1 B1 bkt1 (M(nr := vs))"
      "case x of None \<Rightarrow> vs = [] | Some b \<Rightarrow> \<exists>us. M nr = us @ b # vs" "worth a A1 B1 = worth a A B + (if x = None then 0 else 1)"
      using lookup_keeps [OF Cons.prems(1)] by blast
    from Cons.IH [OF s(2) Cons.prems(2)] obtain rs a' c' A' B' bkt' M' where r: "block_run a c1 ops = Some (rs, a', c')"
      "fits (M(nr := vs)) ops rs" "bc_keeps c' A' B' bkt' M'"
      "worth a' A' B' = worth a A1 B1 - int (gives ops) + int (length (filter (\<lambda>r. r \<noteq> None) rs))"
      by blast
    have "block_run a c (op # ops) = Some (x # rs, a', c')" using s(1) r(1) Take by simp
    moreover have "fits M (op # ops) (x # rs)"
    proof (cases x)
      case None
      then show ?thesis using r(2) s(3) Take by simp
    next
      case (Some b)
      then have "vs \<in> set (below_block b (M nr))" using s(3) by (simp add: below_block_iff)
      then show ?thesis using r(2) Some Take by auto
    qed
    moreover have "worth a' A' B' = worth a A B - int (gives (op # ops)) + int (length (filter (\<lambda>r. r \<noteq> None) (x # rs)))"
      using r(4) s(4) Take by simp
    ultimately show ?thesis using r(3) by blast
  qed
qed

text \<open>C39. For a cache of any size but 0 and any sequence of blocks given and taken, opening, running and closing the
  block cache of btree.c do not fault, whatever is evicted and under whatever numbers. A lookup gives none or one of the
  blocks given under the number and not taken since; none that it passed over is found later, and after none nothing
  given before. Where a number is given again only after a lookup of it, that is the block last given under it or none.
  Every block that was given and not handed back is released, once, with the nodes and the table: the allocations alive
  go down by exactly those blocks.\<close>

theorem btcache_keeps_blocks:
  assumes "never_refuses a" "sz \<noteq> 0" "bc_nodes c = Map.empty" "0 < bc_fresh c"
  shows "\<exists>a1 c1 rs a2 c2 a3 c3. btcache_open a c sz = Some (0, a1, c1) \<and> block_run a1 c1 ops = Some (rs, a2, c2)
    \<and> btcache_close a2 c2 = Some (a3, c3) \<and> fits (\<lambda>_. []) ops rs
    \<and> (in_turn Map.empty ops \<longrightarrow> list_all2 agrees rs (given Map.empty ops))
    \<and> alk_live a3 = alk_live a - (int (gives ops) - int (length (filter (\<lambda>r. r \<noteq> None) rs)))"
proof -
  obtain a1 c1 A B bkt where o: "btcache_open a c sz = Some (0, a1, c1)" "bc_inv c1 A B bkt Map.empty" "never_refuses a1"
    "worth a1 A B = alk_live a + 1"
    using open_correct [OF assms(1-4)] by blast
  have "bc_keeps c1 A B bkt (\<lambda>_. [])" using o(2) by (simp add: bc_inv_def)
  from block_run_keeps [OF this o(3)] obtain rs a2 c2 A' B' bkt' M' where r: "block_run a1 c1 ops = Some (rs, a2, c2)"
    "fits (\<lambda>_. []) ops rs" "bc_keeps c2 A' B' bkt' M'"
    "worth a2 A' B' = worth a1 A B - int (gives ops) + int (length (filter (\<lambda>r. r \<noteq> None) rs))"
    by blast
  obtain a3 c3 where "btcache_close a2 c2 = Some (a3, c3)" "alk_live a3 = worth a2 A' B' - 1"
    using close_keeps [OF r(3)] by blast
  moreover have "in_turn Map.empty ops \<longrightarrow> list_all2 agrees rs (given Map.empty ops)" using fits_in_turn [of Map.empty ops rs] r(2) by simp
  ultimately show ?thesis using o(1,4) r(1,2,4) by auto
qed

definition empty_btcache :: btcache where
  "empty_btcache = \<lparr>bc_table = [], bc_head = 0, bc_used = 0, bc_size = 0, bc_nodes = Map.empty, bc_fresh = 1\<rparr>"

text \<open>A sequence in turn, and one that is not.\<close>

theorem btcache_keeps_blocks_witness:
  "(\<exists>a1 c1 rs a2 c2 a3 c3. btcache_open alk_generous empty_btcache 2 = Some (0, a1, c1)
    \<and> block_run a1 c1 [Give 0 [1], Give 2 [2], Give 4 [3], Take 4, Take 0, Give 4 [5], Take 2] = Some (rs, a2, c2)
    \<and> btcache_close a2 c2 = Some (a3, c3) \<and> list_all2 agrees rs [Some [3], Some [1], Some [2]]
    \<and> alk_live a3 = alk_live alk_generous - (4 - int (length (filter (\<lambda>r. r \<noteq> None) rs))))
  \<and> (\<exists>a1 c1 rs a2 c2 a3 c3. btcache_open alk_generous empty_btcache 4 = Some (0, a1, c1)
    \<and> block_run a1 c1 [Give 0 [1], Give 0 [2], Give 4 [3], Take 0, Take 0] = Some (rs, a2, c2)
    \<and> btcache_close a2 c2 = Some (a3, c3) \<and> fits ((\<lambda>_. [])(4 := [[3]], 0 := [[2], [1]])) [Take 0, Take 0] rs
    \<and> alk_live a3 = alk_live alk_generous - (3 - int (length (filter (\<lambda>r. r \<noteq> None) rs))))"
  (is "?in_turn \<and> ?out_of_turn")
proof
  show ?in_turn
    using btcache_keeps_blocks [of alk_generous 2 empty_btcache
        "[Give 0 [1], Give 2 [2], Give 4 [3], Take 4, Take 0, Give 4 [5], Take 2]"]
    by (auto simp: empty_btcache_def)
  show ?out_of_turn
    using btcache_keeps_blocks [of alk_generous 4 empty_btcache "[Give 0 [1], Give 0 [2], Give 4 [3], Take 0, Take 0]"]
    by (auto simp: empty_btcache_def fun_upd_twist)
qed

text \<open>Out of turn, a block that another has taken the place of: under number 0 the second block, and then the first.\<close>

lemma btcache_superseded:
  "map_option fst (do { (_, a, c) \<leftarrow> btcache_open alk_generous empty_btcache 4;
       block_run a c [Give 0 [1], Give 0 [2], Give 4 [3], Take 0, Take 0] }) = Some [Some [2], Some [1]]"
  by code_simp

text \<open>What the loss of a bucket does: two blocks of one bucket in a cache with room for both, and after the newer one is
  taken the other is not found.\<close>

lemma btcache_bucket_lost:
  "map_option fst (do { (_, a, c) \<leftarrow> btcache_open alk_generous empty_btcache 2;
       block_run a c [Give 0 [1], Give 2 [2], Take 2, Take 0] }) = Some [Some [2], None]"
  by code_simp

end
