(* ===== verification/Btree_Block.thy ===== *)
theory Btree_Block
  imports Byte_Memory Allocator
begin

section \<open>The nodes of btree.c\<close>

text \<open>
  src/btree/btree.c, the blocks: the super block, the header of a node, the keys and pointers of an inner node
  (a twig), the keys and data of a leaf, and the operations on one node. A block is a list of bytes that the
  packed structures of the code are read from and written to; an index is a \<open>uint32_t\<close> and wraps as in the code,
  a position in a block is a \<open>nat\<close>, and an access outside the block faults.
\<close>

subsection \<open>The super block and the node\<close>

record super =
  sb_magic :: u32
  sb_format :: u16
  sb_node_magic :: u16
  sb_block_size :: u32
  sb_prefix_size :: u16
  sb_key_size :: u16
  sb_fanout :: u16
  sb_height :: u8
  sb_pad0 :: u8
  sb_pad1 :: u32
  sb_item_count :: u64
  sb_node_count :: u64
  sb_stored_data :: u64
  sb_root :: u64
  sb_root_crc :: u32
  sb_root_size :: u32

definition SUPER_BLOCK_SIZE :: nat where "SUPER_BLOCK_SIZE = 64"
definition NODE_POINTER_SIZE :: nat where "NODE_POINTER_SIZE = 16"
definition NODE_HEAD_SIZE :: nat where "NODE_HEAD_SIZE = 16"
definition ITEM_HEAD_SIZE :: nat where "ITEM_HEAD_SIZE = 8"

text \<open>The packed structure as the bytes the disk gets, and back.\<close>

definition super_bytes :: "super \<Rightarrow> u8 list" where
  "super_bytes s =
     to_bytes (sb_magic s) @ to_bytes (sb_format s) @ to_bytes (sb_node_magic s) @ to_bytes (sb_block_size s)
     @ to_bytes (sb_prefix_size s) @ to_bytes (sb_key_size s) @ to_bytes (sb_fanout s) @ to_bytes (sb_height s)
     @ to_bytes (sb_pad0 s) @ to_bytes (sb_pad1 s) @ to_bytes (sb_item_count s) @ to_bytes (sb_node_count s)
     @ to_bytes (sb_stored_data s) @ to_bytes (sb_root s) @ to_bytes (sb_root_crc s) @ to_bytes (sb_root_size s)"

definition super_of :: "u8 list \<Rightarrow> super option" where
  "super_of m = do {
     magic \<leftarrow> load m 0; format \<leftarrow> load m 4; node_magic \<leftarrow> load m 6; block_size \<leftarrow> load m 8;
     prefix_size \<leftarrow> load m 12; key_size \<leftarrow> load m 14; fanout \<leftarrow> load m 16; height \<leftarrow> load m 18;
     pad0 \<leftarrow> load m 19; pad1 \<leftarrow> load m 20; item_count \<leftarrow> load m 24; node_count \<leftarrow> load m 32;
     stored \<leftarrow> load m 40; root \<leftarrow> load m 48; root_crc \<leftarrow> load m 56; root_size \<leftarrow> load m 60;
     Some \<lparr>sb_magic = magic, sb_format = format, sb_node_magic = node_magic, sb_block_size = block_size,
       sb_prefix_size = prefix_size, sb_key_size = key_size, sb_fanout = fanout, sb_height = height, sb_pad0 = pad0,
       sb_pad1 = pad1, sb_item_count = item_count, sb_node_count = node_count, sb_stored_data = stored, sb_root = root,
       sb_root_crc = root_crc, sb_root_size = root_size\<rparr>
   }"

record node_pointer =
  np_blocknr :: u64
  np_crc :: u32
  np_size :: u32

definition pointer_bytes :: "node_pointer \<Rightarrow> u8 list" where
  "pointer_bytes p = to_bytes (np_blocknr p) @ to_bytes (np_crc p) @ to_bytes (np_size p)"

definition pointer_at :: "u8 list \<Rightarrow> nat \<Rightarrow> node_pointer option" where
  "pointer_at d i = do {
     blocknr \<leftarrow> load d i; crc \<leftarrow> load d (i + 8); sz \<leftarrow> load d (i + 12);
     Some \<lparr>np_blocknr = blocknr, np_crc = crc, np_size = sz\<rparr>
   }"

text \<open>The fields of the node header.\<close>

definition nh_crc :: "u8 list \<Rightarrow> u32 option" where "nh_crc d = load d 0"
definition nh_magic :: "u8 list \<Rightarrow> u16 option" where "nh_magic d = load d 4"
definition nh_level :: "u8 list \<Rightarrow> u8 option" where "nh_level d = load d 7"
definition nh_items :: "u8 list \<Rightarrow> u32 option" where "nh_items d = load d 8"
definition nh_free :: "u8 list \<Rightarrow> u32 option" where "nh_free d = load d 12"

text \<open>A node in memory: \<open>bn_pointers\<close> are the addresses of the children, None in a leaf; \<open>bn_data\<close>
  is the block, None for NULL. A block has one owner at a time, a node or the block cache.\<close>

record bnode =
  bn_pointers :: "nat list option"
  bn_data :: "u8 list option"
  bn_blocknr :: u64
  bn_size :: u32
  bn_flags :: u32
  bn_refs :: int

definition TWIG_NODE_LEVEL :: nat where "TWIG_NODE_LEVEL = 2"
definition LEAF_NODE_LEVEL :: nat where "LEAF_NODE_LEVEL = 1"

definition node_level :: "bnode \<Rightarrow> nat option" where
  "node_level n = do { d \<leftarrow> bn_data n; v \<leftarrow> nh_level d; Some (unat v) }"

definition node_items :: "bnode \<Rightarrow> u32 option" where
  "node_items n = do { d \<leftarrow> bn_data n; nh_items d }"

definition node_free_bytes :: "bnode \<Rightarrow> u32 option" where
  "node_free_bytes n = do { d \<leftarrow> bn_data n; nh_free d }"

definition node_is_leaf :: "bnode \<Rightarrow> bool option" where
  "node_is_leaf n = map_option (\<lambda>v. v = LEAF_NODE_LEVEL) (node_level n)"

definition node_is_internal :: "bnode \<Rightarrow> bool option" where
  "node_is_internal n = map_option (\<lambda>v. LEAF_NODE_LEVEL < v) (node_level n)"

definition node_is_dirty :: "bnode \<Rightarrow> bool" where "node_is_dirty n \<longleftrightarrow> bn_flags n AND 1 \<noteq> 0"
definition node_set_dirty :: "bnode \<Rightarrow> bnode" where "node_set_dirty n = n\<lparr>bn_flags := bn_flags n OR 1\<rparr>"
definition node_set_clean :: "bnode \<Rightarrow> bnode" where "node_set_clean n = n\<lparr>bn_flags := bn_flags n AND NOT 1\<rparr>"
definition node_is_on_disk :: "bnode \<Rightarrow> bool" where "node_is_on_disk n \<longleftrightarrow> bn_flags n AND 2 \<noteq> 0"
definition node_set_on_disk :: "bnode \<Rightarrow> bnode" where "node_set_on_disk n = n\<lparr>bn_flags := bn_flags n OR 2\<rparr>"
definition node_need_update :: "bnode \<Rightarrow> bool" where "node_need_update n \<longleftrightarrow> bn_flags n AND 4 \<noteq> 0"
definition node_set_to_update :: "bnode \<Rightarrow> bnode" where "node_set_to_update n = n\<lparr>bn_flags := bn_flags n OR 4\<rparr>"

text \<open>The callbacks: \<open>prefix_keycpy\<close> as the bytes it stores for a key.\<close>

record callbacks =
  cb_keycpy :: "(u8 list \<Rightarrow> nat \<Rightarrow> u8 list) option"
  cb_prefix_keycmp :: "u8 list \<Rightarrow> u8 list \<Rightarrow> int"
  cb_keycmp :: "u8 list \<Rightarrow> u8 list \<Rightarrow> int"

definition node_space :: "super \<Rightarrow> u64" where "node_space sb = ucast (sb_block_size sb) - of_nat NODE_HEAD_SIZE"

definition item_size :: "super \<Rightarrow> nat" where "item_size sb = unat (sb_key_size sb) + ITEM_HEAD_SIZE"

text \<open>The bytes of \<open>data\<close> moved within the block.\<close>

definition block_move :: "u8 list \<Rightarrow> nat \<Rightarrow> nat \<Rightarrow> nat \<Rightarrow> u8 list option" where
  "block_move d dst src n = do { xs \<leftarrow> buf_read d src n; buf_write d dst xs }"

subsection \<open>The search in a node\<close>

text \<open>The index and whether the key is there. \<open>n\<close> elements of \<open>size\<close> bytes, of which \<open>cmp\<close> gets the first
  \<open>ksize\<close>; an index is never negative when it is used, and the interval gets smaller at each step.\<close>

function search_loop :: "u8 list \<Rightarrow> nat \<Rightarrow> nat \<Rightarrow> nat \<Rightarrow> (u8 list \<Rightarrow> int option) \<Rightarrow> int \<Rightarrow> int \<Rightarrow> (bool \<times> u32) option" where
  "search_loop d base sz ksize cmp low high =
     (if low \<le> high
      then let i = (low + high) div 2 in
           do {
             k \<leftarrow> buf_read d (base + nat i * sz) ksize;
             c \<leftarrow> cmp k;
             if c = 0 then Some (True, word_of_int i)
             else if c < 0 then search_loop d base sz ksize cmp (i + 1) high
             else search_loop d base sz ksize cmp low (i - 1)
           }
      else Some (False, word_of_int low))"
  by pat_completeness auto

termination
  by (relation "measure (\<lambda>(d, base, sz, ksize, cmp, low, high). nat (high + 1 - low))") auto

declare search_loop.simps [simp del]

text \<open>The key may be a pointer that cannot be read, None: it faults when a key is compared with it.\<close>

definition index_search ::
  "u8 list \<Rightarrow> nat \<Rightarrow> u32 \<Rightarrow> nat \<Rightarrow> nat \<Rightarrow> u8 list option \<Rightarrow> (u8 list \<Rightarrow> u8 list \<Rightarrow> int) \<Rightarrow> (bool \<times> u32) option" where
  "index_search d base n sz ksize key cmp = search_loop d base sz ksize (\<lambda>k. map_option (cmp k) key) 0 (uint n - 1)"

text \<open>Where the search in a node ended: \<open>pl_value\<close> is a position in the block of the node.\<close>

record place =
  pl_value :: nat
  pl_index :: u32
  pl_size :: u32
  pl_found :: bool

subsection \<open>Twigs\<close>

definition twig_pointer_at :: "super \<Rightarrow> u32 \<Rightarrow> nat" where
  "twig_pointer_at sb i =
     NODE_HEAD_SIZE + unat (sb_fanout sb) * unat (sb_prefix_size sb) + unat i * NODE_POINTER_SIZE"

definition twig_key_at :: "super \<Rightarrow> u32 \<Rightarrow> nat" where
  "twig_key_at sb i = NODE_HEAD_SIZE + unat (i * ucast (sb_prefix_size sb))"

definition twig_key :: "super \<Rightarrow> bnode \<Rightarrow> u32 \<Rightarrow> u8 list option" where
  "twig_key sb n i = do { d \<leftarrow> bn_data n; buf_read d (twig_key_at sb i) (unat (sb_prefix_size sb)) }"

definition twig_pointer :: "super \<Rightarrow> bnode \<Rightarrow> u32 \<Rightarrow> node_pointer option" where
  "twig_pointer sb n i = do { d \<leftarrow> bn_data n; pointer_at d (twig_pointer_at sb i) }"

definition twig_needed :: "super \<Rightarrow> u32" where
  "twig_needed sb = ucast (sb_prefix_size sb) + of_nat NODE_POINTER_SIZE"

definition twig_copy_key :: "super \<Rightarrow> callbacks \<Rightarrow> u8 list \<Rightarrow> u32 \<Rightarrow> u8 list \<Rightarrow> u8 list option" where
  "twig_copy_key sb cb d i key =
     (case cb_keycpy cb of
        Some cpy \<Rightarrow> buf_write d (twig_key_at sb i) (cpy key (unat (sb_prefix_size sb)))
      | None \<Rightarrow> do { k \<leftarrow> buf_read key 0 (unat (sb_prefix_size sb)); buf_write d (twig_key_at sb i) k })"

definition twig_replace :: "super \<Rightarrow> callbacks \<Rightarrow> bnode \<Rightarrow> u32 \<Rightarrow> u8 list \<Rightarrow> node_pointer \<Rightarrow> bnode option" where
  "twig_replace sb cb n i key value =
     do {
       d \<leftarrow> bn_data n;
       d \<leftarrow> twig_copy_key sb cb d i key;
       d \<leftarrow> buf_write d (twig_pointer_at sb i) (pointer_bytes value);
       Some (node_set_dirty (n\<lparr>bn_data := Some d\<rparr>))
     }"

definition twig_inline_replace :: "super \<Rightarrow> bnode \<Rightarrow> u32 \<Rightarrow> node_pointer \<Rightarrow> bnode option" where
  "twig_inline_replace sb n i value =
     do {
       d \<leftarrow> bn_data n;
       d \<leftarrow> buf_write d (twig_pointer_at sb i) (pointer_bytes value);
       Some (node_set_dirty (n\<lparr>bn_data := Some d\<rparr>))
     }"

text \<open>The elements of the array of children moved.\<close>

definition children_move :: "bnode \<Rightarrow> nat \<Rightarrow> nat \<Rightarrow> nat \<Rightarrow> bnode option" where
  "children_move n dst src k =
     do {
       ps \<leftarrow> bn_pointers n;
       xs \<leftarrow> buf_read ps src k;
       ps \<leftarrow> buf_write ps dst xs;
       Some (n\<lparr>bn_pointers := Some ps\<rparr>)
     }"

definition twig_insert :: "super \<Rightarrow> callbacks \<Rightarrow> bnode \<Rightarrow> u32 \<Rightarrow> u8 list \<Rightarrow> node_pointer \<Rightarrow> bnode option" where
  "twig_insert sb cb n i key value =
     do {
       d \<leftarrow> bn_data n;
       items \<leftarrow> nh_items d;
       let k = items - i;
       d \<leftarrow> block_move d (twig_key_at sb (i + 1)) (twig_key_at sb i) (unat (k * ucast (sb_prefix_size sb)));
       d \<leftarrow> twig_copy_key sb cb d i key;
       d \<leftarrow> block_move d (twig_pointer_at sb (i + 1)) (twig_pointer_at sb i) (unat k * NODE_POINTER_SIZE);
       d \<leftarrow> buf_write d (twig_pointer_at sb i) (pointer_bytes value);
       n \<leftarrow> children_move n (unat (i + 1)) (unat i) (unat k);
       free \<leftarrow> nh_free d;
       d \<leftarrow> store d 12 (free - twig_needed sb);
       d \<leftarrow> store d 8 (items + 1);
       Some (node_set_dirty (n\<lparr>bn_data := Some d\<rparr>))
     }"

definition twig_remove :: "super \<Rightarrow> bnode \<Rightarrow> u32 \<Rightarrow> bnode option" where
  "twig_remove sb n i =
     do {
       d \<leftarrow> bn_data n;
       items \<leftarrow> nh_items d;
       (d, n) \<leftarrow> (if i + 1 < items
                  then do {
                    let k = items - i;
                    d \<leftarrow> block_move d (twig_key_at sb i) (twig_key_at sb (i + 1)) (unat (k * ucast (sb_prefix_size sb)));
                    d \<leftarrow> block_move d (twig_pointer_at sb i) (twig_pointer_at sb (i + 1)) (unat k * NODE_POINTER_SIZE);
                    n \<leftarrow> children_move n (unat i) (unat (i + 1)) (unat k);
                    Some (d, n)
                  }
                  else Some (d, n));
       free \<leftarrow> nh_free d;
       d \<leftarrow> store d 12 (free - twig_needed sb);
       d \<leftarrow> store d 8 (items - 1);
       ps \<leftarrow> bn_pointers n;
       ps \<leftarrow> buf_set ps (unat (items - 1)) 0;
       Some (node_set_dirty (n\<lparr>bn_data := Some d, bn_pointers := Some ps\<rparr>))
     }"

definition twig_split :: "super \<Rightarrow> bnode \<Rightarrow> bnode \<Rightarrow> (bnode \<times> bnode) option" where
  "twig_split sb l r =
     do {
       ld \<leftarrow> bn_data l;
       rd \<leftarrow> bn_data r;
       items \<leftarrow> nh_items ld;
       let left_key = drop_bit 1 items;
       let right_key = items - left_key;
       ks \<leftarrow> buf_read ld (twig_key_at sb left_key) (unat (right_key * ucast (sb_prefix_size sb)));
       rd \<leftarrow> buf_write rd (twig_key_at sb 0) ks;
       ps \<leftarrow> buf_read ld (twig_pointer_at sb left_key) (unat right_key * NODE_POINTER_SIZE);
       rd \<leftarrow> buf_write rd (twig_pointer_at sb 0) ps;
       lp \<leftarrow> bn_pointers l;
       rp \<leftarrow> bn_pointers r;
       cs \<leftarrow> buf_read lp (unat left_key) (unat right_key);
       rp \<leftarrow> buf_write rp 0 cs;
       lp \<leftarrow> buf_write lp (unat left_key) (replicate (unat right_key) 0);
       rd \<leftarrow> store rd 8 right_key;
       rd \<leftarrow> store rd 12 (ucast (node_space sb) - right_key * ucast (sb_prefix_size sb) - right_key * of_nat NODE_POINTER_SIZE);
       ld \<leftarrow> store ld 8 left_key;
       ld \<leftarrow> store ld 12 (ucast (node_space sb) - left_key * ucast (sb_prefix_size sb) - left_key * of_nat NODE_POINTER_SIZE);
       Some (node_set_dirty (l\<lparr>bn_data := Some ld, bn_pointers := Some lp\<rparr>),
             node_set_dirty (r\<lparr>bn_data := Some rd, bn_pointers := Some rp\<rparr>))
     }"

text \<open>The elements \<open>i..\<close> of the right node inserted at \<open>index + i\<close>; the loop makes \<open>k\<close> more steps.\<close>

fun twig_merge_loop :: "super \<Rightarrow> callbacks \<Rightarrow> bnode \<Rightarrow> bnode \<Rightarrow> u32 \<Rightarrow> u32 \<Rightarrow> nat \<Rightarrow> bnode option" where
  "twig_merge_loop sb cb l r index i 0 = Some l"
| "twig_merge_loop sb cb l r index i (Suc k) =
     do {
       key \<leftarrow> twig_key sb r i;
       value \<leftarrow> twig_pointer sb r i;
       l \<leftarrow> twig_insert sb cb l (index + i) key value;
       twig_merge_loop sb cb l r index (i + 1) k
     }"

definition twig_merge :: "super \<Rightarrow> callbacks \<Rightarrow> bnode \<Rightarrow> bnode \<Rightarrow> (bnode \<times> bnode) option" where
  "twig_merge sb cb l r =
     do {
       items \<leftarrow> node_items r;
       index \<leftarrow> node_items l;
       l \<leftarrow> twig_merge_loop sb cb l r index 0 (unat items);
       rd \<leftarrow> bn_data r;
       rd \<leftarrow> store rd 12 (ucast (node_space sb) :: u32);
       rd \<leftarrow> store rd 8 (0 :: u32);
       Some (node_set_dirty l, r\<lparr>bn_data := Some rd\<rparr>)
     }"

definition twig_can_merge :: "super \<Rightarrow> bnode \<Rightarrow> bnode \<Rightarrow> bool option" where
  "twig_can_merge sb l r = do { a \<leftarrow> node_items l; b \<leftarrow> node_items r; Some (a + b \<le> ucast (sb_fanout sb)) }"

definition twig_index_search :: "super \<Rightarrow> callbacks \<Rightarrow> bnode \<Rightarrow> u8 list option \<Rightarrow> (bool \<times> u32) option" where
  "twig_index_search sb cb n key =
     do {
       d \<leftarrow> bn_data n;
       items \<leftarrow> nh_items d;
       index_search d (twig_key_at sb 0) items (unat (sb_prefix_size sb)) (unat (sb_prefix_size sb)) key (cb_prefix_keycmp cb)
     }"

definition twig_search :: "super \<Rightarrow> callbacks \<Rightarrow> bnode \<Rightarrow> u8 list option \<Rightarrow> place \<Rightarrow> place option" where
  "twig_search sb cb n key pl =
     do {
       (found, i) \<leftarrow> twig_index_search sb cb n key;
       let pl = pl\<lparr>pl_index := i\<rparr>;
       let pl = (if found then pl\<lparr>pl_size := of_nat NODE_POINTER_SIZE, pl_value := twig_pointer_at sb i\<rparr> else pl);
       Some (pl\<lparr>pl_found := found\<rparr>)
     }"

subsection \<open>Leaves\<close>

definition leaf_key_at :: "super \<Rightarrow> u32 \<Rightarrow> nat" where
  "leaf_key_at sb i = NODE_HEAD_SIZE + unat (i * ucast (sb_key_size sb)) + unat i * ITEM_HEAD_SIZE"

definition item_head_at :: "super \<Rightarrow> u32 \<Rightarrow> nat" where
  "item_head_at sb i = leaf_key_at sb i + unat (sb_key_size sb)"

definition leaf_key :: "super \<Rightarrow> bnode \<Rightarrow> u32 \<Rightarrow> u8 list option" where
  "leaf_key sb n i = do { d \<leftarrow> bn_data n; buf_read d (leaf_key_at sb i) (unat (sb_key_size sb)) }"

definition ih_offset :: "u8 list \<Rightarrow> nat \<Rightarrow> u32 option" where "ih_offset d p = load d p"
definition ih_size :: "u8 list \<Rightarrow> nat \<Rightarrow> u32 option" where "ih_size d p = load d (p + 4)"

definition item_body :: "super \<Rightarrow> u8 list \<Rightarrow> u32 \<Rightarrow> nat option" where
  "item_body sb d i = map_option unat (ih_offset d (item_head_at sb i))"

definition item_body_size :: "super \<Rightarrow> u8 list \<Rightarrow> u32 \<Rightarrow> u32 option" where
  "item_body_size sb d i = ih_size d (item_head_at sb i)"

definition item_needed_size :: "super \<Rightarrow> u32 \<Rightarrow> u32" where
  "item_needed_size sb sz = of_nat (unat (sb_key_size sb) + ITEM_HEAD_SIZE + unat sz)"

fun body_loop :: "u8 list \<Rightarrow> nat \<Rightarrow> nat \<Rightarrow> nat \<Rightarrow> u32 \<Rightarrow> u32 option" where
  "body_loop d step 0 p sz = Some sz"
| "body_loop d step (Suc k) p sz = do { v \<leftarrow> ih_size d p; body_loop d step k (p + step) (sz + v) }"

definition leaf_body_size :: "super \<Rightarrow> u8 list \<Rightarrow> u32 \<Rightarrow> u32 \<Rightarrow> u32 option" where
  "leaf_body_size sb d from to = body_loop d (item_size sb) (unat to - unat from) (item_head_at sb from) 0"

fun offset_loop :: "nat \<Rightarrow> u32 \<Rightarrow> nat \<Rightarrow> nat \<Rightarrow> u8 list \<Rightarrow> u8 list option" where
  "offset_loop step diff 0 p d = Some d"
| "offset_loop step diff (Suc k) p d =
     do { v \<leftarrow> ih_offset d p; d \<leftarrow> store d p (v + diff); offset_loop step diff k (p + step) d }"

text \<open>\<open>diff\<close> is an \<open>int32_t\<close> that is added to a \<open>uint32_t\<close>.\<close>

definition leaf_move_offsets :: "super \<Rightarrow> u8 list \<Rightarrow> u32 \<Rightarrow> u32 \<Rightarrow> u32 \<Rightarrow> u8 list option" where
  "leaf_move_offsets sb d from to diff = offset_loop (item_size sb) diff (unat to - unat from) (item_head_at sb from) d"

text \<open>The difference of the sizes is one of \<open>uint32_t\<close>s, made a \<open>long\<close>; the value is not used.\<close>

definition leaf_replace :: "super \<Rightarrow> bnode \<Rightarrow> u32 \<Rightarrow> u8 list \<Rightarrow> u32 \<Rightarrow> bnode option" where
  "leaf_replace sb n i value sz =
     do {
       d \<leftarrow> bn_data n;
       dst \<leftarrow> item_body sb d i;
       old_size \<leftarrow> item_body_size sb d i;
       let size_diff = sz - old_size;
       free \<leftarrow> nh_free d;
       d \<leftarrow> store d 12 (free + size_diff);
       items \<leftarrow> nh_items d;
       k \<leftarrow> leaf_body_size sb d i (items - 1);
       d \<leftarrow> block_move d (dst + unat old_size) (dst + unat sz) (unat k);
       d \<leftarrow> leaf_move_offsets sb d i items size_diff;
       Some (node_set_dirty (n\<lparr>bn_data := Some d\<rparr>))
     }"

definition leaf_inline_replace :: "super \<Rightarrow> bnode \<Rightarrow> u32 \<Rightarrow> u8 list \<Rightarrow> u32 \<Rightarrow> bnode option" where
  "leaf_inline_replace sb n i value sz =
     do {
       d \<leftarrow> bn_data n;
       dst \<leftarrow> item_body sb d i;
       v \<leftarrow> buf_read value 0 (unat sz);
       d \<leftarrow> buf_write d dst v;
       Some (node_set_dirty (n\<lparr>bn_data := Some d\<rparr>))
     }"

text \<open>The room for a new item at an index before the last: the block and the offset of the new data.\<close>

definition leaf_open :: "super \<Rightarrow> u8 list \<Rightarrow> u32 \<Rightarrow> u32 \<Rightarrow> (u8 list \<times> u32) option" where
  "leaf_open sb d i data_size =
     do {
       items \<leftarrow> nh_items d;
       sz \<leftarrow> leaf_body_size sb d i items;
       src \<leftarrow> item_body sb d (items - 1);
       dst \<leftarrow> (if unat data_size \<le> src then Some (src - unat data_size) else None);
       d \<leftarrow> block_move d dst src (unat sz);
       items \<leftarrow> nh_items d;
       d \<leftarrow> leaf_move_offsets sb d i items (- data_size);
       items \<leftarrow> nh_items d;
       d \<leftarrow> block_move d (leaf_key_at sb (i + 1)) (leaf_key_at sb i)
              (unat (of_nat (unat (items - i) * item_size sb) :: u32));
       Some (d, of_nat (dst + unat sz))
     }"

definition leaf_insert ::
  "super \<Rightarrow> bnode \<Rightarrow> u32 \<Rightarrow> u8 list \<Rightarrow> u8 list \<Rightarrow> u32 \<Rightarrow> (super \<times> bnode) option" where
  "leaf_insert sb n i key value data_size =
     do {
       d \<leftarrow> bn_data n;
       items \<leftarrow> nh_items d;
       free \<leftarrow> nh_free d;
       let off = of_nat (unat (free - data_size) + NODE_HEAD_SIZE + unat items * item_size sb);
       (d, off) \<leftarrow> (if i < items then leaf_open sb d i data_size else Some (d, off));
       k \<leftarrow> buf_read key 0 (unat (sb_key_size sb));
       d \<leftarrow> buf_write d (leaf_key_at sb i) k;
       d \<leftarrow> buf_write d (item_head_at sb i) (to_bytes off @ to_bytes data_size);
       v \<leftarrow> buf_read value 0 (unat data_size);
       d \<leftarrow> buf_write d (unat off) v;
       free \<leftarrow> nh_free d;
       d \<leftarrow> store d 12 (free - of_nat (item_size sb + unat data_size));
       items \<leftarrow> nh_items d;
       d \<leftarrow> store d 8 (items + 1);
       Some (sb\<lparr>sb_item_count := sb_item_count sb + 1, sb_stored_data := sb_stored_data sb + ucast data_size\<rparr>,
             node_set_dirty (n\<lparr>bn_data := Some d\<rparr>))
     }"

definition leaf_remove :: "super \<Rightarrow> bnode \<Rightarrow> u32 \<Rightarrow> (super \<times> bnode) option" where
  "leaf_remove sb n i =
     do {
       d \<leftarrow> bn_data n;
       data_size \<leftarrow> item_body_size sb d i;
       items \<leftarrow> nh_items d;
       d \<leftarrow> (if i + 1 < items
             then do {
               src \<leftarrow> item_body sb d (items - 1);
               sz \<leftarrow> leaf_body_size sb d (i + 1) items;
               d \<leftarrow> block_move d (src + unat data_size) src (unat sz);
               items \<leftarrow> nh_items d;
               d \<leftarrow> leaf_move_offsets sb d i items data_size;
               items \<leftarrow> nh_items d;
               block_move d (leaf_key_at sb i) (leaf_key_at sb (i + 1))
                 (unat (of_nat (unat (items - i) * item_size sb) :: u32))
             }
             else Some d);
       free \<leftarrow> nh_free d;
       d \<leftarrow> store d 12 (free + of_nat (item_size sb + unat data_size));
       items \<leftarrow> nh_items d;
       d \<leftarrow> store d 8 (items - 1);
       Some (sb\<lparr>sb_item_count := sb_item_count sb - 1, sb_stored_data := sb_stored_data sb - ucast data_size\<rparr>,
             node_set_dirty (n\<lparr>bn_data := Some d\<rparr>))
     }"

definition leaf_split :: "super \<Rightarrow> bnode \<Rightarrow> bnode \<Rightarrow> (bnode \<times> bnode) option" where
  "leaf_split sb l r =
     do {
       ld \<leftarrow> bn_data l;
       rd \<leftarrow> bn_data r;
       items \<leftarrow> nh_items ld;
       let left_key = drop_bit 1 items;
       let right_key = items - left_key;
       let sz = (of_nat (item_size sb * unat right_key) :: u32);
       ks \<leftarrow> buf_read ld (leaf_key_at sb left_key) (unat sz);
       rd \<leftarrow> buf_write rd (leaf_key_at sb 0) ks;
       lfree \<leftarrow> nh_free ld;
       ld \<leftarrow> store ld 12 (lfree + sz);
       rfree \<leftarrow> nh_free rd;
       rd \<leftarrow> store rd 12 (rfree - sz);
       src \<leftarrow> item_body sb ld (items - 1);
       sz \<leftarrow> leaf_body_size sb ld left_key items;
       body \<leftarrow> buf_read ld src (unat sz);
       dst \<leftarrow> (if sz \<le> sb_block_size sb then Some (unat (sb_block_size sb) - unat sz) else None);
       rd \<leftarrow> buf_write rd dst body;
       lfree \<leftarrow> nh_free ld;
       ld \<leftarrow> store ld 12 (lfree + sz);
       ld \<leftarrow> store ld 8 (items - right_key);
       rfree \<leftarrow> nh_free rd;
       rd \<leftarrow> store rd 12 (rfree - sz);
       ritems \<leftarrow> nh_items rd;
       rd \<leftarrow> store rd 8 (ritems + right_key);
       sz \<leftarrow> leaf_body_size sb ld 0 left_key;
       rd \<leftarrow> leaf_move_offsets sb rd 0 right_key sz;
       Some (node_set_dirty (l\<lparr>bn_data := Some ld\<rparr>), node_set_dirty (r\<lparr>bn_data := Some rd\<rparr>))
     }"

fun leaf_merge_loop :: "super \<Rightarrow> bnode \<Rightarrow> bnode \<Rightarrow> u32 \<Rightarrow> u32 \<Rightarrow> nat \<Rightarrow> (super \<times> bnode) option" where
  "leaf_merge_loop sb l r index i 0 = Some (sb, l)"
| "leaf_merge_loop sb l r index i (Suc k) =
     do {
       rd \<leftarrow> bn_data r;
       key \<leftarrow> leaf_key sb r i;
       sz \<leftarrow> item_body_size sb rd i;
       off \<leftarrow> item_body sb rd i;
       value \<leftarrow> buf_read rd off (unat sz);
       (sb, l) \<leftarrow> leaf_insert sb l (index + i) key value sz;
       leaf_merge_loop sb l r index (i + 1) k
     }"

definition leaf_merge :: "super \<Rightarrow> bnode \<Rightarrow> bnode \<Rightarrow> (super \<times> bnode \<times> bnode) option" where
  "leaf_merge sb l r =
     do {
       items \<leftarrow> node_items r;
       index \<leftarrow> node_items l;
       (sb, l) \<leftarrow> leaf_merge_loop sb l r index 0 (unat items);
       rd \<leftarrow> bn_data r;
       rd \<leftarrow> store rd 12 (ucast (node_space sb) :: u32);
       rd \<leftarrow> store rd 8 (0 :: u32);
       Some (sb, node_set_dirty l, r\<lparr>bn_data := Some rd\<rparr>)
     }"

definition leaf_can_merge :: "super \<Rightarrow> bnode \<Rightarrow> bnode \<Rightarrow> bool option" where
  "leaf_can_merge sb l r =
     do {
       ld \<leftarrow> bn_data l;
       rd \<leftarrow> bn_data r;
       ritems \<leftarrow> nh_items rd;
       litems \<leftarrow> nh_items ld;
       a \<leftarrow> leaf_body_size sb rd 0 ritems;
       b \<leftarrow> leaf_body_size sb ld 0 litems;
       Some (ucast (a + b + of_nat (item_size sb) + of_nat (item_size sb)) \<le> node_space sb)
     }"

definition leaf_index_search :: "super \<Rightarrow> callbacks \<Rightarrow> bnode \<Rightarrow> u8 list option \<Rightarrow> (bool \<times> u32) option" where
  "leaf_index_search sb cb n key =
     do {
       d \<leftarrow> bn_data n;
       items \<leftarrow> nh_items d;
       index_search d (leaf_key_at sb 0) items (item_size sb) (unat (sb_key_size sb)) key (cb_keycmp cb)
     }"

definition leaf_search :: "super \<Rightarrow> callbacks \<Rightarrow> bnode \<Rightarrow> u8 list option \<Rightarrow> place \<Rightarrow> place option" where
  "leaf_search sb cb n key pl =
     do {
       (found, i) \<leftarrow> leaf_index_search sb cb n key;
       let pl = pl\<lparr>pl_index := i\<rparr>;
       pl \<leftarrow> (if found
              then do {
                d \<leftarrow> bn_data n;
                value \<leftarrow> item_body sb d i;
                sz \<leftarrow> item_body_size sb d i;
                Some (pl\<lparr>pl_value := value, pl_size := sz\<rparr>)
              }
              else Some pl);
       Some (pl\<lparr>pl_found := found\<rparr>)
     }"

text \<open>The keys of a node the code points to.\<close>

definition node_last_key :: "super \<Rightarrow> bnode \<Rightarrow> u8 list option" where
  "node_last_key sb n =
     do { leaf \<leftarrow> node_is_leaf n; items \<leftarrow> node_items n; if leaf then leaf_key sb n (items - 1) else twig_key sb n (items - 1) }"

definition node_last_prev_key :: "super \<Rightarrow> bnode \<Rightarrow> u8 list option" where
  "node_last_prev_key sb n =
     do { leaf \<leftarrow> node_is_leaf n; items \<leftarrow> node_items n; if leaf then leaf_key sb n (items - 2) else twig_key sb n (items - 2) }"

end
