(* ===== verification/Btree_Leaf.thy ===== *)
theory Btree_Leaf
  imports Btree_Block
begin

section \<open>The leaves of btree.c\<close>

text \<open>
  A leaf as the image of a list of items: keys and item headers grow up behind the header, the data grows down
  from the end of the block, with the unused bytes between. The operations on leaves are shown as operations on
  the lists.
\<close>

subsection \<open>Blocks as concatenations\<close>

lemma read_app: "length A = i \<Longrightarrow> length B = n \<Longrightarrow> buf_read (A @ B @ C) i n = Some B"
  by (simp add: buf_read_def)

lemma write_app: "length A = i \<Longrightarrow> length B' = length B \<Longrightarrow> buf_write (A @ B @ C) i B' = Some (A @ B' @ C)"
  by (simp add: buf_write_def splice_def)

lemma load_app:
  assumes "byte_sized TYPE('a::len)" "length A = p"
  shows "load (A @ to_bytes (w :: 'a word) @ C) p = Some w"
  using assms read_app [of A p "to_bytes w" _ C] by (simp add: load_def of_bytes_to_bytes)

lemma store_app:
  "length A = p \<Longrightarrow> length B = sizeof TYPE('a::len) \<Longrightarrow> store (A @ B @ C) p (w :: 'a word) = Some (A @ to_bytes w @ C)"
  by (simp add: store_def write_app)

lemma move_app:
  assumes "d = A @ B @ C" "length A = src" "length B = n" "d = A' @ X @ C'" "length A' = dst" "length X = n"
  shows "block_move d dst src n = Some (A' @ B @ C')"
proof -
  have "buf_read d src n = Some B" using read_app [OF assms(2,3)] assms(1) by simp
  moreover have "buf_write d dst B = Some (A' @ B @ C')" using write_app [of A' dst B X C'] assms(3-6) by simp
  ultimately show ?thesis by (simp add: block_move_def)
qed

subsection \<open>The image of a leaf\<close>

type_synonym leaf_item = "u8 list \<times> u8 list"

fun entries :: "nat \<Rightarrow> leaf_item list \<Rightarrow> u8 list" where
  "entries e [] = []"
| "entries e ((k, v) # xs) =
     k @ to_bytes (of_nat (e - length v) :: u32) @ to_bytes (of_nat (length v) :: u32) @ entries (e - length v) xs"

definition bodies :: "leaf_item list \<Rightarrow> u8 list" where "bodies xs = concat (rev (map snd xs))"

definition total :: "leaf_item list \<Rightarrow> nat" where "total xs = length (bodies xs)"

definition leaf_image :: "u8 list \<Rightarrow> nat \<Rightarrow> leaf_item list \<Rightarrow> u8 list \<Rightarrow> u8 list" where
  "leaf_image pre e xs gap =
     pre @ to_bytes (of_nat (length xs) :: u32) @ to_bytes (of_nat (length gap) :: u32) @ entries e xs @ gap @ bodies xs"

definition keys_sized :: "super \<Rightarrow> leaf_item list \<Rightarrow> bool" where
  "keys_sized sb xs \<longleftrightarrow> (\<forall>x \<in> set xs. length (fst x) = unat (sb_key_size sb))"

definition leaf_rep :: "super \<Rightarrow> u8 list \<Rightarrow> leaf_item list \<Rightarrow> bool" where
  "leaf_rep sb d xs \<longleftrightarrow> (\<exists>pre gap. d = leaf_image pre (length d) xs gap \<and> length pre = 8) \<and> keys_sized sb xs
     \<and> length d = unat (sb_block_size sb)"

lemma bodies_simps [simp]:
  "bodies [] = []" "bodies ((k, v) # xs) = bodies xs @ v" "bodies (xs @ ys) = bodies ys @ bodies xs"
  by (simp_all add: bodies_def)

lemma total_simps [simp]:
  "total [] = 0" "total ((k, v) # xs) = length v + total xs" "total (xs @ ys) = total xs + total ys"
  by (simp_all add: total_def)

lemma length_bodies [simp]: "length (bodies xs) = total xs"
  by (simp add: total_def)

lemma keys_sized_simps [simp]:
  "keys_sized sb []" "keys_sized sb (x # xs) \<longleftrightarrow> length (fst x) = unat (sb_key_size sb) \<and> keys_sized sb xs"
  "keys_sized sb (xs @ ys) \<longleftrightarrow> keys_sized sb xs \<and> keys_sized sb ys"
  by (auto simp: keys_sized_def)

lemma entries_append: "entries e (xs @ ys) = entries e xs @ entries (e - total xs) ys"
  by (induction e xs rule: entries.induct) simp_all

lemma length_entries: "keys_sized sb xs \<Longrightarrow> length (entries e xs) = length xs * item_size sb"
  by (induction e xs rule: entries.induct) (simp_all add: item_size_def ITEM_HEAD_SIZE_def)

lemma unat_ucast_u16 [simp]: "unat (ucast (x :: u16) :: u32) = unat x"
proof -
  have "unat x < 2 ^ 16" using unsigned_less [where 'a = nat, of x] by simp
  then show ?thesis by (simp add: unsigned_ucast_eq take_bit_nat_eq_self)
qed

lemma leaf_key_at_nat:
  assumes "NODE_HEAD_SIZE + j * item_size sb < 2 ^ 32"
  shows "leaf_key_at sb (of_nat j) = NODE_HEAD_SIZE + j * item_size sb"
    "item_head_at sb (of_nat j) = NODE_HEAD_SIZE + j * item_size sb + unat (sb_key_size sb)"
proof -
  have I: "j * item_size sb = j * unat (sb_key_size sb) + j * 8" by (simp add: item_size_def ITEM_HEAD_SIZE_def distrib_left)
  then have "j < 2 ^ 32" "j * unat (sb_key_size sb) < 2 ^ 32" using assms by simp_all
  then have "unat (of_nat j :: u32) = j" "unat (of_nat j * ucast (sb_key_size sb) :: u32) = j * unat (sb_key_size sb)"
    by (simp_all add: unat_of_nat take_bit_nat_eq_self unat_word_ariths unat_ucast_u16)
  then show "leaf_key_at sb (of_nat j) = NODE_HEAD_SIZE + j * item_size sb"
    "item_head_at sb (of_nat j) = NODE_HEAD_SIZE + j * item_size sb + unat (sb_key_size sb)"
    using I by (simp_all add: leaf_key_at_def item_head_at_def ITEM_HEAD_SIZE_def)
qed

subsection \<open>The loops\<close>

lemma unat_of_nat_u32 [simp]: "n < 2 ^ 32 \<Longrightarrow> unat (of_nat n :: u32) = n"
  by (simp add: unat_of_nat take_bit_nat_eq_self)

lemma body_loop_entries:
  assumes "keys_sized sb ys" "length A + unat (sb_key_size sb) = p"
  shows "body_loop (A @ entries e ys @ C) (item_size sb) (length ys) p sz = Some (sz + of_nat (total ys))"
  using assms
proof (induction ys arbitrary: A e p sz)
  case (Cons y ys)
  obtain k v where y: "y = (k, v)" by fastforce
  let ?o = "of_nat (e - length v) :: u32" and ?s = "of_nat (length v) :: u32"
  have k: "length k = unat (sb_key_size sb)" using Cons.prems(1) y by simp
  have d: "A @ entries e (y # ys) @ C = (A @ k @ to_bytes ?o) @ to_bytes ?s @ entries (e - length v) ys @ C" using y by simp
  have "ih_size (A @ entries e (y # ys) @ C) p = Some ?s"
    unfolding d ih_size_def using k Cons.prems(2) by (intro load_app) simp_all
  moreover have "body_loop ((A @ k @ to_bytes ?o @ to_bytes ?s) @ entries (e - length v) ys @ C) (item_size sb) (length ys)
      (p + item_size sb) (sz + ?s) = Some (sz + ?s + of_nat (total ys))"
    using Cons.prems k by (intro Cons.IH) (simp_all add: item_size_def ITEM_HEAD_SIZE_def)
  ultimately show ?case using y by (simp add: add.assoc)
qed simp

lemma offset_loop_entries:
  assumes "keys_sized sb ys" "length A + unat (sb_key_size sb) = p" "total ys \<le> e" "total ys \<le> e'"
    and "of_nat e' = of_nat e + diff"
  shows "offset_loop (item_size sb) diff (length ys) p (A @ entries e ys @ C) = Some (A @ entries e' ys @ C)"
  using assms
proof (induction ys arbitrary: A e e' p)
  case (Cons y ys)
  obtain k v where y: "y = (k, v)" by fastforce
  let ?o = "of_nat (e - length v) :: u32" and ?o' = "of_nat (e' - length v) :: u32" and ?s = "of_nat (length v) :: u32"
  have k: "length k = unat (sb_key_size sb)" using Cons.prems(1) y by simp
  have le: "length v \<le> e" "length v \<le> e'" using Cons.prems(3,4) y by simp_all
  then have o: "?o' = ?o + diff" using Cons.prems(5) by (simp add: of_nat_diff)
  let ?C = "to_bytes ?s @ entries (e - length v) ys @ C"
  have d: "A @ entries e (y # ys) @ C = (A @ k) @ to_bytes ?o @ ?C" using y by simp
  have "ih_offset (A @ entries e (y # ys) @ C) p = Some ?o"
    unfolding d ih_offset_def using k Cons.prems(2) by (intro load_app) simp_all
  moreover have "store (A @ entries e (y # ys) @ C) p (?o + diff) = Some ((A @ k) @ to_bytes ?o' @ ?C)"
    unfolding d o using k Cons.prems(2) by (intro store_app) simp_all
  moreover have "offset_loop (item_size sb) diff (length ys) (p + item_size sb)
      ((A @ k @ to_bytes ?o' @ to_bytes ?s) @ entries (e - length v) ys @ C)
    = Some ((A @ k @ to_bytes ?o' @ to_bytes ?s) @ entries (e' - length v) ys @ C)"
    using Cons.prems k y o by (intro Cons.IH) (simp_all add: item_size_def ITEM_HEAD_SIZE_def)
  ultimately show ?case using y by simp
qed simp

text \<open>The reads of the header and of the last item.\<close>

lemma head_reads:
  assumes "length pre = 8"
  shows "nh_items (pre @ to_bytes n @ to_bytes f @ C) = Some n" "nh_free (pre @ to_bytes n @ to_bytes f @ C) = Some f"
    "store (pre @ to_bytes n @ to_bytes f @ C) 8 (n' :: u32) = Some (pre @ to_bytes n' @ to_bytes f @ C)"
    "store (pre @ to_bytes n @ to_bytes f @ C) 12 (f' :: u32) = Some (pre @ to_bytes n @ to_bytes f' @ C)"
proof -
  have d: "pre @ to_bytes n @ to_bytes f @ C = (pre @ to_bytes n) @ to_bytes f @ C" by simp
  show "nh_items (pre @ to_bytes n @ to_bytes f @ C) = Some n"
    unfolding nh_items_def using assms by (intro load_app) simp_all
  show "nh_free (pre @ to_bytes n @ to_bytes f @ C) = Some f"
    unfolding nh_free_def d using assms by (intro load_app) simp_all
  show "store (pre @ to_bytes n @ to_bytes f @ C) 8 n' = Some (pre @ to_bytes n' @ to_bytes f @ C)"
    using assms by (intro store_app) simp_all
  show "store (pre @ to_bytes n @ to_bytes f @ C) 12 f' = Some (pre @ to_bytes n @ to_bytes f' @ C)"
    using assms store_app [where A = "pre @ to_bytes n" and B = "to_bytes f" and C = C and p = 12 and w = f'] by simp
qed

lemma item_reads:
  assumes "keys_sized sb xs" "length k = unat (sb_key_size sb)"
    and "length A = NODE_HEAD_SIZE" "NODE_HEAD_SIZE + length xs * item_size sb < 2 ^ 32" "total xs + length v \<le> e" "e < 2 ^ 32"
  shows "item_body sb (A @ entries e (xs @ (k, v) # ys) @ C) (of_nat (length xs)) = Some (e - (total xs + length v))"
    "item_body_size sb (A @ entries e (xs @ (k, v) # ys) @ C) (of_nat (length xs)) = Some (of_nat (length v))"
    "buf_read (A @ entries e (xs @ (k, v) # ys) @ C) (leaf_key_at sb (of_nat (length xs))) (unat (sb_key_size sb)) = Some k"
proof -
  let ?e = "e - total xs"
  let ?o = "of_nat (?e - length v) :: u32" and ?s = "of_nat (length v) :: u32"
  let ?C = "entries (?e - length v) ys @ C"
  have d: "A @ entries e (xs @ (k, v) # ys) @ C = (A @ entries e xs) @ k @ to_bytes ?o @ to_bytes ?s @ ?C"
    by (simp add: entries_append)
  note at = leaf_key_at_nat [OF assms(4)]
  note len = length_entries [OF assms(1), of e]
  show "item_body sb (A @ entries e (xs @ (k, v) # ys) @ C) (of_nat (length xs)) = Some (e - (total xs + length v))"
    unfolding item_body_def ih_offset_def d at(2)
    using load_app [of "A @ entries e xs @ k" "NODE_HEAD_SIZE + length xs * item_size sb + unat (sb_key_size sb)" ?o "to_bytes ?s @ ?C"]
      assms(2,3,6) len by simp
  show "item_body_size sb (A @ entries e (xs @ (k, v) # ys) @ C) (of_nat (length xs)) = Some ?s"
    unfolding item_body_size_def ih_size_def d at(2)
    using load_app [of "A @ entries e xs @ k @ to_bytes ?o" "NODE_HEAD_SIZE + length xs * item_size sb + unat (sb_key_size sb) + 4" ?s ?C]
      assms(2,3) len by simp
  show "buf_read (A @ entries e (xs @ (k, v) # ys) @ C) (leaf_key_at sb (of_nat (length xs))) (unat (sb_key_size sb)) = Some k"
    unfolding d at(1) using assms(2,3) len by (intro read_app) simp_all
qed

lemma last_body:
  assumes "zs \<noteq> []" "keys_sized sb zs" "length A = NODE_HEAD_SIZE" "NODE_HEAD_SIZE + length zs * item_size sb < 2 ^ 32"
    and "total zs \<le> e" "e < 2 ^ 32"
  shows "item_body sb (A @ entries e zs @ C) (of_nat (length zs) - 1) = Some (e - total zs)"
proof -
  obtain ws k v where z: "zs = ws @ [(k, v)]" using assms(1) by (metis rev_exhaust surj_pair)
  have "item_body sb (A @ entries e (ws @ (k, v) # []) @ C) (of_nat (length ws)) = Some (e - (total ws + length v))"
    using assms z by (intro item_reads(1)) (simp_all add: item_size_def)
  then show ?thesis using z by simp
qed

lemma cut_list: "n \<le> length xs \<Longrightarrow> \<exists>a b. xs = a @ b \<and> length a = n"
  by (metis append_take_drop_id length_take min.absorb2)

subsection \<open>Inserting an item\<close>

lemma leaf_open_effect:
  fixes n f ds :: u32
  assumes "d = pre @ to_bytes n @ to_bytes f @ entries e (xs @ ys) @ h1 @ h2 @ h3 @ bodies (xs @ ys)" "length pre = 8"
    and "n = of_nat (length (xs @ ys))" "ys \<noteq> []" "keys_sized sb (xs @ ys)" "length d = e" "e < 2 ^ 32"
    and "length h1 = item_size sb" "length h3 = unat ds"
  shows "\<exists>y x. leaf_open sb d (of_nat (length xs)) ds = Some (pre @ to_bytes n @ to_bytes f @ entries e xs @ y
      @ entries (e - total xs - unat ds) ys @ h2 @ bodies ys @ x @ bodies xs, of_nat (e - total xs - unat ds))
    \<and> length y = item_size sb \<and> length x = unat ds"
proof -
  let ?I = "item_size sb" and ?H = "pre @ to_bytes n @ to_bytes f"
  have sized: "keys_sized sb xs" "keys_sized sb ys" using assms(5) by simp_all
  have len: "e = 16 + (length xs + length ys) * ?I + ?I + length h2 + unat ds + total ys + total xs"
    unfolding assms(6) [symmetric] by (subst assms(1)) (simp add: assms(2,8,9) length_entries [OF sized(1)] length_entries [OF sized(2)] entries_append add_mult_distrib)
  have H: "length ?H = NODE_HEAD_SIZE" using assms(2) by (simp add: NODE_HEAD_SIZE_def)
  have fits: "NODE_HEAD_SIZE + (length xs + length ys) * ?I < 2 ^ 32" "NODE_HEAD_SIZE + length xs * ?I < 2 ^ 32"
    "NODE_HEAD_SIZE + Suc (length xs) * ?I < 2 ^ 32"
    using len assms(7) by (simp_all add: NODE_HEAD_SIZE_def add_mult_distrib)
  have "1 \<le> ?I" by (simp add: item_size_def ITEM_HEAD_SIZE_def)
  then have "length xs + length ys \<le> (length xs + length ys) * ?I" by simp
  then have small: "length xs + length ys < 2 ^ 32" using fits(1) by linarith
  have head: "nh_items (?H @ C) = Some n" for C using head_reads(1) [OF assms(2)] by simp
  have n: "unat n = length xs + length ys"
    using small unat_of_nat_u32 [of "length xs + length ys"] by (simp add: assms(3))
  then have cnt: "unat n - unat (of_nat (length xs) :: u32) = length ys" using small by simp
  let ?E1 = "entries e xs" and ?E2 = "entries (e - total xs) ys"
  have d: "d = ?H @ ?E1 @ ?E2 @ h1 @ h2 @ h3 @ bodies ys @ bodies xs"
    by (subst assms(1)) (simp add: entries_append)
  have d': "d = ?H @ entries e (xs @ ys) @ h1 @ h2 @ h3 @ bodies ys @ bodies xs" using d by (simp add: entries_append)
  have p1: "length (?H @ ?E1) + unat (sb_key_size sb) = item_head_at sb (of_nat (length xs))"
    using H leaf_key_at_nat(2) [OF fits(2)] length_entries [OF sized(1)] by simp
  have size: "leaf_body_size sb d (of_nat (length xs)) n = Some (of_nat (total ys))"
    unfolding leaf_body_size_def cnt using body_loop_entries [OF sized(2) p1] d by simp
  have src: "item_body sb d (n - 1) = Some (e - (total xs + total ys))"
    using last_body [of "xs @ ys" sb ?H e "h1 @ h2 @ h3 @ bodies ys @ bodies xs"] assms(3,4,5,7) H fits(1) len d' by simp
  obtain t x where tx: "h3 @ bodies ys = t @ x" "length t = total ys"
    using cut_list [of "total ys" "h3 @ bodies ys"] by auto
  have x: "length x = unat ds" using arg_cong [OF tx(1), of length] tx(2) assms(9) by simp
  let ?d1 = "?H @ ?E1 @ ?E2 @ h1 @ h2 @ bodies ys @ x @ bodies xs"
  have m1: "block_move d (e - (total xs + total ys) - unat ds) (e - (total xs + total ys)) (total ys) = Some ?d1"
  proof -
    have "d = (?H @ ?E1 @ ?E2 @ h1 @ h2) @ t @ (x @ bodies xs)" using d tx(1) by simp
    moreover have "d = (?H @ ?E1 @ ?E2 @ h1 @ h2 @ h3) @ bodies ys @ bodies xs" using d by simp
    moreover have "length (?H @ ?E1 @ ?E2 @ h1 @ h2) = e - (total xs + total ys) - unat ds"
      using len assms(8) H by (simp add: length_entries [OF sized(1)] length_entries [OF sized(2)] NODE_HEAD_SIZE_def add_mult_distrib)
    moreover have "length (?H @ ?E1 @ ?E2 @ h1 @ h2 @ h3) = e - (total xs + total ys)"
      using len assms(8,9) H by (simp add: length_entries [OF sized(1)] length_entries [OF sized(2)] NODE_HEAD_SIZE_def add_mult_distrib)
    ultimately have "block_move d (e - (total xs + total ys) - unat ds) (e - (total xs + total ys)) (total ys)
        = Some ((?H @ ?E1 @ ?E2 @ h1 @ h2) @ bodies ys @ (x @ bodies xs))"
      using tx(2) length_bodies [of ys] by (intro move_app)
    then show ?thesis by simp
  qed
  have m2: "leaf_move_offsets sb ?d1 (of_nat (length xs)) n (- ds)
      = Some ((?H @ ?E1) @ entries (e - total xs - unat ds) ys @ h1 @ h2 @ bodies ys @ x @ bodies xs)"
  proof -
    have "total ys \<le> e - total xs" "total ys \<le> e - total xs - unat ds" using len by simp_all
    moreover have "of_nat (e - total xs - unat ds) = of_nat (e - total xs) + (- ds)"
      using len by (simp add: of_nat_diff)
    ultimately show ?thesis
      unfolding leaf_move_offsets_def cnt
      using offset_loop_entries [OF sized(2) p1, of "e - total xs" "e - total xs - unat ds" "- ds" "h1 @ h2 @ bodies ys @ x @ bodies xs"]
      by simp
  qed
  let ?E2' = "entries (e - total xs - unat ds) ys" and ?R = "h2 @ bodies ys @ x @ bodies xs"
  let ?d2 = "(?H @ ?E1) @ ?E2' @ h1 @ ?R"
  have lE: "length ?E2' = length ys * ?I" "length ?E1 = length xs * ?I" using length_entries sized by simp_all
  obtain y t2 where yt: "?E2' @ h1 = y @ t2" "length y = ?I"
    using cut_list [of ?I "?E2' @ h1"] assms(8) by auto
  have t2: "length t2 = length ys * ?I" using arg_cong [OF yt(1), of length] yt(2) lE assms(8) by simp
  have m3: "block_move ?d2 (leaf_key_at sb (of_nat (length xs) + 1)) (leaf_key_at sb (of_nat (length xs))) (length ys * ?I)
      = Some ((?H @ ?E1 @ y) @ ?E2' @ ?R)"
  proof -
    have "leaf_key_at sb (of_nat (length xs) + 1) = length (?H @ ?E1 @ y)"
      using leaf_key_at_nat(1) [OF fits(3)] H lE yt(2) by (simp add: NODE_HEAD_SIZE_def ac_simps)
    moreover have "leaf_key_at sb (of_nat (length xs)) = length (?H @ ?E1)"
      using leaf_key_at_nat(1) [OF fits(2)] H lE by simp
    moreover have "?d2 = (?H @ ?E1 @ y) @ t2 @ ?R" using yt(1) by simp
    ultimately show ?thesis using t2 lE by (intro move_app [of ?d2 "?H @ ?E1" ?E2' "h1 @ ?R"]) simp_all
  qed
  have sz: "unat (of_nat (unat (n - of_nat (length xs)) * ?I) :: u32) = length ys * ?I"
  proof -
    have "n - of_nat (length xs) = of_nat (length ys)" by (simp add: assms(3))
    moreover have "length ys * ?I < 2 ^ 32" using fits(1) by (simp add: add_mult_distrib)
    ultimately have "unat (n - of_nat (length xs)) * ?I = length ys * ?I" "length ys * ?I < 2 ^ 32" using small by simp_all
    then show ?thesis by (simp only: unat_of_nat_u32)
  qed
  have off: "of_nat (e - (total xs + total ys) - unat ds + total ys) = (of_nat (e - total xs - unat ds) :: u32)"
    using len by (intro arg_cong [of _ _ of_nat]) simp
  have ty: "unat (of_nat (total ys) :: u32) = total ys" "unat ds \<le> e - (total xs + total ys)" using len assms(7) by simp_all
  have "nh_items d = Some n" "nh_items ?d1 = Some n" "nh_items ?d2 = Some n" using head d by simp_all
  then have "leaf_open sb d (of_nat (length xs)) ds = Some ((?H @ ?E1 @ y) @ ?E2' @ ?R, of_nat (e - total xs - unat ds))"
    unfolding leaf_open_def using size src m1 m2 m3 sz off ty by simp
  then show ?thesis using yt(2) x by auto
qed

lemma leaf_insert_effect:
  fixes ds :: u32
  assumes "bn_data nd = Some d" "leaf_rep sb d (xs @ ys)" "i = of_nat (length xs)"
    and "buf_read key 0 (unat (sb_key_size sb)) = Some k" "buf_read value 0 (unat ds) = Some v"
    and "NODE_HEAD_SIZE + Suc (length (xs @ ys)) * item_size sb + total (xs @ ys) + unat ds \<le> length d"
  shows "\<exists>d'. leaf_insert sb nd i key value ds
      = Some (sb\<lparr>sb_item_count := sb_item_count sb + 1, sb_stored_data := sb_stored_data sb + ucast ds\<rparr>,
              node_set_dirty (nd\<lparr>bn_data := Some d'\<rparr>))
    \<and> leaf_rep sb d' (xs @ (k, v) # ys) \<and> take 8 d' = take 8 d"
proof -
  let ?I = "item_size sb"
  obtain e where e0: "length d = e" by blast
  obtain pre gap where d: "d = leaf_image pre e (xs @ ys) gap" "length pre = 8"
    and sized: "keys_sized sb xs" "keys_sized sb ys" and e: "e = unat (sb_block_size sb)" "e < 2 ^ 32"
    using assms(2) unsigned_less [where 'a = nat, of "sb_block_size sb"] e0 by (auto simp: leaf_rep_def)
  have kv: "length k = unat (sb_key_size sb)" "length v = unat ds" using assms(4,5) by (auto simp: buf_read_def split: if_splits)
  have lE: "length (entries e' xs) = length xs * ?I" "length (entries e' ys) = length ys * ?I" for e'
    using length_entries sized by blast+
  have len: "e = 16 + (length xs + length ys) * ?I + length gap + total (xs @ ys)"
    using arg_cong [OF d(1), of length] d(2) by (simp add: e0 leaf_image_def entries_append lE add_mult_distrib)
  then have room: "?I + unat ds \<le> length gap" using assms(6) e0 by (simp add: NODE_HEAD_SIZE_def)
  then obtain h1 h23 where h1: "gap = h1 @ h23" "length h1 = ?I" using cut_list [of ?I gap] by auto
  obtain h2 h3 where h3: "h23 = h2 @ h3" "length h2 = length h23 - unat ds"
    using cut_list [of "length h23 - unat ds" h23] diff_le_self by blast
  have l3: "length h3 = unat ds" "length gap = ?I + length h2 + unat ds"
    using h1 h3 room by simp_all
  let ?n = "of_nat (length (xs @ ys)) :: u32" and ?f = "of_nat (length gap) :: u32"
  let ?H = "pre @ to_bytes ?n @ to_bytes ?f" and ?off = "e - total xs - unat ds"
  have img: "d = ?H @ entries e (xs @ ys) @ h1 @ h2 @ h3 @ bodies (xs @ ys)" using d(1) h1(1) h3(1) by (simp add: leaf_image_def)
  have head: "nh_items (?H @ C) = Some ?n" "nh_free (?H @ C) = Some ?f" for C using head_reads(1,2) [OF d(2)] by simp_all
  have "1 \<le> ?I" by (simp add: item_size_def ITEM_HEAD_SIZE_def)
  then have "length xs + length ys \<le> (length xs + length ys) * ?I" by simp
  then have small: "length xs + length ys < 2 ^ 32" "length gap < 2 ^ 32" using len e(2) by linarith+
  have n: "unat ?n = length xs + length ys" "unat ?f = length gap" using small unat_of_nat_u32 [of "length (xs @ ys)"] by simp_all
  have "\<exists>y x. (if i < ?n then leaf_open sb d i ds
      else Some (d, of_nat (unat (?f - ds) + NODE_HEAD_SIZE + unat ?n * ?I)))
    = Some (?H @ entries e xs @ y @ entries ?off ys @ h2 @ bodies ys @ x @ bodies xs, of_nat ?off)
    \<and> length y = ?I \<and> length x = unat ds"
  proof (cases "ys = []")
    case False
    have "i < ?n" using False small n(1) assms(3) by (simp add: word_less_nat_alt)
    then show ?thesis
      using leaf_open_effect [OF img [unfolded append.assoc] d(2) refl False _ e0 e(2) h1(2) l3(1)] sized assms(3) by simp
  next
    case True
    have "?f - ds = of_nat (?I + length h2)" by (simp add: l3(2))
    moreover have "?I + length h2 < 2 ^ 32" using small(2) l3(2) by simp
    ultimately have "unat (?f - ds) = ?I + length h2" by (simp only: unat_of_nat_u32)
    then have "unat (?f - ds) + NODE_HEAD_SIZE + unat ?n * ?I = ?off"
      using l3(2) len True n(1) by (simp add: NODE_HEAD_SIZE_def)
    moreover have "\<not> i < ?n" using True assms(3) by simp
    moreover have "d = ?H @ entries e xs @ h1 @ entries ?off ys @ h2 @ bodies ys @ h3 @ bodies xs" by (subst img) (simp add: True)
    ultimately show ?thesis using h1(2) l3(1) by auto
  qed
  then obtain y x where op: "(if i < ?n then leaf_open sb d i ds
      else Some (d, of_nat (unat (?f - ds) + NODE_HEAD_SIZE + unat ?n * ?I)))
    = Some (?H @ entries e xs @ y @ entries ?off ys @ h2 @ bodies ys @ x @ bodies xs, of_nat ?off)"
    "length y = ?I" "length x = unat ds" by blast
  obtain y1 y2 where y: "y = y1 @ y2" "length y1 = unat (sb_key_size sb)" "length y2 = 8"
    using cut_list [of "unat (sb_key_size sb)" y] op(2) by (auto simp: item_size_def ITEM_HEAD_SIZE_def)
  let ?T = "entries ?off ys @ h2 @ bodies ys" and ?off' = "of_nat ?off :: u32"
  have H: "length (?H @ entries e xs) = NODE_HEAD_SIZE + length xs * ?I" using d(2) lE by (simp add: NODE_HEAD_SIZE_def)
  have at: "leaf_key_at sb i = length (?H @ entries e xs)" "item_head_at sb i = length (?H @ entries e xs @ k)"
    using leaf_key_at_nat [of "length xs" sb] len e(2) assms(3) H kv(1) by (simp_all add: NODE_HEAD_SIZE_def add_mult_distrib)
  have w1: "buf_write (?H @ entries e xs @ y @ ?T @ x @ bodies xs) (leaf_key_at sb i) k
      = Some (?H @ entries e xs @ k @ y2 @ ?T @ x @ bodies xs)"
    using write_app [of "?H @ entries e xs" _ k y1 "y2 @ ?T @ x @ bodies xs"] at(1) y kv(1) by simp
  have w2: "buf_write (?H @ entries e xs @ k @ y2 @ ?T @ x @ bodies xs) (item_head_at sb i) (to_bytes ?off' @ to_bytes ds)
      = Some (?H @ entries e xs @ k @ to_bytes ?off' @ to_bytes ds @ ?T @ x @ bodies xs)"
    using write_app [of "?H @ entries e xs @ k" _ "to_bytes ?off' @ to_bytes ds" y2 "?T @ x @ bodies xs"] at(2) y(3) by simp
  let ?E = "entries e (xs @ (k, v) # ys)"
  have E: "entries e xs @ k @ to_bytes ?off' @ to_bytes ds @ entries ?off ys = ?E" using kv(2) by (simp add: entries_append)
  have "length (?H @ ?E @ h2 @ bodies ys) = ?off"
    using len l3 d(2) lE kv by (simp add: entries_append item_size_def ITEM_HEAD_SIZE_def add_mult_distrib)
  moreover have "unat ?off' = ?off" using e(2) by simp
  ultimately have w3: "buf_write (?H @ ?E @ h2 @ bodies ys @ x @ bodies xs) (unat ?off') v
      = Some (?H @ ?E @ h2 @ bodies ys @ v @ bodies xs)"
    using write_app [of "?H @ ?E @ h2 @ bodies ys" _ v x "bodies xs"] op(3) kv(2) by simp
  have f: "?f - of_nat (?I + unat ds) = of_nat (length h2)" using l3(2) by simp
  let ?d = "leaf_image pre e (xs @ (k, v) # ys) h2"
  have w4: "store (?H @ ?E @ h2 @ bodies ys @ v @ bodies xs) 12 (of_nat (length h2) :: u32)
      = Some (pre @ to_bytes ?n @ to_bytes (of_nat (length h2) :: u32) @ ?E @ h2 @ bodies ys @ v @ bodies xs)"
    using head_reads(4) [OF d(2)] by simp
  have w5: "store (pre @ to_bytes ?n @ to_bytes (of_nat (length h2) :: u32) @ ?E @ h2 @ bodies ys @ v @ bodies xs) 8 (?n + 1)
      = Some ?d"
    using head_reads(3) [OF d(2)] by (simp add: leaf_image_def ac_simps)
  have "length ?d = e" using d(2) len l3(2) lE kv by (simp add: leaf_image_def entries_append item_size_def ITEM_HEAD_SIZE_def add_mult_distrib)
  moreover have "take 8 ?d = take 8 d" using d by (simp add: leaf_image_def)
  moreover have "leaf_rep sb ?d (xs @ (k, v) # ys)"
    unfolding leaf_rep_def calculation(1) using sized kv(1) d(2) e(1) e0 by auto
  moreover have "leaf_insert sb nd i key value ds
      = Some (sb\<lparr>sb_item_count := sb_item_count sb + 1, sb_stored_data := sb_stored_data sb + ucast ds\<rparr>,
              node_set_dirty (nd\<lparr>bn_data := Some ?d\<rparr>))"
  proof -
    have r: "nh_items d = Some ?n" "nh_free d = Some ?f" using head img by simp_all
    have r3: "nh_items (pre @ to_bytes ?n @ to_bytes (of_nat (length h2) :: u32) @ C) = Some ?n" for C
      using head_reads(1) [OF d(2)] by simp
    have w2': "buf_write (?H @ entries e xs @ k @ y2 @ ?T @ x @ bodies xs) (item_head_at sb i) (to_bytes ?off' @ to_bytes ds)
      = Some (?H @ ?E @ h2 @ bodies ys @ x @ bodies xs)" unfolding w2 E [symmetric] by simp
    have b: "?T @ x @ bodies xs = entries ?off ys @ h2 @ bodies ys @ x @ bodies xs" by simp
    show ?thesis
      unfolding leaf_insert_def
      by (simp only: assms(1,4,5) r op(1) bind.bind_lunit Let_def prod.case w1 [unfolded b] w2' [unfolded b] w3 head(2) f w4 r3 w5)
  qed
  ultimately show ?thesis by blast
qed

subsection \<open>Removing an item\<close>

lemma leaf_close_effect:
  fixes n f :: u32
  assumes "d = (pre @ to_bytes n @ to_bytes f) @ entries e (xs @ (k, v) # ys) @ gap @ bodies ys @ v @ bodies xs" "length pre = 8"
    and "n = of_nat (length (xs @ (k, v) # ys))" "ys \<noteq> []" "keys_sized sb (xs @ (k, v) # ys)" "length d = e" "e < 2 ^ 32"
    and "NODE_HEAD_SIZE + Suc (length (xs @ (k, v) # ys)) * item_size sb \<le> e" "i = of_nat (length xs)"
  shows "\<exists>d1 d2 g. block_move d (e - (total xs + length v + total ys) + length v) (e - (total xs + length v + total ys)) (total ys) = Some d1
    \<and> leaf_move_offsets sb d1 i n (of_nat (length v)) = Some d2
    \<and> block_move d2 (leaf_key_at sb i) (leaf_key_at sb (i + 1)) (unat (of_nat (unat (n - i) * item_size sb) :: u32))
       = Some ((pre @ to_bytes n @ to_bytes f) @ entries e (xs @ ys) @ g @ bodies ys @ bodies xs)
    \<and> nh_items d1 = Some n \<and> nh_items d2 = Some n \<and> length g = length gap + item_size sb + length v"
proof -
  let ?I = "item_size sb" and ?H = "pre @ to_bytes n @ to_bytes f"
  have sized: "keys_sized sb xs" "keys_sized sb ys" "keys_sized sb ((k, v) # ys)" and k: "length k = unat (sb_key_size sb)"
    using assms(5) by simp_all
  have lE: "length (entries e' xs) = length xs * ?I" "length (entries e' ys) = length ys * ?I"
    "length (entries e' ((k, v) # ys)) = length ys * ?I + ?I" for e'
    using length_entries [OF sized(1)] length_entries [OF sized(2)] length_entries [OF sized(3)] by (simp_all add: ac_simps)
  have H: "length ?H = NODE_HEAD_SIZE" using assms(2) by (simp add: NODE_HEAD_SIZE_def)
  have len: "e = 16 + length xs * ?I + (length ys * ?I + ?I) + length gap + total ys + length v + total xs"
    unfolding assms(6) [symmetric] by (subst assms(1)) (simp only: entries_append length_append lE length_bodies assms(2), simp)
  have fits: "NODE_HEAD_SIZE + length xs * ?I < 2 ^ 32" "NODE_HEAD_SIZE + Suc (length xs) * ?I < 2 ^ 32"
    using len assms(7) by (simp_all add: NODE_HEAD_SIZE_def)
  have "1 \<le> ?I" by (simp add: item_size_def ITEM_HEAD_SIZE_def)
  then have le: "length xs \<le> length xs * ?I" "length ys \<le> length ys * ?I" by simp_all
  have small: "length xs + length ys + 1 < 2 ^ 32" using len le assms(7) by linarith
  have n: "n = of_nat (Suc (length xs + length ys))" by (simp add: assms(3))
  have cnt: "unat n - unat i = length ((k, v) # ys)" using small unat_of_nat_u32 [of "Suc (length xs + length ys)"] n assms(9) by simp
  have head: "nh_items (?H @ C) = Some n" for C using head_reads(1) [OF assms(2)] by simp
  let ?E1 = "entries e xs" and ?e1 = "e - total xs"
  let ?e2 = "?e1 - length v" and ?o' = "of_nat ?e1 :: u32" and ?s = "of_nat (length v) :: u32"
  obtain x t where xt: "bodies ys @ v = x @ t" "length x = length v" using cut_list [of "length v" "bodies ys @ v"] by auto
  have t: "length t = total ys" using arg_cong [OF xt(1), of length] xt(2) by simp
  let ?R = "gap @ x @ bodies ys @ bodies xs"
  let ?d1 = "(?H @ ?E1) @ entries ?e1 ((k, v) # ys) @ ?R"
  have m1: "block_move d (e - (total xs + length v + total ys) + length v) (e - (total xs + length v + total ys)) (total ys) = Some ?d1"
  proof -
    have "d = (?H @ ?E1 @ entries ?e1 ((k, v) # ys) @ gap) @ bodies ys @ (v @ bodies xs)" using assms(1) by (simp add: entries_append)
    moreover have "d = (?H @ ?E1 @ entries ?e1 ((k, v) # ys) @ gap @ x) @ t @ bodies xs"
      using assms(1) xt(1) by (simp add: entries_append flip: append_assoc)
    moreover have "length (?H @ ?E1 @ entries ?e1 ((k, v) # ys) @ gap) = e - (total xs + length v + total ys)"
      using len by (simp only: length_append lE assms(2)) simp
    moreover have "length (?H @ ?E1 @ entries ?e1 ((k, v) # ys) @ gap @ x) = e - (total xs + length v + total ys) + length v"
      using len xt(2) by (simp only: length_append lE assms(2)) simp
    ultimately have "block_move d (e - (total xs + length v + total ys) + length v) (e - (total xs + length v + total ys)) (total ys)
        = Some ((?H @ ?E1 @ entries ?e1 ((k, v) # ys) @ gap @ x) @ bodies ys @ bodies xs)"
      using t length_bodies [of ys] by (intro move_app)
    then show ?thesis by simp
  qed
  have p1: "length (?H @ ?E1) + unat (sb_key_size sb) = item_head_at sb i"
    using H leaf_key_at_nat(2) [OF fits(1)] lE assms(9) by simp
  let ?d2 = "(?H @ ?E1) @ entries (?e1 + length v) ((k, v) # ys) @ ?R"
  have m2: "leaf_move_offsets sb ?d1 i n ?s = Some ?d2"
    unfolding leaf_move_offsets_def cnt
    using len by (intro offset_loop_entries [OF sized(3) p1]) simp_all
  have keys: "unat (of_nat (unat (n - i) * ?I) :: u32) = (length ys + 1) * ?I"
  proof -
    have "n - i = of_nat (length ys + 1)" using n assms(9) by simp
    then have "unat (n - i) = length ys + 1" using small unat_of_nat_u32 [of "length ys + 1"] by simp
    moreover have "(length ys + 1) * ?I < 2 ^ 32" using len assms(7) by simp
    ultimately show ?thesis by (simp only: unat_of_nat_u32)
  qed
  have "?I \<le> length ?R" using len assms(8) xt(2) by (simp add: NODE_HEAD_SIZE_def add_mult_distrib)
  then obtain j r where j: "?R = j @ r" "length j = ?I" using cut_list by blast
  let ?K = "k @ to_bytes ?o' @ to_bytes ?s" and ?E2 = "entries ?e1 ys"
  have K: "length ?K = ?I" using k by (simp add: item_size_def ITEM_HEAD_SIZE_def)
  have d2: "?d2 = (?H @ ?E1) @ ?K @ ?E2 @ ?R" by simp
  have m3: "block_move ?d2 (leaf_key_at sb i) (leaf_key_at sb (i + 1)) ((length ys + 1) * ?I) = Some ((?H @ ?E1) @ (?E2 @ j) @ (j @ r))"
  proof (rule move_app)
    show "?d2 = (?H @ ?E1 @ ?K) @ (?E2 @ j) @ r" unfolding d2 j(1) by simp
    show "?d2 = (?H @ ?E1) @ (?K @ ?E2) @ (j @ r)" unfolding d2 j(1) by simp
    show "length (?H @ ?E1) = leaf_key_at sb i" using leaf_key_at_nat(1) [OF fits(1)] H lE assms(9) by simp
    show "length (?H @ ?E1 @ ?K) = leaf_key_at sb (i + 1)"
      using leaf_key_at_nat(1) [OF fits(2)] assms(2,9) lE K by (simp add: NODE_HEAD_SIZE_def ac_simps)
    show "length (?E2 @ j) = (length ys + 1) * ?I" using lE j(2) by simp
    show "length (?K @ ?E2) = (length ys + 1) * ?I" unfolding length_append K using lE by simp
  qed
  have fin: "(?H @ ?E1) @ (?E2 @ j) @ (j @ r) = ?H @ entries e (xs @ ys) @ (j @ gap @ x) @ bodies ys @ bodies xs"
    unfolding j(1) [symmetric] by (simp add: entries_append)
  have "nh_items ?d1 = Some n" "nh_items ?d2 = Some n" "length (j @ gap @ x) = length gap + ?I + length v"
    using head j(2) xt(2) by simp_all
  then show ?thesis using m1 m2 m3 unfolding keys fin by blast
qed

lemma leaf_remove_effect:
  assumes "bn_data nd = Some d" "leaf_rep sb d (xs @ (k, v) # ys)" "i = of_nat (length xs)"
    and "ys \<noteq> [] \<Longrightarrow> NODE_HEAD_SIZE + Suc (length (xs @ (k, v) # ys)) * item_size sb \<le> length d"
  shows "\<exists>d'. leaf_remove sb nd i
      = Some (sb\<lparr>sb_item_count := sb_item_count sb - 1, sb_stored_data := sb_stored_data sb - of_nat (length v)\<rparr>,
              node_set_dirty (nd\<lparr>bn_data := Some d'\<rparr>))
    \<and> leaf_rep sb d' (xs @ ys) \<and> take 8 d' = take 8 d"
proof -
  let ?I = "item_size sb"
  obtain e where e0: "length d = e" by blast
  obtain pre gap where d: "d = leaf_image pre e (xs @ (k, v) # ys) gap" "length pre = 8"
    and sized: "keys_sized sb xs" "keys_sized sb ys" "length k = unat (sb_key_size sb)"
    and e: "e = unat (sb_block_size sb)" "e < 2 ^ 32"
    using assms(2) unsigned_less [where 'a = nat, of "sb_block_size sb"] e0 by (auto simp: leaf_rep_def)
  have sized': "keys_sized sb (xs @ (k, v) # ys)" using sized by simp
  let ?n = "of_nat (length (xs @ (k, v) # ys)) :: u32" and ?f = "of_nat (length gap) :: u32"
  let ?H = "pre @ to_bytes ?n @ to_bytes ?f"
  have H: "length ?H = NODE_HEAD_SIZE" using d(2) by (simp add: NODE_HEAD_SIZE_def)
  have lE: "length (entries e' (xs @ ys)) = (length xs + length ys) * ?I"
    "length (entries e' (xs @ (k, v) # ys)) = (length xs + length ys + 1) * ?I" for e'
    using length_entries [of sb "xs @ ys"] length_entries [OF sized'] sized by simp_all
  have img: "d = ?H @ entries e (xs @ (k, v) # ys) @ gap @ bodies ys @ v @ bodies xs" using d(1) by (simp add: leaf_image_def)
  have len: "e = 16 + (length xs + length ys + 1) * ?I + length gap + total ys + length v + total xs"
    unfolding e0 [symmetric] by (subst img) (simp only: length_append lE length_bodies d(2), simp)
  have "1 \<le> ?I" by (simp add: item_size_def ITEM_HEAD_SIZE_def)
  from mult_le_mono2 [OF this, of "length xs + length ys + 1"]
  have "length xs + length ys + 1 \<le> (length xs + length ys + 1) * ?I" by (simp only: mult_1_right)
  then have small: "length xs + length ys + 1 < 2 ^ 32" using len e(2) by linarith
  have n: "unat ?n = length xs + length ys + 1" using small unat_of_nat_u32 [of "length (xs @ (k, v) # ys)"] by simp
  have fits: "NODE_HEAD_SIZE + length (xs @ (k, v) # ys) * ?I < 2 ^ 32" "NODE_HEAD_SIZE + length xs * ?I < 2 ^ 32"
    using len e(2) by (simp_all add: NODE_HEAD_SIZE_def add_mult_distrib)
  have head: "nh_items (?H @ C) = Some ?n" "nh_free (?H @ C) = Some ?f" for C using head_reads(1,2) [OF d(2)] by simp_all
  have ds: "item_body_size sb d i = Some (of_nat (length v))"
    unfolding img assms(3) using item_reads(2) [OF sized(1,3) H fits(2)] len e(2) by simp
  let ?m = "i + 1 < ?n"
  have i2: "i + 1 = of_nat (length (xs @ [(k, v)]))" using assms(3) by simp
  have i1: "unat (i + 1) = length xs + 1" unfolding i2 using small by (subst unat_of_nat_u32) simp_all
  let ?prog = "if ?m then do {
        src \<leftarrow> item_body sb d (?n - 1);
        sz \<leftarrow> leaf_body_size sb d (i + 1) ?n;
        d \<leftarrow> block_move d (src + unat (of_nat (length v) :: u32)) src (unat sz);
        items \<leftarrow> nh_items d;
        d \<leftarrow> leaf_move_offsets sb d i items (of_nat (length v));
        items \<leftarrow> nh_items d;
        block_move d (leaf_key_at sb i) (leaf_key_at sb (i + 1)) (unat (of_nat (unat (items - i) * ?I) :: u32))
      } else Some d"
  have "\<exists>d1 g. ?prog = Some d1
    \<and> d1 = ?H @ entries e (xs @ ys) @ g @ bodies ys @ bodies xs \<and> length g = length gap + ?I + length v"
  proof (cases "ys = []")
    case True
    then have "\<not> ?m" using i1 n by (simp add: word_less_nat_alt)
    moreover have "d = ?H @ entries e (xs @ ys) @ (entries (e - total xs) [(k, v)] @ gap @ v) @ bodies ys @ bodies xs"
      by (subst img) (simp add: entries_append True)
    moreover have "length (entries (e - total xs) [(k, v)] @ gap @ v) = length gap + ?I + length v"
      using sized(3) by (simp add: item_size_def ITEM_HEAD_SIZE_def)
    ultimately show ?thesis by (intro exI [of _ d] exI [of _ "entries (e - total xs) [(k, v)] @ gap @ v"]) simp
  next
    case False
    have m: ?m "unat ?n - unat (i + 1) = length ys" using n i1 False by (simp_all add: word_less_nat_alt)
    have src: "item_body sb d (?n - 1) = Some (e - (total xs + length v + total ys))"
      unfolding img using last_body [OF _ sized' H fits(1), of e "gap @ bodies ys @ v @ bodies xs"] len e(2) by (simp add: add.assoc)
    have "NODE_HEAD_SIZE + length (xs @ [(k, v)]) * ?I < 2 ^ 32" using fits(1) by (simp add: add_mult_distrib)
    from leaf_key_at_nat(2) [OF this] have p: "length (?H @ entries e (xs @ [(k, v)])) + unat (sb_key_size sb) = item_head_at sb (i + 1)"
      unfolding i2 using length_entries [of sb "xs @ [(k, v)]" e] sized H by simp
    have "d = (?H @ entries e (xs @ [(k, v)])) @ entries (e - total (xs @ [(k, v)])) ys @ gap @ bodies ys @ v @ bodies xs"
      unfolding img by (simp add: entries_append)
    then have sz: "leaf_body_size sb d (i + 1) ?n = Some (of_nat (total ys))"
      unfolding leaf_body_size_def m(2) using body_loop_entries [OF sized(2) p] by simp
    have room: "NODE_HEAD_SIZE + Suc (length (xs @ (k, v) # ys)) * ?I \<le> e" using assms(4) False e0 by simp
    have u: "unat (of_nat (length v) :: u32) = length v" "unat (of_nat (total ys) :: u32) = total ys" using len e(2) by simp_all
    obtain d1 d2 g where c: "block_move d (e - (total xs + length v + total ys) + length v) (e - (total xs + length v + total ys)) (total ys) = Some d1"
      "leaf_move_offsets sb d1 i ?n (of_nat (length v)) = Some d2"
      "block_move d2 (leaf_key_at sb i) (leaf_key_at sb (i + 1)) (unat (of_nat (unat (?n - i) * item_size sb) :: u32))
        = Some (?H @ entries e (xs @ ys) @ g @ bodies ys @ bodies xs)" "nh_items d1 = Some ?n" "nh_items d2 = Some ?n"
      "length g = length gap + item_size sb + length v"
      using leaf_close_effect [OF img d(2) refl False sized' e0 e(2) room assms(3)] by blast
    have "?prog = Some (?H @ entries e (xs @ ys) @ g @ bodies ys @ bodies xs)"
      using m(1) by (simp only: if_True src sz bind.bind_lunit u c)
    then show ?thesis using c(6) by blast
  qed
  then obtain d1 g where c: "?prog = Some d1"
    "d1 = ?H @ entries e (xs @ ys) @ g @ bodies ys @ bodies xs" "length g = length gap + ?I + length v" by blast
  have d1: "d1 = pre @ to_bytes ?n @ to_bytes ?f @ entries e (xs @ ys) @ g @ bodies (xs @ ys)" using c(2) by simp
  let ?f' = "of_nat (length g) :: u32" and ?d = "leaf_image pre e (xs @ ys) g"
  have u: "unat (of_nat (length v) :: u32) = length v" using len e(2) by simp
  have f: "?f + of_nat (?I + length v) = ?f'" using c(3) by (simp add: ac_simps)
  have n1: "?n - 1 = of_nat (length (xs @ ys))" by simp
  have w4: "store d1 12 ?f' = Some (pre @ to_bytes ?n @ to_bytes ?f' @ entries e (xs @ ys) @ g @ bodies (xs @ ys))"
    unfolding d1 using head_reads(4) [OF d(2)] by simp
  have w5: "store (pre @ to_bytes ?n @ to_bytes ?f' @ entries e (xs @ ys) @ g @ bodies (xs @ ys)) 8 (?n - 1) = Some ?d"
    unfolding n1 leaf_image_def using head_reads(3) [OF d(2)] by simp
  have r: "nh_items d = Some ?n" "nh_free d1 = Some ?f"
    "nh_items (pre @ to_bytes ?n @ to_bytes ?f' @ entries e (xs @ ys) @ g @ bodies (xs @ ys)) = Some ?n"
    using head img d1 head_reads(1) [OF d(2), of ?n ?f'] by simp_all
  have "leaf_remove sb nd i
      = Some (sb\<lparr>sb_item_count := sb_item_count sb - 1, sb_stored_data := sb_stored_data sb - ucast (of_nat (length v) :: u32)\<rparr>,
              node_set_dirty (nd\<lparr>bn_data := Some ?d\<rparr>))"
    unfolding leaf_remove_def by (simp only: assms(1) ds r bind.bind_lunit u c(1) [unfolded u] f w4 w5)
  moreover have "ucast (of_nat (length v) :: u32) = (of_nat (length v) :: u64)" by (metis u of_nat_unat)
  moreover have "length ?d = e"
    using len c(3) d(2) by (simp only: leaf_image_def length_append lE length_bodies total_simps) simp
  moreover have "take 8 ?d = take 8 d" using d by (simp add: leaf_image_def)
  moreover have "leaf_rep sb ?d (xs @ ys)"
    unfolding leaf_rep_def \<open>length ?d = e\<close> using sized d(2) e(1) by auto
  ultimately show ?thesis by auto
qed

subsection \<open>The binary search\<close>

text \<open>The sign of the comparison of the elements with the key: negative, then at most one zero, then positive.\<close>

definition sign_sorted :: "(nat \<Rightarrow> int) \<Rightarrow> nat \<Rightarrow> bool" where
  "sign_sorted f n \<longleftrightarrow> (\<forall>i j. i < j \<and> j < n \<and> f j \<le> 0 \<longrightarrow> f i < 0)"

definition rank :: "(nat \<Rightarrow> int) \<Rightarrow> nat \<Rightarrow> nat" where
  "rank f n = length (filter (\<lambda>j. f j < 0) [0..<n])"

lemma rank_eq:
  assumes "i \<le> n" "\<And>j. j < i \<Longrightarrow> f j < 0" "\<And>j. i \<le> j \<Longrightarrow> j < n \<Longrightarrow> 0 \<le> f j"
  shows "rank f n = i"
proof -
  have "[0..<n] = [0..<i] @ [i..<n]" using assms(1) by (metis le_add_diff_inverse upt_add_eq_append zero_le)
  moreover have "filter (\<lambda>j. f j < 0) [0..<i] = [0..<i]" using assms(2) by (intro filter_True) simp
  moreover have "filter (\<lambda>j. f j < 0) [i..<n] = []" using assms(3) by (intro filter_False) (auto simp: not_less)
  ultimately show ?thesis by (simp add: rank_def)
qed

lemma search_loop_correct:
  assumes "\<And>j. j < n \<Longrightarrow> buf_read d (base + j * sz) ksize = Some (keys j)" "\<And>j. j < n \<Longrightarrow> cmp (keys j) = Some (f j)"
    and "sign_sorted f n" "0 \<le> low" "high < int n"
    and "\<And>j. int j < low \<Longrightarrow> f j < 0" "\<And>j. high < int j \<Longrightarrow> j < n \<Longrightarrow> 0 < f j" "low \<le> high + 1"
  shows "search_loop d base sz ksize cmp low high = Some (\<exists>j < n. f j = 0, of_nat (rank f n))"
  using assms(4-8)
proof (induction "nat (high + 1 - low)" arbitrary: low high rule: less_induct)
  case less
  show ?case
  proof (cases "low \<le> high")
    case False
    let ?i = "nat low"
    have "int ?i = low" "?i \<le> n" "low = high + 1" using less.prems(1,2,5) False by simp_all
    have low: "f j < 0" if "j < ?i" for j using less.prems(3) that by simp
    have high: "0 < f j" if "?i \<le> j" "j < n" for j using less.prems(4) that \<open>low = high + 1\<close> by simp
    have "rank f n = ?i" using low high \<open>?i \<le> n\<close> by (intro rank_eq) (auto simp: less_imp_le)
    moreover have "f j \<noteq> 0" if "j < n" for j using low [of j] high [of j] that by (cases "j < ?i") auto
    then have "\<not> (\<exists>j < n. f j = 0)" by blast
    moreover have "(word_of_int low :: u32) = of_nat ?i" using \<open>int ?i = low\<close> by (metis of_int_of_nat_eq)
    ultimately show ?thesis using False by (simp add: search_loop.simps)
  next
    case True
    let ?m = "(low + high) div 2"
    let ?i = "nat ?m"
    have m: "low \<le> ?m" "?m \<le> high" "int ?i = ?m" "?i < n" using True less.prems(1,2) by auto
    have read: "buf_read d (base + ?i * sz) ksize = Some (keys ?i)" "cmp (keys ?i) = Some (f ?i)" using assms(1,2) m(4) by simp_all
    have below: "f j < 0" if "j < ?i" "f ?i \<le> 0" for j using assms(3) that m(4) by (auto simp: sign_sorted_def)
    have above: "0 < f j" if "?i < j" "j < n" "0 \<le> f ?i" for j using assms(3) that by (fastforce simp: sign_sorted_def)
    consider "f ?i = 0" | "f ?i < 0" | "0 < f ?i" by linarith
    then show ?thesis
    proof cases
      case 1
      have "rank f n = ?i"
      proof (rule rank_eq)
        show "0 \<le> f j" if "?i \<le> j" "j < n" for j using above [of j] 1 that by (cases "j = ?i") auto
      qed (use below 1 m(4) in auto)
      moreover have "\<exists>j < n. f j = 0" using 1 m(4) by blast
      moreover have "(word_of_int ?m :: u32) = of_nat ?i" using m(3) by (metis of_int_of_nat_eq)
      ultimately show ?thesis using True read 1 by (subst search_loop.simps) (simp add: Let_def)
    next
      case 2
      have "search_loop d base sz ksize cmp (?m + 1) high = Some (\<exists>j < n. f j = 0, of_nat (rank f n))"
      proof (rule less.hyps)
        show "f j < 0" if "int j < ?m + 1" for j using below [of j] 2 that m(3) by (cases "j = ?i") auto
      qed (use m less.prems in auto)
      then show ?thesis using True read 2 by (subst search_loop.simps) (simp add: Let_def)
    next
      case 3
      have "search_loop d base sz ksize cmp low (?m - 1) = Some (\<exists>j < n. f j = 0, of_nat (rank f n))"
      proof (rule less.hyps)
        show "0 < f j" if "?m - 1 < int j" "j < n" for j using above [of j] 3 that m(3) by (cases "j = ?i") auto
      qed (use m less.prems in auto)
      then show ?thesis using True read 3 by (subst search_loop.simps) (simp add: Let_def)
    qed
  qed
qed

subsection \<open>Searching a leaf\<close>

lemma leaf_rep_reads:
  assumes "leaf_rep sb d xs" "j < length xs"
  shows "item_body sb d (of_nat j) = Some (length d - total (take (Suc j) xs))"
    "item_body_size sb d (of_nat j) = Some (of_nat (length (snd (xs ! j))))"
    "buf_read d (NODE_HEAD_SIZE + j * item_size sb) (unat (sb_key_size sb)) = Some (fst (xs ! j))"
    "buf_read d (length d - total (take (Suc j) xs)) (length (snd (xs ! j))) = Some (snd (xs ! j))"
proof -
  obtain e where e0: "length d = e" by blast
  obtain pre gap where d: "d = leaf_image pre e xs gap" "length pre = 8" and sized: "keys_sized sb xs" and e: "e < 2 ^ 32"
    using assms(1) unsigned_less [where 'a = nat, of "sb_block_size sb"] e0 by (auto simp: leaf_rep_def)
  obtain k v where kv: "xs ! j = (k, v)" by fastforce
  let ?as = "take j xs" and ?bs = "drop (Suc j) xs"
  have xs: "xs = ?as @ (k, v) # ?bs" using id_take_nth_drop [OF assms(2)] kv by simp
  have la: "length ?as = j" using assms(2) by simp
  have s: "keys_sized sb ?as" "length k = unat (sb_key_size sb)" using sized by (subst (asm) xs, simp)+
  let ?H = "pre @ to_bytes (of_nat (length xs) :: u32) @ to_bytes (of_nat (length gap) :: u32)"
  have img: "d = ?H @ entries e (?as @ (k, v) # ?bs) @ gap @ bodies xs" using d(1) xs by (simp add: leaf_image_def)
  have H: "length ?H = NODE_HEAD_SIZE" using d(2) by (simp add: NODE_HEAD_SIZE_def)
  have len: "e = 16 + length xs * item_size sb + length gap + total xs"
    using arg_cong [OF d(1), of length] d(2) e0 by (simp add: leaf_image_def length_entries [OF sized])
  have t: "total xs = total ?as + length v + total ?bs" using arg_cong [OF xs, of total] by simp
  have "j * item_size sb \<le> length xs * item_size sb" using assms(2) by (intro mult_le_mono1) simp
  then have fit: "NODE_HEAD_SIZE + length ?as * item_size sb < 2 ^ 32" unfolding la NODE_HEAD_SIZE_def using len e by linarith
  have ts: "total (take (Suc j) xs) = total ?as + length v" using take_Suc_conv_app_nth [OF assms(2)] kv by simp
  have fit2: "total ?as + length v \<le> e" using len t by simp
  note r = item_reads [OF s H fit fit2 e, of ?bs "gap @ bodies xs", folded img, unfolded la]
  show "item_body sb d (of_nat j) = Some (length d - total (take (Suc j) xs))" using r(1) ts e0 by simp
  show "item_body_size sb d (of_nat j) = Some (of_nat (length (snd (xs ! j))))" using r(2) kv by simp
  show "buf_read d (NODE_HEAD_SIZE + j * item_size sb) (unat (sb_key_size sb)) = Some (fst (xs ! j))"
    using r(3) leaf_key_at_nat(1) [OF fit] la kv by simp
  have "bodies xs = bodies ?bs @ v @ bodies ?as" by (subst xs) simp
  then have "d = (?H @ entries e (?as @ (k, v) # ?bs) @ gap @ bodies ?bs) @ v @ bodies ?as" using img by simp
  moreover have "length (?H @ entries e (?as @ (k, v) # ?bs) @ gap @ bodies ?bs) = e - (total ?as + length v)"
    using len t d(2) length_entries [OF sized, of e] by (subst xs [symmetric]) simp
  ultimately show "buf_read d (length d - total (take (Suc j) xs)) (length (snd (xs ! j))) = Some (snd (xs ! j))"
    unfolding e0 ts kv snd_conv by (metis read_app)
qed

text \<open>The keys in the order of the comparison: for a key, those before it, it, and those after it.\<close>

definition keys_sorted :: "(u8 list \<Rightarrow> u8 list \<Rightarrow> int) \<Rightarrow> u8 list \<Rightarrow> leaf_item list \<Rightarrow> bool" where
  "keys_sorted cmp key xs \<longleftrightarrow> sign_sorted (\<lambda>j. cmp (fst (xs ! j)) key) (length xs)"

lemma leaf_rep_items:
  assumes "leaf_rep sb d xs"
  shows "nh_items d = Some (of_nat (length xs))" "length xs < 2 ^ 31"
    "NODE_HEAD_SIZE + length xs * item_size sb + total xs \<le> length d" "length d < 2 ^ 32"
proof -
  obtain e where e0: "length d = e" by blast
  obtain pre gap where d: "d = leaf_image pre e xs gap" "length pre = 8" and sized: "keys_sized sb xs" and e: "e < 2 ^ 32"
    using assms unsigned_less [where 'a = nat, of "sb_block_size sb"] e0 by (auto simp: leaf_rep_def)
  show "nh_items d = Some (of_nat (length xs))" unfolding d(1) leaf_image_def by (rule head_reads(1) [OF d(2)])
  have "e = 16 + length xs * item_size sb + length gap + total xs"
    using arg_cong [OF d(1), of length] d(2) e0 by (simp add: leaf_image_def length_entries [OF sized])
  moreover have "length xs * 8 \<le> length xs * item_size sb" by (intro mult_le_mono2) (simp add: item_size_def ITEM_HEAD_SIZE_def)
  moreover have "(2 :: nat) ^ 32 = 8 * 2 ^ 29" "(2 :: nat) ^ 31 = 4 * 2 ^ 29" by simp_all
  ultimately have "length xs < 2 ^ 31 \<and> NODE_HEAD_SIZE + length xs * item_size sb + total xs \<le> length d"
    unfolding NODE_HEAD_SIZE_def using e e0 by (intro conjI) linarith+
  then show "length xs < 2 ^ 31" "NODE_HEAD_SIZE + length xs * item_size sb + total xs \<le> length d" by blast+
  show "length d < 2 ^ 32" using e e0 by simp
qed

definition key_rank :: "(u8 list \<Rightarrow> u8 list \<Rightarrow> int) \<Rightarrow> u8 list \<Rightarrow> leaf_item list \<Rightarrow> nat" where
  "key_rank cmp key xs = rank (\<lambda>j. cmp (fst (xs ! j)) key) (length xs)"

lemma leaf_index_search_effect:
  assumes "bn_data n = Some d" "leaf_rep sb d xs" "keys_sorted (cb_keycmp cb) key xs"
  shows "leaf_index_search sb cb n (Some key)
    = Some (\<exists>j < length xs. cb_keycmp cb (fst (xs ! j)) key = 0, of_nat (key_rank (cb_keycmp cb) key xs))"
proof -
  note l = leaf_rep_items [OF assms(2)]
  have z: "leaf_key_at sb 0 = NODE_HEAD_SIZE" by (simp add: leaf_key_at_def)
  have "uint (of_nat (length xs) :: u32) = int (length xs)" using l(2) by (simp add: uint_nat)
  then show ?thesis
    using l(1) assms(1) search_loop_correct [of "length xs" d NODE_HEAD_SIZE "item_size sb" "unat (sb_key_size sb)" "\<lambda>j. fst (xs ! j)"
        "\<lambda>k. Some (cb_keycmp cb k key)" "\<lambda>j. cb_keycmp cb (fst (xs ! j)) key" 0 "int (length xs) - 1"]
      leaf_rep_reads(3) [OF assms(2)] assms(3)
    by (simp add: leaf_index_search_def index_search_def z keys_sorted_def key_rank_def)
qed

subsection \<open>Splitting a leaf\<close>

lemma unat_half: "unat (drop_bit 1 (w :: u32)) = unat w div 2"
  by (simp add: drop_bit_eq_div unat_div)

lemma leaf_split_effect:
  assumes "bn_data l = Some ld" "leaf_rep sb ld (xs @ ys)" "length xs = length (xs @ ys) div 2" "ys \<noteq> []"
    and "bn_data r = Some rd" "leaf_rep sb rd []"
  shows "\<exists>ld' rd'. leaf_split sb l r = Some (node_set_dirty (l\<lparr>bn_data := Some ld'\<rparr>), node_set_dirty (r\<lparr>bn_data := Some rd'\<rparr>))
    \<and> leaf_rep sb ld' xs \<and> leaf_rep sb rd' ys \<and> take 8 ld' = take 8 ld \<and> take 8 rd' = take 8 rd"
proof -
  let ?I = "item_size sb" and ?xy = "xs @ ys"
  obtain e where e0: "length ld = e" by blast
  obtain pre gap where d: "ld = leaf_image pre e ?xy gap" "length pre = 8" and sized: "keys_sized sb xs" "keys_sized sb ys"
    and e: "e = unat (sb_block_size sb)" "e < 2 ^ 32"
    using assms(2) unsigned_less [where 'a = nat, of "sb_block_size sb"] e0 by (auto simp: leaf_rep_def)
  have er: "length rd = e" using assms(6) e(1) by (simp add: leaf_rep_def)
  obtain rpre rgap where rd: "rd = leaf_image rpre e [] rgap" "length rpre = 8" using assms(6) er by (auto simp: leaf_rep_def)
  have lE: "length (entries e' xs) = length xs * ?I" "length (entries e' ys) = length ys * ?I" for e'
    using length_entries sized by blast+
  have len: "e = 16 + length xs * ?I + length ys * ?I + length gap + total ys + total xs"
    using arg_cong [OF d(1), of length] d(2) by (simp add: e0 leaf_image_def entries_append lE)
  have rlen: "length rgap = e - 16" "16 \<le> e" using arg_cong [OF rd(1), of length] rd(2) er by (simp_all add: leaf_image_def)
  let ?n = "of_nat (length ?xy) :: u32" and ?f = "of_nat (length gap) :: u32" and ?rf = "of_nat (e - 16) :: u32"
  let ?H = "pre @ to_bytes ?n @ to_bytes ?f" and ?RH = "rpre @ to_bytes (0 :: u32) @ to_bytes ?rf"
  have H: "length ?H = NODE_HEAD_SIZE" "length ?RH = NODE_HEAD_SIZE" using d(2) rd(2) by (simp_all add: NODE_HEAD_SIZE_def)
  let ?E2 = "entries (e - total xs) ys"
  have img: "ld = ?H @ entries e ?xy @ gap @ bodies ys @ bodies xs" using d(1) by (simp add: leaf_image_def)
  have img2: "ld = (?H @ entries e xs) @ ?E2 @ gap @ bodies ys @ bodies xs" unfolding img by (simp add: entries_append)
  note small = leaf_rep_items(2) [OF assms(2)]
  have n: "unat ?n = length xs + length ys" using small unat_of_nat_u32 [of "length ?xy"] by simp
  have left: "drop_bit 1 ?n = of_nat (length xs)"
  proof (rule word_unat_eq_iff [THEN iffD2])
    have "unat (drop_bit 1 ?n) = length ?xy div 2" unfolding unat_half n by simp
    moreover have "unat (of_nat (length xs) :: u32) = length xs" using small by simp
    ultimately show "unat (drop_bit 1 ?n) = unat (of_nat (length xs) :: u32)" unfolding assms(3) [symmetric] by (rule trans [OF _ sym])
  qed
  have right: "?n - of_nat (length xs) = of_nat (length ys)" by simp
  have "length ys * ?I < 2 ^ 32" using len e(2) by linarith
  then have sz: "unat (of_nat (?I * length ys) :: u32) = length ys * ?I" by (simp only: mult.commute [of ?I] unat_of_nat_u32)
  have fits: "NODE_HEAD_SIZE + length xs * ?I < 2 ^ 32" using len e(2) by (simp add: NODE_HEAD_SIZE_def)
  have at: "leaf_key_at sb (of_nat (length xs)) = length (?H @ entries e xs)" "leaf_key_at sb 0 = length ?RH"
    using leaf_key_at_nat(1) [OF fits] leaf_key_at_nat(1) [of 0 sb] H lE(1) by (simp_all add: NODE_HEAD_SIZE_def)
  obtain g1 g23 where g1: "rgap = g1 @ g23" "length g1 = length ys * ?I" using cut_list [of "length ys * ?I" rgap] rlen len by auto
  then obtain g2 g3 where g: "g23 = g2 @ g3" "length g2 = length g23 - total ys"
    using cut_list [of "length g23 - total ys" g23] diff_le_self by blast
  have g3: "length g3 = total ys" "length g2 = e - 16 - length ys * ?I - total ys"
    using g g1 rlen len by simp_all
  have "rd = ?RH @ rgap" unfolding rd(1) leaf_image_def rlen(1) by simp
  then have rimg: "rd = ?RH @ g1 @ g2 @ g3" using g1(1) g(1) by simp
  let ?sz = "of_nat (?I * length ys) :: u32" and ?t = "of_nat (total ys) :: u32" and ?R = "g1 @ g2 @ g3"
  have t: "unat ?t = total ys" "total ys \<le> e" using len e(2) by simp_all
  have r1: "buf_read ld (leaf_key_at sb (of_nat (length xs))) (unat ?sz) = Some ?E2"
    unfolding sz at(1) img2 by (rule read_app [OF refl lE(2)])
  have r2: "buf_write rd (leaf_key_at sb 0) ?E2 = Some (?RH @ ?E2 @ g2 @ g3)"
    unfolding at(2) rimg using g1(2) lE(2) by (intro write_app) simp_all
  let ?f1 = "?f + ?sz" and ?rf1 = "?rf - ?sz"
  let ?ld1 = "pre @ to_bytes ?n @ to_bytes ?f1 @ entries e ?xy @ gap @ bodies ys @ bodies xs"
  have l1: "nh_free ld = Some ?f" "store ld 12 ?f1 = Some ?ld1" "nh_items ld = Some ?n"
    unfolding img using head_reads [OF d(2), of ?n ?f] by simp_all
  let ?rd2 = "rpre @ to_bytes (0 :: u32) @ to_bytes ?rf1 @ ?E2 @ g2 @ g3"
  have r3: "nh_free (?RH @ ?E2 @ g2 @ g3) = Some ?rf" "store (?RH @ ?E2 @ g2 @ g3) 12 ?rf1 = Some ?rd2"
    using head_reads [OF rd(2), of "0 :: u32" ?rf] by simp_all
  have H1: "length (pre @ to_bytes ?n @ to_bytes ?f1) = NODE_HEAD_SIZE" using d(2) by (simp add: NODE_HEAD_SIZE_def)
  have src: "item_body sb ?ld1 (?n - 1) = Some (e - total ?xy)"
    using last_body [of ?xy sb "pre @ to_bytes ?n @ to_bytes ?f1" e "gap @ bodies ys @ bodies xs"] assms(4) sized H1 len e(2)
    by (simp add: NODE_HEAD_SIZE_def add_mult_distrib)
  have p1: "length ((pre @ to_bytes ?n @ to_bytes ?f1) @ entries e xs) + unat (sb_key_size sb) = item_head_at sb (of_nat (length xs))"
    using H1 leaf_key_at_nat(2) [OF fits] lE by simp
  have cnt: "unat ?n - unat (of_nat (length xs) :: u32) = length ys" using n small by simp
  have bsz: "leaf_body_size sb ?ld1 (of_nat (length xs)) ?n = Some ?t"
    unfolding leaf_body_size_def cnt using body_loop_entries [OF sized(2) p1, of "e - total xs" "gap @ bodies ys @ bodies xs" 0]
    by (simp add: entries_append)
  have "length (pre @ to_bytes ?n @ to_bytes ?f1 @ entries e ?xy @ gap) = e - total ?xy"
    using len d(2) lE by (simp add: entries_append)
  then have body: "buf_read ?ld1 (e - total ?xy) (unat ?t) = Some (bodies ys)"
    using read_app [of "pre @ to_bytes ?n @ to_bytes ?f1 @ entries e ?xy @ gap" "e - total ?xy" "bodies ys" "total ys" "bodies xs"] t
    by simp
  let ?f2 = "?f1 + ?t" and ?rf2 = "?rf1 - ?t" and ?ln = "of_nat (length xs) :: u32" and ?rn = "of_nat (length ys) :: u32"
  let ?g = "?E2 @ gap @ bodies ys" and ?b = "unat (sb_block_size sb) - unat ?t"
  have "length (?RH @ ?E2 @ g2) = e - total ys" using rd(2) lE g3 rlen len by simp
  then have r4: "buf_write ?rd2 ?b (bodies ys) = Some (rpre @ to_bytes (0 :: u32) @ to_bytes ?rf1 @ ?E2 @ g2 @ bodies ys)"
    using write_app [of "rpre @ to_bytes (0 :: u32) @ to_bytes ?rf1 @ ?E2 @ g2" ?b "bodies ys" g3 "[]"] g3(1) t e(1) by simp
  let ?ld2 = "pre @ to_bytes ?n @ to_bytes ?f2 @ entries e ?xy @ gap @ bodies ys @ bodies xs"
  let ?ld3 = "pre @ to_bytes ?ln @ to_bytes ?f2 @ entries e ?xy @ gap @ bodies ys @ bodies xs"
  have l2: "nh_free ?ld1 = Some ?f1" "store ?ld1 12 ?f2 = Some ?ld2" "store ?ld2 8 ?ln = Some ?ld3"
    using head_reads [OF d(2)] by simp_all
  let ?rd3 = "rpre @ to_bytes (0 :: u32) @ to_bytes ?rf1 @ ?E2 @ g2 @ bodies ys"
  let ?rd4 = "rpre @ to_bytes (0 :: u32) @ to_bytes ?rf2 @ ?E2 @ g2 @ bodies ys"
  let ?rd5 = "rpre @ to_bytes ?rn @ to_bytes ?rf2 @ ?E2 @ g2 @ bodies ys"
  have r5: "nh_free ?rd3 = Some ?rf1" "store ?rd3 12 ?rf2 = Some ?rd4" "nh_items ?rd4 = Some 0" "store ?rd4 8 (0 + ?rn) = Some ?rd5"
    using head_reads [OF rd(2)] by simp_all
  have H2: "length (pre @ to_bytes ?ln @ to_bytes ?f2) + unat (sb_key_size sb) = item_head_at sb 0"
    "length (rpre @ to_bytes ?rn @ to_bytes ?rf2) + unat (sb_key_size sb) = item_head_at sb 0"
    using d(2) rd(2) leaf_key_at_nat(2) [of 0 sb] by (simp_all add: NODE_HEAD_SIZE_def)
  have cnt2: "unat ?ln - unat (0 :: u32) = length xs" "unat ?rn - unat (0 :: u32) = length ys" using small by simp_all
  have bsz2: "leaf_body_size sb ?ld3 0 ?ln = Some (of_nat (total xs))"
    unfolding leaf_body_size_def cnt2 using body_loop_entries [OF sized(1) H2(1), of e "?g @ bodies xs" 0]
    by (simp add: entries_append)
  have "of_nat e = of_nat (e - total xs) + (of_nat (total xs) :: u32)" using len by simp
  then have mv: "leaf_move_offsets sb ?rd5 0 ?rn (of_nat (total xs))
      = Some (rpre @ to_bytes ?rn @ to_bytes ?rf2 @ entries e ys @ g2 @ bodies ys)"
    unfolding leaf_move_offsets_def cnt2
    using offset_loop_entries [OF sized(2) H2(2), of "e - total xs" e _ "g2 @ bodies ys"] len by simp
  have fl: "?f2 = of_nat (length ?g)" using lE by (simp add: ac_simps)
  have fr: "?rf2 = of_nat (length g2)" unfolding g3(2) using len rlen(2) by (simp add: of_nat_diff ac_simps)
  have ld3: "?ld3 = leaf_image pre e xs ?g" unfolding fl by (simp add: leaf_image_def entries_append)
  have rd6: "rpre @ to_bytes ?rn @ to_bytes ?rf2 @ entries e ys @ g2 @ bodies ys = leaf_image rpre e ys g2"
    unfolding fr by (simp add: leaf_image_def)
  have le: "length ?ld3 = e" "length (leaf_image rpre e ys g2) = e"
    using d(2) len rd(2) lE g3 rlen(2) by (simp_all add: leaf_image_def entries_append)
  have u: "unat ?rn = length ys" "?n - ?rn = ?ln" using small by simp_all
  have "?t \<le> sb_block_size sb" using t e(1) by (simp add: word_le_nat_alt)
  then have "leaf_split sb l r = Some (node_set_dirty (l\<lparr>bn_data := Some ?ld3\<rparr>), node_set_dirty (r\<lparr>bn_data := Some (leaf_image rpre e ys g2)\<rparr>))"
    unfolding leaf_split_def
    by (simp only: assms(1,5) l1 left right u Let_def bind.bind_lunit r1 r2 r3 src bsz body if_True r4 l2 r5 bsz2 mv rd6)
  moreover have "leaf_rep sb ?ld3 xs" unfolding leaf_rep_def le(1) using ld3 d(2) sized e(1) by blast
  moreover have "leaf_rep sb (leaf_image rpre e ys g2) ys" unfolding leaf_rep_def le(2) using rd(2) sized e(1) by blast
  moreover have "take 8 ?ld3 = take 8 ld" "take 8 (leaf_image rpre e ys g2) = take 8 rd" using d rd by (simp_all add: leaf_image_def)
  ultimately show ?thesis by blast
qed

end
