(* ===== verification/Btree_Order.thy ===== *)
theory Btree_Order
  imports Btree_Leaf
begin

section \<open>The order of the keys of btree.c\<close>

text \<open>
  What the tree relies on of \<open>btree_keycmp_t\<close>: the locale \<open>key_order\<close>, whose laws are for keys of the size of the tree.
  In it, the binary search of a leaf is the lookup of an association list, and inserting and removing at the index the
  search gives keeps the keys in order and updates the map.
\<close>

locale key_order =
  fixes cmp :: "u8 list \<Rightarrow> u8 list \<Rightarrow> int" and width :: nat
  assumes cmp_eq: "length a = width \<Longrightarrow> length b = width \<Longrightarrow> cmp a b = 0 \<longleftrightarrow> a = b"
    and cmp_flip: "length a = width \<Longrightarrow> length b = width \<Longrightarrow> cmp a b < 0 \<longleftrightarrow> 0 < cmp b a"
    and cmp_trans: "length a = width \<Longrightarrow> length b = width \<Longrightarrow> length c = width \<Longrightarrow>
      cmp a b < 0 \<Longrightarrow> cmp b c < 0 \<Longrightarrow> cmp a c < 0"

definition in_order :: "(u8 list \<Rightarrow> u8 list \<Rightarrow> int) \<Rightarrow> u8 list list \<Rightarrow> bool" where
  "in_order cmp ks \<longleftrightarrow> sorted_wrt (\<lambda>a b. cmp a b < 0) ks"

definition below :: "(u8 list \<Rightarrow> u8 list \<Rightarrow> int) \<Rightarrow> u8 list \<Rightarrow> leaf_item list \<Rightarrow> leaf_item list" where
  "below cmp key xs = takeWhile (\<lambda>x. cmp (fst x) key < 0) xs"

definition from_key :: "(u8 list \<Rightarrow> u8 list \<Rightarrow> int) \<Rightarrow> u8 list \<Rightarrow> leaf_item list \<Rightarrow> leaf_item list" where
  "from_key cmp key xs = dropWhile (\<lambda>x. cmp (fst x) key < 0) xs"

lemma below_from_key [simp]: "below cmp key xs @ from_key cmp key xs = xs"
  by (simp add: below_def from_key_def)

lemma in_order_simps [simp]:
  "in_order cmp []" "in_order cmp (k # ks) \<longleftrightarrow> (\<forall>b \<in> set ks. cmp k b < 0) \<and> in_order cmp ks"
  "in_order cmp (as @ bs) \<longleftrightarrow> in_order cmp as \<and> in_order cmp bs \<and> (\<forall>a \<in> set as. \<forall>b \<in> set bs. cmp a b < 0)"
  by (auto simp: in_order_def sorted_wrt_append)

context key_order
begin

lemma cmp_irrefl: "length a = width \<Longrightarrow> \<not> cmp a a < 0"
  using cmp_eq [of a a] by simp

lemma cmp_cases:
  assumes "length a = width" "length b = width"
  obtains "cmp a b < 0" "a \<noteq> b" "0 < cmp b a" | "a = b" "cmp a b = 0" | "0 < cmp a b" "a \<noteq> b" "cmp b a < 0"
  using cmp_eq [OF assms] cmp_flip [OF assms] cmp_flip [OF assms(2,1)] by (meson linorder_less_linear)

text \<open>The keys before a key are those the search goes past.\<close>

lemma order_split:
  assumes "in_order cmp ks" "\<forall>k \<in> set ks. length k = width" "length key = width"
  shows "\<exists>as bs. ks = as @ bs \<and> (\<forall>a \<in> set as. cmp a key < 0) \<and> (\<forall>b \<in> set bs. 0 \<le> cmp b key)
    \<and> (key \<in> set ks \<longrightarrow> (\<exists>cs. bs = key # cs)) \<and> (key \<notin> set ks \<longrightarrow> (\<forall>b \<in> set bs. cmp key b < 0))"
  using assms(1,2)
proof (induction ks)
  case (Cons k ks)
  then have l: "length k = width" "\<forall>x \<in> set ks. length x = width" and o: "in_order cmp ks" "\<forall>b \<in> set ks. cmp k b < 0" by auto
  have above: "\<forall>b \<in> set ks. cmp key b < 0" if "cmp key k < 0 \<or> key = k"
    using that o(2) l cmp_trans [OF assms(3) l(1)] by blast
  have pos: "0 \<le> cmp b key" if "cmp key b < 0" "length b = width" for b
    using that cmp_flip [OF assms(3) that(2)] by simp
  obtain as bs where IH: "ks = as @ bs" "\<forall>a \<in> set as. cmp a key < 0" "\<forall>b \<in> set bs. 0 \<le> cmp b key"
    "key \<in> set ks \<longrightarrow> (\<exists>cs. bs = key # cs)" "key \<notin> set ks \<longrightarrow> (\<forall>b \<in> set bs. cmp key b < 0)"
    using Cons.IH [OF o(1) l(2)] by blast
  show ?case
    using l(1) assms(3)
  proof (cases rule: cmp_cases)
    case 1
    then show ?thesis using IH by (intro exI [of _ "k # as"] exI [of _ bs]) auto
  next
    case 2
    then show ?thesis using above pos l(2) cmp_irrefl [OF l(1)] by (intro exI [of _ "[]"] exI [of _ "k # ks"]) auto
  next
    case 3
    have "key \<notin> set ks" using above 3 cmp_irrefl [OF assms(3)] by blast
    then show ?thesis using above pos 3 l(2) by (intro exI [of _ "[]"] exI [of _ "k # ks"]) auto
  qed
qed simp

text \<open>The same for the items of a leaf.\<close>

lemma items_split:
  assumes "in_order cmp (map fst xs)" "\<forall>x \<in> set xs. length (fst x) = width" "length key = width"
  shows "\<exists>us vs. xs = us @ vs \<and> (\<forall>u \<in> set us. cmp (fst u) key < 0) \<and> (\<forall>v \<in> set vs. 0 \<le> cmp (fst v) key)
    \<and> (key \<in> fst ` set xs \<longrightarrow> (\<exists>v ws. vs = (key, v) # ws)) \<and> (key \<notin> fst ` set xs \<longrightarrow> (\<forall>v \<in> set vs. cmp key (fst v) < 0))"
proof -
  obtain ks where ks: "map fst xs = ks" by blast
  have sized: "\<forall>k \<in> set ks. length k = width" using assms(2) ks by auto
  have mem: "key \<in> fst ` set xs \<longleftrightarrow> key \<in> set ks" using ks by (metis set_map)
  obtain as bs where k: "ks = as @ bs" "\<forall>a \<in> set as. cmp a key < 0" "\<forall>b \<in> set bs. 0 \<le> cmp b key"
    "key \<in> set ks \<longrightarrow> (\<exists>cs. bs = key # cs)" "key \<notin> set ks \<longrightarrow> (\<forall>b \<in> set bs. cmp key b < 0)"
    using order_split [OF assms(1) [unfolded ks] sized assms(3)] by blast
  obtain us vs where u: "xs = us @ vs" "as = map fst us" "bs = map fst vs" using k(1) ks by (auto simp: map_eq_append_conv)
  have "\<exists>v ws. vs = (key, v) # ws" if "key \<in> set ks"
    using k(4) that u(3) by (cases vs) auto
  moreover have "\<forall>u \<in> set us. cmp (fst u) key < 0" "\<forall>v \<in> set vs. 0 \<le> cmp (fst v) key" using k(2,3) u(2,3) by auto
  moreover have "\<forall>v \<in> set vs. cmp key (fst v) < 0" if "key \<notin> set ks" using k(5) that u(3) by auto
  ultimately show ?thesis unfolding mem using u(1) by blast
qed

lemma below_eq:
  assumes "xs = us @ vs" "\<forall>u \<in> set us. cmp (fst u) key < 0" "\<forall>v \<in> set vs. 0 \<le> cmp (fst v) key"
  shows "below cmp key xs = us" "from_key cmp key xs = vs"
proof -
  have hd: "\<not> cmp (fst v) key < 0" if "vs = v # ws" for v ws using assms(3) that by simp
  have "takeWhile (\<lambda>x. cmp (fst x) key < 0) vs = [] \<and> dropWhile (\<lambda>x. cmp (fst x) key < 0) vs = vs"
    using hd by (cases vs) auto
  then have "below cmp key xs = us \<and> from_key cmp key xs = vs"
    unfolding assms(1) below_def from_key_def using assms(2) by (simp add: takeWhile_append2 dropWhile_append2)
  then show "below cmp key xs = us" "from_key cmp key xs = vs" by blast+
qed

lemma key_in_map: "key \<in> fst ` set xs \<longleftrightarrow> map_of xs key \<noteq> None"
  by (metis map_of_eq_None_iff)

text \<open>The search: the index is the number of the items before the key, and it is found when it is there.\<close>

lemma search_as_map:
  assumes "in_order cmp (map fst xs)" "\<forall>x \<in> set xs. length (fst x) = width" "length key = width"
  shows "keys_sorted cmp key xs \<and> key_rank cmp key xs = length (below cmp key xs)
    \<and> ((\<exists>j < length xs. cmp (fst (xs ! j)) key = 0) \<longleftrightarrow> map_of xs key \<noteq> None)"
proof -
  obtain us vs where s: "xs = us @ vs" "\<forall>u \<in> set us. cmp (fst u) key < 0" "\<forall>v \<in> set vs. 0 \<le> cmp (fst v) key"
    "key \<in> fst ` set xs \<longrightarrow> (\<exists>v ws. vs = (key, v) # ws)" "key \<notin> fst ` set xs \<longrightarrow> (\<forall>v \<in> set vs. cmp key (fst v) < 0)"
    using items_split [OF assms] by blast
  have sized: "length (fst (xs ! j)) = width" if "j < length xs" for j using assms(2) that by simp
  have lt: "cmp (fst (xs ! i)) (fst (xs ! j)) < 0" if "i < j" "j < length xs" for i j
    using assms(1) that by (simp add: in_order_def sorted_wrt_iff_nth_less)
  have "cmp (fst (xs ! i)) key < 0" if "i < j" "j < length xs" "cmp (fst (xs ! j)) key \<le> 0" for i j
  proof (cases "cmp (fst (xs ! j)) key = 0")
    case True
    then show ?thesis using lt [OF that(1,2)] cmp_eq [OF sized [OF that(2)] assms(3)] by simp
  next
    case False
    have i: "i < length xs" using that by simp
    have "cmp (fst (xs ! j)) key < 0" using that(3) False by simp
    then show ?thesis using lt [OF that(1,2)] cmp_trans [OF sized [OF i] sized [OF that(2)] assms(3)] by blast
  qed
  then have sorted: "keys_sorted cmp key xs" unfolding keys_sorted_def sign_sorted_def by blast
  have "key_rank cmp key xs = length us" unfolding key_rank_def
  proof (rule rank_eq)
    show "length us \<le> length xs" using s(1) by simp
    show "cmp (fst (xs ! j)) key < 0" if "j < length us" for j using that s(1,2) by (simp add: nth_append)
    show "0 \<le> cmp (fst (xs ! j)) key" if "length us \<le> j" "j < length xs" for j
    proof -
      have "xs ! j \<in> set vs" using that s(1) by (simp add: nth_append)
      then show ?thesis using s(3) by blast
    qed
  qed
  moreover have "(\<exists>j < length xs. cmp (fst (xs ! j)) key = 0) \<longleftrightarrow> (\<exists>j < length xs. fst (xs ! j) = key)"
    using cmp_eq [OF sized assms(3)] by blast
  moreover have "(\<exists>j < length xs. fst (xs ! j) = key) \<longleftrightarrow> key \<in> fst ` set xs"
    unfolding set_map [symmetric] in_set_conv_nth by (metis length_map nth_map)
  ultimately show ?thesis using sorted below_eq(1) [OF s(1-3)] key_in_map [of key xs] by simp
qed

lemma insert_as_map:
  assumes "in_order cmp (map fst xs)" "\<forall>x \<in> set xs. length (fst x) = width" "length key = width" "map_of xs key = None"
  shows "in_order cmp (map fst (below cmp key xs @ (key, v) # from_key cmp key xs))"
    "map_of (below cmp key xs @ (key, v) # from_key cmp key xs) = (map_of xs)(key \<mapsto> v)"
proof -
  obtain us vs where s: "xs = us @ vs" "\<forall>u \<in> set us. cmp (fst u) key < 0" "\<forall>v \<in> set vs. 0 \<le> cmp (fst v) key"
    "key \<notin> fst ` set xs \<longrightarrow> (\<forall>v \<in> set vs. cmp key (fst v) < 0)"
    using items_split [OF assms(1-3)] by blast
  have k: "key \<notin> fst ` set xs" using assms(4) key_in_map [of key xs] by simp
  note b = below_eq [OF s(1-3)]
  show "in_order cmp (map fst (below cmp key xs @ (key, v) # from_key cmp key xs))"
    unfolding b using assms(1) s k by auto
  have "map_of us key = None" using k s(1) key_in_map [of key us] by auto
  then show "map_of (below cmp key xs @ (key, v) # from_key cmp key xs) = (map_of xs)(key \<mapsto> v)"
    unfolding b by (subst s(1)) (auto simp: map_add_def fun_eq_iff split: option.splits)
qed

lemma found_as_map:
  assumes "in_order cmp (map fst xs)" "\<forall>x \<in> set xs. length (fst x) = width" "length key = width" "map_of xs key = Some v"
  shows "\<exists>zs. from_key cmp key xs = (key, v) # zs
    \<and> in_order cmp (map fst (below cmp key xs @ zs)) \<and> map_of (below cmp key xs @ zs) = (map_of xs)(key := None)
    \<and> (\<forall>w. in_order cmp (map fst (below cmp key xs @ (key, w) # zs))
        \<and> map_of (below cmp key xs @ (key, w) # zs) = (map_of xs)(key \<mapsto> w))"
proof -
  obtain us vs where s: "xs = us @ vs" "\<forall>u \<in> set us. cmp (fst u) key < 0" "\<forall>v \<in> set vs. 0 \<le> cmp (fst v) key"
    "key \<in> fst ` set xs \<longrightarrow> (\<exists>v ws. vs = (key, v) # ws)"
    using items_split [OF assms(1-3)] by blast
  obtain v' zs where z: "vs = (key, v') # zs" using s(4) assms(4) key_in_map [of key xs] by auto
  note b = below_eq [OF s(1-3)]
  have us: "map_of us key = None" using s(2) cmp_irrefl [OF assms(3)] key_in_map [of key us] by auto
  have zs: "map_of zs key = None"
    using assms(1) s(1) z cmp_irrefl [OF assms(3)] key_in_map [of key zs] by auto
  have v: "v' = v" using assms(4) s(1) z us by (simp add: map_add_def)
  show ?thesis
    unfolding b using assms(1) s(1) z us zs v
    by (intro exI [of _ zs]) (auto simp: map_add_def fun_eq_iff split: option.splits)
qed

end

end
