(* ===== verification/Btree.thy ===== *)
theory Btree
  imports Btree_Block Btree_Cache
begin

section \<open>The tree of btree.c\<close>

text \<open>
  src/btree/btree.c, the nodes in memory and on the disk, the search, and the operations of the interface.
  The nodes are in a store from addresses to nodes, 0 is NULL, and addresses are not used twice. The disk
  driver is a parameter: its state, and its functions on it. A key the code points to is the bytes it holds
  when the pointer is made: in none of the functions are they changed before the pointer is read. None is an access
  outside an object or to a released one, a failed assertion (\<open>abort\<close>), or a loop or a recursion that has not
  ended after \<open>tree_fuel\<close> steps: the level of a node is a byte, and each step goes to another level.
\<close>

subsection \<open>The state\<close>

text \<open>\<open>dk_read\<close> says whether the result is not 0, and which bytes it stores from the start of the buffer.\<close>

record 'd disk_ops =
  dk_erase :: "'d \<Rightarrow> u64 \<Rightarrow> u32 \<Rightarrow> 'd"
  dk_write :: "'d \<Rightarrow> u64 \<Rightarrow> u32 \<Rightarrow> u8 list \<Rightarrow> u64 \<times> 'd"
  dk_read :: "'d \<Rightarrow> u64 \<Rightarrow> u32 \<Rightarrow> bool \<times> u8 list"
  dk_crc_pointer :: "u8 list \<Rightarrow> u32"
  dk_crc_block :: "u8 list \<Rightarrow> u32"

text \<open>\<open>bt_junk\<close> is what the memory of a block holds when it is allocated, by the number of the request.\<close>

record 'd btree =
  bt_super :: super
  bt_super_offset :: u64
  bt_cache :: btcache
  bt_disk :: 'd
  bt_ops :: "'d disk_ops"
  bt_cb :: callbacks
  bt_root :: nat
  bt_nodes :: "nat \<Rightarrow> bnode option"
  bt_fresh :: nat
  bt_alk :: alk
  bt_junk :: "nat \<Rightarrow> nat \<Rightarrow> u8"

definition tree_fuel :: nat where "tree_fuel = 257"

definition btnode_bytes :: nat where "btnode_bytes = 40"

definition on_node :: "'d btree \<Rightarrow> nat \<Rightarrow> (bnode \<Rightarrow> bnode option) \<Rightarrow> 'd btree option" where
  "on_node t p f = do { n \<leftarrow> bt_nodes t p; n \<leftarrow> f n; Some (t\<lparr>bt_nodes := (bt_nodes t)(p \<mapsto> n)\<rparr>) }"

definition node_at :: "'d btree \<Rightarrow> nat \<Rightarrow> (bnode \<Rightarrow> 'b option) \<Rightarrow> 'b option" where
  "node_at t p f = do { n \<leftarrow> bt_nodes t p; f n }"

definition drop_node :: "'d btree \<Rightarrow> nat \<Rightarrow> 'd btree option" where
  "drop_node t p = do { n \<leftarrow> bt_nodes t p; Some (t\<lparr>bt_nodes := (bt_nodes t)(p := None), bt_alk := mmfree (bt_alk t)\<rparr>) }"

definition root_pointer :: "super \<Rightarrow> node_pointer" where
  "root_pointer sb = \<lparr>np_blocknr = sb_root sb, np_crc = sb_root_crc sb, np_size = sb_root_size sb\<rparr>"

definition null_pointer :: node_pointer where
  "null_pointer = \<lparr>np_blocknr = 0, np_crc = 0, np_size = 0\<rparr>"

subsection \<open>Nodes\<close>

text \<open>The address of the new node, 0 when there is no memory.\<close>

definition btnode_level_alloc :: "'d btree \<Rightarrow> nat \<Rightarrow> nat \<times> 'd btree" where
  "btnode_level_alloc t level =
     (let leaf = (level = LEAF_NODE_LEVEL);
          fanout = unat (sb_fanout (bt_super t));
          (ok, a) = mmalloc (btnode_bytes + (if leaf then 0 else fanout * 8)) (bt_alk t);
          p = bt_fresh t
      in if \<not> ok then (0, t\<lparr>bt_alk := a\<rparr>)
         else (p, t\<lparr>bt_alk := a, bt_fresh := p + 1,
                   bt_nodes := (bt_nodes t)(p \<mapsto> \<lparr>bn_pointers = (if leaf then None else Some (replicate fanout 0)),
                     bn_data = None, bn_blocknr = 0, bn_size = 0, bn_flags = 0, bn_refs = 1\<rparr>)\<rparr>))"

text \<open>A new block, None when there is no memory.\<close>

definition block_alloc :: "'d btree \<Rightarrow> u8 list option \<times> 'd btree" where
  "block_alloc t =
     (let sz = unat (sb_block_size (bt_super t));
          junk = map (bt_junk t (alk_calls (bt_alk t))) [0..<sz];
          (ok, a) = mmalloc sz (bt_alk t)
      in (if ok then Some junk else None, t\<lparr>bt_alk := a\<rparr>))"

definition head_init :: "super \<Rightarrow> nat \<Rightarrow> u8 list \<Rightarrow> u8 list option" where
  "head_init sb level d =
     do {
       d \<leftarrow> store d 0 (0 :: u32);
       d \<leftarrow> store d 4 (sb_node_magic sb);
       d \<leftarrow> store d 6 (0 :: u8);
       d \<leftarrow> store d 7 (of_nat level :: u8);
       d \<leftarrow> store d 8 (0 :: u32);
       store d 12 (ucast (node_space sb) :: u32)
     }"

definition btnode_alloc :: "'d btree \<Rightarrow> nat \<Rightarrow> (nat \<times> 'd btree) option" where
  "btnode_alloc t level =
     (let (p, t) = btnode_level_alloc t level
      in if p = 0 then Some (0, t)
         else let (d, t) = block_alloc t
              in case d of
                   None \<Rightarrow> do { t \<leftarrow> drop_node t p; Some (0, t) }
                 | Some d \<Rightarrow> do {
                     d \<leftarrow> head_init (bt_super t) level d;
                     t \<leftarrow> on_node t p (\<lambda>n. Some (n\<lparr>bn_data := Some d\<rparr>));
                     Some (p, t\<lparr>bt_super := (bt_super t)\<lparr>sb_node_count := sb_node_count (bt_super t) + 1\<rparr>\<rparr>)
                   })"

definition btnode_release :: "'d btree \<Rightarrow> nat \<Rightarrow> 'd btree option" where
  "btnode_release t p =
     do {
       n \<leftarrow> bt_nodes t p;
       if bn_refs n \<le> 0 then None
       else do {
         t \<leftarrow> on_node t p (\<lambda>n. Some (n\<lparr>bn_refs := bn_refs n - 1\<rparr>));
         if bn_refs n - 1 > 0 then Some t
         else if \<not> node_is_dirty n \<and> btcache_can_add (bt_cache t)
         then do {
           (_, a, c) \<leftarrow> btcache_add (bt_alk t) (bt_cache t) (bn_blocknr n) (bn_data n);
           on_node (t\<lparr>bt_alk := a, bt_cache := c\<rparr>) p (\<lambda>n. Some (n\<lparr>bn_data := None\<rparr>))
         }
         else Some t
       }
     }"

definition btnode_free :: "'d btree \<Rightarrow> nat \<Rightarrow> 'd btree option" where
  "btnode_free t p =
     do {
       n \<leftarrow> bt_nodes t p;
       t \<leftarrow> (if bn_data n \<noteq> None then btnode_release t p else Some t);
       drop_node t p
     }"

definition btnode_remove :: "'d btree \<Rightarrow> nat \<Rightarrow> 'd btree option" where
  "btnode_remove t p =
     do {
       n \<leftarrow> bt_nodes t p;
       let t = (if node_is_on_disk n then t\<lparr>bt_disk := dk_erase (bt_ops t) (bt_disk t) (bn_blocknr n) (bn_size n)\<rparr> else t);
       let t = (if bn_data n \<noteq> None then t\<lparr>bt_alk := mmfree (bt_alk t)\<rparr> else t);
       drop_node t p
     }"

text \<open>Whether the node has its block afterwards. The pointer is read only when the block is not in memory; None is a
  pointer that cannot be read.\<close>

definition btnode_read :: "'d btree \<Rightarrow> nat \<Rightarrow> node_pointer option \<Rightarrow> (bool \<times> 'd btree) option" where
  "btnode_read t p pointer =
     do {
       n \<leftarrow> bt_nodes t p;
       if bn_data n \<noteq> None then Some (True, t)
       else do {
         q \<leftarrow> pointer;
         (block, c) \<leftarrow> btcache_lookup (bt_cache t) (np_blocknr q);
         let t = t\<lparr>bt_cache := c\<rparr>;
         t \<leftarrow> on_node t p (\<lambda>n. Some (n\<lparr>bn_data := block\<rparr>));
         if block \<noteq> None then Some (True, t)
         else do {
           t \<leftarrow> on_node t p (\<lambda>n. Some (n\<lparr>bn_blocknr := np_blocknr q, bn_size := np_size q, bn_flags := 0\<rparr>));
           let (d, t) = block_alloc t;
           case d of
             None \<Rightarrow> Some (False, t)
           | Some d \<Rightarrow> do {
               let (ok, xs) = dk_read (bt_ops t) (bt_disk t) (np_blocknr q) (np_size q);
               d \<leftarrow> buf_write d 0 xs;
               ok \<leftarrow> (if \<not> ok then Some False
                      else do {
                        whole \<leftarrow> buf_read d 0 (unat (np_size q));
                        if np_crc q \<noteq> dk_crc_pointer (bt_ops t) whole then Some False
                        else do {
                          crc \<leftarrow> nh_crc d;
                          Some (crc = dk_crc_block (bt_ops t) (drop 4 whole))
                        }
                      });
               if ok then do { t \<leftarrow> on_node t p (\<lambda>n. Some (n\<lparr>bn_data := Some d\<rparr>)); Some (True, t) }
               else Some (False, t\<lparr>bt_alk := mmfree (bt_alk t)\<rparr>)
             }
         }
       }
     }"

definition btnode_fetch :: "'d btree \<Rightarrow> nat \<Rightarrow> node_pointer option \<Rightarrow> (nat \<times> 'd btree) option" where
  "btnode_fetch t level pointer =
     (let (p, t) = btnode_level_alloc t level
      in if p = 0 then Some (0, t)
         else do {
           (ok, t) \<leftarrow> btnode_read t p pointer;
           if ok then Some (p, t) else do { t \<leftarrow> drop_node t p; Some (0, t) }
         })"

text \<open>The child, 0 for NULL. The level it is allocated for is one more than that of the node, not one less.\<close>

definition btnode_fetch_twig :: "'d btree \<Rightarrow> nat \<Rightarrow> u32 \<Rightarrow> (nat \<times> 'd btree) option" where
  "btnode_fetch_twig t p index =
     do {
       n \<leftarrow> bt_nodes t p;
       ps \<leftarrow> bn_pointers n;
       child \<leftarrow> buf_get ps (unat index);
       let pointer = twig_pointer (bt_super t) n index;
       if child \<noteq> 0
       then do {
         t \<leftarrow> on_node t child (\<lambda>n. Some (n\<lparr>bn_refs := bn_refs n + 1\<rparr>));
         (ok, t) \<leftarrow> btnode_read t child pointer;
         Some (if ok then child else 0, t)
       }
       else do {
         level \<leftarrow> node_level n;
         (child, t) \<leftarrow> btnode_fetch t ((level + 1) mod 256) pointer;
         t \<leftarrow> on_node t p (\<lambda>n. do {
           ps \<leftarrow> bn_pointers n;
           ps \<leftarrow> buf_set ps (unat index) child;
           Some (n\<lparr>bn_pointers := Some ps\<rparr>)
         });
         Some (child, t)
       }
     }"

definition btree_fetch_root :: "'d btree \<Rightarrow> (nat \<times> 'd btree) option" where
  "btree_fetch_root t =
     (let pointer = Some (root_pointer (bt_super t))
      in if bt_root t \<noteq> 0
         then do {
           t \<leftarrow> on_node t (bt_root t) (\<lambda>n. Some (n\<lparr>bn_refs := bn_refs n + 1\<rparr>));
           (ok, t) \<leftarrow> btnode_read t (bt_root t) pointer;
           Some (if ok then bt_root t else 0, t)
         }
         else do {
           (p, t) \<leftarrow> btnode_fetch t (unat (sb_height (bt_super t))) pointer;
           Some (p, t\<lparr>bt_root := p\<rparr>)
         })"

subsection \<open>The search\<close>

text \<open>From a node down to a level; 0 when the level is not on the way.\<close>

fun lookup_loop :: "nat \<Rightarrow> 'd btree \<Rightarrow> u8 list option \<Rightarrow> nat \<Rightarrow> nat \<Rightarrow> place \<Rightarrow> (nat \<times> place \<times> 'd btree) option" where
  "lookup_loop 0 t key level p pl = None"
| "lookup_loop (Suc fuel) t key level p pl =
     (if p = 0 then Some (0, pl, t)
      else do {
        n \<leftarrow> bt_nodes t p;
        internal \<leftarrow> node_is_internal n;
        pl \<leftarrow> (if internal then twig_search (bt_super t) (bt_cb t) n key pl else leaf_search (bt_super t) (bt_cb t) n key pl);
        l \<leftarrow> node_level n;
        if l = level then Some (p, pl, t)
        else do {
          leaf \<leftarrow> node_is_leaf n;
          if leaf then do { t \<leftarrow> btnode_release t p; Some (0, pl, t) }
          else do {
            items \<leftarrow> node_items n;
            let pl = (if items \<le> pl_index pl then pl\<lparr>pl_index := pl_index pl - 1\<rparr> else pl);
            (under, t) \<leftarrow> btnode_fetch_twig t p (pl_index pl);
            t \<leftarrow> btnode_release t p;
            lookup_loop fuel t key level under pl
          }
        }
      })"

definition btree_lookup_level :: "'d btree \<Rightarrow> u8 list option \<Rightarrow> nat \<Rightarrow> place \<Rightarrow> (nat \<times> place \<times> 'd btree) option" where
  "btree_lookup_level t key level pl = do { (p, t) \<leftarrow> btree_fetch_root t; lookup_loop tree_fuel t key level p pl }"

subsection \<open>The keys of the nodes above\<close>

text \<open>What a local \<open>btnode_place_t\<close> holds before it is set is not read, but in \<open>btree_insert\<close>.\<close>

definition no_place :: place where "no_place = \<lparr>pl_value = 0, pl_index = 0, pl_size = 0, pl_found = False\<rparr>"

text \<open>A key that is None is a pointer that cannot be read; the old key is read when it is compared, the new one when it
  replaces a key.\<close>

fun twigs_loop :: "nat \<Rightarrow> 'd btree \<Rightarrow> nat \<Rightarrow> u8 list option \<Rightarrow> u8 list option \<Rightarrow> 'd btree option" where
  "twigs_loop 0 t level old_key new_key = None"
| "twigs_loop (Suc fuel) t level old_key new_key =
     do {
       (p, pl, t) \<leftarrow> btree_lookup_level t old_key (level + 1) no_place;
       if p = 0 then Some t
       else do {
         t \<leftarrow> on_node t p (\<lambda>n. Some (node_set_to_update n));
         t \<leftarrow> (if pl_found pl
               then on_node t p (\<lambda>n. do {
                 pointer \<leftarrow> twig_pointer (bt_super t) n (pl_index pl);
                 key \<leftarrow> new_key;
                 twig_replace (bt_super t) (bt_cb t) n (pl_index pl) key pointer
               })
               else Some t);
         t \<leftarrow> btnode_release t p;
         twigs_loop fuel t (level + 1) old_key new_key
       }
     }"

definition btree_twigs_update :: "'d btree \<Rightarrow> nat \<Rightarrow> u8 list option \<Rightarrow> u8 list option \<Rightarrow> 'd btree option" where
  "btree_twigs_update t p old_key new_key =
     do { level \<leftarrow> node_at t p node_level; twigs_loop tree_fuel t level old_key new_key }"

definition last_key_of :: "'d btree \<Rightarrow> nat \<Rightarrow> u8 list option" where
  "last_key_of t p = node_at t p (node_last_key (bt_super t))"

definition btree_twigs_insert_update :: "'d btree \<Rightarrow> nat \<Rightarrow> u32 \<Rightarrow> u8 list option \<Rightarrow> 'd btree option" where
  "btree_twigs_insert_update t p index new_key =
     do {
       items \<leftarrow> node_at t p node_items;
       let last_key = last_key_of t p;
       btree_twigs_update t p last_key (if index = items then new_key else last_key)
     }"

definition btree_twigs_remove_update :: "'d btree \<Rightarrow> nat \<Rightarrow> u32 \<Rightarrow> 'd btree option" where
  "btree_twigs_remove_update t p index =
     do {
       items \<leftarrow> node_at t p node_items;
       let last_key = last_key_of t p;
       let new_key = node_at t p (node_last_prev_key (bt_super t));
       btree_twigs_update t p last_key (if index = items - 1 then new_key else last_key)
     }"

subsection \<open>Inserting a node\<close>

definition set_child :: "'d btree \<Rightarrow> nat \<Rightarrow> u32 \<Rightarrow> nat \<Rightarrow> 'd btree option" where
  "set_child t p index child =
     on_node t p (\<lambda>n. do {
       ps \<leftarrow> bn_pointers n;
       ps \<leftarrow> buf_set ps (unat index) child;
       Some (n\<lparr>bn_pointers := Some ps\<rparr>)
     })"

definition twig_insert_at :: "'d btree \<Rightarrow> nat \<Rightarrow> u32 \<Rightarrow> u8 list option \<Rightarrow> 'd btree option" where
  "twig_insert_at t p index key =
     on_node t p (\<lambda>n. do { key \<leftarrow> key; twig_insert (bt_super t) (bt_cb t) n index key null_pointer })"

text \<open>The new root, 0 when there is no memory.\<close>

definition btree_grow :: "'d btree \<Rightarrow> (nat \<times> 'd btree) option" where
  "btree_grow t =
     do {
       let height = unat (sb_height (bt_super t));
       (new_root, t) \<leftarrow> btnode_alloc t height;
       if new_root = 0 then Some (0, t)
       else do {
         t \<leftarrow> (if height > 1
               then do {
                 (old_root, t) \<leftarrow> btree_fetch_root t;
                 t \<leftarrow> twig_insert_at t new_root 0 (last_key_of t old_root);
                 t \<leftarrow> set_child t new_root 0 old_root;
                 btnode_release t old_root
               }
               else Some t);
         Some (new_root, t\<lparr>bt_root := new_root,
                           bt_super := (bt_super t)\<lparr>sb_height := sb_height (bt_super t) + 1\<rparr>\<rparr>)
       }
     }"

definition twig_index_in :: "'d btree \<Rightarrow> nat \<Rightarrow> u8 list option \<Rightarrow> u32 option" where
  "twig_index_in t p key = map_option snd (node_at t p (\<lambda>n. twig_index_search (bt_super t) (bt_cb t) n key))"

text \<open>An operation on the two nodes of a split.\<close>

definition on_nodes :: "'d btree \<Rightarrow> nat \<Rightarrow> nat \<Rightarrow> (bnode \<Rightarrow> bnode \<Rightarrow> (bnode \<times> bnode) option) \<Rightarrow> 'd btree option" where
  "on_nodes t p q f =
     do {
       l \<leftarrow> bt_nodes t p;
       r \<leftarrow> bt_nodes t q;
       (l, r) \<leftarrow> f l r;
       Some (t\<lparr>bt_nodes := (bt_nodes t)(p \<mapsto> l, q \<mapsto> r)\<rparr>)
     }"

text \<open>The side of a split a key goes to: the first key of the right node is compared, as many bytes of it as a key
  of a leaf has.\<close>

definition split_target :: "'d btree \<Rightarrow> u8 list option \<Rightarrow> nat \<Rightarrow> nat \<Rightarrow> (bnode \<Rightarrow> u8 list option) \<Rightarrow> nat option" where
  "split_target t key p q first = do { k \<leftarrow> node_at t q first; key \<leftarrow> key; Some (if cb_keycmp (bt_cb t) key k < 0 then p else q) }"

definition twig_first_key :: "super \<Rightarrow> bnode \<Rightarrow> u8 list option" where
  "twig_first_key sb n = do { d \<leftarrow> bn_data n; buf_read d (twig_key_at sb 0) (unat (sb_key_size sb)) }"

text \<open>Recursive: the right node of a split twig is inserted one level higher.\<close>

fun insert_node :: "nat \<Rightarrow> 'd btree \<Rightarrow> nat \<Rightarrow> (int \<times> 'd btree) option" where
  "insert_node 0 t node = None"
| "insert_node (Suc fuel) t node =
     do {
       let key = last_key_of t node;
       level \<leftarrow> node_at t node node_level;
       (twig, pl, t) \<leftarrow> btree_lookup_level t key (level + 1) no_place;
       if twig = 0
       then do {
         (twig, t) \<leftarrow> btree_grow t;
         if twig = 0 then Some (1, t)
         else do {
           index \<leftarrow> twig_index_in t twig key;
           t \<leftarrow> twig_insert_at t twig index key;
           t \<leftarrow> set_child t twig index node;
           t \<leftarrow> btnode_release t twig;
           Some (0, t)
         }
       }
       else do {
         free \<leftarrow> node_at t twig node_free_bytes;
         items \<leftarrow> node_at t twig node_items;
         tlevel \<leftarrow> node_at t twig node_level;
         if twig_needed (bt_super t) \<le> free
         then do {
           index \<leftarrow> twig_index_in t twig key;
           t \<leftarrow> btree_twigs_insert_update t twig index key;
           t \<leftarrow> twig_insert_at t twig index key;
           t \<leftarrow> set_child t twig index node;
           t \<leftarrow> btnode_release t twig;
           Some (0, t)
         }
         else if pl_index pl < items
         then do {
           (right, t) \<leftarrow> btnode_alloc t tlevel;
           if right = 0 then do { t \<leftarrow> btnode_release t twig; Some (2, t) }
           else do {
             t \<leftarrow> on_nodes t twig right (twig_split (bt_super t));
             t \<leftarrow> btree_twigs_update t twig (last_key_of t right) (last_key_of t twig);
             target \<leftarrow> split_target t key twig right (twig_first_key (bt_super t));
             index \<leftarrow> twig_index_in t target key;
             t \<leftarrow> btree_twigs_insert_update t target index key;
             t \<leftarrow> twig_insert_at t target index key;
             t \<leftarrow> set_child t target index node;
             (r, t) \<leftarrow> insert_node fuel t right;
             if r \<noteq> 0
             then do {
               t \<leftarrow> on_node t target (\<lambda>n. twig_remove (bt_super t) n index);
               t \<leftarrow> on_nodes t twig right (twig_merge (bt_super t) (bt_cb t));
               t \<leftarrow> btnode_release t twig;
               t \<leftarrow> btnode_free t right;
               Some (3, t)
             }
             else do {
               t \<leftarrow> btnode_release t right;
               t \<leftarrow> btnode_release t twig;
               Some (0, t)
             }
           }
         }
         else do {
           (right, t) \<leftarrow> btnode_alloc t tlevel;
           if right = 0 then do { t \<leftarrow> btnode_release t twig; Some (4, t) }
           else do {
             t \<leftarrow> twig_insert_at t right 0 key;
             t \<leftarrow> set_child t right 0 node;
             (r, t) \<leftarrow> insert_node fuel t right;
             if r \<noteq> 0
             then do {
               t \<leftarrow> btnode_release t twig;
               t \<leftarrow> btnode_free t right;
               Some (5, t)
             }
             else do {
               t \<leftarrow> btnode_release t right;
               t \<leftarrow> btnode_release t twig;
               Some (0, t)
             }
           }
         }
       }
     }"

definition btree_insert_node :: "'d btree \<Rightarrow> nat \<Rightarrow> (int \<times> 'd btree) option" where
  "btree_insert_node t node = insert_node tree_fuel t node"

definition leaf_insert_at :: "'d btree \<Rightarrow> nat \<Rightarrow> u32 \<Rightarrow> u8 list \<Rightarrow> u8 list \<Rightarrow> u32 \<Rightarrow> 'd btree option" where
  "leaf_insert_at t p index key value sz =
     do {
       n \<leftarrow> bt_nodes t p;
       (sb, n) \<leftarrow> leaf_insert (bt_super t) n index key value sz;
       Some (t\<lparr>bt_super := sb, bt_nodes := (bt_nodes t)(p \<mapsto> n)\<rparr>)
     }"

definition leaf_remove_at :: "'d btree \<Rightarrow> nat \<Rightarrow> u32 \<Rightarrow> 'd btree option" where
  "leaf_remove_at t p index =
     do {
       n \<leftarrow> bt_nodes t p;
       (sb, n) \<leftarrow> leaf_remove (bt_super t) n index;
       Some (t\<lparr>bt_super := sb, bt_nodes := (bt_nodes t)(p \<mapsto> n)\<rparr>)
     }"

definition leaf_first_key :: "super \<Rightarrow> bnode \<Rightarrow> u8 list option" where
  "leaf_first_key sb n = leaf_key sb n 0"

definition leaf_split_insert :: "'d btree \<Rightarrow> nat \<Rightarrow> u8 list \<Rightarrow> u8 list \<Rightarrow> u32 \<Rightarrow> (int \<times> 'd btree) option" where
  "leaf_split_insert t left key value sz =
     do {
       (right, t) \<leftarrow> btnode_alloc t LEAF_NODE_LEVEL;
       if right = 0 then Some (1, t)
       else do {
         t \<leftarrow> on_nodes t left right (leaf_split (bt_super t));
         t \<leftarrow> btree_twigs_update t left (last_key_of t right) (last_key_of t left);
         (r, t) \<leftarrow> btree_insert_node t right;
         if r \<noteq> 0
         then do {
           l \<leftarrow> bt_nodes t left;
           m \<leftarrow> bt_nodes t right;
           (sb, l, m) \<leftarrow> leaf_merge (bt_super t) l m;
           t \<leftarrow> btnode_free (t\<lparr>bt_super := sb, bt_nodes := (bt_nodes t)(left \<mapsto> l, right \<mapsto> m)\<rparr>) right;
           Some (2, t)
         }
         else do {
           let needed = item_needed_size (bt_super t) sz;
           target \<leftarrow> split_target t (Some key) left right (leaf_first_key (bt_super t));
           free \<leftarrow> node_at t target node_free_bytes;
           if free < needed
           then do {
             (target, t) \<leftarrow> btnode_alloc t LEAF_NODE_LEVEL;
             if target = 0 then do { t \<leftarrow> btnode_release t right; Some (3, t) }
             else do {
               t \<leftarrow> btree_twigs_insert_update t target 0 (Some key);
               t \<leftarrow> leaf_insert_at t target 0 key value sz;
               (r, t) \<leftarrow> btree_insert_node t target;
               if r \<noteq> 0
               then do {
                 t \<leftarrow> btnode_release t right;
                 t \<leftarrow> btnode_free t target;
                 Some (4, t)
               }
               else do { t \<leftarrow> btnode_release t right; Some (0, t) }
             }
           }
           else do {
             (_, index) \<leftarrow> node_at t target (\<lambda>n. leaf_index_search (bt_super t) (bt_cb t) n (Some key));
             t \<leftarrow> btree_twigs_insert_update t target 0 (Some key);
             t \<leftarrow> leaf_insert_at t target index key value sz;
             t \<leftarrow> btnode_release t right;
             Some (0, t)
           }
         }
       }
     }"

subsection \<open>Removing a node\<close>

text \<open>The memory of the parent is released when the recursive call says so.\<close>

fun remove_node :: "nat \<Rightarrow> 'd btree \<Rightarrow> nat \<Rightarrow> (bool \<times> 'd btree) option" where
  "remove_node 0 t node = None"
| "remove_node (Suc fuel) t node =
     do {
       leaf \<leftarrow> node_at t node node_is_leaf;
       let last_key = last_key_of t node;
       level \<leftarrow> node_at t node node_level;
       (parent, pl, t) \<leftarrow> btree_lookup_level t last_key (level + 1) no_place;
       if parent \<noteq> 0
       then do {
         items \<leftarrow> node_at t parent node_items;
         (freed, t) \<leftarrow> (if items = 1 then remove_node fuel t parent
                        else do {
                          t \<leftarrow> btree_twigs_remove_update t parent (pl_index pl);
                          t \<leftarrow> on_node t parent (\<lambda>n. twig_remove (bt_super t) n (pl_index pl));
                          Some (False, t)
                        });
         t \<leftarrow> (if leaf then leaf_remove_at t node 0 else on_node t node (\<lambda>n. twig_remove (bt_super t) n 0));
         let t = t\<lparr>bt_super := (bt_super t)\<lparr>sb_node_count := sb_node_count (bt_super t) - 1\<rparr>\<rparr>;
         t \<leftarrow> btnode_remove t node;
         t \<leftarrow> (if \<not> freed then btnode_release t parent else Some t);
         Some (True, t)
       }
       else do {
         internal \<leftarrow> node_at t node node_is_internal;
         if internal
         then do {
           t \<leftarrow> btree_twigs_remove_update t node (pl_index pl);
           t \<leftarrow> on_node t node (\<lambda>n. twig_remove (bt_super t) n (pl_index pl));
           Some (False, t)
         }
         else Some (False, t)
       }
     }"

definition btree_remove_node :: "'d btree \<Rightarrow> nat \<Rightarrow> (bool \<times> 'd btree) option" where
  "btree_remove_node t node = remove_node tree_fuel t node"

subsection \<open>Writing the tree to the disk\<close>

text \<open>The result, and what the variable of the caller holds afterwards: the pointer to the block that was written.
  \<open>sync_children i k\<close> is the loop over the next \<open>k\<close> children from \<open>i\<close>.\<close>

fun node_sync :: "nat \<Rightarrow> 'd btree \<Rightarrow> nat \<Rightarrow> node_pointer \<Rightarrow> (int \<times> node_pointer \<times> 'd btree) option"
and sync_children :: "nat \<Rightarrow> 'd btree \<Rightarrow> nat \<Rightarrow> node_pointer \<Rightarrow> u32 \<Rightarrow> nat \<Rightarrow> (int \<times> node_pointer \<times> 'd btree) option" where
  "node_sync 0 t p pointer = None"
| "node_sync (Suc fuel) t p pointer =
     do {
       n \<leftarrow> bt_nodes t p;
       if bn_refs n \<noteq> 1 then None
       else do {
         internal \<leftarrow> node_is_internal n;
         if internal \<and> \<not> node_need_update n \<and> \<not> node_is_dirty n then Some (1, pointer, t)
         else do {
           items \<leftarrow> node_items n;
           (err, pointer, t) \<leftarrow> (if internal then sync_children fuel t p pointer 0 (unat items) else Some (0, pointer, t));
           if err < 0 then Some (err, pointer, t)
           else do {
             n \<leftarrow> bt_nodes t p;
             if \<not> node_is_dirty n then Some (2, pointer, t)
             else do {
               let ops = bt_ops t;
               let sz = sb_block_size (bt_super t);
               d \<leftarrow> bn_data n;
               block \<leftarrow> buf_read d 0 (unat sz);
               d \<leftarrow> store d 0 (dk_crc_block ops (drop 4 block));
               block \<leftarrow> buf_read d 0 (unat sz);
               let (blocknr, disk) = dk_write ops (bt_disk t) (bn_blocknr n) (bn_size n) block;
               t \<leftarrow> on_node t p (\<lambda>n. Some ((node_set_clean (node_set_on_disk n))
                 \<lparr>bn_data := Some d, bn_blocknr := blocknr, bn_size := sz\<rparr>));
               Some (0, \<lparr>np_blocknr = blocknr, np_crc = dk_crc_pointer ops block, np_size = sz\<rparr>, t\<lparr>bt_disk := disk\<rparr>)
             }
           }
         }
       }
     }"
| "sync_children fuel t p pointer i 0 = Some (0, pointer, t)"
| "sync_children fuel t p pointer i (Suc k) =
     do {
       (child, t) \<leftarrow> btnode_fetch_twig t p i;
       if child = 0 then Some (- 1, pointer, t)
       else do {
         (err, pointer, t) \<leftarrow> node_sync fuel t child pointer;
         t \<leftarrow> btnode_release t child;
         if err < 0 then Some (err, pointer, t)
         else do {
           t \<leftarrow> (if err > 0 then Some t else on_node t p (\<lambda>n. twig_inline_replace (bt_super t) n i pointer));
           sync_children fuel t p pointer (i + 1) k
         }
       }
     }"

text \<open>The nodes in memory released: every one must have no references left.\<close>

fun mem_nodes_release :: "nat \<Rightarrow> 'd btree \<Rightarrow> nat \<Rightarrow> 'd btree option"
and mem_children_release :: "nat \<Rightarrow> 'd btree \<Rightarrow> nat \<Rightarrow> nat \<Rightarrow> nat \<Rightarrow> 'd btree option" where
  "mem_nodes_release 0 t p = None"
| "mem_nodes_release (Suc fuel) t p =
     do {
       n \<leftarrow> bt_nodes t p;
       if bn_refs n \<noteq> 0 then None
       else do {
         t \<leftarrow> (if bn_pointers n \<noteq> None then mem_children_release fuel t p 0 (unat (sb_fanout (bt_super t))) else Some t);
         btnode_free t p
       }
     }"
| "mem_children_release fuel t p i 0 = Some t"
| "mem_children_release fuel t p i (Suc k) =
     do {
       n \<leftarrow> bt_nodes t p;
       ps \<leftarrow> bn_pointers n;
       child \<leftarrow> buf_get ps i;
       t \<leftarrow> (if child = 0 then Some t else mem_nodes_release fuel t child);
       mem_children_release fuel t p (i + 1) k
     }"

subsection \<open>The interface\<close>

text \<open>The structure before is whatever it held.\<close>

definition btree_create_prefix ::
  "'d btree \<Rightarrow> u32 \<Rightarrow> u64 \<Rightarrow> u32 \<Rightarrow> u8 \<Rightarrow> u32 \<Rightarrow> u32 \<Rightarrow> u32 \<Rightarrow> u16 \<Rightarrow> callbacks \<Rightarrow> (int \<times> 'd btree) option" where
  "btree_create_prefix t cache_size super_offset block_size format prefix_size key_size btree_magic node_magic cb =
     (if unat block_size < NODE_HEAD_SIZE + 4 * (ITEM_HEAD_SIZE + unat (push_bit 2 key_size)) then Some (1, t)
      else do {
        let sb = (bt_super t)\<lparr>sb_magic := btree_magic, sb_node_magic := node_magic, sb_block_size := block_size,
            sb_prefix_size := ucast prefix_size, sb_key_size := ucast key_size, sb_height := of_nat LEAF_NODE_LEVEL,
            sb_format := ucast format, sb_item_count := 0, sb_node_count := 0, sb_stored_data := 0,
            sb_root := 0, sb_root_size := 0, sb_root_crc := 0\<rparr>;
        let sb = sb\<lparr>sb_fanout := of_nat (unat (node_space sb) div (unat (sb_prefix_size sb) + NODE_POINTER_SIZE))\<rparr>;
        (_, a, c) \<leftarrow> btcache_open (bt_alk t) (bt_cache t) cache_size;
        Some (0, t\<lparr>bt_cb := cb, bt_super_offset := super_offset, bt_root := 0, bt_super := sb, bt_alk := a, bt_cache := c\<rparr>)
      })"

definition btree_create ::
  "'d btree \<Rightarrow> u32 \<Rightarrow> u64 \<Rightarrow> u32 \<Rightarrow> u8 \<Rightarrow> u32 \<Rightarrow> u32 \<Rightarrow> u16 \<Rightarrow> (u8 list \<Rightarrow> u8 list \<Rightarrow> int) \<Rightarrow> (int \<times> 'd btree) option" where
  "btree_create t cache_size super_offset block_size format key_size btree_magic node_magic keycmp =
     btree_create_prefix t cache_size super_offset block_size format key_size key_size btree_magic node_magic
       \<lparr>cb_keycpy = None, cb_prefix_keycmp = keycmp, cb_keycmp = keycmp\<rparr>"

definition btree_prefix_open ::
  "'d btree \<Rightarrow> u32 \<Rightarrow> u64 \<Rightarrow> u32 \<Rightarrow> u16 \<Rightarrow> callbacks \<Rightarrow> (int \<times> 'd btree) option" where
  "btree_prefix_open t cache_size super_offset btree_magic node_magic cb =
     do {
       let t = t\<lparr>bt_cb := cb, bt_super_offset := super_offset, bt_root := 0\<rparr>;
       (_, a, c) \<leftarrow> btcache_open (bt_alk t) (bt_cache t) cache_size;
       let t = t\<lparr>bt_alk := a, bt_cache := c\<rparr>;
       let (ok, xs) = dk_read (bt_ops t) (bt_disk t) super_offset (of_nat SUPER_BLOCK_SIZE);
       bytes \<leftarrow> buf_write (super_bytes (bt_super t)) 0 xs;
       sb \<leftarrow> super_of bytes;
       let t = t\<lparr>bt_super := sb\<rparr>;
       if \<not> ok then Some (1, t)
       else if sb_magic sb \<noteq> btree_magic then Some (3, t)
       else if sb_node_magic sb \<noteq> node_magic then Some (4, t)
       else Some (0, t)
     }"

definition btree_open ::
  "'d btree \<Rightarrow> u32 \<Rightarrow> u64 \<Rightarrow> u32 \<Rightarrow> u16 \<Rightarrow> (u8 list \<Rightarrow> u8 list \<Rightarrow> int) \<Rightarrow> (int \<times> 'd btree) option" where
  "btree_open t cache_size super_offset btree_magic node_magic keycmp =
     btree_prefix_open t cache_size super_offset btree_magic node_magic
       \<lparr>cb_keycpy = None, cb_prefix_keycmp = keycmp, cb_keycmp = keycmp\<rparr>"

definition btree_sync :: "'d btree \<Rightarrow> (int \<times> 'd btree) option" where
  "btree_sync t =
     (if bt_root t = 0 then Some (0, t)
      else do {
        (p, t) \<leftarrow> btree_fetch_root t;
        (err, pointer, t) \<leftarrow> node_sync tree_fuel t p null_pointer;
        t \<leftarrow> btnode_release t p;
        if err < 0 then Some (- 1, t)
        else if err > 0 then Some (1, t)
        else do {
          let sb = (bt_super t)\<lparr>sb_root := np_blocknr pointer, sb_root_size := np_size pointer, sb_root_crc := np_crc pointer\<rparr>;
          let (off, disk) = dk_write (bt_ops t) (bt_disk t) (bt_super_offset t) (of_nat SUPER_BLOCK_SIZE) (super_bytes sb);
          t \<leftarrow> mem_nodes_release tree_fuel (t\<lparr>bt_super := sb, bt_disk := disk, bt_super_offset := off\<rparr>) (bt_root t);
          Some (0, t\<lparr>bt_root := 0\<rparr>)
        }
      })"

definition btree_close :: "'d btree \<Rightarrow> (int \<times> 'd btree) option" where
  "btree_close t =
     do {
       (r, t) \<leftarrow> btree_sync t;
       if r < 0 then Some (- 1, t)
       else do {
         t \<leftarrow> (if bt_root t \<noteq> 0
               then do { t \<leftarrow> mem_nodes_release tree_fuel t (bt_root t); Some (t\<lparr>bt_root := 0\<rparr>) }
               else Some t);
         (a, c) \<leftarrow> btcache_close (bt_alk t) (bt_cache t);
         Some (0, t\<lparr>bt_alk := a, bt_cache := c\<rparr>)
       }
     }"

text \<open>\<open>junk\<close> is what \<open>place.size\<close> holds when the function is entered; it is read when the key is not found.\<close>

definition btree_insert :: "u32 \<Rightarrow> 'd btree \<Rightarrow> u8 list \<Rightarrow> u8 list \<Rightarrow> u32 \<Rightarrow> (int \<times> 'd btree) option" where
  "btree_insert junk t key value sz =
     (if bt_root t = 0
      then do {
        (p, t) \<leftarrow> btree_grow t;
        if p = 0 then Some (1, t)
        else do {
          t \<leftarrow> leaf_insert_at t p 0 key value sz;
          t \<leftarrow> btnode_release t p;
          Some (0, t)
        }
      }
      else do {
        (p, pl, t) \<leftarrow> btree_lookup_level t (Some key) LEAF_NODE_LEVEL (no_place\<lparr>pl_size := junk\<rparr>);
        if p = 0 then None
        else do {
          n \<leftarrow> bt_nodes t p;
          items \<leftarrow> node_items n;
          free \<leftarrow> node_free_bytes n;
          let needed = item_needed_size (bt_super t) sz;
          let space = free + (if pl_found pl then item_needed_size (bt_super t) (pl_size pl) else 0);
          (r, unused, t) \<leftarrow>
            (if pl_size pl = sz
             then do { t \<leftarrow> on_node t p (\<lambda>n. leaf_inline_replace (bt_super t) n (pl_index pl) value sz); Some (0, 0, t) }
             else if needed \<le> space
             then if pl_found pl
                  then do { t \<leftarrow> on_node t p (\<lambda>n. leaf_replace (bt_super t) n (pl_index pl) value sz); Some (0, 0, t) }
                  else do {
                    t \<leftarrow> btree_twigs_insert_update t p (pl_index pl) (Some key);
                    t \<leftarrow> leaf_insert_at t p (pl_index pl) key value sz;
                    Some (0, 0, t)
                  }
             else if pl_index pl < items
             then do {
               t \<leftarrow> (if pl_found pl then leaf_remove_at t p (pl_index pl) else Some t);
               (r, t) \<leftarrow> leaf_split_insert t p key value sz;
               Some (if r \<noteq> 0 then 2 else 0, 0, t)
             }
             else do {
               t \<leftarrow> (if pl_found pl then leaf_remove_at t p (pl_index pl) else Some t);
               (right, t) \<leftarrow> btnode_alloc t LEAF_NODE_LEVEL;
               if right = 0 then Some (3, 0, t)
               else do {
                 t \<leftarrow> leaf_insert_at t right 0 key value sz;
                 (r, t) \<leftarrow> btree_insert_node t right;
                 if r \<noteq> 0
                 then Some (4, right, t)
                 else do { t \<leftarrow> btnode_release t right; Some (0, 0, t) }
               }
             });
          t \<leftarrow> btnode_release t p;
          t \<leftarrow> (if unused \<noteq> 0 then btnode_free t unused else Some t);
          Some (r, t)
        }
      })"

definition btree_remove :: "'d btree \<Rightarrow> u8 list \<Rightarrow> (int \<times> 'd btree) option" where
  "btree_remove t key =
     do {
       (p, pl, t) \<leftarrow> btree_lookup_level t (Some key) LEAF_NODE_LEVEL no_place;
       if p = 0 then Some (1, t)
       else if \<not> pl_found pl then do { t \<leftarrow> btnode_release t p; Some (2, t) }
       else do {
         items \<leftarrow> node_at t p node_items;
         if items = 1
         then if sb_node_count (bt_super t) > 1
           then do {
             (removed, t) \<leftarrow> btree_remove_node t p;
             if \<not> removed then None
             else do {
               (root, t) \<leftarrow> btree_fetch_root t;
               items \<leftarrow> node_at t root node_items;
               if items = 1
               then do {
                 (child, t) \<leftarrow> btnode_fetch_twig t root 0;
                 let sb = bt_super t;
                 let t = t\<lparr>bt_root := child, bt_super := sb\<lparr>sb_height := sb_height sb - 1, sb_node_count := sb_node_count sb - 1\<rparr>\<rparr>;
                 t \<leftarrow> btnode_remove t root;
                 t \<leftarrow> btnode_release t child;
                 Some (0, t)
               }
               else do { t \<leftarrow> btnode_release t root; Some (0, t) }
             }
           }
           else do {
             t \<leftarrow> leaf_remove_at t p 0;
             t \<leftarrow> btnode_release t p;
             Some (0, t)
           }
         else do {
           t \<leftarrow> btree_twigs_remove_update t p (pl_index pl);
           t \<leftarrow> leaf_remove_at t p (pl_index pl);
           t \<leftarrow> btnode_release t p;
           Some (0, t)
         }
       }
     }"

text \<open>The number of bytes stored from the start of the buffer, and the buffer.\<close>

definition btree_lookup :: "'d btree \<Rightarrow> u8 list \<Rightarrow> u8 list \<Rightarrow> u32 \<Rightarrow> (u32 \<times> u8 list \<times> 'd btree) option" where
  "btree_lookup t key buffer sz =
     do {
       (p, pl, t) \<leftarrow> btree_lookup_level t (Some key) LEAF_NODE_LEVEL no_place;
       if p = 0 then Some (0, buffer, t)
       else if \<not> pl_found pl then do { t \<leftarrow> btnode_release t p; Some (0, buffer, t) }
       else do {
         let x = min sz (pl_size pl);
         d \<leftarrow> node_at t p bn_data;
         v \<leftarrow> buf_read d (pl_value pl) (unat x);
         buffer \<leftarrow> buf_write buffer 0 v;
         t \<leftarrow> btnode_release t p;
         Some (x, buffer, t)
       }
     }"

end
