(* ===== verification/Btree_Node.thy ===== *)
theory Btree_Node
  imports Btree_Order Btree
begin

section \<open>The leaves of btree.c as maps\<close>

text \<open>
  A leaf node in memory whose block represents items in the order of the keys, and what the search, the insertion,
  the removal and the replacement at the index found do to the map of its items. The reference counts of the nodes.
\<close>

definition leaf_node :: "super \<Rightarrow> callbacks \<Rightarrow> bnode \<Rightarrow> leaf_item list \<Rightarrow> bool" where
  "leaf_node sb cb n xs \<longleftrightarrow> (\<exists>d. bn_data n = Some d \<and> nh_level d = Some 1 \<and> leaf_rep sb d xs)
     \<and> in_order (cb_keycmp cb) (map fst xs)"

definition leaf_used :: "super \<Rightarrow> leaf_item list \<Rightarrow> nat" where
  "leaf_used sb xs = NODE_HEAD_SIZE + length xs * item_size sb + total xs"

definition same_shape :: "super \<Rightarrow> super \<Rightarrow> bool" where
  "same_shape sb sb' \<longleftrightarrow> sb_key_size sb' = sb_key_size sb \<and> sb_block_size sb' = sb_block_size sb"

lemma same_shape_simps:
  assumes "same_shape sb sb'"
  shows "item_size sb' = item_size sb" "leaf_rep sb' = leaf_rep sb" "leaf_node sb' cb = leaf_node sb cb"
    "leaf_used sb' = leaf_used sb"
proof -
  show I: "item_size sb' = item_size sb" using assms by (simp add: same_shape_def item_size_def)
  show R: "leaf_rep sb' = leaf_rep sb" using assms by (intro ext) (simp add: same_shape_def leaf_rep_def keys_sized_def)
  show "leaf_node sb' cb = leaf_node sb cb" by (intro ext) (simp add: leaf_node_def R)
  show "leaf_used sb' = leaf_used sb" by (intro ext) (simp add: leaf_used_def I)
qed

lemma nh_level_take: "length d \<ge> 8 \<Longrightarrow> length d' \<ge> 8 \<Longrightarrow> take 8 d' = take 8 d \<Longrightarrow> nh_level d' = nh_level d"
proof -
  assume a: "length d \<ge> 8" "length d' \<ge> 8" "take 8 d' = take 8 d"
  have "take 1 (drop 7 d') = take 1 (drop 7 d)" using arg_cong [OF a(3), of "drop 7"] by (simp add: drop_take)
  then show ?thesis using a by (simp add: nh_level_def load_def buf_read_def)
qed

lemma leaf_rep_free:
  assumes "leaf_rep sb d xs"
  shows "nh_free d = Some (of_nat (length d - leaf_used sb xs))" "leaf_used sb xs \<le> length d" "length d = unat (sb_block_size sb)"
    "8 \<le> length d" "unat (of_nat (length d - leaf_used sb xs) :: u32) = length d - leaf_used sb xs"
proof -
  obtain e where e0: "length d = e" by blast
  obtain pre gap where d: "d = leaf_image pre e xs gap" "length pre = 8" and sized: "keys_sized sb xs" and e: "e < 2 ^ 32" "e = unat (sb_block_size sb)"
    using assms unsigned_less [where 'a = nat, of "sb_block_size sb"] e0 by (auto simp: leaf_rep_def)
  have len: "e = leaf_used sb xs + length gap"
    using arg_cong [OF d(1), of length] d(2) e0 by (simp add: leaf_image_def length_entries [OF sized] leaf_used_def NODE_HEAD_SIZE_def)
  have "nh_free d = Some (of_nat (length gap))" unfolding d(1) leaf_image_def by (rule head_reads(2) [OF d(2)])
  then show "nh_free d = Some (of_nat (length d - leaf_used sb xs))" using len e0 by simp
  show "leaf_used sb xs \<le> length d" "length d = unat (sb_block_size sb)" using len e0 e by simp_all
  show "8 \<le> length d" using len e0 by (simp add: leaf_used_def NODE_HEAD_SIZE_def)
  show "unat (of_nat (length d - leaf_used sb xs) :: u32) = length d - leaf_used sb xs" using e(1) e0 by simp
qed

lemma leaf_node_level:
  assumes "leaf_node sb cb n xs"
  shows "node_level n = Some 1" "node_is_leaf n = Some True" "node_is_internal n = Some False"
    "node_items n = Some (of_nat (length xs))" "length xs < 2 ^ 31"
    "node_free_bytes n = Some (of_nat (unat (sb_block_size sb) - leaf_used sb xs))" "leaf_used sb xs \<le> unat (sb_block_size sb)"
    "unat (of_nat (unat (sb_block_size sb) - leaf_used sb xs) :: u32) = unat (sb_block_size sb) - leaf_used sb xs"
proof -
  obtain d where d: "bn_data n = Some d" "nh_level d = Some 1" "leaf_rep sb d xs" using assms by (auto simp: leaf_node_def)
  note r = leaf_rep_items [OF d(3)] and f = leaf_rep_free [OF d(3)]
  show "node_level n = Some 1" using d by (simp add: node_level_def)
  then show "node_is_leaf n = Some True" "node_is_internal n = Some False"
    by (simp_all add: node_is_leaf_def node_is_internal_def LEAF_NODE_LEVEL_def)
  show "node_items n = Some (of_nat (length xs))" using d r by (simp add: node_items_def)
  show "length xs < 2 ^ 31" by (rule r(2))
  show "node_free_bytes n = Some (of_nat (unat (sb_block_size sb) - leaf_used sb xs))"
    "unat (of_nat (unat (sb_block_size sb) - leaf_used sb xs) :: u32) = unat (sb_block_size sb) - leaf_used sb xs"
    using d(1) f(1,5) unfolding f(3) by (simp_all add: node_free_bytes_def)
  show "leaf_used sb xs \<le> unat (sb_block_size sb)" using f(2,3) by simp
qed

lemma leaf_rep_sized: "leaf_rep sb d xs \<Longrightarrow> \<forall>x \<in> set xs. length (fst x) = unat (sb_key_size sb)"
  by (simp add: leaf_rep_def keys_sized_def)

text \<open>The same number of bytes in the place of the data of an item.\<close>

lemma leaf_inline_replace_effect:
  assumes "bn_data n = Some d" "leaf_rep sb d (xs @ (k, v) # ys)" "i = of_nat (length xs)"
    and "buf_read value 0 (unat sz) = Some w" "length w = length v"
  shows "\<exists>d'. leaf_inline_replace sb n i value sz = Some (node_set_dirty (n\<lparr>bn_data := Some d'\<rparr>))
    \<and> leaf_rep sb d' (xs @ (k, w) # ys) \<and> take 8 d' = take 8 d"
proof -
  obtain e where e0: "length d = e" by blast
  obtain pre gap where d: "d = leaf_image pre e (xs @ (k, v) # ys) gap" "length pre = 8" and sized: "keys_sized sb (xs @ (k, v) # ys)"
    and e: "e < 2 ^ 32" "e = unat (sb_block_size sb)"
    using assms(2) unsigned_less [where 'a = nat, of "sb_block_size sb"] e0 by (auto simp: leaf_rep_def)
  have j: "length xs < length (xs @ (k, v) # ys)" by simp
  have body: "item_body sb d i = Some (e - (total xs + length v))"
    using leaf_rep_reads(1) [OF assms(2) j] assms(3) e0 by simp
  let ?C = "pre @ to_bytes (of_nat (length (xs @ (k, v) # ys)) :: u32) @ to_bytes (of_nat (length gap) :: u32)
    @ entries e (xs @ (k, v) # ys) @ gap @ bodies ys"
  have dC: "d = ?C @ v @ bodies xs" using d(1) by (simp add: leaf_image_def)
  have "length ?C = e - (total xs + length v)" using arg_cong [OF dC, of length] e0 by simp
  then have wr: "buf_write d (e - (total xs + length v)) w = Some (?C @ w @ bodies xs)"
    unfolding dC using write_app [of ?C _ w v "bodies xs"] assms(5) by simp
  have ent: "entries e (xs @ (k, v) # ys) = entries e (xs @ (k, w) # ys)" using assms(5) by (simp add: entries_append)
  have img: "?C @ w @ bodies xs = leaf_image pre e (xs @ (k, w) # ys) gap" unfolding ent by (simp add: leaf_image_def)
  have len: "length (?C @ w @ bodies xs) = e" using arg_cong [OF dC, of length] e0 assms(5) by simp
  have "leaf_inline_replace sb n i value sz = Some (node_set_dirty (n\<lparr>bn_data := Some (?C @ w @ bodies xs)\<rparr>))"
    unfolding leaf_inline_replace_def using assms(1,4) body wr by simp
  moreover have "leaf_rep sb (?C @ w @ bodies xs) (xs @ (k, w) # ys)"
    unfolding leaf_rep_def len using img d(2) sized e(2) by auto
  moreover have "take 8 (?C @ w @ bodies xs) = take 8 d" using dC d(2) by simp
  ultimately show ?thesis by blast
qed

subsection \<open>The operations on the map\<close>

text \<open>Where the search for a key ends.\<close>

definition leaf_place :: "super \<Rightarrow> callbacks \<Rightarrow> u8 list \<Rightarrow> leaf_item list \<Rightarrow> place \<Rightarrow> place" where
  "leaf_place sb cb key xs pl =
     (let i = length (below (cb_keycmp cb) key xs)
      in case map_of xs key of
           None \<Rightarrow> pl\<lparr>pl_index := of_nat i, pl_found := False\<rparr>
         | Some v \<Rightarrow> pl\<lparr>pl_index := of_nat i, pl_found := True, pl_size := of_nat (length v),
                      pl_value := unat (sb_block_size sb) - total (take (Suc i) xs)\<rparr>)"

lemma leaf_search_map:
  assumes "key_order (cb_keycmp cb) (unat (sb_key_size sb))" "leaf_node sb cb n xs" "length key = unat (sb_key_size sb)"
  shows "leaf_search sb cb n (Some key) pl = Some (leaf_place sb cb key xs pl)"
    and "leaf_index_search sb cb n (Some key) = Some (map_of xs key \<noteq> None, of_nat (length (below (cb_keycmp cb) key xs)))"
    and "map_of xs key = Some v \<Longrightarrow> bn_data n = Some d \<Longrightarrow> length v < 2 ^ 32
      \<and> buf_read d (pl_value (leaf_place sb cb key xs pl)) (length v) = Some v"
proof -
  let ?cmp = "cb_keycmp cb" and ?i = "length (below (cb_keycmp cb) key xs)"
  obtain d where d: "bn_data n = Some d" "leaf_rep sb d xs" and o: "in_order ?cmp (map fst xs)" using assms(2) by (auto simp: leaf_node_def)
  note s = key_order.search_as_map [OF assms(1) o leaf_rep_sized [OF d(2)] assms(3)]
  show idx: "leaf_index_search sb cb n (Some key) = Some (map_of xs key \<noteq> None, of_nat ?i)"
    using leaf_index_search_effect [OF d(1,2), of cb key] s by simp
  have found: "?i < length xs \<and> xs ! ?i = (key, v)" if v: "map_of xs key = Some v" for v
  proof -
    obtain zs where "from_key ?cmp key xs = (key, v) # zs"
      using key_order.found_as_map [OF assms(1) o leaf_rep_sized [OF d(2)] assms(3) v] by blast
    then have "xs = below ?cmp key xs @ (key, v) # zs" using below_from_key [of ?cmp key xs] by simp
    then show ?thesis by (metis length_append length_Cons less_add_Suc1 add_Suc_right nth_append_length)
  qed
  have reads: "item_body sb d (of_nat ?i) = Some (length d - total (take (Suc ?i) xs))" "item_body_size sb d (of_nat ?i) = Some (of_nat (length v))"
    "buf_read d (length d - total (take (Suc ?i) xs)) (length v) = Some v" if "map_of xs key = Some v" for v
    using leaf_rep_reads [OF d(2), of ?i] found [OF that] by simp_all
  have len: "length d = unat (sb_block_size sb)" using d(2) by (simp add: leaf_rep_def)
  show "leaf_search sb cb n (Some key) pl = Some (leaf_place sb cb key xs pl)"
    using idx d(1) reads(1,2) len by (cases "map_of xs key") (simp_all add: leaf_search_def leaf_place_def Let_def)
  show "length v < 2 ^ 32 \<and> buf_read d' (pl_value (leaf_place sb cb key xs pl)) (length v) = Some v"
    if v: "map_of xs key = Some v" "bn_data n = Some d'" for d'
  proof -
    have "d' = d" using v(2) d(1) by simp
    moreover have "length v \<le> length d" using reads(3) [OF v(1)] by (auto simp: buf_read_def split: if_splits)
    ultimately show ?thesis using reads(3) [OF v(1)] v(1) len leaf_rep_items(4) [OF d(2)] by (simp add: leaf_place_def Let_def)
  qed
qed

lemma leaf_node_update:
  assumes "leaf_node sb cb n xs" "bn_data n = Some d" "take 8 d' = take 8 d" "leaf_rep sb d' ys" "in_order (cb_keycmp cb) (map fst ys)"
    and "same_shape sb sb'"
  shows "leaf_node sb' cb (node_set_dirty (n\<lparr>bn_data := Some d'\<rparr>)) ys"
proof -
  have d: "leaf_rep sb d xs" "nh_level d = Some 1" using assms(1,2) by (auto simp: leaf_node_def)
  have "nh_level d' = Some 1"
    using nh_level_take [OF leaf_rep_free(4) [OF d(1)] leaf_rep_free(4) [OF assms(4)] assms(3)] d(2) by simp
  then show ?thesis unfolding same_shape_simps [OF assms(6)] using assms(4,5) by (simp add: leaf_node_def node_set_dirty_def)
qed

text \<open>A new item at the place of its key; room for one more item than there are is needed.\<close>

definition put_item :: "callbacks \<Rightarrow> u8 list \<Rightarrow> u8 list \<Rightarrow> leaf_item list \<Rightarrow> leaf_item list" where
  "put_item cb key v xs = below (cb_keycmp cb) key xs @ (key, v) #
     (if map_of xs key = None then from_key (cb_keycmp cb) key xs else tl (from_key (cb_keycmp cb) key xs))"

definition drop_item :: "callbacks \<Rightarrow> u8 list \<Rightarrow> leaf_item list \<Rightarrow> leaf_item list" where
  "drop_item cb key xs = below (cb_keycmp cb) key xs @ tl (from_key (cb_keycmp cb) key xs)"

definition add_counts :: "super \<Rightarrow> u64 \<Rightarrow> u64 \<Rightarrow> super" where
  "add_counts sb i s = sb\<lparr>sb_item_count := sb_item_count sb + i, sb_stored_data := sb_stored_data sb + s\<rparr>"

lemma add_counts_shape: "same_shape sb (add_counts sb i s)"
  by (simp add: same_shape_def add_counts_def)

lemma leaf_insert_map:
  assumes "key_order (cb_keycmp cb) (unat (sb_key_size sb))" "leaf_node sb cb n xs" "length key = unat (sb_key_size sb)"
    and "map_of xs key = None" "unat ds \<le> length value" "leaf_used sb xs + item_size sb + unat ds \<le> unat (sb_block_size sb)"
  shows "\<exists>d'. leaf_insert sb n (of_nat (length (below (cb_keycmp cb) key xs))) key value ds
      = Some (add_counts sb 1 (ucast ds), node_set_dirty (n\<lparr>bn_data := Some d'\<rparr>))
    \<and> leaf_node (add_counts sb 1 (ucast ds)) cb (node_set_dirty (n\<lparr>bn_data := Some d'\<rparr>)) (put_item cb key (take (unat ds) value) xs)"
proof -
  let ?cmp = "cb_keycmp cb" and ?v = "take (unat ds) value"
  obtain d where d: "bn_data n = Some d" "leaf_rep sb d xs" and o: "in_order ?cmp (map fst xs)" using assms(2) by (auto simp: leaf_node_def)
  have d2: "leaf_rep sb d (below ?cmp key xs @ from_key ?cmp key xs)" using d(2) by simp
  have "NODE_HEAD_SIZE + Suc (length (below ?cmp key xs @ from_key ?cmp key xs)) * item_size sb
      + total (below ?cmp key xs @ from_key ?cmp key xs) + unat ds \<le> length d"
    using assms(6) leaf_rep_free(3) [OF d(2)] unfolding below_from_key by (simp add: leaf_used_def)
  moreover have "buf_read key 0 (unat (sb_key_size sb)) = Some key" "buf_read value 0 (unat ds) = Some ?v"
    using assms(3,5) by (simp_all add: buf_read_def)
  ultimately obtain d' where "leaf_insert sb n (of_nat (length (below ?cmp key xs))) key value ds
      = Some (add_counts sb 1 (ucast ds), node_set_dirty (n\<lparr>bn_data := Some d'\<rparr>))"
    and r: "leaf_rep sb d' (below ?cmp key xs @ (key, ?v) # from_key ?cmp key xs)" "take 8 d' = take 8 d"
    unfolding add_counts_def using leaf_insert_effect [OF d(1) d2 refl] by blast
  moreover have "in_order ?cmp (map fst (below ?cmp key xs @ (key, ?v) # from_key ?cmp key xs))"
    by (rule key_order.insert_as_map(1) [OF assms(1) o leaf_rep_sized [OF d(2)] assms(3,4)])
  ultimately show ?thesis
    using leaf_node_update [OF assms(2) d(1) r(2,1) _ add_counts_shape] assms(4) by (auto simp: put_item_def simp del: map_append)
qed

lemma found_at:
  assumes "key_order (cb_keycmp cb) (unat (sb_key_size sb))" "leaf_node sb cb n xs" "length key = unat (sb_key_size sb)"
    and "map_of xs key = Some v"
  shows "\<exists>zs. from_key (cb_keycmp cb) key xs = (key, v) # zs \<and> xs = below (cb_keycmp cb) key xs @ (key, v) # zs
    \<and> in_order (cb_keycmp cb) (map fst (below (cb_keycmp cb) key xs @ zs)) \<and> map_of (drop_item cb key xs) = (map_of xs)(key := None)
    \<and> (\<forall>w. in_order (cb_keycmp cb) (map fst (below (cb_keycmp cb) key xs @ (key, w) # zs)) \<and> map_of (put_item cb key w xs) = (map_of xs)(key \<mapsto> w))"
proof -
  obtain d where d: "leaf_rep sb d xs" and o: "in_order (cb_keycmp cb) (map fst xs)" using assms(2) by (auto simp: leaf_node_def)
  obtain zs where z: "from_key (cb_keycmp cb) key xs = (key, v) # zs"
    and r: "in_order (cb_keycmp cb) (map fst (below (cb_keycmp cb) key xs @ zs))" "map_of (below (cb_keycmp cb) key xs @ zs) = (map_of xs)(key := None)"
      "\<forall>w. in_order (cb_keycmp cb) (map fst (below (cb_keycmp cb) key xs @ (key, w) # zs)) \<and> map_of (below (cb_keycmp cb) key xs @ (key, w) # zs) = (map_of xs)(key \<mapsto> w)"
    using key_order.found_as_map [OF assms(1) o leaf_rep_sized [OF d] assms(3,4)] by blast
  moreover have "xs = below (cb_keycmp cb) key xs @ (key, v) # zs" using below_from_key [of "cb_keycmp cb" key xs] z by simp
  moreover have "drop_item cb key xs = below (cb_keycmp cb) key xs @ zs" using z by (simp add: drop_item_def)
  moreover have "put_item cb key w xs = below (cb_keycmp cb) key xs @ (key, w) # zs" for w using z assms(4) by (simp add: put_item_def)
  ultimately show ?thesis by (intro exI [of _ zs]) metis
qed

lemma put_item_map:
  assumes "key_order (cb_keycmp cb) (unat (sb_key_size sb))" "leaf_node sb cb n xs" "length key = unat (sb_key_size sb)"
  shows "map_of (put_item cb key v xs) = (map_of xs)(key \<mapsto> v)"
proof (cases "map_of xs key")
  case None
  obtain d where d: "leaf_rep sb d xs" and o: "in_order (cb_keycmp cb) (map fst xs)" using assms(2) by (auto simp: leaf_node_def)
  show ?thesis using key_order.insert_as_map(2) [OF assms(1) o leaf_rep_sized [OF d] assms(3) None] None by (simp add: put_item_def)
qed (use found_at [OF assms] in blast)

lemma leaf_remove_map:
  assumes "key_order (cb_keycmp cb) (unat (sb_key_size sb))" "leaf_node sb cb n xs" "length key = unat (sb_key_size sb)"
    and "map_of xs key = Some v"
    and "length (below (cb_keycmp cb) key xs) + 1 < length xs \<Longrightarrow> NODE_HEAD_SIZE + Suc (length xs) * item_size sb \<le> unat (sb_block_size sb)"
  shows "\<exists>d'. leaf_remove sb n (of_nat (length (below (cb_keycmp cb) key xs)))
      = Some (add_counts sb (- 1) (- of_nat (length v)), node_set_dirty (n\<lparr>bn_data := Some d'\<rparr>))
    \<and> leaf_node (add_counts sb (- 1) (- of_nat (length v))) cb (node_set_dirty (n\<lparr>bn_data := Some d'\<rparr>)) (drop_item cb key xs)"
proof -
  let ?cmp = "cb_keycmp cb"
  obtain d where d: "bn_data n = Some d" "leaf_rep sb d xs" using assms(2) by (auto simp: leaf_node_def)
  obtain zs where z: "from_key ?cmp key xs = (key, v) # zs" "xs = below ?cmp key xs @ (key, v) # zs"
    "in_order ?cmp (map fst (below ?cmp key xs @ zs))"
    using found_at [OF assms(1-4)] by blast
  have len: "length xs = length (below ?cmp key xs) + 1 + length zs" by (subst z(2)) simp
  have d2: "leaf_rep sb d (below ?cmp key xs @ (key, v) # zs)" using d(2) z(2) by simp
  have "NODE_HEAD_SIZE + Suc (length (below ?cmp key xs @ (key, v) # zs)) * item_size sb \<le> length d" if "zs \<noteq> []"
    unfolding z(2) [symmetric] leaf_rep_free(3) [OF d(2)] by (rule assms(5)) (use that len in \<open>cases zs; simp\<close>)
  then obtain d' where "leaf_remove sb n (of_nat (length (below ?cmp key xs)))
      = Some (add_counts sb (- 1) (- of_nat (length v)), node_set_dirty (n\<lparr>bn_data := Some d'\<rparr>))"
    and r: "leaf_rep sb d' (below ?cmp key xs @ zs)" "take 8 d' = take 8 d"
    unfolding add_counts_def using leaf_remove_effect [OF d(1) d2 refl] by auto
  moreover have "drop_item cb key xs = below ?cmp key xs @ zs" using z(1) by (simp add: drop_item_def)
  ultimately show ?thesis
    using leaf_node_update [OF assms(2) d(1) r(2,1) z(3) add_counts_shape] by auto
qed

lemma leaf_replace_map:
  assumes "key_order (cb_keycmp cb) (unat (sb_key_size sb))" "leaf_node sb cb n xs" "length key = unat (sb_key_size sb)"
    and "map_of xs key = Some v" "length v = unat ds" "unat ds \<le> length value"
  shows "\<exists>d'. leaf_inline_replace sb n (of_nat (length (below (cb_keycmp cb) key xs))) value ds
      = Some (node_set_dirty (n\<lparr>bn_data := Some d'\<rparr>))
    \<and> leaf_node sb cb (node_set_dirty (n\<lparr>bn_data := Some d'\<rparr>)) (put_item cb key (take (unat ds) value) xs)"
proof -
  let ?cmp = "cb_keycmp cb" and ?w = "take (unat ds) value"
  obtain d where d: "bn_data n = Some d" "leaf_rep sb d xs" using assms(2) by (auto simp: leaf_node_def)
  obtain zs where z: "from_key ?cmp key xs = (key, v) # zs" "xs = below ?cmp key xs @ (key, v) # zs"
    "in_order ?cmp (map fst (below ?cmp key xs @ (key, ?w) # zs))"
    using found_at [OF assms(1-4)] by blast
  have d2: "leaf_rep sb d (below ?cmp key xs @ (key, v) # zs)" using d(2) z(2) by simp
  have "buf_read value 0 (unat ds) = Some ?w" "length ?w = length v" using assms(5,6) by (simp_all add: buf_read_def)
  then obtain d' where "leaf_inline_replace sb n (of_nat (length (below ?cmp key xs))) value ds
      = Some (node_set_dirty (n\<lparr>bn_data := Some d'\<rparr>))"
    and r: "leaf_rep sb d' (below ?cmp key xs @ (key, ?w) # zs)" "take 8 d' = take 8 d"
    using leaf_inline_replace_effect [OF d(1) d2 refl] by blast
  moreover have "put_item cb key ?w xs = below ?cmp key xs @ (key, ?w) # zs" using z(1) assms(4) by (simp add: put_item_def)
  ultimately show ?thesis
    using leaf_node_update [OF assms(2) d(1) r(2,1) z(3), of sb] by (auto simp: same_shape_def)
qed

end
