(* ===== verification/Btree_Shape.thy ===== *)
theory Btree_Shape
  imports Btree_Node
begin

section \<open>Trees of nodes in memory\<close>

text \<open>
  The nodes of a tree as a shape: a leaf with its items, a twig with its keys and children. A shape is held by the
  store of nodes when every node of it is there, with its block in memory and not clean: what a tree is before it is
  written to the disk. The search follows the path of the key, and releases the nodes it leaves.
\<close>

datatype shape = BLeaf nat "leaf_item list" | BTwig nat "u8 list list" "shape list"

fun addr :: "shape \<Rightarrow> nat" where
  "addr (BLeaf p xs) = p"
| "addr (BTwig p ks cs) = p"

fun addrs :: "shape \<Rightarrow> nat list" where
  "addrs (BLeaf p xs) = [p]"
| "addrs (BTwig p ks cs) = p # concat (map addrs cs)"

fun items_of :: "shape \<Rightarrow> leaf_item list" where
  "items_of (BLeaf p xs) = xs"
| "items_of (BTwig p ks cs) = concat (map items_of cs)"

text \<open>A tree without prefix keys: what \<open>btree_create\<close> and \<open>btree_open\<close> make.\<close>

definition plain :: "super \<Rightarrow> callbacks \<Rightarrow> bool" where
  "plain sb cb \<longleftrightarrow> cb_keycpy cb = None \<and> cb_prefix_keycmp cb = cb_keycmp cb \<and> sb_prefix_size sb = sb_key_size sb
     \<and> NODE_HEAD_SIZE + unat (sb_fanout sb) * (unat (sb_prefix_size sb) + NODE_POINTER_SIZE) \<le> unat (sb_block_size sb)
     \<and> key_order (cb_keycmp cb) (unat (sb_key_size sb))"

definition twig_node :: "super \<Rightarrow> nat \<Rightarrow> bnode \<Rightarrow> u8 list list \<Rightarrow> nat list \<Rightarrow> bool" where
  "twig_node sb l n ks ps \<longleftrightarrow> 1 < l \<and> l < 256 \<and> ks \<noteq> [] \<and> length ps = length ks \<and> length ks \<le> unat (sb_fanout sb)
     \<and> (\<exists>d qs. bn_data n = Some d \<and> bn_pointers n = Some (ps @ qs) \<and> length d = unat (sb_block_size sb)
          \<and> nh_level d = Some (of_nat l) \<and> nh_items d = Some (of_nat (length ks))
          \<and> (\<forall>i < length ks. buf_read d (NODE_HEAD_SIZE + i * unat (sb_prefix_size sb)) (unat (sb_prefix_size sb)) = Some (ks ! i)))"

definition node_live :: "bnode \<Rightarrow> bool" where
  "node_live n \<longleftrightarrow> node_is_dirty n \<and> 0 \<le> bn_refs n"

fun held :: "super \<Rightarrow> callbacks \<Rightarrow> (nat \<Rightarrow> bnode option) \<Rightarrow> nat \<Rightarrow> shape \<Rightarrow> bool" where
  "held sb cb H l (BLeaf p xs) \<longleftrightarrow> l = 1 \<and> p \<noteq> 0 \<and> (\<exists>n. H p = Some n \<and> leaf_node sb cb n xs \<and> node_live n)"
| "held sb cb H l (BTwig p ks cs) \<longleftrightarrow> p \<noteq> 0 \<and> (\<exists>n. H p = Some n \<and> twig_node sb l n ks (map addr cs) \<and> node_live n)
     \<and> in_order (cb_keycmp cb) ks \<and> (\<forall>k \<in> set ks. length k = unat (sb_key_size sb)) \<and> (\<forall>c \<in> set cs. held sb cb H (l - 1) c)"

text \<open>The index the search goes on with, and the path of a key.\<close>

definition pick :: "(u8 list \<Rightarrow> u8 list \<Rightarrow> int) \<Rightarrow> u8 list \<Rightarrow> u8 list list \<Rightarrow> nat" where
  "pick cmp key ks = min (length (takeWhile (\<lambda>k. cmp k key < 0) ks)) (length ks - 1)"

fun path :: "(u8 list \<Rightarrow> u8 list \<Rightarrow> int) \<Rightarrow> u8 list \<Rightarrow> nat \<Rightarrow> shape \<Rightarrow> nat list" where
  "path cmp key 0 T = []"
| "path cmp key (Suc k) (BLeaf p xs) = []"
| "path cmp key (Suc k) (BTwig p ks cs) = (let i = pick cmp key ks in i # path cmp key k (cs ! i))"

fun at :: "nat list \<Rightarrow> shape \<Rightarrow> shape" where
  "at [] T = T"
| "at (i # is) (BLeaf p xs) = BLeaf p xs"
| "at (i # is) (BTwig p ks cs) = at is (cs ! i)"

fun graft :: "nat list \<Rightarrow> shape \<Rightarrow> shape \<Rightarrow> shape" where
  "graft [] T S = S"
| "graft (i # is) (BLeaf p xs) S = BLeaf p xs"
| "graft (i # is) (BTwig p ks cs) S = BTwig p ks (cs[i := graft is (cs ! i) S])"

text \<open>One more reference to a node.\<close>

definition bump :: "(nat \<Rightarrow> bnode option) \<Rightarrow> nat \<Rightarrow> nat \<Rightarrow> bnode option" where
  "bump H p = (case H p of None \<Rightarrow> H | Some n \<Rightarrow> H(p \<mapsto> n\<lparr>bn_refs := bn_refs n + 1\<rparr>))"

lemma node_refs_simps [simp]:
  "leaf_node sb cb (n\<lparr>bn_refs := r\<rparr>) xs = leaf_node sb cb n xs" "twig_node sb l (n\<lparr>bn_refs := r\<rparr>) ks ps = twig_node sb l n ks ps"
  "node_is_dirty (n\<lparr>bn_refs := r\<rparr>) = node_is_dirty n" "node_live (n\<lparr>bn_refs := r\<rparr>) \<longleftrightarrow> node_is_dirty n \<and> 0 \<le> r"
  by (simp_all add: leaf_node_def twig_node_def node_is_dirty_def node_live_def)

lemma held_addr: "held sb cb H l T \<Longrightarrow> addr T \<noteq> 0 \<and> (\<exists>n d. H (addr T) = Some n \<and> bn_data n = Some d \<and> node_live n \<and> node_level n = Some l)"
proof (cases T)
  case (BLeaf p xs)
  assume "held sb cb H l T"
  then show ?thesis using BLeaf leaf_node_level(1) by (fastforce simp: leaf_node_def)
next
  case (BTwig p ks cs)
  assume "held sb cb H l T"
  then obtain n d where "H p = Some n" "bn_data n = Some d" "nh_level d = Some (of_nat l)" "l < 256" "p \<noteq> 0" "node_live n"
    using BTwig by (auto simp: twig_node_def)
  moreover have "unat (of_nat l :: u8) = l" using \<open>l < 256\<close> by (simp add: unat_of_nat take_bit_nat_eq_self)
  ultimately show ?thesis using BTwig by (simp add: node_level_def)
qed

lemma held_cong:
  assumes "held sb cb H l T" "\<And>p n. p \<in> set (addrs T) \<Longrightarrow> H p = Some n \<Longrightarrow> 0 \<le> bn_refs n \<Longrightarrow> \<exists>r \<ge> 0. H' p = Some (n\<lparr>bn_refs := r\<rparr>)"
  shows "held sb cb H' l T"
  using assms
proof (induction T arbitrary: l)
  case (BLeaf p xs)
  then show ?case by (fastforce simp: node_live_def)
next
  case (BTwig p ks cs)
  have "held sb cb H' (l - 1) c" if "c \<in> set cs" for c
    using that BTwig.prems by (intro BTwig.IH) auto
  moreover have "\<exists>n. H' p = Some n \<and> twig_node sb l n ks (map addr cs) \<and> node_live n"
    using BTwig.prems(1) BTwig.prems(2) [of p] by (fastforce simp: node_live_def)
  ultimately show ?case using BTwig.prems(1) by simp
qed

lemma held_bump: "held sb cb H l T \<Longrightarrow> held sb cb (bump H p) l T"
proof (erule held_cong)
  fix q n assume q: "H q = Some n" "0 \<le> bn_refs n"
  have "bump H p q = Some (n\<lparr>bn_refs := if p = q then bn_refs n + 1 else bn_refs n\<rparr>)"
    using q by (auto simp: bump_def split: option.splits)
  then show "\<exists>r \<ge> 0. bump H p q = Some (n\<lparr>bn_refs := r\<rparr>)" using q(2) by (intro exI [of _ "if p = q then bn_refs n + 1 else bn_refs n"]) (simp del: if_split)
qed

lemma bump_commute: "bump (bump H p) q = bump (bump H q) p"
  by (auto simp: bump_def fun_eq_iff split: option.splits)

lemma bump_at: "H q = Some n \<Longrightarrow> \<exists>r. bump H p q = Some (n\<lparr>bn_refs := r\<rparr>) \<and> bn_refs n \<le> r"
  by (cases "p = q") (auto simp: bump_def split: option.splits intro: exI [of _ "bn_refs n + 1"] exI [of _ "bn_refs n"])

subsection \<open>References\<close>

lemma release_bumped:
  assumes "H p = Some n" "node_live n"
  shows "btnode_release (t\<lparr>bt_nodes := bump H p\<rparr>) p = Some (t\<lparr>bt_nodes := H\<rparr>)"
proof -
  have "(bump H p)(p \<mapsto> n) = H" using assms(1) by (auto simp: bump_def)
  then show ?thesis using assms by (simp add: btnode_release_def bump_def on_node_def node_live_def)
qed

lemma read_loaded: "bt_nodes t p = Some n \<Longrightarrow> bn_data n = Some d \<Longrightarrow> btnode_read t p q = Some (True, t)"
  by (simp add: btnode_read_def)

lemma fetch_root_loaded:
  assumes "bt_root t = p" "p \<noteq> 0" "H p = Some n" "bn_data n = Some d"
  shows "btree_fetch_root (t\<lparr>bt_nodes := H\<rparr>) = Some (p, t\<lparr>bt_nodes := bump H p\<rparr>)"
  using assms by (simp add: btree_fetch_root_def on_node_def bump_def btnode_read_def)

lemma fetch_twig_loaded:
  assumes "H p = Some n" "bn_pointers n = Some ps" "unat i < length ps" "ps ! unat i = c" "c \<noteq> 0" "H c = Some m" "bn_data m = Some d"
  shows "btnode_fetch_twig (t\<lparr>bt_nodes := H\<rparr>) p i = Some (c, t\<lparr>bt_nodes := bump H c\<rparr>)"
  using assms by (simp add: btnode_fetch_twig_def on_node_def bump_def btnode_read_def buf_get_def)

subsection \<open>The search in a twig\<close>

lemma search_keys:
  assumes "key_order cmp w" "in_order cmp ks" "\<forall>k \<in> set ks. length k = w" "length key = w"
  shows "sign_sorted (\<lambda>j. cmp (ks ! j) key) (length ks)"
    "rank (\<lambda>j. cmp (ks ! j) key) (length ks) = length (takeWhile (\<lambda>k. cmp k key < 0) ks)"
    "(\<exists>j < length ks. cmp (ks ! j) key = 0) \<longleftrightarrow> key \<in> set ks"
proof -
  let ?xs = "map (\<lambda>k. (k, [] :: u8 list)) ks"
  have s: "keys_sorted cmp key ?xs \<and> key_rank cmp key ?xs = length (below cmp key ?xs)
    \<and> ((\<exists>j < length ?xs. cmp (fst (?xs ! j)) key = 0) \<longleftrightarrow> map_of ?xs key \<noteq> None)"
    using assms by (intro key_order.search_as_map) (simp_all add: comp_def)
  have eq: "j < length ks \<Longrightarrow> cmp (fst (?xs ! j)) key = cmp (ks ! j) key" for j by simp
  show "sign_sorted (\<lambda>j. cmp (ks ! j) key) (length ks)"
    unfolding sign_sorted_def
  proof (intro allI impI)
    fix i j assume a: "i < j \<and> j < length ks \<and> cmp (ks ! j) key \<le> 0"
    then have "i < j \<and> j < length ?xs \<and> cmp (fst (?xs ! j)) key \<le> 0" by (simp add: eq)
    then have "cmp (fst (?xs ! i)) key < 0" using s unfolding keys_sorted_def sign_sorted_def by blast
    then show "cmp (ks ! i) key < 0" using a by (simp add: eq)
  qed
  have "filter (\<lambda>j. cmp (fst (?xs ! j)) key < 0) [0..<length ks] = filter (\<lambda>j. cmp (ks ! j) key < 0) [0..<length ks]"
    by (intro filter_cong) (auto simp: eq)
  then show "rank (\<lambda>j. cmp (ks ! j) key) (length ks) = length (takeWhile (\<lambda>k. cmp k key < 0) ks)"
    using s by (simp add: key_rank_def rank_def below_def takeWhile_map comp_def)
  have "map_of ?xs key \<noteq> None \<longleftrightarrow> key \<in> set ks" by (auto simp: map_of_eq_None_iff image_iff)
  then show "(\<exists>j < length ks. cmp (ks ! j) key = 0) \<longleftrightarrow> key \<in> set ks" using s by (auto simp: eq)
qed

definition twig_place :: "super \<Rightarrow> callbacks \<Rightarrow> u8 list \<Rightarrow> u8 list list \<Rightarrow> place \<Rightarrow> place" where
  "twig_place sb cb key ks pl =
     (let i = of_nat (length (takeWhile (\<lambda>k. cb_keycmp cb k key < 0) ks));
          pl = pl\<lparr>pl_index := i\<rparr>;
          pl = (if key \<in> set ks then pl\<lparr>pl_size := of_nat NODE_POINTER_SIZE, pl_value := twig_pointer_at sb i\<rparr> else pl)
      in pl\<lparr>pl_found := key \<in> set ks\<rparr>)"

lemma fanout_small: "unat (sb_fanout sb) < 2 ^ 16" "unat (sb_prefix_size sb) < 2 ^ 16" "unat (sb_key_size sb) < 2 ^ 16"
  using unsigned_less [where 'a = nat, of "sb_fanout sb"] unsigned_less [where 'a = nat, of "sb_prefix_size sb"]
    unsigned_less [where 'a = nat, of "sb_key_size sb"] by simp_all

lemma twig_search_keys:
  assumes "plain sb cb" "twig_node sb l n ks ps" "in_order (cb_keycmp cb) ks" "\<forall>k \<in> set ks. length k = unat (sb_key_size sb)"
    and "length key = unat (sb_key_size sb)"
  shows "twig_index_search sb cb n (Some key) = Some (key \<in> set ks, of_nat (length (takeWhile (\<lambda>k. cb_keycmp cb k key < 0) ks)))"
    "twig_search sb cb n (Some key) pl = Some (twig_place sb cb key ks pl)"
proof -
  let ?K = "unat (sb_prefix_size sb)"
  obtain d where d: "bn_data n = Some d" "nh_items d = Some (of_nat (length ks))"
    "\<forall>i < length ks. buf_read d (NODE_HEAD_SIZE + i * ?K) ?K = Some (ks ! i)" "length ks \<le> unat (sb_fanout sb)"
    using assms(2) by (auto simp: twig_node_def)
  have p: "cb_prefix_keycmp cb = cb_keycmp cb" "key_order (cb_keycmp cb) (unat (sb_key_size sb))" using assms(1) by (simp_all add: plain_def)
  note s = search_keys [OF p(2) assms(3,4,5)]
  have "length ks < 2 ^ 32" using d(4) fanout_small(1) [of sb] by simp
  then have "uint (of_nat (length ks) :: u32) = int (length ks)" by (simp add: uint_nat)
  moreover have "twig_key_at sb 0 = NODE_HEAD_SIZE" by (simp add: twig_key_at_def)
  ultimately show idx: "twig_index_search sb cb n (Some key) = Some (key \<in> set ks, of_nat (length (takeWhile (\<lambda>k. cb_keycmp cb k key < 0) ks)))"
    using d s search_loop_correct [of "length ks" d NODE_HEAD_SIZE ?K ?K "\<lambda>j. ks ! j" "\<lambda>k. Some (cb_keycmp cb k key)"
      "\<lambda>j. cb_keycmp cb (ks ! j) key" 0 "int (length ks) - 1"]
    by (simp add: twig_index_search_def index_search_def p(1))
  show "twig_search sb cb n (Some key) pl = Some (twig_place sb cb key ks pl)"
    using idx by (simp add: twig_search_def twig_place_def Let_def)
qed

lemma twig_node_level:
  assumes "twig_node sb l n ks ps"
  shows "node_level n = Some l" "node_is_leaf n = Some False" "node_is_internal n = Some True" "node_items n = Some (of_nat (length ks))"
    "length ks < 2 ^ 16"
proof -
  obtain d where d: "bn_data n = Some d" "nh_level d = Some (of_nat l)" "1 < l" "l < 256" "nh_items d = Some (of_nat (length ks))"
    and ks: "length ks \<le> unat (sb_fanout sb)"
    using assms by (auto simp: twig_node_def)
  have "unat (of_nat l :: u8) = l" using \<open>l < 256\<close> by (simp add: unat_of_nat take_bit_nat_eq_self)
  then show l: "node_level n = Some l" using d by (simp add: node_level_def)
  show "node_is_leaf n = Some False" "node_is_internal n = Some True"
    using l d(3) by (simp_all add: node_is_leaf_def node_is_internal_def LEAF_NODE_LEVEL_def)
  show "node_items n = Some (of_nat (length ks))" using d by (simp add: node_items_def)
  show "length ks < 2 ^ 16" using ks fanout_small(1) [of sb] by simp
qed

lemma pick_less: "ks \<noteq> [] \<Longrightarrow> pick cmp key ks < length ks"
  by (cases ks) (auto simp: pick_def)

lemma pick_index:
  assumes "ks \<noteq> []" "length ks < 2 ^ 16" "i = (of_nat (length (takeWhile (\<lambda>k. cmp k key < 0) ks)) :: u32)"
  shows "unat (if of_nat (length ks) \<le> i then i - 1 else i) = pick cmp key ks"
proof -
  let ?j = "length (takeWhile (\<lambda>k. cmp k key < 0) ks)"
  have le_j: "?j \<le> length ks" by (rule length_takeWhile_le)
  then have "?j < 2 ^ 32" using assms(2) by simp
  then have j: "?j \<le> length ks" "unat i = ?j" using le_j assms(3) by simp_all
  have le: "of_nat (length ks) \<le> i \<longleftrightarrow> length ks \<le> ?j" using assms(2) j(2) by (simp add: word_le_nat_alt)
  show ?thesis
  proof (cases "length ks \<le> ?j")
    case True
    then have "i = 1 + of_nat (length ks - 1)" using j assms(1,3) by (cases ks) simp_all
    then have "i - 1 = of_nat (length ks - 1)" by simp
    then have "unat (i - 1) = length ks - 1" using assms(2) by simp
    then show ?thesis using True le j(1) by (simp add: pick_def)
  next
    case False
    then show ?thesis using le j by (simp add: pick_def)
  qed
qed

subsection \<open>The search in a tree\<close>

fun seps :: "shape \<Rightarrow> u8 list list" where
  "seps (BLeaf p xs) = []"
| "seps (BTwig p ks cs) = ks @ concat (map seps cs)"

fun end_place :: "super \<Rightarrow> callbacks \<Rightarrow> u8 list \<Rightarrow> shape \<Rightarrow> place \<Rightarrow> place" where
  "end_place sb cb key (BLeaf p xs) pl = leaf_place sb cb key xs pl"
| "end_place sb cb key (BTwig p ks cs) pl = twig_place sb cb key ks pl"

lemma twig_child:
  assumes "held sb cb H l (BTwig p ks cs)" "i < length ks"
  shows "length cs = length ks" "cs ! i \<in> set cs" "held sb cb H (l - 1) (cs ! i)"
    "\<exists>n d qs. H p = Some n \<and> twig_node sb l n ks (map addr cs) \<and> node_live n \<and> bn_data n = Some d \<and> bn_pointers n = Some (map addr cs @ qs)"
  using assms by (auto simp: twig_node_def)

lemma lookup_step:
  assumes "plain sb cb" "bt_super t = sb" "bt_cb t = cb" "held sb cb H l (BTwig p ks cs)" "length key = unat (sb_key_size sb)" "l \<noteq> m"
  shows "\<exists>pl'. lookup_loop (Suc fuel) (t\<lparr>bt_nodes := bump H p\<rparr>) (Some key) m p pl
      = lookup_loop fuel (t\<lparr>bt_nodes := bump H (addr (cs ! pick (cb_keycmp cb) key ks))\<rparr>) (Some key) m (addr (cs ! pick (cb_keycmp cb) key ks)) pl'
    \<and> (key \<notin> set ks \<longrightarrow> pl_size pl' = pl_size pl)"
proof -
  let ?i = "pick (cb_keycmp cb) key ks" and ?pl = "twig_place sb cb key ks pl"
  let ?c = "addr (cs ! ?i)"
  have h: "p \<noteq> 0" "in_order (cb_keycmp cb) ks" "\<forall>k \<in> set ks. length k = unat (sb_key_size sb)" using assms(4) by simp_all
  have ne: "ks \<noteq> []" using assms(4) by (auto simp: twig_node_def)
  note i = pick_less [OF ne, of "cb_keycmp cb" key]
  obtain n d qs where n: "H p = Some n" "twig_node sb l n ks (map addr cs)" "node_live n" "bn_data n = Some d" "bn_pointers n = Some (map addr cs @ qs)"
    using twig_child(4) [OF assms(4) i] by blast
  obtain r where b: "bump H p p = Some (n\<lparr>bn_refs := r\<rparr>)" using bump_at [where H = H, OF n(1)] by blast
  let ?n = "n\<lparr>bn_refs := r\<rparr>"
  have tn: "twig_node sb l ?n ks (map addr cs)" using n(2) by simp
  note lv = twig_node_level [OF tn] and len = twig_child(1) [OF assms(4) i]
  have c: "?c \<noteq> 0" "\<exists>m d. H ?c = Some m \<and> bn_data m = Some d \<and> node_live m" using held_addr [OF twig_child(3) [OF assms(4) i]] by blast+
  then obtain nc dc where nc: "H ?c = Some nc" "bn_data nc = Some dc" "node_live nc" by blast
  obtain rc where bc: "bump H p ?c = Some (nc\<lparr>bn_refs := rc\<rparr>)" using bump_at [where H = H, OF nc(1)] by blast
  have pli: "pl_index ?pl = of_nat (length (takeWhile (\<lambda>k. cb_keycmp cb k key < 0) ks))" by (simp add: twig_place_def Let_def)
  define pl1 where "pl1 = (if of_nat (length ks) \<le> pl_index ?pl then ?pl\<lparr>pl_index := pl_index ?pl - 1\<rparr> else ?pl)"
  have idx: "unat (pl_index pl1) = ?i" using pick_index [of ks _ "cb_keycmp cb" key, OF ne lv(5) pli] by (simp add: pl1_def if_distrib cong: if_cong)
  have f: "btnode_fetch_twig (t\<lparr>bt_nodes := bump H p\<rparr>) p (pl_index pl1) = Some (?c, t\<lparr>bt_nodes := bump (bump H p) ?c\<rparr>)"
    using b bc n(5) i len nc(2) c(1) idx by (intro fetch_twig_loaded [where n = ?n and ps = "map addr cs @ qs" and m = "nc\<lparr>bn_refs := rc\<rparr>" and d = dc])
      (simp_all add: nth_append)
  obtain r' where b': "bump H ?c p = Some (n\<lparr>bn_refs := r'\<rparr>)" "bn_refs n \<le> r'" using bump_at [where H = H, OF n(1)] by blast
  have rel: "btnode_release (t\<lparr>bt_nodes := bump (bump H p) ?c\<rparr>) p = Some (t\<lparr>bt_nodes := bump H ?c\<rparr>)"
    unfolding bump_commute [of H p] by (rule release_bumped [where H = "bump H ?c", OF b'(1)]) (use n(3) b'(2) in \<open>simp add: node_live_def\<close>)
  have ts: "twig_search sb cb ?n (Some key) pl = Some ?pl" by (rule twig_search_keys(2) [OF assms(1) tn h(2,3) assms(5)])
  have "lookup_loop (Suc fuel) (t\<lparr>bt_nodes := bump H p\<rparr>) (Some key) m p pl
      = lookup_loop fuel (t\<lparr>bt_nodes := bump H ?c\<rparr>) (Some key) m ?c pl1"
    using h(1) b lv(1-4) ts assms(2,3,6) f rel by (simp add: pl1_def [symmetric] Let_def)
  moreover have "key \<notin> set ks \<longrightarrow> pl_size pl1 = pl_size pl" by (simp add: pl1_def twig_place_def Let_def)
  ultimately show ?thesis by blast
qed

lemma lookup_here:
  assumes "plain sb cb" "bt_super t = sb" "bt_cb t = cb" "held sb cb H l T" "length key = unat (sb_key_size sb)"
  shows "lookup_loop (Suc fuel) (t\<lparr>bt_nodes := bump H (addr T)\<rparr>) (Some key) l (addr T) pl
    = Some (addr T, end_place sb cb key T pl, t\<lparr>bt_nodes := bump H (addr T)\<rparr>)"
proof (cases T)
  case (BLeaf p xs)
  obtain n where n: "p \<noteq> 0" "l = 1" "H p = Some n" "leaf_node sb cb n xs" using assms(4) BLeaf by auto
  obtain r where b: "bump H p p = Some (n\<lparr>bn_refs := r\<rparr>)" using bump_at [where H = H, OF n(3)] by blast
  have ln: "leaf_node sb cb (n\<lparr>bn_refs := r\<rparr>) xs" using n(4) by simp
  have ko: "key_order (cb_keycmp cb) (unat (sb_key_size sb))" using assms(1) by (simp add: plain_def)
  show ?thesis using BLeaf n(1,2) b leaf_node_level [OF ln] leaf_search_map(1) [OF ko ln assms(5)] assms(2,3) by simp
next
  case (BTwig p ks cs)
  obtain n where n: "p \<noteq> 0" "H p = Some n" "twig_node sb l n ks (map addr cs)" and o: "in_order (cb_keycmp cb) ks"
    "\<forall>k \<in> set ks. length k = unat (sb_key_size sb)"
    using assms(4) BTwig by auto
  obtain r where b: "bump H p p = Some (n\<lparr>bn_refs := r\<rparr>)" using bump_at [where H = H, OF n(2)] by blast
  have tn: "twig_node sb l (n\<lparr>bn_refs := r\<rparr>) ks (map addr cs)" using n(3) by simp
  show ?thesis using BTwig n(1) b twig_node_level [OF tn] twig_search_keys(2) [OF assms(1) tn o assms(5)] assms(2,3) by simp
qed

lemma lookup_to_level:
  assumes "plain sb cb" "bt_super t = sb" "bt_cb t = cb" "length key = unat (sb_key_size sb)"
    and "held sb cb H l T" "1 \<le> m" "m \<le> l" "l \<le> fuel"
  shows "\<exists>pl0. lookup_loop fuel (t\<lparr>bt_nodes := bump H (addr T)\<rparr>) (Some key) m (addr T) pl
      = Some (addr (at (path (cb_keycmp cb) key (l - m) T) T), end_place sb cb key (at (path (cb_keycmp cb) key (l - m) T) T) pl0,
          t\<lparr>bt_nodes := bump H (addr (at (path (cb_keycmp cb) key (l - m) T) T))\<rparr>)
    \<and> (key \<notin> set (seps T) \<longrightarrow> pl_size pl0 = pl_size pl)"
  using assms(5,7,8)
proof (induction T arbitrary: l fuel pl)
  case (BLeaf p xs)
  then obtain f where "fuel = Suc f" "m = l" using assms(6) by (cases fuel) auto
  then show ?case using lookup_here [OF assms(1-3) BLeaf.prems(1) assms(4)] by auto
next
  case (BTwig p ks cs)
  obtain f where f: "fuel = Suc f" using BTwig.prems(2,3) assms(6) by (cases fuel) auto
  show ?case
  proof (cases "m = l")
    case True
    then show ?thesis using lookup_here [OF assms(1-3) BTwig.prems(1) assms(4), of f pl] f by auto
  next
    case False
    let ?i = "pick (cb_keycmp cb) key ks"
    have ne: "ks \<noteq> []" using BTwig.prems(1) by (auto simp: twig_node_def)
    note i = pick_less [OF ne, of "cb_keycmp cb" key]
    note ch = twig_child [OF BTwig.prems(1) i]
    have lm: "l - m = Suc (l - 1 - m)" "m \<le> l - 1" "l - 1 \<le> f" using False BTwig.prems(2,3) f by auto
    obtain pl' where step: "lookup_loop fuel (t\<lparr>bt_nodes := bump H p\<rparr>) (Some key) m p pl
        = lookup_loop f (t\<lparr>bt_nodes := bump H (addr (cs ! ?i))\<rparr>) (Some key) m (addr (cs ! ?i)) pl'" "key \<notin> set ks \<longrightarrow> pl_size pl' = pl_size pl"
      using lookup_step [OF assms(1-3) BTwig.prems(1) assms(4), of m f pl] False unfolding f by blast
    have sep: "key \<notin> set (seps (BTwig p ks cs)) \<Longrightarrow> key \<notin> set ks \<and> key \<notin> set (seps (cs ! ?i))" using ch(2) by auto
    show ?thesis
      using BTwig.IH [OF ch(2,3) lm(2,3), of pl'] step(1) step(2) sep unfolding lm(1) by (auto simp: Let_def)
  qed
qed

lemma lookup_above:
  assumes "plain sb cb" "bt_super t = sb" "bt_cb t = cb" "length key = unat (sb_key_size sb)"
    and "held sb cb H l T" "l < m" "l \<le> fuel"
  shows "\<exists>pl'. lookup_loop fuel (t\<lparr>bt_nodes := bump H (addr T)\<rparr>) (Some key) m (addr T) pl = Some (0, pl', t\<lparr>bt_nodes := H\<rparr>)"
  using assms(5,6,7)
proof (induction T arbitrary: l fuel pl)
  case (BLeaf p xs)
  then obtain f where f: "fuel = Suc f" by (cases fuel) auto
  obtain n where n: "p \<noteq> 0" "l = 1" "H p = Some n" "leaf_node sb cb n xs" "node_live n" using BLeaf.prems(1) by auto
  obtain r where b: "bump H p p = Some (n\<lparr>bn_refs := r\<rparr>)" using bump_at [where H = H, OF n(3)] by blast
  have ln: "leaf_node sb cb (n\<lparr>bn_refs := r\<rparr>) xs" using n(4) by simp
  have ko: "key_order (cb_keycmp cb) (unat (sb_key_size sb))" using assms(1) by (simp add: plain_def)
  show ?case
    using n(1,2) b leaf_node_level [OF ln] leaf_search_map(1) [OF ko ln assms(4)] assms(2,3) release_bumped [where H = H and t = t, OF n(3,5)] BLeaf.prems(2)
    unfolding f by simp
next
  case (BTwig p ks cs)
  obtain f where f: "fuel = Suc f" using BTwig.prems by (cases fuel) (auto simp: twig_node_def)
  let ?i = "pick (cb_keycmp cb) key ks"
  have ne: "ks \<noteq> []" using BTwig.prems(1) by (auto simp: twig_node_def)
  note i = pick_less [OF ne, of "cb_keycmp cb" key]
  note ch = twig_child [OF BTwig.prems(1) i]
  obtain pl' where step: "lookup_loop fuel (t\<lparr>bt_nodes := bump H p\<rparr>) (Some key) m p pl
      = lookup_loop f (t\<lparr>bt_nodes := bump H (addr (cs ! ?i))\<rparr>) (Some key) m (addr (cs ! ?i)) pl'"
    using lookup_step [OF assms(1-3) BTwig.prems(1) assms(4), of m f pl] BTwig.prems(2) unfolding f by blast
  show ?case using BTwig.IH [OF ch(2,3), of f pl'] BTwig.prems(2,3) step f by auto
qed

end
