(* ===== verification/Btree_Path.thy ===== *)
theory Btree_Path
  imports Btree_Shape
begin

section \<open>Paths and items of a tree\<close>

text \<open>
  A tree is tight when the key of a child is the last key below it. The path of a key then ends at the leaf the key
  belongs to: the items before that leaf are before the key, those after it after it. Changing the leaf changes the
  items of the tree at the place of the key, and the keys of the twigs on the path follow the last key of the leaf.
\<close>

fun tight :: "shape \<Rightarrow> bool" where
  "tight (BLeaf p xs) \<longleftrightarrow> True"
| "tight (BTwig p ks cs) \<longleftrightarrow> cs \<noteq> [] \<and> ks = map (\<lambda>c. fst (last (items_of c))) cs \<and> (\<forall>c \<in> set cs. items_of c \<noteq> [] \<and> tight c)"

fun height :: "nat \<Rightarrow> shape \<Rightarrow> bool" where
  "height l (BLeaf p xs) \<longleftrightarrow> l = 0"
| "height l (BTwig p ks cs) \<longleftrightarrow> 0 < l \<and> (\<forall>c \<in> set cs. height (l - 1) c)"

definition ordered :: "(u8 list \<Rightarrow> u8 list \<Rightarrow> int) \<Rightarrow> nat \<Rightarrow> leaf_item list \<Rightarrow> bool" where
  "ordered cmp w xs \<longleftrightarrow> in_order cmp (map fst xs) \<and> (\<forall>x \<in> set xs. length (fst x) = w)"

lemma ordered_append [simp]:
  "ordered cmp w (xs @ ys) \<longleftrightarrow> ordered cmp w xs \<and> ordered cmp w ys \<and> (\<forall>x \<in> set xs. \<forall>y \<in> set ys. cmp (fst x) (fst y) < 0)"
  by (auto simp: ordered_def)

lemma held_height: "held sb cb H l T \<Longrightarrow> height (l - 1) T"
proof (induction T arbitrary: l)
  case (BTwig p ks cs)
  then have h: "1 < l" "\<forall>c \<in> set cs. held sb cb H (l - 1) c" by (auto simp: twig_node_def)
  have "\<forall>c \<in> set cs. height (l - 1 - 1) c" using BTwig.IH h(2) by blast
  then show ?case using h(1) by simp
qed simp

text \<open>The index of the search is the first key that is not before the key searched, or the last.\<close>

lemma pick_eq:
  assumes "i < length ks" "\<And>j. j < i \<Longrightarrow> cmp (ks ! j) key < 0" "Suc i = length ks \<or> \<not> cmp (ks ! i) key < 0"
  shows "pick cmp key ks = i"
proof (cases "cmp (ks ! i) key < 0")
  case True
  have "cmp (ks ! j) key < 0" if "j < Suc i" for j using that assms(2) True by (cases "j = i") auto
  then have "takeWhile (\<lambda>k. cmp k key < 0) ks = take (Suc i) ks"
    by (intro takeWhile_eq_take_P_nth) (use assms(3) True in auto)
  then have "pick cmp key ks = min (length (take (Suc i) ks)) (length ks - 1)" by (simp only: pick_def)
  then show ?thesis using True assms(1,3) by simp
next
  case False
  then have "takeWhile (\<lambda>k. cmp k key < 0) ks = take i ks"
    using assms by (intro takeWhile_eq_take_P_nth) auto
  then show ?thesis using assms(1) by (simp add: pick_def)
qed

lemma pick_props:
  assumes "ks \<noteq> []" "i = pick cmp key ks"
  shows "i < length ks" "\<And>j. j < i \<Longrightarrow> cmp (ks ! j) key < 0" "Suc i = length ks \<or> \<not> cmp (ks ! i) key < 0"
proof -
  let ?P = "\<lambda>k. cmp k key < 0"
  show "i < length ks" using pick_less assms by blast
  have le: "i \<le> length (takeWhile ?P ks)" using assms(2) by (simp add: pick_def)
  show "cmp (ks ! j) key < 0" if "j < i" for j
    using le that set_takeWhileD [of "ks ! j" ?P ks] by (metis nth_mem order_less_le_trans takeWhile_nth)
  show "Suc i = length ks \<or> \<not> cmp (ks ! i) key < 0"
  proof (cases "length (takeWhile ?P ks) < length ks")
    case True
    then have "i = length (takeWhile ?P ks)" using assms(2) by (simp add: pick_def)
    then show ?thesis using nth_length_takeWhile [OF True] by simp
  next
    case False
    then show ?thesis using assms by (cases ks) (simp_all add: pick_def)
  qed
qed

context key_order
begin

lemma ordered_last:
  assumes "ordered cmp width xs" "x \<in> set xs"
  shows "cmp (fst x) (fst (last xs)) < 0 \<or> fst x = fst (last xs)"
proof -
  obtain ys y where "xs = ys @ [y]" using assms(2) by (metis rev_exhaust empty_iff empty_set)
  then show ?thesis using assms by auto
qed

lemma ordered_last_trans:
  assumes "ordered cmp width xs" "x \<in> set xs" "cmp (fst (last xs)) key < 0" "length key = width"
  shows "cmp (fst x) key < 0"
proof -
  have "length (fst x) = width" "length (fst (last xs)) = width"
    using assms(1,2) last_in_set [of xs] unfolding ordered_def by (blast, metis empty_iff empty_set)
  then show ?thesis using ordered_last [OF assms(1,2)] assms(3,4) cmp_trans by metis
qed

text \<open>The items of a twig around the child the search goes to.\<close>

lemma twig_items:
  assumes "tight (BTwig p ks cs)" "ordered cmp width (concat (map items_of cs))" "length key = width"
    and "i = pick cmp key ks"
  shows "i < length cs" "concat (map items_of cs) = concat (map items_of (take i cs)) @ items_of (cs ! i) @ concat (map items_of (drop (Suc i) cs))"
    "\<forall>a \<in> set (concat (map items_of (take i cs))). cmp (fst a) key < 0"
    "\<forall>b \<in> set (concat (map items_of (drop (Suc i) cs))). cmp key (fst b) < 0"
    "\<forall>x \<in> set (items_of (cs ! i)). pick cmp (fst x) ks = i"
proof -
  let ?A = "concat (map items_of (take i cs))" and ?B = "concat (map items_of (drop (Suc i) cs))"
  have ks: "ks = map (\<lambda>c. fst (last (items_of c))) cs" "\<forall>c \<in> set cs. items_of c \<noteq> []" "ks \<noteq> []" using assms(1) by auto
  note p = pick_props [OF ks(3) assms(4)]
  show i: "i < length cs" using p(1) ks(1) by simp
  have cs: "cs = take i cs @ (cs ! i) # drop (Suc i) cs" by (rule id_take_nth_drop [OF i])
  show split: "concat (map items_of cs) = ?A @ items_of (cs ! i) @ ?B" by (subst cs) simp
  have o: "ordered cmp width ?A" "ordered cmp width (items_of (cs ! i))" "ordered cmp width ?B"
    "\<forall>a \<in> set ?A. \<forall>x \<in> set (items_of (cs ! i)). cmp (fst a) (fst x) < 0"
    "\<forall>x \<in> set (items_of (cs ! i)). \<forall>b \<in> set ?B. cmp (fst x) (fst b) < 0"
    using assms(2) unfolding split by auto
  have ne: "items_of (cs ! i) \<noteq> []" using ks(2) i by simp
  have child: "ordered cmp width (items_of c)" if "c \<in> set cs" for c
    using assms(2) that split_list [OF that] by auto
  have before: "cmp (fst a) k < 0" if a: "a \<in> set ?A" and k: "\<And>j. j < i \<Longrightarrow> cmp (ks ! j) k < 0" "length k = width" for a k
  proof -
    obtain c where c: "c \<in> set (take i cs)" "a \<in> set (items_of c)" using a by auto
    then obtain j where j: "j < i" "c = cs ! j" by (auto simp: in_set_conv_nth)
    have "cmp (fst (last (items_of c))) k < 0" using k(1) [OF j(1)] j ks(1) i by simp
    then show ?thesis using ordered_last_trans [OF child c(2) _ k(2)] c(1) in_set_takeD by metis
  qed
  show "\<forall>a \<in> set ?A. cmp (fst a) key < 0" using before p(2) assms(3) by blast
  have lst: "last (items_of (cs ! i)) \<in> set (items_of (cs ! i))" "ks ! i = fst (last (items_of (cs ! i)))"
    using ne ks(1) i by simp_all
  have w: "\<forall>x \<in> set (items_of (cs ! i)). length (fst x) = width" "\<forall>b \<in> set ?B. length (fst b) = width" using o(2,3) by (simp_all add: ordered_def)
  show "\<forall>b \<in> set ?B. cmp key (fst b) < 0"
  proof
    fix b assume b: "b \<in> set ?B"
    then have "Suc i \<noteq> length ks" using ks(1) by auto
    then have "\<not> cmp (ks ! i) key < 0" using p(3) by blast
    then have "cmp key (ks ! i) < 0 \<or> key = ks ! i"
      using cmp_cases [of "ks ! i" key] lst w(1) assms(3) by metis
    moreover have "cmp (ks ! i) (fst b) < 0" using o(5) lst b by metis
    ultimately show "cmp key (fst b) < 0" using cmp_trans [of key "ks ! i" "fst b"] assms(3) w b lst by metis
  qed
  show "\<forall>x \<in> set (items_of (cs ! i)). pick cmp (fst x) ks = i"
  proof
    fix x assume x: "x \<in> set (items_of (cs ! i))"
    have "cmp (ks ! j) (fst x) < 0" if "j < i" for j
    proof -
      have "cs ! j \<in> set (take i cs)" using that i by (metis in_set_conv_nth length_take min.absorb4 nth_take)
      moreover have "items_of (cs ! j) \<noteq> []" using ks(2) that i by simp
      ultimately have "last (items_of (cs ! j)) \<in> set ?A" by (auto intro!: bexI [of _ "cs ! j"])
      then have "cmp (fst (last (items_of (cs ! j)))) (fst x) < 0" using o(4) x by metis
      then show ?thesis using ks(1) that i by simp
    qed
    moreover have "\<not> cmp (ks ! i) (fst x) < 0"
      using ordered_last [OF o(2) x] lst w(1) x cmp_irrefl cmp_flip by (metis less_asym)
    ultimately show "pick cmp (fst x) ks = i" using p(1) by (intro pick_eq) auto
  qed
qed

text \<open>The leaf of a key.\<close>

lemma leaf_of_key:
  assumes "height l T" "tight T" "ordered cmp width (items_of T)" "length key = width"
  shows "\<exists>p xs A B. at (path cmp key l T) T = BLeaf p xs \<and> items_of T = A @ xs @ B \<and> (l \<noteq> 0 \<longrightarrow> xs \<noteq> [])
    \<and> (\<forall>a \<in> set A. cmp (fst a) key < 0) \<and> (\<forall>b \<in> set B. cmp key (fst b) < 0)
    \<and> (\<forall>S. items_of (graft (path cmp key l T) T S) = A @ items_of S @ B)
    \<and> (\<forall>x \<in> set xs. path cmp (fst x) l T = path cmp key l T)"
  using assms(1-3)
proof (induction T arbitrary: l)
  case (BLeaf p xs)
  then show ?case by (auto intro: exI [of _ "[]"])
next
  case (BTwig p ks cs)
  obtain k where l: "l = Suc k" using BTwig.prems(1) by (cases l) auto
  let ?i = "pick cmp key ks"
  have ord: "ordered cmp width (concat (map items_of cs))" using BTwig.prems(3) by (simp add: comp_def)
  note s = twig_items [OF BTwig.prems(2) ord assms(4) refl]
  let ?c = "cs ! ?i"
  have c: "?c \<in> set cs" using s(1) by simp
  have h: "height k ?c" "tight ?c" "ordered cmp width (items_of ?c)" "items_of ?c \<noteq> []"
    using BTwig.prems c l ord unfolding s(2) by auto
  obtain q xs A B where IH: "at (path cmp key k ?c) ?c = BLeaf q xs" "items_of ?c = A @ xs @ B" "k \<noteq> 0 \<longrightarrow> xs \<noteq> []"
    "\<forall>a \<in> set A. cmp (fst a) key < 0" "\<forall>b \<in> set B. cmp key (fst b) < 0"
    "\<forall>S. items_of (graft (path cmp key k ?c) ?c S) = A @ items_of S @ B" "\<forall>x \<in> set xs. path cmp (fst x) k ?c = path cmp key k ?c"
    using BTwig.IH [OF c h(1-3)] by blast
  let ?A = "concat (map items_of (take ?i cs))" and ?B = "concat (map items_of (drop (Suc ?i) cs))"
  have xs: "xs \<noteq> []"
  proof (cases k)
    case 0
    then obtain q' ys where "?c = BLeaf q' ys" using h(1) by (cases ?c) auto
    then show ?thesis using IH(1) h(4) 0 by simp
  qed (use IH(3) in simp)
  have pl: "items_of (graft (path cmp key l (BTwig p ks cs)) (BTwig p ks cs) S) = (?A @ A) @ items_of S @ (B @ ?B)" for S
    using IH(6) s(1) by (simp add: l Let_def upd_conv_take_nth_drop comp_def)
  have pth: "\<forall>x \<in> set xs. path cmp (fst x) l (BTwig p ks cs) = path cmp key l (BTwig p ks cs)"
    using s(5) IH(2,7) by (auto simp: l Let_def)
  have A: "\<forall>a \<in> set (?A @ A). cmp (fst a) key < 0" "\<forall>b \<in> set (B @ ?B). cmp key (fst b) < 0" using IH(4,5) s(3,4) by (metis Un_iff set_append)+
  have "items_of (BTwig p ks cs) = (?A @ A) @ xs @ B @ ?B" using s(2) IH(2) by (simp add: comp_def)
  moreover have "at (path cmp key l (BTwig p ks cs)) (BTwig p ks cs) = BLeaf q xs" using IH(1) by (simp add: l Let_def)
  ultimately show ?case using xs pl pth A by blast
qed

end

end
