(* ===== verification/Btree_Update.thy ===== *)
theory Btree_Update
  imports Btree_Path
begin

section \<open>Changing the keys and the leaf of a path\<close>

text \<open>
  \<open>__btree_twigs_update\<close> replaces the old last key of a leaf by the new one in the twigs on its path, from the lowest
  to the root. A tree that was tight before its leaf was changed is tight after both.
\<close>

definition resep :: "u8 list \<Rightarrow> u8 list \<Rightarrow> u8 list list \<Rightarrow> u8 list list" where
  "resep old new ks = map (\<lambda>k. if k = old then new else k) ks"

fun rekey :: "nat list \<Rightarrow> (u8 list list \<Rightarrow> u8 list list) \<Rightarrow> shape \<Rightarrow> shape" where
  "rekey is f (BLeaf p xs) = BLeaf p xs"
| "rekey [] f (BTwig p ks cs) = BTwig p (f ks) cs"
| "rekey (i # is) f (BTwig p ks cs) = BTwig p ks (cs[i := rekey is f (cs ! i)])"

fun reseps :: "u8 list \<Rightarrow> u8 list \<Rightarrow> nat list \<Rightarrow> shape \<Rightarrow> shape" where
  "reseps old new [] T = T"
| "reseps old new (i # is) (BLeaf p xs) = BLeaf p xs"
| "reseps old new (i # is) (BTwig p ks cs) = BTwig p (resep old new ks) (cs[i := reseps old new is (cs ! i)])"

fun keys :: "shape \<Rightarrow> u8 list list" where
  "keys (BLeaf p xs) = []"
| "keys (BTwig p ks cs) = ks"

text \<open>The keys of the twigs from depth \<open>u\<close> on replaced.\<close>

definition reseps_from :: "u8 list \<Rightarrow> u8 list \<Rightarrow> nat list \<Rightarrow> nat \<Rightarrow> shape \<Rightarrow> shape" where
  "reseps_from old new is u T = foldr (\<lambda>j. rekey (take j is) (resep old new)) [u..<length is] T"

lemma reseps_from_simps:
  "reseps_from old new is (length is) T = T"
  "u < length is \<Longrightarrow> reseps_from old new is u T = rekey (take u is) (resep old new) (reseps_from old new is (Suc u) T)"
  by (simp_all add: reseps_from_def upt_conv_Cons)

lemma foldr_rekey_child:
  "i < length cs \<Longrightarrow> foldr (\<lambda>j. rekey (i # g j) f) js (BTwig p ks cs) = BTwig p ks (cs[i := foldr (\<lambda>j. rekey (g j) f) js (cs ! i)])"
  by (induction js) simp_all

lemma foldr_rekey_leaf: "foldr (\<lambda>j. rekey (g j) f) js (BLeaf p xs) = BLeaf p xs"
  by (induction js) simp_all

fun inside :: "nat list \<Rightarrow> shape \<Rightarrow> bool" where
  "inside [] T \<longleftrightarrow> True"
| "inside (i # is) (BLeaf p xs) \<longleftrightarrow> False"
| "inside (i # is) (BTwig p ks cs) \<longleftrightarrow> i < length cs \<and> inside is (cs ! i)"

lemma reseps_from_0: "inside is T \<Longrightarrow> reseps_from old new is 0 T = reseps old new is T"
proof (induction "is" T rule: inside.induct)
  case (3 i "is" p ks cs)
  let ?g = "\<lambda>j. rekey (i # take j is) (resep old new)"
  have "[0..<length (i # is)] = 0 # map Suc [0..<length is]" by (simp only: map_Suc_upt upt_conv_Cons length_Cons zero_less_Suc)
  then have "reseps_from old new (i # is) 0 (BTwig p ks cs) = rekey [] (resep old new) (foldr ?g [0..<length is] (BTwig p ks cs))"
    unfolding reseps_from_def by (simp add: foldr_map comp_def del: upt_Suc length_Cons)
  also have "foldr ?g [0..<length is] (BTwig p ks cs) = BTwig p ks (cs[i := foldr (\<lambda>j. rekey (take j is) (resep old new)) [0..<length is] (cs ! i)])"
    using 3(2) by (intro foldr_rekey_child) simp
  also have "foldr (\<lambda>j. rekey (take j is) (resep old new)) [0..<length is] (cs ! i) = reseps old new is (cs ! i)"
    using 3 by (simp add: reseps_from_def)
  finally show ?case by simp
qed (simp_all add: reseps_from_def)

lemma nth_update: "xs[i := x] ! j = (if i = j \<and> j < length xs then x else xs ! j)"
  by (cases "i < length xs") (auto simp: nth_list_update list_update_beyond not_less)

lemma map_update_same: "g x = g (cs ! i) \<Longrightarrow> map g (cs[i := x]) = map g cs"
  by (metis list_update_id map_update)

lemma rekey_shape [simp]: "addr (rekey is f T) = addr T" "addrs (rekey is f T) = addrs T" "items_of (rekey is f T) = items_of T"
  "inside js (rekey is f T) = inside js T"
proof -
  show "addr (rekey is f T) = addr T" by (induction "is" f T rule: rekey.induct) simp_all
  show "addrs (rekey is f T) = addrs T"
    by (induction "is" f T rule: rekey.induct) (simp_all add: map_update_same)
  show "items_of (rekey is f T) = items_of T"
    by (induction "is" f T rule: rekey.induct) (simp_all add: map_update_same)
  show "inside js (rekey is f T) = inside js T"
  proof (induction "is" f T arbitrary: js rule: rekey.induct)
    case (3 i "is" f p ks cs)
    then show ?case by (cases js) (auto simp: nth_update)
  next
    case (2 f p ks cs)
    then show ?case by (cases js) auto
  qed simp
qed

lemma path_rekey: "u \<le> length is \<Longrightarrow> path cmp key u (rekey is f T) = path cmp key u T"
proof (induction "is" f T arbitrary: u rule: rekey.induct)
  case (3 i "is" f p ks cs)
  then show ?case by (cases u) (auto simp: Let_def nth_update)
qed auto

lemma keys_rekey: "length js < length is \<Longrightarrow> keys (at js (rekey is f T)) = keys (at js T)"
proof (induction "is" f T arbitrary: js rule: rekey.induct)
  case (3 i "is" f p ks cs)
  then show ?case by (cases js) (auto simp: nth_update)
qed auto

lemma path_reseps_from: "v \<le> u \<Longrightarrow> u \<le> length is \<Longrightarrow> path cmp key v (reseps_from old new is u T) = path cmp key v T"
proof (induction "length is - u" arbitrary: u)
  case 0
  then have "u = length is" by simp
  then show ?case by (simp add: reseps_from_simps(1))
next
  case (Suc n)
  then have "path cmp key v (reseps_from old new is (Suc u) T) = path cmp key v T" by simp
  then show ?case using Suc.hyps(2) Suc.prems by (simp add: reseps_from_simps path_rekey)
qed

lemma keys_reseps_from: "length js < u \<Longrightarrow> u \<le> length is \<Longrightarrow> keys (at js (reseps_from old new is u T)) = keys (at js T)"
proof (induction "length is - u" arbitrary: u)
  case 0
  then have "u = length is" by simp
  then show ?case by (simp add: reseps_from_simps(1))
next
  case (Suc n)
  then have "keys (at js (reseps_from old new is (Suc u) T)) = keys (at js T)" by simp
  then show ?case using Suc.hyps(2) Suc.prems by (simp add: reseps_from_simps keys_rekey)
qed

lemma addr_at_rekey: "addr (at js (rekey is f T)) = addr (at js T)"
proof (induction "is" f T arbitrary: js rule: rekey.induct)
  case (2 f p ks cs)
  then show ?case by (cases js) auto
next
  case (3 i "is" f p ks cs)
  then show ?case by (cases js) (auto simp: nth_update)
qed simp

lemma addr_at_reseps_from: "u \<le> length is \<Longrightarrow> addr (at js (reseps_from old new is u T)) = addr (at js T)"
proof (induction "length is - u" arbitrary: u)
  case 0
  then have "u = length is" by simp
  then show ?case by (simp add: reseps_from_simps(1))
next
  case (Suc n)
  then have "addr (at js (reseps_from old new is (Suc u) T)) = addr (at js T)" by simp
  then show ?case using Suc.hyps(2) Suc.prems by (simp add: reseps_from_simps addr_at_rekey)
qed

lemma shape_reseps_from [simp]: "addr (reseps_from old new is u T) = addr T" "addrs (reseps_from old new is u T) = addrs T"
  "items_of (reseps_from old new is u T) = items_of T"
proof -
  have "addr (foldr (\<lambda>j. rekey (take j is) f) js T) = addr T \<and> addrs (foldr (\<lambda>j. rekey (take j is) f) js T) = addrs T
    \<and> items_of (foldr (\<lambda>j. rekey (take j is) f) js T) = items_of T" for js f
    by (induction js) simp_all
  then show "addr (reseps_from old new is u T) = addr T" "addrs (reseps_from old new is u T) = addrs T"
    "items_of (reseps_from old new is u T) = items_of T"
    by (simp_all add: reseps_from_def)
qed

lemma path_inside: "height l T \<Longrightarrow> tight T \<or> held sb cb H m T \<Longrightarrow> k \<le> l \<Longrightarrow> inside (path cmp key k T) T \<and> length (path cmp key k T) = k"
proof (induction k arbitrary: T l m)
  case (Suc k)
  obtain p ks cs where T: "T = BTwig p ks cs" using Suc.prems by (cases T) auto
  have "length cs = length ks \<and> ks \<noteq> []" using Suc.prems(2) unfolding T by (auto simp: twig_node_def)
  then have i: "pick cmp key ks < length cs" using pick_less by metis
  let ?c = "cs ! pick cmp key ks"
  have "height (l - 1) ?c" "tight ?c \<or> held sb cb H (m - 1) ?c" "k \<le> l - 1" using Suc.prems i unfolding T by auto
  then show ?case using Suc.IH i unfolding T by (auto simp: Let_def)
qed simp

lemma path_take: "j \<le> k \<Longrightarrow> take j (path cmp key k T) = path cmp key j T"
proof (induction k arbitrary: j T)
  case (Suc k)
  show ?case using Suc by (cases T; cases j) (auto simp: Let_def)
qed simp

subsection \<open>The store\<close>

lemma at_held: "held sb cb H l T \<Longrightarrow> inside is T \<Longrightarrow> held sb cb H (l - length is) (at is T) \<and> addr (at is T) \<in> set (addrs T)"
proof (induction "is" T arbitrary: l rule: inside.induct)
  case (1 T)
  then show ?case by (cases T) auto
next
  case (3 i "is" p ks cs)
  then have "held sb cb H (l - 1) (cs ! i)" "inside is (cs ! i)" "cs ! i \<in> set cs" by auto
  then show ?case using 3(1) [of "l - 1"] by auto
qed simp

lemma distinct_concat_nth:
  "distinct (concat xss) \<Longrightarrow> i < length xss \<Longrightarrow> j < length xss \<Longrightarrow> i \<noteq> j \<Longrightarrow> set (xss ! i) \<inter> set (xss ! j) = {}"
proof (induction xss arbitrary: i j)
  case (Cons ys yss)
  have "set ys \<inter> set (yss ! k) = {}" if "k < length yss" for k using Cons.prems(1) nth_mem [OF that] by auto
  then show ?case using Cons by (cases i; cases j) (simp_all add: Int_commute)
qed simp

lemma held_rekey:
  assumes "held sb cb H l T" "inside is T" "at is T = BTwig p ks cs" "distinct (addrs T)"
    and "twig_node sb (l - length is) n (f ks) (map addr cs)" "node_live n" "in_order (cb_keycmp cb) (f ks)"
    and "\<forall>k \<in> set (f ks). length k = unat (sb_key_size sb)"
  shows "held sb cb (H(p \<mapsto> n)) l (rekey is f T)"
  using assms
proof (induction "is" T arbitrary: l rule: inside.induct)
  case (1 T)
  then have T: "T = BTwig p ks cs" by simp
  have "held sb cb (H(p \<mapsto> n)) (l - 1) c" if c: "c \<in> set cs" for c
  proof (rule held_cong)
    show "held sb cb H (l - 1) c" using 1(1) c T by auto
    have "p \<notin> set (addrs c)" using 1(4) c T by auto
    then show "\<exists>r \<ge> 0. (H(p \<mapsto> n)) q = Some (m\<lparr>bn_refs := r\<rparr>)" if "q \<in> set (addrs c)" "H q = Some m" "0 \<le> bn_refs m" for q m
      using that by (intro exI [of _ "bn_refs m"]) auto
  qed
  then have "\<forall>c \<in> set cs. held sb cb (H(p \<mapsto> n)) (l - 1) c" by blast
  moreover have "p \<noteq> 0" using 1(1) T by simp
  ultimately show ?case using 1(5-8) unfolding T rekey.simps held.simps by (simp del: fun_upd_apply add: fun_upd_same)
next
  case (3 i "is" q ks' cs')
  have i: "i < length cs'" "cs' ! i \<in> set cs'" using 3(3) by auto
  have dist: "distinct (addrs (cs' ! i))" "q \<notin> set (addrs (cs' ! i))" using 3(5) i by (auto simp: distinct_concat_iff)
  have h: "held sb cb H (l - 1) (cs' ! i)" "inside is (cs' ! i)" "at is (cs' ! i) = BTwig p ks cs" using 3(2,3,4) i by auto
  have tn: "twig_node sb (l - 1 - length is) n (f ks) (map addr cs)" using 3(6) by simp
  have IH: "held sb cb (H(p \<mapsto> n)) (l - 1) (rekey is f (cs' ! i))" using 3(1) [OF h dist(1) tn 3(7,8,9)] .
  have p: "p \<in> set (addrs (cs' ! i))" using at_held [OF h(1,2)] h(3) by simp
  have other: "held sb cb (H(p \<mapsto> n)) (l - 1) (cs' ! j)" if j: "j < length cs'" "j \<noteq> i" for j
  proof (rule held_cong)
    show "held sb cb H (l - 1) (cs' ! j)" using 3(2) j by auto
    have "distinct (concat (map addrs cs'))" using 3(5) by simp
    then have "p \<notin> set (addrs (cs' ! j))" using distinct_concat_nth [of "map addrs cs'" i j] i(1) j p by auto
    then show "\<exists>r \<ge> 0. (H(p \<mapsto> n)) q = Some (m\<lparr>bn_refs := r\<rparr>)" if "q \<in> set (addrs (cs' ! j))" "H q = Some m" "0 \<le> bn_refs m" for q m
      using that by (intro exI [of _ "bn_refs m"]) auto
  qed
  have "held sb cb (H(p \<mapsto> n)) (l - 1) c" if c: "c \<in> set (cs'[i := rekey is f (cs' ! i)])" for c
  proof -
    obtain j where "j < length cs'" "c = cs'[i := rekey is f (cs' ! i)] ! j" using c by (auto simp: in_set_conv_nth)
    then show ?thesis using IH other [of j] by (cases "j = i") (simp_all add: nth_update)
  qed
  then have "\<forall>c \<in> set (cs'[i := rekey is f (cs' ! i)]). held sb cb (H(p \<mapsto> n)) (l - 1) c" by blast
  moreover have "q \<noteq> p" using p dist(2) by blast
  ultimately show ?case using 3(2) unfolding rekey.simps held.simps
    by (simp add: map_update_same fun_upd_other del: fun_upd_apply)
qed simp

subsection \<open>Replacing a key of a twig\<close>

lemma read_write_other:
  assumes "buf_write d p xs = Some d'"
  shows "i + n \<le> p \<or> p + length xs \<le> i \<Longrightarrow> buf_read d' i n = buf_read d i n" "buf_read d' p (length xs) = Some xs" "length d' = length d"
proof -
  have d: "p + length xs \<le> length d" "d' = splice d p xs" using assms by (auto simp: buf_write_def split: if_splits)
  show "length d' = length d" "buf_read d' p (length xs) = Some xs" using d by (simp_all add: buf_read_def)
  have "take n (drop i d') = take n (drop i d)" if o: "i + n \<le> p \<or> p + length xs \<le> i" "i + n \<le> length d"
  proof (rule nth_equalityI)
    show "length (take n (drop i d')) = length (take n (drop i d))" using d by simp
    show "take n (drop i d') ! j = take n (drop i d) ! j" if "j < length (take n (drop i d'))" for j
      using that o d by (auto simp: nth_splice)
  qed
  then show "buf_read d' i n = buf_read d i n" if "i + n \<le> p \<or> p + length xs \<le> i"
    using that \<open>length d' = length d\<close> by (simp add: buf_read_def)
qed

lemma twig_key_at_nat: "j \<le> unat (sb_fanout sb) \<Longrightarrow> twig_key_at sb (of_nat j) = NODE_HEAD_SIZE + j * unat (sb_prefix_size sb)"
proof -
  assume j: "j \<le> unat (sb_fanout sb)"
  have "j < 2 ^ 16" "unat (sb_prefix_size sb) < 2 ^ 16" using j fanout_small [of sb] by simp_all
  then have le: "j \<le> 65536" "65536 * unat (sb_prefix_size sb) < 4294967296" by simp_all
  have "j * unat (sb_prefix_size sb) \<le> 65536 * unat (sb_prefix_size sb)" by (rule mult_le_mono1 [OF le(1)])
  then have "j * unat (sb_prefix_size sb) < 4294967296" using le(2) by (rule order_le_less_trans)
  then have lt: "j * unat (sb_prefix_size sb) < 2 ^ 32" by simp
  have "j < 2 ^ 32" using \<open>j < 2 ^ 16\<close> by simp
  then have "unat (of_nat j * ucast (sb_prefix_size sb) :: u32) = j * unat (sb_prefix_size sb)"
    using lt by (simp add: unat_word_ariths)
  then show ?thesis by (simp add: twig_key_at_def)
qed

lemma twig_pointer_at_nat: "j \<le> unat (sb_fanout sb) \<Longrightarrow>
    twig_pointer_at sb (of_nat j) = NODE_HEAD_SIZE + unat (sb_fanout sb) * unat (sb_prefix_size sb) + j * NODE_POINTER_SIZE"
  using fanout_small(1) [of sb] by (simp add: twig_pointer_at_def)

lemma load_other:
  "buf_write d p xs = Some d' \<Longrightarrow> i + sizeof TYPE('a::len) \<le> p \<Longrightarrow> (load d' i :: 'a word option) = load d i"
  by (simp add: load_def read_write_other(1))

lemma twig_key_replaced:
  assumes "plain sb cb" "twig_node sb l n ks ps" "i < length ks" "length new = unat (sb_key_size sb)"
  shows "\<exists>d q. twig_pointer sb n (of_nat i) = Some q \<and> twig_replace sb cb n (of_nat i) new q = Some (node_set_dirty (n\<lparr>bn_data := Some d\<rparr>))
    \<and> twig_node sb l (node_set_dirty (n\<lparr>bn_data := Some d\<rparr>)) (ks[i := new]) ps"
proof -
  let ?K = "unat (sb_prefix_size sb)" and ?F = "unat (sb_fanout sb)"
  obtain d qs where d: "bn_data n = Some d" "bn_pointers n = Some (ps @ qs)" "length d = unat (sb_block_size sb)"
    "nh_level d = Some (of_nat l)" "nh_items d = Some (of_nat (length ks))"
    "\<forall>i < length ks. buf_read d (NODE_HEAD_SIZE + i * ?K) ?K = Some (ks ! i)"
    and n: "1 < l" "l < 256" "ks \<noteq> []" "length ps = length ks" "length ks \<le> ?F"
    using assms(2) by (auto simp: twig_node_def)
  have p: "cb_keycpy cb = None" "sb_prefix_size sb = sb_key_size sb" "NODE_HEAD_SIZE + ?F * (?K + NODE_POINTER_SIZE) \<le> length d"
    using assms(1) unfolding plain_def d(3) by blast+
  have iF: "i \<le> ?F" using assms(3) n(5) by simp
  note at = twig_key_at_nat [OF iF] twig_pointer_at_nat [OF iF]
  have iK: "Suc j * ?K \<le> ?F * ?K" if "j < length ks" for j using that n(5) by (intro mult_le_mono1) simp
  have iP: "Suc i * NODE_POINTER_SIZE \<le> ?F * NODE_POINTER_SIZE" using assms(3) n(5) by (intro mult_le_mono1) simp
  have fit: "NODE_HEAD_SIZE + Suc i * ?K \<le> length d" "NODE_HEAD_SIZE + ?F * ?K + Suc i * NODE_POINTER_SIZE \<le> length d"
    using p(3) iK [OF assms(3)] iP unfolding distrib_left by linarith+
  have "buf_read new 0 ?K = Some new" using assms(4) p(2) by (simp add: buf_read_def)
  obtain d1 where d1: "buf_write d (NODE_HEAD_SIZE + i * ?K) new = Some d1" using fit(1) assms(4) p(2) by (simp add: buf_write_def)
  obtain q where q: "twig_pointer sb n (of_nat i) = Some q"
    using d(1) fit(2) unfolding twig_pointer_def pointer_at_def at by (simp add: load_Some NODE_POINTER_SIZE_def)
  have ql: "length (pointer_bytes q) = NODE_POINTER_SIZE" by (simp add: pointer_bytes_def NODE_POINTER_SIZE_def)
  have l1: "length d1 = length d" by (rule read_write_other(3) [OF d1])
  obtain d2 where d2: "buf_write d1 (NODE_HEAD_SIZE + ?F * ?K + i * NODE_POINTER_SIZE) (pointer_bytes q) = Some d2"
    using fit(2) l1 ql by (simp add: buf_write_def)
  have copy: "twig_copy_key sb cb d (of_nat i) new = Some d1"
    using p(1) \<open>buf_read new 0 ?K = Some new\<close> d1 unfolding twig_copy_key_def at by simp
  have rep: "twig_replace sb cb n (of_nat i) new q = Some (node_set_dirty (n\<lparr>bn_data := Some d2\<rparr>))"
    using d(1) copy d2 unfolding twig_replace_def at by simp
  have head: "nh_level d2 = nh_level d" "nh_items d2 = nh_items d"
    unfolding nh_level_def nh_items_def
    using load_other [OF d2, of 7, where 'a = 8] load_other [OF d2, of 8, where 'a = 32] load_other [OF d1, of 7, where 'a = 8] load_other [OF d1, of 8, where 'a = 32]
    by (simp_all add: NODE_HEAD_SIZE_def)
  have keys: "buf_read d2 (NODE_HEAD_SIZE + j * ?K) ?K = Some (ks[i := new] ! j)" if j: "j < length ks" for j
  proof -
    have "buf_read d2 (NODE_HEAD_SIZE + j * ?K) ?K = buf_read d1 (NODE_HEAD_SIZE + j * ?K) ?K"
      using iK [OF j] by (intro read_write_other(1) [OF d2]) simp
    also have "\<dots> = Some (ks[i := new] ! j)"
    proof (cases "j = i")
      case True
      then show ?thesis using read_write_other(2) [OF d1] assms(4) p(2) j by simp
    next
      case False
      then have "Suc j * ?K \<le> i * ?K \<or> Suc i * ?K \<le> j * ?K" by (metis mult_le_mono1 not_less_eq_eq le_antisym linorder_le_cases)
      then have "buf_read d1 (NODE_HEAD_SIZE + j * ?K) ?K = buf_read d (NODE_HEAD_SIZE + j * ?K) ?K"
        using assms(4) p(2) by (intro read_write_other(1) [OF d1]) auto
      then show ?thesis using d(6) j False by simp
    qed
    finally show ?thesis .
  qed
  have "twig_node sb l (node_set_dirty (n\<lparr>bn_data := Some d2\<rparr>)) (ks[i := new]) ps"
    using n d(2,3,4,5) head l1 read_write_other(3) [OF d2] keys by (simp add: twig_node_def node_set_dirty_def)
  then show ?thesis using q rep by blast
qed

subsection \<open>The update of the twigs above a leaf\<close>

lemma resep_index:
  assumes "key_order cmp w" "in_order cmp ks" "\<forall>k \<in> set ks. length k = w" "length old = w" "old \<in> set ks"
  shows "length (takeWhile (\<lambda>k. cmp k old < 0) ks) < length ks"
    "resep old new ks = ks[length (takeWhile (\<lambda>k. cmp k old < 0) ks) := new]"
proof -
  obtain as cs where s: "ks = as @ old # cs" "\<forall>a \<in> set as. cmp a old < 0"
    using key_order.order_split [OF assms(1-4)] assms(5) by blast
  have irr: "\<not> cmp old old < 0" by (rule key_order.cmp_irrefl [OF assms(1,4)])
  have "old \<notin> set as" "old \<notin> set cs" using assms(2) irr s by auto
  then have r: "map (\<lambda>k. if k = old then new else k) as = as" "map (\<lambda>k. if k = old then new else k) cs = cs"
    by (auto intro: map_idI)
  have tw: "takeWhile (\<lambda>k. cmp k old < 0) ks = as" using s irr by (simp add: takeWhile_append2)
  show "length (takeWhile (\<lambda>k. cmp k old < 0) ks) < length ks" unfolding tw using s(1) by simp
  show "resep old new ks = ks[length (takeWhile (\<lambda>k. cmp k old < 0) ks) := new]"
    unfolding tw using r s(1) by (simp add: resep_def)
qed

lemma set_to_update_simps:
  "twig_node sb l (node_set_to_update n) ks ps = twig_node sb l n ks ps" "node_is_dirty n \<Longrightarrow> node_is_dirty (node_set_to_update n)"
  "bn_refs (node_set_to_update n) = bn_refs n" "node_is_dirty (node_set_dirty n)" "bn_refs (node_set_dirty n) = bn_refs n"
proof -
  show "twig_node sb l (node_set_to_update n) ks ps = twig_node sb l n ks ps" "bn_refs (node_set_to_update n) = bn_refs n"
    "bn_refs (node_set_dirty n) = bn_refs n"
    by (simp_all add: twig_node_def node_set_to_update_def node_set_dirty_def)
  have "x AND 1 \<noteq> 0 \<Longrightarrow> (x OR 4) AND 1 \<noteq> 0" "(x OR 1) AND 1 \<noteq> 0" for x :: u32
    by (simp_all add: and_one_eq even_or_iff flip: even_iff_mod_2_eq_zero)
  then show "node_is_dirty n \<Longrightarrow> node_is_dirty (node_set_to_update n)" "node_is_dirty (node_set_dirty n)"
    by (simp_all add: node_is_dirty_def node_set_to_update_def node_set_dirty_def)
qed

lemma held_level: "held sb cb H l T \<Longrightarrow> 1 \<le> l \<and> l < 256"
  by (cases T) (auto simp: twig_node_def)

lemma height_at: "height l T \<Longrightarrow> inside is T \<Longrightarrow> height (l - length is) (at is T)"
proof (induction "is" T arbitrary: l rule: inside.induct)
  case (3 i "is" p ks cs)
  then show ?case using 3(1) [of "l - 1"] by auto
qed simp_all

lemma level_search:
  assumes "plain sb cb" "bt_super t = sb" "bt_cb t = cb" "bt_root t = addr T" "held sb cb H l T" "length key = unat (sb_key_size sb)" "1 \<le> m"
  shows "m \<le> l \<Longrightarrow> \<exists>pl0. btree_lookup_level (t\<lparr>bt_nodes := H\<rparr>) (Some key) m pl
      = Some (addr (at (path (cb_keycmp cb) key (l - m) T) T), end_place sb cb key (at (path (cb_keycmp cb) key (l - m) T) T) pl0,
          t\<lparr>bt_nodes := bump H (addr (at (path (cb_keycmp cb) key (l - m) T) T))\<rparr>)
      \<and> (key \<notin> set (seps T) \<longrightarrow> pl_size pl0 = pl_size pl)"
    and "l < m \<Longrightarrow> \<exists>pl'. btree_lookup_level (t\<lparr>bt_nodes := H\<rparr>) (Some key) m pl = Some (0, pl', t\<lparr>bt_nodes := H\<rparr>)"
proof -
  obtain n d where n: "addr T \<noteq> 0" "H (addr T) = Some n" "bn_data n = Some d" using held_addr [OF assms(5)] by blast
  have root: "btree_fetch_root (t\<lparr>bt_nodes := H\<rparr>) = Some (addr T, t\<lparr>bt_nodes := bump H (addr T)\<rparr>)"
    by (rule fetch_root_loaded [where H = H, OF assms(4) n])
  have f: "l \<le> tree_fuel" using held_level [OF assms(5)] by (simp add: tree_fuel_def)
  show "\<exists>pl0. btree_lookup_level (t\<lparr>bt_nodes := H\<rparr>) (Some key) m pl
      = Some (addr (at (path (cb_keycmp cb) key (l - m) T) T), end_place sb cb key (at (path (cb_keycmp cb) key (l - m) T) T) pl0,
          t\<lparr>bt_nodes := bump H (addr (at (path (cb_keycmp cb) key (l - m) T) T))\<rparr>)
      \<and> (key \<notin> set (seps T) \<longrightarrow> pl_size pl0 = pl_size pl)" if "m \<le> l"
    using lookup_to_level [OF assms(1-3,6,5,7) that f] by (simp add: btree_lookup_level_def root)
  show "\<exists>pl'. btree_lookup_level (t\<lparr>bt_nodes := H\<rparr>) (Some key) m pl = Some (0, pl', t\<lparr>bt_nodes := H\<rparr>)" if "l < m"
    using lookup_above [OF assms(1-3,6,5) that f] by (simp add: btree_lookup_level_def root)
qed

lemma twigs_step:
  assumes "plain sb cb" "bt_super t = sb" "bt_cb t = cb" "bt_root t = addr T" "held sb cb H l T" "distinct (addrs T)"
    and "length old = unat (sb_key_size sb)" "length new = unat (sb_key_size sb)" "2 \<le> m" "m \<le> l"
    and "js = path (cb_keycmp cb) old (l - m) T" "in_order (cb_keycmp cb) (resep old new (keys (at js T)))"
  shows "\<exists>H'. twigs_loop (Suc f) (t\<lparr>bt_nodes := H\<rparr>) (m - 1) (Some old) (Some new) = twigs_loop f (t\<lparr>bt_nodes := H'\<rparr>) m (Some old) (Some new)
    \<and> held sb cb H' l (rekey js (resep old new) T) \<and> (\<forall>q. q \<noteq> addr (at js T) \<longrightarrow> H' q = H q)"
proof -
  let ?S = "at js T" and ?cmp = "cb_keycmp cb"
  have ins: "inside js T" "length js = l - m" using path_inside [OF held_height [OF assms(5)], of sb cb H l "l - m" ?cmp old] assms(5,9,11) by auto
  have hS: "held sb cb H m ?S" using at_held [OF assms(5) ins(1)] ins(2) assms(10) by simp
  obtain p ks cs where S: "?S = BTwig p ks cs" using hS assms(9) by (cases ?S) auto
  obtain n where n: "p \<noteq> 0" "H p = Some n" "twig_node sb m n ks (map addr cs)" "node_live n" "in_order ?cmp ks" "\<forall>k \<in> set ks. length k = unat (sb_key_size sb)"
    using hS unfolding S by auto
  have ko: "key_order ?cmp (unat (sb_key_size sb))" using assms(1) by (simp add: plain_def)
  have m1: "1 \<le> m" using assms(9) by simp
  obtain pl0 where look: "btree_lookup_level (t\<lparr>bt_nodes := H\<rparr>) (Some old) m no_place
      = Some (p, twig_place sb cb old ks pl0, t\<lparr>bt_nodes := bump H p\<rparr>)"
    using level_search(1) [OF assms(1-5,7) m1 assms(10), of no_place] unfolding assms(11) [symmetric] S by auto
  let ?i = "length (takeWhile (\<lambda>k. ?cmp k old < 0) ks)"
  have pl: "pl_index (twig_place sb cb old ks pl0) = of_nat ?i" "pl_found (twig_place sb cb old ks pl0) \<longleftrightarrow> old \<in> set ks"
    by (simp_all add: twig_place_def Let_def)
  obtain n' where n': "twig_node sb m n' (resep old new ks) (map addr cs)" "node_live n'"
    and step: "twigs_loop (Suc f) (t\<lparr>bt_nodes := H\<rparr>) (m - 1) (Some old) (Some new)
      = twigs_loop f (t\<lparr>bt_nodes := H(p \<mapsto> n')\<rparr>) m (Some old) (Some new)"
  proof (cases "old \<in> set ks")
    case True
    note ri = resep_index [OF ko n(5,6) assms(7) True]
    let ?r = "bn_refs n + 1"
    let ?m = "node_set_to_update (n\<lparr>bn_refs := ?r\<rparr>)"
    have tn: "twig_node sb m ?m ks (map addr cs)" using n(3) by (simp add: set_to_update_simps)
    obtain d q where q: "twig_pointer sb ?m (of_nat ?i) = Some q" "twig_replace sb cb ?m (of_nat ?i) new q = Some (node_set_dirty (?m\<lparr>bn_data := Some d\<rparr>))"
      "twig_node sb m (node_set_dirty (?m\<lparr>bn_data := Some d\<rparr>)) (resep old new ks) (map addr cs)"
      using twig_key_replaced [OF assms(1) tn ri(1) assms(8)] unfolding ri(2) by blast
    let ?n' = "node_set_dirty (node_set_to_update n\<lparr>bn_data := Some d\<rparr>)"
    have eq: "node_set_dirty (?m\<lparr>bn_data := Some d\<rparr>) = ?n'\<lparr>bn_refs := ?r\<rparr>" by (simp add: node_set_dirty_def node_set_to_update_def)
    have use: "node_live ?n'" using n(4) by (simp add: node_live_def set_to_update_simps)
    have "bn_refs ?n' = bn_refs n" by (simp add: node_set_dirty_def node_set_to_update_def)
    then have b: "(bump H p)(p \<mapsto> ?n'\<lparr>bn_refs := ?r\<rparr>) = bump (H(p \<mapsto> ?n')) p" using n(2) by (simp add: bump_def)
    have bp: "bump H p p = Some (n\<lparr>bn_refs := ?r\<rparr>)" using n(2) by (simp add: bump_def)
    have rel: "btnode_release (t\<lparr>bt_nodes := (bump H p)(p \<mapsto> ?n'\<lparr>bn_refs := ?r\<rparr>)\<rparr>) p = Some (t\<lparr>bt_nodes := H(p \<mapsto> ?n')\<rparr>)"
      unfolding b by (rule release_bumped) (use use in simp_all)
    have "twig_node sb m ?n' (resep old new ks) (map addr cs)" using q(3) unfolding eq by simp
    moreover have "twigs_loop (Suc f) (t\<lparr>bt_nodes := H\<rparr>) (m - 1) (Some old) (Some new)
        = twigs_loop f (t\<lparr>bt_nodes := H(p \<mapsto> ?n')\<rparr>) m (Some old) (Some new)"
      using look n(1) bp pl True q(1,2) eq rel assms(2,3,9) by (simp add: on_node_def)
    ultimately show ?thesis using that use by blast
  next
    case False
    have same: "resep old new ks = ks" using False unfolding resep_def by (intro map_idI) auto
    have tn: "twig_node sb m (node_set_to_update n) (resep old new ks) (map addr cs)" using n(3) by (simp add: set_to_update_simps same)
    have use: "node_live (node_set_to_update n)" using n(4) by (simp add: node_live_def set_to_update_simps)
    let ?r = "bn_refs n + 1"
    have eq: "node_set_to_update (n\<lparr>bn_refs := ?r\<rparr>) = (node_set_to_update n)\<lparr>bn_refs := ?r\<rparr>" by (simp add: node_set_to_update_def)
    have "bn_refs (node_set_to_update n) = bn_refs n" by (simp add: node_set_to_update_def)
    then have b: "(bump H p)(p \<mapsto> node_set_to_update n\<lparr>bn_refs := ?r\<rparr>) = bump (H(p \<mapsto> node_set_to_update n)) p" using n(2) by (simp add: bump_def)
    have bp: "bump H p p = Some (n\<lparr>bn_refs := ?r\<rparr>)" using n(2) by (simp add: bump_def)
    have rel: "btnode_release (t\<lparr>bt_nodes := (bump H p)(p \<mapsto> node_set_to_update n\<lparr>bn_refs := ?r\<rparr>)\<rparr>) p = Some (t\<lparr>bt_nodes := H(p \<mapsto> node_set_to_update n)\<rparr>)"
      unfolding b by (rule release_bumped) (use use in simp_all)
    have "twigs_loop (Suc f) (t\<lparr>bt_nodes := H\<rparr>) (m - 1) (Some old) (Some new)
        = twigs_loop f (t\<lparr>bt_nodes := H(p \<mapsto> node_set_to_update n)\<rparr>) m (Some old) (Some new)"
      using look n(1) bp pl False eq rel assms(2,3,9) by (simp add: on_node_def)
    then show ?thesis by (rule that [OF tn use])
  qed
  have sz: "\<forall>k \<in> set (resep old new ks). length k = unat (sb_key_size sb)" using n(6) assms(8) by (auto simp: resep_def)
  have lv: "l - length js = m" using ins(2) assms(10) by simp
  have "held sb cb (H(p \<mapsto> n')) l (rekey js (resep old new) T)"
    using held_rekey [OF assms(5) ins(1) S assms(6), of n' "resep old new"] n' lv sz assms(12) unfolding S by simp
  then show ?thesis using step S by (intro exI [of _ "H(p \<mapsto> n')"]) auto
qed

lemma twigs_loop_held:
  assumes "plain sb cb" "bt_super t = sb" "bt_cb t = cb" "bt_root t = addr T" "held sb cb H l T" "distinct (addrs T)"
    and "length old = unat (sb_key_size sb)" "length new = unat (sb_key_size sb)" "P = path (cb_keycmp cb) old (l - 1) T"
    and "\<forall>j < l - 1. in_order (cb_keycmp cb) (resep old new (keys (at (take j P) T)))"
  shows "\<exists>H'. twigs_loop tree_fuel (t\<lparr>bt_nodes := H\<rparr>) 1 (Some old) (Some new) = Some (t\<lparr>bt_nodes := H'\<rparr>)
    \<and> held sb cb H' l (reseps old new P T) \<and> (\<forall>q. (\<forall>j < l - 1. q \<noteq> addr (at (take j P) T)) \<longrightarrow> H' q = H q)"
proof -
  have l: "1 \<le> l" "l < 256" using held_level [OF assms(5)] by simp_all
  have P: "length P = l - 1" "inside P T" using path_inside [OF held_height [OF assms(5)], of sb cb H l "l - 1" "cb_keycmp cb" old] assms(5,9) by auto
  have loop: "\<exists>H'. twigs_loop (Suc u + k) (t\<lparr>bt_nodes := H1\<rparr>) (l - u) (Some old) (Some new) = Some (t\<lparr>bt_nodes := H'\<rparr>)
      \<and> held sb cb H' l (reseps_from old new P 0 T) \<and> (\<forall>q. (\<forall>j < u. q \<noteq> addr (at (take j P) T)) \<longrightarrow> H' q = H1 q)"
    if "u \<le> l - 1" "held sb cb H1 l (reseps_from old new P u T)" for u k H1
    using that
  proof (induction u arbitrary: H1)
    case 0
    obtain pl' where "btree_lookup_level (t\<lparr>bt_nodes := H1\<rparr>) (Some old) (l + 1) no_place = Some (0, pl', t\<lparr>bt_nodes := H1\<rparr>)"
      using level_search(2) [OF assms(1-3) _ 0(2) assms(7), of "l + 1"] assms(4) by auto
    then show ?case using 0(2) by auto
  next
    case (Suc u)
    let ?T = "reseps_from old new P (Suc u) T" and ?m = "l - u"
    have u: "u < length P" "Suc u \<le> length P" using Suc.prems(1) P(1) by simp_all
    have js: "take u P = path (cb_keycmp cb) old (l - ?m) ?T"
    proof -
      have "path (cb_keycmp cb) old u ?T = path (cb_keycmp cb) old u T" using path_reseps_from [of u "Suc u" P] u by simp
      moreover have "path (cb_keycmp cb) old u T = take u P" using path_take [of u "l - 1"] u P(1) assms(9) by simp
      ultimately show ?thesis using u P(1) by simp
    qed
    have ks: "keys (at (take u P) ?T) = keys (at (take u P) T)" using keys_reseps_from [of "take u P" "Suc u" P] u by simp
    have ad: "addr (at (take u P) ?T) = addr (at (take u P) T)" using u P(2) by (intro addr_at_reseps_from) simp_all
    have ord: "in_order (cb_keycmp cb) (resep old new (keys (at (take u P) ?T)))" using assms(10) u P(1) unfolding ks by simp
    have r: "bt_root t = addr ?T" "distinct (addrs ?T)" "2 \<le> ?m" "?m \<le> l" using assms(4,6) u P(1) by simp_all
    obtain H2 where s: "twigs_loop (Suc (Suc u + k)) (t\<lparr>bt_nodes := H1\<rparr>) (?m - 1) (Some old) (Some new)
        = twigs_loop (Suc u + k) (t\<lparr>bt_nodes := H2\<rparr>) ?m (Some old) (Some new)"
      and h2: "held sb cb H2 l (rekey (take u P) (resep old new) ?T)" and o2: "\<forall>q. q \<noteq> addr (at (take u P) ?T) \<longrightarrow> H2 q = H1 q"
      using twigs_step [OF assms(1-3) r(1) Suc.prems(2) r(2) assms(7,8) r(3,4) js ord] by blast
    have "held sb cb H2 l (reseps_from old new P u T)" using h2 u by (simp add: reseps_from_simps(2))
    then obtain H' where "twigs_loop (Suc u + k) (t\<lparr>bt_nodes := H2\<rparr>) (l - u) (Some old) (Some new) = Some (t\<lparr>bt_nodes := H'\<rparr>)"
      "held sb cb H' l (reseps_from old new P 0 T)" "\<forall>q. (\<forall>j < u. q \<noteq> addr (at (take j P) T)) \<longrightarrow> H' q = H2 q"
      using Suc.IH [of H2] Suc.prems(1) by auto
    moreover have "l - Suc u = ?m - 1" by simp
    ultimately show ?case using s o2 unfolding ad by (intro exI [of _ H']) (simp add: less_Suc_eq)
  qed
  have "tree_fuel = Suc (l - 1) + (256 - (l - 1))" "l - (l - 1) = 1" using l by (simp_all add: tree_fuel_def)
  moreover have "held sb cb H l (reseps_from old new P (l - 1) T)" using assms(5) reseps_from_simps(1) [of old new P T] P(1) by simp
  ultimately show ?thesis using loop [of "l - 1" H "256 - (l - 1)"] unfolding reseps_from_0 [OF P(2)] by simp
qed

end
