(* ===== verification/Btree_Tree.thy ===== *)
theory Btree_Tree
  imports Btree_Update
begin

section \<open>Trees of any height as maps\<close>

text \<open>
  The leaf of a path changed, with the keys above it: a tree stays tight, and its items change where the leaf is.
\<close>

subsection \<open>A leaf changed\<close>

lemma held_leaf:
  assumes "held sb cb H l T" "inside is T" "at is T = BLeaf p xs" "distinct (addrs T)" "leaf_node sb cb n ys" "node_live n"
  shows "held sb cb (H(p \<mapsto> n)) l (graft is T (BLeaf p ys))"
  using assms
proof (induction "is" T arbitrary: l rule: inside.induct)
  case (3 i "is" q ks cs)
  have i: "i < length cs" "cs ! i \<in> set cs" using 3(3) by auto
  have dist: "distinct (addrs (cs ! i))" "q \<notin> set (addrs (cs ! i))" using 3(5) i by (auto simp: distinct_concat_iff)
  have h: "held sb cb H (l - 1) (cs ! i)" "inside is (cs ! i)" "at is (cs ! i) = BLeaf p xs" using 3(2,3,4) i by auto
  have IH: "held sb cb (H(p \<mapsto> n)) (l - 1) (graft is (cs ! i) (BLeaf p ys))" using 3(1) [OF h dist(1) 3(6,7)] .
  have p: "p \<in> set (addrs (cs ! i))" using at_held [OF h(1,2)] h(3) by simp
  have other: "held sb cb (H(p \<mapsto> n)) (l - 1) (cs ! j)" if j: "j < length cs" "j \<noteq> i" for j
  proof (rule held_cong)
    show "held sb cb H (l - 1) (cs ! j)" using 3(2) j by auto
    have "distinct (concat (map addrs cs))" using 3(5) by simp
    then have "p \<notin> set (addrs (cs ! j))" using distinct_concat_nth [of "map addrs cs" i j] i(1) j p by auto
    then show "\<exists>r \<ge> 0. (H(p \<mapsto> n)) q = Some (m\<lparr>bn_refs := r\<rparr>)" if "q \<in> set (addrs (cs ! j))" "H q = Some m" "0 \<le> bn_refs m" for q m
      using that by (intro exI [of _ "bn_refs m"]) auto
  qed
  have "held sb cb (H(p \<mapsto> n)) (l - 1) c" if c: "c \<in> set (cs[i := graft is (cs ! i) (BLeaf p ys)])" for c
  proof -
    obtain j where "j < length cs" "c = cs[i := graft is (cs ! i) (BLeaf p ys)] ! j" using c by (auto simp: in_set_conv_nth)
    then show ?thesis using IH other [of j] by (cases "j = i") (simp_all add: nth_update)
  qed
  then have "\<forall>c \<in> set (cs[i := graft is (cs ! i) (BLeaf p ys)]). held sb cb (H(p \<mapsto> n)) (l - 1) c" by blast
  moreover have "q \<noteq> p" using p dist(2) by blast
  moreover have "addr (graft is (cs ! i) (BLeaf p ys)) = addr (cs ! i)" using h(2,3) by (cases "is"; cases "cs ! i") auto
  ultimately show ?case using 3(2) unfolding graft.simps held.simps
    by (simp add: map_update_same fun_upd_other del: fun_upd_apply)
qed simp_all

lemma plug_shape:
  assumes "inside is T" "at is T = BLeaf p xs"
  shows "addr (graft is T (BLeaf p ys)) = addr T" "addrs (graft is T (BLeaf p ys)) = addrs T"
proof -
  show "addr (graft is T (BLeaf p ys)) = addr T" using assms by (cases "is"; cases T) auto
  show "addrs (graft is T (BLeaf p ys)) = addrs T"
    using assms by (induction "is" T rule: inside.induct) (simp_all add: map_update_same)
qed

lemma reseps_shape:
  assumes "inside is T"
  shows "addr (reseps old new is T) = addr T" "addrs (reseps old new is T) = addrs T" "items_of (reseps old new is T) = items_of T"
    "inside is (reseps old new is T)" "at is (reseps old new is T) = at is T"
    "items_of (graft is (reseps old new is T) S) = items_of (graft is T S)"
proof -
  show "addr (reseps old new is T) = addr T" "addrs (reseps old new is T) = addrs T" "items_of (reseps old new is T) = items_of T"
    using shape_reseps_from [of old new "is" 0 T] unfolding reseps_from_0 [OF assms] by simp_all
  show "inside is (reseps old new is T)" "at is (reseps old new is T) = at is T"
    using assms by (induction "is" T rule: inside.induct) simp_all
  show "items_of (graft is (reseps old new is T) S) = items_of (graft is T S)"
    using assms by (induction "is" T rule: inside.induct) (simp_all add: map_update)
qed

lemma items_at: "inside is T \<Longrightarrow> set (items_of (at is T)) \<subseteq> set (items_of T)"
proof (induction "is" T rule: inside.induct)
  case (3 i "is" p ks cs)
  then have "set (items_of (at is (cs ! i))) \<subseteq> set (items_of (cs ! i))" "cs ! i \<in> set cs" by simp_all
  then show ?case by fastforce
qed simp_all

lemma keys_reseps:
  "inside is T \<Longrightarrow> j < length is \<Longrightarrow> keys (at (take j is) (graft is (reseps old new is T) S)) = resep old new (keys (at (take j is) T))"
proof (induction "is" T arbitrary: j rule: inside.induct)
  case (3 i "is" p ks cs)
  then show ?case by (cases j) simp_all
qed simp_all

lemma tight_at: "tight T \<Longrightarrow> inside is T \<Longrightarrow> tight (at is T)"
proof (induction "is" T rule: inside.induct)
  case (3 i "is" p ks cs)
  then show ?case by simp
qed simp_all

lemma ordered_child:
  assumes "ordered cmp w (concat (map items_of cs))" "c \<in> set cs"
  shows "ordered cmp w (items_of c)"
proof -
  obtain as bs where "cs = as @ c # bs" using split_list [OF assms(2)] by blast
  then show ?thesis using assms(1) by simp
qed

lemma ordered_at: "inside is T \<Longrightarrow> ordered cmp w (items_of T) \<Longrightarrow> ordered cmp w (items_of (at is T))"
proof (induction "is" T rule: inside.induct)
  case (3 i "is" p ks cs)
  then show ?case using ordered_child [of cmp w cs "cs ! i"] by (simp add: comp_def)
qed simp_all

lemma inside_take: "inside is T \<Longrightarrow> inside (take j is) T"
proof (induction "is" T arbitrary: j rule: inside.induct)
  case (3 i "is" p ks cs)
  then show ?case by (cases j) simp_all
qed simp_all

context key_order
begin

lemma ordered_distinct: "ordered cmp width xs \<Longrightarrow> distinct (map fst xs)"
proof (induction xs)
  case (Cons x xs)
  then have "\<forall>y \<in> set xs. cmp (fst x) (fst y) < 0" "ordered cmp width xs" "length (fst x) = width" by (auto simp: ordered_def)
  then show ?case using Cons.IH cmp_irrefl by fastforce
qed simp

lemma children_distinct:
  assumes "ordered cmp width (concat (map items_of cs))" "i < length cs" "j < length cs" "i \<noteq> j"
    and "x \<in> set (items_of (cs ! i))" "y \<in> set (items_of (cs ! j))"
  shows "fst x \<noteq> fst y"
proof -
  have "distinct (concat (map (\<lambda>c. map fst (items_of c)) cs))"
    using ordered_distinct [OF assms(1)] by (simp add: map_concat comp_def)
  from distinct_concat_nth [OF this, of i j] assms show ?thesis by auto
qed

lemma tight_in_order: "tight (BTwig p ks cs) \<Longrightarrow> ordered cmp width (items_of (BTwig p ks cs)) \<Longrightarrow> in_order cmp ks"
proof (induction cs arbitrary: ks)
  case (Cons c cs)
  have ks: "ks = fst (last (items_of c)) # map (\<lambda>c. fst (last (items_of c))) cs" and ne: "items_of c \<noteq> []" "\<forall>c \<in> set cs. items_of c \<noteq> []"
    using Cons.prems(1) by simp_all
  have o: "ordered cmp width (items_of c @ concat (map items_of cs))" using Cons.prems(2) by (simp add: comp_def)
  have "in_order cmp (map (\<lambda>c. fst (last (items_of c))) cs)"
  proof (cases cs)
    case (Cons c' cs')
    then have "tight (BTwig p (map (\<lambda>c. fst (last (items_of c))) cs) cs)" using Cons.prems(1) by simp
    then show ?thesis using Cons.IH o by (simp add: comp_def)
  qed simp
  moreover have "cmp (fst (last (items_of c))) (fst (last (items_of d))) < 0" if d: "d \<in> set cs" for d
  proof -
    have "last (items_of d) \<in> set (items_of d)" using d ne(2) by simp
    then have "last (items_of d) \<in> set (concat (map items_of cs))" using d by auto
    then show ?thesis using o ne(1) last_in_set [of "items_of c"] unfolding ordered_append by blast
  qed
  ultimately show ?case unfolding ks by auto
qed simp

lemma tight_plug:
  assumes "inside is T" "height (length is) T" "tight T" "ordered cmp width (items_of T)" "at is T = BLeaf p xs"
    and "xs \<noteq> []" "ys \<noteq> []" "old = fst (last xs)" "new = fst (last ys)"
  shows "tight (graft is (reseps old new is T) (BLeaf p ys)) \<and> items_of (graft is (reseps old new is T) (BLeaf p ys)) \<noteq> []
    \<and> fst (last (items_of (graft is (reseps old new is T) (BLeaf p ys)))) = (if fst (last (items_of T)) = old then new else fst (last (items_of T)))"
  using assms(1-5)
proof (induction "is" T rule: inside.induct)
  case (1 T)
  then show ?case using assms(6-9) by simp
next
  case (3 i "is" q ks cs)
  let ?c = "graft is (reseps old new is (cs ! i)) (BLeaf p ys)" and ?last = "\<lambda>c. fst (last (items_of c))"
  have i: "i < length cs" "cs ! i \<in> set cs" using 3(2) by auto
  have ks: "ks = map ?last cs" "\<forall>c \<in> set cs. items_of c \<noteq> [] \<and> tight c" using 3(4) by auto
  have ord: "ordered cmp width (concat (map items_of cs))" using 3(5) by (simp add: comp_def)
  have h: "inside is (cs ! i)" "height (length is) (cs ! i)" "tight (cs ! i)" "at is (cs ! i) = BLeaf p xs" using 3(2-4,6) i by auto
  have oc: "ordered cmp width (items_of (cs ! i))" by (rule ordered_child [OF ord i(2)])
  have IH: "tight ?c" "items_of ?c \<noteq> []" "?last ?c = (if ?last (cs ! i) = old then new else ?last (cs ! i))"
    using 3(1) [OF h(1-3) oc h(4)] by blast+
  have old: "last xs \<in> set (items_of (cs ! i))" using items_at [OF h(1)] h(4) assms(6) by auto
  have other: "?last (cs ! j) \<noteq> old" if j: "j < length cs" "j \<noteq> i" for j
  proof -
    have "last (items_of (cs ! j)) \<in> set (items_of (cs ! j))" using ks(2) j by simp
    then show ?thesis using children_distinct [OF ord j(1) i(1) j(2) _ old] assms(8) by blast
  qed
  have ks': "resep old new ks = map ?last (cs[i := ?c])"
  proof (rule nth_equalityI)
    show "length (resep old new ks) = length (map ?last (cs[i := ?c]))" using ks(1) by (simp add: resep_def)
    fix j assume "j < length (resep old new ks)"
    then have j: "j < length cs" using ks(1) by (simp add: resep_def)
    show "resep old new ks ! j = map ?last (cs[i := ?c]) ! j"
      using j ks(1) IH(3) other [OF j] by (cases "j = i") (simp_all add: resep_def nth_update)
  qed
  have ch: "items_of c \<noteq> [] \<and> tight c" if c: "c \<in> set (cs[i := ?c])" for c
    using set_update_subset_insert [of cs i ?c] c ks(2) IH(1,2) by auto
  have graft: "graft (i # is) (reseps old new (i # is) (BTwig q ks cs)) (BLeaf p ys) = BTwig q (resep old new ks) (cs[i := ?c])"
    using i(1) by simp
  have last: "?last (BTwig q zs ds) = ?last (last ds)" if "ds \<noteq> []" "\<forall>d \<in> set ds. items_of d \<noteq> []" for zs ds
  proof -
    have "ds = butlast ds @ [last ds]" using that(1) by simp
    then have "items_of (BTwig q zs ds) = concat (map items_of (butlast ds)) @ items_of (last ds)"
      by (metis append_Nil2 concat.simps concat_append items_of.simps(2) list.map map_append)
    then show ?thesis using that by simp
  qed
  have ne: "cs \<noteq> []" using i by auto
  have "?last (BTwig q (resep old new ks) (cs[i := ?c])) = (if ?last (BTwig q ks cs) = old then new else ?last (BTwig q ks cs))"
  proof (cases "i = length cs - 1")
    case True
    then have "last (cs[i := ?c]) = ?c" "last cs = cs ! i" using ne by (simp_all add: last_conv_nth)
    then show ?thesis using last [of "cs[i := ?c]"] last [of cs] ne ch ks(2) IH(3) by simp
  next
    case False
    then have "last (cs[i := ?c]) = last cs" "last cs = cs ! (length cs - 1)" "length cs - 1 < length cs" using ne by (simp_all add: last_conv_nth)
    then show ?thesis using last [of "cs[i := ?c]"] last [of cs] ne ch ks(2) other [of "length cs - 1"] False by simp
  qed
  moreover have "items_of (BTwig q (resep old new ks) (cs[i := ?c])) \<noteq> []" using ch ne by (cases "cs[i := ?c]") auto
  ultimately show ?case unfolding graft using ks' ch ne by simp
qed simp

end

subsection \<open>The tree and its leaf for a key\<close>

definition tree_holds :: "'d btree \<Rightarrow> nat \<Rightarrow> shape \<Rightarrow> bool" where
  "tree_holds t l T \<longleftrightarrow> plain (bt_super t) (bt_cb t) \<and> bt_root t = addr T \<and> held (bt_super t) (bt_cb t) (bt_nodes t) l T
     \<and> distinct (addrs T) \<and> tight T \<and> ordered (cb_keycmp (bt_cb t)) (unat (sb_key_size (bt_super t))) (items_of T)
     \<and> sb_item_count (bt_super t) = of_nat (length (items_of T)) \<and> sb_stored_data (bt_super t) = of_nat (total (items_of T))"

lemma seps_items: "tight T \<Longrightarrow> set (seps T) \<subseteq> fst ` set (items_of T)"
proof (induction T)
  case (BTwig p ks cs)
  have c: "c \<in> set cs \<Longrightarrow> last (items_of c) \<in> set (items_of c) \<and> set (seps c) \<subseteq> fst ` set (items_of c)" for c
    using BTwig by simp
  have "k \<in> fst ` set (items_of (BTwig p ks cs))" if k: "k \<in> set ks" for k
  proof -
    obtain d where "d \<in> set cs" "k = fst (last (items_of d))" using k BTwig.prems by auto
    moreover from this have "last (items_of d) \<in> set (items_of (BTwig p ks cs))" using c by auto
    ultimately show ?thesis by blast
  qed
  moreover have "set (concat (map seps cs)) \<subseteq> fst ` set (items_of (BTwig p ks cs))"
  proof
    fix k assume "k \<in> set (concat (map seps cs))"
    then obtain d where d: "d \<in> set cs" "k \<in> set (seps d)" by auto
    then have "k \<in> fst ` set (items_of d)" using c by blast
    then show "k \<in> fst ` set (items_of (BTwig p ks cs))" using d(1) by auto
  qed
  ultimately show ?case by (simp add: subset_iff)
qed simp

lemma tree_leaf:
  assumes "tree_holds t l T" "length key = unat (sb_key_size (bt_super t))" "P = path (cb_keycmp (bt_cb t)) key (l - 1) T"
  shows "\<exists>p xs A B n. at P T = BLeaf p xs \<and> inside P T \<and> length P = l - 1 \<and> items_of T = A @ xs @ B \<and> (l \<noteq> 1 \<longrightarrow> xs \<noteq> [])
    \<and> (\<forall>a \<in> set A. cb_keycmp (bt_cb t) (fst a) key < 0) \<and> (\<forall>b \<in> set B. cb_keycmp (bt_cb t) key (fst b) < 0)
    \<and> (\<forall>S. items_of (graft P T S) = A @ items_of S @ B) \<and> (\<forall>x \<in> set xs. path (cb_keycmp (bt_cb t)) (fst x) (l - 1) T = P)
    \<and> p \<noteq> 0 \<and> bt_nodes t p = Some n \<and> leaf_node (bt_super t) (bt_cb t) n xs \<and> node_live n \<and> map_of (items_of T) key = map_of xs key
    \<and> (\<forall>pl. \<exists>pl0. btree_lookup_level t (Some key) 1 pl
          = Some (p, leaf_place (bt_super t) (bt_cb t) key xs pl0, t\<lparr>bt_nodes := bump (bt_nodes t) p\<rparr>)
        \<and> (map_of xs key = None \<longrightarrow> pl_size pl0 = pl_size pl))"
proof -
  let ?sb = "bt_super t" and ?cb = "bt_cb t" and ?H = "bt_nodes t" and ?cmp = "cb_keycmp (bt_cb t)"
  have t: "plain ?sb ?cb" "bt_root t = addr T" "held ?sb ?cb ?H l T" "tight T" "ordered ?cmp (unat (sb_key_size ?sb)) (items_of T)"
    using assms(1) by (simp_all add: tree_holds_def)
  have ko: "key_order ?cmp (unat (sb_key_size ?sb))" using t(1) by (simp add: plain_def)
  note l = held_level [OF t(3)] and h = held_height [OF t(3)]
  have P: "inside P T" "length P = l - 1" using path_inside [OF h, of ?sb ?cb ?H l "l - 1" ?cmp key] t(4) assms(3) by auto
  obtain p xs A B where s: "at P T = BLeaf p xs" "items_of T = A @ xs @ B" "l - 1 \<noteq> 0 \<longrightarrow> xs \<noteq> []"
    "\<forall>a \<in> set A. ?cmp (fst a) key < 0" "\<forall>b \<in> set B. ?cmp key (fst b) < 0" "\<forall>S. items_of (graft P T S) = A @ items_of S @ B"
    "\<forall>x \<in> set xs. path ?cmp (fst x) (l - 1) T = P"
    using key_order.leaf_of_key [OF ko h t(4,5) assms(2)] unfolding assms(3) by blast
  have "l - length P = 1" using P(2) l by simp
  then have "held ?sb ?cb ?H 1 (BLeaf p xs)" using at_held [OF t(3) P(1)] s(1) by simp
  then obtain n where n: "p \<noteq> 0" "?H p = Some n" "leaf_node ?sb ?cb n xs" "node_live n" by auto
  have irr: "\<not> ?cmp key key < 0" by (rule key_order.cmp_irrefl [OF ko assms(2)])
  have "map_of A key = None" "map_of B key = None" using s(4,5) irr by (auto simp: map_of_eq_None_iff)
  then have m: "map_of (items_of T) key = map_of xs key" using s(2) by (simp add: map_add_def split: option.split)
  have look: "\<forall>pl. \<exists>pl0. btree_lookup_level t (Some key) 1 pl = Some (p, leaf_place ?sb ?cb key xs pl0, t\<lparr>bt_nodes := bump ?H p\<rparr>)
      \<and> (map_of xs key = None \<longrightarrow> pl_size pl0 = pl_size pl)"
  proof
    fix pl
    obtain pl0 where "btree_lookup_level (t\<lparr>bt_nodes := ?H\<rparr>) (Some key) 1 pl
        = Some (addr (at P T), end_place ?sb ?cb key (at P T) pl0, t\<lparr>bt_nodes := bump ?H (addr (at P T))\<rparr>)"
      "key \<notin> set (seps T) \<longrightarrow> pl_size pl0 = pl_size pl"
      using level_search(1) [OF t(1) refl refl t(2,3) assms(2) _ , of 1 pl] l unfolding assms(3) by auto
    moreover have "key \<notin> set (seps T)" if "map_of xs key = None"
      using seps_items [OF t(4)] that m by (metis map_of_eq_None_iff subsetD)
    ultimately show "\<exists>pl0. btree_lookup_level t (Some key) 1 pl = Some (p, leaf_place ?sb ?cb key xs pl0, t\<lparr>bt_nodes := bump ?H p\<rparr>)
        \<and> (map_of xs key = None \<longrightarrow> pl_size pl0 = pl_size pl)"
      using s(1) by auto
  qed
  have l1: "l \<noteq> 1 \<longrightarrow> xs \<noteq> []" using s(3) l by auto
  show ?thesis by (rule exI [of _ p], rule exI [of _ xs], rule exI [of _ A], rule exI [of _ B], rule exI [of _ n]) (intro conjI; fact)
qed

text \<open>The items of the leaf replaced in the items of the tree.\<close>

lemma middle_items:
  assumes "ordered cmp w (A @ xs @ B)" "\<forall>a \<in> set A. cmp (fst a) key < 0" "\<forall>b \<in> set B. cmp key (fst b) < 0" "\<not> cmp key key < 0"
    and "ordered cmp w ys" "map_of ys = (map_of xs)(key := r)"
  shows "ordered cmp w (A @ ys @ B)" "map_of (A @ ys @ B) = (map_of (A @ xs @ B))(key := r)"
proof -
  have "fst ` set ys = dom (map_of ys)" "fst ` set xs = dom (map_of xs)" by (simp_all add: dom_map_of_conv_image_fst)
  then have "fst ` set ys \<subseteq> insert key (fst ` set xs)" using assms(6) by auto
  then have y: "fst y = key \<or> (\<exists>x \<in> set xs. fst y = fst x)" if "y \<in> set ys" for y using that by auto
  have o: "\<forall>a \<in> set A. \<forall>x \<in> set xs. cmp (fst a) (fst x) < 0" "\<forall>x \<in> set xs. \<forall>b \<in> set B. cmp (fst x) (fst b) < 0"
    "\<forall>a \<in> set A. \<forall>b \<in> set B. cmp (fst a) (fst b) < 0" "ordered cmp w A" "ordered cmp w B"
    using assms(1) by auto
  have "cmp (fst a) (fst y) < 0" if "a \<in> set A" "y \<in> set ys" for a y
    using y [OF that(2)] that(1) assms(2) o(1) by metis
  moreover have "cmp (fst y) (fst b) < 0" if "b \<in> set B" "y \<in> set ys" for b y
    using y [OF that(2)] that(1) assms(3) o(2) by metis
  ultimately show "ordered cmp w (A @ ys @ B)" using assms(5) o(3-5) by auto
  have "map_of A key = None" "map_of B key = None" using assms(2-4) by (auto simp: map_of_eq_None_iff)
  then show "map_of (A @ ys @ B) = (map_of (A @ xs @ B))(key := r)"
    using assms(6) by (auto simp: fun_eq_iff map_add_def split: option.split)
qed

lemma held_add_counts [simp]: "held (add_counts sb i s) cb H l T = held sb cb H l T" "plain (add_counts sb i s) cb = plain sb cb"
proof -
  have "twig_node (add_counts sb i s) = twig_node sb" by (intro ext) (simp add: twig_node_def add_counts_def)
  then show "held (add_counts sb i s) cb H l T = held sb cb H l T"
    by (induction T arbitrary: l) (simp_all add: same_shape_simps [OF add_counts_shape], simp add: add_counts_def)
  show "plain (add_counts sb i s) cb = plain sb cb" by (simp add: plain_def add_counts_def)
qed

end
