(* ===== verification/Btree_Ops.thy ===== *)
theory Btree_Ops
  imports Btree_Tree
begin

section \<open>The operations of btree.c on a tree in memory\<close>

text \<open>
  \<open>btree_lookup\<close>, \<open>btree_insert\<close> and \<open>btree_remove\<close> on a tree of any height whose nodes are in memory, as operations
  on the map of its items, as long as a leaf has room for what is inserted and keeps an item of what is removed.
\<close>

lemma buf_read_prefix: "buf_read d p n = Some v \<Longrightarrow> m \<le> n \<Longrightarrow> buf_read d p m = Some (take m v)"
  by (auto simp: buf_read_def min_def split: if_splits)

lemma release_to:
  assumes "bt_nodes t p = Some n" "node_live n"
  shows "btnode_release (t\<lparr>bt_nodes := bump (bt_nodes t) p\<rparr>) p = Some t"
  using release_bumped [where H = "bt_nodes t" and t = t, OF assms] by simp

lemma bump_self: "H p = Some n \<Longrightarrow> bump H p p = Some (n\<lparr>bn_refs := bn_refs n + 1\<rparr>)"
  by (simp add: bump_def)

lemma btree_lookup_tree:
  assumes "tree_holds t l T" "length key = unat (sb_key_size (bt_super t))"
    and "\<And>v. map_of (items_of T) key = Some v \<Longrightarrow> min (unat sz) (length v) \<le> length buffer"
  shows "btree_lookup t key buffer sz = Some (case map_of (items_of T) key of None \<Rightarrow> (0, buffer, t)
    | Some v \<Rightarrow> (min sz (of_nat (length v)), splice buffer 0 (take (unat sz) v), t))"
proof -
  let ?sb = "bt_super t" and ?cb = "bt_cb t"
  obtain p xs n where l: "p \<noteq> 0" "bt_nodes t p = Some n" "leaf_node ?sb ?cb n xs" "node_live n" "map_of (items_of T) key = map_of xs key"
    "\<forall>pl. \<exists>pl0. btree_lookup_level t (Some key) 1 pl = Some (p, leaf_place ?sb ?cb key xs pl0, t\<lparr>bt_nodes := bump (bt_nodes t) p\<rparr>)
      \<and> (map_of xs key = None \<longrightarrow> pl_size pl0 = pl_size pl)"
    using tree_leaf [OF assms(1,2) refl] by metis
  obtain pl0 where look: "btree_lookup_level t (Some key) 1 no_place = Some (p, leaf_place ?sb ?cb key xs pl0, t\<lparr>bt_nodes := bump (bt_nodes t) p\<rparr>)"
    using l(6) by blast
  note rel = release_to [OF l(2,4)]
  show ?thesis
  proof (cases "map_of xs key")
    case None
    then show ?thesis using look l(1,5) rel by (simp add: btree_lookup_def LEAF_NODE_LEVEL_def leaf_place_def Let_def)
  next
    case (Some v)
    let ?pl = "leaf_place ?sb ?cb key xs pl0"
    have ko: "key_order (cb_keycmp ?cb) (unat (sb_key_size ?sb))" using assms(1) by (simp add: tree_holds_def plain_def)
    obtain d where d: "bn_data n = Some d" using l(3) by (auto simp: leaf_node_def)
    note v = leaf_search_map(3) [OF ko l(3) assms(2) Some d, of pl0]
    have pl: "pl_found ?pl" "pl_size ?pl = of_nat (length v)" using Some by (simp_all add: leaf_place_def Let_def)
    have u: "unat (of_nat (length v) :: u32) = length v" using v by simp
    let ?x = "min sz (of_nat (length v))"
    have x: "unat ?x = min (unat sz) (length v)" using u by (simp add: min_def word_le_nat_alt)
    have "buf_read d (pl_value ?pl) (unat ?x) = Some (take (unat sz) v)"
      using buf_read_prefix [of d "pl_value ?pl" "length v" v "unat ?x"] v x by (simp add: min_def)
    moreover have "buf_write buffer 0 (take (unat sz) v) = Some (splice buffer 0 (take (unat sz) v))"
      using assms(3) [of v] Some l(5) by (simp add: buf_write_def min.commute)
    ultimately show ?thesis
      using look l(1,2,5) rel d pl Some by (simp add: btree_lookup_def LEAF_NODE_LEVEL_def node_at_def bump_self)
  qed
qed

subsection \<open>The keys above a leaf that changes\<close>

lemma leaf_root_search:
  assumes "bt_super t = sb" "bt_cb t = cb" "bt_root t = p" "p \<noteq> 0" "H p = Some n" "leaf_node sb cb n []" "node_live n"
  shows "\<exists>pl'. btree_lookup_level (t\<lparr>bt_nodes := H\<rparr>) key 2 pl = Some (0, pl', t\<lparr>bt_nodes := H\<rparr>)"
proof -
  obtain d where d: "bn_data n = Some d" "leaf_rep sb d []" using assms(6) by (auto simp: leaf_node_def)
  have root: "btree_fetch_root (t\<lparr>bt_nodes := H\<rparr>) = Some (p, t\<lparr>bt_nodes := bump H p\<rparr>)"
    by (rule fetch_root_loaded [where H = H, OF assms(3,4,5) d(1)])
  have ln: "leaf_node sb cb (n\<lparr>bn_refs := bn_refs n + 1\<rparr>) []" using assms(6) by simp
  have items: "nh_items d = Some 0" using leaf_rep_items(1) [OF d(2)] by simp
  have "\<exists>pl'. leaf_search sb cb (n\<lparr>bn_refs := bn_refs n + 1\<rparr>) key pl = Some pl'"
    using d(1) items by (simp add: leaf_search_def leaf_index_search_def index_search_def search_loop.simps)
  then obtain pl' where ls: "leaf_search sb cb (n\<lparr>bn_refs := bn_refs n + 1\<rparr>) key pl = Some pl'" by blast
  have rel: "btnode_release (t\<lparr>bt_nodes := bump H p\<rparr>) p = Some (t\<lparr>bt_nodes := H\<rparr>)" by (rule release_bumped [where H = H, OF assms(5,7)])
  have step: "lookup_loop (Suc f) (t\<lparr>bt_nodes := bump H p\<rparr>) key 2 p pl = Some (0, pl', t\<lparr>bt_nodes := H\<rparr>)" for f
    using assms(1,2,4) bump_self [where H = H, OF assms(5)] leaf_node_level [OF ln] ls rel by simp
  have fuel: "tree_fuel = Suc 256" by (simp add: tree_fuel_def)
  have "lookup_loop tree_fuel (t\<lparr>bt_nodes := bump H p\<rparr>) key 2 p pl = Some (0, pl', t\<lparr>bt_nodes := H\<rparr>)" unfolding fuel by (rule step)
  then show ?thesis using root by (simp add: btree_lookup_level_def)
qed

lemma twigs_above_leaf:
  assumes "tree_holds t l T" "length key = unat (sb_key_size (bt_super t))" "P = path (cb_keycmp (bt_cb t)) key (l - 1) T"
    and "at P T = BLeaf p xs" "\<forall>x \<in> set xs. path (cb_keycmp (bt_cb t)) (fst x) (l - 1) T = P"
    and "p \<noteq> 0" "bt_nodes t p = Some n" "leaf_node (bt_super t) (bt_cb t) n xs" "node_live n" "l \<noteq> 1 \<longrightarrow> xs \<noteq> [] \<and> ys \<noteq> []"
    and "ordered (cb_keycmp (bt_cb t)) (unat (sb_key_size (bt_super t))) (items_of (graft P T (BLeaf p ys)))"
    and "xs \<noteq> [] \<Longrightarrow> okey = Some (fst (last xs)) \<and> nkey = Some (fst (last ys)) \<and> length (fst (last ys)) = unat (sb_key_size (bt_super t))"
  shows "\<exists>H'. twigs_loop tree_fuel (t\<lparr>bt_nodes := bump (bt_nodes t) p\<rparr>) 1 okey nkey = Some (t\<lparr>bt_nodes := H'\<rparr>)
    \<and> held (bt_super t) (bt_cb t) H' l (reseps (fst (last xs)) (fst (last ys)) P T) \<and> H' p = Some (n\<lparr>bn_refs := bn_refs n + 1\<rparr>)
    \<and> tight (graft P (reseps (fst (last xs)) (fst (last ys)) P T) (BLeaf p ys))"
proof -
  let ?sb = "bt_super t" and ?cb = "bt_cb t" and ?H = "bt_nodes t" and ?cmp = "cb_keycmp (bt_cb t)" and ?K = "unat (sb_key_size (bt_super t))"
  let ?old = "fst (last xs)" and ?new = "fst (last ys)"
  have t: "plain ?sb ?cb" "bt_root t = addr T" "held ?sb ?cb ?H l T" "distinct (addrs T)" "tight T" "ordered ?cmp ?K (items_of T)"
    using assms(1) by (simp_all add: tree_holds_def)
  have ko: "key_order ?cmp ?K" using t(1) by (simp add: plain_def)
  note l = held_level [OF t(3)] and h = held_height [OF t(3)]
  have P: "inside P T" "length P = l - 1" using path_inside [OF h, of ?sb ?cb ?H l "l - 1" ?cmp key] t(5) assms(3) by auto
  have hb: "held ?sb ?cb (bump ?H p) l T" by (rule held_bump [OF t(3)])
  note bp = bump_self [where H = ?H, OF assms(7)]
  show ?thesis
  proof (cases "xs = []")
    case True
    then have l1: "l = 1" "P = []" using assms(10) P(2) by auto
    then have T: "T = BLeaf p []" using assms(4) True by simp
    have "\<exists>pl'. btree_lookup_level (t\<lparr>bt_nodes := bump ?H p\<rparr>) okey 2 no_place = Some (0, pl', t\<lparr>bt_nodes := bump ?H p\<rparr>)"
      using assms(6,8,9) bp t(2) T True by (intro leaf_root_search [where H = "bump ?H p" and p = p and n = "n\<lparr>bn_refs := bn_refs n + 1\<rparr>", OF refl refl]) (simp_all add: node_live_def)
    then have "twigs_loop tree_fuel (t\<lparr>bt_nodes := bump ?H p\<rparr>) 1 okey nkey = Some (t\<lparr>bt_nodes := bump ?H p\<rparr>)"
      by (auto simp: tree_fuel_def numeral_nat)
    then show ?thesis using hb bp l1 by (intro exI [of _ "bump ?H p"]) simp
  next
    case False
    note key = assms(12) [OF False]
    have old: "last xs \<in> set xs" "last xs \<in> set (items_of T)" using False items_at [OF P(1)] assms(4) by auto
    then have lens: "length ?old = ?K" "length ?new = ?K" using t(6) key by (auto simp: ordered_def)
    have P': "P = path ?cmp ?old (l - 1) T" using assms(5) old(1) by simp
    have tight: "tight (graft P (reseps ?old ?new P T) (BLeaf p ys))"
    proof (cases "l = 1")
      case True
      then show ?thesis using P(2) by simp
    next
      case False
      then show ?thesis
        using key_order.tight_plug [OF ko P(1) _ t(5,6) assms(4)] assms(10) h P(2) by simp
    qed
    have ins': "inside P (graft P (reseps ?old ?new P T) (BLeaf p ys))"
      using P(1) by (induction P T rule: inside.induct) simp_all
    have ord: "in_order ?cmp (resep ?old ?new (keys (at (take j P) T)))" if j: "j < l - 1" for j
    proof -
      let ?T' = "graft P (reseps ?old ?new P T) (BLeaf p ys)"
      have insj: "inside (take j P) ?T'" by (rule inside_take [OF ins'])
      have k: "keys (at (take j P) ?T') = resep ?old ?new (keys (at (take j P) T))"
        by (rule keys_reseps [OF P(1)]) (use j P(2) in simp)
      have oT': "ordered ?cmp ?K (items_of ?T')" using assms(11) reseps_shape(6) [OF P(1)] by simp
      have oj: "ordered ?cmp ?K (items_of (at (take j P) ?T'))" by (rule ordered_at [OF insj oT'])
      show ?thesis
      proof (cases "at (take j P) ?T'")
        case (BLeaf q zs)
        then show ?thesis using k by simp
      next
        case (BTwig q ks cs)
        then have "tight (BTwig q ks cs)" "ordered ?cmp ?K (items_of (BTwig q ks cs))" using tight_at [OF tight insj] oj by simp_all
        then have "in_order ?cmp ks" by (rule key_order.tight_in_order [OF ko])
        then show ?thesis using k BTwig by simp
      qed
    qed
    obtain H' where H': "twigs_loop tree_fuel (t\<lparr>bt_nodes := bump ?H p\<rparr>) 1 (Some ?old) (Some ?new) = Some (t\<lparr>bt_nodes := H'\<rparr>)"
      "held ?sb ?cb H' l (reseps ?old ?new P T)" "\<forall>q. (\<forall>j < l - 1. q \<noteq> addr (at (take j P) T)) \<longrightarrow> H' q = bump ?H p q"
      using twigs_loop_held [OF t(1) refl refl t(2) hb t(4) lens P'] ord by blast
    have "p \<noteq> addr (at (take j P) T)" if j: "j < l - 1" for j
    proof -
      have "inside (take j P) T" by (rule inside_take [OF P(1)])
      then have "held ?sb ?cb ?H (l - j) (at (take j P) T)" using at_held [OF t(3), of "take j P"] j P(2) by simp
      then have "\<exists>m. ?H (addr (at (take j P) T)) = Some m \<and> node_level m = Some (l - j)" using held_addr by blast
      moreover have "node_level n = Some 1" by (rule leaf_node_level(1) [OF assms(8)])
      moreover have "l - j \<noteq> 1" using j by simp
      ultimately show ?thesis using assms(7) by auto
    qed
    then have "H' p = Some (n\<lparr>bn_refs := bn_refs n + 1\<rparr>)" using H'(3) bp by simp
    then show ?thesis using H'(1,2) tight key by blast
  qed
qed

text \<open>The leaf of the path changed too, and the counters of the tree.\<close>

lemma leaf_put:
  assumes "tree_holds t l T" "P = path (cb_keycmp (bt_cb t)) key (l - 1) T" "at P T = BLeaf p xs"
    and "held (bt_super t) (bt_cb t) H' l (reseps old new P T)" "tight (graft P (reseps old new P T) (BLeaf p ys))"
    and "leaf_node (bt_super t) (bt_cb t) n' ys" "node_live n'"
    and "items_of (graft P T (BLeaf p ys)) = zs" "ordered (cb_keycmp (bt_cb t)) (unat (sb_key_size (bt_super t))) zs"
    and "of_nat (length zs) = sb_item_count (bt_super t) + i" "of_nat (total zs) = sb_stored_data (bt_super t) + s"
  shows "\<exists>T'. tree_holds (t\<lparr>bt_super := add_counts (bt_super t) i s, bt_nodes := H'(p \<mapsto> n')\<rparr>) l T' \<and> items_of T' = zs"
proof -
  let ?sb = "bt_super t" and ?cb = "bt_cb t" and ?T = "graft P (reseps old new P T) (BLeaf p ys)"
  have t: "plain ?sb ?cb" "bt_root t = addr T" "held ?sb ?cb (bt_nodes t) l T" "distinct (addrs T)" "tight T"
    using assms(1) by (simp_all add: tree_holds_def)
  have P: "inside P T" using path_inside [OF held_height [OF t(3)], of ?sb ?cb "bt_nodes t" l "l - 1" "cb_keycmp ?cb" key] t(5) assms(2) by auto
  note r = reseps_shape [OF P, of old new]
  have at: "at P (reseps old new P T) = BLeaf p xs" using r(5) assms(3) by simp
  have "held ?sb ?cb (H'(p \<mapsto> n')) l ?T"
    by (rule held_leaf [OF assms(4) r(4) at _ assms(6,7)]) (use t(4) r(2) in simp)
  moreover have "addr ?T = addr T" "addrs ?T = addrs T" using plug_shape [OF r(4) at] r(1,2) by simp_all
  moreover have "items_of ?T = zs" using r(6) assms(8) by simp
  moreover have "sb_key_size (add_counts ?sb i s) = sb_key_size ?sb" "sb_item_count (add_counts ?sb i s) = sb_item_count ?sb + i"
    "sb_stored_data (add_counts ?sb i s) = sb_stored_data ?sb + s" by (simp_all add: add_counts_def)
  ultimately have "tree_holds (t\<lparr>bt_super := add_counts ?sb i s, bt_nodes := H'(p \<mapsto> n')\<rparr>) l ?T"
    unfolding tree_holds_def using t(1,2,4) assms(5,9-11) by simp
  then show ?thesis using \<open>items_of ?T = zs\<close> by blast
qed

lemma leaf_key_nth:
  assumes "leaf_node sb cb n xs" "j < length xs"
  shows "leaf_key sb n (of_nat j) = Some (fst (xs ! j))"
proof -
  obtain d where d: "bn_data n = Some d" "leaf_rep sb d xs" using assms(1) by (auto simp: leaf_node_def)
  have "j * item_size sb \<le> length xs * item_size sb" using assms(2) by (intro mult_le_mono1) simp
  then have "NODE_HEAD_SIZE + j * item_size sb < 2 ^ 32" using leaf_rep_items(3,4) [OF d(2)] by linarith
  from leaf_key_at_nat(1) [OF this] show ?thesis using d(1) leaf_rep_reads(3) [OF d(2) assms(2)] by (simp add: leaf_key_def)
qed

lemma leaf_last_keys:
  assumes "leaf_node sb cb n xs"
  shows "xs \<noteq> [] \<Longrightarrow> node_last_key sb n = Some (fst (last xs))"
    "2 \<le> length xs \<Longrightarrow> node_last_prev_key sb n = Some (fst (last (butlast xs)))"
proof -
  note l = leaf_node_level [OF assms]
  show "node_last_key sb n = Some (fst (last xs))" if "xs \<noteq> []"
    using l leaf_key_nth [OF assms, of "length xs - 1"] that by (simp add: node_last_key_def last_conv_nth of_nat_diff Suc_leI)
  show "node_last_prev_key sb n = Some (fst (last (butlast xs)))" if "2 \<le> length xs"
  proof -
    have "butlast xs \<noteq> []" using that by (cases xs rule: rev_cases) auto
    then have "last (butlast xs) = xs ! (length xs - 2)" using that by (simp add: last_conv_nth nth_butlast numeral_2_eq_2)
    then show ?thesis using l leaf_key_nth [OF assms, of "length xs - 2"] that by (simp add: node_last_prev_key_def of_nat_diff)
  qed
qed

lemma put_item_last:
  assumes "key_order (cb_keycmp cb) (unat (sb_key_size sb))" "leaf_node sb cb n xs" "length key = unat (sb_key_size sb)" "map_of xs key = None"
  shows "put_item cb key v xs \<noteq> []" "length (put_item cb key v xs) = Suc (length xs)" "total (put_item cb key v xs) = length v + total xs"
    "fst (last (put_item cb key v xs)) = (if length (below (cb_keycmp cb) key xs) = length xs then key else fst (last xs))"
proof -
  let ?b = "below (cb_keycmp cb) key xs" and ?f = "from_key (cb_keycmp cb) key xs"
  have p: "put_item cb key v xs = ?b @ (key, v) # ?f" using assms(4) by (simp add: put_item_def)
  have x: "length xs = length ?b + length ?f" "total xs = total ?b + total ?f"
    by (metis below_from_key length_append, metis below_from_key total_simps(3))
  show "put_item cb key v xs \<noteq> []" "length (put_item cb key v xs) = Suc (length xs)" "total (put_item cb key v xs) = length v + total xs"
    unfolding p using x by simp_all
  show "fst (last (put_item cb key v xs)) = (if length ?b = length xs then key else fst (last xs))"
  proof (cases "?f = []")
    case True
    then show ?thesis unfolding p using x by simp
  next
    case False
    moreover have "last xs = last ?f" using False below_from_key [of "cb_keycmp cb" key xs] by (metis last_appendR)
    ultimately show ?thesis unfolding p using x by simp
  qed
qed

lemma leaf_node_ordered: "leaf_node sb cb n xs \<Longrightarrow> ordered (cb_keycmp cb) (unat (sb_key_size sb)) xs"
  by (auto simp: leaf_node_def ordered_def dest: leaf_rep_sized)

lemma of_nat_eq_by_unat:
  "unat (of_nat i :: u32) = i \<Longrightarrow> unat (of_nat j :: u32) = j \<Longrightarrow> (of_nat i :: u32) = of_nat j \<longleftrightarrow> i = j"
  by metis

lemma ucast_u32_u64: "(ucast (w :: u32) :: u64) = of_nat (unat w)"
  by (simp add: unsigned_of_nat)

lemma below_length: "length (below cmp key xs) \<le> length xs"
  by (simp add: below_def length_takeWhile_le)

lemma index_eq:
  assumes "leaf_node sb cb n xs" "i \<le> length xs"
  shows "unat (of_nat i :: u32) = i" "(of_nat i :: u32) = of_nat (length xs) \<longleftrightarrow> i = length xs"
proof -
  have l: "length xs < 2 ^ 32" using leaf_node_level(5) [OF assms(1)] by simp
  then show i: "unat (of_nat i :: u32) = i" using assms(2) by (intro unat_of_nat_u32) (rule order_le_less_trans)
  show "(of_nat i :: u32) = of_nat (length xs) \<longleftrightarrow> i = length xs" by (rule of_nat_eq_by_unat [OF i unat_of_nat_u32 [OF l]])
qed

subsection \<open>The leaf of a key\<close>

text \<open>The items of the leaf of a key, and where the leaf is in the tree.\<close>

definition leaf_items :: "'d btree \<Rightarrow> nat \<Rightarrow> shape \<Rightarrow> u8 list \<Rightarrow> leaf_item list" where
  "leaf_items t l T key = items_of (at (path (cb_keycmp (bt_cb t)) key (l - 1) T) T)"

definition leaf_found :: "'d btree \<Rightarrow> nat \<Rightarrow> shape \<Rightarrow> u8 list \<Rightarrow> nat \<Rightarrow> leaf_item list \<Rightarrow> bnode \<Rightarrow> bool" where
  "leaf_found t l T key p xs n \<longleftrightarrow> tree_holds t l T \<and> length key = unat (sb_key_size (bt_super t)) \<and> p \<noteq> 0 \<and> bt_nodes t p = Some n
     \<and> at (path (cb_keycmp (bt_cb t)) key (l - 1) T) T = BLeaf p xs
     \<and> leaf_node (bt_super t) (bt_cb t) n xs \<and> node_live n \<and> map_of (items_of T) key = map_of xs key \<and> (l \<noteq> 1 \<longrightarrow> xs \<noteq> [])"

lemma leaf_found_simps:
  assumes "leaf_found t l T key p xs n"
  shows "tree_holds t l T" "length key = unat (sb_key_size (bt_super t))" "p \<noteq> 0" "bt_nodes t p = Some n"
    "at (path (cb_keycmp (bt_cb t)) key (l - 1) T) T = BLeaf p xs"
    "leaf_node (bt_super t) (bt_cb t) n xs" "node_live n" "map_of (items_of T) key = map_of xs key" "l \<noteq> 1 \<longrightarrow> xs \<noteq> []"
    "key_order (cb_keycmp (bt_cb t)) (unat (sb_key_size (bt_super t)))" "leaf_items t l T key = xs" "bt_root t \<noteq> 0"
    "leaf_node (bt_super t) (bt_cb t) (n\<lparr>bn_refs := bn_refs n + 1\<rparr>) xs" "bump (bt_nodes t) p p = Some (n\<lparr>bn_refs := bn_refs n + 1\<rparr>)"
proof -
  show "tree_holds t l T" "length key = unat (sb_key_size (bt_super t))" "p \<noteq> 0" "bt_nodes t p = Some n"
    "at (path (cb_keycmp (bt_cb t)) key (l - 1) T) T = BLeaf p xs"
    "leaf_node (bt_super t) (bt_cb t) n xs" "node_live n" "map_of (items_of T) key = map_of xs key" "l \<noteq> 1 \<longrightarrow> xs \<noteq> []"
    using assms by (simp_all add: leaf_found_def)
  then show "key_order (cb_keycmp (bt_cb t)) (unat (sb_key_size (bt_super t)))" "leaf_items t l T key = xs" "bt_root t \<noteq> 0"
    "leaf_node (bt_super t) (bt_cb t) (n\<lparr>bn_refs := bn_refs n + 1\<rparr>) xs" "bump (bt_nodes t) p p = Some (n\<lparr>bn_refs := bn_refs n + 1\<rparr>)"
    using held_addr by (auto simp: tree_holds_def plain_def leaf_items_def bump_def)
qed

lemma find_leaf:
  assumes "tree_holds t l T" "length key = unat (sb_key_size (bt_super t))"
  shows "\<exists>p xs n pl0. leaf_found t l T key p xs n \<and> (map_of xs key = None \<longrightarrow> pl_size pl0 = pl_size pl)
    \<and> btree_lookup_level t (Some key) 1 pl = Some (p, leaf_place (bt_super t) (bt_cb t) key xs pl0, t\<lparr>bt_nodes := bump (bt_nodes t) p\<rparr>)"
  using tree_leaf [OF assms refl] assms unfolding leaf_found_def by metis

text \<open>What an operation on a tree of one leaf changes: the counts and the block of the leaf.\<close>

definition stays :: "'d btree \<Rightarrow> 'd btree \<Rightarrow> bool" where
  "stays t t' \<longleftrightarrow> (\<exists>i s H n d. t' = t\<lparr>bt_super := add_counts (bt_super t) i s, bt_nodes := H\<rparr>
     \<and> bt_nodes t (bt_root t) = Some n \<and> H (bt_root t) = Some (node_set_dirty (n\<lparr>bn_data := Some d\<rparr>)))"

lemma stays_leaf:
  assumes "leaf_found t 1 T key p xs n"
  shows "stays t (t\<lparr>bt_super := add_counts (bt_super t) i s, bt_nodes := H(p \<mapsto> node_set_dirty (n\<lparr>bn_data := Some d\<rparr>))\<rparr>)"
proof -
  have "bt_root t = p" "bt_nodes t p = Some n" using assms by (auto simp: leaf_found_def tree_holds_def)
  then show ?thesis unfolding stays_def by fastforce
qed

text \<open>The items of a leaf exchanged: the items of the tree, the keys above, and the tree.\<close>

lemma exchange_items:
  assumes "leaf_found t l T key p xs n" "leaf_node (bt_super t) (bt_cb t) n' ys" "map_of ys = (map_of xs)(key := r)"
  shows "\<exists>A B. items_of T = A @ xs @ B \<and> items_of (graft (path (cb_keycmp (bt_cb t)) key (l - 1) T) T (BLeaf p ys)) = A @ ys @ B
    \<and> ordered (cb_keycmp (bt_cb t)) (unat (sb_key_size (bt_super t))) (A @ ys @ B) \<and> map_of (A @ ys @ B) = (map_of (items_of T))(key := r)"
proof -
  let ?cmp = "cb_keycmp (bt_cb t)" and ?K = "unat (sb_key_size (bt_super t))"
  note f = leaf_found_simps [OF assms(1)]
  obtain A B where s: "items_of T = A @ xs @ B" "\<forall>a \<in> set A. ?cmp (fst a) key < 0" "\<forall>b \<in> set B. ?cmp key (fst b) < 0"
    "\<forall>S. items_of (graft (path ?cmp key (l - 1) T) T S) = A @ items_of S @ B"
    using tree_leaf [OF f(1,2) refl] f(5) by (metis shape.inject(1))
  have o: "ordered ?cmp ?K (A @ xs @ B)" using f(1) s(1) by (simp add: tree_holds_def)
  have irr: "\<not> ?cmp key key < 0" by (rule key_order.cmp_irrefl [OF f(10,2)])
  note mid = middle_items [OF o s(2,3) irr leaf_node_ordered [OF assms(2)] assms(3)]
  then show ?thesis using s(1,4) by (intro exI [of _ A] exI [of _ B]) simp
qed

lemma leaf_exchange:
  assumes "leaf_found t l T key p xs n" "leaf_node (bt_super t) (bt_cb t) n' ys" "node_live n'"
    and "map_of ys = (map_of xs)(key := r)" "l \<noteq> 1 \<longrightarrow> ys \<noteq> []"
    and "of_nat (length ys) = of_nat (length xs) + i" "of_nat (total ys) = of_nat (total xs) + s"
    and "held (bt_super t) (bt_cb t) H' l (reseps (fst (last xs)) (fst (last ys)) (path (cb_keycmp (bt_cb t)) key (l - 1) T) T)"
  shows "\<exists>T'. tree_holds (t\<lparr>bt_super := add_counts (bt_super t) i s, bt_nodes := H'(p \<mapsto> n')\<rparr>) l T'
    \<and> map_of (items_of T') = (map_of (items_of T))(key := r)"
proof -
  let ?sb = "bt_super t" and ?cb = "bt_cb t" and ?cmp = "cb_keycmp (bt_cb t)" and ?K = "unat (sb_key_size (bt_super t))"
  let ?P = "path ?cmp key (l - 1) T"
  note f = leaf_found_simps [OF assms(1)]
  have t: "held ?sb ?cb (bt_nodes t) l T" "tight T" "ordered ?cmp ?K (items_of T)"
    "sb_item_count ?sb = of_nat (length (items_of T))" "sb_stored_data ?sb = of_nat (total (items_of T))"
    using f(1) by (simp_all add: tree_holds_def)
  obtain A B where s: "items_of T = A @ xs @ B" "items_of (graft ?P T (BLeaf p ys)) = A @ ys @ B"
    "ordered ?cmp ?K (A @ ys @ B)" "map_of (A @ ys @ B) = (map_of (items_of T))(key := r)"
    using exchange_items [OF assms(1,2,4)] by blast
  have P: "inside ?P T" "length ?P = l - 1" using path_inside [OF held_height [OF t(1)], of ?sb ?cb "bt_nodes t" l "l - 1" ?cmp key] t(2) by auto
  have tight: "tight (graft ?P (reseps (fst (last xs)) (fst (last ys)) ?P T) (BLeaf p ys))"
  proof (cases "l = 1")
    case False
    then show ?thesis
      using key_order.tight_plug [OF f(10) P(1) _ t(2,3) f(5)] f(9) assms(5) held_height [OF t(1)] P(2) by simp
  qed simp
  have cnt: "of_nat (length (A @ ys @ B)) = sb_item_count ?sb + i" "of_nat (total (A @ ys @ B)) = sb_stored_data ?sb + s"
    unfolding t(4,5) s(1) using assms(6,7) by simp_all
  show ?thesis using leaf_put [OF f(1) refl f(5) assms(8) tight assms(2,3) s(2,3) cnt] s(4) by metis
qed

lemma leaf_exchange_twigs:
  assumes "leaf_found t l T key p xs n" "leaf_node (bt_super t) (bt_cb t) n' ys" "node_live n'"
    and "map_of ys = (map_of xs)(key := r)" "ys \<noteq> []"
    and "of_nat (length ys) = of_nat (length xs) + i" "of_nat (total ys) = of_nat (total xs) + s"
    and "xs \<noteq> [] \<Longrightarrow> okey = Some (fst (last xs)) \<and> nkey = Some (fst (last ys))"
  shows "\<exists>H' T'. twigs_loop tree_fuel (t\<lparr>bt_nodes := bump (bt_nodes t) p\<rparr>) 1 okey nkey = Some (t\<lparr>bt_nodes := H'\<rparr>)
    \<and> H' p = Some (n\<lparr>bn_refs := bn_refs n + 1\<rparr>)
    \<and> tree_holds (t\<lparr>bt_super := add_counts (bt_super t) i s, bt_nodes := H'(p \<mapsto> n')\<rparr>) l T'
    \<and> map_of (items_of T') = (map_of (items_of T))(key := r)"
proof -
  let ?sb = "bt_super t" and ?cb = "bt_cb t" and ?cmp = "cb_keycmp (bt_cb t)" and ?K = "unat (sb_key_size (bt_super t))"
  let ?P = "path ?cmp key (l - 1) T"
  note f = leaf_found_simps [OF assms(1)]
  have same: "\<forall>x \<in> set xs. path ?cmp (fst x) (l - 1) T = ?P"
    using tree_leaf [OF f(1,2) refl] f(5) by (metis shape.inject(1))
  have ord: "ordered ?cmp ?K (items_of (graft ?P T (BLeaf p ys)))" using exchange_items [OF assms(1,2,4)] by force
  have last: "length (fst (last ys)) = ?K" using leaf_node_ordered [OF assms(2)] last_in_set [OF assms(5)] by (simp add: ordered_def)
  have c1: "l \<noteq> 1 \<longrightarrow> xs \<noteq> [] \<and> ys \<noteq> []" using f(9) assms(5) by blast
  have c3: "okey = Some (fst (last xs)) \<and> nkey = Some (fst (last ys)) \<and> length (fst (last ys)) = ?K" if "xs \<noteq> []"
    using assms(8) [OF that] last by blast
  obtain H' where tw: "twigs_loop tree_fuel (t\<lparr>bt_nodes := bump (bt_nodes t) p\<rparr>) 1 okey nkey = Some (t\<lparr>bt_nodes := H'\<rparr>)"
    "held ?sb ?cb H' l (reseps (fst (last xs)) (fst (last ys)) ?P T)" "H' p = Some (n\<lparr>bn_refs := bn_refs n + 1\<rparr>)"
    using twigs_above_leaf [OF f(1,2) refl f(5) same f(3,4,6,7) c1 ord c3] by blast
  show ?thesis using leaf_exchange [OF assms(1-4) _ assms(6,7) tw(2)] assms(5) tw(1,3) by blast
qed

lemma reseps_same: "inside is T \<Longrightarrow> reseps k k is T = T"
proof (induction "is" T rule: inside.induct)
  case (3 i "is" p ks cs)
  moreover have "resep k k ks = ks" unfolding resep_def by (intro map_idI) simp
  ultimately show ?case by simp
qed simp_all

lemma leaf_exchange_last:
  assumes "leaf_found t l T key p xs n" "leaf_node (bt_super t) (bt_cb t) n' ys" "node_live n'"
    and "map_of ys = (map_of xs)(key := r)" "l = 1 \<or> ys \<noteq> [] \<and> fst (last ys) = fst (last xs)"
    and "of_nat (length ys) = of_nat (length xs) + i" "of_nat (total ys) = of_nat (total xs) + s"
  shows "\<exists>T'. tree_holds (t\<lparr>bt_super := add_counts (bt_super t) i s, bt_nodes := (bt_nodes t)(p \<mapsto> n')\<rparr>) l T'
    \<and> map_of (items_of T') = (map_of (items_of T))(key := r)"
proof -
  let ?cmp = "cb_keycmp (bt_cb t)"
  note f = leaf_found_simps [OF assms(1)]
  have t: "held (bt_super t) (bt_cb t) (bt_nodes t) l T" using f(1) by (simp add: tree_holds_def)
  have P: "inside (path ?cmp key (l - 1) T) T"
    using path_inside [OF held_height [OF t], of "bt_super t" "bt_cb t" "bt_nodes t" l "l - 1" ?cmp key] t by auto
  have "reseps (fst (last xs)) (fst (last ys)) (path ?cmp key (l - 1) T) T = T"
    using assms(5) reseps_same [OF P] by auto
  then show ?thesis using leaf_exchange [OF assms(1-4) _ assms(6,7), of "bt_nodes t"] assms(5) t by auto
qed

text \<open>What is stored in the node that was held, and its release.\<close>

lemma store_release:
  assumes "node_live n"
  shows "btnode_release (t\<lparr>bt_nodes := H'(p \<mapsto> node_set_dirty (n\<lparr>bn_refs := bn_refs n + 1, bn_data := Some d\<rparr>))\<rparr>) p
      = Some (t\<lparr>bt_nodes := H'(p \<mapsto> node_set_dirty (n\<lparr>bn_data := Some d\<rparr>))\<rparr>)"
    "node_live (node_set_dirty (n\<lparr>bn_data := Some d\<rparr>))"
    "leaf_node sb cb (node_set_dirty (n\<lparr>bn_refs := bn_refs n + 1, bn_data := Some d\<rparr>)) ys = leaf_node sb cb (node_set_dirty (n\<lparr>bn_data := Some d\<rparr>)) ys"
proof -
  let ?n = "node_set_dirty (n\<lparr>bn_data := Some d\<rparr>)" and ?H = "H'(p \<mapsto> node_set_dirty (n\<lparr>bn_data := Some d\<rparr>))"
  have eq: "node_set_dirty (n\<lparr>bn_refs := bn_refs n + 1, bn_data := Some d\<rparr>) = ?n\<lparr>bn_refs := bn_refs ?n + 1\<rparr>"
    by (simp add: node_set_dirty_def)
  show use: "node_live ?n" using assms by (simp add: node_live_def set_to_update_simps)
  have "H'(p \<mapsto> node_set_dirty (n\<lparr>bn_refs := bn_refs n + 1, bn_data := Some d\<rparr>)) = bump ?H p" unfolding eq by (simp add: bump_def)
  then show "btnode_release (t\<lparr>bt_nodes := H'(p \<mapsto> node_set_dirty (n\<lparr>bn_refs := bn_refs n + 1, bn_data := Some d\<rparr>))\<rparr>) p = Some (t\<lparr>bt_nodes := ?H\<rparr>)"
    using release_bumped [where H = ?H and p = p and t = t] use by simp
  show "leaf_node sb cb (node_set_dirty (n\<lparr>bn_refs := bn_refs n + 1, bn_data := Some d\<rparr>)) ys = leaf_node sb cb ?n ys"
    unfolding eq by simp
qed

subsection \<open>Insertion\<close>

lemma btree_insert_new_stays:
  assumes "tree_holds t l T" "length key = unat (sb_key_size (bt_super t))" "map_of (items_of T) key = None" "unat sz \<le> length value" "junk \<noteq> sz"
    and "leaf_used (bt_super t) (leaf_items t l T key) + item_size (bt_super t) + unat sz \<le> unat (sb_block_size (bt_super t))"
  shows "\<exists>t' T'. btree_insert junk t key value sz = Some (0, t') \<and> tree_holds t' l T'
    \<and> map_of (items_of T') = (map_of (items_of T))(key \<mapsto> take (unat sz) value) \<and> (l = 1 \<longrightarrow> stays t t')"
proof -
  let ?sb = "bt_super t" and ?cb = "bt_cb t" and ?H = "bt_nodes t" and ?cmp = "cb_keycmp (bt_cb t)"
  obtain p xs n pl0 where lf: "leaf_found t l T key p xs n" and pl0: "map_of xs key = None \<longrightarrow> pl_size pl0 = junk"
    and look: "btree_lookup_level t (Some key) 1 (no_place\<lparr>pl_size := junk\<rparr>) = Some (p, leaf_place ?sb ?cb key xs pl0, t\<lparr>bt_nodes := bump ?H p\<rparr>)"
    using find_leaf [OF assms(1,2), of "no_place\<lparr>pl_size := junk\<rparr>"] by auto
  note f = leaf_found_simps [OF lf]
  have new: "map_of xs key = None" using f(8) assms(3) by simp
  let ?i = "length (below ?cmp key xs)" and ?v = "take (unat sz) value" and ?n = "n\<lparr>bn_refs := bn_refs n + 1\<rparr>"
  let ?ys = "put_item ?cb key ?v xs" and ?t1 = "t\<lparr>bt_nodes := bump ?H p\<rparr>"
  note put = put_item_last [OF f(10,6,2) new, of ?v] and lv = leaf_node_level [OF f(13)] and bp = f(14)
  have pl: "leaf_place ?sb ?cb key xs pl0 = pl0\<lparr>pl_index := of_nat ?i, pl_found := False\<rparr>" using new by (simp add: leaf_place_def Let_def)
  obtain d where ins: "leaf_insert ?sb ?n (of_nat ?i) key value sz = Some (add_counts ?sb 1 (ucast sz), node_set_dirty (?n\<lparr>bn_data := Some d\<rparr>))"
    "leaf_node ?sb ?cb (node_set_dirty (?n\<lparr>bn_data := Some d\<rparr>)) ?ys"
    using leaf_insert_map [OF f(10,13,2) new assms(4)] assms(6) f(11) by (metis same_shape_simps(3) [OF add_counts_shape])
  define nkey where "nkey = (if (of_nat ?i :: u32) = of_nat (length xs) then Some key else last_key_of ?t1 p)"
  have last: "last_key_of ?t1 p = Some (fst (last xs))" if "xs \<noteq> []"
    using leaf_last_keys(1) [OF f(13) that] bp by (simp add: last_key_of_def node_at_def)
  have okey: "last_key_of ?t1 p = Some (fst (last xs)) \<and> nkey = Some (fst (last ?ys))" if "xs \<noteq> []"
    unfolding nkey_def index_eq(2) [OF f(6) below_length] put(4) using last [OF that] by simp
  have len: "length ?v = unat sz" using assms(4) by simp
  have cnt: "of_nat (length ?ys) = of_nat (length xs) + (1 :: u64)" "of_nat (total ?ys) = of_nat (total xs) + (ucast sz :: u64)"
    unfolding ucast_u32_u64 put(2,3) len by simp_all
  let ?n' = "node_set_dirty (n\<lparr>bn_data := Some d\<rparr>)"
  have n': "leaf_node ?sb ?cb ?n' ?ys" "node_live ?n'" using ins(2) store_release(2,3) [OF f(7)] by simp_all
  obtain H' T' where tw: "twigs_loop tree_fuel ?t1 1 (last_key_of ?t1 p) nkey = Some (t\<lparr>bt_nodes := H'\<rparr>)" "H' p = Some ?n"
    and fin: "tree_holds (t\<lparr>bt_super := add_counts ?sb 1 (ucast sz), bt_nodes := H'(p \<mapsto> ?n')\<rparr>) l T'"
      "map_of (items_of T') = (map_of (items_of T))(key := Some ?v)"
    using leaf_exchange_twigs [OF lf n' put_item_map [OF f(10,6,2)] put(1) cnt okey] by blast
  have upd: "btree_twigs_insert_update ?t1 p (of_nat ?i) (Some key) = Some (t\<lparr>bt_nodes := H'\<rparr>)"
    using tw(1) bp lv(1,4) by (simp add: btree_twigs_insert_update_def btree_twigs_update_def node_at_def nkey_def)
  let ?t2 = "t\<lparr>bt_super := add_counts ?sb 1 (ucast sz)\<rparr>"
  have li: "leaf_insert_at (t\<lparr>bt_nodes := H'\<rparr>) p (of_nat ?i) key value sz = Some (?t2\<lparr>bt_nodes := H'(p \<mapsto> node_set_dirty (?n\<lparr>bn_data := Some d\<rparr>))\<rparr>)"
    using tw(2) ins(1) by (simp add: leaf_insert_at_def)
  note rel = store_release(1) [OF f(7), where t = ?t2 and H' = H' and p = p and d = d]
  have fits: "item_size ?sb + unat sz < 2 ^ 32" "item_size ?sb + unat sz \<le> unat (sb_block_size ?sb) - leaf_used ?sb xs"
    using assms(6) f(11) unsigned_less [where 'a = nat, of "sb_block_size ?sb"] by simp_all
  then have need: "item_needed_size ?sb sz \<le> of_nat (unat (sb_block_size ?sb) - leaf_used ?sb xs)"
    using lv(8) unat_of_nat_u32 [of "item_size ?sb + unat sz"] by (simp only: word_le_nat_alt item_needed_size_def item_size_def)
  have "btree_insert junk t key value sz = Some (0, ?t2\<lparr>bt_nodes := H'(p \<mapsto> ?n')\<rparr>)"
    unfolding btree_insert_def LEAF_NODE_LEVEL_def
    using look f(3,12) bp lv(4,6) need upd li rel assms(5) pl0 new unfolding pl by simp
  moreover have "l = 1 \<longrightarrow> stays t (?t2\<lparr>bt_nodes := H'(p \<mapsto> ?n')\<rparr>)"
    using stays_leaf [where H = H' and i = 1 and s = "ucast sz" and d = d and t = t and p = p and n = n and T = T and xs = xs and key = key] lf by auto
  ultimately show ?thesis using fin by auto
qed

lemma btree_insert_new:
  assumes "tree_holds t l T" "length key = unat (sb_key_size (bt_super t))" "map_of (items_of T) key = None" "unat sz \<le> length value" "junk \<noteq> sz"
    and "leaf_used (bt_super t) (leaf_items t l T key) + item_size (bt_super t) + unat sz \<le> unat (sb_block_size (bt_super t))"
  shows "\<exists>t' T'. btree_insert junk t key value sz = Some (0, t') \<and> tree_holds t' l T'
    \<and> map_of (items_of T') = (map_of (items_of T))(key \<mapsto> take (unat sz) value)"
  using btree_insert_new_stays [OF assms] by blast

text \<open>
  A value of the size that the place holds takes the place of a value in the leaf. This is the value of the key when
  it is there. When it is not, the size in the place is what was on the stack: if that is the size of the new value,
  the value of the next key is replaced.
\<close>

lemma leaf_found_member:
  assumes "leaf_found t l T key p xs n" "(k, v) \<in> set xs"
  shows "leaf_found t l T k p xs n"
proof -
  let ?cmp = "cb_keycmp (bt_cb t)"
  note f = leaf_found_simps [OF assms(1)]
  have same: "path ?cmp k (l - 1) T = path ?cmp key (l - 1) T"
    using tree_leaf [OF f(1,2) refl] f(5) assms(2) by (metis shape.inject(1) fst_conv)
  have k: "length k = unat (sb_key_size (bt_super t))"
    using leaf_node_ordered [OF f(6)] assms(2) by (auto simp: ordered_def)
  obtain xs' where "at (path ?cmp k (l - 1) T) T = BLeaf p xs'" "map_of (items_of T) k = map_of xs' k"
    using tree_leaf [OF f(1) k refl] f(5) same by (metis shape.inject(1))
  then show ?thesis using f k same by (auto simp: leaf_found_def)
qed

lemma below_member:
  assumes "leaf_found t l T key p xs n" "from_key (cb_keycmp (bt_cb t)) key xs = (k, v) # zs"
  shows "below (cb_keycmp (bt_cb t)) k xs = below (cb_keycmp (bt_cb t)) key xs" "map_of xs k = Some v"
proof -
  let ?cmp = "cb_keycmp (bt_cb t)" and ?K = "unat (sb_key_size (bt_super t))"
  note f = leaf_found_simps [OF assms(1)]
  have xs: "xs = below ?cmp key xs @ (k, v) # zs" using below_from_key [of ?cmp key xs] assms(2) by simp
  have ord: "in_order ?cmp (map fst xs)" "\<forall>x \<in> set xs. length (fst x) = ?K"
    using leaf_node_ordered [OF f(6)] by (auto simp: ordered_def)
  have o: "\<forall>u \<in> set (below ?cmp key xs). ?cmp (fst u) k < 0" "\<forall>z \<in> set zs. ?cmp k (fst z) < 0"
    using ord(1) by (subst (asm) xs, simp)+
  have l: "length k = ?K" "\<forall>z \<in> set zs. length (fst z) = ?K" using ord(2) by (subst (asm) xs, simp)+
  have "\<forall>z \<in> set ((k, v) # zs). 0 \<le> ?cmp (fst z) k"
  proof
    fix z assume "z \<in> set ((k, v) # zs)"
    then consider "fst z = k" | "z \<in> set zs" by auto
    then show "0 \<le> ?cmp (fst z) k"
    proof cases
      case 1
      then show ?thesis using key_order.cmp_eq [OF f(10) l(1) l(1)] by simp
    next
      case 2
      then have "0 < ?cmp (fst z) k" using o(2) l(2) key_order.cmp_flip [OF f(10) l(1), of "fst z"] by blast
      then show ?thesis by simp
    qed
  qed
  from key_order.below_eq [OF f(10) xs o(1) this]
  have b: "below ?cmp k xs = below ?cmp key xs" "from_key ?cmp k xs = (k, v) # zs" by blast+
  then show "below ?cmp k xs = below ?cmp key xs" by blast
  have "k \<in> fst ` set xs" by (subst xs) simp
  then obtain w where w: "map_of xs k = Some w" using key_order.key_in_map [OF f(10), of k xs] by auto
  obtain zs' where "from_key ?cmp k xs = (k, w) # zs'" using found_at [OF f(10,6) l(1) w] by blast
  then show "map_of xs k = Some v" using b(2) w by simp
qed

lemma btree_insert_in_place:
  assumes lf: "leaf_found t l T key p xs n" and z: "from_key (cb_keycmp (bt_cb t)) key xs = (k, v) # zs"
    and look: "btree_lookup_level t (Some key) 1 (no_place\<lparr>pl_size := junk\<rparr>) = Some (p, pl, t\<lparr>bt_nodes := bump (bt_nodes t) p\<rparr>)"
    and pl: "pl_index pl = of_nat (length (below (cb_keycmp (bt_cb t)) key xs))" "pl_size pl = sz"
    and sz: "length v = unat sz" "unat sz \<le> length value"
  shows "\<exists>t' T'. btree_insert junk t key value sz = Some (0, t') \<and> tree_holds t' l T'
    \<and> map_of (items_of T') = (map_of (items_of T))(k \<mapsto> take (unat sz) value) \<and> (l = 1 \<longrightarrow> stays t t')"
proof -
  let ?sb = "bt_super t" and ?cb = "bt_cb t" and ?H = "bt_nodes t" and ?cmp = "cb_keycmp (bt_cb t)"
  have "(k, v) \<in> set xs" using z below_from_key [of ?cmp key xs] by (metis in_set_conv_decomp)
  then have lk: "leaf_found t l T k p xs n" by (rule leaf_found_member [OF lf])
  note f = leaf_found_simps [OF lk] and b = below_member [OF lf z]
  let ?i = "length (below ?cmp k xs)" and ?v = "take (unat sz) value" and ?n = "n\<lparr>bn_refs := bn_refs n + 1\<rparr>"
  let ?ys = "put_item ?cb k ?v xs"
  obtain zs where z: "from_key ?cmp k xs = (k, v) # zs" "xs = below ?cmp k xs @ (k, v) # zs"
    using found_at [OF f(10,6,2) b(2)] by blast
  have ys: "?ys = below ?cmp k xs @ (k, ?v) # zs" using z(1) b(2) by (simp add: put_item_def)
  have len: "length ?v = length v" using sz by simp
  have l: "length ?ys = length xs" "total ?ys = total xs"
    unfolding ys using arg_cong [OF z(2), of length] arg_cong [OF z(2), of total] len by simp_all
  have "last xs = last ((k, v) # zs)" by (subst z(2)) simp
  then have last: "?ys \<noteq> [] \<and> fst (last ?ys) = fst (last xs)" unfolding ys by simp
  obtain d where rep: "leaf_inline_replace ?sb ?n (of_nat ?i) value sz = Some (node_set_dirty (?n\<lparr>bn_data := Some d\<rparr>))"
    "leaf_node ?sb ?cb (node_set_dirty (?n\<lparr>bn_data := Some d\<rparr>)) ?ys"
    using leaf_replace_map [OF f(10,13,2) b(2) sz] by blast
  let ?n' = "node_set_dirty (n\<lparr>bn_data := Some d\<rparr>)"
  have n': "leaf_node ?sb ?cb ?n' ?ys" "node_live ?n'" using rep(2) store_release(2,3) [OF f(7)] by simp_all
  have cnt: "of_nat (length ?ys) = of_nat (length xs) + (0 :: u64)" "of_nat (total ?ys) = of_nat (total xs) + (0 :: u64)" using l by simp_all
  have "add_counts ?sb 0 0 = ?sb" by (simp add: add_counts_def)
  then obtain T' where fin: "tree_holds (t\<lparr>bt_nodes := ?H(p \<mapsto> ?n')\<rparr>) l T'" "map_of (items_of T') = (map_of (items_of T))(k := Some ?v)"
    using leaf_exchange_last [OF lk n' put_item_map [OF f(10,6,2)] disjI2 [OF last] cnt] by auto
  have "(bump ?H p)(p \<mapsto> node_set_dirty (?n\<lparr>bn_data := Some d\<rparr>)) = ?H(p \<mapsto> node_set_dirty (?n\<lparr>bn_data := Some d\<rparr>))"
    using f(4) by (simp add: bump_def)
  then have rel: "btnode_release (t\<lparr>bt_nodes := (bump ?H p)(p \<mapsto> node_set_dirty (?n\<lparr>bn_data := Some d\<rparr>))\<rparr>) p = Some (t\<lparr>bt_nodes := ?H(p \<mapsto> ?n')\<rparr>)"
    using store_release(1) [OF f(7), where t = t and H' = ?H and p = p and d = d] by simp
  have "btree_insert junk t key value sz = Some (0, t\<lparr>bt_nodes := ?H(p \<mapsto> ?n')\<rparr>)"
    unfolding btree_insert_def LEAF_NODE_LEVEL_def
    using look f(3,12,14) leaf_node_level [OF f(13)] rep(1) rel pl b(1) by (simp add: on_node_def)
  moreover have "l = 1 \<longrightarrow> stays t (t\<lparr>bt_nodes := ?H(p \<mapsto> ?n')\<rparr>)"
    using stays_leaf [where H = ?H and i = 0 and s = 0 and d = d and t = t and p = p and n = n and T = T and xs = xs and key = k] lk by (auto simp: add_counts_def)
  ultimately show ?thesis using fin by auto
qed

lemma btree_insert_same_stays:
  assumes "tree_holds t l T" "length key = unat (sb_key_size (bt_super t))" "map_of (items_of T) key = Some v" "length v = unat sz"
    and "unat sz \<le> length value"
  shows "\<exists>t' T'. btree_insert junk t key value sz = Some (0, t') \<and> tree_holds t' l T'
    \<and> map_of (items_of T') = (map_of (items_of T))(key \<mapsto> take (unat sz) value) \<and> (l = 1 \<longrightarrow> stays t t')"
proof -
  obtain p xs n pl0 where lf: "leaf_found t l T key p xs n"
    and look: "btree_lookup_level t (Some key) 1 (no_place\<lparr>pl_size := junk\<rparr>)
      = Some (p, leaf_place (bt_super t) (bt_cb t) key xs pl0, t\<lparr>bt_nodes := bump (bt_nodes t) p\<rparr>)"
    using find_leaf [OF assms(1,2), of "no_place\<lparr>pl_size := junk\<rparr>"] by auto
  note f = leaf_found_simps [OF lf]
  have old: "map_of xs key = Some v" using f(8) assms(3) by simp
  obtain zs where "from_key (cb_keycmp (bt_cb t)) key xs = (key, v) # zs" using found_at [OF f(10,6,2) old] by blast
  then show ?thesis using assms(4,5) old
    by (intro btree_insert_in_place [OF lf _ look]) (simp_all add: leaf_place_def Let_def)
qed

lemma btree_insert_overwrites:
  assumes "tree_holds t l T" "length key = unat (sb_key_size (bt_super t))" "map_of (items_of T) key = None"
    and "from_key (cb_keycmp (bt_cb t)) key (leaf_items t l T key) = (k, v) # zs" "length v = unat sz" "unat sz \<le> length value"
  shows "\<exists>t' T'. btree_insert sz t key value sz = Some (0, t') \<and> tree_holds t' l T'
    \<and> map_of (items_of T') = (map_of (items_of T))(k \<mapsto> take (unat sz) value)"
proof -
  obtain p xs n pl0 where lf: "leaf_found t l T key p xs n" and pl0: "map_of xs key = None \<longrightarrow> pl_size pl0 = sz"
    and look: "btree_lookup_level t (Some key) 1 (no_place\<lparr>pl_size := sz\<rparr>)
      = Some (p, leaf_place (bt_super t) (bt_cb t) key xs pl0, t\<lparr>bt_nodes := bump (bt_nodes t) p\<rparr>)"
    using find_leaf [OF assms(1,2), of "no_place\<lparr>pl_size := sz\<rparr>"] by auto
  note f = leaf_found_simps [OF lf]
  have new: "map_of xs key = None" using f(8) assms(3) by simp
  have z: "from_key (cb_keycmp (bt_cb t)) key xs = (k, v) # zs" using assms(4) f(11) by simp
  have "pl_index (leaf_place (bt_super t) (bt_cb t) key xs pl0) = of_nat (length (below (cb_keycmp (bt_cb t)) key xs))"
    "pl_size (leaf_place (bt_super t) (bt_cb t) key xs pl0) = sz"
    using new pl0 by (simp_all add: leaf_place_def Let_def)
  from btree_insert_in_place [OF lf z look this assms(5,6)] show ?thesis by blast
qed

lemma btree_insert_same_size:
  assumes "tree_holds t l T" "length key = unat (sb_key_size (bt_super t))" "map_of (items_of T) key = Some v" "length v = unat sz"
    and "unat sz \<le> length value"
  shows "\<exists>t' T'. btree_insert junk t key value sz = Some (0, t') \<and> tree_holds t' l T'
    \<and> map_of (items_of T') = (map_of (items_of T))(key \<mapsto> take (unat sz) value)"
  using btree_insert_same_stays [OF assms] by blast

subsection \<open>Removal\<close>

lemma drop_item_last:
  assumes "key_order (cb_keycmp cb) (unat (sb_key_size sb))" "leaf_node sb cb n xs" "length key = unat (sb_key_size sb)" "map_of xs key = Some v"
  shows "length xs = Suc (length (drop_item cb key xs))" "total xs = length v + total (drop_item cb key xs)"
    "2 \<le> length xs \<Longrightarrow> drop_item cb key xs \<noteq> [] \<and> fst (last (drop_item cb key xs))
      = (if length (below (cb_keycmp cb) key xs) = length xs - 1 then fst (last (butlast xs)) else fst (last xs))"
    "length (below (cb_keycmp cb) key xs) < length xs"
proof -
  let ?b = "below (cb_keycmp cb) key xs"
  obtain zs where z: "from_key (cb_keycmp cb) key xs = (key, v) # zs" "xs = ?b @ (key, v) # zs" using found_at [OF assms] by blast
  have d: "drop_item cb key xs = ?b @ zs" using z(1) by (simp add: drop_item_def)
  have l: "length xs = length ?b + Suc (length zs)" "total xs = total ?b + (length v + total zs)"
    using arg_cong [OF z(2), of length] arg_cong [OF z(2), of total] by simp_all
  show "length xs = Suc (length (drop_item cb key xs))" "total xs = length v + total (drop_item cb key xs)" "length ?b < length xs"
    unfolding d using l by simp_all
  show "drop_item cb key xs \<noteq> [] \<and> fst (last (drop_item cb key xs)) = (if length ?b = length xs - 1 then fst (last (butlast xs)) else fst (last xs))"
    if "2 \<le> length xs"
  proof (cases "zs = []")
    case True
    then have "butlast xs = ?b" "?b \<noteq> []" using z(2) that l(1) by (metis butlast_snoc, auto)
    then show ?thesis unfolding d using True l(1) by simp
  next
    case False
    then have "last xs = last zs" using z(2) by (metis last_appendR last_ConsR list.distinct(1))
    then show ?thesis unfolding d using False l(1) by simp
  qed
qed

lemma btree_remove_held_stays:
  assumes "tree_holds t l T" "length key = unat (sb_key_size (bt_super t))" "map_of (items_of T) key = Some v"
    and "2 \<le> length (leaf_items t l T key)"
    and "NODE_HEAD_SIZE + Suc (length (leaf_items t l T key)) * item_size (bt_super t) \<le> unat (sb_block_size (bt_super t))"
  shows "\<exists>t' T'. btree_remove t key = Some (0, t') \<and> tree_holds t' l T' \<and> map_of (items_of T') = (map_of (items_of T))(key := None)
    \<and> (l = 1 \<longrightarrow> stays t t')"
proof -
  let ?sb = "bt_super t" and ?cb = "bt_cb t" and ?H = "bt_nodes t" and ?cmp = "cb_keycmp (bt_cb t)"
  obtain p xs n pl0 where lf: "leaf_found t l T key p xs n"
    and look: "btree_lookup_level t (Some key) 1 no_place = Some (p, leaf_place ?sb ?cb key xs pl0, t\<lparr>bt_nodes := bump ?H p\<rparr>)"
    using find_leaf [OF assms(1,2)] by blast
  note f = leaf_found_simps [OF lf]
  have old: "map_of xs key = Some v" using f(8) assms(3) by simp
  let ?i = "length (below ?cmp key xs)" and ?n = "n\<lparr>bn_refs := bn_refs n + 1\<rparr>" and ?s = "- of_nat (length v) :: u64"
  let ?ys = "drop_item ?cb key xs" and ?t1 = "t\<lparr>bt_nodes := bump ?H p\<rparr>" and ?pl = "leaf_place ?sb ?cb key xs pl0"
  have two: "2 \<le> length xs" using assms(4) f(11) by simp
  then have ne: "xs \<noteq> []" by auto
  note drp = drop_item_last [OF f(10,6,2) old] and lv = leaf_node_level [OF f(13)] and bp = f(14)
  have pl: "pl_index ?pl = of_nat ?i" "pl_found ?pl" using old by (simp_all add: leaf_place_def Let_def)
  obtain d where rem: "leaf_remove ?sb ?n (of_nat ?i) = Some (add_counts ?sb (- 1) ?s, node_set_dirty (?n\<lparr>bn_data := Some d\<rparr>))"
    "leaf_node ?sb ?cb (node_set_dirty (?n\<lparr>bn_data := Some d\<rparr>)) ?ys"
    using leaf_remove_map [OF f(10,13,2) old] assms(5) f(11) by (metis same_shape_simps(3) [OF add_counts_shape])
  define nkey where "nkey = (if (of_nat ?i :: u32) = of_nat (length xs) - 1
    then node_at ?t1 p (node_last_prev_key ?sb) else last_key_of ?t1 p)"
  have last: "last_key_of ?t1 p = Some (fst (last xs))" "node_at ?t1 p (node_last_prev_key ?sb) = Some (fst (last (butlast xs)))"
    using leaf_last_keys(1) [OF f(13) ne] leaf_last_keys(2) [OF f(13) two] bp by (simp_all add: last_key_of_def node_at_def)
  have "(of_nat (length xs) - 1 :: u32) = of_nat (length xs - 1)" using two by (simp add: of_nat_diff)
  then have ix: "(of_nat ?i :: u32) = of_nat (length xs) - 1 \<longleftrightarrow> ?i = length xs - 1"
    using of_nat_eq_by_unat [OF index_eq(1) [OF f(6), of ?i] index_eq(1) [OF f(6), of "length xs - 1"]] drp(4) by simp
  have okey: "last_key_of ?t1 p = Some (fst (last xs)) \<and> nkey = Some (fst (last ?ys))"
    unfolding nkey_def ix using last drp(3) [OF two] by simp
  have cnt: "of_nat (length ?ys) = of_nat (length xs) + (- 1 :: u64)" "of_nat (total ?ys) = of_nat (total xs) + ?s"
    unfolding drp(1,2) by simp_all
  have m: "map_of ?ys = (map_of xs)(key := None)" using found_at [OF f(10,6,2) old] by blast
  let ?n' = "node_set_dirty (n\<lparr>bn_data := Some d\<rparr>)"
  have n': "leaf_node ?sb ?cb ?n' ?ys" "node_live ?n'" using rem(2) store_release(2,3) [OF f(7)] by simp_all
  obtain H' T' where tw: "twigs_loop tree_fuel ?t1 1 (last_key_of ?t1 p) nkey = Some (t\<lparr>bt_nodes := H'\<rparr>)" "H' p = Some ?n"
    and fin: "tree_holds (t\<lparr>bt_super := add_counts ?sb (- 1) ?s, bt_nodes := H'(p \<mapsto> ?n')\<rparr>) l T'"
      "map_of (items_of T') = (map_of (items_of T))(key := None)"
    using leaf_exchange_twigs [OF lf n' m _ cnt okey] drp(3) [OF two] by blast
  have upd: "btree_twigs_remove_update ?t1 p (of_nat ?i) = Some (t\<lparr>bt_nodes := H'\<rparr>)"
    using tw(1) bp lv(1,4) by (simp add: btree_twigs_remove_update_def btree_twigs_update_def node_at_def [of _ _ node_items] node_at_def [of _ _ node_level] nkey_def)
  let ?t2 = "t\<lparr>bt_super := add_counts ?sb (- 1) ?s\<rparr>"
  have li: "leaf_remove_at (t\<lparr>bt_nodes := H'\<rparr>) p (of_nat ?i) = Some (?t2\<lparr>bt_nodes := H'(p \<mapsto> node_set_dirty (?n\<lparr>bn_data := Some d\<rparr>))\<rparr>)"
    using tw(2) rem(1) by (simp add: leaf_remove_at_def)
  note rel = store_release(1) [OF f(7), where t = ?t2 and H' = H' and p = p and d = d]
  have it: "node_at ?t1 p node_items = Some (of_nat (length xs))" using bp lv(4) by (simp add: node_at_def)
  have one: "(of_nat (length xs) :: u32) \<noteq> 1"
    using of_nat_eq_by_unat [OF index_eq(1) [OF f(6) order_refl], of 1] two by simp
  have "btree_remove t key = Some (0, ?t2\<lparr>bt_nodes := H'(p \<mapsto> ?n')\<rparr>)"
    unfolding btree_remove_def LEAF_NODE_LEVEL_def using look f(3) it one upd li rel pl by simp
  moreover have "l = 1 \<longrightarrow> stays t (?t2\<lparr>bt_nodes := H'(p \<mapsto> ?n')\<rparr>)"
    using stays_leaf [where H = H' and i = "- 1" and s = ?s and d = d and t = t and p = p and n = n and T = T and xs = xs and key = key] lf by auto
  ultimately show ?thesis using fin by auto
qed

lemma btree_remove_held:
  assumes "tree_holds t l T" "length key = unat (sb_key_size (bt_super t))" "map_of (items_of T) key = Some v"
    and "2 \<le> length (leaf_items t l T key)"
    and "NODE_HEAD_SIZE + Suc (length (leaf_items t l T key)) * item_size (bt_super t) \<le> unat (sb_block_size (bt_super t))"
  shows "\<exists>t' T'. btree_remove t key = Some (0, t') \<and> tree_holds t' l T' \<and> map_of (items_of T') = (map_of (items_of T))(key := None)"
  using btree_remove_held_stays [OF assms] by blast

text \<open>A key that is not there, and the last item of the only leaf.\<close>

lemma btree_remove_absent:
  assumes "tree_holds t l T" "length key = unat (sb_key_size (bt_super t))" "map_of (items_of T) key = None"
  shows "btree_remove t key = Some (2, t)"
proof -
  obtain p xs n pl0 where lf: "leaf_found t l T key p xs n"
    and look: "btree_lookup_level t (Some key) 1 no_place = Some (p, leaf_place (bt_super t) (bt_cb t) key xs pl0, t\<lparr>bt_nodes := bump (bt_nodes t) p\<rparr>)"
    using find_leaf [OF assms(1,2)] by blast
  note f = leaf_found_simps [OF lf]
  have "\<not> pl_found (leaf_place (bt_super t) (bt_cb t) key xs pl0)" using f(8) assms(3) by (simp add: leaf_place_def Let_def)
  then show ?thesis unfolding btree_remove_def LEAF_NODE_LEVEL_def using look f(3) release_to [OF f(4,7)] by simp
qed

lemma btree_remove_last:
  assumes "tree_holds t 1 T" "length key = unat (sb_key_size (bt_super t))" "map_of (items_of T) key = Some v"
    and "length (items_of T) = 1" "sb_node_count (bt_super t) \<le> 1"
  shows "\<exists>t' T'. btree_remove t key = Some (0, t') \<and> tree_holds t' 1 T' \<and> map_of (items_of T') = (map_of (items_of T))(key := None)"
proof -
  let ?sb = "bt_super t" and ?cb = "bt_cb t" and ?H = "bt_nodes t" and ?cmp = "cb_keycmp (bt_cb t)"
  obtain p xs n pl0 where lf: "leaf_found t 1 T key p xs n"
    and look: "btree_lookup_level t (Some key) 1 no_place = Some (p, leaf_place ?sb ?cb key xs pl0, t\<lparr>bt_nodes := bump ?H p\<rparr>)"
    using find_leaf [OF assms(1,2)] by blast
  note f = leaf_found_simps [OF lf]
  have T: "T = BLeaf p xs" using f(5) by simp
  have old: "map_of xs key = Some v" and one: "length xs = 1" using f(8) assms(3,4) T by simp_all
  let ?i = "length (below ?cmp key xs)" and ?n = "n\<lparr>bn_refs := bn_refs n + 1\<rparr>" and ?s = "- of_nat (length v) :: u64"
  let ?ys = "drop_item ?cb key xs" and ?pl = "leaf_place ?sb ?cb key xs pl0" and ?t1 = "t\<lparr>bt_nodes := bump ?H p\<rparr>"
  note drp = drop_item_last [OF f(10,6,2) old] and lv = leaf_node_level [OF f(13)] and bp = f(14)
  have i: "?i = 0" using drp(4) one by simp
  obtain d where rem: "leaf_remove ?sb ?n 0 = Some (add_counts ?sb (- 1) ?s, node_set_dirty (?n\<lparr>bn_data := Some d\<rparr>))"
    "leaf_node ?sb ?cb (node_set_dirty (?n\<lparr>bn_data := Some d\<rparr>)) ?ys"
    using leaf_remove_map [OF f(10,13,2) old] one unfolding i same_shape_simps(3) [OF add_counts_shape] by auto
  have cnt: "of_nat (length ?ys) = of_nat (length xs) + (- 1 :: u64)" "of_nat (total ?ys) = of_nat (total xs) + ?s"
    unfolding drp(1,2) by simp_all
  have m: "map_of ?ys = (map_of xs)(key := None)" using found_at [OF f(10,6,2) old] by blast
  let ?n' = "node_set_dirty (n\<lparr>bn_data := Some d\<rparr>)" and ?t2 = "t\<lparr>bt_super := add_counts ?sb (- 1) ?s\<rparr>"
  have n': "leaf_node ?sb ?cb ?n' ?ys" "node_live ?n'" using rem(2) store_release(2,3) [OF f(7)] by simp_all
  obtain T' where fin: "tree_holds (?t2\<lparr>bt_nodes := ?H(p \<mapsto> ?n')\<rparr>) 1 T'" "map_of (items_of T') = (map_of (items_of T))(key := None)"
    using leaf_exchange_last [OF lf n' m disjI1 [OF refl] cnt] by auto
  have "(bump ?H p)(p \<mapsto> node_set_dirty (?n\<lparr>bn_data := Some d\<rparr>)) = ?H(p \<mapsto> node_set_dirty (?n\<lparr>bn_data := Some d\<rparr>))"
    using f(4) by (simp add: bump_def)
  then have li: "leaf_remove_at ?t1 p 0 = Some (?t2\<lparr>bt_nodes := ?H(p \<mapsto> node_set_dirty (?n\<lparr>bn_data := Some d\<rparr>))\<rparr>)"
    using bp rem(1) by (simp add: leaf_remove_at_def)
  note rel = store_release(1) [OF f(7), where t = ?t2 and H' = ?H and p = p and d = d]
  have it: "node_at ?t1 p node_items = Some 1" using bp lv(4) one by (simp add: node_at_def)
  have "pl_found ?pl" "\<not> sb_node_count ?sb > 1" using old assms(5) by (simp_all add: leaf_place_def Let_def not_less)
  then have "btree_remove t key = Some (0, ?t2\<lparr>bt_nodes := ?H(p \<mapsto> ?n')\<rparr>)"
    unfolding btree_remove_def LEAF_NODE_LEVEL_def using look f(3) it li rel by simp
  then show ?thesis using fin by auto
qed

subsection \<open>The first leaf\<close>

lemma of_nat_unat_ucast: "(of_nat (unat (w :: 'a::len word)) :: 'b::len word) = ucast w"
  by (simp add: unsigned_of_nat)

lemma node_space_unat: "NODE_HEAD_SIZE \<le> unat (sb_block_size sb) \<Longrightarrow> unat (node_space sb) = unat (sb_block_size sb) - NODE_HEAD_SIZE"
proof -
  assume a: "NODE_HEAD_SIZE \<le> unat (sb_block_size sb)"
  have "unat (sb_block_size sb) < 2 ^ 32" using unsigned_less [where 'a = nat, of "sb_block_size sb"] by simp
  then have "unat (ucast (sb_block_size sb) :: u64) = unat (sb_block_size sb)" by (simp add: unsigned_ucast_eq take_bit_nat_eq_self)
  then show ?thesis using a by (simp add: node_space_def NODE_HEAD_SIZE_def unat_sub_if')
qed

lemma head_init_leaf:
  assumes "length d = unat (sb_block_size sb)" "NODE_HEAD_SIZE \<le> length d"
  shows "\<exists>d'. head_init sb 1 d = Some d' \<and> leaf_rep sb d' [] \<and> nh_level d' = Some 1"
proof -
  obtain A B where d: "d = A @ B" "length A = 16" using cut_list [of 16 d] assms(2) by (auto simp: NODE_HEAD_SIZE_def)
  obtain a1 a2 where a: "A = a1 @ a2" "length a1 = 8" using cut_list [of 8 A] d(2) by auto
  have l2: "length a2 = 8" using a d(2) by simp
  let ?c = "to_bytes (0 :: u32)" and ?m = "to_bytes (sb_node_magic sb)" and ?t = "to_bytes (0 :: u8)" and ?v = "to_bytes (1 :: u8)"
  let ?f = "ucast (node_space sb) :: u32"
  let ?pre = "?c @ ?m @ ?t @ ?v"
  obtain b1 r1 where r1: "a1 = b1 @ r1" "length b1 = 4" "length r1 = 4" using cut_list [of 4 a1] a(2) by auto
  obtain b2 r2 where r2: "r1 = b2 @ r2" "length b2 = 2" "length r2 = 2" using cut_list [of 2 r1] r1(3) by auto
  obtain b3 b4 where r3: "r2 = b3 @ b4" "length b3 = 1" "length b4 = 1" using cut_list [of 1 r2] r2(3) by auto
  have b: "a1 = b1 @ b2 @ b3 @ b4" "length b1 = 4" "length b2 = 2" "length b3 = 1" "length b4 = 1" using r1 r2 r3 by simp_all
  obtain c1 c2 where c: "a2 = c1 @ c2" "length c1 = 4" "length c2 = 4" using cut_list [of 4 a2] l2 by auto
  have "head_init sb 1 d = Some (?pre @ to_bytes (0 :: u32) @ to_bytes ?f @ B)"
    unfolding head_init_def d(1) a(1) b(1) c(1)
    using b(2-5) c(2,3) store_app [of "[]" 0 b1 "b2 @ b3 @ b4 @ c1 @ c2 @ B" "0 :: u32"]
      store_app [of ?c 4 b2 "b3 @ b4 @ c1 @ c2 @ B" "sb_node_magic sb"]
      store_app [of "?c @ ?m" 6 b3 "b4 @ c1 @ c2 @ B" "0 :: u8"] store_app [of "?c @ ?m @ ?t" 7 b4 "c1 @ c2 @ B" "1 :: u8"]
      store_app [of ?pre 8 c1 "c2 @ B" "0 :: u32"] store_app [of "?pre @ to_bytes (0 :: u32)" 12 c2 B ?f]
    by simp
  moreover have "?f = of_nat (length B)"
  proof -
    have "length B = unat (sb_block_size sb) - 16" "16 \<le> unat (sb_block_size sb)" using d assms(1) by simp_all
    then have "unat (node_space sb) = length B" using node_space_unat [of sb] by (simp add: NODE_HEAD_SIZE_def)
    then show ?thesis by (metis of_nat_unat_ucast)
  qed
  moreover have "leaf_rep sb (leaf_image ?pre (length d) [] B) []"
    unfolding leaf_rep_def using assms(1) d by (intro conjI exI [of _ ?pre] exI [of _ B]) (simp_all add: leaf_image_def)
  moreover have "nh_level (?pre @ to_bytes (0 :: u32) @ to_bytes ?f @ B) = Some 1"
    unfolding nh_level_def using load_app [of "?c @ ?m @ ?t" 7 "1 :: u8" "to_bytes (0 :: u32) @ to_bytes ?f @ B"] by simp
  ultimately show ?thesis by (simp add: leaf_image_def)
qed

text \<open>The tree \<open>btree_create\<close> makes, and the first insertion into it.\<close>

definition tree_empty :: "'d btree \<Rightarrow> bool" where
  "tree_empty t \<longleftrightarrow> plain (bt_super t) (bt_cb t) \<and> bt_root t = 0 \<and> sb_height (bt_super t) = 1
     \<and> sb_item_count (bt_super t) = 0 \<and> sb_stored_data (bt_super t) = 0 \<and> sb_node_count (bt_super t) = 0 \<and> bt_fresh t \<noteq> 0"

lemma btcache_open_total: "\<exists>r a' c'. btcache_open a c sz = Some (r, a', c')"
proof (cases "sz = 0")
  case False
  let ?c = "c\<lparr>bc_table := replicate (unat sz) 0, bc_head := 0, bc_size := sz, bc_used := 0\<rparr>"
  obtain ok b where m: "mmalloc (unat sz * 8) a = (ok, b)" by fastforce
  have "\<exists>p a' c'. btcache_add_node b ?c = Some (p, a', c')"
    by (auto simp: btcache_add_node_def bc_put_def Let_def split: prod.split)
  then obtain p a' c' where "btcache_add_node b ?c = Some (p, a', c')" by blast
  then show ?thesis using False m by (cases ok) (simp_all add: btcache_open_def)
qed (simp add: btcache_open_def)

lemma btcache_open_grants: "btcache_open a c sz = Some (r, a', c') \<Longrightarrow> alk_grant a' = alk_grant a"
  by (auto simp: btcache_open_def btcache_add_node_def Let_def bind_eq_Some_conv split: prod.splits if_splits dest!: mmalloc_grant)

lemma fanout_fits:
  fixes fo :: u16
  assumes "NODE_HEAD_SIZE \<le> unat (sb_block_size sb)" "fo = of_nat (unat (node_space sb) div (k + NODE_POINTER_SIZE))"
  shows "NODE_HEAD_SIZE + unat fo * (k + NODE_POINTER_SIZE) \<le> unat (sb_block_size sb)"
proof -
  let ?q = "unat (node_space sb) div (k + NODE_POINTER_SIZE)"
  have "unat fo \<le> ?q" using assms(2) by (simp add: unat_of_nat take_bit_nat_less_eq_self)
  then have "unat fo * (k + NODE_POINTER_SIZE) \<le> ?q * (k + NODE_POINTER_SIZE)" by (rule mult_le_mono1)
  also have "\<dots> \<le> unat (node_space sb)" by (rule div_times_less_eq_dividend)
  finally show ?thesis using node_space_unat [OF assms(1)] assms(1) by simp
qed

lemma btree_create_empty:
  assumes "NODE_HEAD_SIZE + 4 * (ITEM_HEAD_SIZE + unat (push_bit 2 key_size)) \<le> unat block_size"
    and "key_order cmp (unat (ucast key_size :: u16))" "bt_fresh t \<noteq> 0"
  shows "\<exists>t'. btree_create t cache_size off block_size fmt key_size magic node_magic cmp = Some (0, t') \<and> tree_empty t'
    \<and> bt_cb t' = \<lparr>cb_keycpy = None, cb_prefix_keycmp = cmp, cb_keycmp = cmp\<rparr> \<and> sb_key_size (bt_super t') = ucast key_size
    \<and> sb_block_size (bt_super t') = block_size \<and> (never_refuses (bt_alk t) \<longrightarrow> never_refuses (bt_alk t'))"
proof -
  obtain r a c where o: "btcache_open (bt_alk t) (bt_cache t) cache_size = Some (r, a, c)" using btcache_open_total by blast
  have le: "NODE_HEAD_SIZE \<le> unat block_size" using assms(1) by simp
  let ?cb = "\<lparr>cb_keycpy = None, cb_prefix_keycmp = cmp, cb_keycmp = cmp\<rparr>"
  define sb where "sb = (bt_super t)\<lparr>sb_magic := magic, sb_node_magic := node_magic, sb_block_size := block_size,
            sb_prefix_size := ucast key_size, sb_key_size := ucast key_size, sb_height := of_nat LEAF_NODE_LEVEL,
            sb_format := ucast fmt, sb_item_count := 0, sb_node_count := 0, sb_stored_data := 0,
            sb_root := 0, sb_root_size := 0, sb_root_crc := 0\<rparr>"
  define sb' where "sb' = sb\<lparr>sb_fanout := of_nat (unat (node_space sb) div (unat (sb_prefix_size sb) + NODE_POINTER_SIZE))\<rparr>"
  let ?t = "t\<lparr>bt_cb := ?cb, bt_super_offset := off, bt_root := 0, bt_super := sb', bt_alk := a, bt_cache := c\<rparr>"
  have "btree_create t cache_size off block_size fmt key_size magic node_magic cmp = Some (0, ?t)"
    using assms(1) o by (simp add: btree_create_def btree_create_prefix_def sb_def sb'_def Let_def)
  moreover have "plain sb' ?cb"
  proof -
    have "NODE_HEAD_SIZE \<le> unat (sb_block_size sb)" using le by (simp add: sb_def)
    from fanout_fits [OF this refl, of "unat (sb_prefix_size sb)"] show ?thesis
      using assms(2) by (simp add: plain_def sb'_def) (simp add: sb_def)
  qed
  ultimately show ?thesis
    using assms(3) btcache_open_grants [OF o]
    by (intro exI [of _ ?t]) (simp add: tree_empty_def sb'_def sb_def LEAF_NODE_LEVEL_def never_refuses_def)
qed

text \<open>What the first insertion keeps, and its leaf.\<close>

definition founded :: "'d btree \<Rightarrow> 'd btree \<Rightarrow> bool" where
  "founded t t' \<longleftrightarrow> bt_cache t' = bt_cache t \<and> bt_disk t' = bt_disk t \<and> bt_ops t' = bt_ops t \<and> bt_cb t' = bt_cb t
     \<and> bt_super_offset t' = bt_super_offset t \<and> sb_magic (bt_super t') = sb_magic (bt_super t)
     \<and> sb_node_magic (bt_super t') = sb_node_magic (bt_super t) \<and> same_shape (bt_super t) (bt_super t') \<and> never_refuses (bt_alk t')
     \<and> (\<exists>n. bt_nodes t' (bt_root t') = Some n \<and> bn_refs n = 0 \<and> bn_blocknr n = 0 \<and> bn_pointers n = None)"

lemma btree_insert_first_founded:
  assumes "tree_empty t" "length key = unat (sb_key_size (bt_super t))" "unat sz \<le> length value"
    and "leaf_used (bt_super t) [] + item_size (bt_super t) + unat sz \<le> unat (sb_block_size (bt_super t))" "never_refuses (bt_alk t)"
  shows "\<exists>t' T'. btree_insert junk t key value sz = Some (0, t') \<and> tree_holds t' 1 T' \<and> items_of T' = [(key, take (unat sz) value)]
    \<and> sb_node_count (bt_super t') = 1 \<and> sb_key_size (bt_super t') = sb_key_size (bt_super t) \<and> founded t t'"
proof -
  let ?sb = "bt_super t" and ?cb = "bt_cb t" and ?p = "bt_fresh t"
  have t: "plain ?sb ?cb" "bt_root t = 0" "sb_height ?sb = 1" "sb_item_count ?sb = 0" "sb_stored_data ?sb = 0" "sb_node_count ?sb = 0" "?p \<noteq> 0"
    using assms(1) by (simp_all add: tree_empty_def)
  have ko: "key_order (cb_keycmp ?cb) (unat (sb_key_size ?sb))" using t(1) by (simp add: plain_def)
  obtain a1 where a1: "mmalloc btnode_bytes (bt_alk t) = (True, a1)" "never_refuses a1"
    using mmalloc_never_refuses [OF assms(5)] by (metis surj_pair)
  let ?n0 = "\<lparr>bn_pointers = None, bn_data = None, bn_blocknr = 0, bn_size = 0, bn_flags = 0, bn_refs = 1\<rparr>"
  let ?t1 = "t\<lparr>bt_alk := a1, bt_fresh := ?p + 1, bt_nodes := (bt_nodes t)(?p \<mapsto> ?n0)\<rparr>"
  have lvl: "btnode_level_alloc t 1 = (?p, ?t1)" using a1(1) by (simp add: btnode_level_alloc_def LEAF_NODE_LEVEL_def Let_def)
  obtain a2 where a2: "mmalloc (unat (sb_block_size ?sb)) a1 = (True, a2)" "never_refuses a2"
    using mmalloc_never_refuses [OF a1(2)] by (metis surj_pair)
  let ?junk = "map (bt_junk t (alk_calls a1)) [0..<unat (sb_block_size ?sb)]"
  have blk: "block_alloc ?t1 = (Some ?junk, ?t1\<lparr>bt_alk := a2\<rparr>)" using a2(1) by (simp add: block_alloc_def Let_def)
  have "NODE_HEAD_SIZE \<le> unat (sb_block_size ?sb)" using assms(4) by (simp add: leaf_used_def)
  then obtain d where d: "head_init ?sb 1 ?junk = Some d" "leaf_rep ?sb d []" "nh_level d = Some 1"
    using head_init_leaf [of ?junk ?sb] by auto
  let ?n1 = "?n0\<lparr>bn_data := Some d\<rparr>"
  let ?sb1 = "?sb\<lparr>sb_node_count := 1\<rparr>" and ?sb2 = "?sb\<lparr>sb_node_count := 1, sb_height := 2\<rparr>"
  let ?t2 = "?t1\<lparr>bt_alk := a2, bt_nodes := (bt_nodes t)(?p \<mapsto> ?n1), bt_super := ?sb1\<rparr>"
  have "btnode_alloc t 1 = Some (?p, ?t2)"
    using lvl blk d(1) t(6,7) by (simp add: btnode_alloc_def on_node_def)
  moreover have "unat (sb_height ?sb) = 1" using t(3) by simp
  ultimately have grow: "btree_grow t = Some (?p, ?t2\<lparr>bt_root := ?p, bt_super := ?sb2\<rparr>)"
    using t(3,7) by (simp add: btree_grow_def)
  have shape: "same_shape ?sb ?sb2" "same_shape ?sb1 ?sb2" by (simp_all add: same_shape_def)
  have ln: "leaf_node ?sb2 ?cb ?n1 []" using d(2,3) unfolding same_shape_simps [OF shape(1)] by (simp add: leaf_node_def)
  have ko2: "key_order (cb_keycmp ?cb) (unat (sb_key_size ?sb2))" using ko by simp
  have len: "length key = unat (sb_key_size ?sb2)" using assms(2) by simp
  have room: "leaf_used ?sb2 [] + item_size ?sb2 + unat sz \<le> unat (sb_block_size ?sb2)"
    using assms(4) by (simp add: same_shape_simps [OF shape(1)])
  let ?sb3 = "add_counts ?sb2 1 (ucast sz)" and ?v = "take (unat sz) value"
  have put: "put_item ?cb key ?v [] = [(key, ?v)]" by (simp add: put_item_def below_def from_key_def)
  obtain d' where ins: "leaf_insert ?sb2 ?n1 0 key value sz = Some (?sb3, node_set_dirty (?n1\<lparr>bn_data := Some d'\<rparr>))"
    "leaf_node ?sb3 ?cb (node_set_dirty (?n1\<lparr>bn_data := Some d'\<rparr>)) [(key, ?v)]"
    using leaf_insert_map [OF ko2 ln len _ assms(3) room] unfolding put by (auto simp: below_def)
  let ?n2 = "node_set_dirty (?n1\<lparr>bn_data := Some d'\<rparr>)"
  let ?t3 = "?t2\<lparr>bt_root := ?p, bt_super := ?sb3, bt_nodes := (bt_nodes t)(?p \<mapsto> ?n2\<lparr>bn_refs := 0\<rparr>)\<rparr>"
  have dirty: "node_is_dirty ?n2" "bn_refs ?n2 = 1" by (simp_all add: set_to_update_simps)
  have res: "btree_insert junk t key value sz = Some (0, ?t3)"
    using t(2,7) grow ins(1) dirty by (simp add: btree_insert_def leaf_insert_at_def btnode_release_def on_node_def)
  have hold: "held ?sb3 ?cb (bt_nodes ?t3) 1 (BLeaf ?p [(key, ?v)])"
    using t(7) ins(2) dirty by simp
  have "plain ?sb3 ?cb = plain ?sb ?cb" by (simp add: plain_def add_counts_def)
  then have plain: "plain ?sb3 ?cb" using t(1) by blast
  have len: "length ?v = unat sz" using assms(3) by simp
  have cnt: "sb_item_count ?sb3 = of_nat (length [(key, ?v)])" "sb_stored_data ?sb3 = of_nat (total [(key, ?v)])"
    unfolding ucast_u32_u64 add_counts_def total_simps len using t(4,5) by simp_all
  have ord: "ordered (cb_keycmp ?cb) (unat (sb_key_size ?sb3)) [(key, ?v)]" using assms(2) by (simp add: ordered_def add_counts_def)
  have sel: "bt_super ?t3 = ?sb3" "bt_cb ?t3 = ?cb" "bt_root ?t3 = ?p" by simp_all
  have "tree_holds ?t3 1 (BLeaf ?p [(key, ?v)])"
    unfolding tree_holds_def sel items_of.simps by (intro conjI; (fact | simp))
  moreover have "founded t ?t3"
    using a2(2) by (simp add: founded_def add_counts_def same_shape_def node_set_dirty_def)
  ultimately show ?thesis using res by (intro exI [of _ ?t3] exI [of _ "BLeaf ?p [(key, ?v)]"]) (simp add: add_counts_def)
qed

lemma btree_insert_first:
  assumes "tree_empty t" "length key = unat (sb_key_size (bt_super t))" "unat sz \<le> length value"
    and "leaf_used (bt_super t) [] + item_size (bt_super t) + unat sz \<le> unat (sb_block_size (bt_super t))" "never_refuses (bt_alk t)"
  shows "\<exists>t' T'. btree_insert junk t key value sz = Some (0, t') \<and> tree_holds t' 1 T' \<and> items_of T' = [(key, take (unat sz) value)]
    \<and> sb_node_count (bt_super t') = 1 \<and> sb_key_size (bt_super t') = sb_key_size (bt_super t)"
  using btree_insert_first_founded [OF assms] by blast

end
