(* ===== verification/Btree_Disk.thy ===== *)
theory Btree_Disk
  imports Btree_Order Btree Mem_Cmp
begin

section \<open>The disk and the keys of the B-tree program\<close>

text \<open>
  src/btree/main.c: the comparison of its keys, which are 10 bytes, and its disk driver on a file. The file is its
  bytes; \<open>pwrite\<close> and \<open>pread\<close> may transfer fewer bytes than asked for: \<open>fd_put\<close> bounds those of a write by the
  number of the call, \<open>fd_got\<close> those of a read.
\<close>

definition KEYSZ :: nat where "KEYSZ = 10"

text \<open>The \<open>memcmp\<close> of the C library: the sign of the difference of the first bytes that differ.\<close>

definition test_keycmp :: "u8 list \<Rightarrow> u8 list \<Rightarrow> int" where
  "test_keycmp a b = byte_cmp (take KEYSZ a) (take KEYSZ b)"

record file_disk =
  fd_offset :: u64
  fd_file :: "u8 list"
  fd_calls :: nat
  fd_put :: "nat \<Rightarrow> nat"
  fd_got :: "nat \<Rightarrow> nat"

text \<open>A write beyond the end of the file leaves zeros between.\<close>

definition file_write :: "u8 list \<Rightarrow> nat \<Rightarrow> u8 list \<Rightarrow> u8 list" where
  "file_write m p bs = (let m = m @ replicate (p - length m) 0 in take p m @ bs @ drop (p + length bs) m)"

definition file_pwrite :: "file_disk \<Rightarrow> u64 \<Rightarrow> u8 list \<Rightarrow> file_disk" where
  "file_pwrite d p bs =
     d\<lparr>fd_calls := Suc (fd_calls d),
       fd_file := (let xs = take (fd_put d (fd_calls d)) bs in if xs = [] then fd_file d else file_write (fd_file d) (unat p) xs)\<rparr>"

definition disk_append :: "file_disk \<Rightarrow> u8 list \<Rightarrow> u64 \<times> file_disk" where
  "disk_append d bs =
     (let p = fd_offset d; d = file_pwrite d p bs in (p, d\<lparr>fd_offset := fd_offset d + of_nat (length bs)\<rparr>))"

text \<open>A write at a given place also moves the end.\<close>

definition disk_write :: "file_disk \<Rightarrow> u64 \<Rightarrow> u32 \<Rightarrow> u8 list \<Rightarrow> u64 \<times> file_disk" where
  "disk_write d block_offset block_size bs =
     (let p = if block_offset = 0 then fd_offset d else block_offset;
          d = file_pwrite d p bs
      in (p, d\<lparr>fd_offset := fd_offset d + of_nat (length bs)\<rparr>))"

text \<open>The result is the size asked for, whatever was read.\<close>

definition disk_read :: "file_disk \<Rightarrow> u64 \<Rightarrow> u32 \<Rightarrow> bool \<times> u8 list" where
  "disk_read d p sz = (sz \<noteq> 0, take (min (unat sz) (fd_got d (unat sz))) (drop (unat p) (fd_file d)))"

definition disk_erase :: "file_disk \<Rightarrow> u64 \<Rightarrow> u32 \<Rightarrow> file_disk" where
  "disk_erase d p sz = d"

fun adler_loop :: "u32 \<Rightarrow> u32 \<Rightarrow> u8 list \<Rightarrow> u32 \<times> u32" where
  "adler_loop s1 s2 [] = (s1, s2)"
| "adler_loop s1 s2 (b # bs) = (let s1 = (s1 + ucast b) mod 65521; s2 = (s2 + s1) mod 65521 in adler_loop s1 s2 bs)"

definition adler32 :: "u8 list \<Rightarrow> u32" where
  "adler32 bs = (let (s1, s2) = adler_loop 0 0 bs in push_bit 16 s2 + s1)"

definition test_disk :: "file_disk disk_ops" where
  "test_disk = \<lparr>dk_erase = disk_erase, dk_write = disk_write, dk_read = disk_read, dk_crc_pointer = adler32, dk_crc_block = adler32\<rparr>"

subsection \<open>The keys are ordered\<close>

lemma byte_cmp_less_trans:
  assumes "length a = length b" "length b = length c" "byte_cmp a b < 0" "byte_cmp b c < 0"
  shows "byte_cmp a c < 0"
proof -
  have "byte_cmp a c \<le> 0" using byte_cmp_trans [OF assms(1,2)] assms(3,4) by simp
  moreover have "a \<noteq> c"
  proof
    assume "a = c"
    then show False using assms(3,4) byte_cmp_flip [OF assms(1)] by simp
  qed
  then have "byte_cmp a c \<noteq> 0" using byte_cmp_zero_iff [of a c] assms(1,2) by simp
  ultimately show ?thesis by simp
qed

interpretation test_keys: key_order test_keycmp KEYSZ
proof unfold_locales
  show "test_keycmp a b = 0 \<longleftrightarrow> a = b" if "length a = KEYSZ" "length b = KEYSZ" for a b
    using that by (simp add: test_keycmp_def byte_cmp_zero_iff)
  show "test_keycmp a b < 0 \<longleftrightarrow> 0 < test_keycmp b a" if "length a = KEYSZ" "length b = KEYSZ" for a b
    using that byte_cmp_flip [of a b] by (simp add: test_keycmp_def)
  show "test_keycmp a c < 0" if "length a = KEYSZ" "length b = KEYSZ" "length c = KEYSZ" "test_keycmp a b < 0" "test_keycmp b c < 0" for a b c
    using that byte_cmp_less_trans [of a b c] by (simp add: test_keycmp_def)
qed

lemma test_key_order: "key_order test_keycmp KEYSZ"
  by (rule test_keys.key_order_axioms)

subsection \<open>The checksum\<close>

text \<open>The two sums, over the bytes and over the sums so far.\<close>

fun byte_sums :: "u8 list \<Rightarrow> nat \<times> nat" where
  "byte_sums [] = (0, 0)"
| "byte_sums (b # bs) = (let (s, w) = byte_sums bs in (unat b + s, (length bs + 1) * unat b + w))"

lemma adler_loop_sums:
  assumes "unat s1 < 65521" "unat s2 < 65521"
  shows "adler_loop s1 s2 bs = (of_nat ((unat s1 + fst (byte_sums bs)) mod 65521),
    of_nat ((unat s2 + length bs * unat s1 + snd (byte_sums bs)) mod 65521))"
  using assms
proof (induction bs arbitrary: s1 s2)
  case (Cons b bs)
  obtain s w where sw: "byte_sums bs = (s, w)" by fastforce
  have b: "unat (ucast b :: u32) = unat b" "unat b < 256"
    using unsigned_less [where 'a = nat, of b] by (simp_all add: unsigned_ucast_eq take_bit_nat_eq_self)
  let ?s1 = "(s1 + ucast b) mod 65521" and ?s2 = "(s2 + (s1 + ucast b) mod 65521) mod 65521"
  have sum1: "unat (s1 + ucast b) = unat s1 + unat b" using Cons.prems(1) b by (simp add: unat_word_ariths)
  have u1: "unat ?s1 = (unat s1 + unat b) mod 65521" by (simp add: unat_mod sum1)
  then have "unat ?s1 < 65521" by simp
  then have "unat (s2 + ?s1) = unat s2 + unat ?s1" using Cons.prems(2) by (simp add: unat_word_ariths)
  then have u2: "unat ?s2 = (unat s2 + (unat s1 + unat b) mod 65521) mod 65521" by (simp add: unat_mod sum1)
  have IH: "adler_loop ?s1 ?s2 bs = (of_nat ((unat ?s1 + s) mod 65521), of_nat ((unat ?s2 + length bs * unat ?s1 + w) mod 65521))"
    using Cons.IH [of ?s1 ?s2] u1 u2 sw by simp
  have "(unat ?s1 + s) mod 65521 = (unat s1 + (unat b + s)) mod 65521" unfolding u1 by (simp add: mod_simps add.assoc)
  moreover have "(unat ?s2 + length bs * unat ?s1 + w) mod 65521
      = (unat s2 + Suc (length bs) * unat s1 + ((length bs + 1) * unat b + w)) mod 65521"
  proof -
    have "(unat ?s2 + length bs * unat ?s1 + w) mod 65521 = (unat s2 + (unat s1 + unat b) + length bs * (unat s1 + unat b) + w) mod 65521"
      unfolding u1 u2 by (intro mod_add_cong mod_mult_cong) (simp_all add: mod_simps)
    also have "unat s2 + (unat s1 + unat b) + length bs * (unat s1 + unat b) + w
        = unat s2 + Suc (length bs) * unat s1 + ((length bs + 1) * unat b + w)" by (simp add: algebra_simps)
    finally show ?thesis .
  qed
  ultimately show ?case using IH sw by (simp add: Let_def)
qed simp

lemma adler32_sums: "adler32 bs = push_bit 16 (of_nat (snd (byte_sums bs) mod 65521)) + of_nat (fst (byte_sums bs) mod 65521)"
  using adler_loop_sums [of 0 0 bs] by (simp add: adler32_def)

end
