(* ===== verification/Btree_Properties.thy ===== *)
theory Btree_Properties
  imports Btree_Ops Btree_Disk
begin

section \<open>Properties of the B-tree\<close>

text \<open>
  The leaves and the trees of btree.c in memory. The witnesses use the keys of the B-tree program, whose order is the
  interpretation of the locale of key orders.
\<close>

subsection \<open>A tree to evaluate on\<close>

text \<open>Keys of ten bytes in blocks of 256 bytes, as in the B-tree program: a twig above two leaves of two items.\<close>

definition sample_super :: super where
  "sample_super = \<lparr>sb_magic = 0xf5bc2eac, sb_format = 0, sb_node_magic = 0xb4e6, sb_block_size = 256, sb_prefix_size = 10,
     sb_key_size = 10, sb_fanout = 9, sb_height = 3, sb_pad0 = 0, sb_pad1 = 0, sb_item_count = 4, sb_node_count = 3,
     sb_stored_data = 4, sb_root = 0, sb_root_crc = 0, sb_root_size = 0\<rparr>"

definition sample_cb :: callbacks where
  "sample_cb = \<lparr>cb_keycpy = None, cb_prefix_keycmp = test_keycmp, cb_keycmp = test_keycmp\<rparr>"

definition sample_key :: "u8 \<Rightarrow> u8 list" where "sample_key b = replicate 9 0 @ [b]"

definition sample_leaf :: "leaf_item list \<Rightarrow> bnode" where
  "sample_leaf xs = \<lparr>bn_pointers = None, bn_data = Some (leaf_image [0, 0, 0, 0, 0, 0, 0, 1] 256 xs (replicate (256 - leaf_used sample_super xs) 0)),
     bn_blocknr = 0, bn_size = 0, bn_flags = 1, bn_refs = 0\<rparr>"

definition sample_twig :: bnode where
  "sample_twig = \<lparr>bn_pointers = Some ([2, 3] @ replicate 7 0),
     bn_data = Some ([0, 0, 0, 0, 0, 0, 0, 2] @ to_bytes (2 :: u32) @ to_bytes (188 :: u32) @ sample_key 2 @ sample_key 4 @ replicate 220 0),
     bn_blocknr = 0, bn_size = 0, bn_flags = 1, bn_refs = 0\<rparr>"

definition sample_items :: "u8 \<Rightarrow> leaf_item list" where
  "sample_items b = [(sample_key b, [b]), (sample_key (b + 1), [b + 1])]"

definition sample_tree :: "file_disk btree" where
  "sample_tree = \<lparr>bt_super = sample_super, bt_super_offset = 512,
     bt_cache = \<lparr>bc_table = [], bc_head = 0, bc_used = 0, bc_size = 0, bc_nodes = Map.empty, bc_fresh = 1\<rparr>,
     bt_disk = \<lparr>fd_offset = 576, fd_file = [], fd_calls = 0, fd_put = id, fd_got = id\<rparr>, bt_ops = test_disk,
     bt_cb = sample_cb, bt_root = 1, bt_nodes = [1 \<mapsto> sample_twig, 2 \<mapsto> sample_leaf (sample_items 1), 3 \<mapsto> sample_leaf (sample_items 3)],
     bt_fresh = 4, bt_alk = alk_generous, bt_junk = (\<lambda>_ _. 0)\<rparr>"

definition sample_shape :: shape where
  "sample_shape = BTwig 1 [sample_key 2, sample_key 4] [BLeaf 2 (sample_items 1), BLeaf 3 (sample_items 3)]"

lemma sample_key_simps [simp]: "length (sample_key b) = 10" "sample_key b = sample_key c \<longleftrightarrow> b = c"
  "test_keycmp (sample_key b) (sample_key c) = uint b - uint c"
proof -
  show "length (sample_key b) = 10" "sample_key b = sample_key c \<longleftrightarrow> b = c" by (simp_all add: sample_key_def)
  have "byte_cmp (replicate k 0 @ [b]) (replicate k 0 @ [c]) = uint b - uint c" for k
    by (induction k) auto
  then show "test_keycmp (sample_key b) (sample_key c) = uint b - uint c"
    by (simp add: test_keycmp_def KEYSZ_def sample_key_def)
qed

lemma sample_super_sizes: "unat (sb_key_size sample_super) = 10" "unat (sb_block_size sample_super) = 256" "item_size sample_super = 18"
  by (simp_all add: sample_super_def item_size_def ITEM_HEAD_SIZE_def)

lemma sample_order: "key_order (cb_keycmp sample_cb) (unat (sb_key_size sample_super))"
  using test_key_order by (simp add: sample_cb_def sample_super_def KEYSZ_def)

lemma sample_plain: "plain sample_super sample_cb"
  using sample_order by (simp add: plain_def) (simp add: sample_cb_def sample_super_def NODE_HEAD_SIZE_def NODE_POINTER_SIZE_def)

lemma sample_leaf_node:
  assumes "\<forall>x \<in> set xs. length (fst x) = 10" "in_order test_keycmp (map fst xs)" "leaf_used sample_super xs \<le> 256"
  shows "leaf_node sample_super sample_cb (sample_leaf xs) xs"
proof -
  let ?pre = "[0, 0, 0, 0, 0, 0, 0, 1] :: u8 list" and ?gap = "replicate (256 - leaf_used sample_super xs) (0 :: u8)"
  let ?d = "leaf_image ?pre 256 xs ?gap"
  have sized: "keys_sized sample_super xs" using assms(1) by (simp add: keys_sized_def sample_super_def)
  have len: "length ?d = 256" using assms(3) by (simp add: leaf_image_def length_entries [OF sized] leaf_used_def NODE_HEAD_SIZE_def)
  have "leaf_rep sample_super ?d xs"
    unfolding leaf_rep_def len using sized by (intro conjI exI [of _ ?pre] exI [of _ ?gap]) (simp_all add: sample_super_def)
  moreover have "nh_level ?d = Some 1"
    unfolding nh_level_def leaf_image_def
    by (simp add: load_def buf_read_def of_bytes_def)
  ultimately show ?thesis using assms(2) by (simp add: leaf_node_def sample_leaf_def sample_cb_def)
qed

lemma sample_used: "leaf_used sample_super xs = 16 + length xs * 18 + total xs"
  by (simp add: leaf_used_def NODE_HEAD_SIZE_def item_size_def ITEM_HEAD_SIZE_def sample_super_def)

lemma sample_items_leaf: "uint (b + 1) = uint b + 1 \<Longrightarrow> leaf_node sample_super sample_cb (sample_leaf (sample_items b)) (sample_items b)"
  by (intro sample_leaf_node) (simp_all add: sample_items_def sample_used)

lemma sample_twig_node: "twig_node sample_super 2 sample_twig [sample_key 2, sample_key 4] [2, 3]"
proof -
  let ?h = "[0, 0, 0, 0, 0, 0, 0, 2] :: u8 list" and ?n = "to_bytes (2 :: u32)" and ?f = "to_bytes (188 :: u32)"
  let ?z = "replicate 220 0 :: u8 list"
  let ?d = "?h @ ?n @ ?f @ sample_key 2 @ sample_key 4 @ ?z"
  have "nh_level ?d = Some 2" by (simp add: nh_level_def load_def buf_read_def of_bytes_def)
  moreover have "nh_items ?d = Some 2" unfolding nh_items_def by (rule load_app) simp_all
  moreover have "buf_read ?d 16 10 = Some (sample_key 2)"
    using read_app [of "?h @ ?n @ ?f" 16 "sample_key 2" 10 "sample_key 4 @ ?z"] by simp
  moreover have "buf_read ?d 26 10 = Some (sample_key 4)"
    using read_app [of "?h @ ?n @ ?f @ sample_key 2" 26 "sample_key 4" 10 ?z] by simp
  moreover have "length ?d = 256" by simp
  ultimately have "nh_level ?d = Some (of_nat 2) \<and> nh_items ?d = Some (of_nat (length [sample_key 2, sample_key 4])) \<and> length ?d = 256
      \<and> (\<forall>i < 2. buf_read ?d (NODE_HEAD_SIZE + i * 10) 10 = Some ([sample_key 2, sample_key 4] ! i))"
    by (simp add: less_2_cases_iff NODE_HEAD_SIZE_def)
  then show ?thesis
    unfolding twig_node_def by (intro conjI exI [of _ ?d] exI [of _ "replicate 7 0"]) (simp_all add: sample_twig_def sample_super_def)
qed

lemma sample_tree_holds: "tree_holds sample_tree 2 sample_shape"
proof -
  have leaf: "leaf_node sample_super sample_cb (sample_leaf (sample_items 1)) (sample_items 1)"
    "leaf_node sample_super sample_cb (sample_leaf (sample_items 3)) (sample_items 3)"
    by (rule sample_items_leaf, simp)+
  have use: "node_live (sample_leaf xs)" "node_live sample_twig" for xs
    by (simp_all add: node_live_def node_is_dirty_def sample_leaf_def sample_twig_def)
  have order: "in_order (cb_keycmp sample_cb) [sample_key 2, sample_key 4]" by (simp add: sample_cb_def)
  have held: "held sample_super sample_cb (bt_nodes sample_tree) 2 sample_shape"
    using leaf use sample_twig_node order by (simp add: sample_shape_def sample_tree_def sample_super_sizes del: in_order_simps)
  have "ordered (cb_keycmp sample_cb) 10 (items_of sample_shape)"
    by (simp add: ordered_def sample_shape_def sample_items_def sample_cb_def)
  moreover have "tight sample_shape" by (simp add: sample_shape_def sample_items_def)
  moreover have "bt_super sample_tree = sample_super" "bt_cb sample_tree = sample_cb" "bt_root sample_tree = 1"
    "sb_item_count sample_super = of_nat (length (items_of sample_shape))" "sb_stored_data sample_super = of_nat (total (items_of sample_shape))"
    "addr sample_shape = 1" "distinct (addrs sample_shape)"
    by (simp_all add: sample_tree_def sample_super_def sample_shape_def sample_items_def)
  ultimately show ?thesis using held sample_plain by (simp add: tree_holds_def sample_super_sizes)
qed

lemma sample_leaf_items: "leaf_items sample_tree 2 sample_shape (sample_key 5) = sample_items 3" "leaf_items sample_tree 2 sample_shape (sample_key 1) = sample_items 1"
  "leaf_items sample_tree 2 sample_shape (sample_key 0) = sample_items 1"
  by (simp_all add: leaf_items_def sample_tree_def sample_cb_def sample_shape_def pick_def)

lemma leaf_split_node:
  assumes "leaf_node sb cb n xs" "xs \<noteq> []" "leaf_node sb cb r []"
  shows "\<exists>l' r'. leaf_split sb n r = Some (l', r') \<and> leaf_node sb cb l' (take (length xs div 2) xs)
    \<and> leaf_node sb cb r' (drop (length xs div 2) xs)"
proof -
  let ?ls = "take (length xs div 2) xs" and ?rs = "drop (length xs div 2) xs"
  have xs: "xs = ?ls @ ?rs" "length ?ls = length (?ls @ ?rs) div 2" "?rs \<noteq> []"
    using assms(2) by (simp_all add: min_def not_le)
  obtain ld where ld: "bn_data n = Some ld" "leaf_rep sb ld (?ls @ ?rs)" and o: "in_order (cb_keycmp cb) (map fst (?ls @ ?rs))"
    using assms(1) by (auto simp: leaf_node_def)
  obtain rd where rd: "bn_data r = Some rd" "leaf_rep sb rd []" using assms(3) by (auto simp: leaf_node_def)
  obtain ld' rd' where s: "leaf_split sb n r = Some (node_set_dirty (n\<lparr>bn_data := Some ld'\<rparr>), node_set_dirty (r\<lparr>bn_data := Some rd'\<rparr>))"
    "leaf_rep sb ld' ?ls" "leaf_rep sb rd' ?rs" "take 8 ld' = take 8 ld" "take 8 rd' = take 8 rd"
    using leaf_split_effect [OF ld(1,2) xs(2,3) rd] by blast
  have same: "same_shape sb sb" by (simp add: same_shape_def)
  have io: "in_order (cb_keycmp cb) (map fst ?ls)" "in_order (cb_keycmp cb) (map fst ?rs)"
    using o unfolding map_append by simp_all
  show ?thesis
    using s(1) leaf_node_update [OF assms(1) ld(1) s(4,2) io(1) same] leaf_node_update [OF assms(3) rd(1) s(5,3) io(2) same] by blast
qed

text \<open>C38. A leaf of btree.c stays a leaf: with keys in order and a block that is the image of its items, the binary
  search finds the index of a key and whether it is there; an insertion at that index of a key that is not there, when
  the leaf has room for the item; a removal, of the last item or when the block has room for one more head (the heads
  behind the item are moved with one more); a replacement by a value of the same size; and a split of a leaf with items,
  full or not, into an empty one, where the first half stays and the second goes: each leaves blocks that are the images
  of the items with the change, in order again.\<close>

theorem leaf_operations_typed:
  assumes "key_order (cb_keycmp cb) (unat (sb_key_size sb))" "leaf_node sb cb n xs" "length key = unat (sb_key_size sb)"
    and "unat sz \<le> length value"
  defines "i \<equiv> length (below (cb_keycmp cb) key xs)"
  shows "leaf_index_search sb cb n (Some key) = Some (map_of xs key \<noteq> None, of_nat i)
    \<and> (map_of xs key = None \<and> leaf_used sb xs + item_size sb + unat sz \<le> unat (sb_block_size sb)
       \<longrightarrow> (\<exists>sb' n'. leaf_insert sb n (of_nat i) key value sz = Some (sb', n')
         \<and> leaf_node sb' cb n' (put_item cb key (take (unat sz) value) xs)))
    \<and> (map_of xs key \<noteq> None \<and> (i + 1 = length xs \<or> NODE_HEAD_SIZE + Suc (length xs) * item_size sb \<le> unat (sb_block_size sb))
       \<longrightarrow> (\<exists>sb' n'. leaf_remove sb n (of_nat i) = Some (sb', n') \<and> leaf_node sb' cb n' (drop_item cb key xs)))
    \<and> (\<forall>v. map_of xs key = Some v \<and> length v = unat sz
       \<longrightarrow> (\<exists>n'. leaf_inline_replace sb n (of_nat i) value sz = Some n'
              \<and> leaf_node sb cb n' (put_item cb key (take (unat sz) value) xs)))
    \<and> (\<forall>r. xs \<noteq> [] \<and> leaf_node sb cb r []
       \<longrightarrow> (\<exists>l' r'. leaf_split sb n r = Some (l', r') \<and> leaf_node sb cb l' (take (length xs div 2) xs)
              \<and> leaf_node sb cb r' (drop (length xs div 2) xs)))"
proof (intro conjI allI impI)
  show "leaf_index_search sb cb n (Some key) = Some (map_of xs key \<noteq> None, of_nat i)"
    unfolding i_def by (rule leaf_search_map(2) [OF assms(1-3)])
  show "\<exists>sb' n'. leaf_insert sb n (of_nat i) key value sz = Some (sb', n') \<and> leaf_node sb' cb n' (put_item cb key (take (unat sz) value) xs)"
    if "map_of xs key = None \<and> leaf_used sb xs + item_size sb + unat sz \<le> unat (sb_block_size sb)"
    unfolding i_def using leaf_insert_map [OF assms(1-3) conjunct1 [OF that] assms(4) conjunct2 [OF that]] by blast
  show "\<exists>sb' n'. leaf_remove sb n (of_nat i) = Some (sb', n') \<and> leaf_node sb' cb n' (drop_item cb key xs)"
    if prem: "map_of xs key \<noteq> None \<and> (i + 1 = length xs \<or> NODE_HEAD_SIZE + Suc (length xs) * item_size sb \<le> unat (sb_block_size sb))"
  proof -
    obtain v where v: "map_of xs key = Some v" using conjunct1 [OF prem] by auto
    have "NODE_HEAD_SIZE + Suc (length xs) * item_size sb \<le> unat (sb_block_size sb)"
      if "length (below (cb_keycmp cb) key xs) + 1 < length xs"
      using conjunct2 [OF prem] that unfolding i_def by simp
    then show ?thesis unfolding i_def using leaf_remove_map [OF assms(1-3) v] by blast
  qed
  show "\<exists>n'. leaf_inline_replace sb n (of_nat i) value sz = Some n' \<and> leaf_node sb cb n' (put_item cb key (take (unat sz) value) xs)"
    if "map_of xs key = Some v \<and> length v = unat sz" for v
    unfolding i_def using leaf_replace_map [OF assms(1-3) conjunct1 [OF that] conjunct2 [OF that] assms(4)] by blast
  show "\<exists>l' r'. leaf_split sb n r = Some (l', r') \<and> leaf_node sb cb l' (take (length xs div 2) xs)
      \<and> leaf_node sb cb r' (drop (length xs div 2) xs)"
    if "xs \<noteq> [] \<and> leaf_node sb cb r []" for r
    using leaf_split_node [OF assms(2)] that by blast
qed

text \<open>A leaf of nine items with values of eight bytes, which has six bytes left.\<close>

definition nine_items :: "leaf_item list" where
  "nine_items = map (\<lambda>b. (sample_key b, replicate 8 b)) [1, 2, 3, 4, 5, 6, 7, 8, 9]"

lemma leaf_operations_typed_witness:
  "leaf_index_search sample_super sample_cb (sample_leaf nine_items) (Some (sample_key 9)) = Some (True, 8)
    \<and> (\<exists>sb' n'. leaf_remove sample_super (sample_leaf nine_items) 8 = Some (sb', n')
         \<and> leaf_node sb' sample_cb n' (butlast nine_items))
    \<and> (\<exists>l' r'. leaf_split sample_super (sample_leaf nine_items) (sample_leaf []) = Some (l', r')
         \<and> leaf_node sample_super sample_cb l' (take 4 nine_items) \<and> leaf_node sample_super sample_cb r' (drop 4 nine_items))"
proof -
  have leaf: "leaf_node sample_super sample_cb (sample_leaf nine_items) nine_items"
    by (rule sample_leaf_node) (simp_all add: nine_items_def sample_used)
  have empty: "leaf_node sample_super sample_cb (sample_leaf []) []" by (rule sample_leaf_node) (simp_all add: sample_used)
  have len: "length (sample_key 9) = unat (sb_key_size sample_super)" by (simp add: sample_super_sizes)
  have idx: "length (below (cb_keycmp sample_cb) (sample_key 9) nine_items) = 8" "map_of nine_items (sample_key 9) = Some (replicate 8 9)"
    "drop_item sample_cb (sample_key 9) nine_items = butlast nine_items" "length nine_items div 2 = 4" "8 + 1 = length nine_items"
    "nine_items \<noteq> []"
    by (simp_all add: below_def from_key_def drop_item_def sample_cb_def nine_items_def)
  have "1 \<le> length [9 :: u8]" by simp
  then have "unat (1 :: u32) \<le> length [9 :: u8]" by simp
  note all = leaf_operations_typed [OF sample_order leaf len this, unfolded idx(1-4)]
  show ?thesis using all empty idx(5,6) by auto
qed

text \<open>C37. On a tree of btree.c in memory of any height, in which each key of a twig is the last key below it and no leaf
  is empty, the operations refine those on the map of the items: \<open>btree_lookup\<close> stores the value of the key, or as much
  of it as the buffer takes, and changes nothing; \<open>btree_insert\<close> of a new key whose leaf has room for the item (no split)
  and of a value of the size of the old one, and \<open>btree_remove\<close> of a key whose leaf has another item and room for one
  more head, return 0 and leave a tree of the same height with the map updated; removing a key that is not there returns
  2. Insertions into a full leaf, replacements that change the size and removals of the last item of a leaf are not
  covered. For a new key the code compares its size with one that was never set, which \<open>junk\<close> stands for: the map is
  updated when they differ; when they are equal and the next key in the leaf has a value of that size, the insertion
  returns 0, the value of that other key is overwritten, and the new key is not inserted.\<close>

theorem btree_refines_map:
  assumes "tree_holds t l T" "length key = unat (sb_key_size (bt_super t))" "unat sz \<le> length buffer"
  defines "m \<equiv> map_of (items_of T)" and "leaf \<equiv> leaf_items t l T key" and "sb \<equiv> bt_super t"
  shows "btree_lookup t key buffer sz = Some (case m key of None \<Rightarrow> (0, buffer, t)
        | Some v \<Rightarrow> (min sz (of_nat (length v)), splice buffer 0 (take (unat sz) v), t))
    \<and> (m key = None \<and> junk \<noteq> sz \<and> leaf_used sb leaf + item_size sb + unat sz \<le> unat (sb_block_size sb)
        \<longrightarrow> (\<exists>t' T'. btree_insert junk t key buffer sz = Some (0, t') \<and> tree_holds t' l T' \<and> map_of (items_of T') = m(key \<mapsto> take (unat sz) buffer)))
    \<and> (\<forall>k v zs. m key = None \<and> junk = sz \<and> from_key (cb_keycmp (bt_cb t)) key leaf = (k, v) # zs \<and> length v = unat sz
        \<longrightarrow> (\<exists>t' T'. btree_insert junk t key buffer sz = Some (0, t') \<and> tree_holds t' l T' \<and> map_of (items_of T') = m(k \<mapsto> take (unat sz) buffer)))
    \<and> (\<forall>v. m key = Some v \<and> length v = unat sz
        \<longrightarrow> (\<exists>t' T'. btree_insert junk t key buffer sz = Some (0, t') \<and> tree_holds t' l T' \<and> map_of (items_of T') = m(key \<mapsto> take (unat sz) buffer)))
    \<and> (m key \<noteq> None \<and> 2 \<le> length leaf \<and> NODE_HEAD_SIZE + Suc (length leaf) * item_size sb \<le> unat (sb_block_size sb)
        \<longrightarrow> (\<exists>t' T'. btree_remove t key = Some (0, t') \<and> tree_holds t' l T' \<and> map_of (items_of T') = m(key := None)))
    \<and> (m key = None \<longrightarrow> btree_remove t key = Some (2, t))"
proof (intro conjI allI impI)
  show "btree_lookup t key buffer sz = Some (case m key of None \<Rightarrow> (0, buffer, t)
      | Some v \<Rightarrow> (min sz (of_nat (length v)), splice buffer 0 (take (unat sz) v), t))"
    unfolding m_def using assms(3) by (intro btree_lookup_tree [OF assms(1,2)]) simp
  show "\<exists>t' T'. btree_insert junk t key buffer sz = Some (0, t') \<and> tree_holds t' l T' \<and> map_of (items_of T') = m(key \<mapsto> take (unat sz) buffer)"
    if "m key = None \<and> junk \<noteq> sz \<and> leaf_used sb leaf + item_size sb + unat sz \<le> unat (sb_block_size sb)"
    using that btree_insert_new [OF assms(1,2) _ assms(3)] unfolding m_def leaf_def sb_def by blast
  show "\<exists>t' T'. btree_insert junk t key buffer sz = Some (0, t') \<and> tree_holds t' l T' \<and> map_of (items_of T') = m(k \<mapsto> take (unat sz) buffer)"
    if "m key = None \<and> junk = sz \<and> from_key (cb_keycmp (bt_cb t)) key leaf = (k, v) # zs \<and> length v = unat sz" for k v zs
    using that btree_insert_overwrites [OF assms(1,2) _ _ _ assms(3)] unfolding m_def leaf_def by blast
  show "\<exists>t' T'. btree_insert junk t key buffer sz = Some (0, t') \<and> tree_holds t' l T' \<and> map_of (items_of T') = m(key \<mapsto> take (unat sz) buffer)"
    if "m key = Some v \<and> length v = unat sz" for v
    using that btree_insert_same_size [OF assms(1,2) _ _ assms(3)] unfolding m_def by blast
  show "\<exists>t' T'. btree_remove t key = Some (0, t') \<and> tree_holds t' l T' \<and> map_of (items_of T') = m(key := None)"
    if "m key \<noteq> None \<and> 2 \<le> length leaf \<and> NODE_HEAD_SIZE + Suc (length leaf) * item_size sb \<le> unat (sb_block_size sb)"
    using that btree_remove_held [OF assms(1,2)] unfolding m_def leaf_def sb_def by blast
  show "btree_remove t key = Some (2, t)" if "m key = None"
    using btree_remove_absent [OF assms(1,2)] that unfolding m_def by blast
qed

lemma btree_refines_map_witness:
  "btree_lookup sample_tree (sample_key 5) [7, 7] 2 = Some (0, [7, 7], sample_tree)
    \<and> (\<exists>t' T'. btree_insert 99 sample_tree (sample_key 5) [7, 7] 2 = Some (0, t') \<and> tree_holds t' 2 T'
         \<and> map_of (items_of T') = (map_of (items_of sample_shape))(sample_key 5 \<mapsto> [7, 7]))
    \<and> btree_lookup sample_tree (sample_key 1) [7, 7] 2 = Some (1, [1, 7], sample_tree)
    \<and> (\<exists>t' T'. btree_remove sample_tree (sample_key 1) = Some (0, t') \<and> tree_holds t' 2 T'
         \<and> map_of (items_of T') = (map_of (items_of sample_shape))(sample_key 1 := None))
    \<and> (\<exists>t' T'. btree_insert 1 sample_tree (sample_key 0) [9] 1 = Some (0, t') \<and> tree_holds t' 2 T'
         \<and> map_of (items_of T') = (map_of (items_of sample_shape))(sample_key 1 \<mapsto> [9]))"
proof -
  have len: "length (sample_key b) = unat (sb_key_size (bt_super sample_tree))" for b by (simp add: sample_tree_def sample_super_sizes)
  have sz: "unat (2 :: u32) \<le> length [7, 7 :: u8]" by simp
  have sup: "bt_super sample_tree = sample_super" by (simp add: sample_tree_def)
  have m: "map_of (items_of sample_shape) (sample_key 5) = None" "map_of (items_of sample_shape) (sample_key 1) = Some [1]"
    "map_of (items_of sample_shape) (sample_key 0) = None"
    by (simp_all add: sample_shape_def sample_items_def)
  have room: "leaf_used sample_super (sample_items 3) + item_size sample_super + unat (2 :: u32) \<le> unat (sb_block_size sample_super)"
    "2 \<le> length (sample_items 1)" "NODE_HEAD_SIZE + Suc (length (sample_items 1)) * item_size sample_super \<le> unat (sb_block_size sample_super)"
    by (simp_all add: sample_used sample_super_sizes sample_items_def NODE_HEAD_SIZE_def)
  have sp: "splice [7, 7 :: u8] 0 (take (unat (2 :: u32)) [1]) = [1, 7]" by (simp add: splice_def)
  note five = btree_refines_map [OF sample_tree_holds len [of 5] sz, of 99, unfolded sup sample_leaf_items m]
  note one = btree_refines_map [OF sample_tree_holds len [of 1] sz, of 99, unfolded sup sample_leaf_items m]
  have sz1: "unat (1 :: u32) \<le> length [9 :: u8]" by simp
  have "from_key (cb_keycmp (bt_cb sample_tree)) (sample_key 0) (sample_items 1) = (sample_key 1, [1]) # [(sample_key 2, [2])]"
    by (simp add: from_key_def sample_tree_def sample_cb_def sample_items_def)
  moreover have "length [1 :: u8] = unat (1 :: u32)" by simp
  moreover note btree_refines_map [OF sample_tree_holds len [of 0] sz1, of 1, unfolded sup sample_leaf_items m, THEN conjunct2, THEN conjunct2, THEN conjunct1]
  ultimately have "\<exists>t' T'. btree_insert 1 sample_tree (sample_key 0) [9] 1 = Some (0, t') \<and> tree_holds t' 2 T'
      \<and> map_of (items_of T') = (map_of (items_of sample_shape))(sample_key 1 \<mapsto> take (unat (1 :: u32)) [9])" by blast
  moreover have "take (unat (1 :: u32)) [9] = [9 :: u8]" by simp
  ultimately show ?thesis using five one room sp by simp
qed

text \<open>A tree made by \<open>btree_create\<close> without prefix keys is empty, and the first \<open>btree_insert\<close> makes its root a
  leaf with the item: from then on the tree is one of those the operations refine a map on; removing the only item
  leaves an empty leaf that is such a tree again.\<close>

theorem btree_first_item:
  assumes "NODE_HEAD_SIZE + 4 * (ITEM_HEAD_SIZE + unat (push_bit 2 key_size)) \<le> unat block_size"
    and "key_order cmp (unat (ucast key_size :: u16))" "bt_fresh t \<noteq> 0" "never_refuses (bt_alk t)" "sz \<noteq> junk"
    and "length key = unat (ucast key_size :: u16)" "unat sz \<le> length value"
    and "NODE_HEAD_SIZE + ITEM_HEAD_SIZE + unat (ucast key_size :: u16) + unat sz \<le> unat block_size"
  shows "\<exists>t1 t2 T. btree_create t cache_size off block_size fmt key_size magic node_magic cmp = Some (0, t1)
    \<and> btree_insert junk t1 key value sz = Some (0, t2) \<and> tree_holds t2 1 T \<and> items_of T = [(key, take (unat sz) value)]
    \<and> (\<exists>t3 T'. btree_remove t2 key = Some (0, t3) \<and> tree_holds t3 1 T' \<and> map_of (items_of T') = Map.empty)"
proof -
  obtain t1 where c: "btree_create t cache_size off block_size fmt key_size magic node_magic cmp = Some (0, t1)" "tree_empty t1"
    "sb_key_size (bt_super t1) = ucast key_size" "sb_block_size (bt_super t1) = block_size" "never_refuses (bt_alk t1)"
    using btree_create_empty [OF assms(1-3)] assms(4) by blast
  have room: "leaf_used (bt_super t1) [] + item_size (bt_super t1) + unat sz \<le> unat (sb_block_size (bt_super t1))"
    using assms(8) c(3,4) by (simp add: leaf_used_def item_size_def)
  have len: "length key = unat (sb_key_size (bt_super t1))" using assms(6) c(3) by simp
  obtain t2 T where i: "btree_insert junk t1 key value sz = Some (0, t2)" "tree_holds t2 1 T" "items_of T = [(key, take (unat sz) value)]"
    "sb_node_count (bt_super t2) = 1" "sb_key_size (bt_super t2) = sb_key_size (bt_super t1)"
    using btree_insert_first [OF c(2) len assms(7) room c(5)] by blast
  have "\<exists>t3 T'. btree_remove t2 key = Some (0, t3) \<and> tree_holds t3 1 T' \<and> map_of (items_of T') = (map_of (items_of T))(key := None)"
    by (rule btree_remove_last [OF i(2)]) (use i(3,4,5) assms(6) c(3) in simp_all)
  moreover have "(map_of (items_of T))(key := None) = Map.empty" using i(3) by auto
  ultimately show ?thesis using c(1) i(1-3) by metis
qed

lemma btree_first_item_witness:
  "\<exists>t1 t2 T. btree_create sample_tree 4 512 256 0 10 0xf5bc2eac 0xb4e6 test_keycmp = Some (0, t1)
    \<and> btree_insert 99 t1 (sample_key 5) [7, 7] 2 = Some (0, t2) \<and> tree_holds t2 1 T \<and> items_of T = [(sample_key 5, [7, 7])]"
proof -
  have o: "key_order test_keycmp (unat (ucast (10 :: u32) :: u16))" using test_key_order by (simp add: KEYSZ_def)
  have k: "unat (ucast (10 :: u32) :: u16) = 10" by simp
  have a: "bt_fresh sample_tree \<noteq> 0" "never_refuses (bt_alk sample_tree)" "(2 :: u32) \<noteq> 99" by (simp_all add: sample_tree_def)
  have b: "NODE_HEAD_SIZE + 4 * (ITEM_HEAD_SIZE + unat (push_bit 2 (10 :: u32))) \<le> unat (256 :: u32)"
    by (simp add: NODE_HEAD_SIZE_def ITEM_HEAD_SIZE_def)
  have c: "length (sample_key 5) = unat (ucast (10 :: u32) :: u16)" "unat (2 :: u32) \<le> length [7, 7 :: u8]"
    "NODE_HEAD_SIZE + ITEM_HEAD_SIZE + unat (ucast (10 :: u32) :: u16) + unat (2 :: u32) \<le> unat (256 :: u32)"
    by (simp_all add: NODE_HEAD_SIZE_def ITEM_HEAD_SIZE_def)
  show ?thesis using btree_first_item [OF b o a c, of 4 512 0 "0xf5bc2eac" "0xb4e6"] by auto
qed

end
