(* ===== verification/Btree_Store.thy ===== *)
theory Btree_Store
  imports Btree_Ops Btree_Cache_Correct
begin

unbundle bit_operations_syntax

section \<open>A tree of one leaf on the disk\<close>

text \<open>
  \<open>btree_close\<close> of a tree of one leaf that was never written, \<open>btree_open\<close>, and \<open>btree_lookup\<close> in what was opened,
  for any disk that keeps the contract of the locale \<open>block_disk\<close>: what is written at the end or at a place is there
  afterwards, what is elsewhere stays, and a read gives what is stored.
\<close>

subsection \<open>The super block and the checksum of a node\<close>

lemma length_super_bytes [simp]: "length (super_bytes s) = 64"
  by (simp add: super_bytes_def)

lemma super_of_bytes: "super_of (super_bytes s) = Some s"
  by (simp add: super_of_def super_bytes_def load_def buf_read_def of_bytes_to_bytes)

lemma crc_store:
  assumes "leaf_rep sb d xs" "nh_level d = Some 1"
  shows "\<exists>d'. store d 0 (c :: u32) = Some d' \<and> length d' = length d \<and> drop 4 d' = drop 4 d \<and> nh_crc d' = Some c
    \<and> leaf_rep sb d' xs \<and> nh_level d' = Some 1"
proof -
  obtain pre gap where d: "d = leaf_image pre (length d) xs gap" "length pre = 8" and k: "keys_sized sb xs" "length d = unat (sb_block_size sb)"
    using assms(1) by (auto simp: leaf_rep_def)
  obtain a b where ab: "pre = a @ b" "length a = 4" using cut_list [of 4 pre] d(2) by auto
  then have lb: "length b = 4" using d(2) by simp
  define e where "e = length d"
  define r where "r = b @ to_bytes (of_nat (length xs) :: u32) @ to_bytes (of_nat (length gap) :: u32) @ entries e xs @ gap @ bodies xs"
  have img: "d = a @ r" unfolding r_def using d(1) ab(1) by (simp add: leaf_image_def e_def)
  let ?d = "to_bytes c @ r"
  have s: "store d 0 c = Some ?d" unfolding img using store_app [of "[]" 0 a r c] ab(2) by simp
  have l: "length ?d = length d" unfolding img using ab(2) by simp
  have img': "?d = leaf_image (to_bytes c @ b) (length ?d) xs gap" unfolding l by (simp add: leaf_image_def r_def e_def)
  have "length (to_bytes c @ b) = 8" using lb by simp
  then have "leaf_rep sb ?d xs" unfolding leaf_rep_def using img' k l by metis
  moreover have dr: "drop 4 ?d = drop 4 d" unfolding img using ab(2) by simp
  moreover have "nh_crc ?d = Some c" unfolding nh_crc_def using load_app [of "[]" 0 c r] by simp
  moreover have "nh_level ?d = nh_level d"
  proof -
    have "drop 7 ?d = drop 7 d" using arg_cong [OF dr, of "drop 3"] by simp
    then show ?thesis using l by (simp add: nh_level_def load_def buf_read_def)
  qed
  ultimately show ?thesis using s l assms(2) by metis
qed

lemma clean_flags [simp]: "\<not> node_is_dirty (node_set_clean n)"
  by (simp add: node_is_dirty_def node_set_clean_def and.assoc)

text \<open>A block that the root of a super block points to, with the items \<open>xs\<close>.\<close>

definition block_image :: "'d disk_ops \<Rightarrow> super \<Rightarrow> callbacks \<Rightarrow> u8 list \<Rightarrow> leaf_item list \<Rightarrow> bool" where
  "block_image ops sb cb d xs \<longleftrightarrow> leaf_rep sb d xs \<and> nh_level d = Some 1 \<and> in_order (cb_keycmp cb) (map fst xs)
     \<and> sb_root_size sb = sb_block_size sb \<and> sb_root_crc sb = dk_crc_pointer ops d \<and> nh_crc d = Some (dk_crc_block ops (drop 4 d))"

text \<open>A tree of one leaf that no one uses and that was never written.\<close>

definition leaf_tree :: "'d btree \<Rightarrow> leaf_item list \<Rightarrow> bool" where
  "leaf_tree t xs \<longleftrightarrow> tree_holds t 1 (BLeaf (bt_root t) xs)
     \<and> (\<exists>n. bt_nodes t (bt_root t) = Some n \<and> bn_refs n = 0 \<and> bn_blocknr n = 0 \<and> bn_pointers n = None)"

lemma leaf_tree_root:
  assumes "leaf_tree t xs"
  shows "\<exists>n d. bt_root t \<noteq> 0 \<and> bt_nodes t (bt_root t) = Some n \<and> bn_refs n = 0 \<and> bn_blocknr n = 0 \<and> bn_pointers n = None
    \<and> node_is_dirty n \<and> bn_data n = Some d \<and> leaf_rep (bt_super t) d xs \<and> nh_level d = Some 1
    \<and> in_order (cb_keycmp (bt_cb t)) (map fst xs) \<and> plain (bt_super t) (bt_cb t)"
  using assms by (auto simp: leaf_tree_def tree_holds_def leaf_node_def node_live_def)

text \<open>What \<open>node_sync\<close> makes of the node.\<close>

definition written_node :: "bnode \<Rightarrow> u8 list \<Rightarrow> u64 \<Rightarrow> u32 \<Rightarrow> bnode" where
  "written_node n d p sz = (node_set_clean (node_set_on_disk n))\<lparr>bn_data := Some d, bn_blocknr := p, bn_size := sz\<rparr>"

lemma written_node_simps [simp]:
  "bn_data (written_node n d p sz) = Some d" "bn_blocknr (written_node n d p sz) = p" "bn_refs (written_node n d p sz) = bn_refs n"
  "bn_pointers (written_node n d p sz) = bn_pointers n" "\<not> node_is_dirty (written_node n d p sz)"
  by (simp_all add: written_node_def node_set_clean_def node_set_on_disk_def node_is_dirty_def and.assoc)

lemma leaf_sync:
  assumes "bt_nodes t p = Some n" "bn_refs n = 1" "node_is_dirty n" "bn_data n = Some d" "bn_blocknr n = 0"
    and "leaf_rep (bt_super t) d xs" "nh_level d = Some 1"
  defines "sz \<equiv> sb_block_size (bt_super t)" and "ops \<equiv> bt_ops t"
  assumes "store d 0 (dk_crc_block ops (drop 4 d)) = Some d'" "length d' = length d"
    and "dk_write ops (bt_disk t) 0 (bn_size n) d' = (q, k)"
  shows "node_sync tree_fuel t p null_pointer = Some (0, \<lparr>np_blocknr = q, np_crc = dk_crc_pointer ops d', np_size = sz\<rparr>,
    t\<lparr>bt_disk := k, bt_nodes := (bt_nodes t)(p \<mapsto> written_node n d' q sz)\<rparr>)"
proof -
  have l: "length d = unat sz" using assms(6) by (simp add: leaf_rep_def sz_def)
  have r: "buf_read d 0 (unat sz) = Some d" "buf_read d' 0 (unat sz) = Some d'" using l assms(11) by (simp_all add: buf_read_def)
  have int: "node_is_internal n = Some False" using assms(4,7) by (simp add: node_is_internal_def node_level_def LEAF_NODE_LEVEL_def)
  have it: "node_items n = Some (of_nat (length xs))" using leaf_rep_items(1) [OF assms(6)] assms(4) by (simp add: node_items_def)
  have step: "node_sync (Suc f) t p null_pointer = Some (0, \<lparr>np_blocknr = q, np_crc = dk_crc_pointer ops d', np_size = sz\<rparr>,
    t\<lparr>bt_disk := k, bt_nodes := (bt_nodes t)(p \<mapsto> written_node n d' q sz)\<rparr>)" for f
    using assms(1-5,10,12) r int it by (simp add: on_node_def written_node_def sz_def [symmetric] ops_def [symmetric])
  have fuel: "tree_fuel = Suc 256" by (simp add: tree_fuel_def)
  show ?thesis unfolding fuel by (rule step)
qed

lemma level_alloc_makes:
  assumes "never_refuses (bt_alk t)"
  shows "\<exists>n a. btnode_level_alloc t l
      = (bt_fresh t, t\<lparr>bt_alk := a, bt_fresh := bt_fresh t + 1, bt_nodes := (bt_nodes t)(bt_fresh t \<mapsto> n)\<rparr>)
    \<and> never_refuses a \<and> bn_data n = None \<and> bn_refs n = 1 \<and> \<not> node_is_dirty n"
proof -
  obtain a where a: "mmalloc (btnode_bytes + (if l = LEAF_NODE_LEVEL then 0 else unat (sb_fanout (bt_super t)) * 8)) (bt_alk t) = (True, a)"
    "never_refuses a"
    using mmalloc_never_refuses [OF assms] by (metis surj_pair)
  let ?n = "\<lparr>bn_pointers = (if l = LEAF_NODE_LEVEL then None else Some (replicate (unat (sb_fanout (bt_super t))) 0)), bn_data = None,
             bn_blocknr = 0, bn_size = 0, bn_flags = 0, bn_refs = 1\<rparr>"
  have "btnode_level_alloc t l
      = (bt_fresh t, t\<lparr>bt_alk := a, bt_fresh := bt_fresh t + 1, bt_nodes := (bt_nodes t)(bt_fresh t \<mapsto> ?n)\<rparr>)"
    unfolding btnode_level_alloc_def Let_def a(1) by simp
  moreover have "bn_data ?n = None \<and> bn_refs ?n = 1 \<and> \<not> node_is_dirty ?n" by (simp add: node_is_dirty_def)
  ultimately show ?thesis using a(2) by (intro exI [of _ ?n] exI [of _ a]) blast
qed

subsection \<open>The disk\<close>

locale block_disk =
  fixes ops :: "'d disk_ops"
    and stored :: "'d \<Rightarrow> u64 \<Rightarrow> u8 list \<Rightarrow> bool"
    and fine :: "'d \<Rightarrow> bool"
    and tail :: "'d \<Rightarrow> u64"
  assumes append_stores: "fine k \<Longrightarrow> length bs < 2 ^ 32 \<Longrightarrow> dk_write ops k 0 sz bs = (p, k') \<Longrightarrow> p = tail k \<and> stored k' p bs \<and> fine k'"
    and write_stores: "fine k \<Longrightarrow> length bs < 2 ^ 32 \<Longrightarrow> off \<noteq> 0 \<Longrightarrow> dk_write ops k off sz bs = (p, k')
      \<Longrightarrow> p = off \<and> stored k' off bs \<and> fine k'"
    and write_keeps: "fine k \<Longrightarrow> length bs < 2 ^ 32 \<Longrightarrow> off \<noteq> 0 \<Longrightarrow> dk_write ops k off sz bs = (p, k') \<Longrightarrow> stored k q xs
      \<Longrightarrow> unat off + length bs \<le> unat q \<Longrightarrow> stored k' q xs"
    and read_stored: "fine k \<Longrightarrow> stored k p bs \<Longrightarrow> bs \<noteq> [] \<Longrightarrow> length bs = unat n \<Longrightarrow> dk_read ops k p n = (True, bs)"

begin

text \<open>A disk with a super block at \<open>off\<close> and the block of the only leaf.\<close>

definition on_disk :: "'d \<Rightarrow> u64 \<Rightarrow> super \<Rightarrow> callbacks \<Rightarrow> leaf_item list \<Rightarrow> bool" where
  "on_disk k off sb cb xs \<longleftrightarrow> fine k \<and> stored k off (super_bytes sb) \<and> plain sb cb
     \<and> (\<exists>d. stored k (sb_root sb) d \<and> block_image ops sb cb d xs)"

lemma close_leaf:
  assumes "leaf_tree t xs" "bt_ops t = ops" "fine (bt_disk t)" "bc_inv (bt_cache t) A B bkt Map.empty" "never_refuses (bt_alk t)"
    and "bt_super_offset t \<noteq> 0" "unat (bt_super_offset t) + 64 \<le> unat (tail (bt_disk t))"
  shows "\<exists>t' sb. btree_close t = Some (0, t') \<and> on_disk (bt_disk t') (bt_super_offset t) sb (bt_cb t) xs
    \<and> sb_magic sb = sb_magic (bt_super t) \<and> sb_node_magic sb = sb_node_magic (bt_super t) \<and> sb_key_size sb = sb_key_size (bt_super t)"
proof -
  let ?sb = "bt_super t" and ?cb = "bt_cb t" and ?p = "bt_root t" and ?off = "bt_super_offset t"
  let ?sz = "sb_block_size (bt_super t)"
  obtain n d where n: "?p \<noteq> 0" "bt_nodes t ?p = Some n" "bn_refs n = 0" "bn_blocknr n = 0" "bn_pointers n = None" "node_is_dirty n"
    "bn_data n = Some d" and d: "leaf_rep ?sb d xs" "nh_level d = Some 1" and o: "in_order (cb_keycmp ?cb) (map fst xs)" and pl: "plain ?sb ?cb"
    using leaf_tree_root [OF assms(1)] by blast
  let ?n1 = "n\<lparr>bn_refs := 1\<rparr>"
  let ?t1 = "t\<lparr>bt_nodes := (bt_nodes t)(?p \<mapsto> ?n1)\<rparr>"
  have fetch: "btree_fetch_root t = Some (?p, ?t1)"
    using n by (simp add: btree_fetch_root_def on_node_def btnode_read_def)
  obtain d' where d': "store d 0 (dk_crc_block ops (drop 4 d)) = Some d'" "length d' = length d" "drop 4 d' = drop 4 d"
    "nh_crc d' = Some (dk_crc_block ops (drop 4 d))" "leaf_rep ?sb d' xs" "nh_level d' = Some 1"
    using crc_store [OF d] by blast
  obtain q k1 where w1: "dk_write ops (bt_disk t) 0 (bn_size n) d' = (q, k1)" by fastforce
  have len: "length d' < 2 ^ 32" using d'(5) unsigned_less [where 'a = nat, of ?sz] by (simp add: leaf_rep_def)
  have s1: "q = tail (bt_disk t)" "stored k1 q d'" "fine k1" using append_stores [OF assms(3) len w1] by auto
  let ?n2 = "written_node ?n1 d' q ?sz"
  let ?ptr = "\<lparr>np_blocknr = q, np_crc = dk_crc_pointer ops d', np_size = ?sz\<rparr>"
  let ?t2 = "?t1\<lparr>bt_disk := k1, bt_nodes := (bt_nodes t)(?p \<mapsto> ?n2)\<rparr>"
  have "node_is_dirty ?n1" using n(6) by (simp add: node_is_dirty_def)
  then have sync: "node_sync tree_fuel ?t1 ?p null_pointer = Some (0, ?ptr, ?t2)"
    using leaf_sync [of ?t1 ?p ?n1 d xs d' q k1] n(4,7) d d'(1,2) w1 assms(2) by simp
  obtain a c A' B' bkt' where add: "btcache_add (bt_alk t) (bt_cache t) q (Some d') = Some (0, a, c)" "bc_inv c A' B' bkt' [q \<mapsto> d']"
    using add_correct [OF assms(4,5), of q d'] by auto
  have can: "btcache_can_add (bt_cache t)" using assms(4) by (simp add: btcache_can_add_def bc_inv_def bc_keeps_def hashed_def)
  let ?n3 = "?n2\<lparr>bn_refs := 0, bn_data := None\<rparr>"
  let ?t3 = "?t2\<lparr>bt_alk := a, bt_cache := c, bt_nodes := (bt_nodes t)(?p \<mapsto> ?n3)\<rparr>"
  have rel: "btnode_release ?t2 ?p = Some ?t3"
    using add(1) can by (simp add: btnode_release_def on_node_def)
  let ?sb' = "?sb\<lparr>sb_root := q, sb_root_size := ?sz, sb_root_crc := dk_crc_pointer ops d'\<rparr>"
  obtain r k2 where w2: "dk_write ops k1 ?off (of_nat SUPER_BLOCK_SIZE) (super_bytes ?sb') = (r, k2)" by fastforce
  have s2: "r = ?off" "stored k2 ?off (super_bytes ?sb')" "fine k2" using write_stores [OF s1(3) _ assms(6) w2] by auto
  have s3: "stored k2 q d'" using write_keeps [OF s1(3) _ assms(6) w2 s1(2)] assms(7) s1(1) by simp
  let ?t4 = "?t3\<lparr>bt_super := ?sb', bt_disk := k2, bt_super_offset := r\<rparr>"
  have "mem_nodes_release (Suc f) ?t4 ?p = Some (?t4\<lparr>bt_nodes := (bt_nodes t)(?p := None), bt_alk := mmfree a\<rparr>)" for f
    using n(5) by (simp add: btnode_free_def drop_node_def)
  moreover have "tree_fuel = Suc 256" by (simp add: tree_fuel_def)
  ultimately have free: "mem_nodes_release tree_fuel ?t4 ?p = Some (?t4\<lparr>bt_nodes := (bt_nodes t)(?p := None), bt_alk := mmfree a\<rparr>)" by metis
  let ?t5 = "?t4\<lparr>bt_nodes := (bt_nodes t)(?p := None), bt_alk := mmfree a, bt_root := 0\<rparr>"
  have "btree_sync t = Some (0, ?t5)"
    unfolding btree_sync_def using n(1) fetch sync rel w2 free assms(2) by simp
  moreover obtain a' c' where "btcache_close (mmfree a) c = Some (a', c')" using close_correct [OF add(2)] by blast
  ultimately have "btree_close t = Some (0, ?t5\<lparr>bt_alk := a', bt_cache := c'\<rparr>)" by (simp add: btree_close_def)
  moreover have "on_disk k2 ?off ?sb' ?cb xs"
  proof -
    have "same_shape ?sb ?sb'" by (simp add: same_shape_def)
    then have "leaf_rep ?sb' d' xs" using same_shape_simps(2) d'(5) by metis
    then have "block_image ops ?sb' ?cb d' xs" using d'(3,4,6) o by (simp add: block_image_def)
    moreover have "plain ?sb' ?cb = plain ?sb ?cb" by (simp add: plain_def)
    ultimately show ?thesis using s2 s3 pl by (auto simp: on_disk_def)
  qed
  ultimately show ?thesis
    by (intro exI [of _ "?t5\<lparr>bt_alk := a', bt_cache := c'\<rparr>"] exI [of _ ?sb']) simp
qed

subsection \<open>Opening and looking up\<close>

text \<open>A tree that was opened: its root is not in memory, or is there without its block, which the cache may have.\<close>

definition served :: "'d btree \<Rightarrow> u8 list \<Rightarrow> leaf_item list \<Rightarrow> bool" where
  "served t d xs \<longleftrightarrow> plain (bt_super t) (bt_cb t) \<and> block_image ops (bt_super t) (bt_cb t) d xs \<and> fine (bt_disk t)
     \<and> stored (bt_disk t) (sb_root (bt_super t)) d \<and> bt_ops t = ops \<and> never_refuses (bt_alk t) \<and> bt_fresh t \<noteq> 0
     \<and> (\<exists>A B bkt m. bc_inv (bt_cache t) A B bkt m \<and> m \<subseteq>\<^sub>m [sb_root (bt_super t) \<mapsto> d] \<and> (bt_root t = 0 \<longrightarrow> m = Map.empty)
          \<and> (bt_root t \<noteq> 0 \<longrightarrow> (\<exists>n. bt_nodes t (bt_root t) = Some n \<and> bn_data n = None \<and> bn_refs n = 0 \<and> \<not> node_is_dirty n
               \<and> bn_blocknr n = sb_root (bt_super t))))"

lemma open_leaf:
  assumes "on_disk (bt_disk u) off sb \<lparr>cb_keycpy = None, cb_prefix_keycmp = cmp, cb_keycmp = cmp\<rparr> xs" "bt_ops u = ops"
    and "never_refuses (bt_alk u)" "csz \<noteq> 0" "bc_nodes (bt_cache u) = Map.empty" "0 < bc_fresh (bt_cache u)" "bt_fresh u \<noteq> 0"
  shows "\<exists>t d. btree_open u csz off (sb_magic sb) (sb_node_magic sb) cmp = Some (0, t) \<and> served t d xs
    \<and> bt_super t = sb \<and> bt_cb t = \<lparr>cb_keycpy = None, cb_prefix_keycmp = cmp, cb_keycmp = cmp\<rparr>"
proof -
  let ?cb = "\<lparr>cb_keycpy = None, cb_prefix_keycmp = cmp, cb_keycmp = cmp\<rparr>"
  obtain d where d: "stored (bt_disk u) (sb_root sb) d" "block_image ops sb ?cb d xs" and f: "fine (bt_disk u)" "plain sb ?cb"
    and s: "stored (bt_disk u) off (super_bytes sb)"
    using assms(1) unfolding on_disk_def by blast
  obtain a c A B bkt where c: "btcache_open (bt_alk u) (bt_cache u) csz = Some (0, a, c)" "bc_inv c A B bkt Map.empty" "never_refuses a"
    using open_correct [OF assms(3-6)] by blast
  have "super_bytes sb \<noteq> []" using length_super_bytes [of sb] by (metis list.size(3) zero_neq_numeral)
  then have r: "dk_read ops (bt_disk u) off (of_nat SUPER_BLOCK_SIZE) = (True, super_bytes sb)"
    by (intro read_stored [OF f(1) s]) (simp_all add: SUPER_BLOCK_SIZE_def)
  have w: "buf_write (super_bytes x) 0 (super_bytes sb) = Some (super_bytes sb)" for x
    by (simp add: buf_write_def splice_def)
  let ?t = "u\<lparr>bt_cb := ?cb, bt_super_offset := off, bt_root := 0, bt_alk := a, bt_cache := c, bt_super := sb\<rparr>"
  have "btree_open u csz off (sb_magic sb) (sb_node_magic sb) cmp = Some (0, ?t)"
    using c(1) r w assms(2) by (simp add: btree_open_def btree_prefix_open_def super_of_bytes)
  moreover have "served ?t d xs" unfolding served_def using d f c(2,3) assms(2,7) by auto
  ultimately show ?thesis by (intro exI [of _ ?t] exI [of _ d]) simp
qed

text \<open>The block of the root comes from the cache or from the disk.\<close>

lemma read_served:
  assumes "plain (bt_super t) (bt_cb t)" "block_image ops (bt_super t) (bt_cb t) d xs" "fine (bt_disk t)"
    and "stored (bt_disk t) (sb_root (bt_super t)) d" "bt_ops t = ops" "never_refuses (bt_alk t)"
    and "bc_inv (bt_cache t) A B bkt m" "m \<subseteq>\<^sub>m [sb_root (bt_super t) \<mapsto> d]"
    and "bt_nodes t p = Some n" "bn_data n = None" "\<not> node_is_dirty n" "m = Map.empty \<or> bn_blocknr n = sb_root (bt_super t)"
  shows "\<exists>n' a c A' B' bkt'. btnode_read t p (Some (root_pointer (bt_super t)))
      = Some (True, t\<lparr>bt_alk := a, bt_cache := c, bt_nodes := (bt_nodes t)(p \<mapsto> n')\<rparr>)
    \<and> bn_data n' = Some d \<and> bn_refs n' = bn_refs n \<and> \<not> node_is_dirty n' \<and> bn_blocknr n' = sb_root (bt_super t)
    \<and> never_refuses a \<and> bc_inv c A' B' bkt' Map.empty"
proof -
  let ?sb = "bt_super t" and ?q = "root_pointer (bt_super t)"
  have q: "np_blocknr ?q = sb_root ?sb" "np_crc ?q = dk_crc_pointer ops d" "np_size ?q = sb_block_size ?sb"
    using assms(2) by (simp_all add: root_pointer_def block_image_def)
  obtain r c A' B' bkt' where l: "btcache_lookup (bt_cache t) (sb_root ?sb) = Some (r, c)"
    "bc_inv c A' B' bkt' (m(sb_root ?sb := None))" "r = None \<or> r = m (sb_root ?sb)"
    using lookup_correct [OF assms(7)] by blast
  have "m(sb_root ?sb := None) = Map.empty" using assms(8) by (auto simp: map_le_def fun_eq_iff dom_def split: if_splits)
  then have inv: "bc_inv c A' B' bkt' Map.empty" using l(2) by simp
  show ?thesis
  proof (cases r)
    case (Some b)
    then have "m (sb_root ?sb) = Some b" using l(3) by simp
    then have b: "b = d" "bn_blocknr n = sb_root ?sb" using assms(8,12) by (auto simp: map_le_def dom_def)
    have "btnode_read t p (Some ?q) = Some (True, t\<lparr>bt_alk := bt_alk t, bt_cache := c, bt_nodes := (bt_nodes t)(p \<mapsto> n\<lparr>bn_data := Some d\<rparr>)\<rparr>)"
      using assms(9,10) l(1) Some b(1) q(1) by (simp add: btnode_read_def on_node_def)
    moreover have "\<not> node_is_dirty (n\<lparr>bn_data := Some d\<rparr>)" using assms(11) by (simp add: node_is_dirty_def)
    ultimately show ?thesis using b(2) assms(6) inv by fastforce
  next
    case None
    let ?sz = "unat (sb_block_size ?sb)"
    have rep: "leaf_rep ?sb d xs" using assms(2) by (simp add: block_image_def)
    then have len: "length d = ?sz" by (simp add: leaf_rep_def)
    have ne: "d \<noteq> []" using leaf_rep_free(4) [OF rep] by auto
    have rd: "dk_read ops (bt_disk t) (sb_root ?sb) (sb_block_size ?sb) = (True, d)"
      by (rule read_stored [OF assms(3,4) ne len])
    obtain a where a: "mmalloc ?sz (bt_alk t) = (True, a)" "never_refuses a"
      using mmalloc_never_refuses [OF assms(6)] by (metis surj_pair)
    have w: "buf_write (map f [0..<?sz]) 0 d = Some d" for f using len by (simp add: buf_write_def splice_def)
    have whole: "buf_read d 0 ?sz = Some d" using len by (simp add: buf_read_def)
    have crc: "nh_crc d = Some (dk_crc_block ops (drop 4 d))" using assms(2) by (simp add: block_image_def)
    let ?n = "n\<lparr>bn_blocknr := sb_root ?sb, bn_size := sb_block_size ?sb, bn_flags := 0, bn_data := Some d\<rparr>"
    have "btnode_read t p (Some ?q) = Some (True, t\<lparr>bt_alk := a, bt_cache := c, bt_nodes := (bt_nodes t)(p \<mapsto> ?n)\<rparr>)"
      using assms(5,9,10) l(1) None q rd a(1) w whole crc
      by (simp add: btnode_read_def on_node_def block_alloc_def Let_def)
    moreover have "\<not> node_is_dirty ?n" by (simp add: node_is_dirty_def)
    ultimately show ?thesis using a(2) inv by fastforce
  qed
qed

lemma fetch_served:
  assumes "served t d xs"
  shows "\<exists>p n a c H fr A B bkt. btree_fetch_root t = Some (p, t\<lparr>bt_root := p, bt_alk := a, bt_cache := c, bt_nodes := H, bt_fresh := fr\<rparr>)
    \<and> p \<noteq> 0 \<and> H p = Some n \<and> bn_data n = Some d \<and> bn_refs n = 1 \<and> \<not> node_is_dirty n \<and> bn_blocknr n = sb_root (bt_super t)
    \<and> never_refuses a \<and> fr \<noteq> 0 \<and> bc_inv c A B bkt Map.empty"
proof -
  let ?sb = "bt_super t"
  obtain A B bkt m where i: "bc_inv (bt_cache t) A B bkt m" "m \<subseteq>\<^sub>m [sb_root ?sb \<mapsto> d]" "bt_root t = 0 \<longrightarrow> m = Map.empty"
    and nd: "bt_root t \<noteq> 0 \<longrightarrow> (\<exists>n. bt_nodes t (bt_root t) = Some n \<and> bn_data n = None \<and> bn_refs n = 0 \<and> \<not> node_is_dirty n
               \<and> bn_blocknr n = sb_root ?sb)"
    using assms unfolding served_def by (elim conjE exE) (rule that; assumption)
  have s: "plain ?sb (bt_cb t)" "block_image ops ?sb (bt_cb t) d xs" "fine (bt_disk t)" "stored (bt_disk t) (sb_root ?sb) d"
    "bt_ops t = ops" "never_refuses (bt_alk t)" "bt_fresh t \<noteq> 0"
    using assms by (simp_all add: served_def)
  show ?thesis
  proof (cases "bt_root t = 0")
    case True
    let ?p = "bt_fresh t" and ?l = "unat (sb_height ?sb)"
    obtain n a1 where lv: "btnode_level_alloc t ?l = (?p, t\<lparr>bt_alk := a1, bt_fresh := ?p + 1, bt_nodes := (bt_nodes t)(?p \<mapsto> n)\<rparr>)"
      and a1: "never_refuses a1" and n: "bn_data n = None" "bn_refs n = 1" "\<not> node_is_dirty n"
      using level_alloc_makes [OF s(6), of ?l] by blast
    let ?t1 = "t\<lparr>bt_alk := a1, bt_fresh := ?p + 1, bt_nodes := (bt_nodes t)(?p \<mapsto> n)\<rparr>"
    obtain n' a c A' B' bkt' where r: "btnode_read ?t1 ?p (Some (root_pointer ?sb))
        = Some (True, ?t1\<lparr>bt_alk := a, bt_cache := c, bt_nodes := (bt_nodes ?t1)(?p \<mapsto> n')\<rparr>)"
      "bn_data n' = Some d" "bn_refs n' = bn_refs n" "\<not> node_is_dirty n'" "bn_blocknr n' = sb_root ?sb"
      "never_refuses a" "bc_inv c A' B' bkt' Map.empty"
      using read_served [of ?t1 d xs A B bkt m ?p n] s i True a1 n by auto
    have "btree_fetch_root t = Some (?p, t\<lparr>bt_root := ?p, bt_alk := a, bt_cache := c, bt_nodes := (bt_nodes t)(?p \<mapsto> n'), bt_fresh := ?p + 1\<rparr>)"
      using True lv r(1) s(7) by (simp add: btree_fetch_root_def btnode_fetch_def)
    then show ?thesis using r n(2) s(7)
      by (intro exI [of _ ?p] exI [of _ n'] exI [of _ a] exI [of _ c] exI [of _ "(bt_nodes t)(?p \<mapsto> n')"] exI [of _ "?p + 1"]) auto
  next
    case False
    let ?p = "bt_root t"
    obtain n where n: "bt_nodes t ?p = Some n" "bn_data n = None" "bn_refs n = 0" "\<not> node_is_dirty n" "bn_blocknr n = sb_root ?sb"
      using nd False by blast
    let ?n1 = "n\<lparr>bn_refs := 1\<rparr>"
    let ?t1 = "t\<lparr>bt_nodes := (bt_nodes t)(?p \<mapsto> ?n1)\<rparr>"
    have n1: "bn_data ?n1 = None" "\<not> node_is_dirty ?n1" "bn_blocknr ?n1 = sb_root ?sb" using n by (simp_all add: node_is_dirty_def)
    obtain n' a c A' B' bkt' where r: "btnode_read ?t1 ?p (Some (root_pointer ?sb))
        = Some (True, ?t1\<lparr>bt_alk := a, bt_cache := c, bt_nodes := (bt_nodes ?t1)(?p \<mapsto> n')\<rparr>)"
      "bn_data n' = Some d" "bn_refs n' = bn_refs ?n1" "\<not> node_is_dirty n'" "bn_blocknr n' = sb_root ?sb"
      "never_refuses a" "bc_inv c A' B' bkt' Map.empty"
      using read_served [of ?t1 d xs A B bkt m ?p ?n1] s i n1 by auto
    have "btree_fetch_root t = Some (?p, t\<lparr>bt_root := ?p, bt_alk := a, bt_cache := c, bt_nodes := (bt_nodes t)(?p \<mapsto> n'), bt_fresh := bt_fresh t\<rparr>)"
      using False n(1,3) r(1) by (simp add: btree_fetch_root_def on_node_def)
    then show ?thesis using r s(7) False
      by (intro exI [of _ ?p] exI [of _ n'] exI [of _ a] exI [of _ c] exI [of _ "(bt_nodes t)(?p \<mapsto> n')"] exI [of _ "bt_fresh t"]) auto
  qed
qed

lemma lookup_served:
  assumes "served t d xs" "length key = unat (sb_key_size (bt_super t))"
    and "\<And>v. map_of xs key = Some v \<Longrightarrow> min (unat sz) (length v) \<le> length buffer"
  shows "\<exists>t'. btree_lookup t key buffer sz = Some (case map_of xs key of None \<Rightarrow> (0, buffer, t')
      | Some v \<Rightarrow> (min sz (of_nat (length v)), splice buffer 0 (take (unat sz) v), t'))
    \<and> served t' d xs \<and> bt_super t' = bt_super t"
proof -
  let ?sb = "bt_super t" and ?cb = "bt_cb t"
  have s: "plain ?sb ?cb" "block_image ops ?sb ?cb d xs" "fine (bt_disk t)" "stored (bt_disk t) (sb_root ?sb) d" "bt_ops t = ops"
    using assms(1) by (simp_all add: served_def)
  have ko: "key_order (cb_keycmp ?cb) (unat (sb_key_size ?sb))" using s(1) by (simp add: plain_def)
  obtain p n a c H fr A B bkt where f: "btree_fetch_root t = Some (p, t\<lparr>bt_root := p, bt_alk := a, bt_cache := c, bt_nodes := H, bt_fresh := fr\<rparr>)"
    "p \<noteq> 0" "H p = Some n" "bn_data n = Some d" "bn_refs n = 1" "\<not> node_is_dirty n" "bn_blocknr n = sb_root ?sb"
    "never_refuses a" "fr \<noteq> 0" "bc_inv c A B bkt Map.empty"
    using fetch_served [OF assms(1)] by blast
  let ?t1 = "t\<lparr>bt_root := p, bt_alk := a, bt_cache := c, bt_nodes := H, bt_fresh := fr\<rparr>"
  have ln: "leaf_node ?sb ?cb n xs" using s(2) f(4) by (simp add: block_image_def leaf_node_def)
  note lv = leaf_node_level [OF ln] and srch = leaf_search_map [OF ko ln assms(2)]
  let ?pl = "leaf_place ?sb ?cb key xs no_place"
  have "lookup_loop (Suc g) ?t1 (Some key) 1 p no_place = Some (p, ?pl, ?t1)" for g
    using f(2,3) lv(1,3) srch(1) by simp
  then have "lookup_loop tree_fuel ?t1 (Some key) 1 p no_place = Some (p, ?pl, ?t1)" by (metis tree_fuel_def numeral_eq_Suc)
  then have look: "btree_lookup_level t (Some key) 1 no_place = Some (p, ?pl, ?t1)" using f(1) by (simp add: btree_lookup_level_def)
  obtain a' c' A' B' bkt' where add: "btcache_add a c (sb_root ?sb) (Some d) = Some (0, a', c')" "bc_inv c' A' B' bkt' [sb_root ?sb \<mapsto> d]" "never_refuses a'"
    using add_correct [OF f(10,8), of "sb_root ?sb" d] by auto
  have can: "btcache_can_add c" using f(10) by (simp add: btcache_can_add_def bc_inv_def bc_keeps_def hashed_def)
  let ?n = "n\<lparr>bn_refs := 0, bn_data := None\<rparr>"
  let ?t2 = "?t1\<lparr>bt_alk := a', bt_cache := c', bt_nodes := H(p \<mapsto> ?n)\<rparr>"
  have rel: "btnode_release ?t1 p = Some ?t2"
    using f(3-7) add(1) can by (simp add: btnode_release_def on_node_def)
  have "\<not> node_is_dirty ?n" using f(6) by (simp add: node_is_dirty_def)
  then have "bc_inv (bt_cache ?t2) A' B' bkt' [sb_root ?sb \<mapsto> d] \<and> [sb_root ?sb \<mapsto> d] \<subseteq>\<^sub>m [sb_root ?sb \<mapsto> d]
      \<and> (bt_root ?t2 = 0 \<longrightarrow> [sb_root ?sb \<mapsto> d] = Map.empty)
      \<and> (bt_root ?t2 \<noteq> 0 \<longrightarrow> (\<exists>n. bt_nodes ?t2 (bt_root ?t2) = Some n \<and> bn_data n = None \<and> bn_refs n = 0 \<and> \<not> node_is_dirty n
           \<and> bn_blocknr n = sb_root ?sb))"
    using f(2,7) add(2) by simp
  then have "\<exists>A B bkt m. bc_inv (bt_cache ?t2) A B bkt m \<and> m \<subseteq>\<^sub>m [sb_root ?sb \<mapsto> d] \<and> (bt_root ?t2 = 0 \<longrightarrow> m = Map.empty)
      \<and> (bt_root ?t2 \<noteq> 0 \<longrightarrow> (\<exists>n. bt_nodes ?t2 (bt_root ?t2) = Some n \<and> bn_data n = None \<and> bn_refs n = 0 \<and> \<not> node_is_dirty n
           \<and> bn_blocknr n = sb_root ?sb))"
    by - (rule exI [of _ A'], rule exI [of _ B'], rule exI [of _ bkt'], rule exI [of _ "[sb_root ?sb \<mapsto> d]"])
  then have "served ?t2 d xs" unfolding served_def using s f(9) add(3) by simp
  moreover have "btree_lookup t key buffer sz = Some (case map_of xs key of None \<Rightarrow> (0, buffer, ?t2)
      | Some v \<Rightarrow> (min sz (of_nat (length v)), splice buffer 0 (take (unat sz) v), ?t2))"
  proof (cases "map_of xs key")
    case None
    then show ?thesis using look f(2) rel by (simp add: btree_lookup_def LEAF_NODE_LEVEL_def leaf_place_def Let_def)
  next
    case (Some v)
    note v = srch(3) [OF Some f(4), of no_place]
    have pl: "pl_found ?pl" "pl_size ?pl = of_nat (length v)" using Some by (simp_all add: leaf_place_def Let_def)
    have u: "unat (of_nat (length v) :: u32) = length v" using v by simp
    let ?x = "min sz (of_nat (length v))"
    have x: "unat ?x = min (unat sz) (length v)" using u by (simp add: min_def word_le_nat_alt)
    have "buf_read d (pl_value ?pl) (unat ?x) = Some (take (unat sz) v)"
      using buf_read_prefix [of d "pl_value ?pl" "length v" v "unat ?x"] v x by (simp add: min_def)
    moreover have "buf_write buffer 0 (take (unat sz) v) = Some (splice buffer 0 (take (unat sz) v))"
      using assms(3) [OF Some] by (simp add: buf_write_def min.commute)
    ultimately show ?thesis
      using look f(2,3,4) rel pl Some by (simp add: btree_lookup_def LEAF_NODE_LEVEL_def node_at_def)
  qed
  ultimately show ?thesis by (intro exI [of _ ?t2]) simp
qed

end

end
