(* ===== verification/Btree_Store_Properties.thy ===== *)
theory Btree_Store_Properties
  imports Btree_Store Btree_Properties "HOL-Library.AList" "HOL-Library.Multiset"
begin

section \<open>What is stored is found again\<close>

text \<open>
  A tree is created on the disk driver of the B-tree program, changed by insertions and removals that stay in one leaf,
  closed, opened again and searched. The reference is an association list. The interface of a disk, \<open>block_disk\<close>, is
  interpreted on that driver, on a file that is written and read in full.
\<close>

subsection \<open>The disk of the program keeps the contract\<close>

definition file_stored :: "file_disk \<Rightarrow> u64 \<Rightarrow> u8 list \<Rightarrow> bool" where
  "file_stored k p bs \<longleftrightarrow> take (length bs) (drop (unat p) (fd_file k)) = bs"

definition file_fine :: "file_disk \<Rightarrow> bool" where
  "file_fine k \<longleftrightarrow> (\<forall>i. 2 ^ 32 \<le> fd_put k i) \<and> (\<forall>n. n \<le> fd_got k n)"

lemma file_write_at: "take (length bs) (drop p (file_write m p bs)) = bs"
  by (simp add: file_write_def Let_def)

lemma file_write_behind:
  assumes "p + length bs \<le> q" "take (length xs) (drop q m) = xs"
  shows "take (length xs) (drop q (file_write m p bs)) = xs"
proof (cases "xs = []")
  case False
  then have "q < length m" using assms(2) by (metis drop_all linorder_not_le take_Nil)
  then have "p - length m = 0" using assms(1) by simp
  then show ?thesis using assms by (simp add: file_write_def Let_def)
qed simp

lemma file_pwrite_effect:
  assumes "file_fine k" "length bs < 2 ^ 32"
  shows "file_stored (file_pwrite k p bs) p bs" "file_fine (file_pwrite k p bs)"
    "file_stored k q xs \<Longrightarrow> unat p + length bs \<le> unat q \<Longrightarrow> file_stored (file_pwrite k p bs) q xs"
proof -
  have "length bs \<le> fd_put k (fd_calls k)" using assms by (meson file_fine_def le_trans less_imp_le)
  then have t: "take (fd_put k (fd_calls k)) bs = bs" by simp
  show "file_stored (file_pwrite k p bs) p bs" "file_fine (file_pwrite k p bs)"
    using t assms(1) file_write_at [of bs "unat p" "fd_file k"] by (simp_all add: file_stored_def file_pwrite_def file_fine_def Let_def)
  show "file_stored (file_pwrite k p bs) q xs" if "file_stored k q xs" "unat p + length bs \<le> unat q"
    using t that file_write_behind [of "unat p" bs "unat q" xs "fd_file k"] by (simp add: file_stored_def file_pwrite_def Let_def)
qed

interpretation test_file: block_disk test_disk file_stored file_fine fd_offset
proof
  fix k k' :: file_disk and bs xs :: "u8 list" and sz n :: u32 and p q off :: u64
  have shift: "file_stored (k\<lparr>fd_offset := o'\<rparr>) = file_stored k" "file_fine (k\<lparr>fd_offset := o'\<rparr>) = file_fine k" for k :: file_disk and o'
    by (auto simp: file_stored_def file_fine_def fun_eq_iff)
  note w = file_pwrite_effect shift
  show "p = fd_offset k \<and> file_stored k' p bs \<and> file_fine k'"
    if "file_fine k" "length bs < 2 ^ 32" "dk_write test_disk k 0 sz bs = (p, k')"
    using that w by (auto simp: test_disk_def disk_write_def Let_def)
  show "p = off \<and> file_stored k' off bs \<and> file_fine k'"
    if "file_fine k" "length bs < 2 ^ 32" "off \<noteq> 0" "dk_write test_disk k off sz bs = (p, k')"
    using that w by (auto simp: test_disk_def disk_write_def Let_def)
  show "file_stored k' q xs"
    if "file_fine k" "length bs < 2 ^ 32" "off \<noteq> 0" "dk_write test_disk k off sz bs = (p, k')" "file_stored k q xs"
      "unat off + length bs \<le> unat q"
    using that w by (auto simp: test_disk_def disk_write_def Let_def)
  show "dk_read test_disk k p n = (True, bs)"
    if "file_fine k" "file_stored k p bs" "bs \<noteq> []" "length bs = unat n"
  proof -
    have "unat n \<le> fd_got k (unat n)" using that(1) by (simp add: file_fine_def)
    moreover have "n \<noteq> 0" using that(3,4) by auto
    ultimately show ?thesis using that(2,4) by (simp add: test_disk_def disk_read_def file_stored_def)
  qed
qed

subsection \<open>Operations that stay in one leaf\<close>

datatype tree_op = Insert_item "u8 list" "u8 list" | Remove_item "u8 list"

fun tree_run :: "u32 \<Rightarrow> 'd btree \<Rightarrow> tree_op list \<Rightarrow> (int list \<times> 'd btree) option" where
  "tree_run junk t [] = Some ([], t)"
| "tree_run junk t (Insert_item key v # ops) =
     do { (r, t) \<leftarrow> btree_insert junk t key v (of_nat (length v)); (rs, t) \<leftarrow> tree_run junk t ops; Some (r # rs, t) }"
| "tree_run junk t (Remove_item key # ops) =
     do { (r, t) \<leftarrow> btree_remove t key; (rs, t) \<leftarrow> tree_run junk t ops; Some (r # rs, t) }"

fun lookups :: "'d btree \<Rightarrow> (u8 list \<times> u8 list \<times> u32) list \<Rightarrow> ((u32 \<times> u8 list) list \<times> 'd btree) option" where
  "lookups t [] = Some ([], t)"
| "lookups t ((key, buffer, sz) # qs) =
     do { (n, b, t) \<leftarrow> btree_lookup t key buffer sz; (rs, t) \<leftarrow> lookups t qs; Some ((n, b) # rs, t) }"

text \<open>The reference: the items, and the results of the operations.\<close>

fun stored_items :: "leaf_item list \<Rightarrow> tree_op list \<Rightarrow> leaf_item list" where
  "stored_items zs [] = zs"
| "stored_items zs (Insert_item key v # ops) = stored_items (AList.update key v zs) ops"
| "stored_items zs (Remove_item key # ops) = stored_items (AList.delete key zs) ops"

fun op_results :: "leaf_item list \<Rightarrow> tree_op list \<Rightarrow> int list" where
  "op_results zs [] = []"
| "op_results zs (Insert_item key v # ops) = 0 # op_results (AList.update key v zs) ops"
| "op_results zs (Remove_item key # ops) = (if map_of zs key = None then 2 else 0) # op_results (AList.delete key zs) ops"

definition found_item :: "leaf_item list \<Rightarrow> u8 list \<times> u8 list \<times> u32 \<Rightarrow> u32 \<times> u8 list" where
  "found_item zs = (\<lambda>(key, buffer, sz). case map_of zs key of None \<Rightarrow> (0, buffer)
     | Some v \<Rightarrow> (min sz (of_nat (length v)), splice buffer 0 (take (unat sz) v)))"

text \<open>The bytes that items take in a block, and the operations that one leaf of \<open>B\<close> bytes with keys of \<open>K\<close> has room
  for: a removal leaves an item and needs room for one more head, and a value that takes the place of another is of
  its size. \<open>junk\<close> is the value the size of a new item must not have by chance, that of \<open>btree_insert\<close>.\<close>

definition bytes_for :: "nat \<Rightarrow> leaf_item list \<Rightarrow> nat" where
  "bytes_for K zs = NODE_HEAD_SIZE + length zs * (K + ITEM_HEAD_SIZE) + total zs"

fun one_leaf :: "nat \<Rightarrow> nat \<Rightarrow> u32 \<Rightarrow> leaf_item list \<Rightarrow> tree_op list \<Rightarrow> bool" where
  "one_leaf B K junk zs [] \<longleftrightarrow> True"
| "one_leaf B K junk zs (Insert_item key v # ops) \<longleftrightarrow> length key = K \<and> length v < 2 ^ 32
     \<and> (case map_of zs key of None \<Rightarrow> of_nat (length v) \<noteq> junk \<and> bytes_for K ((key, v) # zs) \<le> B | Some w \<Rightarrow> length w = length v)
     \<and> one_leaf B K junk (AList.update key v zs) ops"
| "one_leaf B K junk zs (Remove_item key # ops) \<longleftrightarrow> length key = K
     \<and> (map_of zs key \<noteq> None \<longrightarrow> 2 \<le> length zs \<and> NODE_HEAD_SIZE + Suc (length zs) * (K + ITEM_HEAD_SIZE) \<le> B)
     \<and> one_leaf B K junk (AList.delete key zs) ops"

lemma same_items:
  assumes "distinct (map fst xs)" "distinct (map fst zs)" "map_of xs = map_of zs"
  shows "length xs = length zs" "total xs = total zs"
proof -
  have "set xs = set zs" using map_of_inject_set [OF assms(1,2)] assms(3) by simp
  moreover have "distinct xs" "distinct zs" using assms(1,2) by (auto simp: distinct_map)
  ultimately have m: "mset xs = mset zs" by (simp add: set_eq_iff_mset_eq_distinct)
  then show "length xs = length zs" by (metis size_mset)
  have "total ys = (\<Sum>y \<in># mset ys. length (snd y))" for ys by (induction ys) auto
  then show "total xs = total zs" using m by simp
qed

text \<open>A tree of one leaf, founded on the empty tree \<open>t0\<close>, with the items \<open>zs\<close>.\<close>

definition leaf_holds :: "'d btree \<Rightarrow> 'd btree \<Rightarrow> leaf_item list \<Rightarrow> bool" where
  "leaf_holds t0 t zs \<longleftrightarrow> founded t0 t \<and> distinct (map fst zs) \<and> (\<exists>T. tree_holds t 1 T \<and> map_of (items_of T) = map_of zs)"

lemma founded_stays:
  assumes "founded t0 t" "stays t t'"
  shows "founded t0 t'"
proof -
  obtain i s H n d where t': "t' = t\<lparr>bt_super := add_counts (bt_super t) i s, bt_nodes := H\<rparr>" "bt_nodes t (bt_root t) = Some n"
    "H (bt_root t) = Some (node_set_dirty (n\<lparr>bn_data := Some d\<rparr>))"
    using assms(2) unfolding stays_def by blast
  then show ?thesis using assms(1) by (auto simp: founded_def add_counts_def same_shape_def node_set_dirty_def)
qed

lemma leaf_holds_step:
  assumes "leaf_holds t0 t zs" "stays t t'" "tree_holds t' 1 T" "map_of (items_of T) = map_of zs'" "distinct (map fst zs')"
  shows "leaf_holds t0 t' zs'"
  using assms founded_stays unfolding leaf_holds_def by blast

lemma leaf_holds_items:
  assumes "leaf_holds t0 t zs"
  shows "\<exists>T. tree_holds t 1 T \<and> map_of (items_of T) = map_of zs \<and> length (items_of T) = length zs \<and> total (items_of T) = total zs
    \<and> (\<forall>key. leaf_items t 1 T key = items_of T)"
proof -
  obtain T where T: "tree_holds t 1 T" "map_of (items_of T) = map_of zs" and z: "distinct (map fst zs)"
    using assms unfolding leaf_holds_def by blast
  have "distinct (map fst (items_of T))" using T(1) key_order.ordered_distinct unfolding tree_holds_def plain_def by blast
  then have "length (items_of T) = length zs" "total (items_of T) = total zs" using same_items T(2) z by blast+
  moreover have "leaf_items t 1 T key = items_of T" for key by (simp add: leaf_items_def)
  ultimately show ?thesis using T by blast
qed

lemma founded_sizes: "founded t0 t \<Longrightarrow> sb_key_size (bt_super t) = sb_key_size (bt_super t0) \<and> sb_block_size (bt_super t) = sb_block_size (bt_super t0)"
  by (auto simp: founded_def same_shape_def)

lemma insert_step:
  assumes "leaf_holds t0 t zs" "one_leaf (unat (sb_block_size (bt_super t0))) (unat (sb_key_size (bt_super t0))) junk zs (Insert_item key v # ops)"
  shows "\<exists>t'. btree_insert junk t key v (of_nat (length v)) = Some (0, t') \<and> leaf_holds t0 t' (AList.update key v zs)"
proof -
  obtain T where T: "tree_holds t 1 T" "map_of (items_of T) = map_of zs" "length (items_of T) = length zs" "total (items_of T) = total zs"
    "\<And>key. leaf_items t 1 T key = items_of T"
    using leaf_holds_items [OF assms(1)] by blast
  have sz: "sb_key_size (bt_super t) = sb_key_size (bt_super t0)" "sb_block_size (bt_super t) = sb_block_size (bt_super t0)"
    using assms(1) founded_sizes by (auto simp: leaf_holds_def)
  have o: "length key = unat (sb_key_size (bt_super t))" "length v < 2 ^ 32" using assms(2) sz by simp_all
  have u: "unat (of_nat (length v) :: u32) = length v" using o(2) by simp
  have z: "distinct (map fst (AList.update key v zs))" "map_of (AList.update key v zs) = (map_of zs)(key \<mapsto> v)"
    using assms(1) distinct_update by (auto simp: leaf_holds_def update_conv')
  have "\<exists>t' T'. btree_insert junk t key v (of_nat (length v)) = Some (0, t') \<and> tree_holds t' 1 T'
    \<and> map_of (items_of T') = (map_of (items_of T))(key \<mapsto> take (unat (of_nat (length v) :: u32)) v) \<and> (1 = (1 :: nat) \<longrightarrow> stays t t')"
  proof (cases "map_of zs key")
    case None
    show ?thesis
    proof (rule btree_insert_new_stays [OF T(1) o(1)])
      show "leaf_used (bt_super t) (leaf_items t 1 T key) + item_size (bt_super t) + unat (of_nat (length v) :: u32) \<le> unat (sb_block_size (bt_super t))"
        using None assms(2) u T(3-5) sz by (simp add: leaf_used_def item_size_def bytes_for_def)
    qed (use None T(2) assms(2) u in auto)
  next
    case (Some w)
    show ?thesis by (rule btree_insert_same_stays [OF T(1) o(1), of w]) (use Some T(2) assms(2) u in auto)
  qed
  then obtain t' T' where t': "btree_insert junk t key v (of_nat (length v)) = Some (0, t')" "tree_holds t' 1 T'" "stays t t'"
    "map_of (items_of T') = (map_of (items_of T))(key \<mapsto> take (unat (of_nat (length v) :: u32)) v)" by blast
  have "map_of (items_of T') = map_of (AList.update key v zs)" using t'(4) T(2) z(2) u by simp
  then show ?thesis using t'(1) leaf_holds_step [OF assms(1) t'(3,2) _ z(1)] by blast
qed

lemma remove_step:
  assumes "leaf_holds t0 t zs" "one_leaf (unat (sb_block_size (bt_super t0))) (unat (sb_key_size (bt_super t0))) junk zs (Remove_item key # ops)"
  shows "\<exists>t'. btree_remove t key = Some (if map_of zs key = None then 2 else 0, t') \<and> leaf_holds t0 t' (AList.delete key zs)"
proof -
  obtain T where T: "tree_holds t 1 T" "map_of (items_of T) = map_of zs" "length (items_of T) = length zs" "total (items_of T) = total zs"
    "\<And>key. leaf_items t 1 T key = items_of T"
    using leaf_holds_items [OF assms(1)] by blast
  have sz: "sb_key_size (bt_super t) = sb_key_size (bt_super t0)" "sb_block_size (bt_super t) = sb_block_size (bt_super t0)"
    using assms(1) founded_sizes by (auto simp: leaf_holds_def)
  have o: "length key = unat (sb_key_size (bt_super t))" using assms(2) sz by simp
  have z: "distinct (map fst (AList.delete key zs))" "map_of (AList.delete key zs) = (map_of zs)(key := None)"
    using assms(1) distinct_delete by (auto simp: leaf_holds_def delete_conv')
  show ?thesis
  proof (cases "map_of zs key")
    case None
    then have "AList.delete key zs = zs" using delete_idem [of key zs] by (simp add: map_of_eq_None_iff)
    moreover have "btree_remove t key = Some (2, t)" by (rule btree_remove_absent [OF T(1) o]) (simp only: T(2) None)
    ultimately show ?thesis using None assms(1) by simp
  next
    case (Some w)
    have c: "2 \<le> length (leaf_items t 1 T key)"
      "NODE_HEAD_SIZE + Suc (length (leaf_items t 1 T key)) * item_size (bt_super t) \<le> unat (sb_block_size (bt_super t))"
      using Some assms(2) T(3,5) sz by (simp_all add: item_size_def)
    have w: "map_of (items_of T) key = Some w" using Some T(2) by simp
    obtain t' T' where t': "btree_remove t key = Some (0, t')" "tree_holds t' 1 T'" "stays t t'"
      "map_of (items_of T') = (map_of (items_of T))(key := None)"
      using btree_remove_held_stays [OF T(1) o w c] by blast
    have "map_of (items_of T') = map_of (AList.delete key zs)" using t'(4) T(2) z(2) by simp
    then show ?thesis using t'(1) leaf_holds_step [OF assms(1) t'(3,2) _ z(1)] Some by auto
  qed
qed

lemma tree_run_holds:
  "\<lbrakk>leaf_holds t0 t zs; one_leaf (unat (sb_block_size (bt_super t0))) (unat (sb_key_size (bt_super t0))) junk zs ops\<rbrakk>
    \<Longrightarrow> \<exists>t'. tree_run junk t ops = Some (op_results zs ops, t') \<and> leaf_holds t0 t' (stored_items zs ops)"
proof (induction ops arbitrary: t zs)
  case Nil
  then show ?case by auto
next
  case (Cons op ops)
  show ?case
  proof (cases op)
    case (Insert_item key v)
    obtain t1 where t1: "btree_insert junk t key v (of_nat (length v)) = Some (0, t1)" "leaf_holds t0 t1 (AList.update key v zs)"
      using insert_step [OF Cons.prems(1) Cons.prems(2) [unfolded Insert_item]] by blast
    show ?thesis using Cons.IH [OF t1(2)] t1(1) Cons.prems(2) Insert_item by auto
  next
    case (Remove_item key)
    obtain t1 where t1: "btree_remove t key = Some (if map_of zs key = None then 2 else 0, t1)" "leaf_holds t0 t1 (AList.delete key zs)"
      using remove_step [OF Cons.prems(1) Cons.prems(2) [unfolded Remove_item]] by blast
    show ?thesis using Cons.IH [OF t1(2)] t1(1) Cons.prems(2) Remove_item by auto
  qed
qed

subsection \<open>Created, changed, closed, opened and searched\<close>

text \<open>A tree that nothing was done with, on the disk of the program: its block cache has no nodes.\<close>

definition unused_tree :: "file_disk btree \<Rightarrow> bool" where
  "unused_tree t \<longleftrightarrow> bt_ops t = test_disk \<and> never_refuses (bt_alk t) \<and> bt_fresh t \<noteq> 0
     \<and> bc_nodes (bt_cache t) = Map.empty \<and> 0 < bc_fresh (bt_cache t)"

lemma btree_create_keeps:
  assumes "btree_create t cache_size off block_size fmt key_size magic node_magic cmp = Some (0, t')" "unused_tree t" "cache_size \<noteq> 0"
  shows "bt_disk t' = bt_disk t" "bt_ops t' = test_disk" "bt_super_offset t' = off" "sb_magic (bt_super t') = magic"
    "sb_node_magic (bt_super t') = node_magic" "\<exists>A B bkt. bc_inv (bt_cache t') A B bkt Map.empty"
proof -
  obtain a c A B bkt where c: "btcache_open (bt_alk t) (bt_cache t) cache_size = Some (0, a, c)" "bc_inv c A B bkt Map.empty"
    using open_correct [OF _ assms(3), of "bt_alk t" "bt_cache t"] assms(2) by (auto simp: unused_tree_def)
  have "bt_disk t' = bt_disk t \<and> bt_ops t' = bt_ops t \<and> bt_super_offset t' = off \<and> sb_magic (bt_super t') = magic
    \<and> sb_node_magic (bt_super t') = node_magic \<and> bt_cache t' = c"
    using assms(1) c(1) by (auto simp: btree_create_def btree_create_prefix_def Let_def split: if_splits)
  then show "bt_disk t' = bt_disk t" "bt_ops t' = test_disk" "bt_super_offset t' = off" "sb_magic (bt_super t') = magic"
    "sb_node_magic (bt_super t') = node_magic" "\<exists>A B bkt. bc_inv (bt_cache t') A B bkt Map.empty"
    using assms(2) c(2) by (auto simp: unused_tree_def)
qed

lemma first_item_holds:
  assumes "tree_empty t" "never_refuses (bt_alk t)"
    and "one_leaf (unat (sb_block_size (bt_super t))) (unat (sb_key_size (bt_super t))) junk [] (Insert_item key v # ops)"
  shows "\<exists>t'. btree_insert junk t key v (of_nat (length v)) = Some (0, t') \<and> leaf_holds t t' [(key, v)]"
proof -
  have o: "length key = unat (sb_key_size (bt_super t))" "length v < 2 ^ 32" using assms(3) by simp_all
  have u: "unat (of_nat (length v) :: u32) = length v" using o(2) by simp
  have "\<exists>t' T'. btree_insert junk t key v (of_nat (length v)) = Some (0, t') \<and> tree_holds t' 1 T'
    \<and> items_of T' = [(key, take (unat (of_nat (length v) :: u32)) v)] \<and> sb_node_count (bt_super t') = 1
    \<and> sb_key_size (bt_super t') = sb_key_size (bt_super t) \<and> founded t t'"
    by (rule btree_insert_first_founded [OF assms(1) o(1) _ _ assms(2)])
      (use assms(3) u in \<open>simp_all add: leaf_used_def item_size_def bytes_for_def\<close>)
  then show ?thesis unfolding u leaf_holds_def by fastforce
qed

lemma leaf_holds_tree:
  assumes "leaf_holds t0 t zs"
  shows "\<exists>xs. leaf_tree t xs \<and> map_of xs = map_of zs"
proof -
  obtain T where T: "tree_holds t 1 T" "map_of (items_of T) = map_of zs" and f: "founded t0 t"
    using assms unfolding leaf_holds_def by blast
  show ?thesis
  proof (cases T)
    case (BLeaf p xs)
    then have "T = BLeaf (bt_root t) xs" using T(1) by (simp add: tree_holds_def)
    then show ?thesis using T f unfolding leaf_tree_def founded_def by auto
  next
    case (BTwig p ks cs)
    then obtain n where "twig_node (bt_super t) 1 n ks (map addr cs)" using T(1) by (auto simp: tree_holds_def)
    then show ?thesis by (auto simp: twig_node_def)
  qed
qed

lemma lookups_served:
  "\<lbrakk>test_file.served t d xs; map_of xs = map_of zs;
     \<forall>(key, buffer, sz) \<in> set qs. length key = unat (sb_key_size (bt_super t)) \<and> unat sz \<le> length buffer\<rbrakk>
    \<Longrightarrow> \<exists>t'. lookups t qs = Some (map (found_item zs) qs, t')"
proof (induction qs arbitrary: t)
  case (Cons q qs)
  obtain key buffer sz where q: "q = (key, buffer, sz)" by (cases q)
  have k: "length key = unat (sb_key_size (bt_super t))" "unat sz \<le> length buffer" using Cons.prems(3) q by simp_all
  obtain t1 where t1: "btree_lookup t key buffer sz = Some (case map_of xs key of None \<Rightarrow> (0, buffer, t1)
      | Some v \<Rightarrow> (min sz (of_nat (length v)), splice buffer 0 (take (unat sz) v), t1))"
    "test_file.served t1 d xs" "bt_super t1 = bt_super t"
    using test_file.lookup_served [OF Cons.prems(1) k(1), of sz buffer] k(2) by (meson le_trans min.cobounded1)
  obtain t2 where "lookups t1 qs = Some (map (found_item zs) qs, t2)"
    using Cons.IH [OF t1(2) Cons.prems(2)] Cons.prems(3) t1(3) by auto
  then show ?case using t1(1) Cons.prems(2) q by (auto simp: found_item_def split: option.split)
qed simp

lemma stored_served:
  assumes "NODE_HEAD_SIZE + 4 * (ITEM_HEAD_SIZE + unat (push_bit 2 key_size)) \<le> unat block_size"
    and "key_order cmp (unat (ucast key_size :: u16))" "cache_size \<noteq> 0" "cache_size' \<noteq> 0" "unused_tree t" "unused_tree u" "file_fine (bt_disk t)"
    and "off \<noteq> 0" "unat off + SUPER_BLOCK_SIZE \<le> unat (fd_offset (bt_disk t))"
    and "one_leaf (unat block_size) (unat (ucast key_size :: u16)) junk [] (Insert_item key v # ops)"
  shows "\<exists>t1 t2 t3 t4 d xs. btree_create t cache_size off block_size fmt key_size magic node_magic cmp = Some (0, t1)
    \<and> tree_run junk t1 (Insert_item key v # ops) = Some (op_results [] (Insert_item key v # ops), t2)
    \<and> btree_close t2 = Some (0, t3)
    \<and> btree_open (u\<lparr>bt_disk := bt_disk t3\<rparr>) cache_size' off magic node_magic cmp = Some (0, t4)
    \<and> test_file.served t4 d xs \<and> map_of xs = map_of (stored_items [] (Insert_item key v # ops)) \<and> sb_key_size (bt_super t4) = ucast key_size"
proof -
  let ?cb = "\<lparr>cb_keycpy = None, cb_prefix_keycmp = cmp, cb_keycmp = cmp\<rparr>" and ?ops = "Insert_item key v # ops"
  let ?zs = "stored_items [] ?ops"
  have fr: "bt_fresh t \<noteq> 0" "never_refuses (bt_alk t)" using assms(5) by (simp_all add: unused_tree_def)
  obtain t1 where t1: "btree_create t cache_size off block_size fmt key_size magic node_magic cmp = Some (0, t1)" "tree_empty t1"
    "bt_cb t1 = ?cb" "sb_key_size (bt_super t1) = ucast key_size" "sb_block_size (bt_super t1) = block_size" "never_refuses (bt_alk t1)"
    using btree_create_empty [OF assms(1,2) fr(1)] fr(2) by blast
  note c = btree_create_keeps [OF t1(1) assms(5,3)]
  obtain ti where ti: "btree_insert junk t1 key v (of_nat (length v)) = Some (0, ti)" "leaf_holds t1 ti [(key, v)]"
    using first_item_holds [OF t1(2,6)] assms(10) t1(4,5) by metis
  obtain t2 where t2: "tree_run junk ti ops = Some (op_results [(key, v)] ops, t2)" "leaf_holds t1 t2 ?zs"
    using tree_run_holds [OF ti(2), of junk ops] assms(10) t1(4,5) by auto
  have f: "bt_cache t2 = bt_cache t1" "bt_disk t2 = bt_disk t" "bt_ops t2 = test_disk" "bt_cb t2 = ?cb" "bt_super_offset t2 = off"
    "sb_magic (bt_super t2) = magic" "sb_node_magic (bt_super t2) = node_magic" "sb_key_size (bt_super t2) = ucast key_size" "never_refuses (bt_alk t2)"
    using t2(2) c(1-5) t1(3,4) by (simp_all add: leaf_holds_def founded_def same_shape_def)
  obtain xs where xs: "leaf_tree t2 xs" "map_of xs = map_of ?zs" using leaf_holds_tree [OF t2(2)] by blast
  obtain A B bkt where "bc_inv (bt_cache t2) A B bkt Map.empty" using c(6) f(1) by auto
  then have "\<exists>t3 sb. btree_close t2 = Some (0, t3) \<and> test_file.on_disk (bt_disk t3) (bt_super_offset t2) sb (bt_cb t2) xs
    \<and> sb_magic sb = sb_magic (bt_super t2) \<and> sb_node_magic sb = sb_node_magic (bt_super t2) \<and> sb_key_size sb = sb_key_size (bt_super t2)"
    using f assms(7-9) by (intro test_file.close_leaf [OF xs(1)]) (simp_all add: SUPER_BLOCK_SIZE_def)
  then obtain t3 sb where t3: "btree_close t2 = Some (0, t3)" "test_file.on_disk (bt_disk t3) off sb ?cb xs"
    "sb_magic sb = magic" "sb_node_magic sb = node_magic" "sb_key_size sb = ucast key_size"
    unfolding f(4-8) by blast
  have "\<exists>t4 d. btree_open (u\<lparr>bt_disk := bt_disk t3\<rparr>) cache_size' off (sb_magic sb) (sb_node_magic sb) cmp = Some (0, t4)
    \<and> test_file.served t4 d xs \<and> bt_super t4 = sb \<and> bt_cb t4 = ?cb"
    by (rule test_file.open_leaf) (use t3(2) assms(4,6) in \<open>simp_all add: unused_tree_def\<close>)
  then obtain t4 d where t4: "btree_open (u\<lparr>bt_disk := bt_disk t3\<rparr>) cache_size' off magic node_magic cmp = Some (0, t4)"
    "test_file.served t4 d xs" "bt_super t4 = sb"
    using t3(3,4) by auto
  have "tree_run junk t1 ?ops = Some (op_results [] ?ops, t2)" using ti(1) t2(1) by simp
  then show ?thesis using t1(1) t3(1) t4 t3(5) xs(2) by blast
qed

text \<open>C40. What a tree of one leaf stores on the disk of the B-tree program is there when the file is opened again. A tree
  is created and its first item inserted; then items are inserted, replaced and removed under the conditions of
  \<open>one_leaf\<close>: all items fit into the one leaf, so that nothing is split; a value takes the place of one of its size; a
  removal leaves at least one item and there is room for one more head; and the size of a new item is not the one that
  \<open>btree_insert\<close> finds on its stack, \<open>junk\<close>. The operations have the results of an association list. The tree is closed,
  which writes the leaf and the super block to a file that takes all it is given; it is opened on the file by another
  program with the same magic numbers, key order and any size of the cache but 0; and every lookup in what was opened
  reads the block from the file or from the cache, checks it, and gives the value that the association list has under
  the key, or nothing. Trees of more leaves, like the one of main.c with 64 keys, are not covered: after a split keys are
  not found again (line 1686 of btree.c).\<close>

theorem btree_persists:
  assumes "NODE_HEAD_SIZE + 4 * (ITEM_HEAD_SIZE + unat (push_bit 2 key_size)) \<le> unat block_size"
    and "key_order cmp (unat (ucast key_size :: u16))" "cache_size \<noteq> 0" "cache_size' \<noteq> 0" "unused_tree t" "unused_tree u" "file_fine (bt_disk t)"
    and "off \<noteq> 0" "unat off + SUPER_BLOCK_SIZE \<le> unat (fd_offset (bt_disk t))"
    and "one_leaf (unat block_size) (unat (ucast key_size :: u16)) junk [] (Insert_item key v # ops)"
    and "\<forall>(key, buffer, sz) \<in> set qs. length key = unat (ucast key_size :: u16) \<and> unat sz \<le> length buffer"
  shows "\<exists>t1 t2 t3 t4 t5. btree_create t cache_size off block_size fmt key_size magic node_magic cmp = Some (0, t1)
    \<and> tree_run junk t1 (Insert_item key v # ops) = Some (op_results [] (Insert_item key v # ops), t2)
    \<and> btree_close t2 = Some (0, t3)
    \<and> btree_open (u\<lparr>bt_disk := bt_disk t3\<rparr>) cache_size' off magic node_magic cmp = Some (0, t4)
    \<and> lookups t4 qs = Some (map (found_item (stored_items [] (Insert_item key v # ops))) qs, t5)"
proof -
  obtain t1 t2 t3 t4 d xs where t: "btree_create t cache_size off block_size fmt key_size magic node_magic cmp = Some (0, t1)"
    "tree_run junk t1 (Insert_item key v # ops) = Some (op_results [] (Insert_item key v # ops), t2)" "btree_close t2 = Some (0, t3)"
    "btree_open (u\<lparr>bt_disk := bt_disk t3\<rparr>) cache_size' off magic node_magic cmp = Some (0, t4)"
    "test_file.served t4 d xs" "map_of xs = map_of (stored_items [] (Insert_item key v # ops))" "sb_key_size (bt_super t4) = ucast key_size"
    using stored_served [OF assms(1-10)] by blast
  then obtain t5 where "lookups t4 qs = Some (map (found_item (stored_items [] (Insert_item key v # ops))) qs, t5)"
    using lookups_served [OF t(5,6), of qs] assms(11) by auto
  then show ?thesis using t(1-4) by blast
qed

text \<open>Two items, one of them with its value changed, a third removed; a file that takes what it is given.\<close>

definition fresh_tree :: "file_disk btree" where
  "fresh_tree = sample_tree\<lparr>bt_disk := \<lparr>fd_offset = 576, fd_file = [], fd_calls = 0, fd_put = (\<lambda>_. 2 ^ 32), fd_got = id\<rparr>\<rparr>"

lemma btree_persists_witness:
  "\<exists>t1 t2 t3 t4 t5. btree_create fresh_tree 4 512 256 0 10 0xf5bc2eac 0xb4e6 test_keycmp = Some (0, t1)
    \<and> tree_run 99 t1 [Insert_item (sample_key 5) [7, 7], Insert_item (sample_key 3) [1], Insert_item (sample_key 5) [8, 9],
        Remove_item (sample_key 3), Remove_item (sample_key 3)] = Some ([0, 0, 0, 0, 2], t2)
    \<and> btree_close t2 = Some (0, t3)
    \<and> btree_open (sample_tree\<lparr>bt_disk := bt_disk t3\<rparr>) 4 512 0xf5bc2eac 0xb4e6 test_keycmp = Some (0, t4)
    \<and> lookups t4 [(sample_key 5, [0, 0, 0], 3), (sample_key 3, [0, 0, 0], 3), (sample_key 5, [0, 0, 0], 1)]
        = Some ([(2, [8, 9, 0]), (0, [0, 0, 0]), (1, [8, 0, 0])], t5)"
proof -
  let ?ops = "[Insert_item (sample_key 3) [1], Insert_item (sample_key 5) [8, 9], Remove_item (sample_key 3), Remove_item (sample_key 3)]"
  let ?qs = "[(sample_key 5, [0, 0, 0], 3), (sample_key 3, [0, 0, 0], 3), (sample_key 5, [0, 0, 0], 1)]"
  have k: "key_order test_keycmp (unat (ucast (10 :: u32) :: u16))" using test_key_order by (simp add: KEYSZ_def)
  have b: "NODE_HEAD_SIZE + 4 * (ITEM_HEAD_SIZE + unat (push_bit 2 (10 :: u32))) \<le> unat (256 :: u32)"
    by (simp add: NODE_HEAD_SIZE_def ITEM_HEAD_SIZE_def)
  have r: "unused_tree fresh_tree" "unused_tree sample_tree" "file_fine (bt_disk fresh_tree)" "(512 :: u64) \<noteq> 0"
    "unat (512 :: u64) + SUPER_BLOCK_SIZE \<le> unat (fd_offset (bt_disk fresh_tree))"
    by (simp_all add: unused_tree_def fresh_tree_def sample_tree_def file_fine_def SUPER_BLOCK_SIZE_def)
  have o: "one_leaf (unat (256 :: u32)) (unat (ucast (10 :: u32) :: u16)) 99 [] (Insert_item (sample_key 5) [7, 7] # ?ops)"
    by (simp add: bytes_for_def NODE_HEAD_SIZE_def ITEM_HEAD_SIZE_def)
  have q: "\<forall>(key, buffer, sz) \<in> set ?qs. length key = unat (ucast (10 :: u32) :: u16) \<and> unat (sz :: u32) \<le> length buffer" by simp
  show ?thesis
    using btree_persists [OF b k _ _ r o q, of 4 4 0 "0xf5bc2eac" "0xb4e6"] by (simp add: found_item_def splice_def)
qed

end
