(* ===== verification/Btree_Program.thy ===== *)
theory Btree_Program
  imports Btree_Store_Properties
begin

section \<open>The B-tree program\<close>

text \<open>
  src/btree/main.c: a tree is made on the file, 64 items are inserted, first those of even numbers, the tree is written,
  the items are looked up, 20 are removed and the others looked up again. What is reported is modelled, not the times.
  The file was opened or not; \<open>junk\<close> is what the size in the place of a new item is by chance, \<open>lk\<close> what the buffer of a
  lookup held.
\<close>

definition CACHESZ :: u32 where "CACHESZ = 4"
definition BLOCKSZ :: u32 where "BLOCKSZ = 256"
definition NKEYS :: u32 where "NKEYS = 64"
definition VALUESZ :: nat where "VALUESZ = 32"

subsection \<open>Texts\<close>

text \<open>The conversion \<open>d\<close> of \<open>printf\<close> with the flag 0 and a width, the number taken as an \<open>int\<close>.\<close>

fun digits :: "nat \<Rightarrow> u8 list" where
  "digits n = (if n < 10 then [of_nat (48 + n)] else digits (n div 10) @ [of_nat (48 + n mod 10)])"

declare digits.simps [simp del]

definition pad_digits :: "nat \<Rightarrow> nat \<Rightarrow> u8 list" where
  "pad_digits w n = (let ds = digits n in replicate (w - length ds) 48 @ ds)"

definition format_int :: "nat \<Rightarrow> u32 \<Rightarrow> u8 list" where
  "format_int w n = (if sint n < 0 then 45 # pad_digits (w - 1) (nat (- sint n)) else pad_digits w (nat (sint n)))"

text \<open>What \<open>snprintf\<close> leaves in the buffers: the key is read up to its size, the value to the size that was returned.\<close>

definition key_text :: "u32 \<Rightarrow> u8 list" where
  "key_text n = take KEYSZ ([75, 45] @ format_int 8 n)"

definition value_text :: "u32 \<Rightarrow> u8 list" where
  "value_text n = [86, 45] @ format_int 8 (push_bit 2 n) @ [45] @ format_int 4 n"

datatype tree_report = Lookup_failed "u8 list" | Lookup_wrong "u8 list" u32 u32 | Insert_failed "u8 list" | Remove_failed "u8 list" | Sync_failed

text \<open>The loops; a step of 0, or one that passes over the end of the type, does not come to an end.\<close>

partial_function (option) test_lookup ::
  "u8 list \<Rightarrow> 'd btree \<Rightarrow> u32 \<Rightarrow> u32 \<Rightarrow> u32 \<Rightarrow> (tree_report list \<times> 'd btree) option" where
  "test_lookup lk t frm to step =
     (if \<not> frm < to then Some ([], t)
      else do {
        let key = key_text frm;
        let value = value_text frm;
        let size = of_nat (length value);
        (lksize, lk, t) \<leftarrow> btree_lookup t key lk (of_nat VALUESZ);
        let es = (if lksize = 0 then [Lookup_failed key]
                  else if lksize \<noteq> size \<or> byte_cmp value (take (length value) lk) \<noteq> 0 then [Lookup_wrong key size lksize]
                  else []);
        (rs, t) \<leftarrow> test_lookup lk t (frm + step) to step;
        Some (es @ rs, t)
      })"

partial_function (option) test_insert ::
  "(u32 \<Rightarrow> u32) \<Rightarrow> 'd btree \<Rightarrow> u32 \<Rightarrow> u32 \<Rightarrow> u32 \<Rightarrow> (tree_report list \<times> 'd btree) option" where
  "test_insert junk t frm to step =
     (if \<not> frm < to then Some ([], t)
      else do {
        let key = key_text frm;
        let value = value_text frm;
        (r, t) \<leftarrow> btree_insert (junk frm) t key value (of_nat (length value));
        if r \<noteq> 0 then Some ([Insert_failed key], t)
        else test_insert junk t (frm + step) to step
      })"

partial_function (option) test_remove ::
  "'d btree \<Rightarrow> u32 \<Rightarrow> u32 \<Rightarrow> u32 \<Rightarrow> (tree_report list \<times> 'd btree) option" where
  "test_remove t frm to step =
     (if \<not> frm < to then Some ([], t)
      else do {
        let key = key_text frm;
        (r, t) \<leftarrow> btree_remove t key;
        if r \<noteq> 0 then Some ([Remove_failed key], t)
        else test_remove t (frm + step) to step
      })"

definition test_sync :: "'d btree \<Rightarrow> (tree_report list \<times> 'd btree) option" where
  "test_sync t = do { (r, t) \<leftarrow> btree_sync t; Some (if r \<noteq> 0 then [Sync_failed] else [], t) }"

text \<open>The exit code, what was reported, and the tree.\<close>

definition btree_main :: "bool \<Rightarrow> (u32 \<Rightarrow> u32) \<Rightarrow> u8 list \<Rightarrow> file_disk btree \<Rightarrow> (int \<times> tree_report list \<times> file_disk btree) option" where
  "btree_main opened junk lk t =
     (let t = t\<lparr>bt_ops := test_disk, bt_disk := (bt_disk t)\<lparr>fd_offset := 512 + 64\<rparr>\<rparr>
      in if \<not> opened then Some (1, [], t)
         else do {
           (r, t) \<leftarrow> btree_create t CACHESZ (fd_offset (bt_disk t) - 64) BLOCKSZ 0 (of_nat KEYSZ) 0xf5bc2eac 0xb4e6 test_keycmp;
           if r \<noteq> 0 then Some (1, [], t)
           else do {
             (es1, t) \<leftarrow> test_insert junk t 0 NKEYS 2;
             (es2, t) \<leftarrow> test_insert junk t 1 NKEYS 2;
             (es3, t) \<leftarrow> test_sync t;
             (es4, t) \<leftarrow> test_lookup lk t 0 NKEYS 1;
             (es5, t) \<leftarrow> test_remove t 0 20 1;
             (es6, t) \<leftarrow> test_lookup lk t 20 NKEYS 1;
             (_, t) \<leftarrow> btree_close t;
             Some (0, es1 @ es2 @ es3 @ es4 @ es5 @ es6, t)
           }
         })"

subsection \<open>The texts are numbers\<close>

fun read_digits :: "u8 list \<Rightarrow> nat" where
  "read_digits [] = 0"
| "read_digits (b # bs) = (unat b - 48) * 10 ^ length bs + read_digits bs"

lemma read_digits_append: "read_digits (xs @ ys) = read_digits xs * 10 ^ length ys + read_digits ys"
  by (induction xs) (simp_all add: power_add algebra_simps)

lemma read_digits_zeros [simp]: "read_digits (replicate k 48 @ ds) = read_digits ds"
  by (induction k) simp_all

lemma unat_digit: "n < 10 \<Longrightarrow> unat (of_nat (48 + n) :: u8) = 48 + n"
  by (simp add: unsigned_of_nat take_bit_nat_eq_self del: of_nat_add)

lemma read_digits_digits [simp]: "read_digits (digits n) = n"
proof (induction n rule: digits.induct)
  case (1 n)
  then show ?case
    by (subst digits.simps) (auto simp: read_digits_append unat_digit simp del: of_nat_add)
qed

lemma digits_length: "n < 10 ^ k \<Longrightarrow> 0 < k \<Longrightarrow> 0 < length (digits n) \<and> length (digits n) \<le> k"
proof (induction n arbitrary: k rule: digits.induct)
  case (1 n)
  show ?case
  proof (cases "n < 10")
    case False
    obtain j where j: "k = Suc j" using "1.prems"(2) gr0_conv_Suc by blast
    then have "0 < j" using "1.prems"(1) False by (cases j) simp_all
    moreover have "n div 10 < 10 ^ j" using "1.prems"(1) j by (simp add: less_mult_imp_div_less mult.commute)
    ultimately show ?thesis using "1.IH" [OF False, of j] j False by (subst (1 2) digits.simps) simp
  qed (use "1.prems" in \<open>subst (1 2) digits.simps, simp\<close>)
qed

lemma pad_digits_read [simp]: "read_digits (pad_digits w n) = n"
  by (simp add: pad_digits_def Let_def)

lemma pad_digits_length: "n < 10 ^ w \<Longrightarrow> 0 < w \<Longrightarrow> length (pad_digits w n) = w"
  using digits_length [of n w] by (simp add: pad_digits_def Let_def)

lemma pad_digits_bounds: "n < 10 ^ k \<Longrightarrow> 0 < k \<Longrightarrow> w \<le> length (pad_digits w n) \<and> length (pad_digits w n) \<le> max w k"
  using digits_length [of n k] by (cases "w \<le> length (digits n)") (simp_all add: pad_digits_def Let_def)

lemma format_int_small:
  assumes "unat n < 2 ^ 31"
  shows "format_int w n = pad_digits w (unat n)"
proof -
  have "int (unat n) < int (2 ^ 31)" using assms by (simp only: of_nat_less_iff)
  then have u: "uint n < 2 ^ 31" by simp
  have "- (2 ^ 31) \<le> uint n" by (rule order_trans [OF _ uint_ge_0]) simp
  then have "signed_take_bit 31 (uint n) = uint n" using u by (rule signed_take_bit_int_eq_self)
  then have "sint n = int (unat n)" by (simp add: sint_uint)
  then show ?thesis by (simp add: format_int_def)
qed

lemma format_int_bounds: "0 < w \<Longrightarrow> w \<le> length (format_int w n) \<and> length (format_int w n) \<le> max w 11"
proof -
  assume w: "0 < w"
  have "- (2 ^ 31) \<le> sint n" "sint n < 2 ^ 31" using sint_range_size [of n] by (simp_all add: word_size)
  then have n: "nat (- sint n) < 10 ^ 10" "nat (sint n) < 10 ^ 10" by simp_all
  show ?thesis
  proof (cases "sint n < 0")
    case True
    have "w - 1 \<le> length (pad_digits (w - 1) (nat (- sint n))) \<and> length (pad_digits (w - 1) (nat (- sint n))) \<le> max (w - 1) 10"
      by (rule pad_digits_bounds [OF n(1)]) simp
    moreover have "length (format_int w n) = Suc (length (pad_digits (w - 1) (nat (- sint n))))" using True by (simp add: format_int_def)
    ultimately show ?thesis using w by arith
  next
    case False
    have "w \<le> length (pad_digits w (nat (sint n))) \<and> length (pad_digits w (nat (sint n))) \<le> max w 10"
      by (rule pad_digits_bounds [OF n(2)]) simp
    moreover have "format_int w n = pad_digits w (nat (sint n))" using False by (simp add: format_int_def)
    ultimately show ?thesis by arith
  qed
qed

lemma key_text_length [simp]: "length (key_text n) = KEYSZ"
  using format_int_bounds [of 8 n] by (simp add: key_text_def KEYSZ_def min_def)

lemma value_text_length: "0 < length (value_text n)" "length (value_text n) \<le> VALUESZ"
  using format_int_bounds [of 8 "push_bit 2 n"] format_int_bounds [of 4 n] by (simp_all add: value_text_def VALUESZ_def)

lemma key_text_inject:
  assumes "i < 10 ^ 8" "j < 10 ^ 8" "key_text (of_nat i) = key_text (of_nat j)"
  shows "i = j"
proof -
  have k: "key_text (of_nat n) = [75, 45] @ pad_digits 8 n" if "n < 10 ^ 8" for n
  proof -
    have "unat (of_nat n :: u32) = n" using that by (simp add: unsigned_of_nat take_bit_nat_eq_self)
    then have "format_int 8 (of_nat n) = pad_digits 8 n" using that format_int_small [of "of_nat n" 8] by simp
    then show ?thesis using pad_digits_length [OF that] by (simp add: key_text_def KEYSZ_def)
  qed
  have "pad_digits 8 i = pad_digits 8 j" using assms(3) by (simp add: k [OF assms(1)] k [OF assms(2)])
  then show ?thesis by (metis pad_digits_read)
qed

lemma value_text_small: "i < 10000 \<Longrightarrow> length (value_text (of_nat i)) = 15"
proof -
  assume i: "i < 10000"
  have u: "unat (of_nat i :: u32) = i" using i by (simp add: unsigned_of_nat take_bit_nat_eq_self)
  have p: "unat (push_bit 2 (of_nat i :: u32)) = 4 * i"
    using i by (simp add: push_bit_eq_mult unat_word_ariths u)
  have "format_int 8 (push_bit 2 (of_nat i)) = pad_digits 8 (4 * i)" "format_int 4 (of_nat i) = pad_digits 4 i"
    using format_int_small [of "push_bit 2 (of_nat i)" 8] format_int_small [of "of_nat i" 4] u p i by simp_all
  then show ?thesis using pad_digits_length [of "4 * i" 8] pad_digits_length [of i 4] i by (simp add: value_text_def)
qed

subsection \<open>The loops\<close>

text \<open>The numbers a loop goes through.\<close>

function visited :: "nat \<Rightarrow> nat \<Rightarrow> nat \<Rightarrow> nat list" where
  "visited i n s = (if s = 0 \<or> \<not> i < n then [] else i # visited (i + s) n s)"
  by pat_completeness auto
termination by (relation "measure (\<lambda>(i, n, s). n - i)") auto

declare visited.simps [simp del]

definition goes_through :: "u32 \<Rightarrow> u32 \<Rightarrow> u32 \<Rightarrow> nat list" where
  "goes_through frm to step = visited (unat frm) (unat to) (unat step)"

text \<open>A loop that does not pass over the end of the type goes through them.\<close>

lemma goes_through_simps:
  assumes "0 < step" "unat to + unat step \<le> 2 ^ 32"
  shows "frm < to \<Longrightarrow> goes_through frm to step = unat frm # goes_through (frm + step) to step"
    and "\<not> frm < to \<Longrightarrow> goes_through frm to step = []"
    and "frm < to \<Longrightarrow> unat to - unat (frm + step) < unat to - unat frm"
proof -
  have s: "0 < unat step" using assms(1) by (simp add: word_less_nat_alt)
  have a: "unat (frm + step) = unat frm + unat step" if "frm < to"
    using that assms(2) by (subst unat_plus_if') (simp add: word_less_nat_alt)
  show "goes_through frm to step = unat frm # goes_through (frm + step) to step" if "frm < to"
    unfolding goes_through_def a [OF that] using s that by (subst visited.simps) (simp add: word_less_nat_alt)
  show "goes_through frm to step = []" if "\<not> frm < to"
    unfolding goes_through_def using that by (subst visited.simps) (simp add: word_less_nat_alt)
  show "unat to - unat (frm + step) < unat to - unat frm" if "frm < to"
    using a [OF that] s that by (simp add: word_less_nat_alt)
qed

lemma loop_induct [consumes 2, case_names stop turn]:
  fixes frm :: u32
  assumes "0 < step" "unat to + unat step \<le> 2 ^ 32"
    and "\<And>frm. \<not> frm < to \<Longrightarrow> P frm" "\<And>frm. frm < to \<Longrightarrow> P (frm + step) \<Longrightarrow> P frm"
  shows "P frm"
proof (induction "unat to - unat frm" arbitrary: frm rule: less_induct)
  case less
  show ?case using less goes_through_simps(3) [OF assms(1,2)] assms(3,4) by blast
qed

definition insertions :: "nat list \<Rightarrow> tree_op list" where
  "insertions is = map (\<lambda>i. Insert_item (key_text (of_nat i)) (value_text (of_nat i))) is"

lemma test_insert_run:
  assumes "0 < step" "unat to + unat step \<le> 2 ^ 32" "tree_run junk t (insertions (goes_through frm to step)) = Some (rs, t')" "\<forall>r \<in> set rs. r = 0"
  shows "test_insert (\<lambda>_. junk) t frm to step = Some ([], t')"
  using assms
proof (induction frm arbitrary: t rs rule: loop_induct)
  case (stop frm)
  then show ?case using goes_through_simps(2) [OF assms(1,2)] by (simp add: insertions_def test_insert.simps)
next
  case (turn frm)
  obtain r t1 rs1 where r: "btree_insert junk t (key_text frm) (value_text frm) (of_nat (length (value_text frm))) = Some (r, t1)"
    "tree_run junk t1 (insertions (goes_through (frm + step) to step)) = Some (rs1, t')" "rs = r # rs1"
    using turn.prems(1) goes_through_simps(1) [OF assms(1,2) turn.hyps(1)] by (auto simp: insertions_def bind_eq_Some_conv)
  have "test_insert (\<lambda>_. junk) t1 (frm + step) to step = Some ([], t')"
    using turn.IH [OF r(2)] r(3) turn.prems(2) by simp
  then show ?case using turn.hyps(1) r(1,3) turn.prems(2) by (subst test_insert.simps) simp
qed

text \<open>What a lookup of the loop reports of the items \<open>m\<close>: nothing when the value is the one inserted.\<close>

definition lookup_report :: "(u8 list \<Rightarrow> u8 list option) \<Rightarrow> nat \<Rightarrow> tree_report list" where
  "lookup_report m i = (let key = key_text (of_nat i); value = value_text (of_nat i) in
     case m key of None \<Rightarrow> [Lookup_failed key]
     | Some v \<Rightarrow> if v = [] then [Lookup_failed key]
         else if take VALUESZ v \<noteq> value then [Lookup_wrong key (of_nat (length value)) (of_nat (min VALUESZ (length v)))] else [])"

text \<open>A tree, in whatever state of the memory and the disk, in which a lookup finds the items \<open>m\<close>.\<close>

definition finds :: "('d btree \<Rightarrow> bool) \<Rightarrow> (u8 list \<Rightarrow> u8 list option) \<Rightarrow> bool" where
  "finds I m \<longleftrightarrow> (\<forall>t key lk. I t \<longrightarrow> length key = KEYSZ \<longrightarrow> VALUESZ \<le> length lk \<longrightarrow> (\<exists>t'. I t' \<and>
     btree_lookup t key lk (of_nat VALUESZ) = Some (case m key of None \<Rightarrow> (0, lk, t')
       | Some v \<Rightarrow> (of_nat (min VALUESZ (length v)), splice lk 0 (take VALUESZ v), t'))))"

lemma VALUESZ_word [simp]: "unat (of_nat VALUESZ :: u32) = VALUESZ"
  by (simp add: VALUESZ_def)

lemma lookup_compare:
  assumes "VALUESZ \<le> length lk" "length w \<le> VALUESZ"
  shows "(of_nat (min VALUESZ (length v)) \<noteq> (of_nat (length w) :: u32) \<or> byte_cmp w (take (length w) (splice lk 0 (take VALUESZ v))) \<noteq> 0)
    \<longleftrightarrow> take VALUESZ v \<noteq> w"
proof -
  have b: "min VALUESZ (length v) < 2 ^ 32" "length w < 2 ^ 32" using assms(2) by (simp_all add: VALUESZ_def)
  have "(of_nat (min VALUESZ (length v)) = (of_nat (length w) :: u32)) \<longleftrightarrow> min VALUESZ (length v) = length w"
    using b by (simp add: of_nat_eq_iff unsigned_of_nat word_unat_eq_iff take_bit_nat_eq_self del: of_nat_min)
  moreover have "take (length w) (splice lk 0 (take VALUESZ v)) = take VALUESZ v" if "min VALUESZ (length v) = length w"
    using that assms by (cases "VALUESZ \<le> length v") (simp_all add: splice_def min_def)
  moreover have "byte_cmp w (take VALUESZ v) = 0 \<longleftrightarrow> w = take VALUESZ v" if "min VALUESZ (length v) = length w"
    using that byte_cmp_zero_iff [of w "take VALUESZ v"] by (simp add: min.commute)
  moreover have "min VALUESZ (length v) = length (take VALUESZ v)" by simp
  ultimately show ?thesis by (cases "min VALUESZ (length v) = length w") auto
qed

lemma test_lookup_finds:
  assumes "0 < step" "unat to + unat step \<le> 2 ^ 32" "finds I m" "I t" "VALUESZ \<le> length lk"
  shows "\<exists>t'. test_lookup lk t frm to step = Some (concat (map (lookup_report m) (goes_through frm to step)), t') \<and> I t'"
  using assms
proof (induction frm arbitrary: t lk rule: loop_induct)
  case (stop frm)
  then show ?case using goes_through_simps(2) [OF assms(1,2)] by (simp add: test_lookup.simps)
next
  case (turn frm)
  let ?key = "key_text frm" and ?val = "value_text frm"
  obtain t1 where t1: "I t1" "btree_lookup t ?key lk (of_nat VALUESZ) = Some (case m ?key of None \<Rightarrow> (0, lk, t1)
       | Some v \<Rightarrow> (of_nat (min VALUESZ (length v)), splice lk 0 (take VALUESZ v), t1))"
    using turn.prems(1) [unfolded finds_def, rule_format, OF turn.prems(2) key_text_length turn.prems(3), of frm] by blast
  let ?lk = "case m ?key of None \<Rightarrow> lk | Some v \<Rightarrow> splice lk 0 (take VALUESZ v)"
  have "VALUESZ \<le> length ?lk" using turn.prems(3) by (simp add: splice_def split: option.split)
  then obtain t2 where t2: "test_lookup ?lk t1 (frm + step) to step = Some (concat (map (lookup_report m) (goes_through (frm + step) to step)), t2)" "I t2"
    using turn.IH [OF turn.prems(1) t1(1)] by blast
  have go: "goes_through frm to step = unat frm # goes_through (frm + step) to step" by (rule goes_through_simps(1) [OF assms(1,2) turn.hyps(1)])
  have z: "(of_nat (min VALUESZ (length v)) :: u32) = 0 \<longleftrightarrow> v = []" for v :: "u8 list"
  proof -
    have "min VALUESZ (length v) < 2 ^ 32" by (simp add: VALUESZ_def)
    then show ?thesis by (auto simp: word_unat_eq_iff unsigned_of_nat take_bit_nat_eq_self VALUESZ_def min_def simp del: of_nat_min)
  qed
  note c = lookup_compare [OF turn.prems(3) value_text_length(2) [of frm]]
  show ?case
  proof (cases "m ?key")
    case None
    then show ?thesis using turn.hyps(1) t1(2) t2 go by (subst test_lookup.simps) (simp add: lookup_report_def)
  next
    case (Some v)
    then show ?thesis using turn.hyps(1) t1(2) t2 go c [of v]
      by (subst test_lookup.simps) (simp add: lookup_report_def Let_def z del: of_nat_min)
  qed
qed

text \<open>A tree in memory of any height, and one that was opened, find their items.\<close>

lemma min_size_word: "length v < 2 ^ 32 \<Longrightarrow> min (of_nat VALUESZ) (of_nat (length v)) = (of_nat (min VALUESZ (length v)) :: u32)"
  by (simp add: min_def VALUESZ_def word_le_nat_alt unsigned_of_nat take_bit_nat_eq_self)

lemma item_length:
  assumes "key_order (cb_keycmp cb) (unat (sb_key_size sb))" "leaf_node sb cb n xs" "length key = unat (sb_key_size sb)" "map_of xs key = Some v"
  shows "length v < 2 ^ 32"
proof -
  obtain d where "bn_data n = Some d" using assms(2) by (auto simp: leaf_node_def)
  then show ?thesis using leaf_search_map(3) [OF assms] by blast
qed

lemma tree_finds:
  assumes "tree_holds t l T" "unat (sb_key_size (bt_super t)) = KEYSZ"
  shows "finds (\<lambda>t'. t' = t) (map_of (items_of T))"
  unfolding finds_def
proof (intro allI impI)
  fix t' and key lk :: "u8 list"
  assume a: "t' = t" "length key = KEYSZ" "VALUESZ \<le> length lk"
  have k: "length key = unat (sb_key_size (bt_super t))" using a(2) assms(2) by simp
  obtain p xs n where n: "leaf_found t l T key p xs n" using find_leaf [OF assms(1) k] by blast
  note f = leaf_found_simps [OF n]
  have "length v < 2 ^ 32" if "map_of (items_of T) key = Some v" for v
    using item_length [OF f(10,6) k] that f(8) by simp
  then show "\<exists>t''. t'' = t \<and> btree_lookup t' key lk (of_nat VALUESZ) = Some (case map_of (items_of T) key of None \<Rightarrow> (0, lk, t'')
       | Some v \<Rightarrow> (of_nat (min VALUESZ (length v)), splice lk 0 (take VALUESZ v), t''))"
    using btree_lookup_tree [OF assms(1) k, of "of_nat VALUESZ" lk] a min_size_word by (auto split: option.splits)
qed

lemma served_finds:
  assumes "unat (sb_key_size sb) = KEYSZ"
  shows "finds (\<lambda>t. test_file.served t d xs \<and> bt_super t = sb) (map_of xs)"
  unfolding finds_def
proof (intro allI impI)
  fix t and key lk :: "u8 list"
  assume a: "test_file.served t d xs \<and> bt_super t = sb" "length key = KEYSZ" "VALUESZ \<le> length lk"
  have k: "length key = unat (sb_key_size (bt_super t))" using a(1,2) assms by simp
  have ko: "key_order (cb_keycmp (bt_cb t)) (unat (sb_key_size (bt_super t)))" and im: "block_image test_disk (bt_super t) (bt_cb t) d xs"
    using a(1) unfolding test_file.served_def plain_def by blast+
  let ?n = "\<lparr>bn_pointers = None, bn_data = Some d, bn_blocknr = 0, bn_size = 0, bn_flags = 0, bn_refs = 0\<rparr>"
  have "leaf_node (bt_super t) (bt_cb t) ?n xs" using im by (simp add: block_image_def leaf_node_def)
  then have "length v < 2 ^ 32" if "map_of xs key = Some v" for v using item_length [OF ko _ k that] by blast
  moreover obtain t' where "btree_lookup t key lk (of_nat VALUESZ) = Some (case map_of xs key of None \<Rightarrow> (0, lk, t')
      | Some v \<Rightarrow> (min (of_nat VALUESZ) (of_nat (length v)), splice lk 0 (take (unat (of_nat VALUESZ :: u32)) v), t'))"
    "test_file.served t' d xs" "bt_super t' = bt_super t"
    using test_file.lookup_served [OF conjunct1 [OF a(1)] k, of "of_nat VALUESZ" lk] a(3) by (auto simp: min.coboundedI1)
  ultimately show "\<exists>t'. (test_file.served t' d xs \<and> bt_super t' = sb) \<and> btree_lookup t key lk (of_nat VALUESZ) = Some (case map_of xs key of None \<Rightarrow> (0, lk, t')
       | Some v \<Rightarrow> (of_nat (min VALUESZ (length v)), splice lk 0 (take VALUESZ v), t'))"
    using a(1) min_size_word by (intro exI [of _ t']) (auto split: option.splits)
qed

subsection \<open>Seven items are found again\<close>

text \<open>What the insertions of the program leave in the reference.\<close>

lemma insertions_append: "stored_items zs (insertions (is @ js)) = stored_items (stored_items zs (insertions is)) (insertions js)"
  by (induction "is" arbitrary: zs) (simp_all add: insertions_def)

lemma insertions_stored:
  assumes "\<forall>i \<in> set is. i < 10 ^ 8" "j \<in> set is"
  shows "map_of (stored_items zs (insertions is)) (key_text (of_nat j)) = Some (value_text (of_nat j))"
  using assms
proof (induction "is" rule: rev_induct)
  case (snoc i js)
  have "stored_items zs (insertions (js @ [i])) = AList.update (key_text (of_nat i)) (value_text (of_nat i)) (stored_items zs (insertions js))"
    unfolding insertions_append by (simp add: insertions_def)
  moreover have "key_text (of_nat i) = key_text (of_nat j) \<longleftrightarrow> i = j" using snoc.prems key_text_inject [of i j] by auto
  ultimately show ?case using snoc by (auto simp: update_conv')
qed simp

lemma insertions_results: "\<forall>r \<in> set (op_results zs (insertions is)). r = 0"
  by (induction "is" arbitrary: zs) (simp_all add: insertions_def)

lemma update_new: "k \<notin> fst ` set zs \<Longrightarrow> AList.update k v zs = zs @ [(k, v)]"
  by (induction zs) auto

lemma insertions_fit:
  assumes "distinct is" "\<forall>i \<in> set is. i < 10000 \<and> key_text (of_nat i) \<notin> fst ` set zs" "junk \<noteq> 15"
    and "NODE_HEAD_SIZE + (length zs + length is) * (KEYSZ + ITEM_HEAD_SIZE) + total zs + length is * 15 \<le> B"
  shows "one_leaf B KEYSZ junk zs (insertions is)"
  using assms
proof (induction "is" arbitrary: zs)
  case (Cons i js)
  let ?k = "key_text (of_nat i)" and ?v = "value_text (of_nat i)"
  have v: "length ?v = 15" using Cons.prems(2) value_text_small by simp
  have new: "map_of zs ?k = None" using Cons.prems(2) by (simp add: map_of_eq_None_iff)
  have upd: "AList.update ?k ?v zs = zs @ [(?k, ?v)]" using Cons.prems(2) by (simp add: update_new)
  have "key_text (of_nat j) \<noteq> ?k" if "j \<in> set js" for j
    using that Cons.prems(1,2) key_text_inject [of j i] by fastforce
  then have "one_leaf B KEYSZ junk (zs @ [(?k, ?v)]) (insertions js)"
    using Cons.prems v by (intro Cons.IH) (auto simp: algebra_simps)
  moreover have "bytes_for KEYSZ ((?k, ?v) # zs) \<le> B" using Cons.prems(4) v by (simp add: bytes_for_def algebra_simps)
  ultimately show ?case using v new upd Cons.prems(3) by (simp add: insertions_def)
qed (simp add: insertions_def)

lemma visited_props: "distinct (visited i n s)" "\<forall>j \<in> set (visited i n s). i \<le> j \<and> j < n"
proof -
  have "distinct (visited i n s) \<and> (\<forall>j \<in> set (visited i n s). i \<le> j \<and> j < n)"
  proof (induction i n s rule: visited.induct)
    case (1 i n s)
    then show ?case by (subst (1 2) visited.simps) (force simp: not_less)
  qed
  then show "distinct (visited i n s)" "\<forall>j \<in> set (visited i n s). i \<le> j \<and> j < n" by blast+
qed

text \<open>The program with at most seven keys, and its other branch, which opens the file it left: nothing is reported.\<close>

lemma seven_items_persist:
  assumes "0 < step" "frm < to" "unat to \<le> 10000" "unat step \<le> 10000" "length (goes_through frm to step) \<le> 7" "junk \<noteq> 15"
    and "unused_tree t" "unused_tree u" "file_fine (bt_disk t)" "fd_offset (bt_disk t) = 512 + 64" "VALUESZ \<le> length lk"
  shows "\<exists>t1 t2 t3 t4 t5. btree_create t CACHESZ 512 BLOCKSZ 0 (of_nat KEYSZ) 0xf5bc2eac 0xb4e6 test_keycmp = Some (0, t1)
    \<and> test_insert (\<lambda>_. junk) t1 frm to step = Some ([], t2) \<and> btree_close t2 = Some (0, t3)
    \<and> btree_open (u\<lparr>bt_disk := bt_disk t3\<rparr>) CACHESZ 512 0xf5bc2eac 0xb4e6 test_keycmp = Some (0, t4)
    \<and> test_lookup lk t4 frm to step = Some ([], t5)"
proof -
  let ?is = "goes_through frm to step" and ?zs = "stored_items [] (insertions (goes_through frm to step))"
  have K: "unat (ucast (of_nat KEYSZ :: u32) :: u16) = KEYSZ" by (simp add: KEYSZ_def)
  have end_: "unat to + unat step \<le> 2 ^ 32" using assms(3,4) by simp
  have "is": "distinct ?is" "\<forall>i \<in> set ?is. i < 10000" using visited_props [of "unat frm" "unat to" "unat step"] assms(3) by (auto simp: goes_through_def)
  have "one_leaf (unat BLOCKSZ) KEYSZ junk [] (insertions ?is)"
    using "is" assms(5,6) by (intro insertions_fit) (simp_all add: NODE_HEAD_SIZE_def ITEM_HEAD_SIZE_def KEYSZ_def BLOCKSZ_def)
  moreover obtain i js where go: "?is = i # js" using goes_through_simps(1) [OF assms(1) end_ assms(2)] by blast
  ultimately have one: "one_leaf (unat BLOCKSZ) (unat (ucast (of_nat KEYSZ :: u32) :: u16)) junk []
      (Insert_item (key_text (of_nat i)) (value_text (of_nat i)) # insertions js)"
    unfolding K by (simp add: insertions_def)
  have ops: "Insert_item (key_text (of_nat i)) (value_text (of_nat i)) # insertions js = insertions ?is" unfolding go by (simp add: insertions_def)
  have b: "NODE_HEAD_SIZE + 4 * (ITEM_HEAD_SIZE + unat (push_bit 2 (of_nat KEYSZ :: u32))) \<le> unat BLOCKSZ"
    by (simp add: NODE_HEAD_SIZE_def ITEM_HEAD_SIZE_def KEYSZ_def BLOCKSZ_def)
  have o: "key_order test_keycmp (unat (ucast (of_nat KEYSZ :: u32) :: u16))" unfolding K by (rule test_key_order)
  have c: "CACHESZ \<noteq> 0" "(512 :: u64) \<noteq> 0" "unat (512 :: u64) + SUPER_BLOCK_SIZE \<le> unat (fd_offset (bt_disk t))"
    using assms(10) by (simp_all add: CACHESZ_def SUPER_BLOCK_SIZE_def)
  obtain t1 t2 t3 t4 d xs where t: "btree_create t CACHESZ 512 BLOCKSZ 0 (of_nat KEYSZ) 0xf5bc2eac 0xb4e6 test_keycmp = Some (0, t1)"
    "tree_run junk t1 (insertions ?is) = Some (op_results [] (insertions ?is), t2)" "btree_close t2 = Some (0, t3)"
    "btree_open (u\<lparr>bt_disk := bt_disk t3\<rparr>) CACHESZ 512 0xf5bc2eac 0xb4e6 test_keycmp = Some (0, t4)"
    "test_file.served t4 d xs" "map_of xs = map_of ?zs" "sb_key_size (bt_super t4) = ucast (of_nat KEYSZ :: u32)"
    using stored_served [OF b o c(1) c(1) assms(7-9) c(2,3) one, of 0 "0xf5bc2eac" "0xb4e6"] unfolding ops by blast
  have ins: "test_insert (\<lambda>_. junk) t1 frm to step = Some ([], t2)"
    using test_insert_run [OF assms(1) end_ t(2)] insertions_results by blast
  have "finds (\<lambda>t. test_file.served t d xs \<and> bt_super t = bt_super t4) (map_of xs)"
    by (rule served_finds) (simp only: t(7) K)
  then obtain t5 where look: "test_lookup lk t4 frm to step = Some (concat (map (lookup_report (map_of xs)) ?is), t5)"
    using test_lookup_finds [OF assms(1) end_ _ _ assms(11)] t(5) by blast
  have "lookup_report (map_of xs) i = []" if "i \<in> set ?is" for i
  proof -
    have "map_of xs (key_text (of_nat i)) = Some (value_text (of_nat i))"
      unfolding t(6) by (rule insertions_stored) (use "is" that in auto)
    then show ?thesis using value_text_length [of "of_nat i"] by (simp add: lookup_report_def Let_def)
  qed
  then have "concat (map (lookup_report (map_of xs)) ?is) = []" by simp
  then show ?thesis using t(1,3,4) ins look by metis
qed

end
