(* ===== verification/Sys_Calls.thy ===== *)
theory Sys_Calls
  imports Byte_Memory "HOL-Library.Multiset"
begin

section \<open>The system calls of src/socket\<close>

text \<open>
  The operating system is a parameter: a kernel answers a call from the history of the calls made so far and the
  call itself. What a call writes besides its result (a list of addresses, the address of a peer, received bytes,
  the ready descriptors) is an oracle of the history that ends with the call. The history is kept, so that what a
  function acquires and releases can be read from it (a descriptor that a message passes counts among the open ones,
  \<open>opened\<close>, and not in \<open>gains\<close>). The constants are those of the Linux headers, those of kqueue
  the ones of sys/event.h.
\<close>

record addrinfo =
  ai_flags :: int
  ai_family :: int
  ai_socktype :: int
  ai_protocol :: int
  ai_addr :: "u8 list"

text \<open>A hint after the \<open>memset\<close>.\<close>

definition no_hints :: addrinfo where
  "no_hints = \<lparr>ai_flags = 0, ai_family = 0, ai_socktype = 0, ai_protocol = 0, ai_addr = []\<rparr>"

datatype syscall =
    Getaddrinfo "u8 list option" "u8 list option" addrinfo
  | Freeaddrinfo
  | New_socket int int int
  | Setsockopt int int int int
  | Bind int "u8 list"
  | Connect int "u8 list"
  | Listen int int
  | Accept int
  | Unlink "u8 list"
  | Close int
  | Sendto int "u8 list" int "u8 list" int
  | Recvfrom int nat int
  | Recv int nat int
  | Send int "u8 list" int
  | Getpeername int
  | Sendmsg int "u8 list" int
  | Recvmsg int nat nat
  | Fcntl_nonblock int
  | Epoll_create int
  | Epoll_add int int u32
  | Epoll_del int int
  | Epoll_wait int nat int
  | Kqueue_new
  | Kevent_change int int u16 int
  | Kevent_wait int nat "(int \<times> int) option"
  | Select int "(int \<Rightarrow> bool) option" "(int \<Rightarrow> bool) option" "(int \<times> int) option"

type_synonym history = "(syscall \<times> int) list"

record kernel =
  k_answer :: "history \<Rightarrow> syscall \<Rightarrow> int"
  k_infos :: "history \<Rightarrow> addrinfo list"
  k_peer :: "history \<Rightarrow> u8 list"
  k_data :: "history \<Rightarrow> u8 list"
  k_passed :: "history \<Rightarrow> int option"
  k_readable :: "history \<Rightarrow> int \<Rightarrow> bool"
  k_writable :: "history \<Rightarrow> int \<Rightarrow> bool"
  k_events :: "history \<Rightarrow> (u32 \<times> int) list"
  k_log :: history

definition sys :: "syscall \<Rightarrow> kernel \<Rightarrow> int \<times> kernel" where
  "sys c k = (let r = k_answer k (k_log k) c in (r, k\<lparr>k_log := k_log k @ [(c, r)]\<rparr>))"

text \<open>A kernel that answers 0 to every call and has nothing to tell.\<close>

definition idle_kernel :: kernel where
  "idle_kernel = \<lparr>k_answer = (\<lambda>_ _. 0), k_infos = (\<lambda>_. []), k_peer = (\<lambda>_. []), k_data = (\<lambda>_. []), k_passed = (\<lambda>_. None),
     k_readable = (\<lambda>_ _. False), k_writable = (\<lambda>_ _. False), k_events = (\<lambda>_. []), k_log = []\<rparr>"

subsection \<open>What the calls acquire and release\<close>

datatype resource = Descriptor int | Address_list

fun gains :: "syscall \<times> int \<Rightarrow> resource multiset" where
  "gains (Getaddrinfo a p h, r) = (if r = 0 then {#Address_list#} else {#})"
| "gains (New_socket f t p, r) = (if 0 \<le> r then {#Descriptor r#} else {#})"
| "gains (Accept s, r) = (if 0 \<le> r then {#Descriptor r#} else {#})"
| "gains (Epoll_create n, r) = (if 0 \<le> r then {#Descriptor r#} else {#})"
| "gains (Kqueue_new, r) = (if 0 \<le> r then {#Descriptor r#} else {#})"
| "gains _ = {#}"

fun drops :: "syscall \<times> int \<Rightarrow> resource multiset" where
  "drops (Freeaddrinfo, r) = {#Address_list#}"
| "drops (Close s, r) = {#Descriptor s#}"
| "drops _ = {#}"

definition acquired :: "history \<Rightarrow> resource multiset" where "acquired h = sum_list (map gains h)"

definition released :: "history \<Rightarrow> resource multiset" where "released h = sum_list (map drops h)"

lemma acquired_simps [simp]:
  "acquired [] = {#}" "acquired (c # h) = gains c + acquired h" "acquired (g @ h) = acquired g + acquired h"
  by (simp_all add: acquired_def)

lemma released_simps [simp]:
  "released [] = {#}" "released (c # h) = drops c + released h" "released (g @ h) = released g + released h"
  by (simp_all add: released_def)

text \<open>
  The sockets that are open after a history: those it opened or accepted, or a message passed, and has not closed
  since. What a message of \<open>r\<close> bytes passed is told by the history that ends with its receipt; a message is proper
  when it has the four bytes of the magic number that announces a descriptor. \<open>leaked\<close> are those passed with another
  message, which no variable of the program holds, and \<open>known_fds\<close> the rest.
\<close>

definition fd_magic :: u32 where "fd_magic = 0xFD5"

definition passed_fd :: "kernel \<Rightarrow> history \<Rightarrow> int \<Rightarrow> int set" where
  "passed_fd k h r = (case k_passed k h of None \<Rightarrow> {} | Some fd \<Rightarrow> if 0 < r \<and> 0 \<le> fd then {fd} else {})"

definition proper_message :: "kernel \<Rightarrow> history \<Rightarrow> int \<Rightarrow> bool" where
  "proper_message k h r \<longleftrightarrow> r = 4 \<and> load (k_data k h) 0 = Some fd_magic"

fun open_step :: "kernel \<Rightarrow> history \<Rightarrow> int set \<Rightarrow> syscall \<times> int \<Rightarrow> int set" where
  "open_step k h S (New_socket f t p, r) = (if 0 \<le> r then insert r S else S)"
| "open_step k h S (Accept s, r) = (if 0 \<le> r then insert r S else S)"
| "open_step k h S (Recvmsg s n m, r) = S \<union> passed_fd k h r"
| "open_step k h S (Close s, r) = S - {s}"
| "open_step k h S _ = S"

fun known_step :: "kernel \<Rightarrow> history \<Rightarrow> int set \<Rightarrow> syscall \<times> int \<Rightarrow> int set" where
  "known_step k h S (Recvmsg s n m, r) = (if proper_message k h r then S \<union> passed_fd k h r else S)"
| "known_step k h S (c, r) = open_step k h S (c, r)"

fun leak_step :: "kernel \<Rightarrow> history \<Rightarrow> int set \<Rightarrow> syscall \<times> int \<Rightarrow> int set" where
  "leak_step k h S (Recvmsg s n m, r) = (if proper_message k h r then S else S \<union> passed_fd k h r)"
| "leak_step k h S (Close s, r) = S - {s}"
| "leak_step k h S _ = S"

text \<open>A fold over a history that tells each step the history up to it.\<close>

definition log_fold :: "(history \<Rightarrow> int set \<Rightarrow> syscall \<times> int \<Rightarrow> int set) \<Rightarrow> history \<Rightarrow> int set" where
  "log_fold step h = snd (foldl (\<lambda>(g, S) e. (g @ [e], step (g @ [e]) S e)) ([], {}) h)"

lemma log_fold_simps [simp]:
  "log_fold step [] = {}" "log_fold step (h @ [e]) = step (h @ [e]) (log_fold step h) e"
proof -
  have "fst (foldl (\<lambda>(g, S) e. (g @ [e], step (g @ [e]) S e)) ([], {}) h) = h"
    by (induction h rule: rev_induct) (simp_all add: case_prod_beta)
  then show "log_fold step (h @ [e]) = step (h @ [e]) (log_fold step h) e"
    by (simp add: log_fold_def case_prod_beta)
qed (simp add: log_fold_def)

definition opened :: "kernel \<Rightarrow> int set" where "opened k = log_fold (open_step k) (k_log k)"

definition known_fds :: "kernel \<Rightarrow> int set" where "known_fds k = log_fold (known_step k) (k_log k)"

definition leaked :: "kernel \<Rightarrow> int set" where "leaked k = log_fold (leak_step k) (k_log k)"

lemma steps_other_kernel:
  assumes "k_passed k' = k_passed k" "k_data k' = k_data k"
  shows "open_step k' = open_step k" "known_step k' = known_step k" "leak_step k' = leak_step k"
proof -
  have p: "passed_fd k' = passed_fd k" "proper_message k' = proper_message k"
    using assms by (auto simp: passed_fd_def proper_message_def fun_eq_iff)
  have o: "open_step k' h S e = open_step k h S e" for h S e
    by (cases e; cases "fst e") (auto simp: p)
  then show "open_step k' = open_step k" by (simp add: fun_eq_iff)
  have "known_step k' h S e = known_step k h S e" for h S e
    by (cases e; cases "fst e") (auto simp: p o)
  then show "known_step k' = known_step k" by (simp add: fun_eq_iff)
  have "leak_step k' h S e = leak_step k h S e" for h S e
    by (cases e; cases "fst e") (auto simp: p)
  then show "leak_step k' = leak_step k" by (simp add: fun_eq_iff)
qed

lemma account_sys:
  assumes "sys c k = (r, k')"
  shows "opened k' = open_step k' (k_log k') (opened k) (c, r)"
    and "known_fds k' = known_step k' (k_log k') (known_fds k) (c, r)"
    and "leaked k' = leak_step k' (k_log k') (leaked k) (c, r)"
proof -
  have "k_passed k' = k_passed k" "k_data k' = k_data k" "k_log k' = k_log k @ [(c, r)]"
    using assms by (auto simp: sys_def Let_def)
  note k = steps_other_kernel [OF this(1,2)] this(3)
  show "opened k' = open_step k' (k_log k') (opened k) (c, r)"
    "known_fds k' = known_step k' (k_log k') (known_fds k) (c, r)"
    "leaked k' = leak_step k' (k_log k') (leaked k) (c, r)"
    by (simp_all add: opened_def known_fds_def leaked_def k)
qed

lemmas opened_sys = account_sys(1)
lemmas known_sys = account_sys(2)
lemmas leaked_sys = account_sys(3)

lemma account_split: "log_fold (open_step k) h = log_fold (known_step k) h \<union> log_fold (leak_step k) h"
proof (induction h rule: rev_induct)
  case (snoc e h)
  have "open_step k g (S \<union> T) e = known_step k g S e \<union> leak_step k g T e" for g S T
    by (cases e; cases "fst e") auto
  then show ?case using snoc by simp
qed simp

theorem opened_is: "opened k = known_fds k \<union> leaked k"
  by (simp add: opened_def known_fds_def leaked_def account_split)

text \<open>The calls made between two states of a kernel.\<close>

definition made :: "kernel \<Rightarrow> kernel \<Rightarrow> history" where "made k k' = drop (length (k_log k)) (k_log k')"

text \<open>From \<open>k\<close> to \<open>k'\<close> the resources \<open>A\<close> were acquired and \<open>D\<close> released, up to those that were both.\<close>

definition nets :: "kernel \<Rightarrow> kernel \<Rightarrow> resource multiset \<Rightarrow> resource multiset \<Rightarrow> bool" where
  "nets k k' A D \<longleftrightarrow> (\<exists>h. k_log k' = k_log k @ h \<and> acquired h + D = released h + A)"

named_theorems moves

lemma moved_refl [moves]: "nets k k {#} {#}"
  by (simp add: nets_def)

lemma moved_trans:
  assumes "nets k k1 A D" "nets k1 k2 B E"
  shows "nets k k2 (A + B) (D + E)"
proof -
  obtain g h where "k_log k1 = k_log k @ g" "acquired g + D = released g + A"
    "k_log k2 = k_log k1 @ h" "acquired h + E = released h + B"
    using assms by (auto simp: nets_def)
  moreover have "acquired (g @ h) + (D + E) = (acquired g + D) + (acquired h + E)" by (simp add: ac_simps)
  ultimately have "k_log k2 = k_log k @ (g @ h) \<and> acquired (g @ h) + (D + E) = released (g @ h) + (A + B)"
    by (simp add: ac_simps)
  then show ?thesis unfolding nets_def by blast
qed

lemma moved_step [moves]: "nets k (snd (sys c k)) (gains (c, fst (sys c k))) (drops (c, fst (sys c k)))"
  by (simp add: nets_def sys_def Let_def)

lemma moved_sys: "sys c k = (r, k') \<Longrightarrow> nets k k' (gains (c, r)) (drops (c, r))"
  using moved_step [of k c] by simp

lemma moved_cancel: "nets k k' (A + X) (D + X) \<longleftrightarrow> nets k k' A D"
  by (simp add: nets_def add.assoc [symmetric])

lemma moved_made: "nets k k' A {#} \<Longrightarrow> acquired (made k k') = released (made k k') + A"
  by (auto simp: nets_def made_def)

end
