(* ===== verification/Io_Poll.thy ===== *)
theory Io_Poll
  imports Sys_Calls
begin

unbundle bit_operations_syntax

section \<open>The event loop (iopoll.c)\<close>

text \<open>
  The three backends. A function pointer of the structure is the flag that it is not NULL, and the function itself an
  argument of the loop; a handler may change the whole state, which holds the structure, the flag \<open>is_looping\<close> points
  to, the kernel and what the handlers keep. The union of the backends is a field for each member. \<open>None\<close> is a fault: a
  call through NULL, a descriptor outside an \<open>fd_set\<close>, an event that the kernel did not write. \<open>has\<close> tells which
  \<open>HAS_IOPOLL_*\<close> the build defines.
\<close>

datatype backend = IOPOLL_DEFAULT | IOPOLL_SELECT | IOPOLL_KQUEUE | IOPOLL_EPOLL

record iopoll =
  io_write :: bool
  io_read :: bool
  io_timeout :: u32
  io_fds :: "int \<Rightarrow> bool"
  io_fdmax :: int
  io_kq :: int
  io_epld :: int
  io_type :: backend

record 'u pool =
  io :: iopoll
  looping :: "int option"
  kern :: kernel
  user :: 'u

type_synonym 'u handler = "int \<Rightarrow> 'u pool \<Rightarrow> (int \<times> 'u pool) option"

definition FD_SETSIZE :: int where "FD_SETSIZE = 1024"
definition EPOLLIN :: u32 where "EPOLLIN = 1"
definition EPOLLOUT :: u32 where "EPOLLOUT = 4"
definition EPOLLET :: u32 where "EPOLLET = 2 ^ 31"
definition EVFILT_READ :: u16 where "EVFILT_READ = - 1"
definition EVFILT_WRITE :: u16 where "EVFILT_WRITE = - 2"
definition EV_ADD_ENABLE :: int where "EV_ADD_ENABLE = 5"
definition EV_DELETE_DISABLE :: int where "EV_DELETE_DISABLE = 10"
definition poll_events :: nat where "poll_events = 32"

definition iopoll_is_looping :: "'u pool \<Rightarrow> bool" where
  "iopoll_is_looping s = (case looping s of None \<Rightarrow> True | Some v \<Rightarrow> v \<noteq> 0)"

text \<open>A system call from the loop.\<close>

definition pool_sys :: "syscall \<Rightarrow> 'u pool \<Rightarrow> int \<times> 'u pool" where
  "pool_sys c s = (let (r, k) = sys c (kern s) in (r, s\<lparr>kern := k\<rparr>))"

text \<open>A call of a handler, which faults when the pointer is NULL.\<close>

definition invoke :: "bool \<Rightarrow> 'u handler \<Rightarrow> int \<Rightarrow> 'u pool \<Rightarrow> 'u pool option" where
  "invoke present f fd s = (if present then map_option snd (f fd s) else None)"

text \<open>A loop that runs at most \<open>n\<close> rounds: \<open>Inl\<close> when it returned, \<open>Inr\<close> when it goes on.\<close>

fun run_rounds :: "('s \<Rightarrow> (int \<times> 's + 's) option) \<Rightarrow> nat \<Rightarrow> 's \<Rightarrow> (int \<times> 's + 's) option" where
  "run_rounds f 0 s = Some (Inr s)"
| "run_rounds f (Suc n) s =
     (case f s of None \<Rightarrow> None | Some (Inl r) \<Rightarrow> Some (Inl r) | Some (Inr s') \<Rightarrow> run_rounds f n s')"

subsection \<open>select\<close>

definition iopoll_select_alloc :: "iopoll \<Rightarrow> iopoll" where
  "iopoll_select_alloc p = p\<lparr>io_fds := (\<lambda>_. False), io_fdmax := 0\<rparr>"

definition iopoll_select_add :: "'u handler" where
  "iopoll_select_add fd s =
     (if 0 \<le> fd \<and> fd < FD_SETSIZE
      then let p = io s; p = p\<lparr>io_fds := (io_fds p)(fd := True)\<rparr>;
               p = (if io_fdmax p < fd then p\<lparr>io_fdmax := fd\<rparr> else p)
           in Some (0, s\<lparr>io := p\<rparr>)
      else None)"

definition iopoll_select_remove :: "'u handler" where
  "iopoll_select_remove fd s =
     (if 0 \<le> fd \<and> fd < FD_SETSIZE
      then let p = io s; p = p\<lparr>io_fds := (io_fds p)(fd := False)\<rparr>;
               p = (if fd = io_fdmax p then p\<lparr>io_fdmax := io_fdmax p - 1\<rparr> else p)
           in Some (0, s\<lparr>io := p\<rparr>)
      else None)"

text \<open>The walk over the descriptors, from \<open>x\<close>.\<close>

function select_dispatch :: "'u handler \<Rightarrow> 'u handler \<Rightarrow> (int \<Rightarrow> bool) \<Rightarrow> (int \<Rightarrow> bool) \<Rightarrow> int \<Rightarrow> 'u pool \<Rightarrow> 'u pool option" where
  "select_dispatch rd wr rfds wfds x s =
     (if x \<le> io_fdmax (io s) \<and> iopoll_is_looping s
      then if 0 \<le> x \<and> x < FD_SETSIZE
           then do {
             s \<leftarrow> (if rfds x then invoke (io_read (io s)) rd x s else Some s);
             s \<leftarrow> (if wfds x then invoke (io_write (io s)) wr x s else Some s);
             select_dispatch rd wr rfds wfds (x + 1) s
           }
           else None
      else Some s)"
  by pat_completeness auto
termination
  by (relation "measure (\<lambda>(rd, wr, rfds, wfds, x, s). nat (FD_SETSIZE - x))") (auto simp: FD_SETSIZE_def)

declare select_dispatch.simps [simp del]

text \<open>One round, with the two sets the loop keeps. \<open>select\<close> leaves in a set it is given those descriptors below
  \<open>nfds\<close> that are ready.\<close>

definition select_round :: "'u handler \<Rightarrow> 'u handler \<Rightarrow> (int \<Rightarrow> bool) \<times> (int \<Rightarrow> bool) \<times> 'u pool
    \<Rightarrow> (int \<times> (int \<Rightarrow> bool) \<times> (int \<Rightarrow> bool) \<times> 'u pool + (int \<Rightarrow> bool) \<times> (int \<Rightarrow> bool) \<times> 'u pool) option" where
  "select_round rd wr = (\<lambda>(rfds, wfds, s).
     if \<not> iopoll_is_looping s then Some (Inl (0, rfds, wfds, s))
     else
       let p = io s;
           timeout = (if io_timeout p < 1 then Some (0, uint (io_timeout p * 10)) else None);
           rfds = (if io_read p then io_fds p else rfds);
           wfds = (if io_write p then io_fds p else wfds);
           nfds = io_fdmax p + 1;
           rset = (if io_write p \<and> \<not> io_read p then None else Some rfds);
           wset = (if io_write p then Some wfds else None);
           (x, s) = pool_sys (Select nfds rset wset timeout) s;
           h = k_log (kern s);
           rfds = (if rset = None then rfds else (\<lambda>fd. rfds fd \<and> fd < nfds \<and> k_readable (kern s) h fd));
           wfds = (if wset = None then wfds else (\<lambda>fd. wfds fd \<and> fd < nfds \<and> k_writable (kern s) h fd))
       in if x = 0 then Some (Inl (1, rfds, wfds, s))
          else if x < 0 then Some (Inl (- 1, rfds, wfds, s))
          else do { s \<leftarrow> select_dispatch rd wr rfds wfds 0 s; Some (Inr (rfds, wfds, s)) })"

definition iopoll_select :: "'u handler \<Rightarrow> 'u handler \<Rightarrow> nat \<Rightarrow> 'u pool \<Rightarrow> (int \<times> 'u pool + 'u pool) option" where
  "iopoll_select rd wr n s =
     map_option (map_sum (map_prod id (snd \<circ> snd)) (snd \<circ> snd))
       (run_rounds (select_round rd wr) n (\<lambda>_. False, \<lambda>_. False, s))"

subsection \<open>kqueue\<close>

definition iopoll_kqueue_alloc :: "iopoll \<Rightarrow> kernel \<Rightarrow> int \<times> iopoll \<times> kernel" where
  "iopoll_kqueue_alloc p k =
     (let (kq, k) = sys Kqueue_new k; p = p\<lparr>io_kq := kq\<rparr> in if kq < 0 then (- 1, p, k) else (0, p, k))"

definition iopoll_kqueue_free :: "'u pool \<Rightarrow> int \<times> 'u pool" where
  "iopoll_kqueue_free s = (let (_, s) = pool_sys (Close (io_kq (io s))) s in (0, s))"

text \<open>The filter of a change: the filters of the handlers that are there, joined bit by bit.\<close>

definition kqueue_filter :: "iopoll \<Rightarrow> u16" where
  "kqueue_filter p =
     (let f = 0; f = (if io_read p then f OR EVFILT_READ else f) in if io_write p then f OR EVFILT_WRITE else f)"

definition iopoll_kqueue_add :: "'u handler" where
  "iopoll_kqueue_add fd s =
     (let (r, s) = pool_sys (Kevent_change (io_kq (io s)) fd (kqueue_filter (io s)) EV_ADD_ENABLE) s
      in Some (if r < 0 then - 1 else 0, s))"

definition iopoll_kqueue_remove :: "'u handler" where
  "iopoll_kqueue_remove fd s =
     (let (r, s) = pool_sys (Kevent_change (io_kq (io s)) fd (kqueue_filter (io s)) EV_DELETE_DISABLE) s
      in Some (if r < 0 then - 1 else 0, s))"

text \<open>The walk over the \<open>n\<close> events the kernel counted; an event is its filter and its descriptor.\<close>

fun kqueue_dispatch :: "'u handler \<Rightarrow> 'u handler \<Rightarrow> nat \<Rightarrow> (u32 \<times> int) list \<Rightarrow> 'u pool \<Rightarrow> 'u pool option" where
  "kqueue_dispatch rd wr 0 evs s = Some s"
| "kqueue_dispatch rd wr (Suc n) evs s =
     (if \<not> iopoll_is_looping s then Some s
      else case evs of [] \<Rightarrow> None
           | (e, fd) # evs \<Rightarrow> do {
               s \<leftarrow> (if (ucast e :: u16) AND EVFILT_READ \<noteq> 0 then invoke (io_read (io s)) rd fd s else Some s);
               s \<leftarrow> (if (ucast e :: u16) AND EVFILT_WRITE \<noteq> 0 then invoke (io_write (io s)) wr fd s else Some s);
               kqueue_dispatch rd wr n evs s
             })"

definition kqueue_round :: "'u handler \<Rightarrow> 'u handler \<Rightarrow> 'u pool \<Rightarrow> (int \<times> 'u pool + 'u pool) option" where
  "kqueue_round rd wr s =
     (if \<not> iopoll_is_looping s then Some (Inl (0, s))
      else
        let t = io_timeout (io s);
            timeout = (if t < 1 then Some (0, uint (t * 100)) else None);
            (n, s) = pool_sys (Kevent_wait (io_kq (io s)) poll_events timeout) s
        in if n = 0 then Some (Inl (1, s))
           else if n < 0 then Some (Inl (- 1, s))
           else do {
             s \<leftarrow> kqueue_dispatch rd wr (nat n) (take poll_events (k_events (kern s) (k_log (kern s)))) s;
             Some (Inr s)
           })"

definition iopoll_kqueue :: "'u handler \<Rightarrow> 'u handler \<Rightarrow> nat \<Rightarrow> 'u pool \<Rightarrow> (int \<times> 'u pool + 'u pool) option" where
  "iopoll_kqueue rd wr = run_rounds (kqueue_round rd wr)"

subsection \<open>epoll\<close>

definition iopoll_epoll_alloc :: "iopoll \<Rightarrow> kernel \<Rightarrow> int \<times> iopoll \<times> kernel" where
  "iopoll_epoll_alloc p k =
     (let (e, k) = sys (Epoll_create (int poll_events)) k; p = p\<lparr>io_epld := e\<rparr> in if e < 0 then (- 1, p, k) else (0, p, k))"

definition iopoll_epoll_free :: "'u pool \<Rightarrow> int \<times> 'u pool" where
  "iopoll_epoll_free s = (let (_, s) = pool_sys (Close (io_epld (io s))) s in (0, s))"

definition epoll_interest :: "iopoll \<Rightarrow> u32" where
  "epoll_interest p =
     (let e = EPOLLET; e = (if io_read p then e OR EPOLLIN else e) in if io_write p then e OR EPOLLOUT else e)"

definition iopoll_epoll_add :: "'u handler" where
  "iopoll_epoll_add fd s =
     (let (_, s) = pool_sys (Fcntl_nonblock fd) s;
          (r, s) = pool_sys (Epoll_add (io_epld (io s)) fd (epoll_interest (io s))) s
      in Some (if r < 0 then - 1 else 0, s))"

definition iopoll_epoll_remove :: "'u handler" where
  "iopoll_epoll_remove fd s =
     (let (r, s) = pool_sys (Epoll_del (io_epld (io s)) fd) s in Some (if r < 0 then - 1 else 0, s))"

fun epoll_dispatch :: "'u handler \<Rightarrow> 'u handler \<Rightarrow> nat \<Rightarrow> (u32 \<times> int) list \<Rightarrow> 'u pool \<Rightarrow> 'u pool option" where
  "epoll_dispatch rd wr 0 evs s = Some s"
| "epoll_dispatch rd wr (Suc n) evs s =
     (if \<not> iopoll_is_looping s then Some s
      else case evs of [] \<Rightarrow> None
           | (e, fd) # evs \<Rightarrow> do {
               s \<leftarrow> (if e AND EPOLLIN \<noteq> 0 then invoke (io_read (io s)) rd fd s else Some s);
               s \<leftarrow> (if e AND EPOLLOUT \<noteq> 0 then invoke (io_write (io s)) wr fd s else Some s);
               epoll_dispatch rd wr n evs s
             })"

definition epoll_round :: "'u handler \<Rightarrow> 'u handler \<Rightarrow> 'u pool \<Rightarrow> (int \<times> 'u pool + 'u pool) option" where
  "epoll_round rd wr s =
     (if \<not> iopoll_is_looping s then Some (Inl (0, s))
      else
        let (n, s) = pool_sys (Epoll_wait (io_epld (io s)) poll_events (sint (io_timeout (io s)))) s
        in if n = 0 then Some (Inl (1, s))
           else if n < 0 then Some (Inl (- 1, s))
           else do {
             s \<leftarrow> epoll_dispatch rd wr (nat n) (take poll_events (k_events (kern s) (k_log (kern s)))) s;
             Some (Inr s)
           })"

definition iopoll_epoll :: "'u handler \<Rightarrow> 'u handler \<Rightarrow> nat \<Rightarrow> 'u pool \<Rightarrow> (int \<times> 'u pool + 'u pool) option" where
  "iopoll_epoll rd wr = run_rounds (epoll_round rd wr)"

subsection \<open>The public functions\<close>

text \<open>The structure before is whatever it held. The result is whether it is not NULL.\<close>

definition iopoll_alloc :: "(backend \<Rightarrow> bool) \<Rightarrow> iopoll \<Rightarrow> bool \<Rightarrow> bool \<Rightarrow> backend \<Rightarrow> int \<Rightarrow> kernel \<Rightarrow> bool \<times> iopoll \<times> kernel" where
  "iopoll_alloc has p read_f write_f type timeout k =
     (let p = p\<lparr>io_read := read_f, io_write := write_f,
                io_timeout := word_of_int (if timeout \<le> 0 then - 1 else timeout)\<rparr>;
          type = (if type \<noteq> IOPOLL_DEFAULT then Some type
                  else if has IOPOLL_EPOLL then Some IOPOLL_EPOLL
                  else if has IOPOLL_KQUEUE then Some IOPOLL_KQUEUE
                  else if has IOPOLL_SELECT then Some IOPOLL_SELECT
                  else None)
      in case type of
           None \<Rightarrow> (False, p, k)
         | Some t \<Rightarrow>
             let p = p\<lparr>io_type := t\<rparr>
             in if t = IOPOLL_SELECT \<and> has t then (True, iopoll_select_alloc p, k)
                else if t = IOPOLL_KQUEUE \<and> has t then let (r, p, k) = iopoll_kqueue_alloc p k in (r = 0, p, k)
                else if t = IOPOLL_EPOLL \<and> has t then let (r, p, k) = iopoll_epoll_alloc p k in (r = 0, p, k)
                else (True, p, k))"

definition iopoll_free :: "(backend \<Rightarrow> bool) \<Rightarrow> 'u pool \<Rightarrow> 'u pool" where
  "iopoll_free has s =
     (let t = io_type (io s)
      in if t = IOPOLL_KQUEUE \<and> has t then snd (iopoll_kqueue_free s)
         else if t = IOPOLL_EPOLL \<and> has t then snd (iopoll_epoll_free s)
         else s)"

definition iopoll_add :: "(backend \<Rightarrow> bool) \<Rightarrow> 'u handler" where
  "iopoll_add has fd s =
     (let t = io_type (io s)
      in if t = IOPOLL_SELECT \<and> has t then iopoll_select_add fd s
         else if t = IOPOLL_KQUEUE \<and> has t then iopoll_kqueue_add fd s
         else if t = IOPOLL_EPOLL \<and> has t then iopoll_epoll_add fd s
         else Some (1, s))"

definition iopoll_remove :: "(backend \<Rightarrow> bool) \<Rightarrow> 'u handler" where
  "iopoll_remove has fd s =
     (let t = io_type (io s)
      in if t = IOPOLL_SELECT \<and> has t then iopoll_select_remove fd s
         else if t = IOPOLL_KQUEUE \<and> has t then iopoll_kqueue_remove fd s
         else if t = IOPOLL_EPOLL \<and> has t then iopoll_epoll_remove fd s
         else Some (1, s))"

definition iopoll_loop :: "(backend \<Rightarrow> bool) \<Rightarrow> 'u handler \<Rightarrow> 'u handler \<Rightarrow> nat \<Rightarrow> 'u pool
    \<Rightarrow> (int \<times> 'u pool + 'u pool) option" where
  "iopoll_loop has rd wr n s =
     (let t = io_type (io s)
      in if t = IOPOLL_SELECT \<and> has t then iopoll_select rd wr n s
         else if t = IOPOLL_KQUEUE \<and> has t then iopoll_kqueue rd wr n s
         else if t = IOPOLL_EPOLL \<and> has t then iopoll_epoll rd wr n s
         else Some (Inl (1, s)))"

subsection \<open>The interface of a backend\<close>

text \<open>
  What a server needs of the backend it runs on: the descriptors it watches after an \<open>add\<close> and after a \<open>remove\<close>
  that the closing of the descriptor follows. \<open>sane\<close> is what the backend keeps of its state, \<open>valid\<close> the descriptors
  it takes, and \<open>sure\<close> whether an \<open>add\<close> cannot fail.
\<close>

locale poll_set =
  fixes watched :: "'u pool \<Rightarrow> int set"
    and add :: "'u handler"
    and remove :: "'u handler"
    and sane :: "'u pool \<Rightarrow> bool"
    and valid :: "int \<Rightarrow> bool"
    and sure :: bool
  assumes add_watches: "sane s \<Longrightarrow> valid fd \<Longrightarrow> \<exists>r s'. add fd s = Some (r, s') \<and> sane s'
      \<and> watched s' = (if r = 0 then insert fd (watched s) else watched s) \<and> (sure \<longrightarrow> r = 0)
      \<and> known_fds (kern s') = known_fds (kern s)"
    and remove_close: "sane s \<Longrightarrow> valid fd \<Longrightarrow> \<exists>r s' q s''. remove fd s = Some (r, s') \<and> pool_sys (Close fd) s' = (q, s'')
      \<and> sane s'' \<and> watched s'' = watched s - {fd} \<and> known_fds (kern s'') = known_fds (kern s) - {fd}"

begin

text \<open>Nothing that is closed is watched, and when an \<open>add\<close> cannot fail everything the program knows to be open is watched.\<close>

definition tracks :: "'u pool \<Rightarrow> bool" where
  "tracks s \<longleftrightarrow> sane s \<and> watched s \<subseteq> known_fds (kern s) \<and> (sure \<longrightarrow> known_fds (kern s) \<subseteq> watched s)"

lemma tracks_remove:
  assumes "tracks s" "valid fd"
  shows "\<exists>r s' q s''. remove fd s = Some (r, s') \<and> pool_sys (Close fd) s' = (q, s'') \<and> tracks s''"
  using remove_close [of s fd] assms unfolding tracks_def by fastforce

lemma tracks_add:
  assumes "sane s" "valid fd" "watched s \<subseteq> known_fds (kern s)" "fd \<in> known_fds (kern s)"
    and "sure \<Longrightarrow> known_fds (kern s) \<subseteq> insert fd (watched s)"
  shows "\<exists>r s'. add fd s = Some (r, s') \<and> tracks s'"
proof -
  obtain r s' where "add fd s = Some (r, s')" "sane s'" "sure \<longrightarrow> r = 0" "known_fds (kern s') = known_fds (kern s)"
    "watched s' = (if r = 0 then insert fd (watched s) else watched s)"
    using add_watches [OF assms(1,2)] by blast
  then show ?thesis using assms(3-5) unfolding tracks_def by (cases "r = 0") auto
qed

end

text \<open>select: the set it watches, with \<open>fdmax\<close> above it.\<close>

definition select_watched :: "'u pool \<Rightarrow> int set" where "select_watched s = {fd. io_fds (io s) fd}"

definition select_sane :: "'u pool \<Rightarrow> bool" where
  "select_sane s \<longleftrightarrow> (\<forall>fd. io_fds (io s) fd \<longrightarrow> 0 \<le> fd \<and> fd \<le> io_fdmax (io s)) \<and> io_fdmax (io s) < FD_SETSIZE"

definition select_valid :: "int \<Rightarrow> bool" where "select_valid fd \<longleftrightarrow> 0 \<le> fd \<and> fd < FD_SETSIZE"

lemma pool_sys_frame:
  "pool_sys c s = (r, s') \<Longrightarrow> io s' = io s \<and> looping s' = looping s \<and> user s' = user s
     \<and> known_fds (kern s') = known_step (kern s') (k_log (kern s')) (known_fds (kern s)) (c, r)
     \<and> opened (kern s') = open_step (kern s') (k_log (kern s')) (opened (kern s)) (c, r)
     \<and> k_log (kern s') = k_log (kern s) @ [(c, r)]"
  by (auto simp: pool_sys_def Let_def known_sys opened_sys split: prod.splits) (auto simp: sys_def Let_def)

lemma select_add_sane:
  assumes "select_sane s" "select_valid fd"
  shows "\<exists>s'. iopoll_select_add fd s = Some (0, s') \<and> select_sane s' \<and> select_watched s' = insert fd (select_watched s)
    \<and> kern s' = kern s"
  using assms by (auto simp: iopoll_select_add_def select_sane_def select_valid_def select_watched_def Let_def)

lemma select_remove_sane:
  assumes "select_sane s" "select_valid fd"
  shows "\<exists>s'. iopoll_select_remove fd s = Some (0, s') \<and> select_sane s' \<and> select_watched s' = select_watched s - {fd}
    \<and> kern s' = kern s"
  using assms
  by (auto simp: iopoll_select_remove_def select_sane_def select_valid_def select_watched_def Let_def order_less_le split: if_splits)

interpretation select: poll_set select_watched iopoll_select_add iopoll_select_remove select_sane select_valid True
proof
  fix s :: "'u pool" and fd
  assume s: "select_sane s" "select_valid fd"
  show "\<exists>r s'. iopoll_select_add fd s = Some (r, s') \<and> select_sane s'
      \<and> select_watched s' = (if r = 0 then insert fd (select_watched s) else select_watched s) \<and> (True \<longrightarrow> r = 0)
      \<and> known_fds (kern s') = known_fds (kern s)"
    using select_add_sane [OF s] by fastforce
  obtain s' where s': "iopoll_select_remove fd s = Some (0, s')" "select_sane s'"
    "select_watched s' = select_watched s - {fd}" "kern s' = kern s"
    using select_remove_sane [OF s] by blast
  obtain q s'' where q: "pool_sys (Close fd) s' = (q, s'')" by fastforce
  then have "io s'' = io s'" "known_fds (kern s'') = known_fds (kern s) - {fd}" using pool_sys_frame [OF q] s'(4) by simp_all
  then show "\<exists>r s' q s''. iopoll_select_remove fd s = Some (r, s') \<and> pool_sys (Close fd) s' = (q, s'')
      \<and> select_sane s'' \<and> select_watched s'' = select_watched s - {fd} \<and> known_fds (kern s'') = known_fds (kern s) - {fd}"
    using s' q unfolding select_sane_def select_watched_def by metis
qed

text \<open>epoll: what the kernel watches for a queue, which closing a descriptor ends too.\<close>

fun epoll_step :: "int \<Rightarrow> int set \<Rightarrow> syscall \<times> int \<Rightarrow> int set" where
  "epoll_step e S (Epoll_add d fd m, r) = (if d = e \<and> 0 \<le> r then insert fd S else S)"
| "epoll_step e S (Epoll_del d fd, r) = (if d = e \<and> 0 \<le> r then S - {fd} else S)"
| "epoll_step e S (Close fd, r) = S - {fd}"
| "epoll_step e S _ = S"

definition epoll_watched :: "'u pool \<Rightarrow> int set" where
  "epoll_watched s = foldl (epoll_step (io_epld (io s))) {} (k_log (kern s))"

lemma epoll_sys: "pool_sys c s = (r, s') \<Longrightarrow> epoll_watched s' = epoll_step (io_epld (io s)) (epoll_watched s) (c, r)"
  using pool_sys_frame [of c s r s'] by (simp add: epoll_watched_def)

interpretation epoll: poll_set epoll_watched iopoll_epoll_add iopoll_epoll_remove "\<lambda>_. True" "\<lambda>_. True" False
proof
  fix s :: "'u pool" and fd
  let ?e = "io_epld (io s)"
  obtain f s1 where f: "pool_sys (Fcntl_nonblock fd) s = (f, s1)" by fastforce
  obtain r s2 where r: "pool_sys (Epoll_add ?e fd (epoll_interest (io s))) s1 = (r, s2)" by fastforce
  have "iopoll_epoll_add fd s = Some (if r < 0 then - 1 else 0, s2)"
    using f r pool_sys_frame [OF f] by (simp add: iopoll_epoll_add_def)
  moreover have "epoll_watched s2 = (if 0 \<le> r then insert fd (epoll_watched s) else epoll_watched s)"
    using epoll_sys [OF f] epoll_sys [OF r] pool_sys_frame [OF f] by simp
  moreover have "known_fds (kern s2) = known_fds (kern s)" using pool_sys_frame [OF f] pool_sys_frame [OF r] by simp
  ultimately show "\<exists>r s'. iopoll_epoll_add fd s = Some (r, s') \<and> True
      \<and> epoll_watched s' = (if r = 0 then insert fd (epoll_watched s) else epoll_watched s) \<and> (False \<longrightarrow> r = 0)
      \<and> known_fds (kern s') = known_fds (kern s)"
    by (cases "r < 0") auto
  obtain d s3 where d: "pool_sys (Epoll_del ?e fd) s = (d, s3)" by fastforce
  obtain q s4 where q: "pool_sys (Close fd) s3 = (q, s4)" by fastforce
  have "iopoll_epoll_remove fd s = Some (if d < 0 then - 1 else 0, s3)" using d by (simp add: iopoll_epoll_remove_def)
  moreover have "epoll_watched s4 = epoll_watched s - {fd}" using epoll_sys [OF d] epoll_sys [OF q] by auto
  moreover have "known_fds (kern s4) = known_fds (kern s) - {fd}" using pool_sys_frame [OF d] pool_sys_frame [OF q] by simp
  ultimately show "\<exists>r s' q s''. iopoll_epoll_remove fd s = Some (r, s') \<and> pool_sys (Close fd) s' = (q, s'')
      \<and> True \<and> epoll_watched s'' = epoll_watched s - {fd} \<and> known_fds (kern s'') = known_fds (kern s) - {fd}"
    using q by blast
qed

end
