(* ===== verification/Socket.thy ===== *)
theory Socket
  imports Sys_Calls
begin

section \<open>Opening and using sockets (socket.c)\<close>

text \<open>
  Each function makes its calls in the order of the source and returns the descriptor or the error code, with the
  kernel after it. \<open>None\<close> is a fault: a socket variable that was never set, an address that does not fit in the
  caller's storage, a path longer than \<open>sun_path\<close>, control data that was not received. A pointer that may be NULL is
  an option.
\<close>

definition AF_UNSPEC :: int where "AF_UNSPEC = 0"
definition AF_UNIX :: int where "AF_UNIX = 1"
definition AF_INET :: int where "AF_INET = 2"
definition SOCK_STREAM :: int where "SOCK_STREAM = 1"
definition SOCK_DGRAM :: int where "SOCK_DGRAM = 2"
definition IPPROTO_TCP :: int where "IPPROTO_TCP = 6"
definition IPPROTO_UDP :: int where "IPPROTO_UDP = 17"
definition AI_PASSIVE :: int where "AI_PASSIVE = 1"
definition SOL_SOCKET :: int where "SOL_SOCKET = 1"
definition SO_REUSEADDR :: int where "SO_REUSEADDR = 2"
definition SO_REUSEPORT :: int where "SO_REUSEPORT = 15"
definition listen_backlog :: int where "listen_backlog = 16"
definition storage_size :: nat where "storage_size = 128"
definition sun_path_size :: nat where "sun_path_size = 108"

lemmas socket_constants = AF_UNSPEC_def AF_UNIX_def AF_INET_def SOCK_STREAM_def SOCK_DGRAM_def IPPROTO_TCP_def
  IPPROTO_UDP_def AI_PASSIVE_def SOL_SOCKET_def SO_REUSEADDR_def SO_REUSEPORT_def listen_backlog_def
  storage_size_def sun_path_size_def

subsection \<open>Helpers\<close>

definition open_socket :: "addrinfo \<Rightarrow> bool \<Rightarrow> bool \<Rightarrow> kernel \<Rightarrow> int \<times> kernel" where
  "open_socket info set_reuse_addr set_reuse_port k =
     (let (s, k) = sys (New_socket (ai_family info) (ai_socktype info) (ai_protocol info)) k
      in if s < 0 then (s, k)
         else let k = (if set_reuse_addr then snd (sys (Setsockopt s SOL_SOCKET SO_REUSEADDR 1) k) else k);
                  k = (if set_reuse_port then snd (sys (Setsockopt s SOL_SOCKET SO_REUSEPORT 1) k) else k)
              in (s, k))"

text \<open>\<open>memcpy(addr, p->ai_addr, p->ai_addrlen)\<close> when \<open>addr\<close> is not NULL.\<close>

definition copy_addr :: "u8 list option \<Rightarrow> u8 list \<Rightarrow> u8 list option option" where
  "copy_addr addr bs =
     (case addr of None \<Rightarrow> Some None | Some m \<Rightarrow> do { m \<leftarrow> buf_write m 0 bs; Some (Some m) })"

text \<open>The loop of \<open>__socket_bind\<close> from the node \<open>p\<close>; \<open>info\<close> is the first node of the list.\<close>

fun bind_walk :: "addrinfo \<Rightarrow> addrinfo list \<Rightarrow> int option \<Rightarrow> u8 list option \<Rightarrow> kernel
    \<Rightarrow> (int option \<times> u8 list option \<times> kernel) option" where
  "bind_walk info [] sock addr k = Some (sock, addr, k)"
| "bind_walk info (p # ps) sock addr k =
     (let (s, k) = open_socket p True True k
      in if s < 0 then bind_walk info ps (Some s) addr k
         else let (r, k) = sys (Bind s (ai_addr info)) k
              in if r < 0 then bind_walk info ps (Some (- 1)) addr (snd (sys (Close s) k))
                 else do { addr \<leftarrow> copy_addr addr (ai_addr p); Some (Some s, addr, k) })"

text \<open>With no node the loop does not set \<open>sock\<close>, and returning it is a fault.\<close>

definition socket_bind :: "u8 list option \<Rightarrow> u8 list option \<Rightarrow> addrinfo \<Rightarrow> u8 list option \<Rightarrow> kernel
    \<Rightarrow> (int \<times> u8 list option \<times> kernel) option" where
  "socket_bind address port hints addr k =
     (let (status, k) = sys (Getaddrinfo address port hints) k
      in if status \<noteq> 0 then Some (- 1, addr, k)
         else let ps = k_infos k (k_log k)
              in do {
                (sock, addr, k) \<leftarrow> (case ps of [] \<Rightarrow> Some (None, addr, k)
                                     | info # _ \<Rightarrow> bind_walk info ps None addr k);
                let k = snd (sys Freeaddrinfo k);
                r \<leftarrow> sock;
                Some (r, addr, k)
              })"

subsection \<open>TCP\<close>

fun connect_walk :: "addrinfo list \<Rightarrow> int option \<Rightarrow> u8 list option \<Rightarrow> kernel
    \<Rightarrow> (int option \<times> u8 list option \<times> kernel) option" where
  "connect_walk [] sock addr k = Some (sock, addr, k)"
| "connect_walk (p # ps) sock addr k =
     (let (s, k) = open_socket p False False k
      in if s < 0 then connect_walk ps (Some s) addr k
         else let (r, k) = sys (Connect s (ai_addr p)) k
              in if r < 0 then connect_walk ps (Some (- 1)) addr (snd (sys (Close s) k))
                 else do { addr \<leftarrow> copy_addr addr (ai_addr p); Some (Some s, addr, k) })"

definition socket_tcp_connect :: "u8 list option \<Rightarrow> u8 list option \<Rightarrow> u8 list option \<Rightarrow> kernel
    \<Rightarrow> (int \<times> u8 list option \<times> kernel) option" where
  "socket_tcp_connect address port addr k =
     (let hints = no_hints\<lparr>ai_family := AF_UNSPEC, ai_socktype := SOCK_STREAM\<rparr>;
          (status, k) = sys (Getaddrinfo address port hints) k
      in if status \<noteq> 0 then Some (- 1, addr, k)
         else do {
           (sock, addr, k) \<leftarrow> connect_walk (k_infos k (k_log k)) None addr k;
           let k = snd (sys Freeaddrinfo k);
           r \<leftarrow> sock;
           Some (r, addr, k)
         })"

definition socket_tcp_bind :: "u8 list option \<Rightarrow> u8 list option \<Rightarrow> u8 list option \<Rightarrow> kernel
    \<Rightarrow> (int \<times> u8 list option \<times> kernel) option" where
  "socket_tcp_bind address port addr k =
     (let hints = no_hints\<lparr>ai_flags := AI_PASSIVE, ai_family := AF_UNSPEC, ai_socktype := SOCK_STREAM,
                           ai_protocol := IPPROTO_TCP\<rparr>
      in do {
        (sock, addr, k) \<leftarrow> socket_bind address port hints addr k;
        if sock < 0 then Some (sock, addr, k)
        else let (r, k) = sys (Listen sock listen_backlog) k
             in if r < 0 then Some (- 2, addr, snd (sys (Close sock) k)) else Some (sock, addr, k)
      })"

definition socket_tcp_accept :: "int \<Rightarrow> u8 list option \<Rightarrow> kernel \<Rightarrow> (int \<times> u8 list option \<times> kernel) option" where
  "socket_tcp_accept socket addr k =
     (let (sd, k) = sys (Accept socket) k
      in if sd < 0 then Some (- 1, addr, k)
         else do { addr \<leftarrow> copy_addr addr (take storage_size (k_peer k (k_log k))); Some (sd, addr, k) })"

subsection \<open>UDP\<close>

definition socket_udp_bind :: "u8 list option \<Rightarrow> u8 list option \<Rightarrow> u8 list option \<Rightarrow> kernel
    \<Rightarrow> (int \<times> u8 list option \<times> kernel) option" where
  "socket_udp_bind address port addr k =
     socket_bind address port
       (no_hints\<lparr>ai_flags := AI_PASSIVE, ai_family := AF_UNSPEC, ai_socktype := SOCK_DGRAM\<rparr>) addr k"

fun udp_walk :: "addrinfo list \<Rightarrow> int option \<Rightarrow> u8 list option \<Rightarrow> kernel
    \<Rightarrow> (int option \<times> u8 list option \<times> kernel) option" where
  "udp_walk [] sock addr k = Some (sock, addr, k)"
| "udp_walk (p # ps) sock addr k =
     (let (s, k) = open_socket p False False k
      in if s < 0 then udp_walk ps (Some s) addr k
         else do { addr \<leftarrow> copy_addr addr (ai_addr p); Some (Some s, addr, k) })"

definition socket_udp_connect :: "u8 list option \<Rightarrow> u8 list option \<Rightarrow> u8 list option \<Rightarrow> kernel
    \<Rightarrow> (int \<times> u8 list option \<times> kernel) option" where
  "socket_udp_connect address port addr k =
     (let hints = no_hints\<lparr>ai_flags := AI_PASSIVE, ai_family := AF_UNSPEC, ai_socktype := SOCK_DGRAM,
                           ai_protocol := IPPROTO_UDP\<rparr>;
          (status, k) = sys (Getaddrinfo address port hints) k
      in if status \<noteq> 0 then Some (- 1, addr, k)
         else do {
           (sock, addr, k) \<leftarrow> udp_walk (k_infos k (k_log k)) None addr k;
           let k = snd (sys Freeaddrinfo k);
           r \<leftarrow> sock;
           Some (r, addr, k)
         })"

text \<open>The data is the first \<open>n\<close> bytes of the buffer; the length of the address is the size of its storage.\<close>

definition socket_udp_send :: "int \<Rightarrow> u8 list \<Rightarrow> u8 list \<Rightarrow> nat \<Rightarrow> int \<Rightarrow> kernel \<Rightarrow> (int \<times> kernel) option" where
  "socket_udp_send sock addr buffer n flags k =
     do { data \<leftarrow> buf_read buffer 0 n; Some (sys (Sendto sock addr (int storage_size) data flags) k) }"

text \<open>\<open>recvfrom\<close>: at most \<open>n\<close> bytes go to the buffer, and the peer's address, cut to the size of its storage, to
  \<open>addr\<close>.\<close>

definition receive_from :: "nat \<Rightarrow> int \<Rightarrow> u8 list option \<Rightarrow> u8 list \<Rightarrow> nat \<Rightarrow> int \<Rightarrow> kernel
    \<Rightarrow> (int \<times> u8 list option \<times> u8 list \<times> kernel) option" where
  "receive_from addr_size sock addr buffer n flags k =
     (let (r, k) = sys (Recvfrom sock n flags) k
      in if r < 0 then Some (r, addr, buffer, k)
         else do {
           buffer \<leftarrow> buf_write buffer 0 (take n (k_data k (k_log k)));
           addr \<leftarrow> copy_addr addr (take addr_size (k_peer k (k_log k)));
           Some (r, addr, buffer, k)
         })"

definition socket_udp_recv :: "int \<Rightarrow> u8 list option \<Rightarrow> u8 list \<Rightarrow> nat \<Rightarrow> int \<Rightarrow> kernel
    \<Rightarrow> (int \<times> u8 list option \<times> u8 list \<times> kernel) option" where
  "socket_udp_recv = receive_from storage_size"

subsection \<open>UNIX sockets\<close>

text \<open>A path is its characters before the NUL. \<open>sun_fill\<close> is the \<open>strcpy\<close> into \<open>sun_path\<close> and the first
  \<open>addrlen\<close> bytes of the address, which the NUL is not among.\<close>

definition sun_fill :: "u8 list \<Rightarrow> u8 list option" where
  "sun_fill filepath =
     (if length filepath < sun_path_size then Some (to_bytes (word_of_int AF_UNIX :: u16) @ filepath) else None)"

definition socket_unix_connect :: "u8 list \<Rightarrow> kernel \<Rightarrow> (int \<times> kernel) option" where
  "socket_unix_connect filepath k =
     (let (sock, k) = sys (New_socket AF_UNIX SOCK_STREAM 0) k
      in if sock < 0 then Some (- 1, k)
         else do {
           addr \<leftarrow> sun_fill filepath;
           let (r, k) = sys (Connect sock addr) k;
           if r < 0 then Some (- 2, snd (sys (Close sock) k)) else Some (sock, k)
         })"

definition socket_unix_bind :: "u8 list \<Rightarrow> bool \<Rightarrow> kernel \<Rightarrow> (int \<times> kernel) option" where
  "socket_unix_bind filepath dgram k =
     (let (sock, k) = sys (New_socket AF_UNIX (if dgram then SOCK_DGRAM else SOCK_STREAM) 0) k
      in if sock < 0 then Some (- 2, k)
         else do {
           addr \<leftarrow> sun_fill filepath;
           let (r, k) = sys (Bind sock addr) k;
           if r < 0 then Some (- 3, snd (sys (Close sock) k))
           else if \<not> dgram
           then let (r, k) = sys (Listen sock listen_backlog) k
                in if r < 0
                   then let k = snd (sys (Unlink filepath) k) in Some (- 4, snd (sys (Close sock) k))
                   else Some (sock, k)
           else Some (sock, k)
         })"

definition socket_unix_accept :: "int \<Rightarrow> kernel \<Rightarrow> int \<times> kernel" where
  "socket_unix_accept socket k = (let (sd, k) = sys (Accept socket) k in if sd < 0 then (- 1, k) else (sd, k))"

text \<open>\<open>CMSG_LEN(sizeof(int))\<close>: a header of 16 bytes and the descriptor.\<close>

definition cmsg_len_int :: nat where "cmsg_len_int = 20"

definition socket_unix_sendfd :: "int \<Rightarrow> int \<Rightarrow> kernel \<Rightarrow> int \<times> kernel" where
  "socket_unix_sendfd sock fd k =
     (let (r, k) = sys (Sendmsg sock (to_bytes fd_magic) fd) k in if r \<noteq> 4 then (- 1, k) else (0, k))"

text \<open>The received bytes go to \<open>magic\<close>; the control data is read whether or not the message had any, and with none
  it is what was in the buffer.\<close>

definition socket_unix_recvfd :: "int \<Rightarrow> kernel \<Rightarrow> (int \<times> kernel) option" where
  "socket_unix_recvfd sock k =
     (let (r, k) = sys (Recvmsg sock 4 cmsg_len_int) k
      in if r \<noteq> 4 then Some (- 1, k)
         else do {
           magic \<leftarrow> load (k_data k (k_log k)) 0;
           if magic \<noteq> fd_magic then Some (- 2, k)
           else do { fd \<leftarrow> k_passed k (k_log k); Some (fd, k) }
         })"

definition sockaddr_un_size :: nat where "sockaddr_un_size = 110"

definition socket_unix_send :: "int \<Rightarrow> u8 list \<Rightarrow> u8 list \<Rightarrow> nat \<Rightarrow> int \<Rightarrow> kernel \<Rightarrow> (int \<times> kernel) option" where
  "socket_unix_send sock addr buffer n flags k =
     do { data \<leftarrow> buf_read buffer 0 n; Some (sys (Sendto sock addr (int sockaddr_un_size) data flags) k) }"

definition socket_unix_recv :: "int \<Rightarrow> u8 list option \<Rightarrow> u8 list \<Rightarrow> nat \<Rightarrow> int \<Rightarrow> kernel
    \<Rightarrow> (int \<times> u8 list option \<times> u8 list \<times> kernel) option" where
  "socket_unix_recv = receive_from sockaddr_un_size"

subsection \<open>Addresses\<close>

definition socket_address :: "int \<Rightarrow> u8 list \<Rightarrow> kernel \<Rightarrow> (int \<times> u8 list \<times> kernel) option" where
  "socket_address sock address k =
     (let (r, k) = sys (Getpeername sock) k
      in if r < 0 then Some (r, address, k)
         else do { address \<leftarrow> buf_write address 0 (take storage_size (k_peer k (k_log k))); Some (r, address, k) })"

definition sa_family :: "u8 list \<Rightarrow> int option" where
  "sa_family address = map_option (uint :: u16 \<Rightarrow> int) (load address 0)"

text \<open>\<open>sin_addr\<close> is the 4 bytes at offset 4 of an IPv4 address, \<open>sin6_addr\<close> the 16 bytes at offset 8 of the
  others; \<open>ntop\<close> is \<open>inet_ntop\<close>, which has the size of the buffer and gives the text or NULL.\<close>

definition net_address :: "int \<Rightarrow> u8 list \<Rightarrow> u8 list option" where
  "net_address family address = (if family = AF_INET then buf_read address 4 4 else buf_read address 8 16)"

definition socket_str_address :: "(int \<Rightarrow> u8 list \<Rightarrow> nat \<Rightarrow> u8 list option) \<Rightarrow> nat \<Rightarrow> u8 list \<Rightarrow> u8 list option option" where
  "socket_str_address ntop n address =
     do { family \<leftarrow> sa_family address; addr \<leftarrow> net_address family address; Some (ntop family addr n) }"

definition socket_str_address_info :: "(int \<Rightarrow> u8 list \<Rightarrow> nat \<Rightarrow> u8 list option) \<Rightarrow> nat \<Rightarrow> addrinfo \<Rightarrow> u8 list option option" where
  "socket_str_address_info ntop n info =
     do { addr \<leftarrow> net_address (ai_family info) (ai_addr info); Some (ntop (ai_family info) addr n) }"

definition socket_address_is_ipv6 :: "u8 list \<Rightarrow> bool option" where
  "socket_address_is_ipv6 address = do { family \<leftarrow> sa_family address; Some (family \<noteq> AF_INET) }"

subsection \<open>The functions that open a socket\<close>

datatype opener =
    Tcp_connect "u8 list option" "u8 list option"
  | Tcp_bind "u8 list option" "u8 list option"
  | Tcp_accept int
  | Udp_bind "u8 list option" "u8 list option"
  | Udp_connect "u8 list option" "u8 list option"
  | Unix_connect "u8 list"
  | Unix_bind "u8 list" bool
  | Unix_accept int

text \<open>The result, with the caller's storage for the address, if it gave any.\<close>

fun open_with :: "opener \<Rightarrow> u8 list option \<Rightarrow> kernel \<Rightarrow> (int \<times> u8 list option \<times> kernel) option" where
  "open_with (Tcp_connect a p) addr k = socket_tcp_connect a p addr k"
| "open_with (Tcp_bind a p) addr k = socket_tcp_bind a p addr k"
| "open_with (Tcp_accept s) addr k = socket_tcp_accept s addr k"
| "open_with (Udp_bind a p) addr k = socket_udp_bind a p addr k"
| "open_with (Udp_connect a p) addr k = socket_udp_connect a p addr k"
| "open_with (Unix_connect f) addr k = map_option (\<lambda>(r, k). (r, addr, k)) (socket_unix_connect f k)"
| "open_with (Unix_bind f d) addr k = map_option (\<lambda>(r, k). (r, addr, k)) (socket_unix_bind f d k)"
| "open_with (Unix_accept s) addr k = (let (r, k) = socket_unix_accept s k in Some (r, addr, k))"

end
