(* ===== verification/Sock_Poll.thy ===== *)
theory Sock_Poll
  imports Io_Poll Socket
begin

section \<open>A server in an event loop (sockpoll.c)\<close>

text \<open>
  The three functions of the client are arguments, which are options when the code tests them for NULL. Only
  \<open>write_f\<close> can tell what it is called with: it gets the structure itself, not the client's data, and the argument says
  which of the two it is. The closing of -1 after a failed accept is a call like the others.
\<close>

datatype data_pointer = Client_data | Sockpoll_self

record 'u sock_client =
  cl_accept :: "'u handler"
  cl_read :: "'u handler option"
  cl_write :: "(data_pointer \<Rightarrow> 'u handler) option"

definition sockpoll_read :: "(backend \<Rightarrow> bool) \<Rightarrow> 'u sock_client \<Rightarrow> int \<Rightarrow> 'u handler" where
  "sockpoll_read has c server sock s =
     (if sock = server
      then do {
        (client, s) \<leftarrow> cl_accept c sock s;
        if client < 0 then let (_, s) = pool_sys (Close client) s in Some (- 1, s)
        else do { (_, s) \<leftarrow> iopoll_add has client s; Some (0, s) }
      }
      else do {
        (r, s) \<leftarrow> (case cl_read c of None \<Rightarrow> Some (- 1, s) | Some f \<Rightarrow> f sock s);
        if r < 0
        then do {
          (_, s) \<leftarrow> iopoll_remove has sock s;
          let (_, s) = pool_sys (Close sock) s;
          Some (- 2, s)
        }
        else Some (0, s)
      })"

definition sockpoll_write :: "'u sock_client \<Rightarrow> 'u handler" where
  "sockpoll_write c sock s = (case cl_write c of None \<Rightarrow> None | Some f \<Rightarrow> f Sockpoll_self sock s)"

text \<open>The result of \<open>iopoll_alloc\<close> is not looked at, and that of \<open>sockpoll_alloc\<close> is never NULL.\<close>

definition sockpoll_alloc :: "(backend \<Rightarrow> bool) \<Rightarrow> 'u sock_client \<Rightarrow> int \<Rightarrow> backend \<Rightarrow> int \<Rightarrow> 'u pool \<Rightarrow> 'u pool option" where
  "sockpoll_alloc has c server type timeout s =
     (let (_, p, k) = iopoll_alloc has (io s) True (cl_write c \<noteq> None) type timeout (kern s)
      in map_option snd (iopoll_add has server (s\<lparr>io := p, kern := k\<rparr>)))"

definition sockpoll_free :: "(backend \<Rightarrow> bool) \<Rightarrow> 'u pool \<Rightarrow> 'u pool" where
  "sockpoll_free has s = iopoll_free has s"

definition sockpoll_add :: "(backend \<Rightarrow> bool) \<Rightarrow> 'u handler" where
  "sockpoll_add has sock s = iopoll_add has sock s"

definition sockpoll_remove :: "(backend \<Rightarrow> bool) \<Rightarrow> 'u handler" where
  "sockpoll_remove has sock s = iopoll_remove has sock s"

definition sockpoll_loop :: "(backend \<Rightarrow> bool) \<Rightarrow> 'u sock_client \<Rightarrow> int \<Rightarrow> nat \<Rightarrow> 'u pool \<Rightarrow> (int \<times> 'u pool + 'u pool) option" where
  "sockpoll_loop has c server n s = iopoll_loop has (sockpoll_read has c server) (sockpoll_write c) n s"

definition sockpoll_exec :: "(backend \<Rightarrow> bool) \<Rightarrow> 'u sock_client \<Rightarrow> int \<Rightarrow> backend \<Rightarrow> nat \<Rightarrow> 'u pool
    \<Rightarrow> (int \<times> 'u pool + 'u pool) option" where
  "sockpoll_exec has c server type n s =
     do {
       s \<leftarrow> sockpoll_alloc has c server type 0 s;
       o' \<leftarrow> sockpoll_loop has c server n s;
       Some (case o' of Inl (res, s) \<Rightarrow> Inl (res, sockpoll_free has s) | Inr s \<Rightarrow> Inr s)
     }"

subsection \<open>What the server watches\<close>

text \<open>
  The contract of a client on a backend: its \<open>accept_f\<close> gives a socket that it opened, or an error, its \<open>read_f\<close>
  opens and closes none, and neither touches the structure. \<open>well\<close> is what the client needs of the state, which system
  calls keep.
\<close>

locale sock_server = poll_set watched add remove sane valid sure
  for watched :: "'u pool \<Rightarrow> int set"
    and add :: "'u handler"
    and remove :: "'u handler"
    and sane :: "'u pool \<Rightarrow> bool"
    and valid :: "int \<Rightarrow> bool"
    and sure :: bool +
  fixes has :: "backend \<Rightarrow> bool"
    and c :: "'u sock_client"
    and rd :: "'u handler"
    and on :: "'u pool \<Rightarrow> bool"
    and well :: "'u pool \<Rightarrow> bool"
  assumes add_is: "on s \<Longrightarrow> iopoll_add has fd s = add fd s"
    and remove_is: "on s \<Longrightarrow> iopoll_remove has fd s = remove fd s"
    and add_keeps: "add fd s = Some (r, s') \<Longrightarrow> on s \<and> well s \<Longrightarrow> on s' \<and> well s'"
    and remove_keeps: "remove fd s = Some (r, s') \<Longrightarrow> on s \<and> well s \<Longrightarrow> on s' \<and> well s'"
    and close_keeps: "pool_sys (Close fd) s = (r, s') \<Longrightarrow> on s \<and> well s \<Longrightarrow> on s' \<and> well s'"
    and close_none: "pool_sys (Close fd) s = (r, s') \<Longrightarrow> tracks s \<Longrightarrow> fd < 0 \<Longrightarrow> tracks s'"
    and accept_opens: "on s \<Longrightarrow> well s \<Longrightarrow> sane s \<Longrightarrow> \<exists>r s'. cl_accept c sock s = Some (r, s') \<and> on s' \<and> well s' \<and> sane s'
        \<and> watched s' = watched s \<and> (0 \<le> r \<longrightarrow> valid r)
        \<and> known_fds (kern s') = (if 0 \<le> r then insert r (known_fds (kern s)) else known_fds (kern s))"
    and read_is: "cl_read c = Some rd"
    and read_keeps: "on s \<Longrightarrow> well s \<Longrightarrow> sane s \<Longrightarrow> \<exists>r s'. rd sock s = Some (r, s') \<and> on s' \<and> well s' \<and> sane s'
        \<and> watched s' = watched s \<and> known_fds (kern s') = known_fds (kern s)"

begin

definition serving :: "'u pool \<Rightarrow> bool" where
  "serving s \<longleftrightarrow> on s \<and> well s \<and> tracks s"

lemma serving_sane: "serving s \<Longrightarrow> on s \<and> well s \<and> sane s"
  by (simp add: serving_def tracks_def)

text \<open>The server's socket: a client is accepted and watched, or the failed result closed.\<close>

lemma serving_accept:
  assumes "serving s" "sock = server"
  shows "\<exists>r s'. sockpoll_read has c server sock s = Some (r, s') \<and> serving s'"
proof -
  obtain r s1 where r: "cl_accept c sock s = Some (r, s1)" "on s1" "well s1" "sane s1" "watched s1 = watched s"
    "0 \<le> r \<longrightarrow> valid r" "known_fds (kern s1) = (if 0 \<le> r then insert r (known_fds (kern s)) else known_fds (kern s))"
    using accept_opens serving_sane [OF assms(1)] by blast
  have t: "tracks s" using assms(1) by (simp add: serving_def)
  show ?thesis
  proof (cases "r < 0")
    case True
    obtain q s2 where q: "pool_sys (Close r) s1 = (q, s2)" by fastforce
    have "tracks s1" using t r True unfolding tracks_def by simp
    then have "tracks s2" by (rule close_none [OF q]) (rule True)
    then show ?thesis using r q True assms(2) close_keeps [OF q] by (simp add: sockpoll_read_def serving_def)
  next
    case False
    have w: "watched s \<subseteq> known_fds (kern s)" "sure \<longrightarrow> known_fds (kern s) \<subseteq> watched s"
      using t unfolding tracks_def by blast+
    have "\<exists>q s2. add r s1 = Some (q, s2) \<and> tracks s2"
      using w r False by (intro tracks_add) auto
    then obtain q s2 where q: "add r s1 = Some (q, s2)" "tracks s2" by blast
    then show ?thesis
      using r False assms(2) add_keeps [OF q(1)] by (simp add: sockpoll_read_def serving_def add_is)
  qed
qed

text \<open>A client's socket: served, or no longer watched and closed.\<close>

lemma serving_read:
  assumes "serving s" "valid sock" "sock \<noteq> server"
  shows "\<exists>r s'. sockpoll_read has c server sock s = Some (r, s') \<and> serving s'"
proof -
  obtain r s1 where r: "rd sock s = Some (r, s1)" "on s1" "well s1" "sane s1" "watched s1 = watched s"
    "known_fds (kern s1) = known_fds (kern s)"
    using read_keeps serving_sane [OF assms(1)] by blast
  have t: "tracks s1" using assms(1) r unfolding serving_def tracks_def by simp
  show ?thesis
  proof (cases "r < 0")
    case False
    then show ?thesis using r t assms(3) by (simp add: sockpoll_read_def serving_def read_is)
  next
    case True
    obtain p s2 q s3 where x: "remove sock s1 = Some (p, s2)" "pool_sys (Close sock) s2 = (q, s3)" "tracks s3"
      using tracks_remove [OF t assms(2)] by blast
    have "on s3 \<and> well s3" using remove_keeps [OF x(1)] close_keeps [OF x(2)] r(2,3) by blast
    then show ?thesis
      using r(1,2) x True assms(3) by (simp add: sockpoll_read_def serving_def read_is remove_is)
  qed
qed

theorem serving_step:
  "serving s \<Longrightarrow> valid sock \<Longrightarrow> \<exists>r s'. sockpoll_read has c server sock s = Some (r, s') \<and> serving s'"
  using serving_accept serving_read by blast

end

end
