(* ===== verification/Select_Server.thy ===== *)
theory Select_Server
  imports Sock_Poll
begin

section \<open>A server on select\<close>

text \<open>
  What the servers of src/socket share on the select backend: the contract of their two functions, which is stricter
  than that of Sock_Poll since they have no \<open>write_f\<close> and change nothing but the kernel, the loop, and the invariant
  of the loop.
\<close>

text \<open>What the client needs of the kernel: descriptors that fit in an \<open>fd_set\<close> and messages shorter than the buffer.\<close>

definition small_world :: "kernel \<Rightarrow> bool" where
  "small_world k \<longleftrightarrow> (\<forall>h c. k_answer k h c < FD_SETSIZE) \<and> (\<forall>h. length (k_data k h) < 1024)"

lemma small_world_sys: "sys c k = (r, k') \<Longrightarrow> small_world k' = small_world k"
  by (auto simp: small_world_def sys_def Let_def)

lemma sys_answer: "sys c k = (r, k') \<Longrightarrow> small_world k \<Longrightarrow> r < FD_SETSIZE"
  by (auto simp: small_world_def sys_def Let_def)

definition select_on :: "'u pool \<Rightarrow> bool" where
  "select_on s \<longleftrightarrow> io_type (io s) = IOPOLL_SELECT \<and> io_read (io s) \<and> \<not> io_write (io s)"

subsection \<open>The loop\<close>

text \<open>A walk over descriptors none of which is writable, by a reading handler that keeps \<open>P\<close>.\<close>

lemma select_dispatch_keeps:
  assumes rd: "\<And>x s. P s \<Longrightarrow> 0 \<le> x \<Longrightarrow> x < FD_SETSIZE \<Longrightarrow> \<exists>r s'. rd x s = Some (r, s') \<and> P s'"
    and ok: "\<And>s. P s \<Longrightarrow> io_read (io s) \<and> io_fdmax (io s) < FD_SETSIZE"
  shows "P s \<Longrightarrow> 0 \<le> x \<Longrightarrow> \<exists>s'. select_dispatch rd wr rfds (\<lambda>_. False) x s = Some s' \<and> P s'"
proof (induction "nat (FD_SETSIZE - x)" arbitrary: x s rule: less_induct)
  case (less x s)
  show ?case
  proof (cases "x \<le> io_fdmax (io s) \<and> iopoll_is_looping s")
    case False
    then have "select_dispatch rd wr rfds (\<lambda>_. False) x s = Some s" by (subst select_dispatch.simps) auto
    then show ?thesis using less.prems by simp
  next
    case True
    then have x: "0 \<le> x" "x < FD_SETSIZE" using ok [OF less.prems(1)] less.prems(2) by simp_all
    obtain r s1 where r: "rd x s = Some (r, s1)" "P s1" using rd [OF less.prems(1) x] by blast
    let ?s = "if rfds x then s1 else s"
    have "select_dispatch rd wr rfds (\<lambda>_. False) x s = select_dispatch rd wr rfds (\<lambda>_. False) (x + 1) ?s"
      using True x r(1) ok [OF less.prems(1)] by (subst select_dispatch.simps) (simp add: invoke_def)
    moreover have "P ?s" using r(2) less.prems(1) by simp
    ultimately show ?thesis using less.hyps [of "x + 1" ?s] x by simp
  qed
qed

text \<open>A round, and any number of rounds, with no writing handler.\<close>

lemma select_round_keeps:
  assumes rd: "\<And>x s. P s \<Longrightarrow> 0 \<le> x \<Longrightarrow> x < FD_SETSIZE \<Longrightarrow> \<exists>r s'. rd x s = Some (r, s') \<and> P s'"
    and ok: "\<And>s. P s \<Longrightarrow> io_read (io s) \<and> \<not> io_write (io s) \<and> io_fdmax (io s) < FD_SETSIZE"
    and sel: "\<And>n r w t q s s'. pool_sys (Select n r w t) s = (q, s') \<Longrightarrow> P s \<Longrightarrow> P s'"
    and s: "P s"
  shows "(\<exists>r f s'. select_round rd wr (rfds, \<lambda>_. False, s) = Some (Inl (r, f, \<lambda>_. False, s')) \<and> P s')
    \<or> (\<exists>f s'. select_round rd wr (rfds, \<lambda>_. False, s) = Some (Inr (f, \<lambda>_. False, s')) \<and> P s')"
proof (cases "iopoll_is_looping s")
  case False
  then show ?thesis using s by (simp add: select_round_def)
next
  case True
  let ?p = "io s"
  let ?t = "if io_timeout ?p < 1 then Some (0, uint (io_timeout ?p * 10)) else None"
  obtain q s1 where q: "pool_sys (Select (io_fdmax ?p + 1) (Some (io_fds ?p)) None ?t) s = (q, s1)" by fastforce
  have p: "P s1" by (rule sel [OF q s])
  let ?f = "\<lambda>fd. io_fds ?p fd \<and> fd < io_fdmax ?p + 1 \<and> k_readable (kern s1) (k_log (kern s1)) fd"
  obtain s2 where s2: "select_dispatch rd wr ?f (\<lambda>_. False) 0 s1 = Some s2" "P s2"
    using select_dispatch_keeps [of P rd s1 0 wr ?f] rd ok p by blast
  show ?thesis
    using True q p s2 ok [OF s] by (simp add: select_round_def Let_def)
qed

lemma select_rounds_keep:
  assumes rd: "\<And>x s. P s \<Longrightarrow> 0 \<le> x \<Longrightarrow> x < FD_SETSIZE \<Longrightarrow> \<exists>r s'. rd x s = Some (r, s') \<and> P s'"
    and ok: "\<And>s. P s \<Longrightarrow> io_read (io s) \<and> \<not> io_write (io s) \<and> io_fdmax (io s) < FD_SETSIZE"
    and sel: "\<And>n r w t q s s'. pool_sys (Select n r w t) s = (q, s') \<Longrightarrow> P s \<Longrightarrow> P s'"
  shows "P s \<Longrightarrow> \<exists>f s'. P s' \<and> (\<exists>r. run_rounds (select_round rd wr) n (rfds, \<lambda>_. False, s)
        \<in> {Some (Inl (r, f, \<lambda>_. False, s')), Some (Inr (f, \<lambda>_. False, s'))})"
proof (induction n arbitrary: rfds s)
  case 0
  then show ?case by auto
next
  case (Suc n)
  have "(\<exists>r f s'. select_round rd wr (rfds, \<lambda>_. False, s) = Some (Inl (r, f, \<lambda>_. False, s')) \<and> P s')
    \<or> (\<exists>f s'. select_round rd wr (rfds, \<lambda>_. False, s) = Some (Inr (f, \<lambda>_. False, s')) \<and> P s')"
    by (rule select_round_keeps [where P = P]) (fact rd ok sel Suc.prems)+
  then show ?case
  proof (elim disjE exE conjE)
    fix r f s' assume "select_round rd wr (rfds, \<lambda>_. False, s) = Some (Inl (r, f, \<lambda>_. False, s'))" "P s'"
    then show ?thesis by auto
  next
    fix f s' assume x: "select_round rd wr (rfds, \<lambda>_. False, s) = Some (Inr (f, \<lambda>_. False, s'))" "P s'"
    show ?thesis using Suc.IH [OF x(2), of f] x(1) by simp
  qed
qed

subsection \<open>The contract of a server\<close>

definition pool_of :: "int \<times> 'u pool + 'u pool \<Rightarrow> 'u pool" where
  "pool_of out = (case out of Inl (r, s) \<Rightarrow> s | Inr s \<Rightarrow> s)"

locale select_server =
  fixes has :: "backend \<Rightarrow> bool"
    and c :: "'u sock_client"
    and rd :: "'u handler"
    and well :: "kernel \<Rightarrow> bool"
  assumes has_select: "has IOPOLL_SELECT"
    and no_write: "cl_write c = None"
    and reader_is: "cl_read c = Some rd"
    and well_sys: "sys x k = (r, k') \<Longrightarrow> (\<And>i n m. x \<noteq> Recvmsg i n m) \<Longrightarrow> well k \<Longrightarrow> well k'"
    and accepts: "well (kern s) \<Longrightarrow> \<exists>r k'. cl_accept c sock s = Some (r, s\<lparr>kern := k'\<rparr>) \<and> well k'
        \<and> (0 \<le> r \<longrightarrow> select_valid r) \<and> known_fds k' = (if 0 \<le> r then insert r (known_fds (kern s)) else known_fds (kern s))"
    and reads: "well (kern s) \<Longrightarrow> \<exists>r k'. rd sock s = Some (r, s\<lparr>kern := k'\<rparr>) \<and> well k' \<and> known_fds k' = known_fds (kern s)"

sublocale select_server \<subseteq> sock_server select_watched iopoll_select_add iopoll_select_remove select_sane select_valid True
  has c rd select_on "\<lambda>s. well (kern s)"
proof
  fix s s' :: "'u pool" and fd r sock :: int
  show "iopoll_add has fd s = iopoll_select_add fd s" if "select_on s"
    using that has_select by (simp add: select_on_def iopoll_add_def)
  show "iopoll_remove has fd s = iopoll_select_remove fd s" if "select_on s"
    using that has_select by (simp add: select_on_def iopoll_remove_def)
  show "select_on s' \<and> well (kern s')"
    if "iopoll_select_add fd s = Some (r, s')" "select_on s \<and> well (kern s)"
    using that by (auto simp: iopoll_select_add_def select_on_def Let_def split: if_splits)
  show "select_on s' \<and> well (kern s')"
    if "iopoll_select_remove fd s = Some (r, s')" "select_on s \<and> well (kern s)"
    using that by (auto simp: iopoll_select_remove_def select_on_def Let_def split: if_splits)
  show "select_on s' \<and> well (kern s')"
    if "pool_sys (Close fd) s = (r, s')" "select_on s \<and> well (kern s)"
    using that by (auto simp: pool_sys_def select_on_def well_sys split: prod.splits)
  show "select.tracks s'" if "pool_sys (Close fd) s = (r, s')" "select.tracks s" "fd < 0"
  proof -
    have "fd \<notin> select_watched s" using that(2,3) by (force simp: select.tracks_def select_sane_def select_watched_def)
    then show ?thesis
      using that pool_sys_frame [OF that(1)] by (auto simp: select.tracks_def select_sane_def select_watched_def)
  qed
  show "\<exists>r s'. cl_accept c sock s = Some (r, s') \<and> select_on s' \<and> well (kern s')
      \<and> select_sane s' \<and> select_watched s' = select_watched s \<and> (0 \<le> r \<longrightarrow> select_valid r)
      \<and> known_fds (kern s') = (if 0 \<le> r then insert r (known_fds (kern s)) else known_fds (kern s))"
    if a: "select_on s" "well (kern s)" "select_sane s"
  proof -
    obtain r k' where "cl_accept c sock s = Some (r, s\<lparr>kern := k'\<rparr>)" "well k'" "0 \<le> r \<longrightarrow> select_valid r"
      "known_fds k' = (if 0 \<le> r then insert r (known_fds (kern s)) else known_fds (kern s))"
      using accepts [OF a(2)] by blast
    then show ?thesis using a(1,3) by (auto simp: select_on_def select_sane_def select_watched_def)
  qed
  show "cl_read c = Some rd" by (rule reader_is)
  show "\<exists>r s'. rd sock s = Some (r, s') \<and> select_on s' \<and> well (kern s') \<and> select_sane s'
      \<and> select_watched s' = select_watched s \<and> known_fds (kern s') = known_fds (kern s)"
    if a: "select_on s" "well (kern s)" "select_sane s"
  proof -
    obtain r k' where "rd sock s = Some (r, s\<lparr>kern := k'\<rparr>)" "well k'" "known_fds k' = known_fds (kern s)"
      using reads [OF a(2)] by blast
    then show ?thesis using a(1,3) by (auto simp: select_on_def select_sane_def select_watched_def)
  qed
qed

context select_server
begin

lemma alloc_serving:
  assumes "known_fds (kern s) = {server}" "select_valid server" "well (kern s)"
  shows "\<exists>s0. sockpoll_alloc has c server IOPOLL_SELECT t s = Some s0 \<and> serving s0"
proof -
  let ?p = "(io s)\<lparr>io_read := True, io_write := False,
      io_timeout := word_of_int (if t \<le> 0 then - 1 else t), io_type := IOPOLL_SELECT\<rparr>"
  let ?s = "s\<lparr>io := iopoll_select_alloc ?p\<rparr>"
  have w: "select_watched ?s = {}" and y: "select_sane ?s"
    by (simp_all add: select_watched_def select_sane_def iopoll_select_alloc_def FD_SETSIZE_def)
  then obtain s0 where s0: "iopoll_select_add server ?s = Some (0, s0)" "select_sane s0" "select_watched s0 = {server}"
    "kern s0 = kern s"
    using select_add_sane [OF y assms(2)] w by auto
  have on: "select_on ?s \<and> well (kern ?s)" using assms(3) by (simp add: select_on_def iopoll_select_alloc_def)
  have "select_on s0 \<and> well (kern s0)" by (rule add_keeps [OF s0(1) on])
  then have "serving s0" using s0 assms(1) by (simp add: serving_def select.tracks_def)
  moreover have "sockpoll_alloc has c server IOPOLL_SELECT t s = Some s0"
    using s0(1) has_select
    by (simp add: sockpoll_alloc_def iopoll_alloc_def no_write iopoll_add_def iopoll_select_alloc_def Let_def)
  ultimately show ?thesis by blast
qed

lemma serving_select:
  assumes "pool_sys (Select n r w t) s = (q, s')" "serving s"
  shows "serving s'"
proof -
  have "well (kern s) \<Longrightarrow> well (kern s')"
    using assms(1) by (auto simp: pool_sys_def well_sys split: prod.splits)
  then show ?thesis
    using assms(2) pool_sys_frame [OF assms(1)]
    by (simp add: serving_def select.tracks_def select_on_def select_sane_def select_watched_def)
qed

lemma serving_state: "serving s \<Longrightarrow> io_read (io s) \<and> \<not> io_write (io s) \<and> io_fdmax (io s) < FD_SETSIZE"
  by (simp add: serving_def select_on_def select.tracks_def select_sane_def)

text \<open>What is watched after any number of rounds is what is open and not leaked.\<close>

theorem watches_open:
  assumes "known_fds (kern s) = {server}" "select_valid server" "well (kern s)"
  shows "\<exists>s0 out. sockpoll_alloc has c server IOPOLL_SELECT t s = Some s0 \<and> sockpoll_loop has c server n s0 = Some out
    \<and> {fd. io_fds (io (pool_of out)) fd} = known_fds (kern (pool_of out)) \<and> well (kern (pool_of out))"
proof -
  let ?r = "sockpoll_read has c server" and ?w = "sockpoll_write c"
  obtain s0 where s0: "sockpoll_alloc has c server IOPOLL_SELECT t s = Some s0" "serving s0"
    using alloc_serving [OF assms] by blast
  have step: "\<exists>r s'. ?r x s = Some (r, s') \<and> serving s'" if "serving s" "0 \<le> x" "x < FD_SETSIZE" for x s
    using serving_step [of s x server] that by (simp add: select_valid_def)
  obtain f s' r where r: "serving s'" "run_rounds (select_round ?r ?w) n (\<lambda>_. False, \<lambda>_. False, s0)
        \<in> {Some (Inl (r, f, \<lambda>_. False, s')), Some (Inr (f, \<lambda>_. False, s'))}"
    using select_rounds_keep [of serving ?r s0 ?w n "\<lambda>_. False"] step serving_state serving_select s0(2)
    by blast
  have "io_type (io s0) = IOPOLL_SELECT" using s0(2) by (simp add: serving_def select_on_def)
  then have "\<exists>out. sockpoll_loop has c server n s0 = Some out \<and> pool_of out = s'"
    using r(2) has_select by (auto simp: sockpoll_loop_def iopoll_loop_def iopoll_select_def pool_of_def)
  moreover have "{fd. io_fds (io s') fd} = known_fds (kern s')"
    using r(1) by (auto simp: serving_def select.tracks_def select_watched_def)
  moreover have "well (kern s')" using r(1) by (simp add: serving_def)
  ultimately show ?thesis using s0(1) by blast
qed

end

end
