(* ===== verification/Tcp_Server.thy ===== *)
theory Tcp_Server
  imports Select_Server
begin

section \<open>A TCP server (tcp-server.c)\<close>

text \<open>
  The two functions the server gives to sockpoll.c, on the sockets of socket.c. Output is left out, but for the text that
  it reads: the address, which \<open>ntop\<close> prints, and the received bytes up to a NUL in the buffer of 1024 bytes, without
  which \<open>printf\<close> reads past it.
\<close>

definition server_port :: "u8 list" where "server_port = [56, 48, 56, 48]"

definition server_answer :: "u8 list" where "server_answer = [79, 75, 44, 32, 82, 101, 99, 101, 105, 118, 101, 100, 33, 10]"

definition tcp_accept :: "(int \<Rightarrow> u8 list \<Rightarrow> nat \<Rightarrow> u8 list option) \<Rightarrow> 'u handler" where
  "tcp_accept ntop socket s =
     do {
       (client, address, k) \<leftarrow> socket_tcp_accept socket (Some (replicate storage_size 0)) (kern s);
       let s = s\<lparr>kern := k\<rparr>;
       if client < 0 then Some (- 1, s)
       else do {
         address \<leftarrow> address;
         _ \<leftarrow> socket_str_address ntop 46 address;
         Some (client, s)
       }
     }"

definition tcp_read :: "'u handler" where
  "tcp_read sock s =
     (let (n, s) = pool_sys (Recv sock 1024 0) s
      in if n < 1 then Some (- 1, s)
         else do {
           buffer \<leftarrow> buf_write (replicate 1024 0) 0 (take 1024 (k_data (kern s) (k_log (kern s))));
           if 0 \<in> set buffer then let (_, s) = pool_sys (Send sock server_answer 0) s in Some (0, s) else None
         })"

definition tcp_client :: "(int \<Rightarrow> u8 list \<Rightarrow> nat \<Rightarrow> u8 list option) \<Rightarrow> 'u sock_client" where
  "tcp_client ntop = \<lparr>cl_accept = tcp_accept ntop, cl_read = Some tcp_read, cl_write = None\<rparr>"

text \<open>\<open>main\<close>: the exit code, and the loop stopped after \<open>n\<close> rounds when it has not returned.\<close>

definition tcp_server_main :: "(int \<Rightarrow> u8 list \<Rightarrow> nat \<Rightarrow> u8 list option) \<Rightarrow> (backend \<Rightarrow> bool) \<Rightarrow> nat \<Rightarrow> 'u pool
    \<Rightarrow> (int \<times> 'u pool + 'u pool) option" where
  "tcp_server_main ntop has n s =
     do {
       (sock, addr, k) \<leftarrow> socket_tcp_bind None (Some server_port) (Some (replicate storage_size 0)) (kern s);
       let s = s\<lparr>kern := k\<rparr>;
       if sock < 0 then Some (Inl (1, s))
       else do {
         addr \<leftarrow> addr;
         _ \<leftarrow> socket_str_address ntop 46 addr;
         o' \<leftarrow> sockpoll_exec has (tcp_client ntop) sock IOPOLL_DEFAULT n (s\<lparr>looping := None\<rparr>);
         Some (case o' of Inr s \<Rightarrow> Inr s
               | Inl (_, s) \<Rightarrow> let (_, s) = pool_sys (Close sock) s in Inl (0, s))
       }
     }"

subsection \<open>The server on select\<close>

lemma buf_read_storage: "length m = storage_size \<Longrightarrow> buf_read m 4 4 \<noteq> None \<and> buf_read m 8 16 \<noteq> None"
  by (simp add: buf_read_def storage_size_def)

lemma str_address_storage:
  assumes "length m = storage_size"
  shows "\<exists>t. socket_str_address ntop n m = Some t"
proof -
  have "\<exists>f. sa_family m = Some f" using assms by (simp add: sa_family_def load_Some storage_size_def)
  then show ?thesis using buf_read_storage [OF assms] by (auto simp: socket_str_address_def net_address_def)
qed

text \<open>A kernel on which descriptors are small, messages short, and nothing was leaked.\<close>

definition clean_world :: "kernel \<Rightarrow> bool" where
  "clean_world k \<longleftrightarrow> small_world k \<and> leaked k = {}"

lemma clean_world_sys:
  assumes "sys x k = (r, k')" "\<And>i n m. x \<noteq> Recvmsg i n m" "clean_world k"
  shows "clean_world k'"
proof -
  have "leak_step k' (k_log k') {} (x, r) = {}" using assms(2) by (cases x) auto
  then show ?thesis using assms(1,3) leaked_sys [OF assms(1)] by (simp add: clean_world_def small_world_sys)
qed

lemma tcp_accept_opens:
  assumes "clean_world (kern s)"
  shows "\<exists>r k'. tcp_accept ntop sock s = Some (r, s\<lparr>kern := k'\<rparr>) \<and> clean_world k' \<and> (0 \<le> r \<longrightarrow> select_valid r)
     \<and> known_fds k' = (if 0 \<le> r then insert r (known_fds (kern s)) else known_fds (kern s))"
proof -
  obtain r k1 where r: "sys (Accept sock) (kern s) = (r, k1)" by fastforce
  have small: "small_world (kern s)" using assms by (simp add: clean_world_def)
  have w1: "clean_world k1" using clean_world_sys [OF r _ assms] by simp
  note o1 = known_sys [OF r] and a1 = sys_answer [OF r small]
  show ?thesis
  proof (cases "r < 0")
    case True
    then show ?thesis
      using r o1 w1 assms by (auto simp: tcp_accept_def socket_tcp_accept_def intro!: exI [of _ "- 1"] exI [of _ k1])
  next
    case False
    let ?m = "splice (replicate storage_size 0) 0 (take storage_size (k_peer k1 (k_log k1)))"
    have l: "length ?m = storage_size" by simp
    obtain t where "socket_str_address ntop 46 ?m = Some t" using str_address_storage [OF l] by blast
    then have "tcp_accept ntop sock s = Some (r, s\<lparr>kern := k1\<rparr>)"
      using r False by (simp add: tcp_accept_def socket_tcp_accept_def copy_addr_def buf_simps)
    then show ?thesis using o1 w1 a1 assms False by (auto simp: select_valid_def)
  qed
qed

lemma tcp_read_keeps:
  assumes "clean_world (kern s)"
  shows "\<exists>r k'. tcp_read sock s = Some (r, s\<lparr>kern := k'\<rparr>) \<and> clean_world k' \<and> known_fds k' = known_fds (kern s)"
proof -
  obtain n k1 where n: "sys (Recv sock 1024 0) (kern s) = (n, k1)" by fastforce
  obtain q k2 where q: "sys (Send sock server_answer 0) k1 = (q, k2)" by fastforce
  let ?d = "k_data k1 (k_log k1)"
  let ?b = "splice (replicate 1024 0) 0 (take 1024 ?d) :: u8 list"
  have w1: "clean_world k1" using clean_world_sys [OF n _ assms] by simp
  then have w2: "clean_world k2" using clean_world_sys [OF q] by simp
  have "length ?d < 1024" using w1 by (simp add: clean_world_def small_world_def)
  then have "last ?b = 0" by (simp add: splice_def)
  moreover have "?b \<noteq> []" by (simp add: splice_def)
  ultimately have "0 \<in> set ?b" by (metis last_in_set)
  let ?k = "if n < 1 then k1 else k2"
  have "tcp_read sock s = Some (if n < 1 then - 1 else 0, s\<lparr>kern := ?k\<rparr>)"
    using n q \<open>0 \<in> set ?b\<close> by (simp add: tcp_read_def pool_sys_def buf_simps)
  moreover have "clean_world ?k" "known_fds ?k = known_fds (kern s)"
    using w1 w2 known_sys [OF n] known_sys [OF q] by simp_all
  ultimately show ?thesis by blast
qed

text \<open>The contract of a server, for a build with select.\<close>

interpretation tcp: select_server "\<lambda>b. b = IOPOLL_SELECT \<or> has b" "tcp_client ntop" tcp_read clean_world
proof
  show "clean_world k'" if "sys x k = (r, k')" "\<And>i n m. x \<noteq> Recvmsg i n m" "clean_world k" for x k r k'
    using that by (rule clean_world_sys)
qed (simp_all add: tcp_client_def tcp_accept_opens tcp_read_keeps)

end
