(* ===== verification/Server_Properties.thy ===== *)
theory Server_Properties
  imports Tcp_Server
begin

unbundle bit_operations_syntax

section \<open>Properties of the event loop and the server\<close>

text \<open>
  The server of tcp-server.c on the select backend watches the sockets that are open, in every round; what a writing
  handler gets; and two consequences of how the backends take a timeout and the filters of kqueue.
\<close>

text \<open>From a state in which only the server's socket is open, the server of tcp-server.c on select does not fault
  in any number of rounds, whatever the kernel reports as ready and accepts, while descriptors stay below
  \<open>FD_SETSIZE\<close> and messages shorter than the buffer; and what it then watches is exactly what is open, so that no
  connection is forgotten and none polled after it was closed.\<close>

theorem server_watches_open:
  assumes "has IOPOLL_SELECT" "opened (kern s) = {server}" "leaked (kern s) = {}" "select_valid server"
    and "small_world (kern s)"
  shows "\<exists>s0 out. sockpoll_alloc has (tcp_client ntop) server IOPOLL_SELECT t s = Some s0
    \<and> sockpoll_loop has (tcp_client ntop) server n s0 = Some out
    \<and> {fd. io_fds (io (pool_of out)) fd} = opened (kern (pool_of out))"
proof -
  have "(\<lambda>b. b = IOPOLL_SELECT \<or> has b) = has" using assms(1) by auto
  moreover have "known_fds (kern s) = {server}" "clean_world (kern s)"
    using assms(2,3,5) opened_is [of "kern s"] by (simp_all add: clean_world_def)
  ultimately show ?thesis using tcp.watches_open [of s server has ntop t n] assms(4) by (auto simp: opened_is clean_world_def)
qed

text \<open>A kernel on which the server, descriptor 3, and each client are always ready, and the clients are 4, 5, ... by the
  number of calls; every second call from a client fails.\<close>

definition busy_kernel :: kernel where
  "busy_kernel = idle_kernel\<lparr>
     k_answer := (\<lambda>h c. case c of Accept s \<Rightarrow> min 900 (4 + int (length h)) | Select n r w t \<Rightarrow> 1
                        | Recv s n f \<Rightarrow> int (length h mod 2) | _ \<Rightarrow> 0),
     k_readable := (\<lambda>_ _. True), k_log := [(New_socket 2 1 6, 3)]\<rparr>"

definition busy_pool :: "unit pool" where
  "busy_pool = \<lparr>io = \<lparr>io_write = False, io_read = False, io_timeout = 0, io_fds = (\<lambda>_. True), io_fdmax = 7, io_kq = 0,
     io_epld = 0, io_type = IOPOLL_DEFAULT\<rparr>, looping = None, kern = busy_kernel, user = ()\<rparr>"

lemma busy_small: "small_world busy_kernel"
proof -
  have "int (m mod 2) < 1024" for m by presburger
  then have "k_answer busy_kernel h c < 1024" for h c by (cases c) (simp_all add: busy_kernel_def idle_kernel_def)
  then show ?thesis by (simp add: small_world_def FD_SETSIZE_def) (simp add: busy_kernel_def idle_kernel_def)
qed

lemma opened_leaked_first:
  "k_log k = [(New_socket a b c, r)] \<Longrightarrow> 0 \<le> r \<Longrightarrow> opened k = {r}" "k_log k = [(New_socket a b c, r)] \<Longrightarrow> leaked k = {}"
  using log_fold_simps(2) [of _ "[]"] by (simp_all add: opened_def leaked_def)

lemma busy_pool_kern [simp]: "kern busy_pool = busy_kernel"
  by (simp add: busy_pool_def)

theorem server_watches_open_witness:
  "\<exists>s0 out. sockpoll_alloc (\<lambda>_. True) (tcp_client (\<lambda>f a n. None)) 3 IOPOLL_SELECT 0 busy_pool = Some s0
    \<and> sockpoll_loop (\<lambda>_. True) (tcp_client (\<lambda>f a n. None)) 3 5 s0 = Some out
    \<and> {fd. io_fds (io (pool_of out)) fd} = opened (kern (pool_of out))"
  by (rule server_watches_open)
    (simp_all add: busy_small, simp_all add: busy_kernel_def opened_leaked_first select_valid_def FD_SETSIZE_def)

subsection \<open>A writing handler\<close>

text \<open>C34. With a \<open>write_f\<close>, a client whose \<open>read_f\<close> fails when it is readable and writable is closed and then
  written to in the same pass: the writing function is called with the closed descriptor, and its first argument is
  the sockpoll structure and not the client's data.\<close>

theorem written_after_close:
  assumes "has IOPOLL_SELECT" "io_type (io s) = IOPOLL_SELECT" "io_read (io s)" "io_write (io s)"
    and "0 \<le> x" "x \<le> io_fdmax (io s)" "x < FD_SETSIZE" "iopoll_is_looping s" "rfds x" "wfds x" "x \<noteq> server"
    and "cl_read c = Some rd" "rd x s = Some (r, sr)" "r < 0" "io sr = io s" "cl_write c = Some w"
  shows "\<exists>s2. x \<notin> opened (kern s2)
    \<and> select_dispatch (sockpoll_read has c server) (sockpoll_write c) rfds wfds x s
      = do { (_, s3) \<leftarrow> w Sockpoll_self x s2;
             select_dispatch (sockpoll_read has c server) (sockpoll_write c) rfds wfds (x + 1) s3 }"
proof -
  obtain s' where s': "iopoll_remove has x sr = Some (0, s')" "io_write (io s')"
    using assms(1,2,4,5,7,15) by (simp add: iopoll_remove_def iopoll_select_remove_def Let_def)
  obtain q s2 where q: "pool_sys (Close x) s' = (q, s2)" by fastforce
  have r: "sockpoll_read has c server x s = Some (- 2, s2)"
    using assms(11-14) s' q by (simp add: sockpoll_read_def)
  have w: "invoke (io_write (io s2)) (sockpoll_write c) x s2 = map_option snd (w Sockpoll_self x s2)"
    using s'(2) pool_sys_frame [OF q] assms(16) by (simp add: invoke_def sockpoll_write_def)
  have "select_dispatch (sockpoll_read has c server) (sockpoll_write c) rfds wfds x s
      = do { (_, s3) \<leftarrow> w Sockpoll_self x s2;
             select_dispatch (sockpoll_read has c server) (sockpoll_write c) rfds wfds (x + 1) s3 }"
    using assms(3,5-10) r w
    by (subst select_dispatch.simps) (cases "w Sockpoll_self x s2"; auto simp: invoke_def)
  moreover have "x \<notin> opened (kern s2)" using pool_sys_frame [OF q] by simp
  ultimately show ?thesis by blast
qed

definition failing_client :: "unit sock_client" where
  "failing_client = \<lparr>cl_accept = (\<lambda>x s. Some (- 1, s)), cl_read = Some (\<lambda>x s. Some (- 1, s)),
     cl_write = Some (\<lambda>d x s. Some (0, s))\<rparr>"

definition writing_pool :: "unit pool" where
  "writing_pool = busy_pool\<lparr>io := (io busy_pool)\<lparr>io_read := True, io_write := True, io_type := IOPOLL_SELECT\<rparr>\<rparr>"

theorem written_after_close_witness:
  "\<exists>s2. 5 \<notin> opened (kern s2)
    \<and> select_dispatch (sockpoll_read (\<lambda>_. True) failing_client 3) (sockpoll_write failing_client) (\<lambda>_. True) (\<lambda>_. True) 5 writing_pool
      = do { (_, s3) \<leftarrow> Some (0, s2);
             select_dispatch (sockpoll_read (\<lambda>_. True) failing_client 3) (sockpoll_write failing_client) (\<lambda>_. True) (\<lambda>_. True) (5 + 1) s3 }"
  using written_after_close [of "\<lambda>_. True" writing_pool 5 "\<lambda>_. True" "\<lambda>_. True" 3 failing_client
      "\<lambda>x s. Some (- 1, s)" "- 1" writing_pool "\<lambda>d x s. Some (0, s)"]
  by (simp add: writing_pool_def failing_client_def busy_pool_def FD_SETSIZE_def iopoll_is_looping_def)

subsection \<open>Timeouts, and the filters of kqueue\<close>

text \<open>The unsigned \<open>timeout\<close> that \<open>iopoll_alloc\<close> stores is never below 1, so that select and kqueue wait without a
  limit whatever the caller asked for.\<close>

lemma iopoll_timeout_not_below_1:
  assumes "timeout < 2 ^ 31"
  shows "\<not> io_timeout (fst (snd (iopoll_alloc has p rd wr type timeout k))) < 1"
proof -
  have "(word_of_int t :: u32) \<noteq> 0" if "0 < t" "t < 2 ^ 31" for t
  proof -
    have "uint (word_of_int t :: u32) = t" using that by (simp add: uint_word_of_int)
    then show ?thesis using that(1) by auto
  qed
  then have "(word_of_int (if timeout \<le> 0 then - 1 else timeout) :: u32) \<noteq> 0" using assms by simp
  then show ?thesis
    by (auto simp: iopoll_alloc_def iopoll_select_alloc_def iopoll_kqueue_alloc_def iopoll_epoll_alloc_def Let_def
        word_less_1 split: option.splits prod.splits)
qed

text \<open>The filters are small negative numbers and not bits: an event of the reading filter passes the test for the
  writing one, and a loop without a writing handler calls through NULL.\<close>

lemma kqueue_reading_faults:
  assumes "io_read (io s)" "\<not> io_write (io s)" "iopoll_is_looping s" "rd fd s = Some (r, s')" "io s' = io s"
  shows "kqueue_dispatch rd wr (Suc n) ((ucast EVFILT_READ, fd) # evs) s = None"
proof -
  have "(ucast (ucast EVFILT_READ :: u32) :: u16) AND EVFILT_READ \<noteq> 0" by code_simp
  moreover have "(ucast (ucast EVFILT_READ :: u32) :: u16) AND EVFILT_WRITE \<noteq> 0" by code_simp
  ultimately show ?thesis using assms by (simp add: invoke_def)
qed

end
