(* ===== verification/Socket_Properties.thy ===== *)
theory Socket_Properties
  imports Socket
begin

section \<open>Every socket that is opened is returned or closed\<close>

text \<open>
  The functions of socket.c that open a socket return it or close it, whatever the kernel answers, and release the list of
  addresses they resolved; \<open>nets\<close> of Sys_Calls is what is proved along the calls. The second part is the loop of
  \<open>__socket_bind\<close>, which binds every socket to the first address of the list.
\<close>

definition handed :: "int \<Rightarrow> resource multiset" where "handed r = (if 0 \<le> r then {#Descriptor r#} else {#})"

text \<open>\<open>getaddrinfo\<close> gives at least one address when it succeeds, and none is larger than its storage.\<close>

definition resolves :: "kernel \<Rightarrow> bool" where
  "resolves k \<longleftrightarrow> (\<forall>h. k_infos k h \<noteq> [] \<and> (\<forall>p \<in> set (k_infos k h). length (ai_addr p) \<le> storage_size))"

definition has_room :: "u8 list option \<Rightarrow> bool" where
  "has_room addr \<longleftrightarrow> (\<forall>m. addr = Some m \<longrightarrow> length m = storage_size)"

fun path_fits :: "opener \<Rightarrow> bool" where
  "path_fits (Unix_connect f) \<longleftrightarrow> length f < sun_path_size"
| "path_fits (Unix_bind f d) \<longleftrightarrow> length f < sun_path_size"
| "path_fits _ \<longleftrightarrow> True"

lemma sys_infos [simp]: "k_infos (snd (sys c k)) = k_infos k"
  by (simp add: sys_def Let_def)

lemma sys_infos': "sys c k = (r, k') \<Longrightarrow> k_infos k' = k_infos k"
  using sys_infos [of c k] by simp

lemma handed_neg [simp]: "r < 0 \<Longrightarrow> handed r = {#}"
  by (simp add: handed_def)

lemma handed_nonneg [simp]: "0 \<le> r \<Longrightarrow> handed r = {#Descriptor r#}"
  by (simp add: handed_def)

text \<open>A call that neither acquires nor releases, and one that closes what was opened.\<close>

lemma moved_neutral:
  assumes "nets k k1 A D" "gains (c, fst (sys c k1)) = {#}" "drops (c, fst (sys c k1)) = {#}"
  shows "nets k (snd (sys c k1)) A D"
  using moved_trans [OF assms(1) moved_step [of k1 c]] assms(2,3) by simp

lemma moved_drop:
  assumes "nets k k1 (A + X) D" "gains (c, fst (sys c k1)) = {#}" "drops (c, fst (sys c k1)) = X"
  shows "nets k (snd (sys c k1)) A D"
  using moved_trans [OF assms(1) moved_step [of k1 c]] assms(2,3) moved_cancel [of k _ A X D] by simp

lemma open_socket_moves:
  assumes "open_socket p ra rp k = (s, k')"
  shows "nets k k' (handed s) {#} \<and> k_infos k' = k_infos k"
proof -
  let ?c = "New_socket (ai_family p) (ai_socktype p) (ai_protocol p)"
  obtain s1 k1 where s1: "sys ?c k = (s1, k1)" by fastforce
  have m: "nets k k1 (handed s1) {#}" using moved_sys [OF s1] by (simp add: handed_def)
  have n: "nets k (snd (sys (Setsockopt s l a v) k2)) A D" if "nets k k2 A D" for l a v k2 A D
    by (rule moved_neutral [OF that]) simp_all
  show ?thesis
    using assms s1 m sys_infos' [OF s1] by (auto simp: open_socket_def Let_def intro!: n split: if_splits)
qed

lemma copy_addr_room:
  assumes "has_room addr" "length bs \<le> storage_size"
  shows "\<exists>addr'. copy_addr addr bs = Some addr' \<and> has_room addr'"
  using assms by (auto simp: copy_addr_def has_room_def buf_simps split: option.splits)

text \<open>The outcome of an opening: no fault, and what is acquired and not released is the descriptor returned.\<close>

definition opens :: "kernel \<Rightarrow> (int \<times> u8 list option \<times> kernel) option \<Rightarrow> bool" where
  "opens k x \<longleftrightarrow> (\<exists>r addr k'. x = Some (r, addr, k') \<and> nets k k' (handed r) {#})"

text \<open>The same of a walk over the addresses, which are still held.\<close>

definition walks :: "kernel \<Rightarrow> (int option \<times> u8 list option \<times> kernel) option \<Rightarrow> bool" where
  "walks k x \<longleftrightarrow> (\<exists>r addr k'. x = Some (Some r, addr, k') \<and> nets k k' (handed r) {#})"

lemma walks_from:
  assumes "nets k k1 {#} {#}" "walks k1 x"
  shows "walks k x"
proof -
  obtain r addr k' where "x = Some (Some r, addr, k')" "nets k1 k' (handed r) {#}"
    using assms(2) unfolding walks_def by blast
  then show ?thesis using moved_trans [OF assms(1)] unfolding walks_def by fastforce
qed

lemma moved_close:
  assumes "nets k k1 (handed s) {#}" "0 \<le> s"
  shows "nets k (snd (sys (Close s) k1)) {#} {#}"
  by (rule moved_drop [where X = "{#Descriptor s#}"]) (use assms in simp_all)

lemma moved_failed:
  assumes "nets k k1 (handed s) {#}" "sys c k1 = (r, k2)" "gains (c, r) = {#}" "drops (c, r) = {#}"
  shows "nets k k2 (handed s) {#}"
  using moved_neutral [OF assms(1), of c] assms(2-4) by simp

text \<open>One address of a walk: the socket is not opened, or opened and closed again, or kept.\<close>

lemma walks_try:
  assumes m: "nets k k1 (handed s) {#}"
    and r: "sys c k1 = (r, k2)" "gains (c, r) = {#}" "drops (c, r) = {#}"
    and X: "s < 0 \<Longrightarrow> walks k1 X"
    and Y: "0 \<le> s \<Longrightarrow> r < 0 \<Longrightarrow> walks (snd (sys (Close s) k2)) Y"
    and a: "copy_addr addr bs = Some addr'"
  shows "walks k (if s < 0 then X else if r < 0 then Y
                  else do { addr \<leftarrow> copy_addr addr bs; Some (Some s, addr, k2) })"
proof -
  have m2: "nets k k2 (handed s) {#}" by (rule moved_failed [OF m r])
  consider "s < 0" | "0 \<le> s" "r < 0" | "0 \<le> s" "0 \<le> r" by linarith
  then show ?thesis
  proof cases
    case 1
    then show ?thesis using walks_from [of k k1] m X by simp
  next
    case 2
    then show ?thesis using walks_from [OF moved_close [OF m2]] Y by simp
  next
    case 3
    then show ?thesis using a m2 by (simp add: walks_def)
  qed
qed

lemma bind_walk_walks:
  "\<lbrakk>\<forall>p \<in> set ps. length (ai_addr p) \<le> storage_size; has_room addr; ps \<noteq> [] \<or> (\<exists>r. sock = Some r \<and> r < 0)\<rbrakk>
    \<Longrightarrow> walks k (bind_walk info ps sock addr k)"
proof (induction ps arbitrary: sock k)
  case Nil
  then show ?case by (auto simp: walks_def moved_refl)
next
  case (Cons p ps)
  obtain s k1 where s: "open_socket p True True k = (s, k1)" by fastforce
  obtain r k2 where r: "sys (Bind s (ai_addr info)) k1 = (r, k2)" by fastforce
  obtain addr' where a: "copy_addr addr (ai_addr p) = Some addr'"
    using copy_addr_room Cons.prems(1,2) by (meson list.set_intros(1))
  show ?case
    unfolding bind_walk.simps s r Let_def prod.case
    by (rule walks_try [OF conjunct1 [OF open_socket_moves [OF s]] r _ _ _ _ a])
      (use Cons.prems in \<open>simp_all add: Cons.IH\<close>)
qed

lemma connect_walk_walks:
  "\<lbrakk>\<forall>p \<in> set ps. length (ai_addr p) \<le> storage_size; has_room addr; ps \<noteq> [] \<or> (\<exists>r. sock = Some r \<and> r < 0)\<rbrakk>
    \<Longrightarrow> walks k (connect_walk ps sock addr k)"
proof (induction ps arbitrary: sock k)
  case Nil
  then show ?case by (auto simp: walks_def moved_refl)
next
  case (Cons p ps)
  obtain s k1 where s: "open_socket p False False k = (s, k1)" by fastforce
  obtain r k2 where r: "sys (Connect s (ai_addr p)) k1 = (r, k2)" by fastforce
  obtain addr' where a: "copy_addr addr (ai_addr p) = Some addr'"
    using copy_addr_room Cons.prems(1,2) by (meson list.set_intros(1))
  show ?case
    unfolding connect_walk.simps s r Let_def prod.case
    by (rule walks_try [OF conjunct1 [OF open_socket_moves [OF s]] r _ _ _ _ a])
      (use Cons.prems in \<open>simp_all add: Cons.IH\<close>)
qed

lemma udp_walk_walks:
  "\<lbrakk>\<forall>p \<in> set ps. length (ai_addr p) \<le> storage_size; has_room addr; ps \<noteq> [] \<or> (\<exists>r. sock = Some r \<and> r < 0)\<rbrakk>
    \<Longrightarrow> walks k (udp_walk ps sock addr k)"
proof (induction ps arbitrary: sock k)
  case Nil
  then show ?case by (auto simp: walks_def moved_refl)
next
  case (Cons p ps)
  obtain s k1 where s: "open_socket p False False k = (s, k1)" by fastforce
  note m = conjunct1 [OF open_socket_moves [OF s]]
  obtain addr' where a: "copy_addr addr (ai_addr p) = Some addr'"
    using copy_addr_room Cons.prems(1,2) by (meson list.set_intros(1))
  show ?case
  proof (cases "s < 0")
    case True
    then show ?thesis using walks_from [of k k1] m Cons.IH Cons.prems s by simp
  next
    case False
    then show ?thesis using a m s by (simp add: walks_def)
  qed
qed

subsection \<open>The functions\<close>

text \<open>A walk between \<open>getaddrinfo\<close> and \<open>freeaddrinfo\<close>.\<close>

lemma resolved_walk:
  assumes "sys (Getaddrinfo address port hints) k = (status, k1)"
    and "status = 0 \<Longrightarrow> walks k1 w"
  shows "opens k (if status \<noteq> 0 then Some (- 1, addr, k1)
                  else do {
                    (sock, addr, k) \<leftarrow> w;
                    let k = snd (sys Freeaddrinfo k);
                    r \<leftarrow> sock;
                    Some (r, addr, k)
                  })"
proof (cases "status = 0")
  case False
  then show ?thesis using moved_sys [OF assms(1)] by (simp add: opens_def)
next
  case True
  then obtain r addr' k2 where w: "w = Some (Some r, addr', k2)" and m: "nets k1 k2 (handed r) {#}"
    using assms(2) unfolding walks_def by blast
  have "nets k k2 (handed r + {#Address_list#}) {#}"
    using moved_trans [OF moved_sys [OF assms(1)] m] True by (simp add: add.commute)
  then have "nets k (snd (sys Freeaddrinfo k2)) (handed r) {#}" by (rule moved_drop) simp_all
  then show ?thesis using w True by (simp add: opens_def Let_def)
qed

lemma resolves_infos:
  assumes "resolves k" "sys c k = (r, k1)"
  shows "k_infos k1 h \<noteq> []" "\<forall>p \<in> set (k_infos k1 h). length (ai_addr p) \<le> storage_size"
  using assms(1) sys_infos' [OF assms(2)] by (auto simp: resolves_def)

lemma socket_bind_opens:
  assumes "resolves k" "has_room addr"
  shows "opens k (socket_bind address port hints addr k)"
proof -
  obtain status k1 where s: "sys (Getaddrinfo address port hints) k = (status, k1)" by fastforce
  obtain p ps where ps: "k_infos k1 (k_log k1) = p # ps"
    using resolves_infos(1) [OF assms(1) s] by (meson neq_Nil_conv)
  have "walks k1 (bind_walk p (p # ps) None addr k1)"
    using bind_walk_walks [of "p # ps"] resolves_infos(2) [OF assms(1) s, of "k_log k1"] assms(2) ps by simp
  note w = resolved_walk [OF s this, of addr]
  show ?thesis
    unfolding socket_bind_def s Let_def prod.case ps list.case by (rule w [unfolded Let_def])
qed

lemma listen_opens:
  assumes "opens k x"
  shows "opens k (do {
           (sock, addr, k) \<leftarrow> x;
           if sock < 0 then Some (sock, addr, k)
           else let (r, k) = sys (Listen sock n) k
                in if r < 0 then Some (- 2, addr, snd (sys (Close sock) k)) else Some (sock, addr, k)
         })"
proof -
  obtain s addr k1 where x: "x = Some (s, addr, k1)" and m: "nets k k1 (handed s) {#}"
    using assms unfolding opens_def by blast
  obtain r k2 where r: "sys (Listen s n) k1 = (r, k2)" by fastforce
  have m2: "nets k k2 (handed s) {#}" by (rule moved_failed [OF m r]) simp_all
  show ?thesis using x r m m2 moved_close [OF m2] by (auto simp: opens_def Let_def not_less)
qed

lemma unix_connect_opens:
  assumes "length f < sun_path_size"
  shows "opens k (map_option (\<lambda>(r, k). (r, addr, k)) (socket_unix_connect f k))"
proof -
  let ?c = "New_socket AF_UNIX SOCK_STREAM 0"
  obtain s k1 where s: "sys ?c k = (s, k1)" by fastforce
  have m: "nets k k1 (handed s) {#}" using moved_sys [OF s] by (simp add: handed_def)
  obtain a where a: "sun_fill f = Some a" using assms by (simp add: sun_fill_def)
  obtain r k2 where r: "sys (Connect s a) k1 = (r, k2)" by fastforce
  have m2: "nets k k2 (handed s) {#}" by (rule moved_failed [OF m r]) simp_all
  show ?thesis
    using s a r m m2 moved_close [OF m2] by (auto simp: socket_unix_connect_def opens_def Let_def not_less)
qed

lemma unix_bind_opens:
  assumes "length f < sun_path_size"
  shows "opens k (map_option (\<lambda>(r, k). (r, addr, k)) (socket_unix_bind f d k))"
proof -
  let ?c = "New_socket AF_UNIX (if d then SOCK_DGRAM else SOCK_STREAM) 0"
  obtain s k1 where s: "sys ?c k = (s, k1)" by fastforce
  have m: "nets k k1 (handed s) {#}" using moved_sys [OF s] by (simp add: handed_def)
  obtain a where a: "sun_fill f = Some a" using assms by (simp add: sun_fill_def)
  obtain r k2 where r: "sys (Bind s a) k1 = (r, k2)" by fastforce
  have m2: "nets k k2 (handed s) {#}" by (rule moved_failed [OF m r]) simp_all
  obtain l k3 where l: "sys (Listen s listen_backlog) k2 = (l, k3)" by fastforce
  have m3: "nets k k3 (handed s) {#}" by (rule moved_failed [OF m2 l]) simp_all
  have m4: "nets k (snd (sys (Unlink f) k3)) (handed s) {#}" by (rule moved_neutral [OF m3]) simp_all
  show ?thesis
    using s a r l m m2 m3 moved_close [OF m2] moved_close [OF m4]
    by (auto simp: socket_unix_bind_def opens_def Let_def not_less)
qed

lemma open_with_opens:
  assumes "resolves k" "has_room addr" "path_fits op"
  shows "opens k (open_with op addr k)"
proof (cases op)
  case (Tcp_connect a p)
  let ?h = "no_hints\<lparr>ai_family := AF_UNSPEC, ai_socktype := SOCK_STREAM\<rparr>"
  obtain r k1 where r: "sys (Getaddrinfo a p ?h) k = (r, k1)" by fastforce
  have "walks k1 (connect_walk (k_infos k1 (k_log k1)) None addr k1)"
    using connect_walk_walks resolves_infos [OF assms(1) r] assms(2) by simp
  note w = resolved_walk [OF r this, of addr]
  show ?thesis
    unfolding Tcp_connect open_with.simps socket_tcp_connect_def r Let_def prod.case by (rule w [unfolded Let_def])
next
  case (Udp_connect a p)
  let ?h = "no_hints\<lparr>ai_flags := AI_PASSIVE, ai_family := AF_UNSPEC, ai_socktype := SOCK_DGRAM,
                     ai_protocol := IPPROTO_UDP\<rparr>"
  obtain r k1 where r: "sys (Getaddrinfo a p ?h) k = (r, k1)" by fastforce
  have "walks k1 (udp_walk (k_infos k1 (k_log k1)) None addr k1)"
    using udp_walk_walks resolves_infos [OF assms(1) r] assms(2) by simp
  note w = resolved_walk [OF r this, of addr]
  show ?thesis
    unfolding Udp_connect open_with.simps socket_udp_connect_def r Let_def prod.case by (rule w [unfolded Let_def])
next
  case (Tcp_bind a p)
  show ?thesis
    unfolding Tcp_bind open_with.simps socket_tcp_bind_def
    using listen_opens [OF socket_bind_opens [OF assms(1,2)]] by (simp add: Let_def)
next
  case (Udp_bind a p)
  then show ?thesis using socket_bind_opens [OF assms(1,2)] by (simp add: socket_udp_bind_def)
next
  case (Tcp_accept s)
  obtain r k1 where r: "sys (Accept s) k = (r, k1)" by fastforce
  obtain addr' where "copy_addr addr (take storage_size (k_peer k1 (k_log k1))) = Some addr'"
    using copy_addr_room [OF assms(2)] by (metis length_take min.cobounded2)
  then show ?thesis
    using moved_sys [OF r] r Tcp_accept by (auto simp: socket_tcp_accept_def opens_def handed_def)
next
  case (Unix_accept s)
  obtain r k1 where r: "sys (Accept s) k = (r, k1)" by fastforce
  show ?thesis using moved_sys [OF r] r Unix_accept by (auto simp: socket_unix_accept_def opens_def handed_def)
qed (use assms(3) in \<open>simp_all add: unix_connect_opens unix_bind_opens\<close>)

subsection \<open>The address that is bound\<close>

lemma moved_log: "nets k k' A D \<Longrightarrow> \<exists>h. k_log k' = k_log k @ h"
  by (auto simp: nets_def)

lemma sys_log: "sys c k = (r, k') \<Longrightarrow> k_log k' = k_log k @ [(c, r)]"
  by (auto simp: sys_def Let_def)

lemma bind_walk_binds_first:
  "\<lbrakk>bind_walk info ps sock addr k = Some (Some r, addr', k'); 0 \<le> r; \<And>s. sock = Some s \<Longrightarrow> s < 0\<rbrakk>
    \<Longrightarrow> \<exists>h v. k_log k' = k_log k @ h \<and> (Bind r (ai_addr info), v) \<in> set h \<and> 0 \<le> v"
proof (induction ps arbitrary: sock k)
  case Nil
  then show ?case by fastforce
next
  case (Cons p ps)
  obtain s k1 where s: "open_socket p True True k = (s, k1)" by fastforce
  obtain g where g: "k_log k1 = k_log k @ g" using moved_log open_socket_moves [OF s] by blast
  obtain v k2 where v: "sys (Bind s (ai_addr info)) k1 = (v, k2)" by fastforce
  consider "s < 0" | "0 \<le> s" "v < 0" | "0 \<le> s" "0 \<le> v" by linarith
  then show ?case
  proof cases
    case 1
    then have "bind_walk info ps (Some s) addr k1 = Some (Some r, addr', k')" using Cons.prems(1) s by simp
    from Cons.IH [OF this Cons.prems(2)] 1 show ?thesis using g by fastforce
  next
    case 2
    let ?k = "snd (sys (Close s) k2)"
    have l: "k_log ?k = k_log k @ (g @ [(Bind s (ai_addr info), v), (Close s, fst (sys (Close s) k2))])"
      using g sys_log [OF v] sys_log [OF prod.collapse [symmetric], of "Close s" k2] by simp
    have "bind_walk info ps (Some (- 1)) addr ?k = Some (Some r, addr', k')" using Cons.prems(1) s v 2 by simp
    from Cons.IH [OF this Cons.prems(2)] show ?thesis using l by fastforce
  next
    case 3
    then have "s = r" "k' = k2" using Cons.prems(1) s v by (auto simp: bind_Some_iff)
    then show ?thesis using g sys_log [OF v] 3 by fastforce
  qed
qed

subsection \<open>Properties\<close>

text \<open>A kernel whose names have two addresses, of which only the second can be bound or connected to.\<close>

definition two_addresses :: kernel where
  "two_addresses = idle_kernel\<lparr>
     k_answer := (\<lambda>h c. case c of New_socket f t p \<Rightarrow> 3 + int (length h)
                        | Bind s a \<Rightarrow> (if s < 5 then - 1 else 0) | Connect s a \<Rightarrow> (if a = [1] then - 1 else 0) | _ \<Rightarrow> 0),
     k_infos := (\<lambda>_. [no_hints\<lparr>ai_family := 10, ai_addr := [1]\<rparr>, no_hints\<lparr>ai_family := 2, ai_addr := [2]\<rparr>])\<rparr>"

lemma two_addresses_resolves: "resolves two_addresses"
  by (simp add: resolves_def two_addresses_def storage_size_def)

text \<open>C30. A function of socket.c that opens a socket does not fault when the resolver gives at least one address and
  the path fits, and whatever the kernel answers, in every order of failures, the resources it acquired are those it
  released and the descriptor it returns: no socket and no address list is lost on an error path.\<close>

theorem socket_returned_or_closed:
  assumes "resolves k" "has_room addr" "path_fits op"
  shows "\<exists>r addr' k'. open_with op addr k = Some (r, addr', k')
           \<and> acquired (made k k') = released (made k k') + (if 0 \<le> r then {#Descriptor r#} else {#})"
proof -
  obtain r addr' k' where "open_with op addr k = Some (r, addr', k')" "nets k k' (handed r) {#}"
    using open_with_opens [OF assms] unfolding opens_def by blast
  then show ?thesis using moved_made unfolding handed_def by blast
qed

theorem socket_returned_or_closed_witness:
  "\<exists>r addr' k'. open_with (Tcp_bind None (Some [56])) (Some (replicate storage_size 0)) two_addresses = Some (r, addr', k')
           \<and> acquired (made two_addresses k') = released (made two_addresses k') + (if 0 \<le> r then {#Descriptor r#} else {#})"
  by (rule socket_returned_or_closed) (simp_all add: two_addresses_resolves has_room_def)

text \<open>C31. A socket that \<open>__socket_bind\<close> returns was bound to the first address of the list, also when its family and
  the address reported to the caller are those of a later one.\<close>

theorem socket_bound_to_first:
  assumes "socket_bind address port hints addr k = Some (r, addr', k')" "0 \<le> r"
    and "sys (Getaddrinfo address port hints) k = (0, k1)"
  shows "\<exists>v. (Bind r (ai_addr (hd (k_infos k1 (k_log k1)))), v) \<in> set (made k k') \<and> 0 \<le> v"
proof -
  obtain p ps where ps: "k_infos k1 (k_log k1) = p # ps"
    using assms by (cases "k_infos k1 (k_log k1)") (auto simp: socket_bind_def Let_def)
  then obtain k2 where w: "bind_walk p (p # ps) None addr k1 = Some (Some r, addr', k2)"
    and k': "k' = snd (sys Freeaddrinfo k2)"
    using assms(1,3) by (auto simp: socket_bind_def Let_def bind_Some_iff simp del: bind_walk.simps)
  obtain h v where h: "k_log k2 = k_log k1 @ h" "(Bind r (ai_addr p), v) \<in> set h" "0 \<le> v"
    using bind_walk_binds_first [OF w assms(2)] by auto
  have "k_log k' = k_log k @ (Getaddrinfo address port hints, 0) # h @ [(Freeaddrinfo, fst (sys Freeaddrinfo k2))]"
    using h(1) k' sys_log [OF assms(3)] sys_log [OF prod.collapse [symmetric], of Freeaddrinfo k2] by simp
  then show ?thesis using h(2,3) ps by (auto simp: made_def)
qed

text \<open>The second address is the one the caller is told.\<close>

theorem socket_bound_to_first_witness:
  "\<exists>r k' v. socket_bind None None no_hints (Some [0]) two_addresses = Some (r, Some [2], k')
     \<and> (Bind r [1], v) \<in> set (made two_addresses k') \<and> 0 \<le> v"
proof -
  let ?x = "socket_bind None None no_hints (Some [0]) two_addresses"
  obtain k' where x: "?x = Some (9, Some [2], k')"
    by (simp add: socket_bind_def open_socket_def sys_def Let_def two_addresses_def idle_kernel_def no_hints_def
        copy_addr_def buf_write_def splice_def socket_constants)
  have g: "sys (Getaddrinfo None None no_hints) two_addresses
      = (0, snd (sys (Getaddrinfo None None no_hints) two_addresses))"
    by (simp add: sys_def two_addresses_def)
  have "hd (k_infos (snd (sys (Getaddrinfo None None no_hints) two_addresses)) h) = no_hints\<lparr>ai_family := 10, ai_addr := [1]\<rparr>" for h
    by (simp add: two_addresses_def)
  then show ?thesis using socket_bound_to_first [OF x _ g] x by auto
qed

end
