(* ===== verification/Sock_Programs.thy ===== *)
theory Sock_Programs
  imports Tcp_Server
begin

section \<open>The other socket programs\<close>

text \<open>
  The clients and servers of src/socket besides tcp-server.c: the calls each \<open>main\<close> makes, and its exit code. What is
  printed is left out, but a buffer that is printed up to its NUL faults when it has none. \<open>junk\<close> is what an address
  that the program does not set holds.
\<close>

definition hello_server :: "u8 list" where "hello_server = [72, 101, 108, 108, 111, 32, 83, 101, 114, 118, 101, 114, 10, 0]"

definition hello_client :: "u8 list" where "hello_client = [72, 101, 108, 108, 111, 32, 67, 108, 105, 101, 110, 116, 10, 0]"

definition hello_unix :: "u8 list" where
  "hello_unix = [72, 101, 108, 108, 111, 32, 102, 114, 111, 109, 32, 85, 110, 105, 120, 32, 83, 101, 114, 118, 101, 114, 10, 0]"

definition unix_path :: "u8 list" where "unix_path = [116, 101, 115, 116, 46, 115, 111, 99, 107]"

definition client_dgram_path :: "u8 list" where
  "client_dgram_path = [99, 108, 105, 101, 110, 116, 45, 100, 103, 114, 97, 109, 46, 115, 111, 99, 107]"

definition server_dgram_path :: "u8 list" where
  "server_dgram_path = [115, 101, 114, 118, 101, 114, 45, 100, 103, 114, 97, 109, 46, 115, 111, 99, 107]"

text \<open>\<open>printf\<close> of a buffer with \<open>%s\<close>.\<close>

definition print_text :: "u8 list \<Rightarrow> unit option" where "print_text buffer = (if 0 \<in> set buffer then Some () else None)"

subsection \<open>The stream clients\<close>

text \<open>The calls between the opening and the closing of the socket: both clients have the same.\<close>

definition client_talk :: "int \<Rightarrow> kernel \<Rightarrow> kernel option" where
  "client_talk sock k =
     (let (_, k) = sys (Send sock (take 13 hello_server) 0) k;
          (n, k) = sys (Recv sock 64 0) k
      in do {
        buffer \<leftarrow> buf_write (replicate 64 0) 0 (if n < 0 then [] else take 64 (k_data k (k_log k)));
        _ \<leftarrow> print_text buffer;
        Some k
      })"

definition tcp_client_main :: "kernel \<Rightarrow> (int \<times> kernel) option" where
  "tcp_client_main k =
     do {
       (sock, _, k) \<leftarrow> socket_tcp_connect None (Some server_port) None k;
       if sock < 0 then Some (1, k)
       else do { k \<leftarrow> client_talk sock k; Some (0, snd (sys (Close sock) k)) }
     }"

definition unix_client_main :: "kernel \<Rightarrow> (int \<times> kernel) option" where
  "unix_client_main k =
     do {
       (sock, k) \<leftarrow> socket_unix_connect unix_path k;
       if sock < 0 then Some (1, k)
       else do { k \<leftarrow> client_talk sock k; Some (0, snd (sys (Close sock) k)) }
     }"

subsection \<open>The datagram programs\<close>

definition udp_client_main :: "u8 list \<Rightarrow> kernel \<Rightarrow> (int \<times> kernel) option" where
  "udp_client_main junk k =
     do {
       (sock, addr, k) \<leftarrow> socket_udp_connect None (Some server_port) (Some junk) k;
       if sock < 0 then Some (1, k)
       else do {
         addr \<leftarrow> addr;
         (_, k) \<leftarrow> socket_udp_send sock addr hello_server 13 0 k;
         Some (0, snd (sys (Close sock) k))
       }
     }"

text \<open>The loop over \<open>i\<close> messages.\<close>

fun udp_server_loop :: "(int \<Rightarrow> u8 list \<Rightarrow> nat \<Rightarrow> u8 list option) \<Rightarrow> nat \<Rightarrow> int \<Rightarrow> u8 list \<Rightarrow> kernel \<Rightarrow> kernel option" where
  "udp_server_loop ntop 0 sock addr k = Some k"
| "udp_server_loop ntop (Suc i) sock addr k =
     do {
       (n, addr, buffer, k) \<leftarrow> socket_udp_recv sock (Some addr) (replicate 64 0) 64 0 k;
       addr \<leftarrow> addr;
       if n < 0 then udp_server_loop ntop i sock addr k
       else do {
         _ \<leftarrow> socket_str_address ntop 46 addr;
         _ \<leftarrow> print_text buffer;
         udp_server_loop ntop i sock addr k
       }
     }"

definition udp_server_main :: "(int \<Rightarrow> u8 list \<Rightarrow> nat \<Rightarrow> u8 list option) \<Rightarrow> u8 list \<Rightarrow> kernel \<Rightarrow> (int \<times> kernel) option" where
  "udp_server_main ntop junk k =
     do {
       (sock, _, k) \<leftarrow> socket_udp_bind None (Some server_port) None k;
       if sock < 0 then Some (1, k)
       else do { k \<leftarrow> udp_server_loop ntop 3 sock junk k; Some (0, snd (sys (Close sock) k)) }
     }"

text \<open>\<open>__QUIT_SOCK\<close>.\<close>

definition quit_sock :: "int \<Rightarrow> kernel \<Rightarrow> kernel" where
  "quit_sock sock k = snd (sys (Unlink client_dgram_path) (snd (sys (Close sock) k)))"

definition unix_dgram_client_main :: "u8 list \<Rightarrow> kernel \<Rightarrow> (int \<times> kernel) option" where
  "unix_dgram_client_main junk k =
     do {
       (sock, k) \<leftarrow> socket_unix_bind client_dgram_path True k;
       if sock < 0 then Some (1, k)
       else do {
         addr \<leftarrow> buf_write junk 0 (to_bytes (word_of_int AF_UNIX :: u16));
         addr \<leftarrow> buf_write addr 2 (server_dgram_path @ [0]);
         (n, k) \<leftarrow> socket_unix_send sock addr hello_server 13 0 k;
         if n < 0 then Some (2, quit_sock sock k)
         else do {
           (n, addr, buffer, k) \<leftarrow> socket_unix_recv sock (Some addr) (replicate 64 0) 64 0 k;
           if n < 0 then Some (3, quit_sock sock k)
           else do {
             addr \<leftarrow> addr;
             _ \<leftarrow> print_text (drop 2 addr);
             _ \<leftarrow> print_text buffer;
             Some (0, quit_sock sock k)
           }
         }
       }
     }"

text \<open>A failed answer is reported, and the loop goes on with the next message as it does otherwise.\<close>

fun unix_dgram_loop :: "nat \<Rightarrow> int \<Rightarrow> u8 list \<Rightarrow> kernel \<Rightarrow> kernel option" where
  "unix_dgram_loop 0 sock addr k = Some k"
| "unix_dgram_loop (Suc i) sock addr k =
     do {
       (n, addr, buffer, k) \<leftarrow> socket_unix_recv sock (Some addr) (replicate 64 0) 64 0 k;
       addr \<leftarrow> addr;
       if n < 0 then unix_dgram_loop i sock addr k
       else do {
         _ \<leftarrow> print_text (drop 2 addr);
         _ \<leftarrow> print_text buffer;
         (_, k) \<leftarrow> socket_unix_send sock addr hello_client 13 0 k;
         unix_dgram_loop i sock addr k
       }
     }"

definition unix_dgram_server_main :: "u8 list \<Rightarrow> kernel \<Rightarrow> (int \<times> kernel) option" where
  "unix_dgram_server_main junk k =
     do {
       (sock, k) \<leftarrow> socket_unix_bind server_dgram_path True k;
       if sock < 0 then Some (1, k)
       else do {
         k \<leftarrow> unix_dgram_loop 3 sock junk k;
         let k = snd (sys (Close sock) k);
         Some (0, snd (sys (Unlink server_dgram_path) k))
       }
     }"

subsection \<open>The UNIX server (unix-server.c)\<close>

definition unix_accept :: "'u handler" where
  "unix_accept sock s =
     (let (client, k) = socket_unix_accept sock (kern s); s = s\<lparr>kern := k\<rparr>
      in if client < 0 then Some (- 1, s) else Some (client, s))"

definition unix_read :: "'u handler" where
  "unix_read sock s =
     (let (n, s) = pool_sys (Recv sock 1024 0) s
      in if n < 1 then Some (- 1, s)
         else do {
           buffer \<leftarrow> buf_write (replicate 1024 0) 0 (take 1024 (k_data (kern s) (k_log (kern s))));
           _ \<leftarrow> print_text buffer;
           let (_, s) = pool_sys (Send sock server_answer 0) s;
           Some (0, s)
         })"

definition unix_client :: "'u sock_client" where
  "unix_client = \<lparr>cl_accept = unix_accept, cl_read = Some unix_read, cl_write = None\<rparr>"

text \<open>The end of the three servers: the loop, and the listening socket closed when it returned.\<close>

definition serve :: "(backend \<Rightarrow> bool) \<Rightarrow> 'u sock_client \<Rightarrow> int \<Rightarrow> nat \<Rightarrow> 'u pool \<Rightarrow> (int \<times> 'u pool + 'u pool) option" where
  "serve has c sock n s =
     do {
       o' \<leftarrow> sockpoll_exec has c sock IOPOLL_DEFAULT n (s\<lparr>looping := None\<rparr>);
       Some (case o' of Inr s \<Rightarrow> Inr s
             | Inl (_, s) \<Rightarrow> let (_, s) = pool_sys (Close sock) s in Inl (0, s))
     }"

definition unix_server_main :: "(backend \<Rightarrow> bool) \<Rightarrow> nat \<Rightarrow> 'u pool \<Rightarrow> (int \<times> 'u pool + 'u pool) option" where
  "unix_server_main has n s =
     do {
       (sock, k) \<leftarrow> socket_unix_bind unix_path False (kern s);
       let s = s\<lparr>kern := k\<rparr>;
       if sock < 0 then Some (Inl (1, s)) else serve has unix_client sock n s
     }"

subsection \<open>Passing connections (sendfd-srv.c, recvfd-srv.c)\<close>

text \<open>The client's data is the socket connected to the other server. An accepted connection is sent there and closed,
  and the result is that of a failed accept.\<close>

definition sendfd_accept :: "(int \<Rightarrow> u8 list \<Rightarrow> nat \<Rightarrow> u8 list option) \<Rightarrow> int handler" where
  "sendfd_accept ntop socket s =
     do {
       (client, address, k) \<leftarrow> socket_tcp_accept socket (Some (replicate storage_size 0)) (kern s);
       let s = s\<lparr>kern := k\<rparr>;
       if client < 0 then Some (- 1, s)
       else do {
         address \<leftarrow> address;
         _ \<leftarrow> socket_str_address ntop 46 address;
         let (_, k) = socket_unix_sendfd (user s) client (kern s);
         let (_, s) = pool_sys (Close client) (s\<lparr>kern := k\<rparr>);
         Some (- 1, s)
       }
     }"

definition sendfd_client :: "(int \<Rightarrow> u8 list \<Rightarrow> nat \<Rightarrow> u8 list option) \<Rightarrow> int sock_client" where
  "sendfd_client ntop = \<lparr>cl_accept = sendfd_accept ntop, cl_read = None, cl_write = None\<rparr>"

definition sendfd_main :: "(int \<Rightarrow> u8 list \<Rightarrow> nat \<Rightarrow> u8 list option) \<Rightarrow> (backend \<Rightarrow> bool) \<Rightarrow> nat \<Rightarrow> int pool
    \<Rightarrow> (int \<times> int pool + int pool) option" where
  "sendfd_main ntop has n s =
     do {
       (sock, addr, k) \<leftarrow> socket_tcp_bind None (Some server_port) (Some (replicate storage_size 0)) (kern s);
       if sock < 0 then Some (Inl (1, s\<lparr>kern := k\<rparr>))
       else do {
         (usock, k) \<leftarrow> socket_unix_connect unix_path k;
         let s = s\<lparr>kern := k, user := usock\<rparr>;
         if usock < 0 then let (_, s) = pool_sys (Close usock) s in Some (Inl (2, s))
         else do {
           addr \<leftarrow> addr;
           _ \<leftarrow> socket_str_address ntop 46 addr;
           serve has (sendfd_client ntop) sock n s
         }
       }
     }"

text \<open>The accept function of the receiver is that of unix-server.c.\<close>

definition recvfd_read :: "'u handler" where
  "recvfd_read sock s =
     do {
       (xfd, k) \<leftarrow> socket_unix_recvfd sock (kern s);
       let s = s\<lparr>kern := k\<rparr>;
       if xfd < 0 then Some (0, s)
       else let (_, s) = pool_sys (Send xfd (take 23 hello_unix) 0) s;
                (_, s) = pool_sys (Close xfd) s
            in Some (0, s)
     }"

definition recvfd_client :: "'u sock_client" where
  "recvfd_client = \<lparr>cl_accept = unix_accept, cl_read = Some recvfd_read, cl_write = None\<rparr>"

definition recvfd_main :: "(backend \<Rightarrow> bool) \<Rightarrow> nat \<Rightarrow> 'u pool \<Rightarrow> (int \<times> 'u pool + 'u pool) option" where
  "recvfd_main has n s =
     do {
       (sock, k) \<leftarrow> socket_unix_bind unix_path False (kern s);
       let s = s\<lparr>kern := k\<rparr>;
       if sock < 0 then Some (Inl (1, s)) else serve has recvfd_client sock n s
     }"

end
