(* ===== verification/Program_Properties.thy ===== *)
theory Program_Properties
  imports Sock_Programs Socket_Properties Server_Properties
begin

section \<open>Properties of the other socket programs\<close>

text \<open>
  The programs that end: the clients and the two datagram servers. What they need of the kernel besides what socket.c
  needs: messages shorter than the buffer, and peers with a name that ends.
\<close>

definition k_world :: "kernel \<Rightarrow> (history \<Rightarrow> addrinfo list) \<times> (history \<Rightarrow> u8 list) \<times> (history \<Rightarrow> u8 list)" where
  "k_world k = (k_infos k, k_peer k, k_data k)"

lemma world_sys: "sys c k = (r, k') \<Longrightarrow> k_world k' = k_world k"
  by (auto simp: sys_def Let_def k_world_def)

lemma world_snd [simp]: "k_world (snd (sys c k)) = k_world k"
  by (simp add: sys_def Let_def k_world_def)

definition polite :: "kernel \<Rightarrow> bool" where
  "polite k \<longleftrightarrow> resolves k \<and> (\<forall>h. length (k_data k h) < 64 \<and> 0 \<in> set (drop 2 (take sockaddr_un_size (k_peer k h))))"

lemma polite_world: "k_world k' = k_world k \<Longrightarrow> polite k' = polite k"
  by (simp add: polite_def resolves_def k_world_def)

subsection \<open>Opening keeps the world\<close>

lemma world_open_socket: "open_socket p a b k = (s, k') \<Longrightarrow> k_world k' = k_world k"
  by (auto simp: open_socket_def Let_def world_sys split: prod.splits if_splits)

lemma world_bind_walk: "bind_walk info ps sock addr k = Some (s, addr', k') \<Longrightarrow> k_world k' = k_world k"
  by (induction ps arbitrary: sock k)
    (auto simp: Let_def bind_Some_iff world_open_socket world_sys split: prod.splits if_splits)

lemma world_connect_walk: "connect_walk ps sock addr k = Some (s, addr', k') \<Longrightarrow> k_world k' = k_world k"
  by (induction ps arbitrary: sock k)
    (auto simp: Let_def bind_Some_iff world_open_socket world_sys split: prod.splits if_splits)

lemma world_udp_walk: "udp_walk ps sock addr k = Some (s, addr', k') \<Longrightarrow> k_world k' = k_world k"
  by (induction ps arbitrary: sock k)
    (auto simp: Let_def bind_Some_iff world_open_socket world_sys split: prod.splits if_splits)

lemma world_socket_bind: "socket_bind a p h addr k = Some (s, addr', k') \<Longrightarrow> k_world k' = k_world k"
  by (auto simp: socket_bind_def Let_def bind_Some_iff world_sys world_bind_walk simp del: bind_walk.simps
      split: prod.splits if_splits list.splits)

lemma world_tcp_connect: "socket_tcp_connect a p addr k = Some (s, addr', k') \<Longrightarrow> k_world k' = k_world k"
  by (auto simp: socket_tcp_connect_def Let_def bind_Some_iff world_sys world_connect_walk split: prod.splits if_splits)

lemma world_udp_connect: "socket_udp_connect a p addr k = Some (s, addr', k') \<Longrightarrow> k_world k' = k_world k"
  by (auto simp: socket_udp_connect_def Let_def bind_Some_iff world_sys world_udp_walk split: prod.splits if_splits)

lemma world_unix_connect: "socket_unix_connect f k = Some (s, k') \<Longrightarrow> k_world k' = k_world k"
  by (auto simp: socket_unix_connect_def Let_def bind_Some_iff case_prod_beta split: if_splits)

lemma world_unix_bind: "socket_unix_bind f d k = Some (s, k') \<Longrightarrow> k_world k' = k_world k"
  by (auto simp: socket_unix_bind_def Let_def bind_Some_iff case_prod_beta split: if_splits)

subsection \<open>A program between opening and closing\<close>

text \<open>A part that does not fault and leaves every resource as it was.\<close>

definition steady :: "kernel \<Rightarrow> kernel option \<Rightarrow> bool" where
  "steady k x \<longleftrightarrow> (\<exists>k'. x = Some k' \<and> nets k k' {#} {#} \<and> k_world k' = k_world k)"

definition ends :: "kernel \<Rightarrow> (int \<times> kernel) option \<Rightarrow> bool" where
  "ends k x \<longleftrightarrow> (\<exists>code k'. x = Some (code, k') \<and> nets k k' {#} {#})"

lemma neutral_sys:
  assumes "sys c k = (r, k')" "gains (c, r) = {#}" "drops (c, r) = {#}"
  shows "nets k k' {#} {#} \<and> k_world k' = k_world k"
  using moved_sys [OF assms(1)] assms(2,3) world_sys [OF assms(1)] by simp

lemma nets_steps: "nets k k1 {#} {#} \<Longrightarrow> nets k1 k2 {#} {#} \<Longrightarrow> nets k k2 {#} {#}"
  using moved_trans [of k k1 "{#}" "{#}" k2 "{#}" "{#}"] by simp

lemma steady_from: "nets k k1 {#} {#} \<and> k_world k1 = k_world k \<Longrightarrow> steady k1 x \<Longrightarrow> steady k x"
  unfolding steady_def using nets_steps by fastforce

lemma steady_refl: "nets k k1 {#} {#} \<and> k_world k1 = k_world k \<Longrightarrow> steady k (Some k1)"
  by (simp add: steady_def)

lemma nets_close:
  assumes "nets k k1 (handed s) {#}" "0 \<le> s" "nets k1 k2 {#} {#}"
  shows "nets k (snd (sys (Close s) k2)) {#} {#}"
  by (rule moved_close [OF _ assms(2)]) (use moved_trans [OF assms(1,3)] in simp)

text \<open>The shape of the programs: the socket is opened, used and closed.\<close>

lemma ends_closing:
  assumes "nets k k1 (handed s) {#}" "0 \<le> s" "steady k1 x"
  shows "ends k (do { k \<leftarrow> x; Some (code, snd (sys (Close s) k)) })"
  using assms(3) nets_close [OF assms(1,2)] by (auto simp: steady_def ends_def)

lemma ends_unopened: "nets k k1 (handed s) {#} \<Longrightarrow> s < 0 \<Longrightarrow> ends k (Some (code, k1))"
  by (auto simp: ends_def)

lemma print_text_padded:
  assumes "length xs < n"
  shows "print_text (splice (replicate n 0) 0 xs) = Some ()"
proof -
  have "last (splice (replicate n 0) 0 xs) = (0 :: u8)" "splice (replicate n 0) 0 xs \<noteq> ([] :: u8 list)"
    using assms by (simp_all add: splice_def)
  then show ?thesis unfolding print_text_def by (metis last_in_set)
qed

lemma print_text_name:
  assumes "length m = sockaddr_un_size" "0 \<in> set (drop 2 (take sockaddr_un_size xs))"
  shows "print_text (drop 2 (splice m 0 (take sockaddr_un_size xs))) = Some ()"
  using assms by (simp add: print_text_def splice_def)

lemma client_talk_steady:
  assumes "polite k"
  shows "steady k (client_talk sock k)"
proof -
  obtain a k1 where a: "sys (Send sock (take 13 hello_server) 0) k = (a, k1)" by fastforce
  obtain n k2 where n: "sys (Recv sock 64 0) k1 = (n, k2)" by fastforce
  have w: "nets k k1 {#} {#} \<and> k_world k1 = k_world k" "nets k1 k2 {#} {#} \<and> k_world k2 = k_world k1"
    using neutral_sys [OF a] neutral_sys [OF n] by simp_all
  let ?b = "if n < 0 then [] else take 64 (k_data k2 (k_log k2))"
  have "length (k_data k2 h) < 64" for h using assms polite_world [of k2 k] w by (simp add: polite_def)
  then have "length ?b < 64" by simp
  then have "client_talk sock k = Some k2"
    using a n print_text_padded [of ?b 64] by (simp add: client_talk_def buf_simps)
  then show ?thesis using w nets_steps by (auto simp: steady_def)
qed

subsection \<open>The loops over messages\<close>

lemma receive_from_steady:
  assumes "length m = sz" "receive_from sz sock (Some m) (replicate 64 0) 64 0 k = x"
  shows "\<exists>n k1. x = (if n < 0 then Some (n, Some m, replicate 64 0, k1)
      else Some (n, Some (splice m 0 (take sz (k_peer k1 (k_log k1)))), splice (replicate 64 0) 0 (take 64 (k_data k1 (k_log k1))), k1))
    \<and> nets k k1 {#} {#} \<and> k_world k1 = k_world k"
proof -
  obtain n k1 where n: "sys (Recvfrom sock 64 0) k = (n, k1)" by fastforce
  then show ?thesis
    using assms neutral_sys [OF n] by (intro exI [of _ n] exI [of _ k1]) (auto simp: receive_from_def copy_addr_def buf_simps)
qed

lemma udp_server_steady:
  "\<lbrakk>polite k; length m = storage_size\<rbrakk> \<Longrightarrow> steady k (udp_server_loop ntop i sock m k)"
proof (induction i arbitrary: m k)
  case 0
  then show ?case by (simp add: steady_def moved_refl)
next
  case (Suc i)
  obtain n k1 where r: "socket_udp_recv sock (Some m) (replicate 64 0) 64 0 k
      = (if n < 0 then Some (n, Some m, replicate 64 0, k1)
         else Some (n, Some (splice m 0 (take storage_size (k_peer k1 (k_log k1)))),
                    splice (replicate 64 0) 0 (take 64 (k_data k1 (k_log k1))), k1))"
    and w: "nets k k1 {#} {#} \<and> k_world k1 = k_world k"
    using receive_from_steady [OF Suc.prems(2) refl] unfolding socket_udp_recv_def by blast
  have p: "polite k1" using polite_world [of k1 k] w Suc.prems(1) by simp
  let ?m = "splice m 0 (take storage_size (k_peer k1 (k_log k1)))"
  have l: "length ?m = storage_size" using Suc.prems(2) by simp
  obtain t where t: "socket_str_address ntop 46 ?m = Some t" using str_address_storage [OF l] by blast
  have "print_text (splice (replicate 64 0) 0 (take 64 (k_data k1 (k_log k1)))) = Some ()"
    by (rule print_text_padded) (use p in \<open>simp add: polite_def\<close>)
  then have "udp_server_loop ntop (Suc i) sock m k
      = (if n < 0 then udp_server_loop ntop i sock m k1 else udp_server_loop ntop i sock ?m k1)"
    using r t by simp
  then show ?case using Suc.IH [OF p Suc.prems(2)] Suc.IH [OF p l] steady_from [OF w] by simp
qed

lemma unix_send_neutral:
  assumes "length b \<ge> n"
  shows "\<exists>r k1. socket_unix_send sock m b n 0 k = Some (r, k1) \<and> nets k k1 {#} {#} \<and> k_world k1 = k_world k"
proof -
  obtain r k1 where r: "sys (Sendto sock m (int sockaddr_un_size) (take n b) 0) k = (r, k1)" by fastforce
  then show ?thesis using assms neutral_sys [OF r] by (simp add: socket_unix_send_def buf_simps)
qed

lemma unix_dgram_steady:
  "\<lbrakk>polite k; length m = sockaddr_un_size\<rbrakk> \<Longrightarrow> steady k (unix_dgram_loop i sock m k)"
proof (induction i arbitrary: m k)
  case 0
  then show ?case by (simp add: steady_def moved_refl)
next
  case (Suc i)
  obtain n k1 where r: "socket_unix_recv sock (Some m) (replicate 64 0) 64 0 k
      = (if n < 0 then Some (n, Some m, replicate 64 0, k1)
         else Some (n, Some (splice m 0 (take sockaddr_un_size (k_peer k1 (k_log k1)))),
                    splice (replicate 64 0) 0 (take 64 (k_data k1 (k_log k1))), k1))"
    and w: "nets k k1 {#} {#} \<and> k_world k1 = k_world k"
    using receive_from_steady [OF Suc.prems(2) refl] unfolding socket_unix_recv_def by blast
  have p: "polite k1" using polite_world [of k1 k] w Suc.prems(1) by simp
  let ?m = "splice m 0 (take sockaddr_un_size (k_peer k1 (k_log k1)))"
  have l: "length ?m = sockaddr_un_size" using Suc.prems(2) by simp
  have t: "print_text (splice (replicate 64 0) 0 (take 64 (k_data k1 (k_log k1)))) = Some ()"
    by (rule print_text_padded) (use p in \<open>simp add: polite_def\<close>)
  have u: "print_text (drop 2 ?m) = Some ()"
    by (rule print_text_name [OF Suc.prems(2)]) (use p in \<open>simp add: polite_def\<close>)
  obtain q k2 where q: "socket_unix_send sock ?m hello_client 13 0 k1 = Some (q, k2)"
    "nets k1 k2 {#} {#} \<and> k_world k2 = k_world k1"
    using unix_send_neutral [of 13 hello_client] by (fastforce simp: hello_client_def)
  have p2: "polite k2" using polite_world [of k2 k1] q(2) p by simp
  have "unix_dgram_loop (Suc i) sock m k = (if n < 0 then unix_dgram_loop i sock m k1 else unix_dgram_loop i sock ?m k2)"
    using r t u q(1) by simp
  then show ?case
    using Suc.IH [OF p Suc.prems(2)] steady_from [OF w] steady_from [OF q(2) Suc.IH [OF p2 l]] by simp
qed

subsection \<open>The programs that end\<close>

datatype program = Tcp_client | Udp_client | Udp_server | Unix_client | Dgram_client | Dgram_server

fun run_program :: "(int \<Rightarrow> u8 list \<Rightarrow> nat \<Rightarrow> u8 list option) \<Rightarrow> program \<Rightarrow> u8 list \<Rightarrow> kernel \<Rightarrow> (int \<times> kernel) option" where
  "run_program ntop Tcp_client junk k = tcp_client_main k"
| "run_program ntop Udp_client junk k = udp_client_main junk k"
| "run_program ntop Udp_server junk k = udp_server_main ntop junk k"
| "run_program ntop Unix_client junk k = unix_client_main k"
| "run_program ntop Dgram_client junk k = unix_dgram_client_main junk k"
| "run_program ntop Dgram_server junk k = unix_dgram_server_main junk k"

text \<open>The size of the address on the stack.\<close>

definition address_room :: "program \<Rightarrow> nat" where
  "address_room p = (if p = Dgram_client \<or> p = Dgram_server then sockaddr_un_size else storage_size)"

lemma polite_resolves: "polite k \<Longrightarrow> resolves k"
  by (simp add: polite_def)

lemma tcp_client_ends:
  assumes "polite k"
  shows "ends k (tcp_client_main k)"
proof -
  have "opens k (socket_tcp_connect None (Some server_port) None k)"
    using open_with_opens [OF polite_resolves [OF assms], of None "Tcp_connect None (Some server_port)"]
    by (simp add: has_room_def)
  then obtain s a k1 where s: "socket_tcp_connect None (Some server_port) None k = Some (s, a, k1)" "nets k k1 (handed s) {#}"
    unfolding opens_def by blast
  have "polite k1" using polite_world [OF world_tcp_connect [OF s(1)]] assms by simp
  note t = ends_closing [OF s(2) _ client_talk_steady [OF this]]
  show ?thesis using s(1) t ends_unopened [OF s(2)] by (cases "s < 0") (simp_all add: tcp_client_main_def)
qed

lemma unix_client_ends:
  assumes "polite k"
  shows "ends k (unix_client_main k)"
proof -
  have "opens k (map_option (\<lambda>(r, k). (r, None, k)) (socket_unix_connect unix_path k))"
    by (rule unix_connect_opens) (simp add: unix_path_def sun_path_size_def)
  then obtain s k1 where s: "socket_unix_connect unix_path k = Some (s, k1)" "nets k k1 (handed s) {#}"
    unfolding opens_def by auto
  have "polite k1" using polite_world [OF world_unix_connect [OF s(1)]] assms by simp
  note t = ends_closing [OF s(2) _ client_talk_steady [OF this]]
  show ?thesis using s(1) t ends_unopened [OF s(2)] by (cases "s < 0") (simp_all add: unix_client_main_def)
qed

lemma udp_walk_addr: "udp_walk ps sock (Some m) k = Some (s, a, k') \<Longrightarrow> a \<noteq> None"
  by (induction ps arbitrary: sock k)
    (auto simp: Let_def bind_Some_iff copy_addr_def split: prod.splits if_splits)

lemma udp_connect_addr: "socket_udp_connect x p (Some m) k = Some (s, a, k') \<Longrightarrow> a \<noteq> None"
  by (auto simp: socket_udp_connect_def Let_def bind_Some_iff dest!: udp_walk_addr split: prod.splits if_splits)

lemma udp_client_ends:
  assumes "polite k" "length junk = storage_size"
  shows "ends k (udp_client_main junk k)"
proof -
  have "opens k (socket_udp_connect None (Some server_port) (Some junk) k)"
    using open_with_opens [OF polite_resolves [OF assms(1)], of "Some junk" "Udp_connect None (Some server_port)"] assms(2)
    by (simp add: has_room_def)
  then obtain s a k1 where s: "socket_udp_connect None (Some server_port) (Some junk) k = Some (s, a, k1)" "nets k k1 (handed s) {#}"
    unfolding opens_def by blast
  have a: "a \<noteq> None" using udp_connect_addr [OF s(1)] by simp
  obtain r k2 where r: "sys (Sendto s (the a) (int storage_size) (take 13 hello_server) 0) k1 = (r, k2)" by fastforce
  have u: "socket_udp_send s (the a) hello_server 13 0 k1 = Some (r, k2)"
    using r by (simp add: socket_udp_send_def buf_simps hello_server_def)
  have "nets k1 k2 {#} {#}" using neutral_sys [OF r] by simp
  then have "ends k (Some (0, snd (sys (Close s) k2)))" if "0 \<le> s"
    using nets_close [OF s(2) that] by (simp add: ends_def)
  then show ?thesis using s(1) u a ends_unopened [OF s(2)] by (cases "s < 0") (auto simp: udp_client_main_def)
qed

lemma udp_server_ends:
  assumes "polite k" "length junk = storage_size"
  shows "ends k (udp_server_main ntop junk k)"
proof -
  have "opens k (socket_udp_bind None (Some server_port) None k)"
    using open_with_opens [OF polite_resolves [OF assms(1)], of None "Udp_bind None (Some server_port)"]
    by (simp add: has_room_def)
  then obtain s a k1 where s: "socket_udp_bind None (Some server_port) None k = Some (s, a, k1)" "nets k k1 (handed s) {#}"
    unfolding opens_def by blast
  have "polite k1" using polite_world [OF world_socket_bind [OF s(1) [unfolded socket_udp_bind_def]]] assms(1) by simp
  note t = ends_closing [OF s(2) _ udp_server_steady [OF this assms(2)]]
  show ?thesis
    using s(1) t ends_unopened [OF s(2)] by (cases "s < 0") (simp_all add: udp_server_main_def del: udp_server_loop.simps)
qed

lemma quit_sock_nets:
  assumes "nets k k1 (handed s) {#}" "0 \<le> s" "nets k1 k2 {#} {#}"
  shows "nets k (quit_sock s k2) {#} {#}"
  unfolding quit_sock_def by (rule moved_neutral [OF nets_close [OF assms]]) simp_all

lemma unix_bind_nets:
  assumes "length f < sun_path_size"
  shows "\<exists>s k1. socket_unix_bind f d k = Some (s, k1) \<and> nets k k1 (handed s) {#}"
  using unix_bind_opens [OF assms, of k None d] unfolding opens_def by auto

lemma dgram_client_ends:
  assumes "polite k" "length junk = sockaddr_un_size"
  shows "ends k (unix_dgram_client_main junk k)"
proof -
  obtain s k1 where s: "socket_unix_bind client_dgram_path True k = Some (s, k1)" "nets k k1 (handed s) {#}"
    using unix_bind_nets [of client_dgram_path True k] by (auto simp: client_dgram_path_def sun_path_size_def)
  let ?m = "splice (splice junk 0 (to_bytes (word_of_int AF_UNIX :: u16))) 2 (server_dgram_path @ [0])"
  have l: "length ?m = sockaddr_un_size" using assms(2) by (simp add: sockaddr_un_size_def server_dgram_path_def)
  obtain n k2 where n: "socket_unix_send s ?m hello_server 13 0 k1 = Some (n, k2)"
    "nets k1 k2 {#} {#} \<and> k_world k2 = k_world k1"
    using unix_send_neutral [of 13 hello_server] by (fastforce simp: hello_server_def)
  obtain q k3 where r: "socket_unix_recv s (Some ?m) (replicate 64 0) 64 0 k2
      = (if q < 0 then Some (q, Some ?m, replicate 64 0, k3)
         else Some (q, Some (splice ?m 0 (take sockaddr_un_size (k_peer k3 (k_log k3)))),
                    splice (replicate 64 0) 0 (take 64 (k_data k3 (k_log k3))), k3))"
    and w: "nets k2 k3 {#} {#} \<and> k_world k3 = k_world k2"
    using receive_from_steady [OF l refl] unfolding socket_unix_recv_def by blast
  have "k_world k3 = k_world k" using w n(2) world_unix_bind [OF s(1)] by simp
  then have p: "polite k3" using polite_world assms(1) by blast
  have t: "print_text (splice (replicate 64 0) 0 (take 64 (k_data k3 (k_log k3)))) = Some ()"
    by (rule print_text_padded) (use p in \<open>simp add: polite_def\<close>)
  have u: "print_text (drop 2 (splice ?m 0 (take sockaddr_un_size (k_peer k3 (k_log k3))))) = Some ()"
    by (rule print_text_name [OF l]) (use p in \<open>simp add: polite_def\<close>)
  have b: "buf_write junk 0 (to_bytes (word_of_int AF_UNIX :: u16)) = Some (splice junk 0 (to_bytes (word_of_int AF_UNIX :: u16)))"
    "buf_write (splice junk 0 (to_bytes (word_of_int AF_UNIX :: u16))) 2 (server_dgram_path @ [0]) = Some ?m"
    using assms(2) by (simp_all add: buf_simps sockaddr_un_size_def server_dgram_path_def)
  have e: "unix_dgram_client_main junk k = (if s < 0 then Some (1, k1) else if n < 0 then Some (2, quit_sock s k2)
      else if q < 0 then Some (3, quit_sock s k3) else Some (0, quit_sock s k3))"
    using s(1) n(1) r t u b by (simp add: unix_dgram_client_main_def)
  have "nets k (quit_sock s k2) {#} {#}" "nets k (quit_sock s k3) {#} {#}" if "0 \<le> s"
    using quit_sock_nets [OF s(2) that] n(2) w nets_steps [of k1 k2 k3] by blast+
  then show ?thesis unfolding e using ends_unopened [OF s(2)] by (auto simp: ends_def)
qed

lemma dgram_server_ends:
  assumes "polite k" "length junk = sockaddr_un_size"
  shows "ends k (unix_dgram_server_main junk k)"
proof -
  obtain s k1 where s: "socket_unix_bind server_dgram_path True k = Some (s, k1)" "nets k k1 (handed s) {#}"
    using unix_bind_nets [of server_dgram_path True k] by (auto simp: server_dgram_path_def sun_path_size_def)
  have "polite k1" using polite_world [OF world_unix_bind [OF s(1)]] assms(1) by simp
  from unix_dgram_steady [OF this assms(2), of 3 s] obtain k2 where
    l: "unix_dgram_loop 3 s junk k1 = Some k2" "nets k1 k2 {#} {#}" unfolding steady_def by blast
  let ?k = "snd (sys (Unlink server_dgram_path) (snd (sys (Close s) k2)))"
  have e: "unix_dgram_server_main junk k = (if s < 0 then Some (1, k1) else Some (0, ?k))"
    using s(1) l(1) by (simp add: unix_dgram_server_main_def del: unix_dgram_loop.simps)
  have "nets k ?k {#} {#}" if "0 \<le> s" by (rule moved_neutral [OF nets_close [OF s(2) that l(2)]]) simp_all
  then show ?thesis unfolding e using ends_unopened [OF s(2)] by (auto simp: ends_def)
qed

lemma run_program_ends:
  "polite k \<Longrightarrow> length junk = address_room p \<Longrightarrow> ends k (run_program ntop p junk k)"
  by (cases p) (simp_all add: address_room_def tcp_client_ends unix_client_ends udp_client_ends udp_server_ends
      dgram_client_ends dgram_server_ends)

text \<open>C33. Each of the six programs of src/socket that end (the TCP, UDP, UNIX and UNIX datagram clients, and the two
  datagram servers) ends without a fault when the resolver gives an address, messages are shorter than the buffer and
  peers are named, whatever the kernel answers and whatever its address held before; and it has then released what it
  acquired, on every path: no socket and no address list is left.\<close>

theorem programs_leave_nothing_open:
  assumes "polite k" "length junk = address_room p"
  shows "\<exists>code k'. run_program ntop p junk k = Some (code, k') \<and> acquired (made k k') = released (made k k')"
proof -
  obtain code k' where "run_program ntop p junk k = Some (code, k')" "nets k k' {#} {#}"
    using run_program_ends [OF assms, of ntop] unfolding ends_def by blast
  then show ?thesis using moved_made by fastforce
qed

text \<open>A kernel that gives each program its socket, answers and the path of the server as the peer.\<close>

definition answering_kernel :: kernel where
  "answering_kernel = two_addresses\<lparr>
     k_answer := (\<lambda>h c. case c of New_socket f t p \<Rightarrow> 3 + int (length h) | Recvfrom s n f \<Rightarrow> 2 | Recv s n f \<Rightarrow> 2 | _ \<Rightarrow> 0),
     k_peer := (\<lambda>_. [1, 0] @ server_dgram_path @ [0]), k_data := (\<lambda>_. [79, 75])\<rparr>"

theorem programs_leave_nothing_open_witness:
  "\<exists>code k'. run_program (\<lambda>f a n. None) Dgram_server (replicate 110 255) answering_kernel = Some (code, k')
     \<and> acquired (made answering_kernel k') = released (made answering_kernel k')"
  by (rule programs_leave_nothing_open)
    (simp_all add: polite_def resolves_def answering_kernel_def two_addresses_def storage_size_def sockaddr_un_size_def
      server_dgram_path_def address_room_def)

subsection \<open>The UNIX servers\<close>

lemma unix_accept_opens:
  assumes "small_world (kern s)" "well (kern s)"
    and "\<And>x k r k'. sys x k = (r, k') \<Longrightarrow> (\<And>i n m. x \<noteq> Recvmsg i n m) \<Longrightarrow> well k \<Longrightarrow> well k'"
  shows "\<exists>r k'. unix_accept sock s = Some (r, s\<lparr>kern := k'\<rparr>) \<and> well k' \<and> (0 \<le> r \<longrightarrow> select_valid r)
     \<and> known_fds k' = (if 0 \<le> r then insert r (known_fds (kern s)) else known_fds (kern s))"
proof -
  obtain r k1 where r: "sys (Accept sock) (kern s) = (r, k1)" by fastforce
  have w1: "well k1" using assms(3) [OF r _ assms(2)] by simp
  note o1 = known_sys [OF r] and a1 = sys_answer [OF r assms(1)]
  let ?r = "if r < 0 then - 1 else r"
  have "unix_accept sock s = Some (?r, s\<lparr>kern := k1\<rparr>)" using r by (simp add: unix_accept_def socket_unix_accept_def)
  moreover have "known_fds k1 = (if 0 \<le> ?r then insert ?r (known_fds (kern s)) else known_fds (kern s))" "0 \<le> ?r \<longrightarrow> select_valid ?r"
    using o1 a1 by (simp_all add: select_valid_def)
  ultimately show ?thesis using w1 by blast
qed

lemma unix_read_is_tcp_read: "unix_read = tcp_read"
  by (intro ext) (simp add: unix_read_def tcp_read_def print_text_def Let_def case_prod_beta split: option.split Option.bind_split)

interpretation unix: select_server "\<lambda>b. b = IOPOLL_SELECT \<or> has b" unix_client unix_read clean_world
proof
  show w: "clean_world k'" if "sys x k = (r, k')" "\<And>i n m. x \<noteq> Recvmsg i n m" "clean_world k" for x k r k'
    using that by (rule clean_world_sys)
  show "\<exists>r k'. cl_accept unix_client sock s = Some (r, s\<lparr>kern := k'\<rparr>) \<and> clean_world k' \<and> (0 \<le> r \<longrightarrow> select_valid r)
      \<and> known_fds k' = (if 0 \<le> r then insert r (known_fds (kern s)) else known_fds (kern s))"
    if c: "clean_world (kern s)" for s :: "'a pool" and sock
    using unix_accept_opens [where well = clean_world, OF _ c w] c by (simp add: unix_client_def clean_world_def)
qed (simp_all add: unix_client_def unix_read_is_tcp_read tcp_read_keeps)

text \<open>
  What the receiver of connections needs besides: four bytes of data, a descriptor with a message that announces one,
  and that a descriptor that is passed is not one that is open already. When all messages are proper nothing is leaked.
\<close>

definition opened_after :: "kernel \<Rightarrow> history \<Rightarrow> int set" where
  "opened_after k h = log_fold (open_step k) h"

definition all_proper :: "kernel \<Rightarrow> bool" where
  "all_proper k \<longleftrightarrow> (\<forall>h i n m. let r = k_answer k h (Recvmsg i n m)
     in 0 < r \<longrightarrow> proper_message k (h @ [(Recvmsg i n m, r)]) r)"

definition passing_kernel_of :: "kernel \<Rightarrow> bool" where
  "passing_kernel_of k \<longleftrightarrow> (\<forall>h e. 4 \<le> length (k_data k (h @ [e]))
     \<and> (load (k_data k (h @ [e])) 0 = Some fd_magic \<longrightarrow> k_passed k (h @ [e]) \<noteq> None)
     \<and> (\<forall>fd. k_passed k (h @ [e]) = Some fd \<longrightarrow> fd \<notin> opened_after k h))"

definition passing_world :: "bool \<Rightarrow> kernel \<Rightarrow> bool" where
  "passing_world proper k \<longleftrightarrow> small_world k \<and> passing_kernel_of k \<and> (proper \<longrightarrow> all_proper k \<and> leaked k = {})"

lemma kernel_of_sys:
  assumes "sys c k = (r, k')"
  shows "passing_kernel_of k' = passing_kernel_of k" "all_proper k' = all_proper k"
proof -
  have k: "k_passed k' = k_passed k" "k_data k' = k_data k" "k_answer k' = k_answer k"
    using assms by (auto simp: sys_def Let_def)
  then show "passing_kernel_of k' = passing_kernel_of k"
    by (simp add: passing_kernel_of_def opened_after_def steps_other_kernel(1) [OF k(1,2)])
  show "all_proper k' = all_proper k" using k by (simp add: all_proper_def proper_message_def)
qed

lemma proper_leaks_none:
  assumes "sys c k = (r, k')" "leaked k = {}" "all_proper k"
  shows "leaked k' = {}"
proof (cases c)
  case (Recvmsg i n m)
  have log: "k_log k' = k_log k @ [(c, r)]" and r: "k_answer k (k_log k) c = r" using assms(1) by (auto simp: sys_def Let_def)
  have "all_proper k'" using assms(3) kernel_of_sys [OF assms(1)] by simp
  moreover have "k_answer k' = k_answer k" using assms(1) by (auto simp: sys_def Let_def)
  ultimately have "0 < r \<longrightarrow> proper_message k' (k_log k') r"
    using r unfolding all_proper_def log Recvmsg by (auto simp: Let_def)
  then show ?thesis using leaked_sys [OF assms(1)] assms(2) Recvmsg by (auto simp: passed_fd_def split: option.splits)
qed (use leaked_sys [OF assms(1)] assms(2) in simp_all)

lemma passing_world_sys: "sys c k = (r, k') \<Longrightarrow> passing_world proper k \<Longrightarrow> passing_world proper k'"
  using proper_leaks_none [of c k r k'] small_world_sys [of c k r k'] kernel_of_sys [of c k r k']
  by (auto simp: passing_world_def)

lemma recvfd_read_keeps:
  assumes "passing_world proper (kern s)"
  shows "\<exists>k'. recvfd_read sock s = Some (0, s\<lparr>kern := k'\<rparr>) \<and> passing_world proper k' \<and> known_fds k' = known_fds (kern s)"
proof -
  obtain r k1 where r: "sys (Recvmsg sock 4 cmsg_len_int) (kern s) = (r, k1)" by fastforce
  have w1: "passing_world proper k1" using passing_world_sys [OF r assms] .
  have l1: "k_log k1 = k_log (kern s) @ [(Recvmsg sock 4 cmsg_len_int, r)]" using r by (auto simp: sys_def Let_def)
  have k1: "4 \<le> length (k_data k1 (k_log k1))" "load (k_data k1 (k_log k1)) 0 = Some fd_magic \<longrightarrow> k_passed k1 (k_log k1) \<noteq> None"
    and new: "k_passed k1 (k_log k1) = Some fd \<longrightarrow> fd \<notin> opened_after k1 (k_log (kern s))" for fd
    using w1 unfolding l1 passing_world_def passing_kernel_of_def by blast+
  have o1: "opened_after k1 (k_log (kern s)) = opened (kern s)"
  proof -
    have "k_passed k1 = k_passed (kern s)" "k_data k1 = k_data (kern s)" using r by (auto simp: sys_def Let_def)
    then have "open_step k1 = open_step (kern s)" by (rule steps_other_kernel(1))
    then show ?thesis by (simp add: opened_after_def opened_def)
  qed
  obtain m :: u32 where m: "load (k_data k1 (k_log k1)) 0 = Some m" using k1(1) by (auto simp: load_Some)
  note h1 = known_sys [OF r]
  show ?thesis
  proof (cases "r = 4 \<and> m = fd_magic")
    case False
    then have "\<not> proper_message k1 (k_log k1) r" using m by (simp add: proper_message_def)
    then have "known_fds k1 = known_fds (kern s)" using h1 by simp
    moreover have "recvfd_read sock s = Some (0, s\<lparr>kern := k1\<rparr>)"
      using False r m by (auto simp: recvfd_read_def socket_unix_recvfd_def)
    ultimately show ?thesis using w1 by blast
  next
    case True
    then obtain fd where fd: "k_passed k1 (k_log k1) = Some fd" using k1(2) m by auto
    have u: "socket_unix_recvfd sock (kern s) = Some (fd, k1)" using True r m fd by (simp add: socket_unix_recvfd_def)
    have known1: "known_fds k1 = (if 0 \<le> fd then insert fd (known_fds (kern s)) else known_fds (kern s))"
      using h1 True m fd by (simp add: proper_message_def passed_fd_def)
    show ?thesis
    proof (cases "0 \<le> fd")
      case neg: False
      then have "recvfd_read sock s = Some (0, s\<lparr>kern := k1\<rparr>)" using u by (simp add: recvfd_read_def)
      then show ?thesis using w1 known1 neg by auto
    next
      case pos: True
      obtain q k2 where q: "sys (Send fd (take 23 hello_unix) 0) k1 = (q, k2)" by fastforce
      obtain p k3 where p: "sys (Close fd) k2 = (p, k3)" by fastforce
      have w3: "passing_world proper k3" using passing_world_sys [OF p passing_world_sys [OF q w1]] .
      have "fd \<notin> known_fds (kern s)" using new [of fd] fd o1 opened_is [of "kern s"] by simp
      then have "known_fds k3 = known_fds (kern s)" using known_sys [OF q] known_sys [OF p] known1 pos by simp
      moreover have "recvfd_read sock s = Some (0, s\<lparr>kern := k3\<rparr>)"
        using u pos q p by (simp add: recvfd_read_def pool_sys_def)
      ultimately show ?thesis using w3 by blast
    qed
  qed
qed

interpretation recvfd: select_server "\<lambda>b. b = IOPOLL_SELECT \<or> has b" recvfd_client recvfd_read "passing_world proper"
proof
  show w: "passing_world proper k'" if "sys x k = (r, k')" "\<And>i n m. x \<noteq> Recvmsg i n m" "passing_world proper k" for x k r k'
    using that(1,3) by (rule passing_world_sys)
  show "\<exists>r k'. cl_accept recvfd_client sock s = Some (r, s\<lparr>kern := k'\<rparr>) \<and> passing_world proper k' \<and> (0 \<le> r \<longrightarrow> select_valid r)
      \<and> known_fds k' = (if 0 \<le> r then insert r (known_fds (kern s)) else known_fds (kern s))"
    if a: "passing_world proper (kern s)" for s :: "'a pool" and sock
    using unix_accept_opens [where well = "passing_world proper", OF _ a w] a by (simp add: recvfd_client_def passing_world_def)
qed (simp_all add: recvfd_client_def, blast intro: recvfd_read_keeps)

text \<open>A descriptor that comes with a message that is not proper, too short or with another number, is not returned: it
  stays open, and nothing refers to it.\<close>

lemma recvfd_leaks:
  assumes "sys (Recvmsg sock 4 cmsg_len_int) k = (r, k1)" "k_passed k1 (k_log k1) = Some fd" "0 \<le> fd" "0 < r"
    and "4 \<le> length (k_data k1 (k_log k1))" "\<not> proper_message k1 (k_log k1) r"
  shows "\<exists>e. socket_unix_recvfd sock k = Some (e, k1) \<and> e < 0 \<and> fd \<in> leaked k1 \<and> fd \<in> opened k1"
proof -
  obtain m :: u32 where "load (k_data k1 (k_log k1)) 0 = Some m" using assms(5) by (auto simp: load_Some)
  then have "\<exists>e. socket_unix_recvfd sock k = Some (e, k1) \<and> e < 0"
    using assms(1,6) by (auto simp: socket_unix_recvfd_def proper_message_def)
  moreover have "fd \<in> leaked k1" using leaked_sys [OF assms(1)] assms(2-4,6) by (simp add: passed_fd_def)
  ultimately show ?thesis using opened_is [of k1] by blast
qed

subsection \<open>The servers on select\<close>

datatype server = Tcp_srv | Unix_srv | Recvfd_srv

fun functions_of :: "(int \<Rightarrow> u8 list \<Rightarrow> nat \<Rightarrow> u8 list option) \<Rightarrow> server \<Rightarrow> 'u sock_client" where
  "functions_of ntop Tcp_srv = tcp_client ntop"
| "functions_of ntop Unix_srv = unix_client"
| "functions_of ntop Recvfd_srv = recvfd_client"

fun suits :: "server \<Rightarrow> kernel \<Rightarrow> bool" where
  "suits Recvfd_srv k \<longleftrightarrow> small_world k \<and> passing_kernel_of k"
| "suits _ k \<longleftrightarrow> small_world k"

text \<open>Whether the server may be sent a descriptor that it leaks.\<close>

fun may_leak :: "server \<Rightarrow> kernel \<Rightarrow> bool" where
  "may_leak Recvfd_srv k = (\<not> all_proper k)"
| "may_leak _ k = False"

text \<open>C32. From a state in which only the server's socket is open and nothing is leaked, the servers of tcp-server.c,
  unix-server.c and recvfd-srv.c on select do not fault in any number of rounds, whatever the kernel reports as ready,
  accepts and passes, while descriptors stay below \<open>FD_SETSIZE\<close>, messages are shorter than the buffer, and a message
  that announces a connection passes one, which is not open already. What is open afterwards (sockets that were opened
  or accepted, or that a message passed, and not closed) is exactly what they watch, and what was leaked: so no accepted
  connection is forgotten and none is polled after it was closed, and a connection that was passed properly is closed.
  Leaked are the descriptors that came with a message of another length or number, as socket_unix_recvfd does not close
  them; for the first two servers, and for the third when all messages are proper, there are none.\<close>

theorem servers_watch_open:
  assumes "has IOPOLL_SELECT" "opened (kern s) = {listener}" "leaked (kern s) = {}" "select_valid listener"
    and "suits srv (kern s)"
  shows "\<exists>s0 out. sockpoll_alloc has (functions_of ntop srv) listener IOPOLL_SELECT t s = Some s0
    \<and> sockpoll_loop has (functions_of ntop srv) listener n s0 = Some out
    \<and> opened (kern (pool_of out)) = {fd. io_fds (io (pool_of out)) fd} \<union> leaked (kern (pool_of out))
    \<and> (may_leak srv (kern s) \<or> leaked (kern (pool_of out)) = {})"
proof -
  have h: "(\<lambda>b. b = IOPOLL_SELECT \<or> has b) = has" using assms(1) by auto
  have known_fds: "known_fds (kern s) = {listener}" using assms(2,3) opened_is [of "kern s"] by simp
  have out: "opened (kern (pool_of out)) = {fd. io_fds (io (pool_of out)) fd} \<union> leaked (kern (pool_of out))"
    if "{fd. io_fds (io (pool_of out)) fd} = known_fds (kern (pool_of out))" for out :: "int \<times> 'a pool + 'a pool"
    using that by (simp add: opened_is)
  show ?thesis
  proof (cases srv)
    case Tcp_srv
    have "clean_world (kern s)" using assms(3,5) Tcp_srv by (simp add: clean_world_def)
    from tcp.watches_open [OF known_fds assms(4) this, of has ntop t n] out show ?thesis
      unfolding h Tcp_srv by (auto simp: clean_world_def)
  next
    case Unix_srv
    have "clean_world (kern s)" using assms(3,5) Unix_srv by (simp add: clean_world_def)
    from unix.watches_open [OF known_fds assms(4) this, of has t n] out show ?thesis
      unfolding h Unix_srv by (auto simp: clean_world_def)
  next
    case Recvfd_srv
    have "passing_world (all_proper (kern s)) (kern s)" using assms(3,5) Recvfd_srv by (simp add: passing_world_def)
    from recvfd.watches_open [OF known_fds assms(4) this, of has t n] out show ?thesis
      unfolding h Recvfd_srv by (auto simp: passing_world_def)
  qed
qed

text \<open>A kernel on which every second message passes a connection, properly when the history has a length that four
  divides. The number it gives is above every number in the history and above those it gave.\<close>

definition past_sum :: "history \<Rightarrow> int" where
  "past_sum h = (\<Sum>e \<leftarrow> h. \<bar>snd e\<bar> + 1)"

definition passing_kernel :: kernel where
  "passing_kernel = busy_kernel\<lparr>
     k_answer := (\<lambda>h c. case c of Accept s \<Rightarrow> min 900 (4 + int (length h)) | Select n r w t \<Rightarrow> 1
                        | Recvmsg s n m \<Rightarrow> (if even (length h) then 4 else 0) | _ \<Rightarrow> 0),
     k_data := (\<lambda>h. to_bytes (if 4 dvd length h then fd_magic else 0)), k_passed := (\<lambda>h. Some (past_sum h))\<rparr>"

lemma opened_below_past: "fd \<in> opened_after passing_kernel h \<Longrightarrow> fd \<le> past_sum h"
proof (induction h rule: rev_induct)
  case (snoc e h)
  have s: "past_sum (h @ [e]) = past_sum h + \<bar>snd e\<bar> + 1" "0 \<le> past_sum h"
    by (simp add: past_sum_def) (auto simp: past_sum_def intro!: sum_list_nonneg)
  consider "fd \<in> opened_after passing_kernel h" | "fd = snd e" | "fd = past_sum (h @ [e])"
    using snoc.prems
    by (cases e; cases "fst e") (auto simp: opened_after_def passed_fd_def passing_kernel_def split: if_splits)
  then show ?case using snoc.IH s by cases auto
qed (simp add: opened_after_def)

lemma passing_kernel_suits: "suits Recvfd_srv passing_kernel"
proof -
  have "k_answer passing_kernel h c < 1024" for h c by (cases c) (simp_all add: passing_kernel_def busy_kernel_def idle_kernel_def)
  moreover have "past_sum (h @ [e]) \<notin> opened_after passing_kernel h" for h e
    using opened_below_past [of "past_sum (h @ [e])" h] by (auto simp: past_sum_def)
  ultimately show ?thesis
    by (simp add: passing_kernel_of_def small_world_def FD_SETSIZE_def) (simp add: passing_kernel_def)
qed

theorem servers_watch_open_witness:
  "\<exists>s0 out. sockpoll_alloc (\<lambda>_. True) (functions_of (\<lambda>f a n. None) Recvfd_srv) 3 IOPOLL_SELECT 0 (busy_pool\<lparr>kern := passing_kernel\<rparr>) = Some s0
    \<and> sockpoll_loop (\<lambda>_. True) (functions_of (\<lambda>f a n. None) Recvfd_srv) 3 6 s0 = Some out
    \<and> opened (kern (pool_of out)) = {fd. io_fds (io (pool_of out)) fd} \<union> leaked (kern (pool_of out))"
proof -
  have "k_log passing_kernel = [(New_socket 2 1 6, 3)]" by (simp add: passing_kernel_def busy_kernel_def)
  note o = opened_leaked_first [OF this]
  have v: "select_valid 3" by (simp add: select_valid_def FD_SETSIZE_def)
  have k: "kern (busy_pool\<lparr>kern := passing_kernel\<rparr>) = passing_kernel" by simp
  have "opened passing_kernel = {3}" using o(1) by simp
  note s = servers_watch_open [of "\<lambda>_. True" "busy_pool\<lparr>kern := passing_kernel\<rparr>" 3 Recvfd_srv "\<lambda>f a n. None" 0 6,
    unfolded k, OF TrueI this o(2) v passing_kernel_suits]
  then obtain s0 out where
    "sockpoll_alloc (\<lambda>_. True) (functions_of (\<lambda>f a n. None) Recvfd_srv) 3 IOPOLL_SELECT 0 (busy_pool\<lparr>kern := passing_kernel\<rparr>) = Some s0"
    "sockpoll_loop (\<lambda>_. True) (functions_of (\<lambda>f a n. None) Recvfd_srv) 3 6 s0 = Some out"
    "opened (kern (pool_of out)) = {fd. io_fds (io (pool_of out)) fd} \<union> leaked (kern (pool_of out))" by (elim exE conjE)
  then show ?thesis by (intro exI conjI)
qed

text \<open>A connection to the receiver is never taken off: its reading function has no result below 0, so that a peer that
  left, whose socket is then always readable, is served again and again.\<close>

lemma recvfd_never_leaves:
  assumes "recvfd_read sock s = Some (r, s')" "sock \<noteq> listener"
  shows "sockpoll_read has recvfd_client listener sock s = Some (0, s')"
proof -
  have "r = 0" using assms(1) by (auto simp: recvfd_read_def bind_Some_iff Let_def split: if_splits prod.splits)
  then show ?thesis using assms by (simp add: sockpoll_read_def recvfd_client_def)
qed

text \<open>A connection that was accepted to be passed on is closed again, and the server adds none.\<close>

lemma sendfd_accept_closes:
  assumes "sendfd_accept ntop sock s = Some (r, s')"
  shows "r = - 1 \<and> opened (kern s') \<subseteq> opened (kern s)"
proof -
  obtain c k1 where c: "sys (Accept sock) (kern s) = (c, k1)" by fastforce
  note o1 = opened_sys [OF c]
  show ?thesis
  proof (cases "c < 0")
    case True
    then have "sendfd_accept ntop sock s = Some (- 1, s\<lparr>kern := k1\<rparr>)"
      using c by (simp add: sendfd_accept_def socket_tcp_accept_def)
    then have "r = - 1" "s' = s\<lparr>kern := k1\<rparr>" using assms by simp_all
    then show ?thesis using True o1 by simp
  next
    case False
    obtain x k2 where x: "socket_unix_sendfd (user s) c k1 = (x, k2)" by fastforce
    obtain y k3 where y: "sys (Close c) k2 = (y, k3)" by fastforce
    have "k2 = snd (sys (Sendmsg (user s) (to_bytes fd_magic) c) k1)"
      using x by (simp add: socket_unix_sendfd_def case_prod_beta Let_def split: if_splits)
    then have "opened k2 = opened k1" using opened_sys [OF prod.collapse [symmetric]] by simp
    then have "opened k3 \<subseteq> opened (kern s)" using o1 opened_sys [OF y] False by auto
    moreover have "r = - 1 \<and> kern s' = k3"
    proof -
      let ?m = "splice (replicate storage_size 0) 0 (take storage_size (k_peer k1 (k_log k1)))"
      have l: "length ?m = storage_size" by simp
      obtain t where "socket_str_address ntop 46 ?m = Some t" using str_address_storage [OF l] by blast
      then have "sendfd_accept ntop sock s = Some (- 1, s\<lparr>kern := k3\<rparr>)"
        using c x y False by (simp add: sendfd_accept_def socket_tcp_accept_def copy_addr_def buf_simps pool_sys_def)
      then have "r = - 1" "s' = s\<lparr>kern := k3\<rparr>" using assms by simp_all
      then show ?thesis by simp
    qed
    ultimately show ?thesis by simp
  qed
qed

end
