(* ===== verification/Spec2Isabelle.thy ===== *)
theory Spec2Isabelle
  imports Keyed_Containers Mem_Properties Sort_Properties Bit_Properties Queue_Properties Chunk_Properties Text_Properties Block_Properties Sparse_Properties Pool_Properties Uintx_Properties Uintx_Test Work_Properties Stream_Properties Cache_Properties Btree_Cache_Properties Btree_Properties Btree_Store_Properties Btree_Program Server_Properties Socket_Properties Program_Properties
begin

text \<open>
  Carthage: a verification development of the C containers, utilities and programs of this repository.

  \<^bold>\<open>The parts.\<close> Each directory of src/ is a small library that others use by its interface: the containers (hashtable, set,
  bag, cache, queue, chunkq, string, mmblock, mmstream, mpool, workqueue), the numbers and bits (uintx, bitarray,
  bloom-filter), the byte routines and sorts (mm-utils, sort-utils), input and output (stream, socket with its event loop),
  and a B-tree in blocks on a disk with a cache of blocks (btree). They meet in the allocator, in the byte routines and in the
  callbacks of the caller; socket.c, iopoll.c and sockpoll.c are layers of the server programs, and the block cache and
  the disk driver of btree/main.c are layers of the tree.

  \<^bold>\<open>How C is modelled.\<close> What C leaves undefined, and an abort, is the value None of an option: an access outside an object, a null
  dereference, the use of a released block, a failed assert. Errors the code returns are values of its integer type. Integers are words of their width where they can
  wrap (those of an LP64 target); sizes that cannot are naturals. Memory whose layout matters is a list of
  bytes, a pointer into it an offset; nodes that are shared or linked in rings are in a store from addresses, in which 0 is NULL and
  a released address is not used again. The allocator is a record with an answer for every request (Allocator), so that
  every allocation may be refused; \<open>never_refuses\<close> is said where a theorem needs it. Callbacks are parameters. The
  kernel answers a system call from the history of the calls before it (Sys_Calls). Prints are left out, but for the text
  that the code reads.

  \<^bold>\<open>The theories.\<close>
  \<^item> Carthage_Prelude: words, checked buffers, lists; Allocator: the allocator callbacks \<open>mmallocator_t\<close> of every component;
    Byte_Memory: loads and stores of words in a byte memory.
  \<^item> src/hashtable, src/set, src/bag: Bucket_Size (the sizes of the table and the hash), Chained_Table (the code the three share, one
    definition per operation), Table_Correct (the invariant \<open>tb_wf\<close> and what each operation does to it and to the entries), Dictionary
    (the locales \<open>dict\<close>, \<open>iter_dict\<close>, \<open>copy_dict\<close>: what a keyed container promises, and what its clients get from that), Hash_Table, Hash_Set
    and Bag (the public functions; each gives the locale its instance by a sublocale of \<open>key_ops\<close>), String_Keys (the callbacks of the test
    programs, interpretation \<open>str_keys\<close>), Keyed_Containers (the properties).
  \<^item> src/mm-utils: Mem_Chr, Mem_Cmp, Mem_Copy and Mem_Str (memchr.c, memcmp.c and memmem.c, memcpy.c with memset.c and memswap.c, and
    the string files): every variant, the loops over words as the code has them; Mem_Text: what the string functions do to NUL-terminated text;
    Mem_Properties: the word loops equal the byte loops, and where a routine leaves its buffers.
  \<^item> src/sort-utils: Sort_Utils (both heap sorts as one sift over the locale \<open>item_array\<close>, which \<open>item_order\<close> and the
    byte array both instantiate), Merge_Utils, Sort_Properties (sorted permutations; the merges).
  \<^item> src/bitarray, src/bloom-filter: Bit_Array, Bloom_Filter, Bit_Properties: ranges and searches against the list of bits (whose
    size is 8 for each byte), no false negatives of the filter, and what it counts.
  \<^item> src/queue: Item_Queue (nodes of 64 items; the locale \<open>fifo\<close> of a queue of bounded length, interpretation \<open>iq\<close>), Queue_Properties: first in, first
    out, up to the exact pushes and pops that overrun a node (\<open>runs_over\<close>).
    src/chunkq: Chunk_Queue, Chunk_Properties: a sequence of bytes.
  \<^item> src/string: Str_Buf (positions that are added wrap in \<open>size_t\<close>), Text_Properties: all editing operations as a refinement of the
    text before the terminator.
  \<^item> src/mmblock: Mm_Block, Block_Properties: reference counts and copying on write as a refinement of independent arrays, with writes
    cut off at the end of a block and the fault of one past it.
    src/mmstream: Mm_Stream, Sparse_Properties: a sparse file of blocks of 512 bytes in extents of 64.
  \<^item> src/mpool: Mem_Pool, Pool_Properties: the headers in the bytes of the pool as a list of blocks, first fit.
  \<^item> src/uintx: Uintx, Uintx_Properties (the value of an array of bytes, and the operations as arithmetic), Uintx_Test (test-uintx.c, run
    to its end for any counters).
  \<^item> src/workqueue: Work_Queue (the functions under the lock, and the threads as an inductive step relation), Work_Properties: the
    invariant of every reachable state, by rule induction, and a measure that every step of a release decreases.
  \<^item> src/stream: Stream_IO (the locale \<open>plug_contract\<close> of a stream that transfers all it is asked for, interpretation \<open>file_plug\<close>), Stream_Properties.
  \<^item> src/socket: Sys_Calls (the kernel, and what a history acquires, releases, opens and leaks, with the descriptors a message passed), Socket (socket.c), Socket_Properties; Io_Poll (iopoll.c with its three
    backends; the locale \<open>poll_set\<close> of a set of watched descriptors, interpretations \<open>select\<close> and \<open>epoll\<close>); Sock_Poll
    (sockpoll.c; the locale \<open>sock_server\<close>: a client that closes what it stops watching keeps the watched set equal to the open sockets), Select_Server
    (the same for the servers without a writing function, as a sublocale), Tcp_Server and Server_Properties (tcp-server.c, interpretation
    \<open>tcp\<close>), Sock_Programs and Program_Properties (the other nine programs; interpretations \<open>unix\<close> and \<open>recvfd\<close>).
  \<^item> src/cache: Cache (table and list over one store), Cache_Correct (the store as chains and a list), Cache_Properties.
  \<^item> src/btree: Btree_Block (super block, twigs and leaves in their bytes), Btree_Leaf (a leaf as the image of its items), Btree_Order (the locale
    \<open>key_order\<close>; the binary search), Btree_Cache with Btree_Cache_Ring, Btree_Cache_Correct and Btree_Cache_Properties (the cache of blocks, against the blocks given under each
    number and not taken back), Btree (nodes in memory, disk, search, balancing, the interface), Btree_Node, Btree_Shape, Btree_Path, Btree_Update,
    Btree_Tree and Btree_Ops (a tree in memory as a shape; the search follows the path of a key; a leaf and the keys above it changed), Btree_Disk
    (main.c: keys, disk driver, checksum; interpretation \<open>test_keys\<close>), Btree_Properties (what stays in one leaf: no split, values replaced by others of their size), Btree_Store (the locale \<open>block_disk\<close> of a disk that
    keeps what is written; a tree of one leaf written, opened, searched), Btree_Store_Properties (interpretation \<open>test_file\<close>) and
    Btree_Program (the loops and the main function of main.c; with at most seven keys nothing is reported).

  \<^bold>\<open>Bounds and fuel.\<close> Where a loop follows pointers, the model counts: a walk along a chain or a ring of the two caches may take as
  many steps as addresses were ever handed out, so that it only stops early on a ring that does not come back, which is a fault; the loops of
  \<open>mpool_alloc\<close> may take one turn per byte of the pool, which a block of at least a header always allows; a path of
  the tree has \<open>tree_fuel\<close> = 257 levels, one more than the 8 bits of the height can count; zeroing an extent has 64 turns, the blocks of
  an extent; an event loop is run for a number of rounds and the properties hold for every number. Fuel that runs out is None as
  a fault is, so that a theorem that gives a result says that there was enough.

  \<^bold>\<open>The properties\<close> are the theorems with a claim number, in the theories named Keyed_Containers, Uintx_Test and \<open>_Properties\<close>. Where the code goes wrong
  the theorems say how: the exact condition of an overrun, the fault of a removal, the descriptor used after close or
  leaked, the value overwritten under another key, the block returned after another took its place.

  \<^bold>\<open>Not modelled.\<close> \<open>uintx_print\<close>, the functions under \<open>__BTREE_DEBUG\<close> and the \<open>main\<close> functions of the other test programs only print or time what
  the modelled functions return. The code under USE_MMSTREAM_BITMAP is disabled in the source. Insertions that split a leaf and trees that are written with more than one
  level have their definitions (\<open>node_sync\<close> and the fetch of a child are those of the source) but no theorem on what is read back:
  a child is allocated for the level above its parent, so that its node has the wrong array. The memory model of the
  threads of workqueue is sequentially consistent. The \<open>user_data\<close> of a callback is part of the callback.
\<close>

end
